(* ===== verification/Scepter_Prelude.thy ===== *)
theory Scepter_Prelude
  imports Main "HOL-Library.Word"
begin

text \<open>
  Shared vocabulary of the development: the machine integer types of the i386 build, the
  error numbers of \<^verbatim>\<open>include/errno.h\<close>, the wrap-around of \<^verbatim>\<open>uint32_t\<close> arithmetic on
  natural numbers, the two bitmap interfaces that the page allocator and the vmalloc
  allocator both implement, and the lemmas on lists and words the components share.
\<close>

unbundle bit_operations_syntax

section \<open>Machine integers\<close>

type_synonym u8 = "8 word"
type_synonym u16 = "16 word"
type_synonym u32 = "32 word"

text \<open>
  Counters, offsets and lengths declared \<^verbatim>\<open>uint32_t\<close> or \<^verbatim>\<open>size_t\<close> are natural numbers
  below \<open>2 ^ 32\<close>; every operation of the code that can wrap around is written with
  \<open>w32\<close>. Addresses, masks and bitmap words are \<^typ>\<open>u32\<close>.
\<close>

definition w32 :: "nat \<Rightarrow> nat" where
  "w32 n = n mod 4294967296"

definition sub32 :: "nat \<Rightarrow> nat \<Rightarrow> nat" where
  "sub32 a b = (a + (4294967296 - b mod 4294967296)) mod 4294967296"

text \<open>The conversion \<^verbatim>\<open>(int)x\<close> of a \<^verbatim>\<open>uint32_t\<close> value.\<close>

definition to_int :: "nat \<Rightarrow> int" where
  "to_int n = (if w32 n < 2147483648 then int (w32 n) else int (w32 n) - 4294967296)"

text \<open>The result of \<^verbatim>\<open>int\<close> arithmetic as it is compiled, two's complement.\<close>

definition wrap32 :: "int \<Rightarrow> int" where
  "wrap32 i = to_int (nat (i mod 4294967296))"

lemma w32_id [simp]: "n < 4294967296 \<Longrightarrow> w32 n = n"
  by (simp add: w32_def)

lemma w32_less [simp]: "w32 n < 4294967296"
  by (simp add: w32_def)

lemma sub32_eq [simp]: "b \<le> a \<Longrightarrow> a < 4294967296 \<Longrightarrow> sub32 a b = a - b"
proof -
  assume "b \<le> a" "a < 4294967296"
  then have "a + (4294967296 - b mod 4294967296) = (a - b) + 4294967296" by simp
  then show ?thesis using \<open>a < 4294967296\<close> by (simp add: sub32_def)
qed

lemma to_int_small [simp]: "n < 2147483648 \<Longrightarrow> to_int n = int n"
  by (simp add: to_int_def)

lemma wrap32_id [simp]: "- 2147483648 \<le> i \<Longrightarrow> i < 2147483648 \<Longrightarrow> wrap32 i = i"
proof -
  assume i: "- 2147483648 \<le> i" "i < 2147483648"
  show ?thesis
  proof (cases "0 \<le> i")
    case True
    then show ?thesis using i by (simp add: wrap32_def to_int_def)
  next
    case False
    then have "i mod 4294967296 = i + 4294967296" using i mod_pos_pos_trivial [of "i + 4294967296" 4294967296] by simp
    then show ?thesis using i False by (simp add: wrap32_def to_int_def nat_less_iff)
  qed
qed

section \<open>Error numbers\<close>

abbreviation (input) "EPERM \<equiv> (1::int)"
abbreviation (input) "ENOENT \<equiv> (2::int)"
abbreviation (input) "ESRCH \<equiv> (3::int)"
abbreviation (input) "EINTR \<equiv> (4::int)"
abbreviation (input) "ENXIO \<equiv> (6::int)"
abbreviation (input) "E2BIG \<equiv> (7::int)"
abbreviation (input) "EBADF \<equiv> (9::int)"
abbreviation (input) "ECHILD \<equiv> (10::int)"
abbreviation (input) "EAGAIN \<equiv> (11::int)"
abbreviation (input) "ENOMEM \<equiv> (12::int)"
abbreviation (input) "EFAULT \<equiv> (14::int)"
abbreviation (input) "EINVAL \<equiv> (22::int)"
abbreviation (input) "EPIPE \<equiv> (32::int)"

section \<open>Ring indices\<close>

lemma mod_shift_inj:
  fixes h k j m :: nat
  assumes "(h + k) mod m = (h + j) mod m" "k < m" "j < m"
  shows "k = j"
proof -
  have "int (h + k) mod int m = int (h + j) mod int m" using assms(1) by (metis zmod_int)
  then have "int m dvd int k - int j" by (simp add: mod_eq_dvd_iff)
  moreover have "\<bar>int k - int j\<bar> < int m" using assms(2,3) by simp
  ultimately show ?thesis using dvd_imp_le_int [of "int k - int j" "int m"] by fastforce
qed

section \<open>Tables with free entries\<close>

lemma filter_upd_outside:
  "i < length xs \<Longrightarrow> \<not> P (xs ! i) \<Longrightarrow> \<not> P x \<Longrightarrow> List.filter P (xs[i := x]) = List.filter P xs"
  by (induction xs arbitrary: i) (auto split: nat.splits)

section \<open>Bits of a word\<close>

lemma bit_or_one: "n < 32 \<Longrightarrow> bit ((w::u32) OR push_bit n 1) m \<longleftrightarrow> bit w m \<or> m = n"
  by (auto simp: bit_simps dest: bit_imp_le_length)

lemma bit_and_not_one: "n < 32 \<Longrightarrow> bit ((w::u32) AND NOT (push_bit n 1)) m \<longleftrightarrow> bit w m \<and> m \<noteq> n"
  by (auto simp: bit_simps dest: bit_imp_le_length)

lemma and_push_bit_one_iff: "(w::u32) AND push_bit n 1 \<noteq> 0 \<longleftrightarrow> bit w n"
  by (simp flip: push_bit_eq_mult mask_eq_exp_minus_1 add: bit_iff_and_push_bit_not_eq_0)

lemma div_mod_32_iff: "(i::nat) div 32 = j div 32 \<Longrightarrow> j mod 32 = i mod 32 \<longleftrightarrow> i = j"
  by (metis div_mult_mod_eq)

text \<open>What one word update does to the bit read through the same index arithmetic.\<close>

lemma bitmap_word_set:
  "bit ((bm(i div 32 := bm (i div 32) OR push_bit (i mod 32) (1::u32))) (j div 32)) (j mod 32)
    \<longleftrightarrow> i = j \<or> bit (bm (j div 32)) (j mod 32)"
proof (cases "i div 32 = j div 32")
  case True
  have "j mod 32 = i mod 32 \<longleftrightarrow> i = j" using True by (rule div_mod_32_iff)
  moreover have "i mod 32 < 32" by simp
  ultimately show ?thesis
    using bit_or_one [of "i mod 32" "bm (j div 32)" "j mod 32"] True by auto
next
  case False
  then show ?thesis by auto
qed

lemma bitmap_word_clear:
  "bit ((bm(i div 32 := bm (i div 32) AND NOT (push_bit (i mod 32) (1::u32)))) (j div 32)) (j mod 32)
    \<longleftrightarrow> i \<noteq> j \<and> bit (bm (j div 32)) (j mod 32)"
proof (cases "i div 32 = j div 32")
  case True
  have "j mod 32 = i mod 32 \<longleftrightarrow> i = j" using True by (rule div_mod_32_iff)
  moreover have "i mod 32 < 32" by simp
  ultimately show ?thesis
    using bit_and_not_one [of "i mod 32" "bm (j div 32)" "j mod 32"] True by auto
next
  case False
  then show ?thesis by auto
qed

section \<open>Bitmaps and the search for a run of clear bits\<close>

text \<open>
  \<^verbatim>\<open>mm/buddy.c\<close> and \<^verbatim>\<open>mm/vmalloc.c\<close> each keep a bitmap and look for \<open>count\<close>
  consecutive clear bits with the same loop. The interface: what setting and clearing
  a bit does to every bit, and the equations of the search loop.
\<close>

locale bitmap_ops =
  fixes bset :: "'s \<Rightarrow> nat \<Rightarrow> 's"
    and bclear :: "'s \<Rightarrow> nat \<Rightarrow> 's"
    and btest :: "'s \<Rightarrow> nat \<Rightarrow> bool"
  assumes test_set: "btest (bset s i) j \<longleftrightarrow> i = j \<or> btest s j"
    and test_clear: "btest (bclear s i) j \<longleftrightarrow> i \<noteq> j \<and> btest s j"
begin

lemma test_set_range:
  "btest (fold (\<lambda>i s. bset s (a + i)) [0..<n] s) j \<longleftrightarrow> (a \<le> j \<and> j < a + n) \<or> btest s j"
proof (induction n)
  case (Suc n)
  then show ?case by (auto simp: test_set)
qed auto

lemma test_clear_range:
  "btest (fold (\<lambda>i s. bclear s (a + i)) [0..<n] s) j \<longleftrightarrow> \<not> (a \<le> j \<and> j < a + n) \<and> btest s j"
proof (induction n)
  case (Suc n)
  then show ?case by (auto simp: test_clear)
qed auto

end

locale run_search = bitmap_ops bset bclear btest
  for bset :: "'s \<Rightarrow> nat \<Rightarrow> 's" and bclear :: "'s \<Rightarrow> nat \<Rightarrow> 's" and btest :: "'s \<Rightarrow> nat \<Rightarrow> bool" +
  fixes loop :: "'s \<Rightarrow> nat \<Rightarrow> nat list \<Rightarrow> nat \<Rightarrow> nat \<Rightarrow> nat option"
  assumes loop_Nil: "loop s count [] c st = None"
    and loop_used: "btest s i \<Longrightarrow> loop s count (i # xs) c st = loop s count xs 0 st"
    and loop_clear: "\<not> btest s i \<Longrightarrow> loop s count (i # xs) c st =
          (if Suc c = count then Some (if c = 0 then i else st)
           else loop s count xs (Suc c) (if c = 0 then i else st))"
begin

lemma loop_zero: "loop s 0 xs c st = None"
proof (induction xs arbitrary: c st)
  case Nil
  then show ?case by (rule loop_Nil)
next
  case (Cons i xs)
  then show ?case by (cases "btest s i") (simp_all add: loop_used loop_clear)
qed

text \<open>
  The state of the loop at index \<open>i\<close>: the \<open>c\<close> bits below \<open>i\<close> are clear and start at
  \<open>st\<close>, and no run of \<open>count\<close> clear bits starts below \<open>i - c\<close>.
\<close>

lemma loop_spec:
  assumes "i \<le> n" "c \<le> i" "c > 0 \<longrightarrow> st = i - c" "\<And>k. i - c \<le> k \<Longrightarrow> k < i \<Longrightarrow> \<not> btest s k"
    and "c < count"
    and "\<And>r. r < i - c \<Longrightarrow> \<exists>k. r \<le> k \<and> k < r + count \<and> btest s k"
  shows "case loop s count [i..<n] c st of
      None \<Rightarrow> (\<forall>r. r + count \<le> n \<longrightarrow> (\<exists>k. r \<le> k \<and> k < r + count \<and> btest s k))
    | Some r \<Rightarrow> r + count \<le> n \<and> (\<forall>k. r \<le> k \<and> k < r + count \<longrightarrow> \<not> btest s k)
        \<and> (\<forall>q < r. \<exists>k. q \<le> k \<and> k < q + count \<and> btest s k)"
  using assms
proof (induction "n - i" arbitrary: i c st)
  case 0
  then have "i = n" by simp
  have "\<exists>k. r \<le> k \<and> k < r + count \<and> btest s k" if "r + count \<le> n" for r
    using that \<open>i = n\<close> "0.prems"(5) by (intro "0.prems"(6)) simp
  then show ?case using \<open>i = n\<close> by (simp add: loop_Nil)
next
  case (Suc d)
  then have upt: "[i..<n] = i # [Suc i..<n]" and d: "d = n - Suc i" "Suc i \<le> n"
    by (simp_all add: upt_rec)
  show ?case
  proof (cases "btest s i")
    case True
    have eq: "loop s count [i..<n] c st = loop s count [Suc i..<n] 0 st"
      by (simp add: upt loop_used True)
    have "\<exists>k. r \<le> k \<and> k < r + count \<and> btest s k" if "r < Suc i" for r
    proof (cases "r < i - c")
      case False
      then show ?thesis using Suc.prems(5) that True by (intro exI [of _ i]) auto
    qed (rule Suc.prems(6))
    then show ?thesis unfolding eq using Suc.prems(5) d by (intro Suc.hyps(1)) auto
  next
    case False
    let ?st = "if c = 0 then i else st"
    have st: "?st = i - c" using Suc.prems(3) by auto
    have clear: "\<not> btest s k" if "i - c \<le> k" "k < Suc i" for k
      using that False Suc.prems(4) by (cases "k = i") auto
    show ?thesis
    proof (cases "Suc c = count")
      case True
      have "i - c + count = Suc i" using True Suc.prems(2) by simp
      then show ?thesis
        using True st clear Suc.prems(6) d by (simp add: upt loop_clear [OF False])
    next
      case ne: False
      have eq: "loop s count [i..<n] c st = loop s count [Suc i..<n] (Suc c) ?st"
        by (simp add: upt loop_clear [OF False] ne)
      show ?thesis unfolding eq
        using Suc.prems d st clear ne by (intro Suc.hyps(1)) (simp_all)
    qed
  qed
qed

lemma loop_Some:
  assumes "loop s count [0..<n] 0 st = Some r"
  shows "0 < count \<and> r + count \<le> n \<and> (\<forall>k. r \<le> k \<and> k < r + count \<longrightarrow> \<not> btest s k)
    \<and> (\<forall>q < r. \<exists>k. q \<le> k \<and> k < q + count \<and> btest s k)"
proof -
  have "0 < count" using assms loop_zero by (cases count) auto
  then show ?thesis using loop_spec [of 0 n 0 st s count] assms by simp
qed

lemma loop_None:
  assumes "loop s count [0..<n] 0 st = None" "0 < count" "r + count \<le> n"
  shows "\<exists>k. r \<le> k \<and> k < r + count \<and> btest s k"
  using loop_spec [of 0 n 0 st s count] assms by simp

end

section \<open>Bounded first-in first-out buffers\<close>

text \<open>
  A buffer between a producer and a consumer: \<open>put\<close> accepts a prefix of what it is offered,
  \<open>get\<close> hands out at most as many elements as asked for. \<open>run_buffer\<close> runs a sequence of
  calls and collects what went in and what came out.
\<close>

datatype 'a buffer_op = Put "'a list" | Get nat

fun run_buffer :: "('s \<Rightarrow> 'a list \<Rightarrow> nat \<times> 's) \<Rightarrow> ('s \<Rightarrow> nat \<Rightarrow> 'a list \<times> 's)
    \<Rightarrow> 's \<Rightarrow> 'a buffer_op list \<Rightarrow> 'a list \<times> 'a list \<times> 's" where
  "run_buffer put get s [] = ([], [], s)"
| "run_buffer put get s (Put xs # ops) =
     (let (n, s) = put s xs; (ins, outs, s) = run_buffer put get s ops in (take n xs @ ins, outs, s))"
| "run_buffer put get s (Get k # ops) =
     (let (ys, s) = get s k; (ins, outs, s) = run_buffer put get s ops in (ins, ys @ outs, s))"

locale fifo_buffer =
  fixes inv :: "'s \<Rightarrow> bool" and content :: "'s \<Rightarrow> 'a list"
    and put :: "'s \<Rightarrow> 'a list \<Rightarrow> nat \<times> 's" and get :: "'s \<Rightarrow> nat \<Rightarrow> 'a list \<times> 's"
  assumes put_law: "inv s \<Longrightarrow> put s xs = (n, s') \<Longrightarrow> inv s' \<and> content s' = content s @ take n xs"
    and get_law: "inv s \<Longrightarrow> get s k = (ys, s') \<Longrightarrow> inv s' \<and> content s = ys @ content s' \<and> length ys \<le> k"
begin

lemma run_fifo:
  "inv s \<Longrightarrow> run_buffer put get s ops = (ins, outs, s')
    \<Longrightarrow> inv s' \<and> content s @ ins = outs @ content s'"
proof (induction ops arbitrary: s s' ins outs)
  case Nil
  then show ?case by simp
next
  case (Cons op ops)
  show ?case
  proof (cases op)
    case (Put xs)
    obtain n t where p: "put s xs = (n, t)" by fastforce
    obtain i o' t' where r: "run_buffer put get t ops = (i, o', t')" by (metis prod_cases3)
    show ?thesis
      using Cons.prems Cons.IH [OF _ r] put_law [OF Cons.prems(1) p] by (simp add: Put p r)
  next
    case (Get k)
    obtain ys t where g: "get s k = (ys, t)" by fastforce
    obtain i o' t' where r: "run_buffer put get t ops = (i, o', t')" by (metis prod_cases3)
    show ?thesis
      using Cons.prems Cons.IH [OF _ r] get_law [OF Cons.prems(1) g] by (auto simp: Get g r)
  qed
qed

end

lemma find_snoc: "find P (xs @ [x]) = (case find P xs of None \<Rightarrow> if P x then Some x else None | Some y \<Rightarrow> Some y)"
  by (induction xs) auto

end
