(* ===== verification/Page_Alloc.thy ===== *)
theory Page_Alloc
  imports Scepter_Prelude
begin

text \<open>
  The physical page allocator of \<^verbatim>\<open>mm/buddy.c\<close> (a first-fit bitmap allocator): its state,
  every operation, the invariant that the free counter counts the clear bits, and the
  correctness of allocation and release. The bitmap array is a function from word index
  to word; \<open>bitmap_in_range\<close> shows that the code never leaves its \<^verbatim>\<open>MAX_PAGES / 32\<close> words.
\<close>

section \<open>State\<close>

definition MAX_PAGES :: nat where "MAX_PAGES = 262144"

definition PAGE_SIZE :: nat where "PAGE_SIZE = 4096"

definition KERNEL_VMA :: u32 where "KERNEL_VMA = 0xC0000000"

definition MEM_PHY :: u32 where "MEM_PHY = 1"

definition MEM_MAP :: u32 where "MEM_MAP = 2"

record page_allocator =
  base_phys :: u32
  total_pages :: nat
  free_pages :: nat
  bitmap :: "nat \<Rightarrow> u32"

definition phys_to_virt :: "u32 \<Rightarrow> u32" where
  "phys_to_virt phys = phys + KERNEL_VMA"

definition virt_to_phys :: "u32 \<Rightarrow> u32" where
  "virt_to_phys virt = virt - KERNEL_VMA"

section \<open>Bitmap helpers\<close>

definition bitmap_set :: "page_allocator \<Rightarrow> nat \<Rightarrow> page_allocator" where
  "bitmap_set s page_idx = s\<lparr>bitmap := (bitmap s)
     (page_idx div 32 := bitmap s (page_idx div 32) OR push_bit (page_idx mod 32) 1)\<rparr>"

definition bitmap_clear :: "page_allocator \<Rightarrow> nat \<Rightarrow> page_allocator" where
  "bitmap_clear s page_idx = s\<lparr>bitmap := (bitmap s)
     (page_idx div 32 := bitmap s (page_idx div 32) AND NOT (push_bit (page_idx mod 32) 1))\<rparr>"

definition bitmap_test :: "page_allocator \<Rightarrow> nat \<Rightarrow> bool" where
  "bitmap_test s page_idx \<longleftrightarrow> bitmap s (page_idx div 32) AND push_bit (page_idx mod 32) 1 \<noteq> 0"

text \<open>The \<^verbatim>\<open>for\<close> loop of \<^verbatim>\<open>find_free_pages\<close>, over the indices still to be visited.\<close>

fun find_free_loop :: "page_allocator \<Rightarrow> nat \<Rightarrow> nat list \<Rightarrow> nat \<Rightarrow> nat \<Rightarrow> nat option" where
  "find_free_loop s count [] consecutive start_idx = None"
| "find_free_loop s count (i # is) consecutive start_idx =
     (if \<not> bitmap_test s i then
        let start_idx = (if consecutive = 0 then i else start_idx);
            consecutive = Suc consecutive
        in if consecutive = count then Some start_idx
           else find_free_loop s count is consecutive start_idx
      else find_free_loop s count is 0 start_idx)"

definition find_free_pages :: "page_allocator \<Rightarrow> nat \<Rightarrow> nat option" where
  "find_free_pages s count = find_free_loop s count [0..<total_pages s] 0 0"

section \<open>Public interface\<close>

definition buddy_init :: "u32 \<Rightarrow> nat \<Rightarrow> page_allocator" where
  "buddy_init base total_kb =
     (let total_bytes = w32 (total_kb * 1024);
          total = total_bytes div PAGE_SIZE;
          total = (if total > MAX_PAGES then MAX_PAGES else total)
      in \<lparr>base_phys = base, total_pages = total, free_pages = total, bitmap = (\<lambda>_. 0)\<rparr>)"

definition mark_allocated :: "page_allocator \<Rightarrow> nat \<Rightarrow> nat \<Rightarrow> page_allocator" where
  "mark_allocated s start_idx n = fold (\<lambda>i s. bitmap_set s (start_idx + i)) [0..<n] s"

definition pages_needed_for :: "nat \<Rightarrow> nat" where
  "pages_needed_for sz = w32 (sz + PAGE_SIZE - 1) div PAGE_SIZE"

definition page_alloc_flags :: "page_allocator \<Rightarrow> nat \<Rightarrow> u32 \<Rightarrow> u32 \<times> page_allocator" where
  "page_alloc_flags s sz flags =
     (if sz = 0 then (0, s)
      else
        let pages_needed = pages_needed_for sz
        in if pages_needed > free_pages s then (0, s)
           else case find_free_pages s pages_needed of
             None \<Rightarrow> (0, s)
           | Some start_idx \<Rightarrow>
               let s = mark_allocated s start_idx pages_needed;
                   s = s\<lparr>free_pages := free_pages s - pages_needed\<rparr>;
                   phys = base_phys s + word_of_nat (start_idx * PAGE_SIZE)
               in if flags AND MEM_PHY \<noteq> 0 then (phys, s) else (phys_to_virt phys, s))"

definition page_alloc :: "page_allocator \<Rightarrow> nat \<Rightarrow> u32 \<times> page_allocator" where
  "page_alloc s sz = page_alloc_flags s sz MEM_MAP"

definition page_free :: "page_allocator \<Rightarrow> u32 \<Rightarrow> page_allocator" where
  "page_free s addr =
     (if addr = 0 then s
      else
        let phys = (if addr \<ge> KERNEL_VMA then virt_to_phys addr else addr)
        in if phys < base_phys s then s
           else
             let page_idx = unat (phys - base_phys s) div PAGE_SIZE
             in if page_idx \<ge> total_pages s then s
                else if \<not> bitmap_test s page_idx then s
                else (bitmap_clear s page_idx)\<lparr>free_pages := w32 (free_pages s + 1)\<rparr>)"

definition buddy_total_pages :: "page_allocator \<Rightarrow> nat" where
  "buddy_total_pages s = total_pages s"

definition buddy_free_pages :: "page_allocator \<Rightarrow> nat" where
  "buddy_free_pages s = free_pages s"

definition buddy_used_pages :: "page_allocator \<Rightarrow> nat" where
  "buddy_used_pages s = sub32 (total_pages s) (free_pages s)"

section \<open>The bitmap interfaces\<close>

lemma bitmap_test_bit: "bitmap_test s i \<longleftrightarrow> bit (bitmap s (i div 32)) (i mod 32)"
  unfolding bitmap_test_def by (rule and_push_bit_one_iff)

lemma bitmap_set_simps [simp]:
  "base_phys (bitmap_set s i) = base_phys s" "total_pages (bitmap_set s i) = total_pages s"
  "free_pages (bitmap_set s i) = free_pages s"
  by (simp_all add: bitmap_set_def)

lemma bitmap_clear_simps [simp]:
  "base_phys (bitmap_clear s i) = base_phys s" "total_pages (bitmap_clear s i) = total_pages s"
  "free_pages (bitmap_clear s i) = free_pages s"
  by (simp_all add: bitmap_clear_def)

lemma bitmap_of_set: "bitmap (bitmap_set s i) =
    (bitmap s)(i div 32 := bitmap s (i div 32) OR push_bit (i mod 32) 1)"
  by (simp add: bitmap_set_def)

lemma bitmap_of_clear: "bitmap (bitmap_clear s i) =
    (bitmap s)(i div 32 := bitmap s (i div 32) AND NOT (push_bit (i mod 32) 1))"
  by (simp add: bitmap_clear_def)

interpretation page_bits: bitmap_ops bitmap_set bitmap_clear bitmap_test
  by unfold_locales
    (simp_all only: bitmap_test_bit bitmap_of_set bitmap_of_clear bitmap_word_set bitmap_word_clear)

interpretation page_run: run_search bitmap_set bitmap_clear bitmap_test find_free_loop
  by unfold_locales (simp_all add: Let_def)

lemma mark_allocated_simps [simp]:
  "base_phys (mark_allocated s a n) = base_phys s"
  "total_pages (mark_allocated s a n) = total_pages s"
  "free_pages (mark_allocated s a n) = free_pages s"
  by (induction n) (simp_all add: mark_allocated_def)

lemma bitmap_test_mark [simp]:
  "bitmap_test (mark_allocated s a n) j \<longleftrightarrow> (a \<le> j \<and> j < a + n) \<or> bitmap_test s j"
  by (simp add: mark_allocated_def page_bits.test_set_range)

lemma bitmap_test_update [simp]: "bitmap_test (s\<lparr>free_pages := f\<rparr>) j = bitmap_test s j"
  by (simp add: bitmap_test_def)

section \<open>Abstraction and invariant\<close>

text \<open>The set of allocated pages is what the bitmap stands for.\<close>

definition allocated :: "page_allocator \<Rightarrow> nat set" where
  "allocated s = {i. i < total_pages s \<and> bitmap_test s i}"

definition alloc_inv :: "page_allocator \<Rightarrow> bool" where
  "alloc_inv s \<longleftrightarrow> total_pages s \<le> MAX_PAGES \<and> free_pages s + card (allocated s) = total_pages s"

definition page_addr :: "page_allocator \<Rightarrow> nat \<Rightarrow> u32" where
  "page_addr s i = phys_to_virt (base_phys s + word_of_nat (i * PAGE_SIZE))"

lemma finite_allocated [simp]: "finite (allocated s)"
  by (simp add: allocated_def)

lemma allocated_update [simp]: "allocated (s\<lparr>free_pages := f\<rparr>) = allocated s"
  by (simp add: allocated_def)

lemma allocated_mark:
  assumes "a + n \<le> total_pages s"
  shows "allocated (mark_allocated s a n) = allocated s \<union> {a..<a + n}"
  using assms by (auto simp: allocated_def)

lemma allocated_clear: "allocated (bitmap_clear s i) = allocated s - {i}"
  by (auto simp: allocated_def page_bits.test_clear)

lemma find_free_pages_Some:
  assumes "find_free_pages s n = Some r"
  shows "0 < n" "r + n \<le> total_pages s" "{r..<r + n} \<inter> allocated s = {}"
    "\<And>q. q < r \<Longrightarrow> {q..<q + n} \<inter> allocated s \<noteq> {}"
proof -
  note spec = page_run.loop_Some [OF assms [unfolded find_free_pages_def]]
  from spec show "0 < n" "r + n \<le> total_pages s" by simp_all
  from spec show "{r..<r + n} \<inter> allocated s = {}" by (auto simp: allocated_def)
  fix q assume "q < r"
  with spec obtain k where "q \<le> k" "k < q + n" "bitmap_test s k" by blast
  moreover have "k < total_pages s" using spec \<open>q < r\<close> \<open>k < q + n\<close> by simp
  ultimately show "{q..<q + n} \<inter> allocated s \<noteq> {}" by (auto simp: allocated_def)
qed

lemma find_free_pages_None:
  assumes "find_free_pages s n = None" "0 < n" "r + n \<le> total_pages s"
  shows "{r..<r + n} \<inter> allocated s \<noteq> {}"
proof -
  obtain k where "r \<le> k" "k < r + n" "bitmap_test s k"
    using page_run.loop_None [OF assms(1) [unfolded find_free_pages_def] assms(2,3)] by blast
  then show ?thesis using assms(3) by (auto simp: allocated_def)
qed

lemma free_counter_enough:
  assumes "alloc_inv s" "r + n \<le> total_pages s" "{r..<r + n} \<inter> allocated s = {}"
  shows "n \<le> free_pages s"
proof -
  have "allocated s \<union> {r..<r + n} \<subseteq> {..<total_pages s}"
    using assms(2) by (auto simp: allocated_def)
  then have "card (allocated s \<union> {r..<r + n}) \<le> total_pages s"
    using card_mono [of "{..<total_pages s}"] by simp
  moreover have "card (allocated s \<union> {r..<r + n}) = card (allocated s) + n"
    using assms(3) by (subst card_Un_disjoint) auto
  ultimately show ?thesis using assms(1) by (simp add: alloc_inv_def)
qed

section \<open>Allocation\<close>

definition pages_for :: "nat \<Rightarrow> nat" where
  "pages_for sz = (sz + PAGE_SIZE - 1) div PAGE_SIZE"

text \<open>
  Every call either leaves the allocator as it was and returns \<^verbatim>\<open>NULL\<close>, or takes the
  first run of clear bits. A size within 4095 bytes of \<open>2 ^ 32\<close> wraps to zero pages, for
  which the search never succeeds.
\<close>

lemma page_alloc_flags_cases:
  obtains (fail) "page_alloc_flags s sz flags = (0, s)" "0 < sz \<longrightarrow> pages_needed_for sz \<le> free_pages s
      \<longrightarrow> find_free_pages s (pages_needed_for sz) = None"
  | (ok) r where "pages_needed_for sz \<le> free_pages s"
      "find_free_pages s (pages_needed_for sz) = Some r" "0 < sz"
      "page_alloc_flags s sz flags =
        (if flags AND MEM_PHY \<noteq> 0 then base_phys s + word_of_nat (r * PAGE_SIZE) else page_addr s r,
         (mark_allocated s r (pages_needed_for sz))\<lparr>free_pages := free_pages s - pages_needed_for sz\<rparr>)"
proof (cases "0 < sz \<and> pages_needed_for sz \<le> free_pages s")
  case False
  then show ?thesis by (intro fail) (auto simp: page_alloc_flags_def Let_def)
next
  case True
  show ?thesis
  proof (cases "find_free_pages s (pages_needed_for sz)")
    case None
    with True show ?thesis by (intro fail) (simp_all add: page_alloc_flags_def Let_def)
  next
    case (Some r)
    with True show ?thesis
      by (intro ok [of r]) (simp_all add: page_alloc_flags_def Let_def page_addr_def del: of_nat_mult)
  qed
qed

lemma pages_needed_exact: "sz + PAGE_SIZE \<le> 2 ^ 32 \<Longrightarrow> pages_needed_for sz = pages_for sz"
  by (simp add: pages_needed_for_def pages_for_def PAGE_SIZE_def)

lemma pages_needed_wrap:
  assumes "sz < 2 ^ 32" "\<not> sz + PAGE_SIZE \<le> 2 ^ 32"
  shows "pages_needed_for sz = 0"
proof -
  define k where "k = sz + 4095 - 4294967296"
  have "sz + 4095 = 4294967296 + k" "k < 4096"
    using assms by (simp_all add: PAGE_SIZE_def k_def)
  then show ?thesis by (simp add: pages_needed_for_def PAGE_SIZE_def w32_def)
qed

lemma pages_for_pos: "0 < sz \<Longrightarrow> 0 < pages_for sz"
  by (simp add: pages_for_def PAGE_SIZE_def div_greater_zero_iff)

lemma alloc_inv_mark:
  assumes "alloc_inv s" "find_free_pages s n = Some r" "n \<le> free_pages s"
  shows "alloc_inv ((mark_allocated s r n)\<lparr>free_pages := free_pages s - n\<rparr>)"
proof -
  note r = find_free_pages_Some [OF assms(2)]
  have "card (allocated s \<union> {r..<r + n}) = card (allocated s) + n"
    using r(3) by (subst card_Un_disjoint) auto
  then show ?thesis using assms r by (simp add: alloc_inv_def allocated_mark)
qed

lemma alloc_inv_page_alloc_flags:
  assumes "alloc_inv s"
  shows "alloc_inv (snd (page_alloc_flags s sz flags))"
  by (cases rule: page_alloc_flags_cases [of s sz flags]) (simp_all add: assms alloc_inv_mark)

lemma alloc_inv_page_free:
  assumes "alloc_inv s"
  shows "alloc_inv (page_free s addr)"
proof -
  have "alloc_inv ((bitmap_clear s i)\<lparr>free_pages := w32 (free_pages s + 1)\<rparr>)"
    if "i < total_pages s" "bitmap_test s i" for i
  proof -
    have i: "i \<in> allocated s" using that by (simp add: allocated_def)
    then have "0 < card (allocated s)" using card_gt_0_iff [of "allocated s"] by auto
    moreover have "free_pages s + 1 < 4294967296"
      using assms by (simp add: alloc_inv_def MAX_PAGES_def)
    ultimately show ?thesis using assms i by (simp add: alloc_inv_def allocated_clear)
  qed
  then show ?thesis using assms by (auto simp: page_free_def Let_def not_le)
qed

lemma alloc_inv_buddy_init: "alloc_inv (buddy_init base kb)"
  by (simp add: buddy_init_def Let_def alloc_inv_def allocated_def bitmap_test_def)

text \<open>
  No operation touches a word of the bitmap beyond the array: the indices it uses are
  below \<open>total_pages \<le> MAX_PAGES\<close>.
\<close>

lemma bitmap_in_range: "alloc_inv s \<Longrightarrow> i < total_pages s \<Longrightarrow> i div 32 < MAX_PAGES div 32"
  using div_le_mono [of i 262143 32] by (simp add: alloc_inv_def MAX_PAGES_def)

text \<open>
  C1: a call of page_alloc that moves the allocator returns the address of the first run of
  enough free pages, exactly as many as the size needs; precisely those pages become
  allocated, the counter drops by their number and the invariant holds. When it does not,
  the size is 0 or wraps around, or there is no such run at all: first fit is complete.
\<close>

theorem page_alloc_first_fit:
  assumes "alloc_inv s" "sz < 2 ^ 32" "page_alloc s sz = (p, s')"
  shows "(\<exists>r. p = page_addr s r \<and> 0 < sz \<and> r + pages_for sz \<le> total_pages s
        \<and> {r..<r + pages_for sz} \<inter> allocated s = {}
        \<and> (\<forall>q < r. {q..<q + pages_for sz} \<inter> allocated s \<noteq> {})
        \<and> allocated s' = allocated s \<union> {r..<r + pages_for sz}
        \<and> free_pages s' + pages_for sz = free_pages s \<and> alloc_inv s')
    \<or> (p = 0 \<and> s' = s \<and> (sz = 0 \<or> sz + PAGE_SIZE > 2 ^ 32
        \<or> (\<forall>r. r + pages_for sz \<le> total_pages s \<longrightarrow> {r..<r + pages_for sz} \<inter> allocated s \<noteq> {})))"
proof (cases rule: page_alloc_flags_cases [of s sz MEM_MAP])
  case fail
  have "{r..<r + pages_for sz} \<inter> allocated s \<noteq> {}"
    if "0 < sz" "sz + PAGE_SIZE \<le> 2 ^ 32" "r + pages_for sz \<le> total_pages s" for r
  proof
    assume free: "{r..<r + pages_for sz} \<inter> allocated s = {}"
    then have "pages_for sz \<le> free_pages s"
      using free_counter_enough assms(1) that(3) by blast
    then have "find_free_pages s (pages_for sz) = None"
      using fail(2) that by (simp add: pages_needed_exact)
    then show False using find_free_pages_None pages_for_pos that free by blast
  qed
  then show ?thesis using fail(1) assms(3) by (intro disjI2) (auto simp: page_alloc_def not_less)
next
  case (ok r)
  note r = find_free_pages_Some [OF ok(2)]
  have n: "pages_needed_for sz = pages_for sz"
    using pages_needed_exact pages_needed_wrap [OF assms(2)] r(1) by fastforce
  have p: "p = page_addr s r"
    and s': "s' = (mark_allocated s r (pages_for sz))\<lparr>free_pages := free_pages s - pages_for sz\<rparr>"
    using assms(3) ok(4) by (auto simp: page_alloc_def MEM_MAP_def MEM_PHY_def n)
  have "alloc_inv s'" using alloc_inv_mark [OF assms(1) ok(2,1)] by (simp add: s' n)
  then show ?thesis
    using r ok(1,3) by (intro disjI1 exI [of _ r]) (simp add: p s' n allocated_mark)
qed

lemma allocated_buddy_init [simp]: "allocated (buddy_init base kb) = {}"
  by (simp add: buddy_init_def Let_def allocated_def bitmap_test_def)

text \<open>Ten pages at 1 MB: a request of 5000 bytes takes pages 0 and 1.\<close>

theorem page_alloc_first_fit_witness:
  "allocated (snd (page_alloc (buddy_init 0x100000 40) 5000)) = {0, 1}"
proof -
  let ?s = "buddy_init 0x100000 40"
  have n: "pages_for 5000 = 2" "total_pages ?s = 10"
    by (simp_all add: pages_for_def PAGE_SIZE_def buddy_init_def MAX_PAGES_def)
  have "(\<forall>q. \<not> q < r) \<longleftrightarrow> r = 0" for r :: nat by auto
  then show ?thesis
    using page_alloc_first_fit [of ?s 5000 "fst (page_alloc ?s 5000)" "snd (page_alloc ?s 5000)"] n
      alloc_inv_buddy_init
    by (auto simp: PAGE_SIZE_def atLeastLessThan_nat_numeral intro: exI [of _ 0])
qed

section \<open>Release\<close>

text \<open>The managed range lies in the direct map, so no address wraps around.\<close>

definition direct_mapped :: "page_allocator \<Rightarrow> bool" where
  "direct_mapped s \<longleftrightarrow> unat (base_phys s) + total_pages s * PAGE_SIZE \<le> 0x40000000"

lemma page_addr_decode:
  assumes "direct_mapped s" "i < total_pages s"
  shows "KERNEL_VMA \<le> page_addr s i" "page_addr s i \<noteq> 0"
    "base_phys s \<le> virt_to_phys (page_addr s i)"
    "unat (virt_to_phys (page_addr s i) - base_phys s) div PAGE_SIZE = i"
proof -
  have "(i + 1) * PAGE_SIZE \<le> total_pages s * PAGE_SIZE"
    using assms(2) by (intro mult_le_mono1) simp
  then have b: "unat (base_phys s) + i * 4096 + 4096 \<le> 0x40000000"
    using assms(1) by (simp add: direct_mapped_def PAGE_SIZE_def)
  have k: "unat (word_of_nat (i * PAGE_SIZE) :: u32) = i * 4096"
    using b by (simp add: unat_of_nat PAGE_SIZE_def del: of_nat_mult)
  have ph: "unat (base_phys s + word_of_nat (i * PAGE_SIZE)) = unat (base_phys s) + i * 4096"
    using b k by (subst unat_plus_simple [THEN iffD1]) (simp_all add: no_olen_add_nat del: of_nat_mult)
  have va: "unat (page_addr s i) = unat (base_phys s) + i * 4096 + 0xC0000000"
    unfolding page_addr_def phys_to_virt_def KERNEL_VMA_def
    using b ph by (subst unat_plus_simple [THEN iffD1]) (simp_all add: no_olen_add_nat del: of_nat_mult)
  show "KERNEL_VMA \<le> page_addr s i" using va by (simp add: word_le_nat_alt KERNEL_VMA_def)
  show "page_addr s i \<noteq> 0" using va by (metis unat_0 add_is_0 zero_neq_numeral)
  have vp: "virt_to_phys (page_addr s i) = base_phys s + word_of_nat (i * PAGE_SIZE)"
    by (simp add: page_addr_def virt_to_phys_def phys_to_virt_def del: of_nat_mult)
  show "base_phys s \<le> virt_to_phys (page_addr s i)"
    using ph by (simp add: vp word_le_nat_alt del: of_nat_mult)
  show "unat (virt_to_phys (page_addr s i) - base_phys s) div PAGE_SIZE = i"
    using k by (simp add: vp PAGE_SIZE_def del: of_nat_mult)
qed

lemma page_free_page_addr:
  assumes "direct_mapped s" "i < total_pages s"
  shows "page_free s (page_addr s i) =
    (if i \<in> allocated s then (bitmap_clear s i)\<lparr>free_pages := w32 (free_pages s + 1)\<rparr> else s)"
  using page_addr_decode [OF assms] assms(2)
  by (simp add: page_free_def Let_def allocated_def not_le not_less)

lemma page_free_simps [simp]:
  "base_phys (page_free s a) = base_phys s" "total_pages (page_free s a) = total_pages s"
  by (simp_all add: page_free_def Let_def)

lemma page_addr_cong:
  "base_phys s = base_phys t \<Longrightarrow> page_addr s i = page_addr t i"
  by (simp add: page_addr_def)

text \<open>
  The release loop of \<^verbatim>\<open>free_task\<close> and of every caller that frees a multi-page block:
  \<^verbatim>\<open>page_free\<close> gives back one page per call.
\<close>

definition free_pages_from :: "page_allocator \<Rightarrow> u32 \<Rightarrow> nat \<Rightarrow> page_allocator" where
  "free_pages_from s addr n =
     fold (\<lambda>i s. page_free s (addr + word_of_nat (i * PAGE_SIZE))) [0..<n] s"

lemma free_pages_from_run:
  assumes "direct_mapped s" "alloc_inv s" "r + n \<le> total_pages s" "{r..<r + n} \<subseteq> allocated s"
  shows "allocated (free_pages_from s (page_addr s r) n) = allocated s - {r..<r + n}
    \<and> alloc_inv (free_pages_from s (page_addr s r) n)
    \<and> base_phys (free_pages_from s (page_addr s r) n) = base_phys s
    \<and> total_pages (free_pages_from s (page_addr s r) n) = total_pages s"
  using assms(3,4)
proof (induction n)
  case 0
  then show ?case using assms by (simp add: free_pages_from_def)
next
  case (Suc n)
  let ?t = "free_pages_from s (page_addr s r) n"
  have IH: "allocated ?t = allocated s - {r..<r + n}" "alloc_inv ?t"
    "base_phys ?t = base_phys s" "total_pages ?t = total_pages s"
    using Suc.IH Suc.prems by (simp_all add: atLeastLessThanSuc)
  have addr: "page_addr s r + word_of_nat (n * PAGE_SIZE) = page_addr ?t (r + n)"
    using IH(3) by (simp add: page_addr_def phys_to_virt_def algebra_simps)
  have step: "free_pages_from s (page_addr s r) (Suc n) = page_free ?t (page_addr ?t (r + n))"
    unfolding addr [symmetric] by (simp add: free_pages_from_def)
  have t: "direct_mapped ?t" "r + n < total_pages ?t" "r + n \<in> allocated ?t"
    using assms(1) Suc.prems IH by (auto simp: direct_mapped_def)
  have "allocated (page_free ?t (page_addr ?t (r + n))) = allocated ?t - {r + n}"
    using t by (simp add: page_free_page_addr allocated_clear)
  then show ?case
    unfolding step using IH alloc_inv_page_free [OF IH(2)] by (auto simp: atLeastLessThanSuc)
qed

text \<open>
  freeing, page by page, the block that page_alloc returned gives the allocator back the
  pages and the counter it had before the allocation.
\<close>

theorem page_alloc_free_roundtrip:
  assumes "alloc_inv s" "direct_mapped s" "sz < 2 ^ 32" "page_alloc s sz = (p, s')" "p \<noteq> 0"
  shows "allocated (free_pages_from s' p (pages_for sz)) = allocated s
    \<and> free_pages (free_pages_from s' p (pages_for sz)) = free_pages s"
proof (cases rule: page_alloc_flags_cases [of s sz MEM_MAP])
  case fail
  then show ?thesis using assms(4,5) by (simp add: page_alloc_def)
next
  case (ok r)
  note r = find_free_pages_Some [OF ok(2)]
  have n: "pages_needed_for sz = pages_for sz"
    using pages_needed_exact pages_needed_wrap [OF assms(3)] r(1) by fastforce
  have p: "p = page_addr s' r"
    and s': "s' = (mark_allocated s r (pages_for sz))\<lparr>free_pages := free_pages s - pages_for sz\<rparr>"
    using assms(4) ok(4) by (auto simp: page_alloc_def MEM_MAP_def MEM_PHY_def n page_addr_def)
  have "alloc_inv s'" using alloc_inv_mark [OF assms(1) ok(2,1)] by (simp add: s' n)
  moreover have "allocated s' = allocated s \<union> {r..<r + pages_for sz}"
    using r n by (simp add: s' allocated_mark)
  moreover have "direct_mapped s'" "total_pages s' = total_pages s"
    using assms(2) by (simp_all add: s' direct_mapped_def)
  ultimately have "allocated (free_pages_from s' p (pages_for sz)) = allocated s
      \<and> alloc_inv (free_pages_from s' p (pages_for sz))
      \<and> total_pages (free_pages_from s' p (pages_for sz)) = total_pages s"
    using free_pages_from_run [of s' r "pages_for sz"] r n unfolding p by auto
  then show ?thesis using assms(1) by (metis add_right_cancel alloc_inv_def)
qed

theorem page_alloc_free_roundtrip_witness:
  "page_alloc (buddy_init 0x100000 40) 5000 = (0xC0100000, snd (page_alloc (buddy_init 0x100000 40) 5000))
    \<and> allocated (free_pages_from (snd (page_alloc (buddy_init 0x100000 40) 5000)) 0xC0100000 (pages_for 5000)) = {}"
proof -
  let ?s = "buddy_init 0x100000 40"
  have p: "fst (page_alloc ?s 5000) = 0xC0100000"
    by (simp add: page_alloc_def page_alloc_flags_def Let_def pages_needed_for_def buddy_init_def
        MAX_PAGES_def find_free_pages_def bitmap_test_def PAGE_SIZE_def MEM_MAP_def MEM_PHY_def
        phys_to_virt_def KERNEL_VMA_def upt_conv_Cons)
  have "direct_mapped ?s"
    by (simp add: direct_mapped_def buddy_init_def MAX_PAGES_def PAGE_SIZE_def)
  then show ?thesis
    using page_alloc_free_roundtrip [of ?s 5000 "fst (page_alloc ?s 5000)" "snd (page_alloc ?s 5000)"] p
      alloc_inv_buddy_init by (simp add: prod_eq_iff)
qed

end
