(* ===== verification/Paging.thy ===== *)
theory Paging
  imports Page_Alloc
begin

text \<open>
  The i386 address spaces, \<^verbatim>\<open>arch/i386/paging.c\<close> (the per-process part) and
  \<^verbatim>\<open>arch/i386/uaccess.c\<close>. Virtual addresses and page numbers are natural numbers, page table
  entries 32-bit words; \<open>page_tables\<close> maps a directory index to the table that the pointer of the
  code leads to, if it is not null. Physical memory is a function from byte addresses. What the
  page allocator returns is an argument, 0 on failure; the pages given back are returned as a list.
  \<open>translate\<close> is the walk of the hardware; a copy that meets an unmapped byte is a page fault.
\<close>

section \<open>Entries\<close>

record addr_space =
  page_tables :: "nat \<Rightarrow> (nat \<Rightarrow> u32) option"
  pgdir :: "nat \<Rightarrow> u32"

abbreviation (input) pdi :: "nat \<Rightarrow> nat" where "pdi va \<equiv> va div 4194304"
abbreviation (input) pti :: "nat \<Rightarrow> nat" where "pti va \<equiv> va div 4096 mod 1024"

definition pte_present :: "u32 \<Rightarrow> bool" where "pte_present pte \<longleftrightarrow> pte AND 1 \<noteq> 0"
definition pte_writable :: "u32 \<Rightarrow> bool" where "pte_writable pte \<longleftrightarrow> pte AND 2 \<noteq> 0"
definition pte_frame :: "u32 \<Rightarrow> u32" where "pte_frame pte = pte AND NOT 0xFFF"

text \<open>The entry for a virtual address.\<close>

definition lookup_pte :: "addr_space \<Rightarrow> nat \<Rightarrow> u32 option" where
  "lookup_pte s va = (case page_tables s (pdi va) of None \<Rightarrow> None | Some pt \<Rightarrow> Some (pt (pti va)))"

definition translate :: "addr_space \<Rightarrow> nat \<Rightarrow> nat option" where
  "translate s va =
     (case lookup_pte s va of
        None \<Rightarrow> None
      | Some pte \<Rightarrow> if pte_present pte then Some (unat (pte_frame pte) + va mod 4096) else None)"

section \<open>Operations on one address space\<close>

definition arch_mm_init :: "(nat \<Rightarrow> u32) \<Rightarrow> addr_space" where
  "arch_mm_init boot = \<lparr>page_tables = (\<lambda>_. None), pgdir = (\<lambda>i. if i < 768 then 0 else boot i)\<rparr>"

text \<open>\<^verbatim>\<open>VIRT_TO_PHYS(pt) | 0x7\<close> for a table in the direct map.\<close>

definition table_entry :: "u32 \<Rightarrow> u32" where
  "table_entry pt = virt_to_phys pt OR 7"

definition add_table :: "nat \<Rightarrow> u32 \<Rightarrow> addr_space \<Rightarrow> addr_space" where
  "add_table i pt s = s\<lparr>page_tables := (page_tables s)(i \<mapsto> (\<lambda>_. 0)), pgdir := (pgdir s)(i := table_entry pt)\<rparr>"

definition set_pte :: "nat \<Rightarrow> nat \<Rightarrow> u32 \<Rightarrow> addr_space \<Rightarrow> addr_space" where
  "set_pte i j pte s = (case page_tables s i of
     None \<Rightarrow> s | Some pt \<Rightarrow> s\<lparr>page_tables := (page_tables s)(i \<mapsto> pt(j := pte))\<rparr>)"

definition arch_mm_map_user :: "addr_space \<Rightarrow> nat \<Rightarrow> u32 \<Rightarrow> u32 \<Rightarrow> u32 \<Rightarrow> int \<times> addr_space" where
  "arch_mm_map_user s va phys flags fresh =
     (if pdi va \<ge> 768 then (-1, s)
      else if page_tables s (pdi va) = None \<and> fresh = 0 then (-1, s)
      else
        let s = (if page_tables s (pdi va) = None then add_table (pdi va) fresh s else s)
        in (0, set_pte (pdi va) (pti va) (pte_frame phys OR flags) s))"

definition arch_mm_user_present :: "addr_space \<Rightarrow> nat \<Rightarrow> bool" where
  "arch_mm_user_present s va =
     (if pdi va \<ge> 768 then False
      else case page_tables s (pdi va) of None \<Rightarrow> False | Some pt \<Rightarrow> pte_present (pt (pti va)))"

definition arch_mm_set_user_writable :: "addr_space \<Rightarrow> nat \<Rightarrow> bool \<Rightarrow> addr_space" where
  "arch_mm_set_user_writable s va writable =
     (case page_tables s (pdi va) of
        None \<Rightarrow> s
      | Some pt \<Rightarrow> set_pte (pdi va) (pti va)
          (if writable then pt (pti va) OR 2 else pt (pti va) AND NOT 2) s)"

text \<open>
  The loops over a range of pages; the upper bounds of the callers are at most
  \<^verbatim>\<open>USER_STACK_TOP\<close>, so the 32-bit loop variable does not wrap around. Freed frames are listed by
  their direct-map addresses.
\<close>

function free_user_pages_loop :: "nat \<Rightarrow> nat \<Rightarrow> addr_space \<Rightarrow> u32 list \<Rightarrow> addr_space \<times> u32 list" where
  "free_user_pages_loop a e s freed =
     (if a < e then
        (case lookup_pte s a of
           Some pte \<Rightarrow>
             if pte_present pte
             then free_user_pages_loop (a + PAGE_SIZE) e (set_pte (pdi a) (pti a) 0 s)
                    (freed @ [phys_to_virt (pte_frame pte)])
             else free_user_pages_loop (a + PAGE_SIZE) e s freed
         | None \<Rightarrow> free_user_pages_loop (a + PAGE_SIZE) e s freed)
      else (s, freed))"
  by pat_completeness auto
termination
  by (relation "measure (\<lambda>(a, e, s, fr). e - a)") (auto simp: PAGE_SIZE_def)

declare free_user_pages_loop.simps [simp del]

definition arch_mm_free_user_pages :: "addr_space \<Rightarrow> nat \<Rightarrow> nat \<Rightarrow> addr_space \<times> u32 list" where
  "arch_mm_free_user_pages s start e = free_user_pages_loop (start - start mod PAGE_SIZE) e s []"

function unmap_user_loop :: "nat \<Rightarrow> nat \<Rightarrow> addr_space \<Rightarrow> addr_space" where
  "unmap_user_loop a e s =
     (if a < e then
        (case lookup_pte s a of
           Some pte \<Rightarrow> unmap_user_loop (a + PAGE_SIZE) e (if pte_present pte then set_pte (pdi a) (pti a) 0 s else s)
         | None \<Rightarrow> unmap_user_loop (a + PAGE_SIZE) e s)
      else s)"
  by pat_completeness auto
termination
  by (relation "measure (\<lambda>(a, e, s). e - a)") (auto simp: PAGE_SIZE_def)

declare unmap_user_loop.simps [simp del]

definition arch_mm_unmap_user_range :: "addr_space \<Rightarrow> nat \<Rightarrow> nat \<Rightarrow> addr_space" where
  "arch_mm_unmap_user_range s start e = unmap_user_loop (start - start mod PAGE_SIZE) e s"

text \<open>\<open>table_page i\<close> is the address of the table with index \<open>i\<close>.\<close>

definition arch_mm_free_user_tables :: "(nat \<Rightarrow> u32) \<Rightarrow> addr_space \<Rightarrow> addr_space \<times> u32 list" where
  "arch_mm_free_user_tables table_page s = fold (\<lambda>i (s, freed).
     if page_tables s i \<noteq> None
     then (s\<lparr>page_tables := (page_tables s)(i := None), pgdir := (pgdir s)(i := 0)\<rparr>, freed @ [table_page i])
     else (s, freed)) [0..<768] (s, [])"

section \<open>The boot page directory\<close>

text \<open>
  Kernel mappings live in the boot page directory, which is an address space of its own here: a
  table is there when the directory entry is present. \<open>fresh\<close> is the physical page for a new table.
\<close>

definition map_page :: "addr_space \<Rightarrow> nat \<Rightarrow> u32 \<Rightarrow> u32 \<Rightarrow> u32 \<Rightarrow> int \<times> addr_space" where
  "map_page s virt phys flags fresh =
     (let va = virt - virt mod PAGE_SIZE; pa = pte_frame phys; i = pdi va in
      if page_tables s i = None \<and> fresh = 0 then (-1, s)
      else
        let s = (if page_tables s i = None
                 then s\<lparr>page_tables := (page_tables s)(i \<mapsto> (\<lambda>_. 0)),
                        pgdir := (pgdir s)(i := fresh OR (if flags AND 4 \<noteq> 0 then 7 else 3))\<rparr>
                 else s)
        in (0, set_pte i (pti va) (pa OR flags) s))"

definition unmap_page :: "addr_space \<Rightarrow> nat \<Rightarrow> addr_space" where
  "unmap_page s virt =
     (let va = virt - virt mod PAGE_SIZE in
      case lookup_pte s va of
        None \<Rightarrow> s
      | Some pte \<Rightarrow> if pte_present pte then set_pte (pdi va) (pti va) 0 s else s)"

text \<open>The loop of \<^verbatim>\<open>unmap_range\<close> also ends when the 32-bit address wraps around.\<close>

function unmap_range_loop :: "addr_space \<Rightarrow> nat \<Rightarrow> nat \<Rightarrow> nat \<Rightarrow> addr_space" where
  "unmap_range_loop s first a e =
     (if a < e \<and> a \<ge> first \<and> a < 4294967296
      then unmap_range_loop (unmap_page s a) first (if w32 (a + PAGE_SIZE) = a + PAGE_SIZE then a + PAGE_SIZE else e) e
      else s)"
  by pat_completeness auto
termination
  by (relation "measure (\<lambda>(s, f, a, e). e - a)") (auto simp: PAGE_SIZE_def)

declare unmap_range_loop.simps [simp del]

definition unmap_range :: "addr_space \<Rightarrow> nat \<Rightarrow> nat \<Rightarrow> addr_space" where
  "unmap_range s virt_start virt_end =
     (let first = virt_start - virt_start mod PAGE_SIZE;
          e = w32 (virt_end + 4095) - w32 (virt_end + 4095) mod PAGE_SIZE
      in if e = 0 \<or> e \<le> first then s else unmap_range_loop s first first e)"

section \<open>Copying an address space\<close>

text \<open>
  The state of the copy: the child, physical memory, and the results of the coming page
  allocations (direct-map addresses; failure when 0 or used up).
\<close>

record copy_state =
  child :: addr_space
  phys :: "nat \<Rightarrow> u8"
  fresh_pages :: "u32 list"

definition take_page :: "copy_state \<Rightarrow> u32 \<times> copy_state" where
  "take_page c = (case fresh_pages c of [] \<Rightarrow> (0, c) | p # ps \<Rightarrow> (p, c\<lparr>fresh_pages := ps\<rparr>))"

definition copy_frame :: "nat \<Rightarrow> nat \<Rightarrow> (nat \<Rightarrow> u8) \<Rightarrow> (nat \<Rightarrow> u8)" where
  "copy_frame from to m = (\<lambda>a. if to \<le> a \<and> a < to + PAGE_SIZE then m (from + (a - to)) else m a)"

text \<open>\<open>Inl\<close>: the state in which the copy gives up.\<close>

definition copy_pte :: "nat \<Rightarrow> nat \<Rightarrow> u32 \<Rightarrow> copy_state \<Rightarrow> copy_state + copy_state" where
  "copy_pte i j pte c =
     (if \<not> pte_present pte then Inr c
      else
        (case (if page_tables (child c) i = None then take_page c else (1, c)) of (pt, c) \<Rightarrow>
          if pt = 0 then Inl c
          else
            let c = (if page_tables (child c) i = None then c\<lparr>child := add_table i pt (child c)\<rparr> else c)
            in (case take_page c of (page, c) \<Rightarrow>
              if page = 0 then Inl c
              else
                let frame = virt_to_phys page
                in Inr (c\<lparr>phys := copy_frame (unat (pte_frame pte)) (unat frame) (phys c),
                          child := set_pte i j (frame OR (pte AND 0xFFF)) (child c)\<rparr>))))"

fun copy_ptes :: "nat \<Rightarrow> (nat \<Rightarrow> u32) \<Rightarrow> nat list \<Rightarrow> copy_state \<Rightarrow> copy_state + copy_state" where
  "copy_ptes i pt [] c = Inr c"
| "copy_ptes i pt (j # js) c = (case copy_pte i j (pt j) c of Inl c \<Rightarrow> Inl c | Inr c \<Rightarrow> copy_ptes i pt js c)"

fun copy_tables :: "addr_space \<Rightarrow> nat list \<Rightarrow> copy_state \<Rightarrow> copy_state + copy_state" where
  "copy_tables parent [] c = Inr c"
| "copy_tables parent (i # is) c =
     (case page_tables parent i of
        None \<Rightarrow> copy_tables parent is c
      | Some pt \<Rightarrow> (case copy_ptes i pt [0..<1024] c of Inl c \<Rightarrow> Inl c | Inr c \<Rightarrow> copy_tables parent is c))"

definition arch_mm_copy_user :: "addr_space \<Rightarrow> copy_state \<Rightarrow> copy_state + copy_state" where
  "arch_mm_copy_user parent c = copy_tables parent [0..<768] c"

section \<open>Access to user memory\<close>

function check_pages :: "addr_space \<Rightarrow> nat \<Rightarrow> nat \<Rightarrow> bool \<Rightarrow> bool" where
  "check_pages s a e need_write =
     (if a < e then
        (if pdi a \<ge> 768 then False
         else case lookup_pte s a of
             None \<Rightarrow> False
           | Some pte \<Rightarrow>
               if \<not> pte_present pte then False
               else if need_write \<and> \<not> pte_writable pte then False
               else check_pages s (a + 0x1000) e need_write)
      else True)"
  by pat_completeness auto
termination
  by (relation "measure (\<lambda>(s, a, e, w). e - a)") auto

declare check_pages.simps [simp del]

definition check_user_range :: "addr_space \<Rightarrow> nat \<Rightarrow> nat \<Rightarrow> bool \<Rightarrow> bool" where
  "check_user_range s addr len need_write =
     (let e = w32 (addr + len) in
      if e < addr then False
      else if addr \<ge> unat KERNEL_VMA then False
      else if e > unat KERNEL_VMA then False
      else if len = 0 then True
      else check_pages s addr e need_write)"

definition valid_user_pointer :: "addr_space \<Rightarrow> nat \<Rightarrow> nat \<Rightarrow> bool" where
  "valid_user_pointer s ptr len = check_user_range s ptr len False"

text \<open>
  \<^verbatim>\<open>memcpy\<close> between the kernel and user addresses, byte by byte through the page tables;
  \<open>None\<close> is a page fault in the kernel.
\<close>

fun read_user :: "addr_space \<Rightarrow> (nat \<Rightarrow> u8) \<Rightarrow> nat \<Rightarrow> nat \<Rightarrow> u8 list option" where
  "read_user s m va 0 = Some []"
| "read_user s m va (Suc n) =
     (case translate s va of
        None \<Rightarrow> None
      | Some a \<Rightarrow> map_option ((#) (m a)) (read_user s m (Suc va) n))"

fun write_user :: "addr_space \<Rightarrow> nat \<Rightarrow> u8 list \<Rightarrow> (nat \<Rightarrow> u8) \<Rightarrow> (nat \<Rightarrow> u8) option" where
  "write_user s va [] m = Some m"
| "write_user s va (b # bs) m =
     (case translate s va of None \<Rightarrow> None | Some a \<Rightarrow> write_user s (Suc va) bs (m(a := b)))"

text \<open>Result \<open>Inl\<close>: the error code -1; \<open>Inr\<close>: what the copy makes.\<close>

definition copy_from_user :: "addr_space \<Rightarrow> (nat \<Rightarrow> u8) \<Rightarrow> nat \<Rightarrow> nat \<Rightarrow> int + u8 list option" where
  "copy_from_user s m src n = (if \<not> valid_user_pointer s src n then Inl (-1) else Inr (read_user s m src n))"

definition copy_to_user :: "addr_space \<Rightarrow> nat \<Rightarrow> u8 list \<Rightarrow> (nat \<Rightarrow> u8) \<Rightarrow> int + (nat \<Rightarrow> u8) option" where
  "copy_to_user s dst bs m =
     (if \<not> check_user_range s dst (length bs) True then Inl (-1) else Inr (write_user s dst bs m))"

section \<open>Checked ranges\<close>

lemma unat_KERNEL_VMA [simp]: "unat KERNEL_VMA = 3221225472"
  by (simp add: KERNEL_VMA_def)

text \<open>The pages that the loop visits: one every 4096 bytes from the first address on.\<close>

lemma check_pages_visits:
  assumes "check_pages s a e w" "a + 4096 * n < e"
  shows "\<exists>pte. lookup_pte s (a + 4096 * n) = Some pte \<and> pte_present pte \<and> (w \<longrightarrow> pte_writable pte)"
  using assms
proof (induction n arbitrary: a)
  case 0
  then show ?case by (subst (asm) check_pages.simps) (auto split: if_splits option.splits)
next
  case (Suc n)
  then have "check_pages s (a + 4096) e w"
    by (subst (asm) check_pages.simps) (auto split: if_splits option.splits)
  then show ?case using Suc.IH [of "a + 4096"] Suc.prems(2) by (simp add: ac_simps)
qed

lemma check_pages_intro:
  assumes "\<And>n. a + 4096 * n < e \<Longrightarrow> \<exists>pte. lookup_pte s (a + 4096 * n) = Some pte \<and> pte_present pte \<and> (w \<longrightarrow> pte_writable pte)"
    "e \<le> 3221225472"
  shows "check_pages s a e w"
  using assms
proof (induction "e - a" arbitrary: a rule: less_induct)
  case less
  show ?case
  proof (cases "a < e")
    case True
    have "check_pages s (a + 4096) e w"
    proof (rule less.hyps)
      show "e - (a + 4096) < e - a" using True by simp
      fix n assume "a + 4096 + 4096 * n < e"
      then show "\<exists>pte. lookup_pte s (a + 4096 + 4096 * n) = Some pte \<and> pte_present pte \<and> (w \<longrightarrow> pte_writable pte)"
        using less.prems(1) [of "Suc n"] by (simp add: ac_simps)
    qed (rule less.prems(2))
    moreover have "pdi a < 768" using True less.prems(2) by simp
    moreover obtain pte where "lookup_pte s a = Some pte" "pte_present pte" "w \<longrightarrow> pte_writable pte"
      using less.prems(1) [of 0] True by auto
    ultimately show ?thesis by (subst check_pages.simps) auto
  qed (subst check_pages.simps, simp)
qed

lemma pdi_pti_page: "va div 4194304 = va div 4096 div (1024::nat)"
  by (simp add: div_mult2_eq [symmetric])

lemma lookup_pte_alt:
  "lookup_pte s va = (case page_tables s (va div 4096 div 1024) of None \<Rightarrow> None | Some pt \<Rightarrow> Some (pt (va div 4096 mod 1024)))"
  by (simp add: lookup_pte_def pdi_pti_page)

lemma lookup_pte_page: "va div 4096 = vb div 4096 \<Longrightarrow> lookup_pte s va = lookup_pte s vb"
  by (simp only: lookup_pte_alt)

lemma same_page_iff: "va div 4096 = vb div (4096::nat) \<longleftrightarrow> pdi va = pdi vb \<and> pti va = pti vb"
  unfolding pdi_pti_page by (metis div_mult_mod_eq)

lemma translate_present:
  "lookup_pte s va = Some pte \<Longrightarrow> pte_present pte \<Longrightarrow> translate s va = Some (unat (pte_frame pte) + va mod 4096)"
  by (simp add: translate_def)

text \<open>
  C34: a range that \<^verbatim>\<open>check_user_range\<close> accepts lies below the kernel and, unless its last byte is
  nearer to the start of its page than its first byte, each of its bytes is mapped, and writable if
  that was asked for.
\<close>

theorem check_user_range_sound:
  assumes "check_user_range s addr len w" "addr + len < 2 ^ 32" "addr \<le> va" "va < addr + len"
    "addr mod 4096 \<le> (addr + len - 1) mod 4096"
  shows "va < 0xC0000000 \<and> (\<exists>pte. lookup_pte s va = Some pte \<and> pte_present pte \<and> (w \<longrightarrow> pte_writable pte)
    \<and> translate s va = Some (unat (pte_frame pte) + va mod 4096))"
proof -
  let ?e = "addr + len"
  have c: "check_pages s addr ?e w" "?e \<le> 3221225472"
    using assms(1-4) by (auto simp: check_user_range_def Let_def split: if_splits)
  define n where "n = va div 4096 - addr div 4096"
  have page: "(addr + 4096 * n) div 4096 = va div 4096"
    using div_le_mono [OF assms(3), of 4096] by (simp add: n_def)
  have "addr + 4096 * n \<le> ?e - 1"
  proof -
    have "(addr + 4096 * n) mod 4096 = addr mod 4096" by simp
    moreover have "va div 4096 \<le> (?e - 1) div 4096" using assms(4) by (intro div_le_mono) simp
    ultimately show ?thesis
      using page assms(5) div_mult_mod_eq [of "addr + 4096 * n" 4096] div_mult_mod_eq [of "?e - 1" 4096]
      by (metis add_le_mono mult_le_mono1)
  qed
  then have "addr + 4096 * n < ?e" using assms(3,4) by simp
  from check_pages_visits [OF c(1) this] obtain pte where
    "lookup_pte s va = Some pte" "pte_present pte" "w \<longrightarrow> pte_writable pte"
    using lookup_pte_page [OF page] by auto
  then show ?thesis using c(2) assms(4) translate_present by auto
qed

text \<open>An address space with exactly one user page, read-only, mapped to frame \<open>0x5000\<close>.\<close>

definition one_page :: "nat \<Rightarrow> addr_space" where
  "one_page va = \<lparr>page_tables = [pdi va \<mapsto> (\<lambda>j. if j = pti va then 0x5005 else 0)], pgdir = (\<lambda>_. 0)\<rparr>"

lemma one_page_lookup: "lookup_pte (one_page va) vb =
    (if pdi vb = pdi va then Some (if pti vb = pti va then 0x5005 else 0) else None)"
  by (simp add: lookup_pte_def one_page_def)

lemma one_page_iff: "(\<exists>pte. lookup_pte (one_page va) vb = Some pte \<and> pte_present pte) \<longleftrightarrow> vb div 4096 = va div 4096"
proof -
  show ?thesis unfolding same_page_iff by (simp add: one_page_lookup pte_present_def)
qed

theorem check_user_range_sound_witness:
  "translate (one_page 0x1000) 0x1234 = Some 0x5234"
proof -
  have "check_user_range (one_page 0x1000) 0x1000 0x1000 False"
    by (auto simp: check_user_range_def Let_def one_page_lookup pte_present_def intro!: check_pages_intro)
  from check_user_range_sound [OF this, of "0x1234"] show ?thesis
    by (auto simp: one_page_lookup pte_frame_def)
qed

text \<open>
  the check has a hole. For every user range that starts inside a page and ends, in a later
  page, at an offset not above that of its start, there is an address space in which the check
  accepts the range although its last byte is not mapped: the copy that follows then faults in the
  kernel.
\<close>

theorem check_user_range_hole:
  assumes "0 < len" "len < 4096" "addr + len \<le> 0xC0000000" "(addr + len - 1) mod 4096 < addr mod 4096"
  shows "\<exists>s. check_user_range s addr len False \<and> translate s (addr + len - 1) = None
    \<and> copy_from_user s m addr len = Inr None"
proof -
  let ?s = "one_page addr" and ?z = "addr + len - 1"
  have z: "?z div 4096 \<noteq> addr div 4096"
  proof
    assume "?z div 4096 = addr div 4096"
    moreover have "addr \<le> ?z" using assms(1) by simp
    ultimately show False
      using assms(4) div_mult_mod_eq [of ?z 4096] div_mult_mod_eq [of addr 4096] by linarith
  qed
  have "check_pages ?s addr (addr + len) False"
  proof (rule check_pages_intro)
    fix n assume "addr + 4096 * n < addr + len"
    then have "n = 0" using assms(2) by (cases n) auto
    then show "\<exists>pte. lookup_pte ?s (addr + 4096 * n) = Some pte \<and> pte_present pte \<and> (False \<longrightarrow> pte_writable pte)"
      using one_page_iff [of addr addr] by auto
  qed (use assms(3) in simp)
  then have ok: "check_user_range ?s addr len False"
    using assms(1,3) by (auto simp: check_user_range_def Let_def)
  have none: "translate ?s ?z = None"
    using one_page_iff [of addr ?z] z by (auto simp: translate_def split: option.splits)
  have "read_user ?s m va n = None" if "va \<le> ?z" "?z < va + n" for va n
    using that
  proof (induction n arbitrary: va)
    case (Suc n)
    show ?case
    proof (cases "va = ?z")
      case True
      then show ?thesis using none by simp
    next
      case False
      then show ?thesis using Suc.IH [of "Suc va"] Suc.prems by (auto split: option.splits)
    qed
  qed simp
  then have "read_user ?s m addr len = None" using assms(1) by simp
  then show ?thesis using ok none by (auto simp: copy_from_user_def valid_user_pointer_def)
qed

theorem check_user_range_hole_witness:
  "\<exists>s. valid_user_pointer s 0x8000FFE 4 \<and> translate s 0x8001001 = None"
proof -
  have "(0x8000FFE + 4 - 1) mod 4096 < (0x8000FFE :: nat) mod 4096" by simp
  from check_user_range_hole [OF _ _ _ this] show ?thesis by (auto simp: valid_user_pointer_def)
qed

section \<open>Mapping one page\<close>

lemma lookup_set_pte:
  "lookup_pte (set_pte i j pte s) va =
    (if pdi va = i \<and> pti va = j \<and> page_tables s i \<noteq> None then Some pte else lookup_pte s va)"
  by (auto simp: set_pte_def lookup_pte_def split: option.splits)

lemma lookup_add_table:
  "lookup_pte (add_table i pt s) va = (if pdi va = i then Some 0 else lookup_pte s va)"
  by (simp add: add_table_def lookup_pte_def)

lemma frame_or_flags: "pte_frame flags = 0 \<Longrightarrow> pte_frame (pte_frame p OR flags) = pte_frame p"
  by (simp add: pte_frame_def word_ao_dist)

lemma translate_map:
  assumes "page_tables s1 (pdi va) \<noteq> None" "translate s1 vb = translate s vb" "pte_frame flags = 0" "pte_present flags"
  shows "translate (set_pte (pdi va) (pti va) (pte_frame pa OR flags) s1) vb =
    (if vb div 4096 = va div 4096 then Some (unat (pte_frame pa) + vb mod 4096) else translate s vb)"
proof -
  have "(pte_frame pa OR flags) AND 1 = flags AND 1" by (simp add: pte_frame_def word_ao_dist word_bw_assocs)
  then have "pte_present (pte_frame pa OR flags)" using assms(4) by (simp add: pte_present_def)
  then show ?thesis
    using assms(1-3) unfolding same_page_iff by (auto simp: translate_def lookup_set_pte frame_or_flags)
qed

lemma translate_new_table:
  assumes "page_tables s i = None"
  shows "translate (s\<lparr>page_tables := (page_tables s)(i \<mapsto> (\<lambda>_. 0)), pgdir := d\<rparr>) vb = translate s vb"
  using assms by (auto simp: translate_def lookup_pte_def pte_present_def)

text \<open>
  mapping a page changes the translation of that page and of no other, whether or not a page
  table has to be added for it.
\<close>

theorem arch_mm_map_user_maps:
  assumes "arch_mm_map_user s va pa flags fresh = (0, s')" "pte_frame flags = 0" "pte_present flags"
  shows "translate s' vb =
    (if vb div 4096 = va div 4096 then Some (unat (pte_frame pa) + vb mod 4096) else translate s vb)"
proof -
  define s1 where "s1 = (if page_tables s (pdi va) = None then add_table (pdi va) fresh s else s)"
  have s': "s' = set_pte (pdi va) (pti va) (pte_frame pa OR flags) s1"
    using assms(1) by (auto simp: arch_mm_map_user_def s1_def Let_def split: if_splits)
  have "page_tables s1 (pdi va) \<noteq> None" by (auto simp: s1_def add_table_def)
  moreover have "translate s1 vb = translate s vb" using translate_new_table by (simp add: s1_def add_table_def)
  ultimately show ?thesis unfolding s' using assms(2,3) by (intro translate_map)
qed

lemma map_page_maps:
  assumes "map_page s va pa flags fresh = (0, s')" "pte_frame flags = 0" "pte_present flags"
  shows "translate s' vb =
    (if vb div 4096 = va div 4096 then Some (unat (pte_frame pa) + vb mod 4096) else translate s vb)"
proof -
  let ?v = "va - va mod PAGE_SIZE"
  define s1 where "s1 = (if page_tables s (pdi ?v) = None
     then s\<lparr>page_tables := (page_tables s)(pdi ?v \<mapsto> (\<lambda>_. 0)),
            pgdir := (pgdir s)(pdi ?v := fresh OR (if flags AND 4 \<noteq> 0 then 7 else 3))\<rparr>
     else s)"
  have s': "s' = set_pte (pdi ?v) (pti ?v) (pte_frame pa OR flags) s1"
    using assms(1) by (auto simp: map_page_def s1_def Let_def split: if_splits)
  have "page_tables s1 (pdi ?v) \<noteq> None" by (auto simp: s1_def)
  moreover have "translate s1 vb = translate s vb" using translate_new_table by (simp add: s1_def)
  moreover have "?v div 4096 = va div 4096" by (simp add: PAGE_SIZE_def minus_mod_eq_mult_div)
  ultimately show ?thesis unfolding s' using assms(2,3) translate_map [of s1 ?v vb s flags pa] by simp
qed

lemma unmap_page_unmaps:
  "translate (unmap_page s va) vb = (if vb div 4096 = va div 4096 then None else translate s vb)"
proof -
  let ?v = "va - va mod PAGE_SIZE"
  have v: "?v div 4096 = va div 4096" by (simp add: PAGE_SIZE_def minus_mod_eq_mult_div)
  have same: "vb div 4096 = va div 4096 \<longleftrightarrow> pdi vb = pdi ?v \<and> pti vb = pti ?v"
    unfolding v [symmetric] by (rule same_page_iff)
  have lk: "lookup_pte s vb = lookup_pte s ?v" if "vb div 4096 = va div 4096"
    using that v by (intro lookup_pte_page) simp
  show ?thesis
  proof (cases "lookup_pte s ?v")
    case None
    then show ?thesis using lk by (auto simp: unmap_page_def translate_def Let_def)
  next
    case (Some pte)
    then have "page_tables s (pdi ?v) \<noteq> None" by (auto simp: lookup_pte_def split: option.splits)
    then show ?thesis
      using Some lk unfolding same by (auto simp: unmap_page_def translate_def Let_def lookup_set_pte pte_present_def)
  qed
qed

theorem arch_mm_map_user_maps_witness:
  "translate (snd (arch_mm_map_user (arch_mm_init (\<lambda>_. 0)) 0x8000000 0x123000 7 0xC0400000)) 0x8000010 = Some 0x123010"
proof -
  obtain s' where m: "arch_mm_map_user (arch_mm_init (\<lambda>_. 0)) 0x8000000 0x123000 7 0xC0400000 = (0, s')"
    by (simp add: arch_mm_map_user_def arch_mm_init_def Let_def)
  from arch_mm_map_user_maps [OF m, of "0x8000010"] show ?thesis
    unfolding m by (simp add: pte_frame_def pte_present_def)
qed

section \<open>Copying an address space\<close>

definition entry_at :: "addr_space \<Rightarrow> nat \<Rightarrow> nat \<Rightarrow> u32" where
  "entry_at s i j = (case page_tables s i of None \<Rightarrow> 0 | Some pt \<Rightarrow> pt j)"

abbreviation frame_at :: "addr_space \<Rightarrow> nat \<Rightarrow> nat \<Rightarrow> nat" where
  "frame_at s i j \<equiv> unat (pte_frame (entry_at s i j))"

abbreviation present_at :: "addr_space \<Rightarrow> nat \<Rightarrow> nat \<Rightarrow> bool" where
  "present_at s i j \<equiv> pte_present (entry_at s i j)"

definition fresh_frames :: "copy_state \<Rightarrow> nat list" where
  "fresh_frames c = map (\<lambda>p. unat (virt_to_phys p)) (fresh_pages c)"

lemma low_bits_eq: "(w::u32) AND 0xFFF = take_bit 12 w"
  by (simp add: take_bit_eq_mask mask_eq_exp_minus_1)

lemma aligned_iff: "unat (f::u32) mod 4096 = 0 \<longleftrightarrow> f AND 0xFFF = 0"
proof -
  have "unat (take_bit 12 f) = unat f mod 4096" by (simp add: take_bit_eq_mod unat_mod)
  then show ?thesis unfolding low_bits_eq by (metis unat_eq_zero)
qed

lemma copied_entry:
  assumes "f AND 0xFFF = 0"
  shows "pte_frame (f OR (pte AND 0xFFF)) = f" "(f OR (pte AND 0xFFF)) AND 0xFFF = pte AND 0xFFF"
    "pte_present (f OR (pte AND 0xFFF)) = pte_present pte"
proof -
  have f: "f AND NOT 0xFFF = f"
  proof -
    have "f = (f AND 0xFFF) OR (f AND NOT 0xFFF)" by (simp flip: bit.conj_disj_distrib)
    then show ?thesis using assms by simp
  qed
  show "pte_frame (f OR (pte AND 0xFFF)) = f"
    using f by (simp add: pte_frame_def word_ao_dist word_bw_assocs)
  show *: "(f OR (pte AND 0xFFF)) AND 0xFFF = pte AND 0xFFF"
    using assms by (simp add: word_ao_dist word_bw_assocs)
  have "(x AND 0xFFF) AND 1 = x AND 1" for x :: u32 by (simp add: word_bw_assocs)
  then show "pte_present (f OR (pte AND 0xFFF)) = pte_present pte"
    unfolding pte_present_def by (metis *)
qed

text \<open>After the entries in \<open>D\<close> have been copied, starting from \<open>c0\<close>:\<close>

definition copied :: "addr_space \<Rightarrow> copy_state \<Rightarrow> (nat \<times> nat) set \<Rightarrow> copy_state \<Rightarrow> bool" where
  "copied par c0 D c \<longleftrightarrow>
     (\<forall>i j. present_at (child c) i j \<longleftrightarrow> (i, j) \<in> D \<and> present_at par i j) \<and>
     (\<forall>(i, j) \<in> D. present_at par i j \<longrightarrow>
        entry_at (child c) i j AND 0xFFF = entry_at par i j AND 0xFFF \<and>
        frame_at (child c) i j \<in> set (fresh_frames c0) - set (fresh_frames c) \<and>
        (\<forall>x < 4096. phys c (frame_at (child c) i j + x) = phys c0 (frame_at par i j + x))) \<and>
     (\<forall>p \<in> D. \<forall>q \<in> D. present_at par (fst p) (snd p) \<and> present_at par (fst q) (snd q) \<and>
        frame_at (child c) (fst p) (snd p) = frame_at (child c) (fst q) (snd q) \<longrightarrow> p = q) \<and>
     (\<forall>a. a - a mod 4096 \<notin> set (fresh_frames c0) \<longrightarrow> phys c a = phys c0 a) \<and>
     set (fresh_frames c) \<subseteq> set (fresh_frames c0) \<and> distinct (fresh_frames c)"

text \<open>The new pages are page-aligned, pairwise different, and none is a frame of the parent.\<close>

definition good_pages :: "addr_space \<Rightarrow> copy_state \<Rightarrow> bool" where
  "good_pages par c0 \<longleftrightarrow> distinct (fresh_frames c0) \<and> (\<forall>f \<in> set (fresh_frames c0). f mod 4096 = 0) \<and>
     (\<forall>i j. present_at par i j \<longrightarrow> frame_at par i j \<notin> set (fresh_frames c0))"

lemma entry_set_pte:
  "page_tables s i \<noteq> None \<Longrightarrow> entry_at (set_pte i j pte s) i' j' = (if i' = i \<and> j' = j then pte else entry_at s i' j')"
  by (auto simp: entry_at_def set_pte_def split: option.splits)

lemma entry_add_table:
  "page_tables s i = None \<Longrightarrow> entry_at (add_table i pt s) i' j' = entry_at s i' j'"
  by (auto simp: entry_at_def add_table_def)

lemma take_page_fresh:
  assumes "take_page c = (p, c')" "p \<noteq> 0" "distinct (fresh_frames c)"
  shows "fresh_frames c = unat (virt_to_phys p) # fresh_frames c' \<and> child c' = child c \<and> phys c' = phys c
    \<and> unat (virt_to_phys p) \<notin> set (fresh_frames c') \<and> distinct (fresh_frames c')"
  using assms by (auto simp: take_page_def fresh_frames_def split: list.splits)

text \<open>The allocation of a page table takes a page and changes no entry.\<close>

lemma add_table_step:
  assumes "(if page_tables (child c) i = None then take_page c else (1, c)) = (pt, c1)" "pt \<noteq> 0"
    "distinct (fresh_frames c)"
    "c2 = (if page_tables (child c1) i = None then c1\<lparr>child := add_table i pt (child c1)\<rparr> else c1)"
  shows "page_tables (child c2) i \<noteq> None \<and> (\<forall>i j. entry_at (child c2) i j = entry_at (child c) i j) \<and> phys c2 = phys c
    \<and> set (fresh_frames c2) \<subseteq> set (fresh_frames c) \<and> distinct (fresh_frames c2)"
proof (cases "page_tables (child c) i = None")
  case True
  then have t: "take_page c = (pt, c1)" using assms(1) by simp
  note tp = take_page_fresh [OF t assms(2,3)]
  have "c2 = c1\<lparr>child := add_table i pt (child c1)\<rparr>" using assms(4) tp True by simp
  then show ?thesis using tp True by (auto simp: entry_add_table fresh_frames_def) (simp_all add: add_table_def)
next
  case False
  then show ?thesis using assms by auto
qed

lemma copy_frame_other: "a div 4096 \<noteq> t div 4096 \<Longrightarrow> t mod 4096 = 0 \<Longrightarrow> copy_frame f t m a = m a"
  by (auto simp: copy_frame_def PAGE_SIZE_def)

lemma copy_frame_same: "x < 4096 \<Longrightarrow> copy_frame f t m (t + x) = m (f + x)"
  by (simp add: copy_frame_def PAGE_SIZE_def)

lemma aligned_div: "t mod 4096 = 0 \<Longrightarrow> x < 4096 \<Longrightarrow> (t + x) div 4096 = t div (4096::nat)"
  by auto

lemma aligned_div_eq: "t mod 4096 = 0 \<Longrightarrow> u mod 4096 = 0 \<Longrightarrow> t div 4096 = u div (4096::nat) \<Longrightarrow> t = u"
  by (metis div_mult_mod_eq)

lemma frame_aligned: "frame_at s i j mod 4096 = 0"
  unfolding aligned_iff pte_frame_def by (simp add: word_bw_assocs)

lemma copy_pte_copied:
  assumes cop: "copied par c0 D c" and good: "good_pages par c0" and new: "(i, j) \<notin> D"
    and step: "copy_pte i j (entry_at par i j) c = Inr c'"
  shows "copied par c0 (insert (i, j) D) c'"
proof (cases "present_at par i j")
  case False
  then have "c' = c" using step by (simp add: copy_pte_def)
  then show ?thesis using cop False unfolding copied_def by auto
next
  case True
  obtain pt c1 where 1: "(if page_tables (child c) i = None then take_page c else (1, c)) = (pt, c1)" by fastforce
  define c2 where "c2 = (if page_tables (child c1) i = None then c1\<lparr>child := add_table i pt (child c1)\<rparr> else c1)"
  obtain page c3 where 3: "take_page c2 = (page, c3)" by fastforce
  let ?f = "virt_to_phys page" and ?pf = "frame_at par i j" and ?e = "entry_at par i j"
  have pt: "pt \<noteq> 0" "page \<noteq> 0" and c': "c' = c3\<lparr>phys := copy_frame ?pf (unat ?f) (phys c3),
      child := set_pte i j (?f OR (?e AND 0xFFF)) (child c3)\<rparr>"
    using step True 1 3 by (auto simp: copy_pte_def Let_def c2_def split: if_splits prod.splits)
  have d: "distinct (fresh_frames c)" "set (fresh_frames c) \<subseteq> set (fresh_frames c0)"
    and same: "\<And>a. a - a mod 4096 \<notin> set (fresh_frames c0) \<Longrightarrow> phys c a = phys c0 a"
    and iff: "\<And>i j. present_at (child c) i j \<longleftrightarrow> (i, j) \<in> D \<and> present_at par i j"
    and inj: "\<And>p q. p \<in> D \<Longrightarrow> q \<in> D \<Longrightarrow> present_at par (fst p) (snd p) \<Longrightarrow> present_at par (fst q) (snd q) \<Longrightarrow>
        frame_at (child c) (fst p) (snd p) = frame_at (child c) (fst q) (snd q) \<Longrightarrow> p = q"
    and old: "\<And>i j. (i, j) \<in> D \<Longrightarrow> present_at par i j \<Longrightarrow>
        entry_at (child c) i j AND 0xFFF = entry_at par i j AND 0xFFF \<and>
        frame_at (child c) i j \<in> set (fresh_frames c0) - set (fresh_frames c) \<and>
        (\<forall>x < 4096. phys c (frame_at (child c) i j + x) = phys c0 (frame_at par i j + x))"
    using cop unfolding copied_def by blast+
  note a2 = add_table_step [OF 1 pt(1) d(1) c2_def]
  have a3: "fresh_frames c2 = unat ?f # fresh_frames c3" "child c3 = child c2" "phys c3 = phys c2"
    "unat ?f \<notin> set (fresh_frames c3)" "distinct (fresh_frames c3)"
    using take_page_fresh [OF 3 pt(2)] a2 by auto
  have fin: "unat ?f \<in> set (fresh_frames c0)" "unat ?f \<in> set (fresh_frames c)" using a2 a3(1) d(2) by auto
  then have al: "unat ?f mod 4096 = 0" using good by (auto simp: good_pages_def)
  note ce = copied_entry [OF al [unfolded aligned_iff], of ?e]
  have ent: "entry_at (child c') i' j' = (if i' = i \<and> j' = j then ?f OR (?e AND 0xFFF) else entry_at (child c) i' j')" for i' j'
    using a2 by (simp add: c' a3(2) entry_set_pte)
  have fr: "fresh_frames c' = fresh_frames c3" by (simp add: c' fresh_frames_def)
  have sub: "set (fresh_frames c') \<subseteq> set (fresh_frames c)" "unat ?f \<notin> set (fresh_frames c')" "distinct (fresh_frames c')"
    using a2 a3 unfolding fr by auto
  have ph: "phys c' = copy_frame ?pf (unat ?f) (phys c)" using a2 a3 by (simp add: c')
  have keep: "phys c' a = phys c a" if "a - a mod 4096 \<noteq> unat ?f" for a
  proof -
    have "a div 4096 \<noteq> unat ?f div 4096"
      using that al by (metis add_diff_cancel_right' div_mult_mod_eq add.right_neutral)
    then show ?thesis unfolding ph using al by (rule copy_frame_other)
  qed
  have base: "(t + x) - (t + x) mod 4096 = t" if "t mod 4096 = 0" "x < 4096" for t x :: nat
    using that by auto
  have pfin: "?pf \<notin> set (fresh_frames c0)" using good True by (auto simp: good_pages_def)
  show ?thesis
    unfolding copied_def
  proof (intro conjI allI ballI impI; (elim conjE)?)
    fix i' j'
    show "present_at (child c') i' j' \<longleftrightarrow> (i', j') \<in> insert (i, j) D \<and> present_at par i' j'"
      using iff [of i' j'] ce(3) True by (auto simp: ent)
  next
    fix p assume p: "p \<in> insert (i, j) D"
    show "case p of (i', j') \<Rightarrow> present_at par i' j' \<longrightarrow>
        entry_at (child c') i' j' AND 0xFFF = entry_at par i' j' AND 0xFFF \<and>
        frame_at (child c') i' j' \<in> set (fresh_frames c0) - set (fresh_frames c') \<and>
        (\<forall>x < 4096. phys c' (frame_at (child c') i' j' + x) = phys c0 (frame_at par i' j' + x))"
    proof (cases "p = (i, j)")
      case True
      have "phys c (?pf + x) = phys c0 (?pf + x)" if "x < 4096" for x
        using same [of "?pf + x"] pfin base [OF frame_aligned that] by simp
      then show ?thesis
        using fin(1) sub(2) ce(1,2) unfolding True by (simp add: ent ph copy_frame_same)
    next
      case False
      obtain i' j' where ij: "p = (i', j')" by fastforce
      have inD: "(i', j') \<in> D" "i' \<noteq> i \<or> j' \<noteq> j" using p False ij by auto
      have "phys c' (frame_at (child c) i' j' + x) = phys c (frame_at (child c) i' j' + x)"
        if "x < 4096" "present_at par i' j'" for x
      proof (rule keep)
        have "frame_at (child c) i' j' \<notin> set (fresh_frames c)" using old [OF inD(1) that(2)] by simp
        then show "frame_at (child c) i' j' + x - (frame_at (child c) i' j' + x) mod 4096 \<noteq> unat ?f"
          using fin(2) base [OF frame_aligned that(1)] by auto
      qed
      moreover have "entry_at (child c') i' j' = entry_at (child c) i' j'" using inD(2) by (auto simp: ent)
      ultimately show ?thesis using old [OF inD(1)] sub(1) unfolding ij by auto
    qed
  next
    fix p q assume pq: "p \<in> insert (i, j) D" "q \<in> insert (i, j) D" "present_at par (fst p) (snd p)" "present_at par (fst q) (snd q)"
      "frame_at (child c') (fst p) (snd p) = frame_at (child c') (fst q) (snd q)"
    have nf: "frame_at (child c) (fst r) (snd r) \<noteq> unat ?f" if "r \<in> D" "present_at par (fst r) (snd r)" for r
      using old [of "fst r" "snd r"] that fin(2) by auto
    have other: "frame_at (child c') (fst r) (snd r) = frame_at (child c) (fst r) (snd r)" if "r \<in> D" for r
      using that new by (cases r) (auto simp: ent)
    have self: "frame_at (child c') i j = unat ?f" using ce(1) by (simp add: ent)
    consider "p \<in> D" "q \<in> D" | "p = (i, j)" "q \<in> D" | "p \<in> D" "q = (i, j)" | "p = (i, j)" "q = (i, j)"
      using pq(1,2) by blast
    then show "p = q"
    proof cases
      case 1
      then show ?thesis using inj [of p q] pq(3-5) other by simp
    next
      case 2
      then show ?thesis using pq(3-5) other nf self by (metis fst_conv snd_conv)
    next
      case 3
      then show ?thesis using pq(3-5) other nf self by (metis fst_conv snd_conv)
    qed simp
  next
    fix a assume "a - a mod 4096 \<notin> set (fresh_frames c0)"
    then show "phys c' a = phys c0 a" using keep [of a] fin(1) same [of a] by metis
  next
    show "set (fresh_frames c') \<subseteq> set (fresh_frames c0)" using sub(1) d(2) by blast
    show "distinct (fresh_frames c')" by (rule sub(3))
  qed
qed

lemma copy_ptes_copied:
  "page_tables par i = Some pt \<Longrightarrow> distinct js \<Longrightarrow> good_pages par c0 \<Longrightarrow> copied par c0 D c \<Longrightarrow>
   \<forall>j \<in> set js. (i, j) \<notin> D \<Longrightarrow> copy_ptes i pt js c = Inr c' \<Longrightarrow> copied par c0 (D \<union> {i} \<times> set js) c'"
proof (induction js arbitrary: D c)
  case (Cons j js)
  obtain c1 where 1: "copy_pte i j (pt j) c = Inr c1" "copy_ptes i pt js c1 = Inr c'"
    using Cons.prems(6) by (auto split: sum.splits)
  have "entry_at par i j = pt j" using Cons.prems(1) by (simp add: entry_at_def)
  then have "copied par c0 (insert (i, j) D) c1"
    using copy_pte_copied [OF Cons.prems(4,3), of i j c1] Cons.prems(5) 1(1) by simp
  then have "copied par c0 (insert (i, j) D \<union> {i} \<times> set js) c'"
    using Cons.prems 1(2) by (intro Cons.IH) auto
  then show ?case by (simp add: insert_Times_insert Un_insert_left Un_insert_right)
qed simp

lemma copy_tables_copied:
  "distinct is \<Longrightarrow> good_pages par c0 \<Longrightarrow> copied par c0 D c \<Longrightarrow> \<forall>i \<in> set is. \<forall>j. (i, j) \<notin> D \<Longrightarrow>
   copy_tables par is c = Inr c' \<Longrightarrow>
   copied par c0 (D \<union> {i \<in> set is. page_tables par i \<noteq> None} \<times> {0..<1024}) c'"
proof (induction "is" arbitrary: D c)
  case (Cons i "is")
  show ?case
  proof (cases "page_tables par i")
    case None
    then have "{x \<in> set (i # is). page_tables par x \<noteq> None} = {x \<in> set is. page_tables par x \<noteq> None}" by auto
    then show ?thesis using Cons None by simp
  next
    case (Some pt)
    obtain c1 where 1: "copy_ptes i pt [0..<1024] c = Inr c1" "copy_tables par is c1 = Inr c'"
      using Cons.prems(5) Some by (auto split: sum.splits)
    have "copied par c0 (D \<union> {i} \<times> {0..<1024}) c1"
      using copy_ptes_copied [OF Some distinct_upt Cons.prems(2,3) _ 1(1)] Cons.prems(4) by simp
    then have "copied par c0 (D \<union> {i} \<times> {0..<1024} \<union> {x \<in> set is. page_tables par x \<noteq> None} \<times> {0..<1024}) c'"
      using Cons.prems 1(2) by (intro Cons.IH) auto
    moreover have "D \<union> {i} \<times> {0..<1024} \<union> {x \<in> set is. page_tables par x \<noteq> None} \<times> {0..<1024} =
        D \<union> {x \<in> set (i # is). page_tables par x \<noteq> None} \<times> {0..<1024::nat}"
      using Some by auto
    ultimately show ?thesis by simp
  qed
qed simp

lemma translate_entry:
  "translate s va = (if present_at s (pdi va) (pti va) then Some (frame_at s (pdi va) (pti va) + va mod 4096) else None)"
  by (auto simp: translate_def lookup_pte_def entry_at_def pte_present_def split: option.splits)

lemma copy_user_correct:
  assumes "arch_mm_copy_user par c0 = Inr c" "good_pages par c0" "\<forall>i j. \<not> present_at (child c0) i j" "va < 0xC0000000"
  shows "case translate par va of
      None \<Rightarrow> translate (child c) va = None
    | Some a \<Rightarrow> phys c a = phys c0 a \<and> (\<exists>b. translate (child c) va = Some b \<and> phys c b = phys c0 a \<and>
        b - b mod 4096 \<in> set (fresh_frames c0) \<and>
        entry_at (child c) (pdi va) (pti va) AND 0xFFF = entry_at par (pdi va) (pti va) AND 0xFFF \<and>
        (\<forall>vb < 0xC0000000. vb div 4096 \<noteq> va div 4096 \<longrightarrow>
           (\<forall>b'. translate (child c) vb = Some b' \<longrightarrow> b' div 4096 \<noteq> b div 4096)))"
proof -
  let ?D = "{i \<in> {0..<768}. page_tables par i \<noteq> None} \<times> {0..<1024}"
  have "copied par c0 {} c0" using assms(2,3) by (simp add: copied_def good_pages_def)
  from copy_tables_copied [OF distinct_upt assms(2) this _ assms(1) [unfolded arch_mm_copy_user_def]]
  have cop: "copied par c0 ?D c" by simp
  have same: "\<And>a. a - a mod 4096 \<notin> set (fresh_frames c0) \<Longrightarrow> phys c a = phys c0 a"
    and iff: "\<And>i j. present_at (child c) i j \<longleftrightarrow> (i, j) \<in> ?D \<and> present_at par i j"
    and inj: "\<And>p q. p \<in> ?D \<Longrightarrow> q \<in> ?D \<Longrightarrow> present_at par (fst p) (snd p) \<Longrightarrow> present_at par (fst q) (snd q) \<Longrightarrow>
        frame_at (child c) (fst p) (snd p) = frame_at (child c) (fst q) (snd q) \<Longrightarrow> p = q"
    and old: "\<And>i j. (i, j) \<in> ?D \<Longrightarrow> present_at par i j \<Longrightarrow>
        entry_at (child c) i j AND 0xFFF = entry_at par i j AND 0xFFF \<and>
        frame_at (child c) i j \<in> set (fresh_frames c0) - set (fresh_frames c) \<and>
        (\<forall>x < 4096. phys c (frame_at (child c) i j + x) = phys c0 (frame_at par i j + x))"
    using cop unfolding copied_def by blast+
  have inD: "(pdi v, pti v) \<in> ?D" if "present_at par (pdi v) (pti v)" "v < 0xC0000000" for v
  proof -
    have "v div 4194304 < 768" using that(2) by simp
    then show ?thesis using that(1) by (auto simp: entry_at_def pte_present_def split: option.splits)
  qed
  have base: "(t + x) - (t + x) mod 4096 = t" "(t + x) div 4096 = t div 4096" if "t mod 4096 = 0" "x < 4096" for t x :: nat
    using that by auto
  show ?thesis
  proof (cases "present_at par (pdi va) (pti va)")
    case False
    then show ?thesis using iff by (simp add: translate_entry)
  next
    case True
    note D = inD [OF True assms(4)]
    have pres: "present_at (child c) (pdi va) (pti va)" using iff D True by blast
    let ?b = "frame_at (child c) (pdi va) (pti va) + va mod 4096"
    have "frame_at par (pdi va) (pti va) \<notin> set (fresh_frames c0)" using assms(2) True by (simp add: good_pages_def)
    then have par: "phys c (frame_at par (pdi va) (pti va) + va mod 4096) = phys c0 (frame_at par (pdi va) (pti va) + va mod 4096)"
      using base(1) [OF frame_aligned, of "va mod 4096"] by (intro same) simp
    have other: "b' div 4096 \<noteq> ?b div 4096" if vb: "vb < 0xC0000000" "vb div 4096 \<noteq> va div 4096" "translate (child c) vb = Some b'" for vb b'
    proof
      assume eq: "b' div 4096 = ?b div 4096"
      have pb: "present_at (child c) (pdi vb) (pti vb)" "b' = frame_at (child c) (pdi vb) (pti vb) + vb mod 4096"
        using vb(3) by (auto simp: translate_entry split: if_splits)
      have "frame_at (child c) (pdi vb) (pti vb) = frame_at (child c) (pdi va) (pti va)"
        using eq base(2) [OF frame_aligned, of "va mod 4096"] base(2) [OF frame_aligned, of "vb mod 4096"] unfolding pb(2)
        by (intro aligned_div_eq [OF frame_aligned frame_aligned]) simp
      then have "(pdi vb, pti vb) = (pdi va, pti va)"
        using iff pb(1) D True by (intro inj) (auto simp del: atLeastLessThan_iff)
      then show False using vb(2) same_page_iff [of vb va] by simp
    qed
    have "phys c ?b = phys c0 (frame_at par (pdi va) (pti va) + va mod 4096)" "?b - ?b mod 4096 \<in> set (fresh_frames c0)"
      "entry_at (child c) (pdi va) (pti va) AND 0xFFF = entry_at par (pdi va) (pti va) AND 0xFFF"
      using old [OF D True] base(1) [OF frame_aligned, of "va mod 4096"] by auto
    then show ?thesis using True pres par other by (simp add: translate_entry)
  qed
qed

text \<open>
  fork copies the address space. If the copy succeeds, into a child without user pages and
  with new pages that are aligned, different and not in use, then every user address is mapped in
  the child if and only if it is in the parent, with the same permission bits and the same byte;
  the child's page frame is a new one, so that no later write of one of the two is seen by the other,
  two different pages of the child do not share a frame, and the parent's memory is unchanged.
\<close>

theorem arch_mm_copy_user_copies:
  assumes "arch_mm_copy_user par c0 = Inr c" "good_pages par c0" "\<forall>i j. \<not> present_at (child c0) i j" "va < 0xC0000000"
  shows "case translate par va of
      None \<Rightarrow> translate (child c) va = None
    | Some a \<Rightarrow> phys c a = phys c0 a \<and> (\<exists>b. translate (child c) va = Some b \<and> phys c b = phys c0 a \<and>
        b - b mod 4096 \<in> set (fresh_frames c0) \<and>
        entry_at (child c) (pdi va) (pti va) AND 0xFFF = entry_at par (pdi va) (pti va) AND 0xFFF \<and>
        (\<forall>vb < 0xC0000000. vb div 4096 \<noteq> va div 4096 \<longrightarrow>
           (\<forall>b'. translate (child c) vb = Some b' \<longrightarrow> b' div 4096 \<noteq> b div 4096)))"
  by (rule copy_user_correct [OF assms])

lemma copy_ptes_absent: "\<forall>j \<in> set js. \<not> pte_present (pt j) \<Longrightarrow> copy_ptes i pt js c = Inr c"
  by (induction js) (simp_all add: copy_pte_def)

lemma copy_tables_absent: "\<forall>i \<in> set is. page_tables par i = None \<Longrightarrow> copy_tables par is c = Inr c"
  by (induction "is") simp_all

text \<open>An address space with one page, copied into two fresh pages.\<close>

definition demo_copy :: copy_state where
  "demo_copy = \<lparr>child = arch_mm_init (\<lambda>_. 0), phys = (\<lambda>a. if a = 0x5123 then 7 else 0), fresh_pages = [0xC0100000, 0xC0101000]\<rparr>"

lemma demo_copy_facts:
  "good_pages (one_page 0) demo_copy" "\<forall>i j. \<not> present_at (child demo_copy) i j" "translate (one_page 0) 0x123 = Some 0x5123"
proof -
  have ent: "entry_at (one_page 0) i j = (if i = 0 \<and> j = 0 then 0x5005 else 0)" for i j
    by (simp add: entry_at_def one_page_def)
  show "good_pages (one_page 0) demo_copy"
    by (auto simp: demo_copy_def good_pages_def fresh_frames_def virt_to_phys_def KERNEL_VMA_def ent pte_present_def pte_frame_def)
  show "\<forall>i j. \<not> present_at (child demo_copy) i j" by (simp add: demo_copy_def entry_at_def arch_mm_init_def pte_present_def)
  show "translate (one_page 0) 0x123 = Some 0x5123" by (simp add: translate_entry ent pte_present_def pte_frame_def)
qed

lemma demo_copy_runs: obtains c where "arch_mm_copy_user (one_page 0) demo_copy = Inr c"
proof -
  have u: "[0..<768] = 0 # [Suc 0..<768]" "[0..<1024] = 0 # [Suc 0..<1024]"
    by (rule upt_conv_Cons, simp)+
  obtain c where "copy_pte 0 0 0x5005 demo_copy = Inr c"
    by (simp add: demo_copy_def copy_pte_def take_page_def arch_mm_init_def Let_def add_table_def pte_present_def)
  moreover have "copy_ptes 0 (\<lambda>j. if j = 0 then 0x5005 else 0) [Suc 0..<1024] c = Inr c"
    by (rule copy_ptes_absent) (auto simp: pte_present_def)
  moreover have "copy_tables (one_page 0) [Suc 0..<768] c = Inr c"
    by (rule copy_tables_absent) (simp add: one_page_def)
  moreover have "page_tables (one_page 0) 0 = Some (\<lambda>j. if j = 0 then 0x5005 else 0)" by (simp add: one_page_def)
  ultimately have "arch_mm_copy_user (one_page 0) demo_copy = Inr c"
    unfolding arch_mm_copy_user_def u copy_tables.simps
    by (simp only: u copy_ptes.simps option.case sum.case if_True refl)
  then show ?thesis by (rule that)
qed

theorem arch_mm_copy_user_copies_witness:
  "\<exists>c b. arch_mm_copy_user (one_page 0) demo_copy = Inr c \<and> translate (child c) 0x123 = Some b \<and> phys c b = 7"
proof -
  obtain c where run: "arch_mm_copy_user (one_page 0) demo_copy = Inr c" by (rule demo_copy_runs)
  have "phys demo_copy 0x5123 = 7" by (simp add: demo_copy_def)
  then show ?thesis
    using arch_mm_copy_user_copies [OF run demo_copy_facts(1,2), of "0x123"] demo_copy_facts(3) run by auto
qed

end
