(* ===== verification/Vmalloc.thy ===== *)
theory Vmalloc
  imports Paging
begin

text \<open>
  The allocator of kernel virtual addresses, \<^verbatim>\<open>mm/vmalloc.c\<close>: \<^verbatim>\<open>ioremap\<close> finds a run of free
  virtual pages with the search loop that the page allocator uses too, maps them one by one in the
  boot page directory and records the region; \<^verbatim>\<open>iounmap\<close> undoes it. \<open>pt_pages\<close> holds the pages
  that the allocator will return for new page tables, failure when used up.
\<close>

section \<open>State\<close>

definition VMALLOC_START :: nat where "VMALLOC_START = 0xF8000000"
definition VMALLOC_PAGES :: nat where "VMALLOC_PAGES = 31744"
definition MAX_VMALLOC_REGIONS :: nat where "MAX_VMALLOC_REGIONS = 64"

record vmalloc_region =
  virt_addr :: nat
  phys_addr :: u32
  num_pages :: nat
  in_use :: bool

record vmalloc =
  vmalloc_bitmap :: "nat \<Rightarrow> u32"
  vmalloc_used_page_count :: nat
  vmalloc_regions :: "vmalloc_region list"
  kmap :: addr_space
  pt_pages :: "u32 list"

section \<open>The bitmap\<close>

definition bitmap_set_bit :: "vmalloc \<Rightarrow> nat \<Rightarrow> vmalloc" where
  "bitmap_set_bit s b = s\<lparr>vmalloc_bitmap := (vmalloc_bitmap s)
     (b div 32 := vmalloc_bitmap s (b div 32) OR push_bit (b mod 32) 1)\<rparr>"

definition bitmap_clear_bit :: "vmalloc \<Rightarrow> nat \<Rightarrow> vmalloc" where
  "bitmap_clear_bit s b = s\<lparr>vmalloc_bitmap := (vmalloc_bitmap s)
     (b div 32 := vmalloc_bitmap s (b div 32) AND NOT (push_bit (b mod 32) 1))\<rparr>"

definition bitmap_test_bit :: "vmalloc \<Rightarrow> nat \<Rightarrow> bool" where
  "bitmap_test_bit s b \<longleftrightarrow> vmalloc_bitmap s (b div 32) AND push_bit (b mod 32) 1 \<noteq> 0"

fun vmalloc_find_loop :: "vmalloc \<Rightarrow> nat \<Rightarrow> nat list \<Rightarrow> nat \<Rightarrow> nat \<Rightarrow> nat option" where
  "vmalloc_find_loop s n [] consecutive start_page = None"
| "vmalloc_find_loop s n (page # pages) consecutive start_page =
     (if \<not> bitmap_test_bit s page then
        let start_page = (if consecutive = 0 then page else start_page);
            consecutive = Suc consecutive
        in if consecutive = n then Some start_page
           else vmalloc_find_loop s n pages consecutive start_page
      else vmalloc_find_loop s n pages 0 start_page)"

definition vmalloc_find_free :: "vmalloc \<Rightarrow> nat \<Rightarrow> nat" where
  "vmalloc_find_free s n =
     (case vmalloc_find_loop s n [0..<VMALLOC_PAGES] 0 0 of
        Some start_page \<Rightarrow> VMALLOC_START + start_page * PAGE_SIZE
      | None \<Rightarrow> 0)"

definition vmalloc_mark_used :: "vmalloc \<Rightarrow> nat \<Rightarrow> nat \<Rightarrow> vmalloc" where
  "vmalloc_mark_used s va n =
     (let start_page = (va - VMALLOC_START) div PAGE_SIZE;
          s = fold (\<lambda>i s. bitmap_set_bit s (start_page + i)) [0..<n] s
      in s\<lparr>vmalloc_used_page_count := w32 (vmalloc_used_page_count s + n)\<rparr>)"

definition vmalloc_mark_free :: "vmalloc \<Rightarrow> nat \<Rightarrow> nat \<Rightarrow> vmalloc" where
  "vmalloc_mark_free s va n =
     (let start_page = (va - VMALLOC_START) div PAGE_SIZE;
          s = fold (\<lambda>i s. bitmap_clear_bit s (start_page + i)) [0..<n] s
      in s\<lparr>vmalloc_used_page_count := sub32 (vmalloc_used_page_count s) n\<rparr>)"

section \<open>Regions\<close>

fun claim_region :: "vmalloc_region \<Rightarrow> vmalloc_region list \<Rightarrow> vmalloc_region list option" where
  "claim_region r [] = None"
| "claim_region r (x # xs) = (if \<not> in_use x then Some (r # xs) else map_option ((#) x) (claim_region r xs))"

definition vmalloc_add_region :: "vmalloc \<Rightarrow> nat \<Rightarrow> u32 \<Rightarrow> nat \<Rightarrow> bool \<times> vmalloc" where
  "vmalloc_add_region s va pa n =
     (case claim_region \<lparr>virt_addr = va, phys_addr = pa, num_pages = n, in_use = True\<rparr> (vmalloc_regions s) of
        None \<Rightarrow> (False, s)
      | Some rs \<Rightarrow> (True, s\<lparr>vmalloc_regions := rs\<rparr>))"

fun find_region :: "nat \<Rightarrow> vmalloc_region list \<Rightarrow> nat option" where
  "find_region va [] = None"
| "find_region va (x # xs) =
     (if in_use x \<and> virt_addr x = va then Some 0 else map_option Suc (find_region va xs))"

definition vmalloc_find_region :: "vmalloc \<Rightarrow> nat \<Rightarrow> nat option" where
  "vmalloc_find_region s va = find_region (va - va mod 4096) (vmalloc_regions s)"

definition vmalloc_remove_region :: "vmalloc \<Rightarrow> nat \<Rightarrow> vmalloc" where
  "vmalloc_remove_region s i = s\<lparr>vmalloc_regions := (vmalloc_regions s)[i := (vmalloc_regions s ! i)\<lparr>in_use := False\<rparr>]\<rparr>"

definition vmalloc_init :: "vmalloc \<Rightarrow> vmalloc" where
  "vmalloc_init s = s\<lparr>vmalloc_bitmap := (\<lambda>_. 0),
     vmalloc_regions := replicate MAX_VMALLOC_REGIONS \<lparr>virt_addr = 0, phys_addr = 0, num_pages = 0, in_use = False\<rparr>,
     vmalloc_used_page_count := 0\<rparr>"

section \<open>Mapping and unmapping\<close>

text \<open>One call of \<^verbatim>\<open>map_page\<close>, which takes a page from the allocator when it needs a table.\<close>

definition kmap_page :: "vmalloc \<Rightarrow> nat \<Rightarrow> u32 \<Rightarrow> int \<times> vmalloc" where
  "kmap_page s va pa =
     (let need = (page_tables (kmap s) (va div 4194304) = None);
          fresh = (case pt_pages s of [] \<Rightarrow> 0 | p # ps \<Rightarrow> p)
      in case map_page (kmap s) va pa 3 fresh of
           (r, m) \<Rightarrow> (r, s\<lparr>kmap := m, pt_pages := (if need then tl (pt_pages s) else pt_pages s)\<rparr>))"

text \<open>The mapping loop: the number of pages mapped before a failure, and the state.\<close>

fun map_pages :: "vmalloc \<Rightarrow> nat \<Rightarrow> u32 \<Rightarrow> nat list \<Rightarrow> nat option \<times> vmalloc" where
  "map_pages s virt_base phys_base [] = (None, s)"
| "map_pages s virt_base phys_base (i # is) =
     (case kmap_page s (virt_base + i * PAGE_SIZE) (phys_base + of_nat (i * PAGE_SIZE)) of
        (r, s) \<Rightarrow> if r < 0 then (Some i, s) else map_pages s virt_base phys_base is)"

definition unmap_pages :: "vmalloc \<Rightarrow> nat \<Rightarrow> nat \<Rightarrow> vmalloc" where
  "unmap_pages s virt_base n = s\<lparr>kmap := fold (\<lambda>i m. unmap_page m (virt_base + i * PAGE_SIZE)) [0..<n] (kmap s)\<rparr>"

definition ioremap_pages :: "u32 \<Rightarrow> nat \<Rightarrow> nat" where
  "ioremap_pages pa sz = w32 (sz + unat (pa AND 0xFFF) + PAGE_SIZE - 1) div PAGE_SIZE"

definition ioremap :: "vmalloc \<Rightarrow> u32 \<Rightarrow> nat \<Rightarrow> nat \<times> vmalloc" where
  "ioremap s pa sz =
     (if sz = 0 then (0, s)
      else
        let phys_base = pte_frame pa; offset = unat (pa AND 0xFFF); n = ioremap_pages pa sz;
            virt_base = vmalloc_find_free s n
        in if virt_base = 0 then (0, s)
           else (case map_pages s virt_base phys_base [0..<n] of
               (Some i, s) \<Rightarrow> (0, unmap_pages s virt_base i)
             | (None, s) \<Rightarrow>
                 let s = vmalloc_mark_used s virt_base n;
                     s = snd (vmalloc_add_region s virt_base phys_base n)
                 in (virt_base + offset, s)))"

definition iounmap :: "vmalloc \<Rightarrow> nat \<Rightarrow> vmalloc" where
  "iounmap s va =
     (if va = 0 then s
      else
        let virt_base = va - va mod 4096
        in case vmalloc_find_region s virt_base of
             None \<Rightarrow> s
           | Some i \<Rightarrow>
               let n = num_pages (vmalloc_regions s ! i);
                   s = unmap_pages s virt_base n;
                   s = vmalloc_mark_free s virt_base n
               in vmalloc_remove_region s i)"

definition vmalloc_used_pages :: "vmalloc \<Rightarrow> nat" where
  "vmalloc_used_pages s = vmalloc_used_page_count s"

definition vmalloc_free_pages :: "vmalloc \<Rightarrow> nat" where
  "vmalloc_free_pages s = sub32 VMALLOC_PAGES (vmalloc_used_page_count s)"

section \<open>The shared interfaces\<close>

lemma vbit: "bitmap_test_bit s i \<longleftrightarrow> bit (vmalloc_bitmap s (i div 32)) (i mod 32)"
  unfolding bitmap_test_bit_def by (rule and_push_bit_one_iff)

interpretation vm_bits: bitmap_ops bitmap_set_bit bitmap_clear_bit bitmap_test_bit
proof unfold_locales
  fix s i j
  show "bitmap_test_bit (bitmap_set_bit s i) j \<longleftrightarrow> i = j \<or> bitmap_test_bit s j"
    unfolding vbit bitmap_set_bit_def using bitmap_word_set [of "vmalloc_bitmap s"] by simp
  show "bitmap_test_bit (bitmap_clear_bit s i) j \<longleftrightarrow> i \<noteq> j \<and> bitmap_test_bit s j"
    unfolding vbit bitmap_clear_bit_def using bitmap_word_clear [of "vmalloc_bitmap s"] by simp
qed

interpretation vm_run: run_search bitmap_set_bit bitmap_clear_bit bitmap_test_bit vmalloc_find_loop
  by unfold_locales (simp_all add: Let_def)

lemma set_bits_other [simp]:
  "vmalloc_used_page_count (fold (\<lambda>i s. bitmap_set_bit s (a + i)) is s) = vmalloc_used_page_count s"
  "vmalloc_regions (fold (\<lambda>i s. bitmap_set_bit s (a + i)) is s) = vmalloc_regions s"
  "kmap (fold (\<lambda>i s. bitmap_set_bit s (a + i)) is s) = kmap s"
  "pt_pages (fold (\<lambda>i s. bitmap_set_bit s (a + i)) is s) = pt_pages s"
  by (induction "is" arbitrary: s) (simp_all add: bitmap_set_bit_def)

lemma clear_bits_other [simp]:
  "vmalloc_used_page_count (fold (\<lambda>i s. bitmap_clear_bit s (a + i)) is s) = vmalloc_used_page_count s"
  "vmalloc_regions (fold (\<lambda>i s. bitmap_clear_bit s (a + i)) is s) = vmalloc_regions s"
  "kmap (fold (\<lambda>i s. bitmap_clear_bit s (a + i)) is s) = kmap s"
  "pt_pages (fold (\<lambda>i s. bitmap_clear_bit s (a + i)) is s) = pt_pages s"
  by (induction "is" arbitrary: s) (simp_all add: bitmap_clear_bit_def)

lemma test_bit_other [simp]:
  "bitmap_test_bit (s\<lparr>vmalloc_used_page_count := x\<rparr>) b = bitmap_test_bit s b"
  "bitmap_test_bit (s\<lparr>vmalloc_regions := rs\<rparr>) b = bitmap_test_bit s b"
  "bitmap_test_bit (s\<lparr>kmap := m\<rparr>) b = bitmap_test_bit s b"
  by (simp_all add: bitmap_test_bit_def)

section \<open>What mapping a range does\<close>

text \<open>The virtual address of page \<open>p\<close> of the region.\<close>

abbreviation vpage :: "nat \<Rightarrow> nat" where "vpage p \<equiv> VMALLOC_START + p * PAGE_SIZE"

lemma kmap_page_ok:
  assumes "kmap_page s va pa = (r, s')"
  shows "vmalloc_bitmap s' = vmalloc_bitmap s \<and> vmalloc_used_page_count s' = vmalloc_used_page_count s
    \<and> vmalloc_regions s' = vmalloc_regions s
    \<and> (if r < 0 then kmap s' = kmap s
       else \<forall>vb. translate (kmap s') vb =
         (if vb div 4096 = va div 4096 then Some (unat (pte_frame pa) + vb mod 4096) else translate (kmap s) vb))"
proof -
  obtain m where m: "map_page (kmap s) va pa 3 (case pt_pages s of [] \<Rightarrow> 0 | p # ps \<Rightarrow> p) = (r, m)"
    and s': "s' = s\<lparr>kmap := m, pt_pages := (if page_tables (kmap s) (va div 4194304) = None then tl (pt_pages s) else pt_pages s)\<rparr>"
    using assms by (auto simp: kmap_page_def Let_def split: prod.splits)
  have r: "r = -1 \<and> m = kmap s \<or> r = 0" using m by (auto simp: map_page_def Let_def split: if_splits)
  then show ?thesis using s' m map_page_maps [of "kmap s" va pa 3] by (auto simp: pte_frame_def pte_present_def)
qed

lemma page_of: "va mod 4096 = 0 \<Longrightarrow> vb div 4096 = (va + i * PAGE_SIZE) div 4096 \<longleftrightarrow> vb div 4096 = va div 4096 + i"
  by (auto simp: PAGE_SIZE_def)

lemma map_pages_ok:
  assumes "map_pages s vbase pbase [i..<n] = (f, s')" "vbase mod 4096 = 0" "i \<le> n"
  shows "vmalloc_bitmap s' = vmalloc_bitmap s \<and> vmalloc_used_page_count s' = vmalloc_used_page_count s
    \<and> vmalloc_regions s' = vmalloc_regions s
    \<and> (let e = (case f of None \<Rightarrow> n | Some j \<Rightarrow> j) in i \<le> e \<and> e \<le> n \<and>
       (\<forall>vb. translate (kmap s') vb =
         (if vbase div 4096 + i \<le> vb div 4096 \<and> vb div 4096 < vbase div 4096 + e
          then Some (unat (pte_frame (pbase + of_nat ((vb div 4096 - vbase div 4096) * PAGE_SIZE))) + vb mod 4096)
          else translate (kmap s) vb)))"
  using assms
proof (induction "n - i" arbitrary: i s)
  case 0
  then show ?case by (auto simp: Let_def)
next
  case (Suc d)
  then have upt: "[i..<n] = i # [Suc i..<n]" by (simp add: upt_conv_Cons)
  obtain r s1 where k: "kmap_page s (vbase + i * PAGE_SIZE) (pbase + of_nat (i * PAGE_SIZE)) = (r, s1)" by fastforce
  note kp = kmap_page_ok [OF k, unfolded page_of [OF Suc.prems(2)]]
  show ?case
  proof (cases "r < 0")
    case True
    then have "f = Some i" "s' = s1" using Suc.prems(1) k by (simp_all add: upt)
    then show ?thesis using kp True Suc.prems(3) by (auto simp: Let_def)
  next
    case False
    have "map_pages s1 vbase pbase [Suc i..<n] = (f, s')" using Suc.prems(1) k False by (simp add: upt)
    then have ih: "vmalloc_bitmap s' = vmalloc_bitmap s1 \<and> vmalloc_used_page_count s' = vmalloc_used_page_count s1
      \<and> vmalloc_regions s' = vmalloc_regions s1
      \<and> (let e = (case f of None \<Rightarrow> n | Some j \<Rightarrow> j) in Suc i \<le> e \<and> e \<le> n \<and>
       (\<forall>vb. translate (kmap s') vb =
         (if vbase div 4096 + Suc i \<le> vb div 4096 \<and> vb div 4096 < vbase div 4096 + e
          then Some (unat (pte_frame (pbase + of_nat ((vb div 4096 - vbase div 4096) * PAGE_SIZE))) + vb mod 4096)
          else translate (kmap s1) vb)))"
      using Suc.hyps(2) Suc.prems(2,3) by (intro Suc.hyps(1)) auto
    define e where "e = (case f of None \<Rightarrow> n | Some j \<Rightarrow> j)"
    have e: "Suc i \<le> e" "e \<le> n" and tr: "\<And>vb. translate (kmap s') vb =
         (if vbase div 4096 + Suc i \<le> vb div 4096 \<and> vb div 4096 < vbase div 4096 + e
          then Some (unat (pte_frame (pbase + of_nat ((vb div 4096 - vbase div 4096) * PAGE_SIZE))) + vb mod 4096)
          else translate (kmap s1) vb)"
      using ih unfolding e_def [symmetric] Let_def by blast+
    have "translate (kmap s') vb =
         (if vbase div 4096 + i \<le> vb div 4096 \<and> vb div 4096 < vbase div 4096 + e
          then Some (unat (pte_frame (pbase + of_nat ((vb div 4096 - vbase div 4096) * PAGE_SIZE))) + vb mod 4096)
          else translate (kmap s) vb)" for vb
    proof (cases "vb div 4096 = vbase div 4096 + i")
      case True
      then show ?thesis using tr [of vb] kp False e by simp
    next
      case ne: False
      then have "vbase div 4096 + i \<le> vb div 4096 \<longleftrightarrow> vbase div 4096 + Suc i \<le> vb div 4096" by auto
      then show ?thesis using tr [of vb] kp False ne by simp
    qed
    then show ?thesis using ih kp e unfolding e_def [symmetric] Let_def by auto
  qed
qed

lemma unmap_pages_ok:
  assumes "vbase mod 4096 = 0"
  shows "translate (kmap (unmap_pages s vbase n)) vb =
    (if vbase div 4096 \<le> vb div 4096 \<and> vb div 4096 < vbase div 4096 + n then None else translate (kmap s) vb)"
  unfolding unmap_pages_def
proof (induction n)
  case (Suc n)
  then show ?case using page_of [OF assms, of vb n] by (auto simp: unmap_page_unmaps)
qed auto

section \<open>Well-formed allocators\<close>

lemma unat_pte_frame: "unat (pte_frame w) = unat w - unat w mod 4096"
proof -
  have "(w AND 0xFFF) + pte_frame w = (w AND 0xFFF) OR pte_frame w"
    unfolding pte_frame_def by (rule disjunctive_add) (auto simp: bit_simps)
  also have "\<dots> = w" unfolding pte_frame_def by (rule bit_eqI) (auto simp: bit_simps)
  finally have "pte_frame w = w - (w AND 0xFFF)" by (simp add: algebra_simps)
  moreover have "unat (w - (w AND 0xFFF)) = unat w - unat (w AND 0xFFF)"
    by (intro unat_sub) (simp add: word_and_le2)
  moreover have "unat (w AND 0xFFF) = unat w mod 4096" unfolding low_bits_eq by (simp add: take_bit_eq_mod unat_mod)
  ultimately show ?thesis by simp
qed

lemma unat_low_bits: "unat (w AND 0xFFF) = unat w mod (4096::nat)" for w :: u32
  unfolding low_bits_eq by (simp add: take_bit_eq_mod unat_mod)

definition region_pages :: "vmalloc_region \<Rightarrow> nat set" where
  "region_pages r = {p. VMALLOC_START div 4096 + p \<ge> virt_addr r div 4096 \<and>
     VMALLOC_START div 4096 + p < virt_addr r div 4096 + num_pages r}"

definition used_pages :: "vmalloc \<Rightarrow> nat set" where
  "used_pages s = {p. p < VMALLOC_PAGES \<and> bitmap_test_bit s p}"

definition regions_ok :: "nat set \<Rightarrow> vmalloc_region list \<Rightarrow> bool" where
  "regions_ok U rs \<longleftrightarrow>
     (\<forall>i < length rs. in_use (rs ! i) \<longrightarrow>
        virt_addr (rs ! i) mod 4096 = 0 \<and> VMALLOC_START \<le> virt_addr (rs ! i) \<and> num_pages (rs ! i) > 0 \<and>
        region_pages (rs ! i) \<subseteq> U) \<and>
     (\<forall>i < length rs. \<forall>j < length rs. i \<noteq> j \<longrightarrow> in_use (rs ! i) \<longrightarrow> in_use (rs ! j) \<longrightarrow>
        region_pages (rs ! i) \<inter> region_pages (rs ! j) = {})"

definition vm_inv :: "vmalloc \<Rightarrow> bool" where
  "vm_inv s \<longleftrightarrow>
     regions_ok (used_pages s) (vmalloc_regions s) \<and>
     (\<forall>vb. VMALLOC_START div 4096 \<le> vb div 4096 \<and> vb div 4096 < VMALLOC_START div 4096 + VMALLOC_PAGES \<and>
        vb div 4096 - VMALLOC_START div 4096 \<notin> used_pages s \<longrightarrow> translate (kmap s) vb = None) \<and>
     vmalloc_used_page_count s = card (used_pages s)"

lemma regions_ok_mono: "regions_ok U rs \<Longrightarrow> U \<subseteq> V \<Longrightarrow> regions_ok V rs"
  unfolding regions_ok_def by blast

lemma regions_okD:
  assumes "regions_ok U rs" "i < length rs" "in_use (rs ! i)"
  shows "virt_addr (rs ! i) mod 4096 = 0" "VMALLOC_START \<le> virt_addr (rs ! i)" "num_pages (rs ! i) > 0"
    "region_pages (rs ! i) \<subseteq> U"
    "j < length rs \<Longrightarrow> i \<noteq> j \<Longrightarrow> in_use (rs ! j) \<Longrightarrow> region_pages (rs ! i) \<inter> region_pages (rs ! j) = {}"
  using assms unfolding regions_ok_def by blast+

lemma regions_ok_add:
  assumes "regions_ok U rs" "virt_addr r mod 4096 = 0" "VMALLOC_START \<le> virt_addr r" "0 < num_pages r" "region_pages r \<inter> U = {}"
  shows "regions_ok (U \<union> region_pages r) (rs[i := r])"
  unfolding regions_ok_def
proof (intro conjI allI impI, goal_cases)
  case (1 k)
  then show ?case using assms(2) regions_okD(1) [OF assms(1), of k] by (cases "k = i") simp_all
next
  case (2 k)
  then show ?case using assms(3) regions_okD(2) [OF assms(1), of k] by (cases "k = i") simp_all
next
  case (3 k)
  then show ?case using assms(4) regions_okD(3) [OF assms(1), of k] by (cases "k = i") simp_all
next
  case (4 k)
  then show ?case using regions_okD(4) [OF assms(1), of k] by (cases "k = i") auto
next
  case (5 k l)
  show ?case
  proof (cases "k = i \<or> l = i")
    case True
    then show ?thesis using 5 assms(5) regions_okD(4) [OF assms(1), of k] regions_okD(4) [OF assms(1), of l]
      by (elim disjE) (simp_all, blast+)
  next
    case False
    then show ?thesis using 5 regions_okD(5) [OF assms(1), of k l] by simp
  qed
qed

lemma region_pages_in_use [simp]: "region_pages (r\<lparr>in_use := b\<rparr>) = region_pages r"
  by (simp add: region_pages_def)

lemma regions_ok_remove:
  assumes "regions_ok U rs" "i < length rs" "in_use (rs ! i)"
  shows "regions_ok (U - region_pages (rs ! i)) (rs[i := (rs ! i)\<lparr>in_use := False\<rparr>])"
  unfolding regions_ok_def
proof (intro conjI allI impI, goal_cases)
  case (4 k)
  then have "k \<noteq> i" using assms(2) by auto
  then show ?case using 4 regions_okD(4) [OF assms(1), of k] regions_okD(5) [OF assms, of k] by auto
next
  case (5 k l)
  then have "k \<noteq> i" "l \<noteq> i" using assms(2) by auto
  then show ?case using 5 regions_okD(5) [OF assms(1), of k l] by simp
qed (use regions_okD(1-3) [OF assms(1)] assms(2) in \<open>auto simp: nth_list_update split: if_splits\<close>)

lemma page_add:
  fixes x :: nat
  assumes "x mod 4096 = 0"
  shows "(x + j) div 4096 = x div 4096 + j div 4096 \<and> (x + j) mod 4096 = j mod 4096"
proof -
  obtain q where "x = 4096 * q" using assms by auto
  then show ?thesis by simp
qed

lemma div_cover:
  fixes X :: nat
  assumes "0 < X"
  shows "X \<le> (X + 4095) div 4096 * 4096" "(X + 4095) div 4096 * 4096 < X + 4096" "0 < (X + 4095) div 4096"
proof -
  have "(X + 4095) div 4096 * 4096 + (X + 4095) mod 4096 = X + 4095" by (rule div_mult_mod_eq)
  moreover have "(X + 4095) mod 4096 < 4096" by simp
  ultimately show "X \<le> (X + 4095) div 4096 * 4096" "(X + 4095) div 4096 * 4096 < X + 4096" by linarith+
  then show "0 < (X + 4095) div 4096" using assms by (cases "(X + 4095) div 4096") auto
qed

lemma used_pages_finite [simp]: "finite (used_pages s)"
  by (rule finite_subset [of _ "{..<VMALLOC_PAGES}"]) (auto simp: used_pages_def)

lemma used_pages_bound: "card (used_pages s) \<le> VMALLOC_PAGES"
  using card_mono [of "{..<VMALLOC_PAGES}" "used_pages s"] by (auto simp: used_pages_def)

lemma claim_region_Some:
  "claim_region r xs = Some ys \<Longrightarrow> \<exists>i < length xs. \<not> in_use (xs ! i) \<and> ys = xs[i := r]"
proof (induction xs arbitrary: ys)
  case (Cons x xs)
  show ?case
  proof (cases "in_use x")
    case False
    then show ?thesis using Cons.prems by (intro exI [of _ 0]) simp
  next
    case True
    then obtain zs where "claim_region r xs = Some zs" "ys = x # zs" using Cons.prems by auto
    then show ?thesis using Cons.IH by (fastforce intro: exI [of _ "Suc _"])
  qed
qed simp

lemma claim_region_None: "claim_region r xs = None \<longleftrightarrow> (\<forall>x \<in> set xs. in_use x)"
  by (induction xs) auto

text \<open>The result of a successful \<open>ioremap\<close>, piece by piece.\<close>

lemma ioremap_success:
  assumes "ioremap s pa sz = (v, s')" "v \<noteq> 0" "sz + unat (pa AND 0xFFF) + 4095 < 2 ^ 32"
  shows "\<exists>p n s1. n = ioremap_pages pa sz \<and> v = vpage p + unat (pa AND 0xFFF) \<and> p + n \<le> VMALLOC_PAGES \<and> 0 < n \<and>
    sz + unat (pa AND 0xFFF) \<le> n * PAGE_SIZE \<and> n * PAGE_SIZE < sz + unat (pa AND 0xFFF) + PAGE_SIZE \<and>
    (\<forall>k < n. p + k \<notin> used_pages s) \<and>
    map_pages s (vpage p) (pte_frame pa) [0..<n] = (None, s1) \<and>
    s' = snd (vmalloc_add_region (vmalloc_mark_used s1 (vpage p) n) (vpage p) (pte_frame pa) n)"
proof -
  let ?n = "ioremap_pages pa sz"
  have n: "?n = (sz + unat (pa AND 0xFFF) + 4095) div 4096" using assms(3) by (simp add: ioremap_pages_def PAGE_SIZE_def)
  have sz: "sz \<noteq> 0"
  proof
    assume "sz = 0"
    then show False using assms(1,2) by (simp add: ioremap_def)
  qed
  obtain p where p: "vmalloc_find_loop s ?n [0..<VMALLOC_PAGES] 0 0 = Some p" "vmalloc_find_free s ?n = vpage p"
    using assms(1,2) sz by (auto simp: ioremap_def Let_def vmalloc_find_free_def split: option.splits if_splits)
  have nz: "vpage p \<noteq> 0" by (simp add: VMALLOC_START_def)
  obtain f s1 where m: "map_pages s (vpage p) (pte_frame pa) [0..<?n] = (f, s1)" by fastforce
  have "f = None" "v = vpage p + unat (pa AND 0xFFF)"
    "s' = snd (vmalloc_add_region (vmalloc_mark_used s1 (vpage p) ?n) (vpage p) (pte_frame pa) ?n)"
    using assms(1,2) sz p(2) nz m by (auto simp: ioremap_def Let_def split: option.splits)
  moreover have "p + ?n \<le> VMALLOC_PAGES" "\<forall>k < ?n. p + k \<notin> used_pages s"
    using vm_run.loop_Some [OF p(1)] by (auto simp: used_pages_def)
  moreover have "sz + unat (pa AND 0xFFF) \<le> ?n * PAGE_SIZE" "?n * PAGE_SIZE < sz + unat (pa AND 0xFFF) + PAGE_SIZE" "0 < ?n"
    unfolding n PAGE_SIZE_def by (rule div_cover, use sz in simp)+
  ultimately show ?thesis using m by blast
qed

lemma start_page: "(vpage p - VMALLOC_START) div PAGE_SIZE = p" "vpage p div 4096 = VMALLOC_START div 4096 + p" "vpage p mod 4096 = 0"
  by (simp_all add: PAGE_SIZE_def VMALLOC_START_def)

lemma mark_used_pages:
  "p + n \<le> VMALLOC_PAGES \<Longrightarrow> used_pages (vmalloc_mark_used s (vpage p) n) = used_pages s \<union> {p..<p + n}"
  unfolding vmalloc_mark_used_def Let_def start_page used_pages_def
  by (auto simp: vm_bits.test_set_range)

lemma mark_free_pages:
  "used_pages (vmalloc_mark_free s (vpage p) n) = used_pages s - {p..<p + n}"
  unfolding vmalloc_mark_free_def Let_def start_page used_pages_def
  by (auto simp: vm_bits.test_clear_range)

lemma used_pages_cong: "vmalloc_bitmap s = vmalloc_bitmap t \<Longrightarrow> used_pages s = used_pages t"
  by (simp add: used_pages_def bitmap_test_bit_def)

lemma add_region_other [simp]:
  "vmalloc_bitmap (snd (vmalloc_add_region s va pa n)) = vmalloc_bitmap s"
  "vmalloc_used_page_count (snd (vmalloc_add_region s va pa n)) = vmalloc_used_page_count s"
  "kmap (snd (vmalloc_add_region s va pa n)) = kmap s"
  by (simp_all add: vmalloc_add_region_def split: option.splits)

lemma mark_used_other [simp]:
  "vmalloc_regions (vmalloc_mark_used s va n) = vmalloc_regions s" "kmap (vmalloc_mark_used s va n) = kmap s"
  "vmalloc_used_page_count (vmalloc_mark_used s va n) = w32 (vmalloc_used_page_count s + n)"
  by (simp_all add: vmalloc_mark_used_def Let_def)

lemma mark_free_other [simp]:
  "vmalloc_regions (vmalloc_mark_free s va n) = vmalloc_regions s" "kmap (vmalloc_mark_free s va n) = kmap s"
  "vmalloc_used_page_count (vmalloc_mark_free s va n) = sub32 (vmalloc_used_page_count s) n"
  by (simp_all add: vmalloc_mark_free_def Let_def)

lemma region_pages_new:
  "region_pages \<lparr>virt_addr = vpage p, phys_addr = pa, num_pages = n, in_use = True\<rparr> = {p..<p + n}"
  by (auto simp: region_pages_def start_page)

text \<open>Physical addresses of the pages of a mapping that does not run past the address space.\<close>

lemma page_frame_at:
  assumes "unat pa + sz \<le> 4294967296" "k < sz + unat pa mod 4096"
  shows "unat (pte_frame (pte_frame pa + of_nat (k div 4096 * PAGE_SIZE))) + k mod 4096 = unat (pte_frame pa) + k"
proof -
  let ?b = "unat (pte_frame pa)" and ?o = "k div 4096 * PAGE_SIZE"
  have b: "?b mod 4096 = 0" "?b = unat pa - unat pa mod 4096" by (simp_all add: unat_pte_frame minus_mod_eq_mult_div)
  have o': "?o mod 4096 = 0" "?o + k mod 4096 = k" by (simp_all add: PAGE_SIZE_def)
  then have "?o \<le> k" by linarith
  have "unat pa mod 4096 \<le> unat pa" by simp
  then have lt: "?b + ?o < 4294967296" using assms b(2) \<open>?o \<le> k\<close> by linarith
  moreover have "unat (of_nat ?o :: u32) = ?o" using lt by (simp only: unat_of_nat) (simp del: of_nat_mult)
  ultimately have "unat (pte_frame pa + of_nat ?o) = ?b + ?o"
    by (simp only: unat_word_ariths) simp
  moreover have "(?b + ?o) mod 4096 = 0" using b(1) o'(1) by (simp add: mod_add_eq [symmetric])
  ultimately show ?thesis using o'(2) by (simp add: unat_pte_frame [of "pte_frame pa + of_nat ?o"] del: of_nat_mult)
qed

lemma ioremap_inv:
  assumes inv: "vm_inv s" and s1: "vmalloc_bitmap s1 = vmalloc_bitmap s" "vmalloc_used_page_count s1 = vmalloc_used_page_count s"
    "vmalloc_regions s1 = vmalloc_regions s" and pn: "p + n \<le> VMALLOC_PAGES" "0 < n" and free: "\<forall>k < n. p + k \<notin> used_pages s"
    and s': "s' = snd (vmalloc_add_region (vmalloc_mark_used s1 (vpage p) n) (vpage p) pa n)"
    and tr: "\<And>vb. \<not> (VMALLOC_START div 4096 + p \<le> vb div 4096 \<and> vb div 4096 < VMALLOC_START div 4096 + p + n)
      \<Longrightarrow> translate (kmap s1) vb = translate (kmap s) vb"
  shows "used_pages s' = used_pages s \<union> {p..<p + n}" "vm_inv s'"
proof -
  let ?r = "\<lparr>virt_addr = vpage p, phys_addr = pa, num_pages = n, in_use = True\<rparr>"
  have new: "{p..<p + n} \<inter> used_pages s = {}" using free by (auto simp: le_iff_add)
  have u1: "used_pages s1 = used_pages s" by (rule used_pages_cong [OF s1(1)])
  have "vmalloc_bitmap s' = vmalloc_bitmap (vmalloc_mark_used s1 (vpage p) n)" by (simp add: s')
  then show used: "used_pages s' = used_pages s \<union> {p..<p + n}"
    using mark_used_pages [OF pn(1), of s1] used_pages_cong u1 by metis
  have old: "regions_ok (used_pages s) (vmalloc_regions s)" using inv by (simp add: vm_inv_def)
  have "vmalloc_regions s' = vmalloc_regions s \<or> (\<exists>i. vmalloc_regions s' = (vmalloc_regions s)[i := ?r])"
    using claim_region_Some by (auto simp: s' vmalloc_add_region_def s1 split: option.splits)
  moreover have "regions_ok (used_pages s \<union> region_pages ?r) ((vmalloc_regions s)[i := ?r])" for i
    by (rule regions_ok_add [OF old]) (use new pn(2) in \<open>simp_all add: region_pages_new start_page Int_commute\<close>)
  ultimately have reg: "regions_ok (used_pages s') (vmalloc_regions s')"
    using regions_ok_mono [OF old, of "used_pages s'"] unfolding used region_pages_new by auto
  have "card (used_pages s') = card (used_pages s) + n"
    unfolding used using new by (subst card_Un_disjoint) auto
  moreover have "card (used_pages s') \<le> VMALLOC_PAGES" by (rule used_pages_bound)
  moreover have "vmalloc_used_page_count s' = w32 (card (used_pages s) + n)"
    using inv by (simp add: s' s1(2) vm_inv_def)
  ultimately have cnt: "vmalloc_used_page_count s' = card (used_pages s')" by (simp add: VMALLOC_PAGES_def)
  have "translate (kmap s') vb = None"
    if vb: "VMALLOC_START div 4096 \<le> vb div 4096" "vb div 4096 < VMALLOC_START div 4096 + VMALLOC_PAGES"
      "vb div 4096 - VMALLOC_START div 4096 \<notin> used_pages s'" for vb
  proof -
    have nu: "vb div 4096 - VMALLOC_START div 4096 \<notin> used_pages s" and nn: "vb div 4096 - VMALLOC_START div 4096 \<notin> {p..<p + n}"
      using vb(3) unfolding used by auto
    have "\<not> (VMALLOC_START div 4096 + p \<le> vb div 4096 \<and> vb div 4096 < VMALLOC_START div 4096 + p + n)"
      using nn vb(1) by auto
    then have "translate (kmap s') vb = translate (kmap s) vb" using tr by (simp add: s')
    then show ?thesis using inv vb(1,2) nu by (simp add: vm_inv_def)
  qed
  then show "vm_inv s'" unfolding vm_inv_def using reg cnt by blast
qed

lemma ioremap_correct:
  assumes "vm_inv s" "ioremap s pa sz = (v, s')" "v \<noteq> 0" "unat pa + sz \<le> 2 ^ 32" "sz < 2 ^ 31"
  obtains p n where "v = vpage p + unat pa mod 4096" "p + n \<le> VMALLOC_PAGES" "0 < n" "\<forall>k < n. p + k \<notin> used_pages s"
    "vmalloc_regions s' = (case claim_region \<lparr>virt_addr = vpage p, phys_addr = pte_frame pa, num_pages = n, in_use = True\<rparr> (vmalloc_regions s) of
       None \<Rightarrow> vmalloc_regions s | Some rs \<Rightarrow> rs)"
    "used_pages s' = used_pages s \<union> {p..<p + n}" "vm_inv s'" "v div 4096 = VMALLOC_START div 4096 + p"
    "VMALLOC_START div 4096 + p + n \<le> (v + sz - 1) div 4096 + 1"
    "\<And>k. k < sz \<Longrightarrow> translate (kmap s) (v + k) = None \<and> translate (kmap s') (v + k) = Some (unat pa + k)"
    "\<And>vb. \<not> (VMALLOC_START div 4096 + p \<le> vb div 4096 \<and> vb div 4096 < VMALLOC_START div 4096 + p + n)
       \<Longrightarrow> translate (kmap s') vb = translate (kmap s) vb"
proof -
  note that' = that
  let ?V = "VMALLOC_START div 4096"
  have bnd: "unat pa + sz \<le> 4294967296" "sz < 2147483648" using assms(4,5) by simp_all
  have low: "unat (pa AND 0xFFF) = unat pa mod 4096" by (rule unat_low_bits)
  have "unat pa mod 4096 < 4096" by simp
  then have bound: "sz + unat (pa AND 0xFFF) + 4095 < 2 ^ 32" unfolding low using bnd(2) by simp
  from ioremap_success [OF assms(2,3) bound] obtain p n s1 where
    v: "v = vpage p + unat pa mod 4096" and pn: "p + n \<le> VMALLOC_PAGES" "0 < n" and
    cover: "sz + unat pa mod 4096 \<le> n * PAGE_SIZE" "n * PAGE_SIZE < sz + unat pa mod 4096 + PAGE_SIZE" and
    free: "\<forall>k < n. p + k \<notin> used_pages s" and
    m: "map_pages s (vpage p) (pte_frame pa) [0..<n] = (None, s1)" and
    s': "s' = snd (vmalloc_add_region (vmalloc_mark_used s1 (vpage p) n) (vpage p) (pte_frame pa) n)"
    unfolding low by blast
  have s1: "vmalloc_bitmap s1 = vmalloc_bitmap s" "vmalloc_used_page_count s1 = vmalloc_used_page_count s"
    "vmalloc_regions s1 = vmalloc_regions s" and tr1: "\<And>vb. translate (kmap s1) vb =
         (if ?V + p \<le> vb div 4096 \<and> vb div 4096 < ?V + p + n
          then Some (unat (pte_frame (pte_frame pa + of_nat ((vb div 4096 - (?V + p)) * PAGE_SIZE))) + vb mod 4096)
          else translate (kmap s) vb)"
    using map_pages_ok [OF m start_page(3)] unfolding start_page(2) by (simp_all add: Let_def)
  have k': "kmap s' = kmap s1" by (simp add: s')
  have tr': "translate (kmap s1) vb = translate (kmap s) vb" if "\<not> (?V + p \<le> vb div 4096 \<and> vb div 4096 < ?V + p + n)" for vb
    using tr1 [of vb] that by simp
  note inv = ioremap_inv(2) [OF assms(1) s1 pn free s' tr']
  have "translate (kmap s) (v + k) = None \<and> translate (kmap s') (v + k) = Some (unat pa + k)" if k: "k < sz" for k
  proof -
    let ?j = "k + unat pa mod 4096"
    have vk: "v + k = vpage p + ?j" by (simp add: v)
    have dm: "(v + k) div 4096 = ?V + p + ?j div 4096" "(v + k) mod 4096 = ?j mod 4096"
      using page_add [OF start_page(3), of p ?j] unfolding vk start_page(2) by blast+
    have jn: "?j div 4096 < n" using k cover(1) by (simp add: PAGE_SIZE_def div_less_iff_less_mult)
    have "translate (kmap s) (v + k) = None"
      using assms(1) dm(1) jn pn(1) free unfolding vm_inv_def by simp
    moreover have "translate (kmap s1) (v + k) = Some (unat (pte_frame pa) + ?j)"
      using tr1 [of "v + k"] dm jn page_frame_at [OF bnd(1), of ?j] k by simp
    moreover have "unat (pte_frame pa) + ?j = unat pa + k" by (simp add: unat_pte_frame)
    ultimately show ?thesis by (simp add: k')
  qed
  moreover have "v div 4096 = ?V + p" using page_add [OF start_page(3), of p "unat pa mod 4096"] unfolding v start_page(2) by simp
  moreover have "?V + p + n \<le> (v + sz - 1) div 4096 + 1"
  proof -
    have "n * 4096 < sz + unat pa mod 4096 + 4096" using cover(2) by (simp add: PAGE_SIZE_def)
    moreover have "vpage p = (?V + p) * 4096" using start_page(2,3) [of p] by (metis div_mult_mod_eq add_0_right)
    ultimately have "(?V + p + n) * 4096 < v + sz + 4096" unfolding v by (simp add: algebra_simps)
    then have "(?V + p + n) * 4096 \<le> (v + sz - 1) + 4096" by simp
    then have "?V + p + n \<le> (v + sz - 1 + 4096) div 4096" by (simp add: less_eq_div_iff_mult_less_eq)
    then show ?thesis by simp
  qed
  moreover have "vmalloc_regions s' = (case claim_region \<lparr>virt_addr = vpage p, phys_addr = pte_frame pa, num_pages = n, in_use = True\<rparr> (vmalloc_regions s) of
       None \<Rightarrow> vmalloc_regions s | Some rs \<Rightarrow> rs)"
    by (simp add: s' vmalloc_add_region_def s1 split: option.splits)
  moreover note ioremap_inv(1) [OF assms(1) s1 pn free s' tr'] tr' [folded k']
  ultimately show ?thesis using that' [of p n] v pn free inv by blast
qed

text \<open>
  C32: \<^verbatim>\<open>ioremap\<close> maps what it is asked for. A successful call returns an address of which every byte
  of the requested size was unmapped before and now leads to the corresponding physical byte; all
  other addresses outside the new pages keep their translation, and the allocator stays
  well-formed: its regions are disjoint, its counter is the number of pages in use, and free pages
  are not mapped.
\<close>

theorem ioremap_maps:
  assumes "vm_inv s" "ioremap s pa sz = (v, s')" "v \<noteq> 0" "unat pa + sz \<le> 2 ^ 32" "sz < 2 ^ 31"
  shows "vm_inv s' \<and>
    (\<forall>k < sz. translate (kmap s) (v + k) = None \<and> translate (kmap s') (v + k) = Some (unat pa + k)) \<and>
    (\<forall>vb. vb div 4096 < v div 4096 \<or> (v + sz - 1) div 4096 < vb div 4096 \<longrightarrow>
       translate (kmap s') vb = translate (kmap s) vb)"
proof -
  from ioremap_correct [OF assms] obtain p n where
    p: "v div 4096 = VMALLOC_START div 4096 + p" "VMALLOC_START div 4096 + p + n \<le> (v + sz - 1) div 4096 + 1" and
    inv: "vm_inv s'" and
    tr: "\<And>k. k < sz \<Longrightarrow> translate (kmap s) (v + k) = None \<and> translate (kmap s') (v + k) = Some (unat pa + k)" and
    other: "\<And>vb. \<not> (VMALLOC_START div 4096 + p \<le> vb div 4096 \<and> vb div 4096 < VMALLOC_START div 4096 + p + n)
       \<Longrightarrow> translate (kmap s') vb = translate (kmap s) vb" by metis
  have "translate (kmap s') vb = translate (kmap s) vb"
    if "vb div 4096 < v div 4096 \<or> (v + sz - 1) div 4096 < vb div 4096" for vb
    by (rule other) (use that p in linarith)
  then show ?thesis using inv tr by blast
qed

lemma find_region_Some:
  "find_region va xs = Some i \<Longrightarrow> i < length xs \<and> in_use (xs ! i) \<and> virt_addr (xs ! i) = va"
proof (induction xs arbitrary: i)
  case (Cons x xs)
  show ?case
  proof (cases "in_use x \<and> virt_addr x = va")
    case True
    then show ?thesis using Cons.prems by auto
  next
    case False
    then obtain j where "find_region va xs = Some j" "i = Suc j" using Cons.prems by (auto split: if_splits)
    then show ?thesis using Cons.IH by simp
  qed
qed simp

lemma find_region_None: "find_region va xs = None \<longleftrightarrow> (\<forall>x \<in> set xs. \<not> (in_use x \<and> virt_addr x = va))"
  by (induction xs) auto

lemma unmap_pages_other [simp]:
  "vmalloc_bitmap (unmap_pages s va n) = vmalloc_bitmap s" "vmalloc_regions (unmap_pages s va n) = vmalloc_regions s"
  "vmalloc_used_page_count (unmap_pages s va n) = vmalloc_used_page_count s"
  by (simp_all add: unmap_pages_def)

lemma aligned_vpage: "VMALLOC_START \<le> va \<Longrightarrow> va mod 4096 = 0 \<Longrightarrow> \<exists>p. va = vpage p"
proof -
  assume a: "VMALLOC_START \<le> va" "va mod 4096 = 0"
  obtain q where "va = 4096 * q" using a(2) by auto
  then show ?thesis using a(1) by (intro exI [of _ "q - 1015808"]) (simp add: VMALLOC_START_def PAGE_SIZE_def)
qed

text \<open>What \<open>iounmap\<close> does to a well-formed allocator when the address is that of a region.\<close>

lemma iounmap_found:
  assumes inv: "vm_inv s" and i: "find_region (va - va mod 4096) (vmalloc_regions s) = Some i" and "va \<noteq> 0"
  defines "r \<equiv> vmalloc_regions s ! i"
  shows "vmalloc_regions (iounmap s va) = (vmalloc_regions s)[i := r\<lparr>in_use := False\<rparr>]"
    "used_pages (iounmap s va) = used_pages s - region_pages r"
    "translate (kmap (iounmap s va)) vb =
      (if virt_addr r div 4096 \<le> vb div 4096 \<and> vb div 4096 < virt_addr r div 4096 + num_pages r then None else translate (kmap s) vb)"
    "vm_inv (iounmap s va)"
proof -
  let ?b = "va - va mod 4096" and ?t = "iounmap s va"
  have fr: "i < length (vmalloc_regions s)" "in_use r" "virt_addr r = ?b"
    using find_region_Some [OF i] by (simp_all add: r_def)
  have ok: "regions_ok (used_pages s) (vmalloc_regions s)" using inv by (simp add: vm_inv_def)
  note rd = regions_okD [OF ok fr(1) fr(2) [unfolded r_def], folded r_def]
  obtain p where p: "?b = vpage p" using aligned_vpage [OF rd(2,1)] unfolding fr(3) by blast
  have rp: "region_pages r = {p..<p + num_pages r}"
    unfolding region_pages_def fr(3) p start_page by auto
  have t: "?t = vmalloc_remove_region (vmalloc_mark_free (unmap_pages s ?b (num_pages r)) ?b (num_pages r)) i"
    using i assms(3) by (simp add: iounmap_def vmalloc_find_region_def Let_def r_def)
  show regs: "vmalloc_regions ?t = (vmalloc_regions s)[i := r\<lparr>in_use := False\<rparr>]"
    by (simp add: t vmalloc_remove_region_def r_def)
  have "used_pages ?t = used_pages (vmalloc_mark_free (unmap_pages s ?b (num_pages r)) (vpage p) (num_pages r))"
    by (rule used_pages_cong) (simp add: t p vmalloc_remove_region_def)
  then show used: "used_pages ?t = used_pages s - region_pages r"
    unfolding mark_free_pages rp using used_pages_cong [of "unmap_pages s ?b (num_pages r)" s] by simp
  have "kmap ?t = kmap (unmap_pages s ?b (num_pages r))" by (simp add: t vmalloc_remove_region_def)
  then show tr: "translate (kmap ?t) vb =
      (if virt_addr r div 4096 \<le> vb div 4096 \<and> vb div 4096 < virt_addr r div 4096 + num_pages r then None else translate (kmap s) vb)" for vb
    using unmap_pages_ok [of ?b s "num_pages r" vb] fr(3) rd(1) by simp
  have reg: "regions_ok (used_pages ?t) (vmalloc_regions ?t)"
    using regions_ok_remove [OF ok fr(1) fr(2) [unfolded r_def]] by (simp add: regs used r_def)
  have "card (used_pages ?t) = card (used_pages s) - num_pages r" "num_pages r \<le> card (used_pages s)"
    using card_Diff_subset [of "region_pages r" "used_pages s"] card_mono [OF used_pages_finite rd(4)] rd(4)
    unfolding used by (simp_all add: rp)
  moreover have "vmalloc_used_page_count ?t = sub32 (card (used_pages s)) (num_pages r)"
    using inv by (simp add: t vmalloc_remove_region_def vm_inv_def)
  moreover have "card (used_pages s) < 2 ^ 32" using used_pages_bound [of s] by (simp add: VMALLOC_PAGES_def)
  ultimately have cnt: "vmalloc_used_page_count ?t = card (used_pages ?t)" by simp
  have "translate (kmap ?t) vb = None"
    if "VMALLOC_START div 4096 \<le> vb div 4096" "vb div 4096 < VMALLOC_START div 4096 + VMALLOC_PAGES"
      "vb div 4096 - VMALLOC_START div 4096 \<notin> used_pages ?t" for vb
  proof (cases "vb div 4096 - VMALLOC_START div 4096 \<in> region_pages r")
    case True
    then show ?thesis using tr [of vb] that(1) by (simp add: region_pages_def)
  next
    case False
    then have "translate (kmap s) vb = None" using inv that unfolding vm_inv_def used by blast
    then show ?thesis using tr [of vb] by simp
  qed
  then show "vm_inv ?t" unfolding vm_inv_def using reg cnt by blast
qed

text \<open>
  \<^verbatim>\<open>iounmap\<close> undoes \<^verbatim>\<open>ioremap\<close>, when the region table had a free entry: the translation of every
  address, the bitmap, the page counter and the regions in use are those before the call.
\<close>

theorem iounmap_ioremap:
  assumes "vm_inv s" "ioremap s pa sz = (v, s')" "v \<noteq> 0" "unat pa + sz \<le> 2 ^ 32" "sz < 2 ^ 31"
    "\<exists>r \<in> set (vmalloc_regions s). \<not> in_use r"
  shows "vm_inv (iounmap s' v) \<and> translate (kmap (iounmap s' v)) vb = translate (kmap s) vb \<and>
    vmalloc_used_pages (iounmap s' v) = vmalloc_used_pages s \<and>
    (\<forall>p < VMALLOC_PAGES. bitmap_test_bit (iounmap s' v) p \<longleftrightarrow> bitmap_test_bit s p) \<and>
    List.filter in_use (vmalloc_regions (iounmap s' v)) = List.filter in_use (vmalloc_regions s)"
proof -
  let ?V = "VMALLOC_START div 4096" and ?t = "iounmap s' v"
  from ioremap_correct [OF assms(1-5)] obtain p n where
    v: "v = vpage p + unat pa mod 4096" and pn: "p + n \<le> VMALLOC_PAGES" "0 < n" and free: "\<forall>k < n. p + k \<notin> used_pages s" and
    regs: "vmalloc_regions s' = (case claim_region \<lparr>virt_addr = vpage p, phys_addr = pte_frame pa, num_pages = n, in_use = True\<rparr> (vmalloc_regions s) of
       None \<Rightarrow> vmalloc_regions s | Some rs \<Rightarrow> rs)" and
    used: "used_pages s' = used_pages s \<union> {p..<p + n}" and inv': "vm_inv s'" and
    other: "\<And>vb. \<not> (?V + p \<le> vb div 4096 \<and> vb div 4096 < ?V + p + n) \<Longrightarrow> translate (kmap s') vb = translate (kmap s) vb"
    by metis
  let ?r = "\<lparr>virt_addr = vpage p, phys_addr = pte_frame pa, num_pages = n, in_use = True\<rparr>" and ?rs = "vmalloc_regions s"
  have new: "{p..<p + n} \<inter> used_pages s = {}" using free by (auto simp: le_iff_add)
  obtain i where i: "i < length ?rs" "\<not> in_use (?rs ! i)" "vmalloc_regions s' = ?rs[i := ?r]"
    using assms(6) regs claim_region_Some [of ?r ?rs] claim_region_None [of ?r ?rs] by (cases "claim_region ?r ?rs") auto
  have ok: "regions_ok (used_pages s) ?rs" using assms(1) by (simp add: vm_inv_def)
  have vb: "v - v mod 4096 = vpage p"
    using page_add [OF start_page(3), of p "unat pa mod 4096"] unfolding v by simp
  obtain j where j: "find_region (vpage p) (vmalloc_regions s') = Some j"
    using find_region_None [of "vpage p" "vmalloc_regions s'"] set_update_memI [OF i(1), of ?r] unfolding i(3) by fastforce
  have "j = i"
  proof (rule ccontr)
    assume "j \<noteq> i"
    then have jr: "j < length ?rs" "in_use (?rs ! j)" "virt_addr (?rs ! j) = vpage p"
      using find_region_Some [OF j] i(3) by simp_all
    then have "p \<in> region_pages (?rs ! j)"
      using regions_okD(3) [OF ok jr(1,2)] by (simp add: region_pages_def start_page(2))
    then show False using regions_okD(4) [OF ok jr(1,2)] free pn(2) by (metis add_0_right subsetD)
  qed
  with j have f: "find_region (v - v mod 4096) (vmalloc_regions s') = Some i" unfolding vb by simp
  have ri: "vmalloc_regions s' ! i = ?r" using i(1,3) by simp
  note un = iounmap_found [OF inv' f assms(3), unfolded ri]
  have ut: "used_pages ?t = used_pages s" unfolding un(2) used region_pages_new using new by blast
  have "translate (kmap ?t) vb = translate (kmap s) vb"
  proof (cases "?V + p \<le> vb div 4096 \<and> vb div 4096 < ?V + p + n")
    case True
    then have "vb div 4096 - ?V \<in> {p..<p + n}" by (simp only: atLeastLessThan_iff) linarith
    then have "vb div 4096 - ?V \<notin> used_pages s" using new by blast
    then have "translate (kmap s) vb = None" using assms(1) True pn(1) unfolding vm_inv_def by simp
    then show ?thesis using un(3) [of vb] True by (simp add: start_page(2))
  next
    case False
    then have "translate (kmap ?t) vb = translate (kmap s') vb" using un(3) [of vb] by (auto simp: start_page(2))
    then show ?thesis using other [OF False] by simp
  qed
  moreover have "vmalloc_used_pages ?t = vmalloc_used_pages s"
    using assms(1) un(4) ut by (simp add: vm_inv_def vmalloc_used_pages_def)
  moreover have "List.filter in_use (vmalloc_regions ?t) = List.filter in_use ?rs"
    unfolding un(1) using filter_upd_outside [OF i(1), of in_use "?r\<lparr>in_use := False\<rparr>"] i by simp
  moreover have "\<forall>q < VMALLOC_PAGES. bitmap_test_bit ?t q \<longleftrightarrow> bitmap_test_bit s q" using ut by (auto simp: used_pages_def)
  ultimately show ?thesis using un(4) by blast
qed

section \<open>Witnesses\<close>

definition demo_vmalloc :: vmalloc where
  "demo_vmalloc = \<lparr>vmalloc_bitmap = (\<lambda>_. 0), vmalloc_used_page_count = 0,
     vmalloc_regions = [\<lparr>virt_addr = 0, phys_addr = 0, num_pages = 0, in_use = False\<rparr>],
     kmap = \<lparr>page_tables = Map.empty, pgdir = (\<lambda>_. 0)\<rparr>, pt_pages = [0x200000]\<rparr>"

lemma demo_vm_inv: "vm_inv demo_vmalloc"
proof -
  have "used_pages demo_vmalloc = {}" by (simp add: used_pages_def bitmap_test_bit_def demo_vmalloc_def)
  then show ?thesis by (simp add: vm_inv_def regions_ok_def demo_vmalloc_def translate_def lookup_pte_def)
qed

lemma demo_find: "vmalloc_find_loop demo_vmalloc 1 [0..<VMALLOC_PAGES] 0 0 = Some 0"
proof -
  have "0 < VMALLOC_PAGES" by (simp add: VMALLOC_PAGES_def)
  then have "[0..<VMALLOC_PAGES] = 0 # [Suc 0..<VMALLOC_PAGES]" by (rule upt_conv_Cons)
  then show ?thesis by (simp add: bitmap_test_bit_def demo_vmalloc_def)
qed

lemma demo_ioremap: "fst (ioremap demo_vmalloc 0xFEE00010 4) \<noteq> 0"
proof -
  have n: "ioremap_pages 0xFEE00010 4 = 1" by (simp add: ioremap_pages_def PAGE_SIZE_def)
  have z: "[0..<1] = [0::nat]" by simp
  have m: "\<exists>s'. map_pages demo_vmalloc (vpage 0) pb [0] = (None, s')" for pb
    by (simp add: kmap_page_def map_page_def demo_vmalloc_def Let_def)
  obtain s' where s': "map_pages demo_vmalloc (vpage 0) (pte_frame 0xFEE00010) [0] = (None, s')" using m by blast
  have "vpage 0 \<noteq> 0" by (simp add: VMALLOC_START_def)
  then show ?thesis unfolding ioremap_def n vmalloc_find_free_def demo_find Let_def option.case z s' prod.case
    by (simp add: VMALLOC_START_def)
qed

lemma ioremap_maps_witness:
  "let v = fst (ioremap demo_vmalloc 0xFEE00010 4); s' = snd (ioremap demo_vmalloc 0xFEE00010 4)
   in v \<noteq> 0 \<and> vm_inv s' \<and> (\<forall>k < 4. translate (kmap s') (v + k) = Some (0xFEE00010 + k))"
  using ioremap_maps [OF demo_vm_inv _ demo_ioremap, where pa = "0xFEE00010" and sz = 4 and s' = "snd (ioremap demo_vmalloc 0xFEE00010 4)"] demo_ioremap
  by (simp add: Let_def)

lemma iounmap_ioremap_witness:
  "let v = fst (ioremap demo_vmalloc 0xFEE00010 4); s' = snd (ioremap demo_vmalloc 0xFEE00010 4)
   in v \<noteq> 0 \<and> (\<forall>vb. translate (kmap (iounmap s' v)) vb = translate (kmap demo_vmalloc) vb)"
  using iounmap_ioremap [OF demo_vm_inv _ demo_ioremap, where pa = "0xFEE00010" and sz = 4 and s' = "snd (ioremap demo_vmalloc 0xFEE00010 4)"] demo_ioremap
  by (simp add: Let_def demo_vmalloc_def)

end
