(* ===== verification/Slab.thy ===== *)
theory Slab
  imports Page_Alloc
begin

text \<open>
  The slab allocator of \<^verbatim>\<open>mm/slab.c\<close>: \<^verbatim>\<open>kalloc\<close> and \<^verbatim>\<open>kfree\<close> over the page allocator.
  A slab page is seen through its header (\<open>headers\<close>, by page address); the intrusive free
  list is the chain of words at the start of the free objects (\<open>words\<close>, by address). The
  layout is the one of the i386 build, where \<^verbatim>\<open>sizeof(slab_t)\<close> is 24. A page that is given
  back keeps its header, as memory does. The invariant ties the free lists, the counters
  and the cache lists to the set of objects in use.
\<close>

section \<open>State\<close>

definition MAX_SLAB_CACHES :: nat where "MAX_SLAB_CACHES = 16"

definition SLAB_MAGIC :: u32 where "SLAB_MAGIC = 0x534C4142"

definition SLAB_HDR :: nat where "SLAB_HDR = 24"

record slab_t =
  magic :: u32
  slab_obj_size :: nat
  num_objs :: nat
  free_count :: nat
  free_list :: u32

record slab_cache_t =
  cache_obj_size :: nat
  partial :: "u32 list"
  full :: "u32 list"

record slab_state =
  pages :: page_allocator
  words :: "u32 \<Rightarrow> u32"
  headers :: "u32 \<Rightarrow> slab_t"
  slab_caches :: "slab_cache_t list"

section \<open>Helpers\<close>

text \<open>\<^verbatim>\<open>round_up_pow2\<close>: the loop doubles \<^verbatim>\<open>pow2\<close>, which is \<open>2 ^ k\<close> throughout.\<close>

function round_up_loop :: "nat \<Rightarrow> nat \<Rightarrow> nat" where
  "round_up_loop k sz = (if 2 ^ k < sz \<and> 2 ^ k < (2048::nat) then round_up_loop (Suc k) sz else 2 ^ k)"
  by pat_completeness auto
termination
proof (relation "measure (\<lambda>(k, sz). 11 - k)")
  fix k sz :: nat
  assume "2 ^ k < sz \<and> 2 ^ k < (2048::nat)"
  then have "2 ^ k < (2::nat) ^ 11" by simp
  then have "k < 11" by (rule power_less_imp_less_exp [rotated]) simp
  then show "((Suc k, sz), (k, sz)) \<in> measure (\<lambda>(k, sz). 11 - k)" by simp
qed simp

declare round_up_loop.simps [simp del]

definition round_up_pow2 :: "nat \<Rightarrow> nat" where
  "round_up_pow2 sz = (if sz \<le> 8 then 8 else round_up_loop 3 sz)"

definition addr_to_slab :: "u32 \<Rightarrow> u32" where
  "addr_to_slab addr = addr AND NOT 0xFFF"

definition is_slab_page :: "slab_state \<Rightarrow> u32 \<Rightarrow> bool" where
  "is_slab_page s addr \<longleftrightarrow> magic (headers s (addr_to_slab addr)) = SLAB_MAGIC"

text \<open>The address of object \<open>i\<close> of a slab page.\<close>

definition obj_addr :: "u32 \<Rightarrow> nat \<Rightarrow> nat \<Rightarrow> u32" where
  "obj_addr page osz i = page + word_of_nat (SLAB_HDR + i * osz)"

text \<open>
  \<^verbatim>\<open>create_slab\<close>: the loop links the objects from the last to the first, so that the list
  starts with object 0.
\<close>

fun link_obj :: "(nat \<Rightarrow> u32) \<Rightarrow> nat \<Rightarrow> (u32 \<Rightarrow> u32) \<times> u32 \<Rightarrow> (u32 \<Rightarrow> u32) \<times> u32" where
  "link_obj obj i (w, fl) = (w(obj i := fl), obj i)"

definition create_slab :: "slab_state \<Rightarrow> nat \<Rightarrow> u32 option \<times> slab_state" where
  "create_slab s osz =
     (let (page, pg) = page_alloc (pages s) PAGE_SIZE
      in if page = 0 then (None, s\<lparr>pages := pg\<rparr>)
         else
           let usable = PAGE_SIZE - SLAB_HDR;
               n = (usable div osz) mod 65536;
               (w, fl) = fold (link_obj (obj_addr page osz)) (rev [0..<n]) (words s, 0)
           in (Some page, s\<lparr>pages := pg, words := w, headers := (headers s)(page :=
                 \<lparr>magic = SLAB_MAGIC, slab_obj_size = osz, num_objs = n, free_count = n,
                  free_list = fl\<rparr>)\<rparr>))"

fun find_cache :: "slab_cache_t list \<Rightarrow> nat \<Rightarrow> nat option" where
  "find_cache [] osz = None"
| "find_cache (c # cs) osz =
     (if cache_obj_size c = osz then Some 0 else map_option Suc (find_cache cs osz))"

definition get_cache :: "slab_state \<Rightarrow> nat \<Rightarrow> nat option \<times> slab_state" where
  "get_cache s osz =
     (case find_cache (slab_caches s) osz of
        Some i \<Rightarrow> (Some i, s)
      | None \<Rightarrow>
          if length (slab_caches s) \<ge> MAX_SLAB_CACHES then (None, s)
          else (Some (length (slab_caches s)),
                s\<lparr>slab_caches := slab_caches s @
                    [\<lparr>cache_obj_size = osz, partial = [], full = []\<rparr>]\<rparr>))"

text \<open>The list operations on the node of slab \<open>a\<close>, seen from the cache that links it.\<close>

definition upd_cache :: "slab_state \<Rightarrow> nat \<Rightarrow> (slab_cache_t \<Rightarrow> slab_cache_t) \<Rightarrow> slab_state" where
  "upd_cache s i f = s\<lparr>slab_caches := (slab_caches s)[i := f (slab_caches s ! i)]\<rparr>"

definition unlink_slab :: "u32 \<Rightarrow> slab_cache_t \<Rightarrow> slab_cache_t" where
  "unlink_slab a c = c\<lparr>partial := remove1 a (partial c), full := remove1 a (full c)\<rparr>"

definition add_partial :: "u32 \<Rightarrow> slab_cache_t \<Rightarrow> slab_cache_t" where
  "add_partial a c = c\<lparr>partial := a # partial c\<rparr>"

definition move_to_full :: "u32 \<Rightarrow> slab_cache_t \<Rightarrow> slab_cache_t" where
  "move_to_full a c = (let c = unlink_slab a c in c\<lparr>full := a # full c\<rparr>)"

definition move_to_partial :: "u32 \<Rightarrow> slab_cache_t \<Rightarrow> slab_cache_t" where
  "move_to_partial a c = (let c = unlink_slab a c in c\<lparr>partial := a # partial c\<rparr>)"

section \<open>kalloc and kfree\<close>

text \<open>The second half of \<^verbatim>\<open>kalloc\<close>: take the first free object of slab \<open>a\<close> of cache \<open>i\<close>.\<close>

definition take_object :: "slab_state \<Rightarrow> nat \<Rightarrow> u32 \<Rightarrow> u32 \<times> slab_state" where
  "take_object s i a =
     (let h = headers s a;
          obj = free_list h;
          h = h\<lparr>free_list := words s obj, free_count := (free_count h + 65535) mod 65536\<rparr>;
          s = s\<lparr>headers := (headers s)(a := h)\<rparr>
      in (obj, if free_count h = 0 then upd_cache s i (move_to_full a) else s))"

definition kalloc :: "slab_state \<Rightarrow> nat \<Rightarrow> u32 \<times> slab_state" where
  "kalloc s sz =
     (if sz = 0 then (0, s)
      else if sz > 2048 then (case page_alloc (pages s) sz of (p, pg) \<Rightarrow> (p, s\<lparr>pages := pg\<rparr>))
      else case get_cache s (round_up_pow2 sz) of
        (None, s) \<Rightarrow> (0, s)
      | (Some i, s) \<Rightarrow>
          (case partial (slab_caches s ! i) of
             a # _ \<Rightarrow> take_object s i a
           | [] \<Rightarrow>
               (case create_slab s (round_up_pow2 sz) of
                  (None, s) \<Rightarrow> (0, s)
                | (Some a, s) \<Rightarrow> take_object (upd_cache s i (add_partial a)) i a)))"

definition kfree :: "slab_state \<Rightarrow> u32 \<Rightarrow> slab_state" where
  "kfree s addr =
     (if addr = 0 then s
      else if \<not> is_slab_page s addr then s\<lparr>pages := page_free (pages s) addr\<rparr>
      else
        let a = addr_to_slab addr;
            h = headers s a;
            was_full = (free_count h = 0);
            s = s\<lparr>words := (words s)(addr := free_list h)\<rparr>;
            h = h\<lparr>free_list := addr, free_count := (free_count h + 1) mod 65536\<rparr>;
            s = s\<lparr>headers := (headers s)(a := h)\<rparr>
        in case get_cache s (slab_obj_size h) of
             (None, s) \<Rightarrow> s
           | (Some i, s) \<Rightarrow>
               let s = (if was_full then upd_cache s i (move_to_partial a) else s)
               in if free_count h = num_objs h \<and> partial (slab_caches s ! i) \<noteq> [a]
                  then (let s = upd_cache s i (unlink_slab a)
                        in s\<lparr>pages := page_free (pages s) a\<rparr>)
                  else s)"

definition add_slab :: "slab_state \<Rightarrow> nat \<Rightarrow> int \<times> slab_state" where
  "add_slab s osz =
     (let sz = round_up_pow2 osz
      in if sz > 2048 then (-1, s)
         else case get_cache s sz of (None, s) \<Rightarrow> (-1, s) | (Some _, s) \<Rightarrow> (0, s))"

definition slab_init :: "slab_state \<Rightarrow> slab_state" where
  "slab_init s = fold (\<lambda>sz s. snd (add_slab s sz)) [8, 16, 32, 64, 128, 256, 512, 1024, 2048]
     (s\<lparr>slab_caches := []\<rparr>)"

text \<open>\<^verbatim>\<open>slab_stats\<close>: the two 32-bit sums over the cache lists.\<close>

definition slab_stats :: "slab_state \<Rightarrow> nat \<times> nat" where
  "slab_stats s =
     (let h = headers s in
      (w32 (sum_list (map (\<lambda>c.
          sum_list (map (\<lambda>a. sub32 (num_objs (h a)) (free_count (h a)) * slab_obj_size (h a)) (partial c))
        + sum_list (map (\<lambda>a. num_objs (h a) * slab_obj_size (h a)) (full c))) (slab_caches s))),
       w32 (sum_list (map (\<lambda>c.
          sum_list (map (\<lambda>a. free_count (h a) * slab_obj_size (h a)) (partial c))) (slab_caches s)))))"

lemma upd_cache_simps [simp]:
  "pages (upd_cache s i f) = pages s" "words (upd_cache s i f) = words s"
  "headers (upd_cache s i f) = headers s"
  "slab_caches (upd_cache s i f) = (slab_caches s)[i := f (slab_caches s ! i)]"
  by (simp_all add: upd_cache_def)

section \<open>Pages and objects\<close>

definition page_aligned :: "u32 \<Rightarrow> bool" where
  "page_aligned a \<longleftrightarrow> addr_to_slab a = a"

lemma addr_to_slab_offset:
  assumes "page_aligned a" "k < PAGE_SIZE"
  shows "addr_to_slab (a + word_of_nat k) = a"
proof -
  have m: "(0xFFF :: u32) = mask 12" by (simp add: mask_eq_exp_minus_1)
  have k: "take_bit 12 (word_of_nat k :: u32) = word_of_nat k"
    using assms(2) by (simp add: take_bit_of_nat take_bit_nat_eq_self PAGE_SIZE_def)
  have a: "a AND NOT (mask 12) = a" using assms(1) by (simp add: page_aligned_def addr_to_slab_def m)
  have low: "\<not> bit a n" if "n < 12" for n
    using that a by (metis bit_and_iff bit_mask_iff bit_not_iff)
  have high: "\<not> bit (word_of_nat k :: u32) n" if "12 \<le> n" for n
    using that k by (metis bit_take_bit_iff not_less)
  have "a + word_of_nat k = a OR word_of_nat k"
    using low high by (intro disjunctive_add) (metis not_less)
  then show ?thesis
    using low high by (auto simp: addr_to_slab_def m bit_eq_iff bit_simps intro: leI)
qed

definition slab_objs :: "u32 \<Rightarrow> nat \<Rightarrow> u32 set" where
  "slab_objs a osz = obj_addr a osz ` {..<(PAGE_SIZE - SLAB_HDR) div osz}"

lemma obj_offset_bound:
  assumes "i < (PAGE_SIZE - SLAB_HDR) div osz"
  shows "SLAB_HDR + i * osz + osz \<le> PAGE_SIZE"
proof -
  have "Suc i * osz \<le> (PAGE_SIZE - SLAB_HDR) div osz * osz"
    using assms by (intro mult_le_mono1) simp
  also have "\<dots> \<le> PAGE_SIZE - SLAB_HDR" by simp
  finally show ?thesis by (simp add: PAGE_SIZE_def SLAB_HDR_def)
qed

lemma slab_objs_page:
  assumes "page_aligned a" "0 < osz" "x \<in> slab_objs a osz"
  shows "addr_to_slab x = a"
proof -
  obtain i where i: "i < (PAGE_SIZE - SLAB_HDR) div osz" "x = obj_addr a osz i"
    using assms(3) by (auto simp: slab_objs_def)
  have "SLAB_HDR + i * osz < PAGE_SIZE" using obj_offset_bound [OF i(1)] assms(2) by simp
  then show ?thesis unfolding i(2) obj_addr_def by (rule addr_to_slab_offset [OF assms(1)])
qed

lemma obj_addr_inj:
  assumes "0 < osz"
  shows "inj_on (obj_addr a osz) {..<(PAGE_SIZE - SLAB_HDR) div osz}"
proof (rule inj_onI)
  fix i j
  assume "i \<in> {..<(PAGE_SIZE - SLAB_HDR) div osz}" "j \<in> {..<(PAGE_SIZE - SLAB_HDR) div osz}"
    and eq: "obj_addr a osz i = obj_addr a osz j"
  then have b: "SLAB_HDR + i * osz < 2 ^ 32" "SLAB_HDR + j * osz < 2 ^ 32"
    using obj_offset_bound [of i osz] obj_offset_bound [of j osz] by (simp_all add: PAGE_SIZE_def)
  have "(word_of_nat (SLAB_HDR + i * osz) :: u32) = word_of_nat (SLAB_HDR + j * osz)"
    using eq unfolding obj_addr_def by (rule add_left_imp_eq)
  then have "unat (word_of_nat (SLAB_HDR + i * osz) :: u32) = unat (word_of_nat (SLAB_HDR + j * osz) :: u32)"
    by (rule arg_cong)
  then have "SLAB_HDR + i * osz = SLAB_HDR + j * osz"
    using b by (simp add: unat_of_nat take_bit_eq_mod del: of_nat_add of_nat_mult)
  then show "i = j" using assms by simp
qed

lemma card_slab_objs: "0 < osz \<Longrightarrow> card (slab_objs a osz) = (PAGE_SIZE - SLAB_HDR) div osz"
  unfolding slab_objs_def using card_image [OF obj_addr_inj [of osz a]] by simp

section \<open>Free lists\<close>

fun chain :: "(u32 \<Rightarrow> u32) \<Rightarrow> u32 \<Rightarrow> u32 list \<Rightarrow> bool" where
  "chain w p [] \<longleftrightarrow> p = 0"
| "chain w p (x # xs) \<longleftrightarrow> p = x \<and> x \<noteq> 0 \<and> chain w (w x) xs"

lemma chain_upd [simp]: "x \<notin> set xs \<Longrightarrow> chain (w(x := v)) p xs = chain w p xs"
  by (induction xs arbitrary: p) auto

lemma chain_cong: "(\<And>x. x \<in> set xs \<Longrightarrow> w x = w' x) \<Longrightarrow> chain w p xs = chain w' p xs"
  by (induction xs arbitrary: p) auto

lemma chain_build:
  assumes "distinct (map f is)" "\<And>i. i \<in> set is \<Longrightarrow> f i \<noteq> 0"
  shows "\<exists>w' p'. fold (link_obj f) (rev is) (w, 0) = (w', p')
    \<and> chain w' p' (map f is) \<and> (\<forall>x. x \<notin> f ` set is \<longrightarrow> w' x = w x)"
  using assms
proof (induction "is")
  case Nil
  then show ?case by simp
next
  case (Cons i "is")
  have "distinct (map f is)" "\<And>i. i \<in> set is \<Longrightarrow> f i \<noteq> 0" using Cons.prems by simp_all
  from Cons.IH [OF this] obtain w' p' where
    IH: "fold (link_obj f) (rev is) (w, 0) = (w', p')"
    "chain w' p' (map f is)" "\<forall>x. x \<notin> f ` set is \<longrightarrow> w' x = w x" by blast
  have "f i \<notin> set (map f is)" "f i \<noteq> 0" using Cons.prems by auto
  then show ?case using IH by (simp del: set_map)
qed

section \<open>Invariant\<close>

definition obj_sizes :: "nat set" where
  "obj_sizes = {8, 16, 32, 64, 128, 256, 512, 1024, 2048}"

definition slab_ok :: "slab_state \<Rightarrow> u32 set \<Rightarrow> nat \<Rightarrow> u32 \<Rightarrow> bool" where
  "slab_ok s live osz a \<longleftrightarrow> page_aligned a \<and> magic (headers s a) = SLAB_MAGIC
     \<and> slab_obj_size (headers s a) = osz \<and> num_objs (headers s a) = (PAGE_SIZE - SLAB_HDR) div osz
     \<and> (\<exists>fl. chain (words s) (free_list (headers s a)) fl \<and> distinct fl
           \<and> length fl = free_count (headers s a) \<and> set fl = slab_objs a osz - live)"

definition cache_slabs :: "slab_cache_t \<Rightarrow> u32 set" where
  "cache_slabs c = set (partial c) \<union> set (full c)"

definition cache_ok :: "slab_state \<Rightarrow> u32 set \<Rightarrow> slab_cache_t \<Rightarrow> bool" where
  "cache_ok s live c \<longleftrightarrow> cache_obj_size c \<in> obj_sizes \<and> distinct (partial c @ full c)
     \<and> (\<forall>a \<in> cache_slabs c. slab_ok s live (cache_obj_size c) a)
     \<and> (\<forall>a \<in> set (partial c). free_count (headers s a) \<noteq> 0)
     \<and> (\<forall>a \<in> set (full c). free_count (headers s a) = 0)"

definition slab_inv :: "slab_state \<Rightarrow> u32 set \<Rightarrow> bool" where
  "slab_inv s live \<longleftrightarrow> alloc_inv (pages s) \<and> direct_mapped (pages s)
     \<and> page_aligned (base_phys (pages s))
     \<and> distinct (map cache_obj_size (slab_caches s)) \<and> length (slab_caches s) \<le> MAX_SLAB_CACHES
     \<and> (\<forall>c \<in> set (slab_caches s). cache_ok s live c
          \<and> cache_slabs c \<subseteq> page_addr (pages s) ` allocated (pages s))
     \<and> (\<forall>x \<in> live. \<exists>c \<in> set (slab_caches s). \<exists>a \<in> cache_slabs c. x \<in> slab_objs a (cache_obj_size c))"

lemma obj_sizes_pos [simp]: "osz \<in> obj_sizes \<Longrightarrow> 0 < osz"
  by (auto simp: obj_sizes_def)

lemma obj_sizes_num: "osz \<in> obj_sizes \<Longrightarrow> 0 < (PAGE_SIZE - SLAB_HDR) div osz
    \<and> (PAGE_SIZE - SLAB_HDR) div osz < 65536"
  by (auto simp: obj_sizes_def PAGE_SIZE_def SLAB_HDR_def)

lemma slab_inv_cacheD:
  assumes "slab_inv s live" "c \<in> set (slab_caches s)"
  shows "cache_ok s live c" "cache_obj_size c \<in> obj_sizes"
    "cache_slabs c \<subseteq> page_addr (pages s) ` allocated (pages s)"
  using assms by (auto simp: slab_inv_def cache_ok_def)

lemma slab_inv_slabD:
  assumes "slab_inv s live" "c \<in> set (slab_caches s)" "a \<in> cache_slabs c"
  shows "slab_ok s live (cache_obj_size c) a" "page_aligned a"
    "slab_obj_size (headers s a) = cache_obj_size c"
  using assms by (auto simp: slab_inv_def cache_ok_def slab_ok_def)

lemma slab_inv_liveD:
  assumes "slab_inv s live" "x \<in> live"
  shows "\<exists>k b. k < length (slab_caches s) \<and> b \<in> cache_slabs (slab_caches s ! k)
    \<and> x \<in> slab_objs b (cache_obj_size (slab_caches s ! k))"
proof -
  have "\<exists>c \<in> set (slab_caches s). \<exists>b \<in> cache_slabs c. x \<in> slab_objs b (cache_obj_size c)"
    using assms by (simp add: slab_inv_def)
  then show ?thesis by (metis in_set_conv_nth)
qed

text \<open>A slab belongs to one cache only: its header records the object size.\<close>

lemma slab_inv_same_cache:
  assumes "slab_inv s live" "c \<in> set (slab_caches s)" "d \<in> set (slab_caches s)"
    "a \<in> cache_slabs c" "a \<in> cache_slabs d"
  shows "c = d"
proof -
  have "cache_obj_size c = cache_obj_size d"
    using slab_inv_slabD(3) assms by metis
  then show ?thesis
    using assms(1-3) by (auto simp: slab_inv_def distinct_map dest: inj_onD)
qed

lemma slab_ok_frame:
  assumes "slab_ok s live osz b" "0 < osz" "b \<noteq> a" "headers t b = headers s b"
    "\<And>x. addr_to_slab x \<noteq> a \<Longrightarrow> words t x = words s x \<and> (x \<in> live' \<longleftrightarrow> x \<in> live)"
  shows "slab_ok t live' osz b"
proof -
  obtain fl where fl: "chain (words s) (free_list (headers s b)) fl" "distinct fl"
    "length fl = free_count (headers s b)" "set fl = slab_objs b osz - live"
    using assms(1) by (auto simp: slab_ok_def)
  have other: "addr_to_slab x \<noteq> a" if "x \<in> slab_objs b osz" for x
    using slab_objs_page [OF _ assms(2) that] assms(1,3) by (auto simp: slab_ok_def)
  have "chain (words t) (free_list (headers s b)) fl"
    using fl(1,4) other assms(5) by (subst chain_cong [where w' = "words s"]) auto
  moreover have "set fl = slab_objs b osz - live'" using fl(4) other assms(5) by auto
  ultimately show ?thesis using assms(1,4) fl(2,3) by (auto simp: slab_ok_def)
qed

text \<open>
  A step that changes one slab \<open>a\<close> of cache \<open>i\<close>, the words of its page and the objects in
  use of its page, and that places \<open>a\<close> on the list its new counter asks for.
\<close>

lemma slab_inv_step:
  assumes inv: "slab_inv s live" and i: "i < length (slab_caches s)"
    and a: "\<And>d. d \<in> set (slab_caches s) \<Longrightarrow> d \<noteq> slab_caches s ! i \<Longrightarrow> a \<notin> cache_slabs d"
    and pg: "alloc_inv (pages t)" "base_phys (pages t) = base_phys (pages s)"
      "total_pages (pages t) = total_pages (pages s)" "allocated (pages s) \<subseteq> allocated (pages t)"
      "a \<in> page_addr (pages t) ` allocated (pages t)"
    and t: "slab_caches t = (slab_caches s)[i := c']"
      "\<And>b. b \<noteq> a \<Longrightarrow> headers t b = headers s b"
    and frame: "\<And>x. addr_to_slab x \<noteq> a \<Longrightarrow> words t x = words s x \<and> (x \<in> live' \<longleftrightarrow> x \<in> live)"
    and c': "cache_obj_size c' = cache_obj_size (slab_caches s ! i)"
      "cache_slabs c' = insert a (cache_slabs (slab_caches s ! i))" "distinct (partial c' @ full c')"
      "set (partial c') - {a} = set (partial (slab_caches s ! i)) - {a}"
      "set (full c') - {a} = set (full (slab_caches s ! i)) - {a}"
    and ok: "slab_ok t live' (cache_obj_size (slab_caches s ! i)) a"
      "a \<in> set (partial c') \<longleftrightarrow> free_count (headers t a) \<noteq> 0"
    and live': "\<And>x. x \<in> live' \<Longrightarrow> x \<notin> live \<Longrightarrow> x \<in> slab_objs a (cache_obj_size (slab_caches s ! i))"
  shows "slab_inv t live'"
proof -
  let ?c = "slab_caches s ! i"
  have c: "?c \<in> set (slab_caches s)" using i by simp
  note ci = slab_inv_cacheD [OF inv c]
  have sizes: "map cache_obj_size (slab_caches t) = map cache_obj_size (slab_caches s)"
    using i c'(1) by (simp add: t(1) map_update list_update_same_conv)
  have frame_ok: "slab_ok t live' (cache_obj_size d) b"
    if "d \<in> set (slab_caches s)" "b \<in> cache_slabs d" "b \<noteq> a" for d b
    using slab_ok_frame [OF slab_inv_slabD(1) [OF inv that(1,2)] _ that(3), of t live'] t(2) [OF that(3)]
      frame slab_inv_cacheD(2) [OF inv that(1)] by simp
  have other: "cache_ok t live' d" if "d \<in> set (slab_caches s)" "d \<noteq> ?c" for d
  proof -
    have na: "b \<noteq> a" if "b \<in> cache_slabs d" for b
      using a [OF \<open>d \<in> _\<close> \<open>d \<noteq> ?c\<close>] that by auto
    have hd: "headers t b = headers s b" if "b \<in> set (partial d) \<union> set (full d)" for b
      using that na t(2) by (auto simp: cache_slabs_def)
    show ?thesis
      using slab_inv_cacheD(1) [OF inv that(1)] frame_ok [OF that(1) _ na] hd
      by (auto simp: cache_ok_def)
  qed
  have new: "cache_ok t live' c'"
  proof -
    have "slab_ok t live' (cache_obj_size c') b" if "b \<in> cache_slabs c'" for b
      using that ok(1) frame_ok [OF c, of b] by (cases "b = a") (auto simp: c'(1,2))
    moreover have "free_count (headers t b) \<noteq> 0" if "b \<in> set (partial c')" for b
      using that ok(2) c'(4) t(2) [of b] ci(1) by (cases "b = a") (auto simp: cache_ok_def)
    moreover have "free_count (headers t b) = 0" if "b \<in> set (full c')" for b
      using that ok(2) c'(3,5) t(2) [of b] ci(1) by (cases "b = a") (auto simp: cache_ok_def)
    ultimately show ?thesis using c'(1,3) ci(2) by (simp add: cache_ok_def)
  qed
  have addr: "page_addr (pages t) = page_addr (pages s)" using pg(2) by (simp add: fun_eq_iff page_addr_def)
  have old: "cache_slabs d \<subseteq> page_addr (pages t) ` allocated (pages t)" if "d \<in> set (slab_caches s)" for d
    using slab_inv_cacheD(3) [OF inv that] pg(4) by (auto simp: addr)
  have all: "cache_ok t live' d \<and> cache_slabs d \<subseteq> page_addr (pages t) ` allocated (pages t)"
    if "d \<in> set (slab_caches t)" for d
  proof (cases "d = c'")
    case True
    then show ?thesis using new c'(2) old [OF c] pg(5) by simp
  next
    case False
    then have d: "d \<in> set (slab_caches s)"
      using that i set_update_subset_insert [of "slab_caches s" i c'] by (auto simp: t(1))
    show ?thesis
    proof (cases "d = ?c")
      case True
      have "distinct (slab_caches s)" using inv by (auto simp: slab_inv_def distinct_map)
      then have "d \<notin> set (slab_caches t)"
        using True False i by (simp add: t(1) set_update_distinct)
      then show ?thesis using that by simp
    next
      case ne: False
      then show ?thesis using other [OF d ne] old [OF d] by simp
    qed
  qed
  have "\<exists>d \<in> set (slab_caches t). \<exists>b \<in> cache_slabs d. x \<in> slab_objs b (cache_obj_size d)"
    if "x \<in> live'" for x
  proof -
    show ?thesis
    proof (cases "x \<in> live")
      case False
      have "c' \<in> set (slab_caches t)" using i by (simp add: t(1) set_update_memI)
      then show ?thesis using live' [OF that False] c'(1,2) by (intro bexI [of _ c'] bexI [of _ a]) simp_all
    next
      case True
      then obtain k b where k: "k < length (slab_caches s)" "b \<in> cache_slabs (slab_caches s ! k)"
        "x \<in> slab_objs b (cache_obj_size (slab_caches s ! k))"
        using slab_inv_liveD [OF inv] by blast
      have "slab_caches t ! k \<in> set (slab_caches t)" using k(1) by (simp add: t(1))
      moreover have "cache_slabs (slab_caches s ! k) \<subseteq> cache_slabs (slab_caches t ! k)"
        "cache_obj_size (slab_caches t ! k) = cache_obj_size (slab_caches s ! k)"
        using k(1) i c'(1,2) by (auto simp: t(1) nth_list_update)
      ultimately show ?thesis using k by (metis subsetD)
    qed
  qed
  then show ?thesis using inv pg all sizes by (auto simp: slab_inv_def t(1) direct_mapped_def)
qed

section \<open>Finding a cache\<close>

lemma find_cache_Some: "find_cache cs osz = Some i \<Longrightarrow> i < length cs \<and> cache_obj_size (cs ! i) = osz"
  by (induction cs arbitrary: i) (auto split: if_splits)

lemma find_cache_None: "find_cache cs osz = None \<Longrightarrow> osz \<notin> cache_obj_size ` set cs"
  by (induction cs) (auto split: if_splits)

lemma slab_inv_get_cache:
  assumes "slab_inv s live" "osz \<in> obj_sizes" "get_cache s osz = (Some i, s')"
  shows "slab_inv s' live \<and> i < length (slab_caches s') \<and> cache_obj_size (slab_caches s' ! i) = osz
    \<and> pages s' = pages s \<and> headers s' = headers s \<and> words s' = words s"
proof (cases "find_cache (slab_caches s) osz")
  case (Some j)
  then show ?thesis using assms find_cache_Some [OF Some] by (simp add: get_cache_def)
next
  case None
  let ?c = "\<lparr>cache_obj_size = osz, partial = [], full = []\<rparr>"
  have s': "s' = s\<lparr>slab_caches := slab_caches s @ [?c]\<rparr>" "i = length (slab_caches s)"
    "length (slab_caches s) < MAX_SLAB_CACHES"
    using None assms(3) by (auto simp: get_cache_def split: if_splits)
  have "cache_ok s' live c = cache_ok s live c" for c
    by (simp add: cache_ok_def slab_ok_def s'(1))
  moreover have "cache_ok s live ?c" "cache_slabs ?c = {}"
    using assms(2) by (simp_all add: cache_ok_def cache_slabs_def)
  ultimately show ?thesis
    using assms(1) find_cache_None [OF None] s'(3) by (auto simp: slab_inv_def s'(1,2))
qed

lemma round_up_loop_spec:
  "k \<le> 11 \<Longrightarrow> sz \<le> 2048 \<Longrightarrow> \<exists>j. k \<le> j \<and> j \<le> 11 \<and> round_up_loop k sz = 2 ^ j \<and> sz \<le> 2 ^ j"
proof (induction k sz rule: round_up_loop.induct)
  case (1 k sz)
  show ?case
  proof (cases "2 ^ k < sz \<and> 2 ^ k < (2048::nat)")
    case True
    then have "2 ^ k < (2::nat) ^ 11" by simp
    then have "Suc k \<le> 11" by (metis Suc_leI power_less_imp_less_exp one_less_numeral_iff semiring_norm(76))
    from 1(1) [OF True this 1(3)] True show ?thesis
      by (subst round_up_loop.simps) (auto intro: Suc_leD)
  next
    case False
    have "k = 11 \<or> 2 ^ k < (2::nat) ^ 11" using 1(2) by (cases "k = 11") (simp, metis le_neq_implies_less numeral_less_iff power_strict_increasing semiring_norm(76) one_less_numeral_iff)
    then have "sz \<le> 2 ^ k" using False 1(3) by auto
    then show ?thesis using False 1(2) by (subst round_up_loop.simps) auto
  qed
qed

lemma round_up_pow2_spec:
  assumes "sz \<le> 2048"
  shows "round_up_pow2 sz \<in> obj_sizes \<and> sz \<le> round_up_pow2 sz"
proof (cases "sz \<le> 8")
  case True
  then show ?thesis by (simp add: round_up_pow2_def obj_sizes_def)
next
  case False
  obtain j where j: "3 \<le> j" "j \<le> 11" "round_up_loop 3 sz = 2 ^ j" "sz \<le> 2 ^ j"
    using round_up_loop_spec [of 3 sz] assms by auto
  have "j \<in> {3, 4, 5, 6, 7, 8, 9, 10, 11}" using j(1,2) by auto
  then show ?thesis using False j(3,4) by (auto simp: round_up_pow2_def obj_sizes_def)
qed

section \<open>Fresh slabs\<close>

lemma page_aligned_iff: "page_aligned a \<longleftrightarrow> take_bit 12 a = 0"
proof -
  have "(0xFFF :: u32) = mask 12" by (simp add: mask_eq_exp_minus_1)
  then show ?thesis
    by (auto simp: page_aligned_def addr_to_slab_def bit_eq_iff bit_simps)
qed

lemma page_aligned_unat: "page_aligned a \<longleftrightarrow> 4096 dvd unat a"
proof -
  have "unat (take_bit 12 a) = unat a mod 4096"
    unfolding unsigned_take_bit_eq by (simp add: take_bit_eq_mod)
  moreover have "page_aligned a \<longleftrightarrow> unat (take_bit 12 a) = 0"
    unfolding page_aligned_iff by (metis unat_0 unat_eq_zero)
  ultimately show ?thesis by (simp only: dvd_eq_mod_eq_0)
qed

lemma page_aligned_add: "page_aligned a \<Longrightarrow> page_aligned b \<Longrightarrow> page_aligned (a + b)"
  unfolding page_aligned_unat unat_word_ariths by (rule dvd_mod) simp_all

lemma page_aligned_page_addr:
  assumes "page_aligned (base_phys pg)"
  shows "page_aligned (page_addr pg i)"
proof -
  have "take_bit 12 (word_of_nat (i * PAGE_SIZE) :: u32) = word_of_nat (take_bit 12 (i * PAGE_SIZE))"
    by (rule take_bit_of_nat)
  also have "take_bit 12 (i * PAGE_SIZE) = 0" by (simp add: take_bit_eq_mod PAGE_SIZE_def)
  finally have "page_aligned (word_of_nat (i * PAGE_SIZE) :: u32)" by (simp add: page_aligned_iff)
  moreover have "page_aligned KERNEL_VMA" by (simp add: page_aligned_def addr_to_slab_def KERNEL_VMA_def)
  ultimately show ?thesis using assms unfolding page_addr_def phys_to_virt_def
    by (intro page_aligned_add)
qed

lemma page_alloc_page:
  assumes "alloc_inv pg" "page_alloc pg PAGE_SIZE = (p, pg')" "p \<noteq> 0"
  shows "\<exists>r. p = page_addr pg r \<and> r < total_pages pg \<and> r \<notin> allocated pg
    \<and> allocated pg' = insert r (allocated pg) \<and> alloc_inv pg'
    \<and> base_phys pg' = base_phys pg \<and> total_pages pg' = total_pages pg"
proof (cases rule: page_alloc_flags_cases [of pg PAGE_SIZE MEM_MAP])
  case fail
  then show ?thesis using assms by (simp add: page_alloc_def)
next
  case (ok r)
  have n: "pages_needed_for PAGE_SIZE = 1" by (simp add: pages_needed_for_def PAGE_SIZE_def)
  note r = find_free_pages_Some [OF ok(2) [unfolded n]]
  have "p = page_addr pg r" "pg' = (mark_allocated pg r 1)\<lparr>free_pages := free_pages pg - 1\<rparr>"
    using assms(2) ok(4) by (auto simp: page_alloc_def MEM_MAP_def MEM_PHY_def n)
  then show ?thesis
    using alloc_inv_mark [OF assms(1) ok(2,1)] r by (intro exI [of _ r]) (auto simp: n allocated_mark)
qed

lemma page_addr_inj:
  assumes "direct_mapped pg" "i < total_pages pg" "j < total_pages pg" "page_addr pg i = page_addr pg j"
  shows "i = j"
  using page_addr_decode(4) [OF assms(1,2)] page_addr_decode(4) [OF assms(1,3)] assms(4) by metis

text \<open>The objects of an aligned page above the kernel base have non-zero addresses.\<close>

lemma obj_addr_nonzero:
  assumes "page_aligned a" "a \<noteq> 0" "0 < osz" "i < (PAGE_SIZE - SLAB_HDR) div osz"
  shows "obj_addr a osz i \<noteq> 0"
proof
  assume z: "obj_addr a osz i = 0"
  have "addr_to_slab (obj_addr a osz i) = a"
    using assms by (intro slab_objs_page) (auto simp: slab_objs_def)
  then show False using assms(2) by (simp add: z addr_to_slab_def)
qed

lemma create_slab_ok:
  assumes inv: "slab_inv s live" and osz: "osz \<in> obj_sizes" and i: "i < length (slab_caches s)"
    and c: "cache_obj_size (slab_caches s ! i) = osz" and res: "create_slab s osz = (Some a, s')"
  shows "slab_inv (upd_cache s' i (add_partial a)) live"
    "partial (slab_caches (upd_cache s' i (add_partial a)) ! i) = a # partial (slab_caches s ! i)"
    "length (slab_caches (upd_cache s' i (add_partial a))) = length (slab_caches s)"
    "cache_obj_size (slab_caches (upd_cache s' i (add_partial a)) ! i) = osz"
proof -
  let ?n = "(PAGE_SIZE - SLAB_HDR) div osz"
  obtain pg where pg: "page_alloc (pages s) PAGE_SIZE = (a, pg)" "a \<noteq> 0"
    using res by (auto simp: create_slab_def Let_def split: prod.splits if_splits)
  obtain r where r: "a = page_addr (pages s) r" "r < total_pages (pages s)" "r \<notin> allocated (pages s)"
    "allocated pg = insert r (allocated (pages s))" "alloc_inv pg"
    "base_phys pg = base_phys (pages s)" "total_pages pg = total_pages (pages s)"
    using page_alloc_page [OF _ pg] inv by (auto simp: slab_inv_def)
  have al: "page_aligned a" using inv by (simp add: r(1) slab_inv_def page_aligned_page_addr)
  have fresh: "a \<notin> cache_slabs d" if d: "d \<in> set (slab_caches s)" for d
  proof
    assume "a \<in> cache_slabs d"
    then obtain j where "j \<in> allocated (pages s)" "a = page_addr (pages s) j"
      using slab_inv_cacheD(3) [OF inv d] by auto
    then show False using r(1-3) inv page_addr_inj [of "pages s" r j]
      by (auto simp: slab_inv_def allocated_def)
  qed
  have dist: "distinct (map (obj_addr a osz) [0..<?n])"
    using obj_addr_inj [of osz a] osz by (simp add: distinct_map atLeast0LessThan)
  have nz: "obj_addr a osz k \<noteq> 0" if "k \<in> set [0..<?n]" for k
    using obj_addr_nonzero [OF al pg(2)] osz that by simp
  obtain w fl where w: "fold (link_obj (obj_addr a osz)) (rev [0..<?n]) (words s, 0) = (w, fl)"
    "chain w fl (map (obj_addr a osz) [0..<?n])"
    "\<forall>x. x \<notin> obj_addr a osz ` set [0..<?n] \<longrightarrow> w x = words s x"
    using chain_build [OF dist nz] by blast
  have n: "?n mod 65536 = ?n" "0 < ?n" using obj_sizes_num [OF osz] by auto
  have s': "s' = s\<lparr>pages := pg, words := w, headers := (headers s)(a :=
      \<lparr>magic = SLAB_MAGIC, slab_obj_size = osz, num_objs = ?n, free_count = ?n, free_list = fl\<rparr>)\<rparr>"
    using res pg w(1) by (auto simp: create_slab_def Let_def n(1) split: prod.splits)
  let ?t = "upd_cache s' i (add_partial a)"
  let ?c = "slab_caches s ! i" and ?c' = "add_partial a (slab_caches s ! i)"
  have ci: "?c \<in> set (slab_caches s)" using i by simp
  have objs: "slab_objs a osz = obj_addr a osz ` set [0..<?n]"
    by (simp add: slab_objs_def atLeast0LessThan)
  have notlive: "slab_objs a osz \<inter> live = {}"
  proof -
    have "x \<notin> live" if x: "x \<in> slab_objs a osz" for x
    proof
      assume "x \<in> live"
      then obtain k b where k: "k < length (slab_caches s)" "b \<in> cache_slabs (slab_caches s ! k)"
        "x \<in> slab_objs b (cache_obj_size (slab_caches s ! k))" using slab_inv_liveD [OF inv] by blast
      have kc: "slab_caches s ! k \<in> set (slab_caches s)" using k(1) by simp
      have "addr_to_slab x = b"
        using slab_objs_page [OF slab_inv_slabD(2) [OF inv kc k(2)] _ k(3)] slab_inv_cacheD(2) [OF inv kc]
        by simp
      moreover have "addr_to_slab x = a" using slab_objs_page [OF al _ x] osz by simp
      ultimately show False using fresh [OF kc] k(2) by simp
    qed
    then show ?thesis by blast
  qed
  have ok: "slab_ok ?t live osz a"
    using al w(2) dist notlive
    by (auto simp: slab_ok_def upd_cache_def s' objs
        intro!: exI [of _ "map (obj_addr a osz) [0..<?n]"])
  show "slab_inv ?t live"
  proof (rule slab_inv_step [OF inv i, of a ?t ?c' live])
    show "words ?t x = words s x \<and> (x \<in> live) = (x \<in> live)" if "addr_to_slab x \<noteq> a" for x
    proof -
      have "x \<notin> slab_objs a osz" using that slab_objs_page [OF al _ , of osz x] osz by auto
      then show ?thesis using w(3) by (simp add: upd_cache_def s' objs)
    qed
    show "distinct (partial ?c' @ full ?c')"
      using slab_inv_cacheD(1) [OF inv ci] fresh [OF ci] by (auto simp: cache_ok_def add_partial_def cache_slabs_def)
    show "slab_ok ?t live (cache_obj_size ?c) a" using ok c by simp
  qed (use r fresh i n(2) in \<open>auto simp: upd_cache_def s' add_partial_def cache_slabs_def page_addr_def\<close>)
  show "partial (slab_caches ?t ! i) = a # partial ?c" "length (slab_caches ?t) = length (slab_caches s)"
    "cache_obj_size (slab_caches ?t ! i) = osz"
    using i c by (simp_all add: upd_cache_def s' add_partial_def)
qed

section \<open>Taking and returning an object\<close>

lemma slab_inv_other_cache:
  assumes "slab_inv s live" "i < length (slab_caches s)" "a \<in> cache_slabs (slab_caches s ! i)"
    "d \<in> set (slab_caches s)" "d \<noteq> slab_caches s ! i"
  shows "a \<notin> cache_slabs d"
  using slab_inv_same_cache [OF assms(1) _ assms(4,3)] assms(2,5) by auto

lemma slab_inv_pagesD:
  assumes "slab_inv s live" "i < length (slab_caches s)" "a \<in> cache_slabs (slab_caches s ! i)"
  shows "alloc_inv (pages s)" "a \<in> page_addr (pages s) ` allocated (pages s)"
  using assms slab_inv_cacheD(3) [OF assms(1), of "slab_caches s ! i"] by (auto simp: slab_inv_def)

lemma free_count_bound:
  assumes "slab_ok s live osz a" "osz \<in> obj_sizes"
  shows "free_count (headers s a) \<le> (PAGE_SIZE - SLAB_HDR) div osz"
proof -
  obtain fl where "distinct fl" "length fl = free_count (headers s a)" "set fl = slab_objs a osz - live"
    using assms(1) by (auto simp: slab_ok_def)
  then have "free_count (headers s a) = card (slab_objs a osz - live)" by (metis distinct_card)
  also have "\<dots> \<le> card (slab_objs a osz)" by (intro card_mono) (auto simp: slab_objs_def)
  finally show ?thesis using assms(2) by (simp add: card_slab_objs)
qed

lemma take_object_ok:
  assumes inv: "slab_inv s live" and i: "i < length (slab_caches s)"
    and hd: "partial (slab_caches s ! i) = a # as" and res: "take_object s i a = (p, s')"
  shows "p \<in> slab_objs a (cache_obj_size (slab_caches s ! i))" "p \<notin> live" "p \<noteq> 0"
    "slab_inv s' (insert p live)" "pages s' = pages s"
    "slab_caches s' ! i \<in> set (slab_caches s')" "a \<in> cache_slabs (slab_caches s' ! i)"
    "cache_obj_size (slab_caches s' ! i) = cache_obj_size (slab_caches s ! i)"
proof -
  let ?c = "slab_caches s ! i" and ?h = "headers s a"
  let ?osz = "cache_obj_size ?c"
  have ci: "?c \<in> set (slab_caches s)" and ac: "a \<in> cache_slabs ?c"
    using i hd by (simp_all add: cache_slabs_def)
  note cok = slab_inv_cacheD [OF inv ci] and aok = slab_inv_slabD [OF inv ci ac]
  have nz: "free_count ?h \<noteq> 0" using cok(1) hd by (simp add: cache_ok_def)
  have bnd: "free_count ?h < 65536"
    using free_count_bound [OF aok(1) cok(2)] obj_sizes_num [OF cok(2)] by simp
  obtain fl where fl: "chain (words s) (free_list ?h) fl" "distinct fl"
    "length fl = free_count ?h" "set fl = slab_objs a ?osz - live"
    using aok(1) by (auto simp: slab_ok_def)
  then obtain fl' where fl': "fl = free_list ?h # fl'" using nz by (cases fl) auto
  have p: "p = free_list ?h" using res by (auto simp: take_object_def Let_def split: if_splits)
  have cnt: "(free_count ?h + 65535) mod 65536 = length fl'"
  proof -
    have "free_count ?h + 65535 = length fl' + 65536" "length fl' < 65536" using fl(3) fl' bnd by simp_all
    then show ?thesis by simp
  qed
  let ?h' = "?h\<lparr>free_list := words s p, free_count := length fl'\<rparr>"
  let ?c' = "if fl' = [] then move_to_full a ?c else ?c"
  have same: "(slab_caches s)[i := ?c] = slab_caches s" by simp
  have s': "s' = s\<lparr>headers := (headers s)(a := ?h'), slab_caches := (slab_caches s)[i := ?c']\<rparr>"
    using res by (auto simp: take_object_def Let_def cnt p upd_cache_def)
  show pin: "p \<in> slab_objs a ?osz" "p \<notin> live" "p \<noteq> 0" using fl fl' by (auto simp: p)
  have ok: "slab_ok s' (insert p live) ?osz a"
    using aok(1) fl fl' by (auto simp: slab_ok_def s' p intro!: exI [of _ fl'])
  have dist: "distinct (partial ?c @ full ?c)" using cok(1) by (simp add: cache_ok_def)
  show "slab_inv s' (insert p live)"
  proof (rule slab_inv_step [OF inv i, of a s' ?c' "insert p live"])
    show "words s' x = words s x \<and> (x \<in> insert p live) = (x \<in> live)" if "addr_to_slab x \<noteq> a" for x
      using that slab_objs_page [OF aok(2) _ pin(1)] cok(2) by (auto simp: s')
    show "slab_ok s' (insert p live) ?osz a" by (rule ok)
    show "(a \<in> set (partial ?c')) = (free_count (headers s' a) \<noteq> 0)"
      using hd dist by (auto simp: s' move_to_full_def unlink_slab_def Let_def)
    show "distinct (partial ?c' @ full ?c')" "cache_slabs ?c' = insert a (cache_slabs ?c)"
      using hd dist by (auto simp: move_to_full_def unlink_slab_def Let_def cache_slabs_def remove1_idem)
    show "set (partial ?c') - {a} = set (partial ?c) - {a}" "set (full ?c') - {a} = set (full ?c) - {a}"
      "cache_obj_size ?c' = ?osz"
      using hd dist by (auto simp: move_to_full_def unlink_slab_def Let_def remove1_idem)
    show "\<And>x. x \<in> insert p live \<Longrightarrow> x \<notin> live \<Longrightarrow> x \<in> slab_objs a ?osz" using pin by auto
  qed (use slab_inv_other_cache [OF inv i ac] slab_inv_pagesD [OF inv i ac] in \<open>auto simp: s'\<close>)
  show "pages s' = pages s" by (simp add: s')
  show "slab_caches s' ! i \<in> set (slab_caches s')" "a \<in> cache_slabs (slab_caches s' ! i)"
    "cache_obj_size (slab_caches s' ! i) = ?osz"
    using i ac by (auto simp: s' set_update_memI cache_slabs_def move_to_full_def unlink_slab_def Let_def)
qed

text \<open>
  C2: a successful kalloc of at most 2048 bytes returns an object that is not in use, of a
  size class at least as large as the request, lying inside a page the page allocator has
  handed out, and the invariant of the slab allocator holds with it added to the objects in use.
\<close>

theorem kalloc_fresh:
  assumes "slab_inv s live" "0 < sz" "sz \<le> 2048" "kalloc s sz = (p, s')" "p \<noteq> 0"
  shows "p \<notin> live \<and> slab_inv s' (insert p live)
    \<and> (\<exists>c \<in> set (slab_caches s'). \<exists>a \<in> cache_slabs c. sz \<le> cache_obj_size c
          \<and> p \<in> slab_objs a (cache_obj_size c) \<and> a \<in> page_addr (pages s') ` allocated (pages s'))"
proof -
  let ?osz = "round_up_pow2 sz"
  have osz: "?osz \<in> obj_sizes" "sz \<le> ?osz" using round_up_pow2_spec [OF assms(3)] by auto
  obtain i t where g: "get_cache s ?osz = (Some i, t)"
    using assms by (auto simp: kalloc_def split: prod.splits option.splits)
  from slab_inv_get_cache [OF assms(1) osz(1) g]
  have t: "slab_inv t live" "i < length (slab_caches t)" "cache_obj_size (slab_caches t ! i) = ?osz" by auto
  obtain u a as where u: "slab_inv u live" "i < length (slab_caches u)"
    "cache_obj_size (slab_caches u ! i) = ?osz" "partial (slab_caches u ! i) = a # as"
    "take_object u i a = (p, s')"
  proof (cases "partial (slab_caches t ! i)")
    case (Cons a as)
    then show ?thesis using t assms(2-4) g by (intro that [of t a as]) (auto simp: kalloc_def)
  next
    case Nil
    then obtain a t' where c: "create_slab t ?osz = (Some a, t')"
      "take_object (upd_cache t' i (add_partial a)) i a = (p, s')"
      using assms(2-5) g by (auto simp: kalloc_def split: prod.splits option.splits)
    from create_slab_ok [OF t(1) osz(1) t(2,3) c(1)] show ?thesis
      using c(2) t(2) by (intro that [of "upd_cache t' i (add_partial a)" a]) auto
  qed
  note tk = take_object_ok [OF u(1,2,4,5)]
  show ?thesis
    using tk slab_inv_cacheD(3) [OF tk(4,6)] osz(2) u(3)
    by (intro conjI bexI [of _ "slab_caches s' ! i"] bexI [of _ a]) auto
qed

lemma release_slab_ok:
  assumes inv: "slab_inv s live" and i: "i < length (slab_caches s)"
    and a: "a \<in> cache_slabs (slab_caches s ! i)"
    and all: "free_count (headers s a) = num_objs (headers s a)"
  shows "slab_inv ((upd_cache s i (unlink_slab a))\<lparr>pages := page_free (pages s) a\<rparr>) live"
    (is "slab_inv ?u live")
proof -
  let ?c = "slab_caches s ! i" and ?c' = "unlink_slab a (slab_caches s ! i)"
  have ci: "?c \<in> set (slab_caches s)" using i by simp
  note cok = slab_inv_cacheD [OF inv ci] and aok = slab_inv_slabD [OF inv ci a]
  have inv': "alloc_inv (pages s)" "direct_mapped (pages s)" "page_aligned (base_phys (pages s))"
    using inv by (simp_all add: slab_inv_def)
  obtain j where j: "a = page_addr (pages s) j" "j \<in> allocated (pages s)" using slab_inv_pagesD [OF inv i a] by auto
  then have jt: "j < total_pages (pages s)" by (simp add: allocated_def)
  have pf: "allocated (page_free (pages s) a) = allocated (pages s) - {j}"
    using page_free_page_addr [OF inv'(2) jt] j by (simp add: allocated_clear)
  have notlive: "slab_objs a (cache_obj_size ?c) \<inter> live = {}"
  proof -
    obtain fl where "distinct fl" "length fl = free_count (headers s a)"
      "set fl = slab_objs a (cache_obj_size ?c) - live" using aok(1) by (auto simp: slab_ok_def)
    then have "card (slab_objs a (cache_obj_size ?c) - live) = card (slab_objs a (cache_obj_size ?c))"
      using all aok(1) cok(2) by (metis card_slab_objs distinct_card obj_sizes_pos slab_ok_def)
    then have "slab_objs a (cache_obj_size ?c) - live = slab_objs a (cache_obj_size ?c)"
      by (intro card_subset_eq) (auto simp: slab_objs_def)
    then show ?thesis by blast
  qed
  have addr: "page_addr (page_free (pages s) a) = page_addr (pages s)"
    by (simp add: fun_eq_iff page_addr_def)
  have img: "b \<in> page_addr (pages ?u) ` allocated (pages ?u)"
    if b: "b \<in> page_addr (pages s) ` allocated (pages s)" "b \<noteq> a" for b
  proof -
    obtain x where x: "x \<in> allocated (pages s)" "b = page_addr (pages s) x" using b(1) by blast
    then have "x \<in> allocated (pages s) - {j}" using b(2) j(1) by blast
    then show ?thesis using x(2) by (simp add: addr pf)
  qed
  have cs: "slab_caches ?u = (slab_caches s)[i := ?c']" by (simp add: upd_cache_def)
  have c': "cache_slabs ?c' = cache_slabs ?c - {a}" "cache_obj_size ?c' = cache_obj_size ?c"
    "set (partial ?c') \<subseteq> set (partial ?c)" "set (full ?c') \<subseteq> set (full ?c)"
    "distinct (partial ?c' @ full ?c')"
    using cok(1) by (auto simp: unlink_slab_def cache_slabs_def cache_ok_def)
  have ok_eq: "cache_ok ?u live d = cache_ok s live d" for d
    by (simp add: cache_ok_def slab_ok_def upd_cache_def)
  have each: "cache_ok ?u live d \<and> cache_slabs d \<subseteq> page_addr (pages ?u) ` allocated (pages ?u)"
    if "d \<in> set (slab_caches ?u)" for d
  proof (cases "d = ?c'")
    case True
    have "cache_ok s live ?c'"
      unfolding cache_ok_def c'(1,2)
      using cok(1) c'(3-5) cok(2) unfolding cache_ok_def by (meson DiffD1 subsetD)
    moreover have "x \<in> page_addr (pages ?u) ` allocated (pages ?u)" if "x \<in> cache_slabs ?c'" for x
      using that c'(1) cok(3) by (intro img) auto
    ultimately show ?thesis unfolding True ok_eq by (intro conjI subsetI)
  next
    case False
    have "distinct (slab_caches s)" using inv by (auto simp: slab_inv_def distinct_map)
    then have d: "d \<in> set (slab_caches s)" "d \<noteq> ?c"
      using that False i unfolding cs by (auto simp: set_update_distinct)
    then have "a \<notin> cache_slabs d" using slab_inv_other_cache [OF inv i a] by blast
    then show ?thesis using slab_inv_cacheD [OF inv d(1)] ok_eq img by blast
  qed
  have lv: "\<exists>d \<in> set (slab_caches ?u). \<exists>b \<in> cache_slabs d. x \<in> slab_objs b (cache_obj_size d)"
    if x: "x \<in> live" for x
  proof -
    obtain k b where k: "k < length (slab_caches s)" "b \<in> cache_slabs (slab_caches s ! k)"
      "x \<in> slab_objs b (cache_obj_size (slab_caches s ! k))" using slab_inv_liveD [OF inv x] by blast
    have "b \<noteq> a"
      using k x notlive slab_inv_other_cache [OF inv i a, of "slab_caches s ! k"] by force
    then have b: "b \<in> cache_slabs (slab_caches ?u ! k)"
      and sz: "cache_obj_size (slab_caches ?u ! k) = cache_obj_size (slab_caches s ! k)"
      using k(1,2) by (cases "k = i"; simp add: c'(1,2))+
    have m: "slab_caches ?u ! k \<in> set (slab_caches ?u)" using k(1) by (simp add: cs)
    show ?thesis by (rule bexI [OF _ m], rule bexI [OF _ b]) (simp only: sz k(3))
  qed
  have "map cache_obj_size (slab_caches ?u) = map cache_obj_size (slab_caches s)"
    using i c'(2) by (simp add: cs map_update list_update_same_conv)
  then show ?thesis
    using inv alloc_inv_page_free [OF inv'(1), of a] each lv
    by (auto simp: slab_inv_def cs direct_mapped_def)
qed

lemma find_cache_index:
  assumes "distinct (map cache_obj_size cs)" "i < length cs"
  shows "find_cache cs (cache_obj_size (cs ! i)) = Some i"
  using assms
proof (induction cs arbitrary: i)
  case (Cons c cs)
  then show ?case by (cases i) (auto simp: image_iff)
qed simp

text \<open>
  The state of \<^verbatim>\<open>kfree\<close> before it decides on giving the page back: the object is on the
  free list and a slab that was full is on the partial list.
\<close>

definition put_object :: "slab_state \<Rightarrow> nat \<Rightarrow> u32 \<Rightarrow> u32 \<Rightarrow> slab_state" where
  "put_object s i a p =
     (let h = headers s a;
          s' = s\<lparr>words := (words s)(p := free_list h),
                 headers := (headers s)(a := h\<lparr>free_list := p, free_count := (free_count h + 1) mod 65536\<rparr>)\<rparr>
      in if free_count h = 0 then upd_cache s' i (move_to_partial a) else s')"

lemma put_object_ok:
  assumes inv: "slab_inv s live" and i: "i < length (slab_caches s)"
    and a: "a \<in> cache_slabs (slab_caches s ! i)"
    and p: "p \<in> live" "p \<in> slab_objs a (cache_obj_size (slab_caches s ! i))"
  shows "slab_inv (put_object s i a p) (live - {p})"
    "i < length (slab_caches (put_object s i a p))"
    "a \<in> cache_slabs (slab_caches (put_object s i a p) ! i)"
    "headers (put_object s i a p) a =
      (headers s a)\<lparr>free_list := p, free_count := Suc (free_count (headers s a))\<rparr>"
proof -
  let ?t = "put_object s i a p" and ?c = "slab_caches s ! i" and ?h = "headers s a"
  let ?osz = "cache_obj_size ?c"
  have ci: "?c \<in> set (slab_caches s)" using i by simp
  note cok = slab_inv_cacheD [OF inv ci] and aok = slab_inv_slabD [OF inv ci a]
  have bnd: "Suc (free_count ?h) < 65536"
    using free_count_bound [OF aok(1) cok(2)] cok(2)
    by (auto simp: obj_sizes_def PAGE_SIZE_def SLAB_HDR_def)
  obtain fl where fl: "chain (words s) (free_list ?h) fl" "distinct fl"
    "length fl = free_count ?h" "set fl = slab_objs a ?osz - live"
    using aok(1) by (auto simp: slab_ok_def)
  let ?h' = "?h\<lparr>free_list := p, free_count := Suc (free_count ?h)\<rparr>"
  let ?c' = "if free_count ?h = 0 then move_to_partial a ?c else ?c"
  have t: "?t = s\<lparr>words := (words s)(p := free_list ?h), headers := (headers s)(a := ?h'),
      slab_caches := (slab_caches s)[i := ?c']\<rparr>"
    using bnd by (simp add: put_object_def Let_def upd_cache_def)
  have pn: "p \<noteq> 0" "p \<notin> set fl"
  proof -
    have "a \<noteq> 0"
      using slab_inv_pagesD(2) [OF inv i a] page_addr_decode(2) inv by (auto simp: slab_inv_def allocated_def)
    then show "p \<noteq> 0"
      using p(2) obj_addr_nonzero [OF aok(2)] cok(2) by (auto simp: slab_objs_def)
    show "p \<notin> set fl" using fl(4) p(1) by simp
  qed
  have ok: "slab_ok ?t (live - {p}) ?osz a"
  proof -
    have "magic ?h = SLAB_MAGIC" "num_objs ?h = (PAGE_SIZE - SLAB_HDR) div ?osz"
      using aok(1) by (simp_all add: slab_ok_def)
    moreover have "chain ((words s)(p := free_list ?h)) p (p # fl)" using fl(1) pn by simp
    moreover have "set (p # fl) = slab_objs a ?osz - (live - {p})" using fl(4) p by auto
    ultimately show ?thesis
      unfolding slab_ok_def using aok(2,3) fl(2,3) pn(2)
      by (intro conjI exI [of _ "p # fl"]) (simp_all add: t)
  qed
  have dist: "distinct (partial ?c @ full ?c)" using cok(1) by (simp add: cache_ok_def)
  have where_a: "a \<in> set (partial ?c) \<longleftrightarrow> free_count ?h \<noteq> 0"
    using a cok(1) by (auto simp: cache_slabs_def cache_ok_def)
  show "slab_inv ?t (live - {p})"
  proof (rule slab_inv_step [OF inv i, of a ?t ?c' "live - {p}"])
    show "words ?t x = words s x \<and> (x \<in> live - {p}) = (x \<in> live)" if "addr_to_slab x \<noteq> a" for x
      using that slab_objs_page [OF aok(2) _ p(2)] cok(2) by (auto simp: t)
    show "slab_ok ?t (live - {p}) ?osz a" by (rule ok)
    show "(a \<in> set (partial ?c')) = (free_count (headers ?t a) \<noteq> 0)"
      using where_a by (auto simp: t move_to_partial_def unlink_slab_def Let_def)
    show "distinct (partial ?c' @ full ?c')" "cache_slabs ?c' = insert a (cache_slabs ?c)"
      "set (partial ?c') - {a} = set (partial ?c) - {a}" "set (full ?c') - {a} = set (full ?c) - {a}"
      "cache_obj_size ?c' = ?osz"
      using a where_a dist
      by (auto simp: move_to_partial_def unlink_slab_def Let_def cache_slabs_def remove1_idem)
  qed (use slab_inv_other_cache [OF inv i a] slab_inv_pagesD [OF inv i a] in \<open>auto simp: t\<close>)
  show "i < length (slab_caches ?t)" using i by (simp add: t)
  show "a \<in> cache_slabs (slab_caches ?t ! i)"
    using i a by (auto simp: t cache_slabs_def move_to_partial_def unlink_slab_def Let_def)
  show "headers ?t a = ?h'" by (simp add: t)
qed

lemma kfree_live:
  assumes inv: "slab_inv s live" and i: "i < length (slab_caches s)"
    and a: "a \<in> cache_slabs (slab_caches s ! i)"
    and p: "p \<in> live" "p \<in> slab_objs a (cache_obj_size (slab_caches s ! i))"
  shows "kfree s p =
    (let t = put_object s i a p
     in if free_count (headers t a) = num_objs (headers t a) \<and> partial (slab_caches t ! i) \<noteq> [a]
        then (upd_cache t i (unlink_slab a))\<lparr>pages := page_free (pages t) a\<rparr> else t)"
proof -
  let ?c = "slab_caches s ! i"
  have ci: "?c \<in> set (slab_caches s)" using i by simp
  note cok = slab_inv_cacheD [OF inv ci] and aok = slab_inv_slabD [OF inv ci a]
  have slab: "addr_to_slab p = a" using slab_objs_page [OF aok(2) _ p(2)] cok(2) by simp
  have "a \<noteq> 0"
    using slab_inv_pagesD(2) [OF inv i a] page_addr_decode(2) inv by (auto simp: slab_inv_def allocated_def)
  then have "p \<noteq> 0" using p(2) obj_addr_nonzero [OF aok(2)] cok(2) by (auto simp: slab_objs_def)
  moreover have "is_slab_page s p" using aok(1) by (simp add: is_slab_page_def slab slab_ok_def)
  moreover have hit: "get_cache t (slab_obj_size (headers s a)) = (Some i, t)"
    if "slab_caches t = slab_caches s" for t
    using find_cache_index [OF _ i] inv aok(3) that by (simp add: slab_inv_def get_cache_def)
  ultimately show ?thesis
    unfolding kfree_def put_object_def slab
    by (cases "free_count (headers s a) = 0") (simp_all add: hit Let_def)
qed

text \<open>
  C3: freeing an object in use takes exactly that object out of the set in use and keeps the
  invariant, whether the slab was full, becomes empty and is given back, or neither.
\<close>

theorem kfree_releases:
  assumes "slab_inv s live" "p \<in> live"
  shows "slab_inv (kfree s p) (live - {p})"
proof -
  obtain i a where ia: "i < length (slab_caches s)" "a \<in> cache_slabs (slab_caches s ! i)"
    "p \<in> slab_objs a (cache_obj_size (slab_caches s ! i))" using slab_inv_liveD [OF assms] by blast
  note put = put_object_ok [OF assms(1) ia(1,2) assms(2) ia(3)]
  show ?thesis
    unfolding kfree_live [OF assms(1) ia(1,2) assms(2) ia(3)] Let_def
    using put(1) release_slab_ok [OF put(1-3)] by simp
qed

section \<open>Initialisation\<close>

lemma slab_inv_no_caches:
  assumes "alloc_inv (pages s)" "direct_mapped (pages s)" "page_aligned (base_phys (pages s))"
  shows "slab_inv (s\<lparr>slab_caches := []\<rparr>) {}"
  using assms by (simp add: slab_inv_def)

lemma slab_inv_add_slab:
  assumes "slab_inv s live" "sz \<le> 2048"
  shows "slab_inv (snd (add_slab s sz)) live"
proof (cases "get_cache s (round_up_pow2 sz)")
  case (Pair i t)
  have osz: "round_up_pow2 sz \<in> obj_sizes" using round_up_pow2_spec [OF assms(2)] by blast
  show ?thesis
  proof (cases i)
    case None
    then have "t = s" using Pair by (auto simp: get_cache_def split: option.splits if_splits)
    then show ?thesis using assms None Pair by (simp add: add_slab_def Let_def)
  next
    case (Some k)
    then show ?thesis
      using slab_inv_get_cache [OF assms(1) osz] Pair assms(1) by (simp add: add_slab_def Let_def)
  qed
qed

lemma slab_inv_slab_init:
  assumes "alloc_inv (pages s)" "direct_mapped (pages s)" "page_aligned (base_phys (pages s))"
  shows "slab_inv (slab_init s) {}"
proof -
  have run: "slab_inv (fold (\<lambda>sz s. snd (add_slab s sz)) szs t) {}"
    if "\<forall>sz \<in> set szs. sz \<le> 2048" "slab_inv t {}" for szs t
    using that by (induction szs arbitrary: t) (simp_all add: slab_inv_add_slab)
  show ?thesis unfolding slab_init_def
    by (rule run [OF _ slab_inv_no_caches [OF assms]]) simp
qed

text \<open>A small machine: 40 KB managed from 1 MB on, after \<^verbatim>\<open>slab_init\<close>.\<close>

definition demo_slab :: slab_state where
  "demo_slab = slab_init \<lparr>pages = buddy_init 0x100000 40, words = (\<lambda>_. 0),
     headers = (\<lambda>_. \<lparr>magic = 0, slab_obj_size = 0, num_objs = 0, free_count = 0, free_list = 0\<rparr>),
     slab_caches = []\<rparr>"

lemma demo_slab_inv: "slab_inv demo_slab {}"
  unfolding demo_slab_def
proof (rule slab_inv_slab_init, simp_all add: alloc_inv_buddy_init)
  show "direct_mapped (buddy_init 0x100000 40)"
    by (simp add: direct_mapped_def buddy_init_def MAX_PAGES_def PAGE_SIZE_def)
  show "page_aligned (base_phys (buddy_init 0x100000 40))"
    by (simp add: page_aligned_unat buddy_init_def Let_def)
qed

lemma round_up_pow2_values:
  "round_up_pow2 8 = 8" "round_up_pow2 16 = 16" "round_up_pow2 32 = 32" "round_up_pow2 64 = 64"
  "round_up_pow2 128 = 128" "round_up_pow2 256 = 256" "round_up_pow2 512 = 512"
  "round_up_pow2 1024 = 1024" "round_up_pow2 2048 = 2048"
  by (simp_all add: round_up_pow2_def round_up_loop.simps)

lemma demo_slab_eq:
  "demo_slab = \<lparr>pages = buddy_init 0x100000 40, words = (\<lambda>_. 0),
     headers = (\<lambda>_. \<lparr>magic = 0, slab_obj_size = 0, num_objs = 0, free_count = 0, free_list = 0\<rparr>),
     slab_caches = map (\<lambda>z. \<lparr>cache_obj_size = z, partial = [], full = []\<rparr>)
       [8, 16, 32, 64, 128, 256, 512, 1024, 2048]\<rparr>"
  by (simp add: demo_slab_def slab_init_def add_slab_def round_up_pow2_values get_cache_def MAX_SLAB_CACHES_def)

lemma demo_kalloc: "fst (kalloc demo_slab 2048) = 0xC0100018"
  by (simp add: kalloc_def demo_slab_eq round_up_pow2_values get_cache_def create_slab_def
      page_alloc_def page_alloc_flags_def Let_def pages_needed_for_def buddy_init_def MAX_PAGES_def
      find_free_pages_def bitmap_test_def PAGE_SIZE_def MEM_MAP_def MEM_PHY_def phys_to_virt_def
      KERNEL_VMA_def upt_conv_Cons SLAB_HDR_def take_object_def obj_addr_def)

theorem kalloc_fresh_witness:
  "fst (kalloc demo_slab 2048) = 0xC0100018 \<and> slab_inv (snd (kalloc demo_slab 2048)) {0xC0100018}"
  using kalloc_fresh [OF demo_slab_inv, of 2048 "fst (kalloc demo_slab 2048)" "snd (kalloc demo_slab 2048)"]
    demo_kalloc by (simp add: prod_eq_iff)

text \<open>Freeing the object again: the hypotheses of \<open>kfree_releases\<close> hold after the allocation.\<close>

lemma demo_kalloc_inv: "slab_inv (snd (kalloc demo_slab 2048)) {0xC0100018}"
proof -
  obtain i t where g: "get_cache demo_slab (round_up_pow2 2048) = (Some i, t)" "partial (slab_caches t ! i) = []"
    by (simp add: demo_slab_eq round_up_pow2_values get_cache_def)
  have osz: "round_up_pow2 2048 \<in> obj_sizes" using round_up_pow2_spec by simp
  from slab_inv_get_cache [OF demo_slab_inv osz g(1)]
  have t: "slab_inv t {}" "i < length (slab_caches t)"
    "cache_obj_size (slab_caches t ! i) = round_up_pow2 2048" by auto
  obtain a t' where c: "create_slab t (round_up_pow2 2048) = (Some a, t')"
    "take_object (upd_cache t' i (add_partial a)) i a = kalloc demo_slab 2048"
    using g demo_kalloc by (auto simp: kalloc_def split: prod.splits option.splits)
  note u = create_slab_ok [OF t(1) osz t(2,3) c(1)]
  from take_object_ok(4) [OF u(1) _ u(2), of "fst (kalloc demo_slab 2048)" "snd (kalloc demo_slab 2048)"]
  show ?thesis using c(2) t(2) u(3) demo_kalloc by (simp add: prod_eq_iff)
qed

theorem kfree_releases_witness: "slab_inv (kfree (snd (kalloc demo_slab 2048)) 0xC0100018) {}"
  using kfree_releases [OF demo_kalloc_inv, of "0xC0100018"] by simp

section \<open>Blocks larger than a slab object\<close>

text \<open>
  kfree of a block of more than one page gives back only its first page. After the pair
  kalloc, kfree the pages behind the first one are still allocated, for every block larger
  than 4096 bytes whose memory does not start with the slab magic.
\<close>

theorem kfree_large_leaks:
  assumes "slab_inv s live" "2048 < sz" "sz < 2 ^ 32" "kalloc s sz = (p, s')" "p \<noteq> 0" "\<not> is_slab_page s' p"
  shows "\<exists>r. p = page_addr (pages s) r
    \<and> allocated (pages (kfree s' p)) = allocated (pages s) \<union> {r + 1..<r + pages_for sz}"
proof -
  have pg: "alloc_inv (pages s)" "direct_mapped (pages s)" using assms(1) by (simp_all add: slab_inv_def)
  have al: "page_alloc (pages s) sz = (p, pages s')" using assms(2,4) by (auto simp: kalloc_def split: prod.splits)
  show ?thesis
  proof (cases rule: page_alloc_flags_cases [of "pages s" sz MEM_MAP])
    case fail
    then show ?thesis using al assms(5) by (simp add: page_alloc_def)
  next
    case (ok r)
    note r = find_free_pages_Some [OF ok(2)]
    have n: "pages_needed_for sz = pages_for sz"
      using pages_needed_exact pages_needed_wrap [OF assms(3)] r(1) by fastforce
    have p: "p = page_addr (pages s) r" and s': "pages s' =
        (mark_allocated (pages s) r (pages_for sz))\<lparr>free_pages := free_pages (pages s) - pages_for sz\<rparr>"
      using al ok(4) by (auto simp: page_alloc_def MEM_MAP_def MEM_PHY_def n)
    have a: "allocated (pages s') = allocated (pages s) \<union> {r..<r + pages_for sz}"
      using r n by (simp add: s' allocated_mark)
    have rt: "r < total_pages (pages s')" "direct_mapped (pages s')" "p = page_addr (pages s') r"
      using r pg(2) n by (simp_all add: s' direct_mapped_def p page_addr_def)
    have "allocated (pages (kfree s' p)) = allocated (pages s') - {r}"
      using page_free_page_addr [OF rt(2,1)] assms(5,6) a r n
      by (simp add: kfree_def rt(3) [symmetric] allocated_clear)
    moreover have "r \<in> {r..<r + pages_needed_for sz}" using r(1) by simp
    then have "r \<notin> allocated (pages s)" using r(3) by blast
    moreover have "{r..<r + pages_for sz} - {r} = {r + 1..<r + pages_for sz}" by auto
    ultimately show ?thesis unfolding a using p
      by (intro exI [of _ r]) (simp only: Un_Diff Diff_empty Diff_insert0 simp_thms)
  qed
qed

theorem kfree_large_leaks_witness:
  "allocated (pages (kfree (snd (kalloc demo_slab 8192)) (fst (kalloc demo_slab 8192)))) \<noteq> {}"
proof -
  have p: "fst (kalloc demo_slab 8192) = 0xC0100000"
    by (simp add: kalloc_def demo_slab_eq page_alloc_def page_alloc_flags_def Let_def pages_needed_for_def
        buddy_init_def MAX_PAGES_def find_free_pages_def bitmap_test_def PAGE_SIZE_def MEM_MAP_def
        MEM_PHY_def phys_to_virt_def KERNEL_VMA_def upt_conv_Cons split: prod.splits)
  have "\<not> is_slab_page (snd (kalloc demo_slab 8192)) 0xC0100000"
    by (simp add: kalloc_def demo_slab_eq is_slab_page_def SLAB_MAGIC_def split: prod.splits)
  then show ?thesis
    using kfree_large_leaks [OF demo_slab_inv, of 8192 "fst (kalloc demo_slab 8192)"
        "snd (kalloc demo_slab 8192)"] p
    by (auto simp: pages_for_def PAGE_SIZE_def prod_eq_iff)
qed

end
