(* ===== verification/Pipe.thy ===== *)
theory Pipe
  imports Scepter_Prelude
begin

text \<open>
  The ring buffer of \<^verbatim>\<open>fs/pipe.c\<close>: creation, blocking and non-blocking transfer, release of
  the two ends and poll. A pipe record has the fields of \<^verbatim>\<open>pipe_t\<close> but the three wait
  queues; what the code does to them is the list of events an operation returns. A blocking
  call runs against its environment: a list with one entry for every time the caller is
  put to sleep, holding what the other tasks make of the pipe meanwhile and whether a signal
  is pending on return. When the list is used up the caller is still asleep: \<open>None\<close>.
  Pointers to the pipe are never null in the model; the null checks on buffers are kept.
\<close>

section \<open>State\<close>

definition PIPE_SIZE :: nat where "PIPE_SIZE = 4096"

record pipe =
  pbuf :: "nat \<Rightarrow> u8"
  phead :: nat
  ptail :: nat
  pcount :: nat
  readers :: nat
  writers :: nat
  waiting_readers :: nat
  waiting_writers :: nat
  on_destroy :: bool

datatype pipe_event = Wake_read_wq | Wake_write_wq | Wake_open_wq | Poll_wakeup | Destroy_hook | Pipe_freed

type_synonym pipe_env = "((pipe \<Rightarrow> pipe) \<times> bool) list"

definition O_NONBLOCK :: u32 where "O_NONBLOCK = 0x1000"
definition O_RDONLY :: u32 where "O_RDONLY = 1"
definition O_WRONLY :: u32 where "O_WRONLY = 2"
definition O_RDWR :: u32 where "O_RDWR = 3"
definition O_ACCMODE :: u32 where "O_ACCMODE = 3"

definition POLLIN :: u32 where "POLLIN = 1"
definition POLLOUT :: u32 where "POLLOUT = 4"
definition POLLERR :: u32 where "POLLERR = 8"
definition POLLHUP :: u32 where "POLLHUP = 0x10"

definition pipe_create :: "(nat \<Rightarrow> u8) \<Rightarrow> pipe" where
  "pipe_create garbage = \<lparr>pbuf = garbage, phead = 0, ptail = 0, pcount = 0, readers = 1, writers = 1,
     waiting_readers = 0, waiting_writers = 0, on_destroy = False\<rparr>"

section \<open>The ring\<close>

text \<open>
  The copy loops and index updates that the blocking and the non-blocking functions share:
  take \<open>n\<close> bytes at the tail, put bytes at the head. \<open>4096\<close> divides \<open>2 ^ 32\<close>, so the
  wrap-around of the 32-bit sums does not change the ring index.
\<close>

definition ring_take :: "pipe \<Rightarrow> nat \<Rightarrow> u8 list \<times> pipe" where
  "ring_take p n = (map (\<lambda>i. pbuf p ((ptail p + i) mod PIPE_SIZE)) [0..<n],
     p\<lparr>ptail := (ptail p + n) mod PIPE_SIZE, pcount := sub32 (pcount p) n\<rparr>)"

definition ring_put :: "pipe \<Rightarrow> u8 list \<Rightarrow> pipe" where
  "ring_put p xs = p\<lparr>
     pbuf := fold (\<lambda>i b. b((phead p + i) mod PIPE_SIZE := xs ! i)) [0..<length xs] (pbuf p),
     phead := (phead p + length xs) mod PIPE_SIZE, pcount := w32 (pcount p + length xs)\<rparr>"

section \<open>Blocking transfer\<close>

function pipe_read_loop :: "nat \<Rightarrow> u8 list \<Rightarrow> pipe \<Rightarrow> pipe_event list \<Rightarrow> pipe_env
    \<Rightarrow> (int \<times> u8 list \<times> pipe \<times> pipe_event list \<times> pipe_env) option" where
  "pipe_read_loop cnt out p evs env =
     (if length out < cnt then
        if pcount p > 0 then
          (case ring_take p (min (pcount p) (cnt - length out)) of (xs, p) \<Rightarrow>
             pipe_read_loop cnt (out @ xs) p (evs @ [Wake_write_wq, Poll_wakeup]) env)
        else if writers p = 0 then Some (to_int (length out), out, p, evs @ [Poll_wakeup], env)
        else (case env of
            [] \<Rightarrow> None
          | (others, pending) # env \<Rightarrow>
              if pending then
                Some (if length out > 0 then to_int (length out) else - EINTR, out, others p, evs, env)
              else pipe_read_loop cnt out (others p) evs env)
      else Some (to_int (length out), out, p, evs, env))"
  by pat_completeness auto
termination
  by (relation "measures [\<lambda>(cnt, out, p, evs, env). length env, \<lambda>(cnt, out, p, evs, env). cnt - length out]")
    (auto simp: ring_take_def)

declare pipe_read_loop.simps [simp del]

definition pipe_read :: "pipe \<Rightarrow> bool \<Rightarrow> nat \<Rightarrow> pipe_env
    \<Rightarrow> (int \<times> u8 list \<times> pipe \<times> pipe_event list \<times> pipe_env) option" where
  "pipe_read p buf_null cnt env =
     (if buf_null then Some (-1, [], p, [], env) else pipe_read_loop cnt [] p [] env)"

text \<open>\<open>data\<close> is what is left to write, \<open>written\<close> what has been written.\<close>

function pipe_write_loop :: "u8 list \<Rightarrow> nat \<Rightarrow> pipe \<Rightarrow> pipe_event list \<Rightarrow> pipe_env
    \<Rightarrow> (int \<times> pipe \<times> pipe_event list \<times> pipe_env) option" where
  "pipe_write_loop data written p evs env =
     (if data \<noteq> [] then
        if readers p = 0 then Some (if written > 0 then to_int written else - EPIPE, p, evs, env)
        else if pcount p < PIPE_SIZE then
          (let n = min (length data) (PIPE_SIZE - pcount p)
           in pipe_write_loop (drop n data) (written + n) (ring_put p (take n data))
                (evs @ [Wake_read_wq, Poll_wakeup]) env)
        else (case env of
            [] \<Rightarrow> None
          | (others, pending) # env \<Rightarrow> pipe_write_loop data written (others p) evs env)
      else Some (to_int written, p, evs, env))"
  by pat_completeness auto
termination
  by (relation "measures [\<lambda>(data, written, p, evs, env). length env, \<lambda>(data, written, p, evs, env). length data]")
    auto

declare pipe_write_loop.simps [simp del]

definition pipe_write :: "pipe \<Rightarrow> u8 list option \<Rightarrow> pipe_env
    \<Rightarrow> (int \<times> pipe \<times> pipe_event list \<times> pipe_env) option" where
  "pipe_write p buf env =
     (case buf of None \<Rightarrow> Some (-1, p, [], env) | Some data \<Rightarrow> pipe_write_loop data 0 p [] env)"

section \<open>Releasing an end\<close>

definition pipe_read_release :: "pipe \<Rightarrow> pipe \<times> pipe_event list" where
  "pipe_read_release p =
     (let p = (if readers p > 0 then p\<lparr>readers := readers p - 1\<rparr> else p)
      in (p, (if readers p = 0 then [Wake_write_wq] else []) @ [Wake_open_wq]
           @ (if readers p = 0 \<and> writers p = 0
              then (if on_destroy p then [Destroy_hook] else []) @ [Pipe_freed] else [])))"

definition pipe_write_release :: "pipe \<Rightarrow> pipe \<times> pipe_event list" where
  "pipe_write_release p =
     (let p = (if writers p > 0 then p\<lparr>writers := writers p - 1\<rparr> else p)
      in (p, (if writers p = 0 then [Wake_read_wq] else []) @ [Wake_open_wq]
           @ (if readers p = 0 \<and> writers p = 0
              then (if on_destroy p then [Destroy_hook] else []) @ [Pipe_freed] else [])))"

section \<open>Non-blocking transfer and poll\<close>

definition pipe_read_nonblock :: "pipe \<Rightarrow> bool \<Rightarrow> nat \<Rightarrow> int \<times> u8 list \<times> pipe \<times> pipe_event list" where
  "pipe_read_nonblock p buf_null cnt =
     (if buf_null then (-1, [], p, [])
      else if pcount p > 0 then
        (case ring_take p (min (pcount p) cnt) of
           (xs, p) \<Rightarrow> (to_int (length xs), xs, p, [Wake_write_wq, Poll_wakeup]))
      else if writers p = 0 then (0, [], p, [])
      else (- EAGAIN, [], p, []))"

definition pipe_write_nonblock :: "pipe \<Rightarrow> u8 list option \<Rightarrow> int \<times> pipe \<times> pipe_event list" where
  "pipe_write_nonblock p buf =
     (case buf of
        None \<Rightarrow> (-1, p, [])
      | Some data \<Rightarrow>
          if readers p = 0 then (- EPIPE, p, [])
          else
            let space = sub32 PIPE_SIZE (pcount p)
            in if space = 0 then (- EAGAIN, p, [])
               else let n = min (length data) space
                    in (to_int n, ring_put p (take n data), [Wake_read_wq, Poll_wakeup]))"

definition pipe_poll :: "pipe \<Rightarrow> u32 \<Rightarrow> u32" where
  "pipe_poll p flags =
     (if flags AND O_WRONLY \<noteq> 0 then
        (if readers p = 0 then POLLERR else if pcount p < PIPE_SIZE then POLLOUT else 0)
      else
        (if pcount p > 0 then POLLIN else if writers p = 0 then POLLIN OR POLLHUP else 0))"

section \<open>The ring holds a byte queue\<close>

definition pipe_inv :: "pipe \<Rightarrow> bool" where
  "pipe_inv p \<longleftrightarrow> phead p < PIPE_SIZE \<and> ptail p < PIPE_SIZE \<and> pcount p \<le> PIPE_SIZE
     \<and> phead p = (ptail p + pcount p) mod PIPE_SIZE"

definition pipe_bytes :: "pipe \<Rightarrow> u8 list" where
  "pipe_bytes p = map (\<lambda>i. pbuf p ((ptail p + i) mod PIPE_SIZE)) [0..<pcount p]"

lemma length_pipe_bytes [simp]: "length (pipe_bytes p) = pcount p"
  by (simp add: pipe_bytes_def)

lemma pipe_bytes_Nil [simp]: "pipe_bytes p = [] \<longleftrightarrow> pcount p = 0" "[] = pipe_bytes p \<longleftrightarrow> pcount p = 0"
  by (auto simp: pipe_bytes_def)

lemma pipe_create_ok [simp]: "pipe_inv (pipe_create g)" "pipe_bytes (pipe_create g) = []"
  by (simp_all add: pipe_create_def pipe_inv_def pipe_bytes_def PIPE_SIZE_def)

lemma pipe_bytes_cong:
  "pbuf p = pbuf q \<Longrightarrow> ptail p = ptail q \<Longrightarrow> pcount p = pcount q \<Longrightarrow> pipe_bytes p = pipe_bytes q"
  by (simp add: pipe_bytes_def)

lemma ring_take_ok:
  assumes "pipe_inv p" "n \<le> pcount p" "ring_take p n = (xs, p')"
  shows "pipe_inv p'" "xs = take n (pipe_bytes p)" "pipe_bytes p' = drop n (pipe_bytes p)"
    "length xs = n" "readers p' = readers p" "writers p' = writers p"
proof -
  have p': "p' = p\<lparr>ptail := (ptail p + n) mod PIPE_SIZE, pcount := pcount p - n\<rparr>"
    and xs: "xs = map (\<lambda>i. pbuf p ((ptail p + i) mod PIPE_SIZE)) [0..<n]"
    using assms by (auto simp: ring_take_def pipe_inv_def PIPE_SIZE_def)
  have "(ptail p + pcount p) mod PIPE_SIZE = ((ptail p + n) mod PIPE_SIZE + (pcount p - n)) mod PIPE_SIZE"
  proof -
    obtain m where "pcount p = n + m" using assms(2) le_Suc_ex by blast
    then show ?thesis by (simp add: mod_add_left_eq add.assoc)
  qed
  then show "pipe_inv p'" using assms(1) by (auto simp: pipe_inv_def p' PIPE_SIZE_def)
  show "xs = take n (pipe_bytes p)" using assms(2) by (simp add: xs pipe_bytes_def take_map)
  have "((ptail p + n) mod PIPE_SIZE + i) mod PIPE_SIZE = (ptail p + (n + i)) mod PIPE_SIZE" for i
    by (simp add: mod_add_left_eq add.assoc)
  then have "pipe_bytes p' = map (\<lambda>i. pbuf p ((ptail p + (n + i)) mod PIPE_SIZE)) [0..<pcount p - n]"
    by (simp add: pipe_bytes_def p')
  also have "\<dots> = map (\<lambda>i. pbuf p ((ptail p + i) mod PIPE_SIZE)) [n..<pcount p]"
    using assms(2) by (intro nth_equalityI) simp_all
  finally show "pipe_bytes p' = drop n (pipe_bytes p)"
    by (simp add: pipe_bytes_def drop_map drop_upt)
  show "length xs = n" "readers p' = readers p" "writers p' = writers p" by (simp_all add: xs p')
qed

lemma ring_buf:
  assumes "h < PIPE_SIZE" "k \<le> n" "n \<le> PIPE_SIZE" "j < PIPE_SIZE"
  shows "fold (\<lambda>i b. b((h + i) mod PIPE_SIZE := xs ! i)) [0..<k] b ((h + j) mod PIPE_SIZE) =
    (if j < k then xs ! j else b ((h + j) mod PIPE_SIZE))"
  using assms(2)
proof (induction k)
  case (Suc k)
  have "(h + k) mod PIPE_SIZE = (h + j) mod PIPE_SIZE \<longleftrightarrow> k = j"
    using mod_shift_inj [of h k PIPE_SIZE j] Suc.prems assms(3,4) by auto
  then show ?case using Suc by auto
qed simp

lemma ring_put_ok:
  assumes "pipe_inv p" "pcount p + length xs \<le> PIPE_SIZE"
  shows "pipe_inv (ring_put p xs)" "pipe_bytes (ring_put p xs) = pipe_bytes p @ xs"
    "pcount (ring_put p xs) = pcount p + length xs"
    "readers (ring_put p xs) = readers p" "writers (ring_put p xs) = writers p"
proof -
  have c: "w32 (pcount p + length xs) = pcount p + length xs" using assms(2) by (simp add: PIPE_SIZE_def)
  show "pcount (ring_put p xs) = pcount p + length xs" by (simp add: ring_put_def c)
  show "readers (ring_put p xs) = readers p" "writers (ring_put p xs) = writers p"
    by (simp_all add: ring_put_def)
  show "pipe_inv (ring_put p xs)"
    using assms by (simp add: pipe_inv_def ring_put_def c PIPE_SIZE_def mod_add_left_eq add.assoc)
  let ?b = "fold (\<lambda>i b. b((phead p + i) mod PIPE_SIZE := xs ! i)) [0..<length xs] (pbuf p)"
  have head: "phead p = (ptail p + pcount p) mod PIPE_SIZE" "phead p < PIPE_SIZE"
    using assms(1) by (simp_all add: pipe_inv_def)
  have at: "(phead p + j) mod PIPE_SIZE = (ptail p + (pcount p + j)) mod PIPE_SIZE" for j
    by (simp add: head(1) mod_add_left_eq add.assoc)
  have new: "?b ((ptail p + (pcount p + j)) mod PIPE_SIZE) = xs ! j" if "j < length xs" for j
    using ring_buf [OF head(2) order_refl, of "length xs" j xs "pbuf p"] that assms(2) by (simp add: at)
  have old: "?b ((ptail p + i) mod PIPE_SIZE) = pbuf p ((ptail p + i) mod PIPE_SIZE)" if i: "i < pcount p" for i
  proof -
    define j where "j = (if i + PIPE_SIZE - pcount p < PIPE_SIZE then i + PIPE_SIZE - pcount p else 0)"
    have j: "j < PIPE_SIZE" "pcount p + j = i + PIPE_SIZE" "length xs \<le> j"
      using i assms by (auto simp: j_def pipe_inv_def)
    have "(ptail p + i) mod PIPE_SIZE = (phead p + j) mod PIPE_SIZE"
      unfolding at j(2) by (simp add: add.assoc [symmetric])
    then show ?thesis
      using ring_buf [OF head(2) order_refl, of "length xs" j xs "pbuf p"] j assms(2) by simp
  qed
  show "pipe_bytes (ring_put p xs) = pipe_bytes p @ xs"
  proof (rule nth_equalityI)
    fix i assume "i < length (pipe_bytes (ring_put p xs))"
    then have i: "i < pcount p + length xs" by (simp add: ring_put_def c)
    then have nth: "pipe_bytes (ring_put p xs) ! i = ?b ((ptail p + i) mod PIPE_SIZE)"
      by (simp add: pipe_bytes_def ring_put_def c)
    show "pipe_bytes (ring_put p xs) ! i = (pipe_bytes p @ xs) ! i"
    proof (cases "i < pcount p")
      case True
      then show ?thesis using old unfolding nth by (simp add: nth_append) (simp add: pipe_bytes_def)
    next
      case False
      then show ?thesis using new [of "i - pcount p"] i unfolding nth by (simp add: nth_append)
    qed
  qed (simp add: ring_put_def c)
qed

section \<open>Non-blocking transfer is a bounded byte queue\<close>

lemma pipe_read_nonblock_ok:
  assumes "pipe_inv p" "pipe_read_nonblock p False cnt = (r, xs, p', evs)"
  shows "pipe_inv p'" "xs = take cnt (pipe_bytes p)" "pipe_bytes p' = drop cnt (pipe_bytes p)"
proof -
  let ?n = "min (pcount p) cnt"
  obtain ys q where t: "ring_take p ?n = (ys, q)" by fastforce
  note tk = ring_take_ok [OF assms(1) _ t]
  show "pipe_inv p'" "xs = take cnt (pipe_bytes p)" "pipe_bytes p' = drop cnt (pipe_bytes p)"
    using assms tk t by (auto simp: pipe_read_nonblock_def min_def split: if_splits)
qed

lemma pipe_write_nonblock_ok:
  assumes "pipe_inv p" "pipe_write_nonblock p (Some xs) = (r, p', evs)"
  shows "pipe_inv p'"
    "pipe_bytes p' = pipe_bytes p @ take (nat r) xs"
proof -
  let ?n = "min (length xs) (PIPE_SIZE - pcount p)"
  have c: "pcount p \<le> PIPE_SIZE" using assms(1) by (simp add: pipe_inv_def)
  then have sp: "sub32 PIPE_SIZE (pcount p) = PIPE_SIZE - pcount p" by (simp add: PIPE_SIZE_def)
  have rp: "pipe_inv (ring_put p (take ?n xs))"
    "pipe_bytes (ring_put p (take ?n xs)) = pipe_bytes p @ take ?n xs"
    using ring_put_ok [OF assms(1), of "take ?n xs"] c by auto
  have ti: "nat (to_int ?n) = ?n" by (simp add: PIPE_SIZE_def)
  show "pipe_inv p'" "pipe_bytes p' = pipe_bytes p @ take (nat r) xs"
    using assms rp ti by (auto simp: pipe_write_nonblock_def sp Let_def split: if_splits)
qed

definition pipe_put :: "pipe \<Rightarrow> u8 list \<Rightarrow> nat \<times> pipe" where
  "pipe_put p xs = (case pipe_write_nonblock p (Some xs) of (r, p', _) \<Rightarrow> (nat r, p'))"

definition pipe_get :: "pipe \<Rightarrow> nat \<Rightarrow> u8 list \<times> pipe" where
  "pipe_get p k = (case pipe_read_nonblock p False k of (_, xs, p', _) \<Rightarrow> (xs, p'))"

interpretation pipe_fifo: fifo_buffer pipe_inv pipe_bytes pipe_put pipe_get
proof unfold_locales
  fix p xs n p'
  assume "pipe_inv p" "pipe_put p xs = (n, p')"
  then show "pipe_inv p' \<and> pipe_bytes p' = pipe_bytes p @ take n xs"
    using pipe_write_nonblock_ok [of p xs] by (auto simp: pipe_put_def split: prod.splits)
next
  fix p k ys p'
  assume "pipe_inv p" "pipe_get p k = (ys, p')"
  then show "pipe_inv p' \<and> pipe_bytes p = ys @ pipe_bytes p' \<and> length ys \<le> k"
    using pipe_read_nonblock_ok [of p k] by (auto simp: pipe_get_def split: prod.splits)
qed


text \<open>
  C33: the pipe is a faithful byte stream. Whatever the sequence of non-blocking writes and
  reads, what was in the pipe followed by the accepted bytes is what came out followed by
  what is still buffered; nothing is lost, duplicated or reordered, across any number of
  turns around the ring.
\<close>

theorem pipe_stream:
  assumes "pipe_inv p" "run_buffer pipe_put pipe_get p ops = (ins, outs, p')"
  shows "pipe_inv p' \<and> pipe_bytes p @ ins = outs @ pipe_bytes p'"
  using assms by (rule pipe_fifo.run_fifo)

theorem pipe_stream_witness:
  "fst (run_buffer pipe_put pipe_get (pipe_create (\<lambda>_. 0)) [Put [1, 2], Get 1]) = [1, 2]
    \<and> fst (snd (run_buffer pipe_put pipe_get (pipe_create (\<lambda>_. 0)) [Put [1, 2], Get 1])) = [1]"
proof -
  let ?p = "pipe_create (\<lambda>_. 0)"
  obtain ins outs p' where r: "run_buffer pipe_put pipe_get ?p [Put [1, 2], Get 1] = (ins, outs, p')"
    by (metis prod_cases3)
  have "ins = [1, 2] \<and> length outs = 1"
    using r by (auto simp: pipe_put_def pipe_get_def pipe_create_def pipe_write_nonblock_def
        pipe_read_nonblock_def ring_put_def ring_take_def PIPE_SIZE_def Let_def)
  moreover have "[] @ ins = outs @ pipe_bytes p'"
    using pipe_stream [OF pipe_create_ok(1) r] by simp
  ultimately show ?thesis using r by (cases outs) auto
qed

text \<open>
  poll tells the truth. With at least one byte asked for or offered, the read end is
  reported as not ready exactly when a non-blocking read would fail with EAGAIN, and the
  write end exactly when a non-blocking write would.
\<close>

theorem pipe_poll_accurate:
  assumes "pipe_inv p"
  shows "pipe_poll p O_RDONLY = 0 \<longleftrightarrow> fst (pipe_read_nonblock p False (Suc n)) = - EAGAIN"
    and "pipe_poll p O_WRONLY = 0 \<longleftrightarrow> fst (pipe_write_nonblock p (Some (x # xs))) = - EAGAIN"
proof -
  have c: "pcount p \<le> PIPE_SIZE" using assms by (simp add: pipe_inv_def)
  have pos: "to_int m \<noteq> - 11" if "m \<le> PIPE_SIZE" for m using that by (simp add: PIPE_SIZE_def)
  have sub: "sub32 PIPE_SIZE (pcount p) = PIPE_SIZE - pcount p" using c by (simp add: PIPE_SIZE_def)
  show "pipe_poll p O_RDONLY = 0 \<longleftrightarrow> fst (pipe_read_nonblock p False (Suc n)) = - EAGAIN"
    using pos [of "min (pcount p) (Suc n)"] c
    by (auto simp: pipe_poll_def pipe_read_nonblock_def O_RDONLY_def O_WRONLY_def POLLIN_def POLLHUP_def
        ring_take_def)
  show "pipe_poll p O_WRONLY = 0 \<longleftrightarrow> fst (pipe_write_nonblock p (Some (x # xs))) = - EAGAIN"
    using pos [of "min (length (x # xs)) (PIPE_SIZE - pcount p)"] c
    by (auto simp: pipe_poll_def pipe_write_nonblock_def O_WRONLY_def POLLERR_def POLLOUT_def Let_def sub)
qed

theorem pipe_poll_accurate_witness:
  "pipe_poll (pipe_create (\<lambda>_. 0)) O_RDONLY = 0
    \<and> fst (pipe_read_nonblock (pipe_create (\<lambda>_. 0)) False 1) = - EAGAIN"
  using pipe_poll_accurate(1) [OF pipe_create_ok(1) [of "\<lambda>_. 0"], of 0]
  by (simp add: pipe_poll_def pipe_create_def O_RDONLY_def O_WRONLY_def)

text \<open>
  The end of a FIFO opened with \<^verbatim>\<open>O_RDWR\<close> satisfies the test of the write end: buffered data
  is never reported on it.
\<close>

lemma pipe_poll_rdwr_no_input: "pipe_poll p O_RDWR AND POLLIN = 0"
  by (auto simp: pipe_poll_def O_RDWR_def O_WRONLY_def POLLIN_def POLLOUT_def POLLERR_def)

section \<open>Blocking transfer\<close>

lemma pipe_read_loop_done: "length out = cnt \<Longrightarrow>
    pipe_read_loop cnt out p evs env = Some (to_int (length out), out, p, evs, env)"
  by (subst pipe_read_loop.simps) simp

lemma pipe_read_loop_empty: "length out < cnt \<Longrightarrow> pcount p = 0 \<Longrightarrow>
    pipe_read_loop cnt out p evs [] =
      (if writers p = 0 then Some (to_int (length out), out, p, evs @ [Poll_wakeup], []) else None)"
  by (subst pipe_read_loop.simps) simp

lemma pipe_read_alone:
  assumes "pipe_inv p"
  shows "pipe_read p False cnt [] =
    (if pcount p < cnt \<and> writers p \<noteq> 0 then None
     else Some (to_int (min (pcount p) cnt), take cnt (pipe_bytes p),
       snd (ring_take p (min (pcount p) cnt)),
       (if pcount p > 0 \<and> cnt > 0 then [Wake_write_wq, Poll_wakeup] else [])
         @ (if pcount p < cnt then [Poll_wakeup] else []), []))"
proof -
  let ?n = "min (pcount p) cnt"
  obtain xs q where t: "ring_take p ?n = (xs, q)" by fastforce
  note tk = ring_take_ok [OF assms _ t]
  have "length (pipe_bytes q) = pcount p - ?n" using tk(3) by simp
  then have q: "pcount q = pcount p - ?n" by (simp only: length_pipe_bytes)
  have xs: "length xs = ?n" "xs = take cnt (pipe_bytes p)" "writers q = writers p"
    using tk by (auto simp: min_def)
  have z: "snd (ring_take p 0) = p" if "pcount p = 0 \<or> cnt = 0"
  proof -
    have "ptail p mod PIPE_SIZE = ptail p" "w32 (pcount p) = pcount p"
      using assms by (auto simp: pipe_inv_def PIPE_SIZE_def)
    then show ?thesis using assms by (simp add: ring_take_def pipe_inv_def PIPE_SIZE_def)
  qed
  show ?thesis
  proof (cases "0 < cnt \<and> 0 < pcount p")
    case False
    then show ?thesis using z
      by (auto simp: pipe_read_def pipe_read_loop_done pipe_read_loop_empty)
  next
    case True
    then have "pipe_read p False cnt [] = pipe_read_loop cnt xs q [Wake_write_wq, Poll_wakeup] []"
      using t by (simp add: pipe_read_def pipe_read_loop.simps [of cnt "[]"])
    then show ?thesis
      using xs q True t
      by (cases "pcount p < cnt") (simp_all add: pipe_read_loop_done pipe_read_loop_empty min_def)
  qed
qed

text \<open>
  with nobody else running, a blocking read returns without sleeping exactly when the pipe
  holds all the bytes asked for or has no writer left, and then delivers the oldest bytes, as
  many as there are up to the count. In particular a read of more bytes than are buffered
  sleeps although data is available.
\<close>

theorem pipe_read_blocking:
  assumes "pipe_inv p" "cnt < 2 ^ 31"
  shows "case pipe_read p False cnt [] of
      None \<Rightarrow> pcount p < cnt \<and> writers p \<noteq> 0
    | Some (r, xs, p', evs, env) \<Rightarrow> \<not> (pcount p < cnt \<and> writers p \<noteq> 0)
        \<and> r = int (min (pcount p) cnt) \<and> xs = take cnt (pipe_bytes p)
        \<and> pipe_bytes p' = drop cnt (pipe_bytes p) \<and> pipe_inv p'"
proof -
  let ?n = "min (pcount p) cnt"
  obtain ys q where t: "ring_take p ?n = (ys, q)" by fastforce
  have "pipe_inv q" "pipe_bytes q = drop cnt (pipe_bytes p)"
    using ring_take_ok [OF assms(1) _ t] by (auto simp: min_def)
  moreover have "to_int ?n = int ?n" using assms(2) by simp
  ultimately show ?thesis
    using t by (simp add: pipe_read_alone [OF assms(1)])
qed

theorem pipe_read_blocking_witness:
  "pipe_read (ring_put (pipe_create (\<lambda>_. 0)) [7]) False 2 [] = None"
proof -
  have "pipe_inv (ring_put (pipe_create (\<lambda>_. 0)) [7])"
    by (rule ring_put_ok) (simp_all, simp add: pipe_create_def PIPE_SIZE_def)
  moreover have "pcount (ring_put (pipe_create (\<lambda>_. 0)) [7]) = 1" "writers (ring_put (pipe_create (\<lambda>_. 0)) [7]) = 1"
    by (simp_all add: ring_put_def pipe_create_def)
  ultimately show ?thesis
    using pipe_read_blocking [of "ring_put (pipe_create (\<lambda>_. 0)) [7]" 2]
    by (auto split: option.splits)
qed

section \<open>Blocking writes\<close>

lemma pipe_write_loop_done: "pipe_write_loop [] written p evs env = Some (to_int written, p, evs, env)"
  by (subst pipe_write_loop.simps) simp

lemma pipe_write_loop_full: "data \<noteq> [] \<Longrightarrow> readers p \<noteq> 0 \<Longrightarrow> pcount p = PIPE_SIZE \<Longrightarrow>
    pipe_write_loop data written p evs [] = None"
  by (subst pipe_write_loop.simps) simp

lemma pipe_write_alone:
  assumes "pipe_inv p" "readers p \<noteq> 0" "data \<noteq> []"
  shows "pipe_write p (Some data) [] =
    (if pcount p + length data \<le> PIPE_SIZE
     then Some (to_int (length data), ring_put p data, [Wake_read_wq, Poll_wakeup], []) else None)"
proof (cases "pcount p = PIPE_SIZE")
  case True
  then show ?thesis using assms by (cases data) (auto simp: pipe_write_def pipe_write_loop_full)
next
  case False
  let ?n = "min (length data) (PIPE_SIZE - pcount p)"
  let ?q = "ring_put p (take ?n data)"
  have le: "pcount p < PIPE_SIZE" using False assms(1) by (simp add: pipe_inv_def)
  then have "pcount p + length (take ?n data) \<le> PIPE_SIZE" by simp
  note q = ring_put_ok [OF assms(1) this]
  have "pipe_write p (Some data) [] =
      pipe_write_loop (drop ?n data) ?n ?q [Wake_read_wq, Poll_wakeup] []"
    using assms(2,3) le
    by (simp add: pipe_write_def pipe_write_loop.simps [of data] Let_def)
  then show ?thesis
    using q le assms(2) by (auto simp: min_def pipe_write_loop_done pipe_write_loop_full)
qed

text \<open>
  with nobody else running, a blocking write of at least one byte fails with EPIPE and
  changes nothing when no reader is left; otherwise it returns without sleeping exactly when
  all the bytes fit, and then appends all of them.
\<close>

theorem pipe_write_blocking:
  assumes "pipe_inv p" "data \<noteq> []"
  shows "case pipe_write p (Some data) [] of
      None \<Rightarrow> readers p \<noteq> 0 \<and> pcount p + length data > PIPE_SIZE
    | Some (r, p', evs, env) \<Rightarrow>
        if readers p = 0 then r = - EPIPE \<and> p' = p
        else pcount p + length data \<le> PIPE_SIZE \<and> r = int (length data)
          \<and> pipe_bytes p' = pipe_bytes p @ data \<and> pipe_inv p'"
proof (cases "readers p = 0")
  case True
  then show ?thesis using assms(2) by (simp add: pipe_write_def pipe_write_loop.simps [of data])
next
  case False
  show ?thesis
  proof (cases "pcount p + length data \<le> PIPE_SIZE")
    case True
    then have "to_int (length data) = int (length data)" by (simp add: PIPE_SIZE_def)
    then show ?thesis
      using False True ring_put_ok [OF assms(1) True]
      by (simp add: pipe_write_alone [OF assms(1) False assms(2)])
  qed (simp add: pipe_write_alone [OF assms(1) False assms(2)] False)
qed

theorem pipe_write_blocking_witness:
  "case pipe_write (pipe_create (\<lambda>_. 0)) (Some [1, 2]) [] of
     None \<Rightarrow> False | Some (r, p', evs, env) \<Rightarrow> r = 2 \<and> pipe_bytes p' = [1, 2]"
proof -
  have "readers (pipe_create (\<lambda>_. 0)) = 1" "pcount (pipe_create (\<lambda>_. 0)) = 0"
    by (simp_all add: pipe_create_def)
  then show ?thesis
    using pipe_write_blocking [OF pipe_create_ok(1) [of "\<lambda>_. 0"], of "[1, 2]"]
    by (auto simp: PIPE_SIZE_def split: option.splits)
qed

section \<open>Life time\<close>

text \<open>Any order of releasing the ends.\<close>

fun release_ends :: "pipe \<Rightarrow> bool list \<Rightarrow> pipe \<times> pipe_event list" where
  "release_ends p [] = (p, [])"
| "release_ends p (read_end # es) =
     (let (p, evs) = (if read_end then pipe_read_release p else pipe_write_release p);
          (p, evs') = release_ends p es
      in (p, evs @ evs'))"

lemma count_ends: "count_list es True + count_list es False = length es"
  by (induction es) (auto split: if_splits)

lemma release_ends_freed:
  "count_list es True \<le> readers p \<Longrightarrow> count_list es False \<le> writers p \<Longrightarrow> readers p + writers p > 0 \<Longrightarrow>
   (Pipe_freed \<in> set (snd (release_ends p es)) \<longleftrightarrow> length es = readers p + writers p)
    \<and> readers (fst (release_ends p es)) = readers p - count_list es True
    \<and> writers (fst (release_ends p es)) = writers p - count_list es False"
proof (induction es arbitrary: p)
  case (Cons e es)
  obtain q evs where r: "(if e then pipe_read_release p else pipe_write_release p) = (q, evs)" by fastforce
  then have q: "readers q = readers p - (if e then 1 else 0)" "writers q = writers p - (if e then 0 else 1)"
    "Pipe_freed \<in> set evs \<longleftrightarrow> readers q = 0 \<and> writers q = 0"
    using Cons.prems
    by (auto simp: pipe_read_release_def pipe_write_release_def Let_def split: if_splits)
  have run: "release_ends p (e # es) = (fst (release_ends q es), evs @ snd (release_ends q es))"
    using r by (simp add: case_prod_beta)
  have le1: "count_list es True \<le> readers q" using Cons.prems(1) q(1) by (cases e) auto
  have le2: "count_list es False \<le> writers q" using Cons.prems(2) q(2) by (cases e) auto
  note le = le1 le2
  have "0 < (if e then readers p else writers p)" using Cons.prems(1,2) by (cases e) auto
  then have sum: "readers q + writers q + 1 = readers p + writers p" using q(1,2) by (cases e) auto
  show ?case
  proof (cases "readers q = 0 \<and> writers q = 0")
    case True
    then have "count_list es True + count_list es False = 0" using le by simp
    then have "es = []" using count_ends [of es] by simp
    then show ?thesis unfolding run using True q sum by (cases e) simp_all
  next
    case False
    then have "readers q + writers q > 0" by simp
    note ih = Cons.IH [OF le this]
    have "Pipe_freed \<notin> set evs" using False q(3) by simp
    then show ?thesis unfolding run using ih q(1,2) sum by (cases e) (simp_all, arith+)
  qed
qed auto

text \<open>
  the pipe is freed exactly once, with its last end: releasing ends in any order, no more
  often than they were opened, frees the pipe exactly when every end has been released.
\<close>

theorem pipe_freed_last:
  assumes "count_list es True \<le> readers p" "count_list es False \<le> writers p" "readers p + writers p > 0"
  shows "Pipe_freed \<in> set (snd (release_ends p es)) \<longleftrightarrow>
    readers (fst (release_ends p es)) = 0 \<and> writers (fst (release_ends p es)) = 0"
proof -
  have "count_list es True + count_list es False = length es"
    by (rule count_ends)
  then show ?thesis using release_ends_freed [OF assms] assms by auto
qed

theorem pipe_freed_last_witness:
  "Pipe_freed \<in> set (snd (release_ends (pipe_create (\<lambda>_. 0)) [True, False]))
   \<and> Pipe_freed \<notin> set (snd (release_ends (pipe_create (\<lambda>_. 0)) [True]))"
  using pipe_freed_last [of "[True, False]" "pipe_create (\<lambda>_. 0)"] pipe_freed_last [of "[True]" "pipe_create (\<lambda>_. 0)"]
  by (simp add: pipe_create_def pipe_read_release_def pipe_write_release_def Let_def)

end
