(* ===== verification/Fifo.thy ===== *)
theory Fifo
  imports Pipe
begin

text \<open>
  Named pipes, \<^verbatim>\<open>fs/fifo.c\<close>: the registry from (file system, inode) to the shared pipe, and
  the blocking open of an end. Pipes live in a store from addresses to records, so that an
  open that sleeps while another task closes the last end meets a freed pipe in the model as
  in the code: \<open>Use_after_free\<close>. The two allocations of \<open>fifo_get_pipe\<close> are arguments.
\<close>

section \<open>Registry\<close>

record fifo_entry =
  e_fs_id :: int
  e_fs_private :: u32
  e_inode :: u32
  e_pipe :: nat

type_synonym fifo_key = "int \<times> u32 \<times> u32"

abbreviation e_key :: "fifo_entry \<Rightarrow> fifo_key" where
  "e_key e \<equiv> (e_fs_id e, e_fs_private e, e_inode e)"

record fifo_state =
  fifo_list :: "fifo_entry list"
  pipes :: "nat \<Rightarrow> pipe option"

definition fifo_init :: "fifo_state \<Rightarrow> fifo_state" where
  "fifo_init st = st\<lparr>fifo_list := []\<rparr>"

fun drop_entry :: "nat \<Rightarrow> fifo_entry list \<Rightarrow> fifo_entry list" where
  "drop_entry p [] = []"
| "drop_entry p (e # es) = (if e_pipe e = p then es else e # drop_entry p es)"

definition fifo_pipe_destroyed :: "fifo_state \<Rightarrow> nat \<Rightarrow> fifo_state" where
  "fifo_pipe_destroyed st p = st\<lparr>fifo_list := drop_entry p (fifo_list st)\<rparr>"

definition fifo_lookup :: "fifo_state \<Rightarrow> fifo_key \<Rightarrow> fifo_entry option" where
  "fifo_lookup st k = find (\<lambda>e. e_key e = k) (fifo_list st)"

text \<open>\<open>entry_ok\<close>: the entry can be allocated; \<open>fresh\<close>: the address \<^verbatim>\<open>pipe_create\<close> gets, if any.\<close>

definition fifo_get_pipe :: "fifo_state \<Rightarrow> fifo_key \<Rightarrow> bool \<Rightarrow> nat option \<Rightarrow> nat option \<times> fifo_state" where
  "fifo_get_pipe st k entry_ok fresh =
     (case fifo_lookup st k of
        Some e \<Rightarrow> (Some (e_pipe e), st)
      | None \<Rightarrow>
          if \<not> entry_ok then (None, st)
          else (case fresh of
              None \<Rightarrow> (None, st)
            | Some a \<Rightarrow>
                let p = (pipe_create (\<lambda>_. 0))\<lparr>on_destroy := True, readers := 0, writers := 0\<rparr>;
                    e = (case k of (i, f, n) \<Rightarrow>
                      \<lparr>e_fs_id = i, e_fs_private = f, e_inode = n, e_pipe = a\<rparr>)
                in (Some a, st\<lparr>fifo_list := fifo_list st @ [e], pipes := (pipes st)(a \<mapsto> p)\<rparr>)))"

section \<open>Opening an end\<close>

datatype fifo_result =
    Returned int fifo_state "pipe_event list"
  | Asleep fifo_state "pipe_event list"
  | Use_after_free fifo_state

type_synonym fifo_env = "((fifo_state \<Rightarrow> fifo_state) \<times> bool) list"

abbreviation upd_pipe :: "fifo_state \<Rightarrow> nat \<Rightarrow> pipe \<Rightarrow> fifo_state" where
  "upd_pipe st a p \<equiv> st\<lparr>pipes := (pipes st)(a \<mapsto> p)\<rparr>"

text \<open>The wait of a writer, and its registration.\<close>

fun fifo_wait_reader :: "nat \<Rightarrow> u32 \<Rightarrow> fifo_state \<Rightarrow> fifo_env \<Rightarrow> fifo_result" where
  "fifo_wait_reader a flags st env =
     (case pipes st a of
        None \<Rightarrow> Use_after_free st
      | Some p \<Rightarrow>
          if readers p > 0
          then Returned 0 (upd_pipe st a (p\<lparr>writers := writers p + 1\<rparr>)) [Wake_open_wq]
          else if flags AND O_NONBLOCK \<noteq> 0 then Returned (- ENXIO) st [Wake_open_wq]
          else (case env of
              [] \<Rightarrow> Asleep st []
            | (others, pending) # env \<Rightarrow>
                let st = others st in
                if pending then
                  (case pipes st a of
                     None \<Rightarrow> Use_after_free st
                   | Some _ \<Rightarrow> Returned (- EINTR) st [Wake_open_wq])
                else fifo_wait_reader a flags st env))"

declare fifo_wait_reader.simps [simp del]

text \<open>The wait of a reader, which has registered itself already.\<close>

fun fifo_wait_writer :: "nat \<Rightarrow> u32 \<Rightarrow> fifo_state \<Rightarrow> pipe_event list \<Rightarrow> fifo_env \<Rightarrow> fifo_result" where
  "fifo_wait_writer a flags st evs env =
     (case pipes st a of
        None \<Rightarrow> Use_after_free st
      | Some p \<Rightarrow>
          if writers p > 0 \<or> pcount p > 0 then Returned 0 st (evs @ [Wake_open_wq])
          else if flags AND O_NONBLOCK \<noteq> 0 then Returned 0 st (evs @ [Wake_open_wq])
          else (case env of
              [] \<Rightarrow> Asleep st evs
            | (others, pending) # env \<Rightarrow>
                let st = others st in
                (case pipes st a of
                   None \<Rightarrow> Use_after_free st
                 | Some p \<Rightarrow>
                     if writers p > 0 \<or> pcount p > 0 then Returned 0 st (evs @ [Wake_open_wq])
                     else if pending then
                       Returned (- EINTR) (upd_pipe st a (p\<lparr>readers := readers p - 1\<rparr>)) (evs @ [Wake_open_wq])
                     else fifo_wait_writer a flags st evs env)))"

declare fifo_wait_writer.simps [simp del]

definition fifo_open_end :: "fifo_state \<Rightarrow> fifo_key \<Rightarrow> u32 \<Rightarrow> bool \<Rightarrow> nat option \<Rightarrow> fifo_env \<Rightarrow> fifo_result" where
  "fifo_open_end st k flags entry_ok fresh env =
     (case fifo_get_pipe st k entry_ok fresh of
        (None, st) \<Rightarrow> Returned (- ENOMEM) st []
      | (Some a, st) \<Rightarrow>
          (case pipes st a of
             None \<Rightarrow> Use_after_free st
           | Some p \<Rightarrow>
               if flags AND O_ACCMODE = O_RDWR then
                 Returned 0 (upd_pipe st a (p\<lparr>readers := readers p + 1, writers := writers p + 1\<rparr>)) [Wake_open_wq]
               else if flags AND O_ACCMODE = O_WRONLY then fifo_wait_reader a flags st env
               else fifo_wait_writer a flags (upd_pipe st a (p\<lparr>readers := readers p + 1\<rparr>)) [Wake_open_wq] env))"

text \<open>
  Closing an end: \<^verbatim>\<open>pipe_read_release\<close> or \<^verbatim>\<open>pipe_write_release\<close> with their destruction hook
  and the release of the memory carried out on the registry and the store.
\<close>

definition fifo_close_end :: "fifo_state \<Rightarrow> nat \<Rightarrow> bool \<Rightarrow> fifo_state" where
  "fifo_close_end st a read_end =
     (case pipes st a of
        None \<Rightarrow> st
      | Some p \<Rightarrow>
          let (p, evs) = (if read_end then pipe_read_release p else pipe_write_release p);
              st = (if Destroy_hook \<in> set evs then fifo_pipe_destroyed st a else st)
          in if Pipe_freed \<in> set evs then st\<lparr>pipes := (pipes st)(a := None)\<rparr> else upd_pipe st a p)"

section \<open>Well-formed registries\<close>

definition fifo_inv :: "fifo_state \<Rightarrow> bool" where
  "fifo_inv st \<longleftrightarrow> distinct (map e_key (fifo_list st)) \<and> distinct (map e_pipe (fifo_list st))
     \<and> (\<forall>a. a \<in> e_pipe ` set (fifo_list st) \<longleftrightarrow> (\<exists>p. pipes st a = Some p \<and> on_destroy p))"

lemma drop_entry_set: "distinct (map e_pipe es) \<Longrightarrow> set (drop_entry a es) = {e \<in> set es. e_pipe e \<noteq> a}"
  by (induction es) (auto simp: image_iff)

lemma drop_entry_distinct: "distinct (map f es) \<Longrightarrow> distinct (map f (drop_entry a es))"
proof (induction es)
  case (Cons e es)
  have "set (drop_entry a es) \<subseteq> set es" by (induction es) auto
  then show ?case using Cons by (auto simp: image_iff)
qed simp

lemma fifo_lookup_Some: "fifo_lookup st k = Some e \<Longrightarrow> e \<in> set (fifo_list st) \<and> e_key e = k"
  by (auto simp: fifo_lookup_def find_Some_iff in_set_conv_nth)

lemma fifo_lookup_None: "fifo_lookup st k = None \<longleftrightarrow> k \<notin> e_key ` set (fifo_list st)"
  by (auto simp: fifo_lookup_def find_None_iff)

lemma fifo_lookup_eq:
  assumes "fifo_inv st" "e \<in> set (fifo_list st)"
  shows "fifo_lookup st (e_key e) = Some e"
proof (cases "fifo_lookup st (e_key e)")
  case None
  then show ?thesis using assms(2) by (auto simp: fifo_lookup_None)
next
  case (Some f)
  have "inj_on e_key (set (fifo_list st))" using assms(1) by (simp add: fifo_inv_def distinct_map)
  then show ?thesis using fifo_lookup_Some [OF Some] Some assms(2) by (auto dest: inj_onD)
qed

lemma fifo_upd_pipe_inv:
  "fifo_inv st \<Longrightarrow> pipes st a = Some p \<Longrightarrow> on_destroy q = on_destroy p \<Longrightarrow> fifo_inv (upd_pipe st a q)"
  unfolding fifo_inv_def by auto

definition new_fifo_entry :: "fifo_key \<Rightarrow> nat \<Rightarrow> fifo_entry" where
  "new_fifo_entry k a = \<lparr>e_fs_id = fst k, e_fs_private = fst (snd k), e_inode = snd (snd k), e_pipe = a\<rparr>"

definition new_fifo_pipe :: pipe where
  "new_fifo_pipe = (pipe_create (\<lambda>_. 0))\<lparr>on_destroy := True, readers := 0, writers := 0\<rparr>"

lemma new_fifo_simps [simp]:
  "e_fs_id (new_fifo_entry k a) = fst k" "e_fs_private (new_fifo_entry k a) = fst (snd k)"
  "e_inode (new_fifo_entry k a) = snd (snd k)" "e_pipe (new_fifo_entry k a) = a"
  "readers new_fifo_pipe = 0" "writers new_fifo_pipe = 0" "pcount new_fifo_pipe = 0" "on_destroy new_fifo_pipe"
  by (simp_all add: new_fifo_entry_def new_fifo_pipe_def pipe_create_def)

lemma fifo_get_pipe_cases:
  "fifo_get_pipe st k entry_ok fresh =
    (case fifo_lookup st k of
       Some e \<Rightarrow> (Some (e_pipe e), st)
     | None \<Rightarrow> if entry_ok \<and> fresh \<noteq> None
         then (fresh, st\<lparr>fifo_list := fifo_list st @ [new_fifo_entry k (the fresh)],
                          pipes := (pipes st)(the fresh \<mapsto> new_fifo_pipe)\<rparr>)
         else (None, st))"
  by (auto simp: fifo_get_pipe_def new_fifo_entry_def new_fifo_pipe_def Let_def split: option.splits prod.splits)

lemma fifo_add_inv:
  assumes "fifo_inv st" "e_key e \<notin> e_key ` set (fifo_list st)" "pipes st (e_pipe e) = None" "on_destroy p"
  shows "fifo_inv (st\<lparr>fifo_list := fifo_list st @ [e], pipes := (pipes st)(e_pipe e \<mapsto> p)\<rparr>)"
proof -
  have "e_pipe e \<notin> e_pipe ` set (fifo_list st)" using assms(1,3) unfolding fifo_inv_def by auto
  then show ?thesis using assms unfolding fifo_inv_def by (auto simp: image_iff)
qed

lemma fifo_get_pipe_inv:
  assumes "fifo_inv st" "fifo_get_pipe st k entry_ok fresh = (r, st')" "\<And>a. fresh = Some a \<Longrightarrow> pipes st a = None"
  shows "fifo_inv st'"
proof (cases "fifo_lookup st k")
  case None
  then have "e_key (new_fifo_entry k a) \<notin> e_key ` set (fifo_list st)" for a
    by (simp add: fifo_lookup_None)
  then show ?thesis
    using assms fifo_add_inv [OF assms(1), of "new_fifo_entry k (the fresh)" new_fifo_pipe] None
    by (auto simp: fifo_get_pipe_cases split: if_splits)
qed (use assms in \<open>simp add: fifo_get_pipe_cases\<close>)

lemma fifo_wait_reader_inv:
  "fifo_inv st \<Longrightarrow> \<forall>(others, _) \<in> set env. \<forall>st. fifo_inv st \<longrightarrow> fifo_inv (others st) \<Longrightarrow>
    case fifo_wait_reader a flags st env of
      Returned r st' evs \<Rightarrow> fifo_inv st' | Asleep st' evs \<Rightarrow> fifo_inv st' | Use_after_free st' \<Rightarrow> fifo_inv st'"
proof (induction env arbitrary: st)
  case Nil
  then show ?case
    by (subst fifo_wait_reader.simps) (auto split: option.splits intro: fifo_upd_pipe_inv)
next
  case (Cons x env)
  obtain others pending where x: "x = (others, pending)" by fastforce
  have inv: "fifo_inv (others st)" using Cons.prems x by auto
  show ?case
    using Cons.IH [OF inv] Cons.prems inv
    by (subst fifo_wait_reader.simps) (auto simp: x Let_def split: option.splits intro: fifo_upd_pipe_inv)
qed

lemma fifo_wait_writer_inv:
  "fifo_inv st \<Longrightarrow> \<forall>(others, _) \<in> set env. \<forall>st. fifo_inv st \<longrightarrow> fifo_inv (others st) \<Longrightarrow>
    case fifo_wait_writer a flags st evs env of
      Returned r st' evs \<Rightarrow> fifo_inv st' | Asleep st' evs \<Rightarrow> fifo_inv st' | Use_after_free st' \<Rightarrow> fifo_inv st'"
proof (induction env arbitrary: st)
  case Nil
  then show ?case
    by (subst fifo_wait_writer.simps) (auto split: option.splits intro: fifo_upd_pipe_inv)
next
  case (Cons x env)
  obtain others pending where x: "x = (others, pending)" by fastforce
  have inv: "fifo_inv (others st)" using Cons.prems x by auto
  show ?case
    using Cons.IH [OF inv] Cons.prems inv
    by (subst fifo_wait_writer.simps) (auto simp: x Let_def split: option.splits intro: fifo_upd_pipe_inv)
qed

lemma fifo_open_end_inv:
  assumes "fifo_inv st" "\<And>a. fresh = Some a \<Longrightarrow> pipes st a = None"
    "\<forall>(others, _) \<in> set env. \<forall>st. fifo_inv st \<longrightarrow> fifo_inv (others st)"
  shows "case fifo_open_end st k flags entry_ok fresh env of
    Returned r st' evs \<Rightarrow> fifo_inv st' | Asleep st' evs \<Rightarrow> fifo_inv st' | Use_after_free st' \<Rightarrow> fifo_inv st'"
proof -
  obtain r t where g: "fifo_get_pipe st k entry_ok fresh = (r, t)" by fastforce
  have t: "fifo_inv t" using fifo_get_pipe_inv [OF assms(1) g assms(2)] .
  show ?thesis
  proof (cases r)
    case (Some a)
    note rd = fifo_wait_reader_inv [OF t assms(3), of a flags]
    show ?thesis
    proof (cases "pipes t a")
      case p: (Some p)
      have "fifo_inv (upd_pipe t a (p\<lparr>readers := readers p + 1\<rparr>))"
        using t p by (rule fifo_upd_pipe_inv) simp
      note wr = fifo_wait_writer_inv [OF this assms(3), of a flags "[Wake_open_wq]"]
      show ?thesis using rd wr t p Some g
        by (auto simp: fifo_open_end_def intro: fifo_upd_pipe_inv)
    qed (simp add: fifo_open_end_def g Some t)
  qed (simp add: fifo_open_end_def g t)
qed

lemma release_hook:
  "Destroy_hook \<in> set (snd (if read_end then pipe_read_release p else pipe_write_release p)) \<longleftrightarrow>
    Pipe_freed \<in> set (snd (if read_end then pipe_read_release p else pipe_write_release p)) \<and> on_destroy p"
  "on_destroy (fst (if read_end then pipe_read_release p else pipe_write_release p)) = on_destroy p"
  by (auto simp: pipe_read_release_def pipe_write_release_def Let_def)

lemma fifo_close_end_inv:
  assumes "fifo_inv st"
  shows "fifo_inv (fifo_close_end st a read_end)"
proof (cases "pipes st a")
  case (Some p)
  obtain q evs where r: "(if read_end then pipe_read_release p else pipe_write_release p) = (q, evs)"
    by fastforce
  have hook: "Destroy_hook \<in> set evs \<longleftrightarrow> Pipe_freed \<in> set evs \<and> on_destroy p" "on_destroy q = on_destroy p"
    using release_hook [of read_end p] r by simp_all
  have close: "fifo_close_end st a read_end =
      (let st = (if Destroy_hook \<in> set evs then fifo_pipe_destroyed st a else st)
       in if Pipe_freed \<in> set evs then st\<lparr>pipes := (pipes st)(a := None)\<rparr> else upd_pipe st a q)"
    by (simp add: fifo_close_end_def Some r)
  consider "Pipe_freed \<notin> set evs" | "Pipe_freed \<in> set evs" "on_destroy p" | "Pipe_freed \<in> set evs" "\<not> on_destroy p"
    by blast
  then show ?thesis
  proof cases
    case 1
    then show ?thesis using assms Some hook by (auto simp: close intro: fifo_upd_pipe_inv)
  next
    case 2
    have d: "distinct (map e_pipe (fifo_list st))" "distinct (map e_key (fifo_list st))"
      using assms by (simp_all add: fifo_inv_def)
    have "e_pipe ` set (drop_entry a (fifo_list st)) = e_pipe ` set (fifo_list st) - {a}"
      unfolding drop_entry_set [OF d(1)] by auto
    then show ?thesis
      using assms 2 d by (auto simp: close hook fifo_pipe_destroyed_def fifo_inv_def drop_entry_distinct)
  next
    case 3
    then show ?thesis using assms Some unfolding fifo_inv_def by (auto simp: close hook)
  qed
qed (simp add: fifo_close_end_def assms)

text \<open>
  C37: the registry stays consistent. Opening an end (against any environment that itself keeps
  the registry consistent) and closing one preserve that no two entries share a key or a pipe and
  that the registered pipes are exactly the live FIFO pipes, so a destroyed pipe is never left in
  the registry and a live one is never lost.
\<close>

theorem fifo_registry_consistent:
  assumes "fifo_inv st" "\<And>a. fresh = Some a \<Longrightarrow> pipes st a = None"
    "\<forall>(others, _) \<in> set env. \<forall>st. fifo_inv st \<longrightarrow> fifo_inv (others st)"
  shows "fifo_inv (fifo_close_end st b read_end) \<and>
    (case fifo_open_end st k flags entry_ok fresh env of
      Returned r st' evs \<Rightarrow> fifo_inv st' | Asleep st' evs \<Rightarrow> fifo_inv st' | Use_after_free st' \<Rightarrow> fifo_inv st')"
  using fifo_open_end_inv [OF assms] fifo_close_end_inv [OF assms(1)] by blast

theorem fifo_registry_consistent_witness:
  "case fifo_open_end \<lparr>fifo_list = [], pipes = \<lambda>_. None\<rparr> (1, 2, 3) O_RDWR True (Some 9) [] of
     Returned r st' evs \<Rightarrow> fifo_inv st' | Asleep st' evs \<Rightarrow> False | Use_after_free st' \<Rightarrow> False"
proof -
  let ?st = "\<lparr>fifo_list = [], pipes = \<lambda>_. None\<rparr>"
  have "fifo_inv ?st" by (simp add: fifo_inv_def)
  from fifo_registry_consistent [OF this, of "Some 9" "[]" 0 True "(1, 2, 3)" O_RDWR True]
  show ?thesis
    by (simp add: fifo_open_end_def fifo_get_pipe_cases fifo_lookup_def O_RDWR_def O_ACCMODE_def)
qed

section \<open>Two opens of one FIFO\<close>

lemma access_modes [simp]:
  "O_RDONLY AND O_ACCMODE = O_RDONLY" "O_WRONLY AND O_ACCMODE = O_WRONLY" "O_RDONLY \<noteq> O_RDWR" "O_RDONLY \<noteq> O_WRONLY"
  "O_WRONLY \<noteq> O_RDWR" "O_RDONLY AND O_NONBLOCK = 0" "O_WRONLY AND O_NONBLOCK = 0"
  "(O_RDONLY OR O_NONBLOCK) AND O_ACCMODE = O_RDONLY" "O_NONBLOCK \<noteq> 0"
  by (simp_all add: O_RDONLY_def O_WRONLY_def O_RDWR_def O_ACCMODE_def O_NONBLOCK_def)

lemma fifo_get_pipe_again:
  assumes "fifo_inv st" "fifo_get_pipe st k entry_ok fresh = (Some a, st')" "\<And>b. fresh = Some b \<Longrightarrow> pipes st b = None"
  shows "\<exists>e p. fifo_lookup st' k = Some e \<and> e_pipe e = a \<and> pipes st' a = Some p"
proof (cases "fifo_lookup st k")
  case None
  then show ?thesis using assms(2)
    by (auto simp: fifo_get_pipe_cases fifo_lookup_def find_snoc split: if_splits option.splits)
next
  case (Some e)
  then have "e_pipe e \<in> e_pipe ` set (fifo_list st)" using fifo_lookup_Some by blast
  then show ?thesis using Some assms(1,2) unfolding fifo_inv_def by (auto simp: fifo_get_pipe_cases)
qed

text \<open>
  the simultaneous open does not deadlock. When a reader's open of a FIFO with no writer and
  no data goes to sleep, a writer's open of the same FIFO that runs meanwhile succeeds at once and
  wakes the openers, and the reader's open then succeeds too, whether or not a signal is pending.
\<close>

theorem fifo_rendezvous:
  assumes "fifo_open_end st k O_RDONLY entry_ok fresh [] = Asleep st1 evs1"
    "fifo_inv st" "\<And>a. fresh = Some a \<Longrightarrow> pipes st a = None"
  shows "\<exists>st2. fifo_open_end st1 k O_WRONLY entry_ok' fresh' [] = Returned 0 st2 [Wake_open_wq] \<and>
    fifo_open_end st k O_RDONLY entry_ok fresh [(\<lambda>_. st2, pending)] = Returned 0 st2 (evs1 @ [Wake_open_wq])"
proof -
  obtain a t where g: "fifo_get_pipe st k entry_ok fresh = (Some a, t)"
    using assms(1) by (auto simp: fifo_open_end_def split: prod.splits option.splits)
  obtain e p where e: "fifo_lookup t k = Some e" "e_pipe e = a" "pipes t a = Some p"
    using fifo_get_pipe_again [OF assms(2) g assms(3)] by blast
  define q where "q = p\<lparr>readers := readers p + 1\<rparr>"
  have open_eq: "fifo_open_end st k O_RDONLY entry_ok fresh env = fifo_wait_writer a O_RDONLY (upd_pipe t a q) [Wake_open_wq] env" for env
    by (simp add: fifo_open_end_def g e q_def)
  have asleep: "st1 = upd_pipe t a q" "evs1 = [Wake_open_wq]" "writers q = 0" "pcount q = 0"
    using assms(1) unfolding open_eq by (subst (asm) fifo_wait_writer.simps, simp split: if_splits)+
  have k: "fifo_lookup st1 k = Some e" using e(1) by (simp add: asleep(1) fifo_lookup_def)
  define st2 where "st2 = upd_pipe st1 a (q\<lparr>writers := writers q + 1\<rparr>)"
  have "fifo_open_end st1 k O_WRONLY entry_ok' fresh' [] = Returned 0 st2 [Wake_open_wq]"
    using k e(2) asleep(1)
    by (simp add: fifo_open_end_def fifo_get_pipe_cases fifo_wait_reader.simps st2_def q_def)
  moreover have "fifo_open_end st k O_RDONLY entry_ok fresh [(\<lambda>_. st2, pending)] = Returned 0 st2 (evs1 @ [Wake_open_wq])"
    unfolding open_eq by (subst fifo_wait_writer.simps) (simp add: asleep(2-4) st2_def)
  ultimately show ?thesis by blast
qed

theorem fifo_rendezvous_witness:
  "\<exists>st1 evs1 st2. fifo_open_end \<lparr>fifo_list = [], pipes = \<lambda>_. None\<rparr> (1, 2, 3) O_RDONLY True (Some 9) [] = Asleep st1 evs1
    \<and> fifo_open_end st1 (1, 2, 3) O_WRONLY True None [] = Returned 0 st2 [Wake_open_wq]"
proof -
  let ?st = "\<lparr>fifo_list = [], pipes = \<lambda>_. None\<rparr>"
  obtain st1 evs1 where a: "fifo_open_end ?st (1, 2, 3) O_RDONLY True (Some 9) [] = Asleep st1 evs1"
    by (simp add: fifo_open_end_def fifo_get_pipe_cases fifo_lookup_def fifo_wait_writer.simps)
  have "fifo_inv ?st" by (simp add: fifo_inv_def)
  then show ?thesis using a fifo_rendezvous [OF a, of True None] by auto
qed

text \<open>
  a blocked writer's open can be left with a freed pipe. While the open sleeps on a FIFO
  that nobody has open, another task opens it for reading without blocking (which succeeds and
  wakes the writer) and closes it again before the writer runs: the close frees the pipe, and the
  writer goes on with the freed one.
\<close>

theorem fifo_open_use_after_free:
  assumes "fifo_inv st" "fifo_lookup st k = Some e" "pipes st (e_pipe e) = Some p" "readers p = 0" "writers p = 0"
  shows "let others = (\<lambda>st. case fifo_open_end st k (O_RDONLY OR O_NONBLOCK) True None [] of
        Returned r st' evs \<Rightarrow> fifo_close_end st' (e_pipe e) True | _ \<Rightarrow> st)
    in \<exists>st'. fifo_open_end st k O_WRONLY True None [(others, pending)] = Use_after_free st'"
proof -
  let ?a = "e_pipe e"
  define others where "others = (\<lambda>st. case fifo_open_end st k (O_RDONLY OR O_NONBLOCK) True None [] of
        Returned r st' evs \<Rightarrow> fifo_close_end st' ?a True | _ \<Rightarrow> st)"
  obtain evs where reader: "fifo_open_end st k (O_RDONLY OR O_NONBLOCK) True None [] =
      Returned 0 (upd_pipe st ?a (p\<lparr>readers := 1\<rparr>)) evs"
    using assms by (cases "pcount p > 0") (simp_all add: fifo_open_end_def fifo_get_pipe_cases fifo_wait_writer.simps)
  have "pipes (others st) ?a = None"
    using assms(5)
    by (simp add: others_def reader fifo_close_end_def pipe_read_release_def Let_def fifo_pipe_destroyed_def)
  moreover have "fifo_open_end st k O_WRONLY True None [(others, pending)] =
      fifo_wait_reader ?a O_WRONLY st [(others, pending)]"
    using assms by (simp add: fifo_open_end_def fifo_get_pipe_cases)
  ultimately have "fifo_open_end st k O_WRONLY True None [(others, pending)] = Use_after_free (others st)"
    using assms(3,4) fifo_wait_reader.simps [of ?a O_WRONLY "others st" "[]"]
    by (subst (asm) fifo_wait_reader.simps) (auto simp: fifo_wait_reader.simps Let_def)
  then show ?thesis unfolding Let_def others_def [symmetric] by blast
qed

theorem fifo_open_use_after_free_witness:
  "let st = \<lparr>fifo_list = [new_fifo_entry (1, 2, 3) 9], pipes = [9 \<mapsto> new_fifo_pipe]\<rparr>;
       others = (\<lambda>st. case fifo_open_end st (1, 2, 3) (O_RDONLY OR O_NONBLOCK) True None [] of
        Returned r st' evs \<Rightarrow> fifo_close_end st' 9 True | _ \<Rightarrow> st)
   in \<exists>st'. fifo_open_end st (1, 2, 3) O_WRONLY True None [(others, False)] = Use_after_free st'"
proof -
  let ?st = "\<lparr>fifo_list = [new_fifo_entry (1, 2, 3) 9], pipes = [9 \<mapsto> new_fifo_pipe]\<rparr>"
  have "fifo_inv ?st" "fifo_lookup ?st (1, 2, 3) = Some (new_fifo_entry (1, 2, 3) 9)"
    by (auto simp: fifo_inv_def fifo_lookup_def)
  from fifo_open_use_after_free [OF this, of new_fifo_pipe False] show ?thesis
    by (simp only: Let_def new_fifo_simps) (simp add: new_fifo_pipe_def pipe_create_def)
qed

end
