(* ===== verification/Block_Cache.thy ===== *)
theory Block_Cache
  imports Scepter_Prelude
begin

text \<open>
  The block layer: the device registry and the block transfer functions of
  \<^verbatim>\<open>driver/block/block.c\<close> on top of the LRU cache of \<^verbatim>\<open>driver/block/cache.c\<close>. The two call
  each other: \<^verbatim>\<open>bwrite\<close> inserts into the cache, an insertion may evict a dirty block, and the
  eviction writes the block back with \<^verbatim>\<open>bwrite\<close>. The cache list is the list of its entries from
  most to least recently used; an entry is identified by its key, as \<^verbatim>\<open>find_entry\<close> does. A block
  is the list of its bytes. What is behind a device's function pointers is a parameter: functions
  on a hardware state that do not use the block layer themselves (the disk drivers, not the
  partition devices). \<open>allocs\<close> says how the next calls of \<^verbatim>\<open>kalloc\<close> end, success when used up.
\<close>

section \<open>State\<close>

definition CACHE_BLOCK_SIZE :: nat where "CACHE_BLOCK_SIZE = 512"
definition CACHE_MAX_ENTRIES :: nat where "CACHE_MAX_ENTRIES = 64"
definition MAX_BLOCK_DEVICES :: nat where "MAX_BLOCK_DEVICES = 16"

type_synonym block = "u8 list"
type_synonym block_key = "int \<times> int \<times> u32"

record cache_entry =
  c_key :: block_key
  c_data :: block
  c_dirty :: bool

record 'd block_ops =
  op_read :: "('d \<Rightarrow> block_key \<Rightarrow> int \<times> block \<times> 'd) option"
  op_write :: "('d \<Rightarrow> block_key \<Rightarrow> block \<Rightarrow> int \<times> 'd) option"
  op_ioctl :: "('d \<Rightarrow> int \<Rightarrow> int \<Rightarrow> u32 \<Rightarrow> u32 \<Rightarrow> int \<times> 'd) option"
  op_mmap :: "(int \<Rightarrow> u32 \<Rightarrow> int \<times> u32) option"

record 'd block_device =
  d_prim_id :: int
  d_ops :: "'d block_ops"
  d_in_use :: bool

record 'd block_state =
  lru_list :: "cache_entry list"
  num_entries :: nat
  stat_hits :: nat
  stat_misses :: nat
  block_devices :: "'d block_device list"
  hw :: 'd
  allocs :: "bool list"

section \<open>Device registry\<close>

definition find_block_device :: "'d block_state \<Rightarrow> int \<Rightarrow> 'd block_device option" where
  "find_block_device st prim = find (\<lambda>d. d_in_use d \<and> d_prim_id d = prim) (take MAX_BLOCK_DEVICES (block_devices st))"

fun claim_slot :: "int \<Rightarrow> 'd block_ops \<Rightarrow> 'd block_device list \<Rightarrow> 'd block_device list option" where
  "claim_slot prim ops [] = None"
| "claim_slot prim ops (d # ds) =
     (if \<not> d_in_use d then Some (\<lparr>d_prim_id = prim, d_ops = ops, d_in_use = True\<rparr> # ds)
      else map_option ((#) d) (claim_slot prim ops ds))"

definition register_block_device :: "'d block_state \<Rightarrow> int \<Rightarrow> 'd block_ops option \<Rightarrow> int \<times> 'd block_state" where
  "register_block_device st prim ops =
     (case ops of
        None \<Rightarrow> (-1, st)
      | Some ops \<Rightarrow>
          if prim < 0 \<or> prim > 255 then (-1, st)
          else if find_block_device st prim \<noteq> None then (-1, st)
          else (case claim_slot prim ops (block_devices st) of
              None \<Rightarrow> (-1, st)
            | Some ds \<Rightarrow> (0, st\<lparr>block_devices := ds\<rparr>)))"

section \<open>The cache list\<close>

definition cache_init :: "'d block_state \<Rightarrow> 'd block_state" where
  "cache_init st = st\<lparr>lru_list := [], num_entries := 0, stat_hits := 0, stat_misses := 0\<rparr>"

definition find_entry :: "'d block_state \<Rightarrow> block_key \<Rightarrow> cache_entry option" where
  "find_entry st k = find (\<lambda>e. c_key e = k) (lru_list st)"

fun unlink_entry :: "block_key \<Rightarrow> cache_entry list \<Rightarrow> cache_entry list" where
  "unlink_entry k [] = []"
| "unlink_entry k (e # es) = (if c_key e = k then es else e # unlink_entry k es)"

text \<open>\<^verbatim>\<open>list_move\<close> of an entry, with its new contents, to the most recently used position.\<close>

definition promote :: "cache_entry \<Rightarrow> 'd block_state \<Rightarrow> 'd block_state" where
  "promote e st = st\<lparr>lru_list := e # unlink_entry (c_key e) (lru_list st)\<rparr>"

definition pop_alloc :: "'d block_state \<Rightarrow> bool \<times> 'd block_state" where
  "pop_alloc st = (case allocs st of [] \<Rightarrow> (True, st) | b # bs \<Rightarrow> (b, st\<lparr>allocs := bs\<rparr>))"

definition cache_lookup :: "'d block_state \<Rightarrow> block_key \<Rightarrow> int \<times> block \<times> 'd block_state" where
  "cache_lookup st k =
     (case find_entry st k of
        Some e \<Rightarrow> (1, c_data e, promote e (st\<lparr>stat_hits := w32 (stat_hits st + 1)\<rparr>))
      | None \<Rightarrow> (0, [], st\<lparr>stat_misses := w32 (stat_misses st + 1)\<rparr>))"

section \<open>Writing through, inserting and evicting\<close>

abbreviation cached :: "'d block_state \<Rightarrow> block_key \<Rightarrow> bool" where
  "cached st k \<equiv> k \<in> c_key ` set (lru_list st)"

lemma find_entry_None: "find_entry st k = None \<longleftrightarrow> \<not> cached st k"
  by (auto simp: find_entry_def find_None_iff)

definition clean_entry :: "block_key \<Rightarrow> cache_entry \<Rightarrow> cache_entry" where
  "clean_entry k e = (if c_key e = k then e\<lparr>c_dirty := False\<rparr> else e)"

text \<open>
  The recursion ends because the block written back is a cached one: its insertion finds it.
\<close>

definition write_weight :: "'d block_state \<Rightarrow> int \<Rightarrow> int \<Rightarrow> block list \<Rightarrow> u32 \<Rightarrow> nat" where
  "write_weight st prim scnd bs offset =
     (case bs of [] \<Rightarrow> 0 | [b] \<Rightarrow> if cached st (prim, scnd, offset) then 1 else 9 | _ \<Rightarrow> 7 + 2 * length bs)"

lemma write_weight_simps [simp]:
  "write_weight st prim scnd [] offset = 0"
  "write_weight st prim scnd [b] offset = (if cached st (prim, scnd, offset) then 1 else 9)"
  "write_weight st prim scnd (b # c # bs) offset = 11 + 2 * length bs"
  by (simp_all add: write_weight_def)

lemma write_weight_Cons: "write_weight st prim scnd bs offset < write_weight st' prim scnd (b # bs) offset'"
  by (cases bs rule: remdups_adj.cases) auto

lemma insert_weight:
  "(if cached st k then 0 else 5) < write_weight st prim scnd (b # bs) offset" if "k = (prim, scnd, offset)"
  by (cases bs) (use that in auto)

function cache_insert :: "'d block_state \<Rightarrow> block_key \<Rightarrow> block \<Rightarrow> int \<times> 'd block_state"
  and evict_lru :: "'d block_state \<Rightarrow> int \<times> 'd block_state"
  and writeback_entry :: "'d block_state \<Rightarrow> cache_entry \<Rightarrow> int \<times> 'd block_state"
  and bwrite :: "'d block_state \<Rightarrow> int \<Rightarrow> int \<Rightarrow> block list \<Rightarrow> u32 \<Rightarrow> int \<times> 'd block_state"
  and bwrite_loop :: "('d \<Rightarrow> block_key \<Rightarrow> block \<Rightarrow> int \<times> 'd) \<Rightarrow> 'd block_state \<Rightarrow> int \<Rightarrow> int \<Rightarrow> block list
    \<Rightarrow> u32 \<Rightarrow> nat \<Rightarrow> int \<times> 'd block_state" where
  "cache_insert st k data =
     (case find_entry st k of
        Some e \<Rightarrow> (0, promote (e\<lparr>c_data := data\<rparr>) st)
      | None \<Rightarrow>
          (case (if num_entries st \<ge> CACHE_MAX_ENTRIES then evict_lru st else (0, st)) of
            (r, st) \<Rightarrow>
              if r < 0 then (-1, st)
              else (case pop_alloc st of (ok, st) \<Rightarrow>
                if \<not> ok then (-1, st)
                else (case pop_alloc st of (ok, st) \<Rightarrow>
                  if \<not> ok then (-1, st)
                  else (0, st\<lparr>lru_list := \<lparr>c_key = k, c_data = data, c_dirty = False\<rparr> # lru_list st,
                              num_entries := w32 (num_entries st + 1)\<rparr>)))))"
| "evict_lru st =
     (if lru_list st = [] then (-1, st)
      else
        let victim = last (lru_list st);
            st = (if c_dirty victim then snd (writeback_entry st victim) else st)
        in (0, st\<lparr>lru_list := unlink_entry (c_key victim) (lru_list st),
                  num_entries := sub32 (num_entries st) 1\<rparr>))"
| "writeback_entry st e =
     (if \<not> c_dirty e then (0, st)
      else (case bwrite st (fst (c_key e)) (fst (snd (c_key e))) [c_data e] (snd (snd (c_key e))) of
        (r, st) \<Rightarrow>
          if r > 0 then (0, st\<lparr>lru_list := map (clean_entry (c_key e)) (lru_list st)\<rparr>) else (-1, st)))"
| "bwrite st prim scnd blocks offset =
     (case find_block_device st prim of
        None \<Rightarrow> (-1, st)
      | Some d \<Rightarrow>
          (case op_write (d_ops d) of
             None \<Rightarrow> (-1, st)
           | Some wr \<Rightarrow> bwrite_loop wr st prim scnd blocks offset 0))"
| "bwrite_loop wr st prim scnd [] offset i = (to_int (i * CACHE_BLOCK_SIZE), st)"
| "bwrite_loop wr st prim scnd (b # bs) offset i =
     (case wr (hw st) (prim, scnd, offset + of_nat i) b of
        (r, h) \<Rightarrow>
          if r < 0 then (if i > 0 then to_int (i * CACHE_BLOCK_SIZE) else r, st\<lparr>hw := h\<rparr>)
          else bwrite_loop wr (snd (cache_insert (st\<lparr>hw := h\<rparr>) (prim, scnd, offset + of_nat i) b))
                 prim scnd bs offset (Suc i))"
  by pat_completeness auto

termination
proof (relation "measure (\<lambda>x. case x of
      Inl (Inl (st, k, data)) \<Rightarrow> if cached st k then 0 else 5
    | Inl (Inr st) \<Rightarrow> 4
    | Inr (Inl (st, e)) \<Rightarrow> if cached st (c_key e) then 3 else 12
    | Inr (Inr (Inl (st, prim, scnd, bs, offset))) \<Rightarrow> Suc (write_weight st prim scnd bs offset)
    | Inr (Inr (Inr (wr, st, prim, scnd, bs, offset, i))) \<Rightarrow> write_weight st prim scnd bs (offset + of_nat i))", goal_cases)
  case (6 wr st prim scnd b bs offset i x y)
  then show ?case
    using insert_weight [of "(prim, scnd, offset + of_nat i)" prim scnd "offset + of_nat i" st b bs]
    by (simp add: write_weight_def split: list.splits)
next
  case (7 wr st prim scnd b bs offset i x y)
  then show ?case by (simp add: write_weight_Cons)
qed (auto simp: find_entry_None)

declare cache_insert.simps [simp del] evict_lru.simps [simp del] writeback_entry.simps [simp del]
  bwrite.simps [simp del]

section \<open>Reading\<close>

fun bread_loop :: "('d \<Rightarrow> block_key \<Rightarrow> int \<times> block \<times> 'd) \<Rightarrow> 'd block_state \<Rightarrow> int \<Rightarrow> int \<Rightarrow> u32 \<Rightarrow> nat \<Rightarrow> nat
    \<Rightarrow> block list \<Rightarrow> int \<times> block list \<times> 'd block_state" where
  "bread_loop rd st prim scnd offset i 0 out = (to_int (i * CACHE_BLOCK_SIZE), out, st)"
| "bread_loop rd st prim scnd offset i (Suc n) out =
     (let k = (prim, scnd, offset + of_nat i) in
      case cache_lookup st k of (hit, b, st) \<Rightarrow>
        if hit = 1 then bread_loop rd st prim scnd offset (Suc i) n (out @ [b])
        else (case rd (hw st) k of
          (r, b, h) \<Rightarrow>
            if r < 0 then (if i > 0 then to_int (i * CACHE_BLOCK_SIZE) else r, out, st\<lparr>hw := h\<rparr>)
            else bread_loop rd (snd (cache_insert (st\<lparr>hw := h\<rparr>) k b)) prim scnd offset (Suc i) n (out @ [b])))"

definition bread :: "'d block_state \<Rightarrow> int \<Rightarrow> int \<Rightarrow> u32 \<Rightarrow> nat \<Rightarrow> int \<times> block list \<times> 'd block_state" where
  "bread st prim scnd offset count =
     (case find_block_device st prim of
        None \<Rightarrow> (-1, [], st)
      | Some d \<Rightarrow>
          (case op_read (d_ops d) of
             None \<Rightarrow> (-1, [], st)
           | Some rd \<Rightarrow> bread_loop rd st prim scnd offset 0 count []))"

definition block_ioctl :: "'d block_state \<Rightarrow> int \<Rightarrow> int \<Rightarrow> u32 \<Rightarrow> u32 \<Rightarrow> int \<times> 'd block_state" where
  "block_ioctl st prim scnd command arg =
     (case find_block_device st prim of
        None \<Rightarrow> (-1, st)
      | Some d \<Rightarrow>
          (case op_ioctl (d_ops d) of
             None \<Rightarrow> (-1, st)
           | Some io \<Rightarrow> (case io (hw st) prim scnd command arg of (r, h) \<Rightarrow> (r, st\<lparr>hw := h\<rparr>))))"

definition block_mmap :: "'d block_state \<Rightarrow> int \<Rightarrow> int \<Rightarrow> u32 \<Rightarrow> bool \<Rightarrow> int \<times> u32 option" where
  "block_mmap st prim scnd len phys_null =
     (case find_block_device st prim of
        None \<Rightarrow> (-1, None)
      | Some d \<Rightarrow>
          (case op_mmap (d_ops d) of
             None \<Rightarrow> (-1, None)
           | Some mm \<Rightarrow> if phys_null then (-1, None) else (case mm scnd len of (r, p) \<Rightarrow> (r, Some p))))"

section \<open>Dirty marks, flushing and invalidation\<close>

definition cache_mark_dirty :: "'d block_state \<Rightarrow> block_key \<Rightarrow> int \<times> 'd block_state" where
  "cache_mark_dirty st k =
     (case find_entry st k of
        None \<Rightarrow> (-1, st)
      | Some e \<Rightarrow> (0, promote (e\<lparr>c_dirty := True\<rparr>) st))"

definition cache_invalidate :: "'d block_state \<Rightarrow> block_key \<Rightarrow> 'd block_state" where
  "cache_invalidate st k =
     (case find_entry st k of
        None \<Rightarrow> st
      | Some e \<Rightarrow>
          let st = (if c_dirty e then snd (writeback_entry st e) else st)
          in st\<lparr>lru_list := unlink_entry k (lru_list st), num_entries := sub32 (num_entries st) 1\<rparr>)"

definition cache_stats :: "'d block_state \<Rightarrow> nat \<times> nat \<times> nat" where
  "cache_stats st = (stat_hits st, stat_misses st, num_entries st)"

section \<open>The write-back of a cached block\<close>

lemma find_entry_Some: "find_entry st k = Some e \<Longrightarrow> e \<in> set (lru_list st) \<and> c_key e = k"
  by (auto simp: find_entry_def find_Some_iff in_set_conv_nth)

lemma cached_obtain:
  assumes "cached st k"
  obtains e where "find_entry st k = Some e"
  using assms find_entry_None [of st k] by (cases "find_entry st k") auto

lemma find_entry_hw [simp]: "find_entry (st\<lparr>hw := h\<rparr>) k = find_entry st k"
  by (simp add: find_entry_def)

text \<open>Writing back the entry with key \<open>k\<close>: either it fails and the cache is as before, or ...\<close>

lemma writeback_cached:
  assumes "find_entry st (c_key e) = Some f" "c_dirty e" "writeback_entry st e = (r, st')"
  shows "(r = -1 \<and> (st' = st \<or> (\<exists>d wr h ret. find_block_device st (fst (c_key e)) = Some d \<and>
       op_write (d_ops d) = Some wr \<and> wr (hw st) (c_key e) (c_data e) = (ret, h) \<and> ret < 0 \<and> st' = st\<lparr>hw := h\<rparr>))) \<or>
    (\<exists>d wr h ret. find_block_device st (fst (c_key e)) = Some d \<and> op_write (d_ops d) = Some wr \<and>
       wr (hw st) (c_key e) (c_data e) = (ret, h) \<and> ret \<ge> 0 \<and> r = 0 \<and>
       st' = st\<lparr>hw := h, lru_list := map (clean_entry (c_key e))
               (f\<lparr>c_data := c_data e\<rparr> # unlink_entry (c_key e) (lru_list st))\<rparr>)"
proof -
  obtain prim scnd off where k: "c_key e = (prim, scnd, off)" by (metis prod_cases3)
  show ?thesis
  proof (cases "find_block_device st prim")
    case None
    then show ?thesis using assms by (auto simp: writeback_entry.simps bwrite.simps k)
  next
    case d: (Some d)
    show ?thesis
    proof (cases "op_write (d_ops d)")
      case None
      then show ?thesis using assms d by (auto simp: writeback_entry.simps bwrite.simps k)
    next
      case wr: (Some wr)
      obtain ret h where w: "wr (hw st) (prim, scnd, off) (c_data e) = (ret, h)" by fastforce
      show ?thesis
        using assms d wr w find_entry_Some [OF assms(1)]
        by (cases "ret < 0")
          (auto simp: writeback_entry.simps bwrite.simps cache_insert.simps promote_def k CACHE_BLOCK_SIZE_def)
    qed
  qed
qed

section \<open>Flushing\<close>

text \<open>
  The loop of \<^verbatim>\<open>cache_flush\<close> follows the list while the write-back moves the current entry to the
  front: the next entry is then the second of the list. \<open>i\<close> is the position of the loop.
\<close>

definition dirty_count :: "'d block_state \<Rightarrow> nat" where
  "dirty_count st = length (filter c_dirty (lru_list st))"

lemma clean_entry_simps [simp]:
  "c_key (clean_entry k e) = c_key e" "c_data (clean_entry k e) = c_data e"
  "c_dirty (clean_entry k e) \<longleftrightarrow> c_key e \<noteq> k \<and> c_dirty e" "c_key e \<noteq> k \<Longrightarrow> clean_entry k e = e"
  by (simp_all add: clean_entry_def)

lemma filter_dirty_clean:
  assumes "e \<in> set es" "c_dirty e" "c_key e = k"
  shows "length (filter c_dirty (map (clean_entry k) (unlink_entry k es))) < length (filter c_dirty es)"
proof -
  have *: "filter c_dirty (map (clean_entry k) (unlink_entry k es)) = filter c_dirty (filter (\<lambda>e. c_key e \<noteq> k) es)"
    for es :: "cache_entry list"
  proof (induction es)
    case (Cons e es)
    have "filter c_dirty (map (clean_entry k) es) = filter c_dirty (filter (\<lambda>e. c_key e \<noteq> k) es)"
      by (induction es) auto
    then show ?case using Cons by auto
  qed simp
  have "filter c_dirty (filter (\<lambda>e. c_key e \<noteq> k) es) = filter (\<lambda>e. c_key e \<noteq> k) (filter c_dirty es)"
    by (simp add: conj_commute)
  moreover have "length (filter (\<lambda>e. c_key e \<noteq> k) (filter c_dirty es)) < length (filter c_dirty es)"
    using assms by (intro length_filter_less [of e]) auto
  ultimately show ?thesis unfolding * by simp
qed

lemma writeback_dirty:
  assumes "e \<in> set (lru_list st)" "c_dirty e" "writeback_entry st e = (r, st')"
  shows "if r = 0 then dirty_count st' < dirty_count st
    else dirty_count st' = dirty_count st \<and> lru_list st' = lru_list st"
proof -
  obtain f where f: "find_entry st (c_key e) = Some f" using assms(1) by (elim cached_obtain [OF imageI])
  have "c_key f = c_key e" using find_entry_Some [OF f] by simp
  then show ?thesis
    using writeback_cached [OF f assms(2,3)] filter_dirty_clean [OF assms(1,2) refl]
    by (auto simp: dirty_count_def)
qed

function flush_loop :: "'d block_state \<Rightarrow> nat \<Rightarrow> nat \<Rightarrow> nat \<times> 'd block_state" where
  "flush_loop st i written =
     (if i < length (lru_list st) then
        let e = lru_list st ! i in
        if c_dirty e then
          (case writeback_entry st e of (r, st) \<Rightarrow>
             if r = 0 then flush_loop st 1 (written + 1) else flush_loop st (i + 1) written)
        else flush_loop st (i + 1) written
      else (written, st))"
  by pat_completeness auto
termination
proof (relation "measures [\<lambda>(st, i, n). dirty_count st, \<lambda>(st, i, n). length (lru_list st) - i]", goal_cases)
  case (2 st i n e r st')
  then show ?case using writeback_dirty [of e st r st'] by auto
next
  case (3 st i n e r st')
  then show ?case using writeback_dirty [of e st r st'] by auto
qed auto

declare flush_loop.simps [simp del]

definition cache_flush :: "'d block_state \<Rightarrow> int \<times> 'd block_state" where
  "cache_flush st = (case flush_loop st 0 0 of (n, st) \<Rightarrow> (int n, st))"

section \<open>Coherence\<close>

text \<open>
  What a device promises, as far as the code relies on it: \<open>C h\<close> is the contents of the blocks
  in the hardware state \<open>h\<close>; a read changes nothing and delivers the contents, a write replaces
  one block, a failed write none.
\<close>

definition dev_laws :: "('d \<Rightarrow> block_key \<Rightarrow> block) \<Rightarrow> 'd block_device list \<Rightarrow> bool" where
  "dev_laws C devs \<longleftrightarrow> (\<forall>d \<in> set devs.
     (\<forall>rd h k r b h'. op_read (d_ops d) = Some rd \<longrightarrow> rd h k = (r, b, h') \<longrightarrow> C h' = C h \<and> (0 \<le> r \<longrightarrow> b = C h k)) \<and>
     (\<forall>wr h k b r h'. op_write (d_ops d) = Some wr \<longrightarrow> wr h k b = (r, h') \<longrightarrow>
        C h' = (if 0 \<le> r then (C h)(k := b) else C h)))"

definition cache_inv :: "'d block_state \<Rightarrow> bool" where
  "cache_inv st \<longleftrightarrow> distinct (map c_key (lru_list st)) \<and> num_entries st = length (lru_list st)
     \<and> length (lru_list st) \<le> CACHE_MAX_ENTRIES"

definition coherent :: "('d \<Rightarrow> block_key \<Rightarrow> block) \<Rightarrow> 'd block_state \<Rightarrow> bool" where
  "coherent C st \<longleftrightarrow> cache_inv st \<and> dev_laws C (block_devices st)
     \<and> (\<forall>e \<in> set (lru_list st). c_data e = C (hw st) (c_key e))"

lemma find_block_device_set: "find_block_device st prim = Some d \<Longrightarrow> d \<in> set (block_devices st)"
  by (auto simp: find_block_device_def find_Some_iff dest: nth_mem [of _ "take _ _"] in_set_takeD)

lemma dev_read:
  "coherent C st \<Longrightarrow> find_block_device st prim = Some d \<Longrightarrow> op_read (d_ops d) = Some rd \<Longrightarrow> rd h k = (r, b, h')
    \<Longrightarrow> C h' = C h \<and> (0 \<le> r \<longrightarrow> b = C h k)"
  using find_block_device_set unfolding coherent_def dev_laws_def by blast

lemma dev_write:
  "coherent C st \<Longrightarrow> find_block_device st prim = Some d \<Longrightarrow> op_write (d_ops d) = Some wr \<Longrightarrow> wr h k b = (r, h')
    \<Longrightarrow> C h' = (if 0 \<le> r then (C h)(k := b) else C h)"
  using find_block_device_set unfolding coherent_def dev_laws_def by blast

lemma unlink_entry_set: "distinct (map c_key es) \<Longrightarrow> set (unlink_entry k es) = {e \<in> set es. c_key e \<noteq> k}"
  by (induction es) (auto simp: image_iff)

lemma unlink_entry_keys: "map c_key (unlink_entry k es) = remove1 k (map c_key es)"
  by (induction es) auto

lemma length_unlink_entry: "k \<in> c_key ` set es \<Longrightarrow> Suc (length (unlink_entry k es)) = length es"
  by (induction es) auto

lemma unlink_last: "distinct (map c_key es) \<Longrightarrow> es \<noteq> [] \<Longrightarrow> unlink_entry (c_key (last es)) es = butlast es"
  by (induction es) (auto split: if_splits)

lemma map_clean_other: "\<forall>e \<in> set es. c_key e \<noteq> k \<Longrightarrow> map (clean_entry k) es = es"
  by (induction es) auto

lemma find_entry_eq:
  assumes "distinct (map c_key (lru_list st))" "e \<in> set (lru_list st)"
  shows "find_entry st (c_key e) = Some e"
proof -
  obtain f where f: "find_entry st (c_key e) = Some f" using assms(2) by (elim cached_obtain [OF imageI])
  moreover have "inj_on c_key (set (lru_list st))" using assms(1) by (simp add: distinct_map)
  ultimately show ?thesis using find_entry_Some [OF f] assms(2) by (auto dest: inj_onD)
qed

lemma writeback_coherent:
  assumes "coherent C st" "e \<in> set (lru_list st)" "c_dirty e" "writeback_entry st e = (r, st')"
  shows "\<exists>h. C h = C (hw st) \<and> (r = -1 \<and> st' = st\<lparr>hw := h\<rparr> \<or>
    r = 0 \<and> st' = st\<lparr>hw := h, lru_list := e\<lparr>c_dirty := False\<rparr> # unlink_entry (c_key e) (lru_list st)\<rparr>)"
proof -
  have inv: "distinct (map c_key (lru_list st))" and data: "c_data e = C (hw st) (c_key e)"
    using assms(1,2) by (auto simp: coherent_def cache_inv_def)
  have f: "find_entry st (c_key e) = Some e" using inv assms(2) by (rule find_entry_eq)
  have upd: "(C (hw st))(c_key e := c_data e) = C (hw st)" by (simp add: data)
  have "\<forall>x \<in> set (unlink_entry (c_key e) (lru_list st)). c_key x \<noteq> c_key e"
    by (simp add: unlink_entry_set [OF inv])
  then have cl: "map (clean_entry (c_key e)) (e\<lparr>c_data := c_data e\<rparr> # unlink_entry (c_key e) (lru_list st))
      = e\<lparr>c_dirty := False\<rparr> # unlink_entry (c_key e) (lru_list st)"
    by (simp add: map_clean_other clean_entry_def)
  from writeback_cached [OF f assms(3,4)] show ?thesis
  proof (elim disjE exE conjE)
    assume "r = -1" "st' = st"
    then show ?thesis by (intro exI [of _ "hw st"]) simp
  next
    fix d wr h ret
    assume "r = -1" "find_block_device st (fst (c_key e)) = Some d" "op_write (d_ops d) = Some wr"
      "wr (hw st) (c_key e) (c_data e) = (ret, h)" "ret < 0" "st' = st\<lparr>hw := h\<rparr>"
    then show ?thesis using dev_write [OF assms(1)] by (intro exI [of _ h]) fastforce
  next
    fix d wr h ret
    assume "find_block_device st (fst (c_key e)) = Some d" "op_write (d_ops d) = Some wr"
      "wr (hw st) (c_key e) (c_data e) = (ret, h)" "0 \<le> ret" and r: "r = 0" and
      st': "st' = st\<lparr>hw := h, lru_list := map (clean_entry (c_key e))
               (e\<lparr>c_data := c_data e\<rparr> # unlink_entry (c_key e) (lru_list st))\<rparr>"
    then have "C h = C (hw st)" using dev_write [OF assms(1)] upd by fastforce
    then show ?thesis using r st' unfolding cl by (intro exI [of _ h]) simp
  qed
qed

text \<open>A coherent cache evicts its last entry and leaves the contents of the devices as they are.\<close>

lemma evict_ok:
  assumes "coherent C st" "lru_list st \<noteq> []" "evict_lru st = (r, st')"
  shows "r = 0 \<and> (\<exists>h. C h = C (hw st) \<and>
    st' = st\<lparr>hw := h, lru_list := butlast (lru_list st), num_entries := length (lru_list st) - 1\<rparr>)"
proof -
  let ?es = "lru_list st" and ?v = "last (lru_list st)"
  have inv: "distinct (map c_key ?es)" "num_entries st = length ?es" "length ?es \<le> 64" "?v \<in> set ?es"
    using assms(1,2) by (auto simp: coherent_def cache_inv_def CACHE_MAX_ENTRIES_def)
  have n: "sub32 (num_entries st) 1 = length ?es - 1" using inv(2,3) assms(2) by (cases ?es) auto
  note ul = unlink_last [OF inv(1) assms(2)]
  show ?thesis
  proof (cases "c_dirty ?v")
    case False
    then show ?thesis using assms n ul by (auto simp: evict_lru.simps intro: exI [of _ "hw st"])
  next
    case True
    obtain r1 st1 where w: "writeback_entry st ?v = (r1, st1)" by fastforce
    have st': "r = 0" "st' = st1\<lparr>lru_list := unlink_entry (c_key ?v) (lru_list st1), num_entries := sub32 (num_entries st1) 1\<rparr>"
      using assms(2,3) True w by (simp_all add: evict_lru.simps Let_def)
    from writeback_coherent [OF assms(1) inv(4) True w] obtain h where h: "C h = C (hw st)" and
      "r1 = -1 \<and> st1 = st\<lparr>hw := h\<rparr> \<or>
       r1 = 0 \<and> st1 = st\<lparr>hw := h, lru_list := ?v\<lparr>c_dirty := False\<rparr> # unlink_entry (c_key ?v) (lru_list st)\<rparr>"
      by blast
    then have "st' = st\<lparr>hw := h, lru_list := butlast ?es, num_entries := length ?es - 1\<rparr>"
      using st'(2) n ul by auto
    then show ?thesis using st'(1) h by blast
  qed
qed

lemma coherent_promote:
  assumes "coherent C st" "e \<in> set (lru_list st)" "c_key e' = c_key e" "c_data e' = C (hw st) (c_key e)"
  shows "coherent C (promote e' st)"
proof -
  have inv: "distinct (map c_key (lru_list st))" using assms(1) by (simp add: coherent_def cache_inv_def)
  have len: "Suc (length (unlink_entry (c_key e) (lru_list st))) = length (lru_list st)"
    using assms(2) by (intro length_unlink_entry) auto
  have "distinct (map c_key (unlink_entry (c_key e) (lru_list st)))"
    using inv by (simp add: unlink_entry_keys)
  then show ?thesis
    using assms len unfolding coherent_def cache_inv_def
    by (auto simp: promote_def unlink_entry_set [OF inv])
qed

text \<open>
  Inserting a block that the device holds keeps the cache coherent. On success the new key is
  the most recently used one; the others keep their order, and only a full cache loses one, the
  least recently used.
\<close>

lemma insert_ok:
  assumes "coherent C st" "cache_insert st k data = (r, st')" "data = C (hw st) k"
  shows "coherent C st' \<and> C (hw st') = C (hw st) \<and> block_devices st' = block_devices st \<and> (r = 0 \<longrightarrow>
    map c_key (lru_list st') = k #
      (if cached st k then remove1 k (map c_key (lru_list st))
       else if length (lru_list st) \<ge> CACHE_MAX_ENTRIES then butlast (map c_key (lru_list st))
       else map c_key (lru_list st)))"
proof (cases "find_entry st k")
  case (Some e)
  note e = find_entry_Some [OF Some]
  have ca: "cached st k" using e by auto
  have "st' = promote (e\<lparr>c_data := data\<rparr>) st" "r = 0" using assms(2) by (simp_all add: cache_insert.simps Some)
  moreover have "coherent C (promote (e\<lparr>c_data := data\<rparr>) st)"
    using e assms by (intro coherent_promote [of _ _ e]) auto
  ultimately show ?thesis using e ca by (simp add: promote_def unlink_entry_keys)
next
  case None
  have nc: "\<not> cached st k" using find_entry_None [of st k] None by simp
  have inv: "distinct (map c_key (lru_list st))" "num_entries st = length (lru_list st)"
    "length (lru_list st) \<le> CACHE_MAX_ENTRIES"
    using assms(1) by (auto simp: coherent_def cache_inv_def)
  define es where "es = (if length (lru_list st) \<ge> CACHE_MAX_ENTRIES then butlast (lru_list st) else lru_list st)"
  obtain r1 st1 where ev: "(if num_entries st \<ge> CACHE_MAX_ENTRIES then evict_lru st else (0, st)) = (r1, st1)" by fastforce
  have "r1 = 0 \<and> (\<exists>h. C h = C (hw st) \<and> st1 = st\<lparr>hw := h, lru_list := es, num_entries := length es\<rparr>)"
  proof (cases "num_entries st \<ge> CACHE_MAX_ENTRIES")
    case True
    then have "lru_list st \<noteq> []" using inv(2) by (auto simp: CACHE_MAX_ENTRIES_def)
    then show ?thesis using evict_ok [OF assms(1), of r1 st1] ev True inv(2) by (simp add: es_def)
  next
    case False
    then show ?thesis using ev inv(2) by (intro conjI exI [of _ "hw st"]) (simp_all add: es_def)
  qed
  then obtain h where h: "r1 = 0" "C h = C (hw st)" "st1 = st\<lparr>hw := h, lru_list := es, num_entries := length es\<rparr>" by blast
  have sub: "set es \<subseteq> set (lru_list st)" "distinct (map c_key es)" "length es < CACHE_MAX_ENTRIES"
    using inv by (auto simp: es_def map_butlast distinct_butlast CACHE_MAX_ENTRIES_def dest: in_set_butlastD)
  have coh: "coherent C st1" using assms(1) sub h unfolding coherent_def cache_inv_def by auto
  obtain a2 st2 where a2: "pop_alloc st1 = (a2, st2)" by fastforce
  obtain a3 st3 where a3: "pop_alloc st2 = (a3, st3)" by fastforce
  have pop: "coherent C t' \<and> C (hw t') = C (hw t) \<and> lru_list t' = lru_list t \<and> num_entries t' = num_entries t
      \<and> block_devices t' = block_devices t" if "coherent C t" "pop_alloc t = (a, t')" for t t' :: "'a block_state" and a
    using that by (auto simp: pop_alloc_def coherent_def cache_inv_def split: list.splits)
  note p = pop [OF coh a2] pop [OF conjunct1 [OF pop [OF coh a2]] a3]
  have res: "(r, st') = (if a2 then if a3 then (0, st3\<lparr>lru_list := \<lparr>c_key = k, c_data = data, c_dirty = False\<rparr> # lru_list st3,
      num_entries := w32 (num_entries st3 + 1)\<rparr>) else (-1, st3) else (-1, st2))"
    using assms(2) ev h(1) a2 a3 by (simp add: cache_insert.simps None split: if_splits)
  show ?thesis
  proof (cases "a2 \<and> a3")
    case False
    then have "st' = st2 \<or> st' = st3" "r = -1" using res by (auto split: if_splits)
    then show ?thesis using p h by auto
  next
    case True
    have w: "w32 (num_entries st3 + 1) = Suc (length es)" using p h(3) sub(3) by (simp add: CACHE_MAX_ENTRIES_def)
    have "k \<notin> c_key ` set es" using nc sub(1) by auto
    then have "coherent C st'" using res True p h assms(3) sub(3) w unfolding coherent_def cache_inv_def by auto
    moreover have "map c_key (lru_list st') = k # map c_key es" using res True p h by simp
    ultimately show ?thesis using res True p h nc by (simp add: es_def map_butlast)
  qed
qed

lemma cache_lookup_ok:
  assumes "coherent C st" "cache_lookup st k = (hit, b, st')"
  shows "coherent C st' \<and> hw st' = hw st \<and> block_devices st' = block_devices st
    \<and> (hit = 1 \<longrightarrow> b = C (hw st) k) \<and> (hit \<noteq> 1 \<longrightarrow> lru_list st' = lru_list st)"
proof (cases "find_entry st k")
  case (Some e)
  note e = find_entry_Some [OF Some]
  let ?t = "st\<lparr>stat_hits := w32 (stat_hits st + 1)\<rparr>"
  have t: "coherent C ?t" using assms(1) by (simp add: coherent_def cache_inv_def)
  have "coherent C (promote e ?t)"
    using e assms(1) by (intro coherent_promote [OF t, of e]) (auto simp: coherent_def)
  then show ?thesis using assms e Some by (auto simp: cache_lookup_def promote_def coherent_def)
qed (use assms in \<open>auto simp: cache_lookup_def coherent_def cache_inv_def\<close>)

lemma cache_mark_dirty_ok:
  assumes "coherent C st"
  shows "coherent C (snd (cache_mark_dirty st k))"
proof (cases "find_entry st k")
  case (Some e)
  then show ?thesis
    using find_entry_Some [OF Some] assms coherent_promote [OF assms, of e "e\<lparr>c_dirty := True\<rparr>"]
    by (auto simp: cache_mark_dirty_def coherent_def)
qed (simp add: cache_mark_dirty_def assms)

lemma find_block_device_cong: "block_devices st' = block_devices st \<Longrightarrow> find_block_device st' prim = find_block_device st prim"
  by (simp add: find_block_device_def)

section \<open>Transfers\<close>

text \<open>What writing consecutive blocks makes of the contents of the devices.\<close>

fun store_blocks :: "(block_key \<Rightarrow> block) \<Rightarrow> int \<Rightarrow> int \<Rightarrow> u32 \<Rightarrow> nat \<Rightarrow> block list \<Rightarrow> (block_key \<Rightarrow> block)" where
  "store_blocks c prim scnd offset i [] = c"
| "store_blocks c prim scnd offset i (b # bs) =
     store_blocks (c((prim, scnd, offset + of_nat i) := b)) prim scnd offset (Suc i) bs"

lemma coherent_hw: "coherent C st \<Longrightarrow> C h = C (hw st) \<Longrightarrow> coherent C (st\<lparr>hw := h\<rparr>)"
  by (simp add: coherent_def cache_inv_def)

text \<open>
  After a successful device write the cached copy of the block is out of date until the insertion
  replaces it, so the insertion is looked at together with the write.
\<close>

lemma write_insert_ok:
  assumes "coherent C st" "C h = (C (hw st))(k := b)"
  shows "coherent C (snd (cache_insert (st\<lparr>hw := h\<rparr>) k b)) \<and> C (hw (snd (cache_insert (st\<lparr>hw := h\<rparr>) k b))) = C h
    \<and> block_devices (snd (cache_insert (st\<lparr>hw := h\<rparr>) k b)) = block_devices st"
proof (cases "find_entry st k")
  case (Some e)
  note e = find_entry_Some [OF Some]
  have inv: "distinct (map c_key (lru_list st))" using assms(1) by (simp add: coherent_def cache_inv_def)
  have len: "Suc (length (unlink_entry k (lru_list st))) = length (lru_list st)"
    using e by (intro length_unlink_entry) auto
  have "distinct (map c_key (unlink_entry k (lru_list st)))" using inv by (simp add: unlink_entry_keys)
  then show ?thesis
    using assms Some e len unfolding coherent_def cache_inv_def
    by (auto simp: cache_insert.simps promote_def unlink_entry_set [OF inv])
next
  case None
  have "\<forall>e \<in> set (lru_list st). c_key e \<noteq> k" using find_entry_None [of st k] None by auto
  then have "coherent C (st\<lparr>hw := h\<rparr>)" using assms by (simp add: coherent_def cache_inv_def)
  moreover obtain r t where ins: "cache_insert (st\<lparr>hw := h\<rparr>) k b = (r, t)" by fastforce
  moreover have "b = C (hw (st\<lparr>hw := h\<rparr>)) k" using assms(2) by simp
  ultimately have "coherent C t \<and> C (hw t) = C h \<and> block_devices t = block_devices st"
    using insert_ok [of C "st\<lparr>hw := h\<rparr>" k b r t] by simp
  then show ?thesis by (simp only: ins snd_conv)
qed

lemma bwrite_loop_ok:
  assumes "coherent C st" "find_block_device st prim = Some d" "op_write (d_ops d) = Some wr"
    "bwrite_loop wr st prim scnd bs offset i = (r, st')"
  shows "coherent C st' \<and> block_devices st' = block_devices st \<and> (\<exists>n \<le> length bs.
     C (hw st') = store_blocks (C (hw st)) prim scnd offset i (take n bs) \<and>
     (if n = length bs \<or> i + n > 0 then r = to_int ((i + n) * CACHE_BLOCK_SIZE) else r < 0))"
  using assms
proof (induction bs arbitrary: st i)
  case Nil
  then show ?case by simp
next
  case (Cons b bs)
  let ?k = "(prim, scnd, offset + of_nat i)"
  obtain ret h where w: "wr (hw st) ?k b = (ret, h)" by fastforce
  note law = dev_write [OF Cons.prems(1-3) w]
  show ?case
  proof (cases "ret < 0")
    case True
    then have "C h = C (hw st)" using law by simp
    then show ?thesis using Cons.prems True w coherent_hw [OF Cons.prems(1)]
      by (intro conjI exI [of _ 0]) (auto split: if_splits)
  next
    case False
    define st1 where "st1 = snd (cache_insert (st\<lparr>hw := h\<rparr>) ?k b)"
    have upd: "C h = (C (hw st))(?k := b)" using law False by simp
    have st1: "coherent C st1" "C (hw st1) = (C (hw st))(?k := b)" "block_devices st1 = block_devices st"
      using write_insert_ok [OF Cons.prems(1) upd] unfolding upd st1_def by blast+
    have "bwrite_loop wr st1 prim scnd bs offset (Suc i) = (r, st')"
      using Cons.prems(4) w False by (simp add: st1_def)
    from Cons.IH [OF st1(1) _ Cons.prems(3) this] obtain n where
      "coherent C st'" "block_devices st' = block_devices st1" "n \<le> length bs"
      "C (hw st') = store_blocks (C (hw st1)) prim scnd offset (Suc i) (take n bs)"
      "r = to_int ((Suc i + n) * CACHE_BLOCK_SIZE)"
      using Cons.prems(2) find_block_device_cong [OF st1(3)] by (auto split: if_splits)
    then show ?thesis using st1 by (intro conjI exI [of _ "Suc n"]) simp_all
  qed
qed

lemma bread_loop_ok:
  assumes "coherent C st" "find_block_device st prim = Some d" "op_read (d_ops d) = Some rd"
    "bread_loop rd st prim scnd offset i n out = (r, out', st')"
  shows "coherent C st' \<and> C (hw st') = C (hw st) \<and> block_devices st' = block_devices st \<and> (\<exists>m \<le> n.
     out' = out @ map (\<lambda>j. C (hw st) (prim, scnd, offset + of_nat j)) [i..<i + m] \<and>
     (if m = n \<or> i + m > 0 then r = to_int ((i + m) * CACHE_BLOCK_SIZE) else r < 0))"
  using assms
proof (induction n arbitrary: st i out)
  case 0
  then show ?case by simp
next
  case (Suc n)
  let ?k = "(prim, scnd, offset + of_nat i)"
  obtain hit b st1 where l: "cache_lookup st ?k = (hit, b, st1)" by (metis prod_cases3)
  note lk = cache_lookup_ok [OF Suc.prems(1) l]
  have step: ?case if "bread_loop rd st2 prim scnd offset (Suc i) n (out @ [C (hw st) ?k]) = (r, out', st')"
    "coherent C st2" "C (hw st2) = C (hw st)" "block_devices st2 = block_devices st" for st2
  proof -
    note st2 = that
    have "find_block_device st2 prim = Some d" using Suc.prems(2) find_block_device_cong [OF st2(4)] by simp
    from Suc.IH [OF st2(2) this Suc.prems(3) st2(1)] obtain m where m:
      "coherent C st'" "C (hw st') = C (hw st)" "block_devices st' = block_devices st" "m \<le> n"
      "out' = (out @ [C (hw st) ?k]) @ map (\<lambda>j. C (hw st) (prim, scnd, offset + of_nat j)) [Suc i..<Suc i + m]"
      "if m = n \<or> Suc i + m > 0 then r = to_int ((Suc i + m) * CACHE_BLOCK_SIZE) else r < 0"
      unfolding st2(3,4) by blast
    have "[i..<i + Suc m] = i # [Suc i..<Suc i + m]" by (simp add: upt_conv_Cons)
    then show ?thesis using m by (intro conjI exI [of _ "Suc m"]) simp_all
  qed
  show ?case
  proof (cases "hit = 1")
    case True
    then show ?thesis using lk Suc.prems(4) l by (intro step [of st1]) (simp_all add: Let_def)
  next
    case False
    obtain ret b' h where rd: "rd (hw st1) ?k = (ret, b', h)" by (metis prod_cases3)
    have law: "C h = C (hw st)" "0 \<le> ret \<longrightarrow> b' = C (hw st) ?k"
      using dev_read [OF Suc.prems(1-3) rd] lk by simp_all
    have coh: "coherent C (st1\<lparr>hw := h\<rparr>)" using lk law(1) by (intro coherent_hw) simp_all
    show ?thesis
    proof (cases "ret < 0")
      case True
      then show ?thesis using Suc.prems(4) l rd False law coh lk
        by (intro conjI exI [of _ 0]) (auto simp: Let_def split: if_splits)
    next
      case ok: False
      obtain r2 st2 where ins: "cache_insert (st1\<lparr>hw := h\<rparr>) ?k b' = (r2, st2)" by fastforce
      have "b' = C (hw (st1\<lparr>hw := h\<rparr>)) ?k" using law ok by simp
      from insert_ok [OF coh ins this] show ?thesis
        using Suc.prems(4) l rd False ok ins law lk by (intro step [of st2]) (simp_all add: Let_def)
    qed
  qed
qed

text \<open>
  C7: reading through the cache is reading the device. On a coherent cache every block that
  \<^verbatim>\<open>bread\<close> delivers is the one the device holds, whether it came from the cache or not; the
  contents of the devices stay as they are and the cache stays coherent. The result is the
  number of bytes delivered, or a negative number with nothing delivered.
\<close>

theorem bread_transparent:
  assumes "coherent C st" "bread st prim scnd offset count = (r, out, st')" "count * 512 < 2 ^ 31"
  shows "coherent C st' \<and> C (hw st') = C (hw st) \<and> length out \<le> count \<and>
    out = map (\<lambda>j. C (hw st) (prim, scnd, offset + of_nat j)) [0..<length out] \<and>
    (r = int (512 * length out) \<or> r < 0 \<and> out = [])"
proof (cases "find_block_device st prim")
  case (Some d)
  show ?thesis
  proof (cases "op_read (d_ops d)")
    case rd: (Some rd)
    have l: "bread_loop rd st prim scnd offset 0 count [] = (r, out, st')"
      using assms(2) by (simp add: bread_def Some rd)
    obtain m where m: "coherent C st'" "C (hw st') = C (hw st)" "m \<le> count"
      "out = map (\<lambda>j. C (hw st) (prim, scnd, offset + of_nat j)) [0..<m]"
      "if m = count \<or> m > 0 then r = to_int (m * CACHE_BLOCK_SIZE) else r < 0"
      using bread_loop_ok [OF assms(1) Some rd l] by auto
    have "m * 512 < 2147483648" using m(3) assms(3) by simp
    then show ?thesis using m by (auto simp: CACHE_BLOCK_SIZE_def split: if_splits)
  qed (use assms in \<open>simp add: bread_def Some\<close>)
qed (use assms in \<open>simp add: bread_def\<close>)

text \<open>
  C8: writing through the cache stores the blocks on the device, in order, and keeps the cache
  coherent, although the insertions may evict and write back other blocks. If the device fails,
  the result counts the blocks stored before the failure.
\<close>

theorem bwrite_stores:
  assumes "coherent C st" "bwrite st prim scnd bs offset = (r, st')" "length bs * 512 < 2 ^ 31"
  shows "coherent C st' \<and> (\<exists>n \<le> length bs.
    C (hw st') = store_blocks (C (hw st)) prim scnd offset 0 (take n bs) \<and>
    (r = int (512 * n) \<or> r < 0 \<and> n = 0))"
proof (cases "find_block_device st prim")
  case (Some d)
  show ?thesis
  proof (cases "op_write (d_ops d)")
    case wr: (Some wr)
    have l: "bwrite_loop wr st prim scnd bs offset 0 = (r, st')"
      using assms(2) by (simp add: bwrite.simps Some wr)
    obtain n where n: "coherent C st'" "n \<le> length bs"
      "C (hw st') = store_blocks (C (hw st)) prim scnd offset 0 (take n bs)"
      "if n = length bs \<or> n > 0 then r = to_int (n * CACHE_BLOCK_SIZE) else r < 0"
      using bwrite_loop_ok [OF assms(1) Some wr l] unfolding add_0 by blast
    have "n * 512 < 2147483648" using n(2) assms(3) by simp
    then have "r = int (512 * n) \<or> r < 0 \<and> n = 0"
      using n(4) by (auto simp: CACHE_BLOCK_SIZE_def split: if_splits)
    then show ?thesis using n(1-3) by blast
  qed (use assms in \<open>auto simp: bwrite.simps Some intro: exI [of _ 0]\<close>)
qed (use assms in \<open>auto simp: bwrite.simps intro: exI [of _ 0]\<close>)

text \<open>A RAM disk, on which the laws hold.\<close>

definition ram_ops :: "(block_key \<Rightarrow> block) block_ops" where
  "ram_ops = \<lparr>op_read = Some (\<lambda>h k. (512, h k, h)), op_write = Some (\<lambda>h k b. (512, h(k := b))),
     op_ioctl = None, op_mmap = None\<rparr>"

definition ram_state :: "(block_key \<Rightarrow> block) block_state" where
  "ram_state = \<lparr>lru_list = [], num_entries = 0, stat_hits = 0, stat_misses = 0,
     block_devices = [\<lparr>d_prim_id = 3, d_ops = ram_ops, d_in_use = True\<rparr>], hw = (\<lambda>_. [0]), allocs = []\<rparr>"

lemma ram_coherent: "coherent (\<lambda>h. h) ram_state"
  by (simp add: coherent_def cache_inv_def ram_state_def dev_laws_def ram_ops_def)

theorem bread_transparent_witness:
  "case bread ram_state 3 0 5 2 of (r, out, st') \<Rightarrow> out = map (\<lambda>_. [0]) [0..<length out]"
proof -
  obtain r out st' where b: "bread ram_state 3 0 5 2 = (r, out, st')" by (metis prod_cases3)
  have "out = map (\<lambda>j. hw ram_state (3, 0, 5 + of_nat j)) [0..<length out]"
    using bread_transparent [OF ram_coherent b] by simp
  then show ?thesis using b by (simp add: ram_state_def)
qed

theorem bwrite_stores_witness:
  "case bwrite ram_state 3 0 [[7], [8]] 5 of (r, st') \<Rightarrow>
     \<exists>n. hw st' = store_blocks (\<lambda>_. [0]) 3 0 5 0 (take n [[7], [8]]) \<and> coherent (\<lambda>h. h) st'"
proof -
  obtain r st' where b: "bwrite ram_state 3 0 [[7], [8]] 5 = (r, st')" by fastforce
  have "hw ram_state = (\<lambda>_. [0])" by (simp add: ram_state_def)
  then show ?thesis using bwrite_stores [OF ram_coherent b] unfolding b by auto
qed

section \<open>Eviction order\<close>

text \<open>
  the cache is least recently used. A lookup that hits, and an insertion that succeeds, make
  the block the most recent one and keep the order of the others; an insertion of a new block drops
  a block only when all 64 entries are taken, and then the one used longest ago.
\<close>

theorem cache_lru_order:
  assumes "coherent C st"
  shows "(cached st k \<longrightarrow> map c_key (lru_list (snd (snd (cache_lookup st k)))) = k # remove1 k (map c_key (lru_list st))) \<and>
    (fst (cache_insert st k (C (hw st) k)) = 0 \<longrightarrow>
      map c_key (lru_list (snd (cache_insert st k (C (hw st) k)))) = k #
        (if cached st k then remove1 k (map c_key (lru_list st))
         else if length (lru_list st) = 64 then butlast (map c_key (lru_list st))
         else map c_key (lru_list st)))"
proof -
  have "length (lru_list st) \<le> 64" using assms by (simp add: coherent_def cache_inv_def CACHE_MAX_ENTRIES_def)
  moreover obtain r st' where ins: "cache_insert st k (C (hw st) k) = (r, st')" by fastforce
  moreover have "map c_key (lru_list (snd (snd (cache_lookup st k)))) = k # remove1 k (map c_key (lru_list st))"
    if "cached st k"
  proof -
    from that obtain e where e: "find_entry st k = Some e" by (rule cached_obtain)
    then show ?thesis
      using find_entry_Some [OF e] by (simp add: cache_lookup_def promote_def unlink_entry_keys)
  qed
  ultimately show ?thesis
    using insert_ok [OF assms ins refl] by (auto simp: CACHE_MAX_ENTRIES_def split: if_splits)
qed

theorem cache_lru_order_witness:
  "map c_key (lru_list (snd (cache_insert ram_state (3, 0, 1) [0]))) = [(3, 0, 1)]"
  using cache_lru_order [OF ram_coherent, of "(3, 0, 1)"]
  by (simp add: ram_state_def cache_insert.simps find_entry_def pop_alloc_def CACHE_MAX_ENTRIES_def)

section \<open>A flush leaves nothing dirty\<close>

text \<open>Every cached block lies on a device that accepts all writes.\<close>

definition writes_succeed :: "'d block_state \<Rightarrow> bool" where
  "writes_succeed st \<longleftrightarrow> (\<forall>e \<in> set (lru_list st). \<exists>d wr. find_block_device st (fst (c_key e)) = Some d \<and>
     op_write (d_ops d) = Some wr \<and> (\<forall>h k b. 0 \<le> fst (wr h k b)))"

lemma writeback_succeeds:
  assumes "distinct (map c_key (lru_list st))" "e \<in> set (lru_list st)" "c_dirty e" "writes_succeed st"
    "writeback_entry st e = (r, st')"
  shows "r = 0 \<and> lru_list st' = e\<lparr>c_dirty := False\<rparr> # unlink_entry (c_key e) (lru_list st)
    \<and> block_devices st' = block_devices st"
proof -
  have f: "find_entry st (c_key e) = Some e" using assms(1,2) by (rule find_entry_eq)
  have "\<forall>x \<in> set (unlink_entry (c_key e) (lru_list st)). c_key x \<noteq> c_key e"
    by (simp add: unlink_entry_set [OF assms(1)])
  then have cl: "map (clean_entry (c_key e)) (e\<lparr>c_data := c_data e\<rparr> # unlink_entry (c_key e) (lru_list st))
      = e\<lparr>c_dirty := False\<rparr> # unlink_entry (c_key e) (lru_list st)"
    by (simp add: map_clean_other clean_entry_def)
  obtain d wr where d: "find_block_device st (fst (c_key e)) = Some d" "op_write (d_ops d) = Some wr"
    "\<And>h k b. 0 \<le> fst (wr h k b)"
    using assms(2,4) unfolding writes_succeed_def by blast
  from writeback_cached [OF f assms(3,5)] show ?thesis
  proof (elim disjE exE conjE)
    assume r: "r = -1" "st' = st"
    obtain p s off where k: "c_key e = (p, s, off)" by (metis prod_cases3)
    obtain ret h where "wr (hw st) (p, s, off) (c_data e) = (ret, h)" by fastforce
    moreover from this have "0 \<le> ret" using d(3) [of "hw st" "(p, s, off)" "c_data e"] by simp
    ultimately have "r = 0"
      using assms(3,5) d(1,2) by (simp add: writeback_entry.simps bwrite.simps k CACHE_BLOCK_SIZE_def)
    then show ?thesis using r by simp
  next
    fix d' wr' h ret
    assume "find_block_device st (fst (c_key e)) = Some d'" "op_write (d_ops d') = Some wr'"
      "wr' (hw st) (c_key e) (c_data e) = (ret, h)" "ret < 0"
    then show ?thesis using d(1,2) d(3) [of "hw st" "c_key e" "c_data e"] by simp
  next
    fix d' wr' h ret
    assume "r = 0" "st' = st\<lparr>hw := h, lru_list := map (clean_entry (c_key e))
               (e\<lparr>c_data := c_data e\<rparr> # unlink_entry (c_key e) (lru_list st))\<rparr>"
    then show ?thesis unfolding cl by simp
  qed
qed

lemma dirty_count_unlink:
  "distinct (map c_key es) \<Longrightarrow> e \<in> set es \<Longrightarrow> c_dirty e \<Longrightarrow>
    Suc (length (filter c_dirty (unlink_entry (c_key e) es))) = length (filter c_dirty es)"
proof (induction es)
  case (Cons x es)
  then show ?case by (cases "x = e") (auto simp: image_iff)
qed simp

lemma flush_loop_ok:
  "distinct (map c_key (lru_list st)) \<Longrightarrow> writes_succeed st \<Longrightarrow> \<forall>j < i. j < length (lru_list st) \<longrightarrow> \<not> c_dirty (lru_list st ! j)
    \<Longrightarrow> flush_loop st i n = (m, st') \<Longrightarrow>
    m = n + dirty_count st \<and> (\<forall>e \<in> set (lru_list st'). \<not> c_dirty e)
      \<and> c_key ` set (lru_list st') = c_key ` set (lru_list st)"
proof (induction st i n rule: flush_loop.induct)
  case (1 st i n)
  let ?es = "lru_list st"
  show ?case
  proof (cases "i < length ?es")
    case False
    then have "\<forall>e \<in> set ?es. \<not> c_dirty e" using 1(6) by (auto simp: in_set_conv_nth)
    then show ?thesis using 1(7) False by (auto simp: flush_loop.simps [of st i] dirty_count_def)
  next
    case i: True
    define e where "e = ?es ! i"
    have e: "e \<in> set ?es" using i by (simp add: e_def)
    show ?thesis
    proof (cases "c_dirty e")
      case False
      then have "flush_loop st (i + 1) n = (m, st')" using 1(7) i by (simp add: flush_loop.simps [of st i] e_def)
      moreover have "\<forall>j < i + 1. j < length ?es \<longrightarrow> \<not> c_dirty (?es ! j)" using 1(6) False by (auto simp: e_def less_Suc_eq)
      ultimately show ?thesis using 1(3) [OF i e_def] False 1(4,5) by blast
    next
      case True
      obtain r st1 where w: "writeback_entry st e = (r, st1)" by fastforce
      note wb = writeback_succeeds [OF 1(4) e True 1(5) w]
      have run: "flush_loop st1 1 (n + 1) = (m, st')"
        using 1(7) i True w wb by (simp add: flush_loop.simps [of st i] e_def)
      have keys: "c_key ` set (lru_list st1) = c_key ` set ?es"
        using wb e by (auto simp: unlink_entry_set [OF 1(4)] image_iff)
      have d: "distinct (map c_key (lru_list st1))"
        using wb 1(4) by (auto simp: unlink_entry_set [OF 1(4)] unlink_entry_keys)
      have ws: "writes_succeed st1" unfolding writes_succeed_def
      proof
        fix x assume "x \<in> set (lru_list st1)"
        then obtain y where "y \<in> set ?es" "c_key y = c_key x" using keys by (metis imageE imageI)
        then show "\<exists>d wr. find_block_device st1 (fst (c_key x)) = Some d \<and>
            op_write (d_ops d) = Some wr \<and> (\<forall>h k b. 0 \<le> fst (wr h k b))"
          using 1(5) wb find_block_device_cong [of st1 st] unfolding writes_succeed_def by metis
      qed
      have fst_clean: "\<forall>j < 1. j < length (lru_list st1) \<longrightarrow> \<not> c_dirty (lru_list st1 ! j)" using wb by simp
      have cnt: "Suc (dirty_count st1) = dirty_count st"
        using wb dirty_count_unlink [OF 1(4) e True] by (simp add: dirty_count_def)
      have "r = 0" using wb by simp
      from 1(1) [OF i e_def True w [symmetric] this d ws fst_clean run] show ?thesis
        using cnt keys by simp
    qed
  qed
qed

text \<open>
  a flush cleans the cache. If the devices accept all writes, \<^verbatim>\<open>cache_flush\<close> returns the
  number of dirty blocks there were and leaves none, without dropping a block, although every
  write-back reorders the list it is walking along.
\<close>

theorem cache_flush_cleans:
  assumes "cache_inv st" "writes_succeed st" "cache_flush st = (r, st')"
  shows "r = int (dirty_count st) \<and> (\<forall>e \<in> set (lru_list st'). \<not> c_dirty e)
    \<and> c_key ` set (lru_list st') = c_key ` set (lru_list st)"
proof -
  obtain m where "flush_loop st 0 0 = (m, st')" "r = int m"
    using assms(3) by (auto simp: cache_flush_def split: prod.splits)
  then show ?thesis using flush_loop_ok [of st 0 0 m st'] assms(1,2) by (simp add: cache_inv_def)
qed

theorem cache_flush_cleans_witness:
  "let st = ram_state\<lparr>lru_list := [\<lparr>c_key = (3, 0, 1), c_data = [9], c_dirty = True\<rparr>], num_entries := 1\<rparr>
   in fst (cache_flush st) = 1"
proof -
  let ?st = "ram_state\<lparr>lru_list := [\<lparr>c_key = (3, 0, 1), c_data = [9], c_dirty = True\<rparr>], num_entries := 1\<rparr>"
  have "cache_inv ?st" by (simp add: cache_inv_def CACHE_MAX_ENTRIES_def)
  moreover have "writes_succeed ?st"
    by (simp add: writes_succeed_def ram_state_def ram_ops_def find_block_device_def MAX_BLOCK_DEVICES_def)
  moreover obtain r st' where f: "cache_flush ?st = (r, st')" by fastforce
  ultimately have "r = int (dirty_count ?st)" using cache_flush_cleans [of ?st r st'] by blast
  then show ?thesis using f by (simp add: dirty_count_def)
qed

end
