(* ===== verification/Sched.thy ===== *)
theory Sched
  imports Scepter_Prelude
begin

text \<open>
  Tasks, wait queues and the scheduler, \<^verbatim>\<open>kernel/sched.c\<close>. A task structure is the record
  \<open>task\<close>; pointers to tasks are pids, the kernel task is pid 0. The kernel state holds the task
  records, the global task list in list order, the running task, the wait queues (each the list
  of the tasks sleeping on it, in order) and what the context switch loads into the hardware. The
  blocking \<^verbatim>\<open>sleep_on\<close> is split at the context switch into \<open>sleep_on_enter\<close> and
  \<open>sleep_on_leave\<close>. Allocation results are arguments of \<open>alloc_task\<close>; the structures given
  back are recorded in \<open>freed_tasks\<close>. Registers and stacks are not modelled here.
\<close>

section \<open>Tasks\<close>

datatype task_state = TASK_RUNNING | TASK_READY | TASK_BLOCKED | TASK_ZOMBIE | TASK_STOPPED

record creds =
  uid :: nat
  euid :: nat
  suid :: nat
  gid :: nat
  egid :: nat
  sgid :: nat
  fsuid :: nat
  fsgid :: nat
  groups :: "nat list"
  umask :: u32
  personality :: nat

record mm_struct =
  pgd_phys :: u32
  code_start :: u32
  code_end :: u32
  brk_start :: u32
  brk_end :: u32
  stack_start :: u32
  stack_end :: u32
  mmap_base :: u32
  mmap_end :: u32

record fd_entry =
  fd_num :: int
  fd_file :: nat
  cloexec :: bool

record task =
  pid :: nat
  ppid :: nat
  pgid :: nat
  sid :: nat
  cred :: creds
  rlimit_cur :: "nat \<Rightarrow> u32"
  rlimit_max :: "nat \<Rightarrow> u32"
  cleartid :: u32
  tname :: string
  priority :: int
  tstate :: task_state
  children :: "nat list"
  mm :: mm_struct
  kernel_stack :: u32
  kernel_esp :: u32
  files :: "fd_entry list"
  next_fd :: int
  cwd :: string
  troot :: string
  exit_code :: int
  pending :: u32
  blocked :: u32
  sig_handlers :: "nat \<Rightarrow> u32"
  sig_hmask :: "nat \<Rightarrow> u32"
  sig_hflags :: "nat \<Rightarrow> u32"
  sig_active :: bool
  sig_delivered :: nat
  sig_saved_eip :: u32
  sig_saved_esp :: u32
  sig_saved_eflags :: u32
  sig_saved_blocked :: u32
  stop_sig :: nat
  stop_reported :: bool
  continued :: bool
  itimer_remaining :: nat
  itimer_interval :: nat
  vtimer_remaining :: nat
  vtimer_interval :: nat
  ptimer_remaining :: nat
  ptimer_interval :: nat
  uticks :: nat
  sticks :: nat

datatype waitq = Task_wait nat | Timer_wq | Other_wq nat

record kernel =
  tasks :: "nat \<Rightarrow> task"
  task_list :: "nat list"
  current :: nat
  next_pid :: nat
  wqs :: "waitq \<Rightarrow> nat list"
  freed_tasks :: "nat list"
  tss_esp0 :: u32
  cr3 :: u32

abbreviation tsk :: "kernel \<Rightarrow> nat \<Rightarrow> task" where
  "tsk k p \<equiv> tasks k p"

abbreviation state_of :: "kernel \<Rightarrow> nat \<Rightarrow> task_state" where
  "state_of k p \<equiv> tstate (tasks k p)"

definition upd_task :: "nat \<Rightarrow> (task \<Rightarrow> task) \<Rightarrow> kernel \<Rightarrow> kernel" where
  "upd_task p f k = k\<lparr>tasks := (tasks k)(p := f (tasks k p))\<rparr>"

abbreviation set_state :: "nat \<Rightarrow> task_state \<Rightarrow> kernel \<Rightarrow> kernel" where
  "set_state p s \<equiv> upd_task p (\<lambda>t. t\<lparr>tstate := s\<rparr>)"

lemma upd_task_simps [simp]:
  "tasks (upd_task p f k) = (tasks k)(p := f (tasks k p))"
  "task_list (upd_task p f k) = task_list k" "current (upd_task p f k) = current k"
  "next_pid (upd_task p f k) = next_pid k" "wqs (upd_task p f k) = wqs k"
  "freed_tasks (upd_task p f k) = freed_tasks k" "tss_esp0 (upd_task p f k) = tss_esp0 k" "cr3 (upd_task p f k) = cr3 k"
  by (simp_all add: upd_task_def)

section \<open>Task structures\<close>

definition KERNEL_STACK_SIZE :: u32 where "KERNEL_STACK_SIZE = 16384"
definition USER_TEXT_START :: u32 where "USER_TEXT_START = 0x08000000"
definition USER_HEAP_START :: u32 where "USER_HEAP_START = 0x08100000"
definition USER_STACK_TOP :: u32 where "USER_STACK_TOP = 0xC0000000"
definition USER_STACK_SIZE :: u32 where "USER_STACK_SIZE = 0x00100000"
definition RLIM_INFINITY :: u32 where "RLIM_INFINITY = 0xFFFFFFFF"

abbreviation (input) "RLIMIT_STACK \<equiv> (3::nat)"
abbreviation (input) "RLIMIT_NPROC \<equiv> (6::nat)"
abbreviation (input) "RLIMIT_NOFILE \<equiv> (7::nat)"
abbreviation (input) "RLIMIT_MEMLOCK \<equiv> (8::nat)"
abbreviation (input) "RLIMIT_AS \<equiv> (9::nat)"

definition default_limits :: "nat \<Rightarrow> u32" where
  "default_limits = (\<lambda>_. RLIM_INFINITY)(RLIMIT_STACK := 0x00100000, RLIMIT_AS := 0x40000000,
     RLIMIT_NOFILE := 1024, RLIMIT_NPROC := 64, RLIMIT_MEMLOCK := 0)"

definition zero_creds :: creds where
  "zero_creds = \<lparr>uid = 0, euid = 0, suid = 0, gid = 0, egid = 0, sgid = 0, fsuid = 0, fsgid = 0,
     groups = [], umask = 0, personality = 0\<rparr>"

definition zero_mm :: mm_struct where
  "zero_mm = \<lparr>pgd_phys = 0, code_start = 0, code_end = 0, brk_start = 0, brk_end = 0, stack_start = 0,
     stack_end = 0, mmap_base = 0, mmap_end = 0\<rparr>"

text \<open>What \<^verbatim>\<open>memset(task, 0, ...)\<close> leaves; a zero state is \<^verbatim>\<open>TASK_RUNNING\<close>.\<close>

definition zero_task :: task where
  "zero_task = \<lparr>pid = 0, ppid = 0, pgid = 0, sid = 0, cred = zero_creds, rlimit_cur = (\<lambda>_. 0), rlimit_max = (\<lambda>_. 0),
     cleartid = 0, tname = [], priority = 0, tstate = TASK_RUNNING, children = [], mm = zero_mm,
     kernel_stack = 0, kernel_esp = 0, files = [], next_fd = 0, cwd = [], troot = [], exit_code = 0,
     pending = 0, blocked = 0, sig_handlers = (\<lambda>_. 0), sig_hmask = (\<lambda>_. 0), sig_hflags = (\<lambda>_. 0),
     sig_active = False, sig_delivered = 0, sig_saved_eip = 0, sig_saved_esp = 0, sig_saved_eflags = 0,
     sig_saved_blocked = 0, stop_sig = 0, stop_reported = False, continued = False,
     itimer_remaining = 0, itimer_interval = 0, vtimer_remaining = 0, vtimer_interval = 0,
     ptimer_remaining = 0, ptimer_interval = 0, uticks = 0, sticks = 0\<rparr>"

text \<open>\<open>pgd\<close> is the physical address that \<^verbatim>\<open>arch_mm_init\<close> gives the new page directory.\<close>

definition init_task_mm :: "u32 \<Rightarrow> task \<Rightarrow> task" where
  "init_task_mm pgd t = t\<lparr>mm := \<lparr>pgd_phys = pgd, code_start = USER_TEXT_START, code_end = USER_TEXT_START,
     brk_start = USER_HEAP_START, brk_end = USER_HEAP_START, stack_start = USER_STACK_TOP - USER_STACK_SIZE,
     stack_end = USER_STACK_TOP, mmap_base = 0x40000000, mmap_end = 0xBF000000\<rparr>\<rparr>"

text \<open>
  \<open>struct_ok\<close>: \<^verbatim>\<open>kalloc\<close> finds room for the structure; \<open>stack\<close>: what \<^verbatim>\<open>page_alloc\<close> returns, 0 on
  failure. The pid is used up even when the stack cannot be allocated.
\<close>

definition alloc_task :: "bool \<Rightarrow> u32 \<Rightarrow> u32 \<Rightarrow> kernel \<Rightarrow> nat option \<times> kernel" where
  "alloc_task struct_ok stack pgd k =
     (if \<not> struct_ok then (None, k)
      else
        let p = next_pid k;
            t = zero_task\<lparr>rlimit_cur := default_limits, rlimit_max := default_limits, pid := p,
                  tstate := TASK_READY, next_fd := 0, kernel_stack := stack\<rparr>;
            k = k\<lparr>next_pid := w32 (next_pid k + 1), wqs := (wqs k)(Task_wait p := [])\<rparr>
        in if stack = 0 then (None, k)
           else (Some p, upd_task p (\<lambda>_. init_task_mm pgd (t\<lparr>kernel_esp := stack + KERNEL_STACK_SIZE\<rparr>)) k))"

definition free_task :: "nat \<Rightarrow> kernel \<Rightarrow> kernel" where
  "free_task p k = (if p = 0 then k else k\<lparr>freed_tasks := freed_tasks k @ [p]\<rparr>)"

definition add_task :: "nat \<Rightarrow> kernel \<Rightarrow> kernel" where
  "add_task p k = k\<lparr>task_list := task_list k @ [p]\<rparr>"

definition remove_task :: "nat \<Rightarrow> kernel \<Rightarrow> kernel" where
  "remove_task p k = (if p = 0 then k else k\<lparr>task_list := remove1 p (task_list k)\<rparr>)"

definition find_task_by_pid :: "nat \<Rightarrow> kernel \<Rightarrow> nat option" where
  "find_task_by_pid p k = find (\<lambda>q. pid (tsk k q) = p) (task_list k)"

section \<open>Choosing the next task\<close>

definition best_other :: "kernel \<Rightarrow> int" where
  "best_other k = fold (\<lambda>p best.
     if state_of k p \<noteq> TASK_READY \<or> p = current k then best
     else if priority (tsk k p) < best then priority (tsk k p) else best) (task_list k) 1000"

fun round_robin :: "kernel \<Rightarrow> int \<Rightarrow> bool \<Rightarrow> nat list \<Rightarrow> nat option" where
  "round_robin k best found [] = None"
| "round_robin k best found (p # ps) =
     (if state_of k p \<noteq> TASK_READY \<or> priority (tsk k p) \<noteq> best then round_robin k best found ps
      else if found then Some p
      else round_robin k best (p = current k) ps)"

definition wrap_around :: "kernel \<Rightarrow> int \<Rightarrow> nat option" where
  "wrap_around k best =
     find (\<lambda>p. state_of k p = TASK_READY \<and> priority (tsk k p) = best \<and> p \<noteq> current k) (task_list k)"

definition pick_next_task :: "kernel \<Rightarrow> nat \<times> kernel" where
  "pick_next_task k =
     (let best = best_other k; cur = current k in
      if best = 1000 \<and> state_of k cur = TASK_RUNNING then (cur, k)
      else if best \<noteq> 1000 \<and> state_of k cur = TASK_RUNNING \<and> priority (tsk k cur) < best then (cur, k)
      else
        let next = (case round_robin k best False (task_list k) of Some p \<Rightarrow> Some p | None \<Rightarrow> wrap_around k best);
            next = (if next = None \<and> state_of k cur = TASK_READY then Some cur else next)
        in case next of Some p \<Rightarrow> (p, k) | None \<Rightarrow> (0, set_state 0 TASK_RUNNING k))"

text \<open>The page directory of the kernel task is the one its \<open>pgd_phys\<close> records.\<close>

definition schedule :: "kernel \<Rightarrow> kernel" where
  "schedule k =
     (case pick_next_task k of (next, k) \<Rightarrow>
        let prev = current k in
        if next = prev then k
        else
          let k = (if state_of k prev = TASK_RUNNING
                   then set_state prev (if pid (tsk k prev) = 0 \<and> pid (tsk k next) \<noteq> 0 then TASK_BLOCKED else TASK_READY) k
                   else k);
              k = (set_state next TASK_RUNNING k)\<lparr>current := next\<rparr>;
              k = (if pid (tsk k next) \<noteq> 0 then k\<lparr>tss_esp0 := kernel_stack (tsk k next) + KERNEL_STACK_SIZE\<rparr> else k)
          in k\<lparr>cr3 := pgd_phys (mm (tsk k next))\<rparr>)"

section \<open>Wait queues\<close>

definition sleep_on_enter :: "waitq \<Rightarrow> kernel \<Rightarrow> kernel" where
  "sleep_on_enter q k =
     schedule (set_state (current k) TASK_BLOCKED (k\<lparr>wqs := (wqs k)(q := wqs k q @ [current k])\<rparr>))"

definition sleep_on_leave :: "waitq \<Rightarrow> kernel \<Rightarrow> kernel" where
  "sleep_on_leave q k = k\<lparr>wqs := (wqs k)(q := remove1 (current k) (wqs k q))\<rparr>"

definition wake_task :: "nat \<Rightarrow> kernel \<Rightarrow> kernel" where
  "wake_task p k = (if state_of k p = TASK_BLOCKED then set_state p TASK_READY k else k)"

definition wake_up :: "waitq \<Rightarrow> kernel \<Rightarrow> kernel" where
  "wake_up q k = (fold wake_task (wqs k q) k)\<lparr>wqs := (wqs k)(q := [])\<rparr>"

section \<open>Initialisation\<close>

definition sched_init :: "u32 \<Rightarrow> kernel \<Rightarrow> kernel" where
  "sched_init kernel_pgdir k =
     (upd_task 0 (\<lambda>_. zero_task\<lparr>tname := ''kernel'', next_fd := 3, cwd := ''/'', rlimit_cur := default_limits,
        rlimit_max := default_limits, mm := zero_mm\<lparr>pgd_phys := kernel_pgdir\<rparr>\<rparr>) k)
     \<lparr>task_list := 0 # task_list k, wqs := (wqs k)(Task_wait 0 := [])\<rparr>"

section \<open>The choice\<close>

definition ready_others :: "kernel \<Rightarrow> nat set" where
  "ready_others k = {p \<in> set (task_list k). state_of k p = TASK_READY \<and> p \<noteq> current k}"

definition sane_priorities :: "kernel \<Rightarrow> bool" where
  "sane_priorities k \<longleftrightarrow> distinct (task_list k) \<and> (\<forall>p \<in> set (task_list k). priority (tsk k p) < 1000)"

definition best_step :: "kernel \<Rightarrow> nat \<Rightarrow> nat \<Rightarrow> int \<Rightarrow> int" where
  "best_step k c p best = (if state_of k p \<noteq> TASK_READY \<or> p = c then best
     else if priority (tsk k p) < best then priority (tsk k p) else best)"

lemma best_step:
  "best_step k c p b \<le> b" "state_of k p = TASK_READY \<Longrightarrow> p \<noteq> c \<Longrightarrow> best_step k c p b \<le> priority (tsk k p)"
  "best_step k c p b = b \<or> state_of k p = TASK_READY \<and> p \<noteq> c \<and> best_step k c p b = priority (tsk k p)"
  by (auto simp: best_step_def)

lemma best_other_fold:
  "fold (best_step k c) ps b \<le> b \<and>
   (\<forall>p \<in> set ps. state_of k p = TASK_READY \<and> p \<noteq> c \<longrightarrow> fold (best_step k c) ps b \<le> priority (tsk k p)) \<and>
   (fold (best_step k c) ps b = b \<or>
     (\<exists>p \<in> set ps. state_of k p = TASK_READY \<and> p \<noteq> c \<and> fold (best_step k c) ps b = priority (tsk k p)))"
proof (induction ps arbitrary: b)
  case (Cons p ps)
  let ?r = "fold (best_step k c) ps (best_step k c p b)"
  note ih = Cons.IH [of "best_step k c p b"]
  have r: "fold (best_step k c) (p # ps) b = ?r" by simp
  have le: "?r \<le> best_step k c p b" using ih by blast
  have "?r \<le> b" using le best_step(1) order_trans by blast
  moreover have "?r \<le> priority (tsk k p)" if "state_of k p = TASK_READY" "p \<noteq> c"
    using le best_step(2) [OF that] order_trans by blast
  ultimately show ?case unfolding r using ih best_step(3) [of k c p b] by auto
qed simp

lemma best_other_eq: "best_other k = fold (best_step k (current k)) (task_list k) 1000"
  unfolding best_other_def by (intro fold_cong) (simp_all add: best_step_def fun_eq_iff)

lemma best_other_le: "p \<in> ready_others k \<Longrightarrow> best_other k \<le> priority (tsk k p)"
  using best_other_fold [of k "current k" "task_list k" 1000] by (auto simp: best_other_eq ready_others_def)

lemma best_other_attained:
  "best_other k = 1000 \<or> (\<exists>p \<in> ready_others k. priority (tsk k p) = best_other k)"
  using best_other_fold [of k "current k" "task_list k" 1000]
  by (auto simp: best_other_eq ready_others_def)

lemma best_other_none: "sane_priorities k \<Longrightarrow> best_other k = 1000 \<longleftrightarrow> ready_others k = {}"
  using best_other_le [of _ k] best_other_attained [of k]
  by (force simp: sane_priorities_def ready_others_def)

lemma round_robin_Some:
  "round_robin k best found ps = Some p \<Longrightarrow> distinct ps \<Longrightarrow> (found \<longrightarrow> current k \<notin> set ps) \<Longrightarrow>
    p \<in> set ps \<and> state_of k p = TASK_READY \<and> priority (tsk k p) = best \<and> p \<noteq> current k"
  by (induction k best found ps rule: round_robin.induct) (auto split: if_splits)

lemma wrap_around_Some:
  "wrap_around k best = Some p \<Longrightarrow> p \<in> ready_others k \<and> priority (tsk k p) = best"
  by (auto simp: wrap_around_def ready_others_def find_Some_iff)

lemma wrap_around_None:
  "wrap_around k best = None \<longleftrightarrow> (\<forall>p \<in> ready_others k. priority (tsk k p) \<noteq> best)"
  by (auto simp: wrap_around_def ready_others_def find_None_iff)

lemma pick_cases:
  assumes "sane_priorities k"
  shows "pick_next_task k =
    (if state_of k (current k) = TASK_RUNNING \<and> (\<forall>p \<in> ready_others k. priority (tsk k (current k)) < priority (tsk k p))
     then (current k, k)
     else if ready_others k \<noteq> {} then (fst (pick_next_task k), k)
     else if state_of k (current k) = TASK_READY then (current k, k)
     else (0, set_state 0 TASK_RUNNING k))
   \<and> (ready_others k \<noteq> {} \<and> \<not> (state_of k (current k) = TASK_RUNNING \<and>
        (\<forall>p \<in> ready_others k. priority (tsk k (current k)) < priority (tsk k p))) \<longrightarrow>
      fst (pick_next_task k) \<in> ready_others k \<and> priority (tsk k (fst (pick_next_task k))) = best_other k)"
proof (cases "ready_others k = {}")
  case True
  have best: "best_other k = 1000" using best_other_none [OF assms] True by simp
  have rr: "round_robin k 1000 False (task_list k) = None"
  proof (rule ccontr)
    assume "round_robin k 1000 False (task_list k) \<noteq> None"
    then obtain p where "round_robin k 1000 False (task_list k) = Some p" by blast
    from round_robin_Some [OF this] assms show False by (auto simp: sane_priorities_def)
  qed
  have "wrap_around k 1000 = None" using True by (simp add: wrap_around_None)
  then show ?thesis using True best rr by (simp add: pick_next_task_def Let_def)
next
  case False
  then have best: "best_other k \<noteq> 1000" using best_other_none [OF assms] by simp
  then obtain q where q: "q \<in> ready_others k" "priority (tsk k q) = best_other k"
    using best_other_attained by blast
  have all: "(\<forall>p \<in> ready_others k. priority (tsk k (current k)) < priority (tsk k p)) \<longleftrightarrow>
      priority (tsk k (current k)) < best_other k"
    using q best_other_le by fastforce
  obtain p where p: "(case round_robin k (best_other k) False (task_list k) of Some p \<Rightarrow> Some p
      | None \<Rightarrow> wrap_around k (best_other k)) = Some p" "p \<in> ready_others k" "priority (tsk k p) = best_other k"
  proof (cases "round_robin k (best_other k) False (task_list k)")
    case None
    have "wrap_around k (best_other k) \<noteq> None" using q by (auto simp: wrap_around_None)
    then show ?thesis using that None wrap_around_Some by fastforce
  next
    case (Some p)
    then show ?thesis using that round_robin_Some [OF Some] assms by (auto simp: sane_priorities_def ready_others_def)
  qed
  show ?thesis unfolding all using False best p by (auto simp: pick_next_task_def Let_def)
qed

text \<open>
  C28: the scheduler respects priorities. If another task is ready, then the current task goes
  on only if it is running and has a strictly better nice value than every ready task, and
  otherwise a ready task with the best nice value is chosen; blocked, stopped and zombie tasks
  are never chosen. If no other task is ready, the current task goes on if it can, and
  otherwise the kernel task idles.
\<close>

theorem pick_next_task_priority:
  assumes "sane_priorities k" "pick_next_task k = (next, k')"
  shows "if ready_others k = {} then
      next = (if state_of k (current k) \<in> {TASK_RUNNING, TASK_READY} then current k else 0)
    else if state_of k (current k) = TASK_RUNNING \<and> (\<forall>p \<in> ready_others k. priority (tsk k (current k)) < priority (tsk k p))
    then next = current k
    else next \<in> ready_others k \<and> (\<forall>p \<in> ready_others k. priority (tsk k next) \<le> priority (tsk k p))"
  using pick_cases [OF assms(1)] assms(2) best_other_le [of _ k] by (auto split: if_splits)

text \<open>A kernel with the kernel task and user tasks, all of nice value 0, the first one running.\<close>

definition demo_kernel :: "nat list \<Rightarrow> kernel" where
  "demo_kernel ps = \<lparr>tasks = (\<lambda>p. zero_task\<lparr>pid := p, tstate :=
       (if p = 0 then TASK_BLOCKED else if p = hd ps then TASK_RUNNING else TASK_READY)\<rparr>),
     task_list = 0 # ps, current = hd ps, next_pid = 100, wqs = (\<lambda>_. []), freed_tasks = [],
     tss_esp0 = KERNEL_STACK_SIZE, cr3 = 0\<rparr>"

theorem pick_next_task_priority_witness:
  "fst (pick_next_task (demo_kernel [1, 2, 3])) \<in> {2, 3}"
proof -
  let ?k = "demo_kernel [1, 2, 3]"
  have s: "sane_priorities ?k" by (simp add: sane_priorities_def demo_kernel_def zero_task_def)
  have r: "ready_others ?k = {2, 3}" by (auto simp: ready_others_def demo_kernel_def)
  obtain n k' where p: "pick_next_task ?k = (n, k')" by fastforce
  have "priority (tsk ?k p) = 0" for p by (simp add: demo_kernel_def zero_task_def)
  then show ?thesis using pick_next_task_priority [OF s p] p r by (auto split: if_splits)
qed

section \<open>One running task\<close>

definition sched_inv :: "kernel \<Rightarrow> bool" where
  "sched_inv k \<longleftrightarrow> (\<forall>p. pid (tsk k p) = p) \<and> sane_priorities k \<and> 0 \<in> set (task_list k) \<and> current k \<in> set (task_list k)
     \<and> (\<forall>p \<in> set (task_list k). state_of k p = TASK_RUNNING \<longrightarrow> p = current k)
     \<and> (current k \<noteq> 0 \<longrightarrow> tss_esp0 k = kernel_stack (tsk k (current k)) + KERNEL_STACK_SIZE)
     \<and> cr3 k = pgd_phys (mm (tsk k (current k)))"

lemma ready_others_in: "p \<in> ready_others k \<Longrightarrow> p \<in> set (task_list k) \<and> p \<noteq> current k \<and> state_of k p = TASK_READY"
  by (simp add: ready_others_def)

lemma upd_task_same_pid: "\<forall>p. pid (tsk k p) = p \<Longrightarrow> (\<And>t. pid (f t) = pid t) \<Longrightarrow> \<forall>p. pid (tsk (upd_task q f k) p) = p"
  by simp

text \<open>A change of one task that touches neither its identity nor the machine state.\<close>

definition harmless :: "(task \<Rightarrow> task) \<Rightarrow> bool" where
  "harmless f \<longleftrightarrow> (\<forall>t. pid (f t) = pid t \<and> (priority t < 1000 \<longrightarrow> priority (f t) < 1000)
     \<and> (tstate (f t) = TASK_RUNNING \<longrightarrow> tstate t = TASK_RUNNING)
     \<and> kernel_stack (f t) = kernel_stack t \<and> pgd_phys (mm (f t)) = pgd_phys (mm t))"

lemma sched_inv_upd: "sched_inv k \<Longrightarrow> harmless f \<Longrightarrow> sched_inv (upd_task p f k)"
  unfolding sched_inv_def sane_priorities_def harmless_def by (simp, metis)

lemma harmless_state: "s \<noteq> TASK_RUNNING \<Longrightarrow> harmless (\<lambda>t. t\<lparr>tstate := s\<rparr>)"
  by (simp add: harmless_def)

lemma sched_inv_cong:
  "sched_inv k \<Longrightarrow> tasks k' = tasks k \<Longrightarrow> task_list k' = task_list k \<Longrightarrow> current k' = current k \<Longrightarrow>
    tss_esp0 k' = tss_esp0 k \<Longrightarrow> cr3 k' = cr3 k \<Longrightarrow> sched_inv k'"
  by (simp add: sched_inv_def sane_priorities_def)

lemma wake_task_inv: "sched_inv k \<Longrightarrow> sched_inv (wake_task p k)"
  by (simp add: wake_task_def sched_inv_upd harmless_state)

lemma wake_up_inv: "sched_inv k \<Longrightarrow> sched_inv (wake_up q k)"
proof -
  have "sched_inv k \<Longrightarrow> sched_inv (fold wake_task ps k)" for ps
    by (induction ps arbitrary: k) (simp_all add: wake_task_inv)
  then show "sched_inv k \<Longrightarrow> sched_inv (wake_up q k)"
    unfolding wake_up_def by (rule sched_inv_cong) auto
qed

lemma pick_in_list:
  assumes "sched_inv k" "pick_next_task k = (next, k1)"
  shows "next \<in> set (task_list k) \<and> (k1 = k \<or> next = 0 \<and> k1 = set_state 0 TASK_RUNNING k)
    \<and> (state_of k1 next = TASK_RUNNING \<or> state_of k1 next = TASK_READY)"
proof -
  have s: "sane_priorities k" "0 \<in> set (task_list k)" "current k \<in> set (task_list k)"
    using assms(1) by (simp_all add: sched_inv_def)
  let ?better = "state_of k (current k) = TASK_RUNNING \<and>
    (\<forall>p \<in> ready_others k. priority (tsk k (current k)) < priority (tsk k p))"
  have eq: "(next, k1) = (if ?better then (current k, k) else if ready_others k \<noteq> {} then (next, k)
      else if state_of k (current k) = TASK_READY then (current k, k) else (0, set_state 0 TASK_RUNNING k))"
    and ro: "ready_others k \<noteq> {} \<Longrightarrow> \<not> ?better \<Longrightarrow> next \<in> ready_others k"
    using pick_cases [OF s(1)] unfolding assms(2) fst_conv by blast+
  consider "?better" | "\<not> ?better" "ready_others k \<noteq> {}" | "\<not> ?better" "ready_others k = {}" by blast
  then show ?thesis
  proof cases
    case 1
    then show ?thesis using eq s(3) by simp
  next
    case 2
    have "(next, k1) = (next, k)" using eq unfolding if_not_P [OF 2(1)] if_P [OF 2(2)] .
    then show ?thesis using ready_others_in [OF ro [OF 2(2,1)]] by simp
  next
    case 3
    then show ?thesis using eq s(2,3) by (auto split: if_splits)
  qed
qed

lemma schedule_inv:
  assumes "sched_inv k"
  shows "sched_inv (schedule k) \<and> state_of (schedule k) (current (schedule k)) \<in> {TASK_RUNNING, TASK_READY}"
proof -
  obtain n k1 where p: "pick_next_task k = (n, k1)" by fastforce
  note pk = pick_in_list [OF assms p]
  have idle: "k1 = set_state 0 TASK_RUNNING k \<or> k1 = k" using pk by blast
  have inv: "\<forall>p. pid (tsk k1 p) = p" "sane_priorities k1" "0 \<in> set (task_list k1)" "current k1 = current k"
    "task_list k1 = task_list k" "\<forall>p. mm (tsk k1 p) = mm (tsk k p) \<and> kernel_stack (tsk k1 p) = kernel_stack (tsk k p)"
    "tss_esp0 k1 = tss_esp0 k" "cr3 k1 = cr3 k"
    using idle assms by (auto simp: sched_inv_def sane_priorities_def)
  have run: "\<forall>p \<in> set (task_list k). state_of k1 p = TASK_RUNNING \<longrightarrow> p = current k \<or> p = n"
    using pk assms by (auto simp: sched_inv_def)
  show ?thesis
  proof (cases "n = current k")
    case True
    then have "schedule k = k1" using p inv(4) by (simp add: schedule_def Let_def)
    then show ?thesis using pk inv run assms True by (auto simp: sched_inv_def)
  next
    case False
    then show ?thesis
      using p inv run assms pk
      by (auto simp: schedule_def Let_def sched_inv_def sane_priorities_def)
  qed
qed

lemma sleep_on_enter_inv: "sched_inv k \<Longrightarrow> sched_inv (sleep_on_enter q k)"
proof -
  assume "sched_inv k"
  then have "sched_inv (k\<lparr>wqs := (wqs k)(q := wqs k q @ [current k])\<rparr>)" by (rule sched_inv_cong) simp_all
  then show "sched_inv (sleep_on_enter q k)"
    unfolding sleep_on_enter_def by (intro conjunct1 [OF schedule_inv] sched_inv_upd harmless_state) simp_all
qed

text \<open>
  C29: one task runs, on its own stack and page directory. Rescheduling, sleeping and waking
  preserve that no task but the current one is in the running state, that the ring-0 stack
  pointer in the TSS is the top of the current task's kernel stack, and that CR3 holds its page
  directory; and after a switch the current task is running or ready, never blocked, stopped or
  a zombie.
\<close>

theorem schedule_one_running:
  assumes "sched_inv k"
  shows "sched_inv (schedule k) \<and> sched_inv (sleep_on_enter q k) \<and> sched_inv (wake_up q k)
    \<and> state_of (schedule k) (current (schedule k)) \<in> {TASK_RUNNING, TASK_READY}"
  using schedule_inv [OF assms] sleep_on_enter_inv [OF assms] wake_up_inv [OF assms] by blast

lemma demo_kernel_inv:
  "distinct ps \<Longrightarrow> 0 \<notin> set ps \<Longrightarrow> ps \<noteq> [] \<Longrightarrow> sched_inv (demo_kernel ps)"
  by (auto simp: sched_inv_def sane_priorities_def demo_kernel_def zero_task_def zero_mm_def KERNEL_STACK_SIZE_def)

theorem schedule_one_running_witness:
  "sched_inv (schedule (demo_kernel [1, 2])) \<and> sched_inv (sleep_on_enter Timer_wq (demo_kernel [1, 2]))"
  using schedule_one_running [OF demo_kernel_inv, of "[1, 2]"] by simp

section \<open>Sleeping and waking\<close>

lemma wake_fold:
  "tasks (fold wake_task ps k) = (\<lambda>p. if p \<in> set ps \<and> state_of k p = TASK_BLOCKED
      then (tsk k p)\<lparr>tstate := TASK_READY\<rparr> else tsk k p)
   \<and> task_list (fold wake_task ps k) = task_list k \<and> current (fold wake_task ps k) = current k
   \<and> wqs (fold wake_task ps k) = wqs k \<and> freed_tasks (fold wake_task ps k) = freed_tasks k
   \<and> next_pid (fold wake_task ps k) = next_pid k \<and> tss_esp0 (fold wake_task ps k) = tss_esp0 k
   \<and> cr3 (fold wake_task ps k) = cr3 k"
  by (induction ps arbitrary: k) (auto simp: wake_task_def fun_eq_iff)

lemma wake_up_simps [simp]:
  "tasks (wake_up q k) = (\<lambda>p. if p \<in> set (wqs k q) \<and> state_of k p = TASK_BLOCKED
      then (tsk k p)\<lparr>tstate := TASK_READY\<rparr> else tsk k p)"
  "task_list (wake_up q k) = task_list k" "current (wake_up q k) = current k"
  "wqs (wake_up q k) = (wqs k)(q := [])" "freed_tasks (wake_up q k) = freed_tasks k"
  "next_pid (wake_up q k) = next_pid k" "tss_esp0 (wake_up q k) = tss_esp0 k" "cr3 (wake_up q k) = cr3 k"
  using wake_fold [of "wqs k q" k] by (simp_all add: wake_up_def)

lemma schedule_wqs [simp]: "wqs (schedule k) = wqs k" "task_list (schedule k) = task_list k"
  by (auto simp: schedule_def pick_next_task_def Let_def split: prod.splits option.splits)

lemma schedule_blocked:
  assumes "sched_inv k" "state_of k p = TASK_BLOCKED" "p \<noteq> 0"
  shows "state_of (schedule k) p = TASK_BLOCKED \<and> current (schedule k) \<noteq> p"
proof -
  obtain n k1 where pk: "pick_next_task k = (n, k1)" by fastforce
  note pick = pick_in_list [OF assms(1) pk]
  have "n \<noteq> p" using pick assms(2,3) by auto
  moreover have "state_of k1 p = TASK_BLOCKED" "current k1 = current k" using pick assms(2,3) by auto
  ultimately show ?thesis using pk assms(2) by (auto simp: schedule_def Let_def)
qed

lemma sleeper_stays:
  assumes "sched_inv k" "current k \<noteq> 0"
  shows "sched_inv ((schedule ^^ n) (sleep_on_enter q k)) \<and> current ((schedule ^^ n) (sleep_on_enter q k)) \<noteq> current k
    \<and> state_of ((schedule ^^ n) (sleep_on_enter q k)) (current k) = TASK_BLOCKED
    \<and> current k \<in> set (wqs ((schedule ^^ n) (sleep_on_enter q k)) q)"
proof (induction n)
  case 0
  let ?k0 = "set_state (current k) TASK_BLOCKED (k\<lparr>wqs := (wqs k)(q := wqs k q @ [current k])\<rparr>)"
  have inv0: "sched_inv ?k0"
    by (intro sched_inv_upd harmless_state) (rule sched_inv_cong [OF assms(1)], simp_all)
  have "state_of ?k0 (current k) = TASK_BLOCKED" "current k \<in> set (wqs ?k0 q)" by simp_all
  then show ?case
    using schedule_inv [OF inv0] schedule_blocked [OF inv0 _ assms(2)] unfolding sleep_on_enter_def by simp
next
  case (Suc n)
  then show ?case using schedule_inv schedule_blocked [OF _ _ assms(2)] by simp
qed

text \<open>
  no wake-up is lost. A task that goes to sleep is taken off the CPU and stays blocked until
  the queue it sleeps on is woken, whatever is scheduled in between; the wake-up makes it and
  every other sleeper of the queue ready and leaves the queue empty.
\<close>

theorem sleep_then_wake:
  assumes "sched_inv k" "current k \<noteq> 0"
  shows "let p = current k; k1 = (schedule ^^ n) (sleep_on_enter q k) in
    current k1 \<noteq> p \<and> state_of k1 p = TASK_BLOCKED \<and> state_of (wake_up q k1) p = TASK_READY
    \<and> wqs (wake_up q k1) q = []"
  using sleeper_stays [OF assms, of n q] by (simp add: Let_def)

theorem sleep_then_wake_witness:
  "state_of (sleep_on_enter Timer_wq (demo_kernel [1, 2])) 1 = TASK_BLOCKED"
  using sleep_then_wake [OF demo_kernel_inv, of "[1, 2]" 0 Timer_wq] by (simp add: demo_kernel_def Let_def)

section \<open>Round robin\<close>

text \<open>
  The loop that looks for the task after the current one only notices the current task when it
  is ready. When the timer preempts a running task, the search starts at the head of the list.
\<close>

lemma round_robin_running:
  "state_of k (current k) \<noteq> TASK_READY \<Longrightarrow> round_robin k best False ps = None"
proof (induction ps)
  case (Cons p ps)
  assume "state_of k (current k) \<noteq> TASK_READY"
  then show ?case using Cons by (cases "p = current k") auto
qed simp

definition alternating :: "nat \<Rightarrow> nat \<Rightarrow> nat \<Rightarrow> nat \<Rightarrow> kernel \<Rightarrow> bool" where
  "alternating p a b c k \<longleftrightarrow> task_list k = [0, a, b, c] \<and> distinct [0, a, b, c] \<and>
     (\<forall>q \<in> {0, a, b, c}. pid (tsk k q) = q) \<and> state_of k 0 = TASK_BLOCKED \<and>
     (\<forall>q \<in> {a, b, c}. priority (tsk k q) = priority (tsk k a)) \<and> priority (tsk k a) < 1000 \<and>
     current k = p \<and> p \<in> {a, b} \<and> (\<forall>q \<in> {a, b, c}. state_of k q = (if q = p then TASK_RUNNING else TASK_READY))"

lemma alternating_step:
  assumes "alternating p a b c k"
  shows "alternating (if p = a then b else a) a b c (schedule k)"
proof -
  let ?n = "if p = a then b else a"
  note al = assms [unfolded alternating_def]
  have l: "task_list k = [0, a, b, c]" "current k = p" and ne: "a \<noteq> b" "a \<noteq> c" "b \<noteq> c" "a \<noteq> 0" "b \<noteq> 0" "c \<noteq> 0"
    and st: "state_of k 0 = TASK_BLOCKED" "state_of k c = TASK_READY"
      "state_of k a = (if p = a then TASK_RUNNING else TASK_READY)"
      "state_of k b = (if p = a then TASK_READY else TASK_RUNNING)"
    and pr: "priority (tsk k b) = priority (tsk k a)" "priority (tsk k c) = priority (tsk k a)" "priority (tsk k a) < 1000"
    and pid: "pid (tsk k a) = a" "pid (tsk k b) = b" "pid (tsk k c) = c" "pid (tsk k 0) = 0" and p: "p = a \<or> p = b"
    using al by auto
  have best: "best_other k = priority (tsk k a)"
    using p ne by (elim disjE) (simp_all add: best_other_def l st pr)
  have "wrap_around k (priority (tsk k a)) = Some ?n"
    using p ne by (elim disjE) (simp_all add: wrap_around_def l st pr)
  moreover have "round_robin k (priority (tsk k a)) False (task_list k) = None"
    using p ne by (intro round_robin_running) (auto simp: l st)
  ultimately have pick: "pick_next_task k = (?n, k)"
    using p ne pr(3) by (elim disjE) (simp_all add: pick_next_task_def best l st pr(1,2) Let_def)
  have run: "state_of k p = TASK_RUNNING" "?n \<noteq> p" "pid (tsk k p) \<noteq> 0" using p ne st pid by auto
  have sched: "tasks (schedule k) = (tasks k)(p := (tsk k p)\<lparr>tstate := TASK_READY\<rparr>, ?n := (tsk k ?n)\<lparr>tstate := TASK_RUNNING\<rparr>)"
    "current (schedule k) = ?n"
    using run by (simp_all add: schedule_def pick l Let_def)
  have ne': "b \<noteq> a" "c \<noteq> a" "c \<noteq> b" "0 \<noteq> a" "0 \<noteq> b" "0 \<noteq> c" using ne by auto
  show ?thesis
  proof (cases "p = a")
    case True
    then show ?thesis by (simp add: alternating_def sched l ne ne' st pr pid)
  next
    case False
    then have "p = b" using p by simp
    then show ?thesis by (simp add: alternating_def sched l ne ne' st pr pid)
  qed
qed

text \<open>
  C40: the scheduler is not a round robin. With three tasks of the same nice value that never
  block, preempted any number of times, the first two alternate and the third never runs.
\<close>

theorem schedule_starves_third:
  assumes "alternating a a b c k"
  shows "current ((schedule ^^ n) k) = (if even n then a else b)"
proof -
  have ab: "a \<noteq> b" using assms by (auto simp: alternating_def)
  have "alternating (if even n then a else b) a b c ((schedule ^^ n) k)"
  proof (induction n)
    case (Suc n)
    then show ?case using alternating_step [OF Suc] ab by (simp split: if_splits)
  qed (use assms in simp)
  then show ?thesis by (simp add: alternating_def)
qed

theorem schedule_starves_third_witness:
  "current ((schedule ^^ 1000000) (demo_kernel [1, 2, 3])) = 1"
proof -
  have "alternating 1 1 2 3 (demo_kernel [1, 2, 3])"
    by (auto simp: alternating_def demo_kernel_def zero_task_def)
  from schedule_starves_third [OF this, of 1000000] show ?thesis by simp
qed

end
