(* ===== verification/Open_File.thy ===== *)
theory Open_File
  imports Sched
begin

text \<open>
  Open files and file descriptors, the table half of \<^verbatim>\<open>fs/vfs.c\<close>. An open file lives at an address;
  descriptors of one or several tasks share it and its reference count says how many do. What
  \<^verbatim>\<open>kalloc\<close> returns is an argument (0 or \<open>False\<close> for failure), what the filesystem drivers answer as
  well, and the calls into drivers and pipes that closing makes are logged as events. Memory from
  \<^verbatim>\<open>kalloc\<close> is not cleared: a field that the code does not initialise keeps its old contents.
\<close>

section \<open>State\<close>

abbreviation (input) "O_RDONLY \<equiv> (0x0001::u32)"
abbreviation (input) "O_WRONLY \<equiv> (0x0002::u32)"
abbreviation (input) "O_RDWR \<equiv> (0x0003::u32)"
abbreviation (input) "O_ACCMODE \<equiv> (0x0003::u32)"
abbreviation (input) "O_NONBLOCK \<equiv> (0x1000::u32)"
abbreviation (input) "O_CLOEXEC \<equiv> (0x2000::u32)"

abbreviation (input) lock_wq :: waitq where "lock_wq \<equiv> Other_wq 0"

record flock_rec =
  r_type :: nat
  r_start :: nat
  r_len :: nat
  r_owner :: nat

record open_file =
  fs_id :: int
  fs_private :: nat
  file_private :: nat
  offset :: nat
  flags :: u32
  refcount :: int
  pipe_end :: "nat option"
  flock_type :: nat
  flock_owner :: nat
  locks :: "flock_rec list"
  is_fifo :: bool

datatype file_event = Driver_close int nat | Bad_driver_index int | Release_read nat | Release_write nat

record fstate =
  kern :: kernel
  ofile :: "nat \<Rightarrow> open_file"
  live :: "nat \<Rightarrow> bool"
  has_close :: "int \<Rightarrow> bool"
  events :: "file_event list"

definition upd_file :: "nat \<Rightarrow> (open_file \<Rightarrow> open_file) \<Rightarrow> fstate \<Rightarrow> fstate" where
  "upd_file a g st = st\<lparr>ofile := (ofile st)(a := g (ofile st a))\<rparr>"

definition cur_files :: "fstate \<Rightarrow> fd_entry list" where
  "cur_files st = files (tsk (kern st) (current (kern st)))"

definition set_files :: "fd_entry list \<Rightarrow> fstate \<Rightarrow> fstate" where
  "set_files fs st = st\<lparr>kern := upd_task (current (kern st)) (\<lambda>t. t\<lparr>files := fs\<rparr>) (kern st)\<rparr>"

definition set_next_fd :: "int \<Rightarrow> fstate \<Rightarrow> fstate" where
  "set_next_fd n st = st\<lparr>kern := upd_task (current (kern st)) (\<lambda>t. t\<lparr>next_fd := n\<rparr>) (kern st)\<rparr>"

abbreviation cur_next_fd :: "fstate \<Rightarrow> int" where
  "cur_next_fd st \<equiv> next_fd (tsk (kern st) (current (kern st)))"

text \<open>Descriptor numbers are \<^verbatim>\<open>int\<close>: the successor of the greatest is the least.\<close>

definition succ_fd :: "int \<Rightarrow> int" where
  "succ_fd n = wrap32 (n + 1)"

section \<open>Open files\<close>

definition alloc_open_file :: "nat \<Rightarrow> int \<Rightarrow> nat \<Rightarrow> nat \<Rightarrow> u32 \<Rightarrow> fstate \<Rightarrow> fstate" where
  "alloc_open_file a fid priv fpriv fl st =
     (if a = 0 then st
      else (upd_file a (\<lambda>f. f\<lparr>fs_id := fid, fs_private := priv, file_private := fpriv, offset := 0, flags := fl,
              refcount := 1, pipe_end := None, flock_type := 0, flock_owner := 0, locks := []\<rparr>) st)
           \<lparr>live := (live st)(a := True)\<rparr>)"

definition locks_release_file :: "nat \<Rightarrow> fstate \<Rightarrow> fstate" where
  "locks_release_file a st =
     (let st = (if locks (ofile st a) \<noteq> []
                then (upd_file a (\<lambda>f. f\<lparr>locks := []\<rparr>) st)\<lparr>kern := wake_up lock_wq (kern st)\<rparr> else st)
      in if flock_type (ofile st a) \<noteq> 0
         then (upd_file a (\<lambda>f. f\<lparr>flock_type := 0, flock_owner := 0\<rparr>) st)\<lparr>kern := wake_up lock_wq (kern st)\<rparr>
         else st)"

text \<open>The call of the driver's \<^verbatim>\<open>close\<close>; the driver table has 16 entries.\<close>

definition driver_close :: "fstate \<Rightarrow> open_file \<Rightarrow> file_event list" where
  "driver_close st f =
     (if fs_id f < 0 \<or> fs_id f \<ge> 16 then [Bad_driver_index (fs_id f)]
      else if has_close st (fs_id f) then [Driver_close (fs_id f) (file_private f)] else [])"

definition close_events :: "fstate \<Rightarrow> open_file \<Rightarrow> file_event list" where
  "close_events st f =
     (case pipe_end f of
        Some p \<Rightarrow>
          (let accmode = flags f AND O_ACCMODE in
           if accmode = O_RDWR then [Release_write p, Release_read p]
           else if accmode = O_WRONLY then [Release_write p] else [Release_read p])
          @ (if is_fifo f then driver_close st f else [])
      | None \<Rightarrow> driver_close st f)"

definition open_file_put :: "nat \<Rightarrow> fstate \<Rightarrow> fstate" where
  "open_file_put a st =
     (if a = 0 then st
      else
        let st = upd_file a (\<lambda>f. f\<lparr>refcount := refcount f - 1\<rparr>) st
        in if refcount (ofile st a) = 0 then
             let st = locks_release_file a st
             in st\<lparr>events := events st @ close_events st (ofile st a), live := (live st)(a := False)\<rparr>
           else st)"

section \<open>Descriptors\<close>

definition find_fd_entry :: "int \<Rightarrow> fstate \<Rightarrow> fd_entry option" where
  "find_fd_entry fd st = find (\<lambda>e. fd_num e = fd) (cur_files st)"

fun drop_fd :: "int \<Rightarrow> fd_entry list \<Rightarrow> fd_entry list" where
  "drop_fd fd [] = []"
| "drop_fd fd (e # es) = (if fd_num e = fd then es else e # drop_fd fd es)"

definition free_fd_entry :: "int \<Rightarrow> fstate \<Rightarrow> fstate" where
  "free_fd_entry fd st = set_files (drop_fd fd (cur_files st)) st"

text \<open>The test against \<^verbatim>\<open>RLIMIT_NOFILE\<close>, for a number of new descriptors.\<close>

definition fd_limit_hit :: "int \<Rightarrow> fstate \<Rightarrow> bool" where
  "fd_limit_hit extra st =
     (let lim = rlimit_cur (tsk (kern st) (current (kern st))) RLIMIT_NOFILE
      in lim \<noteq> RLIM_INFINITY \<and> int (length (cur_files st)) + extra \<ge> to_int (unat lim))"

definition add_fd :: "int \<Rightarrow> nat \<Rightarrow> bool \<Rightarrow> fstate \<Rightarrow> fstate" where
  "add_fd fd a ce st = set_files (cur_files st @ [\<lparr>fd_num = fd, fd_file = a, cloexec = ce\<rparr>]) st"

definition alloc_fd_entry :: "bool \<Rightarrow> nat \<Rightarrow> fstate \<Rightarrow> int option \<times> fstate" where
  "alloc_fd_entry ok a st =
     (if fd_limit_hit 0 st \<or> \<not> ok then (None, st)
      else let fd = cur_next_fd st in (Some fd, add_fd fd a False (set_next_fd (succ_fd fd) st)))"

fun upd_fd :: "int \<Rightarrow> (fd_entry \<Rightarrow> fd_entry) \<Rightarrow> fd_entry list \<Rightarrow> fd_entry list" where
  "upd_fd fd g [] = []"
| "upd_fd fd g (e # es) = (if fd_num e = fd then g e # es else e # upd_fd fd g es)"

definition fs_fd_valid :: "int \<Rightarrow> fstate \<Rightarrow> bool" where
  "fs_fd_valid fd st \<longleftrightarrow> find_fd_entry fd st \<noteq> None"

definition fs_set_cloexec :: "int \<Rightarrow> bool \<Rightarrow> fstate \<Rightarrow> int \<times> fstate" where
  "fs_set_cloexec fd on st =
     (case find_fd_entry fd st of
        None \<Rightarrow> (-1, st)
      | Some e \<Rightarrow> (0, set_files (upd_fd fd (\<lambda>e. e\<lparr>cloexec := on\<rparr>) (cur_files st)) st))"

definition fs_fd_set_cloexec :: "int \<Rightarrow> fstate \<Rightarrow> int \<times> fstate" where
  "fs_fd_set_cloexec fd st =
     (case find_fd_entry fd st of
        None \<Rightarrow> (-EBADF, st)
      | Some e \<Rightarrow> (0, set_files (upd_fd fd (\<lambda>e. e\<lparr>cloexec := True\<rparr>) (cur_files st)) st))"

definition fs_get_cloexec :: "int \<Rightarrow> fstate \<Rightarrow> int" where
  "fs_get_cloexec fd st = (case find_fd_entry fd st of None \<Rightarrow> -1 | Some e \<Rightarrow> if cloexec e then 1 else 0)"

definition fs_fd_set_nonblock :: "int \<Rightarrow> fstate \<Rightarrow> int \<times> fstate" where
  "fs_fd_set_nonblock fd st =
     (case find_fd_entry fd st of
        None \<Rightarrow> (-EBADF, st)
      | Some e \<Rightarrow> (0, upd_file (fd_file e) (\<lambda>f. f\<lparr>flags := flags f OR O_NONBLOCK\<rparr>) st))"

text \<open>
  \<^verbatim>\<open>fs_open\<close> after path resolution has found the mounted filesystem: \<open>drv\<close> is the driver's answer
  (return value and private data), \<open>fifo\<close> the answer of \<^verbatim>\<open>fifo_open_end\<close> if the file is a named
  pipe (return value and the pipe), \<open>a\<close> and \<open>fde_ok\<close> the two allocations.
\<close>

definition fs_open :: "int \<Rightarrow> nat \<Rightarrow> u32 \<Rightarrow> int \<times> nat \<Rightarrow> (int \<times> nat) option \<Rightarrow> nat \<Rightarrow> bool \<Rightarrow> fstate \<Rightarrow> int \<times> fstate" where
  "fs_open fid priv fl drv fifo a fde_ok st =
     (if fst drv \<noteq> 0 then (-1, st)
      else if a = 0 then (-1, st\<lparr>events := events st @ (if has_close st fid then [Driver_close fid (snd drv)] else [])\<rparr>)
      else
        let st = alloc_open_file a fid priv (snd drv) (fl AND NOT O_CLOEXEC) st;
            r = (case fifo of None \<Rightarrow> 0 | Some (r, p) \<Rightarrow> r);
            st = (case fifo of
                    Some (r, p) \<Rightarrow> if r < 0 then st else upd_file a (\<lambda>f. f\<lparr>pipe_end := Some p, is_fifo := True\<rparr>) st
                  | None \<Rightarrow> st)
        in if r < 0 then (r, open_file_put a st)
           else (case alloc_fd_entry fde_ok a st of
                (None, st) \<Rightarrow> (-1, open_file_put a st)
              | (Some fd, st) \<Rightarrow>
                  (fd, set_files (upd_fd fd (\<lambda>e. e\<lparr>cloexec := (fl AND O_CLOEXEC \<noteq> 0)\<rparr>) (cur_files st)) st)))"

definition fs_close :: "int \<Rightarrow> fstate \<Rightarrow> int \<times> fstate" where
  "fs_close fd st =
     (case find_fd_entry fd st of
        None \<Rightarrow> (-1, st)
      | Some e \<Rightarrow> (0, free_fd_entry fd (open_file_put (fd_file e) st)))"

text \<open>\<open>p\<close> is the new pipe; \<open>ra\<close>, \<open>rok\<close>, \<open>wa\<close>, \<open>wok\<close> are the four allocations in order.\<close>

definition fs_pipe :: "nat option \<Rightarrow> nat \<Rightarrow> bool \<Rightarrow> nat \<Rightarrow> bool \<Rightarrow> fstate \<Rightarrow> (int \<times> int) option \<times> fstate" where
  "fs_pipe p ra rok wa wok st =
     (if fd_limit_hit 1 st then (None, st)
      else case p of
        None \<Rightarrow> (None, st)
      | Some p \<Rightarrow>
          if ra = 0 then (None, st\<lparr>events := events st @ [Release_read p]\<rparr>)
          else
            let st = upd_file ra (\<lambda>f. f\<lparr>pipe_end := Some p\<rparr>) (alloc_open_file ra (-1) 0 0 O_RDONLY st)
            in if \<not> rok then (None, st\<lparr>events := events st @ [Release_read p], live := (live st)(ra := False)\<rparr>)
               else
                 let rfd = cur_next_fd st; st = add_fd rfd ra False (set_next_fd (succ_fd rfd) st)
                 in if wa = 0 then
                      (let st = snd (fs_close rfd st) in (None, st\<lparr>events := events st @ [Release_write p]\<rparr>))
                    else
                      let st = upd_file wa (\<lambda>f. f\<lparr>pipe_end := Some p\<rparr>) (alloc_open_file wa (-1) 0 0 O_WRONLY st)
                      in if \<not> wok then
                           (let st = snd (fs_close rfd (st\<lparr>live := (live st)(wa := False)\<rparr>))
                            in (None, st\<lparr>events := events st @ [Release_write p]\<rparr>))
                         else
                           let wfd = cur_next_fd st in (Some (rfd, wfd), add_fd wfd wa False (set_next_fd (succ_fd wfd) st)))"

text \<open>
  The lowest number from \<open>n\<close> on that no descriptor of the list has. Every round that goes on has met another descriptor, so
  there are at most as many as the list is long.
\<close>

fun lowest_fd_loop :: "nat \<Rightarrow> fd_entry list \<Rightarrow> int \<Rightarrow> int" where
  "lowest_fd_loop 0 es n = n"
| "lowest_fd_loop (Suc k) es n = (if n \<in> fd_num ` set es then lowest_fd_loop k es (succ_fd n) else n)"

definition lowest_fd :: "fd_entry list \<Rightarrow> int \<Rightarrow> int" where
  "lowest_fd es n = lowest_fd_loop (length es) es n"

definition bump_next_fd :: "int \<Rightarrow> fstate \<Rightarrow> fstate" where
  "bump_next_fd fd st = (if fd \<ge> cur_next_fd st then set_next_fd (succ_fd fd) st else st)"

definition share_file :: "nat \<Rightarrow> fstate \<Rightarrow> fstate" where
  "share_file a st = upd_file a (\<lambda>f. f\<lparr>refcount := refcount f + 1\<rparr>) st"

definition fs_dup_min :: "bool \<Rightarrow> int \<Rightarrow> int \<Rightarrow> bool \<Rightarrow> fstate \<Rightarrow> int \<times> fstate" where
  "fs_dup_min ok oldfd minfd ce st =
     (case find_fd_entry oldfd st of
        None \<Rightarrow> (-1, st)
      | Some old_fde \<Rightarrow>
          if fd_file old_fde = 0 then (-1, st)
          else
            let newfd = lowest_fd (cur_files st) minfd
            in if \<not> ok then (-1, st)
               else (newfd, add_fd newfd (fd_file old_fde) ce (bump_next_fd newfd (share_file (fd_file old_fde) st))))"

definition fs_dup2_fd :: "bool \<Rightarrow> int \<Rightarrow> int \<Rightarrow> bool \<Rightarrow> fstate \<Rightarrow> int \<times> fstate" where
  "fs_dup2_fd ok oldfd newfd ce st =
     (if newfd < 0 then (-1, st)
      else if oldfd = newfd then
        (case find_fd_entry oldfd st of
           None \<Rightarrow> (-1, st)
         | Some e \<Rightarrow> (newfd, set_files (upd_fd oldfd (\<lambda>e. e\<lparr>cloexec := ce\<rparr>) (cur_files st)) st))
      else case find_fd_entry oldfd st of
          None \<Rightarrow> (-1, st)
        | Some old_fde \<Rightarrow>
            if fd_file old_fde = 0 then (-1, st)
            else
              let st = (case find_fd_entry newfd st of
                          None \<Rightarrow> st
                        | Some e \<Rightarrow> free_fd_entry newfd (open_file_put (fd_file e) st))
              in if \<not> ok then (-1, st)
                 else (newfd, add_fd newfd (fd_file old_fde) ce (bump_next_fd newfd (share_file (fd_file old_fde) st))))"

definition fs_close_on_exec :: "fstate \<Rightarrow> fstate" where
  "fs_close_on_exec st = fold (\<lambda>e st. if cloexec e then snd (fs_close (fd_num e) st) else st) (cur_files st) st"

definition fs_close_range :: "nat \<Rightarrow> nat \<Rightarrow> fstate \<Rightarrow> int \<times> fstate" where
  "fs_close_range first lst st =
     fold (\<lambda>e (closed, st). if fd_num e \<ge> to_int first \<and> fd_num e \<le> to_int lst
              then (closed + 1, snd (fs_close (fd_num e) st)) else (closed, st))
       (cur_files st) (0, st)"

text \<open>
  Seeking. \<open>drv_seek\<close> is the driver's \<^verbatim>\<open>seek\<close> if it has one (an error or the new offset); the result
  is \<open>None\<close> where the code reads the driver table outside its bounds.
\<close>

definition fs_seek :: "(nat \<Rightarrow> int \<Rightarrow> int \<Rightarrow> nat option) option \<Rightarrow> int \<Rightarrow> int \<Rightarrow> int \<Rightarrow> fstate \<Rightarrow> (int \<times> fstate) option" where
  "fs_seek drv_seek fd off whence st =
     (case find_fd_entry fd st of
        None \<Rightarrow> Some (-1, st)
      | Some e \<Rightarrow>
          let a = fd_file e; f = ofile st a in
          if a = 0 then Some (-1, st)
          else if fs_id f < 0 \<or> fs_id f \<ge> 16 then None
          else case drv_seek of
              Some seek \<Rightarrow> (case seek (file_private f) off whence of
                  None \<Rightarrow> Some (-1, st)
                | Some new_offset \<Rightarrow> Some (to_int new_offset, upd_file a (\<lambda>f. f\<lparr>offset := new_offset\<rparr>) st))
            | None \<Rightarrow>
                (let set_to = (\<lambda>n. if n < 0 then Some (-1, st)
                                 else Some (to_int (nat n), upd_file a (\<lambda>f. f\<lparr>offset := nat n\<rparr>) st))
                 in if whence = 0 then set_to off
                    else if whence = 1 then set_to (wrap32 (to_int (offset f) + off))
                    else Some (-1, st)))"

section \<open>Lists of descriptors\<close>

lemma cur_files_simps [simp]:
  "cur_files (set_files fs st) = fs" "cur_files (set_next_fd n st) = cur_files st" "cur_files (upd_file a g st) = cur_files st"
  by (simp_all add: cur_files_def set_files_def set_next_fd_def upd_file_def)

lemma fstate_simps [simp]:
  "ofile (set_files fs st) = ofile st" "live (set_files fs st) = live st" "events (set_files fs st) = events st"
  "ofile (set_next_fd n st) = ofile st" "live (set_next_fd n st) = live st" "events (set_next_fd n st) = events st"
  "kern (upd_file a g st) = kern st" "live (upd_file a g st) = live st" "events (upd_file a g st) = events st"
  "ofile (upd_file a g st) = (ofile st)(a := g (ofile st a))"
  "has_close (set_files fs st) = has_close st" "has_close (set_next_fd n st) = has_close st" "has_close (upd_file a g st) = has_close st"
  by (simp_all add: set_files_def set_next_fd_def upd_file_def)

lemma find_fd_entry_Some:
  "find_fd_entry fd st = Some e \<Longrightarrow> e \<in> set (cur_files st) \<and> fd_num e = fd"
  by (auto simp: find_fd_entry_def find_Some_iff)

lemma find_fd_entry_None: "find_fd_entry fd st = None \<longleftrightarrow> fd \<notin> fd_num ` set (cur_files st)"
  by (auto simp: find_fd_entry_def find_None_iff)

lemma succ_fd_less: "- 2147483648 \<le> n \<Longrightarrow> n < 2147483647 \<Longrightarrow> succ_fd n = n + 1"
  by (simp add: succ_fd_def)

lemma succ_fd_last: "succ_fd 2147483647 = - 2147483648"
  by (simp add: succ_fd_def wrap32_def to_int_def)

text \<open>The search finds the lowest free number when no descriptor has the greatest one.\<close>

lemma lowest_fd_loop_spec:
  assumes "\<forall>e \<in> set es. fd_num e < m" "m \<le> 2147483647" "- 2147483648 \<le> n" "card {i \<in> fd_num ` set es. n \<le> i} \<le> k"
  shows "n \<le> lowest_fd_loop k es n \<and> lowest_fd_loop k es n \<le> max n m \<and> lowest_fd_loop k es n \<notin> fd_num ` set es \<and>
    (\<forall>i. n \<le> i \<and> i < lowest_fd_loop k es n \<longrightarrow> i \<in> fd_num ` set es)"
  using assms(3,4)
proof (induction k arbitrary: n)
  case 0
  then have "{i \<in> fd_num ` set es. n \<le> i} = {}" by simp
  then show ?case by auto
next
  case (Suc k)
  show ?case
  proof (cases "n \<in> fd_num ` set es")
    case True
    then have n: "n < m" using assms(1) by auto
    then have s: "succ_fd n = n + 1" using Suc.prems(1) assms(2) by (intro succ_fd_less) simp_all
    have "{i \<in> fd_num ` set es. n + 1 \<le> i} \<subset> {i \<in> fd_num ` set es. n \<le> i}" using True by force
    then have "card {i \<in> fd_num ` set es. n + 1 \<le> i} < card {i \<in> fd_num ` set es. n \<le> i}" by (simp add: psubset_card_mono)
    then have I: "n + 1 \<le> lowest_fd_loop k es (n + 1) \<and> lowest_fd_loop k es (n + 1) \<le> max (n + 1) m \<and>
        lowest_fd_loop k es (n + 1) \<notin> fd_num ` set es \<and>
        (\<forall>i. n + 1 \<le> i \<and> i < lowest_fd_loop k es (n + 1) \<longrightarrow> i \<in> fd_num ` set es)"
      using Suc.prems by (intro Suc.IH) simp_all
    moreover have "i \<in> fd_num ` set es" if "n \<le> i" "i < lowest_fd_loop k es (n + 1)" for i
      using that True I by (cases "i = n") auto
    ultimately show ?thesis using True n by (simp add: s)
  qed auto
qed

lemma lowest_fd_spec:
  assumes "\<forall>e \<in> set es. fd_num e < m" "m \<le> 2147483647" "- 2147483648 \<le> n"
  shows "n \<le> lowest_fd es n" "lowest_fd es n \<le> max n m" "lowest_fd es n \<notin> fd_num ` set es"
    "n \<le> i \<Longrightarrow> i < lowest_fd es n \<Longrightarrow> i \<in> fd_num ` set es"
proof -
  have "card {i \<in> fd_num ` set es. n \<le> i} \<le> card (fd_num ` set es)" by (rule card_mono) auto
  also have "\<dots> \<le> length es" using card_image_le [of "set es" fd_num] card_length [of es] by simp
  finally have c: "card {i \<in> fd_num ` set es. n \<le> i} \<le> length es" .
  note L = lowest_fd_loop_spec [OF assms c, folded lowest_fd_def]
  show "n \<le> lowest_fd es n" "lowest_fd es n \<le> max n m" "lowest_fd es n \<notin> fd_num ` set es"
    "n \<le> i \<Longrightarrow> i < lowest_fd es n \<Longrightarrow> i \<in> fd_num ` set es" using L by blast+
qed

text \<open>How many descriptors of all tasks refer to a file.\<close>

definition refs :: "kernel \<Rightarrow> nat \<Rightarrow> nat" where
  "refs k a = (\<Sum>p \<in> set (task_list k). count_list (map fd_file (files (tsk k p))) a)"

definition fds_ok :: "task \<Rightarrow> bool" where
  "fds_ok t \<longleftrightarrow> distinct (map fd_num (files t)) \<and> (\<forall>e \<in> set (files t). fd_num e < next_fd t \<and> fd_file e \<noteq> 0)"

text \<open>
  The invariant, with the difference \<open>ext\<close> between the counts and the descriptors that there is in
  the middle of an operation. \<open>N\<close> says whether it speaks of the numbers of the descriptors too, which an overflow of
  \<^verbatim>\<open>next_fd\<close> destroys.
\<close>

definition inv_num :: "bool \<Rightarrow> (nat \<Rightarrow> int) \<Rightarrow> fstate \<Rightarrow> bool" where
  "inv_num N ext st \<longleftrightarrow> current (kern st) \<in> set (task_list (kern st)) \<and>
     (\<forall>p \<in> set (task_list (kern st)). (\<forall>e \<in> set (files (tsk (kern st) p)). fd_file e \<noteq> 0) \<and> (N \<longrightarrow> fds_ok (tsk (kern st) p))) \<and>
     (\<forall>a. 0 \<le> int (refs (kern st) a) + ext a \<and> (live st a \<longleftrightarrow> 0 < int (refs (kern st) a) + ext a) \<and>
        (live st a \<longrightarrow> refcount (ofile st a) = int (refs (kern st) a) + ext a))"

definition count_inv :: "fstate \<Rightarrow> bool" where
  "count_inv st \<longleftrightarrow> inv_num False (\<lambda>_. 0) st"

definition file_inv :: "fstate \<Rightarrow> bool" where
  "file_inv st \<longleftrightarrow> inv_num True (\<lambda>_. 0) st"

lemma inv_num_weak: "inv_num True ext st \<Longrightarrow> inv_num N ext st"
  by (auto simp: inv_num_def)

abbreviation "inv_ext \<equiv> inv_num True"

lemma inv_ext_iff:
  "inv_ext ext st \<longleftrightarrow> current (kern st) \<in> set (task_list (kern st)) \<and> (\<forall>p \<in> set (task_list (kern st)). fds_ok (tsk (kern st) p)) \<and>
     (\<forall>a. 0 \<le> int (refs (kern st) a) + ext a \<and> (live st a \<longleftrightarrow> 0 < int (refs (kern st) a) + ext a) \<and>
        (live st a \<longrightarrow> refcount (ofile st a) = int (refs (kern st) a) + ext a))"
  by (auto simp: inv_num_def fds_ok_def)

text \<open>The counts are right, and the numbers too under the condition \<open>c\<close>.\<close>

lemma inv_numI: "(\<And>N. (N \<Longrightarrow> c) \<Longrightarrow> inv_num N (\<lambda>_. 0) st) \<Longrightarrow> count_inv st \<and> (c \<longrightarrow> file_inv st)"
  by (simp add: count_inv_def file_inv_def)

lemma inv_numD: "count_inv st \<and> (c \<longrightarrow> file_inv st) \<Longrightarrow> (N \<Longrightarrow> c) \<Longrightarrow> inv_num N (\<lambda>_. 0) st"
  by (cases N) (auto simp: count_inv_def file_inv_def)

lemma file_count: "file_inv st \<Longrightarrow> count_inv st"
  unfolding file_inv_def count_inv_def by (rule inv_num_weak)

definition same_files :: "kernel \<Rightarrow> kernel \<Rightarrow> bool" where
  "same_files k l \<longleftrightarrow> task_list k = task_list l \<and> current k = current l \<and>
     (\<forall>p. files (tsk k p) = files (tsk l p) \<and> next_fd (tsk k p) = next_fd (tsk l p) \<and> rlimit_cur (tsk k p) = rlimit_cur (tsk l p))"

lemma same_files_refs: "same_files k l \<Longrightarrow> refs k = refs l"
  by (simp add: same_files_def refs_def fun_eq_iff)

lemma same_files_wake: "same_files (wake_up q k) k"
  by (simp add: same_files_def)

lemma inv_num_cong:
  assumes "inv_num N ext st" "same_files (kern st') (kern st)" "\<And>a. ext a = ext' a" "live st' = live st"
    "\<And>a. live st a \<Longrightarrow> refcount (ofile st' a) = refcount (ofile st a)"
  shows "inv_num N ext' st'"
  using assms(1) same_files_refs [OF assms(2)] assms(2-5) unfolding inv_num_def same_files_def fds_ok_def by auto

lemma locks_release_file_simps:
  "same_files (kern (locks_release_file a st)) (kern st) \<and> live (locks_release_file a st) = live st \<and>
   (\<forall>b. b \<noteq> a \<longrightarrow> ofile (locks_release_file a st) b = ofile st b) \<and>
   has_close (locks_release_file a st) = has_close st \<and> events (locks_release_file a st) = events st \<and>
   (let f = ofile st a; f' = ofile (locks_release_file a st) a in f' = f\<lparr>flock_type := flock_type f', flock_owner := flock_owner f', locks := []\<rparr>)"
  by (simp add: locks_release_file_def Let_def same_files_def)

lemma close_events_cong:
  "has_close st = has_close st' \<Longrightarrow> pipe_end f = pipe_end f' \<Longrightarrow> flags f = flags f' \<Longrightarrow> is_fifo f = is_fifo f'
    \<Longrightarrow> fs_id f = fs_id f' \<Longrightarrow> file_private f = file_private f' \<Longrightarrow> close_events st f = close_events st' f'"
  by (cases "pipe_end f'") (simp_all add: close_events_def driver_close_def)

lemma put_simps:
  assumes "a \<noteq> 0"
  shows "same_files (kern (open_file_put a st)) (kern st) \<and>
    live (open_file_put a st) = (if refcount (ofile st a) = 1 then (live st)(a := False) else live st) \<and>
    (\<forall>b. b \<noteq> a \<longrightarrow> ofile (open_file_put a st) b = ofile st b) \<and>
    (refcount (ofile st a) \<noteq> 1 \<longrightarrow> refcount (ofile (open_file_put a st) a) = refcount (ofile st a) - 1) \<and>
    events (open_file_put a st) = events st @ (if refcount (ofile st a) = 1 then close_events st (ofile st a) else []) \<and>
    has_close (open_file_put a st) = has_close st"
proof (cases "refcount (ofile st a) = 1")
  case True
  let ?s = "upd_file a (\<lambda>f. f\<lparr>refcount := refcount f - 1\<rparr>) st" and ?t = "locks_release_file a (upd_file a (\<lambda>f. f\<lparr>refcount := refcount f - 1\<rparr>) st)"
  note l = locks_release_file_simps [of a ?s]
  have "close_events ?t (ofile ?t a) = close_events st (ofile st a)"
  proof -
    have "ofile ?t a = (ofile ?s a)\<lparr>flock_type := flock_type (ofile ?t a), flock_owner := flock_owner (ofile ?t a), locks := []\<rparr>"
      using l by (simp only: Let_def)
    then obtain x y where "ofile ?t a = (ofile st a)\<lparr>refcount := refcount (ofile st a) - 1, flock_type := x, flock_owner := y, locks := []\<rparr>"
      by auto
    then show ?thesis using l by (intro close_events_cong) simp_all
  qed
  then show ?thesis using True l assms by (auto simp: open_file_put_def Let_def same_files_def)
next
  case False
  then show ?thesis using assms by (simp add: open_file_put_def same_files_def)
qed

lemma inv_put:
  assumes "inv_num N ext st" "live st a" "a \<noteq> 0"
  shows "inv_num N (ext(a := ext a - 1)) (open_file_put a st)"
proof -
  note p = put_simps [OF assms(3), of st]
  have "refs (kern (open_file_put a st)) = refs (kern st)" by (rule same_files_refs) (use p in blast)
  moreover have "current (kern (open_file_put a st)) = current (kern st)" "task_list (kern (open_file_put a st)) = task_list (kern st)"
    "\<And>p. fds_ok (tsk (kern (open_file_put a st)) p) = fds_ok (tsk (kern st) p)"
    "\<And>p. files (tsk (kern (open_file_put a st)) p) = files (tsk (kern st) p)"
    using p by (simp_all add: same_files_def fds_ok_def)
  moreover have "refcount (ofile st a) = int (refs (kern st) a) + ext a" using assms(1,2) by (simp add: inv_num_def)
  ultimately show ?thesis using assms(1,2) p unfolding inv_num_def by auto
qed

lemma refs_set_files:
  assumes "current (kern st) \<in> set (task_list (kern st))"
  shows "int (refs (kern (set_files fs st)) a) = int (refs (kern st) a) - int (count_list (map fd_file (cur_files st)) a)
    + int (count_list (map fd_file fs) a)"
proof -
  let ?k = "kern st" and ?c = "current (kern st)" and ?T = "set (task_list (kern st))"
  have "refs (kern (set_files fs st)) a = count_list (map fd_file fs) a + (\<Sum>p \<in> ?T - {?c}. count_list (map fd_file (files (tsk ?k p))) a)"
    unfolding refs_def set_files_def using assms by (simp add: sum.remove [of _ ?c])
  moreover have "refs ?k a = count_list (map fd_file (cur_files st)) a + (\<Sum>p \<in> ?T - {?c}. count_list (map fd_file (files (tsk ?k p))) a)"
    unfolding refs_def cur_files_def using assms by (simp add: sum.remove [of _ ?c])
  ultimately show ?thesis by simp
qed

lemma inv_set_files:
  assumes "inv_num N ext st" "N \<Longrightarrow> distinct (map fd_num fs)" "\<And>e. e \<in> set fs \<Longrightarrow> (N \<longrightarrow> fd_num e < cur_next_fd st) \<and> fd_file e \<noteq> 0"
  shows "inv_num N (\<lambda>a. ext a + int (count_list (map fd_file (cur_files st)) a) - int (count_list (map fd_file fs) a)) (set_files fs st)"
proof -
  have c: "current (kern st) \<in> set (task_list (kern st))" using assms(1) by (simp add: inv_num_def)
  have "(\<forall>e \<in> set (files (tsk (kern (set_files fs st)) p)). fd_file e \<noteq> 0) \<and> (N \<longrightarrow> fds_ok (tsk (kern (set_files fs st)) p))"
    if "p \<in> set (task_list (kern st))" for p
    using that assms by (auto simp: set_files_def fds_ok_def inv_num_def)
  moreover have "task_list (kern (set_files fs st)) = task_list (kern st)" "current (kern (set_files fs st)) = current (kern st)"
    by (simp_all add: set_files_def)
  ultimately show ?thesis using assms(1) refs_set_files [OF c, of fs] unfolding inv_num_def by simp
qed

lemma inv_share: "inv_num N ext st \<Longrightarrow> live st a \<Longrightarrow> inv_num N (ext(a := ext a + 1)) (share_file a st)"
  unfolding inv_num_def share_file_def by auto

lemma inv_alloc:
  assumes "inv_num N ext st" "\<not> live st a" "a \<noteq> 0"
  shows "inv_num N (ext(a := ext a + 1)) (alloc_open_file a i pr fp fl st)"
proof -
  have "int (refs (kern st) a) + ext a = 0" using assms unfolding inv_num_def by (metis less_le)
  then show ?thesis using assms unfolding inv_num_def alloc_open_file_def by auto
qed

lemma inv_next_fd: "inv_num N ext st \<Longrightarrow> (N \<Longrightarrow> cur_next_fd st \<le> n) \<Longrightarrow> inv_num N ext (set_next_fd n st)"
proof -
  assume a: "inv_num N ext st" "N \<Longrightarrow> cur_next_fd st \<le> n"
  have "fds_ok (tsk (kern (set_next_fd n st)) p)" if "N" "fds_ok (tsk (kern st) p)" for p
    using that a(2) unfolding fds_ok_def set_next_fd_def by (cases "p = current (kern st)") force+
  moreover have "files (tsk (kern (set_next_fd n st)) p) = files (tsk (kern st) p)" for p by (simp add: set_next_fd_def upd_task_def)
  moreover have "refs (kern (set_next_fd n st)) = refs (kern st)"
    unfolding refs_def set_next_fd_def by (intro ext sum.cong) simp_all
  moreover have "task_list (kern (set_next_fd n st)) = task_list (kern st)" "current (kern (set_next_fd n st)) = current (kern st)"
    by (simp_all add: set_next_fd_def)
  ultimately show ?thesis using a(1) unfolding inv_num_def by simp
qed

lemma inv_num_eq: "inv_num N ext st \<Longrightarrow> (\<And>a. ext a = ext' a) \<Longrightarrow> inv_num N ext' st"
  by (metis ext)

lemma inv_file_fields:
  assumes "inv_num N ext st" "refcount (g (ofile st a)) = refcount (ofile st a)"
  shows "inv_num N ext (upd_file a g st)"
  using assms unfolding inv_num_def by auto

text \<open>Changing descriptors without changing their numbers and files.\<close>

lemma upd_fd_map:
  assumes "\<And>e. fd_num (g e) = fd_num e \<and> fd_file (g e) = fd_file e"
  shows "map fd_num (upd_fd fd g es) = map fd_num es" "map fd_file (upd_fd fd g es) = map fd_file es"
  by (induction es) (simp_all add: assms)

lemma map_pair_set: "map fd_num es = map fd_num es' \<Longrightarrow> map fd_file es = map fd_file es' \<Longrightarrow> e \<in> set es
    \<Longrightarrow> \<exists>e' \<in> set es'. fd_num e' = fd_num e \<and> fd_file e' = fd_file e"
proof (induction es arbitrary: es')
  case (Cons x xs)
  then obtain y ys where es': "es' = y # ys" "fd_num y = fd_num x" "fd_file y = fd_file x" "map fd_num xs = map fd_num ys" "map fd_file xs = map fd_file ys"
    by (cases es') auto
  show ?case
  proof (cases "e = x")
    case False
    then show ?thesis using Cons.IH [OF es'(4,5)] Cons.prems(3) es'(1) by auto
  qed (use es' in auto)
qed simp

lemma inv_cur: "inv_num N ext st \<Longrightarrow> (N \<longrightarrow> distinct (map fd_num (cur_files st))) \<and>
    (\<forall>e \<in> set (cur_files st). (N \<longrightarrow> fd_num e < cur_next_fd st) \<and> fd_file e \<noteq> 0)"
  unfolding inv_num_def fds_ok_def cur_files_def by auto

lemma inv_same_map:
  assumes "inv_num N ext st" "map fd_num fs = map fd_num (cur_files st)" "map fd_file fs = map fd_file (cur_files st)"
  shows "inv_num N ext (set_files fs st)"
proof -
  note c = inv_cur [OF assms(1)]
  have "(N \<longrightarrow> fd_num e < cur_next_fd st) \<and> fd_file e \<noteq> 0" if "e \<in> set fs" for e
    using map_pair_set [OF assms(2,3) that] c by force
  moreover have "N \<Longrightarrow> distinct (map fd_num fs)" using c assms(2) by simp
  ultimately show ?thesis using inv_set_files [OF assms(1), of fs] unfolding assms(3) by simp
qed

lemma inv_upd_fd: "inv_num N ext st \<Longrightarrow> inv_num N ext (set_files (upd_fd fd (\<lambda>e. e\<lparr>cloexec := c\<rparr>) (cur_files st)) st)"
  by (rule inv_same_map) (simp_all add: upd_fd_map)

text \<open>Adding and removing a descriptor.\<close>

lemma inv_add_fd:
  assumes "inv_num N ext st" "N \<Longrightarrow> fd \<notin> fd_num ` set (cur_files st)" "N \<Longrightarrow> fd < cur_next_fd st" "a \<noteq> 0"
  shows "inv_num N (ext(a := ext a - 1)) (add_fd fd a ce st)"
  unfolding add_fd_def
proof (rule inv_num_eq [OF inv_set_files [OF assms(1)]])
  note c = inv_cur [OF assms(1)]
  show "N \<Longrightarrow> distinct (map fd_num (cur_files st @ [\<lparr>fd_num = fd, fd_file = a, cloexec = ce\<rparr>]))" using c assms(2) by auto
  show "(N \<longrightarrow> fd_num e < cur_next_fd st) \<and> fd_file e \<noteq> 0" if "e \<in> set (cur_files st @ [\<lparr>fd_num = fd, fd_file = a, cloexec = ce\<rparr>])" for e
    using that c assms(3,4) by auto
  show "ext b + int (count_list (map fd_file (cur_files st)) b)
      - int (count_list (map fd_file (cur_files st @ [\<lparr>fd_num = fd, fd_file = a, cloexec = ce\<rparr>])) b) = (ext(a := ext a - 1)) b" for b
    by (auto simp: count_list_append)
qed

lemma drop_fd_facts:
  "set (drop_fd fd es) \<subseteq> set es" "distinct (map fd_num es) \<Longrightarrow> distinct (map fd_num (drop_fd fd es))"
  "distinct (map fd_num es) \<Longrightarrow> fd \<notin> fd_num ` set (drop_fd fd es)"
  "find (\<lambda>e. fd_num e = fd) es = Some e \<Longrightarrow>
    int (count_list (map fd_file (drop_fd fd es)) a) = int (count_list (map fd_file es) a) - (if a = fd_file e then 1 else 0)"
proof (induction es)
  case (Cons x xs)
  { case 1 then show ?case using Cons by auto }
  { case 2 then show ?case using Cons by (auto dest!: subsetD [OF Cons(1)] simp: image_iff) }
  { case 3 then show ?case using Cons by auto }
  { case 4 then show ?case using Cons by (auto split: if_splits) }
qed auto

lemma inv_free_fd:
  assumes "inv_num N ext st" "find_fd_entry fd st = Some e"
  shows "inv_num N (ext(fd_file e := ext (fd_file e) + 1)) (free_fd_entry fd st)"
  unfolding free_fd_entry_def
proof (rule inv_num_eq [OF inv_set_files [OF assms(1)]])
  note c = inv_cur [OF assms(1)]
  show "N \<Longrightarrow> distinct (map fd_num (drop_fd fd (cur_files st)))" using c by (simp add: drop_fd_facts(2))
  show "(N \<longrightarrow> fd_num x < cur_next_fd st) \<and> fd_file x \<noteq> 0" if "x \<in> set (drop_fd fd (cur_files st))" for x
    using that c drop_fd_facts(1) by blast
  show "ext b + int (count_list (map fd_file (cur_files st)) b) - int (count_list (map fd_file (drop_fd fd (cur_files st))) b)
      = (ext(fd_file e := ext (fd_file e) + 1)) b" for b
    using drop_fd_facts(4) [OF assms(2) [unfolded find_fd_entry_def], of b] by auto
qed

lemma entry_live:
  assumes "inv_num N ext st" "e \<in> set (cur_files st)" "0 \<le> ext (fd_file e)"
  shows "live st (fd_file e)" "fd_file e \<noteq> 0" "0 < refs (kern st) (fd_file e)"
proof -
  have "fd_file e \<in> set (map fd_file (cur_files st))" using assms(2) by simp
  then have "0 < count_list (map fd_file (cur_files st)) (fd_file e)" by (metis count_list_0_iff neq0_conv)
  then show r: "0 < refs (kern st) (fd_file e)"
    using assms(1) unfolding refs_def inv_num_def cur_files_def by (auto intro!: sum_pos2)
  then show "live st (fd_file e)" using assms(1,3) unfolding inv_num_def by auto
  show "fd_file e \<noteq> 0" using inv_cur [OF assms(1)] assms(2) by blast
qed

lemma put_same [simp]: "a \<noteq> 0 \<Longrightarrow> cur_files (open_file_put a st) = cur_files st"
    "a \<noteq> 0 \<Longrightarrow> cur_next_fd (open_file_put a st) = cur_next_fd st"
  using put_simps [of a st] by (simp_all add: same_files_def cur_files_def)

lemma inv_close:
  assumes "inv_num N ext st" "\<And>e. e \<in> set (cur_files st) \<Longrightarrow> 0 \<le> ext (fd_file e)"
  shows "inv_num N ext (snd (fs_close fd st))"
proof (cases "find_fd_entry fd st")
  case None
  then show ?thesis using assms(1) by (simp add: fs_close_def)
next
  case (Some e)
  note e = find_fd_entry_Some [OF Some]
  note l = entry_live [OF assms(1) conjunct1 [OF e] assms(2) [OF conjunct1 [OF e]]]
  have "find_fd_entry fd (open_file_put (fd_file e) st) = Some e" using Some l(2) by (simp add: find_fd_entry_def)
  from inv_free_fd [OF inv_put [OF assms(1) l(1,2)] this]
  have "inv_num N (ext(fd_file e := ext (fd_file e))) (snd (fs_close fd st))" by (simp add: fs_close_def Some)
  then show ?thesis by simp
qed

lemma inv_fold_close: "inv_num N (\<lambda>_. 0) st \<Longrightarrow> inv_num N (\<lambda>_. 0) (fold (\<lambda>e st. if P e then snd (fs_close (fd_num e) st) else st) es st)"
  by (induction es arbitrary: st) (auto intro: inv_close)

lemma inv_fold_range:
  "inv_num N (\<lambda>_. 0) st \<Longrightarrow> inv_num N (\<lambda>_. 0) (snd (fold (\<lambda>e (n, st). if P e then (n + 1, snd (fs_close (fd_num e) st)) else (n, st)) es (m, st)))"
  by (induction es arbitrary: m st) (auto intro: inv_close)

text \<open>Numbers that have a successor.\<close>

abbreviation (input) room :: "int \<Rightarrow> bool" where
  "room n \<equiv> - 2147483648 \<le> n \<and> n < 2147483647"

lemma bump_facts: "cur_files (bump_next_fd fd st) = cur_files st" "room fd \<Longrightarrow> fd < cur_next_fd (bump_next_fd fd st)" "live (bump_next_fd fd st) = live st"
  "ofile (bump_next_fd fd st) = ofile st"
  by (simp_all add: bump_next_fd_def) (simp add: set_next_fd_def succ_fd_less)

lemma inv_bump: "inv_num N ext st \<Longrightarrow> (N \<Longrightarrow> room fd) \<Longrightarrow> inv_num N ext (bump_next_fd fd st)"
  by (auto simp: bump_next_fd_def succ_fd_less intro!: inv_next_fd)

lemma cur_files_share [simp]: "cur_files (share_file a st) = cur_files st"
  by (simp add: share_file_def)

text \<open>A second descriptor for a file that has one.\<close>

lemma inv_dup:
  assumes "inv_num N (\<lambda>_. 0) st" "live st a" "a \<noteq> 0" "N \<Longrightarrow> fd \<notin> fd_num ` set (cur_files st)" "N \<Longrightarrow> room fd"
  shows "inv_num N (\<lambda>_. 0) (add_fd fd a ce (bump_next_fd fd (share_file a st)))"
proof -
  have "inv_num N ((\<lambda>_. 0)(a := 1)) (bump_next_fd fd (share_file a st))"
    using inv_bump [OF inv_share [OF assms(1,2)] assms(5)] by simp
  from inv_add_fd [OF this, of fd a ce] show ?thesis using assms(3-5) by (simp add: bump_facts fun_upd_def cong: if_cong)
qed

lemma inv_dup_min:
  assumes "inv_num N (\<lambda>_. 0) st" "N \<Longrightarrow> cur_next_fd st \<le> 2147483647 \<and> room minfd" "N \<Longrightarrow> room (lowest_fd (cur_files st) minfd)"
  shows "inv_num N (\<lambda>_. 0) (snd (fs_dup_min ok oldfd minfd ce st))"
proof -
  have "N \<Longrightarrow> lowest_fd (cur_files st) minfd \<notin> fd_num ` set (cur_files st)"
    by (rule lowest_fd_spec(3) [where m = "cur_next_fd st"]) (use assms(2) inv_cur [OF assms(1)] in auto)
  then show ?thesis using assms(1,3) entry_live [OF assms(1)] find_fd_entry_Some
    by (auto simp: fs_dup_min_def Let_def split: option.splits intro!: inv_dup)
qed

lemma inv_dup2:
  assumes "inv_num N (\<lambda>_. 0) st" "N \<Longrightarrow> newfd < 2147483647"
  shows "inv_num N (\<lambda>_. 0) (snd (fs_dup2_fd ok oldfd newfd ce st))"
proof (cases "newfd < 0 \<or> oldfd = newfd")
  case True
  then show ?thesis using assms by (auto simp: fs_dup2_fd_def inv_upd_fd split: option.splits)
next
  case False
  show ?thesis
  proof (cases "find_fd_entry oldfd st")
    case None
    then show ?thesis using False assms by (simp add: fs_dup2_fd_def)
  next
    case (Some old)
    note old = find_fd_entry_Some [OF Some]
    define st1 where "st1 = (case find_fd_entry newfd st of None \<Rightarrow> st | Some e \<Rightarrow> free_fd_entry newfd (open_file_put (fd_file e) st))"
    have st1: "st1 = snd (fs_close newfd st)" by (simp add: st1_def fs_close_def split: option.splits)
    have inv1: "inv_num N (\<lambda>_. 0) st1" unfolding st1 by (rule inv_close [OF assms(1)]) simp
    have cf: "cur_files st1 = drop_fd newfd (cur_files st)"
    proof (cases "find_fd_entry newfd st")
      case None
      then have "drop_fd newfd es = es" if "set es \<subseteq> set (cur_files st)" for es
        using that unfolding find_fd_entry_None by (induction es) auto
      then show ?thesis by (simp add: st1_def None)
    next
      case (Some e)
      then have "fd_file e \<noteq> 0" using inv_cur [OF assms(1)] find_fd_entry_Some [OF Some] by blast
      then show ?thesis by (simp add: st1_def Some free_fd_entry_def)
    qed
    have "find (\<lambda>e. fd_num e = oldfd) (drop_fd newfd es) = find (\<lambda>e. fd_num e = oldfd) es" for es
      using False by (induction es) auto
    then have mem: "old \<in> set (cur_files st1)" using Some unfolding cf find_fd_entry_def by (metis find_Some_iff nth_mem)
    have fresh: "N \<Longrightarrow> newfd \<notin> fd_num ` set (cur_files st1)" unfolding cf using inv_cur [OF assms(1)] drop_fd_facts(3) by blast
    note l = entry_live [OF inv1 mem]
    have "fd_file old \<noteq> 0" using l(2) by simp
    then have "snd (fs_dup2_fd ok oldfd newfd ce st) =
        (if ok then add_fd newfd (fd_file old) ce (bump_next_fd newfd (share_file (fd_file old) st1)) else st1)"
      using False Some by (simp add: fs_dup2_fd_def Let_def st1_def)
    then show ?thesis using inv1 inv_dup [OF inv1 l(1,2) fresh] assms(2) False by simp
  qed
qed

lemma inv_kfree:
  assumes "inv_num N (ext(a := 1)) st" "refs (kern st) a = 0"
  shows "inv_num N (ext(a := 0)) (st\<lparr>events := evs, live := (live st)(a := False)\<rparr>)"
proof -
  have *: "0 \<le> int (refs (kern st) b) + ext b \<and> (live st b \<longleftrightarrow> 0 < int (refs (kern st) b) + ext b) \<and>
      (live st b \<longrightarrow> refcount (ofile st b) = int (refs (kern st) b) + ext b)" if "b \<noteq> a" for b
    using assms(1) that unfolding inv_num_def by (metis fun_upd_other)
  show ?thesis using assms * unfolding inv_num_def by simp
qed

lemma inv_events [simp]: "inv_num N ext (st\<lparr>events := evs\<rparr>) = inv_num N ext st"
  by (simp add: inv_num_def)

lemma cur_files_misc [simp]:
  "cur_files (st\<lparr>events := evs\<rparr>) = cur_files st" "cur_files (st\<lparr>live := l\<rparr>) = cur_files st"
  "cur_files (alloc_open_file a i pr fp fl st) = cur_files st"
  by (simp_all add: cur_files_def alloc_open_file_def upd_file_def)

lemma alloc_simps [simp]:
  "a \<noteq> 0 \<Longrightarrow> live (alloc_open_file a i pr fp fl st) = (live st)(a := True)" "kern (alloc_open_file a i pr fp fl st) = kern st"
  "a \<noteq> 0 \<Longrightarrow> refcount (ofile (alloc_open_file a i pr fp fl st) a) = 1"
  by (simp_all add: alloc_open_file_def upd_file_def)

lemma inv_new_fd:
  assumes "inv_num N ext st" "a \<noteq> 0" "N \<Longrightarrow> room (cur_next_fd st)"
  shows "inv_num N (ext(a := ext a - 1)) (add_fd (cur_next_fd st) a ce (set_next_fd (succ_fd (cur_next_fd st)) st))"
proof (rule inv_add_fd)
  show "inv_num N ext (set_next_fd (succ_fd (cur_next_fd st)) st)" by (rule inv_next_fd [OF assms(1)]) (use assms(3) in \<open>simp add: succ_fd_less\<close>)
  show "N \<Longrightarrow> cur_next_fd st \<notin> fd_num ` set (cur_files (set_next_fd (succ_fd (cur_next_fd st)) st))" using inv_cur [OF assms(1)] by auto
  show "N \<Longrightarrow> cur_next_fd st < cur_next_fd (set_next_fd (succ_fd (cur_next_fd st)) st)" using assms(3) by (simp add: set_next_fd_def succ_fd_less)
qed (rule assms(2))

lemma inv_open:
  assumes "inv_num N (\<lambda>_. 0) st" "\<not> live st a" "N \<Longrightarrow> room (cur_next_fd st)"
  shows "inv_num N (\<lambda>_. 0) (snd (fs_open fid priv fl drv fifo a fde_ok st))"
proof (cases "fst drv \<noteq> 0 \<or> a = 0")
  case True
  then show ?thesis using assms(1) by (auto simp: fs_open_def)
next
  case False
  define r where "r = (case fifo of None \<Rightarrow> 0 | Some (r, p) \<Rightarrow> r)"
  define st1 where "st1 = alloc_open_file a fid priv (snd drv) (fl AND NOT O_CLOEXEC) st"
  define st2 where "st2 = (case fifo of
      Some (r, p) \<Rightarrow> if r < 0 then st1 else upd_file a (\<lambda>f. f\<lparr>pipe_end := Some p, is_fifo := True\<rparr>) st1 | None \<Rightarrow> st1)"
  have "inv_num N ((\<lambda>_. 0)(a := 1)) st1" unfolding st1_def using inv_alloc [OF assms(1,2)] False by fastforce
  then have inv2: "inv_num N ((\<lambda>_. 0)(a := 1)) st2"
    unfolding st2_def by (auto split: option.splits simp: inv_file_fields)
  have l2: "live st2 a" using False by (auto simp: st2_def st1_def split: option.splits)
  have z: "((\<lambda>_. 0)(a := 1)) (a := ((\<lambda>_. 0)(a := 1)) a - 1) = (\<lambda>_. 0 :: int)" by auto
  have nf: "cur_next_fd st2 = cur_next_fd st" by (auto simp: st2_def st1_def split: option.splits)
  have put: "inv_num N (\<lambda>_. 0) (open_file_put a st2)" using inv_put [OF inv2 l2] False unfolding z by simp
  have new: "inv_num N (\<lambda>_. 0) (add_fd (cur_next_fd st2) a False (set_next_fd (succ_fd (cur_next_fd st2)) st2))"
    using inv_new_fd [OF inv2, of a False] assms(3) False unfolding z nf by simp
  have "snd (fs_open fid priv fl drv fifo a fde_ok st) =
     (if r < 0 \<or> fd_limit_hit 0 st2 \<or> \<not> fde_ok then open_file_put a st2
      else let st = add_fd (cur_next_fd st2) a False (set_next_fd (succ_fd (cur_next_fd st2)) st2)
           in set_files (upd_fd (cur_next_fd st2) (\<lambda>e. e\<lparr>cloexec := (fl AND O_CLOEXEC \<noteq> 0)\<rparr>) (cur_files st)) st)"
    using False unfolding fs_open_def Let_def st1_def [symmetric] r_def [symmetric] st2_def [symmetric]
    by (simp add: alloc_fd_entry_def Let_def)
  then show ?thesis using put inv_upd_fd [OF new] by (simp add: Let_def)
qed

lemma inv_pipe_end:
  assumes "inv_num N ext st" "\<not> live st a" "a \<noteq> 0"
  shows "inv_num N (ext(a := ext a + 1)) (upd_file a (\<lambda>f. f\<lparr>pipe_end := Some p\<rparr>) (alloc_open_file a i 0 0 fl st))"
  by (rule inv_file_fields [OF inv_alloc [OF assms]]) simp

lemma refs_dead: "inv_num N (\<lambda>_. 0) st \<Longrightarrow> \<not> live st a \<Longrightarrow> refs (kern st) a = 0"
  unfolding inv_num_def by auto

lemma inv_pipe:
  assumes "inv_num N (\<lambda>_. 0) st" "\<not> live st ra" "\<not> live st wa" "ra \<noteq> wa" "N \<Longrightarrow> - 2147483648 \<le> cur_next_fd st \<and> cur_next_fd st < 2147483646"
  shows "inv_num N (\<lambda>_. 0) (snd (fs_pipe p ra rok wa wok st))"
proof (cases "fd_limit_hit 1 st \<or> p = None \<or> ra = 0")
  case True
  then show ?thesis using assms(1) by (auto simp: fs_pipe_def split: option.splits)
next
  case False
  then obtain q where p: "p = Some q" "ra \<noteq> 0" "\<not> fd_limit_hit 1 st" by auto
  define st1 where "st1 = upd_file ra (\<lambda>f. f\<lparr>pipe_end := Some q\<rparr>) (alloc_open_file ra (-1) 0 0 O_RDONLY st)"
  define st2 where "st2 = add_fd (cur_next_fd st1) ra False (set_next_fd (succ_fd (cur_next_fd st1)) st1)"
  define st3 where "st3 = upd_file wa (\<lambda>f. f\<lparr>pipe_end := Some q\<rparr>) (alloc_open_file wa (-1) 0 0 O_WRONLY st2)"
  have z: "((\<lambda>_. 0)(a := 0 + 1)) (a := ((\<lambda>_. 0)(a := 0 + 1)) a - 1) = (\<lambda>_. 0 :: int)" "((\<lambda>_. 0)(a := 0)) = (\<lambda>_. 0 :: int)" for a :: nat by auto
  have i1: "inv_num N ((\<lambda>_. 0)(ra := 0 + 1)) st1" unfolding st1_def by (rule inv_pipe_end [OF assms(1,2) p(2)])
  have n1: "N \<Longrightarrow> room (cur_next_fd st1)" using assms(5) by (force simp: st1_def)
  have i2: "inv_num N (\<lambda>_. 0) st2" unfolding st2_def using inv_new_fd [OF i1 p(2) n1, of False] unfolding z by simp
  have c2: "inv_num N (\<lambda>_. 0) (snd (fs_close fd st2))" for fd by (rule inv_close [OF i2]) simp
  have k1: "kern st1 = kern st" by (simp add: st1_def)
  have free1: "inv_num N (\<lambda>_. 0) (st1\<lparr>events := evs, live := (live st1)(ra := False)\<rparr>)" for evs
    using inv_kfree [of N "\<lambda>_. 0" ra st1 evs] i1 refs_dead [OF assms(1,2)] unfolding k1 z by simp
  have l2: "\<not> live st2 wa" using assms(3,4) p(2) by (simp add: st2_def st1_def add_fd_def)
  show ?thesis
  proof (cases "rok \<and> wa \<noteq> 0")
    case True
    have i3: "inv_num N ((\<lambda>_. 0)(wa := 0 + 1)) st3" unfolding st3_def by (rule inv_pipe_end [OF i2 l2]) (use True in simp)
    have n3: "N \<Longrightarrow> room (cur_next_fd st3)" using assms(5) by (auto simp: st3_def st2_def st1_def add_fd_def set_files_def set_next_fd_def succ_fd_less)
    have "inv_num N (\<lambda>_. 0) (add_fd (cur_next_fd st3) wa False (set_next_fd (succ_fd (cur_next_fd st3)) st3))"
      using inv_new_fd [OF i3, of wa False] True n3 unfolding z by simp
    moreover have "inv_num N (\<lambda>_. 0) (st3\<lparr>live := (live st3)(wa := False)\<rparr>)"
    proof -
      have "refs (kern st3) wa = 0" using refs_dead [OF i2 l2] by (simp add: st3_def)
      from inv_kfree [of N "\<lambda>_. 0" wa st3 "events st3", OF _ this] i3 show ?thesis unfolding z by simp
    qed
    ultimately show ?thesis using p True inv_close [of N "\<lambda>_. 0"]
      by (simp add: fs_pipe_def Let_def st1_def [symmetric] st2_def [symmetric] st3_def [symmetric])
  next
    case f: False
    then show ?thesis using p free1 c2
      by (auto simp: fs_pipe_def Let_def st1_def [symmetric] st2_def [symmetric])
  qed
qed

text \<open>
  C23: reference counts are exact. Opening, duplicating, closing, creating pipes, closing on exec and
  closing ranges keep that the count of every open file is the number of descriptors of all tasks
  that refer to it, and that a file without descriptors is freed and a file with descriptors is not;
  this holds on every failure path and whatever the numbers are. As long as no number reaches the
  greatest \<^verbatim>\<open>int\<close>, the descriptor numbers of a task also stay unique and below \<^verbatim>\<open>next_fd\<close>.
\<close>

theorem fd_refcounts:
  assumes "count_inv st" "\<not> live st a" "\<not> live st b" "a \<noteq> b"
    "st' \<in> {snd (fs_open fid priv fl drv fifo a ok st), snd (fs_pipe p a ok b ok' st), snd (fs_close fd st),
      snd (fs_dup_min ok fd minfd ce st), snd (fs_dup2_fd ok fd newfd ce st), fs_close_on_exec st,
      snd (fs_close_range first lst st), snd (fs_set_cloexec fd ce st), snd (fs_fd_set_nonblock fd st)}"
  shows "count_inv st' \<and>
    (file_inv st \<and> 0 \<le> cur_next_fd st \<and> cur_next_fd st < 2147483646 \<and> 0 \<le> minfd \<and> minfd < 2147483647 \<and> newfd < 2147483647 \<longrightarrow> file_inv st')"
proof -
  have gen: "inv_num N (\<lambda>_. 0) st'" if i: "inv_num N (\<lambda>_. 0) st"
    and n: "N \<Longrightarrow> 0 \<le> cur_next_fd st \<and> cur_next_fd st < 2147483646 \<and> 0 \<le> minfd \<and> minfd < 2147483647 \<and> newfd < 2147483647" for N
  proof -
    have low: "room (lowest_fd (cur_files st) minfd)" if N
    proof -
      have l: "\<forall>e \<in> set (cur_files st). fd_num e < cur_next_fd st" using inv_cur [OF i] that by blast
      show ?thesis using lowest_fd_spec(1,2) [OF l, of minfd] n [OF that] by (auto simp: max_def split: if_splits)
    qed
    consider "st' = snd (fs_open fid priv fl drv fifo a ok st)" | "st' = snd (fs_pipe p a ok b ok' st)" | "st' = snd (fs_close fd st)"
      | "st' = snd (fs_dup_min ok fd minfd ce st)" | "st' = snd (fs_dup2_fd ok fd newfd ce st)" | "st' = fs_close_on_exec st"
      | "st' = snd (fs_close_range first lst st)" | "st' = snd (fs_set_cloexec fd ce st)" | "st' = snd (fs_fd_set_nonblock fd st)"
      using assms(5) by blast
    then show ?thesis
    proof cases
      case 1
      show ?thesis unfolding 1 by (rule inv_open [OF i assms(2)]) (use n in auto)
    next
      case 2
      show ?thesis unfolding 2 by (rule inv_pipe [OF i assms(2-4)]) (use n in auto)
    next
      case 3
      show ?thesis unfolding 3 by (rule inv_close [OF i]) simp
    next
      case 4
      show ?thesis unfolding 4 by (rule inv_dup_min [OF i _ low]) (use n in auto)
    next
      case 5
      show ?thesis unfolding 5 by (rule inv_dup2 [OF i]) (use n in auto)
    next
      case 6
      show ?thesis unfolding 6 fs_close_on_exec_def by (rule inv_fold_close [OF i])
    next
      case 7
      show ?thesis unfolding 7 fs_close_range_def by (rule inv_fold_range [OF i])
    next
      case 8
      show ?thesis unfolding 8 using inv_upd_fd [OF i] by (simp add: fs_set_cloexec_def i split: option.splits)
    next
      case 9
      show ?thesis unfolding 9 using inv_file_fields [OF i] by (auto simp: fs_fd_set_nonblock_def i split: option.splits)
    qed
  qed
  show ?thesis using gen [of False] gen [of True] assms(1) by (auto simp: count_inv_def file_inv_def)
qed

text \<open>
  the greatest descriptor number breaks the table of the task. After a \<^verbatim>\<open>dup2\<close> onto it, which any program may ask for,
  the next number is the least \<^verbatim>\<open>int\<close>: a file that is opened then gets this number, which its callers take for an error.
\<close>

theorem dup2_overflows_next_fd:
  assumes "find_fd_entry fd st = Some e" "fd_file e \<noteq> 0" "fd \<noteq> 2147483647" "cur_next_fd st \<le> 2147483647" "st' = snd (fs_dup2_fd True fd 2147483647 ce st)"
  shows "cur_next_fd st' = - 2147483648 \<and> \<not> file_inv st' \<and>
    fst (alloc_fd_entry True a st') \<in> {None, Some (- 2147483648)}"
proof -
  define st1 where "st1 = (case find_fd_entry 2147483647 st of None \<Rightarrow> st | Some e \<Rightarrow> free_fd_entry 2147483647 (open_file_put (fd_file e) st))"
  have "cur_next_fd (open_file_put b st) = cur_next_fd st" for b by (cases "b = 0") (simp add: open_file_put_def, simp)
  then have n1: "cur_next_fd st1 = cur_next_fd st"
    by (auto simp: st1_def free_fd_entry_def set_files_def upd_task_def split: option.split)
  have st': "st' = add_fd 2147483647 (fd_file e) ce (bump_next_fd 2147483647 (share_file (fd_file e) st1))"
    using assms(1-3,5) by (simp add: fs_dup2_fd_def st1_def Let_def)
  have "cur_next_fd (share_file (fd_file e) st1) = cur_next_fd st1" by (simp add: share_file_def)
  then have n: "cur_next_fd st' = - 2147483648"
    using assms(4) n1 by (simp add: st' bump_next_fd_def add_fd_def set_files_def set_next_fd_def upd_task_def succ_fd_last)
  have m: "\<lparr>fd_num = 2147483647, fd_file = fd_file e, cloexec = ce\<rparr> \<in> set (cur_files st')" by (simp add: st' add_fd_def)
  have "\<not> file_inv st'"
  proof
    assume "file_inv st'"
    then have "fd_num x < cur_next_fd st'" if "x \<in> set (cur_files st')" for x using inv_cur that unfolding file_inv_def by blast
    from this [OF m] n show False by simp
  qed
  then show ?thesis using n by (simp add: alloc_fd_entry_def Let_def)
qed

text \<open>
  closing releases a file with its last descriptor and only then. If the descriptor is the only
  one of all tasks that refers to the file, the file is freed and its ends of the pipe and its driver
  data are released, once; otherwise nothing is released and the other descriptors keep the file.
\<close>

theorem fs_close_last:
  assumes "file_inv st" "find_fd_entry fd st = Some e"
  shows "fst (fs_close fd st) = 0 \<and> find_fd_entry fd (snd (fs_close fd st)) = None \<and>
    (if refs (kern st) (fd_file e) = 1
     then \<not> live (snd (fs_close fd st)) (fd_file e) \<and> events (snd (fs_close fd st)) = events st @ close_events st (ofile st (fd_file e))
     else live (snd (fs_close fd st)) (fd_file e) \<and> events (snd (fs_close fd st)) = events st)"
proof -
  have i: "inv_num True (\<lambda>_. 0) st" using assms(1) by (simp add: file_inv_def)
  note m = find_fd_entry_Some [OF assms(2)]
  note l = entry_live [OF i conjunct1 [OF m]]
  have "refcount (ofile st (fd_file e)) = int (refs (kern st) (fd_file e))" using i l unfolding inv_num_def by simp
  moreover have "find_fd_entry fd (free_fd_entry fd st') = None" if "cur_files st' = cur_files st" for st'
    using drop_fd_facts(3) [of "cur_files st" fd] inv_cur [OF i] that by (simp add: find_fd_entry_None free_fd_entry_def)
  moreover have "fd_file e \<noteq> 0" using l by simp
  ultimately show ?thesis using put_simps [of "fd_file e" st] l assms(2) by (simp add: fs_close_def free_fd_entry_def)
qed

text \<open>
  an open file keeps the \<^verbatim>\<open>is_fifo\<close> mark of the memory it is made from. When the structure of a
  closed FIFO end is used again for the read end of a pipe, closing that end reads the table of
  filesystem drivers at index -1.
\<close>

theorem pipe_end_stale_fifo:
  assumes "is_fifo (ofile st a)" "a \<noteq> 0"
  shows "close_events st (ofile (upd_file a (\<lambda>f. f\<lparr>pipe_end := Some p\<rparr>) (alloc_open_file a (-1) 0 0 O_RDONLY st)) a)
    = [Release_read p, Bad_driver_index (-1)]"
  using assms by (simp add: close_events_def driver_close_def alloc_open_file_def Let_def)

text \<open>
  \<^verbatim>\<open>close_range\<close> to the highest descriptor number, written \<^verbatim>\<open>~0U\<close> by its users, closes nothing: the
  bound is read as the signed number -1.
\<close>

theorem close_range_all_closes_nothing:
  assumes "\<forall>e \<in> set (cur_files st). 0 \<le> fd_num e"
  shows "fs_close_range first 0xFFFFFFFF st = (0, st)"
proof -
  have "to_int 0xFFFFFFFF = -1" by (simp add: to_int_def)
  then have "fold (\<lambda>e (closed, st). if fd_num e \<ge> to_int first \<and> fd_num e \<le> to_int 0xFFFFFFFF
              then (closed + 1, snd (fs_close (fd_num e) st)) else (closed, st)) es (0 :: int, st) = (0, st)"
    if "set es \<subseteq> set (cur_files st)" for es
    using that assms by (induction es) force+
  then show ?thesis by (simp add: fs_close_range_def)
qed

theorem lseek_pipe_bad_index:
  assumes "find_fd_entry fd st = Some e" "fd_file e \<noteq> 0" "fs_id (ofile st (fd_file e)) = -1"
  shows "fs_seek seek fd off whence st = None"
  using assms by (simp add: fs_seek_def)

section \<open>Witnesses\<close>

text \<open>Task 1 runs with descriptors 0 and 1, task 2 has descriptor 0; all refer to the file at address 10.\<close>

definition demo_ofile :: open_file where
  "demo_ofile = \<lparr>fs_id = 2, fs_private = 0, file_private = 7, offset = 0, flags = O_RDWR, refcount = 3, pipe_end = None,
     flock_type = 0, flock_owner = 0, locks = [], is_fifo = True\<rparr>"

definition demo_fstate :: fstate where
  "demo_fstate = \<lparr>kern = upd_task 1 (\<lambda>t. t\<lparr>files := [\<lparr>fd_num = 0, fd_file = 10, cloexec = False\<rparr>, \<lparr>fd_num = 1, fd_file = 10, cloexec = True\<rparr>], next_fd := 2\<rparr>)
       (upd_task 2 (\<lambda>t. t\<lparr>files := [\<lparr>fd_num = 0, fd_file = 10, cloexec = False\<rparr>], next_fd := 1\<rparr>) (demo_kernel [1, 2])),
     ofile = (\<lambda>_. demo_ofile), live = (\<lambda>a. a = 10), has_close = (\<lambda>_. True), events = []\<rparr>"

lemma demo_fstate_inv: "file_inv demo_fstate"
proof -
  have "refs (kern demo_fstate) a = (if a = 10 then 3 else 0)" for a
    by (simp add: refs_def demo_fstate_def demo_kernel_def zero_task_def)
  moreover have "fds_ok (tsk (kern demo_fstate) p) \<and> (\<forall>e \<in> set (files (tsk (kern demo_fstate) p)). fd_file e \<noteq> 0)" for p
    by (simp add: demo_fstate_def demo_kernel_def zero_task_def fds_ok_def)
  ultimately show ?thesis by (simp add: file_inv_def inv_num_def) (simp add: demo_fstate_def demo_kernel_def demo_ofile_def)
qed

lemma demo_fd: "find_fd_entry 1 demo_fstate = Some \<lparr>fd_num = 1, fd_file = 10, cloexec = True\<rparr>"
  by (simp add: find_fd_entry_def cur_files_def demo_fstate_def demo_kernel_def)

theorem fd_refcounts_witness:
  "file_inv demo_fstate \<and> file_inv (snd (fs_pipe (Some 5) 20 True 21 True demo_fstate)) \<and>
    count_inv (snd (fs_dup2_fd True 1 2147483647 False demo_fstate))"
proof -
  have n: "cur_next_fd demo_fstate = 2" "live demo_fstate = (\<lambda>a. a = 10)" by (simp_all add: demo_fstate_def demo_kernel_def)
  have "file_inv (snd (fs_pipe (Some 5) 20 True 21 True demo_fstate))"
    using fd_refcounts [OF file_count [OF demo_fstate_inv], of 20 21 "snd (fs_pipe (Some 5) 20 True 21 True demo_fstate)"
      0 0 0 "(0, 0)" None True "Some 5" True 1 0 False 0 0 0] n demo_fstate_inv by simp
  moreover have "count_inv (snd (fs_dup2_fd True 1 2147483647 False demo_fstate))"
    using fd_refcounts [OF file_count [OF demo_fstate_inv], of 20 21 "snd (fs_dup2_fd True 1 2147483647 False demo_fstate)"
      0 0 0 "(0, 0)" None True "Some 5" True 1 0 False 2147483647 0 0] n by simp
  ultimately show ?thesis using demo_fstate_inv by blast
qed

theorem dup2_overflows_next_fd_witness: "cur_next_fd (snd (fs_dup2_fd True 1 2147483647 False demo_fstate)) = - 2147483648"
  using dup2_overflows_next_fd [OF demo_fd _ _ _ refl] by (simp add: demo_fstate_def demo_kernel_def)

theorem fs_close_last_witness: "live (snd (fs_close 1 demo_fstate)) 10 \<and> events (snd (fs_close 1 demo_fstate)) = []"
proof -
  have "refs (kern demo_fstate) 10 = 3"
    by (simp add: refs_def demo_fstate_def demo_kernel_def zero_task_def)
  moreover have "events demo_fstate = []" by (simp add: demo_fstate_def)
  ultimately show ?thesis using fs_close_last [OF demo_fstate_inv demo_fd] by simp
qed

theorem pipe_end_stale_fifo_witness:
  "close_events demo_fstate (ofile (upd_file 20 (\<lambda>f. f\<lparr>pipe_end := Some 5\<rparr>) (alloc_open_file 20 (-1) 0 0 O_RDONLY demo_fstate)) 20)
    = [Release_read 5, Bad_driver_index (-1)]"
  by (rule pipe_end_stale_fifo) (simp_all add: demo_fstate_def demo_ofile_def)

theorem close_range_all_closes_nothing_witness: "fs_close_range 0 0xFFFFFFFF demo_fstate = (0, demo_fstate)"
  by (rule close_range_all_closes_nothing) (simp add: cur_files_def demo_fstate_def demo_kernel_def)

end
