(* ===== verification/Locks.thy ===== *)
theory Locks
  imports Open_File
begin

text \<open>
  Advisory locks, \<^verbatim>\<open>fs/locks.c\<close>: whole-file locks of \<^verbatim>\<open>flock\<close>, held by open files, and the record locks of
  \<^verbatim>\<open>fcntl\<close>, owned by processes and kept in a list per open file. The \<^verbatim>\<open>fstat\<close> functions of the
  filesystem drivers are a parameter: for a filesystem that has one, the inode number and size of
  a file, or failure. A call that sleeps goes on in the states listed in \<open>env\<close>, the ones it finds
  when it is woken; when the list is used up it is still asleep.
\<close>

section \<open>Conflicts\<close>

abbreviation (input) "LOCK_SH \<equiv> (1::u32)"
abbreviation (input) "LOCK_EX \<equiv> (2::u32)"
abbreviation (input) "LOCK_NB \<equiv> (4::u32)"
abbreviation (input) "LOCK_UN \<equiv> (8::u32)"

abbreviation (input) "F_GETLK \<equiv> (5::int)"
abbreviation (input) "F_SETLK \<equiv> (6::int)"
abbreviation (input) "F_SETLKW \<equiv> (7::int)"
abbreviation (input) "F_RDLCK \<equiv> (0::nat)"
abbreviation (input) "F_WRLCK \<equiv> (1::nat)"
abbreviation (input) "F_UNLCK \<equiv> (2::nat)"

type_synonym fstats = "int \<Rightarrow> (nat \<Rightarrow> (nat \<times> nat) option) option"

datatype lock_result = Returned int fstate | Asleep fstate

definition same_file :: "fstats \<Rightarrow> open_file \<Rightarrow> open_file \<Rightarrow> bool" where
  "same_file fs a b \<longleftrightarrow>
     (if pipe_end a \<noteq> None \<or> pipe_end b \<noteq> None then pipe_end a = pipe_end b
      else if fs_id a \<noteq> fs_id b then False
      else if fs_private a \<noteq> fs_private b then False
      else case fs (fs_id a) of
          Some fstat \<Rightarrow>
            (case fstat (file_private a) of
               None \<Rightarrow> False
             | Some sa \<Rightarrow> (case fs (fs_id b) of
                   Some fstat_b \<Rightarrow> (case fstat_b (file_private b) of None \<Rightarrow> False | Some sb \<Rightarrow> fst sa = fst sb)
                 | None \<Rightarrow> file_private a = file_private b))
        | None \<Rightarrow> file_private a = file_private b)"

text \<open>The open files that the descriptors of all tasks refer to, in the order of the two loops.\<close>

definition all_files :: "fstate \<Rightarrow> nat list" where
  "all_files st = concat (map (\<lambda>p. map fd_file (files (tsk (kern st) p))) (task_list (kern st)))"

definition flock_conflict :: "fstats \<Rightarrow> fstate \<Rightarrow> nat \<Rightarrow> nat \<Rightarrow> nat option" where
  "flock_conflict fs st me type =
     map_option (\<lambda>a. flock_owner (ofile st a))
       (find (\<lambda>a. a \<noteq> 0 \<and> a \<noteq> me \<and> flock_type (ofile st a) \<noteq> 0 \<and> same_file fs (ofile st me) (ofile st a) \<and>
          (type = 2 \<or> flock_type (ofile st a) = 2)) (all_files st))"

definition ranges_overlap :: "nat \<Rightarrow> nat \<Rightarrow> nat \<Rightarrow> nat \<Rightarrow> bool" where
  "ranges_overlap a_start a_len b_start b_len =
     (let a_end = (if a_len \<noteq> 0 then w32 (a_start + a_len) else 0xFFFFFFFF);
          b_end = (if b_len \<noteq> 0 then w32 (b_start + b_len) else 0xFFFFFFFF)
      in if a_start \<ge> b_end then False else if b_start \<ge> a_end then False else True)"

definition rec_clash :: "nat \<Rightarrow> nat \<Rightarrow> nat \<Rightarrow> nat \<Rightarrow> flock_rec \<Rightarrow> bool" where
  "rec_clash type start len owner r \<longleftrightarrow>
     r_type r \<noteq> F_UNLCK \<and> r_owner r \<noteq> owner \<and> ranges_overlap start len (r_start r) (r_len r) \<and>
     (type = F_WRLCK \<or> r_type r = F_WRLCK)"

definition rec_conflict :: "fstats \<Rightarrow> fstate \<Rightarrow> nat \<Rightarrow> nat \<Rightarrow> nat \<Rightarrow> nat \<Rightarrow> nat \<Rightarrow> flock_rec option" where
  "rec_conflict fs st file type start len owner =
     find (rec_clash type start len owner)
       (concat (map (\<lambda>a. if a = 0 \<or> a = file \<or> \<not> same_file fs (ofile st file) (ofile st a) then [] else locks (ofile st a))
          (all_files st)))"

definition rec_remove_owner :: "nat \<Rightarrow> nat \<Rightarrow> fstate \<Rightarrow> fstate" where
  "rec_remove_owner a owner st = upd_file a (\<lambda>f. f\<lparr>locks := List.filter (\<lambda>r. r_owner r \<noteq> owner) (locks f)\<rparr>) st"

definition wake_lockers :: "fstate \<Rightarrow> fstate" where
  "wake_lockers st = st\<lparr>kern := wake_up lock_wq (kern st)\<rparr>"

abbreviation cur_pid :: "fstate \<Rightarrow> nat" where
  "cur_pid st \<equiv> pid (tsk (kern st) (current (kern st)))"

definition find_open_file :: "int \<Rightarrow> fstate \<Rightarrow> nat option" where
  "find_open_file fd st = map_option fd_file (find (\<lambda>e. fd_num e = fd) (cur_files st))"

section \<open>flock\<close>

definition set_flock :: "nat \<Rightarrow> nat \<Rightarrow> fstate \<Rightarrow> fstate" where
  "set_flock a type st = upd_file a (\<lambda>f. f\<lparr>flock_type := type, flock_owner := (if type = 0 then 0 else cur_pid st)\<rparr>) st"

fun flock_loop :: "fstats \<Rightarrow> nat \<Rightarrow> nat \<Rightarrow> bool \<Rightarrow> fstate \<Rightarrow> fstate list \<Rightarrow> lock_result" where
  "flock_loop fs a type nb st env =
     (if flock_conflict fs st a type = None then Returned 0 (set_flock a type st)
      else if nb then Returned (-EAGAIN) st
      else case env of
          [] \<Rightarrow> Asleep (st\<lparr>kern := sleep_on_enter lock_wq (kern st)\<rparr>)
        | st' # env \<Rightarrow>
            if pending (tsk (kern st') (current (kern st'))) \<noteq> 0 then Returned (-EINTR) st'
            else flock_loop fs a type nb st' env)"

definition fs_flock :: "fstats \<Rightarrow> int \<Rightarrow> u32 \<Rightarrow> fstate \<Rightarrow> fstate list \<Rightarrow> lock_result" where
  "fs_flock fs fd opn st env =
     (case find_open_file fd st of
        None \<Rightarrow> Returned (-EBADF) st
      | Some a \<Rightarrow>
          let type = unat (opn AND (LOCK_SH OR LOCK_EX)) in
          if opn AND LOCK_UN \<noteq> 0 then Returned 0 (wake_lockers (set_flock a 0 st))
          else if type \<noteq> 1 \<and> type \<noteq> 2 then Returned (-EINVAL) st
          else if flock_type (ofile st a) = type then Returned 0 (set_flock a type st)
          else flock_loop fs a type (opn AND LOCK_NB \<noteq> 0) st env)"

section \<open>Record locks\<close>

record flock_k =
  l_type :: nat
  l_whence :: int
  l_start :: nat
  l_len :: nat
  l_pid :: nat

definition abs_start :: "fstats \<Rightarrow> nat \<Rightarrow> flock_k \<Rightarrow> open_file \<Rightarrow> nat" where
  "abs_start fs garbage flk f =
     (if l_whence flk = 1 then w32 (l_start flk + offset f)
      else if l_whence flk = 2 then
        w32 (l_start flk + (case fs (fs_id f) of
           None \<Rightarrow> 0
         | Some fstat \<Rightarrow> (case fstat (file_private f) of None \<Rightarrow> garbage | Some (ino, sz) \<Rightarrow> sz)))
      else l_start flk)"

definition add_rec :: "nat \<Rightarrow> nat \<Rightarrow> nat \<Rightarrow> nat \<Rightarrow> fstate \<Rightarrow> fstate" where
  "add_rec a type start len st =
     upd_file a (\<lambda>f. f\<lparr>locks := locks f @ [\<lparr>r_type = type, r_start = start, r_len = len, r_owner = cur_pid st\<rparr>]\<rparr>) st"

fun setlk_loop :: "fstats \<Rightarrow> bool \<Rightarrow> nat \<Rightarrow> nat \<Rightarrow> nat \<Rightarrow> nat \<Rightarrow> bool \<Rightarrow> fstate \<Rightarrow> fstate list \<Rightarrow> lock_result" where
  "setlk_loop fs ok a type start len wait st env =
     (if rec_conflict fs st a type start len (cur_pid st) = None then
        (let st = rec_remove_owner a (cur_pid st) st
         in if \<not> ok then Returned (-ENOMEM) st else Returned 0 (add_rec a type start len st))
      else if \<not> wait then Returned (-EAGAIN) st
      else case env of
          [] \<Rightarrow> Asleep (st\<lparr>kern := sleep_on_enter lock_wq (kern st)\<rparr>)
        | st' # env \<Rightarrow>
            if pending (tsk (kern st') (current (kern st'))) \<noteq> 0 then Returned (-EINTR) st'
            else setlk_loop fs ok a type start len wait st' env)"

text \<open>What \<^verbatim>\<open>F_GETLK\<close> reports.\<close>

definition getlk_answer :: "fstats \<Rightarrow> fstate \<Rightarrow> nat \<Rightarrow> nat \<Rightarrow> nat \<Rightarrow> flock_k" where
  "getlk_answer fs st a start len =
     (case rec_conflict fs st a F_WRLCK start len (cur_pid st) of
        Some r \<Rightarrow> \<lparr>l_type = r_type r, l_whence = 0, l_start = r_start r, l_len = r_len r, l_pid = r_owner r\<rparr>
      | None \<Rightarrow> \<lparr>l_type = F_UNLCK, l_whence = 0, l_start = start, l_len = len, l_pid = 0\<rparr>)"

text \<open>
  \<open>user\<close> is what \<^verbatim>\<open>copy_from_user\<close> delivers, \<open>out_ok\<close> whether the answer can be copied back, and
  \<open>garbage\<close> the contents of the stat buffer if \<^verbatim>\<open>fstat\<close> fails, which the code does not check. The
  second component is the structure written back.
\<close>

definition fs_fcntl_lock :: "fstats \<Rightarrow> bool \<Rightarrow> nat \<Rightarrow> flock_k option \<Rightarrow> bool \<Rightarrow> int \<Rightarrow> int \<Rightarrow> fstate \<Rightarrow> fstate list
    \<Rightarrow> lock_result \<times> flock_k option" where
  "fs_fcntl_lock fs ok garbage user out_ok fd cmd st env =
     (case find_open_file fd st of
        None \<Rightarrow> (Returned (-EBADF) st, None)
      | Some a \<Rightarrow>
          (case user of
             None \<Rightarrow> (Returned (-EFAULT) st, None)
           | Some flk \<Rightarrow>
               let start = abs_start fs garbage flk (ofile st a); len = l_len flk
               in if cmd = F_SETLK \<or> cmd = F_SETLKW then
                    (if l_type flk = F_UNLCK then (Returned 0 (wake_lockers (rec_remove_owner a (cur_pid st) st)), None)
                     else if l_type flk \<noteq> F_RDLCK \<and> l_type flk \<noteq> F_WRLCK then (Returned (-EINVAL) st, None)
                     else (setlk_loop fs ok a (l_type flk) start len (cmd = F_SETLKW) st env, None))
                  else if cmd = F_GETLK then
                    (if out_ok then (Returned 0 st, Some (getlk_answer fs st a start len)) else (Returned (-EFAULT) st, None))
                  else (Returned (-EINVAL) st, None)))"

definition locks_init :: "kernel \<Rightarrow> kernel" where
  "locks_init k = k\<lparr>wqs := (wqs k)(lock_wq := [])\<rparr>"

declare flock_loop.simps [simp del] setlk_loop.simps [simp del]

section \<open>Mutual exclusion\<close>

lemma same_file_sym: "same_file fs a b \<longleftrightarrow> same_file fs b a"
  by (auto simp: same_file_def split: option.splits)

lemma same_file_flock [simp]:
  "same_file fs (f\<lparr>flock_type := x, flock_owner := y\<rparr>) g = same_file fs f g"
  "same_file fs f (g\<lparr>flock_type := x, flock_owner := y\<rparr>) = same_file fs f g"
  "same_file fs (f\<lparr>locks := l\<rparr>) g = same_file fs f g" "same_file fs f (g\<lparr>locks := l\<rparr>) = same_file fs f g"
  by (simp_all add: same_file_def cong: option.case_cong)

lemma wake_files: "files (tsk (wake_up q k) p) = files (tsk k p)"
  by simp

lemma all_files_simps [simp]: "all_files (upd_file a g st) = all_files st" "all_files (wake_lockers st) = all_files st"
  "ofile (wake_lockers st) = ofile st"
  by (simp_all add: all_files_def wake_lockers_def wake_files del: wake_up_simps(1))

text \<open>No exclusive lock beside another lock on the same file.\<close>

definition flock_ok :: "fstats \<Rightarrow> fstate \<Rightarrow> bool" where
  "flock_ok fs st \<longleftrightarrow> (\<forall>a \<in> set (all_files st). \<forall>b \<in> set (all_files st). a \<noteq> 0 \<longrightarrow> b \<noteq> 0 \<longrightarrow> a \<noteq> b \<longrightarrow>
     same_file fs (ofile st a) (ofile st b) \<longrightarrow> flock_type (ofile st a) = 2 \<longrightarrow> flock_type (ofile st b) = 0)"

lemma flock_ok_set:
  assumes "flock_ok fs st"
    "type \<noteq> 0 \<Longrightarrow> \<forall>b \<in> set (all_files st). b \<noteq> 0 \<longrightarrow> b \<noteq> a \<longrightarrow> same_file fs (ofile st a) (ofile st b) \<longrightarrow> flock_type (ofile st b) \<noteq> 0 \<longrightarrow>
      type \<noteq> 2 \<and> flock_type (ofile st b) \<noteq> 2"
  shows "flock_ok fs (set_flock a type st)"
  unfolding flock_ok_def
proof (intro ballI impI)
  fix b c
  assume h: "b \<in> set (all_files (set_flock a type st))" "c \<in> set (all_files (set_flock a type st))" "b \<noteq> 0" "c \<noteq> 0" "b \<noteq> c"
    "same_file fs (ofile (set_flock a type st) b) (ofile (set_flock a type st) c)" "flock_type (ofile (set_flock a type st) b) = 2"
  then have m: "b \<in> set (all_files st)" "c \<in> set (all_files st)" by (simp_all add: set_flock_def)
  have sf: "same_file fs (ofile st b) (ofile st c)" using h(6) by (simp add: set_flock_def split: if_splits)
  show "flock_type (ofile (set_flock a type st) c) = 0"
  proof (cases "b = a \<or> c = a")
    case False
    then show ?thesis using assms(1) m h sf unfolding flock_ok_def by (auto simp: set_flock_def)
  next
    case True
    then show ?thesis
    proof
      assume b: "b = a"
      then have "type = 2" "flock_type (ofile (set_flock a type st) c) = flock_type (ofile st c)" using h(5,7) by (auto simp: set_flock_def)
      then show ?thesis using assms(2) m(2) h(4,5) sf b by auto
    next
      assume c: "c = a"
      then have "flock_type (ofile st b) = 2" "flock_type (ofile (set_flock a type st) c) = type" using h(5,7) by (auto simp: set_flock_def)
      then show ?thesis using assms(2) m(1) h(3,5) sf c same_file_sym by (metis zero_neq_numeral)
    qed
  qed
qed

lemma flock_conflict_None:
  "flock_conflict fs st a type = None \<longleftrightarrow> (\<forall>b \<in> set (all_files st). b \<noteq> 0 \<longrightarrow> b \<noteq> a \<longrightarrow> same_file fs (ofile st a) (ofile st b) \<longrightarrow>
     flock_type (ofile st b) \<noteq> 0 \<longrightarrow> type \<noteq> 2 \<and> flock_type (ofile st b) \<noteq> 2)"
  by (auto simp: flock_conflict_def find_None_iff)

lemma flock_ok_granted:
  assumes "flock_ok fs st" "flock_conflict fs st a type = None"
  shows "flock_ok fs (set_flock a type st) \<and> flock_type (ofile (set_flock a type st) a) = type"
  using flock_ok_set [OF assms(1), of type a] assms(2) unfolding flock_conflict_None by (simp add: set_flock_def)

lemma flock_loop_ok:
  assumes "flock_ok fs st" "\<forall>s \<in> set env. flock_ok fs s" "flock_loop fs a type nb st env = Returned r st'"
  shows "flock_ok fs st' \<and> (r = 0 \<longrightarrow> flock_type (ofile st' a) = type) \<and> (r = 0 \<or> r = -EAGAIN \<or> r = -EINTR)"
  using assms
proof (induction env arbitrary: st)
  case Nil
  show ?case using Nil.prems flock_ok_granted [OF Nil.prems(1), of a type] flock_loop.simps [of fs a type nb st "[]"]
    by (auto split: if_splits)
next
  case (Cons s env)
  show ?case
  proof (cases "flock_conflict fs st a type = None \<or> nb \<or> pending (tsk (kern s) (current (kern s))) \<noteq> 0")
    case True
    then show ?thesis using Cons.prems flock_ok_granted [OF Cons.prems(1), of a type] flock_loop.simps [of fs a type nb st "s # env"]
      by (auto split: if_splits)
  next
    case False
    then have "flock_loop fs a type nb s env = Returned r st'"
      using Cons.prems(3) flock_loop.simps [of fs a type nb st "s # env"] by auto
    then show ?thesis using Cons.IH [of s] Cons.prems(2) by simp
  qed
qed

text \<open>
  C35: \<^verbatim>\<open>flock\<close> is exclusive. If no file is locked exclusively while another open file of it holds a lock,
  in the state of the call and in every state the call wakes up in, this holds when it returns; and
  a successful request holds the lock it asked for.
\<close>

theorem flock_exclusive:
  assumes "flock_ok fs st" "\<forall>s \<in> set env. flock_ok fs s" "fs_flock fs fd opn st env = Returned r st'"
  shows "flock_ok fs st' \<and>
    (r = 0 \<longrightarrow> (\<exists>a. find_open_file fd st = Some a \<and>
       flock_type (ofile st' a) = (if opn AND LOCK_UN \<noteq> 0 then 0 else unat (opn AND (LOCK_SH OR LOCK_EX)))))"
proof (cases "find_open_file fd st")
  case None
  then show ?thesis using assms by (auto simp: fs_flock_def)
next
  case (Some a)
  let ?t = "unat (opn AND (LOCK_SH OR LOCK_EX))"
  consider (un) "opn AND LOCK_UN \<noteq> 0" | (bad) "opn AND LOCK_UN = 0" "?t \<noteq> 1 \<and> ?t \<noteq> 2"
    | (held) "opn AND LOCK_UN = 0" "?t = 1 \<or> ?t = 2" "flock_type (ofile st a) = ?t"
    | (loop) "opn AND LOCK_UN = 0" "?t = 1 \<or> ?t = 2" "flock_type (ofile st a) \<noteq> ?t" by blast
  then show ?thesis
  proof cases
    case un
    have "flock_ok fs (wake_lockers (set_flock a 0 st))"
      using flock_ok_set [OF assms(1), of 0 a] by (simp add: flock_ok_def)
    then show ?thesis using un assms(3) Some by (auto simp: fs_flock_def Let_def set_flock_def)
  next
    case bad
    then show ?thesis using assms(1,3) Some by (auto simp: fs_flock_def Let_def)
  next
    case held
    have "flock_ok fs (set_flock a ?t st)"
      using assms(1) held(3) unfolding flock_ok_def by (auto simp: set_flock_def)
    then show ?thesis using held assms(3) Some by (auto simp: fs_flock_def Let_def set_flock_def)
  next
    case loop
    then have "flock_loop fs a ?t (opn AND LOCK_NB \<noteq> 0) st env = Returned r st'"
      using assms(3) Some by (auto simp: fs_flock_def Let_def)
    then show ?thesis using flock_loop_ok [OF assms(1,2)] loop Some by auto
  qed
qed

section \<open>Record locks exclude one another\<close>

text \<open>
  What a record lock means: the set of bytes it locks, without an end when the length is 0. Two locks are incompatible
  when they are held by different processes, one of them is a write lock, and some byte is in both. The ranges the code
  can handle are those whose end is a 32-bit number.
\<close>

definition range_bytes :: "nat \<Rightarrow> nat \<Rightarrow> nat set" where
  "range_bytes start len = {b. start \<le> b \<and> (len = 0 \<or> b < start + len)}"

definition range_ok :: "nat \<Rightarrow> nat \<Rightarrow> bool" where
  "range_ok start len \<longleftrightarrow> start < 2 ^ 32 - 1 \<and> start + len < 2 ^ 32"

definition incompatible :: "flock_rec \<Rightarrow> flock_rec \<Rightarrow> bool" where
  "incompatible r q \<longleftrightarrow> r_owner r \<noteq> r_owner q \<and> (r_type r = F_WRLCK \<or> r_type q = F_WRLCK) \<and>
     range_bytes (r_start r) (r_len r) \<inter> range_bytes (r_start q) (r_len q) \<noteq> {}"

text \<open>
  The records that are in force: all of them name ranges the code can handle, and those in the lists of different open
  files of the same file are compatible.
\<close>

definition recs_ok :: "fstats \<Rightarrow> fstate \<Rightarrow> bool" where
  "recs_ok fs st \<longleftrightarrow>
     (\<forall>a \<in> set (all_files st). \<forall>r \<in> set (locks (ofile st a)). r_type r \<noteq> F_UNLCK \<and> range_ok (r_start r) (r_len r)) \<and>
     (\<forall>a \<in> set (all_files st). \<forall>b \<in> set (all_files st). a \<noteq> 0 \<longrightarrow> b \<noteq> 0 \<longrightarrow> a \<noteq> b \<longrightarrow>
        same_file fs (ofile st a) (ofile st b) \<longrightarrow>
        (\<forall>r \<in> set (locks (ofile st a)). \<forall>q \<in> set (locks (ofile st b)). \<not> incompatible r q))"

text \<open>The comparison of the ends decides whether the ranges have a byte in common.\<close>

lemma ranges_overlap_bytes:
  assumes "range_ok a m" "range_ok b n"
  shows "ranges_overlap a m b n \<longleftrightarrow> range_bytes a m \<inter> range_bytes b n \<noteq> {}"
proof -
  have "max a b \<in> range_bytes a m \<inter> range_bytes b n" if "x \<in> range_bytes a m" "x \<in> range_bytes b n" for x
    using that by (auto simp: range_bytes_def)
  then have "range_bytes a m \<inter> range_bytes b n \<noteq> {} \<longleftrightarrow> max a b \<in> range_bytes a m \<inter> range_bytes b n" by blast
  then show ?thesis using assms by (auto simp: range_bytes_def range_ok_def ranges_overlap_def Let_def)
qed

lemma rec_clash_iff:
  assumes "range_ok start len" "r_type q \<noteq> F_UNLCK" "range_ok (r_start q) (r_len q)"
  shows "rec_clash type start len w q \<longleftrightarrow> incompatible \<lparr>r_type = type, r_start = start, r_len = len, r_owner = w\<rparr> q"
  using assms(2) ranges_overlap_bytes [OF assms(1,3)] by (auto simp: rec_clash_def incompatible_def)

lemma incompatible_sym: "incompatible r q \<longleftrightarrow> incompatible q r"
  by (auto simp: incompatible_def)

lemma recs_ok_subset:
  assumes "recs_ok fs st" "all_files st' = all_files st" "\<And>b. set (locks (ofile st' b)) \<subseteq> set (locks (ofile st b))"
    "\<And>b c. same_file fs (ofile st' b) (ofile st' c) = same_file fs (ofile st b) (ofile st c)"
  shows "recs_ok fs st'"
proof -
  have "\<not> incompatible r q"
    if "b \<in> set (all_files st)" "c \<in> set (all_files st)" "b \<noteq> 0" "c \<noteq> 0" "b \<noteq> c" "same_file fs (ofile st b) (ofile st c)"
      "r \<in> set (locks (ofile st' b))" "q \<in> set (locks (ofile st' c))" for b c r q
    using assms(1) assms(3) [of b] assms(3) [of c] that unfolding recs_ok_def by blast
  moreover have "r_type r \<noteq> F_UNLCK \<and> range_ok (r_start r) (r_len r)" if "b \<in> set (all_files st)" "r \<in> set (locks (ofile st' b))" for b r
    using assms(1) assms(3) [of b] that unfolding recs_ok_def by blast
  ultimately show ?thesis unfolding recs_ok_def assms(2,4) by blast
qed

lemma rec_remove_facts: "all_files (rec_remove_owner a w st) = all_files st"
  "set (locks (ofile (rec_remove_owner a w st) b)) \<subseteq> set (locks (ofile st b))"
  "same_file fs (ofile (rec_remove_owner a w st) b) (ofile (rec_remove_owner a w st) c) = same_file fs (ofile st b) (ofile st c)"
  "b \<noteq> a \<Longrightarrow> ofile (rec_remove_owner a w st) b = ofile st b"
  by (auto simp: rec_remove_owner_def)

lemma rec_conflict_None:
  "rec_conflict fs st a type start len w = None \<longleftrightarrow> (\<forall>b \<in> set (all_files st). b \<noteq> 0 \<longrightarrow> b \<noteq> a \<longrightarrow> same_file fs (ofile st a) (ofile st b) \<longrightarrow>
     (\<forall>r \<in> set (locks (ofile st b)). \<not> rec_clash type start len w r))"
  unfolding rec_conflict_def find_None_iff by auto

text \<open>The search finds a lock exactly when another open file of the file has an incompatible one.\<close>

lemma rec_conflict_iff:
  assumes "recs_ok fs st" "range_ok start len"
  shows "rec_conflict fs st a type start len w = None \<longleftrightarrow>
    (\<forall>b \<in> set (all_files st). b \<noteq> 0 \<longrightarrow> b \<noteq> a \<longrightarrow> same_file fs (ofile st a) (ofile st b) \<longrightarrow>
     (\<forall>q \<in> set (locks (ofile st b)). \<not> incompatible \<lparr>r_type = type, r_start = start, r_len = len, r_owner = w\<rparr> q))"
proof -
  have "rec_clash type start len w q \<longleftrightarrow> incompatible \<lparr>r_type = type, r_start = start, r_len = len, r_owner = w\<rparr> q"
    if "b \<in> set (all_files st)" "q \<in> set (locks (ofile st b))" for b q
    by (rule rec_clash_iff [OF assms(2)]) (use assms(1) that in \<open>unfold recs_ok_def, blast+\<close>)
  then show ?thesis unfolding rec_conflict_None by blast
qed

lemma recs_ok_add:
  assumes "recs_ok fs st" "rec_conflict fs st a type start len (cur_pid st) = None" "type \<noteq> F_UNLCK" "range_ok start len"
  shows "recs_ok fs (add_rec a type start len st)"
proof -
  let ?s = "add_rec a type start len st" and ?n = "\<lparr>r_type = type, r_start = start, r_len = len, r_owner = cur_pid st\<rparr>"
  have new: "\<not> incompatible ?n x" if "d \<in> set (all_files st)" "d \<noteq> 0" "d \<noteq> a" "same_file fs (ofile st a) (ofile st d)"
      "x \<in> set (locks (ofile st d))" for d x
    using assms(2) that unfolding rec_conflict_iff [OF assms(1,4)] by blast
  have L: "set (locks (ofile ?s d)) = (if d = a then insert ?n (set (locks (ofile st a))) else set (locks (ofile st d)))" for d
    by (simp add: add_rec_def)
  have F: "all_files ?s = all_files st" "same_file fs (ofile ?s b) (ofile ?s c) = same_file fs (ofile st b) (ofile st c)" for b c
    by (simp_all add: add_rec_def)
  have "\<not> incompatible r q"
    if h: "b \<in> set (all_files st)" "c \<in> set (all_files st)" "b \<noteq> 0" "c \<noteq> 0" "b \<noteq> c" "same_file fs (ofile st b) (ofile st c)"
      "r \<in> set (locks (ofile ?s b))" "q \<in> set (locks (ofile ?s c))" for b c r q
  proof -
    consider "r \<in> set (locks (ofile st b))" "q \<in> set (locks (ofile st c))" | "b = a" "r = ?n" "q \<in> set (locks (ofile st c))"
      | "c = a" "q = ?n" "r \<in> set (locks (ofile st b))"
      using h(5,7,8) unfolding L by (auto split: if_splits)
    then show ?thesis
    proof cases
      case 1
      then show ?thesis using assms(1) h(1-6) unfolding recs_ok_def by blast
    next
      case 2
      then show ?thesis using new [OF h(2,4) _ _ 2(3)] h(5,6) by simp
    next
      case 3
      then show ?thesis using new [OF h(1,3) _ _ 3(3)] h(5,6) same_file_sym incompatible_sym by metis
    qed
  qed
  moreover have "r_type r \<noteq> F_UNLCK \<and> range_ok (r_start r) (r_len r)" if "b \<in> set (all_files st)" "r \<in> set (locks (ofile ?s b))" for b r
  proof (cases "r \<in> set (locks (ofile st b))")
    case True
    then show ?thesis using assms(1) that(1) unfolding recs_ok_def by blast
  next
    case False
    then have "r = ?n" using that(2) unfolding L by (auto split: if_splits)
    then show ?thesis using assms(3,4) by simp
  qed
  ultimately show ?thesis unfolding recs_ok_def F by blast
qed

lemma rec_conflict_remove: "rec_conflict fs (rec_remove_owner a w st) a type start len v = rec_conflict fs st a type start len v"
proof -
  have "(if b = 0 \<or> b = a \<or> \<not> same_file fs (ofile (rec_remove_owner a w st) a) (ofile (rec_remove_owner a w st) b) then []
      else locks (ofile (rec_remove_owner a w st) b)) =
    (if b = 0 \<or> b = a \<or> \<not> same_file fs (ofile st a) (ofile st b) then [] else locks (ofile st b))" for b
    by (auto simp: rec_remove_facts)
  then show ?thesis unfolding rec_conflict_def rec_remove_facts(1) by (simp only:)
qed

lemma setlk_loop_ok:
  assumes "recs_ok fs st" "\<forall>s \<in> set env. recs_ok fs s" "type \<noteq> F_UNLCK" "range_ok start len" "setlk_loop fs ok a type start len w st env = Returned r st'"
  shows "recs_ok fs st' \<and>
    (r = 0 \<longrightarrow> \<lparr>r_type = type, r_start = start, r_len = len, r_owner = cur_pid st'\<rparr> \<in> set (locks (ofile st' a)))"
  using assms(1,2,5)
proof (induction env arbitrary: st)
  case (Nil st)
  let ?t = "rec_remove_owner a (cur_pid st) st"
  have t: "recs_ok fs ?t" by (rule recs_ok_subset [OF Nil(1)]) (auto simp: rec_remove_facts)
  have "rec_conflict fs st a type start len (cur_pid st) = None \<Longrightarrow> recs_ok fs (add_rec a type start len ?t)"
    by (rule recs_ok_add [OF t _ assms(3,4)]) (simp add: rec_conflict_remove, simp add: rec_remove_owner_def)
  then show ?case using Nil t setlk_loop.simps [of fs ok a type start len w st "[]"]
    by (auto simp: add_rec_def Let_def split: if_splits)
next
  case (Cons s env st)
  let ?t = "rec_remove_owner a (cur_pid st) st"
  have t: "recs_ok fs ?t" by (rule recs_ok_subset [OF Cons.prems(1)]) (auto simp: rec_remove_facts)
  have n: "rec_conflict fs st a type start len (cur_pid st) = None \<Longrightarrow> recs_ok fs (add_rec a type start len ?t)"
    by (rule recs_ok_add [OF t _ assms(3,4)]) (simp add: rec_conflict_remove, simp add: rec_remove_owner_def)
  show ?case
  proof (cases "rec_conflict fs st a type start len (cur_pid st) = None \<or> \<not> w \<or> pending (tsk (kern s) (current (kern s))) \<noteq> 0")
    case True
    then show ?thesis using Cons.prems t n setlk_loop.simps [of fs ok a type start len w st "s # env"]
      by (auto simp: add_rec_def Let_def split: if_splits)
  next
    case False
    then have "setlk_loop fs ok a type start len w s env = Returned r st'"
      using Cons.prems(3) setlk_loop.simps [of fs ok a type start len w st "s # env"] by auto
    then show ?thesis using Cons.IH [of s] Cons.prems(2) by simp
  qed
qed

text \<open>
  C36: record locks of different open files of the same file exclude one another, byte for byte. A state is right when no
  two of them have a byte in common and are held by different processes, unless both are read locks. If the range of the
  request ends below 4 GiB, this also holds when \<^verbatim>\<open>fcntl\<close> returns; a successful request is in the list,
  owned by the caller; and a request that does not wait is granted exactly when no process holds an incompatible lock on
  one of its bytes through another open file.
\<close>

theorem record_locks_exclusive:
  assumes "recs_ok fs st" "\<forall>s \<in> set env. recs_ok fs s"
    "fs_fcntl_lock fs ok g (Some flk) out_ok fd cmd st env = (Returned r st', answer)"
    "find_open_file fd st = Some a" "range_ok (abs_start fs g flk (ofile st a)) (l_len flk)"
  shows "recs_ok fs st' \<and>
    (r = 0 \<and> (cmd = F_SETLK \<or> cmd = F_SETLKW) \<and> l_type flk \<noteq> F_UNLCK \<longrightarrow>
      \<lparr>r_type = l_type flk, r_start = abs_start fs g flk (ofile st a), r_len = l_len flk, r_owner = cur_pid st'\<rparr> \<in> set (locks (ofile st' a))) \<and>
    (cmd = F_SETLK \<and> ok \<and> (l_type flk = F_RDLCK \<or> l_type flk = F_WRLCK) \<longrightarrow>
      (r = 0 \<longleftrightarrow> (\<forall>b \<in> set (all_files st). b \<noteq> 0 \<longrightarrow> b \<noteq> a \<longrightarrow> same_file fs (ofile st a) (ofile st b) \<longrightarrow>
        (\<forall>q \<in> set (locks (ofile st b)). \<not> incompatible
          \<lparr>r_type = l_type flk, r_start = abs_start fs g flk (ofile st a), r_len = l_len flk, r_owner = cur_pid st\<rparr> q))))"
proof -
  let ?s = "abs_start fs g flk (ofile st a)"
  have t: "recs_ok fs (wake_lockers (rec_remove_owner a (cur_pid st) st))"
    by (rule recs_ok_subset [OF assms(1)]) (auto simp: rec_remove_facts)
  show ?thesis
  proof (cases "(cmd = F_SETLK \<or> cmd = F_SETLKW) \<and> (l_type flk = F_RDLCK \<or> l_type flk = F_WRLCK)")
    case True
    then have run: "setlk_loop fs ok a (l_type flk) ?s (l_len flk) (cmd = F_SETLKW) st env = Returned r st'"
      using assms(3,4) by (auto simp: fs_fcntl_lock_def Let_def)
    have "cmd = F_SETLK \<and> ok \<longrightarrow> (r = 0 \<longleftrightarrow> rec_conflict fs st a (l_type flk) ?s (l_len flk) (cur_pid st) = None)"
      using run by (auto simp: setlk_loop.simps [of fs ok a "l_type flk"] Let_def split: if_splits)
    moreover have "l_type flk \<noteq> F_UNLCK" using True by auto
    ultimately show ?thesis using setlk_loop_ok [OF assms(1,2) _ assms(5) run] rec_conflict_iff [OF assms(1,5)] by simp
  next
    case False
    then show ?thesis using assms(1,3,4) t by (auto simp: fs_fcntl_lock_def Let_def split: if_splits)
  qed
qed

text \<open>
  a range whose end is not a 32-bit number locks nothing. When the sum of start and length wraps to a number not above
  the start, the test for overlap is false for every range that does not begin below it: the request is granted at once,
  whatever write locks other processes hold on its bytes.
\<close>

theorem record_locks_wrap:
  assumes "find_open_file fd st = Some a" "l_type flk = F_WRLCK" "l_len flk \<noteq> 0"
    "start = abs_start fs g flk (ofile st a)" "w32 (start + l_len flk) \<le> start"
    "\<forall>b \<in> set (all_files st). \<forall>q \<in> set (locks (ofile st b)). start \<le> r_start q"
  shows "\<exists>st'. fs_fcntl_lock fs True g (Some flk) out_ok fd F_SETLK st [] = (Returned 0 st', None) \<and>
    \<lparr>r_type = F_WRLCK, r_start = start, r_len = l_len flk, r_owner = cur_pid st\<rparr> \<in> set (locks (ofile st' a)) \<and>
    (\<forall>b. b \<noteq> a \<longrightarrow> ofile st' b = ofile st b)"
proof -
  have "\<not> rec_clash F_WRLCK start (l_len flk) (cur_pid st) q" if "b \<in> set (all_files st)" "q \<in> set (locks (ofile st b))" for b q
  proof -
    have "w32 (start + l_len flk) \<le> r_start q" using assms(5,6) that by fastforce
    then show ?thesis using assms(3) by (simp add: rec_clash_def ranges_overlap_def Let_def)
  qed
  then have "rec_conflict fs st a F_WRLCK start (l_len flk) (cur_pid st) = None" unfolding rec_conflict_None by blast
  then have "fs_fcntl_lock fs True g (Some flk) out_ok fd F_SETLK st [] =
      (Returned 0 (add_rec a F_WRLCK start (l_len flk) (rec_remove_owner a (cur_pid st) st)), None)"
    using assms(1,2,4) by (simp add: fs_fcntl_lock_def Let_def setlk_loop.simps)
  then show ?thesis by (simp add: add_rec_def rec_remove_owner_def)
qed

text \<open>
  within one open file the record locks of different processes do not exclude one another. When no
  other open file refers to the same file, as after a \<^verbatim>\<open>fork\<close> that shares the descriptor, a write lock
  is granted whatever locks other processes hold on the file, and both stay in the list.
\<close>

theorem record_lock_shared_file:
  assumes "find_open_file fd st = Some a" "\<forall>b \<in> set (all_files st). b = a" "q \<in> set (locks (ofile st a))" "r_owner q \<noteq> cur_pid st"
    "l_type flk = F_WRLCK"
  shows "\<exists>st'. fs_fcntl_lock fs True g (Some flk) out_ok fd F_SETLK st [] = (Returned 0 st', None) \<and>
    q \<in> set (locks (ofile st' a)) \<and>
    \<lparr>r_type = F_WRLCK, r_start = abs_start fs g flk (ofile st a), r_len = l_len flk, r_owner = cur_pid st\<rparr> \<in> set (locks (ofile st' a))"
proof -
  let ?s = "abs_start fs g flk (ofile st a)"
  have "rec_conflict fs st a F_WRLCK ?s (l_len flk) (cur_pid st) = None" unfolding rec_conflict_None using assms(2) by auto
  then have "fs_fcntl_lock fs True g (Some flk) out_ok fd F_SETLK st [] =
      (Returned 0 (add_rec a F_WRLCK ?s (l_len flk) (rec_remove_owner a (cur_pid st) st)), None)"
    using assms(1,5) by (simp add: fs_fcntl_lock_def Let_def setlk_loop.simps)
  then show ?thesis using assms(3,4) by (simp add: add_rec_def rec_remove_owner_def)
qed

section \<open>Witnesses\<close>

text \<open>Task 1 runs with descriptor 0 for the open file 10, task 2 has descriptor 0 for the open file 11; both are inode 5.\<close>

definition demo_fstat :: fstats where
  "demo_fstat = (\<lambda>_. Some (\<lambda>_. Some (5, 100)))"

definition demo_locks :: "flock_rec list \<Rightarrow> fstate" where
  "demo_locks rs = demo_fstate\<lparr>
     kern := upd_task 1 (\<lambda>t. t\<lparr>files := [\<lparr>fd_num = 0, fd_file = 10, cloexec = False\<rparr>]\<rparr>)
       (upd_task 2 (\<lambda>t. t\<lparr>files := [\<lparr>fd_num = 0, fd_file = 11, cloexec = False\<rparr>]\<rparr>) (demo_kernel [1, 2])),
     ofile := (\<lambda>a. demo_ofile\<lparr>locks := (if a = 10 then rs else [])\<rparr>)\<rparr>"

lemma demo_all_files: "all_files (demo_locks rs) = [10, 11]"
  by (simp add: all_files_def demo_locks_def demo_kernel_def demo_fstate_def zero_task_def)

lemma demo_find_open: "find_open_file 0 (demo_locks rs) = Some 10"
  by (simp add: find_open_file_def cur_files_def demo_locks_def demo_kernel_def demo_fstate_def)

lemma demo_flock_ok: "flock_ok demo_fstat (demo_locks rs)"
  by (simp add: flock_ok_def demo_locks_def demo_fstate_def demo_ofile_def)

lemma demo_flock: "fs_flock demo_fstat 0 2 (demo_locks rs) [] = Returned 0 (set_flock 10 2 (demo_locks rs))"
proof -
  have "flock_conflict demo_fstat (demo_locks rs) 10 2 = None"
    by (simp add: flock_conflict_None) (simp add: demo_locks_def demo_fstate_def demo_ofile_def)
  moreover have "flock_type (ofile (demo_locks rs) 10) = 0" by (simp add: demo_locks_def demo_fstate_def demo_ofile_def)
  ultimately show ?thesis by (simp add: fs_flock_def demo_find_open Let_def flock_loop.simps)
qed

theorem flock_exclusive_witness: "flock_ok demo_fstat (set_flock 10 2 (demo_locks []))"
  using flock_exclusive [OF demo_flock_ok _ demo_flock] by simp

abbreviation (input) demo_request :: flock_k where
  "demo_request \<equiv> \<lparr>l_type = 1, l_whence = 0, l_start = 10, l_len = 5, l_pid = 0\<rparr>"

lemma demo_recs_ok: "recs_ok demo_fstat (demo_locks [])"
  by (auto simp: recs_ok_def demo_all_files) (auto simp: demo_locks_def)

theorem record_locks_exclusive_witness:
  "\<exists>st'. fs_fcntl_lock demo_fstat True 0 (Some demo_request) True 0 F_SETLK (demo_locks []) [] = (Returned 0 st', None) \<and> recs_ok demo_fstat st'"
proof -
  have "rec_conflict demo_fstat (demo_locks []) 10 1 10 5 (cur_pid (demo_locks [])) = None"
    unfolding rec_conflict_None by (simp add: demo_locks_def)
  then have "\<exists>st'. fs_fcntl_lock demo_fstat True 0 (Some demo_request) True 0 F_SETLK (demo_locks []) [] = (Returned 0 st', None)"
    by (simp add: fs_fcntl_lock_def demo_find_open Let_def abs_start_def setlk_loop.simps)
  then obtain st' where c: "fs_fcntl_lock demo_fstat True 0 (Some demo_request) True 0 F_SETLK (demo_locks []) [] = (Returned 0 st', None)" by blast
  have "range_ok (abs_start demo_fstat 0 demo_request (ofile (demo_locks []) 10)) (l_len demo_request)"
    by (simp add: range_ok_def abs_start_def)
  then show ?thesis using record_locks_exclusive [OF demo_recs_ok _ c demo_find_open] c by auto
qed

text \<open>Process 9 holds a write lock from byte 20 on; the request for the last 4 GiB from byte 10 on includes it.\<close>

theorem record_locks_wrap_witness:
  "\<exists>st'. fs_fcntl_lock demo_fstat True 0 (Some (demo_request\<lparr>l_len := 0xFFFFFFFF\<rparr>)) True 0 F_SETLK
      ((demo_locks [])\<lparr>ofile := (\<lambda>a. demo_ofile\<lparr>locks := (if a = 11 then [\<lparr>r_type = 1, r_start = 20, r_len = 5, r_owner = 9\<rparr>] else [])\<rparr>)\<rparr>) [] =
      (Returned 0 st', None)"
proof -
  let ?q = "\<lparr>r_type = 1, r_start = 20, r_len = 5, r_owner = 9\<rparr>"
  let ?s = "(demo_locks [])\<lparr>ofile := (\<lambda>a. demo_ofile\<lparr>locks := (if a = 11 then [?q] else [])\<rparr>)\<rparr>"
  have "find_open_file 0 ?s = Some 10" using demo_find_open [of "[]"] by (simp add: find_open_file_def cur_files_def)
  moreover have "\<forall>b \<in> set (all_files ?s). \<forall>q \<in> set (locks (ofile ?s b)). 10 \<le> r_start q" by auto
  ultimately have "\<exists>st'. fs_fcntl_lock demo_fstat True 0 (Some (demo_request\<lparr>l_len := 0xFFFFFFFF\<rparr>)) True 0 F_SETLK ?s [] = (Returned 0 st', None) \<and>
      \<lparr>r_type = F_WRLCK, r_start = 10, r_len = l_len (demo_request\<lparr>l_len := 0xFFFFFFFF\<rparr>), r_owner = cur_pid ?s\<rparr> \<in> set (locks (ofile st' 10)) \<and>
      (\<forall>b. b \<noteq> 10 \<longrightarrow> ofile st' b = ofile ?s b)"
    by (intro record_locks_wrap) (simp_all add: abs_start_def w32_def)
  then show ?thesis by blast
qed

theorem record_lock_shared_file_witness:
  "\<exists>st'. fs_fcntl_lock demo_fstat True 0 (Some demo_request) True 0 F_SETLK
      ((demo_locks [\<lparr>r_type = 1, r_start = 0, r_len = 100, r_owner = 9\<rparr>])\<lparr>kern := upd_task 2 (\<lambda>t. t\<lparr>files := []\<rparr>)
         (kern (demo_locks []))\<rparr>) [] = (Returned 0 st', None) \<and> length (locks (ofile st' 10)) \<noteq> 0"
proof -
  let ?r = "\<lparr>r_type = 1, r_start = 0, r_len = 100, r_owner = 9\<rparr>"
  let ?s = "(demo_locks [?r])\<lparr>kern := upd_task 2 (\<lambda>t. t\<lparr>files := []\<rparr>) (kern (demo_locks []))\<rparr>"
  have "find_open_file 0 ?s = Some 10" by (simp add: find_open_file_def cur_files_def demo_locks_def demo_kernel_def demo_fstate_def)
  moreover have "\<forall>b \<in> set (all_files ?s). b = 10" by (simp add: all_files_def demo_locks_def demo_kernel_def demo_fstate_def zero_task_def)
  moreover have "?r \<in> set (locks (ofile ?s 10))" by (simp add: demo_locks_def)
  moreover have "r_owner ?r \<noteq> cur_pid ?s" by (simp add: demo_locks_def demo_fstate_def demo_kernel_def zero_task_def)
  ultimately obtain st' where "fs_fcntl_lock demo_fstat True 0 (Some demo_request) True 0 F_SETLK ?s [] = (Returned 0 st', None)"
    "?r \<in> set (locks (ofile st' 10))"
    using record_lock_shared_file [of 0 ?s 10 ?r demo_request demo_fstat 0 True] by auto
  then show ?thesis by (intro exI [of _ st']) auto
qed

end
