(* ===== verification/Vfs_Path.thy ===== *)
theory Vfs_Path
  imports Sched
begin

text \<open>
  Paths and mounts, the name half of \<^verbatim>\<open>fs/vfs.c\<close>. Strings are lists of characters without the
  terminating NUL. \<open>resolve_path\<close> builds a normalised absolute path in a buffer of limited size; the
  buffer up to the write position is the list \<open>out\<close>. The mount table is a list of 16 entries.
\<close>

section \<open>Resolving paths\<close>

abbreviation slash :: char where "slash \<equiv> CHR ''/''"

definition MAX_PATH_LEN :: nat where "MAX_PATH_LEN = 256"

text \<open>The components of a path, as the scanning loop finds them.\<close>

function components :: "string \<Rightarrow> string list" where
  "components [] = []"
| "components (c # cs) =
     (if c = slash then components cs
      else takeWhile (\<lambda>x. x \<noteq> slash) (c # cs) # components (dropWhile (\<lambda>x. x \<noteq> slash) (c # cs)))"
  by pat_completeness auto
termination
  by (relation "measure length") (auto simp: le_imp_less_Suc length_dropWhile_le)

text \<open>Step back over the last component, not below the boundary.\<close>

function back_up :: "nat \<Rightarrow> string \<Rightarrow> string" where
  "back_up boundary out =
     (if length out > boundary \<and> last out \<noteq> slash then back_up boundary (butlast out) else out)"
  by pat_completeness auto
termination
  by (relation "measure (\<lambda>(b, out). length out)") auto

declare back_up.simps [simp del]

text \<open>One component; \<open>e\<close> is the index of the last byte of the buffer. \<open>None\<close>: the buffer is too small.\<close>

definition resolve_step :: "nat \<Rightarrow> nat \<Rightarrow> string \<Rightarrow> string \<Rightarrow> string option" where
  "resolve_step e boundary c out =
     (if c = ''.'' then Some out
      else if c = ''..'' then
        Some (if length out > boundary then back_up boundary (butlast out) else out)
      else
        case (if length out > 1 \<and> last out \<noteq> slash then (if length out \<ge> e then None else Some (out @ [slash])) else Some out) of
          None \<Rightarrow> None
        | Some out \<Rightarrow> if length out + length c > e then None else Some (out @ c))"

fun resolve_loop :: "nat \<Rightarrow> nat \<Rightarrow> string list \<Rightarrow> string \<Rightarrow> string option" where
  "resolve_loop e boundary [] out = Some out"
| "resolve_loop e boundary (c # cs) out =
     (case resolve_step e boundary c out of None \<Rightarrow> None | Some out \<Rightarrow> resolve_loop e boundary cs out)"

text \<open>
  The unnormalised path. With a chroot the code copies the root and the input into the buffer
  before it checks the length, which is the case \<open>Overflow\<close>.
\<close>

datatype raw_path = Raw string | Too_long | Overflow

definition raw_path :: "string \<Rightarrow> string \<Rightarrow> string \<Rightarrow> raw_path" where
  "raw_path root dir input =
     (if input \<noteq> [] \<and> hd input = slash then
        (if length root > 1 then
           (let tmp = (if input = [slash] then root else root @ input)
            in if length tmp \<ge> MAX_PATH_LEN then Overflow else Raw tmp)
         else if length input \<ge> MAX_PATH_LEN then Too_long
         else Raw input)
      else if length dir + 1 + length input + 1 \<ge> MAX_PATH_LEN then Too_long
      else Raw (dir @ (if dir \<noteq> [] \<and> last dir \<noteq> slash then [slash] else []) @ input))"

definition resolve_path :: "task \<Rightarrow> string \<Rightarrow> nat \<Rightarrow> string option" where
  "resolve_path t input bufsize =
     (let root = (if troot t = [] then [slash] else troot t)
      in case raw_path root (cwd t) input of
           Raw tmp \<Rightarrow>
             (let e = bufsize - 1; boundary = (if take (length root) tmp = root then length root else 1)
              in if 0 \<ge> e then None else resolve_loop e boundary (components tmp) [slash])
         | _ \<Rightarrow> None)"

section \<open>Mounts\<close>

record mount_point =
  mount_path :: string
  mount_fs_id :: int
  device_id :: int
  partition_id :: int
  fs_private_data :: nat
  mount_in_use :: bool

record fs_driver =
  fs_name :: string
  fs_flags :: u32
  driver_in_use :: bool

record vfs =
  mount_table :: "mount_point list"
  fs_drivers :: "fs_driver list"

definition mount_matches :: "string \<Rightarrow> mount_point \<Rightarrow> bool" where
  "mount_matches path m \<longleftrightarrow>
     mount_in_use m \<and>
     (if length (mount_path m) = 1 \<and> hd (mount_path m) = slash then True
      else take (length (mount_path m)) path = mount_path m \<and>
        (length path = length (mount_path m) \<or> path ! length (mount_path m) = slash))"

text \<open>The best mount so far: its position and the length of its path.\<close>

definition find_mount_point :: "vfs \<Rightarrow> string \<Rightarrow> nat option \<times> nat" where
  "find_mount_point v path =
     fold (\<lambda>i (best, best_len).
         let m = mount_table v ! i in
         if mount_matches path m \<and> length (mount_path m) > best_len then (Some i, length (mount_path m)) else (best, best_len))
       [0..<length (mount_table v)] (None, 0)"

definition resolve_mount :: "vfs \<Rightarrow> string \<Rightarrow> (nat \<times> string) option" where
  "resolve_mount v path =
     (case find_mount_point v path of
        (None, n) \<Rightarrow> None
      | (Some i, n) \<Rightarrow> Some (i, if drop n path = [] then [slash] else drop n path))"

fun first_index :: "('a \<Rightarrow> bool) \<Rightarrow> 'a list \<Rightarrow> nat option" where
  "first_index P [] = None"
| "first_index P (x # xs) = (if P x then Some 0 else map_option Suc (first_index P xs))"

definition find_fs_driver :: "vfs \<Rightarrow> string \<Rightarrow> nat option" where
  "find_fs_driver v name = first_index (\<lambda>d. driver_in_use d \<and> fs_name d = name) (fs_drivers v)"

definition register_filesystem :: "string \<Rightarrow> vfs \<Rightarrow> int \<times> vfs" where
  "register_filesystem name v =
     (case first_index (\<lambda>d. \<not> driver_in_use d) (fs_drivers v) of
        None \<Rightarrow> (-1, v)
      | Some i \<Rightarrow> (int i, v\<lparr>fs_drivers := (fs_drivers v)[i := \<lparr>fs_name = name, fs_flags = 0, driver_in_use = True\<rparr>]\<rparr>))"

definition register_pseudo_filesystem :: "string \<Rightarrow> vfs \<Rightarrow> int \<times> vfs" where
  "register_pseudo_filesystem name v =
     (case register_filesystem name v of
        (n, v) \<Rightarrow>
          if n \<ge> 0 then
            (n, v\<lparr>fs_drivers := (fs_drivers v)[nat n := (fs_drivers v ! nat n)\<lparr>fs_flags := fs_flags (fs_drivers v ! nat n) OR 1\<rparr>]\<rparr>)
          else (n, v))"

definition fs_is_pseudo_fs :: "string \<Rightarrow> vfs \<Rightarrow> int" where
  "fs_is_pseudo_fs name v =
     (case find_fs_driver v name of None \<Rightarrow> -1 | Some i \<Rightarrow> if fs_flags (fs_drivers v ! i) AND 1 \<noteq> 0 then 1 else 0)"

definition fs_is_mounted :: "string \<Rightarrow> vfs \<Rightarrow> bool" where
  "fs_is_mounted path v = list_ex (\<lambda>m. mount_in_use m \<and> mount_path m = path) (mount_table v)"

text \<open>\<open>drv\<close>: what the driver's \<^verbatim>\<open>mount\<close> returns, if it has one, and the private data it sets.\<close>

definition fs_mount :: "int \<times> nat \<Rightarrow> int \<Rightarrow> int \<Rightarrow> string \<Rightarrow> string \<Rightarrow> vfs \<Rightarrow> int \<times> vfs" where
  "fs_mount drv dev part fs_type path v =
     (if fs_is_mounted path v then (-1, v)
      else case find_fs_driver v fs_type of
          None \<Rightarrow> (-1, v)
        | Some d \<Rightarrow>
            (case first_index (\<lambda>m. \<not> mount_in_use m) (mount_table v) of
               None \<Rightarrow> (-1, v)
             | Some slot \<Rightarrow>
                 if fst drv \<noteq> 0 then (-1, v)
                 else (0, v\<lparr>mount_table := (mount_table v)[slot := \<lparr>mount_path = path, mount_fs_id = int d, device_id = dev,
                        partition_id = part, fs_private_data = snd drv, mount_in_use = True\<rparr>]\<rparr>)))"

definition fs_unmount :: "string \<Rightarrow> vfs \<Rightarrow> int \<times> vfs" where
  "fs_unmount path v =
     (case first_index (\<lambda>m. mount_in_use m \<and> mount_path m = path) (mount_table v) of
        None \<Rightarrow> (-1, v)
      | Some i \<Rightarrow> (0, v\<lparr>mount_table := (mount_table v)[i := (mount_table v ! i)\<lparr>mount_in_use := False, fs_private_data := 0\<rparr>]\<rparr>))"

section \<open>Working directory, root directory and permissions\<close>

record stat =
  st_type :: nat
  st_mode :: u32
  st_uid :: nat
  st_gid :: nat

abbreviation (input) "DT_DIR \<equiv> (2::nat)"

text \<open>
  \<open>stat_of i\<close> is the \<^verbatim>\<open>stat\<close> function of the filesystem mounted at position \<open>i\<close>, if it has one. The result of
  \<^verbatim>\<open>fs_chdir\<close> is \<open>None\<close> where the code follows the null pointer of a path without mount.
\<close>

definition fs_stat :: "(nat \<Rightarrow> (string \<Rightarrow> stat option) option) \<Rightarrow> vfs \<Rightarrow> task \<Rightarrow> string \<Rightarrow> stat option" where
  "fs_stat stat_of v t path =
     (case resolve_path t path MAX_PATH_LEN of
        None \<Rightarrow> None
      | Some apath \<Rightarrow> (case resolve_mount v apath of None \<Rightarrow> None
         | Some (i, rel) \<Rightarrow> (case stat_of i of None \<Rightarrow> None | Some stat \<Rightarrow> stat rel)))"

definition fs_access_perm :: "(nat \<Rightarrow> (string \<Rightarrow> stat option) option) \<Rightarrow> vfs \<Rightarrow> task \<Rightarrow> string \<Rightarrow> u32 \<Rightarrow> int" where
  "fs_access_perm stat_of v t path amode =
     (case fs_stat stat_of v t path of
        None \<Rightarrow> -ENOENT
      | Some st \<Rightarrow>
          if euid (cred t) = 0 then 0
          else if amode = 0 then 0
          else if st_mode st AND 0x1FF = 0 then 0
          else
            let shift = (if euid (cred t) = st_uid st then 6 else if egid (cred t) = st_gid st then 3 else 0)
            in if (st_mode st AND 0x1FF) AND push_bit shift amode \<noteq> 0 then 0 else -13)"

definition fs_chdir :: "(nat \<Rightarrow> (string \<Rightarrow> stat option) option) \<Rightarrow> vfs \<Rightarrow> task \<Rightarrow> string \<Rightarrow> (int \<times> task) option" where
  "fs_chdir stat_of v t path =
     (case resolve_path t path MAX_PATH_LEN of
        None \<Rightarrow> Some (-1, t)
      | Some apath \<Rightarrow>
          (case resolve_mount v apath of
             None \<Rightarrow> None
           | Some (i, rel) \<Rightarrow>
               let moved = Some (0, t\<lparr>cwd := take (MAX_PATH_LEN - 1) apath\<rparr>) in
               (case stat_of i of
                  None \<Rightarrow> moved
                | Some stat \<Rightarrow> (case stat rel of None \<Rightarrow> Some (-1, t) | Some st \<Rightarrow> if st_type st \<noteq> DT_DIR then Some (-1, t) else moved))))"

definition fs_getcwd :: "task \<Rightarrow> nat \<Rightarrow> string option" where
  "fs_getcwd t bufsize =
     (if bufsize = 0 then None
      else
        let root = (if troot t = [] then [slash] else troot t);
            c = (if length root > 1 \<and> take (length root) (cwd t) = root
                 then (if drop (length root) (cwd t) = [] then [slash] else drop (length root) (cwd t)) else cwd t)
        in if length c + 1 > bufsize then None else Some c)"

definition fs_chroot :: "(nat \<Rightarrow> (string \<Rightarrow> stat option) option) \<Rightarrow> vfs \<Rightarrow> task \<Rightarrow> string \<Rightarrow> int \<times> task" where
  "fs_chroot stat_of v t path =
     (case resolve_path t path MAX_PATH_LEN of
        None \<Rightarrow> (-ENOENT, t)
      | Some apath \<Rightarrow>
          (case resolve_mount v apath of
             None \<Rightarrow> (-ENOENT, t)
           | Some (i, rel) \<Rightarrow>
               let moved = (0, t\<lparr>troot := take (MAX_PATH_LEN - 1) apath\<rparr>) in
               (case stat_of i of
                  None \<Rightarrow> moved
                | Some stat \<Rightarrow> (case stat rel of None \<Rightarrow> (-ENOENT, t) | Some st \<Rightarrow> if st_type st \<noteq> DT_DIR then (-20, t) else moved))))"

section \<open>Normalisation\<close>

text \<open>The reference: components pushed on and popped off a stack.\<close>

definition norm_step :: "string list \<Rightarrow> string \<Rightarrow> string list" where
  "norm_step stk c = (if c = ''.'' then stk else if c = ''..'' then butlast stk else stk @ [c])"

fun join_path :: "string list \<Rightarrow> string" where
  "join_path [] = []"
| "join_path (c # cs) = slash # c @ join_path cs"

definition good_comp :: "string \<Rightarrow> bool" where
  "good_comp c \<longleftrightarrow> c \<noteq> [] \<and> slash \<notin> set c"

lemma join_path_append [simp]: "join_path (xs @ ys) = join_path xs @ join_path ys"
  by (induction xs) auto

lemma good_last: "good_comp c \<Longrightarrow> last c \<noteq> slash"
  using last_in_set unfolding good_comp_def by metis

lemma components_good: "c \<in> set (components p) \<Longrightarrow> good_comp c"
proof (induction p rule: components.induct)
  case (2 x xs)
  show ?case
  proof (cases "x = slash")
    case False
    then show ?thesis using 2 by (auto simp: good_comp_def dest: set_takeWhileD)
  qed (use 2 in auto)
qed simp

lemma components_word:
  assumes "good_comp c" "s = [] \<or> hd s = slash"
  shows "components (c @ s) = c # components s"
proof -
  obtain x xs where c: "c = x # xs" "x \<noteq> slash" using assms(1) by (cases c) (auto simp: good_comp_def)
  have all: "\<And>y. y \<in> set c \<Longrightarrow> y \<noteq> slash" using assms(1) by (auto simp: good_comp_def)
  have "takeWhile (\<lambda>y. y \<noteq> slash) s = []" "dropWhile (\<lambda>y. y \<noteq> slash) s = s" using assms(2) by (cases s; simp)+
  then have "takeWhile (\<lambda>y. y \<noteq> slash) (c @ s) = c" "dropWhile (\<lambda>y. y \<noteq> slash) (c @ s) = s"
    using takeWhile_append2 [of c "\<lambda>y. y \<noteq> slash" s] dropWhile_append2 [of c "\<lambda>y. y \<noteq> slash" s] all by simp_all
  then show ?thesis using c by simp
qed

lemma components_join:
  assumes "\<forall>c \<in> set cs. good_comp c" "s = [] \<or> hd s = slash"
  shows "components (join_path cs @ s) = cs @ components s"
  using assms(1)
proof (induction cs)
  case (Cons c cs)
  have "join_path cs @ s = [] \<or> hd (join_path cs @ s) = slash" using assms(2) by (cases cs) auto
  then show ?case using Cons components_word [of c "join_path cs @ s"] by simp
qed simp

lemma components_size: "p = [] \<or> hd p = slash \<Longrightarrow> sum_list (map (\<lambda>c. length c + 1) (components p)) \<le> length p"
proof -
  have "sum_list (map (\<lambda>c. length c + 1) (components p)) \<le> length p + (if p = [] \<or> hd p = slash then 0 else 1)"
  proof (induction p rule: components.induct)
    case (2 x xs)
    show ?case
    proof (cases "x = slash")
      case True
      have "sum_list (map (\<lambda>c. length c + 1) (components xs)) \<le> length xs + 1" using 2(1) [OF True] by (auto split: if_splits)
      then show ?thesis using True by simp
    next
      case False
      let ?d = "dropWhile (\<lambda>y. y \<noteq> slash) (x # xs)" and ?t = "takeWhile (\<lambda>y. y \<noteq> slash) (x # xs)"
      have "?d = [] \<or> hd ?d = slash" using hd_dropWhile by blast
      then have "sum_list (map (\<lambda>c. length c + 1) (components ?d)) \<le> length ?d" using 2(2) [OF False] by simp
      moreover have "length ?t + length ?d = length (x # xs)" by (metis length_append takeWhile_dropWhile_id)
      ultimately show ?thesis using False by simp
    qed
  qed simp
  then show "p = [] \<or> hd p = slash \<Longrightarrow> ?thesis" by auto
qed

lemma back_up_to:
  assumes "slash \<notin> set w" "b \<le> length u" "length u \<le> b \<or> last u = slash"
  shows "back_up b (u @ w) = u"
  using assms(1)
proof (induction w rule: rev_induct)
  case Nil
  then show ?case using assms(2,3) by (subst back_up.simps) auto
next
  case (snoc x w)
  then show ?case using assms(2) by (subst back_up.simps) (auto simp: butlast_append)
qed

lemma back_up_prefix: "\<exists>n. back_up b s = take n s \<and> (b \<le> length s \<longrightarrow> b \<le> n)"
proof (induction b s rule: back_up.induct)
  case (1 b s)
  show ?case
  proof (cases "length s > b \<and> last s \<noteq> slash")
    case True
    then have eq: "back_up b s = back_up b (butlast s)" by (subst back_up.simps) simp
    from 1 [OF True] obtain n where n: "back_up b (butlast s) = take n (butlast s)" "b \<le> length (butlast s) \<longrightarrow> b \<le> n" by blast
    have "take n (butlast s) = take (min n (length s - 1)) s" by (simp add: butlast_conv_take min_def)
    then show ?thesis unfolding eq n(1) using n(2) True by (intro exI [of _ "min n (length s - 1)"]) auto
  next
    case False
    then have "back_up b s = s" by (subst back_up.simps) auto
    then show ?thesis by (intro exI [of _ "length s"]) auto
  qed
qed

text \<open>The buffer holds the components of the stack; it may end in a slash.\<close>

definition repr :: "string \<Rightarrow> string list \<Rightarrow> bool" where
  "repr out stk \<longleftrightarrow> (\<forall>c \<in> set stk. good_comp c) \<and> (if stk = [] then out = [slash] else out = join_path stk \<or> out = join_path stk @ [slash])"

definition used :: "string \<Rightarrow> nat" where
  "used out = (if last out = slash then length out - 1 else length out)"

lemma repr_components: "repr out stk \<Longrightarrow> components out = stk \<and> out \<noteq> [] \<and> hd out = slash"
  using components_join [of stk "[]"] components_join [of stk "[slash]"]
  by (cases stk) (auto simp: repr_def split: if_splits)

text \<open>An ordinary component is pushed, whatever the boundary is.\<close>

lemma resolve_step_name:
  assumes "repr out stk" "good_comp c" "c \<noteq> ''.''" "c \<noteq> ''..''" "used out + length c + 1 \<le> e"
  shows "\<exists>out'. resolve_step e b c out = Some out' \<and> repr out' (stk @ [c]) \<and> used out' \<le> used out + length c + 1 \<and> length out' \<le> e"
proof -
  have c: "c \<noteq> []" "last c \<noteq> slash" using assms(2) last_in_set unfolding good_comp_def by metis+
  have R: "repr (join_path (stk @ [c])) (stk @ [c])" using assms(1,2) by (auto simp: repr_def)
  show ?thesis
  proof (cases "last out = slash")
    case True
    have "out \<noteq> join_path stk"
    proof (cases stk rule: rev_cases)
      case (snoc ys y)
      then have "last (join_path stk) = last y" "good_comp y" using assms(1) by (auto simp: repr_def good_comp_def)
      then show ?thesis using True good_last by metis
    qed (use assms(1) in \<open>simp add: repr_def\<close>)
    then have out: "out = join_path stk @ [slash]" using assms(1) by (auto simp: repr_def split: if_splits)
    then have "resolve_step e b c out = Some (join_path (stk @ [c]))"
      using assms(3-5) True by (simp add: resolve_step_def used_def)
    then show ?thesis using R out assms(5) c by (simp add: used_def)
  next
    case False
    then have out: "out = join_path stk" "stk \<noteq> []" using assms(1) by (auto simp: repr_def split: if_splits)
    have "length out > 1" using assms(1) out by (cases stk) (auto simp: repr_def good_comp_def)
    then have "resolve_step e b c out = Some (join_path (stk @ [c]))"
      using assms(3-5) False out by (simp add: resolve_step_def used_def)
    then show ?thesis using R out assms(5) c False by (simp add: used_def)
  qed
qed

text \<open>Below a root directory \<open>rs\<close> with its length as the boundary, a component moves the stack above the root.\<close>

lemma resolve_step_repr:
  assumes "repr out (rs @ stk)" "good_comp c" "used out + length c + 1 \<le> e" "length out \<le> e" "b = max 1 (length (join_path rs))"
  shows "\<exists>out'. resolve_step e b c out = Some out' \<and> repr out' (rs @ norm_step stk c) \<and> used out' \<le> used out + length c + 1 \<and> length out' \<le> e"
proof -
  consider (dot) "c = ''.''" | (dotdot) "c = ''..''" | (name) "c \<noteq> ''.''" "c \<noteq> ''..''" by blast
  then show ?thesis
  proof cases
    case dot
    then show ?thesis using assms by (simp add: resolve_step_def norm_step_def)
  next
    case dotdot
    show ?thesis
    proof (cases "stk = []")
      case True
      have b: "rs \<noteq> [] \<Longrightarrow> b = length (join_path rs)" using assms(5) by (cases rs) auto
      have "back_up (length (join_path rs)) (join_path rs) = join_path rs" by (subst back_up.simps) simp
      then have "resolve_step e b c out = Some (if rs = [] then [slash] else join_path rs)"
        using assms(1,5) True dotdot b by (auto simp: resolve_step_def repr_def)
      moreover have "used (join_path rs) \<le> used out" "length (join_path rs) \<le> length out" if "rs \<noteq> []"
        using assms(1) True that by (auto simp: repr_def used_def)
      moreover have "repr (if rs = [] then [slash] else join_path rs) rs" using assms(1) True by (auto simp: repr_def)
      ultimately show ?thesis using assms(4) True dotdot assms(1) by (auto simp: norm_step_def repr_def)
    next
      case False
      then obtain cs x where stk: "stk = cs @ [x]" by (metis append_butlast_last_id)
      have x: "x \<noteq> []" "slash \<notin> set x" and cs: "\<forall>c \<in> set (rs @ cs). good_comp c" using assms(1) stk by (auto simp: repr_def good_comp_def)
      let ?u = "join_path (rs @ cs) @ [slash]"
      have bu: "b \<le> length ?u" using assms(5) by simp
      have len: "length out > b" using assms(1,5) x(1) by (auto simp: repr_def stk)
      moreover have "back_up b (butlast out) = ?u"
      proof (cases "out = join_path (rs @ stk)")
        case True
        then have "butlast out = ?u @ butlast x" using x(1) by (simp add: stk butlast_append)
        moreover have "slash \<notin> set (butlast x)" using x(2) by (meson in_set_butlastD)
        ultimately show ?thesis using back_up_to [of "butlast x" b ?u] bu by simp
      next
        case f: False
        then have "out = join_path (rs @ stk) @ [slash]" using assms(1) False by (auto simp: repr_def)
        then have "butlast out = ?u @ x" using butlast_snoc [of "join_path (rs @ cs) @ slash # x" slash] by (simp add: stk)
        then show ?thesis using back_up_to [of x b ?u] x(2) bu by simp
      qed
      moreover have "repr ?u (rs @ cs)" using cs by (auto simp: repr_def)
      moreover have "length ?u \<le> length out" "used ?u \<le> used out"
        using assms(1) x by (auto simp: repr_def used_def stk split: if_splits)
      ultimately show ?thesis using dotdot stk assms(4) by (simp add: resolve_step_def norm_step_def)
    qed
  next
    case name
    then show ?thesis using resolve_step_name [OF assms(1,2) name assms(3), of b] by (simp add: norm_step_def)
  qed
qed

lemma resolve_loop_repr:
  assumes "repr out (rs @ stk)" "\<forall>c \<in> set cs. good_comp c" "used out + sum_list (map (\<lambda>c. length c + 1) cs) \<le> e" "length out \<le> e"
    "b = max 1 (length (join_path rs))"
  shows "\<exists>out'. resolve_loop e b cs out = Some out' \<and> repr out' (rs @ foldl norm_step stk cs) \<and> length out' \<le> e"
  using assms(1-4)
proof (induction cs arbitrary: out stk)
  case (Cons c cs)
  from resolve_step_repr [OF Cons.prems(1) _ _ _ assms(5), of c e] Cons.prems
  obtain o1 where o1: "resolve_step e b c out = Some o1" "repr o1 (rs @ norm_step stk c)" "used o1 \<le> used out + length c + 1" "length o1 \<le> e"
    by auto
  then show ?case using Cons.IH [OF o1(2)] Cons.prems by auto
qed auto

lemma resolve_loop_names:
  assumes "repr out stk" "\<forall>c \<in> set cs. good_comp c \<and> c \<noteq> ''.'' \<and> c \<noteq> ''..''"
    "used out + sum_list (map (\<lambda>c. length c + 1) cs) \<le> e" "length out \<le> e"
  shows "\<exists>out'. resolve_loop e b cs out = Some out' \<and> repr out' (stk @ cs) \<and> length out' \<le> e \<and>
    used out' \<le> used out + sum_list (map (\<lambda>c. length c + 1) cs)"
  using assms
proof (induction cs arbitrary: out stk)
  case (Cons c cs)
  from resolve_step_name [OF Cons.prems(1), of c e b] Cons.prems
  obtain o1 where o1: "resolve_step e b c out = Some o1" "repr o1 (stk @ [c])" "used o1 \<le> used out + length c + 1" "length o1 \<le> e"
    by auto
  then show ?case using Cons.IH [OF o1(2)] Cons.prems by fastforce
qed auto

lemma resolve_loop_append:
  "resolve_loop e b (xs @ ys) out = (case resolve_loop e b xs out of None \<Rightarrow> None | Some o1 \<Rightarrow> resolve_loop e b ys o1)"
  by (induction xs arbitrary: out) (auto split: option.splits)

lemma take_root_1: "p \<noteq> [] \<Longrightarrow> hd p = slash \<Longrightarrow> take 1 p = [slash]"
  by (cases p) auto

lemma raw_length: "raw_path r d i = Raw p \<Longrightarrow> length p \<le> 255"
  by (auto simp: raw_path_def MAX_PATH_LEN_def Let_def split: if_splits)

text \<open>
  C22: \<^verbatim>\<open>resolve_path\<close> normalises below the root of the process. Let the root be the real one or a directory with
  the components \<open>rs\<close>, none of them a dot or a double dot, and let the path the code puts together (the root and
  an absolute path, or the working directory and a relative one) be shorter than its buffer and consist of the root and a
  rest \<open>q\<close> that is empty or begins with a slash, so that the working directory is not outside the root. Then the
  result fits into the buffer: it is the root followed by the components of the rest, each dot dropped and each double dot
  cancelling the component before it, or nothing when there is none above the root; a double dot may leave one slash at
  the end.
\<close>

theorem resolve_path_normal:
  assumes "troot t = join_path rs \<or> rs = [] \<and> troot t = [slash]" "\<forall>c \<in> set rs. good_comp c \<and> c \<noteq> ''.'' \<and> c \<noteq> ''..''"
    "raw_path (if troot t = [] then [slash] else troot t) (cwd t) input = Raw (join_path rs @ q)" "join_path rs @ q \<noteq> []" "q = [] \<or> hd q = slash"
  shows "\<exists>out. resolve_path t input MAX_PATH_LEN = Some out \<and> length out < MAX_PATH_LEN \<and>
    (let norm = join_path (rs @ foldl norm_step [] (components q)) in out = norm \<and> norm \<noteq> [] \<or> out = norm @ [slash])"
proof -
  let ?p = "join_path rs @ q" and ?b = "max 1 (length (join_path rs))"
  have len: "length ?p \<le> 255" by (rule raw_length [OF assms(3)])
  have hd: "hd ?p = slash" using assms(4,5) by (cases rs) auto
  have c: "components ?p = rs @ components q" using components_join [of rs q] assms(2,5) by auto
  have size: "sum_list (map (\<lambda>c. length c + 1) rs) + sum_list (map (\<lambda>c. length c + 1) (components q)) \<le> 255"
    using components_size [of ?p] hd len unfolding c by simp
  have "repr [slash] []" "used [slash] = 0" by (simp_all add: repr_def used_def)
  then obtain o1 where o1: "resolve_loop 255 ?b rs [slash] = Some o1" "repr o1 rs" "length o1 \<le> 255" "used o1 \<le> sum_list (map (\<lambda>c. length c + 1) rs)"
    using resolve_loop_names [of "[slash]" "[]" rs 255 ?b] assms(2) size by auto
  then obtain out where out: "resolve_loop 255 ?b (components q) o1 = Some out" "repr out (rs @ foldl norm_step [] (components q))" "length out \<le> 255"
    using resolve_loop_repr [of o1 rs "[]" "components q" 255 ?b] components_good [of _ q] size by fastforce
  have "resolve_path t input MAX_PATH_LEN = Some out"
  proof -
    define root where "root = (if troot t = [] then [slash] else troot t)"
    have "take (length root) ?p = root \<and> length root = ?b"
    proof (cases "rs = []")
      case True
      then have "root = [slash]" using assms(1) by (auto simp: root_def)
      then show ?thesis using True assms(4) hd by (cases q) auto
    next
      case False
      then show ?thesis using assms(1) by (cases rs) (auto simp: root_def)
    qed
    then have T: "take (length root) ?p = root" and l: "length root = ?b" by blast+
    have "(if take (length root) ?p = root then length root else 1) = ?b" unfolding if_P [OF T] by (rule l)
    moreover have "resolve_loop 255 ?b (components ?p) [slash] = Some out" unfolding c resolve_loop_append o1(1) by (simp only: option.case out(1))
    ultimately show ?thesis using assms(3)
      unfolding resolve_path_def root_def [symmetric] Let_def by (simp only: raw_path.case MAX_PATH_LEN_def) simp
  qed
  moreover have "join_path cs = [] \<longleftrightarrow> cs = []" for cs by (cases cs) auto
  ultimately show ?thesis using out(2,3) by (auto simp: MAX_PATH_LEN_def repr_def Let_def split: if_splits)
qed

section \<open>The chroot jail\<close>

definition below :: "string \<Rightarrow> string \<Rightarrow> bool" where
  "below rt out \<longleftrightarrow> (\<exists>s. out = rt @ s \<and> (s = [] \<or> hd s = slash))"

lemma resolve_step_below:
  assumes "below rt out" "rt \<noteq> []" "last rt \<noteq> slash" "1 < length rt" "resolve_step e (length rt) c out = Some out'"
  shows "below rt out'"
proof -
  obtain s where s: "out = rt @ s" "s = [] \<or> hd s = slash" using assms(1) by (auto simp: below_def)
  consider (dot) "c = ''.''" | (stay) "c = ''..''" "s = []" | (pop) "c = ''..''" "s \<noteq> []" | (name) "c \<noteq> ''.''" "c \<noteq> ''..''" by blast
  then show ?thesis
  proof cases
    case dot
    then show ?thesis using assms(1,5) by (simp add: resolve_step_def)
  next
    case stay
    then show ?thesis using assms(1,5) s by (simp add: resolve_step_def)
  next
    case pop
    then have o': "out' = back_up (length rt) (butlast out)" using assms(5) s(1) by (simp add: resolve_step_def)
    obtain n where n: "out' = take n (butlast out)" "length rt \<le> length (butlast out) \<longrightarrow> length rt \<le> n"
      using back_up_prefix [of "length rt" "butlast out"] o' by blast
    have b: "butlast out = rt @ butlast s" using s(1) pop(2) by (simp add: butlast_append)
    then have "out' = rt @ take (n - length rt) (butlast s)" using n by simp
    moreover have "take k (butlast s) = [] \<or> hd (take k (butlast s)) = slash" for k
      using s(2) pop(2) by (cases s; cases k) auto
    ultimately show ?thesis unfolding below_def by blast
  next
    case name
    then have "out' = out @ (if length out > 1 \<and> last out \<noteq> slash then [slash] else []) @ c"
      using assms(5) by (auto simp: resolve_step_def split: if_splits)
    moreover have "s = [] \<Longrightarrow> last out \<noteq> slash \<and> length out > 1" using s(1) assms(3,4) by simp
    ultimately have "out' = rt @ (s @ (if length out > 1 \<and> last out \<noteq> slash then [slash] else []) @ c)"
      "s @ (if length out > 1 \<and> last out \<noteq> slash then [slash] else []) @ c = [] \<or>
       hd (s @ (if length out > 1 \<and> last out \<noteq> slash then [slash] else []) @ c) = slash"
      using s by (auto simp: hd_append)
    then show ?thesis unfolding below_def by blast
  qed
qed

lemma resolve_loop_below:
  "below rt out \<Longrightarrow> rt \<noteq> [] \<Longrightarrow> last rt \<noteq> slash \<Longrightarrow> 1 < length rt \<Longrightarrow> resolve_loop e (length rt) cs out = Some out' \<Longrightarrow> below rt out'"
proof (induction cs arbitrary: out)
  case (Cons c cs)
  then show ?case using resolve_step_below [of rt out e c] by (auto split: option.splits)
qed simp

text \<open>Components that are neither dot nor double dot are only appended.\<close>

lemma resolve_loop_plain:
  assumes "\<forall>c \<in> set cs. good_comp c \<and> c \<noteq> ''.'' \<and> c \<noteq> ''..''" "\<forall>c \<in> set pre. good_comp c"
    "resolve_loop e b cs (if pre = [] then [slash] else join_path pre) = Some out"
  shows "out = (if pre @ cs = [] then [slash] else join_path (pre @ cs))"
  using assms
proof (induction cs arbitrary: pre)
  case Nil
  then show ?case by (cases "pre = []") simp_all
next
  case (Cons c cs)
  let ?o = "if pre = [] then [slash] else join_path pre"
  have last: "pre \<noteq> [] \<Longrightarrow> last (join_path pre) \<noteq> slash \<and> length (join_path pre) > 1"
  proof -
    assume "pre \<noteq> []"
    then obtain ys y where "pre = ys @ [y]" by (metis append_butlast_last_id)
    then show ?thesis using Cons.prems(2) good_last [of y] by (auto simp: good_comp_def)
  qed
  obtain o1 where o1: "resolve_step e b c ?o = Some o1" "resolve_loop e b cs o1 = Some out"
    using Cons.prems(3) by (auto split: option.splits)
  have "o1 = join_path (pre @ [c])"
    using o1(1) Cons.prems(1) last by (cases "pre = []") (auto simp: resolve_step_def split: if_splits)
  then show ?case using Cons.IH [of "pre @ [c]"] Cons.prems o1(2) by auto
qed

text \<open>
  a chroot jail holds for absolute paths. With a normalised root directory other than the real one,
  every absolute path of the process resolves to the root itself or to a path below it, whatever double
  dots it contains.
\<close>

theorem chroot_jail:
  assumes "troot t = join_path rs" "rs \<noteq> []" "\<forall>c \<in> set rs. good_comp c \<and> c \<noteq> ''.'' \<and> c \<noteq> ''..''"
    "input \<noteq> []" "hd input = slash" "resolve_path t input n = Some out"
  shows "out = troot t \<or> (\<exists>s. out = troot t @ slash # s)"
proof -
  let ?rt = "join_path rs"
  obtain ys y where rs: "rs = ys @ [y]" using assms(2) by (metis append_butlast_last_id)
  have rt: "?rt \<noteq> []" "last ?rt \<noteq> slash" "1 < length ?rt"
    using assms(3) rs good_last [of y] by (auto simp: good_comp_def)
  have raw: "raw_path ?rt (cwd t) input = (if length (if input = [slash] then ?rt else ?rt @ input) \<ge> MAX_PATH_LEN then Overflow
      else Raw (?rt @ (if input = [slash] then [] else input)))"
    using assms(4,5) rt(3) by (simp add: raw_path_def)
  let ?in = "if input = [slash] then [] else input"
  have "components (?rt @ ?in) = rs @ components ?in"
    using components_join [of rs ?in] assms(3,5) by auto
  moreover have "troot t \<noteq> []" "take (length ?rt) (?rt @ ?in) = ?rt" using rt(1) assms(1) by simp_all
  ultimately have "resolve_loop (n - 1) (length ?rt) (rs @ components ?in) [slash] = Some out"
    using assms(6) unfolding resolve_path_def assms(1) by (auto simp: raw Let_def split: if_splits)
  then obtain o1 where o1: "resolve_loop (n - 1) (length ?rt) rs [slash] = Some o1" "resolve_loop (n - 1) (length ?rt) (components ?in) o1 = Some out"
    unfolding resolve_loop_append by (auto split: option.splits)
  have "o1 = ?rt" using resolve_loop_plain [OF assms(3), of "[]"] o1(1) assms(2) by simp
  then have "below ?rt o1" by (simp add: below_def)
  from resolve_loop_below [OF this rt o1(2)] obtain s where s: "out = ?rt @ s" "s = [] \<or> hd s = slash" by (auto simp: below_def)
  then show ?thesis using assms(1) by (cases s) auto
qed

text \<open>
  The prefix test of the root compares characters, not components: seen from a sibling directory whose
  name starts like the root, double dot leads into the root instead of the parent.
\<close>

lemma dotdot_sibling_of_root:
  "resolve_path (zero_task\<lparr>troot := ''/jail'', cwd := ''/jail2''\<rparr>) ''..'' MAX_PATH_LEN = Some ''/jail''"
proof -
  have d: "dropWhile (\<lambda>x. x \<noteq> slash) ''jail2/..'' = ''/..''" "takeWhile (\<lambda>x. x \<noteq> slash) ''jail2/..'' = ''jail2''" by simp_all
  have c: "components ''/jail2/..'' = [''jail2'', ''..'']" by simp
  have r: "raw_path ''/jail'' ''/jail2'' ''..'' = Raw ''/jail2/..''" by (simp add: raw_path_def MAX_PATH_LEN_def)
  show ?thesis by (simp add: resolve_path_def r c MAX_PATH_LEN_def resolve_step_def Let_def back_up.simps)
qed

section \<open>Mounts\<close>

lemma find_mount_fold:
  assumes "n \<le> length (mount_table v)"
  shows "case fold (\<lambda>i (best, best_len). let m = mount_table v ! i in
         if mount_matches path m \<and> length (mount_path m) > best_len then (Some i, length (mount_path m)) else (best, best_len))
       [0..<n] (None, 0) of
     (None, l) \<Rightarrow> l = 0 \<and> (\<forall>j < n. mount_matches path (mount_table v ! j) \<longrightarrow> mount_path (mount_table v ! j) = [])
   | (Some i, l) \<Rightarrow> i < n \<and> mount_matches path (mount_table v ! i) \<and> l = length (mount_path (mount_table v ! i)) \<and> 0 < l \<and>
       (\<forall>j < n. mount_matches path (mount_table v ! j) \<longrightarrow> length (mount_path (mount_table v ! j)) \<le> l)"
  using assms
proof (induction n)
  case (Suc n)
  then show ?case by (auto simp: Let_def less_Suc_eq split: prod.splits option.splits if_splits)
qed simp

text \<open>
  a path goes to the longest mount. The mount that \<^verbatim>\<open>resolve_mount\<close> chooses is in use, its path is a
  prefix of the given path that ends at a component boundary, no matching mount has a longer path,
  and the rest handed to the filesystem is what follows the prefix; there is no mount only if no
  mount matches.
\<close>

theorem resolve_mount_longest:
  assumes "path \<noteq> []" "hd path = slash" "\<forall>m \<in> set (mount_table v). mount_in_use m \<longrightarrow> mount_path m \<noteq> []"
  shows "case resolve_mount v path of
      None \<Rightarrow> \<forall>m \<in> set (mount_table v). \<not> mount_matches path m
    | Some (i, rel) \<Rightarrow> i < length (mount_table v) \<and>
        (let m = mount_table v ! i in mount_in_use m \<and>
          (path = mount_path m @ rel \<or> path = mount_path m \<and> rel = [slash]) \<and>
          (mount_path m = [slash] \<or> hd rel = slash) \<and>
          (\<forall>m' \<in> set (mount_table v). mount_matches path m' \<longrightarrow> length (mount_path m') \<le> length (mount_path m)))"
proof -
  note f = find_mount_fold [OF order_refl, of v path, folded find_mount_point_def]
  obtain b l where bl: "find_mount_point v path = (b, l)" by fastforce
  show ?thesis
  proof (cases b)
    case None
    have "\<not> mount_matches path m" if m: "m \<in> set (mount_table v)" for m
    proof
      assume mm: "mount_matches path m"
      obtain j where "j < length (mount_table v)" "m = mount_table v ! j" using m by (auto simp: in_set_conv_nth)
      then have "mount_path m = []" using f mm unfolding bl None by simp
      then show False using assms(3) m mm by (auto simp: mount_matches_def)
    qed
    then show ?thesis by (simp add: resolve_mount_def bl None)
  next
    case (Some i)
    let ?m = "mount_table v ! i"
    have i: "i < length (mount_table v)" "mount_matches path ?m" "l = length (mount_path ?m)" "0 < l"
      "\<forall>j < length (mount_table v). mount_matches path (mount_table v ! j) \<longrightarrow> length (mount_path (mount_table v ! j)) \<le> l"
      using f unfolding bl Some by auto
    have pre: "take l path = mount_path ?m"
    proof (cases "length (mount_path ?m) = 1 \<and> hd (mount_path ?m) = slash")
      case True
      then have "mount_path ?m = [slash]" by (cases "mount_path ?m") auto
      then show ?thesis using take_root_1 [OF assms(1,2)] i(3) by simp
    qed (use i(2,3) in \<open>auto simp: mount_matches_def\<close>)
    then have path: "path = mount_path ?m @ drop l path" by (metis append_take_drop_id)
    have rel: "drop l path = [] \<or> mount_path ?m = [slash] \<or> hd (drop l path) = slash"
    proof (cases "length (mount_path ?m) = 1 \<and> hd (mount_path ?m) = slash")
      case True
      then show ?thesis by (cases "mount_path ?m") auto
    next
      case False
      then show ?thesis using i(2,3) by (auto simp: mount_matches_def hd_drop_conv_nth split: if_splits)
    qed
    have "mount_in_use ?m" using i(2) by (simp add: mount_matches_def)
    moreover have "\<forall>m' \<in> set (mount_table v). mount_matches path m' \<longrightarrow> length (mount_path m') \<le> length (mount_path ?m)"
      using i(3,5) by (auto simp: in_set_conv_nth)
    moreover have "resolve_mount v path = Some (i, if drop l path = [] then [slash] else drop l path)"
      by (simp add: resolve_mount_def bl Some)
    moreover have "path = mount_path ?m \<and> drop l path = [] \<or> path = mount_path ?m @ drop l path \<and> drop l path \<noteq> []" using path by auto
    ultimately show ?thesis using i(1) rel by (auto simp: Let_def)
  qed
qed

lemma first_index_Some: "first_index P xs = Some i \<Longrightarrow> i < length xs \<and> P (xs ! i)"
  by (induction xs arbitrary: i) (auto split: if_splits)

lemma first_index_unique: "i < length xs \<Longrightarrow> P (xs ! i) \<Longrightarrow> \<forall>j < length xs. P (xs ! j) \<longrightarrow> j = i \<Longrightarrow> first_index P xs = Some i"
proof (induction xs arbitrary: i)
  case (Cons x xs)
  show ?case
  proof (cases i)
    case (Suc k)
    have "\<not> P x" using Cons.prems(3) Suc by force
    moreover have "first_index P xs = Some k" using Cons.prems Suc by (intro Cons.IH) fastforce+
    ultimately show ?thesis using Suc by simp
  qed (use Cons.prems in simp)
qed simp

lemma fs_is_mounted_filter: "fs_is_mounted path v \<longleftrightarrow> path \<in> mount_path ` set (List.filter mount_in_use (mount_table v))"
  by (auto simp: fs_is_mounted_def list_ex_iff)

text \<open>
  mounting and unmounting. A successful \<^verbatim>\<open>fs_mount\<close> makes the path a mount and leaves the other mounts
  alone; unmounting it succeeds and leaves exactly the mounts there were before.
\<close>

theorem mount_unmount:
  assumes "fs_mount drv dev part fs_type path v = (0, v')"
  shows "fs_is_mounted path v' \<and> fst (fs_unmount path v') = 0 \<and> \<not> fs_is_mounted path (snd (fs_unmount path v')) \<and>
    List.filter mount_in_use (mount_table (snd (fs_unmount path v'))) = List.filter mount_in_use (mount_table v)"
proof -
  have nm: "\<not> fs_is_mounted path v" using assms by (auto simp: fs_mount_def)
  obtain d slot where slot: "first_index (\<lambda>m. \<not> mount_in_use m) (mount_table v) = Some slot" and
    v': "v' = v\<lparr>mount_table := (mount_table v)[slot := \<lparr>mount_path = path, mount_fs_id = int d, device_id = dev,
           partition_id = part, fs_private_data = snd drv, mount_in_use = True\<rparr>]\<rparr>"
    using assms nm by (auto simp: fs_mount_def split: option.splits if_splits)
  have s: "slot < length (mount_table v)" "\<not> mount_in_use (mount_table v ! slot)" using first_index_Some [OF slot] by simp_all
  have others: "mount_in_use (mount_table v' ! j) \<and> mount_path (mount_table v' ! j) = path \<longleftrightarrow> j = slot" if "j < length (mount_table v')" for j
    using nm that s(1) unfolding v' by (cases "j = slot") (auto simp: fs_is_mounted_def list_ex_iff)
  have "first_index (\<lambda>m. mount_in_use m \<and> mount_path m = path) (mount_table v') = Some slot"
    using others s(1) by (intro first_index_unique) (auto simp: v')
  then have u: "fs_unmount path v' = (0, v'\<lparr>mount_table := (mount_table v')[slot := (mount_table v' ! slot)\<lparr>mount_in_use := False, fs_private_data := 0\<rparr>]\<rparr>)"
    by (simp add: fs_unmount_def)
  have same: "List.filter mount_in_use (mount_table (snd (fs_unmount path v'))) = List.filter mount_in_use (mount_table v)"
    unfolding u using s by (simp add: v' filter_upd_outside)
  then have "\<not> fs_is_mounted path (snd (fs_unmount path v'))" using nm unfolding fs_is_mounted_filter by simp
  moreover have "fs_is_mounted path v'"
    using set_update_memI [OF s(1), of "\<lparr>mount_path = path, mount_fs_id = int d, device_id = dev,
           partition_id = part, fs_private_data = snd drv, mount_in_use = True\<rparr>"]
    unfolding fs_is_mounted_def list_ex_iff v' by (intro bexI) auto
  ultimately show ?thesis using same by (simp add: u)
qed

text \<open>One granted permission bit is enough, whatever other bits the caller asks for.\<close>

lemma access_any_bit:
  assumes "fs_stat stat_of v t path = Some st" "bit amode i" "i < 3" "euid (cred t) \<noteq> 0"
    "bit (st_mode st) (i + (if euid (cred t) = st_uid st then 6 else if egid (cred t) = st_gid st then 3 else 0))"
  shows "fs_access_perm stat_of v t path amode = 0"
proof -
  define sh where "sh = (if euid (cred t) = st_uid st then 6 else if egid (cred t) = st_gid st then 3 else (0::nat))"
  have sh: "sh \<le> 6" by (simp add: sh_def)
  have b: "bit (st_mode st) (i + sh)" using assms(5) by (simp add: sh_def)
  have "bit (0x1FF :: u32) (i + sh)"
  proof -
    have "bit (mask 9 :: u32) (i + sh)" using assms(3) sh by (simp add: bit_mask_iff)
    moreover have "(mask 9 :: u32) = 0x1FF" by (simp add: mask_eq_exp_minus_1)
    ultimately show ?thesis by simp
  qed
  then have "bit ((st_mode st AND 0x1FF) AND push_bit sh amode) (i + sh)"
    using b assms(2,3) sh by (simp add: bit_and_iff bit_push_bit_iff)
  then have "(st_mode st AND 0x1FF) AND push_bit sh amode \<noteq> 0" by auto
  then show ?thesis unfolding fs_access_perm_def assms(1) Let_def option.case sh_def [symmetric] by simp
qed

section \<open>Witnesses\<close>

theorem resolve_path_normal_witness:
  "\<exists>out. resolve_path (zero_task\<lparr>troot := ''/jail'', cwd := ''/jail/home''\<rparr>) ''a/../../..'' MAX_PATH_LEN = Some out \<and>
    (out = ''/jail'' \<or> out = ''/jail/'')"
proof -
  let ?t = "zero_task\<lparr>troot := ''/jail'', cwd := ''/jail/home''\<rparr>"
  have "raw_path ''/jail'' (cwd ?t) ''a/../../..'' = Raw (join_path [''jail''] @ ''/home/a/../../..'')" by (simp add: raw_path_def MAX_PATH_LEN_def)
  moreover have "components ''/home/a/../../..'' = [''home'', ''a'', ''..'', ''..'', ''..'']" by simp
  ultimately show ?thesis using resolve_path_normal [of ?t "[''jail'']" "''a/../../..''" "''/home/a/../../..''"]
    by (auto simp: norm_step_def good_comp_def Let_def)
qed

theorem chroot_jail_witness:
  "\<exists>out. resolve_path (zero_task\<lparr>troot := ''/j''\<rparr>) ''/../x'' MAX_PATH_LEN = Some out \<and> (out = ''/j'' \<or> (\<exists>s. out = ''/j/'' @ s))"
proof -
  let ?t = "zero_task\<lparr>troot := ''/j''\<rparr>"
  have "components ''/j/../x'' = [''j'', ''..'', ''x'']" by simp
  then obtain out where "resolve_path ?t ''/../x'' MAX_PATH_LEN = Some out"
    by (simp add: resolve_path_def raw_path_def MAX_PATH_LEN_def resolve_step_def Let_def)
  then show ?thesis using chroot_jail [of ?t "[''j'']" "''/../x''" MAX_PATH_LEN out] by (auto simp: good_comp_def)
qed

definition demo_vfs :: vfs where
  "demo_vfs = \<lparr>mount_table = [\<lparr>mount_path = ''/'', mount_fs_id = 0, device_id = 0, partition_id = 0, fs_private_data = 0, mount_in_use = True\<rparr>,
      \<lparr>mount_path = ''/dev'', mount_fs_id = 1, device_id = -1, partition_id = 0, fs_private_data = 0, mount_in_use = False\<rparr>],
    fs_drivers = [\<lparr>fs_name = ''tmpfs'', fs_flags = 1, driver_in_use = True\<rparr>]\<rparr>"

theorem resolve_mount_longest_witness:
  "\<exists>i rel. resolve_mount demo_vfs ''/dev/tty'' = Some (i, rel) \<and> i < 2"
proof -
  have "mount_matches ''/dev/tty'' (mount_table demo_vfs ! 0)" by (simp add: mount_matches_def demo_vfs_def)
  then show ?thesis using resolve_mount_longest [of "''/dev/tty''" demo_vfs]
    by (cases "resolve_mount demo_vfs ''/dev/tty''") (auto simp: demo_vfs_def)
qed

theorem mount_unmount_witness:
  "\<exists>v'. fs_mount (0, 7) (-1) 0 ''tmpfs'' ''/tmp'' demo_vfs = (0, v') \<and> fs_is_mounted ''/tmp'' v' \<and> fst (fs_unmount ''/tmp'' v') = 0"
proof -
  obtain v' where v': "fs_mount (0, 7) (-1) 0 ''tmpfs'' ''/tmp'' demo_vfs = (0, v')"
    by (simp add: fs_mount_def demo_vfs_def fs_is_mounted_def find_fs_driver_def)
  then show ?thesis using mount_unmount [OF v'] by blast
qed

end
