(* ===== verification/Signal.thy ===== *)
theory Signal
  imports Sched Paging
begin

text \<open>
  Signals, \<^verbatim>\<open>kernel/signal.c\<close>, and the interval timers of \<^verbatim>\<open>timer_tick\<close> in \<^verbatim>\<open>kernel/sched.c\<close>.
  System calls act on the current task and on its user memory, a pair of an address space and
  the physical memory; user pointers are addresses, 0 for \<^verbatim>\<open>NULL\<close>, and a result \<open>None\<close> is a page
  fault in the kernel. Of the trap frame only the four registers the code touches are kept.
  \<open>do_signal\<close> runs against the environment that lets a stopped task go on: one state change for
  each time it is stopped; when the list is used up the task is still stopped. The call of
  \<^verbatim>\<open>do_exit\<close>, which does not return, is an outcome of its own.
\<close>

section \<open>Numbers\<close>

abbreviation (input) "SIGKILL \<equiv> (9::nat)"
abbreviation (input) "SIGALRM \<equiv> (14::nat)"
abbreviation (input) "SIGCHLD \<equiv> (17::nat)"
abbreviation (input) "SIGCONT \<equiv> (18::nat)"
abbreviation (input) "SIGSTOP \<equiv> (19::nat)"
abbreviation (input) "SIGVTALRM \<equiv> (26::nat)"
abbreviation (input) "SIGPROF \<equiv> (27::nat)"
abbreviation (input) "NSIG \<equiv> (32::nat)"

definition SIG_DFL :: u32 where "SIG_DFL = 0"
definition SIG_IGN :: u32 where "SIG_IGN = 1"
definition SA_NODEFER :: u32 where "SA_NODEFER = 0x40000000"
definition SA_RESETHAND :: u32 where "SA_RESETHAND = 0x80000000"
definition SYS_SIGRETURN :: u32 where "SYS_SIGRETURN = 119"
definition SIGNAL_TRAMPOLINE_VA :: nat where "SIGNAL_TRAMPOLINE_VA = 0xBFFFFFE0"

definition sig_bit :: "nat \<Rightarrow> u32" where "sig_bit s = push_bit s 1"

definition unblockable :: u32 where "unblockable = sig_bit SIGKILL OR sig_bit SIGSTOP"

definition sig_default_terminates :: "nat \<Rightarrow> bool" where
  "sig_default_terminates s \<longleftrightarrow>
     s \<in> {1, 2, 3, 4, 5, 6, 7, 8, 9, 10, 11, 12, 13, 14, 15, 24, 25, 26, 27, 29, 30, 31}"

definition sig_default_stops :: "nat \<Rightarrow> bool" where
  "sig_default_stops s \<longleftrightarrow> s \<in> {19, 20, 21, 22}"

section \<open>User memory\<close>

type_synonym user_mem = "addr_space \<times> (nat \<Rightarrow> u8)"

definition bytes_of :: "u32 \<Rightarrow> u8 list" where
  "bytes_of w = [ucast w, ucast (drop_bit 8 w), ucast (drop_bit 16 w), ucast (drop_bit 24 w)]"

definition word_of :: "u8 list \<Rightarrow> u32" where
  "word_of bs = (case bs of [a, b, c, d] \<Rightarrow>
     ucast a OR push_bit 8 (ucast b) OR push_bit 16 (ucast c) OR push_bit 24 (ucast d) | _ \<Rightarrow> 0)"

definition put_user :: "user_mem \<Rightarrow> nat \<Rightarrow> u8 list \<Rightarrow> (bool \<times> user_mem) option" where
  "put_user u dst bs =
     (case copy_to_user (fst u) dst bs (snd u) of
        Inl _ \<Rightarrow> Some (False, u)
      | Inr None \<Rightarrow> None
      | Inr (Some m) \<Rightarrow> Some (True, fst u, m))"

definition get_user :: "user_mem \<Rightarrow> nat \<Rightarrow> nat \<Rightarrow> u8 list option option" where
  "get_user u src n =
     (case copy_from_user (fst u) (snd u) src n of
        Inl _ \<Rightarrow> Some None | Inr None \<Rightarrow> None | Inr (Some bs) \<Rightarrow> Some (Some bs))"

section \<open>Dispositions and masks\<close>

definition sys_signal :: "int \<Rightarrow> u32 \<Rightarrow> task \<Rightarrow> int \<times> task" where
  "sys_signal signum handler t =
     (if signum < 1 \<or> signum \<ge> int NSIG then (- EINVAL, t)
      else if signum = int SIGKILL \<or> signum = int SIGSTOP then (- EINVAL, t)
      else
        let s = nat signum
        in (sint (sig_handlers t s),
            t\<lparr>sig_handlers := (sig_handlers t)(s := handler), sig_hmask := (sig_hmask t)(s := 0),
              sig_hflags := (sig_hflags t)(s := 0)\<rparr>))"

definition sys_sigaction :: "int \<Rightarrow> nat \<Rightarrow> nat \<Rightarrow> task \<Rightarrow> user_mem \<Rightarrow> (int \<times> task \<times> user_mem) option" where
  "sys_sigaction signum user_new user_old t u =
     (if signum < 1 \<or> signum \<ge> int NSIG then Some (- EINVAL, t, u)
      else if signum = int SIGKILL \<or> signum = int SIGSTOP then Some (- EINVAL, t, u)
      else
        let s = nat signum in
        case (if user_old = 0 then Some (True, u)
              else if \<not> valid_user_pointer (fst u) user_old 16 then Some (False, u)
              else put_user u user_old (bytes_of (sig_handlers t s) @ bytes_of (sig_hmask t s)
                     @ bytes_of (sig_hflags t s) @ bytes_of 0)) of
          None \<Rightarrow> None
        | Some (False, u) \<Rightarrow> Some (- EFAULT, t, u)
        | Some (True, u) \<Rightarrow>
            if user_new = 0 then Some (0, t, u)
            else if \<not> valid_user_pointer (fst u) user_new 16 then Some (- EFAULT, t, u)
            else (case get_user u user_new 16 of
                None \<Rightarrow> None
              | Some None \<Rightarrow> Some (- EFAULT, t, u)
              | Some (Some bs) \<Rightarrow>
                  Some (0, t\<lparr>sig_handlers := (sig_handlers t)(s := word_of (take 4 bs)),
                             sig_hmask := (sig_hmask t)(s := word_of (take 4 (drop 4 bs))),
                             sig_hflags := (sig_hflags t)(s := word_of (take 4 (drop 8 bs)))\<rparr>, u)))"

definition sys_sigprocmask :: "int \<Rightarrow> nat \<Rightarrow> nat \<Rightarrow> task \<Rightarrow> user_mem \<Rightarrow> (int \<times> task \<times> user_mem) option" where
  "sys_sigprocmask how user_new user_old t u =
     (case (if user_old = 0 then Some (True, u)
            else if \<not> valid_user_pointer (fst u) user_old 4 then Some (False, u)
            else put_user u user_old (bytes_of (blocked t))) of
        None \<Rightarrow> None
      | Some (False, u) \<Rightarrow> Some (- EFAULT, t, u)
      | Some (True, u) \<Rightarrow>
          if user_new = 0 then Some (0, t, u)
          else if \<not> valid_user_pointer (fst u) user_new 4 then Some (- EFAULT, t, u)
          else (case get_user u user_new 4 of
              None \<Rightarrow> None
            | Some None \<Rightarrow> Some (- EFAULT, t, u)
            | Some (Some bs) \<Rightarrow>
                let new = word_of bs AND NOT unblockable in
                if how = 0 then Some (0, t\<lparr>blocked := blocked t OR new\<rparr>, u)
                else if how = 1 then Some (0, t\<lparr>blocked := blocked t AND NOT new\<rparr>, u)
                else if how = 2 then Some (0, t\<lparr>blocked := new\<rparr>, u)
                else Some (- EINVAL, t, u)))"

definition sys_sigpending :: "nat \<Rightarrow> task \<Rightarrow> user_mem \<Rightarrow> (int \<times> user_mem) option" where
  "sys_sigpending user_set t u =
     (if user_set = 0 \<or> \<not> valid_user_pointer (fst u) user_set 4 then Some (- EFAULT, u)
      else (case put_user u user_set (bytes_of (pending t AND blocked t)) of
          None \<Rightarrow> None
        | Some (ok, u) \<Rightarrow> Some (if ok then 0 else - EFAULT, u)))"

text \<open>
  \<^verbatim>\<open>sys_sigsuspend\<close> up to the call of \<^verbatim>\<open>sleep_on\<close>: \<open>Inl\<close> a result without sleeping, \<open>Inr\<close> the
  state after the switch and the mask to put back; \<open>sigsuspend_resume\<close> is the rest.
\<close>

definition sys_sigsuspend :: "nat \<Rightarrow> kernel \<Rightarrow> user_mem \<Rightarrow> ((int \<times> kernel) + (u32 \<times> kernel)) option" where
  "sys_sigsuspend user_mask k u =
     (if user_mask = 0 \<or> \<not> valid_user_pointer (fst u) user_mask 4 then Some (Inl (- EFAULT, k))
      else (case get_user u user_mask 4 of
          None \<Rightarrow> None
        | Some None \<Rightarrow> Some (Inl (- EFAULT, k))
        | Some (Some bs) \<Rightarrow>
            let p = current k; old = blocked (tsk k p);
                k1 = upd_task p (\<lambda>t. t\<lparr>blocked := word_of bs AND NOT unblockable\<rparr>) k
            in if pending (tsk k1 p) AND NOT (blocked (tsk k1 p)) \<noteq> 0
               then Some (Inl (- EINTR, upd_task p (\<lambda>t. t\<lparr>blocked := old\<rparr>) k1))
               else Some (Inr (old, sleep_on_enter (Task_wait p) k1))))"

definition sigsuspend_resume :: "u32 \<Rightarrow> kernel \<Rightarrow> int \<times> kernel" where
  "sigsuspend_resume old k =
     (let p = current k
      in (- EINTR, upd_task p (\<lambda>t. t\<lparr>blocked := old\<rparr>) (sleep_on_leave (Task_wait p) k)))"

section \<open>Sending\<close>

definition wake_parent :: "nat \<Rightarrow> kernel \<Rightarrow> kernel" where
  "wake_parent p k =
     (case find_task_by_pid (ppid (tsk k p)) k of
        Some q \<Rightarrow> if q \<noteq> p then wake_up (Task_wait q) k else k
      | None \<Rightarrow> k)"

definition send_signal :: "nat \<Rightarrow> int \<Rightarrow> kernel \<Rightarrow> int \<times> kernel" where
  "send_signal q signum k =
     (if signum < 1 \<or> signum \<ge> int NSIG then (-1, k)
      else (case find_task_by_pid q k of
          None \<Rightarrow> (-1, k)
        | Some p \<Rightarrow>
            let s = nat signum;
                k = upd_task p (\<lambda>t. t\<lparr>pending := pending t OR sig_bit s\<rparr>) k
            in if s = SIGCONT then
                 (0, if state_of k p = TASK_STOPPED
                     then wake_parent p (upd_task p (\<lambda>t. t\<lparr>tstate := TASK_READY, stop_sig := 0,
                            stop_reported := False, continued := True\<rparr>) k)
                     else if state_of k p = TASK_BLOCKED then wake_up (Task_wait p) k
                     else k)
               else
                 let k = (if state_of k p = TASK_STOPPED \<and> sig_default_terminates s
                          then upd_task p (\<lambda>t. t\<lparr>tstate := TASK_READY, stop_sig := 0, stop_reported := False\<rparr>) k
                          else k)
                 in (0, if state_of k p = TASK_BLOCKED then wake_up (Task_wait p) k else k)))"

definition send_signal_group :: "int \<Rightarrow> int \<Rightarrow> kernel \<Rightarrow> bool \<times> kernel" where
  "send_signal_group g signum k = fold (\<lambda>p (matched, k).
     if pid (tsk k p) = 0 then (matched, k)
     else if to_int (pgid (tsk k p)) \<noteq> g then (matched, k)
     else (True, snd (send_signal (pid (tsk k p)) signum k))) (task_list k) (False, k)"

definition send_signal_all :: "int \<Rightarrow> kernel \<Rightarrow> bool \<times> kernel" where
  "send_signal_all signum k = fold (\<lambda>p (matched, k).
     if pid (tsk k p) = 0 then (matched, k)
     else (True, snd (send_signal (pid (tsk k p)) signum k))) (task_list k) (False, k)"

definition sys_kill :: "int \<Rightarrow> int \<Rightarrow> kernel \<Rightarrow> int \<times> kernel" where
  "sys_kill q signum k =
     (if signum = 0 then
        (if q > 0 then (if find_task_by_pid (nat q) k \<noteq> None then 0 else - ESRCH, k) else (0, k))
      else if signum < 1 \<or> signum \<ge> int NSIG then (- EINVAL, k)
      else if q > 0 then (case send_signal (nat q) signum k of (r, k) \<Rightarrow> (if r < 0 then - ESRCH else 0, k))
      else
        (case (if q = 0 then send_signal_group (to_int (pgid (tsk k (current k)))) signum k
               else if q = -1 then send_signal_all signum k
               else send_signal_group (- q) signum k) of
           (matched, k) \<Rightarrow> (if matched then 0 else - ESRCH, k)))"

section \<open>Delivery\<close>

record registers =
  r_eax :: u32
  r_eip :: u32
  r_user_esp :: u32
  r_eflags :: u32

definition sys_sigreturn :: "registers \<Rightarrow> task \<Rightarrow> int \<times> registers \<times> task" where
  "sys_sigreturn regs t =
     (if \<not> sig_active t then (-1, regs, t)
      else (0, regs\<lparr>r_eip := sig_saved_eip t, r_user_esp := sig_saved_esp t, r_eflags := sig_saved_eflags t, r_eax := 0\<rparr>,
            t\<lparr>sig_active := False, blocked := sig_saved_blocked t\<rparr>))"

definition sys_nice :: "int \<Rightarrow> task \<Rightarrow> int \<times> task" where
  "sys_nice inc t =
     (let prio = wrap32 (priority t + inc);
          prio = (if prio < -20 then -20 else prio);
          prio = (if prio > 19 then 19 else prio)
      in (prio, t\<lparr>priority := prio\<rparr>))"

definition trampoline :: "u8 list" where
  "trampoline = [0xB8] @ bytes_of SYS_SIGRETURN @ [0xCD, 0x80]"

datatype sig_outcome =
    To_user registers kernel user_mem
  | Exit int kernel user_mem
  | Stopped kernel user_mem
  | Kernel_fault

text \<open>The result of trying to enter a handler: \<open>None\<close> when the loop goes on.\<close>

definition enter_handler :: "nat \<Rightarrow> u32 \<Rightarrow> registers \<Rightarrow> task \<Rightarrow> user_mem
    \<Rightarrow> (registers option \<times> task \<times> user_mem) option" where
  "enter_handler s handler regs t u =
     (let t = (if sig_hflags t s AND SA_RESETHAND \<noteq> 0 then t\<lparr>sig_handlers := (sig_handlers t)(s := SIG_DFL)\<rparr> else t) in
      case put_user u SIGNAL_TRAMPOLINE_VA trampoline of
        None \<Rightarrow> None
      | Some (False, u) \<Rightarrow> Some (None, t, u)
      | Some (True, u) \<Rightarrow>
          let old_blocked = blocked t;
              add = sig_hmask t s OR (if sig_hflags t s AND SA_NODEFER \<noteq> 0 then 0 else sig_bit s);
              t = t\<lparr>blocked := blocked t OR add, sig_saved_eip := r_eip regs, sig_saved_esp := r_user_esp regs,
                    sig_saved_eflags := r_eflags regs, sig_saved_blocked := old_blocked, sig_active := True,
                    sig_delivered := s\<rparr>;
              new_esp = r_user_esp regs - 8
          in (case put_user u (unat new_esp) (bytes_of (word_of_nat SIGNAL_TRAMPOLINE_VA) @ bytes_of (word_of_nat s)) of
                None \<Rightarrow> None
              | Some (False, u) \<Rightarrow> Some (None, t\<lparr>sig_active := False, blocked := old_blocked\<rparr>, u)
              | Some (True, u) \<Rightarrow>
                  Some (Some (regs\<lparr>r_user_esp := new_esp, r_eip := handler, r_eax := 0\<rparr>), t, u)))"

fun do_signal_loop :: "nat list \<Rightarrow> nat \<Rightarrow> registers \<Rightarrow> kernel \<Rightarrow> user_mem \<Rightarrow> (kernel \<Rightarrow> kernel) list \<Rightarrow> sig_outcome" where
  "do_signal_loop [] p regs k u env = To_user regs k u"
| "do_signal_loop (s # ss) p regs k u env =
     (let t = tsk k p in
      if pending t AND sig_bit s = 0 then do_signal_loop ss p regs k u env
      else if blocked t AND sig_bit s \<noteq> 0 then do_signal_loop ss p regs k u env
      else
        let k = upd_task p (\<lambda>t. t\<lparr>pending := pending t AND NOT (sig_bit s)\<rparr>) k;
            handler = sig_handlers t s
        in if handler = SIG_IGN then do_signal_loop ss p regs k u env
           else if handler = SIG_DFL then
             (if sig_default_terminates s then Exit (128 + int s) k u
              else if sig_default_stops s then
                let k = upd_task p (\<lambda>t. t\<lparr>tstate := TASK_STOPPED, stop_sig := s, stop_reported := False,
                          continued := False\<rparr>) k;
                    k = schedule (wake_parent p k)
                in (case env of
                      [] \<Rightarrow> Stopped k u
                    | others # env \<Rightarrow> do_signal_loop ss p regs (others k) u env)
              else do_signal_loop ss p regs k u env)
           else if sig_active t then
             do_signal_loop ss p regs (upd_task p (\<lambda>t. t\<lparr>pending := pending t OR sig_bit s\<rparr>) k) u env
           else (case enter_handler s handler regs (tsk k p) u of
               None \<Rightarrow> Kernel_fault
             | Some (None, t, u) \<Rightarrow> do_signal_loop ss p regs (upd_task p (\<lambda>_. t) k) u env
             | Some (Some regs, t, u) \<Rightarrow> To_user regs (upd_task p (\<lambda>_. t) k) u))"

definition do_signal :: "registers \<Rightarrow> kernel \<Rightarrow> user_mem \<Rightarrow> (kernel \<Rightarrow> kernel) list \<Rightarrow> sig_outcome" where
  "do_signal regs k u env =
     (let p = current k in
      if pid (tsk k p) = 0 then To_user regs k u
      else if pending (tsk k p) = 0 then To_user regs k u
      else do_signal_loop [1..<NSIG] p regs k u env)"

section \<open>Interval timers\<close>

definition tick_real :: "nat \<Rightarrow> kernel \<Rightarrow> kernel" where
  "tick_real p k =
     (if itimer_remaining (tsk k p) > 0 then
        let k = upd_task p (\<lambda>t. t\<lparr>itimer_remaining := itimer_remaining t - 1\<rparr>) k
        in if itimer_remaining (tsk k p) = 0 then
             let k = snd (send_signal (pid (tsk k p)) (int SIGALRM) k)
             in if itimer_interval (tsk k p) > 0
                then upd_task p (\<lambda>t. t\<lparr>itimer_remaining := itimer_interval t\<rparr>) k else k
           else k
      else k)"

definition tick_virtual :: "nat \<Rightarrow> kernel \<Rightarrow> kernel" where
  "tick_virtual c k =
     (if vtimer_remaining (tsk k c) > 0 then
        let k = upd_task c (\<lambda>t. t\<lparr>vtimer_remaining := vtimer_remaining t - 1\<rparr>) k
        in if vtimer_remaining (tsk k c) = 0 then
             let k = snd (send_signal (pid (tsk k c)) (int SIGVTALRM) k)
             in if vtimer_interval (tsk k c) > 0
                then upd_task c (\<lambda>t. t\<lparr>vtimer_remaining := vtimer_interval t\<rparr>) k else k
           else k
      else k)"

definition tick_prof :: "nat \<Rightarrow> kernel \<Rightarrow> kernel" where
  "tick_prof c k =
     (if ptimer_remaining (tsk k c) > 0 then
        let k = upd_task c (\<lambda>t. t\<lparr>ptimer_remaining := ptimer_remaining t - 1\<rparr>) k
        in if ptimer_remaining (tsk k c) = 0 then
             let k = snd (send_signal (pid (tsk k c)) (int SIGPROF) k)
             in if ptimer_interval (tsk k c) > 0
                then upd_task c (\<lambda>t. t\<lparr>ptimer_remaining := ptimer_interval t\<rparr>) k else k
           else k
      else k)"

definition timer_tick :: "bool \<Rightarrow> kernel \<Rightarrow> kernel" where
  "timer_tick in_user k =
     (let k = fold tick_real (task_list k) k; c = current k in
      if pid (tsk k c) = 0 then k
      else tick_prof c (if in_user then tick_virtual c k else k))"

section \<open>Signals that cannot be caught or blocked\<close>

definition kill_safe :: "task \<Rightarrow> bool" where
  "kill_safe t \<longleftrightarrow> sig_handlers t SIGKILL = SIG_DFL \<and> sig_handlers t SIGSTOP = SIG_DFL \<and> blocked t AND unblockable = 0"

lemma mask_safe: "(w AND NOT unblockable) AND unblockable = 0" "b AND unblockable = 0 \<Longrightarrow> (b AND c) AND unblockable = 0"
proof -
  show "(w AND NOT unblockable) AND unblockable = 0" by (rule bit_eqI) (auto simp: bit_simps)
  show "(b AND c) AND unblockable = 0" if "b AND unblockable = 0"
  proof -
    have "(b AND c) AND unblockable = c AND (b AND unblockable)" by (simp add: ac_simps)
    then show ?thesis using that by simp
  qed
qed

text \<open>
  SIGKILL and SIGSTOP cannot be caught, ignored or blocked through the system calls:
  \<^verbatim>\<open>signal\<close>, \<^verbatim>\<open>sigaction\<close> and \<^verbatim>\<open>sigprocmask\<close>, with any arguments and user memory, keep their default
  actions and keep them out of the mask.
\<close>

theorem sigkill_uncatchable:
  assumes "kill_safe t"
  shows "kill_safe (snd (sys_signal n h t)) \<and>
    (\<forall>r t' u'. sys_sigaction n un uo t u = Some (r, t', u') \<longrightarrow> kill_safe t') \<and>
    (\<forall>r t' u'. sys_sigprocmask how un uo t u = Some (r, t', u') \<longrightarrow> kill_safe t')"
proof -
  have "kill_safe (snd (sys_signal n h t))"
    using assms by (auto simp: sys_signal_def kill_safe_def Let_def nat_eq_iff)
  moreover have "kill_safe t'" if "sys_sigaction n un uo t u = Some (r, t', u')" for r t' u'
    using that assms
    by (auto simp: sys_sigaction_def kill_safe_def Let_def nat_eq_iff split: if_splits option.splits bool.splits)
  moreover have "kill_safe t'" if "sys_sigprocmask how un uo t u = Some (r, t', u')" for r t' u'
    using that assms
    by (auto simp: sys_sigprocmask_def kill_safe_def Let_def word_ao_dist mask_safe
        split: if_splits option.splits bool.splits)
  ultimately show ?thesis by blast
qed

theorem sigkill_uncatchable_witness:
  "sig_handlers (snd (sys_signal 9 0x8000000 zero_task)) 9 = SIG_DFL"
  using sigkill_uncatchable [of zero_task 9 "0x8000000"]
  by (simp add: kill_safe_def zero_task_def SIG_DFL_def)

section \<open>The scan for signals\<close>

definition deliverable :: "task \<Rightarrow> nat \<Rightarrow> bool" where
  "deliverable t s \<longleftrightarrow> pending t AND sig_bit s \<noteq> 0 \<and> blocked t AND sig_bit s = 0"

lemma loop_skip:
  "\<forall>s \<in> set ss. \<not> deliverable (tsk k p) s \<Longrightarrow> do_signal_loop (ss @ rest) p regs k u env = do_signal_loop rest p regs k u env"
  by (induction ss) (auto simp: deliverable_def Let_def)

lemma loop_none:
  "\<forall>s \<in> set ss. \<not> deliverable (tsk k p) s \<Longrightarrow> do_signal_loop ss p regs k u env = To_user regs k u"
  using loop_skip [of ss k p "[]" regs u env] by simp

lemma do_signal_none:
  assumes "\<forall>s \<in> {1..<NSIG}. \<not> deliverable (tsk k (current k)) s"
  shows "do_signal regs k u env = To_user regs k u"
  using assms by (simp add: do_signal_def Let_def loop_none)

lemma do_signal_first:
  assumes "pid (tsk k (current k)) \<noteq> 0" "deliverable (tsk k (current k)) s" "1 \<le> s" "s < NSIG"
    "\<forall>r. 1 \<le> r \<and> r < s \<longrightarrow> \<not> deliverable (tsk k (current k)) r"
  shows "do_signal regs k u env = do_signal_loop (s # [Suc s..<NSIG]) (current k) regs k u env"
proof -
  have "[1..<NSIG] = [1..<s] @ s # [Suc s..<NSIG]"
    using upt_add_eq_append [of 1 s "NSIG - s"] upt_conv_Cons [OF assms(4)] assms(3,4) by simp
  moreover have "pending (tsk k (current k)) \<noteq> 0" using assms(2) by (auto simp: deliverable_def)
  ultimately show ?thesis
    using assms(1,5) loop_skip [of "[1..<s]" k "current k" "s # [Suc s..<NSIG]" regs u env]
    by (simp add: do_signal_def Let_def del: do_signal_loop.simps)
qed

lemma sig_bit_and: "(w::u32) AND sig_bit s \<noteq> 0 \<longleftrightarrow> bit w s"
  unfolding sig_bit_def by (rule and_push_bit_one_iff)

lemma bit_sig_bit: "s < 32 \<Longrightarrow> bit (sig_bit s) r \<longleftrightarrow> r = s"
  by (auto simp: sig_bit_def bit_simps dest: bit_imp_le_length)

text \<open>
  C30: signals are delivered lowest number first, by their action. When \<open>s\<close> is the lowest pending
  signal that is not blocked: a fatal default action ends the task with status \<open>128 + s\<close>; a stop
  default action takes it off the CPU in the stopped state; a handler that can be entered is
  entered, with the signal consumed and the context saved.
\<close>

theorem do_signal_lowest:
  assumes "pid (tsk k (current k)) \<noteq> 0" "deliverable (tsk k (current k)) s" "1 \<le> s" "s < NSIG"
    "\<forall>r. 1 \<le> r \<and> r < s \<longrightarrow> \<not> deliverable (tsk k (current k)) r"
  shows "let p = current k; t = tsk k p; t1 = t\<lparr>pending := pending t AND NOT (sig_bit s)\<rparr> in
    (sig_handlers t s = SIG_DFL \<and> sig_default_terminates s \<longrightarrow>
       do_signal regs k u env = Exit (128 + int s) (upd_task p (\<lambda>_. t1) k) u) \<and>
    (sig_handlers t s = SIG_DFL \<and> sig_default_stops s \<longrightarrow>
       do_signal regs k u [] = Stopped (schedule (wake_parent p (upd_task p (\<lambda>_. t1\<lparr>tstate := TASK_STOPPED, stop_sig := s,
         stop_reported := False, continued := False\<rparr>) k))) u) \<and>
    (sig_handlers t s \<notin> {SIG_DFL, SIG_IGN} \<and> \<not> sig_active t \<longrightarrow>
       (\<forall>regs' t' u'. enter_handler s (sig_handlers t s) regs t1 u = Some (Some regs', t', u') \<longrightarrow>
          do_signal regs k u env = To_user regs' (upd_task p (\<lambda>_. t') k) u'))"
proof -
  let ?p = "current k"
  have d: "pending (tsk k ?p) AND sig_bit s \<noteq> 0" "blocked (tsk k ?p) AND sig_bit s = 0"
    using assms(2) by (simp_all add: deliverable_def)
  have upd: "upd_task ?p f k = upd_task ?p (\<lambda>_. f (tsk k ?p)) k"
    "upd_task ?p g (upd_task ?p f k) = upd_task ?p (\<lambda>_. g (f (tsk k ?p))) k" for f g
    by (simp_all add: upd_task_def)
  have stop: "sig_default_stops s \<Longrightarrow> \<not> sig_default_terminates s"
    by (auto simp: sig_default_stops_def sig_default_terminates_def)
  have ne: "SIG_DFL \<noteq> SIG_IGN" by (simp add: SIG_DFL_def SIG_IGN_def)
  show ?thesis
    unfolding do_signal_first [OF assms] Let_def
    using d stop ne upd(1) [of "\<lambda>t. t\<lparr>pending := pending t AND NOT (sig_bit s)\<rparr>"]
    by (auto simp: Let_def upd(2))
qed

text \<open>A task with one pending signal and everything else at its default.\<close>

definition pending_kernel :: "nat \<Rightarrow> kernel" where
  "pending_kernel s = upd_task 1 (\<lambda>t. t\<lparr>pending := sig_bit s\<rparr>) (demo_kernel [1, 2])"

theorem do_signal_lowest_witness:
  "\<forall>regs u. do_signal regs (pending_kernel 9) u [] = Exit 137 (demo_kernel [1, 2]) u"
proof (intro allI)
  fix regs u
  let ?k = "pending_kernel 9"
  have cur: "current ?k = 1" and t1: "tsk ?k 1 = (tsk (demo_kernel [1, 2]) 1)\<lparr>pending := sig_bit 9\<rparr>"
    by (simp_all add: pending_kernel_def demo_kernel_def)
  note t = cur t1 t1 [unfolded One_nat_def]
  have d: "deliverable (tsk ?k (current ?k)) r \<longleftrightarrow> r = 9" for r
    unfolding cur t1 deliverable_def by (simp add: sig_bit_and bit_sig_bit demo_kernel_def zero_task_def)
  have k: "upd_task 1 (\<lambda>_. (tsk (demo_kernel [1, 2]) 1)\<lparr>pending := 0\<rparr>) ?k = demo_kernel [1, 2]"
    by (simp add: pending_kernel_def demo_kernel_def upd_task_def zero_task_def fun_eq_iff)
  show "do_signal regs ?k u [] = Exit 137 (demo_kernel [1, 2]) u"
    using do_signal_lowest [of ?k 9 regs u "[]"] d k
    by (simp add: t Let_def demo_kernel_def zero_task_def SIG_DFL_def sig_default_terminates_def)
qed

section \<open>Handlers\<close>

lemma enter_handler_ok:
  assumes "enter_handler s h regs t u = Some (Some regs', t', u')"
  shows "regs' = regs\<lparr>r_user_esp := r_user_esp regs - 8, r_eip := h, r_eax := 0\<rparr> \<and> sig_active t' \<and> sig_delivered t' = s
    \<and> blocked t' = blocked t OR sig_hmask t s OR (if sig_hflags t s AND SA_NODEFER \<noteq> 0 then 0 else sig_bit s)
    \<and> sig_saved_eip t' = r_eip regs \<and> sig_saved_esp t' = r_user_esp regs \<and> sig_saved_eflags t' = r_eflags regs
    \<and> sig_saved_blocked t' = blocked t \<and> pending t' = pending t"
  using assms
  by (simp add: enter_handler_def Let_def split: option.splits prod.splits bool.splits)
    (elim conjE, hypsubst, simp add: word_bw_assocs)

text \<open>
  C39: returning from a handler resumes the interrupted code. Whatever the handler did to the
  registers, \<^verbatim>\<open>sigreturn\<close> puts back the instruction pointer, the stack pointer, the flags and the
  signal mask of the moment of delivery. It does not put back the accumulator, which is 0
  afterwards, nor any other register.
\<close>

theorem sigreturn_restores:
  assumes "enter_handler s h regs t u = Some (Some regs', t', u')"
  shows "sys_sigreturn r t' = (0, r\<lparr>r_eip := r_eip regs, r_user_esp := r_user_esp regs, r_eflags := r_eflags regs, r_eax := 0\<rparr>,
      t'\<lparr>sig_active := False, blocked := blocked t\<rparr>)"
  using enter_handler_ok [OF assms] by (simp add: sys_sigreturn_def)

text \<open>
  the mask of a handler is not filtered. While a handler runs whose action has SIGKILL in its
  mask, the signal is blocked: a task that has been sent SIGKILL goes back to user mode instead of
  being killed.
\<close>

theorem handler_mask_blocks_sigkill:
  assumes "enter_handler s h regs t u = Some (Some regs', t', u')" "sig_hmask t s AND sig_bit SIGKILL \<noteq> 0"
    "tsk k (current k) = t'\<lparr>pending := sig_bit SIGKILL\<rparr>"
  shows "do_signal r k v env = To_user r k v"
proof (rule do_signal_none)
  have "bit (blocked t') SIGKILL"
    using enter_handler_ok [OF assms(1)] assms(2) by (simp add: sig_bit_and bit_simps)
  then have "\<not> deliverable (t'\<lparr>pending := sig_bit SIGKILL\<rparr>) s" for s
    using sig_bit_and [of "blocked t'" SIGKILL] by (auto simp: deliverable_def sig_bit_and bit_sig_bit)
  then show "\<forall>s \<in> {1..<NSIG}. \<not> deliverable (tsk k (current k)) s" using assms(3) by simp
qed

text \<open>A task with a handler for SIGUSR1 that masks every signal, and a writable stack page.\<close>

definition stack_space :: addr_space where
  "stack_space = \<lparr>page_tables = [767 \<mapsto> (\<lambda>j. if j = 1023 then 0x7007 else 0)], pgdir = (\<lambda>_. 0)\<rparr>"

definition handler_task :: task where
  "handler_task = zero_task\<lparr>pid := 1, sig_handlers := (\<lambda>_. 0)(10 := 0x8000100), sig_hmask := (\<lambda>_. 0)(10 := - 1),
     pending := 0\<rparr>"

definition user_regs :: registers where
  "user_regs = \<lparr>r_eax = 5, r_eip = 0x8000000, r_user_esp = 0xBFFFFF00, r_eflags = 0x202\<rparr>"

lemma stack_lookup: "lookup_pte stack_space va = (if pdi va = 767 then Some (if pti va = 1023 then 0x7007 else 0) else None)"
  by (simp add: lookup_pte_def stack_space_def)

lemma stack_put:
  assumes "0xBFFFF000 \<le> dst" "dst + length bs \<le> 0xC0000000" "bs \<noteq> []"
  shows "\<exists>m'. put_user (stack_space, m) dst bs = Some (True, stack_space, m')"
proof -
  have page: "pdi va = 767 \<and> pti va = 1023" if "0xBFFFF000 \<le> va" "va < 0xC0000000" for va
  proof -
    have "va div 4096 = 786431" using that by simp
    then show ?thesis using pdi_pti_page [of va] by simp
  qed
  have "check_pages stack_space dst (dst + length bs) True"
  proof (rule check_pages_intro)
    fix n assume "dst + 4096 * n < dst + length bs"
    then show "\<exists>pte. lookup_pte stack_space (dst + 4096 * n) = Some pte \<and> pte_present pte \<and> (True \<longrightarrow> pte_writable pte)"
      using page [of "dst + 4096 * n"] assms by (simp add: stack_lookup pte_present_def pte_writable_def)
  qed (use assms(2) in simp)
  then have ok: "check_user_range stack_space dst (length bs) True"
    using assms by (cases bs) (auto simp: check_user_range_def Let_def)
  have "\<exists>m'. write_user stack_space va cs m = Some m'" if "0xBFFFF000 \<le> va" "va + length cs \<le> 0xC0000000" for va cs m
    using that
  proof (induction cs arbitrary: va m)
    case (Cons c cs)
    have "lookup_pte stack_space va = Some 0x7007" using page [of va] Cons.prems by (simp add: stack_lookup)
    then obtain a where "translate stack_space va = Some a" by (simp add: translate_def pte_present_def)
    then show ?case using Cons by simp
  qed simp
  then obtain m' where "write_user stack_space dst bs m = Some m'" using assms by blast
  then show ?thesis using ok by (simp add: put_user_def copy_to_user_def)
qed

lemma handler_entered:
  "\<exists>regs' t' u'. enter_handler 10 0x8000100 user_regs handler_task (stack_space, m) = Some (Some regs', t', u')"
proof -
  obtain m1 where 1: "put_user (stack_space, m) SIGNAL_TRAMPOLINE_VA trampoline = Some (True, stack_space, m1)"
    using stack_put [of SIGNAL_TRAMPOLINE_VA trampoline m]
    by (auto simp: SIGNAL_TRAMPOLINE_VA_def trampoline_def bytes_of_def)
  let ?bs = "bytes_of (word_of_nat SIGNAL_TRAMPOLINE_VA) @ bytes_of (word_of_nat 10)"
  obtain m2 where 2: "put_user (stack_space, m1) (unat (r_user_esp user_regs - 8)) ?bs = Some (True, stack_space, m2)"
    using stack_put [of "unat (r_user_esp user_regs - 8)" ?bs m1] by (auto simp: user_regs_def bytes_of_def)
  show ?thesis unfolding enter_handler_def Let_def using 1 2 by simp
qed

theorem sigreturn_restores_witness:
  "\<exists>regs' t' u' r''. enter_handler 10 0x8000100 user_regs handler_task (stack_space, \<lambda>_. 0) = Some (Some regs', t', u')
    \<and> fst (snd (sys_sigreturn regs' t')) = r'' \<and> r_eip r'' = 0x8000000 \<and> r_eax r'' \<noteq> r_eax user_regs"
proof -
  obtain regs' t' u' where h: "enter_handler 10 0x8000100 user_regs handler_task (stack_space, \<lambda>_. 0) = Some (Some regs', t', u')"
    using handler_entered by blast
  show ?thesis using h sigreturn_restores [OF h, of regs'] by (simp add: user_regs_def)
qed

theorem handler_mask_blocks_sigkill_witness:
  "\<exists>k. pending (tsk k (current k)) = sig_bit SIGKILL \<and> do_signal user_regs k (stack_space, \<lambda>_. 0) [] = To_user user_regs k (stack_space, \<lambda>_. 0)"
proof -
  obtain regs' t' u' where h: "enter_handler 10 0x8000100 user_regs handler_task (stack_space, \<lambda>_. 0) = Some (Some regs', t', u')"
    using handler_entered by blast
  let ?k = "upd_task 1 (\<lambda>_. t'\<lparr>pending := sig_bit SIGKILL\<rparr>) (demo_kernel [1, 2])"
  have "sig_hmask handler_task 10 AND sig_bit SIGKILL \<noteq> 0" by (simp add: handler_task_def sig_bit_def)
  moreover have "tsk ?k (current ?k) = t'\<lparr>pending := sig_bit SIGKILL\<rparr>" by (simp add: demo_kernel_def)
  ultimately have "do_signal user_regs ?k (stack_space, \<lambda>_. 0) [] = To_user user_regs ?k (stack_space, \<lambda>_. 0)"
    by (rule handler_mask_blocks_sigkill [OF h])
  then show ?thesis by (intro exI [of _ ?k]) (simp add: demo_kernel_def)
qed

section \<open>What sending does\<close>

lemma find_task_by_pid_in: "find_task_by_pid q k = Some p \<Longrightarrow> p \<in> set (task_list k) \<and> pid (tsk k p) = q"
  by (auto simp: find_task_by_pid_def find_Some_iff in_set_conv_nth)

lemma find_task_by_pid_eq:
  assumes "sched_inv k" "p \<in> set (task_list k)"
  shows "find_task_by_pid p k = Some p"
proof (cases "find_task_by_pid p k")
  case None
  then show ?thesis using assms by (auto simp: find_task_by_pid_def find_None_iff sched_inv_def)
next
  case (Some q)
  then show ?thesis using find_task_by_pid_in [OF Some] assms(1) by (simp add: sched_inv_def)
qed

lemma harmless_fields [simp]:
  "harmless (\<lambda>t. t\<lparr>pending := f t\<rparr>)" "harmless (\<lambda>t. t\<lparr>blocked := g t\<rparr>)"
  "harmless (\<lambda>t. t\<lparr>tstate := TASK_READY, stop_sig := a, stop_reported := b\<rparr>)"
  "harmless (\<lambda>t. t\<lparr>tstate := TASK_READY, stop_sig := a, stop_reported := b, continued := c\<rparr>)"
  "harmless (\<lambda>t. t\<lparr>itimer_remaining := d t\<rparr>)" "harmless (\<lambda>t. t\<lparr>vtimer_remaining := d t\<rparr>)"
  "harmless (\<lambda>t. t\<lparr>ptimer_remaining := d t\<rparr>)"
  by (simp_all add: harmless_def)

lemma wake_parent_inv: "sched_inv k \<Longrightarrow> sched_inv (wake_parent p k)"
  by (simp add: wake_parent_def wake_up_inv split: option.splits)

lemma send_signal_inv: "sched_inv k \<Longrightarrow> sched_inv (snd (send_signal q n k))"
  by (auto simp: send_signal_def Let_def sched_inv_upd wake_up_inv wake_parent_inv split: option.splits)

text \<open>
  what sending a signal does. It marks the signal as pending and keeps the scheduler
  consistent. A stopped task becomes ready exactly on SIGCONT or a signal with a fatal default
  action. A blocked task becomes ready if it sleeps on its own wait queue; if it sleeps on any
  other queue (a pipe, the timer) it stays blocked.
\<close>

theorem send_signal_effect:
  assumes "sched_inv k" "p \<in> set (task_list k)" "1 \<le> s" "s < NSIG"
  shows "let (r, k') = send_signal p (int s) k in r = 0 \<and> sched_inv k' \<and>
    pending (tsk k' p) = pending (tsk k p) OR sig_bit s \<and>
    (state_of k p = TASK_STOPPED \<longrightarrow>
       state_of k' p = (if s = SIGCONT \<or> sig_default_terminates s then TASK_READY else TASK_STOPPED)) \<and>
    (state_of k p = TASK_BLOCKED \<longrightarrow>
       state_of k' p = (if p \<in> set (wqs k (Task_wait p)) then TASK_READY else TASK_BLOCKED))"
proof -
  have inv: "sched_inv (snd (send_signal p (int s) k))" by (rule send_signal_inv [OF assms(1)])
  have f: "find_task_by_pid p k = Some p" using assms(1,2) by (rule find_task_by_pid_eq)
  have s: "\<not> int s < 1" "\<not> int s \<ge> int NSIG" using assms(3,4) by auto
  have cont: "\<not> sig_default_terminates SIGCONT" by (simp add: sig_default_terminates_def)
  show ?thesis
    using inv s cont
    by (auto simp: send_signal_def f Let_def wake_parent_def split: option.splits prod.splits)
qed

theorem send_signal_effect_witness:
  "state_of (snd (send_signal 1 2 (sleep_on_enter Timer_wq (demo_kernel [1, 2])))) 1 = TASK_BLOCKED"
proof -
  let ?k = "sleep_on_enter Timer_wq (demo_kernel [1, 2])"
  have d: "sched_inv (demo_kernel [1, 2])" "current (demo_kernel [1, 2]) = 1" "task_list (demo_kernel [1, 2]) = [0, 1, 2]"
    by (simp_all add: demo_kernel_inv) (simp_all add: demo_kernel_def)
  have inv: "sched_inv ?k" using d(1) by (rule sleep_on_enter_inv)
  have "1 \<in> set (task_list ?k)" "wqs ?k (Task_wait 1) = []" by (simp_all add: sleep_on_enter_def demo_kernel_def)
  moreover have "state_of ?k 1 = TASK_BLOCKED"
    using sleeper_stays [OF d(1), of 0 Timer_wq] d(2) by simp
  ultimately show ?thesis
    using send_signal_effect [OF inv, of 1 2] by (auto split: prod.splits)
qed

section \<open>The real-time interval timer\<close>

text \<open>Everything but the expiry of a task's own timer leaves the timer alone and keeps pending signals.\<close>

definition keeps_timer :: "nat \<Rightarrow> kernel \<Rightarrow> kernel \<Rightarrow> bool" where
  "keeps_timer p k k' \<longleftrightarrow> task_list k' = task_list k \<and> (\<forall>q. pid (tsk k' q) = pid (tsk k q)) \<and>
     itimer_remaining (tsk k' p) = itimer_remaining (tsk k p) \<and> itimer_interval (tsk k' p) = itimer_interval (tsk k p) \<and>
     (\<forall>s. bit (pending (tsk k p)) s \<longrightarrow> bit (pending (tsk k' p)) s)"

lemma keeps_timer_refl [simp]: "keeps_timer p k k"
  by (simp add: keeps_timer_def)

lemma keeps_timer_trans: "keeps_timer p k k1 \<Longrightarrow> keeps_timer p k1 k2 \<Longrightarrow> keeps_timer p k k2"
  by (simp add: keeps_timer_def)

lemma keeps_timer_upd:
  "(\<And>t. pid (f t) = pid t \<and> (q = p \<longrightarrow> itimer_remaining (f t) = itimer_remaining t \<and> itimer_interval (f t) = itimer_interval t
      \<and> (\<forall>s. bit (pending t) s \<longrightarrow> bit (pending (f t)) s))) \<Longrightarrow> keeps_timer p k (upd_task q f k)"
  by (auto simp: keeps_timer_def)

lemma keeps_timer_wake: "keeps_timer p k (wake_up q k)"
  by (simp add: keeps_timer_def)

lemma keeps_timer_send: "keeps_timer p k (snd (send_signal q n k))"
proof -
  have up: "keeps_timer p k (upd_task r (\<lambda>t. t\<lparr>pending := pending t OR sig_bit s\<rparr>) k)" for r s
    by (rule keeps_timer_upd) (simp add: bit_simps)
  have st: "keeps_timer p k1 (upd_task r (\<lambda>t. t\<lparr>tstate := TASK_READY, stop_sig := 0, stop_reported := False\<rparr>) k1)"
    "keeps_timer p k1 (upd_task r (\<lambda>t. t\<lparr>tstate := TASK_READY, stop_sig := 0, stop_reported := False, continued := True\<rparr>) k1)"
    "keeps_timer p k1 (wake_parent r k1)" for k1 r
    by (auto intro!: keeps_timer_upd keeps_timer_wake simp: wake_parent_def split: option.splits)
  note steps = up keeps_timer_trans [OF up keeps_timer_wake] keeps_timer_trans [OF up st(1)]
    keeps_timer_trans [OF keeps_timer_trans [OF up st(2)] st(3)]
    keeps_timer_trans [OF keeps_timer_trans [OF up st(1)] keeps_timer_wake]
  show ?thesis
    unfolding send_signal_def Let_def using steps
    by (simp del: upd_task_simps split: option.splits)
qed

lemma tick_real_other:
  assumes "q \<noteq> p"
  shows "keeps_timer p k (tick_real q k)"
proof -
  have up: "keeps_timer p k1 (upd_task q (\<lambda>t. t\<lparr>itimer_remaining := f t\<rparr>) k1)" for k1 and f :: "task \<Rightarrow> nat"
    by (rule keeps_timer_upd) (use assms in simp)
  show ?thesis
    unfolding tick_real_def Let_def
    using up keeps_timer_trans [OF up keeps_timer_send] keeps_timer_trans [OF keeps_timer_trans [OF up keeps_timer_send] up]
    by auto
qed

lemma tick_fold_other: "p \<notin> set ps \<Longrightarrow> keeps_timer p k (fold tick_real ps k)"
proof (induction ps arbitrary: k)
  case (Cons q ps)
  then show ?case using keeps_timer_trans [OF tick_real_other] by (metis fold_simps(2) list.set_intros)
qed simp

definition well_listed :: "kernel \<Rightarrow> bool" where
  "well_listed k \<longleftrightarrow> distinct (task_list k) \<and> (\<forall>q. pid (tsk k q) = q)"

lemma well_listed_find: "well_listed k \<Longrightarrow> p \<in> set (task_list k) \<Longrightarrow> find_task_by_pid p k = Some p"
  using find_task_by_pid_in [of p k]
  by (cases "find_task_by_pid p k") (auto simp: well_listed_def find_task_by_pid_def find_None_iff)

lemma tick_real_self:
  assumes "well_listed k" "p \<in> set (task_list k)" "itimer_remaining (tsk k p) = Suc n"
  shows "itimer_remaining (tsk (tick_real p k) p) = (if n = 0 then itimer_interval (tsk k p) else n) \<and>
    itimer_interval (tsk (tick_real p k) p) = itimer_interval (tsk k p) \<and>
    (n = 0 \<longrightarrow> bit (pending (tsk (tick_real p k) p)) SIGALRM) \<and>
    task_list (tick_real p k) = task_list k \<and> (\<forall>q. pid (tsk (tick_real p k) q) = q)"
proof (cases "n = 0")
  case False
  then show ?thesis using assms by (simp add: tick_real_def Let_def well_listed_def)
next
  case True
  let ?k1 = "upd_task p (\<lambda>t. t\<lparr>itimer_remaining := itimer_remaining t - 1\<rparr>) k"
  let ?k2 = "snd (send_signal p (int SIGALRM) ?k1)"
  have wl: "well_listed ?k1" "p \<in> set (task_list ?k1)" using assms(1,2) by (simp_all add: well_listed_def)
  note keep = keeps_timer_send [of p ?k1 p "int SIGALRM"]
  have alarm: "bit (pending (tsk ?k2 p)) SIGALRM"
    using well_listed_find [OF wl]
    by (auto simp: send_signal_def Let_def wake_parent_def bit_simps bit_sig_bit split: option.splits)
  have pid: "pid (tsk k p) = p" using assms(1) by (simp add: well_listed_def)
  have z: "itimer_remaining (tsk ?k2 p) = 0" "itimer_interval (tsk ?k2 p) = itimer_interval (tsk k p)"
    "task_list ?k2 = task_list k" "\<forall>q. pid (tsk ?k2 q) = q"
    using keep assms True by (auto simp: keeps_timer_def well_listed_def)
  have "tick_real p k = (if itimer_interval (tsk ?k2 p) > 0
      then upd_task p (\<lambda>t. t\<lparr>itimer_remaining := itimer_interval t\<rparr>) ?k2 else ?k2)"
    using assms(3) True pid by (simp add: tick_real_def Let_def)
  then show ?thesis using z alarm True by auto
qed

lemma tick_virtual_keeps: "keeps_timer p k (tick_virtual c k)"
proof -
  have v: "keeps_timer p k1 (upd_task c (\<lambda>t. t\<lparr>vtimer_remaining := f t\<rparr>) k1)" for k1 and f :: "task \<Rightarrow> nat"
    by (rule keeps_timer_upd) simp
  show ?thesis
    unfolding tick_virtual_def Let_def
    using v keeps_timer_trans [OF v keeps_timer_send] keeps_timer_trans [OF keeps_timer_trans [OF v keeps_timer_send] v]
    by auto
qed

lemma tick_prof_keeps: "keeps_timer p k (tick_prof c k)"
proof -
  have v: "keeps_timer p k1 (upd_task c (\<lambda>t. t\<lparr>ptimer_remaining := f t\<rparr>) k1)" for k1 and f :: "task \<Rightarrow> nat"
    by (rule keeps_timer_upd) simp
  show ?thesis
    unfolding tick_prof_def Let_def
    using v keeps_timer_trans [OF v keeps_timer_send] keeps_timer_trans [OF keeps_timer_trans [OF v keeps_timer_send] v]
    by auto
qed

lemma timer_tick_rest: "keeps_timer p (fold tick_real (task_list k) k) (timer_tick in_user k)"
  unfolding timer_tick_def Let_def
  using tick_prof_keeps keeps_timer_trans [OF tick_virtual_keeps tick_prof_keeps] by auto

lemma timer_tick_one:
  assumes "well_listed k" "p \<in> set (task_list k)" "itimer_remaining (tsk k p) = Suc n"
  shows "itimer_remaining (tsk (timer_tick in_user k) p) = (if n = 0 then itimer_interval (tsk k p) else n) \<and>
    itimer_interval (tsk (timer_tick in_user k) p) = itimer_interval (tsk k p) \<and>
    (n = 0 \<longrightarrow> bit (pending (tsk (timer_tick in_user k) p)) SIGALRM) \<and>
    well_listed (timer_tick in_user k) \<and> task_list (timer_tick in_user k) = task_list k"
proof -
  obtain xs ys where l: "task_list k = xs @ p # ys" using assms(2) by (meson split_list)
  have np: "p \<notin> set xs" "p \<notin> set ys" using assms(1) l by (auto simp: well_listed_def)
  define k1 where "k1 = fold tick_real xs k"
  have 1: "keeps_timer p k k1" unfolding k1_def using np(1) by (rule tick_fold_other)
  then have wl: "well_listed k1" "p \<in> set (task_list k1)" "itimer_remaining (tsk k1 p) = Suc n"
    using assms by (auto simp: keeps_timer_def well_listed_def)
  note self = tick_real_self [OF wl]
  have 2: "keeps_timer p (tick_real p k1) (fold tick_real (task_list k) k)"
    unfolding l k1_def using tick_fold_other [OF np(2)] by simp
  have 3: "keeps_timer p (tick_real p k1) (timer_tick in_user k)"
    using keeps_timer_trans [OF 2 timer_tick_rest] .
  show ?thesis using self 1 3 assms(1) by (auto simp: keeps_timer_def well_listed_def)
qed

text \<open>
  an interval timer fires on time and reloads. A task whose real-time timer has \<open>n\<close> ticks
  left has \<open>n - m\<close> left after \<open>m < n\<close> ticks, whatever runs and whichever other timers expire; after
  \<open>n\<close> ticks SIGALRM is pending and the timer is set to its interval.
\<close>

theorem itimer_fires:
  assumes "well_listed k" "p \<in> set (task_list k)" "itimer_remaining (tsk k p) = n" "m \<le> n" "0 < n" "length modes = m"
  shows "let k' = fold timer_tick modes k in
    itimer_remaining (tsk k' p) = (if m < n then n - m else itimer_interval (tsk k p)) \<and>
    (m = n \<longrightarrow> bit (pending (tsk k' p)) SIGALRM)"
proof -
  have "well_listed (fold timer_tick modes k) \<and> task_list (fold timer_tick modes k) = task_list k \<and>
      itimer_interval (tsk (fold timer_tick modes k) p) = itimer_interval (tsk k p) \<and>
      itimer_remaining (tsk (fold timer_tick modes k) p) = (if m < n then n - m else itimer_interval (tsk k p)) \<and>
      (m = n \<longrightarrow> bit (pending (tsk (fold timer_tick modes k) p)) SIGALRM)"
    using assms(4,6)
  proof (induction m arbitrary: modes)
    case 0
    then show ?case using assms by simp
  next
    case (Suc m)
    then obtain ms mode where ms: "modes = ms @ [mode]" "length ms = m" by (metis length_Suc_conv_rev)
    let ?k = "fold timer_tick ms k"
    have ih: "well_listed ?k" "task_list ?k = task_list k" "itimer_interval (tsk ?k p) = itimer_interval (tsk k p)"
      "itimer_remaining (tsk ?k p) = Suc (n - Suc m)"
      using Suc.IH [OF _ ms(2)] Suc.prems(1) by auto
    have "p \<in> set (task_list ?k)" using ih(2) assms(2) by simp
    from timer_tick_one [OF ih(1) this ih(4), of mode] show ?case
      using ih Suc.prems(1) unfolding ms(1) by auto
  qed
  then show ?thesis by (simp add: Let_def)
qed

theorem itimer_fires_witness:
  "let k = upd_task 2 (\<lambda>t. t\<lparr>itimer_remaining := 3, itimer_interval := 5\<rparr>) (demo_kernel [1, 2]);
       k' = fold timer_tick [True, False, True] k
   in itimer_remaining (tsk k' 2) = 5 \<and> bit (pending (tsk k' 2)) SIGALRM"
proof -
  let ?k = "upd_task 2 (\<lambda>t. t\<lparr>itimer_remaining := 3, itimer_interval := 5\<rparr>) (demo_kernel [1, 2])"
  have "well_listed ?k" "2 \<in> set (task_list ?k)" "itimer_remaining (tsk ?k 2) = 3" "itimer_interval (tsk ?k 2) = 5"
    by (simp_all add: well_listed_def demo_kernel_def)
  then show ?thesis using itimer_fires [of ?k 2 3 3 "[True, False, True]"] by (simp add: Let_def)
qed

end
