(* ===== verification/Vma.thy ===== *)
theory Vma
  imports Sched Paging
begin

text \<open>
  Virtual memory areas, \<^verbatim>\<open>mm/vma.c\<close>, and the system calls on them in \<^verbatim>\<open>kernel/syscall.c\<close>: \<^verbatim>\<open>brk\<close>,
  \<^verbatim>\<open>mmap\<close>, \<^verbatim>\<open>mprotect\<close> and \<^verbatim>\<open>munmap\<close>. The list of a task holds its areas in list order, and a
  pointer to an area of the list is its position. Addresses are natural numbers with the
  32-bit wrap-around written out. \<open>ok\<close> says whether \<^verbatim>\<open>kalloc\<close> finds room for the structure.
\<close>

section \<open>Areas\<close>

abbreviation (input) "VMA_CODE \<equiv> (1::nat)"
abbreviation (input) "VMA_HEAP \<equiv> (2::nat)"
abbreviation (input) "VMA_STACK \<equiv> (3::nat)"
abbreviation (input) "VMA_MMAP \<equiv> (4::nat)"

abbreviation (input) "VM_READ \<equiv> (0x01::u32)"
abbreviation (input) "VM_WRITE \<equiv> (0x02::u32)"
abbreviation (input) "VM_EXEC \<equiv> (0x04::u32)"
abbreviation (input) "VM_SHARED \<equiv> (0x08::u32)"
abbreviation (input) "VM_GROWSDOWN \<equiv> (0x10::u32)"
abbreviation (input) "VM_IO \<equiv> (0x20::u32)"

record vma =
  vm_start :: nat
  vm_end :: nat
  vm_flags :: u32
  vm_type :: nat
  vm_fd :: int
  vm_file_off :: nat
  vm_shared :: bool
  vm_phys_base :: u32

record vm_task =
  vma_list :: "vma list"
  vmm :: mm_struct
  as_limit :: nat
  arch :: addr_space

abbreviation (input) mm_base :: "vm_task \<Rightarrow> nat" where "mm_base t \<equiv> unat (mmap_base (vmm t))"
abbreviation (input) mm_end :: "vm_task \<Rightarrow> nat" where "mm_end t \<equiv> unat (mmap_end (vmm t))"

definition page_align :: "nat \<Rightarrow> nat" where
  "page_align a = w32 (a + 4095) div 4096 * 4096"

definition page_align_down :: "nat \<Rightarrow> nat" where
  "page_align_down a = a div 4096 * 4096"

definition vma_create :: "bool \<Rightarrow> nat \<Rightarrow> nat \<Rightarrow> u32 \<Rightarrow> nat \<Rightarrow> vma option" where
  "vma_create ok start e flags type =
     (if \<not> ok then None
      else Some \<lparr>vm_start = page_align_down start, vm_end = page_align e, vm_flags = flags, vm_type = type,
        vm_fd = -1, vm_file_off = 0, vm_shared = False, vm_phys_base = 0\<rparr>)"

definition vma_destroy :: "nat \<Rightarrow> vm_task \<Rightarrow> vm_task" where
  "vma_destroy i t = t\<lparr>vma_list := take i (vma_list t) @ drop (Suc i) (vma_list t)\<rparr>"

text \<open>The test of \<^verbatim>\<open>vma_find\<close>: a stack area also answers for the 8 MB below it.\<close>

definition vma_covers :: "vma \<Rightarrow> nat \<Rightarrow> bool" where
  "vma_covers v addr =
     (if vm_flags v AND VM_GROWSDOWN \<noteq> 0 then
        let stack_limit = (if vm_start v > 8 * 1024 * 1024 then vm_start v - 8 * 1024 * 1024 else 0)
        in addr \<ge> stack_limit \<and> addr < vm_end v
      else addr \<ge> vm_start v \<and> addr < vm_end v)"

fun find_vma :: "nat \<Rightarrow> vma list \<Rightarrow> nat option" where
  "find_vma addr [] = None"
| "find_vma addr (v # vs) = (if vma_covers v addr then Some 0 else map_option Suc (find_vma addr vs))"

definition vma_find :: "vm_task \<Rightarrow> nat \<Rightarrow> nat option" where
  "vma_find t addr = find_vma addr (vma_list t)"

fun insert_vma :: "vma \<Rightarrow> vma list \<Rightarrow> vma list" where
  "insert_vma v [] = [v]"
| "insert_vma v (x # xs) = (if vm_start v < vm_start x then v # x # xs else x # insert_vma v xs)"

definition vma_insert :: "vm_task \<Rightarrow> vma \<Rightarrow> vm_task" where
  "vma_insert t v = t\<lparr>vma_list := insert_vma v (vma_list t)\<rparr>"

definition vma_overlaps :: "vm_task \<Rightarrow> nat \<Rightarrow> nat \<Rightarrow> bool" where
  "vma_overlaps t start e \<longleftrightarrow> list_ex (\<lambda>v. start < vm_end v \<and> e > vm_start v) (vma_list t)"

definition vma_expand :: "vma \<Rightarrow> nat \<Rightarrow> int \<times> vma" where
  "vma_expand v new_end =
     (let new_end = page_align new_end in
      if vm_flags v AND VM_GROWSDOWN = 0 then
        (if new_end < vm_end v then (-1, v) else (0, v\<lparr>vm_end := new_end\<rparr>))
      else if new_end > vm_start v then (-1, v) else (0, v\<lparr>vm_start := new_end\<rparr>))"

text \<open>The search of \<^verbatim>\<open>vma_find_free_region\<close>; \<open>None\<close> is a search that does not end.\<close>

partial_function (option) vma_find_loop :: "vm_task \<Rightarrow> nat \<Rightarrow> nat \<Rightarrow> nat \<Rightarrow> nat option" where
  "vma_find_loop t len search_end candidate =
     (if w32 (candidate + len) \<le> search_end then
        (if \<not> vma_overlaps t candidate (w32 (candidate + len)) then Some candidate
         else vma_find_loop t len search_end (w32 (candidate + PAGE_SIZE)))
      else Some 0)"

definition vma_find_free_region :: "vm_task \<Rightarrow> nat \<Rightarrow> nat \<Rightarrow> nat option" where
  "vma_find_free_region t len hint =
     (let len = page_align len;
          search_start = (if hint \<noteq> 0 then page_align hint else mm_base t);
          search_end = mm_end t;
          search_start = (if hint \<noteq> 0 \<and> (hint < mm_base t \<or> hint \<ge> mm_end t) then mm_base t else search_start)
      in vma_find_loop t len search_end search_start)"

text \<open>
  Writing a shared mapping back: the calls of \<^verbatim>\<open>fs_pwrite\<close>, each with the file descriptor, the
  bytes of the page and the file offset. \<^verbatim>\<open>do_exit\<close> reads the pages directly, \<^verbatim>\<open>munmap\<close> through
  \<^verbatim>\<open>copy_from_user\<close>.
\<close>

definition vma_pages :: "vma \<Rightarrow> nat list" where
  "vma_pages v = map (\<lambda>i. vm_start v + i * 4096) [0..<(vm_end v - vm_start v + 4095) div 4096]"

definition pwrite_page :: "vma \<Rightarrow> nat \<Rightarrow> u8 list \<Rightarrow> int \<times> u8 list \<times> nat" where
  "pwrite_page v a bytes = (vm_fd v, bytes, w32 (vm_file_off v + (a - vm_start v)))"

definition mm_writeback_shared :: "(nat \<Rightarrow> u8) \<Rightarrow> vm_task \<Rightarrow> (int \<times> u8 list \<times> nat) list" where
  "mm_writeback_shared m t = concat (map (\<lambda>v.
     if vm_type v \<noteq> VMA_MMAP \<or> vm_fd v < 0 \<or> \<not> vm_shared v then []
     else if vm_flags v AND VM_IO \<noteq> 0 then []
     else concat (map (\<lambda>a.
       if \<not> arch_mm_user_present (arch t) a then []
       else case read_user (arch t) m a 0x1000 of None \<Rightarrow> [] | Some bytes \<Rightarrow> [pwrite_page v a bytes]) (vma_pages v)))
     (vma_list t))"

definition munmap_writeback :: "(nat \<Rightarrow> u8) \<Rightarrow> addr_space \<Rightarrow> vma \<Rightarrow> (int \<times> u8 list \<times> nat) list" where
  "munmap_writeback m s v =
     (if vm_fd v \<ge> 0 \<and> vm_shared v \<and> vm_flags v AND VM_IO = 0 then
        concat (map (\<lambda>a.
          if arch_mm_user_present s a then
            (case copy_from_user s m a 0x1000 of Inr (Some bytes) \<Rightarrow> [pwrite_page v a bytes] | _ \<Rightarrow> [])
          else []) (vma_pages v))
      else [])"

section \<open>System calls\<close>

fun find_heap :: "vma list \<Rightarrow> nat option" where
  "find_heap [] = None"
| "find_heap (v # vs) = (if vm_type v = VMA_HEAP then Some 0 else map_option Suc (find_heap vs))"

definition sys_brk :: "bool \<Rightarrow> nat \<Rightarrow> vm_task \<Rightarrow> int \<times> vm_task" where
  "sys_brk ok addr t =
     (if addr = 0 then (to_int (unat (brk_end (vmm t))), t)
      else if addr < unat (brk_start (vmm t)) then (-ENOMEM, t)
      else if addr \<ge> mm_base t then (-ENOMEM, t)
      else if as_limit t \<noteq> unat RLIM_INFINITY \<and> sub32 addr (unat USER_TEXT_START) > as_limit t then (-ENOMEM, t)
      else
        let finish = (\<lambda>t. (to_int addr, t\<lparr>vmm := (vmm t)\<lparr>brk_end := of_nat addr\<rparr>\<rparr>))
        in case find_heap (vma_list t) of
             None \<Rightarrow> (case vma_create ok (unat (brk_start (vmm t))) addr (VM_READ OR VM_WRITE) VMA_HEAP of
                 None \<Rightarrow> (-ENOMEM, t)
               | Some v \<Rightarrow> finish (vma_insert t v))
           | Some i \<Rightarrow> (case vma_expand (vma_list t ! i) addr of
                 (r, v) \<Rightarrow> if r < 0 then (-ENOMEM, t) else finish (t\<lparr>vma_list := (vma_list t)[i := v]\<rparr>)))"

definition prot_flags :: "u32 \<Rightarrow> u32" where
  "prot_flags prot = (if prot AND 1 \<noteq> 0 then VM_READ else 0) OR (if prot AND 2 \<noteq> 0 then VM_WRITE else 0)
     OR (if prot AND 4 \<noteq> 0 then VM_EXEC else 0)"

text \<open>
  \<open>fd_valid\<close>: the result of \<^verbatim>\<open>fs_fd_valid\<close>; \<open>dev\<close>: the physical base that \<^verbatim>\<open>fs_mmap\<close> gives for a device
  file. The outer option is the search for a region.
\<close>

definition sys_mmap :: "bool \<Rightarrow> bool \<Rightarrow> u32 option \<Rightarrow> nat \<Rightarrow> nat \<Rightarrow> u32 \<Rightarrow> u32 \<Rightarrow> int \<Rightarrow> nat \<Rightarrow> vm_task \<Rightarrow> (int \<times> vm_task) option" where
  "sys_mmap ok fd_valid dev addr len prot flags fd offset t =
     (if len = 0 then Some (-EINVAL, t)
      else
        let is_anon = (flags AND 0x20 \<noteq> 0)
        in if \<not> is_anon \<and> (fd < 0 \<or> \<not> fd_valid) then Some (-EBADF, t)
           else case vma_find_free_region t len addr of
               None \<Rightarrow> None
             | Some map_addr \<Rightarrow>
                 if map_addr = 0 then Some (-ENOMEM, t)
                 else
                   let vm_flags' = prot_flags prot OR (if flags AND 1 \<noteq> 0 then VM_SHARED else 0)
                   in (case vma_create ok map_addr (w32 (map_addr + len)) vm_flags' VMA_MMAP of
                        None \<Rightarrow> Some (-ENOMEM, t)
                      | Some v \<Rightarrow>
                          let v = v\<lparr>vm_fd := (if is_anon then -1 else fd), vm_file_off := offset, vm_shared := (flags AND 1 \<noteq> 0)\<rparr>;
                              v = (case (if is_anon then None else dev) of
                                     None \<Rightarrow> v
                                   | Some p \<Rightarrow> v\<lparr>vm_flags := vm_flags v OR VM_IO, vm_phys_base := p\<rparr>)
                          in Some (to_int map_addr, vma_insert t v)))"

definition sys_mprotect :: "nat \<Rightarrow> nat \<Rightarrow> u32 \<Rightarrow> vm_task \<Rightarrow> int \<times> vm_task" where
  "sys_mprotect addr len prot t =
     (let start = page_align_down addr; e = page_align (w32 (addr + len)) in
      if e \<le> start then (-EINVAL, t)
      else case vma_find t start of
          None \<Rightarrow> (-ENOMEM, t)
        | Some i \<Rightarrow>
            let v = vma_list t ! i in
            if start < vm_start v \<or> e > vm_end v then (-ENOMEM, t)
            else
              let fl = prot_flags prot;
                  v = v\<lparr>vm_flags := (vm_flags v AND (VM_SHARED OR VM_GROWSDOWN)) OR fl\<rparr>;
                  s = fold (\<lambda>k s. let a = start + k * 4096 in
                        if arch_mm_user_present s a then arch_mm_set_user_writable s a (fl AND VM_WRITE \<noteq> 0) else s)
                      [0..<(e - start) div 4096] (arch t)
              in (0, t\<lparr>vma_list := (vma_list t)[i := v], arch := s\<rparr>))"

fun munmap_loop :: "(nat \<Rightarrow> u8) \<Rightarrow> nat \<Rightarrow> nat \<Rightarrow> vma list \<Rightarrow> vma list \<Rightarrow> addr_space \<Rightarrow> (int \<times> u8 list \<times> nat) list
    \<Rightarrow> int \<times> vma list \<times> addr_space \<times> (int \<times> u8 list \<times> nat) list" where
  "munmap_loop m start e kept [] s ws = (0, kept, s, ws)"
| "munmap_loop m start e kept (v # vs) s ws =
     (if start < vm_end v \<and> e > vm_start v then
        (if start = vm_start v \<and> e = vm_end v then
           munmap_loop m start e kept vs (arch_mm_unmap_user_range s (vm_start v) (vm_end v)) (ws @ munmap_writeback m s v)
         else (-EINVAL, kept @ v # vs, s, ws))
      else munmap_loop m start e (kept @ [v]) vs s ws)"

definition sys_munmap :: "(nat \<Rightarrow> u8) \<Rightarrow> nat \<Rightarrow> nat \<Rightarrow> vm_task \<Rightarrow> int \<times> (int \<times> u8 list \<times> nat) list \<times> vm_task" where
  "sys_munmap m addr len t =
     (let start = page_align_down addr; e = page_align (w32 (addr + len))
      in case munmap_loop m start e [] (vma_list t) (arch t) [] of
           (r, vs, s, ws) \<Rightarrow> (r, ws, t\<lparr>vma_list := vs, arch := s\<rparr>))"

section \<open>The search for a free region\<close>

lemma w32_add_wrap: "w32 (w32 a + b) = w32 (a + b)"
  by (simp add: w32_def mod_add_left_eq)

lemma find_loop_ends:
  assumes "e < 4294963200" "candidate < 4294967296"
  shows "\<exists>r. vma_find_loop t len e candidate = Some r"
  using assms(2)
proof (induction "4294967296 - w32 (candidate + len)" arbitrary: candidate rule: less_induct)
  case less
  show ?case
  proof (cases "w32 (candidate + len) \<le> e \<and> vma_overlaps t candidate (w32 (candidate + len))")
    case True
    have "w32 (w32 (candidate + PAGE_SIZE) + len) = w32 (w32 (candidate + len) + PAGE_SIZE)"
      by (simp only: w32_def mod_simps) (simp add: ac_simps)
    also have "\<dots> = w32 (candidate + len) + 4096" using True assms(1) by (simp add: PAGE_SIZE_def)
    finally have "w32 (candidate + len) < w32 (w32 (candidate + PAGE_SIZE) + len)" by simp
    then have "4294967296 - w32 (w32 (candidate + PAGE_SIZE) + len) < 4294967296 - w32 (candidate + len)"
      using w32_less [of "candidate + len"] by linarith
    then show ?thesis using less.hyps [of "w32 (candidate + PAGE_SIZE)"] True
      by (subst vma_find_loop.simps) simp
  qed (subst vma_find_loop.simps, auto)
qed

lemma find_loop_first:
  assumes "len + e + 4096 < 4294967296" "candidate \<le> e + 4096"
  shows "(\<exists>k. vma_find_loop t len e candidate = Some (candidate + 4096 * k) \<and> candidate + 4096 * k + len \<le> e \<and>
      \<not> vma_overlaps t (candidate + 4096 * k) (candidate + 4096 * k + len) \<and>
      (\<forall>j < k. vma_overlaps t (candidate + 4096 * j) (candidate + 4096 * j + len))) \<or>
    vma_find_loop t len e candidate = Some 0 \<and>
      (\<forall>j. candidate + 4096 * j + len \<le> e \<longrightarrow> vma_overlaps t (candidate + 4096 * j) (candidate + 4096 * j + len))"
  using assms(2)
proof (induction "e + 4096 - candidate" arbitrary: candidate rule: less_induct)
  case less
  have w: "w32 (candidate + len) = candidate + len" using assms(1) less.prems by simp
  show ?case
  proof (cases "candidate + len \<le> e")
    case False
    then have "vma_find_loop t len e candidate = Some 0" by (subst vma_find_loop.simps) (simp add: w)
    then show ?thesis using False by auto
  next
    case le: True
    show ?thesis
    proof (cases "vma_overlaps t candidate (candidate + len)")
      case False
      then have "vma_find_loop t len e candidate = Some (candidate + 4096 * 0)" using le
        by (subst vma_find_loop.simps) (simp add: w)
      then show ?thesis using False le by (intro disjI1 exI [of _ 0]) simp
    next
      case True
      have n: "w32 (candidate + PAGE_SIZE) = candidate + 4096" using assms(1) le by (simp add: PAGE_SIZE_def)
      have step: "vma_find_loop t len e candidate = vma_find_loop t len e (candidate + 4096)"
        using True le by (subst vma_find_loop.simps) (simp add: w n)
      have cover: "(\<forall>j < Suc k. vma_overlaps t (candidate + 4096 * j) (candidate + 4096 * j + len)) \<longleftrightarrow>
        (\<forall>j < k. vma_overlaps t (candidate + 4096 + 4096 * j) (candidate + 4096 + 4096 * j + len))" for k
        using True by (auto simp: less_Suc_eq_0_disj ac_simps)
      have "(\<exists>k. vma_find_loop t len e candidate = Some (candidate + 4096 + 4096 * k) \<and> candidate + 4096 + 4096 * k + len \<le> e \<and>
          \<not> vma_overlaps t (candidate + 4096 + 4096 * k) (candidate + 4096 + 4096 * k + len) \<and>
          (\<forall>j < k. vma_overlaps t (candidate + 4096 + 4096 * j) (candidate + 4096 + 4096 * j + len))) \<or>
        vma_find_loop t len e candidate = Some 0 \<and>
          (\<forall>j. candidate + 4096 + 4096 * j + len \<le> e \<longrightarrow> vma_overlaps t (candidate + 4096 + 4096 * j) (candidate + 4096 + 4096 * j + len))"
        unfolding step using le by (intro less.hyps) auto
      then show ?thesis
      proof
        assume "\<exists>k. vma_find_loop t len e candidate = Some (candidate + 4096 + 4096 * k) \<and> candidate + 4096 + 4096 * k + len \<le> e \<and>
          \<not> vma_overlaps t (candidate + 4096 + 4096 * k) (candidate + 4096 + 4096 * k + len) \<and>
          (\<forall>j < k. vma_overlaps t (candidate + 4096 + 4096 * j) (candidate + 4096 + 4096 * j + len))"
        then obtain k where k: "vma_find_loop t len e candidate = Some (candidate + 4096 * Suc k)" "candidate + 4096 * Suc k + len \<le> e"
          "\<not> vma_overlaps t (candidate + 4096 * Suc k) (candidate + 4096 * Suc k + len)"
          "\<forall>j < Suc k. vma_overlaps t (candidate + 4096 * j) (candidate + 4096 * j + len)"
          unfolding cover by (auto simp: ac_simps)
        then show ?thesis by blast
      next
        assume none: "vma_find_loop t len e candidate = Some 0 \<and>
          (\<forall>j. candidate + 4096 + 4096 * j + len \<le> e \<longrightarrow> vma_overlaps t (candidate + 4096 + 4096 * j) (candidate + 4096 + 4096 * j + len))"
        have "vma_overlaps t (candidate + 4096 * j) (candidate + 4096 * j + len)" if "candidate + 4096 * j + len \<le> e" for j
          using none that True by (cases j) (simp_all add: ac_simps)
        then show ?thesis using none by blast
      qed
    qed
  qed
qed

text \<open>Lists of areas: page-aligned, not empty, in order and without overlap.\<close>

definition vmas_ok :: "vma list \<Rightarrow> bool" where
  "vmas_ok vs \<longleftrightarrow>
     (\<forall>v \<in> set vs. vm_start v mod 4096 = 0 \<and> vm_end v mod 4096 = 0 \<and> vm_start v < vm_end v \<and> vm_end v < 4294967296) \<and>
     sorted_wrt (\<lambda>u v. vm_end u \<le> vm_start v) vs"

lemma set_insert_vma [simp]: "set (insert_vma v vs) = insert v (set vs)"
  by (induction vs) auto

lemma vmas_ok_insert:
  assumes "vmas_ok vs" "vm_start v mod 4096 = 0" "vm_end v mod 4096 = 0" "vm_start v < vm_end v" "vm_end v < 4294967296"
    "\<not> list_ex (\<lambda>u. vm_start v < vm_end u \<and> vm_end v > vm_start u) vs"
  shows "vmas_ok (insert_vma v vs)"
proof -
  have "sorted_wrt (\<lambda>u w. vm_end u \<le> vm_start w) (insert_vma v vs)"
    using assms(1,4,6) unfolding vmas_ok_def
  proof (induction vs)
    case (Cons x xs)
    then have x: "vm_end x \<le> vm_start v \<or> vm_end v \<le> vm_start x" "vm_start x < vm_end x" by auto
    show ?case
    proof (cases "vm_start v < vm_start x")
      case True
      then have "vm_end v \<le> vm_start x" using x by auto
      then show ?thesis using Cons.prems True by (fastforce dest: less_imp_le)
    next
      case False
      then have "vm_end x \<le> vm_start v" using x Cons.prems(2) by auto
      then show ?thesis using Cons False by auto
    qed
  qed simp
  then show ?thesis using assms unfolding vmas_ok_def by auto
qed

lemma page_align_eq: "a + 4095 < 4294967296 \<Longrightarrow> page_align a = (a + 4095) div 4096 * 4096"
  by (simp add: page_align_def)

lemma page_align_mod [simp]: "page_align a mod 4096 = 0" "page_align_down a mod 4096 = 0"
  by (simp_all add: page_align_def page_align_down_def)

lemma page_align_le: "page_align a < 4294967296"
  unfolding page_align_def using w32_less [of "a + 4095"] by (meson div_times_less_eq_dividend le_less_trans)

lemma page_align_add:
  assumes "b mod 4096 = 0" "b + len + 4095 < 4294967296"
  shows "page_align (b + len) = b + page_align len"
proof -
  obtain q where "b = 4096 * q" using assms(1) by auto
  moreover have "(4096 * q + len + 4095) div 4096 = q + (len + 4095) div 4096" by (simp add: add.assoc)
  ultimately show ?thesis using assms(2) by (simp add: page_align_eq algebra_simps)
qed

lemma u32_less: "unat (w :: u32) < 4294967296"
  using unsigned_less [of w, where ?'a = nat] by simp

text \<open>
  C38: the search of \<^verbatim>\<open>vma_find_free_region\<close> ends, whatever the areas, the length and the hint are,
  when the end of the mmap region leaves room for a page below the top of the address space.
\<close>

theorem vma_find_free_region_terminates:
  assumes "mm_end t < 0xFFFFF000"
  shows "\<exists>r. vma_find_free_region t len hint = Some r"
  unfolding vma_find_free_region_def Let_def
  by (rule find_loop_ends) (use assms page_align_le [of hint] u32_less [of "mmap_base (vmm t)"] in simp_all)

text \<open>Where the search begins: at the hint, if it lies in the mmap region, and otherwise at the bottom of the region.\<close>

definition search_from :: "vm_task \<Rightarrow> nat \<Rightarrow> nat" where
  "search_from t hint = (if mm_base t \<le> hint \<and> hint < mm_end t then page_align hint else mm_base t)"

lemma free_region_cases:
  assumes "page_align len + mm_end t + 4096 < 4294967296" "mm_base t \<le> mm_end t" "mm_base t mod 4096 = 0" "0 < mm_base t"
  obtains (found) a where "vma_find_free_region t len hint = Some a" "a mod 4096 = 0" "search_from t hint \<le> a" "mm_base t \<le> a" "0 < a"
      "a + page_align len \<le> mm_end t"
      "\<not> vma_overlaps t a (a + page_align len)"
      "\<And>b. b mod 4096 = 0 \<Longrightarrow> search_from t hint \<le> b \<Longrightarrow> b < a \<Longrightarrow> vma_overlaps t b (b + page_align len)"
  | (none) "vma_find_free_region t len hint = Some 0"
      "\<And>b. b mod 4096 = 0 \<Longrightarrow> search_from t hint \<le> b \<Longrightarrow> b + page_align len \<le> mm_end t \<Longrightarrow> vma_overlaps t b (b + page_align len)"
proof -
  let ?L = "page_align len" and ?b = "search_from t hint"
  have eq: "vma_find_free_region t len hint = vma_find_loop t ?L (mm_end t) ?b" using assms(4) by (auto simp: vma_find_free_region_def search_from_def)
  have fm: "?b mod 4096 = 0" using assms(3) by (simp add: search_from_def)
  have pa: "hint \<le> page_align hint \<and> page_align hint \<le> hint + 4095" if "hint < mm_end t"
    using that assms(1) div_times_less_eq_dividend [of "hint + 4095" 4096] by (simp add: page_align_eq)
  then have fb: "mm_base t \<le> ?b" by (auto simp: search_from_def)
  have grid: "\<exists>j. b = ?b + 4096 * j" if "b mod 4096 = 0" "?b \<le> b" for b
    using that fm by (intro exI [of _ "(b - ?b) div 4096"]) (auto simp: mod_eq_0_iff_dvd dvd_diff_nat)
  have "?b \<le> mm_end t + 4096" using assms(2) pa by (auto simp: search_from_def)
  from find_loop_first [OF assms(1) this, of t] show ?thesis
  proof (elim disjE exE conjE)
    fix k
    assume k: "vma_find_loop t ?L (mm_end t) ?b = Some (?b + 4096 * k)" "?b + 4096 * k + ?L \<le> mm_end t"
      "\<not> vma_overlaps t (?b + 4096 * k) (?b + 4096 * k + ?L)"
      "\<forall>j < k. vma_overlaps t (?b + 4096 * j) (?b + 4096 * j + ?L)"
    show ?thesis
    proof (rule found [of "?b + 4096 * k"])
      show "(?b + 4096 * k) mod 4096 = 0" using fm by simp
      fix b assume "b mod 4096 = 0" "?b \<le> b" "b < ?b + 4096 * k"
      with grid [of b] obtain j where "b = ?b + 4096 * j" "j < k" by auto
      then show "vma_overlaps t b (b + ?L)" using k(4) by simp
    qed (use k eq fb assms(4) in auto)
  next
    assume "vma_find_loop t ?L (mm_end t) ?b = Some 0"
      "\<forall>j. ?b + 4096 * j + ?L \<le> mm_end t \<longrightarrow> vma_overlaps t (?b + 4096 * j) (?b + 4096 * j + ?L)"
    note no = this
    show ?thesis
    proof (rule none)
      fix b assume b: "b mod 4096 = 0" "?b \<le> b" "b + ?L \<le> mm_end t"
      with grid [of b] obtain j where "b = ?b + 4096 * j" by auto
      then show "vma_overlaps t b (b + ?L)" using no(2) b(3) by simp
    qed (use no(1) eq in simp)
  qed
qed

lemma sys_mmap_at:
  assumes "0 < len" "flags AND 0x20 \<noteq> 0 \<or> 0 \<le> fd \<and> fdv" "vma_find_free_region t len addr = Some a" "a \<noteq> 0"
  shows "\<exists>v. sys_mmap True fdv dev addr len prot flags fd off t = Some (to_int a, vma_insert t v) \<and>
    vm_start v = page_align_down a \<and> vm_end v = page_align (w32 (a + len))"
  using assms by (auto simp: sys_mmap_def vma_create_def Let_def split: option.splits)

text \<open>
  C31: first fit. A mapping, anonymous or of a file, whose length leaves room above the mmap region, so that no sum
  wraps, takes the lowest page-aligned address, from the hint or else from the bottom of the mmap region on, at which no
  area overlaps the rounded-up length within the region; it enters an area of exactly this length there and keeps the list
  of areas ordered and without overlap. It fails with \<^verbatim>\<open>ENOMEM\<close>, and changes nothing, only if there is no such
  address or no memory for the area. (A length that wraps is accepted as well: \<open>sys_mmap_wraps\<close>.)
\<close>

theorem sys_mmap_first_fit:
  assumes "vmas_ok (vma_list t)" "0 < len" "len + mm_end t + 8191 < 2 ^ 32"
    "mm_base t \<le> mm_end t" "mm_base t mod 4096 = 0" "0 < mm_base t" "flags AND 0x20 \<noteq> 0 \<or> 0 \<le> fd \<and> fdv"
  shows "ok \<and> (\<exists>a v. sys_mmap ok fdv dev hint len prot flags fd off t = Some (to_int a, vma_insert t v) \<and>
      vm_start v = a \<and> vm_end v = a + page_align len \<and> a mod 4096 = 0 \<and> mm_base t \<le> a \<and> search_from t hint \<le> a \<and>
      a + page_align len \<le> mm_end t \<and> \<not> vma_overlaps t a (a + page_align len) \<and> vmas_ok (vma_list (vma_insert t v)) \<and>
      (\<forall>b. b mod 4096 = 0 \<longrightarrow> search_from t hint \<le> b \<longrightarrow> b < a \<longrightarrow> vma_overlaps t b (b + page_align len))) \<or>
    sys_mmap ok fdv dev hint len prot flags fd off t = Some (-ENOMEM, t) \<and>
      (ok \<longrightarrow> (\<forall>b. b mod 4096 = 0 \<longrightarrow> search_from t hint \<le> b \<longrightarrow> b + page_align len \<le> mm_end t \<longrightarrow> vma_overlaps t b (b + page_align len)))"
proof -
  let ?L = "page_align len"
  have lb: "len + mm_end t + 8191 < 4294967296" using assms(3) by simp
  have L: "?L = (len + 4095) div 4096 * 4096" using lb by (simp add: page_align_eq)
  have "(len + 4095) div 4096 * 4096 \<le> len + 4095" by simp
  then have Lb: "?L + mm_end t + 4096 < 4294967296" using lb L by linarith
  have Lpos: "0 < ?L" using assms(2) unfolding L by simp
  from Lb assms(4-6) show ?thesis
  proof (cases rule: free_region_cases [where hint = hint])
    case (found a)
    show ?thesis
    proof (cases ok)
      case True
      obtain v where v: "sys_mmap ok fdv dev hint len prot flags fd off t = Some (to_int a, vma_insert t v)"
        "vm_start v = page_align_down a" "vm_end v = page_align (w32 (a + len))"
        using sys_mmap_at [OF assms(2,7) found(1), of dev prot off] found(5) True by auto
      have "page_align_down a = a" using found(2) by (auto simp: page_align_down_def)
      moreover have ab: "a + len + 4095 < 4294967296" using found(6) lb by linarith
      moreover have "w32 (a + len) = a + len" using ab by simp
      ultimately have se: "vm_start v = a" "vm_end v = a + ?L" using v(2,3) page_align_add [OF found(2) ab] by simp_all
      have "vmas_ok (vma_list (vma_insert t v))"
        unfolding vma_insert_def using found(2,6,7) Lb Lpos assms(1)
        by (simp add: vmas_ok_insert se vma_overlaps_def mod_add_eq [symmetric])
      then show ?thesis using True v(1) se found(2-)
        by (intro disjI1 conjI exI [of _ a] exI [of _ v] allI impI) simp_all
    next
      case False
      then show ?thesis using assms(2,7) found(1,5) by (auto simp: sys_mmap_def vma_create_def Let_def)
    qed
  next
    case none
    have "sys_mmap ok fdv dev hint len prot flags fd off t = Some (-ENOMEM, t)"
      using assms(2,7) none(1) by (auto simp: sys_mmap_def Let_def)
    then show ?thesis using none(2) by blast
  qed
qed

lemma munmap_loop_keep:
  "\<not> list_ex (\<lambda>u. a < vm_end u \<and> e > vm_start u) vs \<Longrightarrow> munmap_loop m a e kept vs s ws = (0, kept @ vs, s, ws)"
  by (induction vs arbitrary: kept) auto

lemma munmap_loop_inserted:
  assumes "\<not> list_ex (\<lambda>u. vm_start v < vm_end u \<and> vm_end v > vm_start u) vs" "vm_start v < vm_end v"
  shows "munmap_loop m (vm_start v) (vm_end v) kept (insert_vma v vs) s ws =
    (0, kept @ vs, arch_mm_unmap_user_range s (vm_start v) (vm_end v), ws @ munmap_writeback m s v)"
  using assms by (induction vs arbitrary: kept) (auto simp: munmap_loop_keep)

text \<open>
  \<^verbatim>\<open>munmap\<close> of exactly the range of an area that was inserted where nothing overlapped takes the
  area out of the list again, writes it back if it is shared and unmaps its pages.
\<close>

theorem sys_munmap_insert:
  assumes "\<not> vma_overlaps t (vm_start v) (vm_end v)" "vm_start v < vm_end v" "vm_start v mod 4096 = 0"
    "page_align len = vm_end v - vm_start v" "vm_start v + len + 4095 < 2 ^ 32"
  shows "sys_munmap m (vm_start v) len (vma_insert t v) =
    (0, munmap_writeback m (arch t) v, t\<lparr>arch := arch_mm_unmap_user_range (arch t) (vm_start v) (vm_end v)\<rparr>)"
proof -
  have "page_align (vm_start v + len) = vm_end v" using page_align_add [OF assms(3), of len] assms(2,4,5) by simp
  moreover have "w32 (vm_start v + len) = vm_start v + len" using assms(5) by simp
  moreover have "page_align_down (vm_start v) = vm_start v" using assms(3) by (auto simp: page_align_down_def)
  ultimately show ?thesis
    using munmap_loop_inserted [of v "vma_list t" m "[]" "arch t" "[]"] assms(1,2)
    by (simp add: sys_munmap_def vma_insert_def vma_overlaps_def)
qed

text \<open>
  a length that wraps the end of the region around to 0 is accepted. With the mmap region that
  every task has, an anonymous mapping of 3 GB succeeds and enters an area that covers no address.
\<close>

theorem sys_mmap_wraps:
  assumes "mmap_base (vmm t) = 0x40000000" "mmap_end (vmm t) = 0xBF000000"
  shows "\<exists>v. sys_mmap True fdv dev 0 0xC0000000 prot 0x20 fd off t = Some (0x40000000, vma_insert t v) \<and>
    vm_start v = 0x40000000 \<and> vm_end v = 0 \<and> (\<forall>a. \<not> vma_covers v a)"
proof -
  have al: "page_align 0xC0000000 = 0xC0000000" by (simp add: page_align_def w32_def)
  have w: "w32 (0x40000000 + 0xC0000000) = 0" by (simp add: w32_def)
  have "list_ex (\<lambda>v. 0x40000000 < vm_end v \<and> (0::nat) > vm_start v) (vma_list t) = False" by (simp add: list_ex_iff)
  then have "vma_find_loop t 0xC0000000 0xBF000000 0x40000000 = Some 0x40000000"
    by (subst vma_find_loop.simps) (simp only: w vma_overlaps_def, simp)
  then have "vma_find_free_region t 0xC0000000 0 = Some 0x40000000"
    by (simp add: vma_find_free_region_def al assms)
  then obtain v where v: "sys_mmap True fdv dev 0 0xC0000000 prot 0x20 fd off t = Some (to_int 0x40000000, vma_insert t v)"
    "vm_start v = page_align_down 0x40000000" "vm_end v = page_align (w32 (0x40000000 + 0xC0000000))"
    using sys_mmap_at [of "0xC0000000" "0x20" fd fdv t 0 "0x40000000" dev prot off] by fastforce
  have "vm_start v = 0x40000000" "vm_end v = 0" using v(2,3) unfolding w by (simp_all add: page_align_down_def page_align_def)
  then show ?thesis using v(1) by (auto simp: vma_covers_def to_int_def)
qed

section \<open>Witnesses\<close>

definition demo_area :: "nat \<Rightarrow> nat \<Rightarrow> vma" where
  "demo_area a e = \<lparr>vm_start = a, vm_end = e, vm_flags = VM_READ, vm_type = VMA_MMAP, vm_fd = -1, vm_file_off = 0,
     vm_shared = False, vm_phys_base = 0\<rparr>"

definition demo_vm_task :: vm_task where
  "demo_vm_task = \<lparr>vma_list = [demo_area 0x08000000 0x08004000, demo_area 0x40000000 0x40002000],
     vmm = zero_mm\<lparr>mmap_base := 0x40000000, mmap_end := 0xBF000000\<rparr>, as_limit = 0x40000000,
     arch = \<lparr>page_tables = Map.empty, pgdir = (\<lambda>_. 0)\<rparr>\<rparr>"

theorem vma_find_free_region_terminates_witness:
  "\<exists>r. vma_find_free_region demo_vm_task 0xFFFFFFFF 0x40001234 = Some r"
  by (rule vma_find_free_region_terminates) (simp add: demo_vm_task_def zero_mm_def)

theorem sys_mmap_first_fit_witness:
  "vmas_ok (vma_list demo_vm_task) \<and>
   (sys_mmap True False None 0x40001234 5000 3 0x20 (-1) 0 demo_vm_task = Some (-ENOMEM, demo_vm_task) \<or>
    (\<exists>a v. sys_mmap True False None 0x40001234 5000 3 0x20 (-1) 0 demo_vm_task = Some (to_int a, vma_insert demo_vm_task v) \<and>
       vm_end v = a + 8192))"
proof -
  have ok: "vmas_ok (vma_list demo_vm_task)" by (simp add: vmas_ok_def demo_vm_task_def demo_area_def)
  have "page_align 5000 = 8192" by (simp add: page_align_def)
  then show ?thesis
    using ok sys_mmap_first_fit [OF ok, of 5000 "0x20" "-1" False True None "0x40001234" 3 0] by (auto simp: demo_vm_task_def zero_mm_def)
qed

theorem sys_munmap_insert_witness:
  "sys_munmap (\<lambda>_. 0) 0x50000000 5000 (vma_insert demo_vm_task (demo_area 0x50000000 0x50002000)) =
    (0, [], demo_vm_task\<lparr>arch := arch_mm_unmap_user_range (arch demo_vm_task) 0x50000000 0x50002000\<rparr>)"
  using sys_munmap_insert [of demo_vm_task "demo_area 0x50000000 0x50002000" 5000 "\<lambda>_. 0"]
  by (simp add: demo_area_def demo_vm_task_def vma_overlaps_def page_align_def munmap_writeback_def)

theorem sys_mmap_wraps_witness:
  "\<exists>v. sys_mmap True False None 0 0xC0000000 3 0x20 (-1) 0 demo_vm_task = Some (0x40000000, vma_insert demo_vm_task v) \<and> vm_end v = 0"
  using sys_mmap_wraps [of demo_vm_task False None 3 "-1" 0] by (auto simp: demo_vm_task_def zero_mm_def)

end
