(* ===== verification/Process.thy ===== *)
theory Process
  imports Signal Open_File Vma
begin

text \<open>
  Processes, \<^verbatim>\<open>kernel/process.c\<close>: exit, fork, wait, sleeping, job control and user ids. The
  state joins the tables of tasks and open files with the areas and the address space of every task
  and the physical memory; freed frames and the file writes of shared mappings are listed. Allocation
  results are arguments. The trap frame of a new task is not part of the model: a child of
  \<^verbatim>\<open>fork\<close> is its task structure, descriptors and memory. The replacement of the program is
  in \<open>Exec_Process\<close>.
\<close>

section \<open>State\<close>

record proc =
  pfs :: fstate
  pvmas :: "nat \<Rightarrow> vma list"
  spaces :: "nat \<Rightarrow> addr_space"
  ram :: "nat \<Rightarrow> u8"
  freed_frames :: "u32 list"
  pwrites :: "(int \<times> u8 list \<times> nat) list"

abbreviation pkern :: "proc \<Rightarrow> kernel" where "pkern s \<equiv> kern (pfs s)"
abbreviation cur :: "proc \<Rightarrow> nat" where "cur s \<equiv> current (pkern s)"
abbreviation ptask :: "proc \<Rightarrow> nat \<Rightarrow> task" where "ptask s p \<equiv> tsk (pkern s) p"

definition upd_kern :: "(kernel \<Rightarrow> kernel) \<Rightarrow> proc \<Rightarrow> proc" where
  "upd_kern f s = s\<lparr>pfs := (pfs s)\<lparr>kern := f (kern (pfs s))\<rparr>\<rparr>"

definition upd_ptask :: "nat \<Rightarrow> (task \<Rightarrow> task) \<Rightarrow> proc \<Rightarrow> proc" where
  "upd_ptask p f = upd_kern (upd_task p f)"

definition vm_of :: "proc \<Rightarrow> nat \<Rightarrow> vm_task" where
  "vm_of s p = \<lparr>vma_list = pvmas s p, vmm = mm (ptask s p),
     as_limit = unat (rlimit_cur (ptask s p) RLIMIT_AS), arch = spaces s p\<rparr>"

section \<open>Exit\<close>

text \<open>The wait status: a status of 128 and more is read as death by a signal.\<close>

definition wait_status :: "int \<Rightarrow> int" where
  "wait_status status = (if status \<ge> 128 then (status - 128) mod 128 else (status mod 256) * 256)"

definition close_all_fds :: "fstate \<Rightarrow> fstate" where
  "close_all_fds st = fold (\<lambda>e st. snd (fs_close (fd_num e) st)) (cur_files st) st"

definition free_vma_pages :: "vma list \<Rightarrow> addr_space \<Rightarrow> addr_space \<times> u32 list" where
  "free_vma_pages vs sp = fold (\<lambda>v (sp, fr). case arch_mm_free_user_pages sp (vm_start v) (vm_end v) of
      (sp, fr') \<Rightarrow> (sp, fr @ fr')) vs (sp, [])"

text \<open>\<open>tabs\<close> gives the address of each page table of the task.\<close>

definition free_user_memory :: "(nat \<Rightarrow> u32) \<Rightarrow> nat \<Rightarrow> proc \<Rightarrow> proc" where
  "free_user_memory tabs p s =
     (case free_vma_pages (pvmas s p) (spaces s p) of (sp, frames) \<Rightarrow>
      case arch_mm_free_user_tables tabs sp of (sp, tables) \<Rightarrow>
        s\<lparr>pvmas := (pvmas s)(p := []), spaces := (spaces s)(p := sp), freed_frames := freed_frames s @ frames @ tables\<rparr>)"

text \<open>
  \<^verbatim>\<open>free_task\<close>: whatever user pages and tables are left, the kernel stack and the structure. It does
  not look at descriptors and areas.
\<close>

definition release_task :: "(nat \<Rightarrow> u32) \<Rightarrow> nat \<Rightarrow> proc \<Rightarrow> proc" where
  "release_task tabs p s =
     (if p = 0 then s
      else
        case arch_mm_free_user_pages (spaces s p) 0 (unat USER_STACK_TOP) of (sp, frames) \<Rightarrow>
        case arch_mm_free_user_tables tabs sp of (sp, tables) \<Rightarrow>
          upd_kern (free_task p) (s\<lparr>spaces := (spaces s)(p := sp), freed_frames := freed_frames s @ frames @ tables\<rparr>))"

definition unlink_child :: "nat \<Rightarrow> nat \<Rightarrow> proc \<Rightarrow> proc" where
  "unlink_child p c = upd_ptask p (\<lambda>t. t\<lparr>children := remove1 c (children t)\<rparr>)"

definition orphan :: "(nat \<Rightarrow> u32) \<Rightarrow> nat \<Rightarrow> nat \<Rightarrow> proc \<Rightarrow> proc" where
  "orphan tabs p c s =
     (if tstate (ptask s c) = TASK_ZOMBIE then release_task tabs c (upd_kern (remove_task c) (unlink_child p c s))
      else
        let s' = unlink_child p c s
        in case find_task_by_pid 1 (pkern s) of
             Some i \<Rightarrow> if i \<noteq> p
               then upd_ptask i (\<lambda>t. t\<lparr>children := children t @ [c]\<rparr>) (upd_ptask c (\<lambda>t. t\<lparr>ppid := pid (ptask s i)\<rparr>) s')
               else upd_ptask c (\<lambda>t. t\<lparr>ppid := 1\<rparr>) s'
           | None \<Rightarrow> upd_ptask c (\<lambda>t. t\<lparr>ppid := 1\<rparr>) s')"

text \<open>
  \<^verbatim>\<open>do_exit\<close> up to and with the call of \<^verbatim>\<open>schedule\<close>, from which it does not come back; \<open>None\<close> is a page
  fault in the kernel.
\<close>

definition notify_parent :: "nat \<Rightarrow> kernel \<Rightarrow> kernel" where
  "notify_parent p k =
     (case find_task_by_pid (ppid (tsk k p)) k of
        None \<Rightarrow> k
      | Some q \<Rightarrow> if q \<noteq> p then wake_up (Task_wait q) (snd (send_signal (pid (tsk k q)) (int SIGCHLD) k)) else k)"

definition exit_teardown :: "(nat \<Rightarrow> u32) \<Rightarrow> int \<Rightarrow> proc \<Rightarrow> proc" where
  "exit_teardown tabs status s =
     (let p = cur s;
          s = upd_ptask p (\<lambda>t. t\<lparr>exit_code := wait_status status\<rparr>) s;
          s = s\<lparr>pwrites := pwrites s @ mm_writeback_shared (ram s) (vm_of s p)\<rparr>;
          s = s\<lparr>pfs := close_all_fds (pfs s)\<rparr>;
          s = free_user_memory tabs p s;
          s = fold (orphan tabs p) (children (ptask s p)) s
      in upd_ptask p (\<lambda>t. t\<lparr>tstate := TASK_ZOMBIE\<rparr>) s)"

definition do_exit :: "(nat \<Rightarrow> u32) \<Rightarrow> int \<Rightarrow> proc \<Rightarrow> proc option" where
  "do_exit tabs status s =
     (let p = cur s; s = exit_teardown tabs status s
      in case (if cleartid (ptask s p) \<noteq> 0 then put_user (spaces s p, ram s) (unat (cleartid (ptask s p))) (bytes_of 0)
               else Some (True, (spaces s p, ram s))) of
           None \<Rightarrow> None
         | Some (ok, u) \<Rightarrow> Some (upd_kern (schedule \<circ> notify_parent p) (s\<lparr>ram := snd u\<rparr>)))"

section \<open>Wait\<close>

abbreviation (input) "WNOHANG \<equiv> (1::u32)"
abbreviation (input) "WUNTRACED \<equiv> (2::u32)"
abbreviation (input) "WCONTINUED \<equiv> (8::u32)"

datatype wait_result = Wait_returns int proc | Wait_fault | Wait_none bool

datatype wait_outcome = Waited int proc | Wait_page_fault | Wait_asleep proc

definition int_bytes :: "int \<Rightarrow> u8 list" where
  "int_bytes i = bytes_of (word_of_int i)"

text \<open>Write the status for the caller, then go on.\<close>

definition write_status :: "nat \<Rightarrow> int \<Rightarrow> proc \<Rightarrow> (proc \<Rightarrow> wait_result) \<Rightarrow> wait_result" where
  "write_status ptr status s cont =
     (if ptr = 0 then cont s
      else case put_user (spaces s (cur s), ram s) ptr (int_bytes status) of
          None \<Rightarrow> Wait_fault
        | Some (ok, u) \<Rightarrow> if \<not> ok then Wait_returns (-EFAULT) s else cont (s\<lparr>ram := snd u\<rparr>))"

definition reap :: "(nat \<Rightarrow> u32) \<Rightarrow> nat \<Rightarrow> nat \<Rightarrow> proc \<Rightarrow> wait_result" where
  "reap tabs p c s =
     Wait_returns (to_int (pid (ptask s c)))
       (upd_ptask p (\<lambda>t. t\<lparr>pending := pending t AND NOT (sig_bit SIGCHLD)\<rparr>)
         (release_task tabs c (upd_kern (remove_task c) (unlink_child p c s))))"

fun wait_scan :: "(nat \<Rightarrow> u32) \<Rightarrow> int \<Rightarrow> nat \<Rightarrow> u32 \<Rightarrow> nat list \<Rightarrow> bool \<Rightarrow> proc \<Rightarrow> wait_result" where
  "wait_scan tabs q ptr opts [] found s = Wait_none found"
| "wait_scan tabs q ptr opts (c # cs) found s =
     (let p = cur s; t = ptask s c in
      if q > 0 \<and> pid t \<noteq> nat q then wait_scan tabs q ptr opts cs found s
      else if q = 0 \<and> pgid t \<noteq> pgid (ptask s p) then wait_scan tabs q ptr opts cs found s
      else if tstate t = TASK_ZOMBIE then write_status ptr (exit_code t) s (reap tabs p c)
      else if tstate t = TASK_STOPPED \<and> \<not> stop_reported t then
        (if opts AND WUNTRACED \<noteq> 0
         then write_status ptr (int (stop_sig t) * 256 + 0x7F) s
                (\<lambda>s. Wait_returns (to_int (pid t)) (upd_ptask c (\<lambda>t. t\<lparr>stop_reported := True\<rparr>) s))
         else wait_scan tabs q ptr opts cs True s)
      else if continued t \<and> opts AND WCONTINUED \<noteq> 0 then
        write_status ptr 0xFFFF s (\<lambda>s. Wait_returns (to_int (pid t)) (upd_ptask c (\<lambda>t. t\<lparr>continued := False\<rparr>) s))
      else wait_scan tabs q ptr opts cs True s)"

text \<open>\<open>env\<close>: the states in which the sleeping parent goes on, after it has left the wait queue.\<close>

fun sys_wait4 :: "(nat \<Rightarrow> u32) \<Rightarrow> int \<Rightarrow> nat \<Rightarrow> u32 \<Rightarrow> proc \<Rightarrow> proc list \<Rightarrow> wait_outcome" where
  "sys_wait4 tabs q ptr opts s env =
     (case wait_scan tabs q ptr opts (children (ptask s (cur s))) False s of
        Wait_returns r s \<Rightarrow> Waited r s
      | Wait_fault \<Rightarrow> Wait_page_fault
      | Wait_none found \<Rightarrow>
          if \<not> found then Waited (-ECHILD) s
          else if opts AND WNOHANG \<noteq> 0 then Waited 0 s
          else (case env of
                  [] \<Rightarrow> Wait_asleep (upd_kern (sleep_on_enter (Task_wait (cur s))) s)
                | s' # env \<Rightarrow> sys_wait4 tabs q ptr opts s' env))"

declare sys_wait4.simps [simp del]

definition sys_wait :: "(nat \<Rightarrow> u32) \<Rightarrow> nat \<Rightarrow> proc \<Rightarrow> proc list \<Rightarrow> wait_outcome" where
  "sys_wait tabs ptr s env = sys_wait4 tabs (-1) ptr 0 s env"

section \<open>Fork\<close>

text \<open>The fields that the child takes over or that are reset in it, in the order of the code.\<close>

definition fork_fields :: "task \<Rightarrow> task \<Rightarrow> task" where
  "fork_fields par t = t\<lparr>ppid := pid par, tname := tname par, cwd := cwd par, troot := troot par, next_fd := next_fd par,
     pgid := pgid par, sid := sid par, cred := cred par, rlimit_cur := rlimit_cur par, rlimit_max := rlimit_max par,
     cleartid := 0, itimer_remaining := 0, itimer_interval := 0, vtimer_remaining := 0, vtimer_interval := 0,
     ptimer_remaining := 0, ptimer_interval := 0, uticks := 0, sticks := 0,
     sig_handlers := sig_handlers par, sig_hmask := sig_hmask par, sig_hflags := sig_hflags par,
     pending := 0, blocked := 0, sig_active := False, stop_sig := 0, stop_reported := False, continued := False,
     priority := priority par\<rparr>"

definition fork_cleanup_failed :: "(nat \<Rightarrow> u32) \<Rightarrow> nat \<Rightarrow> nat \<Rightarrow> proc \<Rightarrow> proc" where
  "fork_cleanup_failed tabs p c s = release_task tabs c (unlink_child p c s)"

text \<open>
  The loops over descriptors and areas; the lists of booleans are the results of the allocations,
  which fail when the list is used up. The result tells whether the loop ran to its end.
\<close>

fun fork_fds :: "nat \<Rightarrow> bool list \<Rightarrow> fd_entry list \<Rightarrow> fstate \<Rightarrow> bool \<times> fstate" where
  "fork_fds c oks [] st = (True, st)"
| "fork_fds c [] (e # es) st = (False, st)"
| "fork_fds c (ok # oks) (e # es) st =
     (if \<not> ok then (False, st)
      else
        let st = (if fd_file e \<noteq> 0 then share_file (fd_file e) st else st);
            st = st\<lparr>kern := upd_task c (\<lambda>t. t\<lparr>files := files t @ [e]\<rparr>) (kern st)\<rparr>
        in fork_fds c oks es st)"

fun fork_vmas :: "bool list \<Rightarrow> vma list \<Rightarrow> vma list \<Rightarrow> bool \<times> vma list" where
  "fork_vmas oks [] cvs = (True, cvs)"
| "fork_vmas [] (v # vs) cvs = (False, cvs)"
| "fork_vmas (ok # oks) (v # vs) cvs =
     (case vma_create ok (vm_start v) (vm_end v) (vm_flags v) (vm_type v) of
        None \<Rightarrow> (False, cvs)
      | Some cv \<Rightarrow> fork_vmas oks vs
          (insert_vma (cv\<lparr>vm_fd := vm_fd v, vm_file_off := vm_file_off v, vm_shared := vm_shared v\<rparr>) cvs))"

record fork_env =
  struct_ok :: bool
  new_stack :: u32
  new_pgd :: u32
  boot_pgd :: "nat \<Rightarrow> u32"
  fd_oks :: "bool list"
  vma_oks :: "bool list"
  copy_pages :: "u32 list"

definition fork_memory :: "(nat \<Rightarrow> u32) \<Rightarrow> fork_env \<Rightarrow> nat \<Rightarrow> proc \<Rightarrow> int \<times> proc" where
  "fork_memory tabs e c s =
     (let p = cur s in
      case fork_vmas (vma_oks e) (pvmas s p) [] of (ok, vs) \<Rightarrow>
      let s = s\<lparr>pvmas := (pvmas s)(c := vs)\<rparr> in
      if \<not> ok then (-1, fork_cleanup_failed tabs p c s)
      else (case arch_mm_copy_user (spaces s p) \<lparr>child = spaces s c, phys = ram s, fresh_pages = copy_pages e\<rparr> of
          Inl cs \<Rightarrow> (-1, fork_cleanup_failed tabs p c (s\<lparr>spaces := (spaces s)(c := copy_state.child cs), ram := phys cs\<rparr>))
        | Inr cs \<Rightarrow>
            let s = s\<lparr>spaces := (spaces s)(c := copy_state.child cs), ram := phys cs\<rparr>;
                s = upd_ptask c (\<lambda>t. t\<lparr>mm := (mm (ptask s p))\<lparr>pgd_phys := pgd_phys (mm t)\<rparr>, tstate := TASK_READY\<rparr>) s
            in (to_int (pid (ptask s c)), upd_kern (add_task c) s)))"

definition sys_fork :: "(nat \<Rightarrow> u32) \<Rightarrow> fork_env \<Rightarrow> proc \<Rightarrow> int \<times> proc" where
  "sys_fork tabs e s =
     (let p = cur s in
      case alloc_task (struct_ok e) (new_stack e) (new_pgd e) (pkern s) of
        (None, k) \<Rightarrow> (-ENOMEM, upd_kern (\<lambda>_. k) s)
      | (Some c, k) \<Rightarrow>
          let s = (upd_kern (\<lambda>_. k) s)\<lparr>pvmas := (pvmas s)(c := []), spaces := (spaces s)(c := arch_mm_init (boot_pgd e))\<rparr>;
              s = upd_ptask c (fork_fields (ptask s p)) s;
              s = upd_ptask p (\<lambda>t. t\<lparr>children := children t @ [c]\<rparr>) s
          in (case fork_fds c (fd_oks e) (files (ptask s p)) (pfs s) of
                (ok, st) \<Rightarrow>
                  let s = s\<lparr>pfs := st\<rparr>
                  in if \<not> ok then (-1, fork_cleanup_failed tabs p c s) else fork_memory tabs e c s))"

section \<open>Sleeping for a time\<close>

datatype sleep_outcome = Slept int proc | Sleep_fault | Still_asleep proc

text \<open>\<open>env\<close>: the tick count and the state each time the sleeper has been woken.\<close>

fun nanosleep_loop :: "nat \<Rightarrow> nat \<Rightarrow> (proc \<Rightarrow> sleep_outcome) \<Rightarrow> proc \<Rightarrow> (nat \<times> proc) list \<Rightarrow> sleep_outcome" where
  "nanosleep_loop target now finish s [] =
     (if now < target then Still_asleep (upd_kern (sleep_on_enter Timer_wq) s) else finish s)"
| "nanosleep_loop target now finish s ((now', s') # env) =
     (if now < target then
        (if pending (ptask s' (cur s')) \<noteq> 0 then Slept (-EINTR) s' else nanosleep_loop target now' finish s' env)
      else finish s)"

definition nanosleep_ticks :: "int \<Rightarrow> int \<Rightarrow> nat" where
  "nanosleep_ticks sec nsec = w32 (w32 (nat sec * 100) + nat ((nsec + 9999999) div 10000000))"

definition sys_nanosleep :: "nat \<Rightarrow> nat \<Rightarrow> nat \<Rightarrow> proc \<Rightarrow> (nat \<times> proc) list \<Rightarrow> sleep_outcome" where
  "sys_nanosleep req rem now s env =
     (if req = 0 \<or> \<not> valid_user_pointer (spaces s (cur s)) req 8 then Slept (-EFAULT) s
      else (case get_user (spaces s (cur s), ram s) req 8 of
          None \<Rightarrow> Sleep_fault
        | Some None \<Rightarrow> Slept (-EFAULT) s
        | Some (Some bs) \<Rightarrow>
            let sec = sint (word_of (take 4 bs)); nsec = sint (word_of (drop 4 bs)) in
            if sec < 0 \<or> nsec < 0 \<or> nsec \<ge> 1000000000 then Slept (-EINVAL) s
            else nanosleep_loop (w32 (now + nanosleep_ticks sec nsec)) now
              (\<lambda>s. if rem \<noteq> 0 \<and> valid_user_pointer (spaces s (cur s)) rem 8 then
                      (case put_user (spaces s (cur s), ram s) rem (bytes_of 0 @ bytes_of 0) of
                         None \<Rightarrow> Sleep_fault
                       | Some (ok, u) \<Rightarrow> Slept 0 (s\<lparr>ram := snd u\<rparr>))
                    else Slept 0 s) s env))"

section \<open>Job control and user ids\<close>

definition sys_setpgid :: "int \<Rightarrow> int \<Rightarrow> kernel \<Rightarrow> int \<times> kernel" where
  "sys_setpgid q g k =
     (let p = current k in
      if g < 0 then (-EINVAL, k)
      else
        let set_group = (\<lambda>t. (0::int, upd_task t (\<lambda>x. x\<lparr>pgid := (if g = 0 then pid x else nat g)\<rparr>) k))
        in if q \<noteq> 0 \<and> q \<noteq> to_int (pid (tsk k p)) then
             (case find_task_by_pid (unat (word_of_int q :: u32)) k of
                None \<Rightarrow> (-ESRCH, k)
              | Some t \<Rightarrow> if ppid (tsk k t) \<noteq> pid (tsk k p) then (-EPERM, k) else set_group t)
           else set_group p)"

definition sys_getpgid :: "int \<Rightarrow> kernel \<Rightarrow> int" where
  "sys_getpgid q k =
     (if q \<noteq> 0 then (case find_task_by_pid (unat (word_of_int q :: u32)) k of
          None \<Rightarrow> -ESRCH | Some t \<Rightarrow> to_int (pgid (tsk k t)))
      else to_int (pgid (tsk k (current k))))"

definition sys_getpgrp :: "kernel \<Rightarrow> int" where
  "sys_getpgrp k = to_int (pgid (tsk k (current k)))"

definition sys_setsid :: "kernel \<Rightarrow> int \<times> kernel" where
  "sys_setsid k =
     (let p = current k; t = tsk k p in
      if pgid t = pid t then (-EPERM, k)
      else (to_int (pid t), upd_task p (\<lambda>t. t\<lparr>sid := pid t, pgid := pid t\<rparr>) k))"

definition sys_getsid :: "int \<Rightarrow> kernel \<Rightarrow> int" where
  "sys_getsid q k =
     (if q \<noteq> 0 then (case find_task_by_pid (unat (word_of_int q :: u32)) k of
          None \<Rightarrow> -ESRCH | Some t \<Rightarrow> to_int (sid (tsk k t)))
      else to_int (sid (tsk k (current k))))"

definition sys_setuid :: "nat \<Rightarrow> creds \<Rightarrow> int \<times> creds" where
  "sys_setuid u c =
     (if euid c \<noteq> 0 \<and> u \<noteq> uid c \<and> u \<noteq> euid c then (-EPERM, c) else (0, c\<lparr>uid := u, euid := u\<rparr>))"

definition sys_setgid :: "nat \<Rightarrow> creds \<Rightarrow> int \<times> creds" where
  "sys_setgid g c =
     (if egid c \<noteq> 0 \<and> g \<noteq> gid c \<and> g \<noteq> egid c then (-EPERM, c) else (0, c\<lparr>gid := g, egid := g\<rparr>))"

definition sys_umask :: "u32 \<Rightarrow> creds \<Rightarrow> int \<times> creds" where
  "sys_umask m c = (sint (umask c), c\<lparr>umask := m AND 0x1FF\<rparr>)"

end
