(* ===== verification/Exec.thy ===== *)
theory Exec
  imports Signal
begin

text \<open>
  The argument block of a new program, \<^verbatim>\<open>copy_exec_strings\<close> and \<^verbatim>\<open>setup_initial_stack\<close> of
  \<^verbatim>\<open>kernel/process.c\<close>. A string table keeps the offsets of its strings instead of pointers; the fixed array
  is the list of the bytes used, so \<^verbatim>\<open>count\<close> and \<^verbatim>\<open>data_len\<close> are the lengths. The two pages of the stack are
  a function from byte offsets. A result \<open>None\<close> of a copy is a page fault in the kernel, \<open>Some None\<close> the error -1.
\<close>

section \<open>String tables\<close>

definition EXEC_MAX_ARGS :: nat where "EXEC_MAX_ARGS = 32"
definition EXEC_MAX_STR :: nat where "EXEC_MAX_STR = 128"
definition EXEC_MAX_DATA :: nat where "EXEC_MAX_DATA = 1024"

record exec_strings =
  ptrs :: "nat list"
  data :: "u8 list"

definition no_strings :: exec_strings where
  "no_strings = \<lparr>ptrs = [], data = []\<rparr>"

text \<open>The bytes of one user string, at most so many, without the terminator.\<close>

fun exec_string :: "user_mem \<Rightarrow> nat \<Rightarrow> nat \<Rightarrow> u8 list option option" where
  "exec_string u a 0 = Some (Some [])"
| "exec_string u a (Suc n) =
     (case get_user u a 1 of
        Some (Some bs) \<Rightarrow>
          if hd bs = 0 then Some (Some [])
          else (case exec_string u (w32 (a + 1)) n of Some (Some cs) \<Rightarrow> Some (Some (hd bs # cs)) | r \<Rightarrow> r)
      | r \<Rightarrow> r)"

fun exec_strings_loop :: "user_mem \<Rightarrow> nat \<Rightarrow> nat \<Rightarrow> exec_strings \<Rightarrow> exec_strings option option" where
  "exec_strings_loop u a 0 out = Some (Some out)"
| "exec_strings_loop u a (Suc n) out =
     (case get_user u a 4 of
        None \<Rightarrow> None
      | Some None \<Rightarrow> Some None
      | Some (Some bs) \<Rightarrow>
          if word_of bs = 0 then Some (Some out)
          else (case exec_string u (unat (word_of bs)) (EXEC_MAX_STR - 1) of
              None \<Rightarrow> None
            | Some None \<Rightarrow> Some None
            | Some (Some cs) \<Rightarrow>
                if length (data out) + (length cs + 1) > EXEC_MAX_DATA then Some None
                else exec_strings_loop u (w32 (a + 4)) n
                       \<lparr>ptrs = ptrs out @ [length (data out)], data = data out @ cs @ [0]\<rparr>))"

lemma exec_string_pos:
  "0 < n \<Longrightarrow> exec_string u a n = (case get_user u a 1 of
     Some (Some bs) \<Rightarrow> if hd bs = 0 then Some (Some [])
       else (case exec_string u (w32 (a + 1)) (n - 1) of Some (Some cs) \<Rightarrow> Some (Some (hd bs # cs)) | r \<Rightarrow> r)
   | r \<Rightarrow> r)"
  by (cases n) (simp, simp only: exec_string.simps diff_Suc_1)

lemma exec_loop_pos:
  "0 < n \<Longrightarrow> exec_strings_loop u a n out = (case get_user u a 4 of
        None \<Rightarrow> None
      | Some None \<Rightarrow> Some None
      | Some (Some bs) \<Rightarrow>
          if word_of bs = 0 then Some (Some out)
          else (case exec_string u (unat (word_of bs)) (EXEC_MAX_STR - 1) of
              None \<Rightarrow> None
            | Some None \<Rightarrow> Some None
            | Some (Some cs) \<Rightarrow>
                if length (data out) + (length cs + 1) > EXEC_MAX_DATA then Some None
                else exec_strings_loop u (w32 (a + 4)) (n - 1)
                       \<lparr>ptrs = ptrs out @ [length (data out)], data = data out @ cs @ [0]\<rparr>))"
  by (cases n) (simp, simp only: exec_strings_loop.simps diff_Suc_1)

definition copy_exec_strings :: "user_mem \<Rightarrow> nat \<Rightarrow> exec_strings option option" where
  "copy_exec_strings u a =
     (if a = 0 then Some (Some no_strings) else exec_strings_loop u a (EXEC_MAX_ARGS - 1) no_strings)"

text \<open>The default argument vector, the path alone.\<close>

definition default_argv :: "u8 list \<Rightarrow> exec_strings \<Rightarrow> exec_strings" where
  "default_argv path argv = (if ptrs argv = [] then \<lparr>ptrs = [0], data = path @ [0]\<rparr> else argv)"

section \<open>The initial stack\<close>

definition put_bytes :: "nat \<Rightarrow> u8 list \<Rightarrow> (nat \<Rightarrow> u8) \<Rightarrow> nat \<Rightarrow> u8" where
  "put_bytes off bs m a = (if off \<le> a \<and> a < off + length bs then bs ! (a - off) else m a)"

text \<open>The pointer block: the argument count, the arguments, a null, the environment, a null.\<close>

definition pointer_block :: "nat \<Rightarrow> exec_strings \<Rightarrow> exec_strings \<Rightarrow> u32 list" where
  "pointer_block str_va argv envp =
     [word_of_nat (length (ptrs argv))] @ map (\<lambda>p. word_of_nat (str_va + p)) (ptrs argv) @ [0]
     @ map (\<lambda>p. word_of_nat (str_va + length (data argv) + p)) (ptrs envp) @ [0]"

definition setup_initial_stack :: "nat \<Rightarrow> exec_strings \<Rightarrow> exec_strings \<Rightarrow> (nat \<Rightarrow> u8) \<Rightarrow> (nat \<times> (nat \<Rightarrow> u8)) option" where
  "setup_initial_stack stack_vaddr argv envp m =
     (let str_bytes = w32 (length (data argv) + length (data envp));
          ptr_bytes = w32 (4 * (length (ptrs argv) + length (ptrs envp) + 3))
      in if w32 (str_bytes + ptr_bytes + 16) > 8192 then None
         else
           let str_va = sub32 (unat USER_STACK_TOP) str_bytes;
               esp0 = sub32 str_va ptr_bytes - sub32 str_va ptr_bytes mod 16;
               m = put_bytes (sub32 str_va stack_vaddr) (data argv) m;
               m = put_bytes (sub32 str_va stack_vaddr + length (data argv)) (data envp) m;
               m = put_bytes (sub32 esp0 stack_vaddr) (concat (map bytes_of (pointer_block str_va argv envp))) m
           in Some (esp0, m))"

section \<open>What the tables hold\<close>

text \<open>The strings a table stands for, packed one after the other with their terminators.\<close>

definition packed :: "u8 list list \<Rightarrow> exec_strings \<Rightarrow> bool" where
  "packed strs es \<longleftrightarrow> data es = concat (map (\<lambda>s. s @ [0]) strs) \<and>
     ptrs es = map (\<lambda>i. length (concat (map (\<lambda>s. s @ [0]) (take i strs)))) [0..<length strs]"

lemma packed_Nil [simp]: "packed [] no_strings"
  by (simp add: packed_def no_strings_def)

lemma packed_snoc:
  "packed strs es \<Longrightarrow> packed (strs @ [s]) \<lparr>ptrs = ptrs es @ [length (data es)], data = data es @ s @ [0]\<rparr>"
  by (auto simp: packed_def intro!: map_cong)

lemma packed_count: "packed strs es \<Longrightarrow> length (ptrs es) = length strs"
  by (simp add: packed_def)

lemma exec_string_facts:
  "exec_string u a n = Some (Some cs) \<Longrightarrow> 0 \<notin> set cs \<and> length cs \<le> n"
  by (induction u a n arbitrary: cs rule: exec_string.induct) (auto split: option.splits if_splits)

text \<open>
  The strings of a user vector: the table of pointers, each with the string it points to, up to a null pointer or
  \<open>n\<close> entries.
\<close>

definition vector_upto :: "user_mem \<Rightarrow> nat \<Rightarrow> nat \<Rightarrow> u8 list list \<Rightarrow> bool" where
  "vector_upto u a n strs \<longleftrightarrow> (\<forall>i < length strs. \<exists>bs. get_user u (w32 (a + 4 * i)) 4 = Some (Some bs) \<and> word_of bs \<noteq> 0 \<and>
     exec_string u (unat (word_of bs)) (EXEC_MAX_STR - 1) = Some (Some (strs ! i))) \<and>
     (length strs < n \<longrightarrow> (\<exists>bs. get_user u (w32 (a + 4 * length strs)) 4 = Some (Some bs) \<and> word_of bs = 0))"

definition user_strings :: "user_mem \<Rightarrow> nat \<Rightarrow> u8 list list \<Rightarrow> bool" where
  "user_strings u a = vector_upto u a (EXEC_MAX_ARGS - 1)"

lemma w32_add: "w32 (w32 a + b) = w32 (a + b)"
  by (simp add: w32_def mod_simps)

lemma exec_loop_packed:
  "exec_strings_loop u a n out = Some (Some es) \<Longrightarrow> packed strs out \<Longrightarrow> length (data out) \<le> EXEC_MAX_DATA \<Longrightarrow> w32 a = a \<Longrightarrow>
   \<exists>new. packed (strs @ new) es \<and> length new \<le> n \<and> length (data es) \<le> EXEC_MAX_DATA \<and> vector_upto u a n new \<and>
     (\<forall>s \<in> set new. 0 \<notin> set s \<and> length s < EXEC_MAX_STR)"
proof (induction u a n out arbitrary: strs rule: exec_strings_loop.induct)
  case (1 u a out)
  then show ?case by (intro exI [of _ "[]"]) (simp add: vector_upto_def)
next
  case (2 u a n out)
  obtain bs where bs: "get_user u a 4 = Some (Some bs)" using "2.prems"(1) by (auto split: option.splits)
  show ?case
  proof (cases "word_of bs = 0")
    case True
    then show ?thesis using "2.prems" bs by (intro exI [of _ "[]"]) (simp add: vector_upto_def)
  next
    case False
    then obtain cs where cs: "exec_string u (unat (word_of bs)) (EXEC_MAX_STR - 1) = Some (Some cs)"
        "length (data out) + (length cs + 1) \<le> EXEC_MAX_DATA"
        "exec_strings_loop u (w32 (a + 4)) n \<lparr>ptrs = ptrs out @ [length (data out)], data = data out @ cs @ [0]\<rparr> = Some (Some es)"
      using "2.prems"(1) bs by (auto split: option.splits if_splits)
    have "\<exists>new. packed ((strs @ [cs]) @ new) es \<and> length new \<le> n \<and> length (data es) \<le> EXEC_MAX_DATA \<and>
        vector_upto u (w32 (a + 4)) n new \<and> (\<forall>s \<in> set new. 0 \<notin> set s \<and> length s < EXEC_MAX_STR)"
      by (rule "2.IH" [OF bs refl False cs(1) refl]) (use cs packed_snoc [OF "2.prems"(2)] in \<open>simp_all add: w32_def\<close>)
    then obtain new where new: "packed (strs @ cs # new) es" "length new \<le> n" "length (data es) \<le> EXEC_MAX_DATA"
        "vector_upto u (w32 (a + 4)) n new" "\<forall>s \<in> set new. 0 \<notin> set s \<and> length s < EXEC_MAX_STR" by auto
    have "vector_upto u a (Suc n) (cs # new)"
      unfolding vector_upto_def
    proof (intro conjI allI impI)
      assume "length (cs # new) < Suc n"
      then show "\<exists>bs. get_user u (w32 (a + 4 * length (cs # new))) 4 = Some (Some bs) \<and> word_of bs = 0"
        using new(4) by (simp add: vector_upto_def w32_add add.assoc)
    next
      fix i assume i: "i < length (cs # new)"
      show "\<exists>bs. get_user u (w32 (a + 4 * i)) 4 = Some (Some bs) \<and> word_of bs \<noteq> 0 \<and>
          exec_string u (unat (word_of bs)) (EXEC_MAX_STR - 1) = Some (Some ((cs # new) ! i))"
      proof (cases i)
        case 0
        then show ?thesis using bs False cs(1) "2.prems"(4) by simp
      next
        case (Suc j)
        then show ?thesis using new(4) i by (simp add: vector_upto_def w32_add add.assoc)
      qed
    qed
    moreover have "0 \<notin> set cs \<and> length cs < EXEC_MAX_STR"
      using exec_string_facts [OF cs(1)] by (auto simp: EXEC_MAX_STR_def)
    ultimately show ?thesis using new by (intro exI [of _ "cs # new"]) simp
  qed
qed

lemma copy_exec_strings_packed:
  assumes "copy_exec_strings u a = Some (Some es)" "a < 4294967296"
  obtains strs where "packed strs es" "length strs < EXEC_MAX_ARGS" "length (data es) \<le> EXEC_MAX_DATA" "a \<noteq> 0 \<Longrightarrow> user_strings u a strs"
    "\<And>s. s \<in> set strs \<Longrightarrow> 0 \<notin> set s \<and> length s < EXEC_MAX_STR"
proof (cases "a = 0")
  case True
  then show ?thesis using assms by (intro that [of "[]"]) (auto simp: copy_exec_strings_def EXEC_MAX_ARGS_def no_strings_def packed_def)
next
  case False
  then have "exec_strings_loop u a (EXEC_MAX_ARGS - 1) no_strings = Some (Some es)" using assms(1) by (simp add: copy_exec_strings_def)
  from exec_loop_packed [OF this packed_Nil] assms(2) obtain strs where "packed strs es" "length strs \<le> EXEC_MAX_ARGS - 1"
      "length (data es) \<le> EXEC_MAX_DATA" "user_strings u a strs" "\<forall>s \<in> set strs. 0 \<notin> set s \<and> length s < EXEC_MAX_STR"
    by (auto simp: no_strings_def user_strings_def)
  then show ?thesis by (intro that [of strs]) (auto simp: EXEC_MAX_ARGS_def)
qed

lemma packed_nth:
  assumes "packed strs es" "i < length strs" "j \<le> length (strs ! i)"
  shows "ptrs es ! i + j < length (data es)" "data es ! (ptrs es ! i + j) = (strs ! i @ [0]) ! j"
proof -
  let ?f = "\<lambda>s. s @ [0 :: u8]"
  have p: "ptrs es ! i = length (concat (map ?f (take i strs)))" using assms(1,2) by (simp add: packed_def)
  have d: "data es = concat (map ?f (take i strs)) @ ?f (strs ! i) @ concat (map ?f (drop (Suc i) strs))"
    using assms(1) by (subst (asm) id_take_nth_drop [OF assms(2)], simp add: packed_def)
  have j: "j < length (?f (strs ! i))" using assms(3) by simp
  show "ptrs es ! i + j < length (data es)" unfolding p d using assms(3) by simp
  show "data es ! (ptrs es ! i + j) = (strs ! i @ [0]) ! j" unfolding p d nth_append_length_plus using j by (simp add: nth_append)
qed

section \<open>Reading the block back\<close>

lemma put_bytes_in: "off \<le> a \<Longrightarrow> a < off + length bs \<Longrightarrow> put_bytes off bs m a = bs ! (a - off)"
  by (simp add: put_bytes_def)

lemma nth_replaced:
  assumes "a + length t = b" "b \<le> length d" "k < length d"
  shows "(take a d @ t @ drop b d) ! k = (if a \<le> k \<and> k < b then t ! (k - a) else d ! k)"
  using assms by (auto simp: nth_append not_less)

lemma put_bytes_out: "a < off \<or> off + length bs \<le> a \<Longrightarrow> put_bytes off bs m a = m a"
  by (auto simp: put_bytes_def)

lemma word_of_bytes_of: "word_of (bytes_of w) = w"
proof (rule bit_word_eqI)
  fix n assume "n < LENGTH(32)"
  then consider "n < 8" | "8 \<le> n" "n < 16" | "16 \<le> n" "n < 24" | "24 \<le> n" "n < 32" by fastforce
  then show "bit (word_of (bytes_of w)) n = bit w n"
    by cases (auto simp: word_of_def bytes_of_def bit_simps)
qed

definition stack_word :: "(nat \<Rightarrow> u8) \<Rightarrow> nat \<Rightarrow> u32" where
  "stack_word m off = word_of [m off, m (off + 1), m (off + 2), m (off + 3)]"

lemma length_words: "length (concat (map bytes_of ws)) = 4 * length ws"
  by (induction ws) (simp_all add: bytes_of_def)

lemma nth_words: "i < length ws \<Longrightarrow> k < 4 \<Longrightarrow> concat (map bytes_of ws) ! (4 * i + k) = bytes_of (ws ! i) ! k"
proof (induction ws arbitrary: i)
  case (Cons w ws)
  have l: "length (bytes_of w) = 4" by (simp add: bytes_of_def)
  show ?case
  proof (cases i)
    case 0
    then show ?thesis using Cons.prems l by (simp add: nth_append)
  next
    case (Suc j)
    then show ?thesis using Cons l by (simp add: nth_append)
  qed
qed simp

lemma stack_word_put:
  assumes "i < length ws" "off = start + 4 * i"
  shows "stack_word (put_bytes start (concat (map bytes_of ws)) m) off = ws ! i"
proof -
  have "put_bytes start (concat (map bytes_of ws)) m (off + k) = bytes_of (ws ! i) ! k" if "k < 4" for k
  proof -
    have "4 * i + k < 4 * length ws" using assms(1) that by simp
    then show ?thesis using nth_words [OF assms(1) that] assms(2) by (simp add: put_bytes_in length_words add.assoc)
  qed
  from this [of 0] this [of 1] this [of 2] this [of 3]
  have "stack_word (put_bytes start (concat (map bytes_of ws)) m) off = word_of [bytes_of (ws ! i) ! 0, bytes_of (ws ! i) ! 1, bytes_of (ws ! i) ! 2, bytes_of (ws ! i) ! 3]"
    by (simp add: stack_word_def)
  also have "\<dots> = word_of (bytes_of (ws ! i))" by (simp add: bytes_of_def numeral_eq_Suc)
  finally show ?thesis by (simp add: word_of_bytes_of)
qed

definition string_at :: "(nat \<Rightarrow> u8) \<Rightarrow> nat \<Rightarrow> u8 list \<Rightarrow> bool" where
  "string_at m off s \<longleftrightarrow> (\<forall>j < length s. m (off + j) = s ! j) \<and> m (off + length s) = 0"

lemma string_at_packed:
  assumes "packed strs es" "i < length strs" "\<And>k. k < length (data es) \<Longrightarrow> m (start + k) = data es ! k"
  shows "string_at m (start + ptrs es ! i) (strs ! i)"
proof -
  have "m (start + (ptrs es ! i + j)) = (strs ! i @ [0]) ! j" if "j \<le> length (strs ! i)" for j
    using assms(3) packed_nth [OF assms(1,2) that] by simp
  then show ?thesis by (simp add: string_at_def add.assoc nth_append)
qed

section \<open>The argument block\<close>

definition block_fits :: "exec_strings \<Rightarrow> exec_strings \<Rightarrow> bool" where
  "block_fits argv envp \<longleftrightarrow>
     length (data argv) + length (data envp) + 4 * (length (ptrs argv) + length (ptrs envp) + 3) + 16 \<le> 8192"

lemma tables_fit:
  "length (ptrs argv) < EXEC_MAX_ARGS \<Longrightarrow> length (ptrs envp) < EXEC_MAX_ARGS \<Longrightarrow> length (data argv) \<le> EXEC_MAX_DATA \<Longrightarrow>
   length (data envp) \<le> EXEC_MAX_DATA \<Longrightarrow> block_fits argv envp"
  by (simp add: block_fits_def EXEC_MAX_ARGS_def EXEC_MAX_DATA_def)

lemma pointer_block_nth:
  "length (pointer_block v argv envp) = length (ptrs argv) + length (ptrs envp) + 3"
  "pointer_block v argv envp ! 0 = word_of_nat (length (ptrs argv))"
  "i < length (ptrs argv) \<Longrightarrow> pointer_block v argv envp ! (1 + i) = word_of_nat (v + ptrs argv ! i)"
  "pointer_block v argv envp ! (1 + length (ptrs argv)) = 0"
  "i < length (ptrs envp) \<Longrightarrow> pointer_block v argv envp ! (2 + length (ptrs argv) + i) = word_of_nat (v + length (data argv) + ptrs envp ! i)"
  "pointer_block v argv envp ! (2 + length (ptrs argv) + length (ptrs envp)) = 0"
  by (simp_all add: pointer_block_def nth_append)

text \<open>Where everything goes, in offsets from the start of the two pages.\<close>

definition strings_off :: "exec_strings \<Rightarrow> exec_strings \<Rightarrow> nat" where
  "strings_off argv envp = 8192 - (length (data argv) + length (data envp))"

definition block_off :: "exec_strings \<Rightarrow> exec_strings \<Rightarrow> nat" where
  "block_off argv envp = (strings_off argv envp - 4 * (length (ptrs argv) + length (ptrs envp) + 3)) div 16 * 16"

lemma setup_exact:
  assumes "block_fits argv envp"
  shows "setup_initial_stack 0xBFFFE000 argv envp m = Some (0xBFFFE000 + block_off argv envp,
    put_bytes (block_off argv envp) (concat (map bytes_of (pointer_block (0xBFFFE000 + strings_off argv envp) argv envp)))
      (put_bytes (strings_off argv envp + length (data argv)) (data envp) (put_bytes (strings_off argv envp) (data argv) m)))"
    "block_off argv envp + 4 * (length (ptrs argv) + length (ptrs envp) + 3) \<le> strings_off argv envp"
    "strings_off argv envp + length (data argv) + length (data envp) = 8192"
proof -
  let ?S = "length (data argv) + length (data envp)" and ?P = "4 * (length (ptrs argv) + length (ptrs envp) + 3)"
  have f: "?S + ?P + 16 \<le> 8192" using assms by (simp add: block_fits_def)
  then have w: "w32 ?S = ?S" "w32 ?P = ?P" "w32 (?S + ?P + 16) = ?S + ?P + 16" by simp_all
  have top: "unat USER_STACK_TOP = 3221225472" by (simp add: USER_STACK_TOP_def)
  have v: "sub32 3221225472 ?S = 0xBFFFE000 + strings_off argv envp" using f by (simp add: strings_off_def)
  have e: "sub32 (0xBFFFE000 + strings_off argv envp) ?P = 0xBFFFE000 + (strings_off argv envp - ?P)"
    using f by (simp add: strings_off_def)
  have al: "(0xBFFFE000 + x) - (0xBFFFE000 + x) mod 16 = 0xBFFFE000 + x div 16 * 16" for x :: nat
  proof -
    have "0xBFFFE000 + x = 16 * 201326080 + x" by simp
    then have "(0xBFFFE000 + x) mod 16 = x mod 16" by (metis mod_mult_self4)
    then show ?thesis by (simp add: minus_mod_eq_div_mult [symmetric])
  qed
  have b: "sub32 (0xBFFFE000 + x) 0xBFFFE000 = x" if "x \<le> 8192" for x using that by simp
  have le: "?P \<le> strings_off argv envp" and so: "strings_off argv envp + length (data argv) + length (data envp) = 8192"
    using f by (simp_all add: strings_off_def)
  have bo: "block_off argv envp < 8192" "block_off argv envp + ?P \<le> strings_off argv envp"
  proof -
    have "block_off argv envp \<le> strings_off argv envp - ?P" unfolding block_off_def by (rule div_times_less_eq_dividend)
    then show *: "block_off argv envp + ?P \<le> strings_off argv envp" using le by linarith
    have "0 < ?P" by simp
    then show "block_off argv envp < 8192" using * so by linarith
  qed
  show "setup_initial_stack 0xBFFFE000 argv envp m = Some (0xBFFFE000 + block_off argv envp,
    put_bytes (block_off argv envp) (concat (map bytes_of (pointer_block (0xBFFFE000 + strings_off argv envp) argv envp)))
      (put_bytes (strings_off argv envp + length (data argv)) (data envp) (put_bytes (strings_off argv envp) (data argv) m)))"
    unfolding setup_initial_stack_def Let_def w top v e al block_off_def [symmetric]
    using f b [of "strings_off argv envp"] b [of "block_off argv envp"] so bo(1) by simp
  show "block_off argv envp + ?P \<le> strings_off argv envp" by (rule bo(2))
  show "strings_off argv envp + length (data argv) + length (data envp) = 8192" by (rule so)
qed

lemma block_layout:
  assumes "packed as argv" "packed es envp" "block_fits argv envp"
  shows "\<exists>esp m'. setup_initial_stack 0xBFFFE000 argv envp m = Some (esp, m') \<and> esp mod 16 = 0 \<and> 0xBFFFE000 \<le> esp \<and>
    (\<forall>x. 8192 \<le> x \<longrightarrow> m' x = m x) \<and>
    (\<forall>k < length (data argv) + length (data envp). m' (strings_off argv envp + k) = (data argv @ data envp) ! k) \<and>
    (let w = \<lambda>n. stack_word m' (esp - 0xBFFFE000 + 4 * n) in
      w 0 = word_of_nat (length as) \<and>
      (\<forall>i < length as. string_at m' (unat (w (1 + i)) - 0xBFFFE000) (as ! i)) \<and> w (1 + length as) = 0 \<and>
      (\<forall>i < length es. string_at m' (unat (w (2 + length as + i)) - 0xBFFFE000) (es ! i)) \<and> w (2 + length as + length es) = 0)"
proof -
  let ?v = "0xBFFFE000 + strings_off argv envp" and ?b = "block_off argv envp" and ?s = "strings_off argv envp"
  let ?ws = "pointer_block ?v argv envp" and ?A = "length (data argv)" and ?E = "length (data envp)"
  let ?m2 = "put_bytes (?s + ?A) (data envp) (put_bytes ?s (data argv) m)"
  let ?m = "put_bytes ?b (concat (map bytes_of ?ws)) ?m2"
  note ex = setup_exact [OF assms(3)]
  have n: "length (ptrs argv) = length as" "length (ptrs envp) = length es" using assms(1,2) by (simp_all add: packed_count)
  have lw: "length ?ws = length as + length es + 3" by (simp add: pointer_block_nth n)
  have up: "?m a = ?m2 a" if "?s \<le> a" for a
    using that ex(2) n by (intro put_bytes_out) (simp add: length_words lw)
  have A: "?m (?s + k) = data argv ! k" if "k < ?A" for k
    using that by (simp add: up put_bytes_out put_bytes_in)
  have E: "?m (?s + ?A + k) = data envp ! k" if "k < ?E" for k
    using that by (simp add: up put_bytes_in)
  have S: "?m (?s + k) = (data argv @ data envp) ! k" if "k < ?A + ?E" for k
  proof (cases "k < ?A")
    case False
    then show ?thesis using E [of "k - ?A"] that by (simp add: nth_append)
  qed (use A in \<open>simp add: nth_append\<close>)
  have out: "?m a = m a" if "8192 \<le> a" for a
  proof -
    have "?s \<le> a" "?s + ?A + ?E \<le> a" using that ex(3) by simp_all
    then show ?thesis using up by (simp add: put_bytes_out)
  qed
  have w: "stack_word ?m (?b + 4 * i) = ?ws ! i" if "i < length as + length es + 3" for i
    by (rule stack_word_put) (use that lw in simp_all)
  have addr: "unat (word_of_nat (?v + p) :: u32) - 0xBFFFE000 = ?s + p" if "p < ?A + ?E" for p
  proof -
    have "?v + p < 4294967296" using that ex(3) by simp
    then have "unat (word_of_nat (?v + p) :: u32) = ?v + p" by (simp only: unat_of_nat) simp
    then show ?thesis by simp
  qed
  have a: "string_at ?m (unat (stack_word ?m (?b + 4 * (1 + i))) - 0xBFFFE000) (as ! i)" if "i < length as" for i
  proof -
    have "stack_word ?m (?b + 4 * (1 + i)) = word_of_nat (?v + ptrs argv ! i)" using that n by (simp only: w pointer_block_nth)
    moreover have "ptrs argv ! i < ?A + ?E" using packed_nth(1) [OF assms(1) that, of 0] by simp
    ultimately show ?thesis using string_at_packed [OF assms(1) that, of ?m ?s] A by (simp only: addr)
  qed
  have e: "string_at ?m (unat (stack_word ?m (?b + 4 * (2 + length as + i))) - 0xBFFFE000) (es ! i)" if "i < length es" for i
  proof -
    have "stack_word ?m (?b + 4 * (2 + length as + i)) = word_of_nat (?v + ?A + ptrs envp ! i)"
    proof -
      have "stack_word ?m (?b + 4 * (2 + length as + i)) = ?ws ! (2 + length as + i)" by (rule w) (use that in simp)
      then show ?thesis using pointer_block_nth(5) [of i envp ?v argv] that unfolding n by simp
    qed
    moreover have p: "?A + ptrs envp ! i < ?A + ?E" using packed_nth(1) [OF assms(2) that, of 0] by simp
    ultimately show ?thesis
      using string_at_packed [OF assms(2) that, of ?m "?s + ?A"] E addr [OF p] by (simp add: add.assoc)
  qed
  have z: "stack_word ?m (?b + 4 * 0) = word_of_nat (length as)" "stack_word ?m (?b + 4 * (1 + length as)) = 0"
    "stack_word ?m (?b + 4 * (2 + length as + length es)) = 0"
    using w [of 0] w [of "1 + length as"] w [of "2 + length as + length es"] pointer_block_nth(2,4,6) [of ?v argv envp] unfolding n
    by simp_all
  have "?b mod 16 = 0" by (simp add: block_off_def)
  then have "(0xBFFFE000 + ?b) mod 16 = 0" by (simp add: mod_add_eq [symmetric])
  then show ?thesis
    using ex(1) [of m] out S a e z by (intro exI [of _ "0xBFFFE000 + ?b"] exI [of _ ?m]) (simp only: Let_def add_diff_cancel_left', simp)
qed

text \<open>
  C27: the argument block of a new program. Whatever argument and environment vectors \<^verbatim>\<open>copy_exec_strings\<close> has
  accepted, the block fits into the two pages and is written nowhere else, so \<^verbatim>\<open>exec\<close> never fails here
  after it has given up the old image; the stack pointer is aligned to 16 bytes and points to the argument count;
  after it come the pointers to the argument strings, a null, the pointers to the environment strings, a null; and the
  strings there are those of the caller, each cut off after 127 bytes.
\<close>

theorem exec_stack_layout:
  assumes "copy_exec_strings u a = Some (Some argv)" "copy_exec_strings u b = Some (Some envp)" "a < 4294967296" "b < 4294967296"
  shows "\<exists>as es esp m'. setup_initial_stack 0xBFFFE000 argv envp m = Some (esp, m') \<and>
    (a \<noteq> 0 \<longrightarrow> user_strings u a as) \<and> (b \<noteq> 0 \<longrightarrow> user_strings u b es) \<and>
    esp mod 16 = 0 \<and> 0xBFFFE000 \<le> esp \<and> (\<forall>x. 8192 \<le> x \<longrightarrow> m' x = m x) \<and>
    (let w = \<lambda>n. stack_word m' (esp - 0xBFFFE000 + 4 * n) in
      w 0 = word_of_nat (length as) \<and>
      (\<forall>i < length as. string_at m' (unat (w (1 + i)) - 0xBFFFE000) (as ! i)) \<and> w (1 + length as) = 0 \<and>
      (\<forall>i < length es. string_at m' (unat (w (2 + length as + i)) - 0xBFFFE000) (es ! i)) \<and> w (2 + length as + length es) = 0)"
proof -
  obtain as where A: "packed as argv" "length as < EXEC_MAX_ARGS" "length (data argv) \<le> EXEC_MAX_DATA" "a \<noteq> 0 \<Longrightarrow> user_strings u a as"
    by (rule copy_exec_strings_packed [OF assms(1,3)]) (rule that)
  obtain es where E: "packed es envp" "length es < EXEC_MAX_ARGS" "length (data envp) \<le> EXEC_MAX_DATA" "b \<noteq> 0 \<Longrightarrow> user_strings u b es"
    by (rule copy_exec_strings_packed [OF assms(2,4)]) (rule that)
  have "block_fits argv envp"
    by (rule tables_fit) (use A E in \<open>simp_all add: packed_count\<close>)
  from block_layout [OF A(1) E(1) this, of m] obtain esp m' where
    "setup_initial_stack 0xBFFFE000 argv envp m = Some (esp, m')" "esp mod 16 = 0" "0xBFFFE000 \<le> esp" "\<forall>x. 8192 \<le> x \<longrightarrow> m' x = m x"
    "let w = \<lambda>n. stack_word m' (esp - 0xBFFFE000 + 4 * n) in
      w 0 = word_of_nat (length as) \<and>
      (\<forall>i < length as. string_at m' (unat (w (1 + i)) - 0xBFFFE000) (as ! i)) \<and> w (1 + length as) = 0 \<and>
      (\<forall>i < length es. string_at m' (unat (w (2 + length as + i)) - 0xBFFFE000) (es ! i)) \<and> w (2 + length as + length es) = 0"
    by (elim exE conjE) (rule that)
  then show ?thesis using A(4) E(4) by (intro exI [of _ as] exI [of _ es] exI [of _ esp] exI [of _ m'] conjI impI)
qed

text \<open>
  signal delivery overwrites the program's strings. The trampoline goes to the fixed address
  \<^verbatim>\<open>SIGNAL_TRAMPOLINE_VA\<close>, 32 bytes below the top of the stack, which is where exec has packed the argument and
  environment strings: once they take 32 bytes, the trampoline replaces seven of them.
\<close>

theorem trampoline_overwrites_strings:
  assumes "block_fits argv envp" "32 \<le> length (data argv @ data envp)" "packed as argv" "packed es envp"
  shows "\<exists>esp m'. setup_initial_stack 0xBFFFE000 argv envp m = Some (esp, m') \<and>
    (let d = data argv @ data envp; n = length d; bytes = \<lambda>m. map m [8192 - n..<8192] in
      bytes m' = d \<and>
      bytes (put_bytes (SIGNAL_TRAMPOLINE_VA - 0xBFFFE000) trampoline m') = take (n - 32) d @ trampoline @ drop (n - 25) d)"
proof -
  let ?d = "data argv @ data envp" and ?n = "length (data argv @ data envp)"
  obtain esp m' where e: "setup_initial_stack 0xBFFFE000 argv envp m = Some (esp, m')"
    "\<And>k. k < ?n \<Longrightarrow> m' (strings_off argv envp + k) = ?d ! k"
    using block_layout [OF assms(3,4,1), of m] by auto
  have off: "SIGNAL_TRAMPOLINE_VA - 0xBFFFE000 = 8160" by (simp add: SIGNAL_TRAMPOLINE_VA_def)
  have n: "?n \<le> 8192" "strings_off argv envp = 8192 - ?n" using assms(1) by (simp_all add: block_fits_def strings_off_def)
  have nth: "map f [8192 - ?n..<8192] ! k = f (8192 - ?n + k)" "length (map f [8192 - ?n..<8192]) = ?n" if "k < ?n" for k and f :: "nat \<Rightarrow> u8"
    using that n by simp_all
  have "map m' [8192 - ?n..<8192] = ?d"
  proof (rule nth_equalityI)
    show "length (map m' [8192 - ?n..<8192]) = length ?d" using n by simp
    fix k assume "k < length (map m' [8192 - ?n..<8192])"
    then have "k < ?n" using n by simp
    then show "map m' [8192 - ?n..<8192] ! k = ?d ! k" using e(2) [of k] nth(1) unfolding n(2) by simp
  qed
  moreover have t: "length trampoline = 7" by (simp add: trampoline_def bytes_of_def)
  have "map (put_bytes (SIGNAL_TRAMPOLINE_VA - 0xBFFFE000) trampoline m') [8192 - ?n..<8192] = take (?n - 32) ?d @ trampoline @ drop (?n - 25) ?d"
  proof (rule nth_equalityI)
    show "length (map (put_bytes (SIGNAL_TRAMPOLINE_VA - 0xBFFFE000) trampoline m') [8192 - ?n..<8192]) =
        length (take (?n - 32) ?d @ trampoline @ drop (?n - 25) ?d)"
      using n assms(2) t by simp
    fix k assume "k < length (map (put_bytes (SIGNAL_TRAMPOLINE_VA - 0xBFFFE000) trampoline m') [8192 - ?n..<8192])"
    then have k: "k < ?n" using n by simp
    have "put_bytes (SIGNAL_TRAMPOLINE_VA - 0xBFFFE000) trampoline m' (8192 - ?n + k) =
        (if ?n - 32 \<le> k \<and> k < ?n - 25 then trampoline ! (k - (?n - 32)) else ?d ! k)"
    proof (cases "?n - 32 \<le> k \<and> k < ?n - 25")
      case True
      then have "8160 \<le> 8192 - ?n + k" "8192 - ?n + k < 8160 + 7" "8192 - ?n + k - 8160 = k - (?n - 32)" using n assms(2) k by linarith+
      then show ?thesis using True t by (simp only: put_bytes_def off) simp
    next
      case False
      then have "\<not> (8160 \<le> 8192 - ?n + k \<and> 8192 - ?n + k < 8160 + 7)" using n assms(2) k by linarith
      then show ?thesis using False t e(2) [OF k] unfolding n(2) by (simp only: put_bytes_def off) simp
    qed
    moreover have "(take (?n - 32) ?d @ trampoline @ drop (?n - 25) ?d) ! k =
        (if ?n - 32 \<le> k \<and> k < ?n - 25 then trampoline ! (k - (?n - 32)) else ?d ! k)"
      by (rule nth_replaced) (use assms(2) k t in simp_all)
    ultimately show "map (put_bytes (SIGNAL_TRAMPOLINE_VA - 0xBFFFE000) trampoline m') [8192 - ?n..<8192] ! k =
        (take (?n - 32) ?d @ trampoline @ drop (?n - 25) ?d) ! k"
      using nth(1) [OF k] by simp
  qed
  ultimately show ?thesis using e(1) unfolding Let_def by blast
qed

section \<open>Witnesses\<close>

text \<open>User memory with the vector of one string at address 256; the string \<^verbatim>\<open>AB\<close> is at 512.\<close>

definition demo_exec :: user_mem where
  "demo_exec = (one_page 0, (\<lambda>_. 0)(0x5101 := 2, 0x5200 := 65, 0x5201 := 66))"

lemma one_page_read: "va + n \<le> 4096 \<Longrightarrow> read_user (one_page 0) m va n = Some (map (\<lambda>i. m (0x5000 + i)) [va..<va + n])"
proof (induction n arbitrary: va)
  case (Suc n)
  have "translate (one_page 0) va = Some (0x5000 + va)"
    using Suc.prems by (simp add: translate_def one_page_lookup pte_present_def pte_frame_def)
  moreover have "[va..<va + Suc n] = va # [Suc va..<Suc va + n]" by (subst upt_conv_Cons) simp_all
  ultimately show ?case using Suc.IH [of "Suc va"] Suc.prems by simp
qed simp

lemma one_page_get:
  assumes "0 < n" "va + n \<le> 4096"
  shows "get_user (one_page 0, m) va n = Some (Some (map (\<lambda>i. m (0x5000 + i)) [va..<va + n]))"
proof -
  have "check_pages (one_page 0) va (va + n) False"
  proof (rule check_pages_intro)
    fix k assume k: "va + 4096 * k < va + n"
    then show "\<exists>pte. lookup_pte (one_page 0) (va + 4096 * k) = Some pte \<and> pte_present pte \<and> (False \<longrightarrow> pte_writable pte)"
    proof -
      have "k = 0" using k assms by simp
      then show ?thesis using assms by (simp add: one_page_lookup pte_present_def)
    qed
  qed (use assms in simp)
  then have "valid_user_pointer (one_page 0) va n"
    using assms by (simp add: valid_user_pointer_def check_user_range_def Let_def)
  then show ?thesis using one_page_read [OF assms(2)] by (simp add: get_user_def copy_from_user_def)
qed

lemma demo_exec_copy: "copy_exec_strings demo_exec 256 = Some (Some \<lparr>ptrs = [0], data = [65, 66, 0]\<rparr>)"
proof -
  have u4: "[a..<a + 4] = [a, a + 1, a + 2, a + 3]" for a :: nat by (simp add: upt_conv_Cons)
  have g4: "get_user demo_exec a 4 = Some (Some (map (\<lambda>i. snd demo_exec (0x5000 + i)) [a, a + 1, a + 2, a + 3]))" if "a + 4 \<le> 4096" for a
    using one_page_get [of 4 a "snd demo_exec"] that u4 [of a] by (simp add: demo_exec_def del: upt.simps)
  have g1: "get_user demo_exec a 1 = Some (Some [snd demo_exec (0x5000 + a)])" if "a + 1 \<le> 4096" for a
    using one_page_get [of 1 a "snd demo_exec"] that by (simp add: demo_exec_def)
  have b: "snd demo_exec (0x5000 + 512) = 65" "snd demo_exec (0x5000 + 513) = 66" "snd demo_exec (0x5000 + 514) = 0"
    "map (\<lambda>i. snd demo_exec (0x5000 + i)) [256, 256 + 1, 256 + 2, 256 + 3] = bytes_of 512"
    "map (\<lambda>i. snd demo_exec (0x5000 + i)) [260, 260 + 1, 260 + 2, 260 + 3] = bytes_of 0"
    by (simp_all add: demo_exec_def bytes_of_def)
  have "exec_string demo_exec 514 125 = Some (Some [])"
    by (subst exec_string_pos) (simp_all only: g1 b option.case list.sel, simp_all)
  then have "exec_string demo_exec 513 126 = Some (Some [66])"
    by (subst exec_string_pos) (simp_all only: g1 b option.case list.sel, simp_all)
  then have s: "exec_string demo_exec 512 127 = Some (Some [65, 66])"
    by (subst exec_string_pos) (simp_all only: g1 b option.case list.sel, simp_all)
  have "exec_strings_loop demo_exec 260 30 out = Some (Some out)" for out
    by (subst exec_loop_pos) (simp_all only: g4 b option.case word_of_bytes_of, simp_all)
  then have "exec_strings_loop demo_exec 256 31 no_strings = Some (Some \<lparr>ptrs = [0], data = [65, 66, 0]\<rparr>)"
    using s by (subst exec_loop_pos) (simp_all only: g4 b option.case word_of_bytes_of, simp_all add: EXEC_MAX_STR_def EXEC_MAX_DATA_def no_strings_def)
  then show ?thesis by (simp add: copy_exec_strings_def EXEC_MAX_ARGS_def)
qed

theorem exec_stack_layout_witness:
  "\<exists>esp m'. setup_initial_stack 0xBFFFE000 \<lparr>ptrs = [0], data = [65, 66, 0]\<rparr> no_strings (\<lambda>_. 0) = Some (esp, m') \<and> esp mod 16 = 0"
proof -
  have "copy_exec_strings demo_exec 0 = Some (Some no_strings)" by (simp add: copy_exec_strings_def)
  from exec_stack_layout [OF demo_exec_copy this, of "\<lambda>_. 0"] show ?thesis by auto
qed

theorem trampoline_overwrites_strings_witness:
  "\<exists>esp m'. setup_initial_stack 0xBFFFE000 \<lparr>ptrs = [0], data = replicate 35 65 @ [0]\<rparr> no_strings (\<lambda>_. 0) = Some (esp, m') \<and>
    put_bytes 0x1FE0 trampoline m' 0x1FE0 = 0xB8"
proof -
  have f: "block_fits \<lparr>ptrs = [0], data = replicate 35 65 @ [0]\<rparr> no_strings" by (simp add: block_fits_def no_strings_def)
  have p: "packed [replicate 35 65] \<lparr>ptrs = [0], data = replicate 35 65 @ [0]\<rparr>" by (simp add: packed_def)
  have "32 \<le> length (data \<lparr>ptrs = [0], data = replicate 35 65 @ [0]\<rparr> @ data no_strings)" by (simp add: no_strings_def)
  from trampoline_overwrites_strings [OF f this p packed_Nil, of "\<lambda>_. 0"]
  show ?thesis by (auto simp: put_bytes_def trampoline_def)
qed

end
