(* ===== verification/Elf.thy ===== *)
theory Elf
  imports Exec Vma
begin

text \<open>
  The program loader, \<^verbatim>\<open>kernel/elf.c\<close>, for the native class of the i386, ELF32, and for flat images. A file is
  its bytes together with the number that each positioned read answers, which may be short or an error; the law
  \<open>pread_ok\<close> is what the drivers promise. Memory is the \<open>copy_state\<close> of \<open>Paging\<close>: the new address space, the physical
  bytes, and the pages that \<^verbatim>\<open>page_alloc\<close> is going to return. Whether \<^verbatim>\<open>kalloc\<close> succeeds is an argument.
\<close>

section \<open>Files and headers\<close>

abbreviation (input) "ENOEXEC \<equiv> (8::int)"
abbreviation (input) "EIO \<equiv> (5::int)"

record exec_file =
  fbytes :: "u8 list"
  chunk :: "nat \<Rightarrow> nat \<Rightarrow> int"

definition pread :: "exec_file \<Rightarrow> nat \<Rightarrow> nat \<Rightarrow> int \<times> u8 list" where
  "pread f off cnt = (chunk f off cnt, take (nat (chunk f off cnt)) (drop off (fbytes f)))"

definition pread_ok :: "exec_file \<Rightarrow> bool" where
  "pread_ok f \<longleftrightarrow> (\<forall>off cnt. chunk f off cnt \<le> int cnt \<and> (0 < chunk f off cnt \<longrightarrow> off + nat (chunk f off cnt) \<le> length (fbytes f)))"

text \<open>Little-endian fields.\<close>

definition le16 :: "u8 list \<Rightarrow> nat \<Rightarrow> nat" where
  "le16 bs i = unat (bs ! i) + 256 * unat (bs ! (i + 1))"

definition le32 :: "u8 list \<Rightarrow> nat \<Rightarrow> nat" where
  "le32 bs i = le16 bs i + 65536 * le16 bs (i + 2)"

record Elf32_Ehdr =
  e_ident :: "u8 list"
  e_type :: nat
  e_machine :: nat
  e_version :: nat
  e_entry :: nat
  e_phoff :: nat
  e_shoff :: nat
  e_flags :: nat
  e_ehsize :: nat
  e_phentsize :: nat
  e_phnum :: nat
  e_shentsize :: nat
  e_shnum :: nat
  e_shstrndx :: nat

definition decode_ehdr :: "u8 list \<Rightarrow> Elf32_Ehdr" where
  "decode_ehdr bs = \<lparr>e_ident = take 16 bs, e_type = le16 bs 16, e_machine = le16 bs 18, e_version = le32 bs 20,
     e_entry = le32 bs 24, e_phoff = le32 bs 28, e_shoff = le32 bs 32, e_flags = le32 bs 36, e_ehsize = le16 bs 40,
     e_phentsize = le16 bs 42, e_phnum = le16 bs 44, e_shentsize = le16 bs 46, e_shnum = le16 bs 48, e_shstrndx = le16 bs 50\<rparr>"

record Elf32_Phdr =
  p_type :: nat
  p_offset :: nat
  p_vaddr :: nat
  p_paddr :: nat
  p_filesz :: nat
  p_memsz :: nat
  p_flags :: u32
  p_align :: nat

definition decode_phdr :: "u8 list \<Rightarrow> Elf32_Phdr" where
  "decode_phdr bs = \<lparr>p_type = le32 bs 0, p_offset = le32 bs 4, p_vaddr = le32 bs 8, p_paddr = le32 bs 12,
     p_filesz = le32 bs 16, p_memsz = le32 bs 20, p_flags = word_of_nat (le32 bs 24), p_align = le32 bs 28\<rparr>"

definition ELF_MAX_PHDRS :: nat where "ELF_MAX_PHDRS = 256"

abbreviation (input) "PF_X \<equiv> (1::u32)"
abbreviation (input) "PF_W \<equiv> (2::u32)"

definition ehdr_valid :: "nat \<Rightarrow> Elf32_Ehdr \<Rightarrow> bool" where
  "ehdr_valid file_size h \<longleftrightarrow> e_type h = 2 \<and> 52 \<le> e_ehsize h \<and> 32 \<le> e_phentsize h \<and> e_phnum h \<noteq> 0 \<and>
     e_phnum h \<le> ELF_MAX_PHDRS \<and> e_phoff h + e_phnum h * e_phentsize h \<le> file_size"

definition elf_magic :: "u8 list \<Rightarrow> bool" where
  "elf_magic bs \<longleftrightarrow> bs ! 0 = 0x7F \<and> bs ! 1 = 0x45 \<and> bs ! 2 = 0x4C \<and> bs ! 3 = 0x46"

definition elf_check_header :: "exec_file \<Rightarrow> nat \<Rightarrow> int" where
  "elf_check_header f file_size =
     (case pread f 0 16 of (n, ident) \<Rightarrow>
        if n \<noteq> 16 then -ENOEXEC
        else if \<not> elf_magic ident then -ENOEXEC
        else if ident ! 5 \<noteq> 1 then -ENOEXEC
        else if ident ! 6 \<noteq> 1 then -ENOEXEC
        else if ident ! 4 \<noteq> 1 then -ENOEXEC
        else (case pread f 0 52 of (n, bs) \<Rightarrow>
                if n \<noteq> 52 then -ENOEXEC
                else if \<not> ehdr_valid file_size (decode_ehdr bs) then -ENOEXEC else 0))"

definition exec_format_check :: "exec_file \<Rightarrow> nat \<Rightarrow> int" where
  "exec_format_check f file_size =
     (case pread f 0 4 of (n, magic) \<Rightarrow>
        if n < 0 then -EIO else if n = 4 \<and> elf_magic magic then elf_check_header f file_size else 0)"

section \<open>Segments\<close>

record elf_seg =
  vaddr :: nat
  filesz :: nat
  memsz :: nat
  offset :: nat
  flags :: u32

fun elf_segments :: "exec_file \<Rightarrow> nat \<Rightarrow> Elf32_Ehdr \<Rightarrow> nat list \<Rightarrow> elf_seg list \<Rightarrow> elf_seg list option" where
  "elf_segments f file_size h [] segs = Some segs"
| "elf_segments f file_size h (i # is) segs =
     (case pread f (w32 (e_phoff h + i * e_phentsize h)) 32 of (n, bs) \<Rightarrow>
        if n \<noteq> 32 then None
        else
          let ph = decode_phdr bs in
          if p_type ph \<noteq> 1 \<or> p_memsz ph = 0 then elf_segments f file_size h is segs
          else if p_filesz ph > p_memsz ph \<or> p_vaddr ph + p_memsz ph > unat (USER_STACK_TOP - USER_STACK_SIZE) \<or>
                  p_offset ph + p_filesz ph > file_size then None
          else elf_segments f file_size h is
                 (segs @ [\<lparr>vaddr = p_vaddr ph, filesz = p_filesz ph, memsz = p_memsz ph, offset = p_offset ph, flags = p_flags ph\<rparr>]))"

text \<open>The insertion sort in the array: \<open>shift_seg\<close> is the inner loop with the final store.\<close>

fun shift_seg :: "elf_seg list \<Rightarrow> elf_seg \<Rightarrow> nat \<Rightarrow> elf_seg list" where
  "shift_seg segs key 0 = segs[0 := key]"
| "shift_seg segs key (Suc j) =
     (if vaddr (segs ! j) > vaddr key then shift_seg (segs[Suc j := segs ! j]) key j else segs[Suc j := key])"

definition sort_segs :: "elf_seg list \<Rightarrow> elf_seg list" where
  "sort_segs segs = foldl (\<lambda>segs i. shift_seg segs (segs ! i) i) segs [1..<length segs]"

text \<open>A region is its page-aligned start and end.\<close>

definition merge_region :: "(nat \<times> nat) list \<Rightarrow> elf_seg \<Rightarrow> (nat \<times> nat) list" where
  "merge_region rs s =
     (let r_lo = page_align_down (vaddr s); r_hi = page_align (w32 (vaddr s + memsz s)) in
      if rs \<noteq> [] \<and> r_lo \<le> snd (last rs) then
        (if r_hi > snd (last rs) then butlast rs @ [(fst (last rs), r_hi)] else rs)
      else rs @ [(r_lo, r_hi)])"

definition elf_regions :: "elf_seg list \<Rightarrow> (nat \<times> nat) list" where
  "elf_regions segs = foldl merge_region [] segs"

section \<open>Loading one page\<close>

definition zero_range :: "nat \<Rightarrow> nat \<Rightarrow> (nat \<Rightarrow> u8) \<Rightarrow> nat \<Rightarrow> u8" where
  "zero_range a n m = (\<lambda>x. if a \<le> x \<and> x < a + n then 0 else m x)"

text \<open>The read loop; the boolean tells whether it came to its end.\<close>

function fill :: "exec_file \<Rightarrow> nat \<Rightarrow> nat \<Rightarrow> nat \<Rightarrow> nat \<Rightarrow> (nat \<Rightarrow> u8) \<Rightarrow> bool \<times> (nat \<Rightarrow> u8)" where
  "fill f dst foff cnt don m =
     (if don < cnt then
        (case pread f (w32 (foff + don)) (cnt - don) of (n, bs) \<Rightarrow>
           if n \<le> 0 then (False, m) else fill f dst foff cnt (don + nat n) (put_bytes (dst + don) bs m))
      else (True, m))"
  by pat_completeness auto
termination
  by (relation "measure (\<lambda>(f, dst, foff, cnt, don, m). cnt - don)") (auto simp: pread_def)

declare fill.simps [simp del]

definition copy_seg :: "exec_file \<Rightarrow> elf_seg \<Rightarrow> nat \<Rightarrow> nat \<Rightarrow> (nat \<Rightarrow> u8) \<Rightarrow> bool \<times> (nat \<Rightarrow> u8)" where
  "copy_seg f s cur pa m =
     (let s_end = w32 (vaddr s + filesz s) in
      if s_end \<le> cur \<or> vaddr s \<ge> cur + PAGE_SIZE then (True, m)
      else
        let f_lo = (if vaddr s > cur then vaddr s else cur);
            f_hi = (if s_end < cur + PAGE_SIZE then s_end else cur + PAGE_SIZE)
        in if f_hi \<le> f_lo then (True, m)
           else fill f (pa + (f_lo - cur)) (w32 (offset s + (f_lo - vaddr s))) (f_hi - f_lo) 0 m)"

fun copy_segs :: "exec_file \<Rightarrow> elf_seg list \<Rightarrow> nat \<Rightarrow> nat \<Rightarrow> (nat \<Rightarrow> u8) \<Rightarrow> bool \<times> (nat \<Rightarrow> u8)" where
  "copy_segs f [] cur pa m = (True, m)"
| "copy_segs f (s # ss) cur pa m =
     (case copy_seg f s cur pa m of (ok, m) \<Rightarrow> if \<not> ok then (False, m) else copy_segs f ss cur pa m)"

definition page_pte_flags :: "elf_seg list \<Rightarrow> nat \<Rightarrow> u32" where
  "page_pte_flags segs cur =
     (let page_flags = foldl (\<lambda>fl s. if vaddr s < cur + PAGE_SIZE \<and> w32 (vaddr s + memsz s) > cur then fl OR flags s else fl) 0 segs
      in if page_flags AND PF_W \<noteq> 0 then 7 else 5)"

text \<open>\<^verbatim>\<open>arch_mm_map_user\<close> with the allocation of a page table when one is missing.\<close>

definition map_fresh :: "nat \<Rightarrow> u32 \<Rightarrow> u32 \<Rightarrow> copy_state \<Rightarrow> int \<times> copy_state" where
  "map_fresh va pa fl c =
     (case (if pdi va < 768 \<and> page_tables (child c) (pdi va) = None then take_page c else (0, c)) of (pt, c) \<Rightarrow>
      case arch_mm_map_user (child c) va pa fl pt of (r, sp) \<Rightarrow> (r, c\<lparr>child := sp\<rparr>))"

text \<open>The result is a status, the pages given back, and the memory.\<close>

definition load_page :: "exec_file \<Rightarrow> elf_seg list \<Rightarrow> nat \<Rightarrow> copy_state \<Rightarrow> int \<times> u32 list \<times> copy_state" where
  "load_page f segs cur c =
     (case take_page c of (page, c) \<Rightarrow>
        if page = 0 then (-ENOMEM, [], c)
        else
          let pa = virt_to_phys page in
          (case copy_segs f segs cur (unat pa) (zero_range (unat pa) PAGE_SIZE (phys c)) of (ok, m) \<Rightarrow>
             let c = c\<lparr>phys := m\<rparr> in
             if \<not> ok then (-EIO, [page], c)
             else (case map_fresh cur pa (page_pte_flags segs cur) c of (r, c) \<Rightarrow>
                     if r < 0 then (-ENOMEM, [page], c) else (0, [], c))))"

function load_region :: "exec_file \<Rightarrow> elf_seg list \<Rightarrow> nat \<Rightarrow> nat \<Rightarrow> copy_state \<Rightarrow> int \<times> u32 list \<times> copy_state" where
  "load_region f segs cur hi c =
     (if cur < hi then
        (case load_page f segs cur c of (r, fr, c) \<Rightarrow>
           if r < 0 then (r, fr, c) else load_region f segs (cur + PAGE_SIZE) hi c)
      else (0, [], c))"
  by pat_completeness auto
termination
  by (relation "measure (\<lambda>(f, segs, cur, hi, c). hi - cur)") (auto simp: PAGE_SIZE_def)

declare load_region.simps [simp del]

fun load_regions :: "exec_file \<Rightarrow> elf_seg list \<Rightarrow> (nat \<times> nat) list \<Rightarrow> copy_state \<Rightarrow> int \<times> u32 list \<times> copy_state" where
  "load_regions f segs [] c = (0, [], c)"
| "load_regions f segs (r # rs) c =
     (case load_region f segs (fst r) (snd r) c of (e, fr, c) \<Rightarrow>
        if e < 0 then (e, fr, c) else load_regions f segs rs c)"

section \<open>The loaders\<close>

record exec_image =
  entry :: nat
  img_code_start :: nat
  img_code_end :: nat
  img_brk_start :: nat

record load_state =
  lmem :: copy_state
  lvmas :: "vma list"
  vma_allocs :: "bool list"
  lfreed :: "u32 list"
  limage :: exec_image

text \<open>One area per segment; an allocation fails when its answer is false or the answers are used up.\<close>

definition take_ok :: "load_state \<Rightarrow> bool \<times> load_state" where
  "take_ok st = (case vma_allocs st of [] \<Rightarrow> (False, st) | ok # oks \<Rightarrow> (ok, st\<lparr>vma_allocs := oks\<rparr>))"

definition seg_vm_flags :: "elf_seg \<Rightarrow> u32" where
  "seg_vm_flags s = VM_READ OR (if flags s AND PF_W \<noteq> 0 then VM_WRITE else 0) OR (if flags s AND PF_X \<noteq> 0 then VM_EXEC else 0)"

fun add_seg_vmas :: "elf_seg list \<Rightarrow> load_state \<Rightarrow> int \<times> load_state" where
  "add_seg_vmas [] st = (0, st)"
| "add_seg_vmas (s # ss) st =
     (case take_ok st of (ok, st) \<Rightarrow>
      case vma_create ok (vaddr s) (w32 (vaddr s + memsz s)) (seg_vm_flags s) VMA_CODE of
        None \<Rightarrow> (-ENOMEM, st)
      | Some v \<Rightarrow> add_seg_vmas ss (st\<lparr>lvmas := insert_vma v (lvmas st)\<rparr>))"

definition elf_load_common :: "exec_file \<Rightarrow> bool \<Rightarrow> elf_seg list \<Rightarrow> load_state \<Rightarrow> int \<times> load_state" where
  "elf_load_common f regions_ok segs st =
     (let segs = sort_segs segs in
      if \<not> regions_ok then (-ENOMEM, st)
      else
        let regions = elf_regions segs in
        (case load_regions f segs regions (lmem st) of (r, fr, c) \<Rightarrow>
           let st = st\<lparr>lmem := c, lfreed := lfreed st @ fr\<rparr> in
           if r < 0 then (r, st)
           else
             let min_vaddr = foldl (\<lambda>m r. if fst r < m then fst r else m) 0xFFFFFFFF regions;
                 max_end = foldl (\<lambda>m r. if snd r > m then snd r else m) 0 regions
             in if max_end = 0 then (-ENOEXEC, st)
                else (case add_seg_vmas segs st of (r, st) \<Rightarrow>
                        if r < 0 then (r, st)
                        else (0, st\<lparr>limage := (limage st)\<lparr>img_code_start := min_vaddr, img_code_end := max_end,
                                img_brk_start := (if max_end < unat USER_HEAP_START then unat USER_HEAP_START else max_end)\<rparr>\<rparr>))))"

definition elf32_load :: "exec_file \<Rightarrow> nat \<Rightarrow> bool \<Rightarrow> bool \<Rightarrow> load_state \<Rightarrow> int \<times> load_state" where
  "elf32_load f file_size segs_ok regions_ok st =
     (case pread f 0 52 of (n, bs) \<Rightarrow>
        if n \<noteq> 52 then (-ENOEXEC, st)
        else
          let h = decode_ehdr bs in
          if \<not> ehdr_valid file_size h then (-ENOEXEC, st)
          else if \<not> segs_ok then (-ENOMEM, st)
          else (case elf_segments f file_size h [0..<e_phnum h] [] of
                  None \<Rightarrow> (-ENOEXEC, st)
                | Some segs \<Rightarrow>
                    (case elf_load_common f regions_ok segs st of (r, st) \<Rightarrow>
                       if r = 0 then (0, st\<lparr>limage := (limage st)\<lparr>entry := e_entry h\<rparr>\<rparr>) else (r, st))))"

definition load_elf :: "exec_file \<Rightarrow> nat \<Rightarrow> bool \<Rightarrow> bool \<Rightarrow> load_state \<Rightarrow> int \<times> load_state" where
  "load_elf f file_size segs_ok regions_ok st =
     (let r = elf_check_header f file_size in if r < 0 then (r, st) else elf32_load f file_size segs_ok regions_ok st)"

text \<open>The flat loader reads the file page by page from its start.\<close>

fun load_flat_pages :: "exec_file \<Rightarrow> nat \<Rightarrow> nat list \<Rightarrow> nat \<Rightarrow> copy_state \<Rightarrow> int \<times> u32 list \<times> copy_state" where
  "load_flat_pages f file_size [] loaded c = (0, [], c)"
| "load_flat_pages f file_size (i # is) loaded c =
     (case take_page c of (page, c) \<Rightarrow>
        if page = 0 then (-ENOMEM, [], c)
        else
          let pa = virt_to_phys page;
              bytes_to_read = (if w32 (loaded + PAGE_SIZE) > file_size then sub32 file_size loaded else PAGE_SIZE)
          in (case fill f (unat pa) loaded bytes_to_read 0 (phys c) of (ok, m) \<Rightarrow>
                let c = c\<lparr>phys := m\<rparr> in
                if \<not> ok then (-EIO, [page], c)
                else
                  let c = c\<lparr>phys := zero_range (unat pa + bytes_to_read) (PAGE_SIZE - bytes_to_read) (phys c)\<rparr> in
                  (case map_fresh (w32 (unat USER_TEXT_START + i * PAGE_SIZE)) pa 7 c of (r, c) \<Rightarrow>
                     if r < 0 then (-ENOMEM, [page], c)
                     else load_flat_pages f file_size is (w32 (loaded + bytes_to_read)) c)))"

definition load_flat :: "exec_file \<Rightarrow> nat \<Rightarrow> load_state \<Rightarrow> int \<times> load_state" where
  "load_flat f file_size st =
     (case load_flat_pages f file_size [0..<w32 (file_size + 4095) div PAGE_SIZE] 0 (lmem st) of (r, fr, c) \<Rightarrow>
        let st = st\<lparr>lmem := c, lfreed := lfreed st @ fr\<rparr> in
        if r < 0 then (r, st)
        else
          let start = unat USER_TEXT_START; e = w32 (start + file_size);
              st = st\<lparr>limage := \<lparr>entry = start, img_code_start = start, img_code_end = e,
                     img_brk_start = (if page_align e < unat USER_HEAP_START then unat USER_HEAP_START else page_align e)\<rparr>\<rparr>
          in (case take_ok st of (ok, st) \<Rightarrow>
                case vma_create ok start (page_align e) (VM_READ OR VM_EXEC) VMA_CODE of
                  None \<Rightarrow> (-ENOMEM, st)
                | Some v \<Rightarrow> (0, st\<lparr>lvmas := insert_vma v (lvmas st)\<rparr>)))"

definition load_binary :: "exec_file \<Rightarrow> nat \<Rightarrow> bool \<Rightarrow> bool \<Rightarrow> load_state \<Rightarrow> int \<times> load_state" where
  "load_binary f file_size segs_ok regions_ok st =
     (case pread f 0 4 of (n, magic) \<Rightarrow>
        if n < 0 then (-EIO, st)
        else if n = 4 \<and> elf_magic magic then load_elf f file_size segs_ok regions_ok st
        else load_flat f file_size st)"

end
