(* ===== verification/Elf_Image.thy ===== *)
theory Elf_Image
  imports Elf "HOL-Library.Multiset"
begin

text \<open>
  The loader implements the ELF image: what the insertion sort, the merging of the regions, the copy of the file bytes
  and the page loop compute, and from these the memory of a loaded program.
\<close>

section \<open>The order of the segments\<close>

lemma sort_key_snoc:
  fixes f :: "'a \<Rightarrow> 'b::linorder"
  shows "sort_key f (xs @ [x]) = takeWhile (\<lambda>y. f y \<le> f x) (sort_key f xs) @ x # dropWhile (\<lambda>y. f y \<le> f x) (sort_key f xs)"
    (is "_ = ?tw @ x # ?dw")
proof (rule properties_for_sort_key)
  let ?p = "sort_key f xs"
  have sorted: "sorted (map f ?p)" by simp
  have split: "?tw @ ?dw = ?p" by (rule takeWhile_dropWhile_id)
  have tw: "f y \<le> f x" if "y \<in> set ?tw" for y using set_takeWhileD [OF that] by simp
  have st: "sorted (map f ?tw)" "sorted (map f ?dw)" "\<forall>a \<in> set ?tw. \<forall>b \<in> set ?dw. f a \<le> f b"
  proof -
    have "sorted (map f (?tw @ ?dw))" using sorted split by simp
    then show "sorted (map f ?tw)" "sorted (map f ?dw)" "\<forall>a \<in> set ?tw. \<forall>b \<in> set ?dw. f a \<le> f b"
      unfolding map_append sorted_append by auto
  qed
  have dw: "f x < f y" if y: "y \<in> set ?dw" for y
  proof -
    obtain z zs where z: "?dw = z # zs"
      using y by (metis empty_iff empty_set list.exhaust)
    have "f x < f z" using hd_dropWhile [of "\<lambda>y. f y \<le> f x" ?p] z by simp
    moreover have "f z \<le> f y" using st(2) y z by auto
    ultimately show ?thesis by simp
  qed
  have "mset ?tw + mset ?dw = mset xs" using arg_cong [OF split, of mset] unfolding mset_append mset_sort .
  then show "mset (?tw @ x # ?dw) = mset (xs @ [x])" by simp
  have "f a \<le> f b" if "a \<in> set ?tw" "b \<in> set (x # ?dw)" for a b using tw [OF that(1)] st(3) that by auto
  moreover have "f x \<le> f b" if "b \<in> set ?dw" for b using dw [OF that] by simp
  ultimately show "sorted (map f (?tw @ x # ?dw))" using st(1,2) by (simp add: sorted_append)
  fix k
  have stable: "filter (\<lambda>y. f k = f y) ?p = filter (\<lambda>y. f k = f y) xs"
    using sort_key_stable [of f "f k" xs] by (simp add: eq_commute)
  show "filter (\<lambda>y. f k = f y) (?tw @ x # ?dw) = filter (\<lambda>y. f k = f y) (xs @ [x])"
  proof (cases "f k = f x")
    case True
    have "filter (\<lambda>y. f k = f y) ?dw = []" using dw True by (force simp: filter_empty_conv)
    moreover have "filter (\<lambda>y. f k = f y) ?tw @ filter (\<lambda>y. f k = f y) ?dw = filter (\<lambda>y. f k = f y) xs"
      unfolding filter_append [symmetric] split by (rule stable)
    ultimately show ?thesis using True by simp
  next
    case False
    moreover have "filter (\<lambda>y. f k = f y) ?tw @ filter (\<lambda>y. f k = f y) ?dw = filter (\<lambda>y. f k = f y) xs"
      unfolding filter_append [symmetric] split by (rule stable)
    ultimately show ?thesis by simp
  qed
qed

lemma shift_seg_insert:
  assumes "j < length segs" "sorted (map vaddr (take j segs))"
  shows "shift_seg segs key j = takeWhile (\<lambda>s. vaddr s \<le> vaddr key) (take j segs) @ key #
    dropWhile (\<lambda>s. vaddr s \<le> vaddr key) (take j segs) @ drop (Suc j) segs"
  using assms
proof (induction segs key j rule: shift_seg.induct)
  case (1 segs key)
  then show ?case by (cases segs) auto
next
  case (2 segs key j)
  let ?P = "\<lambda>s. vaddr s \<le> vaddr key"
  have t: "take (Suc j) segs = take j segs @ [segs ! j]" using "2.prems"(1) by (simp add: take_Suc_conv_app_nth)
  have s: "sorted (map vaddr (take j segs))" "\<forall>x \<in> set (take j segs). vaddr x \<le> vaddr (segs ! j)"
    using "2.prems"(2) unfolding t by (simp_all add: sorted_append)
  show ?case
  proof (cases "vaddr (segs ! j) > vaddr key")
    case True
    have "shift_seg (segs[Suc j := segs ! j]) key j =
        takeWhile ?P (take j segs) @ key # dropWhile ?P (take j segs) @ segs ! j # drop (Suc (Suc j)) segs"
    proof -
      have "shift_seg (segs[Suc j := segs ! j]) key j = takeWhile ?P (take j (segs[Suc j := segs ! j])) @ key #
          dropWhile ?P (take j (segs[Suc j := segs ! j])) @ drop (Suc j) (segs[Suc j := segs ! j])"
        using "2.IH" [OF True] "2.prems"(1) s(1) by simp
      moreover have "drop (Suc j) (segs[Suc j := segs ! j]) = segs ! j # drop (Suc (Suc j)) segs"
        using "2.prems"(1) by (simp add: Cons_nth_drop_Suc [symmetric])
      ultimately show ?thesis by simp
    qed
    then show ?thesis using True by (simp add: t takeWhile_tail dropWhile_append3)
  next
    case False
    then have all: "\<forall>x \<in> set (take (Suc j) segs). ?P x" using s(2) unfolding t by auto
    have "segs[Suc j := key] = take (Suc j) segs @ key # drop (Suc (Suc j)) segs"
      using "2.prems"(1) by (rule upd_conv_take_nth_drop)
    moreover have "takeWhile ?P (take (Suc j) segs) = take (Suc j) segs" 
      by (rule takeWhile_eq_all_conv [THEN iffD2, OF all])
    moreover have "dropWhile ?P (take (Suc j) segs) = []" using all by (simp add: dropWhile_eq_Nil_conv)
    ultimately show ?thesis using False by (simp only: shift_seg.simps(2) if_False append_Nil)
  qed
qed

lemma sort_segs_prefix:
  assumes "Suc k \<le> length segs"
  shows "foldl (\<lambda>segs i. shift_seg segs (segs ! i) i) segs [1..<Suc k] = sort_key vaddr (take (Suc k) segs) @ drop (Suc k) segs"
  using assms
proof (induction k)
  case 0
  then show ?case by (cases segs) auto
next
  case (Suc k)
  let ?s = "foldl (\<lambda>segs i. shift_seg segs (segs ! i) i) segs [1..<Suc k]" and ?p = "sort_key vaddr (take (Suc k) segs)"
  have s: "?s = ?p @ drop (Suc k) segs" using Suc by simp
  have l: "length ?p = Suc k" using Suc.prems by simp
  have "take (Suc k) ?s = ?p" "drop (Suc (Suc k)) ?s = drop (Suc (Suc k)) segs" "?s ! Suc k = segs ! Suc k" "Suc k < length ?s"
    unfolding s using l Suc.prems by (simp_all add: nth_append)
  then have "shift_seg ?s (?s ! Suc k) (Suc k) =
      takeWhile (\<lambda>s. vaddr s \<le> vaddr (segs ! Suc k)) ?p @ segs ! Suc k # dropWhile (\<lambda>s. vaddr s \<le> vaddr (segs ! Suc k)) ?p
      @ drop (Suc (Suc k)) segs"
    by (subst shift_seg_insert) simp_all
  also have "\<dots> = sort_key vaddr (take (Suc k) segs @ [segs ! Suc k]) @ drop (Suc (Suc k)) segs"
    unfolding sort_key_snoc by simp
  also have "take (Suc k) segs @ [segs ! Suc k] = take (Suc (Suc k)) segs" using Suc.prems by (simp add: take_Suc_conv_app_nth)
  finally show ?case by simp
qed

lemma sort_segs_sort_key: "sort_segs segs = sort_key vaddr segs"
proof (cases segs)
  case Nil
  then show ?thesis by (simp add: sort_segs_def)
next
  case (Cons a as)
  then have "Suc (length as) \<le> length segs" "length segs = Suc (length as)" by simp_all
  from sort_segs_prefix [OF this(1)] this(2) show ?thesis by (simp add: sort_segs_def)
qed

text \<open>
  the segments are sorted as by a stable sort on the address, so that of several segments that cover a byte
  the last one of the program header table with the greatest address is copied last.
\<close>

theorem sort_segs_stable: "sort_segs segs = sort_key vaddr segs"
  by (rule sort_segs_sort_key)

section \<open>Regions\<close>

text \<open>What \<^verbatim>\<open>elf32_load\<close> has checked of a segment.\<close>

definition seg_ok :: "nat \<Rightarrow> elf_seg \<Rightarrow> bool" where
  "seg_ok sz s \<longleftrightarrow> filesz s \<le> memsz s \<and> 0 < memsz s \<and> vaddr s + memsz s \<le> 0xBFF00000 \<and> offset s + filesz s \<le> sz"

definition seg_pages :: "elf_seg \<Rightarrow> nat set" where
  "seg_pages s = {vaddr s div 4096..(vaddr s + memsz s - 1) div 4096}"

definition region_pages :: "nat \<times> nat \<Rightarrow> nat set" where
  "region_pages r = {p. fst r \<le> 4096 * p \<and> 4096 * p < snd r}"

definition region_ok :: "nat \<times> nat \<Rightarrow> bool" where
  "region_ok r \<longleftrightarrow> fst r mod 4096 = 0 \<and> snd r mod 4096 = 0 \<and> fst r < snd r \<and> snd r \<le> 0xBFF00000"

lemma seg_bounds:
  assumes "seg_ok sz s"
  shows "page_align_down (vaddr s) = 4096 * (vaddr s div 4096)"
    "page_align (w32 (vaddr s + memsz s)) = 4096 * ((vaddr s + memsz s - 1) div 4096 + 1)"
    "region_ok (page_align_down (vaddr s), page_align (w32 (vaddr s + memsz s)))"
    "region_pages (page_align_down (vaddr s), page_align (w32 (vaddr s + memsz s))) = seg_pages s"
proof -
  have b: "0 < memsz s" "vaddr s + memsz s \<le> 3220176896" using assms by (simp_all add: seg_ok_def)
  show 1: "page_align_down (vaddr s) = 4096 * (vaddr s div 4096)" by (simp add: page_align_down_def)
  have "vaddr s + memsz s + 4095 = (vaddr s + memsz s - 1) + 4096" using b by simp
  then have "(vaddr s + memsz s + 4095) div 4096 = (vaddr s + memsz s - 1) div 4096 + 1" by simp
  then show 2: "page_align (w32 (vaddr s + memsz s)) = 4096 * ((vaddr s + memsz s - 1) div 4096 + 1)"
    using b by (simp add: page_align_def)
  have "(vaddr s + memsz s - 1) div 4096 \<le> (3220176896 - 1) div 4096" using b by (intro div_le_mono) simp
  moreover have "vaddr s div 4096 \<le> (vaddr s + memsz s - 1) div 4096" using b by (intro div_le_mono) simp
  ultimately show "region_ok (page_align_down (vaddr s), page_align (w32 (vaddr s + memsz s)))"
    unfolding 1 2 region_ok_def by simp
  show "region_pages (page_align_down (vaddr s), page_align (w32 (vaddr s + memsz s))) = seg_pages s"
    unfolding 1 2 region_pages_def seg_pages_def by auto
qed

text \<open>The regions made of a sorted list: separate, page-aligned, and together the pages of the segments.\<close>

definition regions_of :: "elf_seg list \<Rightarrow> (nat \<times> nat) list \<Rightarrow> bool" where
  "regions_of segs rs \<longleftrightarrow> (\<forall>r \<in> set rs. region_ok r) \<and> sorted_wrt (\<lambda>a b. snd a < fst b) rs \<and>
     (rs = [] \<longleftrightarrow> segs = []) \<and> (segs \<noteq> [] \<longrightarrow> fst (last rs) \<le> vaddr (last segs)) \<and>
     \<Union> (region_pages ` set rs) = \<Union> (seg_pages ` set segs)"

lemma merge_region_step:
  assumes R: "regions_of segs rs" and ok: "seg_ok sz s" and le: "\<forall>t \<in> set segs. vaddr t \<le> vaddr s"
  shows "regions_of (segs @ [s]) (merge_region rs s)"
proof -
  let ?lo = "page_align_down (vaddr s)" and ?hi = "page_align (w32 (vaddr s + memsz s))"
  note b = seg_bounds [OF ok]
  have lo: "?lo \<le> vaddr s" by (simp add: page_align_down_def)
  show ?thesis
  proof (cases "rs \<noteq> [] \<and> ?lo \<le> snd (last rs)")
    case False
    have "\<forall>r \<in> set rs. snd r < ?lo"
    proof
      fix r assume r: "r \<in> set rs"
      then obtain rs' where rs: "rs = rs' @ [last rs]" by (metis append_butlast_last_id empty_iff empty_set)
      have "snd (last rs) < ?lo" using False r by auto
      moreover have "snd r < fst (last rs)" if "r \<in> set rs'"
        using R that unfolding regions_of_def by (metis rs sorted_wrt_append list.set_intros(1))
      moreover have "fst (last rs) < snd (last rs)" using R r unfolding regions_of_def region_ok_def by (metis last_in_set empty_iff empty_set)
      moreover have "r \<in> set rs' \<or> r = last rs" using r rs by (metis Un_iff set_append set_ConsD empty_iff empty_set)
      ultimately show "snd r < ?lo" by auto
    qed
    then show ?thesis using R False b lo by (auto simp: regions_of_def merge_region_def Let_def sorted_wrt_append)
  next
    case True
    obtain rs' l h where rs: "rs = rs' @ [(l, h)]" using True by (metis append_butlast_last_id surj_pair)
    have ne: "segs \<noteq> []" using R True by (auto simp: regions_of_def)
    have lh: "region_ok (l, h)" "\<forall>r \<in> set rs'. region_ok r \<and> snd r < l" "sorted_wrt (\<lambda>a b. snd a < fst b) rs'"
      using R by (auto simp: regions_of_def rs sorted_wrt_append)
    have "l \<le> vaddr s" using R ne le by (auto simp: regions_of_def rs intro: order_trans)
    then have l: "l \<le> ?lo"
      using lh(1) div_le_mono [of l "vaddr s" 4096] unfolding b(1) region_ok_def by (metis dvd_div_mult_self fst_conv mod_0_imp_dvd mult.commute mult_le_mono1)
    let ?h = "if ?hi > h then ?hi else h"
    have m: "merge_region rs s = rs' @ [(l, ?h)]" using True by (auto simp: merge_region_def Let_def rs)
    have "region_pages (l, ?h) = region_pages (l, h) \<union> seg_pages s"
      unfolding b(4) [symmetric] using l True by (auto simp: region_pages_def rs)
    moreover have "region_ok (l, ?h)" using lh(1) b(3) by (auto simp: region_ok_def)
    ultimately show ?thesis
      using R lh \<open>l \<le> vaddr s\<close> unfolding m by (auto simp: regions_of_def rs sorted_wrt_append)
  qed
qed

lemma elf_regions_of:
  "sorted (map vaddr segs) \<Longrightarrow> \<forall>s \<in> set segs. seg_ok sz s \<Longrightarrow> regions_of segs (elf_regions segs)"
proof (induction segs rule: rev_induct)
  case Nil
  show ?case by (simp add: regions_of_def elf_regions_def)
next
  case (snoc s segs)
  then have "regions_of segs (elf_regions segs)" "\<forall>t \<in> set segs. vaddr t \<le> vaddr s" by (simp_all add: sorted_append)
  moreover have "seg_ok sz s" using snoc.prems(2) by simp
  ultimately show ?case using merge_region_step [of segs "elf_regions segs" sz s] by (simp add: elf_regions_def)
qed

section \<open>The bytes of a page\<close>

definition covers :: "elf_seg \<Rightarrow> nat \<Rightarrow> bool" where
  "covers s va \<longleftrightarrow> vaddr s \<le> va \<and> va < vaddr s + filesz s"

text \<open>The specification: the byte of the last segment, in the order of their addresses, that the file backs there, otherwise 0.\<close>

definition image_byte :: "exec_file \<Rightarrow> elf_seg list \<Rightarrow> nat \<Rightarrow> u8" where
  "image_byte f segs va = (case find (\<lambda>s. covers s va) (rev segs) of
     None \<Rightarrow> 0 | Some s \<Rightarrow> fbytes f ! (offset s + (va - vaddr s)))"

lemma pread_chunk:
  assumes "pread_ok f" "pread f off cnt = (n, bs)" "0 < n"
  shows "nat n \<le> cnt \<and> off + nat n \<le> length (fbytes f) \<and> bs = take (nat n) (drop off (fbytes f))"
  using assms by (auto simp: pread_ok_def pread_def) (metis nat_le_iff)

lemma put_bytes_append: "put_bytes (a + length xs) ys (put_bytes a xs m) = put_bytes a (xs @ ys) m"
  by (rule ext) (auto simp: put_bytes_def nth_append)

lemma fill_done:
  assumes "pread_ok f" "foff + cnt \<le> length (fbytes f)" "length (fbytes f) < 4294967296"
    "fill f dst foff cnt don m = (True, m')" "don \<le> cnt"
  shows "m' = put_bytes (dst + don) (take (cnt - don) (drop (foff + don) (fbytes f))) m"
  using assms(4,5)
proof (induction "cnt - don" arbitrary: don m rule: less_induct)
  case less
  show ?case
  proof (cases "don < cnt")
    case False
    then have "m' = m" "don = cnt" using less.prems by (subst (asm) fill.simps, auto)+
    then show ?thesis by (auto simp: put_bytes_def fun_eq_iff)
  next
    case True
    have w: "w32 (foff + don) = foff + don" using assms(2,3) True by simp
    obtain n bs where p: "pread f (foff + don) (cnt - don) = (n, bs)" by fastforce
    have n: "0 < n" and rec: "fill f dst foff cnt (don + nat n) (put_bytes (dst + don) bs m) = (True, m')"
      using less.prems(1) True w p by (subst (asm) fill.simps, simp split: if_splits)+
    note c = pread_chunk [OF assms(1) p n]
    have "m' = put_bytes (dst + (don + nat n)) (take (cnt - (don + nat n)) (drop (foff + (don + nat n)) (fbytes f))) (put_bytes (dst + don) bs m)"
      by (rule less.hyps [OF _ rec]) (use c n True in auto)
    moreover have "length bs = nat n" using c by auto
    moreover have "take (cnt - don) (drop (foff + don) (fbytes f)) =
        bs @ take (cnt - (don + nat n)) (drop (foff + (don + nat n)) (fbytes f))"
    proof -
      have "cnt - don = nat n + (cnt - (don + nat n))" using c True by arith
      then show ?thesis using c by (simp only: take_add drop_drop) (simp add: ac_simps)
    qed
    ultimately show ?thesis using put_bytes_append [of "dst + don" bs] by (simp add: add.assoc)
  qed
qed

text \<open>One segment, and then all of them, in the page at \<open>cur\<close> whose frame is \<open>pa\<close>.\<close>

lemma copy_seg_page:
  assumes "pread_ok f" "seg_ok (length (fbytes f)) s" "length (fbytes f) < 4294967296" "cur + 4096 \<le> 0xC0000000"
    "copy_seg f s cur pa m = (True, m')"
  shows "m' a = (if pa \<le> a \<and> a < pa + 4096 \<and> covers s (cur + (a - pa))
    then fbytes f ! (offset s + (cur + (a - pa) - vaddr s)) else m a)"
proof -
  let ?e = "vaddr s + filesz s" and ?b = "fbytes f"
  have s: "?e \<le> 3220176896" "offset s + filesz s \<le> length ?b" using assms(2) by (simp_all add: seg_ok_def)
  then have w: "w32 ?e = ?e" by simp
  define lo where "lo = (if vaddr s > cur then vaddr s else cur)"
  define hi where "hi = (if ?e < cur + 4096 then ?e else cur + 4096)"
  show ?thesis
  proof (cases "hi \<le> lo")
    case True
    then have "m' = m" using assms(5) w by (auto simp: copy_seg_def Let_def lo_def hi_def PAGE_SIZE_def split: if_splits)
    moreover have "\<not> covers s (cur + (a - pa))" if "pa \<le> a" "a < pa + 4096"
      using True that by (auto simp: covers_def lo_def hi_def split: if_splits)
    ultimately show ?thesis by auto
  next
    case False
    then have run: "fill f (pa + (lo - cur)) (w32 (offset s + (lo - vaddr s))) (hi - lo) 0 m = (True, m')"
      using assms(5) w by (simp add: copy_seg_def Let_def lo_def hi_def PAGE_SIZE_def split: if_splits)
    have off: "offset s + (lo - vaddr s) + (hi - lo) \<le> length ?b" "w32 (offset s + (lo - vaddr s)) = offset s + (lo - vaddr s)"
      using s False assms(3) by (auto simp: lo_def hi_def split: if_splits)
    from fill_done [OF assms(1) _ assms(3) run] off
    have m': "m' = put_bytes (pa + (lo - cur)) (take (hi - lo) (drop (offset s + (lo - vaddr s)) ?b)) m" by simp
    have len: "length (take (hi - lo) (drop (offset s + (lo - vaddr s)) ?b)) = hi - lo" using off by simp
    have iff: "pa \<le> a \<and> a < pa + 4096 \<and> covers s (cur + (a - pa)) \<longleftrightarrow> pa + (lo - cur) \<le> a \<and> a < pa + (lo - cur) + (hi - lo)"
      using False by (auto simp: covers_def lo_def hi_def)
    have "take (hi - lo) (drop (offset s + (lo - vaddr s)) ?b) ! (a - (pa + (lo - cur))) = ?b ! (offset s + (cur + (a - pa) - vaddr s))"
      if w: "pa + (lo - cur) \<le> a" "a < pa + (lo - cur) + (hi - lo)"
    proof -
      obtain k where k: "a = pa + (lo - cur) + k" "k < hi - lo" using w by (metis add_less_cancel_left le_Suc_ex)
      have "cur \<le> lo" "vaddr s \<le> lo" by (simp_all add: lo_def)
      then have "cur + (a - pa) = lo + k" "lo + k - vaddr s = lo - vaddr s + k" using k(1) by simp_all
      then have rhs: "offset s + (cur + (a - pa) - vaddr s) = offset s + (lo - vaddr s) + k" by simp
      have lhs: "a - (pa + (lo - cur)) = k" using k(1) by simp
      show ?thesis unfolding lhs rhs using k(2) off(1) by (simp only: nth_take) (rule nth_drop, simp)
    qed
    note val = this
    show ?thesis
    proof (cases "pa \<le> a \<and> a < pa + 4096 \<and> covers s (cur + (a - pa))")
      case True
      with iff have w: "pa + (lo - cur) \<le> a \<and> a < pa + (lo - cur) + (hi - lo)" by blast
      show ?thesis unfolding m' put_bytes_def len if_P [OF w] if_P [OF True] by (rule val) (use w in blast)+
    next
      case False
      with iff have w: "\<not> (pa + (lo - cur) \<le> a \<and> a < pa + (lo - cur) + (hi - lo))" by blast
      show ?thesis unfolding m' put_bytes_def len if_not_P [OF w] if_not_P [OF False] ..
    qed
  qed
qed

lemma copy_segs_page:
  assumes "pread_ok f" "\<forall>s \<in> set ss. seg_ok (length (fbytes f)) s" "length (fbytes f) < 4294967296" "cur + 4096 \<le> 0xC0000000"
    "copy_segs f ss cur pa m = (True, m')"
  shows "m' a = (if pa \<le> a \<and> a < pa + 4096 then
      (case find (\<lambda>s. covers s (cur + (a - pa))) (rev ss) of
         None \<Rightarrow> m a | Some s \<Rightarrow> fbytes f ! (offset s + (cur + (a - pa) - vaddr s)))
    else m a)"
  using assms(2,5)
proof (induction ss arbitrary: m)
  case (Cons s ss)
  obtain m1 where 1: "copy_seg f s cur pa m = (True, m1)" "copy_segs f ss cur pa m1 = (True, m')"
    using Cons.prems(2) by (auto split: prod.splits if_splits)
  have "m1 a = (if pa \<le> a \<and> a < pa + 4096 \<and> covers s (cur + (a - pa))
      then fbytes f ! (offset s + (cur + (a - pa) - vaddr s)) else m a)"
    using Cons.prems(1) by (intro copy_seg_page [OF assms(1) _ assms(3,4) 1(1)]) simp
  then show ?case using Cons.IH [OF _ 1(2)] Cons.prems(1) by (auto simp: find_snoc split: option.splits)
qed simp

lemma page_bytes:
  assumes "pread_ok f" "\<forall>s \<in> set ss. seg_ok (length (fbytes f)) s" "length (fbytes f) < 4294967296" "cur + 4096 \<le> 0xC0000000"
    "copy_segs f ss cur pa (zero_range pa 4096 m) = (True, m')"
  shows "m' a = (if pa \<le> a \<and> a < pa + 4096 then image_byte f ss (cur + (a - pa)) else m a)"
  using copy_segs_page [OF assms, of a] by (auto simp: image_byte_def zero_range_def split: option.splits)

section \<open>The flags of a page\<close>

definition page_writes :: "elf_seg list \<Rightarrow> nat \<Rightarrow> bool" where
  "page_writes segs p \<longleftrightarrow> (\<exists>s \<in> set segs. p \<in> seg_pages s \<and> flags s AND PF_W \<noteq> 0)"

lemma seg_reaches_page:
  assumes "seg_ok sz s" "cur = 4096 * p"
  shows "vaddr s < cur + 4096 \<and> w32 (vaddr s + memsz s) > cur \<longleftrightarrow> p \<in> seg_pages s"
proof -
  have b: "0 < memsz s" "vaddr s + memsz s \<le> 3220176896" using assms(1) by (simp_all add: seg_ok_def)
  have "vaddr s < 4096 * p + 4096 \<longleftrightarrow> vaddr s div 4096 \<le> p"
    using div_less_iff_less_mult [of 4096 "vaddr s" "p + 1"] by (simp add: less_Suc_eq_le mult.commute add.commute)
  moreover have "4096 * p < vaddr s + memsz s \<longleftrightarrow> p \<le> (vaddr s + memsz s - 1) div 4096"
    using b less_eq_div_iff_mult_less_eq [of 4096 p "vaddr s + memsz s - 1"] by (auto simp: mult.commute)
  ultimately show ?thesis using b assms(2) by (simp add: seg_pages_def)
qed

lemma and_two_or: "((x :: u32) OR y) AND 2 \<noteq> 0 \<longleftrightarrow> x AND 2 \<noteq> 0 \<or> y AND 2 \<noteq> 0"
proof -
  have "w AND 2 = 0 \<longleftrightarrow> \<not> bit w 1" for w :: u32
    using and_push_bit_one_iff [of w 1] by auto
  then show ?thesis by (simp add: bit_or_iff)
qed

lemma fold_flags:
  "foldl (\<lambda>fl s. if P s then fl OR flags s else fl) fl0 segs AND 2 \<noteq> 0 \<longleftrightarrow> fl0 AND 2 \<noteq> 0 \<or> (\<exists>s \<in> set segs. P s \<and> flags s AND 2 \<noteq> 0)"
proof (induction segs arbitrary: fl0)
  case (Cons s segs)
  then show ?case using and_two_or [of fl0 "flags s"] by simp blast
qed simp

lemma page_pte_flags_writes:
  assumes "\<forall>s \<in> set segs. seg_ok sz s"
  shows "page_pte_flags segs (4096 * p) = (if page_writes segs p then 7 else 5)"
proof -
  have "(\<exists>s \<in> set segs. (vaddr s < 4096 * p + 4096 \<and> w32 (vaddr s + memsz s) > 4096 * p) \<and> flags s AND 2 \<noteq> 0) \<longleftrightarrow> page_writes segs p"
    unfolding page_writes_def using seg_reaches_page [OF _ refl] assms by blast
  then show ?thesis unfolding page_pte_flags_def Let_def fold_flags PAGE_SIZE_def by simp
qed

section \<open>The page loop\<close>

definition mapped_pte :: "addr_space \<Rightarrow> nat \<Rightarrow> u32 option" where
  "mapped_pte s va = (case lookup_pte s va of None \<Rightarrow> None | Some pte \<Rightarrow> if pte_present pte then Some pte else None)"

lemma mapped_pte_page: "va div 4096 = vb div 4096 \<Longrightarrow> mapped_pte s va = mapped_pte s vb"
  by (simp add: mapped_pte_def lookup_pte_page [of va vb])

lemma translate_mapped: "translate s va = map_option (\<lambda>pte. unat (pte_frame pte) + va mod 4096) (mapped_pte s va)"
  by (simp add: translate_def mapped_pte_def split: option.splits)

lemma map_user_pte:
  assumes "arch_mm_map_user s va pa fl fresh = (0, s')" "pte_present (pte_frame pa OR fl)"
  shows "mapped_pte s' vb = (if vb div 4096 = va div 4096 then Some (pte_frame pa OR fl) else mapped_pte s vb)"
proof -
  define s1 where "s1 = (if page_tables s (pdi va) = None then add_table (pdi va) fresh s else s)"
  have s': "s' = set_pte (pdi va) (pti va) (pte_frame pa OR fl) s1"
    using assms(1) by (auto simp: arch_mm_map_user_def s1_def Let_def split: if_splits)
  have "page_tables s1 (pdi va) \<noteq> None" by (auto simp: s1_def add_table_def)
  moreover have "mapped_pte s1 vb = mapped_pte s vb"
    by (auto simp: s1_def mapped_pte_def lookup_add_table pte_present_def) (simp add: lookup_pte_def)
  ultimately show ?thesis
    using assms(2) unfolding s' same_page_iff by (auto simp: mapped_pte_def lookup_set_pte)
qed

lemma map_fresh_step:
  assumes "map_fresh va pa fl c = (0, c')" "pte_present (pte_frame pa OR fl)" "distinct (fresh_frames c)"
  shows "mapped_pte (child c') vb = (if vb div 4096 = va div 4096 then Some (pte_frame pa OR fl) else mapped_pte (child c) vb)"
    "phys c' = phys c" "set (fresh_frames c') \<subseteq> set (fresh_frames c)" "distinct (fresh_frames c')"
proof -
  obtain pt c1 where 1: "(if pdi va < 768 \<and> page_tables (child c) (pdi va) = None then take_page c else (0, c)) = (pt, c1)" by fastforce
  obtain sp where m: "arch_mm_map_user (child c1) va pa fl pt = (0, sp)" "c' = c1\<lparr>child := sp\<rparr>"
    using assms(1) 1 by (auto simp: map_fresh_def split: prod.splits)
  have t: "child c1 = child c \<and> phys c1 = phys c \<and> set (fresh_frames c1) \<subseteq> set (fresh_frames c) \<and> distinct (fresh_frames c1)"
  proof (cases "pdi va < 768 \<and> page_tables (child c) (pdi va) = None")
    case True
    then show ?thesis using 1 assms(3) by (auto simp: take_page_def fresh_frames_def split: list.splits if_splits)
  next
    case False
    then show ?thesis using 1 assms(3) by auto
  qed
  show "mapped_pte (child c') vb = (if vb div 4096 = va div 4096 then Some (pte_frame pa OR fl) else mapped_pte (child c) vb)"
    using map_user_pte [OF m(1) assms(2)] t m(2) by simp
  show "phys c' = phys c" "set (fresh_frames c') \<subseteq> set (fresh_frames c)" "distinct (fresh_frames c')"
    using t m(2) by (simp_all add: fresh_frames_def)
qed

text \<open>After the pages in \<open>D\<close> have been loaded, starting from \<open>c0\<close>:\<close>

definition loaded :: "exec_file \<Rightarrow> elf_seg list \<Rightarrow> copy_state \<Rightarrow> nat set \<Rightarrow> copy_state \<Rightarrow> bool" where
  "loaded f segs c0 D c \<longleftrightarrow>
     (\<forall>p. p \<notin> D \<longrightarrow> mapped_pte (child c) (4096 * p) = None) \<and>
     (\<forall>p \<in> D. \<exists>pte. mapped_pte (child c) (4096 * p) = Some pte \<and> (pte_writable pte \<longleftrightarrow> page_writes segs p) \<and>
        unat (pte_frame pte) \<in> set (fresh_frames c0) - set (fresh_frames c) \<and>
        (\<forall>x < 4096. phys c (unat (pte_frame pte) + x) = image_byte f segs (4096 * p + x))) \<and>
     (\<forall>a. a - a mod 4096 \<notin> set (fresh_frames c0) \<longrightarrow> phys c a = phys c0 a) \<and>
     set (fresh_frames c) \<subseteq> set (fresh_frames c0) \<and> distinct (fresh_frames c)"

text \<open>What the caller provides: a readable file of valid segments, and aligned fresh pages.\<close>

definition loadable :: "exec_file \<Rightarrow> elf_seg list \<Rightarrow> copy_state \<Rightarrow> bool" where
  "loadable f segs c0 \<longleftrightarrow> pread_ok f \<and> length (fbytes f) < 4294967296 \<and> (\<forall>s \<in> set segs. seg_ok (length (fbytes f)) s) \<and>
     distinct (fresh_frames c0) \<and> (\<forall>a \<in> set (fresh_frames c0). a mod 4096 = 0)"

lemma page_base: "t mod 4096 = 0 \<Longrightarrow> x < 4096 \<Longrightarrow> (t + x) - (t + x) mod 4096 = (t::nat)"
  by auto

lemma loaded_insert:
  assumes L: "loadable f segs c0" and inv: "loaded f segs c0 D c" and p: "p < 0xC0000" and new: "p \<notin> D"
    and 1: "take_page c = (page, c1)" and page: "page \<noteq> 0"
    and bytes: "\<And>a. m a = (if unat (virt_to_phys page) \<le> a \<and> a < unat (virt_to_phys page) + 4096
      then image_byte f segs (4096 * p + (a - unat (virt_to_phys page))) else phys c1 a)"
    and fl: "fl = (if page_writes segs p then 7 else 5)"
    and mf: "map_fresh (4096 * p) (virt_to_phys page) fl (c1\<lparr>phys := m\<rparr>) = (0, c')"
  shows "loaded f segs c0 (insert p D) c'"
proof -
  let ?pa = "virt_to_phys page"
  have d: "distinct (fresh_frames c)" "set (fresh_frames c) \<subseteq> set (fresh_frames c0)"
    and none: "\<And>q. q \<notin> D \<Longrightarrow> mapped_pte (child c) (4096 * q) = None"
    and same: "\<And>a. a - a mod 4096 \<notin> set (fresh_frames c0) \<Longrightarrow> phys c a = phys c0 a"
    and old: "\<And>q. q \<in> D \<Longrightarrow> \<exists>pte. mapped_pte (child c) (4096 * q) = Some pte \<and> (pte_writable pte \<longleftrightarrow> page_writes segs q) \<and>
        unat (pte_frame pte) \<in> set (fresh_frames c0) - set (fresh_frames c) \<and>
        (\<forall>x < 4096. phys c (unat (pte_frame pte) + x) = image_byte f segs (4096 * q + x))"
    using inv unfolding loaded_def by blast+
  note t = take_page_fresh [OF 1 page d(1)]
  have fresh: "unat ?pa \<in> set (fresh_frames c)" using t by simp
  then have al: "unat ?pa mod 4096 = 0" using L d(2) by (auto simp: loadable_def)
  have pte: "pte_frame ?pa = ?pa" using al copied_entry(1) [of ?pa 0] unfolding aligned_iff by simp
  let ?pte = "?pa OR fl"
  have fe: "pte_frame ?pte = ?pa" using frame_or_flags [of "fl" ?pa] pte by (simp add: fl pte_frame_def)
  have low: "?pa AND 1 = 0" "?pa AND 2 = 0"
  proof -
    have "(x AND 0xFFF) AND 1 = x AND 1" "(x AND 0xFFF) AND 2 = x AND 2" for x :: u32 by (simp_all add: word_bw_assocs)
    then show "?pa AND 1 = 0" "?pa AND 2 = 0" using al unfolding aligned_iff by (metis and.left_neutral and_zero_eq zero_and_eq)+
  qed
  have pres: "pte_present ?pte" "pte_writable ?pte \<longleftrightarrow> page_writes segs p"
    using low by (simp_all add: fl pte_present_def pte_writable_def word_ao_dist)
  have dc1: "distinct (fresh_frames (c1\<lparr>phys := m\<rparr>))" using t by (simp add: fresh_frames_def)
  note mfs = map_fresh_step [OF mf _ dc1, unfolded pte, OF pres(1)]
  have map: "mapped_pte (child c') (4096 * q) = (if q = p then Some ?pte else mapped_pte (child c) (4096 * q))" for q
    using mfs(1) [of "4096 * q"] t by simp
  have fr: "set (fresh_frames c') \<subseteq> set (fresh_frames c1)" "distinct (fresh_frames c')"
    using mfs(3,4) by (simp_all add: fresh_frames_def)
  have ph: "phys c' a = (if unat ?pa \<le> a \<and> a < unat ?pa + 4096 then image_byte f segs (4096 * p + (a - unat ?pa)) else phys c a)" for a
    using mfs(2) bytes [of a] t by simp
  have keep: "phys c' a = phys c a" if "a - a mod 4096 \<noteq> unat ?pa" for a
  proof -
    have "\<not> (unat ?pa \<le> a \<and> a < unat ?pa + 4096)"
    proof
      assume "unat ?pa \<le> a \<and> a < unat ?pa + 4096"
      then obtain x where "a = unat ?pa + x" "x < 4096" by (metis add_less_cancel_left le_Suc_ex)
      then show False using that page_base [OF al] by simp
    qed
    then show ?thesis using ph [of a] by auto
  qed
  show ?thesis
    unfolding loaded_def
  proof (intro conjI allI ballI impI)
    fix q assume "q \<notin> insert p D"
    then show "mapped_pte (child c') (4096 * q) = None" using none [of q] map [of q] by auto
  next
    fix q assume q: "q \<in> insert p D"
    show "\<exists>pte. mapped_pte (child c') (4096 * q) = Some pte \<and> (pte_writable pte \<longleftrightarrow> page_writes segs q) \<and>
        unat (pte_frame pte) \<in> set (fresh_frames c0) - set (fresh_frames c') \<and>
        (\<forall>x < 4096. phys c' (unat (pte_frame pte) + x) = image_byte f segs (4096 * q + x))"
    proof (cases "q = p")
      case True
      have "unat ?pa \<in> set (fresh_frames c0) - set (fresh_frames c')" using fresh d(2) t fr by auto
      moreover have "phys c' (unat ?pa + x) = image_byte f segs (4096 * p + x)" if "x < 4096" for x
        using ph [of "unat ?pa + x"] that by simp
      ultimately show ?thesis using True map [of q] pres(2) by (intro exI [of _ ?pte]) (simp add: fe)
    next
      case False
      then have "q \<in> D" using q by simp
      then obtain pte where o: "mapped_pte (child c) (4096 * q) = Some pte" "pte_writable pte \<longleftrightarrow> page_writes segs q"
        "unat (pte_frame pte) \<in> set (fresh_frames c0) - set (fresh_frames c)"
        "\<And>x. x < 4096 \<Longrightarrow> phys c (unat (pte_frame pte) + x) = image_byte f segs (4096 * q + x)" using old by blast
      have a: "unat (pte_frame pte) mod 4096 = 0" using o(3) L by (auto simp: loadable_def)
      have "phys c' (unat (pte_frame pte) + x) = phys c (unat (pte_frame pte) + x)" if "x < 4096" for x
        by (rule keep) (use a o(3) fresh that in auto)
      moreover have "unat (pte_frame pte) \<notin> set (fresh_frames c')" using o(3) fr(1) t by auto
      ultimately show ?thesis using False o map [of q] by (intro exI [of _ pte]) auto
    qed
  next
    fix a assume "a - a mod 4096 \<notin> set (fresh_frames c0)"
    moreover from this have "a - a mod 4096 \<noteq> unat ?pa" using fresh d(2) by (metis subsetD)
    ultimately show "phys c' a = phys c0 a" using keep [of a] same [of a] by simp
  next
    show "set (fresh_frames c') \<subseteq> set (fresh_frames c0)" "distinct (fresh_frames c')" using fr t d(2) by auto
  qed
qed

lemma load_page_step:
  assumes L: "loadable f segs c0" and inv: "loaded f segs c0 D c" and p: "p < 0xC0000" and new: "p \<notin> D"
    and step: "load_page f segs (4096 * p) c = (0, fr, c')"
  shows "loaded f segs c0 (insert p D) c'"
proof -
  obtain page c1 where 1: "take_page c = (page, c1)" by fastforce
  let ?pa = "virt_to_phys page"
  have page: "page \<noteq> 0" using step 1 by (auto simp: load_page_def split: if_splits)
  obtain ok m where m: "copy_segs f segs (4096 * p) (unat ?pa) (zero_range (unat ?pa) PAGE_SIZE (phys c1)) = (ok, m)" by fastforce
  have ok: "ok" using step 1 page m by (auto simp: load_page_def Let_def split: if_splits)
  obtain r c3 where mf: "map_fresh (4096 * p) ?pa (page_pte_flags segs (4096 * p)) (c1\<lparr>phys := m\<rparr>) = (r, c3)" by fastforce
  have fin: "c' = c3" "\<not> r < 0" using step 1 page m ok mf by (auto simp: load_page_def Let_def split: if_splits)
  have r: "r = 0"
    using mf fin(2) by (auto simp: map_fresh_def arch_mm_map_user_def Let_def split: prod.splits if_splits)
  have segs: "\<forall>s \<in> set segs. seg_ok (length (fbytes f)) s" using L by (simp add: loadable_def)
  have "m a = (if unat ?pa \<le> a \<and> a < unat ?pa + 4096 then image_byte f segs (4096 * p + (a - unat ?pa)) else phys c1 a)" for a
    by (rule page_bytes) (use L p m ok in \<open>simp_all add: loadable_def PAGE_SIZE_def\<close>)
  then show ?thesis
    using loaded_insert [OF L inv p new 1 page _ page_pte_flags_writes [OF segs] mf [unfolded r]] fin(1) by blast
qed

lemma load_page_status: "load_page f segs cur c = (r, fr, c') \<Longrightarrow> r \<le> 0"
  by (auto simp: load_page_def Let_def split: prod.splits if_splits)

lemma load_region_status: "load_region f segs cur hi c = (r, fr, c') \<Longrightarrow> r \<le> 0"
proof (induction f segs cur hi c rule: load_region.induct)
  case (1 f segs cur hi c)
  show ?case
  proof (cases "cur < hi")
    case True
    obtain r1 fr1 c1 where p: "load_page f segs cur c = (r1, fr1, c1)" by (metis prod_cases3)
    then show ?thesis
      using "1.prems" "1.IH" [OF True p [symmetric] refl] True load_page_status [OF p]
      by (subst (asm) load_region.simps) (auto split: if_splits)
  qed (use "1.prems" in \<open>subst (asm) load_region.simps, simp\<close>)
qed

lemma load_region_step:
  assumes L: "loadable f segs c0" and cur: "cur mod 4096 = 0" and hi: "hi mod 4096 = 0" "hi \<le> 0xBFF00000"
    and inv: "loaded f segs c0 D c" and new: "\<forall>p \<in> D. \<not> (cur \<le> 4096 * p \<and> 4096 * p < hi)"
    and step: "load_region f segs cur hi c = (0, fr, c')"
  shows "loaded f segs c0 (D \<union> {p. cur \<le> 4096 * p \<and> 4096 * p < hi}) c'"
  using cur inv new step
proof (induction "hi - cur" arbitrary: cur c D rule: less_induct)
  case less
  show ?case
  proof (cases "cur < hi")
    case False
    then have "c' = c" using less.prems(4) by (subst (asm) load_region.simps) simp
    moreover have none: "{p. cur \<le> 4096 * p \<and> 4096 * p < hi} = {}" using False by auto
    ultimately show ?thesis using less.prems(2) unfolding none by simp
  next
    case True
    obtain r fr1 c1 where 1: "load_page f segs cur c = (r, fr1, c1)" by (metis prod_cases3)
    obtain p where p: "cur = 4096 * p" using less.prems(1) by (metis dvd_def mod_0_imp_dvd)
    have nz: "r = 0 \<or> r < 0" using load_page_status [OF 1] by auto
    have run: "r = 0" "load_region f segs (cur + 4096) hi c1 = (0, fr, c')"
      using less.prems(4) True 1 nz by (subst (asm) load_region.simps, auto simp: PAGE_SIZE_def)+
    have "loaded f segs c0 (insert p D) c1"
      by (rule load_page_step [OF L less.prems(2)]) (use True hi(2) p less.prems(3) 1 run(1) in auto)
    then have "loaded f segs c0 (insert p D \<union> {q. cur + 4096 \<le> 4096 * q \<and> 4096 * q < hi}) c'"
      by (intro less.hyps) (use True less.prems run(2) p in auto)
    moreover have "insert p D \<union> {q. cur + 4096 \<le> 4096 * q \<and> 4096 * q < hi} = D \<union> {q. cur \<le> 4096 * q \<and> 4096 * q < hi}"
      using True unfolding p by auto
    ultimately show ?thesis by simp
  qed
qed

lemma load_regions_step:
  assumes "loadable f segs c0" "loaded f segs c0 D c" "\<forall>r \<in> set rs. region_ok r" "sorted_wrt (\<lambda>a b. snd a < fst b) rs"
    "D \<inter> \<Union> (region_pages ` set rs) = {}" "load_regions f segs rs c = (0, fr, c')"
  shows "loaded f segs c0 (D \<union> \<Union> (region_pages ` set rs)) c'"
  using assms(2-6)
proof (induction rs arbitrary: D c)
  case (Cons r rs)
  obtain e fr1 c1 where 1: "load_region f segs (fst r) (snd r) c = (e, fr1, c1)" by (metis prod_cases3)
  have run: "e = 0" "load_regions f segs rs c1 = (0, fr, c')"
    using Cons.prems(5) 1 load_region_status [OF 1] by (auto split: if_splits)
  have "loaded f segs c0 (D \<union> {p. fst r \<le> 4096 * p \<and> 4096 * p < snd r}) c1"
    by (rule load_region_step [OF assms(1) _ _ _ Cons.prems(1)])
      (use Cons.prems(2,4) 1 run(1) in \<open>auto simp: region_ok_def region_pages_def\<close>)
  then have "loaded f segs c0 (D \<union> region_pages r) c1" by (simp add: region_pages_def)
  moreover have "region_pages r \<inter> \<Union> (region_pages ` set rs) = {}"
    using Cons.prems(3) by (fastforce simp: region_pages_def)
  ultimately have "loaded f segs c0 (D \<union> region_pages r \<union> \<Union> (region_pages ` set rs)) c'"
    by (intro Cons.IH) (use Cons.prems run(2) in auto)
  then show ?case by (simp add: Un_assoc)
qed simp

section \<open>A loaded program\<close>

text \<open>The loadable segments that the bytes of the file describe.\<close>

definition phdr_at :: "exec_file \<Rightarrow> Elf32_Ehdr \<Rightarrow> nat \<Rightarrow> Elf32_Phdr" where
  "phdr_at f h i = decode_phdr (take 32 (drop (e_phoff h + i * e_phentsize h) (fbytes f)))"

definition seg_of :: "Elf32_Phdr \<Rightarrow> elf_seg" where
  "seg_of ph = \<lparr>vaddr = p_vaddr ph, filesz = p_filesz ph, memsz = p_memsz ph, offset = p_offset ph, flags = p_flags ph\<rparr>"

definition header_of :: "exec_file \<Rightarrow> Elf32_Ehdr" where
  "header_of f = decode_ehdr (take 52 (fbytes f))"

definition load_segments :: "exec_file \<Rightarrow> elf_seg list" where
  "load_segments f = map seg_of (filter (\<lambda>ph. p_type ph = 1 \<and> p_memsz ph \<noteq> 0)
     (map (phdr_at f (header_of f)) [0..<e_phnum (header_of f)]))"

lemma elf_segments_headers:
  assumes "pread_ok f" "\<forall>i \<in> set is. e_phoff h + i * e_phentsize h < 4294967296"
    "elf_segments f (length (fbytes f)) h is segs0 = Some segs" "\<forall>s \<in> set segs0. seg_ok (length (fbytes f)) s"
  shows "segs = segs0 @ map seg_of (filter (\<lambda>ph. p_type ph = 1 \<and> p_memsz ph \<noteq> 0) (map (phdr_at f h) is)) \<and>
    (\<forall>s \<in> set segs. seg_ok (length (fbytes f)) s)"
  using assms(2-4)
proof (induction "is" arbitrary: segs0)
  case (Cons i "is")
  let ?off = "e_phoff h + i * e_phentsize h"
  obtain n bs where p: "pread f ?off 32 = (n, bs)" by fastforce
  have w: "w32 ?off = ?off" using Cons.prems(1) by simp
  have n: "n = 32" using Cons.prems(2) w p by (auto split: if_splits)
  then have d: "decode_phdr bs = phdr_at f h i" using pread_chunk [OF assms(1) p] by (simp add: phdr_at_def)
  let ?ph = "phdr_at f h i"
  show ?case
  proof (cases "p_type ?ph \<noteq> 1 \<or> p_memsz ?ph = 0")
    case True
    then have "elf_segments f (length (fbytes f)) h is segs0 = Some segs" using Cons.prems(2) w p n d by (simp add: Let_def)
    from Cons.IH [OF _ this] Cons.prems(1,3) True show ?thesis by auto
  next
    case False
    then have ok: "seg_ok (length (fbytes f)) (seg_of ?ph)"
        and rec: "elf_segments f (length (fbytes f)) h is (segs0 @ [seg_of ?ph]) = Some segs"
      using Cons.prems(2) w p n d by (auto simp: Let_def seg_ok_def seg_of_def USER_STACK_TOP_def USER_STACK_SIZE_def split: if_splits)
    from Cons.IH [OF _ rec] Cons.prems(1,3) ok False show ?thesis by auto
  qed
qed simp

definition no_user_pages :: "addr_space \<Rightarrow> bool" where
  "no_user_pages s \<longleftrightarrow> (\<forall>va. mapped_pte s va = None)"

lemma loaded_start:
  assumes "loadable f segs c0" "no_user_pages (child c0)"
  shows "loaded f segs c0 {} c0"
  using assms by (simp add: loaded_def loadable_def no_user_pages_def)

text \<open>The area of a segment.\<close>

definition seg_area :: "elf_seg \<Rightarrow> vma" where
  "seg_area s = \<lparr>vm_start = page_align_down (vaddr s), vm_end = page_align (w32 (vaddr s + memsz s)), vm_flags = seg_vm_flags s,
     vm_type = VMA_CODE, vm_fd = -1, vm_file_off = 0, vm_shared = False, vm_phys_base = 0\<rparr>"

lemma add_seg_vmas_areas:
  "add_seg_vmas ss st = (0, st') \<Longrightarrow> set (lvmas st') = set (lvmas st) \<union> seg_area ` set ss \<and> lmem st' = lmem st \<and> limage st' = limage st"
proof (induction ss arbitrary: st)
  case (Cons s ss)
  obtain ok st1 where t: "take_ok st = (ok, st1)" by fastforce
  have 1: "lvmas st1 = lvmas st" "lmem st1 = lmem st" "limage st1 = limage st"
    using t by (auto simp: take_ok_def split: list.splits)
  have "ok" using Cons.prems t by (auto simp: vma_create_def split: if_splits)
  then have "add_seg_vmas ss (st1\<lparr>lvmas := insert_vma (seg_area s) (lvmas st1)\<rparr>) = (0, st')"
    using Cons.prems t by (simp add: vma_create_def seg_area_def)
  from Cons.IH [OF this] show ?case by (auto simp: set_insert_vma 1)
qed simp

lemma add_seg_vmas_status: "add_seg_vmas ss st = (r, st') \<Longrightarrow> r \<le> 0"
  by (induction ss st rule: add_seg_vmas.induct) (auto split: prod.splits option.splits)

lemma load_regions_status: "load_regions f ss rs c = (r, fr, c') \<Longrightarrow> r \<le> 0"
proof (induction f ss rs c rule: load_regions.induct)
  case (2 f segs r0 rs c)
  obtain e fr1 c1 where 1: "load_region f segs (fst r0) (snd r0) c = (e, fr1, c1)" by (metis prod_cases3)
  then show ?case using 2 load_region_status [OF 1] by (auto split: if_splits)
qed simp

lemma elf_load_common_loaded:
  assumes "elf_load_common f rok segs st = (0, st')" "loadable f segs (lmem st)" "no_user_pages (child (lmem st))"
  shows "loaded f (sort_key vaddr segs) (lmem st) (\<Union> (seg_pages ` set segs)) (lmem st') \<and> segs \<noteq> [] \<and>
    set (lvmas st') = set (lvmas st) \<union> seg_area ` set segs"
proof -
  let ?ss = "sort_key vaddr segs"
  obtain r fr c where 1: "load_regions f ?ss (elf_regions ?ss) (lmem st) = (r, fr, c)" by (metis prod_cases3)
  let ?st = "st\<lparr>lmem := c, lfreed := lfreed st @ fr\<rparr>"
  obtain r2 st2 where 2: "add_seg_vmas ?ss ?st = (r2, st2)" by fastforce
  have nz: "r = 0 \<or> r < 0" "r2 = 0 \<or> r2 < 0" using load_regions_status [OF 1] add_seg_vmas_status [OF 2] by auto
  have st: "r = 0" "r2 = 0" "lmem st' = lmem st2" "lvmas st' = lvmas st2" "elf_regions ?ss \<noteq> []"
    using assms(1) 1 2 nz by (auto simp: elf_load_common_def Let_def sort_segs_sort_key split: if_splits)
  have ok: "loadable f ?ss (lmem st)" using assms(2) by (simp add: loadable_def)
  have R: "regions_of ?ss (elf_regions ?ss)"
    by (rule elf_regions_of) (use ok in \<open>auto simp: loadable_def\<close>)
  then have reg: "\<forall>r \<in> set (elf_regions ?ss). region_ok r" "sorted_wrt (\<lambda>a b. snd a < fst b) (elf_regions ?ss)"
    "\<Union> (region_pages ` set (elf_regions ?ss)) = \<Union> (seg_pages ` set segs)" "segs \<noteq> []"
    using st(5) by (auto simp: regions_of_def)
  have "loaded f ?ss (lmem st) ({} \<union> \<Union> (region_pages ` set (elf_regions ?ss))) c"
    by (rule load_regions_step [OF ok loaded_start [OF ok assms(3)] reg(1,2)]) (use 1 st(1) in auto)
  then show ?thesis
    using add_seg_vmas_areas [of ?ss ?st st2] 2 st reg(3,4) by auto
qed

text \<open>What a user address holds in a loaded program.\<close>

lemma loaded_address:
  assumes "loaded f segs c0 D c"
  shows "if va div 4096 \<in> D
    then \<exists>pte a. mapped_pte (child c) va = Some pte \<and> (pte_writable pte \<longleftrightarrow> page_writes segs (va div 4096)) \<and>
      translate (child c) va = Some a \<and> phys c a = image_byte f segs va
    else translate (child c) va = None"
proof -
  let ?p = "va div 4096"
  have m: "mapped_pte (child c) va = mapped_pte (child c) (4096 * ?p)" by (rule mapped_pte_page) simp
  show ?thesis
  proof (cases "?p \<in> D")
    case True
    then obtain pte where pte: "mapped_pte (child c) (4096 * ?p) = Some pte" "pte_writable pte \<longleftrightarrow> page_writes segs ?p"
      "\<And>x. x < 4096 \<Longrightarrow> phys c (unat (pte_frame pte) + x) = image_byte f segs (4096 * ?p + x)"
      using assms unfolding loaded_def by blast
    have "phys c (unat (pte_frame pte) + va mod 4096) = image_byte f segs va" using pte(3) [of "va mod 4096"] by simp
    then show ?thesis using True pte(1,2) m by (simp add: translate_mapped)
  next
    case False
    then show ?thesis using assms m by (simp add: translate_mapped loaded_def)
  qed
qed

text \<open>User memory that holds the image of the segments at an address.\<close>

definition has_image :: "exec_file \<Rightarrow> elf_seg list \<Rightarrow> addr_space \<Rightarrow> (nat \<Rightarrow> u8) \<Rightarrow> nat \<Rightarrow> bool" where
  "has_image f segs sp m va \<longleftrightarrow>
     (if \<exists>s \<in> set segs. va div 4096 \<in> seg_pages s
      then \<exists>pte a. mapped_pte sp va = Some pte \<and> (pte_writable pte \<longleftrightarrow> page_writes segs (va div 4096)) \<and>
        translate sp va = Some a \<and> m a = image_byte f segs va
      else translate sp va = None)"

lemma loaded_has_image:
  assumes "loaded f segs c0 (\<Union> (seg_pages ` set segs)) c"
  shows "has_image f segs (child c) (phys c) va"
proof -
  have "va div 4096 \<in> \<Union> (seg_pages ` set segs) \<longleftrightarrow> (\<exists>s \<in> set segs. va div 4096 \<in> seg_pages s)" by simp
  then show ?thesis using loaded_address [OF assms, of va] by (simp only: has_image_def)
qed

lemma seg_page_top:
  assumes "seg_ok sz s" "va div 4096 \<in> seg_pages s"
  shows "va < 0xBFF00000"
proof -
  have "vaddr s + memsz s \<le> 3220176896" "0 < memsz s" using assms(1) by (auto simp: seg_ok_def)
  then have "(vaddr s + memsz s - 1) div 4096 \<le> (3220176896 - 1) div 4096" by (intro div_le_mono) simp
  then have "va div 4096 \<le> 786175" using assms(2) by (simp add: seg_pages_def)
  then show ?thesis by simp
qed

lemma load_elf_loaded:
  assumes "load_elf f (length (fbytes f)) sok rok st = (0, st')" "pread_ok f" "length (fbytes f) < 2 ^ 31"
    "no_user_pages (child (lmem st))"
    "distinct (fresh_frames (lmem st))" "\<forall>a \<in> set (fresh_frames (lmem st)). a mod 4096 = 0"
  shows "let segs = sort_key vaddr (load_segments f) in
    loaded f segs (lmem st) (\<Union> (seg_pages ` set segs)) (lmem st') \<and> (\<forall>s \<in> set segs. seg_ok (length (fbytes f)) s) \<and>
    entry (limage st') = e_entry (header_of f) \<and> set (lvmas st') = set (lvmas st) \<union> seg_area ` set segs"
proof -
  let ?n = "length (fbytes f)"
  have run: "elf32_load f ?n sok rok st = (0, st')"
    using assms(1) by (auto simp: load_elf_def elf_check_header_def Let_def split: if_splits prod.splits)
  obtain n bs where p: "pread f 0 52 = (n, bs)" by fastforce
  have n: "n = 52" using run p by (auto simp: elf32_load_def split: if_splits)
  then have h: "decode_ehdr bs = header_of f" using pread_chunk [OF assms(2) p] by (simp add: header_of_def)
  let ?h = "header_of f"
  obtain segs st2 where 2: "ehdr_valid ?n ?h" "elf_segments f ?n ?h [0..<e_phnum ?h] [] = Some segs"
      "elf_load_common f rok segs st = (0, st2)" "st' = st2\<lparr>limage := (limage st2)\<lparr>entry := e_entry ?h\<rparr>\<rparr>"
    using run p n h by (auto simp: elf32_load_def Let_def split: if_splits option.splits prod.splits)
  have "e_phoff ?h + i * e_phentsize ?h < 4294967296" if "i < e_phnum ?h" for i
  proof -
    have "i * e_phentsize ?h \<le> e_phnum ?h * e_phentsize ?h" using that by (intro mult_le_mono1) simp
    moreover have "?n < 2147483648" using assms(3) by simp
    ultimately show ?thesis using 2(1) unfolding ehdr_valid_def by linarith
  qed
  then have segs: "segs = load_segments f" "\<forall>s \<in> set segs. seg_ok ?n s"
    using elf_segments_headers [OF assms(2) _ 2(2)] by (simp_all add: load_segments_def)
  have ok: "loadable f segs (lmem st)" using assms segs(2) by (simp add: loadable_def)
  show ?thesis using elf_load_common_loaded [OF 2(3) ok assms(4)] segs by (simp add: Let_def 2(4))
qed

text \<open>
  C25: the loader implements the ELF image. If it succeeds on a readable file, into an address space without user pages
  and with new pages that are aligned and different, then the user memory is the one the program headers of the file
  describe and nothing else: an address is mapped exactly when its page meets the memory of a loadable segment; it
  holds the byte of the file that the last segment there, in the order of the addresses, assigns to it, otherwise 0; its
  page is writable exactly when a writable segment meets it; every segment has its area; all of it lies below the
  stack; and no frame but the new ones is written.
\<close>

theorem elf_load_image:
  assumes "load_elf f (length (fbytes f)) sok rok st = (0, st')" "pread_ok f" "length (fbytes f) < 2 ^ 31"
    "no_user_pages (child (lmem st))"
    "distinct (fresh_frames (lmem st))" "\<forall>a \<in> set (fresh_frames (lmem st)). a mod 4096 = 0"
  shows "let segs = sort_key vaddr (load_segments f); c = lmem st' in
    (\<forall>va. has_image f segs (child c) (phys c) va) \<and> (\<forall>s \<in> set segs. \<forall>va. va div 4096 \<in> seg_pages s \<longrightarrow> va < 0xBFF00000) \<and>
    entry (limage st') = e_entry (header_of f) \<and> set (lvmas st') = set (lvmas st) \<union> seg_area ` set segs \<and>
    (\<forall>a. a - a mod 4096 \<notin> set (fresh_frames (lmem st)) \<longrightarrow> phys c a = phys (lmem st) a)"
proof -
  note L = load_elf_loaded [OF assms, unfolded Let_def]
  have "\<forall>va. has_image f (sort_key vaddr (load_segments f)) (child (lmem st')) (phys (lmem st')) va"
    using loaded_has_image [OF conjunct1 [OF L]] by simp
  moreover have "\<forall>a. a - a mod 4096 \<notin> set (fresh_frames (lmem st)) \<longrightarrow> phys (lmem st') a = phys (lmem st) a"
    using L unfolding loaded_def by blast
  ultimately show ?thesis using L seg_page_top unfolding Let_def by blast
qed

section \<open>Flat images\<close>

text \<open>A flat image is loaded like an ELF file with this one segment.\<close>

definition flat_seg :: "nat \<Rightarrow> elf_seg" where
  "flat_seg n = \<lparr>vaddr = 0x8000000, filesz = n, memsz = n, offset = 0, flags = 7\<rparr>"

lemma flat_seg_ok: "0 < n \<Longrightarrow> n < 2147483648 \<Longrightarrow> seg_ok n (flat_seg n)"
  by (simp add: seg_ok_def flat_seg_def)

lemma flat_byte: "image_byte f [flat_seg n] va = (if 0x8000000 \<le> va \<and> va < 0x8000000 + n then fbytes f ! (va - 0x8000000) else 0)"
  by (auto simp: image_byte_def covers_def flat_seg_def)

lemma flat_pages: "0 < n \<Longrightarrow> seg_pages (flat_seg n) = {0x8000..<0x8000 + (n + 4095) div 4096}"
proof -
  assume "0 < n"
  then have "134217728 + n - 1 = (n - 1) + 4096 * 0x8000" "n + 4095 = (n - 1) + 4096" by simp_all
  then have "(134217728 + n - 1) div 4096 = (n - 1) div 4096 + 0x8000" "(n + 4095) div 4096 = (n - 1) div 4096 + 1"
    by (simp_all only: div_mult_self2 div_add_self2)
  then show ?thesis by (auto simp: seg_pages_def flat_seg_def)
qed

lemma flat_page_bytes:
  assumes "pread_ok f" "n = length (fbytes f)" "n < 2147483648" "4096 * i < n"
    "fill f pa (4096 * i) k 0 m = (True, m1)" "k = (if 4096 * i + 4096 > n then n - 4096 * i else 4096)"
  shows "zero_range (pa + k) (4096 - k) m1 a =
    (if pa \<le> a \<and> a < pa + 4096 then image_byte f [flat_seg n] (4096 * (0x8000 + i) + (a - pa)) else m a)"
proof -
  have k: "4096 * i + k \<le> n" "k \<le> 4096" using assms(4,6) by auto
  have "m1 = put_bytes (pa + 0) (take (k - 0) (drop (4096 * i + 0) (fbytes f))) m"
    by (rule fill_done [OF assms(1) _ _ assms(5)]) (use k assms(2,3) in auto)
  then have m1: "m1 = put_bytes pa (take k (drop (4096 * i) (fbytes f))) m" by simp
  have len: "length (take k (drop (4096 * i) (fbytes f))) = k" using k assms(2) by simp
  show ?thesis
  proof (cases "pa \<le> a \<and> a < pa + 4096")
    case False
    then show ?thesis using k(2) unfolding m1 zero_range_def put_bytes_def len by auto
  next
    case True
    then obtain x where x: "a = pa + x" "x < 4096" by (metis add_less_cancel_left le_Suc_ex)
    have img: "image_byte f [flat_seg n] (4096 * (0x8000 + i) + (a - pa)) = (if 4096 * i + x < n then fbytes f ! (4096 * i + x) else 0)"
      unfolding flat_byte x(1) by (auto simp: algebra_simps)
    have "4096 * i + x < n \<longleftrightarrow> x < k" using assms(6) x(2) by auto
    then show ?thesis
      unfolding img m1 zero_range_def put_bytes_def len using True x k assms(2) by auto
  qed
qed

lemma load_flat_pages_loaded:
  assumes "loadable f [flat_seg n] c0" "n = length (fbytes f)" "0 < n" "n < 2147483648" "N = (n + 4095) div 4096" "i \<le> N"
    "i < N \<longrightarrow> l = 4096 * i" "loaded f [flat_seg n] c0 {0x8000..<0x8000 + i} c" "load_flat_pages f n [i..<N] l c = (0, fr, c')"
  shows "loaded f [flat_seg n] c0 {0x8000..<0x8000 + N} c'"
  using assms(6-9)
proof (induction "N - i" arbitrary: i l c)
  case 0
  then show ?case by simp
next
  case (Suc d)
  have i: "i < N" "[i..<N] = i # [Suc i..<N]" using Suc.hyps(2) by (simp_all add: upt_conv_Cons)
  have l: "l = 4096 * i" using Suc.prems(2) i(1) by simp
  have in_file: "4096 * i < n" using i(1) less_eq_div_iff_mult_less_eq [of 4096 "Suc i" "n + 4095"] unfolding assms(5) by simp
  let ?k = "if 4096 * i + 4096 > n then n - 4096 * i else 4096"
  have k: "(if w32 (l + PAGE_SIZE) > n then sub32 n l else PAGE_SIZE) = ?k"
    using in_file assms(4) by (simp add: l PAGE_SIZE_def)
  obtain page c1 where 1: "take_page c = (page, c1)" by fastforce
  have page: "page \<noteq> 0" using Suc.prems(4) 1 by (auto simp: i(2))
  let ?pa = "virt_to_phys page"
  obtain ok m where m: "fill f (unat ?pa) l ?k 0 (phys c1) = (ok, m)" by fastforce
  have ok: ok using Suc.prems(4) 1 page m unfolding i(2) load_flat_pages.simps k by (auto simp: Let_def split: if_splits)
  let ?c = "c1\<lparr>phys := zero_range (unat ?pa + ?k) (PAGE_SIZE - ?k) m\<rparr>"
  have va: "w32 (unat USER_TEXT_START + i * PAGE_SIZE) = 4096 * (0x8000 + i)"
    using in_file assms(4) by (simp add: USER_TEXT_START_def PAGE_SIZE_def)
  obtain r c2 where 2: "map_fresh (4096 * (0x8000 + i)) ?pa 7 ?c = (r, c2)" by fastforce
  have nr: "\<not> r < 0" and rest: "load_flat_pages f n [Suc i..<N] (w32 (l + ?k)) c2 = (0, fr, c')"
    using Suc.prems(4) 1 page m ok 2 unfolding i(2) load_flat_pages.simps k va by (auto simp: Let_def split: if_splits)
  have r: "r = 0" using 2 nr by (auto simp: map_fresh_def arch_mm_map_user_def Let_def split: prod.splits if_splits)
  have wr: "7 = (if page_writes [flat_seg n] (0x8000 + i) then 7 else (5 :: u32))"
    using flat_pages [OF assms(3)] i(1) assms(5) by (simp add: page_writes_def) (simp add: flat_seg_def)
  have "loaded f [flat_seg n] c0 (insert (0x8000 + i) {0x8000..<0x8000 + i}) c2"
  proof (rule loaded_insert [OF assms(1) Suc.prems(3) _ _ 1 page _ wr 2 [unfolded r]])
    show "0x8000 + i < 0xC0000" using in_file assms(4) by simp
    fix a
    show "zero_range (unat ?pa + ?k) (PAGE_SIZE - ?k) m a = (if unat ?pa \<le> a \<and> a < unat ?pa + 4096
      then image_byte f [flat_seg n] (4096 * (0x8000 + i) + (a - unat ?pa)) else phys c1 a)"
      unfolding PAGE_SIZE_def by (rule flat_page_bytes) (use assms m ok l in_file in \<open>auto simp: loadable_def\<close>)
  qed simp
  moreover have "insert (0x8000 + i) {0x8000..<0x8000 + i} = {0x8000..<0x8000 + Suc i}" by auto
  moreover have "Suc i < N \<longrightarrow> w32 (l + ?k) = 4096 * Suc i"
  proof
    assume "Suc i < N"
    then have "4096 * Suc i < n" using less_eq_div_iff_mult_less_eq [of 4096 "Suc (Suc i)" "n + 4095"] unfolding assms(5) by simp
    then show "w32 (l + ?k) = 4096 * Suc i" using assms(4) by (simp add: l)
  qed
  ultimately show ?case using Suc.hyps i(1) rest by (intro Suc.hyps(1) [of "Suc i" "w32 (l + ?k)" c2]) simp_all
qed

lemma load_flat_loaded:
  assumes "load_flat f (length (fbytes f)) st = (r, st')" "0 \<le> r" "pread_ok f" "0 < length (fbytes f)" "length (fbytes f) < 2 ^ 31"
    "no_user_pages (child (lmem st))"
    "distinct (fresh_frames (lmem st))" "\<forall>a \<in> set (fresh_frames (lmem st)). a mod 4096 = 0"
  shows "let n = length (fbytes f) in
    loaded f [flat_seg n] (lmem st) {0x8000..<0x8000 + (n + 4095) div 4096} (lmem st') \<and> r = 0 \<and>
    entry (limage st') = 0x8000000 \<and> img_code_end (limage st') = 0x8000000 + n"
proof -
  let ?n = "length (fbytes f)" and ?N = "(length (fbytes f) + 4095) div 4096"
  obtain q fr c where 1: "load_flat_pages f ?n [0..<w32 (?n + 4095) div PAGE_SIZE] 0 (lmem st) = (q, fr, c)" by (metis prod_cases3)
  have n31: "?n < 2147483648" using assms(5) by simp
  then have w: "w32 (?n + 4095) div PAGE_SIZE = ?N" by (simp add: PAGE_SIZE_def)
  have "load_flat_pages f n is l c0 = (r', fr', c') \<Longrightarrow> r' \<le> 0" for n "is" l c0 r' fr' c'
    by (induction f n "is" l c0 rule: load_flat_pages.induct) (auto simp: Let_def split: prod.splits if_splits)
  then have "q \<le> 0" using 1 by blast
  then have st: "q = 0" "r = 0" "lmem st' = c" "entry (limage st') = 0x8000000" "img_code_end (limage st') = 0x8000000 + ?n"
    using assms(1,2) 1 n31
    by (auto simp: load_flat_def Let_def take_ok_def USER_TEXT_START_def split: if_splits prod.splits option.splits list.splits)
  have ok: "loadable f [flat_seg ?n] (lmem st)" using assms n31 flat_seg_ok [OF assms(4) n31] by (simp add: loadable_def)
  have "loaded f [flat_seg ?n] (lmem st) {0x8000..<0x8000 + ?N} c"
    by (rule load_flat_pages_loaded [OF ok refl assms(4) n31 refl, of 0 0])
      (use loaded_start [OF ok assms(6)] 1 st(1) w in auto)
  then show ?thesis using st by (simp add: Let_def)
qed

text \<open>
  a flat image. If the loader succeeds on a file without ELF magic, the file is in memory at \<^verbatim>\<open>USER_TEXT_START\<close>,
  byte for byte, the rest of its last page is 0, the pages are writable, nothing else is mapped, and the program starts
  at its first byte.
\<close>

theorem load_flat_image:
  assumes "load_flat f (length (fbytes f)) st = (0, st')" "pread_ok f" "0 < length (fbytes f)" "length (fbytes f) < 2 ^ 31"
    "no_user_pages (child (lmem st))"
    "distinct (fresh_frames (lmem st))" "\<forall>a \<in> set (fresh_frames (lmem st)). a mod 4096 = 0"
  shows "let n = length (fbytes f); c = lmem st' in
    (\<forall>va. if 0x8000000 \<le> va \<and> va < 0x8000000 + 4096 * ((n + 4095) div 4096)
      then \<exists>pte a. mapped_pte (child c) va = Some pte \<and> pte_writable pte \<and> translate (child c) va = Some a \<and>
        phys c a = (if va < 0x8000000 + n then fbytes f ! (va - 0x8000000) else 0)
      else translate (child c) va = None) \<and>
    entry (limage st') = 0x8000000 \<and> img_code_end (limage st') = 0x8000000 + n"
proof -
  let ?n = "length (fbytes f)" and ?N = "(length (fbytes f) + 4095) div 4096"
  define c where "c = lmem st'"
  note L = load_flat_loaded [OF assms(1) _ assms(2-7), unfolded Let_def, simplified, folded c_def]
  note a = loaded_address [OF conjunct1 [OF L]]
  have "if 0x8000000 \<le> va \<and> va < 0x8000000 + 4096 * ?N
      then \<exists>pte a. mapped_pte (child c) va = Some pte \<and> pte_writable pte \<and> translate (child c) va = Some a \<and>
        phys c a = (if va < 0x8000000 + ?n then fbytes f ! (va - 0x8000000) else 0)
      else translate (child c) va = None" for va
  proof -
    have D: "va div 4096 \<in> {0x8000..<0x8000 + ?N} \<longleftrightarrow> 0x8000000 \<le> va \<and> va < 0x8000000 + 4096 * ?N"
      using div_less_iff_less_mult [of 4096 va "0x8000 + ?N"] less_eq_div_iff_mult_less_eq [of 4096 "0x8000" va] by (auto simp: algebra_simps)
    show ?thesis
    proof (cases "0x8000000 \<le> va \<and> va < 0x8000000 + 4096 * ?N")
      case True
      then have "page_writes [flat_seg ?n] (va div 4096)"
        using D flat_pages [OF assms(3)] by (simp add: page_writes_def) (simp add: flat_seg_def)
      then show ?thesis using a [of va] True D by (auto simp: flat_byte)
    next
      case False
      then show ?thesis using a [of va] D by auto
    qed
  qed
  then show ?thesis using L unfolding Let_def c_def [symmetric] by blast
qed

section \<open>Witnesses\<close>

text \<open>A file with one segment of four bytes of code and eight bytes of memory at the address of \<^verbatim>\<open>USER_TEXT_START\<close>.\<close>

definition demo_elf :: exec_file where
  "demo_elf = \<lparr>fbytes = [0x7F, 0x45, 0x4C, 0x46, 1, 1, 1, 0, 0, 0, 0, 0, 0, 0, 0, 0, 2, 0, 3, 0, 1, 0, 0, 0,
       0, 0, 0, 8, 52, 0, 0, 0, 0, 0, 0, 0, 0, 0, 0, 0, 52, 0, 32, 0, 1, 0, 0, 0, 0, 0, 0, 0,
       1, 0, 0, 0, 84, 0, 0, 0, 0, 0, 0, 8, 0, 0, 0, 0, 4, 0, 0, 0, 8, 0, 0, 0, 5, 0, 0, 0, 0, 16, 0, 0,
       0x90, 0x90, 0xEB, 0xFC],
     chunk = (\<lambda>off cnt. if off + cnt \<le> 88 then int cnt else if off \<le> 88 then int (88 - off) else 0)\<rparr>"

definition demo_load :: load_state where
  "demo_load = \<lparr>lmem = \<lparr>child = arch_mm_init (\<lambda>_. 0), phys = (\<lambda>_. 1), fresh_pages = [0xC0100000, 0xC0101000]\<rparr>, lvmas = [],
     vma_allocs = [True], lfreed = [], limage = \<lparr>entry = 0, img_code_start = 0, img_code_end = 0, img_brk_start = 0\<rparr>\<rparr>"

lemma demo_pread:
  "pread demo_elf 0 16 = (16, take 16 (fbytes demo_elf))" "pread demo_elf 0 52 = (52, take 52 (fbytes demo_elf))"
  "pread demo_elf 52 32 = (32, take 32 (drop 52 (fbytes demo_elf)))" "pread demo_elf 84 4 = (4, [0x90, 0x90, 0xEB, 0xFC])"
  by (simp_all add: pread_def) (simp_all add: demo_elf_def)

lemma demo_ident: "take 16 (fbytes demo_elf) = [0x7F, 0x45, 0x4C, 0x46, 1, 1, 1, 0, 0, 0, 0, 0, 0, 0, 0, 0]"
  by (simp add: demo_elf_def)

lemma demo_header: "ehdr_valid 88 (decode_ehdr (take 52 (fbytes demo_elf)))" "e_phnum (decode_ehdr (take 52 (fbytes demo_elf))) = 1"
  "e_phoff (decode_ehdr (take 52 (fbytes demo_elf))) = 52" "e_entry (decode_ehdr (take 52 (fbytes demo_elf))) = 0x8000000"
  by (simp_all add: demo_elf_def decode_ehdr_def ehdr_valid_def le16_def le32_def ELF_MAX_PHDRS_def)

abbreviation (input) "demo_seg \<equiv> \<lparr>vaddr = 0x8000000, filesz = 4, memsz = 8, offset = 84, flags = 5\<rparr>"

lemma demo_phdr: "p_type (decode_phdr (take 32 (drop 52 (fbytes demo_elf)))) = 1" "seg_of (decode_phdr (take 32 (drop 52 (fbytes demo_elf)))) = demo_seg"
    "p_memsz (decode_phdr (take 32 (drop 52 (fbytes demo_elf)))) = 8"
  by (simp_all add: demo_elf_def decode_phdr_def seg_of_def le16_def le32_def)

lemma demo_segments: "elf_segments demo_elf 88 (decode_ehdr (take 52 (fbytes demo_elf))) [0..<1] [] = Some [demo_seg]"
proof -
  have "p_vaddr ph = 0x8000000 \<and> p_filesz ph = 4 \<and> p_memsz ph = 8 \<and> p_offset ph = 84 \<and> p_flags ph = 5" if "seg_of ph = demo_seg" for ph
    using that by (simp add: seg_of_def)
  from this [OF demo_phdr(2)] show ?thesis
    by (simp add: demo_header demo_pread demo_phdr Let_def USER_STACK_TOP_def USER_STACK_SIZE_def)
qed

lemma demo_page: obtains c where "load_page demo_elf [demo_seg] 0x8000000 (lmem demo_load) = (0, [], c)"
proof -
  have "fill demo_elf dst 84 4 4 m = (True, m)" for dst m by (subst fill.simps) simp
  then have "fill demo_elf dst 84 4 0 m = (True, put_bytes dst [0x90, 0x90, 0xEB, 0xFC] m)" for dst m
    by (subst fill.simps) (simp add: demo_pread)
  then have "\<exists>c. load_page demo_elf [demo_seg] 0x8000000 (lmem demo_load) = (0, [], c)"
    by (simp add: load_page_def demo_load_def take_page_def Let_def copy_seg_def PAGE_SIZE_def page_pte_flags_def map_fresh_def
        arch_mm_init_def arch_mm_map_user_def)
  then show ?thesis using that by blast
qed

lemma demo_runs: obtains st' where "load_elf demo_elf 88 True True demo_load = (0, st')"
proof -
  obtain c where c: "load_page demo_elf [demo_seg] 0x8000000 (lmem demo_load) = (0, [], c)" by (rule demo_page)
  have "load_region demo_elf [demo_seg] 0x8001000 0x8001000 c = (0, [], c)" by (subst load_region.simps) simp
  then have "load_region demo_elf [demo_seg] 0x8000000 0x8001000 (lmem demo_load) = (0, [], c)"
    by (subst load_region.simps) (simp add: c PAGE_SIZE_def)
  moreover have "sort_segs [demo_seg] = [demo_seg]" by (simp add: sort_segs_sort_key)
  moreover have "elf_regions [demo_seg] = [(0x8000000, 0x8001000)]"
    by (simp add: elf_regions_def merge_region_def page_align_def page_align_down_def Let_def)
  ultimately have "\<exists>st'. elf_load_common demo_elf True [demo_seg] demo_load = (0, st')"
    by (simp add: elf_load_common_def Let_def take_ok_def vma_create_def) (simp add: demo_load_def)
  moreover have "elf_check_header demo_elf 88 = 0"
    by (simp add: elf_check_header_def demo_pread demo_ident elf_magic_def demo_header)
  ultimately have "\<exists>st'. load_elf demo_elf 88 True True demo_load = (0, st')"
    using demo_segments by (auto simp: load_elf_def elf32_load_def demo_pread demo_header Let_def)
  then show ?thesis using that by blast
qed

theorem elf_load_image_witness:
  "\<exists>st' a b. load_elf demo_elf 88 True True demo_load = (0, st') \<and>
    translate (child (lmem st')) 0x8000002 = Some a \<and> phys (lmem st') a = 0xEB \<and>
    translate (child (lmem st')) 0x8000FFF = Some b \<and> phys (lmem st') b = 0 \<and> translate (child (lmem st')) 0x8001000 = None"
proof -
  obtain st' where run: "load_elf demo_elf 88 True True demo_load = (0, st')" by (rule demo_runs)
  have ok: "pread_ok demo_elf" "length (fbytes demo_elf) = 88" "no_user_pages (child (lmem demo_load))"
    "distinct (fresh_frames (lmem demo_load))" "\<forall>a \<in> set (fresh_frames (lmem demo_load)). a mod 4096 = 0"
    by (auto simp: demo_elf_def pread_ok_def)
      (auto simp: demo_load_def no_user_pages_def mapped_pte_def lookup_pte_def arch_mm_init_def fresh_frames_def virt_to_phys_def KERNEL_VMA_def)
  have segs: "sort_key vaddr (load_segments demo_elf) = [demo_seg]"
    using demo_phdr demo_header by (simp add: load_segments_def header_of_def phdr_at_def)
  have pages: "seg_pages demo_seg = {0x8000}" by (auto simp: seg_pages_def)
  note im = elf_load_image [OF run [folded ok(2)] ok(1) _ ok(3-5), unfolded Let_def segs, THEN conjunct1, rule_format]
  show ?thesis
    using im [of "0x8000002"] im [of "0x8000FFF"] im [of "0x8001000"] ok(2) run
    by (auto simp: has_image_def pages image_byte_def covers_def) (auto simp: demo_elf_def)
qed

text \<open>A flat file of three bytes.\<close>

definition demo_flat :: exec_file where
  "demo_flat = \<lparr>fbytes = [0x90, 0xEB, 0xFD], chunk = (\<lambda>off cnt. if off + cnt \<le> 3 then int cnt else if off \<le> 3 then int (3 - off) else 0)\<rparr>"

theorem load_flat_image_witness:
  "\<exists>st' a. load_flat demo_flat 3 demo_load = (0, st') \<and> translate (child (lmem st')) 0x8000001 = Some a \<and> phys (lmem st') a = 0xEB"
proof -
  have "fill demo_flat dst 0 3 3 m = (True, m)" for dst m by (subst fill.simps) simp
  then have "fill demo_flat dst 0 3 0 m = (True, put_bytes dst [0x90, 0xEB, 0xFD] m)" for dst m
    by (subst fill.simps) (simp add: pread_def demo_flat_def)
  moreover have "[0..<w32 (3 + 4095) div PAGE_SIZE] = [0]" by (simp add: PAGE_SIZE_def)
  ultimately have "\<exists>st'. load_flat demo_flat 3 demo_load = (0, st')"
    by (simp add: load_flat_def demo_load_def take_page_def Let_def PAGE_SIZE_def map_fresh_def arch_mm_init_def arch_mm_map_user_def
        USER_TEXT_START_def take_ok_def vma_create_def)
  then obtain st' where run: "load_flat demo_flat 3 demo_load = (0, st')" by blast
  have ok: "pread_ok demo_flat" "length (fbytes demo_flat) = 3" "no_user_pages (child (lmem demo_load))"
    "distinct (fresh_frames (lmem demo_load))" "\<forall>a \<in> set (fresh_frames (lmem demo_load)). a mod 4096 = 0"
    by (auto simp: demo_flat_def pread_ok_def)
      (auto simp: demo_load_def no_user_pages_def mapped_pte_def lookup_pte_def arch_mm_init_def fresh_frames_def virt_to_phys_def KERNEL_VMA_def)
  note im = load_flat_image [OF run [folded ok(2)] ok(1) _ _ ok(3-5), unfolded Let_def, THEN conjunct1, rule_format]
  show ?thesis using im [of "0x8000001"] ok(2) run by (auto simp: demo_flat_def)
qed

end
