(* ===== verification/Exec_Process.thy ===== *)
theory Exec_Process
  imports Process Elf_Image
begin

text \<open>
  Program replacement and the first program: \<^verbatim>\<open>do_exec\<close> of \<^verbatim>\<open>kernel/process.c\<close> and \<^verbatim>\<open>spawn_init\<close> of
  \<^verbatim>\<open>kernel/spawn.c\<close>, over the state of \<open>Process\<close>. What the outside answers is a record: the driver's
  answers to open and seek, the file, and the results of the allocations.
\<close>

section \<open>The environment\<close>

record exec_env =
  x_fs :: int
  x_priv :: nat
  x_open :: "int \<times> nat"
  x_fifo :: "(int \<times> nat) option"
  x_file_struct :: nat
  x_fd_ok :: bool
  x_seek :: "(nat \<Rightarrow> int \<Rightarrow> int \<Rightarrow> nat option) option"
  x_file :: exec_file
  x_segs_ok :: bool
  x_regions_ok :: bool
  x_vma_oks :: "bool list"
  x_pages :: "u32 list"
  x_stack :: u32

text \<open>The last component of a path.\<close>

definition path_base :: "u8 list \<Rightarrow> u8 list" where
  "path_base p = rev (takeWhile (\<lambda>b. b \<noteq> 0x2F) (rev p))"

definition name_of :: "u8 list \<Rightarrow> string" where
  "name_of bs = map (\<lambda>b. char_of (unat b)) (take 31 bs)"

text \<open>The reset of the signal state.\<close>

definition reset_signals :: "task \<Rightarrow> task" where
  "reset_signals t = t\<lparr>sig_handlers := (\<lambda>_. 0), sig_hmask := (\<lambda>_. 0), sig_hflags := (\<lambda>_. 0), pending := 0, blocked := 0,
     sig_active := False, stop_sig := 0, stop_reported := False, continued := False\<rparr>"

definition start_load :: "exec_env \<Rightarrow> addr_space \<Rightarrow> (nat \<Rightarrow> u8) \<Rightarrow> vma list \<Rightarrow> load_state" where
  "start_load e sp m vs = \<lparr>lmem = \<lparr>child = sp, phys = m, fresh_pages = x_pages e\<rparr>, lvmas = vs, vma_allocs = x_vma_oks e,
     lfreed = [], limage = \<lparr>entry = 0, img_code_start = 0, img_code_end = 0, img_brk_start = 0\<rparr>\<rparr>"

definition store_load :: "nat \<Rightarrow> load_state \<Rightarrow> proc \<Rightarrow> proc" where
  "store_load p st s = s\<lparr>pvmas := (pvmas s)(p := lvmas st), spaces := (spaces s)(p := child (lmem st)), ram := phys (lmem st),
     freed_frames := freed_frames s @ lfreed st\<rparr>"

definition set_image :: "exec_image \<Rightarrow> task \<Rightarrow> task" where
  "set_image img t = t\<lparr>mm := (mm t)\<lparr>code_start := word_of_nat (img_code_start img), code_end := word_of_nat (img_code_end img),
     brk_start := word_of_nat (img_brk_start img), brk_end := word_of_nat (img_brk_start img)\<rparr>\<rparr>"

text \<open>The two pages of the stack, reached through the direct map.\<close>

definition stack_vaddr :: nat where
  "stack_vaddr = unat USER_STACK_TOP - 2 * PAGE_SIZE"

definition build_stack :: "u32 \<Rightarrow> exec_strings \<Rightarrow> exec_strings \<Rightarrow> (nat \<Rightarrow> u8) \<Rightarrow> (nat \<times> (nat \<Rightarrow> u8)) option" where
  "build_stack stack argv envp m =
     (let pa = unat (virt_to_phys stack) in
      case setup_initial_stack stack_vaddr argv envp (\<lambda>i. m (pa + i)) of
        None \<Rightarrow> None
      | Some (esp, m') \<Rightarrow> Some (esp, \<lambda>a. if pa \<le> a \<and> a < pa + 2 * PAGE_SIZE then m' (a - pa) else m a))"

definition stack_area :: "bool \<Rightarrow> task \<Rightarrow> vma option" where
  "stack_area ok t = vma_create ok (unat (stack_start (mm t))) (unat (stack_end (mm t))) (VM_READ OR VM_WRITE OR VM_GROWSDOWN) VMA_STACK"

section \<open>exec\<close>

datatype exec_outcome =
    Exec_fault
  | Exec_bad_driver
  | Exec_returns int proc
  | Exec_enters nat nat proc

text \<open>\<^verbatim>\<open>fs_close\<close> and return.\<close>

definition close_return :: "int \<Rightarrow> int \<Rightarrow> proc \<Rightarrow> exec_outcome" where
  "close_return fd r s = Exec_returns r (s\<lparr>pfs := snd (fs_close fd (pfs s))\<rparr>)"

text \<open>From the allocation of the stack on; the results of the two mappings are not looked at.\<close>

definition exec_stack :: "exec_env \<Rightarrow> exec_strings \<Rightarrow> exec_strings \<Rightarrow> load_state \<Rightarrow> proc \<Rightarrow> exec_outcome" where
  "exec_stack e argv envp st s =
     (let p = cur s in
      if x_stack e = 0 then Exec_returns (-ENOMEM) (store_load p st s)
      else
        let pa = virt_to_phys (x_stack e);
            c = snd (map_fresh stack_vaddr pa 7 (lmem st));
            c = snd (map_fresh (stack_vaddr + PAGE_SIZE) (pa + of_nat PAGE_SIZE) 7 c);
            st = st\<lparr>lmem := c\<rparr>
        in (case take_ok st of (ok, st) \<Rightarrow>
              let st = (case stack_area ok (ptask s p) of None \<Rightarrow> st | Some v \<Rightarrow> st\<lparr>lvmas := insert_vma v (lvmas st)\<rparr>)
              in (case build_stack (x_stack e) argv envp (phys (lmem st)) of
                    None \<Rightarrow> Exec_returns (-E2BIG) (store_load p st s)
                  | Some (esp, m) \<Rightarrow>
                      let s = (store_load p st s)\<lparr>ram := m\<rparr>;
                          s = s\<lparr>pfs := fs_close_on_exec (pfs s)\<rparr>
                      in Exec_enters (entry (limage st)) esp s)))"

text \<open>From the point of no return, the switch to the page tables of the kernel, on.\<close>

definition exec_replace :: "(nat \<Rightarrow> u32) \<Rightarrow> exec_env \<Rightarrow> exec_strings \<Rightarrow> exec_strings \<Rightarrow> int \<Rightarrow> nat \<Rightarrow> proc \<Rightarrow> exec_outcome" where
  "exec_replace tabs e argv envp fd sz s =
     (let p = cur s;
          s = upd_ptask p reset_signals (free_user_memory tabs p s)
      in case load_binary (x_file e) sz (x_segs_ok e) (x_regions_ok e) (start_load e (spaces s p) (ram s) (pvmas s p)) of
           (r, st) \<Rightarrow>
             if r < 0 then close_return fd (-ENOEXEC) (store_load p st s)
             else
               let s = s\<lparr>pfs := snd (fs_close fd (pfs s))\<rparr>
               in exec_stack e argv envp st (upd_ptask p (set_image (limage st)) s))"

definition exec_file_open :: "(nat \<Rightarrow> u32) \<Rightarrow> exec_env \<Rightarrow> exec_strings \<Rightarrow> exec_strings \<Rightarrow> proc \<Rightarrow> exec_outcome" where
  "exec_file_open tabs e argv envp s =
     (case fs_open (x_fs e) (x_priv e) O_RDONLY (x_open e) (x_fifo e) (x_file_struct e) (x_fd_ok e) (pfs s) of (fd, st) \<Rightarrow>
        let s = s\<lparr>pfs := st\<rparr> in
        if fd < 0 then Exec_returns (-ENOENT) s
        else (case fs_seek (x_seek e) fd 0 2 (pfs s) of
            None \<Rightarrow> Exec_bad_driver
          | Some (sz, st) \<Rightarrow>
              let s = s\<lparr>pfs := st\<rparr> in
              if sz \<le> 0 then close_return fd (-ENOEXEC) s
              else (case fs_seek (x_seek e) fd 0 0 (pfs s) of
                  None \<Rightarrow> Exec_bad_driver
                | Some (r, st) \<Rightarrow>
                    let s = s\<lparr>pfs := st\<rparr> in
                    if exec_format_check (x_file e) (nat sz) < 0 then close_return fd (-ENOEXEC) s
                    else exec_replace tabs e argv envp fd (nat sz) s)))"

definition do_exec :: "(nat \<Rightarrow> u32) \<Rightarrow> exec_env \<Rightarrow> nat \<Rightarrow> nat \<Rightarrow> nat \<Rightarrow> proc \<Rightarrow> exec_outcome" where
  "do_exec tabs e user_path user_argv user_envp s =
     (let p = cur s; u = (spaces s p, ram s) in
      if \<not> valid_user_pointer (spaces s p) user_path 1 then Exec_returns (-EFAULT) s
      else (case exec_string u user_path 255 of
          None \<Rightarrow> Exec_fault
        | Some None \<Rightarrow> Exec_returns (-EFAULT) s
        | Some (Some path) \<Rightarrow>
            let s = upd_ptask p (\<lambda>t. t\<lparr>tname := name_of (path_base path)\<rparr>) s in
            (case copy_exec_strings u user_argv of
               None \<Rightarrow> Exec_fault
             | Some None \<Rightarrow> Exec_returns (-EFAULT) s
             | Some (Some argv) \<Rightarrow>
                 (case copy_exec_strings u user_envp of
                    None \<Rightarrow> Exec_fault
                  | Some None \<Rightarrow> Exec_returns (-EFAULT) s
                  | Some (Some envp) \<Rightarrow>
                      if ptrs argv = [] \<and> length path + 1 > EXEC_MAX_DATA then Exec_returns (-E2BIG) s
                      else exec_file_open tabs e (default_argv path argv) envp s))))"

definition sys_exec :: "(nat \<Rightarrow> u32) \<Rightarrow> exec_env \<Rightarrow> nat \<Rightarrow> proc \<Rightarrow> exec_outcome" where
  "sys_exec tabs e path s = do_exec tabs e path 0 0 s"

definition sys_execv :: "(nat \<Rightarrow> u32) \<Rightarrow> exec_env \<Rightarrow> nat \<Rightarrow> nat \<Rightarrow> proc \<Rightarrow> exec_outcome" where
  "sys_execv tabs e path argv s = do_exec tabs e path argv 0 s"

definition sys_execve :: "(nat \<Rightarrow> u32) \<Rightarrow> exec_env \<Rightarrow> nat \<Rightarrow> nat \<Rightarrow> nat \<Rightarrow> proc \<Rightarrow> exec_outcome" where
  "sys_execve tabs e path argv envp s = do_exec tabs e path argv envp s"

section \<open>The first process\<close>

definition map_user_page :: "nat \<Rightarrow> u32 \<Rightarrow> u32 \<Rightarrow> copy_state \<Rightarrow> int \<times> copy_state" where
  "map_user_page va pa fl c = (if pdi va \<ge> 768 then (-1, c) else map_fresh va pa fl c)"

definition init_fields :: "task \<Rightarrow> task" where
  "init_fields t = t\<lparr>ppid := 0, tname := ''init'', cwd := ''/'', troot := ''/'',
     cred := (cred t)\<lparr>uid := 0, euid := 0, suid := 0, gid := 0, egid := 0, sgid := 0, fsuid := 0, fsgid := 0, groups := [],
       personality := 0, umask := 0\<rparr>,
     cleartid := 0, pgid := pid t, sid := pid t, itimer_remaining := 0, itimer_interval := 0, uticks := 0, sticks := 0,
     rlimit_cur := default_limits, rlimit_max := default_limits\<rparr>"

text \<open>\<^verbatim>\<open>{"init"}\<close> and \<^verbatim>\<open>{"PATH=/bin", "HOME=/"}\<close>.\<close>

definition bytes_of_string :: "string \<Rightarrow> u8 list" where
  "bytes_of_string s = map (\<lambda>c. of_nat (of_char c)) s"

definition init_argv :: exec_strings where
  "init_argv = \<lparr>ptrs = [0], data = bytes_of_string ''init'' @ [0]\<rparr>"

definition init_envp :: exec_strings where
  "init_envp = \<lparr>ptrs = [0, 10], data = bytes_of_string ''PATH=/bin'' @ [0] @ bytes_of_string ''HOME=/'' @ [0]\<rparr>"

text \<open>The task, the entry point and the stack pointer it is started with, or the failure.\<close>

definition spawn_fail :: "(nat \<Rightarrow> u32) \<Rightarrow> nat \<Rightarrow> proc \<Rightarrow> (nat \<times> nat) option \<times> proc" where
  "spawn_fail tabs c s = (None, release_task tabs c s)"

definition spawn_stack :: "(nat \<Rightarrow> u32) \<Rightarrow> exec_env \<Rightarrow> nat \<Rightarrow> load_state \<Rightarrow> proc \<Rightarrow> (nat \<times> nat) option \<times> proc" where
  "spawn_stack tabs e c st s =
     (if x_stack e = 0 then spawn_fail tabs c (store_load c st s)
      else
        let pa = virt_to_phys (x_stack e) in
        case map_user_page stack_vaddr pa 7 (lmem st) of (r1, m1) \<Rightarrow>
        if r1 < 0 then spawn_fail tabs c (store_load c (st\<lparr>lmem := m1\<rparr>) s)
        else (case map_user_page (stack_vaddr + PAGE_SIZE) (pa + of_nat PAGE_SIZE) 7 m1 of (r2, m2) \<Rightarrow>
          let st = st\<lparr>lmem := m2\<rparr> in
          if r2 < 0 then spawn_fail tabs c (store_load c st s)
          else (case build_stack (x_stack e) init_argv init_envp (phys m2) of
              None \<Rightarrow> spawn_fail tabs c (store_load c st s)
            | Some (esp, m) \<Rightarrow>
                (case take_ok st of (ok, st) \<Rightarrow>
                   let st = (case stack_area ok (ptask s c) of None \<Rightarrow> st | Some v \<Rightarrow> st\<lparr>lvmas := insert_vma v (lvmas st)\<rparr>);
                       s = (store_load c st s)\<lparr>ram := m\<rparr>;
                       s = upd_kern (\<lambda>k. add_task c (k\<lparr>tss_esp0 := kernel_stack (tsk k c) + KERNEL_STACK_SIZE\<rparr>))
                             (upd_ptask c (\<lambda>t. t\<lparr>tstate := TASK_READY\<rparr>) s)
                   in (Some (entry (limage st), esp), s)))))"

text \<open>A close of the file, then the failure.\<close>

definition spawn_close :: "(nat \<Rightarrow> u32) \<Rightarrow> int \<Rightarrow> nat \<Rightarrow> proc \<Rightarrow> (nat \<times> nat) option \<times> proc" where
  "spawn_close tabs fd c s = spawn_fail tabs c (s\<lparr>pfs := snd (fs_close fd (pfs s))\<rparr>)"

text \<open>\<open>None\<close>: the driver table is read outside its bounds.\<close>

definition spawn_load :: "(nat \<Rightarrow> u32) \<Rightarrow> exec_env \<Rightarrow> nat \<Rightarrow> proc \<Rightarrow> ((nat \<times> nat) option \<times> proc) option" where
  "spawn_load tabs e c s =
     (case fs_open (x_fs e) (x_priv e) O_RDONLY (x_open e) (x_fifo e) (x_file_struct e) (x_fd_ok e) (pfs s) of (fd, st) \<Rightarrow>
        let s = s\<lparr>pfs := st\<rparr> in
        if fd < 0 then Some (spawn_fail tabs c s)
        else (case fs_seek (x_seek e) fd 0 2 (pfs s) of
            None \<Rightarrow> None
          | Some (sz, st) \<Rightarrow>
              let s = s\<lparr>pfs := st\<rparr> in
              if sz \<le> 0 then Some (spawn_close tabs fd c s)
              else (case fs_seek (x_seek e) fd 0 0 (pfs s) of
                  None \<Rightarrow> None
                | Some (r, st) \<Rightarrow>
                    let s = s\<lparr>pfs := st\<rparr> in
                    if exec_format_check (x_file e) (nat sz) < 0 then Some (spawn_close tabs fd c s)
                    else (case load_binary (x_file e) (nat sz) (x_segs_ok e) (x_regions_ok e)
                                 (start_load e (spaces s c) (ram s) (pvmas s c)) of
                            (r, st) \<Rightarrow>
                              if r < 0 then Some (spawn_close tabs fd c (store_load c st s))
                              else
                                let s = s\<lparr>pfs := snd (fs_close fd (pfs s))\<rparr>
                                in Some (spawn_stack tabs e c st (upd_ptask c (set_image (limage st)) s))))))"

definition spawn_init :: "(nat \<Rightarrow> u32) \<Rightarrow> fork_env \<Rightarrow> exec_env \<Rightarrow> proc \<Rightarrow> ((nat \<times> nat) option \<times> proc) option" where
  "spawn_init tabs f e s =
     (case alloc_task (struct_ok f) (new_stack f) (new_pgd f) (pkern s) of
        (None, k) \<Rightarrow> Some (None, upd_kern (\<lambda>_. k) s)
      | (Some c, k) \<Rightarrow>
          let s = (upd_kern (\<lambda>_. k) s)\<lparr>pvmas := (pvmas s)(c := []), spaces := (spaces s)(c := arch_mm_init (boot_pgd f))\<rparr>
          in spawn_load tabs e c (upd_ptask c init_fields s))"

end
