(* ===== verification/Fork.thy ===== *)
theory Fork
  imports Process
begin

text \<open>
  What \<^verbatim>\<open>fork\<close> does: the child it makes, the reference counts of the files the two processes share,
  and what an allocation failure half-way leaves behind.
\<close>

section \<open>The pieces\<close>

lemma upd_kern_simps [simp]:
  "pfs (upd_kern f s) = (pfs s)\<lparr>kern := f (pkern s)\<rparr>" "pvmas (upd_kern f s) = pvmas s" "spaces (upd_kern f s) = spaces s"
  "ram (upd_kern f s) = ram s" "freed_frames (upd_kern f s) = freed_frames s" "pwrites (upd_kern f s) = pwrites s"
  by (simp_all add: upd_kern_def)

lemma upd_ptask_simps [simp]:
  "pfs (upd_ptask p f s) = (pfs s)\<lparr>kern := upd_task p f (pkern s)\<rparr>" "pvmas (upd_ptask p f s) = pvmas s"
  "spaces (upd_ptask p f s) = spaces s" "ram (upd_ptask p f s) = ram s"
  "freed_frames (upd_ptask p f s) = freed_frames s" "pwrites (upd_ptask p f s) = pwrites s"
  by (simp_all add: upd_ptask_def)

definition share_all :: "fd_entry list \<Rightarrow> (nat \<Rightarrow> open_file) \<Rightarrow> nat \<Rightarrow> open_file" where
  "share_all es g a = (g a)\<lparr>refcount := refcount (g a) + (if a = 0 then 0 else int (count_list (map fd_file es) a))\<rparr>"

lemma share_all_Nil [simp]: "share_all [] g = g"
  by (simp add: share_all_def fun_eq_iff)

lemma share_all_Cons:
  "share_all es (ofile (if fd_file e \<noteq> 0 then share_file (fd_file e) st else st)) = share_all (e # es) (ofile st)"
  by (auto simp: share_all_def share_file_def upd_file_def fun_eq_iff)

lemma fork_fds_split:
  "\<exists>es1 es2. es = es1 @ es2 \<and> (fst (fork_fds c oks es st) \<longleftrightarrow> es2 = []) \<and>
     snd (fork_fds c oks es st) = st\<lparr>kern := upd_task c (\<lambda>t. t\<lparr>files := files t @ es1\<rparr>) (kern st),
       ofile := share_all es1 (ofile st)\<rparr>"
proof (induction c oks es st rule: fork_fds.induct)
  case (3 c ok oks e es st)
  show ?case
  proof (cases ok)
    case True
    let ?s = "if fd_file e \<noteq> 0 then share_file (fd_file e) st else st"
    let ?st = "?s\<lparr>kern := upd_task c (\<lambda>t. t\<lparr>files := files t @ [e]\<rparr>) (kern ?s)\<rparr>"
    have "\<not> \<not> ok" using True by simp
    from "3.IH" [OF this refl refl] obtain es1 es2 where es: "es = es1 @ es2" "fst (fork_fds c oks es ?st) \<longleftrightarrow> es2 = []"
      "snd (fork_fds c oks es ?st) = ?st\<lparr>kern := upd_task c (\<lambda>t. t\<lparr>files := files t @ es1\<rparr>) (kern ?st), ofile := share_all es1 (ofile ?st)\<rparr>"
      by blast
    have o: "ofile ?st = ofile ?s" by simp
    have "snd (fork_fds c oks es ?st) = st\<lparr>kern := upd_task c (\<lambda>t. t\<lparr>files := files t @ e # es1\<rparr>) (kern st), ofile := share_all (e # es1) (ofile st)\<rparr>"
      unfolding es(3) o share_all_Cons by (simp add: upd_task_def share_file_def upd_file_def)
    then show ?thesis using es(1,2) True by (intro exI [of _ "e # es1"] exI [of _ es2]) (simp add: Let_def)
  next
    case False
    then show ?thesis by (intro exI [of _ "[]"] exI [of _ "e # es"]) (simp add: upd_task_def)
  qed
next
  case (2 c e es st)
  show ?case by (intro exI [of _ "[]"] exI [of _ "e # es"]) (simp add: upd_task_def)
qed (simp add: upd_task_def)

lemma fork_cleanup_simps:
  assumes "c \<noteq> 0"
  shows "pfs (fork_cleanup_failed tabs p c s) = (pfs s)\<lparr>kern := free_task c (upd_task p (\<lambda>t. t\<lparr>children := remove1 c (children t)\<rparr>) (pkern s))\<rparr>"
  using assms by (simp add: fork_cleanup_failed_def release_task_def unlink_child_def split: prod.splits)

section \<open>How fork ends\<close>

text \<open>The state in which the child has been allocated, filled in and linked to its parent.\<close>

definition new_task :: "fork_env \<Rightarrow> nat \<Rightarrow> task" where
  "new_task e c = init_task_mm (new_pgd e) (zero_task\<lparr>rlimit_cur := default_limits, rlimit_max := default_limits, pid := c,
     tstate := TASK_READY, next_fd := 0, kernel_stack := new_stack e, kernel_esp := new_stack e + KERNEL_STACK_SIZE\<rparr>)"

definition fork_base :: "fork_env \<Rightarrow> proc \<Rightarrow> proc" where
  "fork_base e s = (let p = cur s; c = next_pid (pkern s); k = snd (alloc_task True (new_stack e) (new_pgd e) (pkern s)) in
     upd_ptask p (\<lambda>t. t\<lparr>children := children t @ [c]\<rparr>) (upd_ptask c (fork_fields (ptask s p))
       ((upd_kern (\<lambda>_. k) s)\<lparr>pvmas := (pvmas s)(c := []), spaces := (spaces s)(c := arch_mm_init (boot_pgd e))\<rparr>)))"

lemma fork_base_facts:
  assumes "cur s \<noteq> next_pid (pkern s)" "new_stack e \<noteq> 0"
  shows "tasks (pkern (fork_base e s)) = (tasks (pkern s))(cur s := (ptask s (cur s))\<lparr>children := children (ptask s (cur s)) @ [next_pid (pkern s)]\<rparr>,
       next_pid (pkern s) := fork_fields (ptask s (cur s)) (new_task e (next_pid (pkern s))))"
    "task_list (pkern (fork_base e s)) = task_list (pkern s)" "cur (fork_base e s) = cur s"
    "next_pid (pkern (fork_base e s)) = w32 (next_pid (pkern s) + 1)"
    "tss_esp0 (pkern (fork_base e s)) = tss_esp0 (pkern s)" "cr3 (pkern (fork_base e s)) = cr3 (pkern s)"
    "pvmas (fork_base e s) = (pvmas s)(next_pid (pkern s) := [])" "spaces (fork_base e s) = (spaces s)(next_pid (pkern s) := arch_mm_init (boot_pgd e))"
    "ram (fork_base e s) = ram s" "ofile (pfs (fork_base e s)) = ofile (pfs s)" "live (pfs (fork_base e s)) = live (pfs s)"
    "events (pfs (fork_base e s)) = events (pfs s)"
  using assms by (simp_all add: fork_base_def Let_def alloc_task_def new_task_def fun_eq_iff)

lemma new_task_simps [simp]:
  "pid (fork_fields t (new_task e c)) = c" "files (fork_fields t (new_task e c)) = []" "pgd_phys (mm (fork_fields t (new_task e c))) = new_pgd e"
  "ppid (fork_fields t (new_task e c)) = pid t" "children (fork_fields t (new_task e c)) = []"
  by (simp_all add: fork_fields_def new_task_def init_task_mm_def zero_task_def)

lemma sys_fork_unfold:
  assumes "cur s \<noteq> next_pid (pkern s)"
  shows "sys_fork tabs e s =
    (if \<not> struct_ok e \<or> new_stack e = 0
     then (-ENOMEM, upd_kern (\<lambda>k. snd (alloc_task (struct_ok e) (new_stack e) (new_pgd e) k)) s)
     else case fork_fds (next_pid (pkern s)) (fd_oks e) (files (ptask s (cur s))) (pfs (fork_base e s)) of (ok, st) \<Rightarrow>
       let s2 = (fork_base e s)\<lparr>pfs := st\<rparr>
       in if \<not> ok then (-1, fork_cleanup_failed tabs (cur s) (next_pid (pkern s)) s2) else fork_memory tabs e (next_pid (pkern s)) s2)"
  using assms by (auto simp: sys_fork_def fork_base_def alloc_task_def Let_def split: prod.splits)

text \<open>The child's task structure after a successful fork.\<close>

definition child_task :: "fork_env \<Rightarrow> nat \<Rightarrow> task \<Rightarrow> task" where
  "child_task e c par = (fork_fields par (new_task e c))\<lparr>files := files par, mm := (mm par)\<lparr>pgd_phys := new_pgd e\<rparr>, tstate := TASK_READY\<rparr>"

definition forked :: "fork_env \<Rightarrow> proc \<Rightarrow> proc \<Rightarrow> vma list \<Rightarrow> copy_state \<Rightarrow> bool" where
  "forked e s s' vs cs \<longleftrightarrow> (let p = cur s; c = next_pid (pkern s); par = ptask s p in
     fork_vmas (vma_oks e) (pvmas s p) [] = (True, vs) \<and>
     arch_mm_copy_user (spaces s p) \<lparr>child = arch_mm_init (boot_pgd e), phys = ram s, fresh_pages = copy_pages e\<rparr> = Inr cs \<and>
     tasks (pkern s') = (tasks (pkern s))(p := par\<lparr>children := children par @ [c]\<rparr>, c := child_task e c par) \<and>
     task_list (pkern s') = task_list (pkern s) @ [c] \<and> cur s' = p \<and> next_pid (pkern s') = w32 (c + 1) \<and>
     ofile (pfs s') = share_all (files par) (ofile (pfs s)) \<and> live (pfs s') = live (pfs s) \<and> events (pfs s') = events (pfs s) \<and>
     pvmas s' = (pvmas s)(c := vs) \<and> spaces s' = (spaces s)(c := copy_state.child cs) \<and> ram s' = phys cs \<and>
     tss_esp0 (pkern s') = tss_esp0 (pkern s) \<and> cr3 (pkern s') = cr3 (pkern s))"

lemma forkedD:
  assumes "forked e s s' vs cs"
  shows "fork_vmas (vma_oks e) (pvmas s (cur s)) [] = (True, vs)"
    "arch_mm_copy_user (spaces s (cur s)) \<lparr>child = arch_mm_init (boot_pgd e), phys = ram s, fresh_pages = copy_pages e\<rparr> = Inr cs"
    "tasks (pkern s') = (tasks (pkern s))(cur s := (ptask s (cur s))\<lparr>children := children (ptask s (cur s)) @ [next_pid (pkern s)]\<rparr>,
        next_pid (pkern s) := child_task e (next_pid (pkern s)) (ptask s (cur s)))"
    "task_list (pkern s') = task_list (pkern s) @ [next_pid (pkern s)]" "cur s' = cur s" "next_pid (pkern s') = w32 (next_pid (pkern s) + 1)"
    "ofile (pfs s') = share_all (files (ptask s (cur s))) (ofile (pfs s))" "live (pfs s') = live (pfs s)" "events (pfs s') = events (pfs s)"
    "pvmas s' = (pvmas s)(next_pid (pkern s) := vs)" "spaces s' = (spaces s)(next_pid (pkern s) := copy_state.child cs)" "ram s' = phys cs"
    "tss_esp0 (pkern s') = tss_esp0 (pkern s)" "cr3 (pkern s') = cr3 (pkern s)"
  using assms by (simp_all add: forked_def Let_def)

text \<open>Whether \<open>fork_memory\<close> fails or not, what it does to the tables.\<close>

lemma fork_memory_cases:
  assumes "fork_memory tabs e c s = (r, s')"
  obtains (fail) "r = -1" "c \<noteq> 0 \<Longrightarrow> pkern s' = free_task c (upd_task (cur s) (\<lambda>t. t\<lparr>children := remove1 c (children t)\<rparr>) (pkern s))"
  | (copied) vs cs where "fork_vmas (vma_oks e) (pvmas s (cur s)) [] = (True, vs)"
      "arch_mm_copy_user (spaces s (cur s)) \<lparr>child = spaces s c, phys = ram s, fresh_pages = copy_pages e\<rparr> = Inr cs"
      "r = to_int (pid (ptask s c))"
      "s' = upd_kern (add_task c) (upd_ptask c (\<lambda>t. t\<lparr>mm := (mm (ptask s (cur s)))\<lparr>pgd_phys := pgd_phys (mm t)\<rparr>, tstate := TASK_READY\<rparr>)
         (s\<lparr>pvmas := (pvmas s)(c := vs), spaces := (spaces s)(c := copy_state.child cs), ram := phys cs\<rparr>))"
  using assms by (auto simp: fork_memory_def Let_def fork_cleanup_simps split: prod.splits if_splits sum.splits)

lemma sys_fork_success:
  assumes "sys_fork tabs e s = (r, s')" "0 < r" "cur s \<noteq> next_pid (pkern s)"
  obtains vs cs where "forked e s s' vs cs" "r = to_int (next_pid (pkern s))"
proof -
  let ?p = "cur s" and ?c = "next_pid (pkern s)" and ?b = "fork_base e s"
  have a: "struct_ok e" "new_stack e \<noteq> 0" using assms(1,2) by (auto simp: sys_fork_unfold [OF assms(3)] split: if_splits)
  note b = fork_base_facts [OF assms(3) a(2)]
  obtain ok st where st: "fork_fds ?c (fd_oks e) (files (ptask s ?p)) (pfs ?b) = (ok, st)" by fastforce
  have ok: "ok" "fork_memory tabs e ?c (?b\<lparr>pfs := st\<rparr>) = (r, s')"
    using assms(1,2) a st by (auto simp: sys_fork_unfold [OF assms(3)] Let_def split: if_splits)
  have st': "st = (pfs ?b)\<lparr>kern := upd_task ?c (\<lambda>t. t\<lparr>files := files t @ files (ptask s ?p)\<rparr>) (pkern ?b),
      ofile := share_all (files (ptask s ?p)) (ofile (pfs ?b))\<rparr>"
    using fork_fds_split [of "files (ptask s ?p)" ?c "fd_oks e" "pfs ?b"] ok(1) st by auto
  from ok(2) show ?thesis
  proof (cases rule: fork_memory_cases)
    case (copied vs cs)
    have "tasks (pkern s') = (tasks (pkern s))(?p := (ptask s ?p)\<lparr>children := children (ptask s ?p) @ [?c]\<rparr>, ?c := child_task e ?c (ptask s ?p))"
      using assms(3) by (simp add: copied(4) st' b add_task_def child_task_def fun_eq_iff)
    moreover have "task_list (pkern s') = task_list (pkern s) @ [?c]" "cur s' = ?p" "next_pid (pkern s') = w32 (?c + 1)"
      "ofile (pfs s') = share_all (files (ptask s ?p)) (ofile (pfs s))" "live (pfs s') = live (pfs s)" "events (pfs s') = events (pfs s)"
      "pvmas s' = (pvmas s)(?c := vs)" "spaces s' = (spaces s)(?c := copy_state.child cs)" "ram s' = phys cs"
      "tss_esp0 (pkern s') = tss_esp0 (pkern s)" "cr3 (pkern s') = cr3 (pkern s)"
      by (simp_all add: copied(4) st' b add_task_def)
    moreover have "fork_vmas (vma_oks e) (pvmas s ?p) [] = (True, vs)"
      "arch_mm_copy_user (spaces s ?p) \<lparr>child = arch_mm_init (boot_pgd e), phys = ram s, fresh_pages = copy_pages e\<rparr> = Inr cs"
      using copied(1,2) assms(3) by (simp_all add: st' b)
    ultimately have "forked e s s' vs cs" unfolding forked_def Let_def by blast
    then show ?thesis by (rule that) (use copied(3) b st' in simp)
  qed (use assms(2) in simp)
qed

text \<open>When fork fails, the tables are as before but for the child's number, which is used up.\<close>

lemma sys_fork_failure:
  assumes "sys_fork tabs e s = (r, s')" "\<not> 0 < r" "cur s \<noteq> next_pid (pkern s)" "0 < next_pid (pkern s)" "next_pid (pkern s) < 2147483648"
    "next_pid (pkern s) \<notin> set (children (ptask s (cur s)))"
  shows "task_list (pkern s') = task_list (pkern s)" "cur s' = cur s" "next_pid (pkern s') \<in> {next_pid (pkern s), next_pid (pkern s) + 1}"
    "tss_esp0 (pkern s') = tss_esp0 (pkern s)" "cr3 (pkern s') = cr3 (pkern s)"
    "q \<noteq> next_pid (pkern s) \<Longrightarrow> ptask s' q = ptask s q" "pid (ptask s (next_pid (pkern s))) = next_pid (pkern s) \<Longrightarrow> pid (ptask s' (next_pid (pkern s))) = next_pid (pkern s)"
proof -
  let ?p = "cur s" and ?c = "next_pid (pkern s)" and ?b = "fork_base e s"
  let ?same = "\<lambda>k. task_list k = task_list (pkern s) \<and> current k = cur s \<and> next_pid k \<in> {?c, ?c + 1} \<and> tss_esp0 k = tss_esp0 (pkern s) \<and>
    cr3 k = cr3 (pkern s) \<and> (\<forall>q. q \<noteq> ?c \<longrightarrow> tsk k q = ptask s q) \<and> (pid (ptask s ?c) = ?c \<longrightarrow> pid (tsk k ?c) = ?c)"
  have "?same (pkern s')"
  proof (cases "\<not> struct_ok e \<or> new_stack e = 0")
    case True
    then have "sys_fork tabs e s = (-ENOMEM, upd_kern (\<lambda>k. snd (alloc_task (struct_ok e) (new_stack e) (new_pgd e) k)) s)"
      by (simp add: sys_fork_unfold [OF assms(3)])
    then have "pkern s' = snd (alloc_task (struct_ok e) (new_stack e) (new_pgd e) (pkern s))" using assms(1) by auto
    then show ?thesis using True assms(5) by (auto simp: alloc_task_def Let_def)
  next
    case False
    note b = fork_base_facts [OF assms(3), of e]
    obtain ok st where st: "fork_fds ?c (fd_oks e) (files (ptask s ?p)) (pfs ?b) = (ok, st)" by fastforce
    obtain es1 es2 where kst: "kern st = upd_task ?c (\<lambda>t. t\<lparr>files := files t @ es1\<rparr>) (pkern ?b)"
      using fork_fds_split [of "files (ptask s ?p)" ?c "fd_oks e" "pfs ?b"] st by fastforce
    have cst: "current (kern st) = cur s" using kst b(3) False by simp
    have "pkern s' = free_task ?c (upd_task ?p (\<lambda>t. t\<lparr>children := remove1 ?c (children t)\<rparr>) (kern st))"
    proof (cases ok)
      case True
      then have "fork_memory tabs e ?c (?b\<lparr>pfs := st\<rparr>) = (r, s')"
        using assms(1) False st by (simp add: sys_fork_unfold [OF assms(3)] Let_def)
      then show ?thesis
      proof (cases rule: fork_memory_cases)
        case fail
        then show ?thesis using assms(4) cst by simp
      next
        case (copied vs cs)
        then show ?thesis using assms(2,4,5) kst b False assms(3) by simp
      qed
    next
      case False2: False
      then show ?thesis
        using assms(1,4) False st by (auto simp: sys_fork_unfold [OF assms(3)] Let_def fork_cleanup_simps)
    qed
    moreover have "remove1 ?c (children (ptask s ?p) @ [?c]) = children (ptask s ?p)" using assms(6) by (simp add: remove1_append)
    ultimately show ?thesis using kst b assms(3-5) False by (auto simp: free_task_def)
  qed
  then show "task_list (pkern s') = task_list (pkern s)" "cur s' = cur s" "next_pid (pkern s') \<in> {?c, ?c + 1}"
    "tss_esp0 (pkern s') = tss_esp0 (pkern s)" "cr3 (pkern s') = cr3 (pkern s)"
    "q \<noteq> ?c \<Longrightarrow> ptask s' q = ptask s q" "pid (ptask s ?c) = ?c \<Longrightarrow> pid (ptask s' ?c) = ?c"
    by blast+
qed

section \<open>Areas\<close>

lemma page_align_aligned: "a mod 4096 = 0 \<Longrightarrow> a < 4294967296 \<Longrightarrow> page_align a = a" "a mod 4096 = 0 \<Longrightarrow> page_align_down a = a"
proof -
  assume a: "a mod 4096 = 0"
  then obtain q where q: "a = 4096 * q" by auto
  then show "page_align_down a = a" by (simp add: page_align_down_def)
  assume "a < 4294967296"
  then have "q < 1048576" using q by simp
  then have "w32 (a + 4095) = a + 4095" using q by (intro w32_id) simp
  moreover have "(4096 * q + 4095) div 4096 = q" by simp
  ultimately show "page_align a = a" unfolding page_align_def q by simp
qed

lemma insert_vma_last: "\<forall>x \<in> set vs. vm_start x \<le> vm_start v \<Longrightarrow> insert_vma v vs = vs @ [v]"
  by (induction vs) auto

lemma fork_vmas_copies:
  assumes "fork_vmas oks vs [] = (True, cvs)" "vmas_ok vs"
  shows "cvs = map (\<lambda>v. v\<lparr>vm_phys_base := 0\<rparr>) vs"
proof -
  have "fork_vmas oks vs acc = (True, cvs) \<Longrightarrow> vmas_ok vs \<Longrightarrow> \<forall>x \<in> set acc. \<forall>v \<in> set vs. vm_start x \<le> vm_start v \<Longrightarrow>
      cvs = acc @ map (\<lambda>v. v\<lparr>vm_phys_base := 0\<rparr>) vs" for acc
  proof (induction oks vs acc rule: fork_vmas.induct)
    case (3 ok oks v vs acc)
    have v: "vm_start v mod 4096 = 0" "vm_end v mod 4096 = 0" "vm_end v < 4294967296" "vm_start v < vm_end v"
      and rest: "vmas_ok vs" "\<forall>x \<in> set vs. vm_end v \<le> vm_start x"
      using "3.prems"(2) by (auto simp: vmas_ok_def)
    have ok using "3.prems"(1) by (auto simp: vma_create_def split: if_splits)
    let ?x = "\<lparr>vm_start = vm_start v, vm_end = vm_end v, vm_flags = vm_flags v, vm_type = vm_type v, vm_fd = -1,
      vm_file_off = 0, vm_shared = False, vm_phys_base = 0\<rparr>"
    let ?y = "?x\<lparr>vm_fd := vm_fd v, vm_file_off := vm_file_off v, vm_shared := vm_shared v\<rparr>" and ?cv = "v\<lparr>vm_phys_base := 0\<rparr>"
    have cr: "vma_create ok (vm_start v) (vm_end v) (vm_flags v) (vm_type v) = Some ?x"
      using v \<open>ok\<close> by (simp add: vma_create_def page_align_aligned)
    have y: "?y = ?cv" by (cases v) simp
    have step: "fork_vmas oks vs (insert_vma ?y acc) = (True, cvs)"
      using "3.prems"(1) unfolding fork_vmas.simps cr option.case .
    have ins: "insert_vma ?cv acc = acc @ [?cv]"
      using "3.prems"(3) by (intro insert_vma_last) auto
    have le: "\<forall>x \<in> set (acc @ [?cv]). \<forall>w \<in> set vs. vm_start x \<le> vm_start w"
      using "3.prems"(3) rest(2) v(4) by fastforce
    have "cvs = (acc @ [?cv]) @ map (\<lambda>v. v\<lparr>vm_phys_base := 0\<rparr>) vs"
      by (rule "3.IH" [OF cr, unfolded y ins, OF step [unfolded y ins] rest(1) le])
    then show ?case by simp
  qed simp_all
  from this [OF assms(1,2)] show ?thesis by simp
qed

section \<open>The child\<close>

lemma fork_refs:
  assumes "file_inv (pfs s)" "next_pid (pkern s) \<notin> set (task_list (pkern s))"
    "tasks k' = (tasks (pkern s))(cur s := (ptask s (cur s))\<lparr>children := cs\<rparr>, next_pid (pkern s) := t)"
    "task_list k' = task_list (pkern s) @ [next_pid (pkern s)]" "files t = files (ptask s (cur s))"
  shows "refs k' a = refs (pkern s) a + count_list (map fd_file (files (ptask s (cur s)))) a"
proof -
  let ?c = "next_pid (pkern s)" and ?T = "set (task_list (pkern s))"
  have "cur s \<in> ?T" using assms(1) by (simp add: file_inv_def inv_ext_iff)
  then have "cur s \<noteq> ?c" using assms(2) by auto
  have "(\<Sum>p \<in> ?T. count_list (map fd_file (files (tsk k' p))) a) = (\<Sum>p \<in> ?T. count_list (map fd_file (files (tsk (pkern s) p))) a)"
    by (rule sum.cong) (use assms(2,3) in auto)
  then show ?thesis using assms(2,4,5) by (simp add: refs_def assms(3) del: fun_upd_apply) (simp add: assms(3))
qed

text \<open>
  fork shares the open files. The child gets the descriptors of the parent with their numbers and
  close-on-exec flags, and afterwards every open file again counts exactly the descriptors of all
  tasks, the child's included, so that it is freed with the last of them.
\<close>

theorem fork_shares_files:
  assumes "file_inv (pfs s)" "next_pid (pkern s) \<notin> set (task_list (pkern s))" "sys_fork tabs e s = (r, s')" "0 < r"
  shows "file_inv (pfs s') \<and> next_pid (pkern s) \<in> set (task_list (pkern s')) \<and>
    files (ptask s' (next_pid (pkern s))) = files (ptask s (cur s)) \<and>
    files (ptask s' (cur s)) = files (ptask s (cur s)) \<and>
    (\<forall>a. live (pfs s) a \<longrightarrow> refcount (ofile (pfs s') a) =
       refcount (ofile (pfs s) a) + int (count_list (map fd_file (files (ptask s (cur s)))) a))"
proof -
  let ?c = "next_pid (pkern s)" and ?p = "cur s"
  have p: "?p \<in> set (task_list (pkern s))" "\<forall>q \<in> set (task_list (pkern s)). fds_ok (ptask s q)"
    and cnt: "\<And>a. live (pfs s) a \<longleftrightarrow> 0 < refs (pkern s) a" "\<And>a. live (pfs s) a \<longrightarrow> refcount (ofile (pfs s) a) = int (refs (pkern s) a)"
    using assms(1) by (auto simp: file_inv_def inv_ext_iff)
  have ne: "?p \<noteq> ?c" using p(1) assms(2) by auto
  obtain vs cs where F: "forked e s s' vs cs" by (rule sys_fork_success [OF assms(3,4) ne])
  note f = forkedD [OF F]
  have ct: "files (child_task e ?c (ptask s ?p)) = files (ptask s ?p)" "next_fd (child_task e ?c (ptask s ?p)) = next_fd (ptask s ?p)"
    by (simp_all add: child_task_def fork_fields_def)
  note r = fork_refs [OF assms(1,2) f(3,4) ct(1)]
  have z: "count_list (map fd_file (files (ptask s ?p))) 0 = 0"
    using p unfolding fds_ok_def count_list_0_iff by fastforce
  have le: "count_list (map fd_file (files (ptask s ?p))) a \<le> refs (pkern s) a" for a
    unfolding refs_def using p(1) by (intro member_le_sum) auto
  have rc: "refcount (ofile (pfs s') a) = refcount (ofile (pfs s) a) + int (count_list (map fd_file (files (ptask s ?p))) a)" for a
    by (auto simp: f(7) share_all_def z)
  have "fds_ok (ptask s' q)" if "q \<in> set (task_list (pkern s'))" for q
    using that p ct f(4) by (auto simp: f(3) fds_ok_def)
  moreover have "live (pfs s) a \<longleftrightarrow> 0 < refs (pkern s') a" for a using cnt(1) [of a] le [of a] unfolding r by auto
  ultimately have "file_inv (pfs s')"
    unfolding file_inv_def inv_ext_iff f(5,8) using cnt(2) rc f(4) p(1) by (simp add: r flip: of_nat_add)
  then show ?thesis using f(3,4) ct ne rc by simp
qed

text \<open>
  the child is a copy of the parent: a new pid, the parent as its parent and last in the parent's
  list of children, same group, session, credentials, limits, handlers and directories; no pending or blocked
  signal and no timer; the same areas; it is ready to run, and no other task is changed.
\<close>

theorem fork_child:
  assumes "sys_fork tabs e s = (r, s')" "0 < r" "cur s \<noteq> next_pid (pkern s)" "vmas_ok (pvmas s (cur s))"
  shows "let c = next_pid (pkern s); par = ptask s (cur s); ch = ptask s' c in
    r = to_int c \<and> pid ch = c \<and> ppid ch = pid par \<and> children (ptask s' (cur s)) = children par @ [c] \<and>
    tstate ch = TASK_READY \<and> children ch = [] \<and> pgid ch = pgid par \<and> sid ch = sid par \<and> cred ch = cred par \<and> rlimit_cur ch = rlimit_cur par \<and>
    sig_handlers ch = sig_handlers par \<and> cwd ch = cwd par \<and> troot ch = troot par \<and>
    pending ch = 0 \<and> blocked ch = 0 \<and> itimer_remaining ch = 0 \<and> cleartid ch = 0 \<and> priority ch = priority par \<and>
    mm ch = (mm par)\<lparr>pgd_phys := new_pgd e\<rparr> \<and>
    pvmas s' c = map (\<lambda>v. v\<lparr>vm_phys_base := 0\<rparr>) (pvmas s (cur s)) \<and>
    task_list (pkern s') = task_list (pkern s) @ [c] \<and> cur s' = cur s \<and>
    (\<forall>q. q \<noteq> c \<longrightarrow> q \<noteq> cur s \<longrightarrow> ptask s' q = ptask s q \<and> pvmas s' q = pvmas s q \<and> spaces s' q = spaces s q)"
proof -
  let ?c = "next_pid (pkern s)" and ?p = "cur s"
  obtain vs cs where F: "forked e s s' vs cs" "r = to_int ?c" by (rule sys_fork_success [OF assms(1-3)])
  note f = forkedD [OF F(1)]
  note vs = fork_vmas_copies [OF f(1) assms(4)]
  have ch: "ptask s' ?c = child_task e ?c (ptask s ?p)" by (simp add: f(3))
  show ?thesis
    unfolding Let_def ch using F(2) f(4,5,10,11) vs assms(3)
    by (simp add: f(3) child_task_def fork_fields_def new_task_def init_task_mm_def zero_task_def)
qed

text \<open>
  C6: fork copies the memory. Every user address is mapped in the child exactly when it is in the parent,
  with the same byte; the parent's memory is as it was, and whatever the child stores at a user address
  leaves every byte that the parent sees unchanged.
\<close>

theorem fork_memory_private:
  assumes "sys_fork tabs e s = (r, s')" "0 < r" "cur s \<noteq> next_pid (pkern s)"
    "good_pages (spaces s (cur s)) \<lparr>child = arch_mm_init (boot_pgd e), phys = ram s, fresh_pages = copy_pages e\<rparr>"
    "va < 0xC0000000"
  shows "spaces s' (cur s) = spaces s (cur s) \<and>
    (case translate (spaces s (cur s)) va of
       None \<Rightarrow> translate (spaces s' (next_pid (pkern s))) va = None
     | Some a \<Rightarrow> ram s' a = ram s a \<and>
         read_user (spaces s' (next_pid (pkern s))) (ram s') va 1 = Some [ram s a] \<and>
         (\<forall>x m vb a'. write_user (spaces s' (next_pid (pkern s))) va [x] (ram s') = Some m \<longrightarrow>
            translate (spaces s (cur s)) vb = Some a' \<longrightarrow> m a' = ram s' a'))"
proof -
  let ?c = "next_pid (pkern s)" and ?p = "cur s"
  let ?init = "\<lparr>child = arch_mm_init (boot_pgd e), phys = ram s, fresh_pages = copy_pages e\<rparr>"
  obtain vs cs where F: "forked e s s' vs cs" by (rule sys_fork_success [OF assms(1-3)])
  note f = forkedD [OF F]
  have "\<forall>i j. \<not> present_at (copy_state.child ?init) i j" by (simp add: entry_at_def arch_mm_init_def pte_present_def)
  note cp = copy_user_correct [OF f(2) assms(4) this assms(5)]
  show ?thesis
  proof (cases "translate (spaces s ?p) va")
    case None
    then show ?thesis using cp assms(3) f(11) by simp
  next
    case (Some a)
    with cp obtain b where b: "phys cs a = ram s a" "translate (copy_state.child cs) va = Some b" "phys cs b = ram s a"
      "b - b mod 4096 \<in> set (fresh_frames ?init)" by auto
    have "a' \<noteq> b" if "translate (spaces s ?p) vb = Some a'" for vb a'
    proof
      assume ab: "a' = b"
      have tr: "present_at (spaces s ?p) (pdi vb) (pti vb)" "a' = frame_at (spaces s ?p) (pdi vb) (pti vb) + vb mod 4096"
        using that by (auto simp: translate_entry split: if_splits)
      have "frame_at (spaces s ?p) (pdi vb) (pti vb) \<notin> set (fresh_frames ?init)"
        using assms(4) tr(1) by (simp add: good_pages_def)
      moreover have "a' - a' mod 4096 = frame_at (spaces s ?p) (pdi vb) (pti vb)"
        using frame_aligned [of "spaces s ?p" "pdi vb" "pti vb"] unfolding tr(2) by auto
      ultimately show False using b(4) ab by simp
    qed
    then show ?thesis using Some b assms(3) f(11,12) by auto
  qed
qed

text \<open>
  an allocation failure half-way leaks the files. When there is no memory for one of the descriptors
  of the child, fork fails, but the reference counts of the files before it stay raised: the
  task structure of the child is given up without dropping them. The invariant of the open files is
  broken for good, and such a file is not closed with its last descriptor.
\<close>

theorem fork_failure_leaks:
  assumes "file_inv (pfs s)" "next_pid (pkern s) \<notin> set (task_list (pkern s))" "next_pid (pkern s) \<noteq> 0"
    "struct_ok e" "new_stack e \<noteq> 0" "files (ptask s (cur s)) = es1 @ x # es2"
    "fd_oks e = replicate (length es1) True @ [False]" "y \<in> set es1"
  shows "let (r, s') = sys_fork tabs e s; a = fd_file y in
    r = -1 \<and> task_list (pkern s') = task_list (pkern s) \<and> live (pfs s') a \<and>
    refcount (ofile (pfs s') a) = int (refs (pkern s') a) + int (count_list (map fd_file es1) a) \<and> \<not> file_inv (pfs s')"
proof -
  let ?c = "next_pid (pkern s)" and ?p = "cur s" and ?a = "fd_file y"
  have p: "?p \<in> set (task_list (pkern s))" "\<forall>q \<in> set (task_list (pkern s)). fds_ok (ptask s q)"
    and cnt: "\<And>a. live (pfs s) a \<longleftrightarrow> 0 < refs (pkern s) a" "\<And>a. live (pfs s) a \<longrightarrow> refcount (ofile (pfs s) a) = int (refs (pkern s) a)"
    using assms(1) by (auto simp: file_inv_def inv_ext_iff)
  have ne: "?p \<noteq> ?c" using p(1) assms(2) by auto
  have y: "y \<in> set (files (ptask s ?p))" using assms(6,8) by simp
  have "0 < count_list (map fd_file (files (ptask s ?p))) ?a"
    using y count_list_0_iff [of "map fd_file (files (ptask s ?p))" ?a] by fastforce
  then have "refs (pkern s) ?a > 0" unfolding refs_def using p(1) by (intro sum_pos2 [of _ ?p]) auto
  then have lv: "live (pfs s) ?a" using cnt(1) by simp
  have y0: "?a \<noteq> 0" using p y by (auto simp: fds_ok_def)
  have cf: "fork_fds c (replicate (length es1) True @ [False]) (es1 @ x # es2) st =
      (False, snd (fork_fds c (replicate (length es1) True) es1 st))" for c st
    by (induction es1 arbitrary: st) (simp_all add: Let_def)
  have sp: "fst (fork_fds c (replicate (length es1) True) es1 st)" for c st
    by (induction es1 arbitrary: st) (simp_all add: Let_def)
  have sn: "snd (fork_fds c (replicate (length es1) True) es1 st) =
      st\<lparr>kern := upd_task c (\<lambda>t. t\<lparr>files := files t @ es1\<rparr>) (kern st), ofile := share_all es1 (ofile st)\<rparr>" for c st
    using fork_fds_split [of es1 c "replicate (length es1) True" st] sp by auto
  obtain s' where s': "sys_fork tabs e s = (-1, s')" "task_list (pkern s') = task_list (pkern s)" "live (pfs s') = live (pfs s)"
      "ofile (pfs s') = share_all es1 (ofile (pfs s))" "\<And>q. q \<noteq> ?c \<Longrightarrow> files (ptask s' q) = files (ptask s q)"
    using assms(3-5) ne
    by (auto simp: sys_fork_def alloc_task_def Let_def assms(6,7) cf sn fork_cleanup_simps free_task_def)
  have "files (ptask s' q) = files (ptask s q)" if "q \<in> set (task_list (pkern s))" for q
    by (rule s'(5)) (use assms(2) that in auto)
  then have "refs (pkern s') = refs (pkern s)" unfolding refs_def s'(2) by (intro HOL.ext sum.cong) simp_all
  moreover have "refcount (ofile (pfs s') ?a) = refcount (ofile (pfs s) ?a) + int (count_list (map fd_file es1) ?a)"
    using y0 by (simp add: s'(4) share_all_def)
  moreover have "count_list (map fd_file es1) ?a > 0" using assms(8) by (simp add: count_list_0_iff flip: neq0_conv)
  ultimately show ?thesis
    using s'(1-3) lv cnt by (auto simp: file_inv_def inv_ext_iff)
qed

section \<open>Witnesses\<close>

definition demo_proc :: proc where
  "demo_proc = \<lparr>pfs = demo_fstate, pvmas = (\<lambda>_. [demo_area 0 4096]), spaces = (\<lambda>_. one_page 0), ram = phys demo_copy,
     freed_frames = [], pwrites = []\<rparr>"

definition demo_fork :: "bool \<Rightarrow> fork_env" where
  "demo_fork ok = \<lparr>struct_ok = True, new_stack = 0xC0200000, new_pgd = 0x300000, boot_pgd = (\<lambda>_. 0), fd_oks = [True, ok],
     vma_oks = [True], copy_pages = fresh_pages demo_copy\<rparr>"

lemma demo_proc_facts:
  "file_inv (pfs demo_proc)" "next_pid (pkern demo_proc) = 100" "cur demo_proc = 1" "task_list (pkern demo_proc) = [0, 1, 2]"
  "files (ptask demo_proc 1) = [\<lparr>fd_num = 0, fd_file = 10, cloexec = False\<rparr>, \<lparr>fd_num = 1, fd_file = 10, cloexec = True\<rparr>]"
  "vmas_ok (pvmas demo_proc 1)"
  by (simp add: demo_proc_def demo_fstate_inv) (simp_all add: demo_proc_def demo_fstate_def demo_kernel_def vmas_ok_def demo_area_def)

lemma demo_fork_runs: obtains s' where "sys_fork (\<lambda>_. 0) (demo_fork True) demo_proc = (100, s')"
proof -
  obtain c where c: "arch_mm_copy_user (one_page 0) demo_copy = Inr c" by (rule demo_copy_runs)
  have d: "\<lparr>child = arch_mm_init (\<lambda>_. 0), phys = phys demo_copy, fresh_pages = fresh_pages demo_copy\<rparr> = demo_copy"
    by (simp add: demo_copy_def)
  show ?thesis
    by (rule that [of "snd (sys_fork (\<lambda>_. 0) (demo_fork True) demo_proc)"])
      (simp add: sys_fork_def alloc_task_def fork_memory_def demo_fork_def demo_proc_def demo_fstate_def demo_kernel_def
        demo_area_def vma_create_def upd_task_def upd_kern_def upd_ptask_def share_file_def upd_file_def fork_fields_def init_task_mm_def c d)
qed

theorem fork_shares_files_witness:
  "file_inv (pfs (snd (sys_fork (\<lambda>_. 0) (demo_fork True) demo_proc)))"
proof -
  obtain s' where r: "sys_fork (\<lambda>_. 0) (demo_fork True) demo_proc = (100, s')" by (rule demo_fork_runs)
  show ?thesis using fork_shares_files [OF demo_proc_facts(1) _ r] demo_proc_facts(2,4) by (simp add: r)
qed

theorem fork_child_witness:
  "ppid (ptask (snd (sys_fork (\<lambda>_. 0) (demo_fork True) demo_proc)) 100) = 1"
proof -
  obtain s' where r: "sys_fork (\<lambda>_. 0) (demo_fork True) demo_proc = (100, s')" by (rule demo_fork_runs)
  have "pid (ptask demo_proc 1) = 1" by (simp add: demo_proc_def demo_fstate_def demo_kernel_def)
  then show ?thesis using fork_child [OF r] demo_proc_facts unfolding r by (simp add: Let_def)
qed

theorem fork_memory_private_witness:
  "read_user (spaces (snd (sys_fork (\<lambda>_. 0) (demo_fork True) demo_proc)) 100)
     (ram (snd (sys_fork (\<lambda>_. 0) (demo_fork True) demo_proc))) 0x123 1 = Some [7]"
proof -
  obtain s' where r: "sys_fork (\<lambda>_. 0) (demo_fork True) demo_proc = (100, s')" by (rule demo_fork_runs)
  have d: "\<lparr>child = arch_mm_init (\<lambda>_. 0), phys = phys demo_copy, fresh_pages = fresh_pages demo_copy\<rparr> = demo_copy"
    "phys demo_copy 0x5123 = 7"
    by (simp_all add: demo_copy_def)
  have s: "spaces demo_proc 1 = one_page 0" "ram demo_proc = phys demo_copy" by (simp_all add: demo_proc_def)
  have g: "good_pages (spaces demo_proc (cur demo_proc))
      \<lparr>child = arch_mm_init (boot_pgd (demo_fork True)), phys = ram demo_proc, fresh_pages = copy_pages (demo_fork True)\<rparr>"
    using demo_copy_facts(1) unfolding demo_proc_facts(3) s by (simp add: demo_fork_def d)
  have "cur demo_proc \<noteq> next_pid (pkern demo_proc)" by (simp add: demo_proc_facts(2,3))
  from fork_memory_private [OF r _ this g, of "0x123"] show ?thesis
    unfolding r demo_proc_facts(2,3) s demo_copy_facts(3) by (simp add: d(2))
qed

theorem fork_failure_leaks_witness:
  "\<not> file_inv (pfs (snd (sys_fork (\<lambda>_. 0) (demo_fork False) demo_proc)))"
proof -
  have "files (ptask demo_proc (cur demo_proc)) = [\<lparr>fd_num = 0, fd_file = 10, cloexec = False\<rparr>] @ \<lparr>fd_num = 1, fd_file = 10, cloexec = True\<rparr> # []"
    unfolding demo_proc_facts(3) demo_proc_facts(5) by simp
  from fork_failure_leaks [OF demo_proc_facts(1) _ _ _ _ this, of "demo_fork False" "\<lparr>fd_num = 0, fd_file = 10, cloexec = False\<rparr>" "\<lambda>_. 0"] show ?thesis
    by (simp add: demo_proc_facts(2,4) demo_fork_def split: prod.splits)
qed

end
