(* ===== verification/Exit_Wait.thy ===== *)
theory Exit_Wait
  imports Fork
begin

text \<open>
  The life of a process: the family tree under every system call that changes it, exit, and the wait of
  the parent. The transitions of the process table are the step relation \<open>proc_step\<close>; the properties
  of reachable tables are proved by rule induction.
\<close>

section \<open>What leaves the family tree alone\<close>

definition same_family :: "kernel \<Rightarrow> kernel \<Rightarrow> bool" where
  "same_family k l \<longleftrightarrow> task_list k = task_list l \<and> next_pid k = next_pid l \<and>
     (\<forall>p. ppid (tsk k p) = ppid (tsk l p) \<and> children (tsk k p) = children (tsk l p) \<and>
        exit_code (tsk k p) = exit_code (tsk l p) \<and>
        (state_of k p = TASK_ZOMBIE \<longleftrightarrow> state_of l p = TASK_ZOMBIE))"

lemma same_family_refl [simp]: "same_family k k"
  by (simp add: same_family_def)

lemma same_family_trans: "same_family k l \<Longrightarrow> same_family l m \<Longrightarrow> same_family k m"
  by (simp add: same_family_def)

lemma same_family_upd:
  "(\<And>t. ppid (f t) = ppid t \<and> children (f t) = children t \<and> exit_code (f t) = exit_code t \<and>
     (tstate (f t) = TASK_ZOMBIE \<longleftrightarrow> tstate t = TASK_ZOMBIE)) \<Longrightarrow> same_family (upd_task p f k) k"
  by (simp add: same_family_def)

lemma same_family_wake [simp]: "same_family (wake_up q k) k"
  by (simp add: same_family_def)

lemma same_family_set_files: "same_family (kern (set_files es st)) (kern st)"
  by (simp add: set_files_def same_family_def)

lemma same_family_put: "same_family (kern (open_file_put a st)) (kern st)"
  by (simp add: open_file_put_def locks_release_file_def upd_file_def Let_def same_family_def)

lemma same_family_close: "same_family (kern (snd (fs_close fd st))) (kern st)"
  using same_family_trans [OF same_family_set_files same_family_put]
  by (auto simp: fs_close_def free_fd_entry_def split: option.splits)

lemma same_family_close_all: "same_family (kern (close_all_fds st)) (kern st)"
proof -
  have "same_family (kern (fold (\<lambda>e st. snd (fs_close (fd_num e) st)) es st)) (kern st)" for es
    by (induction es arbitrary: st) (simp, simp, blast intro: same_family_trans same_family_close)
  then show ?thesis by (simp add: close_all_fds_def)
qed

lemma same_family_send: "same_family (snd (send_signal q n k)) k"
  by (auto simp: send_signal_def wake_parent_def Let_def same_family_def split: option.splits)

lemma same_family_schedule: "sched_inv k \<Longrightarrow> state_of k 0 \<noteq> TASK_ZOMBIE \<Longrightarrow> same_family (schedule k) k"
proof -
  assume k: "sched_inv k" "state_of k 0 \<noteq> TASK_ZOMBIE"
  obtain n k1 where p: "pick_next_task k = (n, k1)" by fastforce
  note pk = pick_in_list [OF k(1) p]
  have "same_family k1 k" using pk k(2) by (auto simp: same_family_def intro!: gr0I split: if_splits)
  then show ?thesis
    using pk by (auto simp: schedule_def p Let_def same_family_def intro!: gr0I split: if_splits)
qed

section \<open>Closing the descriptors\<close>

lemma close_fold_files:
  "cur_files st = es \<Longrightarrow> distinct (map fd_num es) \<Longrightarrow> cur_files (fold (\<lambda>e st. snd (fs_close (fd_num e) st)) es st) = []"
proof (induction es arbitrary: st)
  case (Cons e es)
  have c: "cur_files (open_file_put a st) = cur_files st" for a
    by (cases "a = 0") (simp add: open_file_put_def, simp)
  have "cur_files (snd (fs_close (fd_num e) st)) = es"
    using Cons.prems(1) c by (simp add: fs_close_def find_fd_entry_def free_fd_entry_def)
  then show ?case using Cons.IH Cons.prems(2) by simp
qed simp

lemma cur_close: "current (kern (snd (fs_close fd st))) = current (kern st)"
  by (auto simp: fs_close_def free_fd_entry_def set_files_def open_file_put_def locks_release_file_def upd_file_def Let_def split: option.splits)

lemma close_all_fds_facts:
  shows "file_inv st \<Longrightarrow> file_inv (close_all_fds st)" "distinct (map fd_num (cur_files st)) \<Longrightarrow> cur_files (close_all_fds st) = []"
    "current (kern (close_all_fds st)) = current (kern st)"
proof -
  have eq: "fold (\<lambda>e st. snd (fs_close (fd_num e) st)) es st = fold (\<lambda>e st. if True then snd (fs_close (fd_num e) st) else st) es st" for es
    by simp
  show "file_inv st \<Longrightarrow> file_inv (close_all_fds st)"
    using inv_fold_close [of True st "\<lambda>_. True"] unfolding file_inv_def close_all_fds_def by simp
  show "distinct (map fd_num (cur_files st)) \<Longrightarrow> cur_files (close_all_fds st) = []"
    by (simp add: close_all_fds_def close_fold_files)
  have "current (kern (fold (\<lambda>e st. snd (fs_close (fd_num e) st)) es st)) = current (kern st)" for es
    by (induction es arbitrary: st) (simp_all add: cur_close)
  then show "current (kern (close_all_fds st)) = current (kern st)" by (simp add: close_all_fds_def)
qed

section \<open>The family tree\<close>

text \<open>
  Every task but the kernel's and init is in the list of children of the task its \<^verbatim>\<open>ppid\<close> names, once, and
  in no other list; a zombie has no children.
\<close>

definition member_ok :: "kernel \<Rightarrow> nat \<Rightarrow> bool" where
  "member_ok k p \<longleftrightarrow> p < next_pid k \<and> distinct (children (tsk k p)) \<and>
     (\<forall>c \<in> set (children (tsk k p)). c \<in> set (task_list k) \<and> ppid (tsk k c) = p \<and> c \<noteq> 0 \<and> c \<noteq> p) \<and>
     (state_of k p = TASK_ZOMBIE \<longrightarrow> children (tsk k p) = []) \<and>
     (p \<noteq> 0 \<and> p \<noteq> 1 \<longrightarrow> ppid (tsk k p) \<in> set (task_list k) \<and> p \<in> set (children (tsk k (ppid (tsk k p)))))"

definition family_core :: "kernel \<Rightarrow> bool" where
  "family_core k \<longleftrightarrow> sched_inv k \<and> distinct (task_list k) \<and> state_of k 0 \<noteq> TASK_ZOMBIE \<and>
     1 \<in> set (task_list k) \<and> state_of k 1 \<noteq> TASK_ZOMBIE \<and> ppid (tsk k 1) = 0 \<and> (\<forall>p \<in> set (task_list k). member_ok k p)"

definition family_ok :: "kernel \<Rightarrow> bool" where
  "family_ok k \<longleftrightarrow> family_core k \<and> state_of k (current k) \<noteq> TASK_ZOMBIE"

lemma family_core_tree:
  assumes "family_core k" "task_list k' = task_list k" "next_pid k' = next_pid k" "sched_inv k'"
    "\<And>p. ppid (tsk k' p) = ppid (tsk k p) \<and> children (tsk k' p) = children (tsk k p) \<and>
       (state_of k' p = TASK_ZOMBIE \<longleftrightarrow> state_of k p = TASK_ZOMBIE)"
  shows "family_core k'"
  using assms by (simp add: family_core_def member_ok_def)

lemma family_core_cong: "family_core k \<Longrightarrow> same_family k' k \<Longrightarrow> sched_inv k' \<Longrightarrow> family_core k'"
  by (rule family_core_tree) (simp_all add: same_family_def)

lemma family_member: "family_core k \<Longrightarrow> p \<in> set (task_list k) \<Longrightarrow> member_ok k p"
  by (simp add: family_core_def)

lemma family_child:
  "family_core k \<Longrightarrow> p \<in> set (task_list k) \<Longrightarrow> c \<in> set (children (tsk k p)) \<Longrightarrow>
    c \<in> set (task_list k) \<and> ppid (tsk k c) = p \<and> c \<noteq> 0 \<and> c \<noteq> p"
  using family_member [of k p] by (simp add: member_ok_def)

lemma family_zombie: "family_core k \<Longrightarrow> p \<in> set (task_list k) \<Longrightarrow> state_of k p = TASK_ZOMBIE \<Longrightarrow> children (tsk k p) = []"
  using family_member [of k p] by (simp add: member_ok_def)

lemma family_distinct: "family_core k \<Longrightarrow> p \<in> set (task_list k) \<Longrightarrow> distinct (children (tsk k p)) \<and> distinct (task_list k)"
  using family_member [of k p] by (simp add: member_ok_def family_core_def)

lemma family_pid: "family_core k \<Longrightarrow> pid (tsk k p) = p"
  by (simp add: family_core_def sched_inv_def)

lemma family_init: "family_core k \<Longrightarrow> find_task_by_pid 1 k = Some 1"
  by (rule find_task_by_pid_eq) (auto simp: family_core_def)

lemma unlink_simps [simp]:
  "pkern (unlink_child p c s) = upd_task p (\<lambda>t. t\<lparr>children := remove1 c (children t)\<rparr>) (pkern s)"
  by (simp add: unlink_child_def)

lemma release_simps [simp]: "pkern (release_task tabs p s) = (if p = 0 then pkern s else free_task p (pkern s))"
  by (simp add: release_task_def split: prod.splits)

text \<open>Taking a zombie out of the tables.\<close>

lemma reap_family:
  assumes "family_core k" "p \<in> set (task_list k)" "c \<in> set (children (tsk k p))" "state_of k c = TASK_ZOMBIE" "c \<noteq> current k"
  defines "k' \<equiv> free_task c (remove_task c (upd_task p (\<lambda>t. t\<lparr>children := remove1 c (children t)\<rparr>) k))"
  shows "family_core k'" "children (tsk k' p) = remove1 c (children (tsk k p))" "task_list k' = remove1 c (task_list k)"
proof -
  note f = assms(1) [unfolded family_core_def]
  have c: "c \<in> set (task_list k)" "ppid (tsk k c) = p" "c \<noteq> 0" using family_child [OF assms(1-3)] by blast+
  then have c: "c \<in> set (task_list k)" "ppid (tsk k c) = p" "c \<noteq> 0" "children (tsk k c) = []" "c \<noteq> 1" "p \<noteq> c"
    using f assms(3,4) family_zombie [OF assms(1)] by auto
  have k': "tasks k' = (tasks k)(p := (tsk k p)\<lparr>children := remove1 c (children (tsk k p))\<rparr>)" "task_list k' = remove1 c (task_list k)"
    "current k' = current k" "next_pid k' = next_pid k" "tss_esp0 k' = tss_esp0 k" "cr3 k' = cr3 k"
    using c(3) by (simp_all add: k'_def free_task_def remove_task_def)
  have d: "distinct (task_list k)" "set (remove1 c (task_list k)) = set (task_list k) - {c}"
    "distinct (children (tsk k p))" "set (remove1 c (children (tsk k p))) = set (children (tsk k p)) - {c}"
    using family_distinct [OF assms(1,2)] by (auto simp: set_remove1_eq)
  have mem: "member_ok k q" if "q \<in> set (task_list k)" for q using f that by blast
  have ch: "children (tsk k' q) = (if q = p then remove1 c (children (tsk k p)) else children (tsk k q))"
    "ppid (tsk k' q) = ppid (tsk k q)" "tstate (tsk k' q) = tstate (tsk k q)" for q
    by (simp_all add: k')
  have "sched_inv k'"
    using f assms(5) d(1,2) c(3) unfolding sched_inv_def sane_priorities_def k' by (auto simp: distinct_remove1)
  moreover have "member_ok k' q" if "q \<in> set (task_list k')" for q
  proof -
    have q: "q \<in> set (task_list k)" "q \<noteq> c" using that d k'(2) by auto
    note m = mem [OF q(1), unfolded member_ok_def]
    have no_c: "c \<notin> set (children (tsk k' q))"
    proof (cases "q = p")
      case False
      then show ?thesis using m c(2) ch(1) by auto
    qed (use ch(1) d in simp)
    have sub: "set (children (tsk k' q)) \<subseteq> set (children (tsk k q))" using d ch(1) by auto
    have "distinct (children (tsk k' q))" using m d(3) by (simp add: ch(1) distinct_remove1)
    moreover have "\<forall>x \<in> set (children (tsk k' q)). x \<in> set (task_list k') \<and> ppid (tsk k' x) = q \<and> x \<noteq> 0 \<and> x \<noteq> q"
      using m sub no_c d(2) k'(2) ch(2) by (auto simp: subset_iff)
    moreover have "state_of k' q = TASK_ZOMBIE \<longrightarrow> children (tsk k' q) = []" using m ch(3) sub by auto
    moreover have "ppid (tsk k' q) \<in> set (task_list k') \<and> q \<in> set (children (tsk k' (ppid (tsk k' q))))" if "q \<noteq> 0" "q \<noteq> 1"
    proof -
      have pq: "ppid (tsk k q) \<in> set (task_list k)" "q \<in> set (children (tsk k (ppid (tsk k q))))" using m that by blast+
      then have "ppid (tsk k q) \<noteq> c" using c(4) by auto
      then show ?thesis using pq d k'(2) ch q(2) by auto
    qed
    ultimately show ?thesis using m by (simp add: member_ok_def k'(4))
  qed
  ultimately show "family_core k'"
    using f d(1,2) c(5) ch(2,3) unfolding family_core_def k'(2) by (auto simp: distinct_remove1)
  show "children (tsk k' p) = remove1 c (children (tsk k p))" "task_list k' = remove1 c (task_list k)"
    by (simp_all add: k')
qed

text \<open>Handing a live child to init.\<close>

lemma reparent_family:
  assumes "family_core k" "p \<in> set (task_list k)" "c \<in> set (children (tsk k p))" "p \<noteq> 0" "p \<noteq> 1" "state_of k c \<noteq> TASK_ZOMBIE"
  defines "k' \<equiv> upd_task 1 (\<lambda>t. t\<lparr>children := children t @ [c]\<rparr>) (upd_task c (\<lambda>t. t\<lparr>ppid := 1\<rparr>)
      (upd_task p (\<lambda>t. t\<lparr>children := remove1 c (children t)\<rparr>) k))"
  shows "family_core k'" "children (tsk k' p) = remove1 c (children (tsk k p))" "task_list k' = task_list k"
proof -
  note f = assms(1) [unfolded family_core_def]
  have c: "c \<in> set (task_list k)" "ppid (tsk k c) = p" "c \<noteq> 0" "c \<noteq> 1" using family_child [OF assms(1-3)] f assms(4) by auto
  have ch: "children (tsk k' q) = (if q = p then remove1 c (children (tsk k p)) else if q = 1 then children (tsk k 1) @ [c] else children (tsk k q))" for q
    using assms(5) by (auto simp: k'_def)
  have pp: "ppid (tsk k' q) = (if q = c then 1 else ppid (tsk k q))" "tstate (tsk k' q) = tstate (tsk k q)" for q
    by (simp_all add: k'_def)
  have l: "task_list k' = task_list k" "next_pid k' = next_pid k" by (simp_all add: k'_def)
  have d: "distinct (children (tsk k p))" "set (remove1 c (children (tsk k p))) = set (children (tsk k p)) - {c}"
    using family_distinct [OF assms(1,2)] by (auto simp: set_remove1_eq)
  have other: "c \<notin> set (children (tsk k q))" if "q \<in> set (task_list k)" "q \<noteq> p" for q
    using family_child [OF assms(1) that(1)] that(2) c(2) by blast
  have "sched_inv k'" unfolding k'_def by (intro sched_inv_upd) (use f in \<open>simp_all add: harmless_def\<close>)
  moreover have "member_ok k' q" if "q \<in> set (task_list k')" for q
  proof -
    have q: "q \<in> set (task_list k)" using that l by simp
    have m: "member_ok k q" "member_ok k 1" using f q by auto
    note m = m(1) [unfolded member_ok_def] m(2) [unfolded member_ok_def]
    have "distinct (children (tsk k' q))"
      using m d(1) other [of 1] f assms(5) by (auto simp: ch distinct_remove1)
    moreover have "\<forall>x \<in> set (children (tsk k' q)). x \<in> set (task_list k') \<and> ppid (tsk k' x) = q \<and> x \<noteq> 0 \<and> x \<noteq> q"
    proof
      fix x assume x: "x \<in> set (children (tsk k' q))"
      show "x \<in> set (task_list k') \<and> ppid (tsk k' x) = q \<and> x \<noteq> 0 \<and> x \<noteq> q"
      proof (cases "x = c")
        case True
        then have "q = 1" using x other [OF q] d(2) by (auto simp: ch split: if_splits)
        then show ?thesis using True c l by (simp add: pp)
      next
        case False
        then have "x \<in> set (children (tsk k q))" using x d(2) by (auto simp: ch split: if_splits)
        then show ?thesis using m False l by (auto simp: pp)
      qed
    qed
    moreover have "state_of k' q = TASK_ZOMBIE \<longrightarrow> children (tsk k' q) = []" using m f by (auto simp: ch pp)
    moreover have "ppid (tsk k' q) \<in> set (task_list k') \<and> q \<in> set (children (tsk k' (ppid (tsk k' q))))" if "q \<noteq> 0" "q \<noteq> 1"
      using m that f d(2) l assms(5) by (auto simp: pp ch)
    ultimately show ?thesis using m by (simp add: member_ok_def l)
  qed
  ultimately show "family_core k'"
    using f assms(6) unfolding family_core_def l pp using c(4) by auto
  show "children (tsk k' p) = remove1 c (children (tsk k p))" "task_list k' = task_list k" by (simp_all add: ch l)
qed

section \<open>Exit\<close>

lemma orphan_pkern:
  assumes "family_core (pkern s)" "p \<in> set (task_list (pkern s))" "c \<in> set (children (ptask s p))" "p \<noteq> 0" "p \<noteq> 1"
  shows "pkern (orphan tabs p c s) =
    (if tstate (ptask s c) = TASK_ZOMBIE
     then free_task c (remove_task c (upd_task p (\<lambda>t. t\<lparr>children := remove1 c (children t)\<rparr>) (pkern s)))
     else upd_task 1 (\<lambda>t. t\<lparr>children := children t @ [c]\<rparr>) (upd_task c (\<lambda>t. t\<lparr>ppid := 1\<rparr>)
       (upd_task p (\<lambda>t. t\<lparr>children := remove1 c (children t)\<rparr>) (pkern s))))"
  using family_child [OF assms(1-3)] family_init [OF assms(1)] family_pid [OF assms(1), of 1] assms(5)
  by (simp add: orphan_def)

lemma orphan_family:
  assumes "family_core (pkern s)" "p \<in> set (task_list (pkern s))" "c \<in> set (children (ptask s p))" "p \<noteq> 0" "p \<noteq> 1" "p = cur s"
  shows "family_core (pkern (orphan tabs p c s))" "p \<in> set (task_list (pkern (orphan tabs p c s)))"
    "children (ptask (orphan tabs p c s) p) = remove1 c (children (ptask s p))" "cur (orphan tabs p c s) = cur s"
    "tstate (ptask (orphan tabs p c s) q) = tstate (ptask s q)"
    "ppid (ptask (orphan tabs p c s) p) = ppid (ptask s p)" "exit_code (ptask (orphan tabs p c s) p) = exit_code (ptask s p)"
    "files (ptask (orphan tabs p c s) q) = files (ptask s q)" "spaces (orphan tabs p c s) p = spaces s p" "ram (orphan tabs p c s) = ram s"
proof -
  have cp: "c \<noteq> current (pkern s)" "p \<noteq> 1" "p \<noteq> c" using assms(5,6) family_child [OF assms(1-3)] by auto
  have z: "state_of (pkern s) c = TASK_ZOMBIE \<Longrightarrow> p \<in> set (remove1 c (task_list (pkern s)))"
    using assms(2) cp(3) by (simp add: in_set_remove1)
  note rf = reap_family [OF assms(1-3) _ cp(1)] and pf = reparent_family [OF assms(1-5)]
  note eq = orphan_pkern [OF assms(1-5), of tabs]
  show "family_core (pkern (orphan tabs p c s))" unfolding eq using rf(1) pf(1) by simp
  show "p \<in> set (task_list (pkern (orphan tabs p c s)))" unfolding eq using rf(3) pf(3) z assms(2) by simp
  show "children (ptask (orphan tabs p c s) p) = remove1 c (children (ptask s p))" unfolding eq using rf(2) pf(2) by simp
  show "cur (orphan tabs p c s) = cur s" "tstate (ptask (orphan tabs p c s) q) = tstate (ptask s q)"
    "ppid (ptask (orphan tabs p c s) p) = ppid (ptask s p)" "exit_code (ptask (orphan tabs p c s) p) = exit_code (ptask s p)"
    "files (ptask (orphan tabs p c s) q) = files (ptask s q)"
    unfolding eq using cp by (simp_all add: free_task_def remove_task_def)
  show "spaces (orphan tabs p c s) p = spaces s p" "ram (orphan tabs p c s) = ram s"
    using cp(3) by (auto simp: orphan_def release_task_def unlink_child_def Let_def split: option.splits prod.splits)
qed

lemma orphan_fold:
  assumes "family_core (pkern s)" "p \<in> set (task_list (pkern s))" "p \<noteq> 0" "p \<noteq> 1" "p = cur s" "children (ptask s p) = cs"
  shows "let s' = fold (orphan tabs p) cs s in family_core (pkern s') \<and> p \<in> set (task_list (pkern s')) \<and>
    children (ptask s' p) = [] \<and> cur s' = cur s \<and> (\<forall>q. tstate (ptask s' q) = tstate (ptask s q)) \<and>
    ppid (ptask s' p) = ppid (ptask s p) \<and> exit_code (ptask s' p) = exit_code (ptask s p) \<and> (\<forall>q. files (ptask s' q) = files (ptask s q)) \<and>
    spaces s' p = spaces s p \<and> ram s' = ram s"
  using assms
proof (induction cs arbitrary: s)
  case (Cons c cs)
  have "c \<in> set (children (ptask s p))" using Cons.prems(6) by auto
  note o = orphan_family [OF Cons.prems(1,2) this Cons.prems(3-5), of tabs]
  have "children (ptask (orphan tabs p c s) p) = cs" using o(3) Cons.prems(6) by simp
  from Cons.IH [OF o(1,2) Cons.prems(3,4) _ this] Cons.prems(5) o(4-10)
  show ?case by (simp add: Let_def)
qed simp

lemma family_core_upd:
  assumes "family_core k" "harmless f" "\<And>t. ppid (f t) = ppid t \<and> children (f t) = children t \<and> (tstate (f t) = TASK_ZOMBIE \<longleftrightarrow> tstate t = TASK_ZOMBIE)"
  shows "family_core (upd_task p f k)"
proof (rule family_core_tree [OF assms(1)])
  show "sched_inv (upd_task p f k)" using assms(1,2) by (simp add: family_core_def sched_inv_upd)
qed (simp_all add: assms(3))

lemma family_zombie_upd:
  assumes "family_core k" "p \<in> set (task_list k)" "children (tsk k p) = []" "p \<noteq> 0" "p \<noteq> 1"
  shows "family_core (set_state p TASK_ZOMBIE k)"
proof -
  let ?k = "set_state p TASK_ZOMBIE k"
  have "sched_inv ?k" using assms(1) by (simp add: family_core_def sched_inv_upd harmless_state)
  moreover have f: "ppid (tsk ?k q) = ppid (tsk k q)" "children (tsk ?k q) = children (tsk k q)"
    "state_of ?k q = (if q = p then TASK_ZOMBIE else state_of k q)" for q by simp_all
  have "member_ok ?k q" if "q \<in> set (task_list k)" for q
    using family_member [OF assms(1) that] assms(3) unfolding member_ok_def f by (simp del: upd_task_simps(1))
  ultimately show ?thesis using assms unfolding family_core_def f by simp
qed

lemma close_fold_sched: "sched_inv k \<Longrightarrow> sched_inv (upd_task p (\<lambda>t. t\<lparr>files := es\<rparr>) k)"
  by (intro sched_inv_upd) (simp_all add: harmless_def)

lemma sched_inv_put: "sched_inv (kern st) \<Longrightarrow> sched_inv (kern (open_file_put a st))"
  by (simp add: open_file_put_def locks_release_file_def upd_file_def Let_def wake_up_inv)

lemma sched_inv_close: "sched_inv (kern st) \<Longrightarrow> sched_inv (kern (snd (fs_close fd st)))"
  by (auto simp: fs_close_def free_fd_entry_def set_files_def close_fold_sched sched_inv_put split: option.splits)

lemma sched_inv_close_all: "sched_inv (kern st) \<Longrightarrow> sched_inv (kern (close_all_fds st))"
proof -
  have "sched_inv (kern st) \<Longrightarrow> sched_inv (kern (fold (\<lambda>e st. snd (fs_close (fd_num e) st)) es st))" for es
    by (induction es arbitrary: st) (simp_all add: sched_inv_close)
  then show "sched_inv (kern st) \<Longrightarrow> sched_inv (kern (close_all_fds st))" by (simp add: close_all_fds_def)
qed

lemma free_tables_none: "i < 768 \<Longrightarrow> page_tables (fst (arch_mm_free_user_tables tabs sp)) i = None"
proof -
  have "i < n \<Longrightarrow> page_tables (fst (fold (\<lambda>i (s, freed). if page_tables s i \<noteq> None
       then (s\<lparr>page_tables := (page_tables s)(i := None), pgdir := (pgdir s)(i := 0)\<rparr>, freed @ [tabs i])
       else (s, freed)) [0..<n] (sp, []))) i = None" for n
    by (induction n) (auto simp: less_Suc_eq split: prod.splits)
  then show "i < 768 \<Longrightarrow> page_tables (fst (arch_mm_free_user_tables tabs sp)) i = None"
    by (simp add: arch_mm_free_user_tables_def)
qed

lemma no_tables_no_copy:
  assumes "\<And>i. i < 768 \<Longrightarrow> page_tables sp i = None"
  shows "put_user (sp, m) a (bytes_of w) = Some (False, sp, m)"
proof -
  have "\<not> check_user_range sp a 4 True"
  proof
    assume c: "check_user_range sp a 4 True"
    then have a: "a \<le> w32 (a + 4)" "a < 3221225472" "check_pages sp a (w32 (a + 4)) True"
      by (auto simp: check_user_range_def Let_def split: if_splits)
    then have "a < w32 (a + 4)" by simp
    moreover have "a div 4194304 < 768" using a(2) by (simp add: div_less_iff_less_mult)
    ultimately show False using a(3) assms by (subst (asm) check_pages.simps) (simp add: lookup_pte_def)
  qed
  then show ?thesis by (simp add: put_user_def copy_to_user_def bytes_of_def numeral_eq_Suc)
qed

lemma teardown_facts:
  fixes s :: proc and tabs :: "nat \<Rightarrow> u32" and status :: int
  assumes "family_ok (pkern s)" "cur s \<noteq> 0" "cur s \<noteq> 1"
  defines "s' \<equiv> exit_teardown tabs status s" and "p \<equiv> cur s"
  shows "family_core (pkern s')" "cur s' = p" "p \<in> set (task_list (pkern s'))" "state_of (pkern s') p = TASK_ZOMBIE"
    "children (ptask s' p) = []" "exit_code (ptask s' p) = wait_status status" "ppid (ptask s' p) = ppid (ptask s p)"
    "distinct (map fd_num (files (ptask s p))) \<Longrightarrow> files (ptask s' p) = []" "ram s' = ram s" "i < 768 \<Longrightarrow> page_tables (spaces s' p) i = None"
proof -
  define s1 where "s1 = upd_ptask p (\<lambda>t. t\<lparr>exit_code := wait_status status\<rparr>) s"
  define s2 where "s2 = s1\<lparr>pwrites := pwrites s1 @ mm_writeback_shared (ram s1) (vm_of s1 p)\<rparr>"
  define s3 where "s3 = s2\<lparr>pfs := close_all_fds (pfs s2)\<rparr>"
  define s4 where "s4 = free_user_memory tabs p s3"
  define s5 where "s5 = fold (orphan tabs p) (children (ptask s4 p)) s4"
  have s': "s' = upd_ptask p (\<lambda>t. t\<lparr>tstate := TASK_ZOMBIE\<rparr>) s5"
    by (simp add: s'_def exit_teardown_def Let_def p_def s1_def s2_def s3_def s4_def s5_def)
  note f = assms(1) [unfolded family_ok_def]
  have f1: "family_core (pkern s1)" "cur s1 = p" "files (ptask s1 p) = files (ptask s p)"
  proof -
    have "pkern s1 = upd_task p (\<lambda>t. t\<lparr>exit_code := wait_status status\<rparr>) (pkern s)" by (simp add: s1_def)
    then show "family_core (pkern s1)" using f by (simp add: family_core_upd harmless_def)
    show "cur s1 = p" by (simp add: s1_def p_def)
    show "files (ptask s1 p) = files (ptask s p)" by (simp add: s1_def)
  qed
  have f2: "pfs s2 = pfs s1" "ram s2 = ram s" by (simp_all add: s2_def s1_def)
  note cf = close_all_fds_facts [of "pfs s1"] and sf = same_family_close_all [of "pfs s1"]
  have f3: "family_core (pkern s3)" "cur s3 = p" "distinct (map fd_num (files (ptask s p))) \<Longrightarrow> files (ptask s3 p) = []" "same_family (pkern s3) (pkern s1)"
    using family_core_cong [OF f1(1) sf] sched_inv_close_all [of "pfs s1"] f1 cf sf
    by (simp_all add: s3_def f2 family_core_def cur_files_def)
  have f4: "pfs s4 = pfs s3" "ram s4 = ram s3" "\<And>i. i < 768 \<Longrightarrow> page_tables (spaces s4 p) i = None"
    using free_tables_none [of _ tabs "fst (free_vma_pages (pvmas s3 p) (spaces s3 p))"]
    unfolding s4_def free_user_memory_def by (auto split: prod.splits)
  have pin: "p \<in> set (task_list (pkern s3))"
    using f3(1,2) by (auto simp: family_core_def sched_inv_def)
  have o: "family_core (pkern s5)" "p \<in> set (task_list (pkern s5))" "children (ptask s5 p) = []" "cur s5 = p"
    "ppid (ptask s5 p) = ppid (ptask s4 p)" "exit_code (ptask s5 p) = exit_code (ptask s4 p)" "files (ptask s5 p) = files (ptask s4 p)"
    "spaces s5 p = spaces s4 p" "ram s5 = ram s4"
  proof -
    have pre: "family_core (pkern s4)" "p \<in> set (task_list (pkern s4))" "p \<noteq> 0" "p \<noteq> 1" "p = cur s4"
      using f3(1,2) f4(1) pin assms(2,3) by (simp_all add: p_def)
    from orphan_fold [OF pre refl, of tabs, folded s5_def, unfolded Let_def]
    show "family_core (pkern s5)" "p \<in> set (task_list (pkern s5))" "children (ptask s5 p) = []" "cur s5 = p"
      "ppid (ptask s5 p) = ppid (ptask s4 p)" "exit_code (ptask s5 p) = exit_code (ptask s4 p)" "files (ptask s5 p) = files (ptask s4 p)"
      "spaces s5 p = spaces s4 p" "ram s5 = ram s4"
      using pre(5) by simp_all
  qed
  have k: "pkern s' = set_state p TASK_ZOMBIE (pkern s5)" by (simp add: s')
  show "family_core (pkern s')"
    unfolding k using o(1-3) assms(2,3) unfolding p_def by (intro family_zombie_upd)
  show "cur s' = p" "p \<in> set (task_list (pkern s'))" "state_of (pkern s') p = TASK_ZOMBIE" "children (ptask s' p) = []"
    unfolding k using o by simp_all
  have s3: "ppid (ptask s3 p) = ppid (ptask s p)" "exit_code (ptask s3 p) = wait_status status"
    using f3(4) by (simp_all add: same_family_def s1_def)
  show "exit_code (ptask s' p) = wait_status status" "ppid (ptask s' p) = ppid (ptask s p)"
    "distinct (map fd_num (files (ptask s p))) \<Longrightarrow> files (ptask s' p) = []"
    unfolding k using o s3 f3(3) by (simp_all add: f4(1))
  show "ram s' = ram s" using o(9) f4(2) by (simp add: s' s3_def f2)
  show "i < 768 \<Longrightarrow> page_tables (spaces s' p) i = None" using o(8) f4(3) by (simp add: s')
qed

lemma find_family: "family_core k \<Longrightarrow> q \<in> set (task_list k) \<Longrightarrow> find_task_by_pid q k = Some q"
  by (rule find_task_by_pid_eq) (simp_all add: family_core_def)

text \<open>The notification of the parent and the switch to another task.\<close>

lemma same_family_notify: "same_family (notify_parent p k) k"
  by (auto simp: notify_parent_def intro: same_family_trans [OF same_family_wake same_family_send] split: option.splits)

lemma sched_inv_notify: "sched_inv k \<Longrightarrow> sched_inv (notify_parent p k)"
  by (simp add: notify_parent_def wake_up_inv send_signal_inv split: option.splits)

lemma family_schedule: "family_core k \<Longrightarrow> family_ok (schedule k)"
proof -
  assume k: "family_core k"
  then have "sched_inv k" "state_of k 0 \<noteq> TASK_ZOMBIE" by (simp_all add: family_core_def)
  then show ?thesis
    using family_core_cong [OF k same_family_schedule] schedule_inv [of k] by (auto simp: family_ok_def)
qed

lemma schedule_ready:
  assumes "sched_inv k" "state_of k q = TASK_READY"
  shows "state_of (schedule k) q \<in> {TASK_READY, TASK_RUNNING}"
proof -
  obtain n k1 where p: "pick_next_task k = (n, k1)" by fastforce
  note pk = pick_in_list [OF assms(1) p]
  then consider "k1 = k" | "n = 0" "k1 = set_state 0 TASK_RUNNING k" by blast
  then show ?thesis
  proof cases
    case 1
    then show ?thesis using p assms(2) by (auto simp: schedule_def Let_def)
  next
    case 2
    then show ?thesis using p assms(2) by (cases "q = 0") (auto simp: schedule_def Let_def)
  qed
qed

lemma schedule_fields:
  "pending (tsk (schedule k) q) = pending (tsk k q)" "files (tsk (schedule k) q) = files (tsk k q)"
  by (auto simp: schedule_def pick_next_task_def Let_def split: prod.splits option.splits)

lemma notify_parent_wakes:
  assumes "family_core k" "ppid (tsk k p) = q" "q \<in> set (task_list k)" "q \<noteq> p" "state_of k q = TASK_BLOCKED" "q \<in> set (wqs k (Task_wait q))"
  shows "state_of (notify_parent p k) q = TASK_READY"
  using assms(4-6) find_family [OF assms(1,3)] family_pid [OF assms(1)]
  by (simp add: notify_parent_def assms(2) send_signal_def Let_def)

lemma notify_parent_pending:
  assumes "family_core k" "ppid (tsk k p) = q" "q \<in> set (task_list k)" "q \<noteq> p"
  shows "pending (tsk (notify_parent p k) q) = pending (tsk k q) OR sig_bit SIGCHLD"
  using assms(4) find_family [OF assms(1,3)] family_pid [OF assms(1)]
  by (auto simp: notify_parent_def assms(2) send_signal_def Let_def sig_default_terminates_def)

lemma exit_effect:
  assumes "family_ok (pkern s)" "cur s \<noteq> 0" "cur s \<noteq> 1"
  shows "\<exists>s'. do_exit tabs status s = Some s' \<and> family_ok (pkern s') \<and> ram s' = ram s \<and>
    (let p = cur s; q = ppid (ptask s p); z = ptask s' p in
      tstate z = TASK_ZOMBIE \<and> exit_code z = wait_status status \<and> children z = [] \<and> (distinct (map fd_num (files (ptask s p))) \<longrightarrow> files z = []) \<and> ppid z = q \<and>
      p \<in> set (task_list (pkern s')) \<and> p \<in> set (children (ptask s' q)) \<and>
      bit (pending (ptask s' q)) SIGCHLD \<and>
      (let w = pkern (exit_teardown tabs status s) in
        state_of w q = TASK_BLOCKED \<longrightarrow> q \<in> set (wqs w (Task_wait q)) \<longrightarrow> tstate (ptask s' q) \<in> {TASK_READY, TASK_RUNNING}))"
proof -
  let ?t = "exit_teardown tabs status s" and ?p = "cur s" and ?q = "ppid (ptask s (cur s))"
  let ?k = "notify_parent ?p (pkern ?t)"
  note t = teardown_facts [OF assms, where tabs = tabs and status = status]
  have "put_user (spaces ?t ?p, ram ?t) a (bytes_of 0) = Some (False, spaces ?t ?p, ram ?t)" for a
    by (rule no_tables_no_copy) (rule t(10))
  then have ex: "do_exit tabs status s = Some (upd_kern (schedule \<circ> notify_parent ?p) (?t\<lparr>ram := ram s\<rparr>))"
    by (simp add: do_exit_def Let_def t(9))
  have fk: "family_core ?k"
    using family_core_cong [OF t(1) same_family_notify] sched_inv_notify [of "pkern ?t" ?p] t(1) by (simp add: family_core_def)
  then have sch: "sched_inv ?k" "state_of ?k 0 \<noteq> TASK_ZOMBIE" by (simp_all add: family_core_def)
  note sf = same_family_schedule [OF sch]
  have same: "same_family (schedule ?k) (pkern ?t)" by (rule same_family_trans [OF sf same_family_notify])
  have "member_ok (pkern ?t) ?p" by (rule family_member [OF t(1,3)])
  then have q: "?q \<in> set (task_list (pkern ?t))" "?p \<in> set (children (ptask ?t ?q))"
    using assms(2,3) t(7) by (auto simp: member_ok_def)
  have "?q \<noteq> ?p" using q(2) t(5) by auto
  note n = notify_parent_pending [OF t(1,7) q(1) this] notify_parent_wakes [OF t(1,7) q(1) this]
  have "distinct (map fd_num (files (ptask s ?p))) \<longrightarrow> files (tsk (notify_parent ?p (pkern ?t)) ?p) = []"
    using t(8) by (auto simp: notify_parent_def send_signal_def wake_parent_def Let_def split: option.splits)
  moreover have "bit (pending (tsk ?k ?q)) SIGCHLD" by (simp add: n(1) bit_or_iff sig_bit_def bit_push_bit_iff)
  moreover have "state_of (pkern ?t) ?q = TASK_BLOCKED \<Longrightarrow> ?q \<in> set (wqs (pkern ?t) (Task_wait ?q)) \<Longrightarrow>
      state_of (schedule ?k) ?q \<in> {TASK_READY, TASK_RUNNING}"
    using schedule_ready [OF sch(1) n(2)] by blast
  ultimately show ?thesis
    using ex family_schedule [OF fk] same t(3-7) q(2) by (auto simp: Let_def schedule_fields same_family_def)
qed

text \<open>
  exit turns the caller into a zombie and never faults. The zombie keeps the encoded status for its
  parent and nothing else: no descriptor, no child and no page table; the family tree and the
  scheduler stay consistent, so the children are init's or gone; the parent has SIGCHLD pending and, if it
  sleeps in wait, is awake again; and nothing is written to user memory, not even the zero that the
  address given to \<^verbatim>\<open>set_tid_address\<close> should receive.
\<close>

theorem exit_makes_zombie:
  assumes "family_ok (pkern s)" "file_inv (pfs s)" "cur s \<noteq> 0" "cur s \<noteq> 1"
  shows "\<exists>s'. do_exit tabs status s = Some s' \<and> family_ok (pkern s') \<and> ram s' = ram s \<and>
    (let p = cur s; q = ppid (ptask s p); z = ptask s' p in
      tstate z = TASK_ZOMBIE \<and> exit_code z = wait_status status \<and> children z = [] \<and> files z = [] \<and> ppid z = q \<and>
      p \<in> set (task_list (pkern s')) \<and> p \<in> set (children (ptask s' q)) \<and>
      bit (pending (ptask s' q)) SIGCHLD \<and>
      (let w = pkern (exit_teardown tabs status s) in
        state_of w q = TASK_BLOCKED \<longrightarrow> q \<in> set (wqs w (Task_wait q)) \<longrightarrow> tstate (ptask s' q) \<in> {TASK_READY, TASK_RUNNING}))"
proof -
  have "cur s \<in> set (task_list (pkern s))" using assms(2) by (simp add: file_inv_def inv_ext_iff)
  then have "distinct (map fd_num (files (ptask s (cur s))))" using assms(2) by (simp add: file_inv_def inv_ext_iff fds_ok_def)
  then show ?thesis using exit_effect [OF assms(1,3,4), of tabs status] by (simp only: Let_def simp_thms)
qed

section \<open>Fork keeps the family\<close>

lemma fork_family:
  assumes "family_ok (pkern s)" "next_pid (pkern s) < 2147483647" "sys_fork tabs e s = (r, s')"
  shows "family_ok (pkern s')"
proof -
  let ?k = "pkern s" and ?k' = "pkern s'" and ?p = "cur s" and ?c = "next_pid (pkern s)"
  note f = assms(1) [unfolded family_ok_def family_core_def]
  have core: "family_core ?k" and inv: "sched_inv ?k" using f by (auto simp: family_core_def)
  have p: "?p \<in> set (task_list ?k)" "0 \<in> set (task_list ?k)" "\<And>q. pid (tsk ?k q) = q" using inv by (auto simp: sched_inv_def)
  have lt: "q < ?c" if "q \<in> set (task_list ?k)" for q using family_member [OF core that] by (simp add: member_ok_def)
  have c: "?c \<notin> set (task_list ?k)" "?p \<noteq> ?c" "1 < ?c" using lt p(1) f by fastforce+
  have cc: "?c \<notin> set (children (tsk ?k q))" if "q \<in> set (task_list ?k)" for q using family_child [OF core that] c(1) by blast
  show ?thesis
  proof (cases "0 < r")
    case True
    obtain vs cs where F: "forked e s s' vs cs" by (rule sys_fork_success [OF assms(3) True c(2)])
    note k = forkedD [OF F]
    have t: "ppid (tsk ?k' q) = (if q = ?c then ?p else ppid (tsk ?k q))" "tstate (tsk ?k' q) = (if q = ?c then TASK_READY else tstate (tsk ?k q))"
      "children (tsk ?k' q) = (if q = ?p then children (tsk ?k ?p) @ [?c] else if q = ?c then [] else children (tsk ?k q))" for q
      using c(2) p(3) by (auto simp: k(3) child_task_def)
    have u: "pid (tsk ?k' q) = q" "priority (tsk ?k' q) = (if q = ?c then priority (tsk ?k ?p) else priority (tsk ?k q))"
      "q \<noteq> ?c \<Longrightarrow> kernel_stack (tsk ?k' q) = kernel_stack (tsk ?k q) \<and> mm (tsk ?k' q) = mm (tsk ?k q)" for q
      using c(2) p(3) by (simp_all add: k(3) child_task_def fork_fields_def new_task_def init_task_mm_def)
    have i: "sane_priorities ?k" "\<forall>q \<in> set (task_list ?k). state_of ?k q = TASK_RUNNING \<longrightarrow> q = ?p"
      "?p \<noteq> 0 \<longrightarrow> tss_esp0 ?k = kernel_stack (tsk ?k ?p) + KERNEL_STACK_SIZE" "cr3 ?k = pgd_phys (mm (tsk ?k ?p))"
      using inv by (simp_all add: sched_inv_def)
    have "sane_priorities ?k'" using i(1) c(1) p(1) by (auto simp: sane_priorities_def k(4) u(2))
    moreover have "\<forall>q \<in> set (task_list ?k'). state_of ?k' q = TASK_RUNNING \<longrightarrow> q = ?p" using i(2) by (simp add: k(4) t)
    ultimately have "sched_inv ?k'"
      using i(3,4) p(1,2) u(3) [OF c(2)] by (simp add: sched_inv_def u(1) k(4,5,13,14))
    moreover have "member_ok ?k' q" if "q \<in> set (task_list ?k')" for q
    proof (cases "q = ?c")
      case True
      then show ?thesis using c p assms(2) by (simp add: member_ok_def t k(4,6))
    next
      case False
      then have q: "q \<in> set (task_list ?k)" using that k(4) by simp
      have "distinct (children (tsk ?k' q))" using family_distinct [OF core q] cc [OF q] False by (auto simp: t)
      moreover have "x \<in> set (task_list ?k') \<and> ppid (tsk ?k' x) = q \<and> x \<noteq> 0 \<and> x \<noteq> q" if "x \<in> set (children (tsk ?k' q))" for x
        using that family_child [OF core q] cc [OF q] c False by (auto simp: t k(4) split: if_splits)
      moreover have "state_of ?k' q = TASK_ZOMBIE \<longrightarrow> children (tsk ?k' q) = []"
        using family_zombie [OF core q] f False by (auto simp: t)
      moreover have "ppid (tsk ?k' q) \<in> set (task_list ?k') \<and> q \<in> set (children (tsk ?k' (ppid (tsk ?k' q))))" if "q \<noteq> 0" "q \<noteq> 1"
      proof -
        have "ppid (tsk ?k q) \<in> set (task_list ?k)" "q \<in> set (children (tsk ?k (ppid (tsk ?k q))))"
          using family_member [OF core q] that by (auto simp: member_ok_def)
        then show ?thesis using False c(1) by (auto simp: t k(4))
      qed
      ultimately show ?thesis using lt [OF q] assms(2) by (auto simp: member_ok_def k(6))
    qed
    moreover have "?c \<noteq> 0" "?c \<noteq> 1" using c(3) by simp_all
    ultimately show ?thesis
      using f c(1,2) unfolding family_ok_def family_core_def k(4,5) t by simp
  next
    case False
    have "\<not> 0 < ?c \<Longrightarrow> False" "?c < 2147483648" using c assms(2) by auto
    note k = sys_fork_failure [OF assms(3) False c(2) _ this(2) cc [OF p(1)]]
    have k: "task_list ?k' = task_list ?k" "cur s' = cur s" "next_pid ?k' \<in> {?c, ?c + 1}" "tss_esp0 ?k' = tss_esp0 ?k" "cr3 ?k' = cr3 ?k"
      "\<And>q. q \<noteq> ?c \<Longrightarrow> tsk ?k' q = tsk ?k q" "pid (tsk ?k' ?c) = ?c"
      using k c(3) p(3) by auto
    have same: "tsk ?k' q = tsk ?k q" if "q \<in> set (task_list ?k)" for q using k(6) c(1) that by metis
    have "pid (tsk ?k' q) = q" for q using k(6,7) p(3) by (cases "q = ?c") simp_all
    then have "sched_inv ?k'"
      using inv same p(1) unfolding sched_inv_def sane_priorities_def by (simp add: k(1,2,4,5))
    moreover have "member_ok ?k' q" if "q \<in> set (task_list ?k')" for q
    proof -
      have q: "q \<in> set (task_list ?k)" using that k(1) by simp
      have "tsk ?k' x = tsk ?k x" if "x \<in> set (children (tsk ?k q))" for x using family_child [OF core q that] same by blast
      moreover have "tsk ?k' (ppid (tsk ?k q)) = tsk ?k (ppid (tsk ?k q))" if "q \<noteq> 0" "q \<noteq> 1"
        using family_member [OF core q] that same by (simp add: member_ok_def)
      ultimately show ?thesis
        using family_member [OF core q] same [OF q] k(3) by (auto simp: member_ok_def k(1))
    qed
    ultimately show ?thesis
      using f same p(1,2) unfolding family_ok_def family_core_def by (simp add: k(1,2))
  qed
qed

section \<open>Wait\<close>

lemma write_status_cases:
  assumes "write_status ptr st s cont = Wait_returns r s'"
  shows "s' = s \<or> (\<exists>m. cont (s\<lparr>ram := m\<rparr>) = Wait_returns r s')"
proof -
  have s: "s\<lparr>ram := ram s\<rparr> = s" by simp
  show ?thesis
  proof (cases "ptr = 0")
    case True
    then have "cont (s\<lparr>ram := ram s\<rparr>) = Wait_returns r s'" using assms s by (simp add: write_status_def)
    then show ?thesis by blast
  qed (use assms in \<open>auto simp: write_status_def split: if_splits option.splits\<close>)
qed

lemma family_ok_upd:
  "family_ok k \<Longrightarrow> harmless f \<Longrightarrow> (\<And>t. ppid (f t) = ppid t \<and> children (f t) = children t \<and> (tstate (f t) = TASK_ZOMBIE \<longleftrightarrow> tstate t = TASK_ZOMBIE)) \<Longrightarrow>
    family_ok (upd_task p f k)"
  by (auto simp: family_ok_def family_core_upd)

lemma reap_pkern:
  assumes "family_ok (pkern s)" "c \<in> set (children (ptask s (cur s)))" "state_of (pkern s) c = TASK_ZOMBIE"
  obtains s' where "reap tabs (cur s) c s = Wait_returns (to_int c) s'" "family_ok (pkern s')"
    "task_list (pkern s') = remove1 c (task_list (pkern s))" "children (ptask s' (cur s)) = remove1 c (children (ptask s (cur s)))"
    "c \<in> set (freed_tasks (pkern s'))" "\<not> bit (pending (ptask s' (cur s))) SIGCHLD" "ram s' = ram s"
proof -
  let ?k = "free_task c (remove_task c (upd_task (cur s) (\<lambda>t. t\<lparr>children := remove1 c (children t)\<rparr>) (pkern s)))"
  let ?s = "upd_ptask (cur s) (\<lambda>t. t\<lparr>pending := pending t AND NOT (sig_bit SIGCHLD)\<rparr>)
      (release_task tabs c (upd_kern (remove_task c) (unlink_child (cur s) c s)))"
  have core: "family_core (pkern s)" "state_of (pkern s) (cur s) \<noteq> TASK_ZOMBIE" using assms(1) by (simp_all add: family_ok_def)
  have p: "cur s \<in> set (task_list (pkern s))" using core(1) by (simp add: family_core_def sched_inv_def)
  have c: "c \<noteq> cur s" "c \<noteq> 0" using family_child [OF core(1) p assms(2)] by auto
  note r = reap_family [OF core(1) p assms(2,3) c(1)]
  have k: "pkern ?s = upd_task (cur s) (\<lambda>t. t\<lparr>pending := pending t AND NOT (sig_bit SIGCHLD)\<rparr>) ?k"
    using c(2) by simp
  have ok: "family_ok ?k" using r(1) core(2) c by (simp add: family_ok_def free_task_def remove_task_def)
  show ?thesis
  proof (rule that)
    show "reap tabs (cur s) c s = Wait_returns (to_int c) ?s" using family_pid [OF core(1)] by (simp add: reap_def)
    show "family_ok (pkern ?s)" unfolding k by (rule family_ok_upd [OF ok]) simp_all
    show "task_list (pkern ?s) = remove1 c (task_list (pkern s))" unfolding k using r(3) by simp
    show "children (ptask ?s (cur s)) = remove1 c (children (ptask s (cur s)))" unfolding k using r(2) by simp
    show "c \<in> set (freed_tasks (pkern ?s))" unfolding k using c(2) by (simp add: free_task_def)
    show "\<not> bit (pending (ptask ?s (cur s))) SIGCHLD" unfolding k
      by (simp add: bit_and_iff bit_not_iff sig_bit_def bit_push_bit_iff)
    show "ram ?s = ram s" by (auto simp: release_task_def unlink_child_def split: prod.splits)
  qed
qed

lemma wait_scan_family:
  assumes "family_ok (pkern s)" "set cs \<subseteq> set (children (ptask s (cur s)))" "wait_scan tabs q ptr opts cs found s = Wait_returns r s'"
  shows "family_ok (pkern s')"
  using assms
proof (induction cs arbitrary: found)
  case (Cons c cs)
  note IH = Cons.IH [OF Cons.prems(1)]
  have c: "c \<in> set (children (ptask s (cur s)))" "set cs \<subseteq> set (children (ptask s (cur s)))" using Cons.prems(2) by auto
  have reap: "family_ok (pkern s')" if "write_status ptr st s (reap tabs (cur s) c) = Wait_returns r s'" "state_of (pkern s) c = TASK_ZOMBIE" for st
    using write_status_cases [OF that(1)]
  proof (elim disjE exE)
    fix m assume m: "reap tabs (cur s) c (s\<lparr>ram := m\<rparr>) = Wait_returns r s'"
    have "family_ok (pkern (s\<lparr>ram := m\<rparr>))" "c \<in> set (children (ptask (s\<lparr>ram := m\<rparr>) (cur (s\<lparr>ram := m\<rparr>))))"
      using Cons.prems(1) c(1) by simp_all
    from reap_pkern [OF this, of tabs] m that(2) show ?thesis by auto
  qed (use Cons.prems(1) in simp)
  have upd: "family_ok (pkern s')" if "write_status ptr st s (\<lambda>s. Wait_returns a (upd_ptask c f s)) = Wait_returns r s'"
    "harmless f" "\<And>t. ppid (f t) = ppid t \<and> children (f t) = children t \<and> tstate (f t) = tstate t" for st a f
    using write_status_cases [OF that(1)] that(2,3) Cons.prems(1) by (auto intro!: family_ok_upd)
  show ?case
    using Cons.prems(3) IH [OF c(2)] reap upd [where f = "\<lambda>t. t\<lparr>stop_reported := True\<rparr>"] upd [where f = "\<lambda>t. t\<lparr>continued := False\<rparr>"]
    by (auto simp: Let_def harmless_def split: if_splits)
qed simp

section \<open>Reachable process tables\<close>

lemma family_ok_same:
  assumes "family_ok k" "same_family k' k" "sched_inv k'" "current k' = current k"
  shows "family_ok k'"
  using assms family_core_cong [of k k'] by (simp add: family_ok_def same_family_def)

lemma send_current: "current (snd (send_signal q n k)) = current k"
  by (auto simp: send_signal_def wake_parent_def Let_def split: option.splits)

lemma send_family: "family_ok k \<Longrightarrow> family_ok (snd (send_signal q n k))"
  by (rule family_ok_same) (simp_all add: same_family_send send_current family_ok_def family_core_def send_signal_inv)

lemma kill_family: "family_ok k \<Longrightarrow> family_ok (snd (sys_kill q n k))"
proof -
  have g: "family_ok k \<Longrightarrow> family_ok (snd (fold (\<lambda>p (matched, k). if pid (tsk k p) = 0 then (matched, k)
     else if to_int (pgid (tsk k p)) \<noteq> g then (matched, k) else (True, snd (send_signal (pid (tsk k p)) n k))) ps (b, k)))" for ps b g
    by (induction ps arbitrary: b k) (auto simp: send_family)
  have a: "family_ok k \<Longrightarrow> family_ok (snd (fold (\<lambda>p (matched, k). if pid (tsk k p) = 0 then (matched, k)
     else (True, snd (send_signal (pid (tsk k p)) n k))) ps (b, k)))" for ps b
    by (induction ps arbitrary: b k) (auto simp: send_family)
  assume k: "family_ok k"
  have "family_ok (snd (send_signal_group g n k))" for g using g [OF k] by (simp add: send_signal_group_def)
  moreover have "family_ok (snd (send_signal_all n k))" using a [OF k] by (simp add: send_signal_all_def)
  ultimately show ?thesis
    using k send_family [OF k, of "nat q" n] by (simp add: sys_kill_def case_prod_unfold)
qed

text \<open>
  One step of the process table: a system call of the running task, or the timer that takes the CPU away
  from it. Init does not exit and the pids are not used up.
\<close>

inductive proc_step :: "proc \<Rightarrow> proc \<Rightarrow> bool" where
  step_fork: "next_pid (pkern s) < 2147483647 \<Longrightarrow> sys_fork tabs e s = (r, s') \<Longrightarrow> proc_step s s'"
| step_exit: "cur s \<noteq> 0 \<Longrightarrow> cur s \<noteq> 1 \<Longrightarrow> do_exit tabs status s = Some s' \<Longrightarrow> proc_step s s'"
| step_wait: "sys_wait4 tabs q ptr opts s [] = Waited r s' \<Longrightarrow> proc_step s s'"
| step_wait_sleep: "sys_wait4 tabs q ptr opts s [] = Wait_asleep s' \<Longrightarrow> proc_step s s'"
| step_kill: "proc_step s (upd_kern (\<lambda>k. snd (sys_kill q n k)) s)"
| step_preempt: "proc_step s (upd_kern schedule s)"

inductive_cases proc_stepE: "proc_step s s'"

lemma proc_step_family:
  assumes "proc_step s s'" "family_ok (pkern s)"
  shows "family_ok (pkern s')"
  using assms
proof (cases rule: proc_step.cases)
  case (step_exit tabs status)
  then show ?thesis using exit_effect [OF assms(2), of tabs status] by auto
next
  case (step_wait tabs q ptr opts r)
  then show ?thesis
    using wait_scan_family [OF assms(2) subset_refl, of tabs q ptr opts False] assms(2)
    by (auto simp: sys_wait4.simps [of tabs q ptr opts s "[]"] split: wait_result.splits if_splits)
next
  case (step_wait_sleep tabs q ptr opts)
  then have "s' = upd_kern (sleep_on_enter (Task_wait (cur s))) s"
    by (auto simp: sys_wait4.simps [of tabs q ptr opts s "[]"] split: wait_result.splits if_splits)
  moreover have "family_core (pkern s)" using assms(2) by (simp add: family_ok_def)
  then have "family_core (set_state (cur s) TASK_BLOCKED ((pkern s)\<lparr>wqs := w\<rparr>))" for w
  proof -
    have "sched_inv ((pkern s)\<lparr>wqs := w\<rparr>)" by (rule sched_inv_cong [of "pkern s"]) (use assms(2) in \<open>simp_all add: family_ok_def family_core_def\<close>)
    then have inv: "sched_inv (set_state (cur s) TASK_BLOCKED ((pkern s)\<lparr>wqs := w\<rparr>))" by (intro sched_inv_upd harmless_state) simp_all
    show ?thesis by (rule family_core_tree [of "pkern s"]) (use assms(2) inv in \<open>auto simp: family_ok_def\<close>)
  qed
  ultimately show ?thesis by (simp add: sleep_on_enter_def family_schedule)
next
  case (step_fork tabs e r)
  then show ?thesis using fork_family [OF assms(2)] by blast
next
  case step_kill
  then show ?thesis using kill_family [OF assms(2)] by auto
next
  case step_preempt
  then show ?thesis using family_schedule [of "pkern s"] assms(2) by (simp add: family_ok_def)
qed

text \<open>
  C4: no process is lost. In every process table reachable by forks, exits, waits, signals and preemptions,
  each task but the kernel's and init is, exactly once, on the list of children of a task of the table,
  the one its \<^verbatim>\<open>ppid\<close> names, so that somebody can wait for it; zombies have no children; all pids are smaller
  than the next one; and the scheduler's invariant holds.
\<close>

theorem process_tree:
  assumes "proc_step\<^sup>*\<^sup>* s s'" "family_ok (pkern s)"
  shows "family_ok (pkern s') \<and> sched_inv (pkern s') \<and>
    (\<forall>p \<in> set (task_list (pkern s')). p \<noteq> 0 \<longrightarrow> p \<noteq> 1 \<longrightarrow>
       (\<exists>!q. q \<in> set (task_list (pkern s')) \<and> p \<in> set (children (ptask s' q))) \<and>
       p \<in> set (children (ptask s' (ppid (ptask s' p)))))"
proof -
  have ok: "family_ok (pkern s')" using assms by (induction rule: rtranclp_induct) (auto intro: proc_step_family)
  then have core: "family_core (pkern s')" by (simp add: family_ok_def)
  have "\<exists>!q. q \<in> set (task_list (pkern s')) \<and> p \<in> set (children (ptask s' q))" "p \<in> set (children (ptask s' (ppid (ptask s' p))))"
    if "p \<in> set (task_list (pkern s'))" "p \<noteq> 0" "p \<noteq> 1" for p
    using family_member [OF core that(1)] family_child [OF core] that by (auto simp: member_ok_def)
  then show ?thesis using ok core by (auto simp: family_core_def)
qed

section \<open>Exit and wait together\<close>

lemma wait_scan_skip:
  "\<forall>c \<in> set cs1. pid (ptask s c) \<noteq> n \<Longrightarrow> 0 < n \<Longrightarrow>
   wait_scan tabs (int n) ptr opts (cs1 @ cs) found s = wait_scan tabs (int n) ptr opts cs found s"
  by (induction cs1) (simp_all add: Let_def)

text \<open>
  C5: the exit status arrives. A process exits; later, in a process table with the same family in which the parent
  runs, the parent waits for it with a pointer it may write to (or none). The wait returns the pid at once, stores
  the encoded status, which for a status below 128 is that status in the second byte, and the child is gone: from
  the task list, from the parent's children, its task structure freed and the parent's SIGCHLD cleared.
\<close>

theorem exit_then_wait:
  assumes "family_ok (pkern s)" "cur s \<noteq> 0" "cur s \<noteq> 1" "cur s < 2147483648" "do_exit tabs status s = Some s1"
    "same_family (pkern s2) (pkern s1)" "sched_inv (pkern s2)" "cur s2 = ppid (ptask s (cur s))"
    "ptr \<noteq> 0 \<Longrightarrow> put_user (spaces s2 (cur s2), ram s2) ptr (int_bytes (wait_status status)) = Some (True, u)"
  shows "\<exists>s3. sys_wait4 tabs' (int (cur s)) ptr opts s2 env = Waited (int (cur s)) s3 \<and>
    ram s3 = (if ptr = 0 then ram s2 else snd u) \<and> (0 \<le> status \<and> status < 128 \<longrightarrow> wait_status status = status * 256) \<and>
    cur s \<notin> set (task_list (pkern s3)) \<and> cur s \<notin> set (children (ptask s3 (cur s2))) \<and> cur s \<in> set (freed_tasks (pkern s3)) \<and>
    \<not> bit (pending (ptask s3 (cur s2))) SIGCHLD \<and> family_ok (pkern s3)"
proof -
  let ?p = "cur s" and ?q = "ppid (ptask s (cur s))"
  from exit_effect [OF assms(1-3), of tabs status] assms(5)
  have e: "family_ok (pkern s1)" "state_of (pkern s1) ?p = TASK_ZOMBIE" "exit_code (ptask s1 ?p) = wait_status status"
    "ppid (ptask s1 ?p) = ?q" "?p \<in> set (task_list (pkern s1))" "?p \<in> set (children (ptask s1 ?q))" "children (ptask s1 ?p) = []"
    by (simp_all add: Let_def)
  have core1: "family_core (pkern s1)" using e(1) by (simp add: family_ok_def)
  have core: "family_core (pkern s2)" using family_core_cong [OF core1 assms(6,7)] .
  have z: "state_of (pkern s2) ?p = TASK_ZOMBIE" "exit_code (ptask s2 ?p) = wait_status status" "?p \<in> set (children (ptask s2 (cur s2)))"
    "children (ptask s2 ?p) = []"
    using assms(6,8) e by (simp_all add: same_family_def)
  have q: "cur s2 \<in> set (task_list (pkern s2))" using assms(7) by (simp add: sched_inv_def)
  have "state_of (pkern s2) (cur s2) \<noteq> TASK_ZOMBIE" using family_zombie [OF core q] z(3) by auto
  then have ok: "family_ok (pkern s2)" using core by (simp add: family_ok_def)
  obtain cs1 cs2 where cs: "children (ptask s2 (cur s2)) = cs1 @ ?p # cs2" using z(3) by (meson split_list)
  have d: "distinct (children (ptask s2 (cur s2)))" "distinct (task_list (pkern s2))" using family_distinct [OF core q] by blast+
  have "\<forall>c \<in> set cs1. pid (ptask s2 c) \<noteq> ?p" using d(1) family_pid [OF core] by (auto simp: cs)
  note skip = wait_scan_skip [OF this, of tabs' ptr opts "?p # cs2" False]
  have scan: "wait_scan tabs' (int ?p) ptr opts (children (ptask s2 (cur s2))) False s2 =
      write_status ptr (wait_status status) s2 (reap tabs' (cur s2) ?p)"
    using assms(2) skip z(1,2) family_pid [OF core] by (simp add: cs Let_def)
  let ?s = "if ptr = 0 then s2 else s2\<lparr>ram := snd u\<rparr>"
  have w: "write_status ptr (wait_status status) s2 (reap tabs' (cur s2) ?p) = reap tabs' (cur ?s) ?p ?s"
    using assms(9) by (simp add: write_status_def)
  have "family_ok (pkern ?s)" "?p \<in> set (children (ptask ?s (cur ?s)))" "state_of (pkern ?s) ?p = TASK_ZOMBIE" using ok z(1,3) by simp_all
  from reap_pkern [OF this, of tabs'] obtain s3 where r: "reap tabs' (cur ?s) ?p ?s = Wait_returns (to_int ?p) s3" "family_ok (pkern s3)"
    "task_list (pkern s3) = remove1 ?p (task_list (pkern ?s))" "children (ptask s3 (cur ?s)) = remove1 ?p (children (ptask ?s (cur ?s)))"
    "?p \<in> set (freed_tasks (pkern s3))" "\<not> bit (pending (ptask s3 (cur ?s))) SIGCHLD" "ram s3 = ram ?s" by blast
  have "pkern ?s = pkern s2" by simp
  note r = r(1,2) r(3-) [unfolded this]
  have "sys_wait4 tabs' (int ?p) ptr opts s2 env = Waited (int ?p) s3"
    using scan w r(1) assms(4) by (simp add: sys_wait4.simps)
  moreover have "?p \<notin> set (task_list (pkern s3))" "?p \<notin> set (children (ptask s3 (cur s2)))"
    using r(3,4) d by auto
  moreover have "0 \<le> status \<and> status < 128 \<longrightarrow> wait_status status = status * 256" by (simp add: wait_status_def)
  ultimately show ?thesis using r(2,5,6,7) by auto
qed

section \<open>Witnesses\<close>

text \<open>Init is task 1, task 2 is its child and runs.\<close>

definition demo_family :: proc where
  "demo_family = \<lparr>pfs = demo_fstate\<lparr>kern := upd_task 0 (\<lambda>t. t\<lparr>children := [1]\<rparr>) (upd_task 1 (\<lambda>t. t\<lparr>children := [2]\<rparr>)
        (upd_task 2 (\<lambda>t. t\<lparr>ppid := 1\<rparr>) (demo_kernel [2, 1]))), live := (\<lambda>_. False)\<rparr>,
     pvmas = (\<lambda>_. []), spaces = (\<lambda>_. one_page 0), ram = (\<lambda>_. 0), freed_frames = [], pwrites = []\<rparr>"

lemma demo_family_facts: "cur demo_family = 2" "ppid (ptask demo_family 2) = 1" "task_list (pkern demo_family) = [0, 2, 1]"
    "next_pid (pkern demo_family) = 100"
  by (simp_all add: demo_family_def demo_kernel_def)

lemma demo_family_ok: "family_ok (pkern demo_family)"
proof -
  have "sched_inv (pkern demo_family)"
    by (auto simp: sched_inv_def sane_priorities_def demo_family_def demo_kernel_def zero_task_def zero_mm_def KERNEL_STACK_SIZE_def)
  then show ?thesis
    by (auto simp: family_ok_def family_core_def member_ok_def demo_family_def demo_kernel_def zero_task_def)
qed

lemma demo_family_files: "file_inv (pfs demo_family)"
proof -
  have "files (ptask demo_family p) = []" for p by (simp add: demo_family_def demo_kernel_def zero_task_def)
  then have "refs (pkern demo_family) a = 0" "fds_ok (ptask demo_family p)" for a p by (simp_all add: refs_def fds_ok_def)
  then show ?thesis by (simp add: file_inv_def inv_ext_iff demo_family_facts) (simp add: demo_family_def)
qed

theorem exit_makes_zombie_witness:
  "\<exists>s'. do_exit (\<lambda>_. 0) 7 demo_family = Some s' \<and> exit_code (ptask s' 2) = 1792 \<and> 2 \<in> set (children (ptask s' 1))"
  using exit_makes_zombie [OF demo_family_ok demo_family_files, of "\<lambda>_. 0" 7]
  by (auto simp: demo_family_facts Let_def wait_status_def)

theorem process_tree_witness:
  "family_ok (pkern (upd_kern schedule (upd_kern (\<lambda>k. snd (sys_kill 1 15 k)) demo_family)))"
proof -
  have "proc_step\<^sup>*\<^sup>* demo_family (upd_kern schedule (upd_kern (\<lambda>k. snd (sys_kill 1 15 k)) demo_family))"
    using step_kill step_preempt by (meson converse_rtranclp_into_rtranclp rtranclp.rtrancl_refl)
  then show ?thesis using process_tree [OF _ demo_family_ok] by blast
qed

text \<open>The parent gets the CPU.\<close>

definition switch_to :: "nat \<Rightarrow> kernel \<Rightarrow> kernel" where
  "switch_to q k = (set_state q TASK_RUNNING (set_state (current k) TASK_READY k))\<lparr>current := q,
     tss_esp0 := kernel_stack (tsk k q) + KERNEL_STACK_SIZE, cr3 := pgd_phys (mm (tsk k q))\<rparr>"

lemma switch_to_inv:
  assumes "family_ok k" "q \<in> set (task_list k)" "state_of k q \<noteq> TASK_ZOMBIE"
  shows "sched_inv (switch_to q k)" "same_family (switch_to q k) k"
proof -
  have inv: "sched_inv k" and cz: "state_of k (current k) \<noteq> TASK_ZOMBIE" using assms(1) by (simp_all add: family_ok_def family_core_def)
  have i: "\<forall>p. pid (tsk k p) = p" "sane_priorities k" "0 \<in> set (task_list k)" "\<forall>p \<in> set (task_list k). state_of k p = TASK_RUNNING \<longrightarrow> p = current k"
    using inv by (simp_all add: sched_inv_def)
  have "state_of (switch_to q k) p = (if p = q then TASK_RUNNING else if p = current k then TASK_READY else state_of k p)"
    "pid (tsk (switch_to q k) p) = pid (tsk k p)" "priority (tsk (switch_to q k) p) = priority (tsk k p)"
    "mm (tsk (switch_to q k) p) = mm (tsk k p)" "kernel_stack (tsk (switch_to q k) p) = kernel_stack (tsk k p)" for p
    by (simp_all add: switch_to_def)
  moreover have "task_list (switch_to q k) = task_list k" "current (switch_to q k) = q"
    "tss_esp0 (switch_to q k) = kernel_stack (tsk k q) + KERNEL_STACK_SIZE" "cr3 (switch_to q k) = pgd_phys (mm (tsk k q))"
    by (simp_all add: switch_to_def)
  ultimately show "sched_inv (switch_to q k)" using i assms(2) by (auto simp: sched_inv_def sane_priorities_def)
  show "same_family (switch_to q k) k" using assms(3) cz by (simp add: same_family_def switch_to_def)
qed

theorem exit_then_wait_witness:
  "\<exists>s1 s3. do_exit (\<lambda>_. 0) 7 demo_family = Some s1 \<and>
     sys_wait4 (\<lambda>_. 0) 2 0 0 (upd_kern (switch_to 1) s1) [] = Waited 2 s3 \<and> 2 \<notin> set (task_list (pkern s3))"
proof -
  obtain s1 where e: "do_exit (\<lambda>_. 0) 7 demo_family = Some s1" "family_ok (pkern s1)" "2 \<in> set (children (ptask s1 1))" "2 \<in> set (task_list (pkern s1))"
      "ppid (ptask s1 2) = 1"
    using exit_effect [OF demo_family_ok, of "\<lambda>_. 0" 7] by (auto simp: demo_family_facts Let_def)
  have core: "family_core (pkern s1)" using e(2) by (simp add: family_ok_def)
  have "1 \<in> set (task_list (pkern s1))" "state_of (pkern s1) 1 \<noteq> TASK_ZOMBIE" using core by (simp_all add: family_core_def)
  note sw = switch_to_inv [OF e(2) this]
  let ?s = "upd_kern (switch_to 1) s1"
  have "cur ?s = ppid (ptask demo_family (cur demo_family))" by (simp add: demo_family_facts switch_to_def)
  note run = this
  have k: "pkern ?s = switch_to 1 (pkern s1)" by simp
  have p: "cur demo_family \<noteq> 0" "cur demo_family \<noteq> 1" "cur demo_family < 2147483648" by (simp_all add: demo_family_facts)
  have "\<exists>s3. sys_wait4 (\<lambda>_. 0) (int (cur demo_family)) 0 0 ?s [] = Waited (int (cur demo_family)) s3 \<and> cur demo_family \<notin> set (task_list (pkern s3))"
    using exit_then_wait [OF demo_family_ok p e(1) sw(2) [folded k] sw(1) [folded k] run, of 0 undefined "\<lambda>_. 0" 0 "[]"] by blast
  then show ?thesis using e(1) unfolding demo_family_facts by auto
qed

end
