(* ===== verification/Exec_Run.thy ===== *)
theory Exec_Run
  imports Exec_Process Exit_Wait
begin

text \<open>
  What exec does as a whole: a program that cannot be loaded leaves the caller as it was, and one that can takes
  its place with exactly the memory of its image, its arguments on the stack, default signals, and the descriptors that
  are not marked close-on-exec.
\<close>

section \<open>The descriptor of the file\<close>

lemma put_kern_unlocked:
  assumes "locks (ofile st a) = []" "flock_type (ofile st a) = 0"
  shows "kern (open_file_put a st) = kern st"
  using assms by (simp add: open_file_put_def locks_release_file_def Let_def)

lemma drop_fd_append: "fd \<notin> fd_num ` set es \<Longrightarrow> fd_num e = fd \<Longrightarrow> drop_fd fd (es @ [e]) = es"
  by (induction es) auto

text \<open>The state of the tasks with the descriptor of the program file, which is \<open>fd\<close>.\<close>

definition with_fd :: "int \<Rightarrow> nat \<Rightarrow> kernel \<Rightarrow> kernel" where
  "with_fd fd a k = upd_task (current k) (\<lambda>t. t\<lparr>next_fd := succ_fd fd, files := files t @ [\<lparr>fd_num = fd, fd_file = a, cloexec = False\<rparr>]\<rparr>) k"

definition opened :: "int \<Rightarrow> nat \<Rightarrow> int \<Rightarrow> fstate \<Rightarrow> fstate \<Rightarrow> bool" where
  "opened fd a i st st' \<longleftrightarrow> a \<noteq> 0 \<and> fd = cur_next_fd st \<and> kern st' = with_fd fd a (kern st) \<and> locks (ofile st' a) = [] \<and>
     flock_type (ofile st' a) = 0 \<and> fs_id (ofile st' a) = i"

lemma upd_fd_last: "fd \<notin> fd_num ` set es \<Longrightarrow> fd_num e = fd \<Longrightarrow> upd_fd fd g (es @ [e]) = es @ [g e]"
  by (induction es) auto

lemma cur_fd_fresh: "file_inv st \<Longrightarrow> cur_next_fd st \<notin> fd_num ` set (cur_files st)"
  using inv_cur [of True "\<lambda>_. 0" st] by (auto simp: file_inv_def)

lemma open_readonly:
  assumes "fs_open i pr O_RDONLY drv fifo a ok st = (fd, st')" "file_inv st"
  shows "opened fd a i st st' \<or> (fd < 0 \<and> kern st' = kern st)"
proof (cases "fst drv \<noteq> 0 \<or> a = 0")
  case True
  then show ?thesis using assms(1) by (auto simp: fs_open_def split: if_splits)
next
  case False
  define st1 where "st1 = alloc_open_file a i pr (snd drv) (O_RDONLY AND NOT O_CLOEXEC) st"
  define r where "r = (case fifo of None \<Rightarrow> 0 | Some (r, p) \<Rightarrow> r)"
  define st2 where "st2 = (case fifo of
      Some (r, p) \<Rightarrow> if r < 0 then st1 else upd_file a (\<lambda>f. f\<lparr>pipe_end := Some p, is_fifo := True\<rparr>) st1 | None \<Rightarrow> st1)"
  have st2: "kern st2 = kern st" "locks (ofile st2 a) = []" "flock_type (ofile st2 a) = 0" "fs_id (ofile st2 a) = i"
    using False by (auto simp: st2_def st1_def alloc_open_file_def upd_file_def split: option.splits)
  have eq: "(fd, st') = (if r < 0 then (r, open_file_put a st2)
           else (case alloc_fd_entry ok a st2 of
                (None, st) \<Rightarrow> (-1, open_file_put a st)
              | (Some fd, st) \<Rightarrow>
                  (fd, set_files (upd_fd fd (\<lambda>e. e\<lparr>cloexec := False\<rparr>) (cur_files st)) st)))"
  proof -
    have "(O_RDONLY AND O_CLOEXEC \<noteq> 0) = False" "(fst drv \<noteq> 0) = False" "(a = 0) = False" using False by simp_all
    then show ?thesis
      unfolding assms(1) [symmetric] fs_open_def Let_def st2_def r_def st1_def by (simp only: if_False)
  qed
  have put: "kern (open_file_put a st2) = kern st" using put_kern_unlocked [of st2 a] st2 by simp
  show ?thesis
  proof (cases "r < 0 \<or> fd_limit_hit 0 st2 \<or> \<not> ok")
    case True
    then show ?thesis using eq put by (auto simp: alloc_fd_entry_def split: if_splits)
  next
    case ne: False
    have fr: "cur_next_fd st \<notin> fd_num ` set (cur_files st)" by (rule cur_fd_fresh [OF assms(2)])
    have c: "cur_files st2 = cur_files st" "cur_next_fd st2 = cur_next_fd st" using st2(1) by (simp_all add: cur_files_def)
    let ?e = "\<lparr>fd_num = cur_next_fd st, fd_file = a, cloexec = False\<rparr>"
    have "fd = cur_next_fd st \<and> st' = set_files (cur_files st @ [?e]) (add_fd fd a False (set_next_fd (succ_fd fd) st2))"
      using eq ne c by (auto simp: alloc_fd_entry_def Let_def add_fd_def upd_fd_last [OF fr])
    moreover have "kern (set_files fs (add_fd fd a False (set_next_fd (succ_fd fd) st2))) =
        upd_task (current (kern st)) (\<lambda>t. t\<lparr>next_fd := succ_fd fd, files := fs\<rparr>) (kern st)" for fs
      by (simp add: set_files_def add_fd_def set_next_fd_def upd_task_def st2(1))
    moreover have "files (tsk (kern st) (current (kern st))) = cur_files st" by (simp add: cur_files_def)
    ultimately show ?thesis
      using st2 False by (simp add: opened_def with_fd_def upd_task_def add_fd_def)
  qed
qed

lemma opened_files: "opened fd a i st st' \<Longrightarrow> cur_files st' = cur_files st @ [\<lparr>fd_num = fd, fd_file = a, cloexec = False\<rparr>]"
  by (simp add: opened_def cur_files_def with_fd_def upd_task_def)

lemma opened_find:
  assumes "opened fd a i st st'" "file_inv st"
  shows "find_fd_entry fd st' = Some \<lparr>fd_num = fd, fd_file = a, cloexec = False\<rparr>"
proof -
  have "fd \<notin> fd_num ` set (cur_files st)" using cur_fd_fresh [OF assms(2)] assms(1) by (simp add: opened_def)
  then have "find (\<lambda>e. fd_num e = fd) (cur_files st) = None" by (auto simp: find_None_iff)
  then have "find (\<lambda>e. fd_num e = fd) (cur_files st @ [\<lparr>fd_num = fd, fd_file = a, cloexec = False\<rparr>]) =
      Some \<lparr>fd_num = fd, fd_file = a, cloexec = False\<rparr>"
    by (simp add: find_snoc)
  then show ?thesis by (simp add: find_fd_entry_def opened_files [OF assms(1)])
qed

lemma seek_opened:
  assumes "fs_seek sk fd off wh st1 = Some (r, st2)" "opened fd a i st st1" "file_inv st"
  shows "opened fd a i st st2 \<and> live st2 = live st1 \<and> (\<forall>b. refcount (ofile st2 b) = refcount (ofile st1 b))"
  using assms(1) opened_find [OF assms(2,3)] assms(2)
  by (auto simp: fs_seek_def opened_def Let_def split: option.splits if_splits)



lemma close_last_fd:
  assumes "cur_files st = fs @ [\<lparr>fd_num = fd, fd_file = a, cloexec = False\<rparr>]" "fd \<notin> fd_num ` set fs"
    "locks (ofile st a) = []" "flock_type (ofile st a) = 0"
  shows "kern (snd (fs_close fd st)) = upd_task (current (kern st)) (\<lambda>t. t\<lparr>files := fs\<rparr>) (kern st)"
proof -
  have "find_fd_entry fd st = Some \<lparr>fd_num = fd, fd_file = a, cloexec = False\<rparr>"
    using assms(2) by (auto simp: find_fd_entry_def assms(1) find_snoc find_Some_iff split: option.splits)
  moreover have "kern (open_file_put a st) = kern st" by (rule put_kern_unlocked [OF assms(3,4)])
  moreover from this have "cur_files (open_file_put a st) = cur_files st" by (simp add: cur_files_def)
  ultimately show ?thesis
    using drop_fd_append [OF assms(2)] by (simp add: fs_close_def free_fd_entry_def set_files_def assms(1))
qed


section \<open>A program that cannot be loaded\<close>


lemma inv_seek:
  assumes "inv_num N ext st" "fs_seek sk fd off wh st = Some (r, st')"
  shows "inv_num N ext st'"
  using assms by (auto simp: fs_seek_def Let_def intro!: inv_file_fields split: option.splits if_splits)


lemma inv_rename: "file_inv (pfs s) \<Longrightarrow> file_inv (pfs (upd_ptask p (\<lambda>t. t\<lparr>tname := nm\<rparr>) s))"
  unfolding file_inv_def
  by (erule inv_num_cong) (simp_all add: upd_ptask_def upd_kern_def upd_task_def same_files_def)


section \<open>The emptied address space\<close>

lemma set_pte_none: "page_tables (set_pte i j pte sp) k = None \<longleftrightarrow> page_tables sp k = None"
  by (auto simp: set_pte_def split: option.splits)

lemma free_pages_none: "page_tables (fst (free_user_pages_loop a e sp fr)) k = None \<longleftrightarrow> page_tables sp k = None"
proof (induction a e sp fr rule: free_user_pages_loop.induct)
  case (1 a e sp fr)
  show ?case
  proof (cases "a < e")
    case False
    then show ?thesis by (subst free_user_pages_loop.simps) simp
  next
    case True
    show ?thesis
    proof (cases "lookup_pte sp a")
      case None
      then show ?thesis using True "1.IH" by (subst free_user_pages_loop.simps) simp
    next
      case (Some pte)
      then show ?thesis
        using True "1.IH" by (subst free_user_pages_loop.simps) (simp add: set_pte_none split: if_split)
    qed
  qed
qed

lemma free_vma_none: "page_tables (fst (free_vma_pages vs sp)) k = None \<longleftrightarrow> page_tables sp k = None"
proof -
  have "page_tables (fst (fold (\<lambda>v (sp, fr). case arch_mm_free_user_pages sp (vm_start v) (vm_end v) of (sp, fr') \<Rightarrow> (sp, fr @ fr')) vs (sp, fr))) k = None
      \<longleftrightarrow> page_tables sp k = None" for sp fr
    by (induction vs arbitrary: sp fr)
      (simp_all add: arch_mm_free_user_pages_def split_beta free_pages_none)
  then show ?thesis by (simp add: free_vma_pages_def)
qed

lemma free_tables_keep: "768 \<le> k \<Longrightarrow> page_tables (fst (arch_mm_free_user_tables tabs sp)) k = page_tables sp k"
proof -
  have "n \<le> k \<Longrightarrow> page_tables (fst (fold (\<lambda>i (s, freed). if page_tables s i \<noteq> None
       then (s\<lparr>page_tables := (page_tables s)(i := None), pgdir := (pgdir s)(i := 0)\<rparr>, freed @ [tabs i])
       else (s, freed)) [0..<n] (sp, []))) k = page_tables sp k" for n
    by (induction n) (auto split: prod.splits)
  then show "768 \<le> k \<Longrightarrow> page_tables (fst (arch_mm_free_user_tables tabs sp)) k = page_tables sp k"
    by (simp add: arch_mm_free_user_tables_def)
qed

definition no_tables :: "addr_space \<Rightarrow> bool" where
  "no_tables sp \<longleftrightarrow> (\<forall>i. page_tables sp i = None)"

lemma free_memory_empty:
  assumes "\<forall>i \<ge> 768. page_tables (spaces s p) i = None"
  shows "no_tables (spaces (free_user_memory tabs p s) p)" "no_user_pages (spaces (free_user_memory tabs p s) p)" "pvmas (free_user_memory tabs p s) p = []"
    "ram (free_user_memory tabs p s) = ram s" "pfs (free_user_memory tabs p s) = pfs s"
proof -
  have "page_tables (spaces (free_user_memory tabs p s) p) i = None" for i
  proof (cases "i < 768")
    case True
    then show ?thesis using free_tables_none by (simp add: free_user_memory_def split_beta)
  next
    case False
    then show ?thesis using assms free_tables_keep free_vma_none by (simp add: free_user_memory_def split_beta)
  qed
  then show "no_tables (spaces (free_user_memory tabs p s) p)" "no_user_pages (spaces (free_user_memory tabs p s) p)"
    by (simp_all add: no_tables_def no_user_pages_def mapped_pte_def lookup_pte_def)
qed (simp_all add: free_user_memory_def split: prod.splits)

section \<open>The stack\<close>

lemma map_fresh_any:
  assumes "map_fresh va pa fl c = (r, c')" "pte_present (pte_frame pa OR fl)"
  shows "mapped_pte (child c') vb = (if r = 0 \<and> vb div 4096 = va div 4096 then Some (pte_frame pa OR fl) else mapped_pte (child c) vb)"
    "phys c' = phys c"
proof -
  obtain pt c1 where 1: "(if pdi va < 768 \<and> page_tables (child c) (pdi va) = None then take_page c else (0, c)) = (pt, c1)" by fastforce
  have t: "child c1 = child c \<and> phys c1 = phys c" using 1 by (auto simp: take_page_def split: list.splits if_splits)
  obtain sp where m: "arch_mm_map_user (child c1) va pa fl pt = (r, sp)" "c' = c1\<lparr>child := sp\<rparr>"
    using assms(1) 1 by (auto simp: map_fresh_def split: prod.splits)
  show "phys c' = phys c" using t m(2) by simp
  show "mapped_pte (child c') vb = (if r = 0 \<and> vb div 4096 = va div 4096 then Some (pte_frame pa OR fl) else mapped_pte (child c) vb)"
  proof (cases "r = 0")
    case True
    then show ?thesis using map_user_pte [OF m(1) [unfolded True] assms(2)] t m(2) by simp
  next
    case False
    then have "sp = child c1" using m(1) by (auto simp: arch_mm_map_user_def Let_def split: if_splits)
    then show ?thesis using False t m(2) by simp
  qed
qed

text \<open>The result of mapping two pages one after the other, whether or not a page table could be had.\<close>

lemma map_stack:
  assumes "unat pa mod 4096 = 0" "unat pa + 8192 \<le> 4294967296"
    "c1 = snd (map_fresh stack_vaddr pa 7 c)" "c2 = snd (map_fresh (stack_vaddr + PAGE_SIZE) (pa + of_nat PAGE_SIZE) 7 c1)"
    "\<forall>va \<ge> 0xBFFFE000. mapped_pte (child c) va = None"
  shows "phys c2 = phys c" "va < 0xBFFFE000 \<Longrightarrow> mapped_pte (child c2) va = mapped_pte (child c) va"
    "i < 8192 \<Longrightarrow> translate (child c2) (0xBFFFE000 + i) \<in> {None, Some (unat pa + i)}"
proof -
  have sv: "stack_vaddr = 0xBFFFE000" by (simp add: stack_vaddr_def USER_STACK_TOP_def PAGE_SIZE_def)
  let ?pb = "pa + of_nat PAGE_SIZE"
  have pb: "unat ?pb = unat pa + 4096"
  proof -
    have "unat ?pb = (unat pa + 4096) mod 4294967296" by (simp add: unat_word_ariths PAGE_SIZE_def)
    then show ?thesis using assms(2) by simp
  qed
  have fr: "pte_frame pa = pa" "pte_frame ?pb = ?pb"
    using assms(1) pb copied_entry(1) [of pa 0] copied_entry(1) [of ?pb 0] by (simp_all flip: aligned_iff)
  have pres: "pte_present (pte_frame w OR 7)" for w by (simp add: pte_present_def word_ao_dist pte_frame_def word_bw_assocs)
  have frame: "pte_frame (pte_frame w OR 7) = pte_frame w" for w by (rule frame_or_flags) (simp add: pte_frame_def)
  obtain r1 where 1: "map_fresh stack_vaddr pa 7 c = (r1, c1)" using assms(3) by (metis prod.collapse)
  obtain r2 where 2: "map_fresh (stack_vaddr + PAGE_SIZE) ?pb 7 c1 = (r2, c2)" using assms(4) by (metis prod.collapse)
  note m1 = map_fresh_any [OF 1 pres] and m2 = map_fresh_any [OF 2 pres]
  show "phys c2 = phys c" using m1(2) m2(2) by simp
  have pg: "(0xBFFFE000 + i) div 4096 = 0xBFFFE + i div 4096" for i :: nat
  proof -
    have "0xBFFFE000 + i = i + 4096 * 0xBFFFE" by simp
    then show ?thesis by (simp add: div_mult_self2)
  qed
  have p: "mapped_pte (child c2) va = (if r2 = 0 \<and> va div 4096 = 0xBFFFF then Some (?pb OR 7)
      else if r1 = 0 \<and> va div 4096 = 0xBFFFE then Some (pa OR 7) else mapped_pte (child c) va)" for va
    unfolding m2(1) m1(1) fr by (simp add: sv PAGE_SIZE_def)
  show "va < 0xBFFFE000 \<Longrightarrow> mapped_pte (child c2) va = mapped_pte (child c) va"
    using p [of va] by auto
  show "translate (child c2) (0xBFFFE000 + i) \<in> {None, Some (unat pa + i)}" if i: "i < 8192"
  proof -
    have none: "mapped_pte (child c) (0xBFFFE000 + i) = None" using assms(5) by simp
    have md: "(0xBFFFE000 + i) mod 4096 = i mod 4096"
    proof -
      have "0xBFFFE000 + i = i + 4096 * 0xBFFFE" by simp
      then show ?thesis by (simp only: mod_mult_self2)
    qed
    consider "i div 4096 = 0" | "i div 4096 = 1" using i by (metis One_nat_def less_2_cases div_less_iff_less_mult mult_2 numeral_Bit0 zero_less_numeral
      less_mult_imp_div_less numeral_times_numeral semiring_norm(12) semiring_norm(13))
    then show ?thesis
    proof cases
      case 1
      then have "i mod 4096 = i" by (simp add: div_eq_0_iff)
      then show ?thesis using p [of "0xBFFFE000 + i"] none 1 frame [of pa] fr by (auto simp: translate_mapped pg md)
    next
      case 2
      then have "i = 4096 + i mod 4096" by (metis div_mult_mod_eq mult_1)
      then show ?thesis using p [of "0xBFFFE000 + i"] none 2 frame [of ?pb] fr pb by (auto simp: translate_mapped pg md)
    qed
  qed
qed

section \<open>Close-on-exec\<close>

text \<open>Tasks that differ in descriptors and scheduling state only.\<close>

definition same_task :: "task \<Rightarrow> task \<Rightarrow> bool" where
  "same_task t u \<longleftrightarrow> u\<lparr>files := files t, tstate := tstate t\<rparr> = t"

lemma same_task_refl [simp]: "same_task t t"
  by (simp add: same_task_def)

lemma same_task_trans: "same_task t u \<Longrightarrow> same_task u v \<Longrightarrow> same_task t v"
  by (cases t; cases u; cases v) (simp add: same_task_def)

lemma same_task_files: "same_task t (t\<lparr>files := fs\<rparr>)"
  by (cases t) (simp add: same_task_def)

lemma same_task_state: "same_task t (t\<lparr>tstate := x\<rparr>)"
  by (cases t) (simp add: same_task_def)

lemma wake_same: "same_task (tsk k q) (tsk (wake_up w k) q)"
proof (cases "q \<in> set (wqs k w) \<and> state_of k q = TASK_BLOCKED")
  case True
  then show ?thesis by (simp add: same_task_state)
qed auto

lemma locks_same: "same_task (tsk (kern st) q) (tsk (kern (locks_release_file a st)) q)"
proof -
  define st1 where "st1 = (if locks (ofile st a) \<noteq> []
                then (upd_file a (\<lambda>f. f\<lparr>locks := []\<rparr>) st)\<lparr>kern := wake_up lock_wq (kern st)\<rparr> else st)"
  have "same_task (tsk (kern st) q) (tsk (kern st1) q)" unfolding st1_def using wake_same by simp
  moreover have "same_task (tsk (kern st1) q) (tsk (kern (locks_release_file a st)) q)"
    unfolding locks_release_file_def Let_def st1_def [symmetric] using wake_same by simp
  ultimately show ?thesis by (rule same_task_trans)
qed

lemma close_same: "same_task (tsk (kern st) q) (tsk (kern (snd (fs_close fd st))) q)"
proof (cases "find_fd_entry fd st")
  case None
  then show ?thesis by (simp add: fs_close_def)
next
  case (Some e)
  let ?a = "fd_file e"
  have "same_task (tsk (kern st) q) (tsk (kern (open_file_put ?a st)) q)"
  proof (cases "?a = 0 \<or> refcount (ofile (upd_file ?a (\<lambda>f. f\<lparr>refcount := refcount f - 1\<rparr>) st) ?a) \<noteq> 0")
    case True
    then show ?thesis by (auto simp: open_file_put_def Let_def)
  next
    case False
    then show ?thesis using locks_same [of "upd_file ?a (\<lambda>f. f\<lparr>refcount := refcount f - 1\<rparr>) st" q ?a]
      by (simp add: open_file_put_def Let_def)
  qed
  moreover have "same_task (tsk (kern st2) q) (tsk (kern (set_files fs st2)) q)" for fs st2
  proof (cases "q = current (kern st2)")
    case True
    then show ?thesis by (simp add: set_files_def upd_task_def same_task_files)
  qed (simp add: set_files_def upd_task_def)
  ultimately show ?thesis
    using Some by (auto simp: fs_close_def free_fd_entry_def intro: same_task_trans)
qed

lemma filter_not_in: "fd \<notin> fd_num ` set es \<Longrightarrow> filter (\<lambda>x. fd_num x \<noteq> fd) es = es"
  by (induction es) auto

lemma drop_fd_filter: "distinct (map fd_num es) \<Longrightarrow> drop_fd fd es = filter (\<lambda>x. fd_num x \<noteq> fd) es"
proof (induction es)
  case (Cons e es)
  show ?case
  proof (cases "fd_num e = fd")
    case True
    then have "fd \<notin> fd_num ` set es" using Cons.prems by auto
    then show ?thesis using True by (simp add: filter_not_in)
  next
    case False
    then show ?thesis using Cons by simp
  qed
qed simp

lemma close_files:
  assumes "inv_num N (\<lambda>_. 0) st" "distinct (map fd_num (cur_files st))"
  shows "cur_files (snd (fs_close fd st)) = filter (\<lambda>x. fd_num x \<noteq> fd) (cur_files st)"
proof (cases "find_fd_entry fd st")
  case None
  then show ?thesis using find_fd_entry_None [of fd st] by (simp add: fs_close_def filter_not_in)
next
  case (Some e)
  then have "fd_file e \<noteq> 0" using inv_cur [OF assms(1)] find_fd_entry_Some [OF Some] by auto
  then show ?thesis using Some assms(2) by (simp add: fs_close_def free_fd_entry_def drop_fd_filter)
qed

lemma fold_close:
  "inv_num N (\<lambda>_. 0) st \<Longrightarrow> distinct (map fd_num (cur_files st)) \<Longrightarrow>
   cur_files (fold (\<lambda>e st. if cloexec e then snd (fs_close (fd_num e) st) else st) es st) =
     filter (\<lambda>x. \<not> (\<exists>e \<in> set es. cloexec e \<and> fd_num e = fd_num x)) (cur_files st) \<and>
   same_task (tsk (kern st) q) (tsk (kern (fold (\<lambda>e st. if cloexec e then snd (fs_close (fd_num e) st) else st) es st)) q)"
proof (induction es arbitrary: st)
  case (Cons e es)
  let ?st = "if cloexec e then snd (fs_close (fd_num e) st) else st"
  have inv: "inv_num N (\<lambda>_. 0) ?st" using Cons.prems by (auto intro: inv_close)
  have f: "cur_files ?st = filter (\<lambda>x. \<not> (cloexec e \<and> fd_num e = fd_num x)) (cur_files st)"
    using close_files [OF Cons.prems] by (auto intro: filter_cong)
  have "same_task (tsk (kern st) q) (tsk (kern ?st) q)" using close_same by simp
  moreover have "distinct (map fd_num (cur_files ?st))" unfolding f by (rule distinct_map_filter [OF Cons.prems(2)])
  ultimately show ?case using Cons.IH [OF inv] unfolding f by (auto intro: same_task_trans filter_cong)
qed simp

lemma close_on_exec:
  assumes "inv_num N (\<lambda>_. 0) st" "distinct (map fd_num (cur_files st))"
  shows "cur_files (fs_close_on_exec st) = filter (\<lambda>e. \<not> cloexec e) (cur_files st)"
    "same_task (tsk (kern st) q) (tsk (kern (fs_close_on_exec st)) q)"
proof -
  have "filter (\<lambda>x. \<not> (\<exists>e \<in> set (cur_files st). cloexec e \<and> fd_num e = fd_num x)) (cur_files st) = filter (\<lambda>e. \<not> cloexec e) (cur_files st)"
    by (rule filter_cong) (use assms(2) in \<open>auto simp: distinct_map inj_on_def\<close>)
  then show "cur_files (fs_close_on_exec st) = filter (\<lambda>e. \<not> cloexec e) (cur_files st)"
    using fold_close [OF assms, of "cur_files st"] by (simp add: fs_close_on_exec_def)
  show "same_task (tsk (kern st) q) (tsk (kern (fs_close_on_exec st)) q)"
    using fold_close [OF assms, of "cur_files st"] by (simp add: fs_close_on_exec_def)
qed

section \<open>The program that exec installs\<close>

text \<open>The segments and the entry point of a file, of either format.\<close>

definition is_elf :: "exec_file \<Rightarrow> bool" where
  "is_elf f \<longleftrightarrow> chunk f 0 4 = 4 \<and> elf_magic (take 4 (fbytes f))"

definition program_segs :: "exec_file \<Rightarrow> elf_seg list" where
  "program_segs f = (if is_elf f then sort_key vaddr (load_segments f) else [flat_seg (length (fbytes f))])"

definition program_entry :: "exec_file \<Rightarrow> nat" where
  "program_entry f = (if is_elf f then e_entry (header_of f) else 0x8000000)"

lemma elf_load_common_status: "elf_load_common f rok segs st = (r, st') \<Longrightarrow> r \<le> 0"
  using load_regions_status [of f "sort_segs segs" "elf_regions (sort_segs segs)" "lmem st"]
  by (auto simp: elf_load_common_def Let_def dest: add_seg_vmas_status split: prod.splits if_splits)

lemma load_elf_status: "load_elf f n sok rok st = (r, st') \<Longrightarrow> r \<le> 0"
  by (auto simp: load_elf_def elf_check_header_def elf32_load_def Let_def dest: elf_load_common_status split: prod.splits if_splits option.splits)

lemma load_binary_loaded:
  assumes "load_binary f (length (fbytes f)) sok rok st = (r, st')" "0 \<le> r" "pread_ok f" "0 < length (fbytes f)" "length (fbytes f) < 2 ^ 31"
    "no_user_pages (child (lmem st))"
    "distinct (fresh_frames (lmem st))" "\<forall>a \<in> set (fresh_frames (lmem st)). a mod 4096 = 0"
  shows "loaded f (program_segs f) (lmem st) (\<Union> (seg_pages ` set (program_segs f))) (lmem st')"
    "\<forall>s \<in> set (program_segs f). seg_ok (length (fbytes f)) s" "entry (limage st') = program_entry f"
proof -
  have n31: "length (fbytes f) < 2147483648" using assms(5) by simp
  have "loaded f (program_segs f) (lmem st) (\<Union> (seg_pages ` set (program_segs f))) (lmem st') \<and>
      (\<forall>s \<in> set (program_segs f). seg_ok (length (fbytes f)) s) \<and> entry (limage st') = program_entry f"
  proof (cases "is_elf f")
    case True
    then have "load_elf f (length (fbytes f)) sok rok st = (r, st')"
      using assms(1) by (simp add: load_binary_def pread_def is_elf_def)
    moreover from this have "r = 0" using load_elf_status assms(2) by fastforce
    ultimately show ?thesis
      using load_elf_loaded [of f sok rok st st'] assms(3-) True by (simp add: Let_def program_segs_def program_entry_def)
  next
    case False
    then have "load_flat f (length (fbytes f)) st = (r, st')"
      using assms(1,2) by (auto simp: load_binary_def pread_def is_elf_def split: if_splits)
    from load_flat_loaded [OF this assms(2-)] show ?thesis
      using False flat_pages [OF assms(4)] flat_seg_ok [OF assms(4) n31] by (simp add: Let_def program_segs_def program_entry_def)
  qed
  then show "loaded f (program_segs f) (lmem st) (\<Union> (seg_pages ` set (program_segs f))) (lmem st')"
    "\<forall>s \<in> set (program_segs f). seg_ok (length (fbytes f)) s" "entry (limage st') = program_entry f" by blast+
qed

text \<open>The image stays when memory outside the new frames is written.\<close>

lemma image_kept:
  assumes "loaded f segs c0 (\<Union> (seg_pages ` set segs)) c" "mapped_pte sp va = mapped_pte (child c) va"
    "\<And>a x. a \<in> set (fresh_frames c0) \<Longrightarrow> x < 4096 \<Longrightarrow> m (a + x) = phys c (a + x)"
  shows "has_image f segs sp m va"
proof (cases "\<exists>s \<in> set segs. va div 4096 \<in> seg_pages s")
  case True
  let ?p = "va div 4096"
  have "?p \<in> \<Union> (seg_pages ` set segs)" using True by blast
  then obtain pte where pte: "mapped_pte (child c) (4096 * ?p) = Some pte" "pte_writable pte \<longleftrightarrow> page_writes segs ?p"
      "unat (pte_frame pte) \<in> set (fresh_frames c0)"
      "\<And>x. x < 4096 \<Longrightarrow> phys c (unat (pte_frame pte) + x) = image_byte f segs (4096 * ?p + x)"
    using assms(1) unfolding loaded_def by blast
  have p: "mapped_pte sp va = Some pte" unfolding assms(2) pte(1) [symmetric] by (rule mapped_pte_page) simp
  have "m (unat (pte_frame pte) + va mod 4096) = image_byte f segs va"
    using assms(3) [OF pte(3), of "va mod 4096"] pte(4) [of "va mod 4096"] by simp
  then show ?thesis using True p pte(2) by (simp add: has_image_def translate_mapped)
next
  case False
  then have "mapped_pte (child c) (4096 * (va div 4096)) = None" using assms(1) unfolding loaded_def by blast
  moreover have "mapped_pte (child c) va = mapped_pte (child c) (4096 * (va div 4096))" by (rule mapped_pte_page) simp
  ultimately show ?thesis unfolding has_image_def using False assms(2) by (simp add: translate_mapped)
qed

text \<open>The descriptors and the tasks on the way through the replacement.\<close>

lemma inv_task_fields:
  assumes "inv_num N ext st" "\<And>t. files (g t) = files t \<and> next_fd (g t) = next_fd t \<and> rlimit_cur (g t) = rlimit_cur t"
  shows "inv_num N ext (st\<lparr>kern := upd_task p g (kern st)\<rparr>)"
  using assms by (intro inv_num_cong [OF assms(1)]) (simp_all add: upd_task_def same_files_def)

lemma exec_files:
  assumes "opened fd a i st0 st" "file_inv st0" "inv_num N (\<lambda>_. 0) st" "p = current (kern st0)"
    "st1 = st\<lparr>kern := upd_task p reset_signals (kern st)\<rparr>" "st2 = snd (fs_close fd st1)"
    "st3 = st2\<lparr>kern := upd_task p (set_image img) (kern st2)\<rparr>"
  shows "inv_num N (\<lambda>_. 0) st3" "kern st3 = upd_task p (\<lambda>t. set_image img (reset_signals (t\<lparr>next_fd := succ_fd fd\<rparr>))) (kern st0)"
proof -
  have k: "kern st = with_fd fd a (kern st0)" "locks (ofile st a) = []" "flock_type (ofile st a) = 0" "fd = cur_next_fd st0"
    using assms(1) by (simp_all add: opened_def)
  have cur: "current (kern st1) = p" "cur_files st1 = cur_files st0 @ [\<lparr>fd_num = fd, fd_file = a, cloexec = False\<rparr>]"
    using assms(4,5) k(1) by (simp_all add: with_fd_def upd_task_def cur_files_def reset_signals_def)
  have "kern st2 = upd_task p (\<lambda>t. t\<lparr>files := cur_files st0\<rparr>) (kern st1)"
    unfolding assms(6) cur(1) [symmetric]
    by (rule close_last_fd [OF cur(2)]) (use cur_fd_fresh [OF assms(2)] k assms(5) in simp_all)
  then show "kern st3 = upd_task p (\<lambda>t. set_image img (reset_signals (t\<lparr>next_fd := succ_fd fd\<rparr>))) (kern st0)"
    unfolding assms(5,7) k(1) with_fd_def assms(4) by (simp add: upd_task_def reset_signals_def set_image_def cur_files_def)
  have "inv_num N (\<lambda>_. 0) st1" unfolding assms(5) by (rule inv_task_fields [OF assms(3)]) (simp add: reset_signals_def)
  then have "inv_num N (\<lambda>_. 0) st2" unfolding assms(6) by (rule inv_close) simp
  then show "inv_num N (\<lambda>_. 0) st3" unfolding assms(7) by (rule inv_task_fields) (simp add: set_image_def)
qed

text \<open>Success from the stack on.\<close>

lemma exec_stack_enters:
  assumes "exec_stack e argv envp st s = Exec_enters ent esp s'"
  obtains c1 c2 m where "c1 = snd (map_fresh stack_vaddr (virt_to_phys (x_stack e)) 7 (lmem st))"
    "c2 = snd (map_fresh (stack_vaddr + PAGE_SIZE) (virt_to_phys (x_stack e) + of_nat PAGE_SIZE) 7 c1)"
    "build_stack (x_stack e) argv envp (phys c2) = Some (esp, m)" "ent = entry (limage st)" "ram s' = m"
    "spaces s' (cur s) = child c2" "pfs s' = fs_close_on_exec (pfs s)"
proof -
  define c1 where "c1 = snd (map_fresh stack_vaddr (virt_to_phys (x_stack e)) 7 (lmem st))"
  define c2 where "c2 = snd (map_fresh (stack_vaddr + PAGE_SIZE) (virt_to_phys (x_stack e) + of_nat PAGE_SIZE) 7 c1)"
  obtain ok st1 where 1: "take_ok (st\<lparr>lmem := c2\<rparr>) = (ok, st1)" by fastforce
  define st2 where "st2 = (case stack_area ok (ptask s (cur s)) of None \<Rightarrow> st1 | Some v \<Rightarrow> st1\<lparr>lvmas := insert_vma v (lvmas st1)\<rparr>)"
  have st2: "lmem st2 = c2" "limage st2 = limage st"
    using 1 by (auto simp: st2_def take_ok_def split: option.splits list.splits)
  have nz: "x_stack e \<noteq> 0" using assms by (auto simp: exec_stack_def Let_def)
  have run: "(case build_stack (x_stack e) argv envp (phys c2) of
        None \<Rightarrow> Exec_returns (-E2BIG) (store_load (cur s) st2 s)
      | Some (esp, m) \<Rightarrow> Exec_enters (entry (limage st))  esp (((store_load (cur s) st2 s)\<lparr>ram := m\<rparr>)\<lparr>pfs := fs_close_on_exec (pfs s)\<rparr>)) =
      Exec_enters ent esp s'"
    unfolding assms [symmetric] exec_stack_def Let_def c1_def [symmetric] c2_def [symmetric] 1 prod.case st2_def [symmetric] st2
    using nz by (simp add: store_load_def split: option.split)
  then obtain m where "build_stack (x_stack e) argv envp (phys c2) = Some (esp, m)"
      "s' = ((store_load (cur s) st2 s)\<lparr>ram := m\<rparr>)\<lparr>pfs := fs_close_on_exec (pfs s)\<rparr>" "ent = entry (limage st)"
    by (auto split: option.splits)
  then show ?thesis using st2 by (intro that [OF c1_def c2_def]) (simp_all add: store_load_def)
qed

text \<open>Success from the point of no return on.\<close>

lemma exec_replace_enters:
  assumes "exec_replace tabs e argv envp fd sz s = Exec_enters ent esp s'"
  obtains sp r st s3 where "sp = spaces (free_user_memory tabs (cur s) s) (cur s)"
    "load_binary (x_file e) sz (x_segs_ok e) (x_regions_ok e) (start_load e sp (ram s) []) = (r, st)" "0 \<le> r"
    "exec_stack e argv envp st s3 = Exec_enters ent esp s'"
    "pfs s3 = (let st1 = (pfs s)\<lparr>kern := upd_task (cur s) reset_signals (pkern s)\<rparr>; st2 = snd (fs_close fd st1)
       in st2\<lparr>kern := upd_task (cur s) (set_image (limage st)) (kern st2)\<rparr>)"
proof -
  define s1 where "s1 = upd_ptask (cur s) reset_signals (free_user_memory tabs (cur s) s)"
  have s1: "pfs s1 = (pfs s)\<lparr>kern := upd_task (cur s) reset_signals (pkern s)\<rparr>" "pvmas s1 (cur s) = []" "ram s1 = ram s"
    "spaces s1 = spaces (free_user_memory tabs (cur s) s)"
    by (auto simp: s1_def upd_ptask_def upd_kern_def free_user_memory_def split: prod.splits)
  obtain r st where b: "load_binary (x_file e) sz (x_segs_ok e) (x_regions_ok e) (start_load e (spaces s1 (cur s)) (ram s) []) = (r, st)"
    by fastforce
  have run: "(if r < 0 then close_return fd (-ENOEXEC) (store_load (cur s) st s1)
      else exec_stack e argv envp st (upd_ptask (cur s) (set_image (limage st)) (s1\<lparr>pfs := snd (fs_close fd (pfs s1))\<rparr>))) = Exec_enters ent esp s'"
    using assms unfolding exec_replace_def Let_def s1_def [symmetric] s1(2,3) b prod.case .
  have r: "0 \<le> r" using run by (auto simp: close_return_def split: if_splits)
  show ?thesis
  proof (rule that [OF _ b [unfolded s1(4)] r])
    show "exec_stack e argv envp st (upd_ptask (cur s) (set_image (limage st)) (s1\<lparr>pfs := snd (fs_close fd (pfs s1))\<rparr>)) = Exec_enters ent esp s'"
      using run r by simp
    show "pfs (upd_ptask (cur s) (set_image (limage st)) (s1\<lparr>pfs := snd (fs_close fd (pfs s1))\<rparr>)) =
      (let st1 = (pfs s)\<lparr>kern := upd_task (cur s) reset_signals (pkern s)\<rparr>; st2 = snd (fs_close fd st1)
       in st2\<lparr>kern := upd_task (cur s) (set_image (limage st)) (kern st2)\<rparr>)"
      by (simp add: upd_ptask_def upd_kern_def s1(1) Let_def)
  qed simp
qed

lemma exec_file_open_enters:
  assumes "exec_file_open tabs e argv envp s = Exec_enters ent esp s'" "file_inv (pfs s)" "\<not> live (pfs s) (x_file_struct e)"
    "x_seek e = Some sk" "\<forall>p. sk p 0 2 = Some n" "n < 2 ^ 31" 
  obtains fd st where "opened fd (x_file_struct e) (x_fs e) (pfs s) st" "count_inv st \<and> (cur_next_fd (pfs s) < 2147483647 \<longrightarrow> file_inv st)" "0 < n"
    "exec_replace tabs e argv envp fd n (s\<lparr>pfs := st\<rparr>) = Exec_enters ent esp s'"
proof -
  obtain fd st1 where 1: "fs_open (x_fs e) (x_priv e) O_RDONLY (x_open e) (x_fifo e) (x_file_struct e) (x_fd_ok e) (pfs s) = (fd, st1)"
    by fastforce
  have fd: "\<not> fd < 0" using assms(1) 1 by (auto simp: exec_file_open_def Let_def split: if_splits)
  then have o1: "opened fd (x_file_struct e) (x_fs e) (pfs s) st1" using open_readonly [OF 1 assms(2)] by simp
  have inv1: "inv_num N (\<lambda>_. 0) st1" if "N \<Longrightarrow> cur_next_fd (pfs s) < 2147483647" for N
  proof -
    have "inv_num N (\<lambda>_. 0) (snd (fs_open (x_fs e) (x_priv e) O_RDONLY (x_open e) (x_fifo e) (x_file_struct e) (x_fd_ok e) (pfs s)))"
      by (rule inv_open [OF inv_num_weak [OF assms(2) [unfolded file_inv_def]] assms(3)]) (use that fd o1 in \<open>auto simp: opened_def\<close>)
    then show ?thesis using 1 by simp
  qed
  obtain sz st2 where 2: "fs_seek (x_seek e) fd 0 2 st1 = Some (sz, st2)"
    using assms(1) 1 fd by (auto simp: exec_file_open_def Let_def split: option.splits prod.splits)
  note o2 = seek_opened [OF 2 o1 assms(2), THEN conjunct1]
  have sz: "sz = int n"
    using 2 opened_find [OF o1 assms(2)] o1 [unfolded opened_def] assms(4-6) by (auto simp: fs_seek_def Let_def to_int_def split: if_splits)
  have n: "0 < n" using assms(1) 1 2 fd sz by (auto simp: exec_file_open_def Let_def close_return_def split: if_splits)
  obtain q st3 where 3: "fs_seek (x_seek e) fd 0 0 st2 = Some (q, st3)"
    using assms(1) 1 2 fd sz n by (auto simp: exec_file_open_def Let_def split: option.splits prod.splits)
  note o3 = seek_opened [OF 3 o2 assms(2), THEN conjunct1]
  have "exec_replace tabs e argv envp fd n (s\<lparr>pfs := st3\<rparr>) = Exec_enters ent esp s'"
    using assms(1) 1 2 3 fd sz n by (auto simp: exec_file_open_def Let_def close_return_def split: if_splits)
  moreover have "count_inv st3 \<and> (cur_next_fd (pfs s) < 2147483647 \<longrightarrow> file_inv st3)"
    by (rule inv_numI) (erule inv_seek [OF inv_seek [OF inv1 2] 3])
  ultimately show ?thesis using that [OF o3 _ n] by blast
qed

lemma do_exec_enters:
  assumes "do_exec tabs e path argv envp s = Exec_enters ent esp s'"
  obtains p av ev where "exec_string (spaces s (cur s), ram s) path 255 = Some (Some p)"
    "copy_exec_strings (spaces s (cur s), ram s) argv = Some (Some av)" "copy_exec_strings (spaces s (cur s), ram s) envp = Some (Some ev)"
    "ptrs av = [] \<longrightarrow> length p + 1 \<le> EXEC_MAX_DATA"
    "exec_file_open tabs e (default_argv p av) ev (upd_ptask (cur s) (\<lambda>t. t\<lparr>tname := name_of (path_base p)\<rparr>) s) = Exec_enters ent esp s'"
proof -
  let ?u = "(spaces s (cur s), ram s)"
  have v: "valid_user_pointer (spaces s (cur s)) path 1" using assms by (auto simp: do_exec_def Let_def split: if_splits)
  obtain p where p: "exec_string ?u path 255 = Some (Some p)" using assms v by (auto simp: do_exec_def Let_def split: option.splits)
  obtain av where a: "copy_exec_strings ?u argv = Some (Some av)" using assms v p by (auto simp: do_exec_def Let_def split: option.splits)
  obtain ev where e: "copy_exec_strings ?u envp = Some (Some ev)" using assms v p a by (auto simp: do_exec_def Let_def split: option.splits)
  have "\<not> (ptrs av = [] \<and> length p + 1 > EXEC_MAX_DATA)" using assms v p a e by (auto simp: do_exec_def Let_def)
  then show ?thesis using assms v p a e by (intro that [OF p a e]) (auto simp: do_exec_def Let_def)
qed

text \<open>The arguments the caller passed: the path alone stands for an empty vector.\<close>

definition vector_at :: "user_mem \<Rightarrow> nat \<Rightarrow> u8 list list \<Rightarrow> bool" where
  "vector_at u a vs \<longleftrightarrow> (if a = 0 then vs = [] else user_strings u a vs)"

definition passed_args :: "user_mem \<Rightarrow> nat \<Rightarrow> nat \<Rightarrow> u8 list list \<Rightarrow> bool" where
  "passed_args u path argv as \<longleftrightarrow> (\<exists>p vs. exec_string u path 255 = Some (Some p) \<and> vector_at u argv vs \<and> as = (if vs = [] then [p] else vs))"

text \<open>The block that the new program finds on its stack, whose first byte is at \<open>0xBFFFE000\<close>.\<close>

definition args_at :: "(nat \<Rightarrow> u8) \<Rightarrow> nat \<Rightarrow> u8 list list \<Rightarrow> u8 list list \<Rightarrow> bool" where
  "args_at m esp as es \<longleftrightarrow> 0xBFFFE000 \<le> esp \<and> esp mod 16 = 0 \<and>
    (let w = \<lambda>n. stack_word m (esp - 0xBFFFE000 + 4 * n) in
      w 0 = word_of_nat (length as) \<and>
      (\<forall>i < length as. string_at m (unat (w (1 + i)) - 0xBFFFE000) (as ! i)) \<and> w (1 + length as) = 0 \<and>
      (\<forall>i < length es. string_at m (unat (w (2 + length as + i)) - 0xBFFFE000) (es ! i)) \<and> w (2 + length as + length es) = 0)"

lemma copied_vector:
  assumes "copy_exec_strings u a = Some (Some es)" "a < 4294967296"
  obtains vs where "packed vs es" "vector_at u a vs" "length (ptrs es) < EXEC_MAX_ARGS" "length (data es) \<le> EXEC_MAX_DATA"
proof -
  obtain vs where vs: "packed vs es" "length vs < EXEC_MAX_ARGS" "length (data es) \<le> EXEC_MAX_DATA" "a \<noteq> 0 \<Longrightarrow> user_strings u a vs"
    by (rule copy_exec_strings_packed [OF assms]) (rule that)
  have "a = 0 \<Longrightarrow> vs = []" using assms(1) packed_count [OF vs(1)] by (auto simp: copy_exec_strings_def no_strings_def)
  then show ?thesis using vs packed_count [OF vs(1)] by (intro that [of vs]) (auto simp: vector_at_def)
qed

lemma packed_default:
  assumes "packed vs av" "exec_string u path 255 = Some (Some p)"
  shows "packed (if vs = [] then [p] else vs) (default_argv p av)"
  using assms(1) packed_count [OF assms(1)] by (auto simp: default_argv_def packed_def)

lemma stack_built:
  assumes "build_stack stk argv envp m0 = Some (esp, m)" "packed as argv" "packed es envp" "block_fits argv envp"
  shows "args_at (\<lambda>i. m (unat (virt_to_phys stk) + i)) esp as es"
    "a < unat (virt_to_phys stk) \<or> unat (virt_to_phys stk) + 8192 \<le> a \<Longrightarrow> m a = m0 a"
proof -
  let ?pa = "unat (virt_to_phys stk)"
  obtain e2 m' where b: "setup_initial_stack 0xBFFFE000 argv envp (\<lambda>i. m0 (?pa + i)) = Some (e2, m')" and
      b2: "e2 mod 16 = 0" "0xBFFFE000 \<le> e2" "\<forall>x. 8192 \<le> x \<longrightarrow> m' x = m0 (?pa + x)" and
      "let w = \<lambda>n. stack_word m' (e2 - 0xBFFFE000 + 4 * n) in
      w 0 = word_of_nat (length as) \<and>
      (\<forall>i < length as. string_at m' (unat (w (1 + i)) - 0xBFFFE000) (as ! i)) \<and> w (1 + length as) = 0 \<and>
      (\<forall>i < length es. string_at m' (unat (w (2 + length as + i)) - 0xBFFFE000) (es ! i)) \<and> w (2 + length as + length es) = 0"
    using block_layout [OF assms(2-4), of "\<lambda>i. m0 (?pa + i)"] by (elim exE conjE) (rule that)
  then have args: "args_at m' e2 as es" unfolding args_at_def by blast
  have sv: "stack_vaddr = 0xBFFFE000" by (simp add: stack_vaddr_def USER_STACK_TOP_def PAGE_SIZE_def)
  have m: "e2 = esp" "m = (\<lambda>a. if ?pa \<le> a \<and> a < ?pa + 2 * PAGE_SIZE then m' (a - ?pa) else m0 a)"
    using assms(1) b by (simp_all add: build_stack_def sv Let_def)
  have "(\<lambda>i. m (?pa + i)) = m'" using b2(3) by (auto simp: m(2) PAGE_SIZE_def fun_eq_iff)
  then show "args_at (\<lambda>i. m (?pa + i)) esp as es" using args m(1) by simp
  show "a < ?pa \<or> ?pa + 8192 \<le> a \<Longrightarrow> m a = m0 a" by (auto simp: m(2) PAGE_SIZE_def)
qed

text \<open>What a loaded program and a stack give together: the memory of the new program.\<close>

lemma exec_memory:
  assumes "exec_stack e argv envp st s = Exec_enters ent esp s'"
    "loaded f segs c0 (\<Union> (seg_pages ` set segs)) (lmem st)" "\<forall>g \<in> set segs. seg_ok n g"
    "packed as argv" "packed es envp" "block_fits argv envp"
    "unat (virt_to_phys (x_stack e)) mod 4096 = 0" "unat (virt_to_phys (x_stack e)) + 8192 \<le> 4294967296"
    "\<forall>a \<in> set (fresh_frames c0). a + 4096 \<le> unat (virt_to_phys (x_stack e)) \<or> unat (virt_to_phys (x_stack e)) + 8192 \<le> a"
  shows "va < 0xBFFFE000 \<Longrightarrow> has_image f segs (spaces s' (cur s)) (ram s') va"
    "i < 8192 \<Longrightarrow> translate (spaces s' (cur s)) (0xBFFFE000 + i) \<in> {None, Some (unat (virt_to_phys (x_stack e)) + i)}"
    "args_at (\<lambda>i. ram s' (unat (virt_to_phys (x_stack e)) + i)) esp as es"
    "ent = entry (limage st)" "pfs s' = fs_close_on_exec (pfs s)"
proof -
  let ?pa = "unat (virt_to_phys (x_stack e))"
  obtain c1 c2 m where c: "c1 = snd (map_fresh stack_vaddr (virt_to_phys (x_stack e)) 7 (lmem st))"
    "c2 = snd (map_fresh (stack_vaddr + PAGE_SIZE) (virt_to_phys (x_stack e) + of_nat PAGE_SIZE) 7 c1)"
    and b: "build_stack (x_stack e) argv envp (phys c2) = Some (esp, m)" and "ent = entry (limage st)"
    and s': "ram s' = m" "spaces s' (cur s) = child c2" and "pfs s' = fs_close_on_exec (pfs s)"
    by (rule exec_stack_enters [OF assms(1)]) (rule that)
  then show "ent = entry (limage st)" "pfs s' = fs_close_on_exec (pfs s)" by simp_all
  have none: "\<forall>va \<ge> 0xBFFFE000. mapped_pte (child (lmem st)) va = None"
  proof (intro allI impI)
    fix va :: nat assume "0xBFFFE000 \<le> va"
    then have "va div 4096 \<notin> \<Union> (seg_pages ` set segs)" using assms(3) seg_page_top [of n _ va] by fastforce
    then have "mapped_pte (child (lmem st)) (4096 * (va div 4096)) = None" using assms(2) unfolding loaded_def by blast
    then show "mapped_pte (child (lmem st)) va = None" by (subst mapped_pte_page [of _ "4096 * (va div 4096)"]) simp_all
  qed
  note ms = map_stack [OF assms(7,8) c none]
  note sb = stack_built [OF b assms(4-6)]
  show "args_at (\<lambda>i. ram s' (?pa + i)) esp as es" unfolding s'(1) by (rule sb(1))
  show "i < 8192 \<Longrightarrow> translate (spaces s' (cur s)) (0xBFFFE000 + i) \<in> {None, Some (?pa + i)}" unfolding s'(2) by (rule ms(3))
  show "has_image f segs (spaces s' (cur s)) (ram s') va" if va: "va < 0xBFFFE000"
    unfolding s'
  proof (rule image_kept [OF assms(2) ms(2) [OF va]])
    fix a x :: nat assume "a \<in> set (fresh_frames c0)" "x < 4096"
    then have "a + x < ?pa \<or> ?pa + 8192 \<le> a + x" using assms(9) by fastforce
    then show "m (a + x) = phys (lmem st) (a + x)" using sb(2) ms(1) by simp
  qed
qed

text \<open>
  C24: exec replaces the program, the memory and nothing but it. When exec enters the new program, of either format, on a
  readable file and with new pages that are aligned, different and apart from the two pages of the stack: the program
  starts at the entry point of its file; below the stack the user memory is the image of the file and nothing else is
  mapped there; the two stack pages, where the mapping has succeeded, are the pages that hold, in the layout of the
  System V start block, the strings the caller passed, read from its old memory; the descriptors are those of the caller
  without the ones marked close-on-exec, in the same order, and the reference counts of the open files are right (the
  descriptor numbers too, unless the next one was the greatest \<^verbatim>\<open>int\<close>); and the task is the caller with another name and image, its signal state reset, and the next descriptor number used up.
\<close>

theorem exec_runs_program:
  assumes "do_exec tabs e path argv envp s = Exec_enters ent esp s'" "file_inv (pfs s)" "\<not> live (pfs s) (x_file_struct e)"
    "x_seek e = Some sk" "\<forall>p. sk p 0 2 = Some (length (fbytes (x_file e)))" "length (fbytes (x_file e)) < 2 ^ 31" "pread_ok (x_file e)"
    "distinct (map (\<lambda>p. unat (virt_to_phys p)) (x_pages e))" "\<forall>p \<in> set (x_pages e). unat (virt_to_phys p) mod 4096 = 0"
    "pa = unat (virt_to_phys (x_stack e))" "pa mod 4096 = 0" "pa + 8192 \<le> 4294967296"
    "\<forall>p \<in> set (x_pages e). unat (virt_to_phys p) + 4096 \<le> pa \<or> pa + 8192 \<le> unat (virt_to_phys p)"
    "\<forall>i \<ge> 768. page_tables (spaces s (cur s)) i = None" "argv < 4294967296" "envp < 4294967296"
  shows "ent = program_entry (x_file e) \<and>
    (\<forall>va < 0xBFFFE000. has_image (x_file e) (program_segs (x_file e)) (spaces s' (cur s)) (ram s') va) \<and>
    (\<forall>i < 8192. translate (spaces s' (cur s)) (0xBFFFE000 + i) \<in> {None, Some (pa + i)}) \<and>
    (\<exists>as es. args_at (\<lambda>i. ram s' (pa + i)) esp as es \<and> passed_args (spaces s (cur s), ram s) path argv as \<and>
      vector_at (spaces s (cur s), ram s) envp es) \<and>
    cur_files (pfs s') = filter (\<lambda>d. \<not> cloexec d) (cur_files (pfs s)) \<and>
    count_inv (pfs s') \<and> (cur_next_fd (pfs s) < 2147483647 \<longrightarrow> file_inv (pfs s')) \<and>
    (\<exists>nm n img. same_task (set_image img (reset_signals ((ptask s (cur s))\<lparr>tname := nm, next_fd := n\<rparr>))) (ptask s' (cur s)))"
proof -
  let ?u = "(spaces s (cur s), ram s)" and ?f = "x_file e"
  obtain p av ev where str: "exec_string ?u path 255 = Some (Some p)" "copy_exec_strings ?u argv = Some (Some av)"
      "copy_exec_strings ?u envp = Some (Some ev)" "ptrs av = [] \<longrightarrow> length p + 1 \<le> EXEC_MAX_DATA"
    and o: "exec_file_open tabs e (default_argv p av) ev (upd_ptask (cur s) (\<lambda>t. t\<lparr>tname := name_of (path_base p)\<rparr>) s) = Exec_enters ent esp s'"
    by (rule do_exec_enters [OF assms(1)]) (rule that)
  define s1 where "s1 = upd_ptask (cur s) (\<lambda>t. t\<lparr>tname := name_of (path_base p)\<rparr>) s"
  have s1: "spaces s1 = spaces s" "ram s1 = ram s" "cur s1 = cur s" "live (pfs s1) = live (pfs s)" "cur_files (pfs s1) = cur_files (pfs s)"
      "cur_next_fd (pfs s1) = cur_next_fd (pfs s)"
      "ptask s1 (cur s) = (ptask s (cur s))\<lparr>tname := name_of (path_base p)\<rparr>"
    by (simp_all add: s1_def upd_ptask_def upd_kern_def upd_task_def cur_files_def)
  have inv1: "file_inv (pfs s1)" unfolding s1_def by (rule inv_rename [OF assms(2)])
  obtain fd st0 where op: "opened fd (x_file_struct e) (x_fs e) (pfs s1) st0"
        "count_inv st0 \<and> (cur_next_fd (pfs s1) < 2147483647 \<longrightarrow> file_inv st0)" "0 < length (fbytes ?f)"
      and rp: "exec_replace tabs e (default_argv p av) ev fd (length (fbytes ?f)) (s1\<lparr>pfs := st0\<rparr>) = Exec_enters ent esp s'"
    by (rule exec_file_open_enters [OF o [folded s1_def] inv1 _ assms(4-6)]) (use assms(3) s1(4) in simp, rule that)
  have cur0: "current (kern st0) = cur s" using op(1) s1(3) by (simp add: opened_def with_fd_def upd_task_def)
  obtain sp r st s3 where sp: "sp = spaces (free_user_memory tabs (cur s) (s1\<lparr>pfs := st0\<rparr>)) (cur s)"
      and lb: "load_binary ?f (length (fbytes ?f)) (x_segs_ok e) (x_regions_ok e) (start_load e sp (ram s) []) = (r, st)" "0 \<le> r"
      and es: "exec_stack e (default_argv p av) ev st s3 = Exec_enters ent esp s'"
      and p3: "pfs s3 = (let st1 = st0\<lparr>kern := upd_task (cur s) reset_signals (kern st0)\<rparr>; st2 = snd (fs_close fd st1)
       in st2\<lparr>kern := upd_task (cur s) (set_image (limage st)) (kern st2)\<rparr>)"
    by (rule exec_replace_enters [OF rp]) (rule that, simp_all add: cur0 s1(2))
  have n0: "inv_num False (\<lambda>_. 0) st0" using op(2) by (simp add: count_inv_def)
  note fl = exec_files [OF op(1) inv1 n0 s1(3) [symmetric] refl refl p3 [unfolded Let_def]]
  have cur3: "cur s3 = cur s" unfolding fl(2) by (simp add: upd_task_def s1(3))
  have nu: "no_user_pages sp" unfolding sp using assms(14) s1(1) by (intro free_memory_empty(2)) simp
  let ?l0 = "lmem (start_load e sp (ram s) [])"
  have fr: "fresh_frames ?l0 = map (\<lambda>p. unat (virt_to_phys p)) (x_pages e)" by (simp add: start_load_def fresh_frames_def)
  have L: "loaded ?f (program_segs ?f) ?l0 (\<Union> (seg_pages ` set (program_segs ?f))) (lmem st)"
    "\<forall>g \<in> set (program_segs ?f). seg_ok (length (fbytes ?f)) g" "entry (limage st) = program_entry ?f"
    using load_binary_loaded [OF lb assms(7) op(3) assms(6)] nu assms(8,9) unfolding fr by (simp_all add: start_load_def)
  obtain vs where vs: "packed vs av" "vector_at ?u argv vs" "length (ptrs av) < EXEC_MAX_ARGS" "length (data av) \<le> EXEC_MAX_DATA"
    by (rule copied_vector [OF str(2) assms(15)]) (rule that)
  obtain ws where ws: "packed ws ev" "vector_at ?u envp ws" "length (ptrs ev) < EXEC_MAX_ARGS" "length (data ev) \<le> EXEC_MAX_DATA"
    by (rule copied_vector [OF str(3) assms(16)]) (rule that)
  have bf: "block_fits (default_argv p av) ev"
    by (rule tables_fit) (use vs ws str(4) in \<open>auto simp: default_argv_def EXEC_MAX_ARGS_def\<close>)
  note M = exec_memory [OF es L(1,2) packed_default [OF vs(1) str(1)] ws(1) bf assms(11,12) [unfolded assms(10)],
      unfolded cur3 fr assms(10) [symmetric]]
  have ap: "\<forall>a \<in> set (map (\<lambda>p. unat (virt_to_phys p)) (x_pages e)). a + 4096 \<le> pa \<or> pa + 8192 \<le> a" using assms(13) by simp
  have cf: "cur_files (pfs s3) = cur_files (pfs s)"
    using s1(3,5) by (simp add: cur_files_def fl(2) upd_task_def set_image_def reset_signals_def)
  have "distinct (map fd_num (cur_files (pfs s3)))" unfolding cf using inv_cur [OF assms(2) [unfolded file_inv_def]] by blast
  note ce = close_on_exec [OF fl(1) this]
  have t3: "ptask s3 (cur s) = set_image (limage st) (reset_signals ((ptask s (cur s))\<lparr>tname := name_of (path_base p), next_fd := succ_fd fd\<rparr>))"
    using s1(7) by (simp add: fl(2) upd_task_def)
  have ft: "cur_files (pfs s') = filter (\<lambda>d. \<not> cloexec d) (cur_files (pfs s))" "same_task (ptask s3 (cur s)) (ptask s' (cur s))"
    unfolding M(5) [OF ap] using ce cf by simp_all
  have iv: "count_inv (pfs s') \<and> (cur_next_fd (pfs s) < 2147483647 \<longrightarrow> file_inv (pfs s'))"
  proof (rule inv_numI)
    fix N assume "N \<Longrightarrow> cur_next_fd (pfs s) < 2147483647"
    then have "inv_num N (\<lambda>_. 0) st0" using inv_numD [OF op(2), of N] s1(6) by simp
    from exec_files(1) [OF op(1) inv1 this s1(3) [symmetric] refl refl p3 [unfolded Let_def]]
    show "inv_num N (\<lambda>_. 0) (pfs s')" unfolding M(5) [OF ap] fs_close_on_exec_def by (rule inv_fold_close)
  qed
  have args: "passed_args ?u path argv (if vs = [] then [p] else vs)" unfolding passed_args_def using str(1) vs(2) by blast
  show ?thesis
    using M(1-3) [OF ap] M(4) [OF ap] L(3) args ws(2) ft iv unfolding t3 by metis
qed

section \<open>Witnesses\<close>

lemma exec_stack_runs:
  assumes "x_stack e \<noteq> 0" "packed as argv" "packed es envp" "block_fits argv envp"
  shows "\<exists>ent esp s'. exec_stack e argv envp st s = Exec_enters ent esp s'"
proof -
  have sv: "stack_vaddr = 0xBFFFE000" by (simp add: stack_vaddr_def USER_STACK_TOP_def PAGE_SIZE_def)
  have b: "\<exists>esp m'. build_stack (x_stack e) argv envp m = Some (esp, m')" for m
    using block_layout [OF assms(2-4), of "\<lambda>i. m (unat (virt_to_phys (x_stack e)) + i)"] by (auto simp: build_stack_def Let_def sv)
  define c1 where "c1 = snd (map_fresh stack_vaddr (virt_to_phys (x_stack e)) 7 (lmem st))"
  define c2 where "c2 = snd (map_fresh (stack_vaddr + PAGE_SIZE) (virt_to_phys (x_stack e) + of_nat PAGE_SIZE) 7 c1)"
  obtain ok st1 where 1: "take_ok (st\<lparr>lmem := c2\<rparr>) = (ok, st1)" by fastforce
  define st2 where "st2 = (case stack_area ok (ptask s (cur s)) of None \<Rightarrow> st1 | Some v \<Rightarrow> st1\<lparr>lvmas := insert_vma v (lvmas st1)\<rparr>)"
  obtain esp m where m: "build_stack (x_stack e) argv envp (phys (lmem st2)) = Some (esp, m)" using b by blast
  show ?thesis
    unfolding exec_stack_def Let_def c1_def [symmetric] c2_def [symmetric] 1 prod.case st2_def [symmetric] m option.case
    using assms(1) by simp
qed

text \<open>The task 1 with two descriptors, the second one marked; its page holds the path \<^verbatim>\<open>AB\<close>.\<close>

definition demo_caller :: proc where
  "demo_caller = \<lparr>pfs = demo_fstate\<lparr>kern := upd_task 1 (\<lambda>t. t\<lparr>rlimit_cur := (\<lambda>_. RLIM_INFINITY)\<rparr>) (kern demo_fstate)\<rparr>,
     pvmas = (\<lambda>_. []), spaces = (\<lambda>_. one_page 0), ram = snd demo_exec, freed_frames = [], pwrites = []\<rparr>"

definition demo_env :: "int \<Rightarrow> exec_env" where
  "demo_env r = \<lparr>x_fs = 3, x_priv = 0, x_open = (r, 7), x_fifo = None, x_file_struct = 11, x_fd_ok = True,
     x_seek = Some (\<lambda>_ _ wh. Some (if wh = 2 then 3 else 0)), x_file = demo_flat, x_segs_ok = True, x_regions_ok = True,
     x_vma_oks = [True, True], x_pages = [0xC0100000, 0xC0101000], x_stack = 0xC0200000\<rparr>"

lemma demo_caller_facts: "cur demo_caller = 1" "spaces demo_caller = (\<lambda>_. one_page 0)" "ram demo_caller = snd demo_exec"
    "cur_files (pfs demo_caller) = [\<lparr>fd_num = 0, fd_file = 10, cloexec = False\<rparr>, \<lparr>fd_num = 1, fd_file = 10, cloexec = True\<rparr>]"
    "live (pfs demo_caller) = (\<lambda>a. a = 10)" "next_fd (ptask demo_caller 1) = 2"
  by (simp_all add: demo_caller_def demo_fstate_def demo_kernel_def upd_task_def cur_files_def)

lemma demo_caller_files: "file_inv (pfs demo_caller)"
proof -
  have "refs (kern (pfs demo_caller)) a = (if a = 10 then 3 else 0)" for a
    by (simp add: refs_def demo_caller_def demo_fstate_def demo_kernel_def zero_task_def)
  then show ?thesis
    by (auto simp: file_inv_def inv_ext_iff fds_ok_def demo_caller_def demo_fstate_def demo_kernel_def demo_ofile_def zero_task_def)
qed

lemma demo_path: "valid_user_pointer (one_page 0) 512 1" "exec_string (one_page 0, snd demo_exec) 512 255 = Some (Some [65, 66])"
proof -
  have "check_pages (one_page 0) 512 513 False"
  proof (rule check_pages_intro)
    fix k :: nat assume "512 + 4096 * k < 513"
    then show "\<exists>pte. lookup_pte (one_page 0) (512 + 4096 * k) = Some pte \<and> pte_present pte \<and> (False \<longrightarrow> pte_writable pte)"
      by (simp add: one_page_lookup pte_present_def)
  qed simp_all
  then show "valid_user_pointer (one_page 0) 512 1" by (simp add: valid_user_pointer_def check_user_range_def Let_def)
  have g1: "get_user (one_page 0, snd demo_exec) a 1 = Some (Some [snd demo_exec (0x5000 + a)])" if "a + 1 \<le> 4096" for a
    using one_page_get [of 1 a "snd demo_exec"] that by simp
  have b: "snd demo_exec (0x5000 + 512) = 65" "snd demo_exec (0x5000 + 513) = 66" "snd demo_exec (0x5000 + 514) = 0" by (simp_all add: demo_exec_def)
  have "exec_string (one_page 0, snd demo_exec) 514 253 = Some (Some [])"
    by (subst exec_string_pos) (simp_all only: g1 b option.case list.sel, simp_all)
  then have "exec_string (one_page 0, snd demo_exec) 513 254 = Some (Some [66])"
    by (subst exec_string_pos) (simp_all only: g1 b option.case list.sel, simp_all)
  then show "exec_string (one_page 0, snd demo_exec) 512 255 = Some (Some [65, 66])"
    by (subst exec_string_pos) (simp_all only: g1 b option.case list.sel, simp_all)
qed

lemma demo_do_exec: "do_exec tabs (demo_env r) 512 0 0 demo_caller =
    exec_file_open tabs (demo_env r) \<lparr>ptrs = [0], data = [65, 66, 0]\<rparr> no_strings
      (upd_ptask 1 (\<lambda>t. t\<lparr>tname := name_of (path_base [65, 66])\<rparr>) demo_caller)"
  by (simp add: do_exec_def demo_caller_facts demo_path copy_exec_strings_def EXEC_MAX_DATA_def default_argv_def no_strings_def Let_def
    del: One_nat_def)


lemma demo_load_flat:
  assumes "no_tables sp"
  shows "\<exists>st. load_binary demo_flat 3 True True (start_load (demo_env 0) sp m []) = (0, st)"
proof -
  have "fill demo_flat dst 0 3 3 m = (True, m)" for dst m by (subst fill.simps) simp
  then have "fill demo_flat dst 0 3 0 m = (True, put_bytes dst [0x90, 0xEB, 0xFD] m)" for dst m
    by (subst fill.simps) (simp add: pread_def demo_flat_def)
  moreover have "[0..<w32 (3 + 4095) div PAGE_SIZE] = [0]" by (simp add: PAGE_SIZE_def)
  ultimately have "\<exists>st. load_flat demo_flat 3 (start_load (demo_env 0) sp m []) = (0, st)"
    using assms by (simp add: load_flat_def start_load_def demo_env_def take_page_def Let_def PAGE_SIZE_def map_fresh_def arch_mm_map_user_def
        USER_TEXT_START_def take_ok_def vma_create_def no_tables_def)
  moreover have "load_binary demo_flat 3 True True st = load_flat demo_flat 3 st" for st
    by (simp add: load_binary_def pread_def) (simp add: demo_flat_def)
  ultimately show ?thesis by simp
qed

lemma demo_replace_runs:
  assumes "cur s = 1" "spaces s = (\<lambda>_. one_page 0)"
  shows "\<exists>ent esp s'. exec_replace tabs (demo_env 0) \<lparr>ptrs = [0], data = [65, 66, 0]\<rparr> no_strings fd 3 s = Exec_enters ent esp s'"
proof -
  let ?s = "upd_ptask 1 reset_signals (free_user_memory tabs 1 s)"
  have "\<forall>i \<ge> 768. page_tables (spaces s 1) i = None" by (simp add: assms(2) one_page_def)
  note em = free_memory_empty [OF this, of tabs]
  have same: "spaces ?s = spaces (free_user_memory tabs 1 s)" "pvmas ?s 1 = []"
    using em(3) by (simp_all add: upd_ptask_def upd_kern_def)
  obtain st where st: "load_binary demo_flat 3 True True (start_load (demo_env 0) (spaces ?s 1) (ram ?s) []) = (0, st)"
    using demo_load_flat em(1) unfolding same(1) by blast
  have e: "x_file (demo_env 0) = demo_flat" "x_segs_ok (demo_env 0)" "x_regions_ok (demo_env 0)" "x_stack (demo_env 0) \<noteq> 0"
    by (simp_all add: demo_env_def)
  have p: "packed [[65, 66]] \<lparr>ptrs = [0], data = [65, 66, 0]\<rparr>" "block_fits \<lparr>ptrs = [0], data = [65, 66, 0]\<rparr> no_strings"
    by (simp_all add: packed_def block_fits_def no_strings_def)
  obtain ent esp s' where "exec_stack (demo_env 0) \<lparr>ptrs = [0], data = [65, 66, 0]\<rparr> no_strings st
      (upd_ptask 1 (set_image (limage st)) (?s\<lparr>pfs := snd (fs_close fd (pfs ?s))\<rparr>)) = Exec_enters ent esp s'"
    using exec_stack_runs [OF e(4) p(1) packed_Nil p(2)] by blast
  then show ?thesis
    unfolding exec_replace_def Let_def assms(1) same(2) e(1) using e(2,3) st by simp
qed

lemma demo_runs_exec: "\<exists>ent esp s'. do_exec (\<lambda>_. 0) (demo_env 0) 512 0 0 demo_caller = Exec_enters ent esp s'"
proof -
  let ?s = "upd_ptask 1 (\<lambda>t. t\<lparr>tname := name_of (path_base [65, 66])\<rparr>) demo_caller"
  have s: "cur ?s = 1" "spaces ?s = (\<lambda>_. one_page 0)" "file_inv (pfs ?s)"
    using inv_rename [OF demo_caller_files] demo_caller_facts by (simp_all add: upd_ptask_def upd_kern_def upd_task_def)
  have "fst (fs_open 3 0 O_RDONLY (0, 7) None 11 True (pfs ?s)) = 2"
    by (simp add: fs_open_def alloc_open_file_def upd_file_def alloc_fd_entry_def fd_limit_hit_def)
      (simp add: demo_caller_def upd_ptask_def upd_kern_def upd_task_def demo_fstate_def demo_kernel_def Let_def)
  then obtain st where o: "fs_open 3 0 O_RDONLY (0, 7) None 11 True (pfs ?s) = (2, st)" by (metis prod.collapse)
  then have o1: "opened 2 11 3 (pfs ?s) st" using open_readonly [OF o s(3)] by simp
  have sk: "\<exists>st2. fs_seek (Some (\<lambda>_ _ wh. Some (if wh = 2 then 3 else 0))) 2 0 wh st1 = Some (if wh = 2 then 3 else 0, st2)"
    if "opened 2 11 3 (pfs ?s) st1" for st1 wh
    using opened_find [OF that s(3)] that by (simp add: fs_seek_def opened_def Let_def)
  obtain st2 where 2: "fs_seek (Some (\<lambda>_ _ wh. Some (if wh = 2 then 3 else 0))) 2 0 2 st = Some (3, st2)" using sk [OF o1, of 2] by auto
  note o2 = seek_opened [OF 2 o1 s(3), THEN conjunct1]
  obtain st3 where 3: "fs_seek (Some (\<lambda>_ _ wh. Some (if wh = 2 then 3 else 0))) 2 0 0 st2 = Some (0, st3)" using sk [OF o2, of 0] by auto
  note o3 = seek_opened [OF 3 o2 s(3), THEN conjunct1]
  have "exec_format_check demo_flat 3 = 0" by (simp add: exec_format_check_def pread_def) (simp add: demo_flat_def)
  then have run: "exec_file_open (\<lambda>_. 0) (demo_env 0) argv envp ?s = exec_replace (\<lambda>_. 0) (demo_env 0) argv envp 2 3 (?s\<lparr>pfs := st3\<rparr>)" for argv envp
    using o 2 3 by (simp add: exec_file_open_def demo_env_def)
  have "cur (?s\<lparr>pfs := st3\<rparr>) = 1" using o3 s(1) by (simp add: opened_def with_fd_def upd_task_def)
  then show ?thesis unfolding demo_do_exec run by (rule demo_replace_runs) (use s(2) in simp)
qed

theorem exec_runs_program_witness:
  "\<exists>ent esp s'. do_exec (\<lambda>_. 0) (demo_env 0) 512 0 0 demo_caller = Exec_enters ent esp s' \<and> ent = 0x8000000 \<and>
    map fd_num (cur_files (pfs s')) = [0] \<and> (\<exists>as es. args_at (\<lambda>i. ram s' (0x200000 + i)) esp as es \<and> as = [[65, 66]])"
proof -
  obtain ent esp s' where run: "do_exec (\<lambda>_. 0) (demo_env 0) 512 0 0 demo_caller = Exec_enters ent esp s'" using demo_runs_exec by blast
  have e: "x_file (demo_env 0) = demo_flat" "x_file_struct (demo_env 0) = 11" "x_pages (demo_env 0) = [0xC0100000, 0xC0101000]"
    "x_seek (demo_env 0) = Some (\<lambda>_ _ wh. Some (if wh = 2 then 3 else 0))" "0x200000 = unat (virt_to_phys (x_stack (demo_env 0)))"
    by (simp_all add: demo_env_def virt_to_phys_def KERNEL_VMA_def)
  have f: "pread_ok demo_flat" "length (fbytes demo_flat) = 3" "program_entry demo_flat = 0x8000000"
    by (auto simp: demo_flat_def pread_ok_def program_entry_def is_elf_def elf_magic_def)
  have sk: "\<forall>p. (\<lambda>_ _ wh. Some (if wh = 2 then 3 else 0)) p 0 2 = Some (length (fbytes (x_file (demo_env 0))))" using e(1) f(2) by simp
  have pt: "\<forall>i \<ge> 768. page_tables (spaces demo_caller (cur demo_caller)) i = None" by (simp add: demo_caller_facts one_page_def)
  note T = exec_runs_program [OF run demo_caller_files _ e(4) sk _ _ _ _ e(5) _ _ _ pt]
  have x: "\<not> live (pfs demo_caller) (x_file_struct (demo_env 0))" "length (fbytes (x_file (demo_env 0))) < 2 ^ 31" "pread_ok (x_file (demo_env 0))"
    "distinct (map (\<lambda>p. unat (virt_to_phys p)) (x_pages (demo_env 0)))" "\<forall>p \<in> set (x_pages (demo_env 0)). unat (virt_to_phys p) mod 4096 = 0"
    "\<forall>p \<in> set (x_pages (demo_env 0)). unat (virt_to_phys p) + 4096 \<le> 0x200000 \<or> 0x200000 + 8192 \<le> unat (virt_to_phys p)"
    unfolding e(1-3) using f demo_caller_facts by (simp_all add: virt_to_phys_def KERNEL_VMA_def)
  note T = exec_runs_program [OF run demo_caller_files x(1) e(4) sk x(2-5) e(5) _ _ x(6) pt]
  obtain as es where as: "args_at (\<lambda>i. ram s' (0x200000 + i)) esp as es" "passed_args (spaces demo_caller (cur demo_caller), ram demo_caller) 512 0 as"
    using T by auto
  have "as = [[65, 66]]" using as(2) by (auto simp: passed_args_def vector_at_def demo_caller_facts(2,3) demo_path)
  moreover have "ent = 0x8000000" "cur_files (pfs s') = filter (\<lambda>d. \<not> cloexec d) (cur_files (pfs demo_caller))" using T e(1) f(3) by auto
  ultimately show ?thesis using run as(1) by (auto simp: demo_caller_facts(4))
qed

end
