(* ===== verification/Tmpfs.thy ===== *)
theory Tmpfs
  imports Vfs_Path
begin

text \<open>
  The in-memory file system, \<^verbatim>\<open>fs/tmpfs.c\<close>. Nodes and open handles are structures at addresses; a
  freed one is not live. The contents of a file are the bytes of its buffer, the empty list standing
  for the null pointer; what a new buffer contains is a parameter. The siblings of a directory are a list of
  addresses, and a node is taken off the list of the directory that its parent pointer names.
\<close>

abbreviation (input) "DT_REG \<equiv> (1::nat)"

record tnode =
  n_name :: string
  n_type :: nat
  n_ino :: nat
  n_size :: nat
  n_mtime :: nat
  n_data :: "u8 list"
  n_cap :: nat
  n_refs :: int
  n_parent :: "nat option"
  n_kids :: "nat list"

record tfile =
  f_node :: nat
  f_off :: nat

record tmpfs =
  nodes :: "nat \<Rightarrow> tnode"
  node_live :: "nat \<Rightarrow> bool"
  next_inode :: nat
  handles :: "nat \<Rightarrow> tfile"
  handle_live :: "nat \<Rightarrow> bool"

definition upd_node :: "nat \<Rightarrow> (tnode \<Rightarrow> tnode) \<Rightarrow> tmpfs \<Rightarrow> tmpfs" where
  "upd_node a g fs = fs\<lparr>nodes := (nodes fs)(a := g (nodes fs a))\<rparr>"

definition upd_handle :: "nat \<Rightarrow> (tfile \<Rightarrow> tfile) \<Rightarrow> tmpfs \<Rightarrow> tmpfs" where
  "upd_handle h g fs = fs\<lparr>handles := (handles fs)(h := g (handles fs h))\<rparr>"

section \<open>Nodes\<close>

text \<open>\<open>a\<close> is what \<^verbatim>\<open>kalloc\<close> returns; a null result is \<open>None\<close>.\<close>

definition node_alloc :: "string \<Rightarrow> nat \<Rightarrow> nat \<Rightarrow> tmpfs \<Rightarrow> nat option \<times> tmpfs" where
  "node_alloc name ty a fs =
     (if length name \<ge> 64 \<or> a = 0 then (None, fs)
      else (Some a, fs\<lparr>nodes := (nodes fs)(a := \<lparr>n_name = name, n_type = ty, n_ino = next_inode fs, n_size = 0, n_mtime = 0,
               n_data = [], n_cap = 0, n_refs = 1, n_parent = None, n_kids = []\<rparr>),
             node_live := (node_live fs)(a := True), next_inode := w32 (next_inode fs + 1)\<rparr>))"

definition node_free :: "nat \<Rightarrow> tmpfs \<Rightarrow> tmpfs" where
  "node_free a fs = fs\<lparr>node_live := (node_live fs)(a := False)\<rparr>"

definition node_put :: "nat \<Rightarrow> tmpfs \<Rightarrow> tmpfs" where
  "node_put a fs =
     (if a = 0 then fs
      else let fs = upd_node a (\<lambda>n. n\<lparr>n_refs := n_refs n - 1\<rparr>) fs
           in if n_refs (nodes fs a) > 0 then fs else node_free a fs)"

text \<open>Siblings; \<^verbatim>\<open>list_del\<close> on a node without parent changes nothing.\<close>

definition list_del :: "nat \<Rightarrow> tmpfs \<Rightarrow> tmpfs" where
  "list_del a fs =
     (case n_parent (nodes fs a) of None \<Rightarrow> fs | Some p \<Rightarrow> upd_node p (\<lambda>n. n\<lparr>n_kids := remove1 a (n_kids n)\<rparr>) fs)"

definition list_add_tail :: "nat \<Rightarrow> nat \<Rightarrow> tmpfs \<Rightarrow> tmpfs" where
  "list_add_tail a p fs = upd_node p (\<lambda>n. n\<lparr>n_kids := n_kids n @ [a]\<rparr>) fs"

text \<open>The recursion over the tree on unmounting, over a list of trees; it ends on trees only.\<close>

partial_function (option) tree_free_list :: "nat list \<Rightarrow> tmpfs \<Rightarrow> tmpfs option" where
  "tree_free_list as fs =
     (case as of
        [] \<Rightarrow> Some fs
      | a # as \<Rightarrow>
          let kids = (if n_type (nodes fs a) = DT_DIR then n_kids (nodes fs a) else [])
          in Option.bind (tree_free_list kids (upd_node a (\<lambda>n. n\<lparr>n_kids := []\<rparr>) fs))
               (\<lambda>fs. tree_free_list as (node_free a fs)))"

definition tree_free :: "nat \<Rightarrow> tmpfs \<Rightarrow> tmpfs option" where
  "tree_free a fs = (if a = 0 then Some fs else tree_free_list [a] fs)"

section \<open>File data\<close>

text \<open>The doubling loop in 32 bits: \<open>None\<close> where it does not end.\<close>

partial_function (option) grow :: "nat \<Rightarrow> nat \<Rightarrow> nat option" where
  "grow ncap need = (if ncap < need then grow (w32 (ncap * 2)) need else Some ncap)"

text \<open>\<open>junk\<close> is the contents of the new buffer if there is memory for it.\<close>

definition node_reserve :: "(nat \<Rightarrow> u8) option \<Rightarrow> nat \<Rightarrow> nat \<Rightarrow> tmpfs \<Rightarrow> (int \<times> tmpfs) option" where
  "node_reserve junk a need fs =
     (let n = nodes fs a in
      if need \<le> n_cap n then Some (0, fs)
      else case grow (if n_cap n \<noteq> 0 then n_cap n else 64) need of
        None \<Rightarrow> None
      | Some ncap \<Rightarrow>
          (case junk of
             None \<Rightarrow> Some (-1, fs)
           | Some j \<Rightarrow>
               let nd = map j [0..<ncap];
                   nd = (if n_data n \<noteq> [] \<and> n_size n \<noteq> 0 then take (n_size n) (n_data n) @ drop (n_size n) nd else nd)
               in Some (0, upd_node a (\<lambda>n. n\<lparr>n_data := nd, n_cap := ncap\<rparr>) fs)))"

section \<open>Paths\<close>

definition is_dir :: "tmpfs \<Rightarrow> nat \<Rightarrow> bool" where
  "is_dir fs a \<longleftrightarrow> n_type (nodes fs a) = DT_DIR"

definition lookup_child :: "tmpfs \<Rightarrow> nat \<Rightarrow> string \<Rightarrow> nat option" where
  "lookup_child fs d name = (if \<not> is_dir fs d then None else find (\<lambda>c. n_name (nodes fs c) = name) (n_kids (nodes fs d)))"

abbreviation skip_slashes :: "string \<Rightarrow> string" where
  "skip_slashes \<equiv> dropWhile (\<lambda>c. c = slash)"

abbreviation word_of_path :: "string \<Rightarrow> string" where
  "word_of_path \<equiv> takeWhile (\<lambda>c. c \<noteq> slash)"

function lookup_loop :: "tmpfs \<Rightarrow> nat \<Rightarrow> string \<Rightarrow> nat option" where
  "lookup_loop fs cur p =
     (if p = [] then Some cur
      else if word_of_path p = [] then lookup_loop fs cur (tl p)
      else if length (word_of_path p) \<ge> 64 then None
      else case lookup_child fs cur (word_of_path p) of
             None \<Rightarrow> None
           | Some c \<Rightarrow> lookup_loop fs c (skip_slashes (dropWhile (\<lambda>c. c \<noteq> slash) p)))"
  by pat_completeness auto

definition lookup :: "tmpfs \<Rightarrow> nat \<Rightarrow> string \<Rightarrow> nat option" where
  "lookup fs root path = (if root = 0 then None else lookup_loop fs root (skip_slashes path))"

text \<open>The parent directory and the last component.\<close>

function lookup_parent_loop :: "tmpfs \<Rightarrow> nat \<Rightarrow> string \<Rightarrow> (nat \<times> string) option" where
  "lookup_parent_loop fs cur p =
     (if p = [] then None
      else if word_of_path p = [] then lookup_parent_loop fs cur (tl p)
      else if length (word_of_path p) \<ge> 64 then None
      else let after = skip_slashes (dropWhile (\<lambda>c. c \<noteq> slash) p) in
           if after = [] then Some (cur, word_of_path p)
           else case lookup_child fs cur (word_of_path p) of
                  None \<Rightarrow> None
                | Some c \<Rightarrow> if is_dir fs c then lookup_parent_loop fs c after else None)"
  by pat_completeness auto

definition lookup_parent :: "tmpfs \<Rightarrow> nat \<Rightarrow> string \<Rightarrow> (nat \<times> string) option" where
  "lookup_parent fs root path = (if root = 0 then None else lookup_parent_loop fs root (skip_slashes path))"

lemma rest_shorter: "word_of_path p \<noteq> [] \<Longrightarrow> length (skip_slashes (dropWhile (\<lambda>c. c \<noteq> slash) p)) < length p"
proof -
  assume "word_of_path p \<noteq> []"
  then obtain c cs where "p = c # cs" "c \<noteq> slash" by (cases p) (auto split: if_splits)
  then have "length (dropWhile (\<lambda>c. c \<noteq> slash) p) < length p" by (simp add: length_dropWhile_le le_imp_less_Suc)
  then show ?thesis using length_dropWhile_le [of "\<lambda>c. c = slash" "dropWhile (\<lambda>c. c \<noteq> slash) p"] by linarith
qed

termination lookup_loop
  by (relation "measure (\<lambda>(fs, cur, p). length p)") (auto simp: rest_shorter)

termination lookup_parent_loop
  by (relation "measure (\<lambda>(fs, cur, p). length p)") (auto simp: rest_shorter)

declare lookup_loop.simps [simp del] lookup_parent_loop.simps [simp del]

section \<open>Mounting, opening and closing\<close>

definition tmpfs_mount :: "nat \<Rightarrow> tmpfs \<Rightarrow> (int \<times> nat) \<times> tmpfs" where
  "tmpfs_mount a fs = (case node_alloc [] DT_DIR a fs of (None, fs) \<Rightarrow> ((-1, 0), fs) | (Some r, fs) \<Rightarrow> ((0, r), fs))"

definition tmpfs_unmount :: "nat \<Rightarrow> tmpfs \<Rightarrow> (int \<times> tmpfs) option" where
  "tmpfs_unmount root fs = map_option (\<lambda>fs. (0, fs)) (tree_free root fs)"

definition O_CREAT :: u32 where "O_CREAT = 0x0100"
definition O_DIRECTORY :: u32 where "O_DIRECTORY = 0x0400"
definition O_TRUNC :: u32 where "O_TRUNC = 0x0800"

text \<open>A handle on a node, at the address \<open>h\<close> that \<^verbatim>\<open>kalloc\<close> returns.\<close>

definition new_handle :: "nat \<Rightarrow> nat \<Rightarrow> tmpfs \<Rightarrow> (int \<times> nat) \<times> tmpfs" where
  "new_handle h a fs =
     (if h = 0 then ((-1, 0), fs)
      else ((0, h), upd_node a (\<lambda>n. n\<lparr>n_refs := n_refs n + 1\<rparr>)
             (fs\<lparr>handles := (handles fs)(h := \<lparr>f_node = a, f_off = 0\<rparr>), handle_live := (handle_live fs)(h := True)\<rparr>)))"

definition create_leaf :: "nat \<Rightarrow> string \<Rightarrow> nat \<Rightarrow> nat \<Rightarrow> nat \<Rightarrow> tmpfs \<Rightarrow> nat option \<times> tmpfs" where
  "create_leaf now path ty a root fs =
     (case lookup_parent fs root path of
        None \<Rightarrow> (None, fs)
      | Some (p, leaf) \<Rightarrow>
          (case node_alloc leaf ty a fs of
             (None, fs) \<Rightarrow> (None, fs)
           | (Some n, fs) \<Rightarrow> (Some n, list_add_tail n p (upd_node n (\<lambda>t. t\<lparr>n_parent := Some p, n_mtime := now\<rparr>) fs))))"

definition open_node :: "u32 \<Rightarrow> nat \<Rightarrow> nat \<Rightarrow> tmpfs \<Rightarrow> (int \<times> nat) \<times> tmpfs" where
  "open_node fl h n fs =
     (if fl AND O_DIRECTORY \<noteq> 0 \<and> \<not> is_dir fs n then ((-1, 0), fs)
      else if fl AND O_DIRECTORY = 0 \<and> is_dir fs n then ((-1, 0), fs)
      else new_handle h n (if fl AND O_TRUNC \<noteq> 0 \<and> n_type (nodes fs n) = DT_REG then upd_node n (\<lambda>t. t\<lparr>n_size := 0\<rparr>) fs else fs))"

definition tmpfs_open :: "nat \<Rightarrow> nat \<Rightarrow> string \<Rightarrow> u32 \<Rightarrow> nat \<Rightarrow> nat \<Rightarrow> tmpfs \<Rightarrow> (int \<times> nat) \<times> tmpfs" where
  "tmpfs_open now root path fl a h fs =
     (if skip_slashes path = [] then (if fl AND O_DIRECTORY \<noteq> 0 then new_handle h root fs else ((-1, 0), fs))
      else case lookup fs root path of
        Some n \<Rightarrow> open_node fl h n fs
      | None \<Rightarrow>
          if fl AND O_CREAT = 0 then ((-1, 0), fs)
          else (case create_leaf now path DT_REG a root fs of
                  (None, fs) \<Rightarrow> ((-1, 0), fs)
                | (Some n, fs) \<Rightarrow> open_node fl h n fs))"

definition tmpfs_close :: "nat \<Rightarrow> tmpfs \<Rightarrow> int \<times> tmpfs" where
  "tmpfs_close h fs =
     (if h = 0 then (0, fs)
      else let fs = node_put (f_node (handles fs h)) fs in (0, fs\<lparr>handle_live := (handle_live fs)(h := False)\<rparr>))"

section \<open>Reading and writing\<close>

text \<open>A transfer may loop for ever, or leave the bounds of the buffer.\<close>

datatype 'a transfer = Hangs | Overruns | Done 'a

definition tmpfs_read :: "nat \<Rightarrow> nat \<Rightarrow> tmpfs \<Rightarrow> (int \<times> u8 list \<times> tmpfs) transfer" where
  "tmpfs_read h count fs =
     (let a = f_node (handles fs h); off = f_off (handles fs h); n = nodes fs a in
      if h = 0 \<or> a = 0 \<or> n_type n \<noteq> DT_REG then Done (-1, [], fs)
      else if off \<ge> n_size n then Done (0, [], fs)
      else
        let r = (if w32 (off + count) > n_size n then n_size n - off else count)
        in if off + r > length (n_data n) then Overruns
           else Done (to_int r, take r (drop off (n_data n)), upd_handle h (\<lambda>f. f\<lparr>f_off := w32 (off + r)\<rparr>) fs))"

definition store_at :: "nat \<Rightarrow> u8 list \<Rightarrow> u8 list \<Rightarrow> u8 list" where
  "store_at off bs d = take off d @ bs @ drop (off + length bs) d"

definition tmpfs_write :: "nat \<Rightarrow> (nat \<Rightarrow> u8) option \<Rightarrow> nat \<Rightarrow> u8 list \<Rightarrow> tmpfs \<Rightarrow> (int \<times> tmpfs) transfer" where
  "tmpfs_write now junk h bs fs =
     (let a = f_node (handles fs h); off = f_off (handles fs h); count = length bs in
      if h = 0 \<or> a = 0 \<or> n_type (nodes fs a) \<noteq> DT_REG then Done (-1, fs)
      else if count = 0 then Done (0, fs)
      else case node_reserve junk a (w32 (off + count)) fs of
        None \<Rightarrow> Hangs
      | Some (r, fs) \<Rightarrow>
          if r < 0 then Done (-1, fs)
          else if off + count > length (n_data (nodes fs a)) then Overruns
          else
            let e = w32 (off + count);
                fs = upd_node a (\<lambda>n. n\<lparr>n_data := store_at off bs (n_data n)\<rparr>) fs;
                fs = upd_handle h (\<lambda>f. f\<lparr>f_off := e\<rparr>) fs;
                fs = upd_node a (\<lambda>n. n\<lparr>n_size := (if e > n_size n then e else n_size n), n_mtime := now\<rparr>) fs
            in Done (to_int count, fs))"

definition tmpfs_seek :: "nat \<Rightarrow> int \<Rightarrow> int \<Rightarrow> tmpfs \<Rightarrow> (int \<times> nat) \<times> tmpfs" where
  "tmpfs_seek h offset whence fs =
     (let a = f_node (handles fs h) in
      if h = 0 \<or> a = 0 then ((-1, 0), fs)
      else if whence \<noteq> 0 \<and> whence \<noteq> 1 \<and> whence \<noteq> 2 then ((-1, 0), fs)
      else
        let pos = (if whence = 0 then offset
                   else if whence = 1 then wrap32 (to_int (f_off (handles fs h)) + offset)
                   else wrap32 (to_int (n_size (nodes fs a)) + offset))
        in if pos < 0 then ((-1, 0), fs) else ((0, nat pos), upd_handle h (\<lambda>f. f\<lparr>f_off := nat pos\<rparr>) fs))"

definition tmpfs_truncate :: "nat \<Rightarrow> (nat \<Rightarrow> u8) option \<Rightarrow> nat \<Rightarrow> nat \<Rightarrow> tmpfs \<Rightarrow> (int \<times> tmpfs) transfer" where
  "tmpfs_truncate now junk h len fs =
     (let a = f_node (handles fs h); resize = (\<lambda>n. n\<lparr>n_size := len, n_mtime := now\<rparr>) in
      if h = 0 \<or> a = 0 \<or> n_type (nodes fs a) \<noteq> DT_REG then Done (-1, fs)
      else if len > n_size (nodes fs a) then
        (case node_reserve junk a len fs of
           None \<Rightarrow> Hangs
         | Some (r, fs) \<Rightarrow>
             if r < 0 then Done (-1, fs)
             else Done (0, upd_node a resize (upd_node a (\<lambda>n. n\<lparr>n_data := store_at (n_size n) (replicate (len - n_size n) 0) (n_data n)\<rparr>) fs)))
      else Done (0, upd_node a resize fs))"

section \<open>Directories\<close>

definition tmpfs_readdir :: "nat \<Rightarrow> tmpfs \<Rightarrow> int \<times> (string \<times> nat \<times> nat) option \<times> tmpfs" where
  "tmpfs_readdir h fs =
     (let a = f_node (handles fs h); idx = f_off (handles fs h) in
      if h = 0 \<or> a = 0 \<or> n_type (nodes fs a) \<noteq> DT_DIR then (-1, None, fs)
      else case drop idx (n_kids (nodes fs a)) of
        [] \<Rightarrow> (0, None, fs)
      | c # cs \<Rightarrow> (1, Some (take 255 (n_name (nodes fs c)), n_ino (nodes fs c), n_type (nodes fs c)),
                   upd_handle h (\<lambda>f. f\<lparr>f_off := w32 (idx + 1)\<rparr>) fs))"

definition tmpfs_mkdir :: "nat \<Rightarrow> nat \<Rightarrow> string \<Rightarrow> nat \<Rightarrow> tmpfs \<Rightarrow> int \<times> tmpfs" where
  "tmpfs_mkdir now root path a fs =
     (if lookup fs root path \<noteq> None then (-1, fs)
      else case create_leaf now path DT_DIR a root fs of (None, fs) \<Rightarrow> (-1, fs) | (Some n, fs) \<Rightarrow> (0, fs))"

definition unlink_node :: "nat \<Rightarrow> tmpfs \<Rightarrow> tmpfs" where
  "unlink_node n fs = node_put n (upd_node n (\<lambda>t. t\<lparr>n_parent := None\<rparr>) (list_del n fs))"

definition tmpfs_rmdir :: "nat \<Rightarrow> string \<Rightarrow> tmpfs \<Rightarrow> int \<times> tmpfs" where
  "tmpfs_rmdir root path fs =
     (case lookup fs root path of
        None \<Rightarrow> (-1, fs)
      | Some n \<Rightarrow>
          if n_type (nodes fs n) \<noteq> DT_DIR then (-1, fs)
          else if n_kids (nodes fs n) \<noteq> [] then (-1, fs)
          else (0, unlink_node n fs))"

definition tmpfs_unlink :: "nat \<Rightarrow> string \<Rightarrow> tmpfs \<Rightarrow> int \<times> tmpfs" where
  "tmpfs_unlink root path fs =
     (case lookup fs root path of
        None \<Rightarrow> (-1, fs)
      | Some n \<Rightarrow> if n_type (nodes fs n) \<noteq> DT_REG then (-1, fs) else (0, unlink_node n fs))"

text \<open>The walk to the root: whether \<open>n\<close> is met. It ends where the parents form a tree.\<close>

partial_function (option) walk_meets :: "tmpfs \<Rightarrow> nat \<Rightarrow> nat \<Rightarrow> bool option" where
  "walk_meets fs n w =
     (if w = n then Some True
      else case n_parent (nodes fs w) of None \<Rightarrow> Some False | Some p \<Rightarrow> walk_meets fs n p)"

definition move_node :: "nat \<Rightarrow> nat \<Rightarrow> string \<Rightarrow> tmpfs \<Rightarrow> tmpfs" where
  "move_node n p leaf fs =
     list_add_tail n p (upd_node n (\<lambda>t. t\<lparr>n_parent := Some p, n_name := take 63 leaf\<rparr>) (list_del n fs))"

text \<open>\<open>None\<close> where the walk does not end.\<close>

definition tmpfs_rename :: "nat \<Rightarrow> string \<Rightarrow> string \<Rightarrow> tmpfs \<Rightarrow> (int \<times> tmpfs) option" where
  "tmpfs_rename root old_path new_path fs =
     (case lookup fs root old_path of
        None \<Rightarrow> Some (-1, fs)
      | Some n \<Rightarrow>
          (case lookup_parent fs root new_path of
             None \<Rightarrow> Some (-1, fs)
           | Some (p, leaf) \<Rightarrow>
               if is_dir fs n then
                 (case walk_meets fs n p of
                    None \<Rightarrow> None
                  | Some True \<Rightarrow> Some (-1, fs)
                  | Some False \<Rightarrow> Some (0, move_node n p leaf fs))
               else Some (0, move_node n p leaf fs)))"

section \<open>Attributes\<close>

record file_stat = stat +
  st_size :: nat
  st_inode :: nat
  st_ctime :: nat
  st_mtime :: nat

definition node_stat :: "tnode \<Rightarrow> file_stat" where
  "node_stat n = \<lparr>st_type = n_type n, st_mode = (if n_type n = DT_DIR then 0x1FF else 0x1B6), st_uid = 0, st_gid = 0,
     st_size = (if n_type n = DT_REG then n_size n else 0), st_inode = n_ino n, st_ctime = n_mtime n, st_mtime = n_mtime n\<rparr>"

definition tmpfs_stat :: "nat \<Rightarrow> string \<Rightarrow> tmpfs \<Rightarrow> file_stat option" where
  "tmpfs_stat root path fs =
     (if skip_slashes path = [] then Some (node_stat (nodes fs root))
      else map_option (\<lambda>n. node_stat (nodes fs n)) (lookup fs root path))"

definition tmpfs_fstat :: "nat \<Rightarrow> tmpfs \<Rightarrow> file_stat option" where
  "tmpfs_fstat h fs =
     (if h = 0 \<or> f_node (handles fs h) = 0 then None else Some (node_stat (nodes fs (f_node (handles fs h)))))"

definition tmpfs_utime :: "nat \<Rightarrow> string \<Rightarrow> nat \<Rightarrow> nat \<Rightarrow> tmpfs \<Rightarrow> int \<times> tmpfs" where
  "tmpfs_utime root path atime mtime fs =
     (case lookup fs root path of None \<Rightarrow> (-1, fs) | Some n \<Rightarrow> (0, upd_node n (\<lambda>t. t\<lparr>n_mtime := mtime\<rparr>) fs))"

definition tmpfs_chmod :: "string \<Rightarrow> u32 \<Rightarrow> tmpfs \<Rightarrow> int \<times> tmpfs" where
  "tmpfs_chmod path mode fs = (0, fs)"

definition tmpfs_mknod :: "string \<Rightarrow> u32 \<Rightarrow> nat \<Rightarrow> tmpfs \<Rightarrow> int \<times> tmpfs" where
  "tmpfs_mknod path mode dev fs = (-1, fs)"

definition tmpfs_ioctl :: "nat \<Rightarrow> u32 \<Rightarrow> u32 \<Rightarrow> tmpfs \<Rightarrow> int \<times> tmpfs" where
  "tmpfs_ioctl h cmd arg fs = (-1, fs)"

definition tmpfs_poll :: "nat \<Rightarrow> tmpfs \<Rightarrow> int" where
  "tmpfs_poll h fs = 1"

end
