(* ===== verification/Tmpfs_Data.thy ===== *)
theory Tmpfs_Data
  imports Tmpfs
begin

text \<open>
  The contents of files in \<open>Tmpfs\<close>: a file is an array of bytes. The loop that sizes the buffer ends exactly up to
  two gigabytes.
\<close>

section \<open>The size of the buffer\<close>

definition buffer_size :: "nat \<Rightarrow> bool" where
  "buffer_size n \<longleftrightarrow> (\<exists>k \<le> 25. n = 64 * 2 ^ k)"

lemma buffer_size_bounds: "buffer_size n \<Longrightarrow> 64 \<le> n \<and> n \<le> 2147483648"
proof -
  assume "buffer_size n"
  then obtain k where k: "k \<le> 25" "n = 64 * 2 ^ k" by (auto simp: buffer_size_def)
  have "(2::nat) ^ k \<le> 2 ^ 25" using k(1) by (rule power_increasing) simp
  then show ?thesis using k(2) by simp
qed

lemma buffer_size_double: "buffer_size n \<Longrightarrow> n < 2147483648 \<Longrightarrow> buffer_size (w32 (n * 2))"
proof -
  assume n: "buffer_size n" "n < 2147483648"
  then obtain k where k: "k \<le> 25" "n = 64 * 2 ^ k" by (auto simp: buffer_size_def)
  have "k \<noteq> 25" using n(2) k(2) by auto
  then have "w32 (n * 2) = 64 * 2 ^ Suc k" "Suc k \<le> 25" using n(2) k by simp_all
  then show ?thesis unfolding buffer_size_def by blast
qed

lemma grow_ends: "buffer_size n \<Longrightarrow> need \<le> 2147483648 \<Longrightarrow> \<exists>m. grow n need = Some m \<and> need \<le> m \<and> buffer_size m"
proof (induction "2147483648 - n" arbitrary: n rule: less_induct)
  case less
  show ?case
  proof (cases "n < need")
    case False
    then show ?thesis using less.prems by (subst grow.simps) simp
  next
    case True
    then have n: "n < 2147483648" "64 \<le> n" using less.prems buffer_size_bounds by auto
    then have "2147483648 - w32 (n * 2) < 2147483648 - n" by simp
    from less.hyps [OF this buffer_size_double [OF less.prems(1) n(1)] less.prems(2)] True
    show ?thesis by (subst grow.simps) simp
  qed
qed

lemma grow_bounded: "grow n need = Some m \<Longrightarrow> buffer_size n \<or> n = 0 \<longrightarrow> need \<le> 2147483648"
proof (rule grow.raw_induct [where P = "\<lambda>n need m. buffer_size n \<or> n = 0 \<longrightarrow> need \<le> 2147483648"])
  fix g :: "nat \<Rightarrow> nat \<Rightarrow> nat option" and n need m
  assume 1: "\<And>n need m. g n need = Some m \<Longrightarrow> buffer_size n \<or> n = 0 \<longrightarrow> need \<le> 2147483648"
    "(if n < need then g (w32 (n * 2)) need else Some n) = Some m"
  show "buffer_size n \<or> n = 0 \<longrightarrow> need \<le> 2147483648"
  proof
    assume n: "buffer_size n \<or> n = 0"
    then have le: "n \<le> 2147483648" using buffer_size_bounds by auto
    have "buffer_size (w32 (n * 2)) \<or> w32 (n * 2) = 0"
    proof (cases "n < 2147483648")
      case True
      then show ?thesis using n buffer_size_double by auto
    next
      case False
      then have "n = 2147483648" using le by simp
      then show ?thesis by (simp add: w32_def)
    qed
    then show "need \<le> 2147483648" using 1 le by (cases "n < need") auto
  qed
qed

section \<open>Files as arrays of bytes\<close>

definition data_ok :: "tmpfs \<Rightarrow> nat \<Rightarrow> bool" where
  "data_ok fs a \<longleftrightarrow> (let n = nodes fs a in n_size n \<le> length (n_data n) \<and> length (n_data n) = n_cap n \<and>
     (n_cap n = 0 \<or> buffer_size (n_cap n)))"

definition file_bytes :: "tmpfs \<Rightarrow> nat \<Rightarrow> u8 list" where
  "file_bytes fs a = take (n_size (nodes fs a)) (n_data (nodes fs a))"

text \<open>A live handle on a regular file.\<close>

definition reg_handle :: "tmpfs \<Rightarrow> nat \<Rightarrow> bool" where
  "reg_handle fs h \<longleftrightarrow> h \<noteq> 0 \<and> f_node (handles fs h) \<noteq> 0 \<and> n_type (nodes fs (f_node (handles fs h))) = DT_REG"

lemma upd_simps [simp]:
  "nodes (upd_node a g fs) = (nodes fs)(a := g (nodes fs a))" "handles (upd_node a g fs) = handles fs"
  "node_live (upd_node a g fs) = node_live fs" "handle_live (upd_node a g fs) = handle_live fs" "next_inode (upd_node a g fs) = next_inode fs"
  "nodes (upd_handle h k fs) = nodes fs" "handles (upd_handle h k fs) = (handles fs)(h := k (handles fs h))"
  "node_live (upd_handle h k fs) = node_live fs" "handle_live (upd_handle h k fs) = handle_live fs"
  by (simp_all add: upd_node_def upd_handle_def)

lemma node_reserve_ok:
  assumes "data_ok fs a" "need \<le> 2147483648" "junk = Some j"
  shows "\<exists>fs' x. node_reserve junk a need fs = Some (0, fs') \<and> need \<le> length (n_data (nodes fs' a)) \<and> data_ok fs' a \<and>
    file_bytes fs' a = file_bytes fs a \<and> fs' = upd_node a (\<lambda>n. n\<lparr>n_data := fst x, n_cap := snd x\<rparr>) fs"
proof (cases "need \<le> n_cap (nodes fs a)")
  case True
  have "fs = upd_node a (\<lambda>n. n\<lparr>n_data := n_data (nodes fs a), n_cap := n_cap (nodes fs a)\<rparr>) fs" by (simp add: upd_node_def)
  then show ?thesis
    using True assms(1) by (intro exI [of _ fs] exI [of _ "(n_data (nodes fs a), n_cap (nodes fs a))"])
      (simp add: node_reserve_def data_ok_def Let_def)
next
  case False
  let ?n = "nodes fs a"
  have start: "buffer_size (if n_cap ?n \<noteq> 0 then n_cap ?n else 64)"
  proof (cases "n_cap ?n = 0")
    case True
    then show ?thesis unfolding buffer_size_def by (intro exI [of _ 0]) simp
  next
    case False
    then show ?thesis using assms(1) by (simp add: data_ok_def Let_def)
  qed
  obtain m where m: "grow (if n_cap ?n \<noteq> 0 then n_cap ?n else 64) need = Some m" "need \<le> m" "buffer_size m"
    using grow_ends [OF start assms(2)] by blast
  let ?nd = "map j [0..<m]"
  let ?d = "if n_data ?n \<noteq> [] \<and> n_size ?n \<noteq> 0 then take (n_size ?n) (n_data ?n) @ drop (n_size ?n) ?nd else ?nd"
  have le: "n_size ?n \<le> length (n_data ?n)" "length (n_data ?n) = n_cap ?n" "n_cap ?n < m"
    using assms(1) m(2) False by (simp_all add: data_ok_def Let_def)
  have len: "length ?d = m" using le by simp
  have "take (n_size ?n) ?d = take (n_size ?n) (n_data ?n)" using le by auto
  then show ?thesis
    using False m assms(3) le len
    by (intro exI [of _ "upd_node a (\<lambda>n. n\<lparr>n_data := ?d, n_cap := m\<rparr>) fs"] exI [of _ "(?d, m)"])
      (simp add: node_reserve_def data_ok_def file_bytes_def Let_def)
qed

lemma length_store_at: "off + length bs \<le> length d \<Longrightarrow> length (store_at off bs d) = length d"
  by (simp add: store_at_def)

lemma take_store_at:
  assumes "off + length bs \<le> length d"
  shows "take (max n (off + length bs)) (store_at off bs d) = take off d @ bs @ drop (off + length bs) (take n d)"
proof (cases "n \<le> off + length bs")
  case True
  then have "max n (off + length bs) = off + length bs" by simp
  then show ?thesis using True assms by (simp add: store_at_def)
next
  case False
  then have "max n (off + length bs) = n" "off \<le> n" by simp_all
  then show ?thesis using False assms by (simp add: store_at_def drop_take min_absorb2)
qed

lemma size_after: "(if e > n then e else n) = max n (e::nat)"
  by simp

lemma tmpfs_write_ok:
  assumes "reg_handle fs h" "a = f_node (handles fs h)" "data_ok fs a" "off = f_off (handles fs h)" "bs \<noteq> []"
    "off + length bs < 2147483648" "junk = Some j"
  shows "\<exists>fs' gap. tmpfs_write now junk h bs fs = Done (int (length bs), fs') \<and> handles fs' h = \<lparr>f_node = a, f_off = off + length bs\<rparr> \<and>
    data_ok fs' a \<and> length gap = off - length (file_bytes fs a) \<and> reg_handle fs' h \<and>
    file_bytes fs' a = take off (file_bytes fs a @ gap) @ bs @ drop (off + length bs) (file_bytes fs a) \<and>
    (\<forall>b. b \<noteq> a \<longrightarrow> nodes fs' b = nodes fs b)"
proof -
  let ?e = "off + length bs"
  have e: "w32 ?e = ?e" "?e \<le> 2147483648" using assms(6) by simp_all
  obtain fs1 x where r: "node_reserve junk a ?e fs = Some (0, fs1)" "?e \<le> length (n_data (nodes fs1 a))" "data_ok fs1 a"
      "file_bytes fs1 a = file_bytes fs a" "fs1 = upd_node a (\<lambda>n. n\<lparr>n_data := fst x, n_cap := snd x\<rparr>) fs"
    using node_reserve_ok [OF assms(3) e(2) assms(7)] by blast
  let ?n = "nodes fs1 a"
  have same: "handles fs1 = handles fs" "n_size ?n = n_size (nodes fs a)" "n_type ?n = n_type (nodes fs a)"
    "nodes fs1 b = nodes fs b" if "b \<noteq> a" for b
    using that by (simp_all add: r(5))
  have h: "h \<noteq> 0" "a \<noteq> 0" "n_type (nodes fs a) = DT_REG" using assms(1,2) by (simp_all add: reg_handle_def)
  define fs' where "fs' = upd_node a (\<lambda>n. n\<lparr>n_size := max (n_size n) ?e, n_mtime := now\<rparr>)
      (upd_handle h (\<lambda>f. f\<lparr>f_off := ?e\<rparr>) (upd_node a (\<lambda>n. n\<lparr>n_data := store_at off bs (n_data n)\<rparr>) fs1))"
  have run: "tmpfs_write now junk h bs fs = Done (int (length bs), fs')"
    using h assms(5,6) r(1,2) e by (simp add: tmpfs_write_def assms(2,4) [symmetric] fs'_def size_after Let_def)
  have len: "n_size ?n \<le> length (n_data ?n)" using r(3) by (simp add: data_ok_def Let_def)
  have sz: "length (file_bytes fs a) = n_size ?n" using len unfolding r(4) [symmetric] unfolding file_bytes_def by simp
  define gap where "gap = drop (n_size ?n) (take off (n_data ?n))"
  have off: "off \<le> length (n_data ?n)" using r(2) by simp
  have "take off (file_bytes fs a @ gap) = take off (n_data ?n)"
  proof (cases "off \<le> n_size ?n")
    case True
    then show ?thesis using sz unfolding r(4) [symmetric] by (simp add: file_bytes_def)
  next
    case False
    then have "take (n_size ?n) (n_data ?n) @ drop (n_size ?n) (take off (n_data ?n)) = take off (n_data ?n)"
      using append_take_drop_id [of "n_size ?n" "take off (n_data ?n)"] by simp
    then show ?thesis using False off unfolding r(4) [symmetric] by (simp add: file_bytes_def gap_def)
  qed
  moreover have "file_bytes fs' a = take off (n_data ?n) @ bs @ drop ?e (take (n_size ?n) (n_data ?n))"
    using take_store_at [OF r(2), of "n_size ?n"] by (simp add: file_bytes_def fs'_def)
  ultimately have "file_bytes fs' a = take off (file_bytes fs a @ gap) @ bs @ drop ?e (file_bytes fs a)"
    unfolding r(4) [symmetric] by (simp add: file_bytes_def)
  moreover have "data_ok fs' a" using r(2,3) by (simp add: data_ok_def fs'_def Let_def length_store_at)
  moreover have "handles fs' h = \<lparr>f_node = a, f_off = ?e\<rparr>" using assms(2) by (simp add: fs'_def r(5))
  moreover have "reg_handle fs' h" using h by (simp add: reg_handle_def fs'_def r(5) assms(2) [symmetric])
  moreover have "length gap = off - length (file_bytes fs a)" using off by (simp add: gap_def sz)
  moreover have "\<forall>b. b \<noteq> a \<longrightarrow> nodes fs' b = nodes fs b" by (simp add: fs'_def r(5))
  ultimately show ?thesis using run by blast
qed

lemma tmpfs_read_ok:
  assumes "reg_handle fs h" "a = f_node (handles fs h)" "data_ok fs a" "off = f_off (handles fs h)" "off + count < 2147483648"
  shows "tmpfs_read h count fs = Done (int (length (take count (drop off (file_bytes fs a)))), take count (drop off (file_bytes fs a)),
    upd_handle h (\<lambda>f. f\<lparr>f_off := off + length (take count (drop off (file_bytes fs a)))\<rparr>) fs)"
proof -
  let ?n = "nodes fs a"
  have h: "h \<noteq> 0" "a \<noteq> 0" "n_type ?n = DT_REG" using assms(1,2) by (simp_all add: reg_handle_def)
  have len: "n_size ?n \<le> length (n_data ?n)" using assms(3) by (simp add: data_ok_def Let_def)
  show ?thesis
  proof (cases "n_size ?n \<le> off")
    case True
    moreover have "upd_handle h (\<lambda>f. f\<lparr>f_off := off\<rparr>) fs = fs" by (simp add: upd_handle_def assms(4))
    ultimately show ?thesis using h by (simp add: tmpfs_read_def assms(2,4) [symmetric] file_bytes_def Let_def)
  next
    case False
    define r where "r = (if off + count > n_size ?n then n_size ?n - off else count)"
    have r: "off + r \<le> n_size ?n" "off + r < 2147483648" using False assms(5) by (auto simp: r_def)
    have bs: "take count (drop off (file_bytes fs a)) = take r (drop off (n_data ?n))"
      using False by (auto simp: file_bytes_def r_def drop_take min_def)
    moreover have "length (take r (drop off (n_data ?n))) = r" using r(1) len by simp
    ultimately show ?thesis
      using h False r len assms(5)
      by (simp add: tmpfs_read_def assms(2,4) [symmetric] Let_def r_def [symmetric])
  qed
qed

lemma tmpfs_truncate_ok:
  assumes "reg_handle fs h" "a = f_node (handles fs h)" "data_ok fs a" "len \<le> 2147483648" "junk = Some j"
  shows "\<exists>fs'. tmpfs_truncate now junk h len fs = Done (0, fs') \<and> data_ok fs' a \<and> handles fs' = handles fs \<and>
    file_bytes fs' a = take len (file_bytes fs a) @ replicate (len - length (file_bytes fs a)) 0 \<and>
    (\<forall>b. b \<noteq> a \<longrightarrow> nodes fs' b = nodes fs b)"
proof -
  let ?n = "nodes fs a"
  have h: "h \<noteq> 0" "a \<noteq> 0" "n_type ?n = DT_REG" using assms(1,2) by (simp_all add: reg_handle_def)
  have le: "n_size ?n \<le> length (n_data ?n)" using assms(3) by (simp add: data_ok_def Let_def)
  show ?thesis
  proof (cases "n_size ?n < len")
    case False
    let ?fs = "upd_node a (\<lambda>n. n\<lparr>n_size := len, n_mtime := now\<rparr>) fs"
    have "tmpfs_truncate now junk h len fs = Done (0, ?fs)" using False h by (simp add: tmpfs_truncate_def assms(2) [symmetric] Let_def)
    moreover have "file_bytes ?fs a = take len (file_bytes fs a) @ replicate (len - length (file_bytes fs a)) 0"
      using False le by (simp add: file_bytes_def min_absorb1)
    moreover have "data_ok ?fs a" using assms(3) False by (simp add: data_ok_def Let_def)
    ultimately show ?thesis by auto
  next
    case True
    obtain fs1 x where r: "node_reserve junk a len fs = Some (0, fs1)" "len \<le> length (n_data (nodes fs1 a))" "data_ok fs1 a"
      "file_bytes fs1 a = file_bytes fs a" "fs1 = upd_node a (\<lambda>n. n\<lparr>n_data := fst x, n_cap := snd x\<rparr>) fs"
      using node_reserve_ok [OF assms(3,4,5)] by blast
    have sz: "n_size (nodes fs1 a) = n_size ?n" by (simp add: r(5))
    let ?z = "replicate (len - n_size ?n) (0 :: u8)"
    let ?fs = "upd_node a (\<lambda>n. n\<lparr>n_size := len, n_mtime := now\<rparr>) (upd_node a (\<lambda>n. n\<lparr>n_data := store_at (n_size n) (replicate (len - n_size n) 0) (n_data n)\<rparr>) fs1)"
    have "tmpfs_truncate now junk h len fs = Done (0, ?fs)" using True h r(1) by (simp add: tmpfs_truncate_def assms(2) [symmetric] Let_def)
    moreover have "file_bytes ?fs a = take len (file_bytes fs a) @ replicate (len - length (file_bytes fs a)) 0"
    proof -
      have e: "n_size ?n + length ?z = len" using True by simp
      have "file_bytes ?fs a = take (max (n_size ?n) (n_size ?n + length ?z)) (store_at (n_size ?n) ?z (n_data (nodes fs1 a)))"
        using e by (simp add: file_bytes_def sz)
      also have "\<dots> = take (n_size ?n) (n_data (nodes fs1 a)) @ ?z"
        using r(2) e by (subst take_store_at) simp_all
      also have "take (n_size ?n) (n_data (nodes fs1 a)) = file_bytes fs a" unfolding r(4) [symmetric] by (simp add: file_bytes_def sz)
      finally show ?thesis using True le by (simp add: file_bytes_def)
    qed
    moreover have "data_ok ?fs a" using r(2,3) True sz by (simp add: data_ok_def Let_def length_store_at)
    moreover have "handles ?fs = handles fs" "\<forall>b. b \<noteq> a \<longrightarrow> nodes ?fs b = nodes fs b" by (simp_all add: r(5))
    ultimately show ?thesis by blast
  qed
qed

text \<open>
  C16: a file of the in-memory file system is an array of bytes. A write below two gigabytes with memory for the buffer
  replaces the bytes from the offset of the handle on and advances the offset, growing the file if it must (the bytes
  of a gap are those that the buffer happens to hold); a read returns the bytes from the offset on; truncation cuts the
  array or extends it with zeros. No other node changes, and the invariant of the buffer is kept.
\<close>

theorem tmpfs_file_array:
  assumes "reg_handle fs h" "a = f_node (handles fs h)" "data_ok fs a" "off = f_off (handles fs h)" "bs \<noteq> []"
    "off + length bs < 2147483648" "off + count < 2147483648" "len \<le> 2147483648"
  shows "(\<exists>fs' gap. tmpfs_write now (Some j) h bs fs = Done (int (length bs), fs') \<and> handles fs' h = \<lparr>f_node = a, f_off = off + length bs\<rparr> \<and>
      data_ok fs' a \<and> length gap = off - length (file_bytes fs a) \<and>
      file_bytes fs' a = take off (file_bytes fs a @ gap) @ bs @ drop (off + length bs) (file_bytes fs a) \<and>
      (\<forall>b. b \<noteq> a \<longrightarrow> nodes fs' b = nodes fs b)) \<and>
    (let r = take count (drop off (file_bytes fs a)) in
      tmpfs_read h count fs = Done (int (length r), r, upd_handle h (\<lambda>f. f\<lparr>f_off := off + length r\<rparr>) fs)) \<and>
    (\<exists>fs'. tmpfs_truncate now (Some j) h len fs = Done (0, fs') \<and> data_ok fs' a \<and> handles fs' = handles fs \<and>
      file_bytes fs' a = take len (file_bytes fs a) @ replicate (len - length (file_bytes fs a)) 0 \<and>
      (\<forall>b. b \<noteq> a \<longrightarrow> nodes fs' b = nodes fs b))"
  using tmpfs_write_ok [OF assms(1-6) refl, of now j] tmpfs_read_ok [OF assms(1-4,7)] tmpfs_truncate_ok [OF assms(1-3,8) refl, of now j]
  unfolding Let_def by blast

text \<open>
  what has been written is read back: a write, a seek to where it began and a read of the same length return
  the bytes written.
\<close>

theorem tmpfs_write_read:
  assumes "reg_handle fs h" "data_ok fs (f_node (handles fs h))" "off = f_off (handles fs h)" "bs \<noteq> []" "off + length bs < 2147483648"
  shows "\<exists>fs1 fs2 fs3. tmpfs_write now (Some j) h bs fs = Done (int (length bs), fs1) \<and>
    tmpfs_seek h (int off) 0 fs1 = ((0, off), fs2) \<and> tmpfs_read h (length bs) fs2 = Done (int (length bs), bs, fs3)"
proof -
  obtain fs1 gap where w: "tmpfs_write now (Some j) h bs fs = Done (int (length bs), fs1)" "handles fs1 h = \<lparr>f_node = f_node (handles fs h), f_off = off + length bs\<rparr>"
      "data_ok fs1 (f_node (handles fs h))" "length gap = off - length (file_bytes fs (f_node (handles fs h)))" "reg_handle fs1 h"
      "file_bytes fs1 (f_node (handles fs h)) = take off (file_bytes fs (f_node (handles fs h)) @ gap) @ bs @ drop (off + length bs) (file_bytes fs (f_node (handles fs h)))"
    using tmpfs_write_ok [OF assms(1) refl assms(2-5) refl, of now j] by blast
  let ?fs2 = "upd_handle h (\<lambda>f. f\<lparr>f_off := off\<rparr>) fs1"
  have s: "tmpfs_seek h (int off) 0 fs1 = ((0, off), ?fs2)" using w(5) by (simp add: tmpfs_seek_def reg_handle_def Let_def)
  have h2: "reg_handle ?fs2 h" "f_node (handles ?fs2 h) = f_node (handles fs h)" "off = f_off (handles ?fs2 h)"
    "data_ok ?fs2 (f_node (handles fs h))" "file_bytes ?fs2 (f_node (handles fs h)) = file_bytes fs1 (f_node (handles fs h))"
    using w by (simp_all add: reg_handle_def data_ok_def file_bytes_def)
  have "length (take off (file_bytes fs (f_node (handles fs h)) @ gap)) = off" using w(4) by simp
  then have "take (length bs) (drop off (file_bytes fs1 (f_node (handles fs h)))) = bs" unfolding w(6) by simp
  then show ?thesis
    using w(1) s tmpfs_read_ok [OF h2(1) h2(2) [symmetric] h2(4,3) assms(5)] unfolding h2(5) by auto
qed

text \<open>
  C18: truncating a file to more than two gigabytes never returns: the capacity doubles until it wraps to zero and stays
  zero. Up to two gigabytes the loop ends.
\<close>

theorem tmpfs_truncate_hangs:
  assumes "reg_handle fs h" "data_ok fs (f_node (handles fs h))"
  shows "tmpfs_truncate now junk h len fs = Hangs \<longleftrightarrow> 2147483648 < len"
proof -
  let ?a = "f_node (handles fs h)" and ?n = "nodes fs (f_node (handles fs h))"
  have h: "h \<noteq> 0" "?a \<noteq> 0" "n_type ?n = DT_REG" using assms(1) by (simp_all add: reg_handle_def)
  have b: "buffer_size (if n_cap ?n \<noteq> 0 then n_cap ?n else 64)" "n_cap ?n \<le> 2147483648"
    using assms(2) buffer_size_bounds [of "n_cap ?n"] by (auto simp: data_ok_def Let_def buffer_size_def intro: exI [of _ "0::nat"])
  show ?thesis
  proof (cases "2147483648 < len")
    case True
    then have "grow (if n_cap ?n \<noteq> 0 then n_cap ?n else 64) len = None"
      using grow_bounded [of "if n_cap ?n \<noteq> 0 then n_cap ?n else 64" len] b(1) by fastforce
    moreover have "n_size ?n < len" using assms(2) b(2) True by (simp add: data_ok_def Let_def)
    ultimately show ?thesis using True h b(2) by (simp add: tmpfs_truncate_def node_reserve_def Let_def)
  next
    case False
    then obtain m where "grow (if n_cap ?n \<noteq> 0 then n_cap ?n else 64) len = Some m" using grow_ends [OF b(1), of len] by auto
    then have "node_reserve junk ?a len fs \<noteq> None" by (auto simp: node_reserve_def Let_def split: option.splits)
    then show ?thesis using False by (auto simp: tmpfs_truncate_def Let_def split: option.splits)
  qed
qed

end
