(* ===== verification/Tmpfs_Tree.thy ===== *)
theory Tmpfs_Tree
  imports Tmpfs_Data
begin

text \<open>
  Names and life time in \<open>Tmpfs\<close>: the scanning loops walk over the components of a path; the nodes form a tree
  whose links and handles are counted, under every operation.
\<close>

section \<open>Paths\<close>

fun walk :: "tmpfs \<Rightarrow> nat \<Rightarrow> string list \<Rightarrow> nat option" where
  "walk fs cur [] = Some cur"
| "walk fs cur (c # cs) =
     (if length c \<ge> 64 then None else case lookup_child fs cur c of None \<Rightarrow> None | Some n \<Rightarrow> walk fs n cs)"

lemma components_slash [simp]: "components (slash # p) = components p"
  by simp

lemma components_skip: "components (skip_slashes p) = components p"
  by (induction p) auto

lemma components_first: "word_of_path p \<noteq> [] \<Longrightarrow> components p = word_of_path p # components (skip_slashes (dropWhile (\<lambda>c. c \<noteq> slash) p))"
  by (cases p) (auto simp: components_skip split: if_splits)

lemma components_rest: "p \<noteq> [] \<Longrightarrow> word_of_path p = [] \<Longrightarrow> components (tl p) = components p"
  by (cases p) (auto split: if_splits)

lemma components_Nil: "components p = [] \<longleftrightarrow> skip_slashes p = []"
proof (induction p)
  case (Cons c p)
  then show ?case by (cases "c = slash") simp_all
qed simp

lemma lookup_loop_walk: "lookup_loop fs cur p = walk fs cur (components p)"
proof (induction fs cur p rule: lookup_loop.induct)
  case (1 fs cur p)
  show ?case
  proof (cases "p = []")
    case True
    then show ?thesis by (subst lookup_loop.simps) simp
  next
    case ne: False
    show ?thesis
    proof (cases "word_of_path p = []")
      case True
      then show ?thesis using "1.IH"(1) [OF ne True] components_rest [OF ne True] ne by (subst lookup_loop.simps) simp
    next
      case False
      show ?thesis
        using "1.IH"(2) [OF ne False] ne False
        by (subst lookup_loop.simps) (auto simp: components_first [OF False] split: option.splits)
    qed
  qed
qed

lemma lookup_walk: "root \<noteq> 0 \<Longrightarrow> lookup fs root path = walk fs root (components path)"
  by (simp add: lookup_def lookup_loop_walk components_skip)

lemma walk_append: "walk fs cur (xs @ ys) = (case walk fs cur xs of None \<Rightarrow> None | Some n \<Rightarrow> walk fs n ys)"
  by (induction xs arbitrary: cur) (auto split: option.splits)

lemma if_chain: "(if A then None else if B then Some x else y) = Some z \<Longrightarrow> \<not> A \<and> (B \<longrightarrow> x = z) \<and> (\<not> B \<longrightarrow> y = Some z)"
  by (auto split: if_splits)

text \<open>The parent is reached over all components but the last, each of them a directory.\<close>

lemma parent_loop_walk:
  "lookup_parent_loop fs cur p = Some (d, leaf) \<Longrightarrow> is_dir fs cur \<Longrightarrow>
   \<exists>cs. components p = cs @ [leaf] \<and> walk fs cur cs = Some d \<and> length leaf < 64 \<and> is_dir fs d"
proof (induction fs cur p rule: lookup_parent_loop.induct)
  case (1 fs cur p)
  note run = "1.prems"(1) [unfolded lookup_parent_loop.simps [of fs cur p]]
  have ne: "p \<noteq> []" using run by auto
  show ?case
  proof (cases "word_of_path p = []")
    case True
    then show ?thesis
      using "1.IH"(1) [OF ne True _ "1.prems"(2)] run True ne components_rest [OF ne True] by simp
  next
    case False
    let ?w = "word_of_path p" and ?after = "skip_slashes (dropWhile (\<lambda>c. c \<noteq> slash) p)"
    note r = if_chain [OF run [unfolded if_not_P [OF ne] if_not_P [OF False] Let_def]]
    have len: "length ?w < 64" using r [THEN conjunct1] by (simp only: not_le)
    show ?thesis
    proof (cases "?after = []")
      case True
      then have "d = cur \<and> leaf = ?w" using r [THEN conjunct2, THEN conjunct1, rule_format, OF True] by (simp only: prod.inject)
      moreover have "components p = [?w]" unfolding components_first [OF False] True components.simps ..
      ultimately have "components p = [] @ [leaf] \<and> walk fs cur [] = Some d \<and> length leaf < 64 \<and> is_dir fs d"
        using len "1.prems"(2) by (simp only: append_Nil walk.simps simp_thms)
      then show ?thesis by blast
    next
      case after: False
      obtain c where c: "lookup_child fs cur ?w = Some c" "is_dir fs c" "lookup_parent_loop fs c ?after = Some (d, leaf)"
        using r [THEN conjunct2, THEN conjunct2, rule_format, OF after] by (auto simp only: split: option.splits if_splits)
      have "\<exists>cs. components ?after = cs @ [leaf] \<and> walk fs c cs = Some d \<and> length leaf < 64 \<and> is_dir fs d"
        by (rule "1.IH"(2) [OF ne False _ refl after c(1,2,3,2)]) (simp only: not_le len)
      then obtain cs where cs: "components ?after = cs @ [leaf]" "walk fs c cs = Some d" "length leaf < 64" "is_dir fs d" by blast
      moreover have "components p = (?w # cs) @ [leaf]" unfolding components_first [OF False] cs(1) by (simp only: append_Cons)
      moreover have "walk fs cur (?w # cs) = Some d" by (simp only: walk.simps c(1) cs(2) option.case if_not_P [OF r [THEN conjunct1]])
      ultimately show ?thesis by blast
    qed
  qed
qed

lemma lookup_parent_walk:
  assumes "lookup_parent fs root path = Some (d, leaf)" "is_dir fs root"
  obtains cs where "root \<noteq> 0" "components path = cs @ [leaf]" "walk fs root cs = Some d" "length leaf < 64" "is_dir fs d"
  using assms parent_loop_walk [of fs root "skip_slashes path" d leaf] by (auto simp: lookup_parent_def components_skip split: if_splits)

section \<open>The tree\<close>

abbreviation up :: "tmpfs \<Rightarrow> nat \<Rightarrow> nat option" where
  "up fs \<equiv> \<lambda>a. n_parent (nodes fs a)"

inductive rooted :: "(nat \<Rightarrow> nat option) \<Rightarrow> nat \<Rightarrow> nat \<Rightarrow> bool" for f :: "nat \<Rightarrow> nat option" and root :: nat where
  rooted_root: "rooted f root root"
| rooted_up: "f a = Some p \<Longrightarrow> rooted f root p \<Longrightarrow> rooted f root a"

definition linked :: "nat \<Rightarrow> tmpfs \<Rightarrow> nat \<Rightarrow> bool" where
  "linked root fs a \<longleftrightarrow> a = root \<or> up fs a \<noteq> None"

definition node_ok :: "nat \<Rightarrow> tmpfs \<Rightarrow> nat \<Rightarrow> bool" where
  "node_ok root fs a \<longleftrightarrow>
     a \<noteq> 0 \<and> distinct (n_kids (nodes fs a)) \<and> (n_kids (nodes fs a) \<noteq> [] \<longrightarrow> is_dir fs a \<and> linked root fs a) \<and>
     (\<forall>c \<in> set (n_kids (nodes fs a)). node_live fs c \<and> up fs c = Some a) \<and>
     (\<forall>p. up fs a = Some p \<longrightarrow> node_live fs p \<and> a \<in> set (n_kids (nodes fs p))) \<and>
     (linked root fs a \<longrightarrow> rooted (up fs) root a)"

definition tree_ok :: "nat \<Rightarrow> tmpfs \<Rightarrow> bool" where
  "tree_ok root fs \<longleftrightarrow> node_live fs root \<and> up fs root = None \<and> is_dir fs root \<and> (\<forall>a. node_live fs a \<longrightarrow> node_ok root fs a)"

definition handle_count :: "tmpfs \<Rightarrow> nat \<Rightarrow> nat" where
  "handle_count fs a = card {h. handle_live fs h \<and> f_node (handles fs h) = a}"

definition refs_ok :: "nat \<Rightarrow> tmpfs \<Rightarrow> bool" where
  "refs_ok root fs \<longleftrightarrow>
     finite {h. handle_live fs h} \<and> (\<forall>h. handle_live fs h \<longrightarrow> h \<noteq> 0 \<and> node_live fs (f_node (handles fs h))) \<and>
     (\<forall>a. node_live fs a \<longrightarrow> n_refs (nodes fs a) = (if linked root fs a then 1 else 0) + int (handle_count fs a) \<and>
        0 < n_refs (nodes fs a))"

definition tmpfs_ok :: "nat \<Rightarrow> tmpfs \<Rightarrow> bool" where
  "tmpfs_ok root fs \<longleftrightarrow> tree_ok root fs \<and> refs_ok root fs"

lemma lookup_child_in:
  assumes "lookup_child fs d name = Some c"
  shows "is_dir fs d \<and> c \<in> set (n_kids (nodes fs d)) \<and> n_name (nodes fs c) = name"
  using assms by (auto simp: lookup_child_def find_Some_iff split: if_splits)

lemma walk_live:
  "tree_ok root fs \<Longrightarrow> node_live fs cur \<Longrightarrow> linked root fs cur \<Longrightarrow> walk fs cur cs = Some a \<Longrightarrow>
   node_live fs a \<and> linked root fs a \<and> (cs \<noteq> [] \<longrightarrow> up fs a \<noteq> None \<and> n_name (nodes fs a) = last cs)"
proof (induction cs arbitrary: cur)
  case (Cons c cs)
  obtain n where n: "lookup_child fs cur c = Some n" "walk fs n cs = Some a" using Cons.prems(4) by (auto split: if_splits option.splits)
  have i: "n \<in> set (n_kids (nodes fs cur))" "n_name (nodes fs n) = c" using lookup_child_in [OF n(1)] by simp_all
  have "node_ok root fs cur" using Cons.prems(1,2) by (simp add: tree_ok_def)
  then have "node_live fs n" "up fs n = Some cur" using i by (auto simp: node_ok_def)
  moreover from this have "linked root fs n" by (simp add: linked_def)
  ultimately show ?case using Cons.IH [OF Cons.prems(1) _ _ n(2)] i(2) n(2) by (cases cs) auto
qed simp

lemma lookup_live:
  assumes "tree_ok root fs" "lookup fs root path = Some a"
  shows "node_live fs a" "linked root fs a" "a \<noteq> root \<Longrightarrow> up fs a \<noteq> None"
proof -
  have r: "root \<noteq> 0" "node_live fs root" "linked root fs root" using assms by (auto simp: lookup_def linked_def tree_ok_def split: if_splits)
  have "node_live fs a \<and> linked root fs a" using walk_live [OF assms(1) r(2,3)] assms(2) lookup_walk [OF r(1)] by metis
  then show "node_live fs a" "linked root fs a" "a \<noteq> root \<Longrightarrow> up fs a \<noteq> None" by (auto simp: linked_def)
qed

lemma lookup_parent_live:
  assumes "tree_ok root fs" "lookup_parent fs root path = Some (d, leaf)"
  shows "node_live fs d" "linked root fs d" "is_dir fs d" "length leaf < 64"
proof -
  have r: "node_live fs root" "linked root fs root" "is_dir fs root" using assms(1) by (simp_all add: tree_ok_def linked_def)
  obtain cs where cs: "walk fs root cs = Some d" "length leaf < 64" "is_dir fs d"
    by (rule lookup_parent_walk [OF assms(2) r(3)]) (rule that)
  then show "node_live fs d" "linked root fs d" "is_dir fs d" "length leaf < 64" using walk_live [OF assms(1) r(1,2) cs(1)] by simp_all
qed

section \<open>Operations on the tree\<close>

lemma tree_ok_cong:
  assumes "\<And>b. n_parent (nodes fs' b) = n_parent (nodes fs b)" "\<And>b. n_kids (nodes fs' b) = n_kids (nodes fs b)"
    "\<And>b. n_type (nodes fs' b) = n_type (nodes fs b)" "node_live fs' = node_live fs"
  shows "tree_ok root fs' \<longleftrightarrow> tree_ok root fs"
  unfolding tree_ok_def node_ok_def linked_def is_dir_def assms ..

lemma refs_ok_cong:
  assumes "\<And>b. linked root fs' b = linked root fs b" "\<And>b. n_refs (nodes fs' b) = n_refs (nodes fs b)"
    "\<And>i. f_node (handles fs' i) = f_node (handles fs i)" "node_live fs' = node_live fs" "handle_live fs' = handle_live fs"
  shows "refs_ok root fs' \<longleftrightarrow> refs_ok root fs"
  unfolding refs_ok_def handle_count_def assms ..

text \<open>Fields that neither tree nor counts depend on.\<close>

lemma upd_node_ok:
  assumes "tmpfs_ok root fs" "\<And>n. n_parent (g n) = n_parent n \<and> n_kids (g n) = n_kids n \<and> n_type (g n) = n_type n \<and> n_refs (g n) = n_refs n"
  shows "tmpfs_ok root (upd_node a g fs)"
proof -
  have "tree_ok root (upd_node a g fs) \<longleftrightarrow> tree_ok root fs" by (rule tree_ok_cong) (use assms(2) in simp_all)
  moreover have "refs_ok root (upd_node a g fs) \<longleftrightarrow> refs_ok root fs" by (rule refs_ok_cong) (use assms(2) in \<open>simp_all add: linked_def\<close>)
  ultimately show ?thesis using assms(1) by (simp only: tmpfs_ok_def)
qed

lemma upd_handle_ok:
  assumes "tmpfs_ok root fs" "\<And>f. f_node (k f) = f_node f"
  shows "tmpfs_ok root (upd_handle h k fs)"
proof -
  have "tree_ok root (upd_handle h k fs) \<longleftrightarrow> tree_ok root fs" by (rule tree_ok_cong) simp_all
  moreover have "refs_ok root (upd_handle h k fs) \<longleftrightarrow> refs_ok root fs" by (rule refs_ok_cong) (use assms(2) in \<open>simp_all add: linked_def\<close>)
  ultimately show ?thesis using assms(1) by (simp only: tmpfs_ok_def)
qed

lemma refs_okD:
  assumes "refs_ok root fs"
  shows "finite {h. handle_live fs h}" "handle_live fs h \<Longrightarrow> h \<noteq> 0 \<and> node_live fs (f_node (handles fs h))"
    "node_live fs a \<Longrightarrow> n_refs (nodes fs a) = (if linked root fs a then 1 else 0) + int (handle_count fs a) \<and> 0 < n_refs (nodes fs a)"
  using assms unfolding refs_ok_def by blast+

text \<open>Opening and closing.\<close>

lemma new_handle_ok:
  assumes "tmpfs_ok root fs" "node_live fs a" "\<not> handle_live fs h" "new_handle h a fs = (r, fs')"
  shows "tmpfs_ok root fs'"
proof (cases "h = 0")
  case True
  then show ?thesis using assms by (simp add: new_handle_def)
next
  case False
  let ?H = "\<lambda>fs b. {i. handle_live fs i \<and> f_node (handles fs i) = b}"
  note R = refs_okD [OF assms(1) [unfolded tmpfs_ok_def, THEN conjunct2]]
  have fs': "fs' = upd_node a (\<lambda>n. n\<lparr>n_refs := n_refs n + 1\<rparr>)
      (fs\<lparr>handles := (handles fs)(h := \<lparr>f_node = a, f_off = 0\<rparr>), handle_live := (handle_live fs)(h := True)\<rparr>)"
    using assms(4) False by (simp add: new_handle_def)
  have H: "?H fs' b = (if b = a then insert h (?H fs b) else ?H fs b)" for b
    using assms(3) by (auto simp: fs')
  have fin: "finite (?H fs b)" for b by (rule finite_subset [OF _ R(1)]) blast
  have "h \<notin> ?H fs b" for b using assms(3) by simp
  then have count: "handle_count fs' b = (if b = a then Suc (handle_count fs b) else handle_count fs b)" for b
    unfolding handle_count_def H using fin by simp
  have "tree_ok root fs' \<longleftrightarrow> tree_ok root fs" by (rule tree_ok_cong) (simp_all add: fs')
  moreover have "refs_ok root fs'"
    unfolding refs_ok_def
  proof (intro conjI allI impI)
    have "{i. handle_live fs' i} = insert h {i. handle_live fs i}" by (auto simp: fs')
    then show "finite {i. handle_live fs' i}" using R(1) by simp
    fix i assume "handle_live fs' i"
    then have "i = h \<or> handle_live fs i \<and> handles fs' i = handles fs i" by (auto simp: fs')
    then show "i \<noteq> 0" "node_live fs' (f_node (handles fs' i))" using R(2) [of i] False assms(2) by (auto simp: fs')
  next
    fix b assume "node_live fs' b"
    then have "node_live fs b" by (simp add: fs')
    note r = R(3) [OF this]
    have n: "n_refs (nodes fs' b) = (if b = a then n_refs (nodes fs b) + 1 else n_refs (nodes fs b))" "linked root fs' b = linked root fs b"
      by (simp_all add: fs' linked_def)
    show "n_refs (nodes fs' b) = (if linked root fs' b then 1 else 0) + int (handle_count fs' b)" "0 < n_refs (nodes fs' b)"
      unfolding n count using r by (cases "b = a"; simp)+
  qed
  ultimately show ?thesis using assms(1) by (simp only: tmpfs_ok_def)
qed

lemma tree_okD:
  assumes "tree_ok root fs"
  shows "node_live fs root" "up fs root = None" "is_dir fs root" "node_live fs a \<Longrightarrow> node_ok root fs a"
  using assms by (simp_all add: tree_ok_def)

lemma node_okD:
  assumes "node_ok root fs a"
  shows "a \<noteq> 0" "distinct (n_kids (nodes fs a))" "n_kids (nodes fs a) \<noteq> [] \<Longrightarrow> is_dir fs a \<and> linked root fs a"
    "c \<in> set (n_kids (nodes fs a)) \<Longrightarrow> node_live fs c \<and> up fs c = Some a"
    "up fs a = Some p \<Longrightarrow> node_live fs p \<and> a \<in> set (n_kids (nodes fs p))" "linked root fs a \<Longrightarrow> rooted (up fs) root a"
  using assms unfolding node_ok_def by blast+

lemma node_free_tree:
  assumes "tree_ok root fs" "node_live fs a" "\<not> linked root fs a"
  shows "tree_ok root (node_free a fs)"
proof -
  note T = tree_okD [OF assms(1)]
  have nk: "n_kids (nodes fs a) = []" using node_okD(3) [OF T(4) [OF assms(2)]] assms(3) by blast
  have "node_ok root (node_free a fs) b" if b: "node_live (node_free a fs) b" for b
  proof -
    have live: "node_live fs b" "b \<noteq> a" using b by (auto simp: node_free_def split: if_splits)
    note N = node_okD [OF T(4) [OF live(1)]]
    have "c \<noteq> a" if "c \<in> set (n_kids (nodes fs b))" for c using N(4) [OF that] assms(3) by (auto simp: linked_def)
    moreover have "p \<noteq> a" if "up fs b = Some p" for p using N(5) [OF that] nk by auto
    ultimately show ?thesis
      using N unfolding node_ok_def by (auto simp: node_free_def linked_def is_dir_def)
  qed
  moreover have "root \<noteq> a" using assms(3) by (auto simp: linked_def)
  ultimately show ?thesis using T(1-3) by (auto simp: tree_ok_def node_free_def is_dir_def)
qed

lemma tmpfs_close_ok:
  assumes "tmpfs_ok root fs" "handle_live fs h"
  shows "tmpfs_ok root (snd (tmpfs_close h fs))"
proof -
  let ?a = "f_node (handles fs h)" and ?H = "\<lambda>fs b. {i. handle_live fs i \<and> f_node (handles fs i) = b}"
  have T: "tree_ok root fs" and R0: "refs_ok root fs" using assms(1) by (simp_all add: tmpfs_ok_def)
  note R = refs_okD [OF R0]
  have ha: "h \<noteq> 0" "node_live fs ?a" using R(2) [OF assms(2)] by simp_all
  have a0: "?a \<noteq> 0" using node_okD(1) [OF tree_okD(4) [OF T ha(2)]] .
  define fs1 where "fs1 = (upd_node ?a (\<lambda>n. n\<lparr>n_refs := n_refs n - 1\<rparr>) fs)\<lparr>handle_live := (handle_live fs)(h := False)\<rparr>"
  define fs' where "fs' = snd (tmpfs_close h fs)"
  have fs': "fs' = (if n_refs (nodes fs ?a) - 1 > 0 then fs1 else node_free ?a fs1)"
    using ha(1) a0 by (simp add: fs'_def fs1_def tmpfs_close_def node_put_def node_free_def Let_def)
  have tree1: "tree_ok root fs1 \<longleftrightarrow> tree_ok root fs" by (rule tree_ok_cong) (simp_all add: fs1_def)
  have H: "?H fs1 b = ?H fs b - {h}" for b by (auto simp: fs1_def)
  have fin: "finite (?H fs b)" for b by (rule finite_subset [OF _ R(1)]) blast
  have count: "handle_count fs1 b = (if b = ?a then handle_count fs b - 1 else handle_count fs b)" for b
    unfolding handle_count_def H using fin [of b] assms(2) by auto
  have pos: "0 < handle_count fs ?a" unfolding handle_count_def using fin [of ?a] assms(2) by (auto simp: card_gt_0_iff)
  have refs1: "n_refs (nodes fs1 b) = (if linked root fs1 b then 1 else 0) + int (handle_count fs1 b)" if "node_live fs b" for b
    using R(3) [OF that] pos by (auto simp: count) (auto simp: fs1_def linked_def)
  have L1: "linked root fs1 b = linked root fs b" for b by (simp add: fs1_def linked_def)
  have tree': "tree_ok root fs'"
  proof (cases "n_refs (nodes fs ?a) - 1 > 0")
    case True
    then show ?thesis using T tree1 fs' by simp
  next
    case False
    then have "\<not> linked root fs1 ?a" using R(3) [OF ha(2)] pos L1 by (auto split: if_splits)
    moreover have "node_live fs1 ?a" using ha(2) by (simp add: fs1_def)
    ultimately show ?thesis using node_free_tree [of root fs1 ?a] T tree1 fs' False by simp
  qed
  have "refs_ok root fs'"
    unfolding refs_ok_def
  proof (intro conjI allI impI)
    have hl: "handle_live fs' = (handle_live fs)(h := False)" "handles fs' = handles fs" by (simp_all add: fs' fs1_def node_free_def)
    have "{i. handle_live fs' i} \<subseteq> {i. handle_live fs i}" using hl by auto
    then show "finite {i. handle_live fs' i}" using R(1) finite_subset by blast
    fix i assume i: "handle_live fs' i"
    then have o: "handle_live fs i" "i \<noteq> h" using hl by (auto split: if_splits)
    show "i \<noteq> 0" using R(2) [OF o(1)] by simp
    show "node_live fs' (f_node (handles fs' i))"
    proof (cases "n_refs (nodes fs ?a) - 1 > 0")
      case True
      then show ?thesis using R(2) [OF o(1)] by (simp add: fs' fs1_def)
    next
      case False
      then have "handle_count fs1 ?a = 0" using R(3) [OF ha(2)] pos by (auto simp: count split: if_splits)
      then have "?H fs1 ?a = {}" unfolding handle_count_def using fin [of ?a] by (simp add: H)
      then have "f_node (handles fs i) \<noteq> ?a" using o by (auto simp: fs1_def)
      then show ?thesis using R(2) [OF o(1)] hl by (auto simp: fs' fs1_def node_free_def)
    qed
  next
    fix b assume b: "node_live fs' b"
    then have live: "node_live fs b" by (auto simp: fs' fs1_def node_free_def split: if_splits)
    have n: "nodes fs' b = nodes fs1 b" "linked root fs' b = linked root fs1 b" "handle_count fs' b = handle_count fs1 b"
      by (auto simp: fs' node_free_def linked_def handle_count_def)
    show "n_refs (nodes fs' b) = (if linked root fs' b then 1 else 0) + int (handle_count fs' b)" unfolding n by (rule refs1 [OF live])
    show "0 < n_refs (nodes fs' b)"
    proof (cases "b = ?a")
      case True
      then show ?thesis using b by (auto simp: fs' fs1_def node_free_def split: if_splits)
    next
      case False
      then show ?thesis using R(3) [OF live] unfolding n by (simp add: fs1_def)
    qed
  qed
  then show ?thesis using tree' by (simp add: tmpfs_ok_def fs'_def)
qed

text \<open>Paths to the root that avoid the changed links.\<close>

lemma rooted_keep:
  assumes "rooted f root b" "P b" "\<And>a p. P a \<Longrightarrow> f a = Some p \<Longrightarrow> P p" "\<And>a. P a \<Longrightarrow> f' a = f a"
  shows "rooted f' root b"
  using assms(1,2)
proof (induction rule: rooted.induct)
  case rooted_root
  show ?case by (rule rooted.rooted_root)
next
  case (rooted_up a p)
  then show ?case using assms(3,4) by (metis rooted.rooted_up)
qed

lemma up_live: "tree_ok root fs \<Longrightarrow> node_live fs a \<Longrightarrow> up fs a = Some p \<Longrightarrow> node_live fs p"
  using node_okD(5) [OF tree_okD(4)] by blast

text \<open>Creating.\<close>

lemma create_leaf_ok:
  assumes "tmpfs_ok root fs" "\<not> node_live fs a" "create_leaf now path ty a root fs = (r, fs')"
  shows "tmpfs_ok root fs'" "r = None \<longrightarrow> fs' = fs" "r = Some n \<longrightarrow> n = a \<and> node_live fs' a \<and> n_type (nodes fs' a) = ty"
    "handle_live fs' = handle_live fs"
proof -
  have "tmpfs_ok root fs' \<and> (r = None \<longrightarrow> fs' = fs) \<and> (r = Some n \<longrightarrow> n = a \<and> node_live fs' a \<and> n_type (nodes fs' a) = ty) \<and> handle_live fs' = handle_live fs"
  proof (cases "lookup_parent fs root path")
    case None
    then show ?thesis using assms by (simp add: create_leaf_def)
  next
    case (Some x)
    obtain p leaf where x: "x = (p, leaf)" by fastforce
    have T: "tree_ok root fs" and R0: "refs_ok root fs" using assms(1) by (simp_all add: tmpfs_ok_def)
    note P = lookup_parent_live [OF T Some [unfolded x]] and R = refs_okD [OF R0]
    show ?thesis
    proof (cases "a = 0")
      case True
      then show ?thesis using assms Some x by (simp add: create_leaf_def node_alloc_def)
    next
      case False
      have pa: "p \<noteq> a" using P(1) assms(2) by auto
      let ?new = "\<lparr>n_name = leaf, n_type = ty, n_ino = next_inode fs, n_size = 0, n_mtime = now,
               n_data = [], n_cap = 0, n_refs = 1, n_parent = Some p, n_kids = []\<rparr>"
      have "r = Some a" and fs': "fs' = fs\<lparr>node_live := (node_live fs)(a := True), next_inode := w32 (next_inode fs + 1),
          nodes := (nodes fs)(a := ?new, p := (nodes fs p)\<lparr>n_kids := n_kids (nodes fs p) @ [a]\<rparr>)\<rparr>"
        using assms(3) Some x False P(4) pa by (auto simp: create_leaf_def node_alloc_def list_add_tail_def upd_node_def)
      have live': "node_live fs' b \<longleftrightarrow> b = a \<or> node_live fs b" for b by (simp add: fs')
      have kids: "n_kids (nodes fs' b) = (if b = a then [] else if b = p then n_kids (nodes fs b) @ [a] else n_kids (nodes fs b))" for b
        using pa by (simp add: fs')
      have upb: "up fs' b = (if b = a then Some p else up fs b)" for b using pa by (simp add: fs')
      have dir: "is_dir fs' b = (if b = a then ty = DT_DIR else is_dir fs b)" for b using pa by (simp add: fs' is_dir_def)
      have lk: "linked root fs' b = (if b = a then True else linked root fs b)" for b by (simp add: linked_def upb)
      have rt: "rooted (up fs') root b" if "node_live fs b" "linked root fs b" for b
      proof (rule rooted_keep [where P = "node_live fs"])
        show "rooted (up fs) root b" using node_okD(6) [OF tree_okD(4) [OF T that(1)] that(2)] .
      qed (use that(1) up_live [OF T] assms(2) upb in auto)
      have fresh: "a \<notin> set (n_kids (nodes fs b))" if "node_live fs b" for b
        using node_okD(4) [OF tree_okD(4) [OF T that]] assms(2) by blast
      have rt_a: "rooted (up fs') root a" by (rule rooted_up [OF _ rt [OF P(1,2)]]) (simp add: upb)
      have "node_ok root fs' b" if "node_live fs' b" for b
      proof (cases "b = a")
        case True
        then show ?thesis using False rt_a P(1) pa by (auto simp: node_ok_def kids upb live')
      next
        case b: False
        then have lb: "node_live fs b" using that live' by simp
        note N = node_okD [OF tree_okD(4) [OF T lb]]
        show ?thesis
          unfolding node_ok_def
        proof (intro conjI impI ballI allI)
          show "b \<noteq> 0" by (rule N(1))
          show "distinct (n_kids (nodes fs' b))" using N(2) fresh [OF lb] b by (cases "b = p") (simp_all add: kids)
          show "is_dir fs' b" "linked root fs' b" if "n_kids (nodes fs' b) \<noteq> []"
            using that b N(3) P(2,3) by (auto simp: kids dir lk split: if_splits)
          show "node_live fs' c" "up fs' c = Some b" if "c \<in> set (n_kids (nodes fs' b))" for c
            using that b N(4) assms(2) by (auto simp: kids live' upb split: if_splits)
          show "node_live fs' q" "b \<in> set (n_kids (nodes fs' q))" if "up fs' b = Some q" for q
            using that b N(5) assms(2) by (auto simp: kids live' upb)
          show "rooted (up fs') root b" if "linked root fs' b" using that b rt [OF lb] by (simp add: lk)
        qed
      qed
      moreover have "root \<noteq> a" using tree_okD(1) [OF T] assms(2) by auto
      ultimately have "tree_ok root fs'" using tree_okD(1-3) [OF T] by (simp add: tree_ok_def live' upb dir)
      moreover have "refs_ok root fs'"
      proof -
        have hs: "handle_live fs' = handle_live fs" "handles fs' = handles fs" by (simp_all add: fs')
        have hc: "handle_count fs' b = handle_count fs b" for b by (simp add: handle_count_def hs)
        have "{h. handle_live fs h \<and> f_node (handles fs h) = a} = {}" using R(2) assms(2) by auto
        then have "handle_count fs a = 0" unfolding handle_count_def by (simp only: card.empty)
        moreover have "n_refs (nodes fs' b) = (if b = a then 1 else n_refs (nodes fs b))" for b using pa by (simp add: fs')
        moreover have "n_refs (nodes fs b) = (if linked root fs b then 1 else 0) + int (handle_count fs b)" "0 < n_refs (nodes fs b)" if "node_live fs b" for b
          using R(3) [OF that] by blast+
        ultimately show ?thesis
          using R(1,2) unfolding refs_ok_def hs hc lk live' by simp
      qed
      ultimately show ?thesis using \<open>r = Some a\<close> pa by (simp add: tmpfs_ok_def) (simp add: fs')
    qed
  qed
  then show "tmpfs_ok root fs'" "r = None \<longrightarrow> fs' = fs" "r = Some n \<longrightarrow> n = a \<and> node_live fs' a \<and> n_type (nodes fs' a) = ty"
    "handle_live fs' = handle_live fs" by blast+
qed

text \<open>Taking a node off the tree.\<close>

lemma unlink_node_ok:
  assumes "tmpfs_ok root fs" "node_live fs n" "up fs n = Some p" "n_kids (nodes fs n) = []"
  shows "tmpfs_ok root (unlink_node n fs)" "handle_live (unlink_node n fs) = handle_live fs"
    "node_live (unlink_node n fs) = (node_live fs)(n := 0 < handle_count fs n)"
proof -
  have T: "tree_ok root fs" and R0: "refs_ok root fs" using assms(1) by (simp_all add: tmpfs_ok_def)
  note R = refs_okD [OF R0] and N = node_okD [OF tree_okD(4) [OF T assms(2)]]
  have p: "node_live fs p" "n \<in> set (n_kids (nodes fs p))" using N(5) [OF assms(3)] by simp_all
  have pn: "p \<noteq> n" using p(2) assms(4) by auto
  have rn: "n \<noteq> root" using assms(3) tree_okD(2) [OF T] by auto
  have n0: "n \<noteq> 0" by (rule N(1))
  define fs2 where "fs2 = upd_node n (\<lambda>t. t\<lparr>n_parent := None\<rparr>) (list_del n fs)"
  have live2: "node_live fs2 = node_live fs" and hs2: "handle_live fs2 = handle_live fs" "handles fs2 = handles fs"
    using assms(3) by (simp_all add: fs2_def list_del_def)
  have kids: "n_kids (nodes fs2 b) = (if b = p then remove1 n (n_kids (nodes fs b)) else n_kids (nodes fs b))" for b
    using assms(3) pn by (simp add: fs2_def list_del_def)
  have upb: "up fs2 b = (if b = n then None else up fs b)" for b using assms(3) pn by (simp add: fs2_def list_del_def)
  have dir: "is_dir fs2 b = is_dir fs b" for b using assms(3) pn by (simp add: fs2_def list_del_def is_dir_def)
  have lk: "linked root fs2 b = (b \<noteq> n \<and> linked root fs b)" for b using rn by (simp add: linked_def upb)
  have lkn: "linked root fs n" using assms(3) by (simp add: linked_def)
  have rt: "rooted (up fs2) root b" if "node_live fs b" "linked root fs b" "b \<noteq> n" for b
  proof (rule rooted_keep [where P = "\<lambda>b. node_live fs b \<and> b \<noteq> n"])
    show "rooted (up fs) root b" using node_okD(6) [OF tree_okD(4) [OF T that(1)] that(2)] .
    show "node_live fs q \<and> q \<noteq> n" if "node_live fs a \<and> a \<noteq> n" "up fs a = Some q" for a q
      using node_okD(5) [OF tree_okD(4) [OF T]] that assms(4) by fastforce
  qed (use that upb in auto)
  have "node_ok root fs2 b" if b: "node_live fs b" for b
  proof -
    note B = node_okD [OF tree_okD(4) [OF T b]]
    have sub: "set (n_kids (nodes fs2 b)) = (if b = p then set (n_kids (nodes fs b)) - {n} else set (n_kids (nodes fs b)))"
      using B(2) by (cases "b = p") (simp_all add: kids set_remove1_eq)
    have nin: "n \<notin> set (n_kids (nodes fs b))" if "b \<noteq> p" using B(4) [of n] assms(3) that by auto
    show ?thesis
      unfolding node_ok_def
    proof (intro conjI impI ballI allI)
      show "b \<noteq> 0" by (rule B(1))
      show "distinct (n_kids (nodes fs2 b))" using B(2) by (cases "b = p") (simp_all add: kids)
      show "is_dir fs2 b" "linked root fs2 b" if "n_kids (nodes fs2 b) \<noteq> []"
      proof -
        have "n_kids (nodes fs b) \<noteq> []" using that by (auto simp: kids split: if_splits)
        then show "is_dir fs2 b" "linked root fs2 b" using B(3) assms(4) by (auto simp: dir lk)
      qed
      show "node_live fs2 c" "up fs2 c = Some b" if "c \<in> set (n_kids (nodes fs2 b))" for c
        using that B(4) nin by (auto simp: sub live2 upb split: if_splits)
      show "node_live fs2 q" "b \<in> set (n_kids (nodes fs2 q))" if "up fs2 b = Some q" for q
        using that B(5) by (auto simp: live2 upb kids split: if_splits)
      show "rooted (up fs2) root b" if "linked root fs2 b" using that rt [OF b] by (simp add: lk)
    qed
  qed
  then have tree2: "tree_ok root fs2" using tree_okD(1-3) [OF T] by (simp add: tree_ok_def live2 upb dir)
  define fs3 where "fs3 = upd_node n (\<lambda>t. t\<lparr>n_refs := n_refs t - 1\<rparr>) fs2"
  have tree3: "tree_ok root fs3 \<longleftrightarrow> tree_ok root fs2" by (rule tree_ok_cong) (simp_all add: fs3_def)
  have refs: "n_refs (nodes fs3 b) = (if b = n then n_refs (nodes fs b) - 1 else n_refs (nodes fs b))" for b
    using assms(3) pn by (simp add: fs3_def fs2_def list_del_def)
  have rc: "n_refs (nodes fs3 n) = int (handle_count fs n)" using R(3) [OF assms(2)] lkn by (simp add: refs)
  have un: "unlink_node n fs = (if 0 < handle_count fs n then fs3 else node_free n fs3)"
    using n0 rc by (simp add: unlink_node_def fs2_def [symmetric] node_put_def fs3_def [symmetric] Let_def)
  have hs3: "handle_live fs3 = handle_live fs" "handles fs3 = handles fs" "node_live fs3 = node_live fs"
    by (simp_all add: fs3_def hs2 live2)
  show hl: "handle_live (unlink_node n fs) = handle_live fs" by (simp add: un node_free_def hs3)
  show nl: "node_live (unlink_node n fs) = (node_live fs)(n := 0 < handle_count fs n)"
    using assms(2) by (auto simp: un node_free_def hs3 fun_eq_iff)
  have lk3: "linked root fs3 b = (b \<noteq> n \<and> linked root fs b)" for b
  proof -
    have "up fs3 b = up fs2 b" by (simp add: fs3_def)
    then show ?thesis using lk [of b] by (simp only: linked_def)
  qed
  have "tree_ok root (unlink_node n fs)"
  proof (cases "0 < handle_count fs n")
    case True
    then show ?thesis using tree2 tree3 un by simp
  next
    case False
    then show ?thesis using node_free_tree [of root fs3 n] tree2 tree3 un assms(2) lk3 hs3 by simp
  qed
  moreover have "refs_ok root (unlink_node n fs)"
    unfolding refs_ok_def
  proof (intro conjI allI impI)
    have h: "handles (unlink_node n fs) = handles fs" by (simp add: un node_free_def hs3)
    have hc: "handle_count (unlink_node n fs) b = handle_count fs b" for b unfolding handle_count_def hl h ..
    show "finite {h. handle_live (unlink_node n fs) h}" using R(1) by (simp add: hl)
    fix i assume "handle_live (unlink_node n fs) i"
    then have i: "handle_live fs i" by (simp add: hl)
    show "i \<noteq> 0" using R(2) [OF i] by simp
    have "0 < handle_count fs (f_node (handles fs i))"
      unfolding handle_count_def using i finite_subset [OF _ R(1)] by (auto simp: card_gt_0_iff)
    then show "node_live (unlink_node n fs) (f_node (handles (unlink_node n fs) i))" using R(2) [OF i] by (cases "f_node (handles fs i) = n") (simp_all add: h nl)
  next
    fix b assume b: "node_live (unlink_node n fs) b"
    then have live: "node_live fs b" "b = n \<longrightarrow> 0 < handle_count fs n" using assms(2) by (auto simp: nl split: if_splits)
    have x: "n_refs (nodes (unlink_node n fs) b) = n_refs (nodes fs3 b)" "linked root (unlink_node n fs) b = linked root fs3 b"
      by (simp_all add: un node_free_def linked_def)
    have hc: "handle_count (unlink_node n fs) b = handle_count fs b" by (simp add: handle_count_def hl un node_free_def hs3)
    show "n_refs (nodes (unlink_node n fs) b) = (if linked root (unlink_node n fs) b then 1 else 0) + int (handle_count (unlink_node n fs) b)"
      using R(3) [OF live(1)] lkn unfolding x hc refs lk3 by auto
    show "0 < n_refs (nodes (unlink_node n fs) b)" using R(3) [OF live(1)] live(2) rc unfolding x by (cases "b = n") (simp_all add: refs)
  qed
  ultimately show "tmpfs_ok root (unlink_node n fs)" by (simp add: tmpfs_ok_def)
qed

text \<open>The walk to the root, and moving a node.\<close>

lemma walk_meets_ends: "rooted (up fs) root w \<Longrightarrow> up fs root = None \<Longrightarrow> \<exists>b. walk_meets fs n w = Some b"
proof (induction rule: rooted.induct)
  case rooted_root
  then have "walk_meets fs n root = Some (root = n)" by (subst walk_meets.simps) simp
  then show ?case ..
next
  case (rooted_up a p)
  then obtain b where "walk_meets fs n p = Some b" by blast
  then have "walk_meets fs n a = Some (a = n \<or> b)" using rooted_up.hyps(1) by (subst walk_meets.simps) simp
  then show ?case ..
qed

lemma rooted_no_loop: "rooted f root a \<Longrightarrow> f a = Some a \<Longrightarrow> f root = Some root"
  by (induction rule: rooted.induct) auto

lemma walk_meets_no_dir:
  assumes "tree_ok root fs" "\<not> is_dir fs n" "rooted (up fs) root w" "node_live fs w" "is_dir fs w"
  shows "walk_meets fs n w = Some False"
  using assms(3-5)
proof (induction rule: rooted.induct)
  case rooted_root
  then show ?case using tree_okD(2) [OF assms(1)] assms(2) by (subst walk_meets.simps) auto
next
  case (rooted_up a p)
  note A = node_okD [OF tree_okD(4) [OF assms(1) rooted_up.prems(1)]]
  have p: "node_live fs p" "a \<in> set (n_kids (nodes fs p))" using A(5) [OF rooted_up.hyps(1)] by simp_all
  then have "is_dir fs p" using node_okD(3) [OF tree_okD(4) [OF assms(1) p(1)]] by (metis empty_iff list.set(1))
  then show ?case using rooted_up p(1) assms(2) by (subst walk_meets.simps) auto
qed

lemma move_node_ok:
  assumes "tmpfs_ok root fs" "node_live fs n" "n \<noteq> root" "linked root fs n" "node_live fs p" "linked root fs p" "is_dir fs p"
    "walk_meets fs n p = Some False"
  shows "tmpfs_ok root (move_node n p leaf fs)" "handle_live (move_node n p leaf fs) = handle_live fs"
proof -
  have T: "tree_ok root fs" and R0: "refs_ok root fs" using assms(1) by (simp_all add: tmpfs_ok_def)
  note N = node_okD [OF tree_okD(4) [OF T assms(2)]]
  obtain q where q: "up fs n = Some q" using assms(3,4) by (auto simp: linked_def)
  have ql: "node_live fs q" "n \<in> set (n_kids (nodes fs q))" using N(5) [OF q] by simp_all
  have pn: "p \<noteq> n" using assms(8) by (subst (asm) walk_meets.simps) (auto split: if_splits)
  have qn: "q \<noteq> n" using rooted_no_loop [OF N(6) [OF assms(4)]] q tree_okD(2) [OF T] by auto
  define fs' where "fs' = move_node n p leaf fs"
  have kids: "n_kids (nodes fs' b) = (let k = (if b = q then remove1 n (n_kids (nodes fs b)) else n_kids (nodes fs b)) in if b = p then k @ [n] else k)" for b
    using q pn qn by (simp add: fs'_def move_node_def list_del_def list_add_tail_def)
  have upb: "up fs' b = (if b = n then Some p else up fs b)" for b
    using q pn qn by (simp add: fs'_def move_node_def list_del_def list_add_tail_def)
  have live: "node_live fs' = node_live fs" and hs: "handle_live fs' = handle_live fs" "handles fs' = handles fs"
    using q by (simp_all add: fs'_def move_node_def list_del_def list_add_tail_def)
  have dir: "is_dir fs' b = is_dir fs b" and refs: "n_refs (nodes fs' b) = n_refs (nodes fs b)" for b
    using q pn qn by (simp_all add: fs'_def move_node_def list_del_def list_add_tail_def is_dir_def)
  have lk: "linked root fs' b = linked root fs b" for b using q by (simp add: linked_def upb)
  have rt_p: "rooted (up fs') root p"
  proof (rule rooted_keep [where P = "\<lambda>w. walk_meets fs n w = Some False"])
    show "rooted (up fs) root p" using node_okD(6) [OF tree_okD(4) [OF T assms(5)] assms(6)] .
    show "walk_meets fs n p = Some False" by (rule assms(8))
    show "walk_meets fs n r = Some False" if "walk_meets fs n a = Some False" "up fs a = Some r" for a r
      using that by (subst (asm) walk_meets.simps) (auto split: if_splits)
    show "up fs' a = up fs a" if "walk_meets fs n a = Some False" for a
      using that by (subst (asm) walk_meets.simps) (auto simp: upb split: if_splits)
  qed
  have rt_n: "rooted (up fs') root n" by (rule rooted_up [OF _ rt_p]) (simp add: upb)
  have rt: "rooted (up fs) root b \<Longrightarrow> rooted (up fs') root b" for b
  proof (induction rule: rooted.induct)
    case rooted_root
    show ?case by (rule rooted.rooted_root)
  next
    case (rooted_up a r)
    show ?case
    proof (cases "a = n")
      case True
      then show ?thesis using rt_n by simp
    next
      case False
      then have "up fs' a = Some r" using rooted_up.hyps(1) by (simp add: upb)
      then show ?thesis using rooted_up.IH by (rule rooted.rooted_up)
    qed
  qed
  have "node_ok root fs' b" if b: "node_live fs b" for b
  proof -
    note B = node_okD [OF tree_okD(4) [OF T b]]
    have nin: "n \<in> set (n_kids (nodes fs b)) \<longleftrightarrow> b = q" using B(4) [of n] q ql(2) by auto
    have sub: "set (n_kids (nodes fs' b)) = set (n_kids (nodes fs b)) - {n} \<union> (if b = p then {n} else {})"
    proof (cases "b = q")
      case True
      then show ?thesis using B(2) by (auto simp: kids Let_def set_remove1_eq)
    next
      case False
      then show ?thesis using nin by (auto simp: kids Let_def)
    qed
    have "distinct (n_kids (nodes fs' b))"
    proof (cases "b = q")
      case True
      then show ?thesis using B(2) by (cases "q = p") (simp_all add: kids Let_def set_remove1_eq distinct_remove1)
    next
      case False
      then show ?thesis using B(2) nin by (cases "b = p") (simp_all add: kids Let_def)
    qed
    moreover have "is_dir fs' b \<and> linked root fs' b" if "n_kids (nodes fs' b) \<noteq> []"
    proof (cases "b = p")
      case True
      then show ?thesis using assms(6,7) by (simp add: dir lk)
    next
      case False
      then have "n_kids (nodes fs b) \<noteq> []" using that by (auto simp: kids Let_def split: if_splits)
      then show ?thesis using B(3) by (simp add: dir lk)
    qed
    moreover have "node_live fs' c \<and> up fs' c = Some b" if "c \<in> set (n_kids (nodes fs' b))" for c
      using that B(4) assms(2) by (auto simp: sub live upb split: if_splits)
    moreover have "node_live fs' r \<and> b \<in> set (n_kids (nodes fs' r))" if r: "up fs' b = Some r" for r
    proof (cases "b = n")
      case True
      then have "r = p" using r by (simp add: upb)
      then show ?thesis using True assms(5) by (simp add: live kids Let_def)
    next
      case False
      then have "up fs b = Some r" using r by (simp add: upb)
      then show ?thesis using B(5) False by (auto simp: live kids Let_def)
    qed
    moreover have "rooted (up fs') root b" if "linked root fs' b" using rt B(6) that by (simp add: lk)
    ultimately show ?thesis using B(1) unfolding node_ok_def by blast
  qed
  then have "tree_ok root fs'" using tree_okD(1-3) [OF T] assms(3) by (simp add: tree_ok_def live upb dir)
  moreover have "refs_ok root fs' \<longleftrightarrow> refs_ok root fs" by (rule refs_ok_cong) (simp_all add: lk refs live hs)
  ultimately show "tmpfs_ok root (move_node n p leaf fs)" using R0 by (simp add: tmpfs_ok_def fs'_def)
  show "handle_live (move_node n p leaf fs) = handle_live fs" using hs(1) by (simp add: fs'_def)
qed

section \<open>Steps\<close>

text \<open>
  The calls of the virtual file system that change a mounted tmpfs, with fresh addresses from the allocator and the
  handles it holds. A read, write or truncation that hangs, or runs over its buffer, has no state after it.
\<close>

inductive tmpfs_step :: "nat \<Rightarrow> tmpfs \<Rightarrow> tmpfs \<Rightarrow> bool" for root :: nat where
  step_open: "\<lbrakk>\<not> node_live fs a; \<not> handle_live fs h; tmpfs_open now root path fl a h fs = (r, fs')\<rbrakk> \<Longrightarrow> tmpfs_step root fs fs'"
| step_close: "\<lbrakk>handle_live fs h; tmpfs_close h fs = (r, fs')\<rbrakk> \<Longrightarrow> tmpfs_step root fs fs'"
| step_read: "tmpfs_read h count fs = Done (r, bs, fs') \<Longrightarrow> tmpfs_step root fs fs'"
| step_write: "tmpfs_write now junk h bs fs = Done (r, fs') \<Longrightarrow> tmpfs_step root fs fs'"
| step_truncate: "tmpfs_truncate now junk h len fs = Done (r, fs') \<Longrightarrow> tmpfs_step root fs fs'"
| step_seek: "tmpfs_seek h off wh fs = (r, fs') \<Longrightarrow> tmpfs_step root fs fs'"
| step_readdir: "tmpfs_readdir h fs = (r, e, fs') \<Longrightarrow> tmpfs_step root fs fs'"
| step_mkdir: "\<lbrakk>\<not> node_live fs a; tmpfs_mkdir now root path a fs = (r, fs')\<rbrakk> \<Longrightarrow> tmpfs_step root fs fs'"
| step_rmdir: "tmpfs_rmdir root path fs = (r, fs') \<Longrightarrow> tmpfs_step root fs fs'"
| step_unlink: "tmpfs_unlink root path fs = (r, fs') \<Longrightarrow> tmpfs_step root fs fs'"
| step_rename: "tmpfs_rename root old new fs = Some (r, fs') \<Longrightarrow> tmpfs_step root fs fs'"
| step_utime: "tmpfs_utime root path at mt fs = (r, fs') \<Longrightarrow> tmpfs_step root fs fs'"
| step_unmount: "tmpfs_unmount root fs = Some (r, fs') \<Longrightarrow> tmpfs_step root fs fs'"

inductive_cases tmpfs_stepE: "tmpfs_step root fs fs'"

text \<open>The steps that free the root: unmounting, and a removal of the mount point, which the code does not refuse.\<close>

definition root_freed :: "nat \<Rightarrow> tmpfs \<Rightarrow> tmpfs \<Rightarrow> bool" where
  "root_freed root fs fs' \<longleftrightarrow> (\<exists>r. tmpfs_unmount root fs = Some (r, fs')) \<or>
     (\<exists>path. lookup fs root path = Some root \<and> tmpfs_rmdir root path fs = (0, fs'))"

lemma open_node_ok:
  assumes "tmpfs_ok root fs" "node_live fs n" "\<not> handle_live fs h" "open_node fl h n fs = (r, fs')"
  shows "tmpfs_ok root fs'"
proof (cases "(fl AND O_DIRECTORY \<noteq> 0 \<and> \<not> is_dir fs n) \<or> (fl AND O_DIRECTORY = 0 \<and> is_dir fs n)")
  case True
  then show ?thesis using assms by (auto simp: open_node_def split: if_splits)
next
  case False
  define fs1 where "fs1 = (if fl AND O_TRUNC \<noteq> 0 \<and> n_type (nodes fs n) = DT_REG then upd_node n (\<lambda>t. t\<lparr>n_size := 0\<rparr>) fs else fs)"
  have "new_handle h n fs1 = (r, fs')" using assms(4) False by (auto simp: open_node_def fs1_def)
  moreover have "tmpfs_ok root fs1" using assms(1) by (auto simp: fs1_def intro: upd_node_ok)
  moreover have "node_live fs1 n" "\<not> handle_live fs1 h" using assms(2,3) by (simp_all add: fs1_def)
  ultimately show ?thesis using new_handle_ok by blast
qed

lemma tmpfs_open_ok:
  assumes "tmpfs_ok root fs" "\<not> node_live fs a" "\<not> handle_live fs h" "tmpfs_open now root path fl a h fs = (r, fs')"
  shows "tmpfs_ok root fs'"
proof -
  have T: "tree_ok root fs" using assms(1) by (simp add: tmpfs_ok_def)
  show ?thesis
  proof (cases "skip_slashes path = []")
    case True
    then show ?thesis
      using assms(1,4) new_handle_ok [OF assms(1) tree_okD(1) [OF T] assms(3)] by (auto simp: tmpfs_open_def split: if_splits)
  next
    case False
    note run = assms(4) [unfolded tmpfs_open_def if_not_P [OF False]]
    show ?thesis
    proof (cases "lookup fs root path")
      case (Some n)
      then have "open_node fl h n fs = (r, fs')" using run by simp
      then show ?thesis by (rule open_node_ok [OF assms(1) lookup_live(1) [OF T Some] assms(3)])
    next
      case None
      show ?thesis
      proof (cases "fl AND O_CREAT = 0")
        case True
        then show ?thesis using assms(1) run None by simp
      next
        case cr: False
        obtain c fs1 where c: "create_leaf now path DT_REG a root fs = (c, fs1)" by fastforce
        note C = create_leaf_ok [OF assms(1,2) c]
        show ?thesis
        proof (cases c)
          case None
          then show ?thesis using C(1) run \<open>lookup fs root path = None\<close> cr c by simp
        next
          case (Some n)
          then have "open_node fl h n fs1 = (r, fs')" using run \<open>lookup fs root path = None\<close> cr c by simp
          moreover have "node_live fs1 n" using C(3) [of n] Some by simp
          moreover have "\<not> handle_live fs1 h" using C(4) assms(3) by simp
          ultimately show ?thesis using open_node_ok [OF C(1)] by blast
        qed
      qed
    qed
  qed
qed

lemma node_reserve_keeps: "tmpfs_ok root fs \<Longrightarrow> node_reserve junk a need fs = Some (r, fs') \<Longrightarrow> tmpfs_ok root fs'"
  by (auto simp: node_reserve_def Let_def intro!: upd_node_ok split: if_splits option.splits)

lemma tmpfs_write_keeps:
  assumes "tmpfs_ok root fs" "tmpfs_write now junk h bs fs = Done (r, fs')"
  shows "tmpfs_ok root fs'"
proof -
  let ?a = "f_node (handles fs h)" and ?off = "f_off (handles fs h)"
  have "fs' = fs \<or> (\<exists>q fs1. node_reserve junk ?a (w32 (?off + length bs)) fs = Some (q, fs1) \<and>
      (fs' = fs1 \<or> fs' = upd_node ?a (\<lambda>n. n\<lparr>n_size := (if w32 (?off + length bs) > n_size n then w32 (?off + length bs) else n_size n), n_mtime := now\<rparr>)
        (upd_handle h (\<lambda>f. f\<lparr>f_off := w32 (?off + length bs)\<rparr>) (upd_node ?a (\<lambda>n. n\<lparr>n_data := store_at ?off bs (n_data n)\<rparr>) fs1))))"
    using assms(2) by (auto simp: tmpfs_write_def Let_def split: if_splits option.splits)
  then show ?thesis
    using assms(1) node_reserve_keeps by (auto intro!: upd_node_ok upd_handle_ok)
qed

lemma tmpfs_truncate_keeps:
  assumes "tmpfs_ok root fs" "tmpfs_truncate now junk h len fs = Done (r, fs')"
  shows "tmpfs_ok root fs'"
  using assms node_reserve_keeps
  by (auto simp: tmpfs_truncate_def Let_def intro!: upd_node_ok split: if_splits option.splits)

lemma tmpfs_rename_keeps:
  assumes "tmpfs_ok root fs"
  shows "tmpfs_rename root old new fs \<noteq> None" "tmpfs_rename root old new fs = Some (r, fs') \<Longrightarrow> tmpfs_ok root fs'"
proof -
  have T: "tree_ok root fs" using assms by (simp add: tmpfs_ok_def)
  have "tmpfs_rename root old new fs \<noteq> None \<and> (tmpfs_rename root old new fs = Some (r, fs') \<longrightarrow> tmpfs_ok root fs')"
  proof (cases "lookup fs root old = None \<or> lookup_parent fs root new = None")
    case True
    then show ?thesis using assms by (auto simp: tmpfs_rename_def split: option.splits)
  next
    case False
    then obtain n p leaf where l: "lookup fs root old = Some n" "lookup_parent fs root new = Some (p, leaf)" by auto
    note N = lookup_live [OF T l(1)] and P = lookup_parent_live [OF T l(2)]
    have rp: "rooted (up fs) root p" using node_okD(6) [OF tree_okD(4) [OF T P(1)] P(2)] .
    obtain b where b: "walk_meets fs n p = Some b" using walk_meets_ends [OF rp tree_okD(2) [OF T]] by blast
    have root: "n = root \<Longrightarrow> walk_meets fs n p = Some True"
      using rp
    proof (induction rule: rooted.induct)
      case rooted_root
      then show ?case by (subst walk_meets.simps) simp
    next
      case (rooted_up a q)
      then show ?case by (subst walk_meets.simps) simp
    qed
    have move: "tmpfs_ok root (move_node n p leaf fs)" if "walk_meets fs n p = Some False"
      using that move_node_ok(1) [OF assms N(1) _ N(2) P(1-3)] root by (cases "n = root") auto
    show ?thesis
    proof (cases "is_dir fs n")
      case True
      then show ?thesis using l b move assms by (cases b) (auto simp: tmpfs_rename_def)
    next
      case False
      then show ?thesis using l move walk_meets_no_dir [OF T False rp P(1,3)] by (auto simp: tmpfs_rename_def)
    qed
  qed
  then show "tmpfs_rename root old new fs \<noteq> None" "tmpfs_rename root old new fs = Some (r, fs') \<Longrightarrow> tmpfs_ok root fs'" by blast+
qed

lemma tmpfs_rmdir_ok:
  assumes "tmpfs_ok root fs" "tmpfs_rmdir root path fs = (r, fs')" "lookup fs root path = Some root \<Longrightarrow> r \<noteq> 0"
  shows "tmpfs_ok root fs'"
proof (cases "\<exists>n. lookup fs root path = Some n \<and> n_type (nodes fs n) = DT_DIR \<and> n_kids (nodes fs n) = []")
  case True
  have T: "tree_ok root fs" using assms(1) by (simp add: tmpfs_ok_def)
  obtain n where n: "lookup fs root path = Some n" "n_kids (nodes fs n) = []" "fs' = unlink_node n fs" "r = 0"
    using True assms(2) by (auto simp: tmpfs_rmdir_def)
  then obtain p where "up fs n = Some p" using lookup_live(3) [OF T n(1)] assms(3) by auto
  then show ?thesis unfolding n(3) by (rule unlink_node_ok(1) [OF assms(1) lookup_live(1) [OF T n(1)] _ n(2)])
next
  case False
  then show ?thesis using assms(1,2) by (auto simp: tmpfs_rmdir_def split: option.splits if_splits)
qed

lemma tmpfs_step_ok: "tmpfs_step root fs fs' \<Longrightarrow> tmpfs_ok root fs \<Longrightarrow> \<not> root_freed root fs fs' \<Longrightarrow> tmpfs_ok root fs'"
proof (induction rule: tmpfs_step.induct)
  case (step_open fs a h now path fl r fs')
  then show ?case using tmpfs_open_ok by blast
next
  case (step_close fs h r fs')
  then show ?case using tmpfs_close_ok [of root fs h] by simp
next
  case (step_read h count fs r bs fs')
  then show ?case by (auto simp: tmpfs_read_def Let_def intro!: upd_handle_ok split: if_splits)
next
  case (step_write now junk h bs fs r fs')
  then show ?case using tmpfs_write_keeps by blast
next
  case (step_truncate now junk h len fs r fs')
  then show ?case using tmpfs_truncate_keeps by blast
next
  case (step_seek h off wh fs r fs')
  then show ?case by (auto simp: tmpfs_seek_def Let_def intro!: upd_handle_ok split: if_splits)
next
  case (step_readdir h fs r e fs')
  then show ?case by (auto simp: tmpfs_readdir_def Let_def intro!: upd_handle_ok split: if_splits list.splits)
next
  case (step_mkdir fs a now path r fs')
  obtain c fs1 where c: "create_leaf now path DT_DIR a root fs = (c, fs1)" by fastforce
  show ?case using step_mkdir create_leaf_ok(1) [OF step_mkdir.prems(1) step_mkdir.hyps(1) c] c
    by (auto simp: tmpfs_mkdir_def split: if_splits option.splits)
next
  case (step_rmdir path fs r fs')
  have "lookup fs root path = Some root \<Longrightarrow> r \<noteq> 0" using step_rmdir.hyps step_rmdir.prems(2) by (auto simp: root_freed_def)
  then show ?case using tmpfs_rmdir_ok [OF step_rmdir.prems(1) step_rmdir.hyps] by blast
next
  case (step_unlink path fs r fs')
  have T: "tree_ok root fs" using step_unlink.prems(1) by (simp add: tmpfs_ok_def)
  show ?case
  proof (cases "\<exists>n. lookup fs root path = Some n \<and> n_type (nodes fs n) = DT_REG")
    case True
    then obtain n where n: "lookup fs root path = Some n" "n_type (nodes fs n) = DT_REG" "fs' = unlink_node n fs"
      using step_unlink.hyps by (auto simp: tmpfs_unlink_def)
    have nd: "\<not> is_dir fs n" using n(2) by (simp add: is_dir_def)
    have "n \<noteq> root" using nd tree_okD(3) [OF T] by auto
    then obtain p where "up fs n = Some p" using lookup_live(3) [OF T n(1)] by auto
    moreover have "n_kids (nodes fs n) = []" using node_okD(3) [OF tree_okD(4) [OF T lookup_live(1) [OF T n(1)]]] nd by blast
    ultimately show ?thesis unfolding n(3) by (rule unlink_node_ok(1) [OF step_unlink.prems(1) lookup_live(1) [OF T n(1)]])
  next
    case False
    then show ?thesis using step_unlink by (auto simp: tmpfs_unlink_def split: option.splits if_splits)
  qed
next
  case (step_rename old new fs r fs')
  then show ?case using tmpfs_rename_keeps(2) by blast
next
  case (step_utime path at mt fs r fs')
  then show ?case by (auto simp: tmpfs_utime_def intro!: upd_node_ok split: option.splits)
next
  case (step_unmount fs r fs')
  then show ?case by (simp add: root_freed_def)
qed

text \<open>The file system right after it has been mounted.\<close>

definition empty_tmpfs :: tmpfs where
  "empty_tmpfs = \<lparr>nodes = (\<lambda>_. \<lparr>n_name = [], n_type = 0, n_ino = 0, n_size = 0, n_mtime = 0, n_data = [], n_cap = 0, n_refs = 0, n_parent = None, n_kids = []\<rparr>),
     node_live = (\<lambda>_. False), next_inode = 1, handles = (\<lambda>_. \<lparr>f_node = 0, f_off = 0\<rparr>), handle_live = (\<lambda>_. False)\<rparr>"

lemma mount_ok:
  assumes "tmpfs_mount root empty_tmpfs = ((0, root), fs)" "root \<noteq> 0"
  shows "tmpfs_ok root fs"
proof -
  have fs: "node_live fs a = (a = root)" "n_kids (nodes fs a) = []" "up fs a = None" "\<not> handle_live fs h" "is_dir fs root"
    "n_refs (nodes fs root) = 1" for a h
    using assms by (auto simp: tmpfs_mount_def node_alloc_def empty_tmpfs_def is_dir_def split: if_splits)
  have "rooted (up fs) root root" by (rule rooted_root)
  then show ?thesis
    using assms(2) by (simp add: tmpfs_ok_def tree_ok_def refs_ok_def node_ok_def linked_def handle_count_def fs)
qed

text \<open>
  C15: the nodes of a mounted tmpfs form a tree as long as its root exists. From the mount on, through every sequence of
  opens, closes, seeks, directory reads, creations, removals, renames and time changes, and of reads, writes and
  truncations that return, none of which unmounts it or removes the mount point by its own path: the live nodes are the
  root, the nodes that exactly one live directory lists, once, and the removed nodes that a handle still holds; from each
  listed node the parents lead to the root, so a rename makes no cycle; the reference count of a node is its link plus its
  handles; every handle is on a live node; and the walk of a rename to the root ends. The next call keeps this as well,
  whatever it is, unless it is an unmount or a removal of the mount point, which the code does not refuse.
\<close>

theorem tmpfs_tree:
  assumes "tmpfs_mount root empty_tmpfs = ((0, root), fs0)" "root \<noteq> 0"
    "(\<lambda>x y. tmpfs_step root x y \<and> \<not> root_freed root x y)\<^sup>*\<^sup>* fs0 fs"
  shows "tmpfs_ok root fs \<and> (\<forall>old new. tmpfs_rename root old new fs \<noteq> None) \<and>
    (\<forall>fs'. tmpfs_step root fs fs' \<longrightarrow> tmpfs_ok root fs' \<or> root_freed root fs fs')"
proof -
  have "tmpfs_ok root fs" using assms(3) mount_ok [OF assms(1,2)] tmpfs_step_ok by (induction rule: rtranclp_induct) auto
  then show ?thesis using tmpfs_rename_keeps(1) tmpfs_step_ok by blast
qed

section \<open>Creating, removing, renaming\<close>

lemma find_append: "find P xs = Some x \<Longrightarrow> find P (xs @ ys) = Some x"
  by (induction xs) auto

lemma create_leaf_effect:
  assumes "create_leaf now path ty a root fs = (Some n, fs')"
  obtains p leaf where "lookup_parent fs root path = Some (p, leaf)" "n = a"
    "\<And>b. n_kids (nodes fs' b) = (if b = p \<and> p \<noteq> a then n_kids (nodes fs b) @ [a] else if b = a then (if p = a then [a] else []) else n_kids (nodes fs b))"
    "\<And>b. b \<noteq> a \<Longrightarrow> n_name (nodes fs' b) = n_name (nodes fs b) \<and> n_type (nodes fs' b) = n_type (nodes fs b)"
    "n_name (nodes fs' a) = leaf"
  using assms
  by (auto simp: create_leaf_def node_alloc_def list_add_tail_def upd_node_def split: option.splits if_splits intro: that)

lemma create_leaf_walk:
  assumes "tmpfs_ok root fs" "\<not> node_live fs a" "create_leaf now path ty a root fs = (Some n, fs')" "node_live fs cur" "linked root fs cur"
    "walk fs cur cs = Some b"
  shows "walk fs' cur cs = Some b"
proof -
  obtain p leaf where c: "\<And>b. n_kids (nodes fs' b) = (if b = p \<and> p \<noteq> a then n_kids (nodes fs b) @ [a] else if b = a then (if p = a then [a] else []) else n_kids (nodes fs b))"
    "\<And>b. b \<noteq> a \<Longrightarrow> n_name (nodes fs' b) = n_name (nodes fs b) \<and> n_type (nodes fs' b) = n_type (nodes fs b)"
    by (rule create_leaf_effect [OF assms(3)]) (rule that)
  have T: "tree_ok root fs" using assms(1) by (simp add: tmpfs_ok_def)
  show ?thesis
    using assms(4-6)
  proof (induction cs arbitrary: cur)
    case (Cons w cs)
    obtain m where m: "lookup_child fs cur w = Some m" "walk fs m cs = Some b" "length w < 64"
      using Cons.prems(3) by (auto split: if_splits option.splits)
    have ne: "cur \<noteq> a" using Cons.prems(1) assms(2) by auto
    note K = node_okD(4) [OF tree_okD(4) [OF T Cons.prems(1)]]
    have "find (\<lambda>c. n_name (nodes fs' c) = w) (n_kids (nodes fs cur)) = find (\<lambda>c. n_name (nodes fs c) = w) (n_kids (nodes fs cur))"
      by (rule find_cong [OF refl]) (use K assms(2) c(2) in metis)
    then have "lookup_child fs' cur w = Some m"
      using m(1) ne c(2) [OF ne] find_append by (auto simp: lookup_child_def is_dir_def c(1) split: if_splits)
    moreover have "node_live fs m" "linked root fs m"
      using lookup_child_in [OF m(1)] K by (auto simp: linked_def)
    ultimately show ?case using Cons.IH [OF _ _ m(2)] m(3) by simp
  qed simp
qed

text \<open>
  a directory that has been made is found. After a successful mkdir the path leads to the new, empty directory,
  and every path that led to a node before leads to the same node.
\<close>

theorem tmpfs_mkdir_found:
  assumes "tmpfs_ok root fs" "\<not> node_live fs a" "tmpfs_mkdir now root path a fs = (0, fs')"
  shows "lookup fs' root path = Some a \<and> is_dir fs' a \<and> n_kids (nodes fs' a) = [] \<and>
    (\<forall>other b. lookup fs root other = Some b \<longrightarrow> lookup fs' root other = Some b)"
proof -
  have T: "tree_ok root fs" using assms(1) by (simp add: tmpfs_ok_def)
  note r = tree_okD(1) [OF T]
  have lr: "linked root fs root" by (simp add: linked_def)
  have r0: "root \<noteq> 0" by (rule node_okD(1) [OF tree_okD(4) [OF T r]])
  have none: "lookup fs root path = None" and c: "create_leaf now path DT_DIR a root fs = (Some a, fs')"
    using assms(3) create_leaf_ok(3) [OF assms(1,2)]
    by (auto simp: tmpfs_mkdir_def split: if_splits option.splits prod.splits)
  obtain p leaf where e: "lookup_parent fs root path = Some (p, leaf)"
    "\<And>b. n_kids (nodes fs' b) = (if b = p \<and> p \<noteq> a then n_kids (nodes fs b) @ [a] else if b = a then (if p = a then [a] else []) else n_kids (nodes fs b))"
    "\<And>b. b \<noteq> a \<Longrightarrow> n_name (nodes fs' b) = n_name (nodes fs b) \<and> n_type (nodes fs' b) = n_type (nodes fs b)" "n_name (nodes fs' a) = leaf"
    by (rule create_leaf_effect [OF c]) (rule that)
  note P = lookup_parent_live [OF T e(1)]
  have pa: "p \<noteq> a" using P(1) assms(2) by auto
  obtain cs where cs: "components path = cs @ [leaf]" "walk fs root cs = Some p"
    by (rule lookup_parent_walk [OF e(1) tree_okD(3) [OF T]]) (rule that)
  have "walk fs p [leaf] = None" using none cs lookup_walk [OF r0] by (simp add: walk_append)
  then have "lookup_child fs p leaf = None" using P(4) by (simp split: option.splits)
  then have nf: "find (\<lambda>c. n_name (nodes fs c) = leaf) (n_kids (nodes fs p)) = None" using P(3) by (simp add: lookup_child_def)
  note K = node_okD(4) [OF tree_okD(4) [OF T P(1)]]
  have "find (\<lambda>c. n_name (nodes fs' c) = leaf) (n_kids (nodes fs p)) = find (\<lambda>c. n_name (nodes fs c) = leaf) (n_kids (nodes fs p))"
    by (rule find_cong [OF refl]) (use K assms(2) e(3) in metis)
  then have "lookup_child fs' p leaf = Some a"
    using nf pa e(3) [OF pa] P(3) by (simp add: lookup_child_def is_dir_def e(2,4) find_snoc)
  moreover have "walk fs' root cs = Some p" by (rule create_leaf_walk [OF assms(1,2) c r lr cs(2)])
  ultimately have "lookup fs' root path = Some a" using P(4) by (simp add: lookup_walk [OF r0] cs(1) walk_append)
  moreover have "is_dir fs' a" using create_leaf_ok(3) [OF assms(1,2) c, of a] by (simp add: is_dir_def)
  moreover have "n_kids (nodes fs' a) = []" using pa by (simp add: e(2))
  moreover have "lookup fs' root other = Some b" if "lookup fs root other = Some b" for other b
    using that create_leaf_walk [OF assms(1,2) c r lr] by (simp add: lookup_walk [OF r0])
  ultimately show ?thesis by blast
qed

lemma unlink_target:
  assumes "tmpfs_ok root fs" "tmpfs_unlink root path fs = (0, fs')"
  obtains n p where "lookup fs root path = Some n" "n_type (nodes fs n) = DT_REG" "fs' = unlink_node n fs" "node_live fs n" "n \<noteq> root"
    "up fs n = Some p" "n_kids (nodes fs n) = []"
proof -
  have T: "tree_ok root fs" using assms(1) by (simp add: tmpfs_ok_def)
  obtain n where n: "lookup fs root path = Some n" "n_type (nodes fs n) = DT_REG" "fs' = unlink_node n fs"
    using assms(2) by (auto simp: tmpfs_unlink_def split: option.splits if_splits)
  note L = lookup_live [OF T n(1)]
  have nd: "\<not> is_dir fs n" using n(2) by (simp add: is_dir_def)
  have nr: "n \<noteq> root" using nd tree_okD(3) [OF T] by auto
  obtain p where "up fs n = Some p" using L(3) [OF nr] by auto
  moreover have "n_kids (nodes fs n) = []" using node_okD(3) [OF tree_okD(4) [OF T L(1)]] nd by blast
  ultimately show ?thesis using that n L(1) nr by blast
qed

lemma unlink_node_data: "up fs n = Some p \<Longrightarrow> p \<noteq> n \<Longrightarrow> file_bytes (unlink_node n fs) n = file_bytes fs n \<and> up (unlink_node n fs) n = None \<and>
    handles (unlink_node n fs) = handles fs"
  by (simp add: unlink_node_def list_del_def node_put_def node_free_def file_bytes_def Let_def)

text \<open>
  C17: a removed file lives as long as it is open. After a successful unlink no path leads to the file; its node and its
  bytes are still there exactly if a handle is open on it; and closing one of the handles frees it exactly if that was
  the last one.
\<close>

theorem tmpfs_unlink_open:
  assumes "tmpfs_ok root fs" "tmpfs_unlink root path fs = (0, fs')" "lookup fs root path = Some n"
  shows "(\<forall>other. lookup fs' root other \<noteq> Some n) \<and> file_bytes fs' n = file_bytes fs n \<and>
    (node_live fs' n \<longleftrightarrow> (\<exists>h. handle_live fs h \<and> f_node (handles fs h) = n)) \<and>
    (\<forall>h. handle_live fs h \<and> f_node (handles fs h) = n \<longrightarrow>
      (node_live (snd (tmpfs_close h fs')) n \<longleftrightarrow> (\<exists>i. i \<noteq> h \<and> handle_live fs i \<and> f_node (handles fs i) = n)))"
proof -
  have T: "tree_ok root fs" and R0: "refs_ok root fs" using assms(1) by (simp_all add: tmpfs_ok_def)
  obtain p where t: "fs' = unlink_node n fs" "node_live fs n" "n \<noteq> root" "up fs n = Some p" "n_kids (nodes fs n) = []"
    by (rule unlink_target [OF assms(1,2)]) (use assms(3) that in auto)
  note U = unlink_node_ok [OF assms(1) t(2,4,5), folded t(1)]
  have "p \<noteq> n" using node_okD(5) [OF tree_okD(4) [OF T t(2)] t(4)] t(5) by auto
  note D = unlink_node_data [OF t(4) this, folded t(1)]
  have T': "tree_ok root fs'" using U(1) by (simp add: tmpfs_ok_def)
  have nl: "\<not> linked root fs' n" using D t(3) by (simp add: linked_def)
  have "lookup fs' root other \<noteq> Some n" for other using lookup_live(2) [OF T', of other n] nl by blast
  moreover have cnt: "0 < handle_count fs n \<longleftrightarrow> (\<exists>h. handle_live fs h \<and> f_node (handles fs h) = n)"
    unfolding handle_count_def using finite_subset [OF _ refs_okD(1) [OF R0], of "{h. handle_live fs h \<and> f_node (handles fs h) = n}"]
    by (auto simp: card_gt_0_iff)
  moreover have "node_live (snd (tmpfs_close h fs')) n \<longleftrightarrow> (\<exists>i. i \<noteq> h \<and> handle_live fs i \<and> f_node (handles fs i) = n)"
    if h: "handle_live fs h" "f_node (handles fs h) = n" for h
  proof -
    let ?c = "snd (tmpfs_close h fs')"
    have h': "handle_live fs' h" using h U(2) by simp
    have "tmpfs_ok root ?c" by (rule tmpfs_close_ok [OF U(1) h'])
    then have R: "refs_ok root ?c" by (simp add: tmpfs_ok_def)
    have h0: "h \<noteq> 0" using refs_okD(2) [OF R0 h(1)] by simp
    have c: "handle_live ?c = (handle_live fs)(h := False)" "handles ?c = handles fs" "up ?c n = None"
      using h0 U(2) D node_okD(1) [OF tree_okD(4) [OF T t(2)]]
      by (simp_all add: tmpfs_close_def node_put_def node_free_def Let_def h)
    have "\<not> linked root ?c n" using c(3) t(3) by (simp add: linked_def)
    then have "node_live ?c n \<Longrightarrow> 0 < handle_count ?c n" using refs_okD(3) [OF R, of n] by simp
    moreover have "0 < handle_count ?c n \<Longrightarrow> \<exists>i. handle_live ?c i \<and> f_node (handles ?c i) = n"
      unfolding handle_count_def by (auto simp: card_gt_0_iff)
    moreover have "node_live ?c n" if "handle_live ?c i" "f_node (handles ?c i) = n" for i
      using refs_okD(2) [OF R that(1)] that(2) by simp
    ultimately have "node_live ?c n \<longleftrightarrow> (\<exists>i. handle_live ?c i \<and> f_node (handles ?c i) = n)" by blast
    then show ?thesis unfolding c(1,2) by auto
  qed
  ultimately show ?thesis using D U(3) by auto
qed

text \<open>
  a rename onto an existing name does not replace the old file. When the source and the existing target are
  different files, the rename succeeds and the directory lists two nodes of the same name.
\<close>

theorem tmpfs_rename_duplicates:
  assumes "tmpfs_ok root fs" "lookup fs root old = Some n" "\<not> is_dir fs n" "lookup fs root new = Some m" "m \<noteq> n" "m \<noteq> root"
    "lookup_parent fs root new = Some (p, leaf)"
  shows "\<exists>fs'. tmpfs_rename root old new fs = Some (0, fs') \<and> n \<in> set (n_kids (nodes fs' p)) \<and> m \<in> set (n_kids (nodes fs' p)) \<and>
    n_name (nodes fs' n) = n_name (nodes fs' m)"
proof -
  have T: "tree_ok root fs" using assms(1) by (simp add: tmpfs_ok_def)
  have r0: "root \<noteq> 0" by (rule node_okD(1) [OF tree_okD(4) [OF T tree_okD(1) [OF T]]])
  note N = lookup_live [OF T assms(2)] and P = lookup_parent_live [OF T assms(7)]
  obtain cs where cs: "components new = cs @ [leaf]" "walk fs root cs = Some p"
    by (rule lookup_parent_walk [OF assms(7) tree_okD(3) [OF T]]) (rule that)
  have "walk fs p [leaf] = Some m" using assms(4) cs lookup_walk [OF r0] by (simp add: walk_append)
  then have "lookup_child fs p leaf = Some m" by (simp split: if_splits option.splits)
  note m = lookup_child_in [OF this]
  have nr: "n \<noteq> root" using assms(3) tree_okD(3) [OF T] by auto
  obtain q where q: "up fs n = Some q" using N(3) [OF nr] by auto
  have pn: "p \<noteq> n" using P(3) assms(3) by auto
  have qn: "q \<noteq> n" using rooted_no_loop [OF node_okD(6) [OF tree_okD(4) [OF T N(1)] N(2)]] q tree_okD(2) [OF T] by auto
  have mp: "m \<noteq> p"
    using rooted_no_loop [OF node_okD(6) [OF tree_okD(4) [OF T P(1)] P(2)]] node_okD(4) [OF tree_okD(4) [OF T P(1)], of m] m tree_okD(2) [OF T] by auto
  have "tmpfs_rename root old new fs = Some (0, move_node n p leaf fs)" using assms(2,3,7) by (simp add: tmpfs_rename_def)
  moreover have "n_name (nodes (move_node n p leaf fs) n) = leaf" "n_name (nodes (move_node n p leaf fs) m) = leaf"
    using q qn pn P(4) m assms(5) by (auto simp: move_node_def list_del_def list_add_tail_def)
  moreover have "n \<in> set (n_kids (nodes (move_node n p leaf fs) p))" "m \<in> set (n_kids (nodes (move_node n p leaf fs) p))"
    using q qn pn m assms(5) by (auto simp: move_node_def list_del_def list_add_tail_def)
  ultimately show ?thesis by auto
qed

text \<open>
  removing the mount point frees the root. An empty mounted tmpfs without open handles whose root directory is
  removed by its own path has a root that is no longer live, while the mount table still refers to it.
\<close>

theorem tmpfs_rmdir_frees_root:
  assumes "tmpfs_ok root fs" "n_kids (nodes fs root) = []" "\<forall>h. handle_live fs h \<longrightarrow> f_node (handles fs h) \<noteq> root"
  shows "\<exists>fs'. tmpfs_rmdir root [slash] fs = (0, fs') \<and> \<not> node_live fs' root"
proof -
  have T: "tree_ok root fs" and R0: "refs_ok root fs" using assms(1) by (simp_all add: tmpfs_ok_def)
  note r = tree_okD(1-3) [OF T]
  have r0: "root \<noteq> 0" by (rule node_okD(1) [OF tree_okD(4) [OF T r(1)]])
  have "{h. handle_live fs h \<and> f_node (handles fs h) = root} = {}" using assms(3) by auto
  then have "handle_count fs root = 0" unfolding handle_count_def by (simp only: card.empty)
  then have "n_refs (nodes fs root) = 1" using refs_okD(3) [OF R0 r(1)] by (simp add: linked_def)
  moreover have "lookup fs root [slash] = Some root" using lookup_walk [OF r0] by simp
  ultimately show ?thesis
    using r(2,3) r0 assms(2) by (simp add: tmpfs_rmdir_def is_dir_def unlink_node_def list_del_def node_put_def node_free_def Let_def)
qed

section \<open>Witnesses\<close>

text \<open>A fresh mount, and the mount with the files \<^verbatim>\<open>a\<close>, open twice, and \<^verbatim>\<open>b\<close>.\<close>

definition demo_mount :: tmpfs where
  "demo_mount = snd (tmpfs_mount 100 empty_tmpfs)"

lemma demo_mount_ok: "tmpfs_ok 100 demo_mount" "tmpfs_mount 100 empty_tmpfs = ((0, 100), demo_mount)"
  using mount_ok [of 100 demo_mount] by (simp_all add: demo_mount_def tmpfs_mount_def node_alloc_def)

lemma demo_mount_facts: "n_type (nodes demo_mount 100) = DT_DIR" "n_kids (nodes demo_mount 100) = []" "node_live demo_mount = (\<lambda>a. a = 100)"
  "handle_live demo_mount h = False" "n_refs (nodes demo_mount 100) = 1" "n_parent (nodes demo_mount 100) = None"
  by (auto simp: demo_mount_def tmpfs_mount_def node_alloc_def empty_tmpfs_def fun_eq_iff)

lemma parent_of_name: "c \<noteq> slash \<Longrightarrow> root \<noteq> 0 \<Longrightarrow> lookup_parent fs root [c] = Some (root, [c])"
  by (simp add: lookup_parent_def) (subst lookup_parent_loop.simps, simp)

lemma lookup_name: "c \<noteq> slash \<Longrightarrow> root \<noteq> 0 \<Longrightarrow> lookup fs root [c] = lookup_child fs root [c]"
  by (simp add: lookup_walk split: option.splits)

lemma demo_mkdir: "\<exists>fs'. tmpfs_mkdir 5 100 ''d'' 200 demo_mount = (0, fs')"
  by (simp add: tmpfs_mkdir_def lookup_name lookup_child_def demo_mount_facts create_leaf_def parent_of_name node_alloc_def)

theorem tmpfs_mkdir_found_witness:
  "\<exists>fs'. tmpfs_mkdir 5 100 ''d'' 200 demo_mount = (0, fs') \<and> lookup fs' 100 ''d'' = Some 200"
proof -
  obtain fs' where m: "tmpfs_mkdir 5 100 ''d'' 200 demo_mount = (0, fs')" using demo_mkdir by blast
  have "\<not> node_live demo_mount 200" by (simp add: demo_mount_facts)
  from tmpfs_mkdir_found [OF demo_mount_ok(1) this m] m show ?thesis by blast
qed

text \<open>Unmounting the fresh mount and removing its root both leave the address of the root free.\<close>

lemma demo_mkdir_live: "tmpfs_mkdir 5 100 ''d'' 200 demo_mount = (0, fs') \<Longrightarrow> node_live fs' 100"
  using demo_mount_facts(1-3)
  by (auto simp: tmpfs_mkdir_def lookup_name lookup_child_def create_leaf_def parent_of_name node_alloc_def list_add_tail_def
      upd_node_def is_dir_def split: if_splits option.splits)

lemma demo_mount_keeps: "root_freed 100 demo_mount fs' \<Longrightarrow> \<not> node_live fs' 100"
proof -
  have "tree_free_list [] fs = Some fs" for fs by (simp add: tree_free_list.simps)
  then have "tmpfs_unmount 100 demo_mount = Some (0, node_free 100 (upd_node 100 (\<lambda>n. n\<lparr>n_kids := []\<rparr>) demo_mount))"
    by (simp add: tmpfs_unmount_def tree_free_def tree_free_list.simps demo_mount_facts)
  moreover have "tmpfs_rmdir 100 path demo_mount = (0, fs') \<Longrightarrow> lookup demo_mount 100 path = Some 100 \<Longrightarrow> \<not> node_live fs' 100" for path fs'
    by (auto simp: tmpfs_rmdir_def demo_mount_facts unlink_node_def list_del_def node_put_def node_free_def Let_def split: if_splits)
  ultimately show "root_freed 100 demo_mount fs' \<Longrightarrow> \<not> node_live fs' 100" by (auto simp: root_freed_def node_free_def)
qed

theorem tmpfs_tree_witness:
  "\<exists>fs'. tmpfs_mkdir 5 100 ''d'' 200 demo_mount = (0, fs') \<and> tmpfs_ok 100 fs' \<and> tmpfs_rename 100 ''d'' ''/d/e'' fs' \<noteq> None"
proof -
  obtain fs' where m: "tmpfs_mkdir 5 100 ''d'' 200 demo_mount = (0, fs')" using demo_mkdir by blast
  have "\<not> node_live demo_mount 200" by (simp add: demo_mount_facts)
  then have "tmpfs_step 100 demo_mount fs'" using m by (rule step_mkdir)
  moreover have "\<not> root_freed 100 demo_mount fs'" using m demo_mkdir_live demo_mount_keeps by blast
  ultimately have "(\<lambda>x y. tmpfs_step 100 x y \<and> \<not> root_freed 100 x y)\<^sup>*\<^sup>* demo_mount fs'" by blast
  from tmpfs_tree [OF demo_mount_ok(2) _ this] m show ?thesis by auto
qed

theorem tmpfs_rmdir_frees_root_witness: "\<not> node_live (snd (tmpfs_rmdir 100 [slash] demo_mount)) 100"
proof -
  have "n_kids (nodes demo_mount 100) = []" "\<forall>h. handle_live demo_mount h \<longrightarrow> f_node (handles demo_mount h) \<noteq> 100"
    by (simp_all add: demo_mount_facts)
  from tmpfs_rmdir_frees_root [OF demo_mount_ok(1) this] show ?thesis by auto
qed

definition demo_files :: tmpfs where
  "demo_files = \<lparr>nodes = (\<lambda>a. if a = 100 then \<lparr>n_name = [], n_type = DT_DIR, n_ino = 1, n_size = 0, n_mtime = 0, n_data = [], n_cap = 0, n_refs = 1, n_parent = None, n_kids = [200, 300]\<rparr>
       else if a = 200 then \<lparr>n_name = ''a'', n_type = DT_REG, n_ino = 2, n_size = 3, n_mtime = 0, n_data = [1, 2, 3] @ replicate 61 9, n_cap = 64, n_refs = 3, n_parent = Some 100, n_kids = []\<rparr>
       else \<lparr>n_name = ''b'', n_type = DT_REG, n_ino = 3, n_size = 0, n_mtime = 0, n_data = [], n_cap = 0, n_refs = 1, n_parent = Some 100, n_kids = []\<rparr>),
     node_live = (\<lambda>a. a \<in> {100, 200, 300}), next_inode = 4, handles = (\<lambda>h. \<lparr>f_node = 200, f_off = (if h = 7 then 2 else 5)\<rparr>), handle_live = (\<lambda>h. h \<in> {7, 8})\<rparr>"

lemma demo_files_ok: "tmpfs_ok 100 demo_files"
proof -
  have up: "up demo_files = (\<lambda>a. if a = 100 then None else Some 100)" by (auto simp: demo_files_def)
  have rt: "rooted (up demo_files) 100 a" for a
    unfolding up by (cases "a = 100") (auto intro: rooted_root rooted_up)
  have "{h. handle_live demo_files h \<and> f_node (handles demo_files h) = a} = (if a = 200 then {7, 8} else {})" for a
    by (auto simp: demo_files_def)
  then have hc: "handle_count demo_files a = (if a = 200 then 2 else 0)" for a by (simp add: handle_count_def)
  have "node_ok 100 demo_files a" if "a \<in> {100, 200, 300}" for a
    using that rt [of a] by (auto simp: node_ok_def linked_def is_dir_def) (auto simp: demo_files_def)
  moreover have "{h. handle_live demo_files h} = {7, 8}" by (auto simp: demo_files_def)
  ultimately show ?thesis
    by (auto simp: tmpfs_ok_def tree_ok_def refs_ok_def hc) (auto simp: demo_files_def is_dir_def linked_def)
qed

lemma demo_files_lookup: "lookup demo_files 100 ''a'' = Some 200" "lookup demo_files 100 ''b'' = Some 300"
  by (simp_all add: lookup_name lookup_child_def is_dir_def) (simp_all add: demo_files_def)

theorem tmpfs_unlink_open_witness:
  "node_live (snd (tmpfs_unlink 100 ''a'' demo_files)) 200 \<and> file_bytes (snd (tmpfs_unlink 100 ''a'' demo_files)) 200 = [1, 2, 3]"
proof -
  obtain fs' where u: "tmpfs_unlink 100 ''a'' demo_files = (0, fs')"
    by (simp add: tmpfs_unlink_def demo_files_lookup) (simp add: demo_files_def)
  have "\<exists>h. handle_live demo_files h \<and> f_node (handles demo_files h) = 200" by (auto simp: demo_files_def)
  moreover have "file_bytes demo_files 200 = [1, 2, 3]" by (simp add: file_bytes_def demo_files_def)
  ultimately show ?thesis using tmpfs_unlink_open [OF demo_files_ok u demo_files_lookup(1)] u by simp
qed

theorem tmpfs_rename_duplicates_witness:
  "\<exists>fs'. tmpfs_rename 100 ''a'' ''b'' demo_files = Some (0, fs') \<and> n_name (nodes fs' 200) = n_name (nodes fs' 300)"
proof -
  have "\<not> is_dir demo_files 200" by (simp add: is_dir_def demo_files_def)
  moreover have "lookup_parent demo_files 100 ''b'' = Some (100, ''b'')" by (rule parent_of_name) simp_all
  ultimately show ?thesis
    using tmpfs_rename_duplicates [OF demo_files_ok demo_files_lookup(1) _ demo_files_lookup(2), of 100 "''b''"] by auto
qed

lemma demo_files_data: "reg_handle demo_files 7" "f_node (handles demo_files 7) = 200" "data_ok demo_files 200" "f_off (handles demo_files 7) = 2"
  "file_bytes demo_files 200 = [1, 2, 3]"
  by (simp_all add: reg_handle_def data_ok_def file_bytes_def buffer_size_def demo_files_def Let_def)

theorem tmpfs_file_array_witness:
  "\<exists>fs'. tmpfs_write 9 (Some (\<lambda>_. 0)) 7 [4, 5] demo_files = Done (2, fs') \<and> file_bytes fs' 200 = [1, 2, 4, 5]"
proof -
  have "\<exists>fs' gap. tmpfs_write 9 (Some (\<lambda>_. 0)) 7 [4, 5] demo_files = Done (int (length [4, 5 :: u8]), fs') \<and>
      length gap = 2 - length (file_bytes demo_files 200) \<and>
      file_bytes fs' 200 = take 2 (file_bytes demo_files 200 @ gap) @ [4, 5] @ drop (2 + length [4, 5 :: u8]) (file_bytes demo_files 200)"
    using tmpfs_file_array [OF demo_files_data(1) demo_files_data(2) [symmetric] demo_files_data(3) demo_files_data(4) [symmetric], of "[4, 5]" 0 0 9 "\<lambda>_. 0"]
    by auto
  then show ?thesis by (auto simp: demo_files_data(5))
qed

theorem tmpfs_write_read_witness:
  "\<exists>fs1 fs2 fs3. tmpfs_write 9 (Some (\<lambda>_. 0)) 7 [4, 5] demo_files = Done (2, fs1) \<and> tmpfs_seek 7 2 0 fs1 = ((0, 2), fs2) \<and>
    tmpfs_read 7 2 fs2 = Done (2, [4, 5], fs3)"
  using tmpfs_write_read [OF demo_files_data(1), of 2 "[4, 5]" 9 "\<lambda>_. 0"] demo_files_data by (simp add: numeral_2_eq_2)

theorem tmpfs_truncate_hangs_witness: "tmpfs_truncate 9 (Some (\<lambda>_. 0)) 7 2147483649 demo_files = Hangs"
  using tmpfs_truncate_hangs [OF demo_files_data(1)] demo_files_data(2,3) by simp

end
