(* ===== verification/Net.thy ===== *)
theory Net
  imports Signal
begin

text \<open>
  The network core, \<^verbatim>\<open>net/net.c\<close>, \<^verbatim>\<open>net/proto.c\<close>, \<^verbatim>\<open>net/loopback.c\<close> and the
  system calls of \<^verbatim>\<open>kernel/syscalls_net.c\<close>. Interfaces are structures at addresses, packets are the entries of the
  static pool; entry \<open>i\<close> of the array has the address \<open>i + 1\<close> and 0 is the null pointer. The lists of free and of
  received packets are threaded through the packets as in the code. A frame is a function of the offset, since the
  code may read past its length. What a card driver answers is the parameter \<open>drv\<close>.
\<close>

section \<open>Data\<close>

record net_stats =
  rx_packets :: nat
  tx_packets :: nat
  rx_bytes :: nat
  tx_bytes :: nat
  rx_dropped :: nat
  tx_dropped :: nat

datatype transmit_fn = No_transmit | Lo_transmit | Card_transmit

record net_iface =
  if_name :: "u8 list"
  mac :: "nat \<Rightarrow> u8"
  ip :: "nat \<Rightarrow> u8"
  netmask :: "nat \<Rightarrow> u8"
  gw :: "nat \<Rightarrow> u8"
  mtu :: u32
  if_type :: u32
  if_flags :: u32
  stats :: net_stats
  transmit :: transmit_fn
  rx_head :: nat
  rx_tail :: nat
  rx_count :: nat

record net_pkt =
  next_pkt :: nat
  pk_iface :: nat
  pk_len :: nat
  pk_data :: "nat \<Rightarrow> u8"

text \<open>\<open>wire\<close> is what has been handed to the card drivers, \<open>rx_wakes\<close> the interfaces whose waiters have been woken.\<close>

record net =
  iface :: "nat \<Rightarrow> net_iface"
  g_ifaces :: "nat list"
  g_pool :: "nat \<Rightarrow> net_pkt"
  g_pool_free :: nat
  wire :: "(nat \<times> u8 list) list"
  rx_wakes :: "nat list"

definition NET_MAX_FRAME :: nat where "NET_MAX_FRAME = 2048"
definition NET_POOL_SIZE :: nat where "NET_POOL_SIZE = 48"
definition MAX_NET_IFACES :: nat where "MAX_NET_IFACES = 8"
definition NET_NAME_LEN :: nat where "NET_NAME_LEN = 16"
definition NET_IFACE_LOOPBACK :: u32 where "NET_IFACE_LOOPBACK = 1"
definition NET_IF_UP :: u32 where "NET_IF_UP = 1"
definition NET_IF_LOOPBACK :: u32 where "NET_IF_LOOPBACK = 2"

definition upd_iface :: "nat \<Rightarrow> (net_iface \<Rightarrow> net_iface) \<Rightarrow> net \<Rightarrow> net" where
  "upd_iface a g s = s\<lparr>iface := (iface s)(a := g (iface s a))\<rparr>"

definition upd_pkt :: "nat \<Rightarrow> (net_pkt \<Rightarrow> net_pkt) \<Rightarrow> net \<Rightarrow> net" where
  "upd_pkt p g s = s\<lparr>g_pool := (g_pool s)(p := g (g_pool s p))\<rparr>"

definition upd_stats :: "nat \<Rightarrow> (net_stats \<Rightarrow> net_stats) \<Rightarrow> net \<Rightarrow> net" where
  "upd_stats a g = upd_iface a (\<lambda>i. i\<lparr>stats := g (stats i)\<rparr>)"

text \<open>A list of bytes as the contents of an array.\<close>

definition frame_of :: "u8 list \<Rightarrow> nat \<Rightarrow> u8" where
  "frame_of bs i = (if i < length bs then bs ! i else 0)"

definition bytes_at :: "(nat \<Rightarrow> u8) \<Rightarrow> nat \<Rightarrow> nat \<Rightarrow> u8 list" where
  "bytes_at f p n = map f [p..<p + n]"

section \<open>The packet pool\<close>

fun pool_init_loop :: "nat list \<Rightarrow> net \<Rightarrow> net" where
  "pool_init_loop [] s = s"
| "pool_init_loop (i # is) s =
     pool_init_loop is ((upd_pkt (i + 1) (\<lambda>p. p\<lparr>next_pkt := g_pool_free s\<rparr>) s)\<lparr>g_pool_free := i + 1\<rparr>)"

definition pool_init :: "net \<Rightarrow> net" where
  "pool_init = pool_init_loop [0..<NET_POOL_SIZE]"

definition pool_get :: "net \<Rightarrow> nat \<times> net" where
  "pool_get s = (let p = g_pool_free s in (p, if p \<noteq> 0 then s\<lparr>g_pool_free := next_pkt (g_pool s p)\<rparr> else s))"

definition pool_put :: "nat \<Rightarrow> net \<Rightarrow> net" where
  "pool_put p s = (upd_pkt p (\<lambda>q. q\<lparr>next_pkt := g_pool_free s\<rparr>) s)\<lparr>g_pool_free := p\<rparr>"

section \<open>The registry\<close>

definition net_find_iface :: "u8 list \<Rightarrow> net \<Rightarrow> nat" where
  "net_find_iface name s = (case find (\<lambda>a. if_name (iface s a) = name) (g_ifaces s) of None \<Rightarrow> 0 | Some a \<Rightarrow> a)"

definition net_get_iface :: "int \<Rightarrow> net \<Rightarrow> nat" where
  "net_get_iface index s = (if index < 0 \<or> index \<ge> int (length (g_ifaces s)) then 0 else g_ifaces s ! nat index)"

definition net_register_iface :: "nat \<Rightarrow> net \<Rightarrow> int \<times> net" where
  "net_register_iface a s =
     (if a = 0 \<or> length (g_ifaces s) \<ge> MAX_NET_IFACES then (-1, s)
      else if net_find_iface (if_name (iface s a)) s \<noteq> 0 then (-1, s)
      else let s = upd_iface a (\<lambda>i. i\<lparr>rx_head := 0, rx_tail := 0, rx_count := 0\<rparr>) s
           in (0, s\<lparr>g_ifaces := g_ifaces s @ [a]\<rparr>))"

definition loopback_init :: "nat \<Rightarrow> net \<Rightarrow> net" where
  "loopback_init lo s =
     snd (net_register_iface lo (s\<lparr>iface := (iface s)(lo :=
       \<lparr>if_name = [108, 111], mac = (\<lambda>_. 0), ip = frame_of [127, 0, 0, 1], netmask = frame_of [255, 0, 0, 0], gw = (\<lambda>_. 0),
        mtu = 65536, if_type = NET_IFACE_LOOPBACK, if_flags = NET_IF_UP OR NET_IF_LOOPBACK,
        stats = \<lparr>rx_packets = 0, tx_packets = 0, rx_bytes = 0, tx_bytes = 0, rx_dropped = 0, tx_dropped = 0\<rparr>,
        transmit = Lo_transmit, rx_head = 0, rx_tail = 0, rx_count = 0\<rparr>)\<rparr>))"

definition net_init :: "nat \<Rightarrow> net \<Rightarrow> net" where
  "net_init lo s = loopback_init lo (pool_init s)"

section \<open>The protocol layer\<close>

definition be16 :: "(nat \<Rightarrow> u8) \<Rightarrow> nat \<Rightarrow> u16" where
  "be16 f p = push_bit 8 (ucast (f p)) OR ucast (f (p + 1))"

definition put_be16 :: "nat \<Rightarrow> u16 \<Rightarrow> u8 list \<Rightarrow> u8 list" where
  "put_be16 i v bs = bs[i := ucast (drop_bit 8 v), i + 1 := ucast (v AND 0xFF)]"

fun ck_sum :: "nat \<Rightarrow> u8 list \<Rightarrow> nat" where
  "ck_sum acc [] = acc"
| "ck_sum acc [a] = w32 (acc + unat a * 256)"
| "ck_sum acc (a # b # bs) = ck_sum (w32 (acc + (unat a * 256 + unat b))) bs"

function ck_fold :: "nat \<Rightarrow> nat" where
  "ck_fold acc = (if acc div 65536 \<noteq> 0 then ck_fold (acc mod 65536 + acc div 65536) else acc)"
  by pat_completeness auto
termination
proof (relation "measure id", simp)
  fix acc :: nat assume "acc div 65536 \<noteq> 0"
  then have "0 < acc div 65536" by simp
  moreover have "acc = 65536 * (acc div 65536) + acc mod 65536" by simp
  ultimately have "acc mod 65536 + acc div 65536 < acc" by linarith
  then show "(acc mod 65536 + acc div 65536, acc) \<in> measure id" by simp
qed

declare ck_fold.simps [simp del]

definition net_checksum :: "u8 list \<Rightarrow> u16" where
  "net_checksum bs = NOT (word_of_nat (ck_fold (ck_sum 0 bs)))"

text \<open>
  A result \<open>Some r\<close> of the handlers is the reply that is transmitted, with the frame consumed; both
  handlers transmit last and ignore what becomes of it.
\<close>

definition arp_rx :: "net_iface \<Rightarrow> (nat \<Rightarrow> u8) \<Rightarrow> nat \<Rightarrow> u8 list option" where
  "arp_rx i f len =
     (if len < 42 then None
      else if be16 f 12 \<noteq> 0x0806 then None
      else if be16 f 14 \<noteq> 1 then None
      else if be16 f 16 \<noteq> 0x0800 then None
      else if f 18 \<noteq> 6 \<or> f 19 \<noteq> 4 then None
      else if be16 f 20 = 1 then
        (if bytes_at f (14 + 30) 4 \<noteq> bytes_at (ip i) 0 4 then None
         else Some (bytes_at f (14 + 14) 6 @ bytes_at (mac i) 0 6 @ [0x08, 0x06] @
                    [0, 1, 0x08, 0, 6, 4, 0, 2] @ bytes_at (mac i) 0 6 @ bytes_at (ip i) 0 4 @ bytes_at f (14 + 14) 6 @ bytes_at f (14 + 20) 4))
      else None)"

definition reply_header :: "net_iface \<Rightarrow> (nat \<Rightarrow> u8) \<Rightarrow> nat \<Rightarrow> nat \<Rightarrow> nat \<Rightarrow> u8 list" where
  "reply_header i f p iplen ihlen =
     (let r = bytes_at f p ihlen;
          r = r[0 := 0x45];
          r = put_be16 2 (word_of_nat iplen) r;
          r = put_be16 4 0 r;
          r = put_be16 6 0 r;
          r = r[8 := 64, 9 := 1];
          r = take 12 r @ bytes_at (ip i) 0 4 @ drop 16 r;
          r = take 16 r @ bytes_at f (p + 12) 4 @ drop 20 r;
          r = put_be16 10 0 r
      in put_be16 10 (net_checksum r) r)"

definition reply_message :: "(nat \<Rightarrow> u8) \<Rightarrow> nat \<Rightarrow> nat \<Rightarrow> u8 list" where
  "reply_message f q icmplen =
     (let m = bytes_at f q icmplen;
          m = m[0 := 0]
      in put_be16 2 (net_checksum m) m)"

definition icmp_reply :: "net_iface \<Rightarrow> (nat \<Rightarrow> u8) \<Rightarrow> nat \<Rightarrow> nat \<Rightarrow> nat \<Rightarrow> u8 list" where
  "icmp_reply i f p iplen ihlen = reply_header i f p iplen ihlen @ reply_message f (p + ihlen) (iplen - ihlen)"

text \<open>\<open>p\<close> is the offset of the IP packet in the frame, \<open>src_mac\<close> the offset of the sender's address if there is one.\<close>

definition icmp_rx_ip :: "net_iface \<Rightarrow> (nat \<Rightarrow> u8) \<Rightarrow> nat \<Rightarrow> nat \<Rightarrow> nat option \<Rightarrow> u8 list option" where
  "icmp_rx_ip i f p iplen src_mac =
     (if iplen < 20 then None
      else if drop_bit 4 (f p) \<noteq> 4 then None
      else let ihlen = unat (f p AND 0x0F) * 4 in
        if ihlen < 20 \<or> iplen < ihlen then None
        else if f (p + 9) \<noteq> 1 then None
        else if bytes_at f (p + 16) 4 \<noteq> bytes_at (ip i) 0 4 then None
        else if iplen - ihlen < 8 then None
        else if f (p + ihlen) \<noteq> 8 then None
        else Some ((case src_mac of Some q \<Rightarrow> bytes_at f q 6 @ bytes_at (mac i) 0 6 @ [0x08, 0] | None \<Rightarrow> [])
                   @ icmp_reply i f p iplen ihlen))"

definition icmp_rx_eth :: "net_iface \<Rightarrow> (nat \<Rightarrow> u8) \<Rightarrow> nat \<Rightarrow> u8 list option" where
  "icmp_rx_eth i f len =
     (if len < 34 then None
      else if be16 f 12 \<noteq> 0x0800 then None
      else icmp_rx_ip i f 14 (len - 14) (Some 6))"

definition net_proto_rx :: "net_iface \<Rightarrow> (nat \<Rightarrow> u8) \<Rightarrow> nat \<Rightarrow> u8 list option" where
  "net_proto_rx i f len =
     (if if_type i = NET_IFACE_LOOPBACK then icmp_rx_ip i f 0 len None
      else case arp_rx i f len of Some r \<Rightarrow> Some r | None \<Rightarrow> icmp_rx_eth i f len)"

section \<open>Sending and receiving\<close>

text \<open>Replies are never answered a third time, so the loopback interface does not recurse for ever.\<close>

definition reply_depth :: "net_iface \<Rightarrow> (nat \<Rightarrow> u8) \<Rightarrow> nat \<Rightarrow> nat" where
  "reply_depth i f len =
     (case net_proto_rx i f len of None \<Rightarrow> 0
      | Some r \<Rightarrow> (case net_proto_rx i (frame_of r) (length r) of None \<Rightarrow> 1
         | Some r' \<Rightarrow> (case net_proto_rx i (frame_of r') (length r') of None \<Rightarrow> 2 | Some _ \<Rightarrow> 3)))"

definition queue_frame :: "nat \<Rightarrow> (nat \<Rightarrow> u8) \<Rightarrow> nat \<Rightarrow> net \<Rightarrow> net" where
  "queue_frame a f len s =
     (let (p, s) = pool_get s in
      if p = 0 then upd_stats a (\<lambda>t. t\<lparr>rx_dropped := w32 (rx_dropped t + 1)\<rparr>) s
      else let s = upd_pkt p (\<lambda>q. \<lparr>next_pkt = 0, pk_iface = a, pk_len = len, pk_data = (\<lambda>i. if i < len then f i else pk_data q i)\<rparr>) s;
               s = (if rx_tail (iface s a) \<noteq> 0
                    then upd_iface a (\<lambda>i. i\<lparr>rx_tail := p\<rparr>) (upd_pkt (rx_tail (iface s a)) (\<lambda>q. q\<lparr>next_pkt := p\<rparr>) s)
                    else upd_iface a (\<lambda>i. i\<lparr>rx_head := p, rx_tail := p\<rparr>) s);
               s = upd_iface a (\<lambda>i. i\<lparr>rx_count := w32 (rx_count i + 1)\<rparr>) s
           in s\<lparr>rx_wakes := rx_wakes s @ [a]\<rparr>)"

definition count_rx :: "nat \<Rightarrow> nat \<Rightarrow> net \<Rightarrow> net" where
  "count_rx a len = upd_stats a (\<lambda>t. t\<lparr>rx_packets := w32 (rx_packets t + 1), rx_bytes := w32 (rx_bytes t + len)\<rparr>)"

definition count_tx :: "nat \<Rightarrow> nat \<Rightarrow> int \<Rightarrow> net \<Rightarrow> net" where
  "count_tx a len ret =
     (if ret = 0 then upd_stats a (\<lambda>t. t\<lparr>tx_packets := w32 (tx_packets t + 1), tx_bytes := w32 (tx_bytes t + len)\<rparr>)
      else upd_stats a (\<lambda>t. t\<lparr>tx_dropped := w32 (tx_dropped t + 1)\<rparr>))"

definition may_transmit :: "net_iface \<Rightarrow> nat \<Rightarrow> bool" where
  "may_transmit i len \<longleftrightarrow> transmit i \<noteq> No_transmit \<and> if_flags i AND NET_IF_UP \<noteq> 0 \<and> len \<noteq> 0 \<and> len \<le> NET_MAX_FRAME"

definition card_transmit :: "((nat \<times> u8 list) list \<Rightarrow> nat \<Rightarrow> u8 list \<Rightarrow> int) \<Rightarrow> nat \<Rightarrow> u8 list \<Rightarrow> net \<Rightarrow> int \<times> net" where
  "card_transmit drv a bs s = (drv (wire s) a bs, s\<lparr>wire := wire s @ [(a, bs)]\<rparr>)"

lemma length_bytes_at [simp]: "length (bytes_at f p n) = n"
  by (simp add: bytes_at_def)

lemma nth_bytes_at [simp]: "i < n \<Longrightarrow> bytes_at f p n ! i = f (p + i)"
  by (simp add: bytes_at_def)

lemma length_put_be16 [simp]: "length (put_be16 i v bs) = length bs"
  by (simp add: put_be16_def)

lemma nth_put_be16: "j \<noteq> i \<Longrightarrow> j \<noteq> i + 1 \<Longrightarrow> put_be16 i v bs ! j = bs ! j"
  by (simp add: put_be16_def)

lemma icmp_reply_bytes:
  assumes "20 \<le> ihlen" "ihlen + 8 \<le> iplen"
  shows "length (icmp_reply i f p iplen ihlen) = iplen" "icmp_reply i f p iplen ihlen ! 0 = 0x45"
    "icmp_reply i f p iplen ihlen ! ihlen = 0"
  using assms by (simp_all add: icmp_reply_def reply_header_def reply_message_def Let_def nth_append nth_put_be16)

definition ihlen_at :: "(nat \<Rightarrow> u8) \<Rightarrow> nat \<Rightarrow> nat" where
  "ihlen_at f p = unat (f p AND 0x0F) * 4"

lemma icmp_rx_SomeD:
  assumes "icmp_rx_ip i f p iplen src_mac = Some r"
  shows "20 \<le> ihlen_at f p" "ihlen_at f p + 8 \<le> iplen" "f (p + ihlen_at f p) = 8" "bytes_at f (p + 16) 4 = bytes_at (ip i) 0 4"
    "r = (case src_mac of Some q \<Rightarrow> bytes_at f q 6 @ bytes_at (mac i) 0 6 @ [0x08, 0] | None \<Rightarrow> []) @ icmp_reply i f p iplen (ihlen_at f p)"
  using assms by (auto simp: icmp_rx_ip_def Let_def ihlen_at_def split: if_splits)

lemma frame_append: "length xs = p \<Longrightarrow> frame_of (xs @ ys) (p + j) = frame_of ys j"
  by (auto simp: frame_of_def nth_append)

lemma icmp_rx_reply:
  assumes "icmp_rx_ip i f p iplen src_mac = Some r" "p = (case src_mac of Some q \<Rightarrow> 14 | None \<Rightarrow> 0)"
  shows "length r = p + iplen" "frame_of r p = 0x45" "frame_of r (p + ihlen_at f p) = 0"
proof -
  let ?pre = "case src_mac of Some q \<Rightarrow> bytes_at f q 6 @ bytes_at (mac i) 0 6 @ [0x08, 0] | None \<Rightarrow> []"
  note D = icmp_rx_SomeD [OF assms(1)]
  note B = icmp_reply_bytes [OF D(1,2), of i f p]
  have p: "length ?pre = p" using assms(2) by (simp split: option.splits)
  show "length r = p + iplen" unfolding D(5) using p B(1) by simp
  show "frame_of r p = 0x45" "frame_of r (p + ihlen_at f p) = 0"
    using frame_append [OF p, of "icmp_reply i f p iplen (ihlen_at f p)" 0] frame_append [OF p, of "icmp_reply i f p iplen (ihlen_at f p)" "ihlen_at f p"] B D(1,2)
    unfolding D(5) [symmetric] by (simp_all add: frame_of_def)
qed

lemma icmp_rx_no_third:
  assumes "icmp_rx_ip i f p n src_mac = Some r" "icmp_rx_ip i (frame_of r) p n' src' = Some r'"
    "p = (case src_mac of Some q \<Rightarrow> 14 | None \<Rightarrow> 0)" "p = (case src' of Some q \<Rightarrow> 14 | None \<Rightarrow> 0)"
  shows "icmp_rx_ip i (frame_of r') p n'' src'' = None"
proof (rule ccontr)
  assume "icmp_rx_ip i (frame_of r') p n'' src'' \<noteq> None"
  then obtain r'' where r: "icmp_rx_ip i (frame_of r') p n'' src'' = Some r''" by auto
  have h: "ihlen_at (frame_of r) p = 20" using icmp_rx_reply(2) [OF assms(1,3)] by (simp add: ihlen_at_def)
  have "ihlen_at (frame_of r') p = 20" using icmp_rx_reply(2) [OF assms(2,4)] by (simp add: ihlen_at_def)
  then show False using icmp_rx_reply(3) [OF assms(2,4)] icmp_rx_SomeD(3) [OF r] h by simp
qed

text \<open>An Ethernet reply is never an ARP request, and an ICMP reply is not ARP.\<close>

lemma be16_nth: "f p = a \<Longrightarrow> f (p + 1) = b \<Longrightarrow> be16 f p = push_bit 8 (ucast a) OR ucast b"
  by (simp add: be16_def)

lemma arp_reply_fields:
  assumes "arp_rx i f len = Some r"
  shows "length r = 42" "frame_of r 12 = 8" "frame_of r 13 = 6" "frame_of r 20 = 0" "frame_of r 21 = 2"
  using assms by (auto simp: arp_rx_def frame_of_def nth_append split: if_splits)

lemma arp_reply_none: "arp_rx i f len = Some r \<Longrightarrow> if_type i \<noteq> NET_IFACE_LOOPBACK \<Longrightarrow> net_proto_rx i (frame_of r) n = None"
  using arp_reply_fields [of i f len r]
  by (simp add: net_proto_rx_def arp_rx_def [of i "frame_of r"] icmp_rx_eth_def be16_def)

lemma icmp_eth_type:
  assumes "icmp_rx_eth i f len = Some r"
  shows "frame_of r 12 = 8" "frame_of r 13 = 0" "icmp_rx_ip i f 14 (len - 14) (Some 6) = Some r"
proof -
  show R: "icmp_rx_ip i f 14 (len - 14) (Some 6) = Some r" using assms by (simp add: icmp_rx_eth_def split: if_splits)
  show "frame_of r 12 = 8" "frame_of r 13 = 0" unfolding icmp_rx_SomeD(5) [OF R] by (simp_all add: frame_of_def nth_append)
qed

lemma icmp_eth_only:
  assumes "icmp_rx_eth i f len = Some r" "if_type i \<noteq> NET_IFACE_LOOPBACK"
  shows "net_proto_rx i (frame_of r) n = icmp_rx_eth i (frame_of r) n"
  using icmp_eth_type(1,2) [OF assms(1)] assms(2) by (simp add: net_proto_rx_def arp_rx_def be16_def)

lemma no_third_reply:
  assumes "net_proto_rx i f n = Some r" "net_proto_rx i (frame_of r) n' = Some r'"
  shows "net_proto_rx i (frame_of r') n'' = None"
proof (cases "if_type i = NET_IFACE_LOOPBACK")
  case True
  then show ?thesis using icmp_rx_no_third [of i f 0 n None r n' None r' n'' None] assms by (simp add: net_proto_rx_def)
next
  case False
  have "arp_rx i f n = None"
  proof (rule ccontr)
    assume "arp_rx i f n \<noteq> None"
    then have "arp_rx i f n = Some r" using assms(1) False by (auto simp: net_proto_rx_def)
    from arp_reply_none [OF this False] show False using assms(2) by simp
  qed
  then have e: "icmp_rx_eth i f n = Some r" using assms(1) False by (simp add: net_proto_rx_def)
  then have e': "icmp_rx_eth i (frame_of r) n' = Some r'" using assms(2) icmp_eth_only [OF e False] by simp
  have "icmp_rx_ip i (frame_of r') 14 (n'' - 14) (Some 6) = None"
    by (rule icmp_rx_no_third [OF icmp_eth_type(3) [OF e] icmp_eth_type(3) [OF e']]) simp_all
  then have "icmp_rx_eth i (frame_of r') n'' = None" by (simp add: icmp_rx_eth_def)
  then show ?thesis using icmp_eth_only [OF e' False] by simp
qed

lemma reply_depth_decreases:
  assumes "net_proto_rx i f n = Some r"
  shows "reply_depth i (frame_of r) (length r) < reply_depth i f n"
proof (cases "net_proto_rx i (frame_of r) (length r)")
  case None
  then show ?thesis using assms by (simp add: reply_depth_def)
next
  case (Some r')
  have "net_proto_rx i (frame_of r') (length r') = None" by (rule no_third_reply [OF assms Some])
  then show ?thesis using assms Some by (simp add: reply_depth_def)
qed

lemma proto_ignores_stats [simp]: "net_proto_rx (i\<lparr>stats := t\<rparr>) = net_proto_rx i"
proof -
  have "arp_rx (i\<lparr>stats := t\<rparr>) = arp_rx i" by (rule ext)+ (simp add: arp_rx_def)
  moreover have "icmp_reply (i\<lparr>stats := t\<rparr>) = icmp_reply i" by (rule ext)+ (simp add: icmp_reply_def reply_header_def)
  then have "icmp_rx_ip (i\<lparr>stats := t\<rparr>) = icmp_rx_ip i" by (intro ext) (simp add: icmp_rx_ip_def Let_def split: option.split)
  ultimately show ?thesis by (intro ext) (simp add: net_proto_rx_def icmp_rx_eth_def split: option.split)
qed

lemma depth_ignores_stats [simp]: "reply_depth (i\<lparr>stats := t\<rparr>) = reply_depth i"
  by (intro ext) (simp add: reply_depth_def split: option.split)

text \<open>The receive and the transmit path call each other through the loopback interface.\<close>

function net_rx :: "((nat \<times> u8 list) list \<Rightarrow> nat \<Rightarrow> u8 list \<Rightarrow> int) \<Rightarrow> nat \<Rightarrow> (nat \<Rightarrow> u8) \<Rightarrow> nat \<Rightarrow> net \<Rightarrow> net"
  and net_transmit :: "((nat \<times> u8 list) list \<Rightarrow> nat \<Rightarrow> u8 list \<Rightarrow> int) \<Rightarrow> nat \<Rightarrow> u8 list \<Rightarrow> net \<Rightarrow> int \<times> net" where
  "net_rx drv a f len s =
     (if a = 0 \<or> len = 0 \<or> len > NET_MAX_FRAME then s
      else case net_proto_rx (iface s a) f len of
        Some r \<Rightarrow> snd (net_transmit drv a r (count_rx a len s))
      | None \<Rightarrow> queue_frame a f len (count_rx a len s))"
| "net_transmit drv a bs s =
     (if a = 0 \<or> \<not> may_transmit (iface s a) (length bs) then (-1, s)
      else if transmit (iface s a) = Lo_transmit
        then (0, count_tx a (length bs) 0 (net_rx drv a (frame_of bs) (length bs) s))
      else let (ret, s) = card_transmit drv a bs s in (ret, count_tx a (length bs) ret s))"
  by pat_completeness auto
termination
proof (relation "measure (case_sum (\<lambda>(drv, a, f, len, s). 2 * reply_depth (iface s a) f len)
    (\<lambda>(drv, a, bs, s). 2 * reply_depth (iface s a) (frame_of bs) (length bs) + 1))", goal_cases)
  case 1
  then show ?case by simp
next
  case (2 drv a f len s r)
  have "reply_depth (iface (count_rx a len s) a) = reply_depth (iface s a)"
    by (simp add: count_rx_def upd_stats_def upd_iface_def)
  then show ?case using reply_depth_decreases [OF 2(2)] by simp
next
  case (3 drv a bs s)
  then show ?case by simp
qed

declare net_rx.simps [simp del] net_transmit.simps [simp del]

definition net_poll :: "nat \<Rightarrow> net \<Rightarrow> int" where
  "net_poll a s = (if a \<noteq> 0 \<and> rx_head (iface s a) \<noteq> 0 then 1 else 0)"

definition net_recv :: "nat \<Rightarrow> nat \<Rightarrow> net \<Rightarrow> int \<times> u8 list \<times> net" where
  "net_recv a buflen s =
     (if a = 0 then (0, [], s)
      else let p = rx_head (iface s a) in
        if p = 0 then (0, [], s)
        else let s = upd_iface a (\<lambda>i. i\<lparr>rx_head := next_pkt (g_pool s p)\<rparr>) s;
                 s = (if rx_head (iface s a) = 0 then upd_iface a (\<lambda>i. i\<lparr>rx_tail := 0\<rparr>) s else s);
                 s = upd_iface a (\<lambda>i. i\<lparr>rx_count := sub32 (rx_count i) 1\<rparr>) s;
                 n = (if pk_len (g_pool s p) < buflen then pk_len (g_pool s p) else buflen)
             in (to_int n, bytes_at (pk_data (g_pool s p)) 0 n, pool_put p s))"

definition copy4 :: "u8 list \<Rightarrow> (nat \<Rightarrow> u8) \<Rightarrow> nat \<Rightarrow> u8" where
  "copy4 bs old i = (if i < 4 then bs ! i else old i)"

definition net_set_ip :: "nat \<Rightarrow> u8 list \<Rightarrow> u8 list \<Rightarrow> u8 list \<Rightarrow> net \<Rightarrow> net" where
  "net_set_ip a ipb mb gb s =
     (if a = 0 then s
      else upd_iface a (\<lambda>i. i\<lparr>ip := copy4 ipb (ip i), netmask := copy4 mb (netmask i), gw := copy4 gb (gw i)\<rparr>) s)"

section \<open>System calls\<close>

text \<open>\<open>None\<close> is a page fault in the kernel, \<open>Some None\<close> the result -1.\<close>

fun name_loop :: "user_mem \<Rightarrow> nat \<Rightarrow> nat \<Rightarrow> u8 list \<Rightarrow> u8 list option option" where
  "name_loop u va 0 acc = Some (Some acc)"
| "name_loop u va (Suc n) acc =
     (case get_user u va 1 of
        None \<Rightarrow> None
      | Some None \<Rightarrow> Some None
      | Some (Some bs) \<Rightarrow> if bs ! 0 = 0 then Some (Some acc) else name_loop u (w32 (va + 1)) n (acc @ [bs ! 0]))"

definition copy_name_from_user :: "user_mem \<Rightarrow> nat \<Rightarrow> nat \<Rightarrow> u8 list option option" where
  "copy_name_from_user u va n = (if \<not> valid_user_pointer (fst u) va 1 then Some None else name_loop u va (n - 1) [])"

definition le_bytes :: "nat \<Rightarrow> u8 list" where
  "le_bytes n = [word_of_nat n, word_of_nat (n div 256), word_of_nat (n div 65536), word_of_nat (n div 16777216)]"

text \<open>\<^verbatim>\<open>net_ifconfig_t\<close> in memory.\<close>

definition ifconfig_bytes :: "net_iface \<Rightarrow> u8 list" where
  "ifconfig_bytes i =
     take 15 (if_name i) @ replicate (16 - length (take 15 (if_name i))) 0 @ bytes_at (mac i) 0 6 @ bytes_at (ip i) 0 4 @
     bytes_at (netmask i) 0 4 @ bytes_at (gw i) 0 4 @ [0, 0] @ le_bytes (unat (mtu i)) @ le_bytes (unat (if_flags i)) @
     le_bytes (rx_packets (stats i)) @ le_bytes (tx_packets (stats i)) @ le_bytes (rx_bytes (stats i)) @
     le_bytes (tx_bytes (stats i)) @ le_bytes (rx_dropped (stats i)) @ le_bytes (tx_dropped (stats i))"

definition ENODEV :: int where "ENODEV = 19"
definition EIO :: int where "EIO = 5"

definition sys_net_ifconfig :: "int \<Rightarrow> nat \<Rightarrow> net \<Rightarrow> user_mem \<Rightarrow> (int \<times> user_mem) option" where
  "sys_net_ifconfig index out s u =
     (let a = net_get_iface index s in
      if a = 0 then Some (- ENODEV, u)
      else if \<not> valid_user_pointer (fst u) out 68 then Some (- EFAULT, u)
      else case put_user u out (ifconfig_bytes (iface s a)) of
        None \<Rightarrow> None | Some (ok, u) \<Rightarrow> Some (if ok then 0 else - EFAULT, u))"

definition sys_net_send :: "((nat \<times> u8 list) list \<Rightarrow> nat \<Rightarrow> u8 list \<Rightarrow> int) \<Rightarrow> nat \<Rightarrow> nat \<Rightarrow> nat \<Rightarrow> user_mem \<Rightarrow> net \<Rightarrow> (int \<times> net) option" where
  "sys_net_send drv name frame len u s =
     (if \<not> valid_user_pointer (fst u) name 1 then Some (- EFAULT, s)
      else if len = 0 \<or> len > NET_MAX_FRAME then Some (- EINVAL, s)
      else if \<not> valid_user_pointer (fst u) frame len then Some (- EFAULT, s)
      else case copy_name_from_user u name NET_NAME_LEN of
        None \<Rightarrow> None
      | Some None \<Rightarrow> Some (- EFAULT, s)
      | Some (Some nm) \<Rightarrow>
          (let a = net_find_iface nm s in
           if a = 0 then Some (- ENODEV, s)
           else if if_flags (iface s a) AND NET_IF_UP = 0 then Some (- ENODEV, s)
           else case get_user u frame len of
             None \<Rightarrow> None
           | Some None \<Rightarrow> Some (- EFAULT, s)
           | Some (Some bs) \<Rightarrow>
               (let (ret, s) = net_transmit drv a bs s in Some (if ret \<noteq> 0 then - EIO else to_int len, s))))"

datatype recv_outcome = Received int user_mem net | Recv_fault | Recv_asleep net

text \<open>\<open>env\<close>: for each time the sleeper is woken the memory, the network and the pending signals at that time.\<close>

fun net_recv_loop :: "nat \<Rightarrow> nat \<Rightarrow> nat \<Rightarrow> bool \<Rightarrow> user_mem \<Rightarrow> net \<Rightarrow> u32 \<Rightarrow> (user_mem \<times> net \<times> u32) list \<Rightarrow> recv_outcome" where
  "net_recv_loop a dst buflen block u s pend env =
     (let (n, bs, s) = net_recv a NET_MAX_FRAME s in
      if n > 0 then
        let sz = (if buflen < nat n then buflen else nat n)
        in (case put_user u dst (take sz bs) of
              None \<Rightarrow> Recv_fault
            | Some (ok, u) \<Rightarrow> Received (if ok then to_int sz else - EFAULT) u s)
      else if \<not> block then Received 0 u s
      else if pend \<noteq> 0 then Received (- EINTR) u s
      else case env of [] \<Rightarrow> Recv_asleep s | (u, s, pend) # env \<Rightarrow> net_recv_loop a dst buflen block u s pend env)"

definition sys_net_recv :: "nat \<Rightarrow> nat \<Rightarrow> nat \<Rightarrow> bool \<Rightarrow> user_mem \<Rightarrow> net \<Rightarrow> u32 \<Rightarrow> (user_mem \<times> net \<times> u32) list \<Rightarrow> recv_outcome" where
  "sys_net_recv name dst buflen block u s pend env =
     (if \<not> valid_user_pointer (fst u) name 1 then Received (- EFAULT) u s
      else if buflen = 0 then Received 0 u s
      else if \<not> valid_user_pointer (fst u) dst buflen then Received (- EFAULT) u s
      else case copy_name_from_user u name NET_NAME_LEN of
        None \<Rightarrow> Recv_fault
      | Some None \<Rightarrow> Received (- EFAULT) u s
      | Some (Some nm) \<Rightarrow>
          (let a = net_find_iface nm s in
           if a = 0 then Received (- ENODEV) u s else net_recv_loop a dst buflen block u s pend env))"

definition sys_net_setip :: "nat \<Rightarrow> nat \<Rightarrow> nat \<Rightarrow> nat \<Rightarrow> user_mem \<Rightarrow> net \<Rightarrow> (int \<times> net) option" where
  "sys_net_setip name pip pmask pgw u s =
     (if \<not> valid_user_pointer (fst u) name 1 then Some (- EFAULT, s)
      else if pip = 0 \<or> pmask = 0 \<or> pgw = 0 then Some (- EFAULT, s)
      else if \<not> valid_user_pointer (fst u) pip 4 \<or> \<not> valid_user_pointer (fst u) pmask 4 \<or> \<not> valid_user_pointer (fst u) pgw 4
        then Some (- EFAULT, s)
      else case copy_name_from_user u name NET_NAME_LEN of
        None \<Rightarrow> None
      | Some None \<Rightarrow> Some (- EFAULT, s)
      | Some (Some nm) \<Rightarrow>
          (let a = net_find_iface nm s in
           if a = 0 then Some (- ENODEV, s)
           else case get_user u pip 4 of None \<Rightarrow> None | Some None \<Rightarrow> Some (- EFAULT, s) | Some (Some ipb) \<Rightarrow>
             (case get_user u pmask 4 of None \<Rightarrow> None | Some None \<Rightarrow> Some (- EFAULT, s) | Some (Some mb) \<Rightarrow>
               (case get_user u pgw 4 of None \<Rightarrow> None | Some None \<Rightarrow> Some (- EFAULT, s) | Some (Some gb) \<Rightarrow>
                 Some (0, net_set_ip a ipb mb gb s)))))"

end
