(* ===== verification/Net_Queue.thy ===== *)
theory Net_Queue
  imports Net "HOL-Library.Multiset"
begin

text \<open>
  The packet pool and the receive queues of \<open>Net\<close>: the 48 packets are always either free or in exactly one queue,
  and each queue is first in, first out.
\<close>

section \<open>Linked packets\<close>

fun chain :: "(nat \<Rightarrow> nat) \<Rightarrow> nat \<Rightarrow> nat list \<Rightarrow> bool" where
  "chain nx p [] \<longleftrightarrow> p = 0"
| "chain nx p (x # xs) \<longleftrightarrow> p = x \<and> x \<noteq> 0 \<and> chain nx (nx x) xs"

lemma link_cong: "(\<And>x. x \<in> set xs \<Longrightarrow> nx' x = nx x) \<Longrightarrow> chain nx' p xs = chain nx p xs"
  by (induction xs arbitrary: p) auto

lemma chain_snoc: "chain nx p xs \<Longrightarrow> xs \<noteq> [] \<Longrightarrow> (\<And>y. y \<in> set (butlast xs) \<Longrightarrow> nx' y = nx y) \<Longrightarrow>
  nx' (last xs) = x \<Longrightarrow> nx' x = 0 \<Longrightarrow> x \<noteq> 0 \<Longrightarrow> chain nx' p (xs @ [x])"
proof (induction xs arbitrary: p)
  case (Cons y ys)
  show ?case
  proof (cases "ys = []")
    case False
    then have "chain nx' (nx y) (ys @ [x])" by (intro Cons.IH) (use Cons.prems in auto)
    then show ?thesis using Cons.prems False by simp
  qed (use Cons.prems in auto)
qed simp

lemma chain_nonzero: "chain nx p xs \<Longrightarrow> xs \<noteq> [] \<Longrightarrow> last xs \<noteq> 0"
  by (induction xs arbitrary: p) auto

lemma chain_unique: "chain nx p xs \<Longrightarrow> chain nx p ys \<Longrightarrow> xs = ys"
proof (induction xs arbitrary: p ys)
  case Nil
  then show ?case by (cases ys) auto
next
  case (Cons x xs)
  then show ?case by (cases ys) auto
qed

text \<open>The list from \<open>p\<close> on; no list is longer than the pool.\<close>

fun follow :: "(nat \<Rightarrow> nat) \<Rightarrow> nat \<Rightarrow> nat \<Rightarrow> nat list" where
  "follow nx 0 p = []"
| "follow nx (Suc n) p = (if p = 0 then [] else p # follow nx n (nx p))"

lemma follow_chain: "chain nx p xs \<Longrightarrow> length xs \<le> n \<Longrightarrow> follow nx n p = xs"
proof (induction xs arbitrary: p n)
  case Nil
  then show ?case by (cases n) auto
next
  case (Cons x xs)
  then show ?case by (cases n) auto
qed

abbreviation (input) nexts :: "net \<Rightarrow> nat \<Rightarrow> nat" where "nexts s \<equiv> \<lambda>p. next_pkt (g_pool s p)"

definition free_pkts :: "net \<Rightarrow> nat list" where
  "free_pkts s = follow (nexts s) NET_POOL_SIZE (g_pool_free s)"

definition rx_queue :: "net \<Rightarrow> nat \<Rightarrow> nat list" where
  "rx_queue s a = follow (nexts s) NET_POOL_SIZE (rx_head (iface s a))"

definition pkt_bytes :: "net_pkt \<Rightarrow> u8 list" where
  "pkt_bytes p = bytes_at (pk_data p) 0 (pk_len p)"

definition rx_frames :: "net \<Rightarrow> nat \<Rightarrow> u8 list list" where
  "rx_frames s a = map (\<lambda>p. pkt_bytes (g_pool s p)) (rx_queue s a)"

text \<open>\<open>F\<close> are the free packets and \<open>Q a\<close> the packets received on \<open>a\<close>.\<close>

definition queue_rel :: "net \<Rightarrow> nat \<Rightarrow> nat list \<Rightarrow> bool" where
  "queue_rel s a q \<longleftrightarrow> chain (nexts s) (rx_head (iface s a)) q \<and>
     rx_tail (iface s a) = (if q = [] then 0 else last q) \<and> rx_count (iface s a) = length q \<and>
     (\<forall>p \<in> set q. 0 < pk_len (g_pool s p) \<and> pk_len (g_pool s p) \<le> NET_MAX_FRAME)"

definition net_rel :: "net \<Rightarrow> nat list \<Rightarrow> (nat \<Rightarrow> nat list) \<Rightarrow> bool" where
  "net_rel s F Q \<longleftrightarrow> distinct (g_ifaces s) \<and> 0 \<notin> set (g_ifaces s) \<and> chain (nexts s) (g_pool_free s) F \<and>
     (\<forall>a \<in> set (g_ifaces s). queue_rel s a (Q a)) \<and>
     distinct (F @ concat (map Q (g_ifaces s))) \<and> set (F @ concat (map Q (g_ifaces s))) = {1..NET_POOL_SIZE}"

definition net_ok :: "net \<Rightarrow> bool" where
  "net_ok s \<longleftrightarrow> net_rel s (free_pkts s) (rx_queue s)"

lemma net_rel_lengths:
  assumes "net_rel s F Q" "a \<in> set (g_ifaces s)"
  shows "length F \<le> NET_POOL_SIZE" "length (Q a) \<le> NET_POOL_SIZE" "length F + sum_list (map (length \<circ> Q) (g_ifaces s)) = NET_POOL_SIZE"
proof -
  have "distinct (F @ concat (map Q (g_ifaces s)))" using assms(1) unfolding net_rel_def by blast
  then have "card (set (F @ concat (map Q (g_ifaces s)))) = length (F @ concat (map Q (g_ifaces s)))" by (rule distinct_card)
  then show l: "length F + sum_list (map (length \<circ> Q) (g_ifaces s)) = NET_POOL_SIZE"
    using assms(1) by (simp add: net_rel_def length_concat comp_def)
  then show "length F \<le> NET_POOL_SIZE" by simp
  have "length (Q a) \<le> sum_list (map (length \<circ> Q) (g_ifaces s))" using assms(2) by (intro member_le_sum_list) auto
  then show "length (Q a) \<le> NET_POOL_SIZE" using l by simp
qed

lemma net_rel_unique:
  assumes "net_rel s F Q"
  shows "free_pkts s = F" "\<And>a. a \<in> set (g_ifaces s) \<Longrightarrow> rx_queue s a = Q a" "net_ok s"
proof -
  have "distinct (F @ concat (map Q (g_ifaces s)))" using assms(1) unfolding net_rel_def by blast
  then have "card (set (F @ concat (map Q (g_ifaces s)))) = length (F @ concat (map Q (g_ifaces s)))" by (rule distinct_card)
  then have "length F \<le> NET_POOL_SIZE" using assms(1) by (simp add: net_rel_def)
  then show f: "free_pkts s = F" unfolding free_pkts_def using assms by (intro follow_chain) (simp add: net_rel_def)
  show q: "rx_queue s a = Q a" if "a \<in> set (g_ifaces s)" for a
    unfolding rx_queue_def using net_rel_lengths(2) [OF assms that] assms that by (intro follow_chain) (simp_all add: net_rel_def queue_rel_def)
  have m: "map (rx_queue s) (g_ifaces s) = map Q (g_ifaces s)" using q by simp
  have "\<forall>a \<in> set (g_ifaces s). queue_rel s a (rx_queue s a)" using assms q by (simp add: net_rel_def)
  then show "net_ok s" using assms unfolding net_ok_def net_rel_def m f by blast
qed

section \<open>Queueing\<close>

lemma upd_iface_sel [simp]:
  "iface (upd_iface a g s) b = (if b = a then g (iface s a) else iface s b)" "g_ifaces (upd_iface a g s) = g_ifaces s"
  "g_pool (upd_iface a g s) = g_pool s" "g_pool_free (upd_iface a g s) = g_pool_free s" "wire (upd_iface a g s) = wire s" "rx_wakes (upd_iface a g s) = rx_wakes s"
  by (simp_all add: upd_iface_def)

lemma upd_pkt_sel [simp]:
  "g_pool (upd_pkt p g s) q = (if q = p then g (g_pool s p) else g_pool s q)" "g_ifaces (upd_pkt p g s) = g_ifaces s"
  "iface (upd_pkt p g s) = iface s" "g_pool_free (upd_pkt p g s) = g_pool_free s" "wire (upd_pkt p g s) = wire s" "rx_wakes (upd_pkt p g s) = rx_wakes s"
  by (simp_all add: upd_pkt_def)

text \<open>What a change of the other fields leaves alone.\<close>

lemma net_rel_cong:
  assumes "g_ifaces s' = g_ifaces s" "g_pool s' = g_pool s" "g_pool_free s' = g_pool_free s"
    "\<And>a. rx_head (iface s' a) = rx_head (iface s a) \<and> rx_tail (iface s' a) = rx_tail (iface s a) \<and> rx_count (iface s' a) = rx_count (iface s a)"
  shows "net_rel s' F Q = net_rel s F Q"
  using assms by (simp add: net_rel_def queue_rel_def)

lemma same_queues:
  assumes "g_pool s' = g_pool s" "g_pool_free s' = g_pool_free s" "\<And>a. rx_head (iface s' a) = rx_head (iface s a)"
  shows "free_pkts s' = free_pkts s" "rx_queue s' = rx_queue s" "rx_frames s' = rx_frames s"
  using assms by (auto simp: free_pkts_def rx_queue_def rx_frames_def fun_eq_iff)

lemma mset_concat_upd:
  assumes "distinct as" "a \<in> set as"
  shows "mset (concat (map (Q(a := xs)) as)) + mset (Q a) = mset (concat (map Q as)) + mset xs"
  using assms
proof (induction as)
  case (Cons b as)
  show ?case
  proof (cases "a = b")
    case True
    then have m: "map (Q(a := xs)) as = map Q as" using Cons.prems by (intro map_cong) auto
    show ?thesis unfolding list.map concat.simps m using True by simp
  qed (use Cons in auto)
qed simp

lemma distinct_concat_disjoint:
  "distinct as \<Longrightarrow> distinct (concat (map Q as)) \<Longrightarrow> b \<in> set as \<Longrightarrow> c \<in> set as \<Longrightarrow> b \<noteq> c \<Longrightarrow> x \<in> set (Q b) \<Longrightarrow> x \<notin> set (Q c)"
  by (induction as) auto

text \<open>One frame more.\<close>

lemma queue_frame_effect:
  assumes "g_pool_free s = p" "p \<noteq> 0" "rx_tail (iface s a) \<noteq> p"
  shows "g_ifaces (queue_frame a f len s) = g_ifaces s" "g_pool_free (queue_frame a f len s) = next_pkt (g_pool s p)"
    "rx_head (iface (queue_frame a f len s) b) = (if b = a \<and> rx_tail (iface s a) = 0 then p else rx_head (iface s b))"
    "rx_tail (iface (queue_frame a f len s) b) = (if b = a then p else rx_tail (iface s b))"
    "rx_count (iface (queue_frame a f len s) b) = (if b = a then w32 (rx_count (iface s a) + 1) else rx_count (iface s b))"
    "next_pkt (g_pool (queue_frame a f len s) x) =
      (if x \<noteq> 0 \<and> x = rx_tail (iface s a) then p else if x = p then 0 else next_pkt (g_pool s x))"
    "pk_len (g_pool (queue_frame a f len s) x) = (if x = p then len else pk_len (g_pool s x))"
    "pkt_bytes (g_pool (queue_frame a f len s) x) = (if x = p then bytes_at f 0 len else pkt_bytes (g_pool s x))"
  using assms by (auto simp: queue_frame_def pool_get_def Let_def pkt_bytes_def bytes_at_def)

lemma queue_frame_ok:
  assumes "net_rel s F Q" "a \<in> set (g_ifaces s)" "0 < len" "len \<le> NET_MAX_FRAME"
  shows "net_ok (queue_frame a f len s)"
    "rx_frames (queue_frame a f len s) a = (if F = [] then rx_frames s a else rx_frames s a @ [bytes_at f 0 len])"
    "\<And>b. b \<in> set (g_ifaces s) \<Longrightarrow> b \<noteq> a \<Longrightarrow> rx_frames (queue_frame a f len s) b = rx_frames s b"
    "length (free_pkts (queue_frame a f len s)) = length F - 1"
proof -
  let ?s = "queue_frame a f len s"
  have "net_ok ?s \<and> rx_frames ?s a = (if F = [] then rx_frames s a else rx_frames s a @ [bytes_at f 0 len]) \<and>
    (\<forall>b \<in> set (g_ifaces s). b \<noteq> a \<longrightarrow> rx_frames ?s b = rx_frames s b) \<and> length (free_pkts ?s) = length F - 1"
  proof (cases F)
    case Nil
    then have e: "?s = upd_stats a (\<lambda>t. t\<lparr>rx_dropped := w32 (rx_dropped t + 1)\<rparr>) s"
      using assms(1) by (simp add: queue_frame_def pool_get_def net_rel_def)
    have "net_rel ?s F Q" using assms(1) unfolding e by (subst net_rel_cong [of _ s]) (simp_all add: upd_stats_def)
    then show ?thesis using net_rel_unique(1,3) [of ?s F Q] Nil same_queues(3) [of ?s s] unfolding e by (simp add: upd_stats_def)
  next
    case (Cons p F')
    then have p: "g_pool_free s = p" "p \<noteq> 0" "chain (nexts s) (next_pkt (g_pool s p)) F'" using assms(1) by (auto simp: net_rel_def)
    have R: "queue_rel s a (Q a)" "distinct (g_ifaces s)" "0 \<notin> set (g_ifaces s)" using assms(1,2) by (simp_all add: net_rel_def)
    have t: "rx_tail (iface s a) = (if Q a = [] then 0 else last (Q a))" using R(1) by (simp add: queue_rel_def)
    have D: "distinct (F @ concat (map Q (g_ifaces s)))" using assms(1) unfolding net_rel_def by blast
    have pF: "p \<notin> set F'" and pQ: "\<And>b. b \<in> set (g_ifaces s) \<Longrightarrow> p \<notin> set (Q b)" using D Cons by auto
    have FQ: "\<And>b x. b \<in> set (g_ifaces s) \<Longrightarrow> x \<in> set (Q b) \<Longrightarrow> x \<notin> set F'" using D Cons by auto
    have QQ: "\<And>b c x. b \<in> set (g_ifaces s) \<Longrightarrow> c \<in> set (g_ifaces s) \<Longrightarrow> b \<noteq> c \<Longrightarrow> x \<in> set (Q b) \<Longrightarrow> x \<notin> set (Q c)"
      using D distinct_concat_disjoint [OF R(2)] by (metis distinct_append)
    have tp: "rx_tail (iface s a) \<noteq> p" using t pQ [OF assms(2)] p(2) by (auto split: if_splits)
    note E = queue_frame_effect [OF p(1,2) tp, of f len]
    let ?Q = "Q(a := Q a @ [p])"
    have K: "chain (nexts ?s) y xs = chain (nexts s) y xs" if "p \<notin> set xs" "rx_tail (iface s a) = 0 \<or> rx_tail (iface s a) \<notin> set xs" for xs y
      by (intro link_cong) (use that in \<open>auto simp: E\<close>)
    have tF: "rx_tail (iface s a) = 0 \<or> rx_tail (iface s a) \<notin> set F'" using FQ [OF assms(2)] t by (auto split: if_splits)
    have "chain (nexts ?s) (g_pool_free ?s) F'" using p(3) K [OF pF tF] E(2) by simp
    moreover have "queue_rel ?s b (?Q b)" if b: "b \<in> set (g_ifaces s)" for b
    proof (cases "b = a")
      case False
      have tb: "rx_tail (iface s a) = 0 \<or> rx_tail (iface s a) \<notin> set (Q b)" using QQ [OF assms(2) b, of "last (Q a)"] t False by (auto split: if_splits)
      have "queue_rel s b (Q b)" using assms(1) b by (simp add: net_rel_def)
      then show ?thesis using K [OF pQ [OF b] tb] False pQ [OF b] unfolding queue_rel_def by (simp add: E)
    next
      case True
      have q: "chain (nexts s) (rx_head (iface s a)) (Q a)" using R(1) by (simp add: queue_rel_def)
      have "chain (nexts ?s) (rx_head (iface ?s a)) (Q a @ [p])"
      proof (cases "Q a = []")
        case True
        then show ?thesis using p(2) t by (simp add: E)
      next
        case ne: False
        have dq: "distinct (Q a)" using D assms(2) by (auto simp: distinct_concat_iff)
        have z: "rx_tail (iface s a) = last (Q a)" "last (Q a) \<noteq> 0" using t ne chain_nonzero [OF q] by auto
        have "\<And>y. y \<in> set (butlast (Q a)) \<Longrightarrow> y \<noteq> last (Q a) \<and> y \<noteq> p"
          using dq ne pQ [OF assms(2)] by (metis append_butlast_last_id distinct_append in_set_butlastD disjoint_iff list.set_intros(1))
        then have "chain (nexts ?s) (rx_head (iface s a)) (Q a @ [p])"
          using q ne z tp p(2) by (intro chain_snoc [of "nexts s"]) (auto simp: E)
        then show ?thesis using z by (simp add: E)
      qed
      moreover have "length (Q a) < NET_POOL_SIZE"
        using net_rel_lengths(3) [OF assms(1,2)] member_le_sum_list [of "length (Q a)" "map (length \<circ> Q) (g_ifaces s)"] assms(2) Cons by auto
      then have "w32 (length (Q a) + 1) = length (Q a) + 1" by (simp add: NET_POOL_SIZE_def)
      ultimately show ?thesis using R(1) True assms(3,4) unfolding queue_rel_def by (auto simp: E)
    qed
    moreover have "mset (F' @ concat (map ?Q (g_ifaces s))) = mset (F @ concat (map Q (g_ifaces s)))"
      using mset_concat_upd [OF R(2) assms(2), of Q "Q a @ [p]"] Cons by simp
    then have "distinct (F' @ concat (map ?Q (g_ifaces s))) = distinct (F @ concat (map Q (g_ifaces s)))"
      "set (F' @ concat (map ?Q (g_ifaces s))) = set (F @ concat (map Q (g_ifaces s)))"
      by (rule mset_eq_imp_distinct_iff, rule mset_eq_setD)
    ultimately have N: "net_rel ?s F' ?Q" using assms(1) unfolding net_rel_def E by blast
    note U = net_rel_unique [OF N] and U0 = net_rel_unique [OF assms(1)]
    have "rx_frames ?s a = rx_frames s a @ [bytes_at f 0 len]"
      using pQ [OF assms(2)] U(2) [of a] U0(2) [of a] assms(2) by (simp add: rx_frames_def E cong: map_cong)
    moreover have "rx_frames ?s b = rx_frames s b" if "b \<in> set (g_ifaces s)" "b \<noteq> a" for b
      using pQ [OF that(1)] U(2) [of b] U0(2) [of b] that by (simp add: rx_frames_def E cong: map_cong)
    ultimately show ?thesis using U(1,3) Cons by simp
  qed
  then show "net_ok ?s" "rx_frames ?s a = (if F = [] then rx_frames s a else rx_frames s a @ [bytes_at f 0 len])"
    "\<And>b. b \<in> set (g_ifaces s) \<Longrightarrow> b \<noteq> a \<Longrightarrow> rx_frames ?s b = rx_frames s b" "length (free_pkts ?s) = length F - 1"
    by blast+
qed

section \<open>Taking a frame\<close>

lemma net_recv_effect:
  assumes "a \<noteq> 0" "rx_head (iface s a) = p" "p \<noteq> 0"
  obtains s' where "net_recv a n s = (to_int (min n (pk_len (g_pool s p))), bytes_at (pk_data (g_pool s p)) 0 (min n (pk_len (g_pool s p))), s')"
    "g_ifaces s' = g_ifaces s" "g_pool_free s' = p"
    "\<And>b. rx_head (iface s' b) = (if b = a then next_pkt (g_pool s p) else rx_head (iface s b))"
    "\<And>b. rx_tail (iface s' b) = (if b = a \<and> next_pkt (g_pool s p) = 0 then 0 else rx_tail (iface s b))"
    "\<And>b. rx_count (iface s' b) = (if b = a then sub32 (rx_count (iface s a)) 1 else rx_count (iface s b))"
    "\<And>x. next_pkt (g_pool s' x) = (if x = p then g_pool_free s else next_pkt (g_pool s x))"
    "\<And>x. pk_len (g_pool s' x) = pk_len (g_pool s x)" "\<And>x. pk_data (g_pool s' x) = pk_data (g_pool s x)"
proof -
  let ?s' = "snd (snd (net_recv a n s))"
  have m: "(if pk_len (g_pool s p) < n then pk_len (g_pool s p) else n) = min n (pk_len (g_pool s p))" by simp
  have "net_recv a n s = (to_int (min n (pk_len (g_pool s p))), bytes_at (pk_data (g_pool s p)) 0 (min n (pk_len (g_pool s p))), ?s')"
    using assms unfolding m [symmetric] by (simp add: net_recv_def Let_def)
  moreover have "g_ifaces ?s' = g_ifaces s" "g_pool_free ?s' = p"
    "rx_head (iface ?s' b) = (if b = a then next_pkt (g_pool s p) else rx_head (iface s b))"
    "rx_tail (iface ?s' b) = (if b = a \<and> next_pkt (g_pool s p) = 0 then 0 else rx_tail (iface s b))"
    "rx_count (iface ?s' b) = (if b = a then sub32 (rx_count (iface s a)) 1 else rx_count (iface s b))"
    "next_pkt (g_pool ?s' x) = (if x = p then g_pool_free s else next_pkt (g_pool s x))"
    "pk_len (g_pool ?s' x) = pk_len (g_pool s x)" "pk_data (g_pool ?s' x) = pk_data (g_pool s x)" for b x
    using assms by (simp_all add: net_recv_def pool_put_def Let_def)
  ultimately show ?thesis by (rule that)
qed

lemma net_recv_ok:
  assumes "net_rel s F Q" "a \<in> set (g_ifaces s)" "Q a = p # q" "net_recv a n s = (ret, bs, s')"
  shows "net_rel s' (p # F) (Q(a := q))" "bs = take n (pkt_bytes (g_pool s p))" "ret = int (length bs)"
    "pkt_bytes (g_pool s' x) = pkt_bytes (g_pool s x)" "g_ifaces s' = g_ifaces s" "0 < length (pkt_bytes (g_pool s p))" "length (pkt_bytes (g_pool s p)) \<le> NET_MAX_FRAME"
proof -
  have R: "queue_rel s a (p # q)" "distinct (g_ifaces s)" "0 \<notin> set (g_ifaces s)" "a \<noteq> 0"
    using assms(1,2) unfolding net_rel_def assms(3) [symmetric] by auto
  have h: "rx_head (iface s a) = p" "p \<noteq> 0" "chain (nexts s) (next_pkt (g_pool s p)) q" "0 < pk_len (g_pool s p)" "pk_len (g_pool s p) \<le> NET_MAX_FRAME"
    using R(1) by (auto simp: queue_rel_def)
  obtain s1 where e: "net_recv a n s = (to_int (min n (pk_len (g_pool s p))), bytes_at (pk_data (g_pool s p)) 0 (min n (pk_len (g_pool s p))), s1)"
    and E: "g_ifaces s1 = g_ifaces s" "g_pool_free s1 = p"
      "\<And>b. rx_head (iface s1 b) = (if b = a then next_pkt (g_pool s p) else rx_head (iface s b))"
      "\<And>b. rx_tail (iface s1 b) = (if b = a \<and> next_pkt (g_pool s p) = 0 then 0 else rx_tail (iface s b))"
      "\<And>b. rx_count (iface s1 b) = (if b = a then sub32 (rx_count (iface s a)) 1 else rx_count (iface s b))"
      "\<And>x. next_pkt (g_pool s1 x) = (if x = p then g_pool_free s else next_pkt (g_pool s x))"
      "\<And>x. pk_len (g_pool s1 x) = pk_len (g_pool s x)" "\<And>x. pk_data (g_pool s1 x) = pk_data (g_pool s x)"
    by (rule net_recv_effect [OF R(4) h(1,2), of n]) (rule that)
  have s1: "s' = s1" "bs = bytes_at (pk_data (g_pool s p)) 0 (min n (pk_len (g_pool s p)))" "ret = to_int (min n (pk_len (g_pool s p)))"
    using assms(4) unfolding e by auto
  show "bs = take n (pkt_bytes (g_pool s p))" unfolding s1 by (cases "n \<le> pk_len (g_pool s p)") (simp_all add: pkt_bytes_def bytes_at_def take_map min_def)
  show "ret = int (length bs)" using h(5) unfolding s1 by (simp add: NET_MAX_FRAME_def)
  show "pkt_bytes (g_pool s' x) = pkt_bytes (g_pool s x)" "g_ifaces s' = g_ifaces s" unfolding s1 by (simp_all add: pkt_bytes_def E)
  show "0 < length (pkt_bytes (g_pool s p))" "length (pkt_bytes (g_pool s p)) \<le> NET_MAX_FRAME" using h(4,5) by (simp_all add: pkt_bytes_def)
  have D: "distinct (F @ concat (map Q (g_ifaces s)))" using assms(1) unfolding net_rel_def by blast
  have dq: "p \<notin> set q" using D assms(2,3) by (fastforce simp: distinct_concat_iff)
  have "p \<in> set (Q a)" using assms(3) by simp
  then have pF: "p \<notin> set F" using D assms(2) by auto
  have pQ: "p \<notin> set (Q b)" if "b \<in> set (g_ifaces s)" "b \<noteq> a" for b
    using D distinct_concat_disjoint [OF R(2), of Q a b p] assms(2,3) that by (simp add: distinct_append)
  have K: "chain (nexts s1) y xs = chain (nexts s) y xs" if "p \<notin> set xs" for xs y
    by (intro link_cong) (use that in \<open>auto simp: E\<close>)
  have "chain (nexts s) (g_pool_free s) F" using assms(1) by (simp add: net_rel_def)
  then have "chain (nexts s1) (g_pool_free s1) (p # F)" using K [OF pF] h(2) by (simp add: E)
  moreover have "queue_rel s1 b ((Q(a := q)) b)" if b: "b \<in> set (g_ifaces s)" for b
  proof (cases "b = a")
    case False
    have "queue_rel s b (Q b)" using assms(1) b by (simp add: net_rel_def)
    then show ?thesis using K [OF pQ [OF b False]] False unfolding queue_rel_def by (simp add: E)
  next
    case True
    have "length (p # q) \<le> NET_POOL_SIZE" using net_rel_lengths(2) [OF assms(1,2)] assms(3) by simp
    then have "sub32 (length (p # q)) 1 = length q" by (simp add: NET_POOL_SIZE_def)
    moreover have "next_pkt (g_pool s p) = 0 \<longleftrightarrow> q = []" using h(3) by (cases q) auto
    ultimately show ?thesis using True R(1) K [OF dq] h(3) unfolding queue_rel_def by (auto simp: E)
  qed
  moreover have "mset ((p # F) @ concat (map (Q(a := q)) (g_ifaces s))) = mset (F @ concat (map Q (g_ifaces s)))"
    using mset_concat_upd [OF R(2) assms(2), of Q q] assms(3) by simp
  then have "distinct ((p # F) @ concat (map (Q(a := q)) (g_ifaces s))) = distinct (F @ concat (map Q (g_ifaces s)))"
    "set ((p # F) @ concat (map (Q(a := q)) (g_ifaces s))) = set (F @ concat (map Q (g_ifaces s)))"
    by (rule mset_eq_imp_distinct_iff, rule mset_eq_setD)
  ultimately show "net_rel s' (p # F) (Q(a := q))" using assms(1) unfolding net_rel_def s1(1) E(1) by blast
qed

lemma net_recv_empty:
  assumes "net_rel s F Q" "a \<in> set (g_ifaces s)" "Q a = []"
  shows "net_recv a n s = (0, [], s)"
  using assms by (auto simp: net_rel_def queue_rel_def net_recv_def)

section \<open>All operations\<close>

text \<open>Neither statistics nor addresses matter to the queues.\<close>

lemma upd_stats_ok [simp]: "net_ok (upd_stats a g s) = net_ok s" "rx_frames (upd_stats a g s) = rx_frames s"
  "g_ifaces (upd_stats a g s) = g_ifaces s" "free_pkts (upd_stats a g s) = free_pkts s"
proof -
  have q: "free_pkts (upd_stats a g s) = free_pkts s" "rx_queue (upd_stats a g s) = rx_queue s" "rx_frames (upd_stats a g s) = rx_frames s"
    by (rule same_queues; simp add: upd_stats_def)+
  then show "rx_frames (upd_stats a g s) = rx_frames s" "free_pkts (upd_stats a g s) = free_pkts s" by blast+
  show "net_ok (upd_stats a g s) = net_ok s" unfolding net_ok_def q(1,2) by (rule net_rel_cong) (simp_all add: upd_stats_def)
  show "g_ifaces (upd_stats a g s) = g_ifaces s" by (simp add: upd_stats_def)
qed

lemma count_ok [simp]: "net_ok (count_rx a len s) = net_ok s" "rx_frames (count_rx a len s) = rx_frames s"
  "g_ifaces (count_rx a len s) = g_ifaces s" "free_pkts (count_rx a len s) = free_pkts s"
  "net_ok (count_tx a len r s) = net_ok s" "rx_frames (count_tx a len r s) = rx_frames s" "g_ifaces (count_tx a len r s) = g_ifaces s"
  by (simp_all add: count_rx_def count_tx_def)

lemma card_ok [simp]: "net_ok (snd (card_transmit drv a bs s)) = net_ok s" "g_ifaces (snd (card_transmit drv a bs s)) = g_ifaces s"
proof -
  let ?s = "snd (card_transmit drv a bs s)"
  have q: "free_pkts ?s = free_pkts s" "rx_queue ?s = rx_queue s"
    by (rule same_queues; simp add: card_transmit_def)+
  show "net_ok ?s = net_ok s" unfolding net_ok_def q by (rule net_rel_cong) (simp_all add: card_transmit_def)
  show "g_ifaces ?s = g_ifaces s" by (simp add: card_transmit_def)
qed

lemma queue_frame_ifaces [simp]: "g_ifaces (queue_frame a f len s) = g_ifaces s"
  by (simp add: queue_frame_def pool_get_def Let_def upd_stats_def)

lemma net_rx_keeps:
  "net_ok s \<Longrightarrow> a \<in> set (g_ifaces s) \<Longrightarrow> net_ok (net_rx drv a f len s) \<and> g_ifaces (net_rx drv a f len s) = g_ifaces s"
  "net_ok s \<Longrightarrow> a \<in> set (g_ifaces s) \<Longrightarrow> net_ok (snd (net_transmit drv a bs s)) \<and> g_ifaces (snd (net_transmit drv a bs s)) = g_ifaces s"
proof (induction drv a f len s and drv a bs s rule: net_rx_net_transmit.induct)
  case (1 drv a f len s)
  show ?case
  proof (cases "a = 0 \<or> len = 0 \<or> len > NET_MAX_FRAME")
    case True
    then show ?thesis using 1 by (simp add: net_rx.simps [of drv a f len s])
  next
    case F: False
    have c: "net_ok (count_rx a len s)" "a \<in> set (g_ifaces (count_rx a len s))" using 1(2,3) by simp_all
    show ?thesis
    proof (cases "net_proto_rx (iface s a) f len")
      case None
      have "net_ok (queue_frame a f len (count_rx a len s))"
        using queue_frame_ok(1) [OF c(1) [unfolded net_ok_def] c(2), of len f] F by simp
      then show ?thesis using None F by (simp add: net_rx.simps [of drv a f len s])
    next
      case (Some r)
      show ?thesis using 1(1) [OF F Some c] Some F by (simp add: net_rx.simps [of drv a f len s])
    qed
  qed
next
  case (2 drv a bs s)
  show ?case
  proof (cases "a = 0 \<or> \<not> may_transmit (iface s a) (length bs)")
    case True
    then show ?thesis using 2 by (simp add: net_transmit.simps [of drv a bs s])
  next
    case F: False
    show ?thesis
    proof (cases "transmit (iface s a) = Lo_transmit")
      case True
      show ?thesis using 2(1) [OF F True 2(2,3)] True F by (simp add: net_transmit.simps [of drv a bs s])
    next
      case False
      obtain ret s' where c: "card_transmit drv a bs s = (ret, s')" by (cases "card_transmit drv a bs s") auto
      then show ?thesis using False F 2(2,3) card_ok [of drv a bs s] by (simp add: net_transmit.simps [of drv a bs s])
    qed
  qed
qed

lemma net_recv_keeps:
  assumes "net_ok s" "a \<in> set (g_ifaces s)"
  shows "net_ok (snd (snd (net_recv a n s))) \<and> g_ifaces (snd (snd (net_recv a n s))) = g_ifaces s"
proof (cases "rx_queue s a")
  case Nil
  then show ?thesis using net_recv_empty [OF assms(1) [unfolded net_ok_def] assms(2) Nil] assms by simp
next
  case (Cons p q)
  obtain ret bs s' where e: "net_recv a n s = (ret, bs, s')" by (cases "net_recv a n s") auto
  show ?thesis using net_recv_ok(1,5) [OF assms(1) [unfolded net_ok_def] assms(2) Cons e] net_rel_unique(3) unfolding e by auto
qed

lemma net_set_ip_keeps: "net_ok (net_set_ip a ipb mb gb s) = net_ok s" "g_ifaces (net_set_ip a ipb mb gb s) = g_ifaces s"
proof -
  let ?s = "net_set_ip a ipb mb gb s"
  have q: "free_pkts ?s = free_pkts s" "rx_queue ?s = rx_queue s" by (rule same_queues; simp add: net_set_ip_def)+
  show "net_ok ?s = net_ok s" unfolding net_ok_def q by (rule net_rel_cong) (simp_all add: net_set_ip_def)
  show "g_ifaces ?s = g_ifaces s" by (simp add: net_set_ip_def)
qed

text \<open>A driver fills in the structure of an interface before it registers it.\<close>

lemma prepare_ok:
  assumes "net_ok s" "a \<notin> set (g_ifaces s)"
  shows "net_ok (upd_iface a g s)"
proof -
  have "net_rel (upd_iface a g s) (free_pkts s) (rx_queue s)"
    using assms unfolding net_ok_def net_rel_def by (auto simp: queue_rel_def)
  then show ?thesis by (rule net_rel_unique(3))
qed

lemma register_keeps:
  assumes "net_ok s"
  shows "net_ok (snd (net_register_iface a s))"
proof (cases "a = 0 \<or> length (g_ifaces s) \<ge> MAX_NET_IFACES \<or> net_find_iface (if_name (iface s a)) s \<noteq> 0")
  case True
  then show ?thesis using assms by (auto simp: net_register_iface_def)
next
  case False
  have z: "0 \<notin> set (g_ifaces s)" using assms by (simp add: net_ok_def net_rel_def)
  have new: "a \<notin> set (g_ifaces s)"
  proof
    assume a: "a \<in> set (g_ifaces s)"
    obtain b where "find (\<lambda>a'. if_name (iface s a') = if_name (iface s a)) (g_ifaces s) = Some b"
      using a by (cases "find (\<lambda>a'. if_name (iface s a') = if_name (iface s a)) (g_ifaces s)") (auto simp: find_None_iff)
    moreover from this have "b \<in> set (g_ifaces s)" by (auto simp: find_Some_iff)
    ultimately show False using False z by (auto simp: net_find_iface_def)
  qed
  let ?s = "upd_iface a (\<lambda>i. i\<lparr>rx_head := 0, rx_tail := 0, rx_count := 0\<rparr>) s"
  have e: "snd (net_register_iface a s) = ?s\<lparr>g_ifaces := g_ifaces s @ [a]\<rparr>" using False by (simp add: net_register_iface_def Let_def)
  let ?Q = "(rx_queue s)(a := [])"
  have m: "map ?Q (g_ifaces s) = map (rx_queue s) (g_ifaces s)" using new by auto
  have c: "concat (map ?Q (g_ifaces s @ [a])) = concat (map (rx_queue s) (g_ifaces s))" unfolding map_append m by simp
  have g: "g_ifaces (?s\<lparr>g_ifaces := g_ifaces s @ [a]\<rparr>) = g_ifaces s @ [a]" by simp
  have R: "net_rel s (free_pkts s) (rx_queue s)" using assms by (simp add: net_ok_def)
  have "net_rel (?s\<lparr>g_ifaces := g_ifaces s @ [a]\<rparr>) (free_pkts s) ?Q"
    unfolding net_rel_def
  proof (intro conjI)
    show "\<forall>b \<in> set (g_ifaces (?s\<lparr>g_ifaces := g_ifaces s @ [a]\<rparr>)). queue_rel (?s\<lparr>g_ifaces := g_ifaces s @ [a]\<rparr>) b (?Q b)"
      using R new by (auto simp: queue_rel_def net_rel_def)
    show "distinct (free_pkts s @ concat (map ?Q (g_ifaces (?s\<lparr>g_ifaces := g_ifaces s @ [a]\<rparr>))))"
      "set (free_pkts s @ concat (map ?Q (g_ifaces (?s\<lparr>g_ifaces := g_ifaces s @ [a]\<rparr>)))) = {1..NET_POOL_SIZE}"
      unfolding g c using R unfolding net_rel_def by blast+
  qed (use R new False in \<open>simp_all add: net_rel_def\<close>)
  then show ?thesis unfolding e by (rule net_rel_unique(3))
qed

lemma pool_init_chain:
  assumes "g_pool_free s = 0"
  shows "chain (nexts (pool_init_loop [0..<n] s)) (g_pool_free (pool_init_loop [0..<n] s)) (rev [1..<n + 1]) \<and>
    iface (pool_init_loop [0..<n] s) = iface s \<and> g_ifaces (pool_init_loop [0..<n] s) = g_ifaces s"
proof (induction n)
  case (Suc n)
  have snoc: "pool_init_loop (xs @ [i]) s = pool_init_loop [i] (pool_init_loop xs s)" for xs i s
    by (induction xs arbitrary: s) simp_all
  let ?s = "pool_init_loop [0..<n] s"
  have "chain (nexts (upd_pkt (n + 1) (\<lambda>p. p\<lparr>next_pkt := g_pool_free ?s\<rparr>) ?s)) y (rev [1..<n + 1]) = chain (nexts ?s) y (rev [1..<n + 1])" for y
    by (intro link_cong) auto
  then show ?case using Suc by (simp add: snoc)
qed (use assms in simp)

lemma net_init_ok:
  assumes "g_pool_free s = 0" "g_ifaces s = []" "lo \<noteq> 0"
  shows "net_ok (net_init lo s)"
proof -
  let ?s = "pool_init s"
  have c: "chain (nexts ?s) (g_pool_free ?s) (rev [1..<NET_POOL_SIZE + 1])" "g_ifaces ?s = []"
    using pool_init_chain [OF assms(1), of NET_POOL_SIZE] assms(2) by (simp_all add: pool_init_def)
  have "net_rel ?s (rev [1..<NET_POOL_SIZE + 1]) (\<lambda>_. [])" using c by (auto simp: net_rel_def)
  then have ok: "net_ok ?s" by (rule net_rel_unique(3))
  define i where "i = \<lparr>if_name = [108, 111], mac = (\<lambda>_. 0), ip = frame_of [127, 0, 0, 1], netmask = frame_of [255, 0, 0, 0], gw = (\<lambda>_. 0),
        mtu = 65536, if_type = NET_IFACE_LOOPBACK, if_flags = NET_IF_UP OR NET_IF_LOOPBACK,
        stats = \<lparr>rx_packets = 0, tx_packets = 0, rx_bytes = 0, tx_bytes = 0, rx_dropped = 0, tx_dropped = 0\<rparr>,
        transmit = Lo_transmit, rx_head = 0, rx_tail = 0, rx_count = 0\<rparr>"
  have "net_ok (upd_iface lo (\<lambda>_. i) ?s)" using prepare_ok [OF ok] c(2) by simp
  then show ?thesis unfolding net_init_def loopback_init_def i_def [symmetric]
    by (intro register_keeps) (simp add: upd_iface_def)
qed

inductive net_step :: "((nat \<times> u8 list) list \<Rightarrow> nat \<Rightarrow> u8 list \<Rightarrow> int) \<Rightarrow> net \<Rightarrow> net \<Rightarrow> bool" for drv where
  Rx: "a \<in> set (g_ifaces s) \<Longrightarrow> net_step drv s (net_rx drv a f len s)"
| Tx: "a \<in> set (g_ifaces s) \<Longrightarrow> net_step drv s (snd (net_transmit drv a bs s))"
| Recv: "a \<in> set (g_ifaces s) \<Longrightarrow> net_step drv s (snd (snd (net_recv a n s)))"
| Set_ip: "net_step drv s (net_set_ip a ipb mb gb s)"
| Prepare: "a \<notin> set (g_ifaces s) \<Longrightarrow> net_step drv s (upd_iface a (\<lambda>_. i) s)"
| Register: "net_step drv s (snd (net_register_iface a s))"

lemma net_step_ok: "net_step drv s s' \<Longrightarrow> net_ok s \<Longrightarrow> net_ok s'"
  by (induction rule: net_step.induct) (simp_all add: net_rx_keeps net_recv_keeps net_set_ip_keeps prepare_ok register_keeps)

section \<open>The pool and the queues\<close>

text \<open>
  C19: no packet is lost or shared. From the initialisation on, under every sequence of receptions, transmissions, reads,
  address changes and registrations, each of the 48 packets of the pool is either free or in the queue of exactly one
  interface, exactly once, and the counter of an interface is the length of its queue.
\<close>

theorem net_pool_conserved:
  assumes "g_pool_free s0 = 0" "g_ifaces s0 = []" "lo \<noteq> 0" "(net_step drv)\<^sup>*\<^sup>* (net_init lo s0) s"
  shows "distinct (free_pkts s @ concat (map (rx_queue s) (g_ifaces s))) \<and>
    set (free_pkts s @ concat (map (rx_queue s) (g_ifaces s))) = {1..NET_POOL_SIZE} \<and>
    (\<forall>a \<in> set (g_ifaces s). rx_count (iface s a) = length (rx_frames s a))"
proof -
  have "net_ok s" using assms(4) net_init_ok [OF assms(1-3)] net_step_ok by (induction rule: rtranclp_induct) auto
  then show ?thesis unfolding net_ok_def net_rel_def queue_rel_def rx_frames_def by simp
qed

lemma net_queue_laws:
  assumes "net_ok s" "a \<in> set (g_ifaces s)"
  shows "0 < len \<and> len \<le> NET_MAX_FRAME \<and> net_proto_rx (iface s a) f len = None \<longrightarrow>
      rx_frames (net_rx drv a f len s) a = (if free_pkts s = [] then rx_frames s a else rx_frames s a @ [bytes_at f 0 len]) \<and>
      (\<forall>b \<in> set (g_ifaces s). b \<noteq> a \<longrightarrow> rx_frames (net_rx drv a f len s) b = rx_frames s b)"
    and "rx_frames s a = [] \<longrightarrow> net_recv a n s = (0, [], s)"
    and "rx_frames s a = x # xs \<longrightarrow> (\<exists>s'. net_recv a n s = (int (min n (length x)), take n x, s') \<and> net_ok s' \<and> rx_frames s' a = xs \<and>
      (\<forall>b \<in> set (g_ifaces s). b \<noteq> a \<longrightarrow> rx_frames s' b = rx_frames s b) \<and> length (free_pkts s') = length (free_pkts s) + 1)"
proof -
  have R: "net_rel s (free_pkts s) (rx_queue s)" and a0: "a \<noteq> 0" using assms by (auto simp: net_ok_def net_rel_def)
  show "0 < len \<and> len \<le> NET_MAX_FRAME \<and> net_proto_rx (iface s a) f len = None \<longrightarrow>
      rx_frames (net_rx drv a f len s) a = (if free_pkts s = [] then rx_frames s a else rx_frames s a @ [bytes_at f 0 len]) \<and>
      (\<forall>b \<in> set (g_ifaces s). b \<noteq> a \<longrightarrow> rx_frames (net_rx drv a f len s) b = rx_frames s b)"
  proof
    assume l: "0 < len \<and> len \<le> NET_MAX_FRAME \<and> net_proto_rx (iface s a) f len = None"
    have e: "net_rx drv a f len s = queue_frame a f len (count_rx a len s)" using l a0 by (simp add: net_rx.simps [of drv a f len s])
    have c: "net_ok (count_rx a len s)" "a \<in> set (g_ifaces (count_rx a len s))" using assms by simp_all
    show "rx_frames (net_rx drv a f len s) a = (if free_pkts s = [] then rx_frames s a else rx_frames s a @ [bytes_at f 0 len]) \<and>
      (\<forall>b \<in> set (g_ifaces s). b \<noteq> a \<longrightarrow> rx_frames (net_rx drv a f len s) b = rx_frames s b)"
      unfolding e using queue_frame_ok(2,3) [OF c(1) [unfolded net_ok_def] c(2), where len = len and f = f] l by simp
  qed
  show "rx_frames s a = [] \<longrightarrow> net_recv a n s = (0, [], s)" using net_recv_empty [OF R assms(2)] by (simp add: rx_frames_def)
  show "rx_frames s a = x # xs \<longrightarrow> (\<exists>s'. net_recv a n s = (int (min n (length x)), take n x, s') \<and> net_ok s' \<and> rx_frames s' a = xs \<and>
      (\<forall>b \<in> set (g_ifaces s). b \<noteq> a \<longrightarrow> rx_frames s' b = rx_frames s b) \<and> length (free_pkts s') = length (free_pkts s) + 1)"
  proof
    assume "rx_frames s a = x # xs"
    then obtain p q where q: "rx_queue s a = p # q" "x = pkt_bytes (g_pool s p)" "xs = map (\<lambda>p. pkt_bytes (g_pool s p)) q"
      by (cases "rx_queue s a") (auto simp: rx_frames_def)
    obtain ret bs s' where e: "net_recv a n s = (ret, bs, s')" by (cases "net_recv a n s") auto
    note N = net_recv_ok [OF R assms(2) q(1) e]
    note U = net_rel_unique [OF N(1)]
    have "rx_frames s' a = xs" "\<And>b. b \<in> set (g_ifaces s) \<Longrightarrow> b \<noteq> a \<Longrightarrow> rx_frames s' b = rx_frames s b"
      using U(2) N(4,5) assms(2) by (simp_all add: rx_frames_def q(3))
    then show "\<exists>s'. net_recv a n s = (int (min n (length x)), take n x, s') \<and> net_ok s' \<and> rx_frames s' a = xs \<and>
      (\<forall>b \<in> set (g_ifaces s). b \<noteq> a \<longrightarrow> rx_frames s' b = rx_frames s b) \<and> length (free_pkts s') = length (free_pkts s) + 1"
      using e N(2,3) U(1,3) q(2) by (intro exI [of _ s']) (auto simp: min.commute)
  qed
qed

text \<open>
  the queue of an interface is first in, first out. A frame that the kernel does not answer itself is appended to the
  queue of its interface, or dropped if no packet is free; a read takes the oldest frame, cut to the size of the buffer;
  the queues of the other interfaces stay as they are.
\<close>

theorem net_queue_fifo:
  assumes "net_ok s" "a \<in> set (g_ifaces s)"
  shows "(0 < len \<and> len \<le> NET_MAX_FRAME \<and> net_proto_rx (iface s a) f len = None \<longrightarrow>
      rx_frames (net_rx drv a f len s) a = (if free_pkts s = [] then rx_frames s a else rx_frames s a @ [bytes_at f 0 len]) \<and>
      (\<forall>b \<in> set (g_ifaces s). b \<noteq> a \<longrightarrow> rx_frames (net_rx drv a f len s) b = rx_frames s b)) \<and>
    (rx_frames s a = [] \<longrightarrow> net_recv a n s = (0, [], s)) \<and>
    (\<forall>x xs. rx_frames s a = x # xs \<longrightarrow> (\<exists>s'. net_recv a n s = (int (min n (length x)), take n x, s') \<and> net_ok s' \<and> rx_frames s' a = xs \<and>
      (\<forall>b \<in> set (g_ifaces s). b \<noteq> a \<longrightarrow> rx_frames s' b = rx_frames s b) \<and> length (free_pkts s') = length (free_pkts s) + 1))"
  using net_queue_laws [OF assms] by blast

end
