(* ===== verification/Net_Proto.thy ===== *)
theory Net_Proto
  imports Net_Queue
begin

text \<open>
  The answers of the kernel to ARP and ICMP: checksums, the echo over the loopback interface, and where the replies
  are wrong. Also the concrete networks on which the theorems on \<open>Net\<close> are applied.
\<close>

section \<open>The Internet checksum\<close>

fun sum16 :: "u8 list \<Rightarrow> nat" where
  "sum16 [] = 0"
| "sum16 [a] = unat a * 256"
| "sum16 (a # b # bs) = unat a * 256 + unat b + sum16 bs"

lemma unat_byte: "unat (a :: u8) < 256"
  proof -
  have "unat a < 2 ^ LENGTH(8)" by (rule unsigned_less)
  then show ?thesis by simp
qed

lemma sum16_bound: "sum16 bs \<le> 65535 * length bs"
proof (induction bs rule: sum16.induct)
  case (2 a)
  then show ?case using unat_byte [of a] by simp
next
  case (3 a b bs)
  then show ?case using unat_byte [of a] unat_byte [of b] by simp
qed simp

lemma ck_sum_sum16: "acc + 65535 * length bs < 4294967296 \<Longrightarrow> ck_sum acc bs = acc + sum16 bs"
proof (induction acc bs rule: ck_sum.induct)
  case (2 acc a)
  then show ?case using unat_byte [of a] by simp
next
  case (3 acc a b bs)
  have u: "unat a < 256" "unat b < 256" by (rule unat_byte)+
  have w: "w32 (acc + (unat a * 256 + unat b)) = acc + (unat a * 256 + unat b)" using 3(2) u by simp
  have "ck_sum acc (a # b # bs) = ck_sum (acc + (unat a * 256 + unat b)) bs" using w by simp
  also have "\<dots> = acc + (unat a * 256 + unat b) + sum16 bs" using 3(1) 3(2) u w by simp
  finally show ?case by simp
qed simp

lemma sum16_append: "even (length xs) \<Longrightarrow> sum16 (xs @ ys) = sum16 xs + sum16 ys"
  by (induction xs rule: sum16.induct) auto

lemma fold_props: "ck_fold n mod 65535 = n mod 65535 \<and> ck_fold n < 65536 \<and> (ck_fold n = 0 \<longleftrightarrow> n = 0)"
proof (induction n rule: ck_fold.induct)
  case (1 n)
  show ?case
  proof (cases "n div 65536 = 0")
    case True
    then have "ck_fold n = n" "n < 65536" by (simp_all add: ck_fold.simps [of n])
    then show ?thesis by simp
  next
    case False
    have e: "ck_fold n = ck_fold (n mod 65536 + n div 65536)" using False by (subst ck_fold.simps) simp
    have n: "n = 65535 * (n div 65536) + (n mod 65536 + n div 65536)" by simp
    have "n mod 65535 = (n mod 65536 + n div 65536) mod 65535" by (subst n) (simp only: mod_mult_self4)
    then show ?thesis using 1 [OF False] False unfolding e by auto
  qed
qed

text \<open>A sum folds to all ones exactly if it is a positive multiple of 65535.\<close>

lemma fold_ones: "ck_fold n = 65535 \<longleftrightarrow> n \<noteq> 0 \<and> 65535 dvd n"
proof
  assume "ck_fold n = 65535"
  then show "n \<noteq> 0 \<and> 65535 dvd n" using fold_props [of n] by (auto simp: dvd_eq_mod_eq_0)
next
  assume "n \<noteq> 0 \<and> 65535 dvd n"
  then have "ck_fold n mod 65535 = 0" "ck_fold n < 65536" "ck_fold n \<noteq> 0" using fold_props [of n] by auto
  then have "ck_fold n = 65535 * (ck_fold n div 65535)" "ck_fold n div 65535 \<le> 1" "ck_fold n div 65535 \<noteq> 0" by auto
  then have "ck_fold n div 65535 = 1" by simp
  then show "ck_fold n = 65535" using \<open>ck_fold n = 65535 * (ck_fold n div 65535)\<close> by simp
qed

lemma unat_checksum:
  assumes "length bs \<le> NET_MAX_FRAME"
  shows "unat (net_checksum bs) = 65535 - ck_fold (sum16 bs)"
proof -
  have "ck_sum 0 bs = sum16 bs" using assms by (subst ck_sum_sum16) (simp_all add: NET_MAX_FRAME_def)
  moreover have "ck_fold (sum16 bs) < 65536" using fold_props by blast
  then have "unat (word_of_nat (ck_fold (sum16 bs)) :: u16) = ck_fold (sum16 bs)" by (simp add: unat_of_nat)
  moreover have "unat (NOT w) = 65535 - unat w" for w :: u16
  proof -
    have "NOT w = - 1 - w" by (simp add: not_eq_complement)
    moreover have "unat (- 1 - w) = unat (- 1 :: u16) - unat w" by (rule unat_sub) simp
    moreover have "unat (- 1 :: u16) = 65535" by (simp add: unsigned_minus_1_eq_mask mask_eq_exp_minus_1)
    ultimately show ?thesis by simp
  qed
  ultimately show ?thesis by (simp add: net_checksum_def)
qed

lemma checksum_zero_iff:
  assumes "length bs \<le> NET_MAX_FRAME"
  shows "net_checksum bs = 0 \<longleftrightarrow> sum16 bs \<noteq> 0 \<and> 65535 dvd sum16 bs"
proof -
  have "net_checksum bs = 0 \<longleftrightarrow> unat (net_checksum bs) = 0" by (simp add: unat_eq_0)
  also have "\<dots> \<longleftrightarrow> ck_fold (sum16 bs) = 65535" using unat_checksum [OF assms] fold_props [of "sum16 bs"] by auto
  finally show ?thesis unfolding fold_ones .
qed

section \<open>Echo replies\<close>

lemma bytes_at_Suc: "bytes_at f p (Suc n) = f p # bytes_at f (p + 1) n"
  by (simp add: bytes_at_def upt_conv_Cons del: upt_Suc)

lemma split16: "unat (ucast (drop_bit 8 v) :: u8) * 256 + unat (ucast (v AND 0xFF) :: u8) = unat (v :: u16)"
proof -
  have "unat v < 2 ^ LENGTH(16)" by (rule unsigned_less)
  then have v: "unat v < 65536" by simp
  have h: "unat (ucast (drop_bit 8 v) :: u8) = unat v div 256"
    using v by (simp add: unsigned_ucast_eq unsigned_drop_bit_eq take_bit_eq_mod drop_bit_eq_div unat_div)
  have "v AND 0xFF = take_bit 8 v" by (simp add: take_bit_eq_mask mask_eq_exp_minus_1)
  then have "unat (ucast (v AND 0xFF) :: u8) = unat v mod 256"
    by (simp add: unsigned_ucast_eq unsigned_take_bit_eq take_bit_eq_mod unat_mod)
  then show ?thesis using h by simp
qed

lemma sum16_put_be16:
  assumes "even i" "i + 1 < length bs"
  shows "sum16 (put_be16 i v bs) + (unat (bs ! i) * 256 + unat (bs ! (i + 1))) = sum16 bs + unat v"
proof -
  have s: "bs = take i bs @ bs ! i # bs ! (i + 1) # drop (i + 2) bs" using assms(2) by (metis Cons_nth_drop_Suc Suc_eq_plus1 Suc_lessD add_2_eq_Suc' id_take_nth_drop)
  have l: "length (take i bs) = i" using assms(2) by simp
  have "put_be16 i v bs = take i bs @ (ucast (drop_bit 8 v) :: u8) # ucast (v AND 0xFF) # drop (i + 2) bs"
    unfolding put_be16_def by (subst s) (use l in \<open>simp add: list_update_append\<close>)
  moreover have "unat (ucast (drop_bit 8 v) :: u8) * 256 + unat (ucast (v AND 0xFF) :: u8) = unat v" by (rule split16)
  ultimately have "sum16 (put_be16 i v bs) = sum16 (take i bs) + (unat v + sum16 (drop (i + 2) bs))"
    using assms(1) l by (simp add: sum16_append)
  moreover have "sum16 bs = sum16 (take i bs) + (unat (bs ! i) * 256 + unat (bs ! (i + 1)) + sum16 (drop (i + 2) bs))"
    by (subst s) (use assms(1) l in \<open>simp add: sum16_append\<close>)
  ultimately show ?thesis by simp
qed

lemma sum16_ge: "even i \<Longrightarrow> i + 1 < length bs \<Longrightarrow> unat (bs ! i) * 256 + unat (bs ! (i + 1)) \<le> sum16 bs"
proof (induction bs arbitrary: i rule: sum16.induct)
  case (3 a b bs)
  then show ?case by (cases i) (auto elim!: oddE simp: le_add2 trans_le_add2 split: nat.splits)
qed simp_all

lemma unat_be16: "unat (be16 f p) = unat (f p) * 256 + unat (f (p + 1))"
proof -
  have a: "unat (f p) < 256" "unat (f (p + 1)) < 256" by (rule unat_byte)+
  have "be16 f p = push_bit 8 (ucast (f p)) + ucast (f (p + 1))" unfolding be16_def
    by (rule disjunctive_add [symmetric]) (auto simp: bit_simps dest: bit_imp_le_length)
  moreover have "unat (push_bit 8 (ucast (f p)) :: u16) = unat (f p) * 256"
    unfolding unsigned_push_bit_eq using a by (simp add: unsigned_ucast_eq push_bit_eq_mult take_bit_eq_mod)
  moreover have "unat (ucast (f (p + 1)) :: u16) = unat (f (p + 1))" using a by (simp add: unsigned_ucast_eq take_bit_eq_mod)
  ultimately show ?thesis using a by (simp add: unat_word_ariths)
qed

lemma ones_rest: "65535 dvd a + n \<Longrightarrow> 0 < a \<Longrightarrow> a < 65535 \<Longrightarrow> n mod 65535 = 65535 - (a :: nat)"
proof -
  assume a: "65535 dvd a + n" "0 < a" "a < 65535"
  have r: "n mod 65535 < 65535" by simp
  have "(a + n mod 65535) mod 65535 = 0" using a(1) by (simp add: mod_add_right_eq dvd_eq_mod_eq_0)
  then show ?thesis using a(2,3) r by (simp add: mod_if [of "a + n mod 65535"] split: if_splits)
qed

lemma take_two: "i + 1 < length xs \<Longrightarrow> take 2 (drop i (xs[i := a, i + 1 := b])) = [a, b]"
  by (intro nth_equalityI) (auto simp: less_2_cases_iff nth_list_update)

lemma checksum_filled:
  assumes "even i" "i + 1 < length bs" "length bs \<le> NET_MAX_FRAME" "bs ! i = 0" "bs ! (i + 1) = 0"
  shows "net_checksum (put_be16 i (net_checksum bs) bs) = 0"
proof -
  let ?S = "sum16 bs"
  have s: "sum16 (put_be16 i (net_checksum bs) bs) = ?S + (65535 - ck_fold ?S)"
    using sum16_put_be16 [OF assms(1,2), of "net_checksum bs"] unat_checksum [OF assms(3)] assms(4,5) by simp
  have f: "ck_fold ?S mod 65535 = ?S mod 65535" "ck_fold ?S < 65536" "ck_fold ?S = 0 \<longleftrightarrow> ?S = 0" using fold_props [of ?S] by auto
  have "(?S + (65535 - ck_fold ?S)) mod 65535 = (ck_fold ?S + (65535 - ck_fold ?S)) mod 65535" using f(1) [symmetric] by (rule mod_add_cong) (rule refl)
  then have "65535 dvd ?S + (65535 - ck_fold ?S)" using f(2) by (simp add: dvd_eq_mod_eq_0)
  moreover have "?S + (65535 - ck_fold ?S) \<noteq> 0" using f(3) by (cases "?S = 0") simp_all
  ultimately show ?thesis using checksum_zero_iff [of "put_be16 i (net_checksum bs) bs"] assms(3) s by simp
qed

lemma bytes_at_frame: "p + n \<le> length bs \<Longrightarrow> bytes_at (frame_of bs) p n = take n (drop p bs)"
  by (intro nth_equalityI) (simp_all add: frame_of_def)

lemma header_facts:
  assumes "20 \<le> ihlen" "ihlen \<le> NET_MAX_FRAME"
  shows "net_checksum (reply_header i f p iplen ihlen) = 0" "length (reply_header i f p iplen ihlen) = ihlen"
    "take 4 (drop 12 (reply_header i f p iplen ihlen)) = bytes_at (ip i) 0 4"
    "take 4 (drop 16 (reply_header i f p iplen ihlen)) = bytes_at f (p + 12) 4"
proof -
  have "n = 12 \<or> n = 13 \<or> n = 14 \<or> n = 15 \<or> n = 16 \<or> n = 17 \<or> n = 18 \<or> n = 19" if "12 \<le> n" "n < 20" for n :: nat using that by presburger
  show "net_checksum (reply_header i f p iplen ihlen) = 0"
    unfolding reply_header_def Let_def using assms by (intro checksum_filled) (simp_all add: put_be16_def)
  show "length (reply_header i f p iplen ihlen) = ihlen" using assms by (simp add: reply_header_def Let_def)
  show "take 4 (drop 12 (reply_header i f p iplen ihlen)) = bytes_at (ip i) 0 4"
    "take 4 (drop 16 (reply_header i f p iplen ihlen)) = bytes_at f (p + 12) 4"
    using assms by (intro nth_equalityI; simp add: reply_header_def Let_def nth_put_be16 nth_append)+
qed

text \<open>
  an echo reply answers the request. The reply to an ICMP echo request has a valid IP header checksum (over the
  whole header), comes from our address, goes to the sender of the request, is as long as the request, and its message has
  the type echo reply and the identifier, sequence number and data of the request.
\<close>

theorem echo_reply:
  assumes "icmp_rx_ip i f p iplen None = Some r" "iplen \<le> NET_MAX_FRAME"
  shows "net_checksum (take (ihlen_at f p) r) = 0 \<and> length r = iplen \<and> take 4 (drop 12 r) = bytes_at (ip i) 0 4 \<and>
    take 4 (drop 16 r) = bytes_at f (p + 12) 4 \<and> r ! ihlen_at f p = 0 \<and>
    drop (ihlen_at f p + 4) r = bytes_at f (p + ihlen_at f p + 4) (iplen - ihlen_at f p - 4)"
proof -
  note D = icmp_rx_SomeD [OF assms(1)]
  let ?h = "ihlen_at f p"
  have h: "20 \<le> ?h" "?h \<le> NET_MAX_FRAME" using D(1,2) assms(2) by simp_all
  note H = header_facts [OF h, of i f p iplen] and B = icmp_reply_bytes [OF D(1,2), of i f p]
  have r: "r = icmp_reply i f p iplen ?h" using D(5) by simp
  have "drop (?h + 4) r = drop 4 (reply_message f (p + ?h) (iplen - ?h))" unfolding r icmp_reply_def using H(2) by simp
  also have "\<dots> = bytes_at f (p + ?h + 4) (iplen - ?h - 4)"
    using D(2) by (intro nth_equalityI) (simp_all add: reply_message_def Let_def nth_put_be16 add.assoc)
  finally have m: "drop (?h + 4) r = bytes_at f (p + ?h + 4) (iplen - ?h - 4)" .
  have t: "take 4 (drop n r) = take 4 (drop n (reply_header i f p iplen ?h))" if "n + 4 \<le> 20" for n
    unfolding r icmp_reply_def using H(2) h(1) that by simp
  show ?thesis using H B m t [of 12] t [of 16] unfolding r icmp_reply_def by simp
qed

text \<open>
  C21: the checksum of an echo reply is wrong. If the message of the request has a valid checksum, the kernel writes 0x0800
  into the reply whatever the message, since it sums the old checksum too; the reply is then valid only if the checksum
  field of the request was all zeros or all ones.
\<close>

theorem echo_checksum_constant:
  assumes "net_checksum (bytes_at f q n) = 0" "f q = 8" "8 \<le> n" "n \<le> NET_MAX_FRAME"
  shows "take 2 (drop 2 (reply_message f q n)) = [8, 0] \<and>
    (net_checksum (reply_message f q n) = 0 \<longleftrightarrow> be16 f (q + 2) = 0 \<or> be16 f (q + 2) = 0xFFFF)"
proof -
  let ?m = "bytes_at f q n"
  let ?mz = "?m[0 := 0]"
  define c where "c = unat (f (q + 2)) * 256 + unat (f (q + 3))"
  obtain k where k: "n = Suc (Suc k)" using assms(3) that [of "n - 2"] by simp
  have b: "?m = f q # f (q + 1) # bytes_at f (q + 2) (n - 2)" unfolding k bytes_at_Suc by simp
  have m: "?m = 8 # f (q + 1) # bytes_at f (q + 2) (n - 2)" "?mz = 0 # f (q + 1) # bytes_at f (q + 2) (n - 2)"
    unfolding b using assms(2) by simp_all
  have s: "sum16 ?m = 2048 + sum16 ?mz" unfolding m by simp
  have d: "65535 dvd sum16 ?m" using assms(1) checksum_zero_iff [of ?m] assms(4) by simp
  have f: "ck_fold (sum16 ?mz) mod 65535 = sum16 ?mz mod 65535" "ck_fold (sum16 ?mz) < 65536" using fold_props by auto
  have "sum16 ?mz mod 65535 = 63487" using ones_rest [of 2048] d unfolding s by simp
  then have "ck_fold (sum16 ?mz) mod 65535 = 63487" using f(1) by simp
  then have fold: "ck_fold (sum16 ?mz) = 63487" using f(2) by (simp add: mod_if split: if_splits)
  then have ck: "unat (net_checksum ?mz) = 2048" using unat_checksum [of ?mz] assms(4) by simp
  then have "unat (net_checksum ?mz) = unat (2048 :: u16)" by simp
  then have w: "net_checksum ?mz = 2048" by (simp only: unsigned_word_eqI)
  have r: "reply_message f q n = put_be16 2 2048 ?mz" by (simp add: reply_message_def Let_def w)
  have bt: "(ucast (drop_bit 8 (2048 :: u16)) :: u8) = 8" "(ucast ((2048 :: u16) AND 0xFF) :: u8) = 0" by simp_all
  have "take 2 (drop 2 (reply_message f q n)) = [8, 0]"
    unfolding r bt put_be16_def using assms(3) by (intro take_two) simp
  moreover have "sum16 (reply_message f q n) + c = sum16 ?m"
    using sum16_put_be16 [of 2 ?mz 2048] assms(3) unfolding r c_def s by simp
  then have "65535 dvd sum16 (reply_message f q n) \<longleftrightarrow> 65535 dvd c" "sum16 (reply_message f q n) + c = sum16 ?m"
    using d by (simp_all only: dvd_add_left_iff flip: \<open>sum16 (reply_message f q n) + c = sum16 ?m\<close>) (metis dvd_add_left_iff dvd_add_right_iff)
  moreover have "sum16 (reply_message f q n) \<noteq> 0"
    using sum16_put_be16 [of 2 ?mz 2048] sum16_ge [of 2 ?mz] assms(3) unfolding r by simp
  moreover have "c < 65536" using unat_byte [of "f (q + 2)"] unat_byte [of "f (q + 3)"] unfolding c_def by simp
  moreover have "unat (be16 f (q + 2)) = c" using unat_be16 [of f "q + 2"] by (simp add: c_def numeral_3_eq_3)
  moreover have "65535 dvd c \<longleftrightarrow> c = 0 \<or> c = 65535" if "c < 65536" using that by (auto elim!: dvdE)
  moreover have "be16 f (q + 2) = 0 \<longleftrightarrow> unat (be16 f (q + 2)) = 0" "be16 f (q + 2) = 0xFFFF \<longleftrightarrow> unat (be16 f (q + 2)) = 65535"
    using word_unat_eq_iff [of "be16 f (q + 2)" "0xFFFF"] by (simp_all add: unat_eq_0)
  ultimately show ?thesis using checksum_zero_iff [of "reply_message f q n"] assms(4) by (simp add: r)
qed

text \<open>
  the kernel reads the addresses of an ARP request six bytes too far. A request for our address in a frame of 42 bytes
  is answered only if the four bytes from offset 44 on, past the end of the frame, happen to equal our address; and an
  answer goes to the six bytes at offset 28, not to the sender at offset 22.
\<close>

theorem arp_wrong_offsets:
  assumes "be16 f 12 = 0x0806" "be16 f 14 = 1" "be16 f 16 = 0x0800" "f 18 = 6" "f 19 = 4" "be16 f 20 = 1"
    "bytes_at f 38 4 = bytes_at (ip i) 0 4"
  shows "(arp_rx i f 42 \<noteq> None \<longleftrightarrow> bytes_at f 44 4 = bytes_at (ip i) 0 4) \<and>
    (\<forall>r. arp_rx i f 42 = Some r \<longrightarrow> take 6 r = bytes_at f 28 6)"
  using assms by (simp add: arp_rx_def)

text \<open>
  C20: a ping on the loopback interface comes back. Transmitting a valid echo request with a 20 byte header on the loopback
  interface, while a packet is free, succeeds and puts exactly the reply into the queue of the interface.
\<close>

theorem loopback_ping:
  assumes "net_ok s" "lo \<in> set (g_ifaces s)" "if_type (iface s lo) = NET_IFACE_LOOPBACK" "transmit (iface s lo) = Lo_transmit"
    "may_transmit (iface s lo) (length bs)" "icmp_rx_ip (iface s lo) (frame_of bs) 0 (length bs) None = Some r"
    "ihlen_at (frame_of bs) 0 = 20" "free_pkts s \<noteq> []"
  shows "\<exists>s'. net_transmit drv lo bs s = (0, s') \<and> net_ok s' \<and> rx_frames s' lo = rx_frames s lo @ [r] \<and>
    (\<forall>b \<in> set (g_ifaces s). b \<noteq> lo \<longrightarrow> rx_frames s' b = rx_frames s b)"
proof -
  have l0: "lo \<noteq> 0" using assms(1,2) by (auto simp: net_ok_def net_rel_def)
  have len: "0 < length bs" "length bs \<le> NET_MAX_FRAME" using assms(5) by (auto simp: may_transmit_def)
  note rep = icmp_rx_reply [OF assms(6), simplified]
  define s1 where "s1 = count_rx lo (length bs) s"
  define s2 where "s2 = count_rx lo (length r) s1"
  have st: "\<exists>t. iface s1 lo = (iface s lo)\<lparr>stats := t\<rparr>" by (auto simp: s1_def count_rx_def upd_stats_def)
  then obtain t where i1: "iface s1 lo = (iface s lo)\<lparr>stats := t\<rparr>" by blast
  have n1: "net_proto_rx (iface s lo) (frame_of bs) (length bs) = Some r" using assms(3,6) by (simp add: net_proto_rx_def)
  have "icmp_rx_ip (iface s lo) (frame_of r) 0 (length r) None = None"
  proof (rule ccontr)
    assume "icmp_rx_ip (iface s lo) (frame_of r) 0 (length r) None \<noteq> None"
    then obtain r' where r': "icmp_rx_ip (iface s lo) (frame_of r) 0 (length r) None = Some r'" by auto
    have "ihlen_at (frame_of r) 0 = 20" using rep(2) by (simp add: ihlen_at_def)
    then show False using icmp_rx_SomeD(3) [OF r'] rep(3) assms(7) by simp
  qed
  then have n2: "net_proto_rx (iface s1 lo) (frame_of r) (length r) = None" using assms(3) unfolding i1 by (simp add: net_proto_rx_def [of "iface s lo"])
  have m2: "may_transmit (iface s1 lo) (length r)" using assms(5) rep(1) by (simp add: may_transmit_def i1)
  have ok: "net_ok s2" "lo \<in> set (g_ifaces s2)" "rx_frames s2 = rx_frames s" "free_pkts s2 = free_pkts s" "g_ifaces s2 = g_ifaces s"
    using assms(1,2) by (simp_all add: s1_def s2_def)
  let ?q = "queue_frame lo (frame_of r) (length r) s2"
  have q: "net_ok ?q" "rx_frames ?q lo = rx_frames s lo @ [r]" "\<And>b. b \<in> set (g_ifaces s) \<Longrightarrow> b \<noteq> lo \<Longrightarrow> rx_frames ?q b = rx_frames s b"
    using queue_frame_ok(1-3) [OF ok(1) [unfolded net_ok_def] ok(2), where len = "length r" and f = "frame_of r"] len rep(1) assms(8) ok(3-5) bytes_at_frame [of 0 "length r" r]
    by simp_all
  have rx2: "net_rx drv lo (frame_of r) (length r) s1 = ?q"
    using n2 l0 len rep(1) by (simp add: net_rx.simps [of drv lo "frame_of r"] s2_def)
  have tx1: "net_transmit drv lo r s1 = (0, count_tx lo (length r) 0 ?q)"
    using m2 l0 rx2 assms(4) by (simp add: net_transmit.simps [of drv lo r s1] i1)
  have rx1: "net_rx drv lo (frame_of bs) (length bs) s = count_tx lo (length r) 0 ?q"
    using n1 l0 len tx1 by (simp add: net_rx.simps [of drv lo "frame_of bs"] s1_def)
  have "net_transmit drv lo bs s = (0, count_tx lo (length bs) 0 (count_tx lo (length r) 0 ?q))"
    using assms(4,5) l0 rx1 by (simp add: net_transmit.simps [of drv lo bs s])
  then show ?thesis using q by simp
qed

section \<open>Witnesses\<close>

text \<open>The network after initialisation, an echo request to 127.0.0.1 and an ARP request.\<close>

definition no_net :: net where
  "no_net = \<lparr>iface = (\<lambda>_. undefined), g_ifaces = [], g_pool = (\<lambda>_. \<lparr>next_pkt = 0, pk_iface = 0, pk_len = 0, pk_data = (\<lambda>_. 0)\<rparr>),
     g_pool_free = 0, wire = [], rx_wakes = []\<rparr>"

definition demo_net :: net where
  "demo_net = net_init 1000 no_net"

definition demo_ping :: "u8 list" where
  "demo_ping = [0x45, 0, 0, 28, 0, 0, 0, 0, 64, 1, 0, 0, 127, 0, 0, 1, 127, 0, 0, 1, 8, 0, 0xF7, 0xFF, 0, 0, 0, 0]"

definition demo_arp :: "nat \<Rightarrow> u8" where
  "demo_arp = frame_of (replicate 12 0 @ [8, 6, 0, 1, 8, 0, 6, 4, 0, 1] @ replicate 16 0 @ [127, 0, 0, 1])"

lemma demo_net_ok: "net_ok demo_net"
  unfolding demo_net_def by (rule net_init_ok) (simp_all add: no_net_def)

lemma demo_net_lo: "g_ifaces demo_net = [1000]" "if_type (iface demo_net 1000) = NET_IFACE_LOOPBACK" "transmit (iface demo_net 1000) = Lo_transmit"
  "if_flags (iface demo_net 1000) = 3" "bytes_at (ip (iface demo_net 1000)) 0 4 = [127, 0, 0, 1]" "rx_head (iface demo_net 1000) = 0"
proof -
  have "g_ifaces (pool_init no_net) = []" using pool_init_chain [of no_net NET_POOL_SIZE] by (simp add: pool_init_def no_net_def)
  then show "g_ifaces demo_net = [1000]" "if_type (iface demo_net 1000) = NET_IFACE_LOOPBACK" "transmit (iface demo_net 1000) = Lo_transmit"
    "if_flags (iface demo_net 1000) = 3" "bytes_at (ip (iface demo_net 1000)) 0 4 = [127, 0, 0, 1]" "rx_head (iface demo_net 1000) = 0"
    by (simp_all add: demo_net_def net_init_def loopback_init_def net_register_iface_def net_find_iface_def MAX_NET_IFACES_def Let_def
        NET_IF_UP_def NET_IF_LOOPBACK_def bytes_at_def frame_of_def upt_rec)
qed

lemma demo_frames: "rx_frames demo_net 1000 = []" "free_pkts demo_net \<noteq> []"
proof -
  have q: "rx_queue demo_net 1000 = []" using demo_net_lo(6) by (simp add: rx_queue_def NET_POOL_SIZE_def eval_nat_numeral)
  then show "rx_frames demo_net 1000 = []" by (simp add: rx_frames_def)
  have "set (free_pkts demo_net @ concat (map (rx_queue demo_net) [1000])) = {1..NET_POOL_SIZE}"
    using demo_net_ok unfolding net_ok_def net_rel_def demo_net_lo(1) by blast
  then show "free_pkts demo_net \<noteq> []" using q by (auto simp: NET_POOL_SIZE_def)
qed

lemma demo_echo: "\<exists>r. icmp_rx_ip (iface demo_net 1000) (frame_of demo_ping) 0 28 None = Some r" "ihlen_at (frame_of demo_ping) 0 = 20"
  using demo_net_lo(5) by (simp_all add: icmp_rx_ip_def ihlen_at_def demo_ping_def frame_of_def bytes_at_def upt_rec Let_def)

theorem net_pool_conserved_witness:
  "\<exists>s. (net_step (\<lambda>_ _ _. 0))\<^sup>*\<^sup>* demo_net s \<and> rx_wakes s \<noteq> [] \<and> set (free_pkts s @ concat (map (rx_queue s) (g_ifaces s))) = {1..NET_POOL_SIZE}"
proof -
  let ?s = "net_rx (\<lambda>_ _ _. 0) 1000 (frame_of [1]) 1 demo_net"
  have st: "(net_step (\<lambda>_ _ _. 0))\<^sup>*\<^sup>* demo_net ?s" using demo_net_lo(1) by (intro r_into_rtranclp net_step.Rx) simp
  have z: "g_pool_free demo_net \<noteq> 0"
  proof
    assume "g_pool_free demo_net = 0"
    then show False using demo_frames(2) by (simp add: free_pkts_def NET_POOL_SIZE_def eval_nat_numeral)
  qed
  have "?s = queue_frame 1000 (frame_of [1]) 1 (count_rx 1000 1 demo_net)"
    using demo_net_lo(2) by (simp add: net_rx.simps net_proto_rx_def icmp_rx_ip_def NET_MAX_FRAME_def)
  then have "rx_wakes ?s \<noteq> []" using z by (simp add: queue_frame_def pool_get_def Let_def count_rx_def upd_stats_def)
  then show ?thesis using st net_pool_conserved [of no_net 1000 "\<lambda>_ _ _. 0" ?s] unfolding demo_net_def by (auto simp: no_net_def)
qed

theorem net_queue_fifo_witness: "rx_frames (net_rx (\<lambda>_ _ _. 0) 1000 (frame_of [1, 2]) 2 demo_net) 1000 = [[1, 2]]"
proof -
  have "net_proto_rx (iface demo_net 1000) (frame_of [1, 2]) 2 = None" using demo_net_lo(2) by (simp add: net_proto_rx_def icmp_rx_ip_def)
  then show ?thesis
    using net_queue_fifo [OF demo_net_ok, of 1000 2 "frame_of [1, 2]" "\<lambda>_ _ _. 0"] demo_net_lo(1) demo_frames bytes_at_frame [of 0 2 "[1, 2]"]
    by (simp add: NET_MAX_FRAME_def)
qed

theorem echo_reply_witness: "\<exists>r. icmp_rx_ip (iface demo_net 1000) (frame_of demo_ping) 0 28 None = Some r \<and> length r = 28"
proof -
  obtain r where r: "icmp_rx_ip (iface demo_net 1000) (frame_of demo_ping) 0 28 None = Some r" using demo_echo(1) by blast
  show ?thesis using echo_reply [OF r] r by (auto simp: NET_MAX_FRAME_def)
qed

theorem echo_checksum_constant_witness:
  "take 2 (drop 2 (reply_message (frame_of demo_ping) 20 8)) = [8, 0] \<and> net_checksum (reply_message (frame_of demo_ping) 20 8) \<noteq> 0"
proof -
  have b: "bytes_at (frame_of demo_ping) 20 8 = [8, 0, 0xF7, 0xFF, 0, 0, 0, 0]" by (simp add: bytes_at_def frame_of_def demo_ping_def upt_rec)
  have "net_checksum [8, 0, 0xF7, 0xFF, 0, 0, 0, 0] = 0" by (subst checksum_zero_iff) (simp_all add: NET_MAX_FRAME_def)
  moreover have "be16 (frame_of demo_ping) 22 \<noteq> 0" "be16 (frame_of demo_ping) 22 \<noteq> 0xFFFF"
    by (simp_all add: be16_def frame_of_def demo_ping_def)
  ultimately show ?thesis using echo_checksum_constant [of "frame_of demo_ping" 20 8] b by (simp add: frame_of_def demo_ping_def NET_MAX_FRAME_def)
qed

theorem arp_wrong_offsets_witness: "arp_rx (iface demo_net 1000) demo_arp 42 = None"
proof -
  have "bytes_at demo_arp 44 4 = [0, 0, 0, 0]" by (simp add: bytes_at_def demo_arp_def frame_of_def upt_rec)
  then show ?thesis using arp_wrong_offsets [of demo_arp "iface demo_net 1000"] demo_net_lo(5)
    by (simp add: be16_def demo_arp_def frame_of_def nth_append bytes_at_def upt_rec)
qed

theorem loopback_ping_witness: "\<exists>s' r. net_transmit (\<lambda>_ _ _. 0) 1000 demo_ping demo_net = (0, s') \<and> rx_frames s' 1000 = [r]"
proof -
  have l: "length demo_ping = 28" by (simp add: demo_ping_def)
  obtain r where r: "icmp_rx_ip (iface demo_net 1000) (frame_of demo_ping) 0 (length demo_ping) None = Some r" using demo_echo(1) l by auto
  have "may_transmit (iface demo_net 1000) (length demo_ping)"
    using demo_net_lo(3,4) l by (simp add: may_transmit_def NET_IF_UP_def NET_MAX_FRAME_def)
  then show ?thesis
    using loopback_ping [OF demo_net_ok _ demo_net_lo(2,3) _ r demo_echo(2) demo_frames(2), of "\<lambda>_ _ _. 0"] demo_net_lo(1) demo_frames(1) by auto
qed

end
