(* ===== verification/Minix3.thy ===== *)
theory Minix3
  imports Block_Cache Elf
begin

text \<open>
  The Minix file system on disk, \<^verbatim>\<open>fs/minix3/super.c\<close>, \<^verbatim>\<open>inode.c\<close>, \<^verbatim>\<open>file.c\<close> and
  \<^verbatim>\<open>dir.c\<close>, on the cached block devices of \<open>Block_Cache\<close>. A structure in memory is a record; a block is the list of
  its bytes; what the buffer on the stack holds before a read is a field of the mounted file system. The clock is the
  argument \<open>now\<close>. Block and zone numbers are natural numbers that become 32-bit words as sectors.
\<close>

section \<open>Data\<close>

record minix3_inode =
  i_mode :: u16
  i_nlinks :: nat
  i_uid :: nat
  i_gid :: nat
  i_size :: nat
  i_atime :: nat
  i_mtime :: nat
  i_ctime :: nat
  i_zone :: "nat list"

record minix3_super_block =
  s_ninodes :: nat
  s_imap_blocks :: nat
  s_zmap_blocks :: nat
  s_firstdatazone :: nat
  s_zones :: nat
  s_magic :: nat
  s_blocksize :: nat

record 'd minix3 =
  sb :: minix3_super_block
  device_id :: int
  partition_id :: int
  block_size :: nat
  inode_table_block :: nat
  data_zone_start :: nat
  inode_bitmap :: "nat \<Rightarrow> u8"
  zone_bitmap :: "nat \<Rightarrow> u8"
  imap_dirty :: bool
  zmap_dirty :: bool
  blk :: "'d block_state"
  stack_bytes :: "nat \<Rightarrow> u8"

record minix3_dirent =
  de_inode :: nat
  de_name :: "u8 list"

definition MINIX3_SUPER_MAGIC :: nat where "MINIX3_SUPER_MAGIC = 0x4d5a"
definition MINIX3_SUPER_MAGIC2 :: nat where "MINIX3_SUPER_MAGIC2 = 0x4d5b"
definition MINIX3_NAME_LEN :: nat where "MINIX3_NAME_LEN = 60"
definition MINIX3_INODE_SIZE :: nat where "MINIX3_INODE_SIZE = 64"
definition MINIX3_DIRENT_SIZE :: nat where "MINIX3_DIRENT_SIZE = 64"
definition MINIX3_DIRECT_ZONES :: nat where "MINIX3_DIRECT_ZONES = 7"
definition MINIX3_ISREG :: "u16 \<Rightarrow> bool" where "MINIX3_ISREG m \<longleftrightarrow> m AND 0xF000 = 0x8000"
definition MINIX3_ISDIR :: "u16 \<Rightarrow> bool" where "MINIX3_ISDIR m \<longleftrightarrow> m AND 0xF000 = 0x4000"
definition MINIX3_ISLNK :: "u16 \<Rightarrow> bool" where "MINIX3_ISLNK m \<longleftrightarrow> m AND 0xF000 = 0xA000"

section \<open>Numbers in blocks\<close>

definition bytes16 :: "nat \<Rightarrow> u8 list" where
  "bytes16 n = [word_of_nat n, word_of_nat (n div 256)]"

definition bytes32 :: "nat \<Rightarrow> u8 list" where
  "bytes32 n = bytes16 n @ bytes16 (n div 65536)"

definition put_at :: "nat \<Rightarrow> u8 list \<Rightarrow> u8 list \<Rightarrow> u8 list" where
  "put_at i xs buf = take i buf @ xs @ drop (i + length xs) buf"

definition zone_ptr :: "u8 list \<Rightarrow> nat \<Rightarrow> nat" where
  "zone_ptr buf i = le32 buf (4 * i)"

definition put_ptr :: "nat \<Rightarrow> nat \<Rightarrow> u8 list \<Rightarrow> u8 list" where
  "put_ptr i z buf = put_at (4 * i) (bytes32 z) buf"

definition inode_bytes :: "minix3_inode \<Rightarrow> u8 list" where
  "inode_bytes n = bytes16 (unat (i_mode n)) @ bytes16 (i_nlinks n) @ bytes16 (i_uid n) @ bytes16 (i_gid n) @ bytes32 (i_size n) @
     bytes32 (i_atime n) @ bytes32 (i_mtime n) @ bytes32 (i_ctime n) @ concat (map bytes32 (i_zone n))"

definition inode_at :: "u8 list \<Rightarrow> nat \<Rightarrow> minix3_inode" where
  "inode_at buf p = \<lparr>i_mode = word_of_nat (le16 buf p), i_nlinks = le16 buf (p + 2), i_uid = le16 buf (p + 4), i_gid = le16 buf (p + 6),
     i_size = le32 buf (p + 8), i_atime = le32 buf (p + 12), i_mtime = le32 buf (p + 16), i_ctime = le32 buf (p + 20),
     i_zone = map (\<lambda>k. le32 buf (p + 24 + 4 * k)) [0..<10]\<rparr>"

section \<open>Blocks\<close>

definition sectors_per_block :: "'d minix3 \<Rightarrow> nat" where
  "sectors_per_block fs = block_size fs div 512"

definition first_sector :: "nat \<Rightarrow> 'd minix3 \<Rightarrow> u32" where
  "first_sector b fs = of_nat (b * sectors_per_block fs)"

text \<open>A short read leaves the rest of the buffer as it was.\<close>

definition read_block :: "nat \<Rightarrow> 'd minix3 \<Rightarrow> bool \<times> u8 list \<times> 'd minix3" where
  "read_block b fs =
     (case bread (blk fs) (device_id fs) (partition_id fs) (first_sector b fs) (sectors_per_block fs) of
       (r, out, st) \<Rightarrow>
         (r \<ge> 0, concat out @ map (stack_bytes fs) [length (concat out)..<block_size fs], fs\<lparr>blk := st\<rparr>))"

definition write_block :: "nat \<Rightarrow> u8 list \<Rightarrow> 'd minix3 \<Rightarrow> bool \<times> 'd minix3" where
  "write_block b buf fs =
     (case bwrite (blk fs) (device_id fs) (partition_id fs)
         (map (\<lambda>i. take 512 (drop (512 * i) buf)) [0..<sectors_per_block fs]) (first_sector b fs) of
       (r, st) \<Rightarrow> (r \<ge> 0, fs\<lparr>blk := st\<rparr>))"

section \<open>Bitmaps\<close>

definition map_set :: "(nat \<Rightarrow> u8) \<Rightarrow> nat \<Rightarrow> nat \<Rightarrow> u8" where
  "map_set bm k = bm(k div 8 := bm (k div 8) OR push_bit (k mod 8) 1)"

definition map_clear :: "(nat \<Rightarrow> u8) \<Rightarrow> nat \<Rightarrow> nat \<Rightarrow> u8" where
  "map_clear bm k = bm(k div 8 := bm (k div 8) AND NOT (push_bit (k mod 8) 1))"

definition map_test :: "(nat \<Rightarrow> u8) \<Rightarrow> nat \<Rightarrow> bool" where
  "map_test bm k \<longleftrightarrow> bm (k div 8) AND push_bit (k mod 8) 1 \<noteq> 0"

text \<open>The two nested search loops; \<open>skip\<close> is the index that the inode search passes over.\<close>

fun scan_bytes :: "nat option \<Rightarrow> (nat \<Rightarrow> u8) \<Rightarrow> nat list \<Rightarrow> nat option" where
  "scan_bytes skip bm [] = None"
| "scan_bytes skip bm (b # bs) =
     (if bm b \<noteq> 0xFF then
        (case find (\<lambda>i. bm b AND push_bit i 1 = 0 \<and> skip \<noteq> Some (b * 8 + i)) [0..<8] of
           Some i \<Rightarrow> Some (b * 8 + i)
         | None \<Rightarrow> scan_bytes skip bm bs)
      else scan_bytes skip bm bs)"

definition minix3_alloc_zone :: "'d minix3 \<Rightarrow> nat option \<times> 'd minix3" where
  "minix3_alloc_zone fs =
     (case scan_bytes None (zone_bitmap fs) [0..<s_zmap_blocks (sb fs) * block_size fs] of
        None \<Rightarrow> (None, fs)
      | Some zone \<Rightarrow>
          if zone \<ge> s_zones (sb fs) then (None, fs)
          else (Some (w32 (zone + data_zone_start fs)), fs\<lparr>zone_bitmap := map_set (zone_bitmap fs) zone, zmap_dirty := True\<rparr>))"

definition minix3_free_zone :: "nat \<Rightarrow> 'd minix3 \<Rightarrow> int \<times> 'd minix3" where
  "minix3_free_zone zone fs =
     (if zone < data_zone_start fs \<or> zone \<ge> s_zones (sb fs) then (-1, fs)
      else (0, fs\<lparr>zone_bitmap := map_clear (zone_bitmap fs) (zone - data_zone_start fs), zmap_dirty := True\<rparr>))"

section \<open>Inodes\<close>

definition inode_place :: "nat \<Rightarrow> 'd minix3 \<Rightarrow> nat \<times> nat" where
  "inode_place ino fs =
     (inode_table_block fs + w32 ((ino - 1) * MINIX3_INODE_SIZE) div block_size fs, w32 ((ino - 1) * MINIX3_INODE_SIZE) mod block_size fs)"

definition minix3_read_inode :: "nat \<Rightarrow> 'd minix3 \<Rightarrow> minix3_inode option \<times> 'd minix3" where
  "minix3_read_inode ino fs =
     (if ino = 0 \<or> ino > s_ninodes (sb fs) then (None, fs)
      else case inode_place ino fs of (b, p) \<Rightarrow>
        (case read_block b fs of (ok, buf, fs) \<Rightarrow> if \<not> ok then (None, fs) else (Some (inode_at buf p), fs)))"

definition minix3_write_inode :: "nat \<Rightarrow> minix3_inode \<Rightarrow> 'd minix3 \<Rightarrow> int \<times> 'd minix3" where
  "minix3_write_inode ino n fs =
     (if ino = 0 \<or> ino > s_ninodes (sb fs) then (-1, fs)
      else case inode_place ino fs of (b, p) \<Rightarrow>
        (case read_block b fs of (ok, buf, fs) \<Rightarrow>
           if \<not> ok then (-1, fs)
           else case write_block b (put_at p (inode_bytes n) buf) fs of (ok, fs) \<Rightarrow> (if \<not> ok then -1 else 0, fs)))"

definition new_inode :: "nat \<Rightarrow> u16 \<Rightarrow> minix3_inode" where
  "new_inode now mode = \<lparr>i_mode = mode, i_nlinks = 1, i_uid = 0, i_gid = 0, i_size = 0, i_atime = now, i_mtime = now, i_ctime = now,
     i_zone = replicate 10 0\<rparr>"

definition minix3_alloc_inode :: "nat \<Rightarrow> u16 \<Rightarrow> 'd minix3 \<Rightarrow> nat option \<times> 'd minix3" where
  "minix3_alloc_inode now mode fs =
     (case scan_bytes (Some 0) (inode_bitmap fs) [0..<s_imap_blocks (sb fs) * block_size fs] of
        None \<Rightarrow> (None, fs)
      | Some ino \<Rightarrow>
          if ino > s_ninodes (sb fs) then (None, fs)
          else let fs = fs\<lparr>inode_bitmap := map_set (inode_bitmap fs) ino, imap_dirty := True\<rparr>
            in case minix3_write_inode ino (new_inode now mode) fs of (r, fs) \<Rightarrow>
              if r < 0 then (None, fs\<lparr>inode_bitmap := map_clear (inode_bitmap fs) ino, imap_dirty := True\<rparr>)
              else (Some ino, fs))"

definition minix3_free_inode :: "nat \<Rightarrow> 'd minix3 \<Rightarrow> int \<times> 'd minix3" where
  "minix3_free_inode ino fs =
     (if ino = 0 \<or> ino > s_ninodes (sb fs) then (-1, fs)
      else (0, fs\<lparr>inode_bitmap := map_clear (inode_bitmap fs) ino, imap_dirty := True\<rparr>))"

text \<open>The loop that writes the blocks of a bitmap, from block \<open>start\<close> of the disk on.\<close>

fun sync_map :: "(nat \<Rightarrow> u8) \<Rightarrow> nat \<Rightarrow> nat list \<Rightarrow> 'd minix3 \<Rightarrow> bool \<times> 'd minix3" where
  "sync_map bm start [] fs = (True, fs)"
| "sync_map bm start (i # is') fs =
     (case write_block (start + i) (map (\<lambda>k. bm (i * block_size fs + k)) [0..<block_size fs]) fs of (ok, fs) \<Rightarrow>
        if \<not> ok then (False, fs) else sync_map bm start is' fs)"

definition minix3_sync_bitmaps :: "'d minix3 \<Rightarrow> int \<times> 'd minix3" where
  "minix3_sync_bitmaps fs =
     (case (if zmap_dirty fs then sync_map (zone_bitmap fs) (2 + s_imap_blocks (sb fs)) [0..<s_zmap_blocks (sb fs)] fs else (True, fs)) of
       (ok, fs) \<Rightarrow>
         if \<not> ok then (-1, fs)
         else let fs = fs\<lparr>zmap_dirty := False\<rparr> in
           case (if imap_dirty fs then sync_map (inode_bitmap fs) 2 [0..<s_imap_blocks (sb fs)] fs else (True, fs)) of
             (ok, fs) \<Rightarrow> if \<not> ok then (-1, fs) else (0, fs\<lparr>imap_dirty := False\<rparr>))"

section \<open>Mounting\<close>

definition super_at :: "u8 list \<Rightarrow> minix3_super_block" where
  "super_at b = \<lparr>s_ninodes = le32 b 0, s_imap_blocks = le16 b 6, s_zmap_blocks = le16 b 8, s_firstdatazone = le16 b 10,
     s_zones = le32 b 20, s_magic = le16 b 24, s_blocksize = le16 b 28\<rparr>"

fun load_map :: "nat \<Rightarrow> nat list \<Rightarrow> (nat \<Rightarrow> u8) \<Rightarrow> 'd minix3 \<Rightarrow> (nat \<Rightarrow> u8) option \<times> 'd minix3" where
  "load_map start [] bm fs = (Some bm, fs)"
| "load_map start (i # is') bm fs =
     (case read_block (start + i) fs of (ok, buf, fs) \<Rightarrow>
        if \<not> ok then (None, fs)
        else load_map start is' (\<lambda>k. if i * block_size fs \<le> k \<and> k < i * block_size fs + block_size fs then buf ! (k - i * block_size fs) else bm k) fs)"

text \<open>
  \<open>heap1\<close> and \<open>heap2\<close> are the contents of the memory for the two maps, \<open>None\<close> when there is none; the counts of used
  inodes and blocks are only printed.
\<close>

definition minix3_mount :: "int \<Rightarrow> int \<Rightarrow> bool \<Rightarrow> (nat \<Rightarrow> u8) option \<Rightarrow> (nat \<Rightarrow> u8) option \<Rightarrow> (nat \<Rightarrow> u8) \<Rightarrow> 'd block_state
    \<Rightarrow> 'd minix3 option \<times> 'd block_state" where
  "minix3_mount dev part info heap1 heap2 stk st =
     (if \<not> info then (None, st)
      else case bread st dev part 2 2 of (r, out, st) \<Rightarrow>
        if r < 0 then (None, st)
        else let buf = concat out @ map stk [length (concat out)..<1024]; s = super_at buf in
          if s_magic s \<noteq> MINIX3_SUPER_MAGIC \<and> s_magic s \<noteq> MINIX3_SUPER_MAGIC2 then (None, st)
          else if s_blocksize s \<noteq> 1024 \<and> s_blocksize s \<noteq> 4096 then (None, st)
          else case heap1 of None \<Rightarrow> (None, st) | Some h1 \<Rightarrow>
            let fs = \<lparr>sb = s, device_id = dev, partition_id = part, block_size = s_blocksize s,
                  inode_table_block = 2 + s_imap_blocks s + s_zmap_blocks s, data_zone_start = s_firstdatazone s,
                  inode_bitmap = h1, zone_bitmap = h1, imap_dirty = False, zmap_dirty = False, blk = st, stack_bytes = stk\<rparr>
            in case load_map 2 [0..<s_imap_blocks s] h1 fs of
                 (None, fs) \<Rightarrow> (None, blk fs)
               | (Some im, fs) \<Rightarrow>
                   (case heap2 of None \<Rightarrow> (None, blk fs) | Some h2 \<Rightarrow>
                     (case load_map (2 + s_imap_blocks s) [0..<s_zmap_blocks s] h2 fs of
                        (None, fs) \<Rightarrow> (None, blk fs)
                      | (Some zm, fs) \<Rightarrow> (Some (fs\<lparr>inode_bitmap := im, zone_bitmap := zm\<rparr>), blk fs))))"

section \<open>The block map\<close>

definition minix3_bmap :: "minix3_inode \<Rightarrow> nat \<Rightarrow> 'd minix3 \<Rightarrow> nat option \<times> 'd minix3" where
  "minix3_bmap n fb fs =
     (let per = block_size fs div 4 in
      if fb < MINIX3_DIRECT_ZONES then (Some (i_zone n ! fb), fs)
      else let fb = fb - MINIX3_DIRECT_ZONES in
        if fb < per then
          (if i_zone n ! 7 = 0 then (Some 0, fs)
           else case read_block (i_zone n ! 7) fs of (ok, buf, fs) \<Rightarrow> if \<not> ok then (None, fs) else (Some (zone_ptr buf fb), fs))
        else let fb = fb - per in
          if fb < per * per then
            (if i_zone n ! 8 = 0 then (Some 0, fs)
             else case read_block (i_zone n ! 8) fs of (ok, buf1, fs) \<Rightarrow>
               if \<not> ok then (None, fs)
               else let ind2 = zone_ptr buf1 (fb div per) in
                 if ind2 = 0 then (Some 0, fs)
                 else case read_block ind2 fs of (ok, buf2, fs) \<Rightarrow> if \<not> ok then (None, fs) else (Some (zone_ptr buf2 (fb mod per)), fs))
          else (None, fs))"

definition zero_block :: "nat \<Rightarrow> 'd minix3 \<Rightarrow> 'd minix3" where
  "zero_block z fs = snd (write_block z (replicate (block_size fs) 0) fs)"

text \<open>
  The three kinds of steps of the allocation: a zone number in the inode, and one in an indirect block, either for data or,
  with \<open>meta\<close>, for a further indirect block, which is filled with zeros without a look at the result.
\<close>

definition ensure_slot :: "nat \<Rightarrow> bool \<Rightarrow> minix3_inode \<Rightarrow> 'd minix3 \<Rightarrow> bool \<times> minix3_inode \<times> 'd minix3" where
  "ensure_slot k meta n fs =
     (if i_zone n ! k = 0 then
        (case minix3_alloc_zone fs of
           (None, fs) \<Rightarrow> (False, n, fs)
         | (Some z, fs) \<Rightarrow> (True, n\<lparr>i_zone := (i_zone n)[k := z]\<rparr>, if meta then zero_block z fs else fs))
      else (True, n, fs))"

definition ensure_entry :: "nat \<Rightarrow> nat \<Rightarrow> bool \<Rightarrow> 'd minix3 \<Rightarrow> nat option \<times> 'd minix3" where
  "ensure_entry b i meta fs =
     (case read_block b fs of (ok, buf, fs) \<Rightarrow>
        if \<not> ok then (None, fs)
        else if zone_ptr buf i = 0 then
          (case minix3_alloc_zone fs of
             (None, fs) \<Rightarrow> (None, fs)
           | (Some z, fs) \<Rightarrow>
               (case write_block b (put_ptr i z buf) fs of (ok, fs) \<Rightarrow>
                  if \<not> ok then (None, fs) else (Some z, if meta then zero_block z fs else fs)))
        else (Some (zone_ptr buf i), fs))"

definition minix3_alloc_file_block :: "minix3_inode \<Rightarrow> nat \<Rightarrow> 'd minix3 \<Rightarrow> nat option \<times> minix3_inode \<times> 'd minix3" where
  "minix3_alloc_file_block n fb fs =
     (let per = block_size fs div 4 in
      if fb < MINIX3_DIRECT_ZONES then
        (case ensure_slot fb False n fs of (ok, n, fs) \<Rightarrow> (if ok then Some (i_zone n ! fb) else None, n, fs))
      else let fb = fb - MINIX3_DIRECT_ZONES in
        if fb < per then
          (case ensure_slot 7 True n fs of (ok, n, fs) \<Rightarrow>
             if \<not> ok then (None, n, fs)
             else case ensure_entry (i_zone n ! 7) fb False fs of (z, fs) \<Rightarrow> (z, n, fs))
        else let fb = fb - per in
          if fb < per * per then
            (case ensure_slot 8 True n fs of (ok, n, fs) \<Rightarrow>
               if \<not> ok then (None, n, fs)
               else case ensure_entry (i_zone n ! 8) (fb div per) True fs of
                 (None, fs) \<Rightarrow> (None, n, fs)
               | (Some ind2, fs) \<Rightarrow> (case ensure_entry ind2 (fb mod per) False fs of (z, fs) \<Rightarrow> (z, n, fs)))
          else (None, n, fs))"

section \<open>Reading and writing files\<close>

text \<open>The pieces of a range of a file: block of the file, offset in the block, number of bytes. No block size is zero.\<close>

function pieces :: "nat \<Rightarrow> nat \<Rightarrow> nat \<Rightarrow> (nat \<times> nat \<times> nat) list" where
  "pieces bs off n =
     (if n = 0 \<or> bs = 0 then []
      else let k = (if bs - off mod bs > n then n else bs - off mod bs)
        in (off div bs, off mod bs, k) # pieces bs (w32 (off + k)) (n - k))"
  by pat_completeness auto
termination
  by (relation "measure (\<lambda>(bs, off, n). n)") auto

declare pieces.simps [simp del]

fun read_loop :: "minix3_inode \<Rightarrow> (nat \<times> nat \<times> nat) list \<Rightarrow> u8 list \<Rightarrow> 'd minix3 \<Rightarrow> u8 list option \<times> 'd minix3" where
  "read_loop n [] out fs = (Some out, fs)"
| "read_loop n ((fb, off, k) # ps) out fs =
     (case minix3_bmap n fb fs of
        (None, fs) \<Rightarrow> (None, fs)
      | (Some z, fs) \<Rightarrow>
          if z = 0 then read_loop n ps (out @ replicate k 0) fs
          else (case read_block z fs of (ok, buf, fs) \<Rightarrow>
            if \<not> ok then (None, fs) else read_loop n ps (out @ take k (drop off buf)) fs))"

definition minix3_read_file :: "minix3_inode \<Rightarrow> nat \<Rightarrow> nat \<Rightarrow> 'd minix3 \<Rightarrow> int \<times> u8 list \<times> 'd minix3" where
  "minix3_read_file n off count fs =
     (if \<not> MINIX3_ISREG (i_mode n) \<and> \<not> MINIX3_ISLNK (i_mode n) then (-1, [], fs)
      else if off \<ge> i_size n then (0, [], fs)
      else let count = (if w32 (off + count) > i_size n then i_size n - off else count)
        in case read_loop n (pieces (block_size fs) off count) [] fs of
             (None, fs) \<Rightarrow> (-1, [], fs)
           | (Some out, fs) \<Rightarrow> (to_int count, out, fs))"

definition minix3_read_entire_file :: "minix3_inode \<Rightarrow> nat \<Rightarrow> 'd minix3 \<Rightarrow> int \<times> u8 list \<times> 'd minix3" where
  "minix3_read_entire_file n max_size fs = minix3_read_file n 0 (if i_size n > max_size then max_size else i_size n) fs"

text \<open>The flag says that the loop was left early.\<close>

fun write_loop :: "minix3_inode \<Rightarrow> (nat \<times> nat \<times> nat) list \<Rightarrow> u8 list \<Rightarrow> nat \<Rightarrow> 'd minix3 \<Rightarrow> bool \<times> nat \<times> minix3_inode \<times> 'd minix3" where
  "write_loop n [] bs written fs = (False, written, n, fs)"
| "write_loop n ((fb, off, k) # ps) bs written fs =
     (case minix3_alloc_file_block n fb fs of
        (None, n, fs) \<Rightarrow> (True, written, n, fs)
      | (Some z, n, fs) \<Rightarrow>
          (case (if off \<noteq> 0 \<or> k < block_size fs then
                   if w32 (fb * block_size fs) < i_size n then read_block z fs else (True, replicate (block_size fs) 0, fs)
                 else (True, replicate (block_size fs) 0, fs)) of
            (ok, buf, fs) \<Rightarrow>
              if \<not> ok then (True, written, n, fs)
              else (case write_block z (put_at off (take k bs) buf) fs of (ok, fs) \<Rightarrow>
                if \<not> ok then (True, written, n, fs)
                else write_loop n ps (drop k bs) (written + k) fs)))"

definition minix3_write_file :: "nat \<Rightarrow> minix3_inode \<Rightarrow> nat \<Rightarrow> u8 list \<Rightarrow> 'd minix3 \<Rightarrow> int \<times> minix3_inode \<times> 'd minix3" where
  "minix3_write_file now n off bs fs =
     (if \<not> MINIX3_ISREG (i_mode n) \<and> \<not> MINIX3_ISLNK (i_mode n) then (-1, n, fs)
      else case write_loop n (pieces (block_size fs) off (length bs)) bs 0 fs of
        (early, written, n, fs) \<Rightarrow>
          if early then (if written > 0 then to_int written else -1, n, fs)
          else let n = (if w32 (off + written) > i_size n then n\<lparr>i_size := w32 (off + written)\<rparr> else n)
            in (to_int written, n\<lparr>i_mtime := now\<rparr>, fs))"

section \<open>Truncating\<close>

definition free_direct :: "nat \<Rightarrow> minix3_inode \<times> 'd minix3 \<Rightarrow> minix3_inode \<times> 'd minix3" where
  "free_direct k = (\<lambda>(n, fs).
     if i_zone n ! k \<noteq> 0 then (n\<lparr>i_zone := (i_zone n)[k := 0]\<rparr>, snd (minix3_free_zone (i_zone n ! k) fs)) else (n, fs))"

definition free_entry :: "nat \<Rightarrow> u8 list \<times> bool \<times> 'd minix3 \<Rightarrow> u8 list \<times> bool \<times> 'd minix3" where
  "free_entry k = (\<lambda>(buf, modified, fs).
     if zone_ptr buf k \<noteq> 0 then (put_ptr k 0 buf, True, snd (minix3_free_zone (zone_ptr buf k) fs)) else (buf, modified, fs))"

definition truncate_single :: "nat \<Rightarrow> nat \<Rightarrow> minix3_inode \<Rightarrow> 'd minix3 \<Rightarrow> bool \<times> minix3_inode \<times> 'd minix3" where
  "truncate_single new_blocks old_blocks n fs =
     (if old_blocks > MINIX3_DIRECT_ZONES \<and> i_zone n ! 7 \<noteq> 0 then
        case read_block (i_zone n ! 7) fs of (ok, buf, fs) \<Rightarrow>
          if \<not> ok then (False, n, fs)
          else let first = (if new_blocks > MINIX3_DIRECT_ZONES then new_blocks else MINIX3_DIRECT_ZONES);
                   last = min old_blocks (MINIX3_DIRECT_ZONES + block_size fs div 4)
            in case fold free_entry [first - MINIX3_DIRECT_ZONES..<last - MINIX3_DIRECT_ZONES] (buf, False, fs) of
                 (buf, modified, fs) \<Rightarrow>
                   (case (if modified then write_block (i_zone n ! 7) buf fs else (True, fs)) of (ok, fs) \<Rightarrow>
                      if \<not> ok then (False, n, fs)
                      else if new_blocks \<le> MINIX3_DIRECT_ZONES
                        then (True, n\<lparr>i_zone := (i_zone n)[7 := 0]\<rparr>, snd (minix3_free_zone (i_zone n ! 7) fs))
                        else (True, n, fs))
      else (True, n, fs))"

definition all_zero :: "u8 list \<Rightarrow> nat \<Rightarrow> bool" where
  "all_zero buf per \<longleftrightarrow> (\<forall>k \<in> set [0..<per]. zone_ptr buf k = 0)"

text \<open>The loop over the level-1 block; \<open>start\<close> is the first block of the file that it maps.\<close>

fun truncate_level1 :: "nat \<Rightarrow> nat \<Rightarrow> nat list \<Rightarrow> u8 list \<Rightarrow> bool \<Rightarrow> 'd minix3 \<Rightarrow> (u8 list \<times> bool) option \<times> 'd minix3" where
  "truncate_level1 new_blocks start [] buf1 modified fs = (Some (buf1, modified), fs)"
| "truncate_level1 new_blocks start (i # is') buf1 modified fs =
     (let z2 = zone_ptr buf1 i; per = block_size fs div 4 in
      if z2 = 0 then truncate_level1 new_blocks start is' buf1 modified fs
      else case read_block z2 fs of (ok, buf2, fs) \<Rightarrow>
        if \<not> ok then (None, fs)
        else case fold free_entry (filter (\<lambda>k. start + i * per + k \<ge> new_blocks) [0..<per]) (buf2, False, fs) of
          (buf2, mod2, fs) \<Rightarrow>
            (case (if mod2 then write_block z2 buf2 fs else (True, fs)) of (ok, fs) \<Rightarrow>
               if \<not> ok then (None, fs)
               else if all_zero buf2 per
                 then truncate_level1 new_blocks start is' (put_ptr i 0 buf1) True (snd (minix3_free_zone z2 fs))
                 else truncate_level1 new_blocks start is' buf1 modified fs))"

definition truncate_double :: "nat \<Rightarrow> nat \<Rightarrow> minix3_inode \<Rightarrow> 'd minix3 \<Rightarrow> bool \<times> minix3_inode \<times> 'd minix3" where
  "truncate_double new_blocks old_blocks n fs =
     (let per = block_size fs div 4; start = MINIX3_DIRECT_ZONES + per in
      if i_zone n ! 8 \<noteq> 0 \<and> old_blocks > start \<and> new_blocks < start + per * per then
        case read_block (i_zone n ! 8) fs of (ok, buf1, fs) \<Rightarrow>
          if \<not> ok then (False, n, fs)
          else case truncate_level1 new_blocks start [0..<per] buf1 False fs of
            (None, fs) \<Rightarrow> (False, n, fs)
          | (Some (buf1, modified), fs) \<Rightarrow>
              if all_zero buf1 per then (True, n\<lparr>i_zone := (i_zone n)[8 := 0]\<rparr>, snd (minix3_free_zone (i_zone n ! 8) fs))
              else if modified then (case write_block (i_zone n ! 8) buf1 fs of (ok, fs) \<Rightarrow> (ok, n, fs))
              else (True, n, fs)
      else (True, n, fs))"

definition minix3_truncate_file :: "nat \<Rightarrow> minix3_inode \<Rightarrow> nat \<Rightarrow> 'd minix3 \<Rightarrow> int \<times> minix3_inode \<times> 'd minix3" where
  "minix3_truncate_file now n new_size fs =
     (if \<not> MINIX3_ISREG (i_mode n) \<and> \<not> MINIX3_ISLNK (i_mode n) then (-1, n, fs)
      else if new_size \<ge> i_size n then (0, n\<lparr>i_size := new_size, i_mtime := now\<rparr>, fs)
      else
        let old_blocks = w32 (i_size n + block_size fs - 1) div block_size fs;
            new_blocks = w32 (new_size + block_size fs - 1) div block_size fs
        in case fold free_direct [new_blocks..<min old_blocks MINIX3_DIRECT_ZONES] (n, fs) of (n, fs) \<Rightarrow>
          (case truncate_single new_blocks old_blocks n fs of (ok, n, fs) \<Rightarrow>
             if \<not> ok then (-1, n, fs)
             else case truncate_double new_blocks old_blocks n fs of (ok, n, fs) \<Rightarrow>
               if \<not> ok then (-1, n, fs) else (0, n\<lparr>i_size := new_size, i_mtime := now\<rparr>, fs)))"

section \<open>Directories\<close>

definition dirent_at :: "u8 list \<Rightarrow> nat \<Rightarrow> minix3_dirent" where
  "dirent_at buf i = \<lparr>de_inode = le32 buf (64 * i), de_name = take 60 (drop (64 * i + 4) buf)\<rparr>"

definition dirent_bytes :: "minix3_dirent \<Rightarrow> u8 list" where
  "dirent_bytes d = bytes32 (de_inode d) @ de_name d"

text \<open>\<^verbatim>\<open>strncpy\<close> of a shorter name; the equality that \<^verbatim>\<open>strncmp\<close> tests.\<close>

definition name_field :: "u8 list \<Rightarrow> u8 list" where
  "name_field name = name @ replicate (60 - length name) 0"

definition same_name :: "u8 list \<Rightarrow> u8 list \<Rightarrow> bool" where
  "same_name field name \<longleftrightarrow> takeWhile (\<lambda>c. c \<noteq> 0) field = take 60 name"

definition minix3_read_dir_block :: "minix3_inode \<Rightarrow> nat \<Rightarrow> 'd minix3 \<Rightarrow> minix3_dirent list option \<times> 'd minix3" where
  "minix3_read_dir_block n b fs =
     (case minix3_bmap n b fs of
        (None, fs) \<Rightarrow> (None, fs)
      | (Some z, fs) \<Rightarrow>
          if z = 0 then (Some [], fs)
          else case read_block z fs of (ok, buf, fs) \<Rightarrow>
            if \<not> ok then (None, fs) else (Some (map (dirent_at buf) [0..<block_size fs div 64]), fs))"

definition dir_blocks :: "minix3_inode \<Rightarrow> 'd minix3 \<Rightarrow> nat" where
  "dir_blocks n fs = w32 (i_size n + block_size fs - 1) div block_size fs"

text \<open>Writing the entries of a block back: the zone is looked up again.\<close>

definition write_dir_block :: "minix3_inode \<Rightarrow> nat \<Rightarrow> minix3_dirent list \<Rightarrow> 'd minix3 \<Rightarrow> bool \<times> 'd minix3" where
  "write_dir_block n b es fs =
     (case minix3_bmap n b fs of
        (None, fs) \<Rightarrow> (False, fs)
      | (Some z, fs) \<Rightarrow> write_block z (concat (map dirent_bytes es)) fs)"

fun first_entry :: "(minix3_dirent \<Rightarrow> bool) \<Rightarrow> nat \<Rightarrow> minix3_dirent list \<Rightarrow> nat option" where
  "first_entry P i [] = None"
| "first_entry P i (e # es) = (if P e then Some i else first_entry P (Suc i) es)"

text \<open>The search over the blocks: an error, nothing, or the block, its entries and the index.\<close>

fun find_dirent :: "(minix3_dirent \<Rightarrow> bool) \<Rightarrow> minix3_inode \<Rightarrow> nat list \<Rightarrow> 'd minix3 \<Rightarrow> (nat \<times> minix3_dirent list \<times> nat) option option \<times> 'd minix3" where
  "find_dirent P n [] fs = (Some None, fs)"
| "find_dirent P n (b # bs) fs =
     (case minix3_read_dir_block n b fs of
        (None, fs) \<Rightarrow> (None, fs)
      | (Some es, fs) \<Rightarrow> (case first_entry P 0 es of Some i \<Rightarrow> (Some (Some (b, es, i)), fs) | None \<Rightarrow> find_dirent P n bs fs))"

definition minix3_lookup :: "minix3_inode \<Rightarrow> u8 list \<Rightarrow> 'd minix3 \<Rightarrow> nat option \<times> 'd minix3" where
  "minix3_lookup n name fs =
     (if \<not> MINIX3_ISDIR (i_mode n) then (None, fs)
      else case find_dirent (\<lambda>e. de_inode e \<noteq> 0 \<and> same_name (de_name e) name) n [0..<dir_blocks n fs] fs of
        (Some (Some (b, es, i)), fs) \<Rightarrow> (Some (de_inode (es ! i)), fs)
      | (_, fs) \<Rightarrow> (None, fs))"

definition minix3_add_dirent :: "nat \<Rightarrow> minix3_inode \<Rightarrow> u8 list \<Rightarrow> nat \<Rightarrow> 'd minix3 \<Rightarrow> int \<times> minix3_inode \<times> 'd minix3" where
  "minix3_add_dirent now n name ino fs =
     (if \<not> MINIX3_ISDIR (i_mode n) then (-1, n, fs)
      else if length name \<ge> MINIX3_NAME_LEN then (-1, n, fs)
      else case find_dirent (\<lambda>e. de_inode e = 0) n [0..<dir_blocks n fs] fs of
        (None, fs) \<Rightarrow> (-1, n, fs)
      | (Some (Some (b, es, i)), fs) \<Rightarrow>
          (case write_dir_block n b (es[i := \<lparr>de_inode = ino, de_name = name_field name\<rparr>]) fs of (ok, fs) \<Rightarrow>
             if \<not> ok then (-1, n, fs)
             else let e = w32 (b * block_size fs + (i + 1) * MINIX3_DIRENT_SIZE)
               in (0, if e > i_size n then n\<lparr>i_size := e, i_mtime := now\<rparr> else n, fs))
      | (Some None, fs) \<Rightarrow>
          (let b = dir_blocks n fs in
           if b < MINIX3_DIRECT_ZONES then
             (case minix3_alloc_zone fs of
                (None, fs) \<Rightarrow> (-1, n, fs)
              | (Some z, fs) \<Rightarrow>
                  (case write_block z (put_at 0 (dirent_bytes \<lparr>de_inode = ino, de_name = name_field name\<rparr>) (replicate (block_size fs) 0)) fs of
                     (ok, fs) \<Rightarrow>
                       if \<not> ok then (-1, n\<lparr>i_zone := (i_zone n)[b := 0]\<rparr>, snd (minix3_free_zone z fs))
                       else (0, n\<lparr>i_zone := (i_zone n)[b := z], i_size := w32 (i_size n + block_size fs), i_mtime := now\<rparr>, fs)))
           else (-1, n, fs)))"

definition minix3_remove_dirent :: "nat \<Rightarrow> minix3_inode \<Rightarrow> u8 list \<Rightarrow> 'd minix3 \<Rightarrow> int \<times> minix3_inode \<times> 'd minix3" where
  "minix3_remove_dirent now n name fs =
     (if \<not> MINIX3_ISDIR (i_mode n) then (-1, n, fs)
      else case find_dirent (\<lambda>e. de_inode e \<noteq> 0 \<and> same_name (de_name e) name) n [0..<dir_blocks n fs] fs of
        (Some (Some (b, es, i)), fs) \<Rightarrow>
          (case write_dir_block n b (es[i := \<lparr>de_inode = 0, de_name = replicate 60 0\<rparr>]) fs of (ok, fs) \<Rightarrow>
             if \<not> ok then (-1, n, fs) else (0, n\<lparr>i_mtime := now\<rparr>, fs))
      | (_, fs) \<Rightarrow> (-1, n, fs))"

definition minix3_list_dir :: "minix3_inode \<Rightarrow> 'd minix3 \<Rightarrow> int \<times> 'd minix3" where
  "minix3_list_dir n fs =
     (if \<not> MINIX3_ISDIR (i_mode n) then (-1, fs)
      else case find_dirent (\<lambda>_. False) n [0..<dir_blocks n fs] fs of (r, fs) \<Rightarrow> (if r = None then -1 else 0, fs))"

end
