(* ===== verification/Minix3_Disk.thy ===== *)
theory Minix3_Disk
  imports Minix3
begin

text \<open>
  What \<open>Minix3\<close> needs of the block layer: on a device that does not fail, reading a block delivers the contents of the
  disk and writing replaces it, through whatever the cache does. Also the bitmaps, numbers in blocks and inodes on disk.
\<close>

section \<open>Devices that do not fail\<close>

lemma bread_loop_full:
  "(\<forall>h k. 0 \<le> fst (rd h k)) \<Longrightarrow> bread_loop rd st prim scnd pos i n out = (r, out', st') \<Longrightarrow> length out' = length out + n"
proof (induction n arbitrary: st i out)
  case (Suc n)
  obtain hit b st1 where l: "cache_lookup st (prim, scnd, pos + of_nat i) = (hit, b, st1)" by (metis prod_cases3)
  obtain r0 b0 h0 where d: "rd (hw st1) (prim, scnd, pos + of_nat i) = (r0, b0, h0)" by (metis prod_cases3)
  have "0 \<le> r0" using Suc.prems(1) d by (metis fst_conv)
  then show ?case using Suc.IH [OF Suc.prems(1)] Suc.prems(2) l d by (auto simp: Let_def split: if_splits)
qed simp

lemma bwrite_loop_full:
  "(\<forall>h k b. 0 \<le> fst (wr h k b)) \<Longrightarrow> bwrite_loop wr st prim scnd bs pos i = (r, st') \<Longrightarrow> r = to_int ((i + length bs) * CACHE_BLOCK_SIZE)"
proof (induction bs arbitrary: st i)
  case (Cons b bs)
  obtain r0 h0 where d: "wr (hw st) (prim, scnd, pos + of_nat i) b = (r0, h0)" by fastforce
  have "0 \<le> r0" using Cons.prems(1) d by (metis fst_conv)
  then show ?case using Cons.IH [OF Cons.prems(1)] Cons.prems(2) d by fastforce
qed simp

lemma find_device_same: "block_devices st' = block_devices st \<Longrightarrow> find_block_device st' prim = find_block_device st prim"
  by (simp add: find_block_device_def)

text \<open>\<open>C\<close> reads the contents of the device off its state, as in \<open>Block_Cache\<close>.\<close>

definition healthy :: "('d \<Rightarrow> block_key \<Rightarrow> block) \<Rightarrow> 'd minix3 \<Rightarrow> bool" where
  "healthy C fs \<longleftrightarrow> coherent C (blk fs) \<and> (block_size fs = 1024 \<or> block_size fs = 4096) \<and>
     (\<forall>k. length (C (hw (blk fs)) k) = 512) \<and>
     (\<exists>d rd wr. find_block_device (blk fs) (device_id fs) = Some d \<and> op_read (d_ops d) = Some rd \<and> op_write (d_ops d) = Some wr \<and>
        (\<forall>h k. 0 \<le> fst (rd h k)) \<and> (\<forall>h k b. 0 \<le> fst (wr h k b)))"

definition disk :: "('d \<Rightarrow> block_key \<Rightarrow> block) \<Rightarrow> 'd minix3 \<Rightarrow> nat \<Rightarrow> u8 list" where
  "disk C fs b = concat (map (\<lambda>j. C (hw (blk fs)) (device_id fs, partition_id fs, first_sector b fs + of_nat j))
     [0..<sectors_per_block fs])"

lemma sector_blk [simp]: "first_sector b (fs\<lparr>blk := st\<rparr>) = first_sector b fs" "sectors_per_block (fs\<lparr>blk := st\<rparr>) = sectors_per_block fs"
  by (simp_all add: first_sector_def sectors_per_block_def)

lemma disk_blk: "disk C (fs\<lparr>blk := st\<rparr>) b =
  concat (map (\<lambda>j. C (hw st) (device_id fs, partition_id fs, first_sector b fs + of_nat j)) [0..<sectors_per_block fs])"
  by (simp add: disk_def)

text \<open>Blocks whose sectors have 32-bit numbers.\<close>

definition block_limit :: "'d minix3 \<Rightarrow> nat" where
  "block_limit fs = 4294967296 div sectors_per_block fs"

lemma concat_const_length: "(\<And>x. x \<in> set xs \<Longrightarrow> length x = k) \<Longrightarrow> length (concat xs) = k * length xs"
  by (induction xs) auto

lemma healthy_size: "healthy C fs \<Longrightarrow> block_size fs = 512 * sectors_per_block fs"
  by (auto simp: healthy_def sectors_per_block_def)

lemma healthy_sectors: "healthy C fs \<Longrightarrow> sectors_per_block fs = 2 \<or> sectors_per_block fs = 8"
  by (auto simp: healthy_def sectors_per_block_def)

lemma length_disk [simp]: "healthy C fs \<Longrightarrow> length (disk C fs b) = block_size fs"
  unfolding disk_def by (subst concat_const_length [where k = 512]) (auto simp: healthy_def sectors_per_block_def)

lemma read_block_ok:
  assumes "healthy C fs" "read_block b fs = (ok, buf, fs')"
  shows "ok" "buf = disk C fs b" "healthy C fs'" "disk C fs' = disk C fs" "fs' = fs\<lparr>blk := blk fs'\<rparr>"
proof -
  let ?n = "sectors_per_block fs" and ?o = "first_sector b fs"
  obtain d rd wr where d: "find_block_device (blk fs) (device_id fs) = Some d" "op_read (d_ops d) = Some rd" "op_write (d_ops d) = Some wr"
      "\<forall>h k. 0 \<le> fst (rd h k)" "\<forall>h k b. 0 \<le> fst (wr h k b)" and co: "coherent C (blk fs)"
    using assms(1) by (auto simp: healthy_def)
  obtain r out st where l: "bread_loop rd (blk fs) (device_id fs) (partition_id fs) ?o 0 ?n [] = (r, out, st)" by (metis prod_cases3)
  have e: "bread (blk fs) (device_id fs) (partition_id fs) ?o ?n = (r, out, st)" using l d by (simp add: bread_def)
  obtain m where m: "coherent C st" "C (hw st) = C (hw (blk fs))" "block_devices st = block_devices (blk fs)" "m \<le> ?n"
      "out = map (\<lambda>j. C (hw (blk fs)) (device_id fs, partition_id fs, ?o + of_nat j)) [0..<m]"
      "if m = ?n \<or> m > 0 then r = to_int (m * CACHE_BLOCK_SIZE) else r < 0"
    using bread_loop_ok [OF co d(1,2) l] by auto
  have "m = ?n" using bread_loop_full [OF d(4) l] m(5) by simp
  then have c: "concat out = disk C fs b" and r: "0 \<le> r"
    using m(5,6) healthy_sectors [OF assms(1)] by (auto simp: disk_def CACHE_BLOCK_SIZE_def)
  have f: "fs' = fs\<lparr>blk := st\<rparr>" "ok \<longleftrightarrow> r \<ge> 0" "buf = concat out @ map (stack_bytes fs) [length (concat out)..<block_size fs]"
    using assms(2) by (simp_all add: read_block_def e)
  show "ok" using f r by simp
  show "buf = disk C fs b" using f c length_disk [OF assms(1)] by simp
  show "healthy C fs'" using assms(1) m(1-3) find_device_same [OF m(3)] unfolding f(1) healthy_def by simp
  show "disk C fs' = disk C fs" using m(2) unfolding f(1) disk_def by (simp add: fun_eq_iff)
  show "fs' = fs\<lparr>blk := blk fs'\<rparr>" using f(1) by simp
qed

lemma u32_inj: "m < 4294967296 \<Longrightarrow> n < 4294967296 \<Longrightarrow> (of_nat m :: u32) = of_nat n \<longleftrightarrow> m = n"
proof -
  assume a: "m < 4294967296" "n < 4294967296"
  have "unat (of_nat m :: u32) = m" "unat (of_nat n :: u32) = n" using a by (simp_all add: unat_of_nat)
  then show ?thesis by metis
qed

lemma store_other:
  "(\<And>j. j < length bs \<Longrightarrow> k \<noteq> (prim, scnd, pos + of_nat (i + j))) \<Longrightarrow> store_blocks c prim scnd pos i bs k = c k"
proof (induction bs arbitrary: c i)
  case (Cons b bs)
  have "k \<noteq> (prim, scnd, pos + of_nat i)" using Cons.prems [of 0] by simp
  moreover have "store_blocks (c((prim, scnd, pos + of_nat i) := b)) prim scnd pos (Suc i) bs k = (c((prim, scnd, pos + of_nat i) := b)) k"
    by (rule Cons.IH) (use Cons.prems [of "Suc j" for j] in \<open>simp add: add.assoc\<close>)
  ultimately show ?case by simp
qed simp

lemma store_hit:
  "x < length bs \<Longrightarrow> B + i + length bs \<le> 4294967296 \<Longrightarrow>
    store_blocks c prim scnd (of_nat B) i bs (prim, scnd, of_nat B + of_nat (i + x)) = bs ! x"
proof (induction bs arbitrary: c i x)
  case (Cons b bs)
  show ?case
  proof (cases x)
    case 0
    have "store_blocks (c((prim, scnd, of_nat B + of_nat i) := b)) prim scnd (of_nat B) (Suc i) bs (prim, scnd, of_nat B + of_nat i) = b"
    proof (subst store_other)
      fix j assume "j < length bs"
      then have "(of_nat (B + i) :: u32) \<noteq> of_nat (B + (Suc i + j))" using Cons.prems by (subst u32_inj) auto
      then show "(prim, scnd, (of_nat B :: u32) + of_nat i) \<noteq> (prim, scnd, of_nat B + of_nat (Suc i + j))"
        unfolding of_nat_add [symmetric] by blast
    qed simp
    then show ?thesis using 0 by simp
  next
    case (Suc y)
    then show ?thesis using Cons.IH [of y "Suc i"] Cons.prems by simp
  qed
qed simp

lemma concat_take_chunks:
  "length buf = 512 * n \<Longrightarrow> concat (map (\<lambda>i. take 512 (drop (512 * i) buf)) [0..<n]) = (buf :: 'a list)"
proof -
  assume l: "length buf = 512 * n"
  have "concat (map (\<lambda>i. take 512 (drop (512 * i) buf)) [0..<m]) = take (512 * m) buf" if "m \<le> n" for m
    using that
  proof (induction m)
    case (Suc m)
    then show ?case using l take_add [of "512 * m" 512 buf] by (simp add: add.commute)
  qed simp
  then show ?thesis using l by simp
qed

lemma write_block_ok:
  assumes "healthy C fs" "write_block b buf fs = (ok, fs')" "length buf = block_size fs" "b < block_limit fs"
  shows "ok" "healthy C fs'" "fs' = fs\<lparr>blk := blk fs'\<rparr>"
    "\<And>b'. b' < block_limit fs \<Longrightarrow> disk C fs' b' = (if b' = b then buf else disk C fs b')"
proof -
  let ?n = "sectors_per_block fs" and ?o = "first_sector b fs"
  let ?bs = "map (\<lambda>i. take 512 (drop (512 * i) buf)) [0..<?n]"
  obtain d rd wr where d: "find_block_device (blk fs) (device_id fs) = Some d" "op_read (d_ops d) = Some rd" "op_write (d_ops d) = Some wr"
      "\<forall>h k. 0 \<le> fst (rd h k)" "\<forall>h k b. 0 \<le> fst (wr h k b)" and co: "coherent C (blk fs)"
    using assms(1) by (auto simp: healthy_def)
  note S = healthy_sectors [OF assms(1)] and Z = healthy_size [OF assms(1)]
  obtain r st where l: "bwrite_loop wr (blk fs) (device_id fs) (partition_id fs) ?bs ?o 0 = (r, st)" by fastforce
  have e: "bwrite (blk fs) (device_id fs) (partition_id fs) ?bs ?o = (r, st)" using l d by (simp add: bwrite.simps)
  have r: "r = int (512 * ?n)" using bwrite_loop_full [OF d(5) l] S by (auto simp: CACHE_BLOCK_SIZE_def)
  obtain m where m: "coherent C st" "block_devices st = block_devices (blk fs)" "m \<le> ?n"
      "C (hw st) = store_blocks (C (hw (blk fs))) (device_id fs) (partition_id fs) ?o 0 (take m ?bs)"
      "if m = ?n \<or> m > 0 then r = to_int (m * CACHE_BLOCK_SIZE) else r < 0"
    using bwrite_loop_ok [OF co d(1,3) l] by auto
  have "m * 512 < 2147483648" using m(3) S by auto
  then have "m = ?n" using m(5) r by (auto simp: CACHE_BLOCK_SIZE_def split: if_splits)
  then have C: "C (hw st) = store_blocks (C (hw (blk fs))) (device_id fs) (partition_id fs) ?o 0 ?bs" using m(4) by simp
  have f: "fs' = fs\<lparr>blk := st\<rparr>" "ok \<longleftrightarrow> r \<ge> 0" using assms(2) by (simp_all add: write_block_def e)
  show "ok" using f r by simp
  show "fs' = fs\<lparr>blk := blk fs'\<rparr>" using f(1) by simp
  have in_range: "x * ?n + ?n \<le> 4294967296" if "x < block_limit fs" for x
    using that S unfolding block_limit_def by auto
  have hit: "C (hw st) (device_id fs, partition_id fs, ?o + of_nat j) = ?bs ! j" if "j < ?n" for j
    using store_hit [of j ?bs "b * ?n" 0 "C (hw (blk fs))" "device_id fs" "partition_id fs"] in_range [OF assms(4)] that
    unfolding C first_sector_def by simp
  have other: "C (hw st) k = C (hw (blk fs)) k" if "\<And>j. j < ?n \<Longrightarrow> k \<noteq> (device_id fs, partition_id fs, ?o + of_nat j)" for k
    unfolding C by (rule store_other) (use that in simp)
  have len: "length (C (hw st) k) = 512" for k
  proof (cases "\<exists>j < ?n. k = (device_id fs, partition_id fs, ?o + of_nat j)")
    case True
    then obtain j where j: "j < ?n" "k = (device_id fs, partition_id fs, ?o + of_nat j)" by blast
    then show ?thesis using hit [OF j(1)] assms(3) Z by simp
  next
    case False
    then have "C (hw st) k = C (hw (blk fs)) k" by (intro other) blast
    then show ?thesis using assms(1) unfolding healthy_def by presburger
  qed
  show "healthy C fs'" using assms(1) m(1,2) find_device_same [OF m(2)] len unfolding f(1) healthy_def by simp
  show "disk C fs' b' = (if b' = b then buf else disk C fs b')" if b': "b' < block_limit fs" for b'
  proof (cases "b' = b")
    case True
    have bs: "map (\<lambda>j. C (hw st) (device_id fs, partition_id fs, ?o + of_nat j)) [0..<?n] = ?bs" by (intro nth_equalityI) (simp_all add: hit)
    have "disk C fs' b = concat (map (\<lambda>j. C (hw st) (device_id fs, partition_id fs, ?o + of_nat j)) [0..<?n])" unfolding f(1) disk_blk by (rule refl)
    then have "disk C fs' b = concat ?bs" unfolding bs .
    then show ?thesis using True concat_take_chunks [of buf ?n] assms(3) Z by simp
  next
    case False
    have "C (hw st) (device_id fs, partition_id fs, first_sector b' fs + of_nat i) = C (hw (blk fs)) (device_id fs, partition_id fs, first_sector b' fs + of_nat i)"
      if i: "i < ?n" for i
    proof (rule other)
      fix j assume j: "j < ?n"
      have "b' * ?n + i \<noteq> b * ?n + j"
      proof
        assume e: "b' * ?n + i = b * ?n + j"
        have "(b' * ?n + i) div ?n = b'" "(b * ?n + j) div ?n = b" using i j by simp_all
        then show False using e False by simp
      qed
      then have "(of_nat (b' * ?n + i) :: u32) \<noteq> of_nat (b * ?n + j)"
        using in_range [OF b'] in_range [OF assms(4)] i j by (subst u32_inj) auto
      then show "(device_id fs, partition_id fs, first_sector b' fs + of_nat i) \<noteq> (device_id fs, partition_id fs, ?o + of_nat j)"
        by (simp add: first_sector_def)
    qed
    then have "map (\<lambda>j. C (hw st) (device_id fs, partition_id fs, first_sector b' fs + of_nat j)) [0..<?n] =
        map (\<lambda>j. C (hw (blk fs)) (device_id fs, partition_id fs, first_sector b' fs + of_nat j)) [0..<?n]"
      by (intro map_cong) auto
    then have "disk C fs' b' = disk C fs b'" unfolding f(1) disk_blk unfolding disk_def by (rule arg_cong)
    then show ?thesis using False by simp
  qed
qed

section \<open>Blocks as an interface\<close>

text \<open>What the file system relies on: reads deliver the contents, writes replace one block.\<close>

locale block_store =
  fixes rd :: "nat \<Rightarrow> 's \<Rightarrow> bool \<times> u8 list \<times> 's" and wr :: "nat \<Rightarrow> u8 list \<Rightarrow> 's \<Rightarrow> bool \<times> 's"
    and view :: "'s \<Rightarrow> nat \<Rightarrow> u8 list" and good :: "'s \<Rightarrow> bool" and size_of :: "'s \<Rightarrow> nat" and limit :: "'s \<Rightarrow> nat"
  assumes rd_law: "good s \<Longrightarrow> rd b s = (ok, buf, s') \<Longrightarrow>
      ok \<and> buf = view s b \<and> good s' \<and> view s' = view s \<and> size_of s' = size_of s \<and> limit s' = limit s"
    and wr_law: "good s \<Longrightarrow> length buf = size_of s \<Longrightarrow> b < limit s \<Longrightarrow> wr b buf s = (ok, s') \<Longrightarrow>
      ok \<and> good s' \<and> (\<forall>b' < limit s. view s' b' = (if b' = b then buf else view s b')) \<and> size_of s' = size_of s \<and> limit s' = limit s"
begin

lemma read_back:
  assumes "good s" "length buf = size_of s" "b < limit s" "b' < limit s" "wr b buf s = (ok, s1)" "rd b' s1 = (ok', buf', s2)"
  shows "ok \<and> ok' \<and> buf' = (if b' = b then buf else view s b')"
  using wr_law [OF assms(1,2,3,5)] rd_law [OF _ assms(6)] assms(4) by auto

text \<open>Changing part of a block: read, edit, write.\<close>

lemma edit_block:
  assumes "good s" "b < limit s" "rd b s = (ok, buf, s1)" "\<And>x. length x = size_of s \<Longrightarrow> length (f x) = size_of s"
    "length (view s b) = size_of s" "wr b (f buf) s1 = (ok', s2)"
  shows "ok \<and> ok' \<and> good s2 \<and> (\<forall>b' < limit s. view s2 b' = (if b' = b then f (view s b) else view s b')) \<and> limit s2 = limit s \<and> size_of s2 = size_of s"
proof -
  note R = rd_law [OF assms(1,3)]
  have l: "length (f buf) = size_of s1" using assms(4) [OF assms(5)] R by simp
  show ?thesis using wr_law [OF _ l _ assms(6)] R assms(2) by simp
qed

end

interpretation minix_disk: block_store read_block write_block "disk C" "healthy C" block_size block_limit
proof (unfold_locales, goal_cases)
  case (1 s b ok buf s')
  note R = read_block_ok [OF 1]
  have "block_size s' = block_size s" "block_limit s' = block_limit s" by (subst R(5), simp add: block_limit_def sectors_per_block_def)+
  then show ?case using R by blast
next
  case (2 s buf b ok s')
  note W = write_block_ok [OF 2(1,4,2,3)]
  have "block_size s' = block_size s" "block_limit s' = block_limit s" by (subst W(3), simp add: block_limit_def sectors_per_block_def)+
  then show ?case using W by blast
qed

section \<open>Numbers\<close>

lemma unat_byte_of: "unat (word_of_nat n :: u8) = n mod 256"
  by (simp add: unat_of_nat)

lemma length_bytes [simp]: "length (bytes16 n) = 2" "length (bytes32 n) = 4"
  by (simp_all add: bytes16_def bytes32_def)

lemma length_put_at [simp]: "i + length xs \<le> length buf \<Longrightarrow> length (put_at i xs buf) = length buf"
  by (simp add: put_at_def)

lemma nth_put_at: "i + length xs \<le> length buf \<Longrightarrow> k < length buf \<Longrightarrow>
  put_at i xs buf ! k = (if i \<le> k \<and> k < i + length xs then xs ! (k - i) else buf ! k)"
  by (cases "k < i"; cases "k < i + length xs") (auto simp: put_at_def nth_append)

lemma bytes32_nth: "bytes32 n ! 0 = word_of_nat n" "bytes32 n ! Suc 0 = word_of_nat (n div 256)"
  "bytes32 n ! 2 = word_of_nat (n div 65536)" "bytes32 n ! 3 = word_of_nat (n div 16777216)"
  by (simp_all add: bytes32_def bytes16_def div_mult2_eq [symmetric])

lemma digits: "n = 256 * a + m0 \<Longrightarrow> a = 256 * b + m1 \<Longrightarrow> b = 256 * c + m2 \<Longrightarrow> m0 + 256 * m1 + 65536 * (m2 + 256 * c) = (n :: nat)"
  by simp

lemma le32_bytes:
  assumes "buf ! i = bytes32 n ! 0" "buf ! (i + 1) = bytes32 n ! 1" "buf ! (i + 2) = bytes32 n ! 2" "buf ! (i + 3) = bytes32 n ! 3" "n < 4294967296"
  shows "le32 buf i = n"
proof -
  have "n mod 256 + 256 * (n div 256 mod 256) + 65536 * (n div 65536 mod 256 + 256 * (n div 16777216 mod 256)) = n"
  proof -
    have a: "n = 256 * (n div 256) + n mod 256" "n div 256 = 256 * (n div 65536) + n div 256 mod 256"
      "n div 65536 = 256 * (n div 16777216) + n div 65536 mod 256"
      using div_mult2_eq [of n 256 256] div_mult2_eq [of n 65536 256] by simp_all
    have "n div 16777216 mod 256 = n div 16777216" using assms(5) by simp
    then show ?thesis using digits [OF a] by simp
  qed
  moreover have "le32 buf i = unat (buf ! i) + 256 * unat (buf ! (i + 1)) + 65536 * (unat (buf ! (i + 2)) + 256 * unat (buf ! (i + 3)))"
    by (simp add: le32_def le16_def add.assoc numeral_3_eq_3)
  ultimately show ?thesis unfolding assms(1-4) unfolding One_nat_def bytes32_nth unat_byte_of by (simp only:)
qed

lemma zone_ptr_put:
  assumes "length buf = 4 * p" "i < p" "j < p" "z < 4294967296"
  shows "zone_ptr (put_ptr i z buf) j = (if j = i then z else zone_ptr buf j)"
proof (cases "j = i")
  case True
  then show ?thesis using assms by (simp add: zone_ptr_def put_ptr_def) (intro le32_bytes; simp add: nth_put_at)
next
  case False
  then have h: "put_ptr i z buf ! (4 * j + k) = buf ! (4 * j + k)" if "k < 4" for k
    using assms that by (cases "j < i") (auto simp: put_ptr_def nth_put_at)
  show ?thesis using False h [of 0] h [of 1] h [of 2] h [of 3]
    by (simp add: zone_ptr_def le32_def le16_def add.assoc numeral_2_eq_2 numeral_3_eq_3)
qed

lemma length_put_ptr [simp]: "length buf = 4 * p \<Longrightarrow> i < p \<Longrightarrow> length (put_ptr i z buf) = length buf"
  unfolding put_ptr_def by (rule length_put_at) simp

lemma zone_ptr_zero: "i < p \<Longrightarrow> zone_ptr (replicate (4 * p) 0) i = 0"
  by (simp add: zone_ptr_def le32_def le16_def)

lemma zone_ptr_bound: "zone_ptr buf i < 4294967296"
proof -
  have b: "unat (w :: u8) < 256" for w
  proof -
    have "unat w < 2 ^ LENGTH(8)" by (rule unsigned_less)
    then show ?thesis by simp
  qed
  show ?thesis unfolding zone_ptr_def le32_def le16_def
    using b [of "buf ! (4 * i)"] b [of "buf ! (4 * i + 1)"] b [of "buf ! (4 * i + 2)"] b [of "buf ! (4 * i + 2 + 1)"] by (simp add: distrib_left)
qed

end
