(* ===== verification/Minix3_Map.thy ===== *)
theory Minix3_Map
  imports Minix3_Disk
begin

text \<open>
  Zones and the block map of \<open>Minix3\<close>: the bitmap search is the search for the first free bit; the zone numbers of a file
  are a partial function from places (in the inode, in indirect blocks) to zones that allocation extends at one place at
  a time.
\<close>

section \<open>The bitmaps\<close>

lemma byte_bit_set: "(w::u8) AND push_bit i 1 \<noteq> 0 \<longleftrightarrow> bit w i"
  by (simp flip: push_bit_eq_mult mask_eq_exp_minus_1 add: bit_iff_and_push_bit_not_eq_0)

lemma map_test_bit: "map_test bm k \<longleftrightarrow> bit (bm (k div 8)) (k mod 8)"
  by (simp only: map_test_def byte_bit_set)

lemma div_mod_8_iff: "(i::nat) div 8 = j div 8 \<Longrightarrow> j mod 8 = i mod 8 \<longleftrightarrow> i = j"
  by (metis div_mult_mod_eq)

interpretation byte_map: bitmap_ops map_set map_clear map_test
proof (unfold_locales, goal_cases)
  case (1 s i j)
  have "i mod 8 < LENGTH(8)" by simp
  then show ?case unfolding map_test_bit map_set_def
    by (cases "i div 8 = j div 8") (auto simp: bit_simps div_mod_8_iff dest: bit_imp_le_length)
next
  case (2 s i j)
  have "i mod 8 < LENGTH(8)" by simp
  then show ?case unfolding map_test_bit map_clear_def
    by (cases "i div 8 = j div 8") (auto simp: bit_simps div_mod_8_iff dest: bit_imp_le_length)
qed

lemma full_byte: "(w::u8) = 0xFF \<longleftrightarrow> (\<forall>i < 8. bit w i)"
proof
  assume "w = 0xFF"
  then have "w = mask 8" by (simp add: mask_eq_exp_minus_1)
  then show "\<forall>i < 8. bit w i" by (simp add: bit_mask_iff)
next
  assume a: "\<forall>i < 8. bit w i"
  have "w = mask 8" by (rule bit_word_eqI) (use a in \<open>simp add: bit_mask_iff\<close>)
  then show "w = 0xFF" by (simp add: mask_eq_exp_minus_1)
qed

lemma find_map: "find P (map f xs) = map_option f (find (P \<circ> f) xs)"
  by (induction xs) auto

lemma find_app: "find P (xs @ ys) = (case find P xs of Some x \<Rightarrow> Some x | None \<Rightarrow> find P ys)"
  by (induction xs) auto

text \<open>The nested loops find the first free bit.\<close>

lemma scan_bytes_first:
  "scan_bytes skip bm [a..<a + n] = find (\<lambda>k. \<not> map_test bm k \<and> skip \<noteq> Some k) [8 * a..<8 * (a + n)]"
proof (induction n arbitrary: a)
  case (Suc n)
  have sp: "[8 * a..<8 * (a + Suc n)] = map (\<lambda>i. a * 8 + i) [0..<8] @ [8 * Suc a..<8 * (Suc a + n)]"
  proof -
    have u: "[8 * a..<8 * a + 8 + 8 * n] = [8 * a..<8 * a + 8] @ [8 * a + 8..<8 * a + 8 + 8 * n]" by (rule upt_add_eq_append) simp
    have m: "map (\<lambda>i. a * 8 + i) [0..<8] = [8 * a..<8 * a + 8]" using map_add_upt [of "8 * a" 8] by (simp only: add.commute mult.commute)
    have e: "8 * (a + Suc n) = 8 * a + 8 + 8 * n" "8 * Suc a = 8 * a + 8" "8 * (Suc a + n) = 8 * a + 8 + 8 * n" by simp_all
    show ?thesis unfolding m e by (rule u)
  qed
  have P: "((\<lambda>k. \<not> map_test bm k \<and> skip \<noteq> Some k) \<circ> (\<lambda>i. a * 8 + i)) i = (bm a AND push_bit i 1 = 0 \<and> skip \<noteq> Some (a * 8 + i))"
    if "i \<in> set [0..<8]" for i using that by (simp add: map_test_def)
  have f: "find (\<lambda>k. \<not> map_test bm k \<and> skip \<noteq> Some k) (map (\<lambda>i. a * 8 + i) [0..<8]) =
      map_option (\<lambda>i. a * 8 + i) (find (\<lambda>i. bm a AND push_bit i 1 = 0 \<and> skip \<noteq> Some (a * 8 + i)) [0..<8])"
    unfolding find_map by (rule arg_cong [where f = "map_option _"], rule find_cong [OF refl P])
  have none: "find (\<lambda>i. bm a AND push_bit i 1 = 0 \<and> skip \<noteq> Some (a * 8 + i)) [0..<8] = None" if "bm a = 0xFF"
    unfolding find_None_iff using that byte_bit_set full_byte by auto
  have "[a..<a + Suc n] = a # [Suc a..<Suc a + n]" by (simp add: upt_conv_Cons del: upt_Suc)
  then show ?case unfolding sp find_app f using Suc.IH [of "Suc a"] none by (auto split: option.splits)
qed simp

lemma find_upt_Some: "find P [0..<n] = Some k \<longleftrightarrow> k < n \<and> P k \<and> (\<forall>j < k. \<not> P j)"
proof
  assume "find P [0..<n] = Some k"
  then obtain i where i: "i < length [0..<n]" "P ([0..<n] ! i)" "k = [0..<n] ! i" "\<forall>j < i. \<not> P ([0..<n] ! j)"
    by (auto simp: find_Some_iff)
  then show "k < n \<and> P k \<and> (\<forall>j < k. \<not> P j)" by auto
next
  assume "k < n \<and> P k \<and> (\<forall>j < k. \<not> P j)"
  then show "find P [0..<n] = Some k" by (subst find_Some_iff) (intro exI [of _ k], auto)
qed

lemma scan_first: "scan_bytes skip bm [0..<n] = find (\<lambda>k. \<not> map_test bm k \<and> skip \<noteq> Some k) [0..<8 * n]"
  using scan_bytes_first [of skip bm 0 n] by simp

section \<open>Zones\<close>

definition used_zones :: "'d minix3 \<Rightarrow> nat set" where
  "used_zones fs = {z. data_zone_start fs \<le> z \<and> map_test (zone_bitmap fs) (z - data_zone_start fs)}"

text \<open>The zones that can be allocated have sectors with 32-bit numbers, and zone 0 is not among them.\<close>

definition layout_ok :: "'d minix3 \<Rightarrow> bool" where
  "layout_ok fs \<longleftrightarrow> 0 < data_zone_start fs \<and> data_zone_start fs + s_zones (sb fs) \<le> block_limit fs"

lemma block_limit_bound: "block_limit fs \<le> 4294967296"
  unfolding block_limit_def by simp

lemma alloc_zone_Some:
  assumes "minix3_alloc_zone fs = (Some z, fs')" "layout_ok fs"
  shows "z \<notin> used_zones fs" "used_zones fs' = insert z (used_zones fs)" "0 < z" "z < block_limit fs"
    "fs' = fs\<lparr>zone_bitmap := map_set (zone_bitmap fs) (z - data_zone_start fs), zmap_dirty := True\<rparr>"
proof -
  obtain k where k: "find (\<lambda>k. \<not> map_test (zone_bitmap fs) k) [0..<8 * (s_zmap_blocks (sb fs) * block_size fs)] = Some k" "k < s_zones (sb fs)"
    "z = w32 (k + data_zone_start fs)" "fs' = fs\<lparr>zone_bitmap := map_set (zone_bitmap fs) k, zmap_dirty := True\<rparr>"
    using assms(1) by (auto simp: minix3_alloc_zone_def scan_first split: option.splits if_splits)
  have z: "z = k + data_zone_start fs" "z < block_limit fs" using k(2,3) assms(2) block_limit_bound [of fs] by (simp_all add: layout_ok_def)
  have free: "\<not> map_test (zone_bitmap fs) k" using k(1) unfolding find_upt_Some by blast
  show "z \<notin> used_zones fs" using free z by (simp add: used_zones_def)
  show "used_zones fs' = insert z (used_zones fs)" using z unfolding k(4) used_zones_def by (auto simp: byte_map.test_set)
  show "0 < z" "z < block_limit fs" using z assms(2) by (simp_all add: layout_ok_def)
  show "fs' = fs\<lparr>zone_bitmap := map_set (zone_bitmap fs) (z - data_zone_start fs), zmap_dirty := True\<rparr>" using k(4) z by simp
qed

text \<open>
  zone allocation takes the first free bit. It returns the lowest index whose bit is clear, moved by the first data
  zone, marks exactly this bit, and fails exactly if no bit of the bitmap is clear or the lowest clear one is not below the
  number of zones.
\<close>

theorem alloc_zone_first:
  "minix3_alloc_zone fs =
    (case find (\<lambda>k. \<not> map_test (zone_bitmap fs) k) [0..<8 * (s_zmap_blocks (sb fs) * block_size fs)] of
       None \<Rightarrow> (None, fs)
     | Some k \<Rightarrow> if k < s_zones (sb fs)
         then (Some (w32 (k + data_zone_start fs)), fs\<lparr>zone_bitmap := map_set (zone_bitmap fs) k, zmap_dirty := True\<rparr>) else (None, fs))"
  by (simp add: minix3_alloc_zone_def scan_first split: option.split)

text \<open>
  allocation can leave the file system. The limit is checked against the index in the bitmap and not against the zone
  number: when all data zones are taken, the next allocation returns the number of zones itself, a block past the end
  of the file system, which can never be freed.
\<close>

theorem alloc_zone_past_end:
  assumes "data_zone_start fs < s_zones (sb fs)" "s_zones (sb fs) < 8 * (s_zmap_blocks (sb fs) * block_size fs)" "s_zones (sb fs) < 2147483648"
    "\<forall>k < s_zones (sb fs) - data_zone_start fs. map_test (zone_bitmap fs) k"
    "\<not> map_test (zone_bitmap fs) (s_zones (sb fs) - data_zone_start fs)" "0 < data_zone_start fs"
  shows "fst (minix3_alloc_zone fs) = Some (s_zones (sb fs)) \<and>
    fst (minix3_free_zone (s_zones (sb fs)) (snd (minix3_alloc_zone fs))) = -1"
proof -
  let ?k = "s_zones (sb fs) - data_zone_start fs"
  have "find (\<lambda>k. \<not> map_test (zone_bitmap fs) k) [0..<8 * (s_zmap_blocks (sb fs) * block_size fs)] = Some ?k"
    unfolding find_upt_Some using assms by auto
  then show ?thesis using assms by (simp add: minix3_alloc_zone_def scan_first minix3_free_zone_def)
qed

section \<open>Places of zone numbers\<close>

datatype slot = Direct nat | Single | Double | In_single nat | In_double nat | Leaf nat nat

text \<open>The zone number at a place, given the contents of the disk and the numbers in the inode; 0 where there is none.\<close>

fun slot_zone :: "nat \<Rightarrow> (nat \<Rightarrow> u8 list) \<Rightarrow> nat list \<Rightarrow> slot \<Rightarrow> nat" where
  "slot_zone per V zs (Direct k) = (if k < 7 then zs ! k else 0)"
| "slot_zone per V zs Single = zs ! 7"
| "slot_zone per V zs Double = zs ! 8"
| "slot_zone per V zs (In_single i) = (if zs ! 7 = 0 \<or> per \<le> i then 0 else zone_ptr (V (zs ! 7)) i)"
| "slot_zone per V zs (In_double i) = (if zs ! 8 = 0 \<or> per \<le> i then 0 else zone_ptr (V (zs ! 8)) i)"
| "slot_zone per V zs (Leaf i j) =
     (if zs ! 8 = 0 \<or> per \<le> i \<or> per \<le> j then 0
      else if zone_ptr (V (zs ! 8)) i = 0 then 0 else zone_ptr (V (zone_ptr (V (zs ! 8)) i)) j)"

fun is_meta :: "slot \<Rightarrow> bool" where
  "is_meta Single = True" | "is_meta Double = True" | "is_meta (In_double i) = True" | "is_meta _ = False"

definition block_slot :: "nat \<Rightarrow> nat \<Rightarrow> slot" where
  "block_slot per fb = (if fb < 7 then Direct fb else if fb - 7 < per then In_single (fb - 7)
     else Leaf ((fb - 7 - per) div per) ((fb - 7 - per) mod per))"

definition max_blocks :: "nat \<Rightarrow> nat" where
  "max_blocks per = 7 + per + per * per"

lemma block_slot_data [simp]: "\<not> is_meta (block_slot per fb)"
  by (simp add: block_slot_def)

lemma block_slot_inj:
  assumes "block_slot per a = block_slot per b"
  shows "a = b"
proof -
  have g: "x div per = y div per \<Longrightarrow> x mod per = y mod per \<Longrightarrow> x = y" for x y :: nat by (metis div_mult_mod_eq)
  have d: "\<not> a < 7 \<Longrightarrow> \<not> b < 7 \<Longrightarrow> a - 7 = b - 7 \<Longrightarrow> a = b" by arith
  have e: "\<not> a - 7 < per \<Longrightarrow> \<not> b - 7 < per \<Longrightarrow> a - 7 - per = b - 7 - per \<Longrightarrow> a - 7 = b - 7" by arith
  consider "a < 7" | "\<not> a < 7" "a - 7 < per" | "\<not> a < 7" "\<not> a - 7 < per" by blast
  then show ?thesis
  proof cases
    case 3
    then have "\<not> b < 7" "\<not> b - 7 < per" "(a - 7 - per) div per = (b - 7 - per) div per" "(a - 7 - per) mod per = (b - 7 - per) mod per"
      using assms unfolding block_slot_def by (simp_all only: if_False if_True slot.inject slot.distinct not_False_eq_True split: if_splits)
    then show ?thesis using 3 d e g by blast
  qed (use assms d in \<open>auto simp only: block_slot_def if_True if_False slot.inject slot.distinct split: if_splits\<close>)
qed

abbreviation (input) pointers :: "'d minix3 \<Rightarrow> nat" where "pointers fs \<equiv> block_size fs div 4"

definition file_zone :: "('d \<Rightarrow> block_key \<Rightarrow> block) \<Rightarrow> 'd minix3 \<Rightarrow> minix3_inode \<Rightarrow> slot \<Rightarrow> nat" where
  "file_zone C fs n = slot_zone (pointers fs) (disk C fs) (i_zone n)"

text \<open>No zone is at two places, and every zone of the file is marked in the bitmap.\<close>

definition map_ok :: "('d \<Rightarrow> block_key \<Rightarrow> block) \<Rightarrow> 'd minix3 \<Rightarrow> minix3_inode \<Rightarrow> bool" where
  "map_ok C fs n \<longleftrightarrow> healthy C fs \<and> layout_ok fs \<and> length (i_zone n) = 10 \<and>
     (\<forall>s t. file_zone C fs n s = file_zone C fs n t \<and> file_zone C fs n s \<noteq> 0 \<longrightarrow> s = t) \<and>
     (\<forall>s. file_zone C fs n s \<noteq> 0 \<longrightarrow> file_zone C fs n s \<in> used_zones fs \<and> file_zone C fs n s < block_limit fs)"

lemma map_okD:
  assumes "map_ok C fs n"
  shows "healthy C fs" "layout_ok fs" "length (i_zone n) = 10"
    "\<And>s t. file_zone C fs n s = file_zone C fs n t \<Longrightarrow> file_zone C fs n s \<noteq> 0 \<Longrightarrow> s = t"
    "\<And>s. file_zone C fs n s \<noteq> 0 \<Longrightarrow> file_zone C fs n s \<in> used_zones fs"
    "\<And>s. file_zone C fs n s \<noteq> 0 \<Longrightarrow> file_zone C fs n s < block_limit fs"
  using assms unfolding map_ok_def by blast+

lemma pointers_size: "healthy C fs \<Longrightarrow> block_size fs = 4 * pointers fs \<and> 0 < pointers fs"
  by (auto simp: healthy_def)

text \<open>The block map delivers the zone of the block.\<close>

lemma bmap_ok:
  assumes "healthy C fs" "minix3_bmap n fb fs = (r, fs')"
  shows "r = (if fb < max_blocks (pointers fs) then Some (file_zone C fs n (block_slot (pointers fs) fb)) else None)"
    "healthy C fs'" "disk C fs' = disk C fs" "fs' = fs\<lparr>blk := blk fs'\<rparr>"
proof -
  let ?p = "pointers fs"
  have p: "0 < ?p" using pointers_size [OF assms(1)] by simp
  have rd: "\<exists>st. read_block b fs = (True, disk C fs b, fs\<lparr>blk := st\<rparr>) \<and> healthy C (fs\<lparr>blk := st\<rparr>) \<and> disk C (fs\<lparr>blk := st\<rparr>) = disk C fs"
    if "healthy C fs" for fs :: "'a minix3" and b
  proof -
    obtain ok buf fs1 where e: "read_block b fs = (ok, buf, fs1)" by (metis prod_cases3)
    note R = read_block_ok [OF that e]
    show ?thesis using R e by (intro exI [of _ "blk fs1"]) metis
  qed
  have "r = (if fb < max_blocks ?p then Some (file_zone C fs n (block_slot ?p fb)) else None) \<and> healthy C fs' \<and> disk C fs' = disk C fs \<and> fs' = fs\<lparr>blk := blk fs'\<rparr>"
  proof (cases "fb < 7 + ?p")
    case True
    obtain st where st: "read_block (i_zone n ! 7) fs = (True, disk C fs (i_zone n ! 7), fs\<lparr>blk := st\<rparr>)"
      "healthy C (fs\<lparr>blk := st\<rparr>)" "disk C (fs\<lparr>blk := st\<rparr>) = disk C fs" using rd [OF assms(1)] by blast
    show ?thesis using True assms st
      by (auto simp: minix3_bmap_def Let_def MINIX3_DIRECT_ZONES_def max_blocks_def block_slot_def file_zone_def split: if_splits)
  next
    case False
    let ?x = "fb - 7 - ?p"
    obtain st where st: "read_block (i_zone n ! 8) fs = (True, disk C fs (i_zone n ! 8), fs\<lparr>blk := st\<rparr>)"
      "healthy C (fs\<lparr>blk := st\<rparr>)" "disk C (fs\<lparr>blk := st\<rparr>) = disk C fs" using rd [OF assms(1)] by blast
    let ?w = "zone_ptr (disk C fs (i_zone n ! 8)) (?x div ?p)"
    obtain st2 where st2: "read_block ?w (fs\<lparr>blk := st\<rparr>) = (True, disk C fs ?w, fs\<lparr>blk := st2\<rparr>)"
      "healthy C (fs\<lparr>blk := st2\<rparr>)" "disk C (fs\<lparr>blk := st2\<rparr>) = disk C fs" using rd [OF st(2)] st(3) by fastforce
    have x: "?x div ?p < ?p \<longleftrightarrow> ?x < ?p * ?p" "?x mod ?p < ?p" using p by (simp_all add: less_mult_imp_div_less div_less_iff_less_mult)
    have m: "fb < max_blocks ?p \<longleftrightarrow> ?x < ?p * ?p" using False by (auto simp: max_blocks_def)
    show ?thesis
    proof (cases "?x < ?p * ?p")
      case out: False
      have "\<not> fb - 7 < ?p" "\<not> fb < 7" using False by linarith+
      then show ?thesis using out assms m by (simp add: minix3_bmap_def Let_def MINIX3_DIRECT_ZONES_def)
    next
      case inr: True
      have n1: "\<not> fb - 7 < ?p" "\<not> fb < 7" using False by linarith+
      have B: "minix3_bmap n fb fs = (if i_zone n ! 8 = 0 then (Some 0, fs) else (Some (if ?w = 0 then 0 else zone_ptr (disk C fs ?w) (?x mod ?p)),
          fs\<lparr>blk := if ?w = 0 then st else st2\<rparr>))"
      proof (cases "i_zone n ! 8 = 0")
        case True
        then show ?thesis unfolding minix3_bmap_def Let_def MINIX3_DIRECT_ZONES_def by (simp only: n1 inr prod.case if_True if_False simp_thms)
      next
        case z: False
        show ?thesis unfolding minix3_bmap_def Let_def MINIX3_DIRECT_ZONES_def
          by (cases "?w = 0") (simp_all only: z n1 inr st(1) st2(1) prod.case if_True if_False simp_thms)
      qed
      have nx: "\<not> ?p \<le> ?x div ?p" "\<not> ?p \<le> ?x mod ?p" using x inr unfolding not_le by blast+
      have Z: "file_zone C fs n (block_slot ?p fb) = (if i_zone n ! 8 = 0 then 0 else if ?w = 0 then 0 else zone_ptr (disk C fs ?w) (?x mod ?p))"
        unfolding file_zone_def block_slot_def by (simp only: n1 nx if_False slot_zone.simps simp_thms)
      have mb: "fb < max_blocks ?p" using m inr by blast
      have e: "r = fst (minix3_bmap n fb fs)" "fs' = snd (minix3_bmap n fb fs)" using assms(2) by simp_all
      show ?thesis using mb assms(1) st(2,3) st2(2,3) unfolding e B Z by (cases "i_zone n ! 8 = 0"; cases "?w = 0") simp_all
    qed
  qed
  then show "r = (if fb < max_blocks (pointers fs) then Some (file_zone C fs n (block_slot (pointers fs) fb)) else None)"
    "healthy C fs'" "disk C fs' = disk C fs" "fs' = fs\<lparr>blk := blk fs'\<rparr>" by blast+
qed

end
