(* ===== verification/Minix3_Alloc.thy ===== *)
theory Minix3_Alloc
  imports Minix3_Map
begin

text \<open>
  Allocation of the blocks of a file: every step adds one zone, unused before, at one place of the block map and writes
  only indirect blocks of the file.
\<close>

section \<open>The block map as a tree\<close>

fun child :: "slot \<Rightarrow> nat \<Rightarrow> slot" where
  "child Single i = In_single i" | "child Double i = In_double i" | "child (In_double i) j = Leaf i j" | "child s i = s"

definition root :: "nat \<Rightarrow> slot" where
  "root k = (if k < 7 then Direct k else if k = 7 then Single else Double)"

lemma child_inj: "is_meta p \<Longrightarrow> is_meta q \<Longrightarrow> child p i = child q j \<longleftrightarrow> p = q \<and> i = j"
  by (cases p; cases q) auto

lemma child_root: "is_meta p \<Longrightarrow> child p i \<noteq> root k"
  by (cases p) (auto simp: root_def)

lemma child_not_self: "is_meta p \<Longrightarrow> child p i \<noteq> p"
  by (cases p) auto

lemma child_zone: "is_meta p \<Longrightarrow> slot_zone per V zs (child p i) =
    (if slot_zone per V zs p = 0 \<or> per \<le> i then 0 else zone_ptr (V (slot_zone per V zs p)) i)"
  by (cases p) auto

lemma slot_tree:
  assumes "\<And>k. P (Direct k)" "P Single" "P Double" "\<And>q j. is_meta q \<Longrightarrow> P q \<Longrightarrow> P (child q j)"
  shows "P t"
proof -
  have d: "P (In_double i)" for i using assms(4) [of Double i] assms(3) by simp
  have l: "P (Leaf i j)" for i j using assms(4) [of "In_double i" j] d by simp
  have i: "P (In_single i)" for i using assms(4) [of Single i] assms(2) by simp
  show ?thesis using assms(1-3) d l i by (cases t) simp_all
qed

text \<open>A new zone at a place of the inode, and one in an indirect block.\<close>

lemma slot_zone_root:
  assumes "k < 9" "zs ! k = 0" "length zs = 10"
    "\<And>q. is_meta q \<Longrightarrow> slot_zone per V zs q \<noteq> 0 \<Longrightarrow> V' (slot_zone per V zs q) = V (slot_zone per V zs q)"
    "7 \<le> k \<Longrightarrow> \<forall>j < per. zone_ptr (V' z) j = 0"
  shows "slot_zone per V' (zs[k := z]) = (slot_zone per V zs)(root k := z)"
proof
  fix t
  show "slot_zone per V' (zs[k := z]) t = ((slot_zone per V zs)(root k := z)) t"
  proof (induction t rule: slot_tree)
    case (4 q j)
    have z: "slot_zone per V zs (root k) = 0" using assms(1,2) by (auto simp: root_def less_Suc_eq numeral_eq_Suc)
    have k7: "q = root k \<Longrightarrow> 7 \<le> k" using 4(1) by (auto simp: root_def split: if_splits)
    have n: "child q j \<noteq> root k" using child_root [OF 4(1)] .
    show ?case
    proof (cases "q = root k")
      case True
      then have "slot_zone per V zs (child q j) = 0" using z child_zone [OF 4(1)] by simp
      moreover have "slot_zone per V' (zs[k := z]) (child q j) = 0" using True 4(2) assms(5) [OF k7] unfolding child_zone [OF 4(1)] by simp
      ultimately show ?thesis using n by simp
    next
      case False
      then show ?thesis using n 4(2) assms(4) [OF 4(1)] unfolding fun_upd_other [OF n] child_zone [OF 4(1)] by simp
    qed
  qed (use assms(1,3) in \<open>auto simp: root_def nth_list_update\<close>)
qed

lemma slot_zone_child:
  assumes p: "is_meta p" "slot_zone per V zs p = b" "b \<noteq> 0" and i: "i < per" and z: "z < 4294967296"
    and b: "V' b = put_ptr i z (V b)" "length (V b) = 4 * per" "zone_ptr (V b) i = 0"
    and inj: "\<And>q. is_meta q \<Longrightarrow> slot_zone per V zs q = b \<Longrightarrow> q = p"
    and agree: "\<And>q. is_meta q \<Longrightarrow> slot_zone per V zs q \<noteq> 0 \<Longrightarrow> slot_zone per V zs q \<noteq> b \<Longrightarrow> V' (slot_zone per V zs q) = V (slot_zone per V zs q)"
    and zeros: "is_meta (child p i) \<Longrightarrow> \<forall>j < per. zone_ptr (V' z) j = 0"
  shows "slot_zone per V' zs = (slot_zone per V zs)(child p i := z)"
proof
  fix t
  show "slot_zone per V' zs t = ((slot_zone per V zs)(child p i := z)) t"
  proof (induction t rule: slot_tree)
    case (4 q j)
    have c: "slot_zone per V zs (child p i) = 0" unfolding child_zone [OF p(1)] using p b(3) by simp
    show ?case
    proof (cases "q = child p i")
      case True
      then have "slot_zone per V zs (child q j) = 0" using c child_zone [OF 4(1)] by simp
      moreover have "slot_zone per V' zs (child q j) = 0" using True 4 zeros unfolding child_zone [OF 4(1)] by simp
      ultimately show ?thesis using True child_not_self [OF 4(1)] by simp
    next
      case False
      then have s: "slot_zone per V' zs q = slot_zone per V zs q" using 4(2) by simp
      show ?thesis
      proof (cases "q = p")
        case True
        then show ?thesis using s p i z b(1) zone_ptr_put [OF b(2) i _ z] child_zone [OF p(1)] by (auto simp: child_inj)
      next
        case False
        then have n: "child q j \<noteq> child p i" using 4(1) p(1) by (simp add: child_inj)
        have "slot_zone per V zs q \<noteq> b" using inj [OF 4(1)] False by blast
        then show ?thesis using agree [OF 4(1)] s unfolding fun_upd_other [OF n] child_zone [OF 4(1)] by simp
      qed
    qed
  qed (use p(1) in \<open>auto elim: is_meta.elims\<close>)
qed

section \<open>Growth\<close>

text \<open>Zones are only added, those added were unused, and of the disk only zones of the file at places in \<open>P\<close> are written.\<close>

definition grows :: "(slot \<Rightarrow> bool) \<Rightarrow> ('d \<Rightarrow> block_key \<Rightarrow> block) \<Rightarrow> 'd minix3 \<Rightarrow> minix3_inode \<Rightarrow> 'd minix3 \<Rightarrow> minix3_inode \<Rightarrow> bool" where
  "grows P C fs n fs' n' \<longleftrightarrow> map_ok C fs' n' \<and> used_zones fs \<subseteq> used_zones fs' \<and>
     (\<forall>s. file_zone C fs n s \<noteq> 0 \<longrightarrow> file_zone C fs' n' s = file_zone C fs n s) \<and>
     (\<forall>s. file_zone C fs n s = 0 \<longrightarrow> file_zone C fs' n' s \<noteq> 0 \<longrightarrow> file_zone C fs' n' s \<notin> used_zones fs) \<and>
     (\<forall>b. 0 < b \<longrightarrow> b < block_limit fs \<longrightarrow> (\<forall>s. P s \<longrightarrow> file_zone C fs' n' s \<noteq> b) \<longrightarrow> disk C fs' b = disk C fs b) \<and>
     n' = n\<lparr>i_zone := i_zone n'\<rparr> \<and> fs' = fs\<lparr>zone_bitmap := zone_bitmap fs', zmap_dirty := zmap_dirty fs', blk := blk fs'\<rparr>"

lemma growsD:
  assumes "grows P C fs n fs' n'"
  shows "map_ok C fs' n'" "used_zones fs \<subseteq> used_zones fs'"
    "\<And>s. file_zone C fs n s \<noteq> 0 \<Longrightarrow> file_zone C fs' n' s = file_zone C fs n s"
    "\<And>s. file_zone C fs n s = 0 \<Longrightarrow> file_zone C fs' n' s \<noteq> 0 \<Longrightarrow> file_zone C fs' n' s \<notin> used_zones fs"
    "\<And>b. 0 < b \<Longrightarrow> b < block_limit fs \<Longrightarrow> (\<And>s. P s \<Longrightarrow> file_zone C fs' n' s \<noteq> b) \<Longrightarrow> disk C fs' b = disk C fs b"
    "n' = n\<lparr>i_zone := i_zone n'\<rparr>" "fs' = fs\<lparr>zone_bitmap := zone_bitmap fs', zmap_dirty := zmap_dirty fs', blk := blk fs'\<rparr>"
  using assms unfolding grows_def by blast+

lemma grows_same:
  assumes "grows P C fs n fs' n'"
  shows "block_size fs' = block_size fs" "block_limit fs' = block_limit fs" "data_zone_start fs' = data_zone_start fs" "sb fs' = sb fs"
  by (subst growsD(7) [OF assms], simp add: block_limit_def sectors_per_block_def)+

lemma grows_trans:
  assumes a: "grows P C fs n fs1 n1" and b: "grows P C fs1 n1 fs2 n2"
  shows "grows P C fs n fs2 n2"
proof -
  have z: "file_zone C fs2 n2 s = file_zone C fs n s" if "file_zone C fs n s \<noteq> 0" for s
    using growsD(3) [OF a that] growsD(3) [OF b, of s] that by simp
  have u: "file_zone C fs2 n2 s \<notin> used_zones fs" if "file_zone C fs n s = 0" "file_zone C fs2 n2 s \<noteq> 0" for s
    using growsD(2,4) [OF a] growsD(3,4) [OF b, of s] that by (cases "file_zone C fs1 n1 s = 0") auto
  have d: "disk C fs2 c = disk C fs c" if "0 < c" "c < block_limit fs" "\<And>s. P s \<Longrightarrow> file_zone C fs2 n2 s \<noteq> c" for c
  proof -
    have "file_zone C fs1 n1 s \<noteq> c" if "P s" for s using growsD(3) [OF b, of s] \<open>0 < c\<close> \<open>\<And>s. P s \<Longrightarrow> file_zone C fs2 n2 s \<noteq> c\<close> [OF that] by auto
    then show ?thesis using growsD(5) [OF a that(1,2)] growsD(5) [OF b that(1) _ that(3)] grows_same(2) [OF a] that(2) by simp
  qed
  have n: "n2 = n\<lparr>i_zone := i_zone n2\<rparr>" by (subst growsD(6) [OF b], subst growsD(6) [OF a]) simp
  have f: "fs2 = fs\<lparr>zone_bitmap := zone_bitmap fs2, zmap_dirty := zmap_dirty fs2, blk := blk fs2\<rparr>"
    by (subst growsD(7) [OF b], subst growsD(7) [OF a]) simp
  show ?thesis unfolding grows_def using growsD(1) [OF b] growsD(2) [OF a] growsD(2) [OF b] z u d n f by auto
qed

lemma map_ok_blk:
  assumes "map_ok C fs n" "healthy C fs'" "disk C fs' = disk C fs" "fs' = fs\<lparr>blk := st\<rparr>"
  shows "map_ok C fs' n" "file_zone C fs' n = file_zone C fs n"
proof -
  show z: "file_zone C fs' n = file_zone C fs n" using assms(4) unfolding file_zone_def assms(3) by simp
  have "layout_ok fs' = layout_ok fs" "used_zones fs' = used_zones fs" "block_limit fs' = block_limit fs"
    using assms(4) by (simp_all add: layout_ok_def used_zones_def block_limit_def)
  then show "map_ok C fs' n" using assms(1,2) unfolding map_ok_def z by simp
qed

lemma grows_blk:
  assumes "map_ok C fs n" "healthy C fs'" "disk C fs' = disk C fs" "fs' = fs\<lparr>blk := st\<rparr>"
  shows "grows P C fs n fs' n"
proof -
  have "used_zones fs' = used_zones fs" using assms(4) by (simp add: used_zones_def)
  then show ?thesis using map_ok_blk [OF assms] assms(3,4) unfolding grows_def by simp
qed

lemma grows_refl: "map_ok C fs n \<Longrightarrow> grows P C fs n fs n"
  by (rule grows_blk [where st = "blk fs"]) (auto dest: map_okD(1))

lemma alloc_zone_None: "minix3_alloc_zone fs = (None, fs') \<Longrightarrow> fs' = fs"
  by (auto simp: minix3_alloc_zone_def split: option.splits if_splits)

lemma bitmap_same:
  "healthy C (fs\<lparr>zone_bitmap := m, zmap_dirty := d\<rparr>) = healthy C fs" "disk C (fs\<lparr>zone_bitmap := m, zmap_dirty := d\<rparr>) = disk C fs"
  "block_limit (fs\<lparr>zone_bitmap := m, zmap_dirty := d\<rparr>) = block_limit fs"
  by (simp_all add: healthy_def disk_def fun_eq_iff first_sector_def sectors_per_block_def block_limit_def)

lemma grows_add:
  assumes m: "map_ok C fs n" and a: "minix3_alloc_zone fs = (Some z, fs1)" and h: "healthy C fs'" and f: "fs' = fs1\<lparr>blk := st\<rparr>"
    and n: "n' = n\<lparr>i_zone := zs\<rparr>" "length zs = 10" and s: "file_zone C fs n s = 0" "file_zone C fs' n' = (file_zone C fs n)(s := z)"
    and d: "\<And>b. 0 < b \<Longrightarrow> b < block_limit fs \<Longrightarrow> (\<And>t. P t \<Longrightarrow> file_zone C fs' n' t \<noteq> b) \<Longrightarrow> disk C fs' b = disk C fs b"
  shows "grows P C fs n fs' n'"
proof -
  note A = alloc_zone_Some [OF a map_okD(2) [OF m]]
  have e: "used_zones fs' = insert z (used_zones fs)" "block_limit fs' = block_limit fs" "layout_ok fs' = layout_ok fs"
    using A(2) unfolding f by (simp add: used_zones_def, unfold A(5), simp_all add: block_limit_def layout_ok_def sectors_per_block_def)
  have ok: "map_ok C fs' n'" unfolding map_ok_def
  proof (intro conjI allI impI)
    fix t u assume tu: "file_zone C fs' n' t = file_zone C fs' n' u \<and> file_zone C fs' n' t \<noteq> 0"
    have "file_zone C fs n x \<noteq> z" if "file_zone C fs n x \<noteq> 0" for x using map_okD(5) [OF m that] A(1) by auto
    then show "t = u" using tu map_okD(4) [OF m, of t u] A(3) unfolding s(2) by (auto split: if_splits)
  next
    fix t assume t: "file_zone C fs' n' t \<noteq> 0"
    show "file_zone C fs' n' t \<in> used_zones fs'" "file_zone C fs' n' t < block_limit fs'"
      using t map_okD(5,6) [OF m, of t] A(4) unfolding s(2) e by (auto split: if_splits)
  qed (use h n map_okD(2) [OF m] e in simp_all)
  have g: "fs' = fs\<lparr>zone_bitmap := zone_bitmap fs', zmap_dirty := zmap_dirty fs', blk := blk fs'\<rparr>" proof -
    obtain m d where e: "fs1 = fs\<lparr>zone_bitmap := m, zmap_dirty := d\<rparr>" using A(5) by blast
    show ?thesis unfolding f e by simp
  qed
  show ?thesis unfolding grows_def using ok e(1) s A(1,3) d g n(1) by auto
qed

section \<open>The steps\<close>

lemma root_zone: "k < 9 \<Longrightarrow> slot_zone per V zs (root k) = zs ! k"
proof -
  assume "k < 9"
  then have "k < 7 \<or> k = 7 \<or> k = 8" by auto
  then show ?thesis by (auto simp: root_def)
qed

lemma zero_block_ok:
  fixes meta :: bool and fs :: "'d minix3"
  assumes "healthy C fs" "z < block_limit fs"
  defines "fs' \<equiv> if meta then zero_block z fs else fs"
  shows "healthy C fs'" "fs' = fs\<lparr>blk := blk fs'\<rparr>" "\<And>b. b < block_limit fs \<Longrightarrow> b \<noteq> z \<Longrightarrow> disk C fs' b = disk C fs b"
    "meta \<Longrightarrow> \<forall>j < pointers fs. zone_ptr (disk C fs' z) j = 0"
proof -
  obtain ok st where w: "write_block z (replicate (block_size fs) 0) fs = (ok, st)" by fastforce
  note W = write_block_ok [OF assms(1) w _ assms(2), simplified]
  have e: "fs' = (if meta then st else fs)" unfolding fs'_def zero_block_def w by simp
  show "healthy C fs'" "fs' = fs\<lparr>blk := blk fs'\<rparr>" using W(2,3) assms(1) unfolding e by simp_all
  show "disk C fs' b = disk C fs b" if "b < block_limit fs" "b \<noteq> z" for b using W(4) [OF that(1)] that(2) unfolding e by simp
  have "zone_ptr (replicate (block_size fs) 0) j = 0" if "j < pointers fs" for j
    using zone_ptr_zero [OF that] pointers_size [OF assms(1)] by simp
  then show "meta \<Longrightarrow> \<forall>j < pointers fs. zone_ptr (disk C fs' z) j = 0" using W(4) [OF assms(2)] unfolding e by simp
qed

lemma ensure_slot_ok:
  assumes m: "map_ok C fs n" and k: "k < 9" "meta \<longleftrightarrow> 7 \<le> k" and e: "ensure_slot k meta n fs = (ok, n', fs')"
  shows "grows is_meta C fs n fs' n'" "ok \<Longrightarrow> i_zone n' ! k = file_zone C fs' n' (root k) \<and> file_zone C fs' n' (root k) \<noteq> 0"
    "\<not> ok \<Longrightarrow> fst (minix3_alloc_zone fs') = None" "\<not> ok \<or> t \<noteq> root k \<Longrightarrow> file_zone C fs' n' t = file_zone C fs n t"
proof -
  have "grows is_meta C fs n fs' n' \<and> (if ok then i_zone n' ! k \<noteq> 0 else fst (minix3_alloc_zone fs') = None) \<and>
      (\<not> ok \<or> t \<noteq> root k \<longrightarrow> file_zone C fs' n' t = file_zone C fs n t)"
  proof (cases "i_zone n ! k = 0")
    case False
    then show ?thesis using e grows_refl [OF m] by (auto simp: ensure_slot_def)
  next
    case True
    obtain r fs1 where a: "minix3_alloc_zone fs = (r, fs1)" by fastforce
    show ?thesis
    proof (cases r)
      case None
      have "fs1 = fs" using alloc_zone_None a None by blast
      then show ?thesis using e a True None grows_refl [OF m] by (auto simp: ensure_slot_def)
    next
      case (Some z)
      note A = alloc_zone_Some [OF a [unfolded Some] map_okD(2) [OF m]]
      have b: "healthy C fs1" "disk C fs1 = disk C fs" "block_limit fs1 = block_limit fs" "block_size fs1 = block_size fs"
        using map_okD(1) [OF m] unfolding A(5) by (simp_all add: bitmap_same)
      have f: "ok" "n' = n\<lparr>i_zone := (i_zone n)[k := z]\<rparr>" "fs' = (if meta then zero_block z fs1 else fs1)"
        using e a Some True by (simp_all add: ensure_slot_def)
      note Z = zero_block_ok [where z = z and meta = meta, OF b(1), folded f(3), unfolded b(2-4), OF A(4)]
      have sz: "block_size fs' = block_size fs" by (subst Z(2)) (simp add: b(4))
      have used: "file_zone C fs n s \<noteq> z" if "file_zone C fs n s \<noteq> 0" for s using map_okD(5) [OF m that] A(1) by auto
      have fz: "file_zone C fs' n' = (file_zone C fs n)(root k := z)"
        unfolding file_zone_def f(2) minix3_inode.select_convs minix3_inode.update_convs sz
        using slot_zone_root [OF k(1) True map_okD(3) [OF m], of "pointers fs" "disk C fs" "disk C fs'" z] Z(3,4) k(2) used map_okD(6) [OF m]
        unfolding file_zone_def by simp
      have "grows is_meta C fs n fs' n'"
      proof (rule grows_add [OF m a [unfolded Some] Z(1,2) f(2) _ _ fz])
        show "length ((i_zone n)[k := z]) = 10" using map_okD(3) [OF m] by simp
        show "file_zone C fs n (root k) = 0" using True root_zone [OF k(1)] by (simp add: file_zone_def)
        fix c assume c: "0 < c" "c < block_limit fs" "\<And>t. is_meta t \<Longrightarrow> file_zone C fs' n' t \<noteq> c"
        show "disk C fs' c = disk C fs c"
        proof (cases meta)
          case True
          then have "is_meta (root k)" using k by (auto simp: root_def)
          then show ?thesis using Z(3) [OF c(2)] c(3) [of "root k"] unfolding fz by simp
        qed (simp add: f(3) b(2))
      qed
      then show ?thesis using f(1,2) k(1) map_okD(3) [OF m] A(3) fz by simp
    qed
  qed
  then show "grows is_meta C fs n fs' n'" "ok \<Longrightarrow> i_zone n' ! k = file_zone C fs' n' (root k) \<and> file_zone C fs' n' (root k) \<noteq> 0"
    "\<not> ok \<Longrightarrow> fst (minix3_alloc_zone fs') = None" "\<not> ok \<or> t \<noteq> root k \<Longrightarrow> file_zone C fs' n' t = file_zone C fs n t"
    using root_zone [OF k(1)] by (simp_all add: file_zone_def split: if_splits)
qed

lemma alloc_zone_blk: "minix3_alloc_zone (fs\<lparr>blk := st\<rparr>) = map_prod id (\<lambda>fs. fs\<lparr>blk := st\<rparr>) (minix3_alloc_zone fs)"
  by (simp add: minix3_alloc_zone_def split: option.split)

lemma ensure_entry_ok:
  assumes m: "map_ok C fs n" and p: "is_meta p" "file_zone C fs n p = b" "b \<noteq> 0" and i: "i < pointers fs"
    and meta: "meta \<longleftrightarrow> is_meta (child p i)" and e: "ensure_entry b i meta fs = (r, fs')"
  shows "grows is_meta C fs n fs' n" "r = Some z \<Longrightarrow> z = file_zone C fs' n (child p i) \<and> z \<noteq> 0"
    "r = None \<Longrightarrow> fst (minix3_alloc_zone fs') = None" "r = None \<or> t \<noteq> child p i \<Longrightarrow> file_zone C fs' n t = file_zone C fs n t"
proof -
  note h = map_okD(1) [OF m]
  obtain ok buf fs1 where rd: "read_block b fs = (ok, buf, fs1)" by (metis prod_cases3)
  note R = read_block_ok [OF h rd]
  note M1 = map_ok_blk [OF m R(3-5)] and G1 = grows_blk [OF m R(3-5)]
  have lim: "block_limit fs1 = block_limit fs" "block_size fs1 = block_size fs" by (subst R(5), simp add: block_limit_def)+
  have cz: "file_zone C fs n (child p i) = zone_ptr buf i"
    using child_zone [OF p(1), of "pointers fs" "disk C fs" "i_zone n" i] p(2,3) i unfolding file_zone_def R(2) by simp
  have blim: "b < block_limit fs" using map_okD(6) [OF m, of p] p by simp
  have "grows is_meta C fs n fs' n \<and> (case r of Some z \<Rightarrow> z = file_zone C fs' n (child p i) \<and> z \<noteq> 0 | None \<Rightarrow> fst (minix3_alloc_zone fs') = None) \<and>
      (r = None \<or> t \<noteq> child p i \<longrightarrow> file_zone C fs' n t = file_zone C fs n t)"
  proof (cases "zone_ptr buf i = 0")
    case False
    then have "r = Some (zone_ptr buf i)" "fs' = fs1" using e R(1) by (simp_all add: ensure_entry_def rd)
    then show ?thesis using G1 M1(2) cz False by simp
  next
    case True
    obtain r2 fs2 where a: "minix3_alloc_zone fs1 = (r2, fs2)" by fastforce
    show ?thesis
    proof (cases r2)
      case None
      have "fs2 = fs1" using alloc_zone_None a None by blast
      then have "r = None" "fs' = fs1" using e R(1) True a None by (auto simp: ensure_entry_def rd)
      then show ?thesis using G1 a None \<open>fs2 = fs1\<close> M1(2) by simp
    next
      case (Some z)
      note A = alloc_zone_Some [OF a [unfolded Some] map_okD(2) [OF M1(1)]]
      have b: "healthy C fs2" "disk C fs2 = disk C fs" "block_limit fs2 = block_limit fs" "block_size fs2 = block_size fs"
        using R(3,4) lim unfolding A(5) by (simp_all add: bitmap_same)
      obtain ok2 fs3 where w: "write_block b (put_ptr i z buf) fs2 = (ok2, fs3)" by fastforce
      have len: "length buf = 4 * pointers fs" using R(2) pointers_size [OF h] h by simp
      have wl: "length (put_ptr i z buf) = block_size fs2" "b < block_limit fs2" using len i blim pointers_size [OF h] unfolding b by simp_all
      note W = write_block_ok [OF b(1) w wl]
      have f: "r = Some z" "fs' = (if meta then zero_block z fs3 else fs3)" using e R(1) True a Some W(1) by (simp_all add: ensure_entry_def rd w)
      have l3: "block_limit fs3 = block_limit fs" "block_size fs3 = block_size fs" by (subst W(3), simp add: b block_limit_def sectors_per_block_def)+
      note Z = zero_block_ok [where z = z and meta = meta, OF W(2), folded f(2), unfolded l3, OF A(4) [unfolded lim]]
      have st: "fs' = fs2\<lparr>blk := blk fs'\<rparr>" by (subst Z(2), subst W(3)) simp
      have sz: "block_size fs' = block_size fs" by (subst st) (simp add: b)
      have zb: "z \<noteq> b" using A(1) map_okD(5) [OF M1(1), of p] p unfolding M1(2) by auto
      have V: "disk C fs' c = (if c = b then put_ptr i z buf else disk C fs c)" if "c < block_limit fs" "c \<noteq> z" for c
        using Z(3) [OF that] W(4) [unfolded b, OF that(1)] by simp
      have used: "file_zone C fs n s \<noteq> z" if "file_zone C fs n s \<noteq> 0" for s
        using map_okD(5) [OF M1(1), of s] that A(1) unfolding M1(2) by auto
      have z32: "z < 4294967296" using A(4) block_limit_bound [of fs1] by simp
      have fz: "file_zone C fs' n = (file_zone C fs n)(child p i := z)"
        unfolding file_zone_def sz
      proof (rule slot_zone_child [OF p(1) _ p(3) i z32])
        show "slot_zone (pointers fs) (disk C fs) (i_zone n) p = b" using p(2) by (simp add: file_zone_def)
        show "disk C fs' b = put_ptr i z (disk C fs b)" using V [OF blim] zb R(2) by simp
        show "length (disk C fs b) = 4 * pointers fs" using len R(2) by simp
        show "zone_ptr (disk C fs b) i = 0" using True R(2) by simp
        show "q = p" if "slot_zone (pointers fs) (disk C fs) (i_zone n) q = b" for q
          using map_okD(4) [OF m, of q p] that p by (simp add: file_zone_def)
        show "disk C fs' (slot_zone (pointers fs) (disk C fs) (i_zone n) q) = disk C fs (slot_zone (pointers fs) (disk C fs) (i_zone n) q)"
          if "slot_zone (pointers fs) (disk C fs) (i_zone n) q \<noteq> 0" "slot_zone (pointers fs) (disk C fs) (i_zone n) q \<noteq> b" for q
          using V map_okD(6) [OF m, of q] used [of q] that by (simp add: file_zone_def)
        show "is_meta (child p i) \<Longrightarrow> \<forall>j < pointers fs. zone_ptr (disk C fs' z) j = 0" using Z(4) meta by simp
      qed
      have "grows is_meta C fs1 n fs' n"
      proof (rule grows_add [OF M1(1) a [unfolded Some] Z(1) st])
        show "n = n\<lparr>i_zone := i_zone n\<rparr>" by simp
        show "length (i_zone n) = 10" using map_okD(3) [OF m] .
        show "file_zone C fs1 n (child p i) = 0" using cz True M1(2) by simp
        show "file_zone C fs' n = (file_zone C fs1 n)(child p i := z)" using fz M1(2) by simp
        fix c assume c: "0 < c" "c < block_limit fs1" "\<And>t. is_meta t \<Longrightarrow> file_zone C fs' n t \<noteq> c"
        have "c \<noteq> b" using c(3) [OF p(1)] p(2) child_not_self [OF p(1), of i] unfolding fz by auto
        moreover have "c \<noteq> z \<or> \<not> meta" using c(3) [of "child p i"] meta unfolding fz by auto
        moreover have "disk C fs' c = disk C fs3 c" if "\<not> meta" using that f(2) by simp
        ultimately show "disk C fs' c = disk C fs1 c" using V c(2) W(4) [of c] unfolding lim b R(4) by auto
      qed
      then show ?thesis using grows_trans [OF G1] f(1) A(3) unfolding fz by simp
    qed
  qed
  then show "grows is_meta C fs n fs' n" "r = Some z \<Longrightarrow> z = file_zone C fs' n (child p i) \<and> z \<noteq> 0"
    "r = None \<Longrightarrow> fst (minix3_alloc_zone fs') = None" "r = None \<or> t \<noteq> child p i \<Longrightarrow> file_zone C fs' n t = file_zone C fs n t" by auto
qed

text \<open>The zone of a block of a file, allocated if there is none.\<close>

lemma alloc_file_block_ok:
  assumes m: "map_ok C fs n" and e: "minix3_alloc_file_block n fb fs = (r, n', fs')"
  defines "s \<equiv> block_slot (pointers fs) fb"
  shows "grows is_meta C fs n fs' n'" "r = Some z \<Longrightarrow> z = file_zone C fs' n' s \<and> z \<noteq> 0"
    "r = None \<Longrightarrow> max_blocks (pointers fs) \<le> fb \<or> fst (minix3_alloc_zone fs') = None"
    "\<not> is_meta t \<Longrightarrow> r = None \<or> t \<noteq> s \<Longrightarrow> file_zone C fs' n' t = file_zone C fs n t"
proof -
  let ?p = "pointers fs"
  have p: "0 < ?p" using pointers_size [OF map_okD(1) [OF m]] by simp
  have nm: "\<not> is_meta s" by (simp add: s_def)
  have "grows is_meta C fs n fs' n' \<and>
    (case r of Some z \<Rightarrow> z = file_zone C fs' n' s \<and> z \<noteq> 0 | None \<Rightarrow> max_blocks ?p \<le> fb \<or> fst (minix3_alloc_zone fs') = None) \<and>
    (\<not> is_meta t \<longrightarrow> r = None \<or> t \<noteq> s \<longrightarrow> file_zone C fs' n' t = file_zone C fs n t)"
  proof (cases "fb < 7")
    case True
    obtain ok n1 fs1 where a: "ensure_slot fb False n fs = (ok, n1, fs1)" by (metis prod_cases3)
    have k: "fb < 9" "False \<longleftrightarrow> 7 \<le> fb" and s: "s = root fb" using True by (simp_all add: s_def block_slot_def root_def)
    note E = ensure_slot_ok [OF m k a]
    have "r = (if ok then Some (i_zone n1 ! fb) else None)" "n' = n1" "fs' = fs1"
      using e True a by (simp_all add: minix3_alloc_file_block_def MINIX3_DIRECT_ZONES_def)
    then show ?thesis using E unfolding s by auto
  next
    case d: False
    show ?thesis
    proof (cases "fb - 7 < ?p")
      case True
      obtain ok n1 fs1 where a: "ensure_slot 7 True n fs = (ok, n1, fs1)" by (metis prod_cases3)
      note E = ensure_slot_ok [OF m _ _ a, simplified]
      obtain r2 fs2 where b: "ensure_entry (i_zone n1 ! 7) (fb - 7) False fs1 = (r2, fs2)" by fastforce
      have f: "(r, n', fs') = (if ok then (r2, n1, fs2) else (None, n1, fs1))"
        using e True d a b by (cases ok) (simp_all add: minix3_alloc_file_block_def MINIX3_DIRECT_ZONES_def)
      have s: "s = child Single (fb - 7)" using d True by (simp add: s_def block_slot_def)
      show ?thesis
      proof (cases ok)
        case True
        have i: "fb - 7 < pointers fs1" using \<open>fb - 7 < ?p\<close> grows_same(1) [OF E(1)] by simp
        note F = ensure_entry_ok [OF growsD(1) [OF E(1)], of Single, OF _ _ _ i _ b, unfolded s [symmetric]]
        have "file_zone C fs1 n1 Single = i_zone n1 ! 7" "i_zone n1 ! 7 \<noteq> 0" using E(2) True by (simp_all add: root_def)
        then have Q: "grows is_meta C fs1 n1 fs2 n1" "r2 = Some z \<Longrightarrow> z = file_zone C fs2 n1 s \<and> z \<noteq> 0" "r2 = None \<Longrightarrow> fst (minix3_alloc_zone fs2) = None"
          "r2 = None \<or> t \<noteq> s \<Longrightarrow> file_zone C fs2 n1 t = file_zone C fs1 n1 t" for z
          using F(1) F(2) [where z = z] F(3) F(4) [where t = t] nm by simp_all
        have t: "file_zone C fs1 n1 t = file_zone C fs n t" if "\<not> is_meta t" using E(4) [where t = t] that by (cases t) (auto simp: root_def)
        show ?thesis using f True Q(2) [of "the r2"] Q(3,4) t grows_trans [OF E(1) Q(1)] by (cases r2) simp_all
      qed (use E(1,3) E(4) [where t = t] f in simp)
    next
      case False
      let ?x = "fb - 7 - ?p"
      show ?thesis
      proof (cases "?x < ?p * ?p")
        case out: False
        have "r = None \<and> n' = n \<and> fs' = fs" using e d False out by (simp add: minix3_alloc_file_block_def MINIX3_DIRECT_ZONES_def)
        then show ?thesis using grows_refl [OF m] d False out by (auto simp: max_blocks_def)
      next
        case inr: True
        define q where "q = ?x div ?p"
        define j where "j = ?x mod ?p"
        have q: "q < ?p" "j < ?p" using inr p unfolding q_def j_def by (simp_all add: less_mult_imp_div_less)
        have s: "s = Leaf q j" using d False by (simp add: s_def block_slot_def q_def j_def)
        obtain ok n1 fs1 where a: "ensure_slot 8 True n fs = (ok, n1, fs1)" by (metis prod_cases3)
        note E = ensure_slot_ok [OF m _ _ a, simplified]
        obtain r2 fs2 where b: "ensure_entry (i_zone n1 ! 8) q True fs1 = (r2, fs2)" by fastforce
        obtain r3 fs3 where c: "ensure_entry (the r2) j False fs2 = (r3, fs3)" by fastforce
        have f: "(r, n', fs') = (if ok then (case r2 of None \<Rightarrow> (None, n1, fs2) | Some _ \<Rightarrow> (r3, n1, fs3)) else (None, n1, fs1))"
          using e d False inr a b c unfolding q_def j_def by (auto simp: minix3_alloc_file_block_def MINIX3_DIRECT_ZONES_def Let_def split: option.splits)
        show ?thesis
        proof (cases ok)
          case True
          have i: "q < pointers fs1" using q(1) grows_same(1) [OF E(1)] by simp
          have z: "file_zone C fs1 n1 Double = i_zone n1 ! 8" "i_zone n1 ! 8 \<noteq> 0" using E(2) True by (simp_all add: root_def)
          note F = ensure_entry_ok [OF growsD(1) [OF E(1)], of Double, OF _ z i _ b, simplified]
          have t: "file_zone C fs1 n1 t = file_zone C fs n t" if "\<not> is_meta t" using E(4) [where t = t] that by (cases t) (auto simp: root_def)
          note G = grows_trans [OF E(1) F(1)]
          show ?thesis
          proof (cases r2)
            case None
            then show ?thesis using F(3) F(4) [where t = t] t True f G by simp
          next
            case (Some w)
            have j: "j < pointers fs2" using q(2) grows_same(1) [OF G] by simp
            have w: "file_zone C fs2 n1 (In_double q) = w" "w \<noteq> 0" using F(2) [OF Some] by simp_all
            note H = ensure_entry_ok [OF growsD(1) [OF G], of "In_double q", OF _ w j _ c [unfolded Some option.sel], simplified]
            have u: "file_zone C fs2 n1 t = file_zone C fs n t" if "\<not> is_meta t" using F(4) [where t = t] t that by (cases t) auto
            show ?thesis using H(2) [where z = "the r3"] H(3) H(4) [where t = t] u True f Some grows_trans [OF G H(1)] unfolding s by (cases r3) simp_all
          qed
        qed (use E(1,3) E(4) [where t = t] f in simp)
      qed
    qed
  qed
  then show "grows is_meta C fs n fs' n'" "r = Some z \<Longrightarrow> z = file_zone C fs' n' s \<and> z \<noteq> 0"
    "r = None \<Longrightarrow> max_blocks (pointers fs) \<le> fb \<or> fst (minix3_alloc_zone fs') = None"
    "\<not> is_meta t \<Longrightarrow> r = None \<or> t \<noteq> s \<Longrightarrow> file_zone C fs' n' t = file_zone C fs n t" by auto
qed

end
