(* ===== verification/Minix3_File.thy ===== *)
theory Minix3_File
  imports Minix3_Alloc
begin

text \<open>
  What reads and writes of a file mean: a file is the sequence of bytes that its block map and the disk give, reads deliver
  them and writes replace them, on a device that does not fail.
\<close>

section \<open>The contents of a file\<close>

definition file_byte :: "('d \<Rightarrow> block_key \<Rightarrow> block) \<Rightarrow> 'd minix3 \<Rightarrow> minix3_inode \<Rightarrow> nat \<Rightarrow> u8" where
  "file_byte C fs n p = (let z = file_zone C fs n (block_slot (pointers fs) (p div block_size fs))
     in if z = 0 then 0 else disk C fs z ! (p mod block_size fs))"

lemma file_byte_blk: "disk C fs' = disk C fs \<Longrightarrow> fs' = fs\<lparr>blk := st\<rparr> \<Longrightarrow> file_byte C fs' n = file_byte C fs n"
  by (intro ext) (simp add: file_byte_def file_zone_def Let_def)

lemma block_range:
  fixes bs :: nat
  assumes "off \<le> p" "p < off + k" "k \<le> bs - off mod bs" "0 < bs"
  shows "p div bs = off div bs" "p mod bs = off mod bs + (p - off)"
proof -
  have l: "off mod bs < bs" using assms(4) by simp
  have "off = bs * (off div bs) + off mod bs" by simp
  then have e: "p = bs * (off div bs) + (off mod bs + (p - off))" using assms(1) by linarith
  have b: "off mod bs + (p - off) < bs" using assms l by linarith
  have "(bs * q + r) div bs = q" "(bs * q + r) mod bs = r" if "r < bs" for q r using that by simp_all
  from this [OF b, of "off div bs"] show "p div bs = off div bs" "p mod bs = off mod bs + (p - off)" unfolding e [symmetric] by blast+
qed

text \<open>One step of the two loops, away from the wrap-around of the offset.\<close>

lemma pieces_step:
  fixes off bs n :: nat
  assumes "0 < n" "0 < bs" "off + n < 4294967296"
  obtains k where "0 < k" "k \<le> n" "k \<le> bs - off mod bs" "n = k \<or> (off + k) mod bs = 0 \<and> (off + k) div bs = Suc (off div bs)"
    "pieces bs off n = (off div bs, off mod bs, k) # pieces bs (off + k) (n - k)"
proof
  let ?k = "if bs - off mod bs > n then n else bs - off mod bs"
  have l: "off mod bs < bs" using assms(2) by simp
  show "0 < ?k" "?k \<le> n" "?k \<le> bs - off mod bs" using assms(1) l by auto
  have w: "w32 (off + ?k) = off + ?k" using assms(3) by simp
  show "pieces bs off n = (off div bs, off mod bs, ?k) # pieces bs (off + ?k) (n - ?k)"
    using assms(1,2) w by (subst pieces.simps) (simp add: Let_def)
  have "off + (bs - off mod bs) = bs * Suc (off div bs)"
  proof -
    have "off = bs * (off div bs) + off mod bs" by simp
    then show ?thesis using l by (simp only: mult_Suc_right)
  qed
  then show "n = ?k \<or> (off + ?k) mod bs = 0 \<and> (off + ?k) div bs = Suc (off div bs)" using assms(2) by auto
qed

lemma read_loop_ok:
  assumes "healthy C fs" "off + n < 4294967296" "off + n \<le> max_blocks (pointers fs) * block_size fs"
    "read_loop nd (pieces (block_size fs) off n) out fs = (r, fs')"
  shows "r = Some (out @ map (file_byte C fs nd) [off..<off + n])" "healthy C fs'" "disk C fs' = disk C fs" "fs' = fs\<lparr>blk := blk fs'\<rparr>"
proof -
  have "r = Some (out @ map (file_byte C fs nd) [off..<off + n]) \<and> healthy C fs' \<and> disk C fs' = disk C fs \<and> fs' = fs\<lparr>blk := blk fs'\<rparr>"
    using assms
  proof (induction n arbitrary: off out fs rule: less_induct)
    case (less n)
    let ?bs = "block_size fs" and ?p = "pointers fs"
    have bs: "0 < ?bs" using less.prems(1) by (auto simp: healthy_def)
    show ?case
    proof (cases "n = 0")
      case True
      then show ?thesis using less.prems by (simp add: pieces.simps)
    next
      case False
      then obtain k where k: "0 < k" "k \<le> n" "k \<le> ?bs - off mod ?bs"
        and P: "pieces ?bs off n = (off div ?bs, off mod ?bs, k) # pieces ?bs (off + k) (n - k)"
        using pieces_step [of n ?bs off] bs less.prems(2) by auto
      obtain z fs1 where b: "minix3_bmap nd (off div ?bs) fs = (z, fs1)" by fastforce
      note B = bmap_ok [OF less.prems(1) b]
      have fb: "off div ?bs < max_blocks ?p" using less.prems(3) False bs by (subst div_less_iff_less_mult) auto
      define w where "w = file_zone C fs nd (block_slot ?p (off div ?bs))"
      have z: "z = Some w" using B(1) fb by (simp add: w_def)
      obtain ok buf fs2 where rd: "read_block w fs1 = (ok, buf, fs2)" by (metis prod_cases3)
      note R = read_block_ok [OF B(2) rd]
      define g where "g = (if w = 0 then fs1 else fs2)"
      define x where "x = (if w = 0 then replicate k 0 else take k (drop (off mod ?bs) (disk C fs w)))"
      have G: "healthy C g" "disk C g = disk C fs" "g = fs\<lparr>blk := blk g\<rparr>"
      proof -
        show "healthy C g" "disk C g = disk C fs" using B R by (simp_all add: g_def)
        have "fs2 = fs\<lparr>blk := blk fs2\<rparr>" by (subst R(5), subst B(4)) simp
        then show "g = fs\<lparr>blk := blk g\<rparr>" using B(4) by (simp add: g_def)
      qed
      have x: "x = map (file_byte C fs nd) [off..<off + k]"
      proof (rule nth_equalityI)
        show "length x = length (map (file_byte C fs nd) [off..<off + k])" using k(3) length_disk [OF less.prems(1)] by (simp add: x_def)
        fix i assume "i < length x"
        then have i: "i < k" by (simp add: x_def split: if_splits)
        note D = block_range [of off "off + i" k ?bs, OF _ _ k(3) bs]
        have "file_byte C fs nd (off + i) = (if w = 0 then 0 else disk C fs w ! (off mod ?bs + i))"
          using D i unfolding file_byte_def w_def by (simp add: Let_def)
        then show "x ! i = map (file_byte C fs nd) [off..<off + k] ! i" using i k(3) length_disk [OF less.prems(1), of w] by (simp add: x_def)
      qed
      have sz: "block_size g = ?bs" "pointers g = ?p" by (subst G(3), simp)+
      have l: "read_loop nd (pieces (block_size g) (off + k) (n - k)) (out @ x) g = (r, fs')"
        using less.prems(4) z R(1) unfolding P sz by (simp add: b rd g_def x_def R(2) B(3) split: if_splits)
      have sum: "off + k + (n - k) = off + n" using k(2) by simp
      note I = less.IH [of "n - k", OF _ G(1) _ _ l, unfolded sum sz G(2)]
      have "file_byte C g nd = file_byte C fs nd" using file_byte_blk [OF G(2,3)] .
      moreover have "[off..<off + n] = [off..<off + k] @ [off + k..<off + n]" using k(2) upt_add_eq_append [of off "off + k" "n - k"] by simp
      ultimately have I2: "r = Some (out @ map (file_byte C fs nd) [off..<off + n]) \<and> healthy C fs' \<and> disk C fs' = disk C fs \<and> fs' = g\<lparr>blk := blk fs'\<rparr>"
        using I k False less.prems(2,3) x by simp
      moreover have "g\<lparr>blk := blk fs'\<rparr> = fs\<lparr>blk := blk fs'\<rparr>" by (subst G(3)) simp
      ultimately show ?thesis by simp
    qed
  qed
  then show "r = Some (out @ map (file_byte C fs nd) [off..<off + n])" "healthy C fs'" "disk C fs' = disk C fs" "fs' = fs\<lparr>blk := blk fs'\<rparr>" by blast+
qed

section \<open>Writing a piece\<close>

lemma slot_zone_cong:
  assumes "\<And>q. is_meta q \<Longrightarrow> slot_zone per V zs q \<noteq> 0 \<Longrightarrow> V' (slot_zone per V zs q) = V (slot_zone per V zs q)"
  shows "slot_zone per V' zs t = slot_zone per V zs t"
proof (induction t rule: slot_tree)
  case (4 q j)
  then show ?case unfolding child_zone [OF 4(1)] using assms [OF 4(1)] by simp
qed simp_all

lemma grows_any: "grows is_meta C fs n fs' n' \<Longrightarrow> grows (\<lambda>_. True) C fs n fs' n'"
  unfolding grows_def by blast

lemma data_write:
  assumes m: "map_ok C fs n" and s: "\<not> is_meta s" "file_zone C fs n s = z" "z \<noteq> 0" and h: "healthy C fs'" and f: "fs' = fs\<lparr>blk := st\<rparr>"
    and d: "\<And>b. b < block_limit fs \<Longrightarrow> b \<noteq> z \<Longrightarrow> disk C fs' b = disk C fs b"
  shows "grows (\<lambda>_. True) C fs n fs' n" "file_zone C fs' n = file_zone C fs n"
proof -
  show z: "file_zone C fs' n = file_zone C fs n"
  proof
    fix t
    have sz: "block_size fs' = block_size fs" using f by simp
    show "file_zone C fs' n t = file_zone C fs n t" unfolding file_zone_def sz
    proof (rule slot_zone_cong)
      fix q assume q: "is_meta q" "slot_zone (pointers fs) (disk C fs) (i_zone n) q \<noteq> 0"
      then have "file_zone C fs n q \<noteq> z" using map_okD(4) [OF m, of q s] s by (auto simp: file_zone_def)
      then show "disk C fs' (slot_zone (pointers fs) (disk C fs) (i_zone n) q) = disk C fs (slot_zone (pointers fs) (disk C fs) (i_zone n) q)"
        using d map_okD(6) [OF m, of q] q(2) by (simp add: file_zone_def)
    qed
  qed
  have e: "used_zones fs' = used_zones fs" "layout_ok fs' = layout_ok fs" "block_limit fs' = block_limit fs"
    using f by (simp_all add: used_zones_def layout_ok_def block_limit_def)
  have "map_ok C fs' n" using m h unfolding map_ok_def z e by simp
  then show "grows (\<lambda>_. True) C fs n fs' n" unfolding grows_def z e using d s f by auto
qed

lemma zone_in_range: "file_zone C fs n (block_slot (pointers fs) fb) \<noteq> 0 \<Longrightarrow> fb < max_blocks (pointers fs)"
proof (rule ccontr)
  let ?p = "pointers fs"
  assume z: "file_zone C fs n (block_slot ?p fb) \<noteq> 0" and "\<not> fb < max_blocks ?p"
  then have n: "\<not> fb < 7" "\<not> fb - 7 < ?p" "?p * ?p \<le> fb - 7 - ?p" by (auto simp: max_blocks_def)
  have "?p \<le> (fb - 7 - ?p) div ?p" if "0 < ?p" using n(3) that by (simp add: less_eq_div_iff_mult_less_eq)
  then show False using z n by (cases "0 < ?p") (auto simp: file_zone_def block_slot_def)
qed

lemma write_piece:
  assumes m: "map_ok C fs n" and a: "minix3_alloc_file_block n fb fs = (Some z, n1, fs1)"
    and g: "healthy C g" "disk C g = disk C fs1" "g = fs1\<lparr>blk := st\<rparr>"
    and w: "write_block z buf g = (ok, fs2)" "length buf = block_size fs"
  defines "s \<equiv> block_slot (pointers fs) fb"
  shows "ok" "grows (\<lambda>_. True) C fs n fs2 n1" "z = file_zone C fs2 n1 s" "z \<noteq> 0" "disk C fs2 z = buf" "disk C fs1 z = disk C fs z"
    "\<And>t. \<not> is_meta t \<Longrightarrow> t \<noteq> s \<Longrightarrow> file_zone C fs2 n1 t = file_zone C fs n t"
    "\<And>t. \<not> is_meta t \<Longrightarrow> t \<noteq> s \<Longrightarrow> file_zone C fs2 n1 t \<noteq> 0 \<Longrightarrow> disk C fs2 (file_zone C fs2 n1 t) = disk C fs (file_zone C fs2 n1 t)"
proof -
  note A = alloc_file_block_ok [OF m a]
  have z: "z = file_zone C fs1 n1 s" "z \<noteq> 0" using A(2) [OF refl] by (simp_all add: s_def)
  have nm: "\<not> is_meta s" by (simp add: s_def)
  note m1 = growsD(1) [OF A(1)]
  have e: "block_size g = block_size fs" "block_limit g = block_limit fs" "block_limit fs1 = block_limit fs"
    using grows_same [OF A(1)] g(3) by (simp_all add: block_limit_def)
  have zl: "z < block_limit fs" using map_okD(6) [OF m1, of s] z e(3) by simp
  note W = write_block_ok [OF g(1) w(1), unfolded e, OF w(2) zl]
  have f: "fs2 = fs1\<lparr>blk := blk fs2\<rparr>" by (subst W(3), subst g(3)) simp
  note D = data_write [OF m1 nm z(1) [symmetric] z(2) W(2) f]
  have other: "disk C fs2 b = disk C fs1 b" if "b < block_limit fs1" "b \<noteq> z" for b using W(4) [of b] that g(2) e by simp
  note D = D [OF other]
  show "ok" by (rule W(1))
  show "grows (\<lambda>_. True) C fs n fs2 n1" using grows_trans [OF grows_any [OF A(1)] D(1)] .
  show "z = file_zone C fs2 n1 s" "z \<noteq> 0" using z D(2) by simp_all
  show "disk C fs2 z = buf" using W(4) [OF zl] by simp
  have old: "disk C fs1 (file_zone C fs1 n1 t) = disk C fs (file_zone C fs1 n1 t)" if "\<not> is_meta t" "file_zone C fs1 n1 t \<noteq> 0" for t
  proof (rule growsD(5) [OF A(1)])
    show "file_zone C fs1 n1 x \<noteq> file_zone C fs1 n1 t" if "is_meta x" for x
      using map_okD(4) [OF m1, of t x] that \<open>\<not> is_meta t\<close> \<open>file_zone C fs1 n1 t \<noteq> 0\<close> by metis
  qed (use map_okD(6) [OF m1 that(2)] that(2) e(3) in simp_all)
  show "disk C fs1 z = disk C fs z" using old [OF nm] z by simp
  fix t assume t: "\<not> is_meta t" "t \<noteq> s"
  show "file_zone C fs2 n1 t = file_zone C fs n t" using A(4) [OF t(1)] t(2) D(2) by (simp add: s_def)
  assume nz: "file_zone C fs2 n1 t \<noteq> 0"
  then have "file_zone C fs1 n1 t \<noteq> z" using map_okD(4) [OF m1, of t s] t(2) z D(2) by auto
  then show "disk C fs2 (file_zone C fs2 n1 t) = disk C fs (file_zone C fs2 n1 t)"
    using other [OF map_okD(6) [OF m1, of t]] old [OF t(1)] nz D(2) by simp
qed

section \<open>Writing a file\<close>

text \<open>
  The file after the first \<open>m\<close> bytes of \<open>ys\<close> have been written at \<open>off\<close>: the rest of a block that was touched is what the
  zone of the block held before, if the block starts below the end of the file, and zero otherwise.
\<close>

definition wrote :: "('d \<Rightarrow> block_key \<Rightarrow> block) \<Rightarrow> 'd minix3 \<Rightarrow> minix3_inode \<Rightarrow> 'd minix3 \<Rightarrow> minix3_inode \<Rightarrow> nat \<Rightarrow> nat \<Rightarrow> u8 list \<Rightarrow> bool" where
  "wrote C fs n fs' n' off m ys \<longleftrightarrow> (let bs = block_size fs; zone = (\<lambda>p. file_zone C fs' n' (block_slot (pointers fs) (p div bs))) in
     (\<forall>p. off \<le> p \<longrightarrow> p < off + m \<longrightarrow> zone p \<noteq> 0) \<and>
     (\<forall>p. file_byte C fs' n' p =
       (if off \<le> p \<and> p < off + m then ys ! (p - off)
        else if \<exists>q. off \<le> q \<and> q < off + m \<and> q div bs = p div bs
          then if p div bs * bs < i_size n then disk C fs (zone p) ! (p mod bs) else 0
        else file_byte C fs n p)))"

lemma wrote_none: "\<forall>p. file_byte C fs' n' p = file_byte C fs n p \<Longrightarrow> wrote C fs n fs' n' off 0 ys"
  unfolding wrote_def Let_def by auto

lemma wrote_trans:
  assumes p: "wrote C fs n fs2 n1 off k (take k ys)" and t: "wrote C fs2 n1 fs' n' (off + k) m (drop k ys)"
    and G: "grows (\<lambda>_. True) C fs n fs2 n1" "grows (\<lambda>_. True) C fs2 n1 fs' n'" and m: "map_ok C fs n"
    and other: "\<And>t. \<not> is_meta t \<Longrightarrow> t \<noteq> block_slot (pointers fs) (off div block_size fs) \<Longrightarrow> file_zone C fs2 n1 t \<noteq> 0 \<Longrightarrow>
      disk C fs2 (file_zone C fs2 n1 t) = disk C fs (file_zone C fs2 n1 t)"
    and k: "0 < k" "k \<le> block_size fs - off mod block_size fs" "k \<le> length ys" "m \<le> length ys - k"
      "m = 0 \<or> (off + k) mod block_size fs = 0 \<and> (off + k) div block_size fs = Suc (off div block_size fs)"
  shows "wrote C fs n fs' n' off (k + m) ys"
proof -
  let ?bs = "block_size fs" and ?fb = "off div block_size fs"
  define sl where "sl = (\<lambda>p. block_slot (pointers fs) (p div ?bs))"
  have bs: "0 < ?bs" using map_okD(1) [OF m] by (auto simp: healthy_def)
  have e: "block_size fs2 = ?bs" "i_size n1 = i_size n" "block_limit fs2 = block_limit fs" using grows_same [OF G(1)] by (simp_all, subst growsD(6) [OF G(1)], simp)
  have head: "p div ?bs = ?fb" if "off \<le> p" "p < off + k" for p using block_range [OF that k(2) bs] by simp
  have tail: "p div ?bs \<noteq> ?fb" if "off + k \<le> p" "p < off + k + m" for p
  proof -
    have "(off + k) div ?bs \<le> p div ?bs" using that(1) by (rule div_le_mono)
    then show ?thesis using k(5) that by auto
  qed
  have P: "\<And>p. off \<le> p \<Longrightarrow> p < off + k \<Longrightarrow> file_zone C fs2 n1 (sl p) \<noteq> 0"
    "\<And>p. file_byte C fs2 n1 p = (if off \<le> p \<and> p < off + k then take k ys ! (p - off)
        else if \<exists>q. off \<le> q \<and> q < off + k \<and> q div ?bs = p div ?bs
          then if p div ?bs * ?bs < i_size n then disk C fs (file_zone C fs2 n1 (sl p)) ! (p mod ?bs) else 0
        else file_byte C fs n p)"
    using p unfolding wrote_def Let_def sl_def by blast+
  have T: "\<And>p. off + k \<le> p \<Longrightarrow> p < off + k + m \<Longrightarrow> file_zone C fs' n' (sl p) \<noteq> 0"
    "\<And>p. file_byte C fs' n' p = (if off + k \<le> p \<and> p < off + k + m then drop k ys ! (p - (off + k))
        else if \<exists>q. off + k \<le> q \<and> q < off + k + m \<and> q div ?bs = p div ?bs
          then if p div ?bs * ?bs < i_size n then disk C fs2 (file_zone C fs' n' (sl p)) ! (p mod ?bs) else 0
        else file_byte C fs2 n1 p)"
    using t unfolding wrote_def Let_def sl_def e by blast+
  have keep: "file_zone C fs' n' (sl p) = file_zone C fs2 n1 (sl p)" if "p div ?bs = ?fb" for p
    using growsD(3) [OF G(2), of "sl p"] P(1) [of off] that k(1) by (simp add: sl_def)
  have nz: "file_zone C fs' n' (sl p) \<noteq> 0" if "off \<le> p" "p < off + (k + m)" for p
  proof (cases "p < off + k")
    case True
    then show ?thesis using P(1) [OF that(1) True] keep [OF head [OF that(1) True]] by simp
  qed (use T(1) that in auto)
  have dk: "disk C fs2 (file_zone C fs' n' (sl p)) = disk C fs (file_zone C fs' n' (sl p))"
    if "p div ?bs \<noteq> ?fb" "file_zone C fs' n' (sl p) \<noteq> 0" for p
  proof (cases "file_zone C fs2 n1 (sl p) = 0")
    case True
    let ?z = "file_zone C fs' n' (sl p)"
    have "?z \<notin> used_zones fs2" using growsD(4) [OF G(2) True that(2)] .
    then have "file_zone C fs2 n1 x \<noteq> ?z" for x using map_okD(5) [OF growsD(1) [OF G(1)], of x] that(2) by auto
    moreover have "?z < block_limit fs" using map_okD(6) [OF growsD(1) [OF G(2)] that(2)] grows_same(2) [OF G(2)] e(3) by simp
    ultimately show ?thesis using growsD(5) [OF G(1), of ?z] that(2) by simp
  next
    case False
    have "sl p \<noteq> block_slot (pointers fs) ?fb" using that(1) block_slot_inj unfolding sl_def by blast
    then show ?thesis using other [of "sl p"] False growsD(3) [OF G(2) False] by (simp add: sl_def)
  qed
  have main: "file_byte C fs' n' p =
      (if off \<le> p \<and> p < off + (k + m) then ys ! (p - off)
       else if \<exists>q. off \<le> q \<and> q < off + (k + m) \<and> q div ?bs = p div ?bs
         then if p div ?bs * ?bs < i_size n then disk C fs (file_zone C fs' n' (sl p)) ! (p mod ?bs) else 0
       else file_byte C fs n p)" for p
  proof (cases "p div ?bs = ?fb")
    case True
    have nt: "\<not> (off + k \<le> q \<and> q < off + k + m \<and> q div ?bs = p div ?bs)" for q using tail [of q] True by auto
    have "file_byte C fs' n' p = file_byte C fs2 n1 p" using T(2) [of p] nt [of p] nt by auto
    moreover have "\<exists>q. off \<le> q \<and> q < off + k \<and> q div ?bs = p div ?bs" using k(1) True by (intro exI [of _ off]) simp
    moreover have "\<exists>q. off \<le> q \<and> q < off + (k + m) \<and> q div ?bs = p div ?bs" using k(1) True by (intro exI [of _ off]) simp
    moreover have "p < off + k" if "off \<le> p" "p < off + (k + m)" using nt [of p] that by simp
    ultimately show ?thesis using P(2) [of p] keep [OF True] k(3) by auto
  next
    case False
    then have h: "\<not> (off \<le> q \<and> q < off + k \<and> q div ?bs = p div ?bs)" for q using head [of q] by auto
    have "file_byte C fs2 n1 p = file_byte C fs n p" using P(2) [of p] h [of p] h by auto
    moreover have "(\<exists>q. off + k \<le> q \<and> q < off + k + m \<and> q div ?bs = p div ?bs) \<longleftrightarrow> (\<exists>q. off \<le> q \<and> q < off + (k + m) \<and> q div ?bs = p div ?bs)"
      using h by (metis add.assoc add_leD1 not_le)
    moreover have "off + k \<le> p \<and> p < off + k + m \<longleftrightarrow> off \<le> p \<and> p < off + (k + m)" using h [of p] by auto
    moreover have "file_zone C fs' n' (sl p) \<noteq> 0" if q: "off \<le> q" "q < off + (k + m)" "q div ?bs = p div ?bs" for q
      using nz [OF q(1,2)] q(3) by (simp add: sl_def)
    ultimately show ?thesis using T(2) [of p] dk [OF False] k(3,4) by auto
  qed
  show ?thesis unfolding wrote_def Let_def using main nz unfolding sl_def by blast
qed

lemma wrote_piece:
  assumes m: "map_ok C fs n" and a: "minix3_alloc_file_block n (off div block_size fs) fs = (Some z, n1, fs1)"
    and g: "healthy C g" "disk C g = disk C fs1" "g = fs1\<lparr>blk := st\<rparr>"
    and w: "write_block z buf g = (ok, fs2)" "length buf = block_size fs"
    and k: "0 < k" "k \<le> block_size fs - off mod block_size fs" "k \<le> length ys"
    and buf: "\<And>i. i < block_size fs \<Longrightarrow> buf ! i = (if off mod block_size fs \<le> i \<and> i < off mod block_size fs + k then ys ! (i - off mod block_size fs)
      else if off div block_size fs * block_size fs < i_size n then disk C fs1 z ! i else 0)"
  shows "wrote C fs n fs2 n1 off k (take k ys)"
proof -
  let ?bs = "block_size fs" and ?fb = "off div block_size fs"
  have bs: "0 < ?bs" using map_okD(1) [OF m] by (auto simp: healthy_def)
  note W = write_piece [OF m a g w]
  have e: "block_size fs2 = ?bs" using grows_same [OF W(2)] by simp
  have zb: "file_zone C fs2 n1 (block_slot (pointers fs) (p div ?bs)) = z" if "p div ?bs = ?fb" for p using W(3) that by simp
  have head: "p div ?bs = ?fb \<and> p mod ?bs = off mod ?bs + (p - off)" if "off \<le> p" "p < off + k" for p using block_range [OF that k(2) bs] by simp
  have bk: "off \<le> p \<and> p < off + k" if "p div ?bs = ?fb" "off mod ?bs \<le> p mod ?bs" "p mod ?bs < off mod ?bs + k" for p
  proof -
    have "p = ?bs * ?fb + p mod ?bs" "off = ?bs * ?fb + off mod ?bs" using that(1) by (metis mult_div_mod_eq, simp)
    then show ?thesis using that(2,3) by linarith
  qed
  have main: "file_byte C fs2 n1 p =
      (if off \<le> p \<and> p < off + k then take k ys ! (p - off)
       else if \<exists>q. off \<le> q \<and> q < off + k \<and> q div ?bs = p div ?bs
         then if p div ?bs * ?bs < i_size n then disk C fs (file_zone C fs2 n1 (block_slot (pointers fs) (p div ?bs))) ! (p mod ?bs) else 0
       else file_byte C fs n p)" for p
  proof (cases "p div ?bs = ?fb")
    case True
    have b: "file_byte C fs2 n1 p = buf ! (p mod ?bs)" using zb [OF True] W(4,5) unfolding file_byte_def e by simp
    have q: "\<exists>q. off \<le> q \<and> q < off + k \<and> q div ?bs = p div ?bs" using k(1) True by (intro exI [of _ off]) simp
    have l: "p mod ?bs < ?bs" using bs by simp
    show ?thesis
    proof (cases "off \<le> p \<and> p < off + k")
      case True
      then show ?thesis using b buf [OF l] head [of p] by auto
    next
      case False
      then have "\<not> (off mod ?bs \<le> p mod ?bs \<and> p mod ?bs < off mod ?bs + k)" using bk [OF True] by blast
      then show ?thesis using b buf [OF l] q False zb [OF True] W(6) True by auto
    qed
  next
    case False
    then have ns: "block_slot (pointers fs) (p div ?bs) \<noteq> block_slot (pointers fs) ?fb" using block_slot_inj by blast
    have "file_byte C fs2 n1 p = file_byte C fs n p" unfolding file_byte_def e Let_def
      using W(7) [OF _ ns] W(8) [OF _ ns] by auto
    moreover have "\<not> (off \<le> q \<and> q < off + k \<and> q div ?bs = p div ?bs)" for q using head [of q] False by auto
    ultimately show ?thesis by auto
  qed
  have "file_zone C fs2 n1 (block_slot (pointers fs) (p div ?bs)) \<noteq> 0" if "off \<le> p" "p < off + k" for p
    using zb [of p] head [OF that] W(4) by simp
  then show ?thesis unfolding wrote_def Let_def using main by blast
qed

lemma alloc_fails_bytes:
  assumes "map_ok C fs n" "minix3_alloc_file_block n fb fs = (None, n', fs')"
  shows "\<forall>p. file_byte C fs' n' p = file_byte C fs n p"
proof
  fix p
  note A = alloc_file_block_ok [OF assms]
  let ?s = "block_slot (pointers fs) (p div block_size fs)"
  have nm: "\<not> is_meta ?s" by simp
  have z: "file_zone C fs' n' ?s = file_zone C fs n ?s" using A(4) [OF nm] by simp
  have e: "block_size fs' = block_size fs" using grows_same [OF A(1)] by simp
  have "disk C fs' (file_zone C fs n ?s) = disk C fs (file_zone C fs n ?s)" if "file_zone C fs n ?s \<noteq> 0"
  proof (rule growsD(5) [OF A(1)])
    show "file_zone C fs' n' x \<noteq> file_zone C fs n ?s" if "is_meta x" for x
      using map_okD(4) [OF growsD(1) [OF A(1)], of ?s x] that nm \<open>file_zone C fs n ?s \<noteq> 0\<close> z by metis
  qed (use map_okD(6) [OF assms(1) that] that in simp_all)
  then show "file_byte C fs' n' p = file_byte C fs n p" unfolding file_byte_def e z Let_def by simp
qed

lemma write_loop_ok:
  assumes "map_ok C fs n" "off + length ys < 4294967296"
    "write_loop n (pieces (block_size fs) off (length ys)) ys w fs = (early, w', n', fs')"
  shows "\<exists>m \<le> length ys. w' = w + m \<and> (early \<longleftrightarrow> m < length ys) \<and>
    (early \<longrightarrow> max_blocks (pointers fs) \<le> (off + m) div block_size fs \<or> fst (minix3_alloc_zone fs') = None) \<and>
    grows (\<lambda>_. True) C fs n fs' n' \<and> wrote C fs n fs' n' off m ys"
  using assms
proof (induction "length ys" arbitrary: ys off w fs n rule: less_induct)
  case less
  let ?bs = "block_size fs" and ?fb = "off div block_size fs" and ?o = "off mod block_size fs"
  have bs: "0 < ?bs" using map_okD(1) [OF less.prems(1)] by (auto simp: healthy_def)
  show ?case
  proof (cases "length ys = 0")
    case True
    then show ?thesis using less.prems grows_any [OF grows_refl [OF less.prems(1)]] by (auto simp: pieces.simps intro: wrote_none)
  next
    case False
    then obtain k where k: "0 < k" "k \<le> length ys" "k \<le> ?bs - ?o"
      "length ys = k \<or> (off + k) mod ?bs = 0 \<and> (off + k) div ?bs = Suc ?fb"
      and P: "pieces ?bs off (length ys) = (?fb, ?o, k) # pieces ?bs (off + k) (length ys - k)"
      using pieces_step [of "length ys" ?bs off] bs less.prems(2) by auto
    obtain r n1 fs1 where a: "minix3_alloc_file_block n ?fb fs = (r, n1, fs1)" by (metis prod_cases3)
    note A = alloc_file_block_ok [OF less.prems(1) a]
    have e: "block_size fs1 = ?bs" "i_size n1 = i_size n" using grows_same [OF A(1)] by (simp_all, subst growsD(6) [OF A(1)], simp)
    show ?thesis
    proof (cases r)
      case None
      then have f: "early" "w' = w" "n' = n1" "fs' = fs1" using less.prems(3) unfolding P by (simp_all add: a)
      have "wrote C fs n fs1 n1 off 0 ys" using wrote_none alloc_fails_bytes [OF less.prems(1) a [unfolded None]] by blast
      then show ?thesis using f A(3) [OF None] grows_any [OF A(1)] False by (intro exI [of _ 0]) simp
    next
      case (Some z)
      note h1 = map_okD(1) [OF growsD(1) [OF A(1)]]
      have w32: "w32 (?fb * ?bs) = ?fb * ?bs"
      proof -
        have "?fb * ?bs \<le> off" by simp
        also have "off < 4294967296" using less.prems(2) by simp
        finally show ?thesis by (rule w32_id)
      qed
      obtain ok0 buf0 fs1' where rd: "read_block z fs1 = (ok0, buf0, fs1')" by (metis prod_cases3)
      note R = read_block_ok [OF h1 rd]
      define part where "part \<longleftrightarrow> (?o \<noteq> 0 \<or> k < ?bs) \<and> ?fb * ?bs < i_size n"
      define g where "g = (if part then fs1' else fs1)"
      define base where "base = (if part then disk C fs1 z else replicate ?bs 0)"
      have c: "(if ?o \<noteq> 0 \<or> k < block_size fs1 then if w32 (?fb * block_size fs1) < i_size n1 then read_block z fs1
          else (True, replicate (block_size fs1) 0, fs1) else (True, replicate (block_size fs1) 0, fs1)) = (True, base, g)"
        using rd R(1,2) unfolding e w32 by (auto simp: part_def base_def g_def)
      have g: "healthy C g" "disk C g = disk C fs1" "g = fs1\<lparr>blk := blk g\<rparr>" using R(3-5) h1 by (simp_all add: g_def)
      let ?buf = "put_at ?o (take k ys) base"
      have lb: "length base = ?bs" using length_disk [OF h1] e(1) by (simp add: base_def)
      have lk: "?o + length (take k ys) \<le> length base" using k(2,3) lb mod_less_divisor [OF bs, of off] by simp
      obtain ok fs2 where w: "write_block z ?buf g = (ok, fs2)" by fastforce
      have wl: "length ?buf = ?bs" using lb lk by simp
      note W = write_piece [OF less.prems(1) a [unfolded Some] g w wl]
      have out: "?buf ! i = (if ?o \<le> i \<and> i < ?o + k then ys ! (i - ?o) else if ?fb * ?bs < i_size n then disk C fs1 z ! i else 0)"
        if "i < ?bs" for i
        using nth_put_at [OF lk, of i] that lb k(2,3) unfolding base_def part_def by auto
      note H = wrote_piece [OF less.prems(1) a [unfolded Some] g w wl k(1,3,2) out]
      have e2: "block_size fs2 = ?bs" using grows_same [OF W(2)] by simp
      have l: "write_loop n1 (pieces (block_size fs2) (off + k) (length (drop k ys))) (drop k ys) (w + k) fs2 = (early, w', n', fs')"
        using less.prems(3) W(1) unfolding P e2 length_drop by (simp only: write_loop.simps a Some option.case prod.case c w simp_thms if_False)
      have "length (drop k ys) < length ys" "off + k + length (drop k ys) < 4294967296" using k(1,2) less.prems(2) by auto
      from less.hyps [OF this(1) growsD(1) [OF W(2)] this(2) l]
      obtain m where m: "m \<le> length ys - k" "w' = w + k + m" "early \<longleftrightarrow> m < length ys - k"
        "early \<longrightarrow> max_blocks (pointers fs) \<le> (off + k + m) div ?bs \<or> fst (minix3_alloc_zone fs') = None"
        "grows (\<lambda>_. True) C fs2 n1 fs' n'" "wrote C fs2 n1 fs' n' (off + k) m (drop k ys)"
        unfolding e2 by auto
      have nx: "m = 0 \<or> (off + k) mod ?bs = 0 \<and> (off + k) div ?bs = Suc ?fb" using k(4) m(1) by auto
      have "wrote C fs n fs' n' off (k + m) ys"
        using wrote_trans [OF H m(6) W(2) m(5) less.prems(1) W(8) k(1,3,2) m(1) nx] by blast
      then show ?thesis using m k(2) grows_trans [OF W(2) m(5)] by (intro exI [of _ "k + m"]) (auto simp: add.assoc)
    qed
  qed
qed

end
