(* ===== verification/Minix3_Rw.thy ===== *)
theory Minix3_Rw
  imports Minix3_File
begin

text \<open>
  The theorems on reading and writing files of \<open>Minix3\<close>, with a small file system on a RAM disk on which their hypotheses
  hold.
\<close>

section \<open>A file system on a RAM disk\<close>

definition ram_fs :: "(block_key \<Rightarrow> block) minix3" where
  "ram_fs = \<lparr>sb = \<lparr>s_ninodes = 16, s_imap_blocks = 1, s_zmap_blocks = 1, s_firstdatazone = 8, s_zones = 64, s_magic = 0x4d5a, s_blocksize = 1024\<rparr>,
     device_id = 3, partition_id = 0, block_size = 1024, inode_table_block = 4, data_zone_start = 8, inode_bitmap = (\<lambda>_. 0),
     zone_bitmap = (\<lambda>_. 0)(0 := 4), imap_dirty = False, zmap_dirty = False, blk = ram_state\<lparr>hw := \<lambda>_. replicate 512 7\<rparr>, stack_bytes = (\<lambda>_. 0)\<rparr>"

definition empty_inode :: "nat \<Rightarrow> minix3_inode" where
  "empty_inode sz = (new_inode 0 0x8000)\<lparr>i_size := sz\<rparr>"

definition one_block_inode :: minix3_inode where
  "one_block_inode = (new_inode 0 0x8000)\<lparr>i_size := 1024, i_zone := 10 # replicate 9 0\<rparr>"

lemma reg_inode [simp]: "MINIX3_ISREG (i_mode (empty_inode sz))" "MINIX3_ISREG (i_mode one_block_inode)"
  by (simp_all add: empty_inode_def one_block_inode_def new_inode_def MINIX3_ISREG_def)

lemma ram_healthy: "healthy (\<lambda>h. h) ram_fs"
  by (simp add: healthy_def ram_fs_def coherent_def cache_inv_def ram_state_def dev_laws_def ram_ops_def find_block_device_def MAX_BLOCK_DEVICES_def)

lemma ram_layout: "layout_ok ram_fs"
  by (simp add: layout_ok_def block_limit_def sectors_per_block_def ram_fs_def)

lemma ram_disk: "disk (\<lambda>h. h) ram_fs z = replicate 1024 7"
proof -
  have "disk (\<lambda>h. h) ram_fs z = concat (map (\<lambda>_. replicate 512 7) [0..<2])" by (simp add: disk_def ram_fs_def sectors_per_block_def)
  then show ?thesis by (simp add: upt_rec replicate_add [symmetric])
qed

lemma empty_zone: "file_zone C fs (empty_inode sz) s = 0"
  by (cases s) (simp_all add: file_zone_def empty_inode_def new_inode_def)

lemma one_block_zone: "file_zone C fs one_block_inode s = (if s = Direct 0 then 10 else 0)"
  by (cases s) (simp_all add: file_zone_def one_block_inode_def new_inode_def nth_Cons split: nat.split)

lemma ram_maps: "map_ok (\<lambda>h. h) ram_fs (empty_inode sz)" "map_ok (\<lambda>h. h) ram_fs one_block_inode"
  unfolding map_ok_def empty_zone one_block_zone using ram_healthy ram_layout
  by (simp_all add: empty_inode_def one_block_inode_def new_inode_def used_zones_def ram_fs_def map_test_def block_limit_def sectors_per_block_def)

lemma ram_alloc: "\<exists>fs'. minix3_alloc_zone ram_fs = (Some 8, fs')"
proof -
  have "find (\<lambda>k. \<not> map_test (zone_bitmap ram_fs) k) [0..<8 * (s_zmap_blocks (sb ram_fs) * block_size ram_fs)] = Some 0"
    unfolding find_upt_Some by (simp add: map_test_def ram_fs_def)
  then show ?thesis by (simp add: minix3_alloc_zone_def scan_first) (simp add: ram_fs_def)
qed

text \<open>A write of one block or less at the start of a file without zones.\<close>

lemma ram_write:
  assumes "0 < length ys" "length ys \<le> 1024" "sz < 1024"
  shows "\<exists>n' fs'. minix3_write_file now (empty_inode sz) 0 ys ram_fs = (int (length ys), n', fs')"
proof -
  let ?n = "empty_inode sz"
  obtain fs1 where a: "minix3_alloc_zone ram_fs = (Some 8, fs1)" using ram_alloc by blast
  have b: "minix3_alloc_file_block ?n 0 ram_fs = (Some 8, ?n\<lparr>i_zone := 8 # replicate 9 0\<rparr>, fs1)"
  proof -
    have "replicate 10 (0::nat) = 0 # replicate 9 0" by (subst replicate_Suc [symmetric]) simp
    then have "i_zone ?n = 0 # replicate 9 0" by (simp add: empty_inode_def new_inode_def)
    then show ?thesis by (simp add: minix3_alloc_file_block_def MINIX3_DIRECT_ZONES_def ensure_slot_def a)
  qed
  have P: "pieces (block_size ram_fs) 0 (length ys) = [(0, 0, length ys)]"
    using assms by (subst pieces.simps) (auto simp: ram_fs_def pieces.simps)
  note A = alloc_file_block_ok [OF ram_maps(1) b] and bs = grows_same(1)
  have h1: "healthy (\<lambda>h. h) fs1" using map_okD(1) [OF growsD(1) [OF A(1)]] .
  have e: "block_size ram_fs = 1024" "block_size fs1 = 1024" using grows_same(1) [OF A(1)] by (simp_all add: ram_fs_def)
  obtain ok0 buf g where c: "(if (0::nat) \<noteq> 0 \<or> length ys < block_size fs1 then if w32 (0 * block_size fs1) < i_size (?n\<lparr>i_zone := 8 # replicate 9 0\<rparr>)
      then read_block 8 fs1 else (True, replicate (block_size fs1) 0, fs1) else (True, replicate (block_size fs1) 0, fs1)) = (ok0, buf, g)"
    by (metis prod_cases3)
  have rd: "ok0 \<and> healthy (\<lambda>h. h) g \<and> disk (\<lambda>h. h) g = disk (\<lambda>h. h) fs1 \<and> g = fs1\<lparr>blk := blk g\<rparr> \<and> length buf = 1024"
  proof (cases "read_block 8 fs1 = (ok0, buf, g)")
    case True
    then show ?thesis using read_block_ok [OF h1 True] length_disk [OF h1, of 8] e by simp
  qed (use c h1 e in \<open>auto split: if_splits\<close>)
  obtain ok fs2 where w: "write_block 8 (put_at 0 (take (length ys) ys) buf) g = (ok, fs2)" by fastforce
  have lw: "length (put_at 0 (take (length ys) ys) buf) = block_size ram_fs" using rd assms(2) e by simp
  have b2: "minix3_alloc_file_block ?n (0 div block_size ram_fs) ram_fs = (Some 8, ?n\<lparr>i_zone := 8 # replicate 9 0\<rparr>, fs1)" using b by simp
  have ok: "ok" using write_piece(1) [OF ram_maps(1) b _ _ _ w lw] rd by blast
  have l: "write_loop ?n (pieces (block_size ram_fs) 0 (length ys)) ys 0 ram_fs = (False, 0 + length ys, ?n\<lparr>i_zone := 8 # replicate 9 0\<rparr>, fs2)"
    unfolding P write_loop.simps b option.case prod.case c w using rd ok by simp
  then show ?thesis using assms(2) by (simp add: minix3_write_file_def to_int_def)
qed

section \<open>Reading\<close>

lemma read_file_ok:
  assumes "healthy C fs" "MINIX3_ISREG (i_mode n) \<or> MINIX3_ISLNK (i_mode n)" "off < i_size n" "off + count < 2147483648"
    "off + min count (i_size n - off) \<le> max_blocks (pointers fs) * block_size fs"
  shows "\<exists>st. minix3_read_file n off count fs = (int (min count (i_size n - off)),
      map (file_byte C fs n) [off..<off + min count (i_size n - off)], fs\<lparr>blk := st\<rparr>) \<and> disk C (fs\<lparr>blk := st\<rparr>) = disk C fs"
proof -
  let ?k = "min count (i_size n - off)"
  have c: "(if w32 (off + count) > i_size n then i_size n - off else count) = ?k" using assms(3,4) by auto
  obtain r fs' where l: "read_loop n (pieces (block_size fs) off ?k) [] fs = (r, fs')" by fastforce
  have b: "off + ?k < 4294967296" using assms(4) by auto
  note R = read_loop_ok [OF assms(1) b assms(5) l]
  have "to_int ?k = int ?k" using assms(4) by (simp add: to_int_def)
  then have "minix3_read_file n off count fs = (int ?k, map (file_byte C fs n) [off..<off + ?k], fs')"
    using assms(2,3) R(1) l unfolding minix3_read_file_def Let_def c by auto
  then show ?thesis using R(3,4) by metis
qed

text \<open>
  reading a file delivers its bytes. The bytes are those that the zones of the file hold on the disk and zeros where
  there is no zone, from the offset up to the end of the file or the count asked for; nothing on the disk changes.
\<close>

theorem minix3_read_bytes:
  assumes "healthy C fs" "MINIX3_ISREG (i_mode n) \<or> MINIX3_ISLNK (i_mode n)" "off < i_size n" "off + count < 2147483648"
    "i_size n \<le> max_blocks (block_size fs div 4) * block_size fs"
  shows "\<exists>st. minix3_read_file n off count fs = (int (min count (i_size n - off)),
      map (file_byte C fs n) [off..<off + min count (i_size n - off)], fs\<lparr>blk := st\<rparr>) \<and> disk C (fs\<lparr>blk := st\<rparr>) = disk C fs"
  using assms by (intro read_file_ok) auto

theorem minix3_read_bytes_witness:
  "\<exists>st. minix3_read_file one_block_inode 1000 100 ram_fs = (24, map (file_byte (\<lambda>h. h) ram_fs one_block_inode) [1000..<1024], ram_fs\<lparr>blk := st\<rparr>)"
proof -
  have s: "i_size one_block_inode = 1024" "block_size ram_fs = 1024" by (simp_all add: one_block_inode_def ram_fs_def)
  show ?thesis using minix3_read_bytes [OF ram_healthy, of one_block_inode 1000 100] by (auto simp: s max_blocks_def)
qed

section \<open>Writing\<close>

lemma file_zone_size [simp]: "file_zone C fs (n\<lparr>i_size := k\<rparr>) = file_zone C fs n" "file_zone C fs (n\<lparr>i_mtime := k\<rparr>) = file_zone C fs n"
  by (simp_all add: file_zone_def)

lemma file_byte_size [simp]: "file_byte C fs (n\<lparr>i_size := k\<rparr>) = file_byte C fs n" "file_byte C fs (n\<lparr>i_mtime := k\<rparr>) = file_byte C fs n"
  by (simp_all add: file_byte_def fun_eq_iff)

lemma map_ok_size [simp]: "map_ok C fs (n\<lparr>i_size := k\<rparr>) = map_ok C fs n" "map_ok C fs (n\<lparr>i_mtime := k\<rparr>) = map_ok C fs n"
  by (simp_all add: map_ok_def)

lemma write_file_ok:
  assumes m: "map_ok C fs n" and t: "MINIX3_ISREG (i_mode n) \<or> MINIX3_ISLNK (i_mode n)" and o: "off + length ys < 2147483648"
    and w: "minix3_write_file now n off ys fs = (r, n', fs')"
  obtains k n1 where "k \<le> length ys" "r = (if k < length ys \<and> k = 0 then -1 else int k)"
    "k < length ys \<longrightarrow> max_blocks (pointers fs) \<le> (off + k) div block_size fs \<or> fst (minix3_alloc_zone fs') = None"
    "n' = (if k < length ys then n1 else n1\<lparr>i_size := max (i_size n) (off + k), i_mtime := now\<rparr>)"
    "grows (\<lambda>_. True) C fs n fs' n1" "wrote C fs n fs' n1 off k ys"
proof -
  obtain early v n1 fs1 where l: "write_loop n (pieces (block_size fs) off (length ys)) ys 0 fs = (early, v, n1, fs1)" by (metis prod_cases4)
  have "off + length ys < 4294967296" using o by simp
  from write_loop_ok [OF m this l] obtain k where k: "k \<le> length ys" "v = k" "early \<longleftrightarrow> k < length ys"
    "early \<longrightarrow> max_blocks (pointers fs) \<le> (off + k) div block_size fs \<or> fst (minix3_alloc_zone fs1) = None"
    "grows (\<lambda>_. True) C fs n fs1 n1" "wrote C fs n fs1 n1 off k ys" by auto
  have s: "i_size n1 = i_size n" by (subst growsD(6) [OF k(5)]) simp
  have ti: "to_int k = int k" "w32 (off + k) = off + k" using o k(1) by (simp_all add: to_int_def)
  have e: "fs' = fs1" "r = (if k < length ys \<and> k = 0 then -1 else int k)"
    "n' = (if k < length ys then n1 else n1\<lparr>i_size := max (i_size n) (off + k), i_mtime := now\<rparr>)"
    using w t k(2,3) s ti unfolding minix3_write_file_def l by (auto simp: Let_def max_def split: if_splits)
  show thesis
    by (rule that [OF k(1) e(2) _ e(3) k(5,6) [folded e(1)]]) (use k(3,4) e(1) in simp)
qed





section \<open>Other files\<close>

lemma grows_other:
  assumes G: "grows P C fs n fs' n1" and m: "map_ok C fs n" "map_ok C fs k"
    and d: "\<And>s t. file_zone C fs n s \<noteq> 0 \<Longrightarrow> file_zone C fs n s \<noteq> file_zone C fs k t"
  shows "map_ok C fs' k" "file_zone C fs' k = file_zone C fs k" "file_byte C fs' k = file_byte C fs k"
    "file_zone C fs' n1 s \<noteq> 0 \<Longrightarrow> file_zone C fs' n1 s \<noteq> file_zone C fs' k t"
proof -
  have e: "block_size fs' = block_size fs" "block_limit fs' = block_limit fs" using grows_same [OF G] by simp_all
  have no: "file_zone C fs' n1 s \<noteq> file_zone C fs k t" if "file_zone C fs k t \<noteq> 0" for s t
  proof (cases "file_zone C fs n s = 0")
    case True
    then show ?thesis using growsD(4) [OF G True] map_okD(5) [OF m(2) that] that by metis
  qed (use growsD(3) [OF G] d in metis)
  have dk: "disk C fs' (file_zone C fs k t) = disk C fs (file_zone C fs k t)" if "file_zone C fs k t \<noteq> 0" for t
    using growsD(5) [OF G _ map_okD(6) [OF m(2) that]] no [OF that] that by simp
  show z: "file_zone C fs' k = file_zone C fs k"
  proof
    show "file_zone C fs' k t = file_zone C fs k t" for t unfolding file_zone_def e
      by (rule slot_zone_cong) (use dk in \<open>simp add: file_zone_def\<close>)
  qed
  show "file_byte C fs' k = file_byte C fs k" unfolding file_byte_def z e Let_def using dk by (intro ext) simp
  show "map_ok C fs' k" using m(2) growsD(1,2) [OF G] map_okD(1,2) [of C fs' n1] unfolding map_ok_def z e by blast
  show "file_zone C fs' n1 s \<noteq> 0 \<Longrightarrow> file_zone C fs' n1 s \<noteq> file_zone C fs' k t" using no [of t s] unfolding z by (cases "file_zone C fs k t = 0") simp_all
qed

text \<open>
  C11: a write touches no other file. If two files have no zone in common, indirect blocks included, a write of one of them,
  complete or not, leaves every byte of the other as it is, and the two still have no zone in common.
\<close>

theorem minix3_write_isolated:
  assumes "map_ok C fs n" "map_ok C fs k" "\<forall>s t. file_zone C fs n s \<noteq> 0 \<longrightarrow> file_zone C fs n s \<noteq> file_zone C fs k t"
    "off + length ys < 2147483648" "minix3_write_file now n off ys fs = (r, n', fs')"
  shows "map_ok C fs' k \<and> (\<forall>p. file_byte C fs' k p = file_byte C fs k p) \<and>
    (\<forall>s t. file_zone C fs' n' s \<noteq> 0 \<longrightarrow> file_zone C fs' n' s \<noteq> file_zone C fs' k t)"
proof -
  obtain n1 where G: "grows (\<lambda>_. True) C fs n fs' n1" "file_zone C fs' n' = file_zone C fs' n1"
  proof (cases "MINIX3_ISREG (i_mode n) \<or> MINIX3_ISLNK (i_mode n)")
    case True
    obtain k n1 where K: "k \<le> length ys" "r = (if k < length ys \<and> k = 0 then -1 else int k)"
      "k < length ys \<longrightarrow> max_blocks (pointers fs) \<le> (off + k) div block_size fs \<or> fst (minix3_alloc_zone fs') = None"
      "n' = (if k < length ys then n1 else n1\<lparr>i_size := max (i_size n) (off + k), i_mtime := now\<rparr>)"
      "grows (\<lambda>_. True) C fs n fs' n1" "wrote C fs n fs' n1 off k ys"
      by (rule write_file_ok [OF assms(1) True assms(4,5)])
    show thesis by (rule that [OF K(5)]) (use K(4) in simp)
  next
    case False
    then show thesis using that grows_any [OF grows_refl [OF assms(1)]] assms(5) by (auto simp: minix3_write_file_def)
  qed
  have d: "\<And>s t. file_zone C fs n s \<noteq> 0 \<Longrightarrow> file_zone C fs n s \<noteq> file_zone C fs k t" using assms(3) by blast
  note O = grows_other [OF G(1) assms(1,2) d]
  show ?thesis using O(1,3,4) unfolding G(2) by auto
qed

theorem minix3_write_isolated_witness:
  "\<exists>r n' fs'. minix3_write_file 5 (empty_inode 0) 0 [1, 2] ram_fs = (r, n', fs') \<and> file_byte (\<lambda>h. h) fs' one_block_inode 0 = 7"
proof -
  obtain r n' fs' where w: "minix3_write_file 5 (empty_inode 0) 0 [1, 2] ram_fs = (r, n', fs')" by (metis prod_cases3)
  have "file_byte (\<lambda>h. h) ram_fs one_block_inode 0 = 7"
    by (simp add: file_byte_def one_block_zone block_slot_def ram_disk)
  then show ?thesis using minix3_write_isolated [OF ram_maps _ _ w] w by (intro exI [of _ r] exI [of _ n'] exI [of _ fs']) (simp add: empty_zone)
qed

section \<open>Holes\<close>

text \<open>
  C14: a write into a hole exposes old contents of the disk. If a block below the end of the file has no zone and a write covers
  a part of it, the rest of the block, which read as zeros before, reads afterwards as the bytes that an unused zone of the
  disk happens to hold: \<^verbatim>\<open>minix3_write_file\<close> reads the zone it has just allocated.
\<close>

theorem minix3_write_exposes:
  assumes "map_ok C fs n" "MINIX3_ISREG (i_mode n) \<or> MINIX3_ISLNK (i_mode n)" "off + length ys < 2147483648"
    "minix3_write_file now n off ys fs = (int (length ys), n', fs')"
    "off \<le> q" "q < off + length ys" "p div block_size fs = q div block_size fs" "p < off \<or> off + length ys \<le> p"
    "p div block_size fs * block_size fs < i_size n" "file_zone C fs n (block_slot (block_size fs div 4) (p div block_size fs)) = 0"
  shows "file_byte C fs n p = 0 \<and> (\<exists>z. 0 < z \<and> z \<notin> used_zones fs \<and> file_byte C fs' n' p = disk C fs z ! (p mod block_size fs))"
proof -
  obtain k n1 where K: "k \<le> length ys" "int (length ys) = (if k < length ys \<and> k = 0 then -1 else int k)"
    "k < length ys \<longrightarrow> max_blocks (pointers fs) \<le> (off + k) div block_size fs \<or> fst (minix3_alloc_zone fs') = None"
    "n' = (if k < length ys then n1 else n1\<lparr>i_size := max (i_size n) (off + k), i_mtime := now\<rparr>)"
    "grows (\<lambda>_. True) C fs n fs' n1" "wrote C fs n fs' n1 off k ys"
    by (rule write_file_ok [OF assms(1-4)])
  have k: "k = length ys" using K(2) by (simp split: if_splits)
  let ?z = "file_zone C fs' n1 (block_slot (pointers fs) (p div block_size fs))"
  have b: "file_byte C fs' n' = file_byte C fs' n1" using K(4) k by simp
  have ex: "\<exists>q. off \<le> q \<and> q < off + k \<and> q div block_size fs = p div block_size fs" using assms(5-7) k by metis
  have no: "\<not> (off \<le> p \<and> p < off + k)" using assms(8) k by auto
  have nz: "?z \<noteq> 0" using K(6) assms(5,6) k unfolding wrote_def Let_def assms(7) by blast
  have W: "\<forall>p. file_byte C fs' n1 p = (if off \<le> p \<and> p < off + k then ys ! (p - off)
        else if \<exists>q. off \<le> q \<and> q < off + k \<and> q div block_size fs = p div block_size fs then if p div block_size fs * block_size fs < i_size n
          then disk C fs (file_zone C fs' n1 (block_slot (pointers fs) (p div block_size fs))) ! (p mod block_size fs) else 0
        else file_byte C fs n p)" using K(6) unfolding wrote_def Let_def by blast
  have "file_byte C fs' n1 p = disk C fs ?z ! (p mod block_size fs)"
    by (subst W [rule_format]) (simp only: no ex assms(9) if_True if_False)
  moreover have "?z \<notin> used_zones fs" using growsD(4) [OF K(5) assms(10) nz] .
  moreover have "file_byte C fs n p = 0" using assms(10) by (simp add: file_byte_def)
  ultimately show ?thesis using b nz by auto
qed

theorem minix3_write_exposes_witness:
  "\<exists>n' fs'. minix3_write_file 5 (empty_inode 10) 0 [1, 2] ram_fs = (2, n', fs') \<and> file_byte (\<lambda>h. h) ram_fs (empty_inode 10) 5 = 0 \<and>
    file_byte (\<lambda>h. h) fs' n' 5 = 7"
proof -
  obtain n' fs' where w: "minix3_write_file 5 (empty_inode 10) 0 [1, 2] ram_fs = (int (length [1, 2 :: u8]), n', fs')"
    using ram_write [of "[1, 2]" 10 5] by auto
  have bs: "block_size ram_fs = 1024" "i_size (empty_inode 10) = 10" by (simp_all add: ram_fs_def empty_inode_def)
  have "file_byte (\<lambda>h. h) ram_fs (empty_inode 10) 5 = 0 \<and> (\<exists>z. 0 < z \<and> z \<notin> used_zones ram_fs \<and> file_byte (\<lambda>h. h) fs' n' 5 = disk (\<lambda>h. h) ram_fs z ! (5 mod block_size ram_fs))"
    by (rule minix3_write_exposes [OF ram_maps(1) disjI1 [OF reg_inode(1)] _ w, of 0]) (simp_all add: bs empty_zone)
  then show ?thesis using w by (intro exI [of _ n'] exI [of _ fs']) (auto simp: ram_disk bs)
qed

end
