(* ===== verification/Minix3_Inode.thy ===== *)
theory Minix3_Inode
  imports Minix3_Rw
begin

text \<open>
  Inodes of \<open>Minix3\<close> on disk: an inode that was written is read back and no other inode changes.
\<close>

section \<open>Numbers at a place\<close>

lemma le32_at: "length xs = i \<Longrightarrow> n < 4294967296 \<Longrightarrow> le32 (xs @ bytes32 n @ ys) i = n"
  by (rule le32_bytes) (simp_all add: nth_append)

lemma le16_at: "length xs = i \<Longrightarrow> n < 65536 \<Longrightarrow> le16 (xs @ bytes16 n @ ys) i = n"
  by (simp add: le16_def nth_append bytes16_def unat_of_nat)

lemma le_cong:
  "(\<And>k. k < 4 \<Longrightarrow> xs ! (i + k) = ys ! (j + k)) \<Longrightarrow> le32 xs i = le32 ys j"
  "(\<And>k. k < 2 \<Longrightarrow> xs ! (i + k) = ys ! (j + k)) \<Longrightarrow> le16 xs i = le16 ys j"
proof -
  assume h: "\<And>k. k < 4 \<Longrightarrow> xs ! (i + k) = ys ! (j + k)"
  show "le32 xs i = le32 ys j" using h [of 0] h [of 1] h [of 2] h [of 3]
    by (simp add: le32_def le16_def add.assoc numeral_2_eq_2 numeral_3_eq_3)
next
  assume h: "\<And>k. k < 2 \<Longrightarrow> xs ! (i + k) = ys ! (j + k)"
  show "le16 xs i = le16 ys j" using h [of 0] h [of 1] by (simp add: le16_def)
qed

lemma concat_const_nth:
  "(\<And>x. x \<in> set xs \<Longrightarrow> length (f x) = w) \<Longrightarrow> k < length xs \<Longrightarrow> j < w \<Longrightarrow> concat (map f xs) ! (w * k + j) = f (xs ! k) ! j"
proof (induction xs arbitrary: k)
  case (Cons x xs)
  then show ?case by (cases k) (simp_all add: nth_append)
qed simp

section \<open>Inodes\<close>

definition inode_ok :: "minix3_inode \<Rightarrow> bool" where
  "inode_ok n \<longleftrightarrow> i_nlinks n < 65536 \<and> i_uid n < 65536 \<and> i_gid n < 65536 \<and> i_size n < 4294967296 \<and> i_atime n < 4294967296 \<and>
     i_mtime n < 4294967296 \<and> i_ctime n < 4294967296 \<and> length (i_zone n) = 10 \<and> (\<forall>z \<in> set (i_zone n). z < 4294967296)"

lemma length_inode_bytes: "length (i_zone n) = 10 \<Longrightarrow> length (inode_bytes n) = 64"
proof -
  assume "length (i_zone n) = 10"
  then have "length (concat (map bytes32 (i_zone n))) = 4 * 10" by (subst concat_const_length [where k = 4]) auto
  then show ?thesis by (simp add: inode_bytes_def)
qed

lemma inode_decode:
  assumes "inode_ok n"
  shows "inode_at (inode_bytes n) 0 = n"
proof -
  let ?Z = "concat (map bytes32 (i_zone n))"
  have m: "unat (i_mode n) < 65536" using unsigned_less [of "i_mode n", where ?'a = nat] by simp
  have z: "le32 (inode_bytes n) (24 + 4 * k) = i_zone n ! k" if "k < 10" for k
  proof (rule le32_bytes)
    have k: "k < length (i_zone n)" using that assms by (simp add: inode_ok_def)
    show "i_zone n ! k < 4294967296" using k assms by (simp add: inode_ok_def)
    have Z: "inode_bytes n ! (24 + 4 * k + j) = bytes32 (i_zone n ! k) ! j" if "j < 4" for j
    proof -
      have "?Z ! (4 * k + j) = bytes32 (i_zone n ! k) ! j" by (rule concat_const_nth) (use k that in simp_all)
      then show ?thesis by (simp add: inode_bytes_def nth_append)
    qed
    show "inode_bytes n ! (24 + 4 * k) = bytes32 (i_zone n ! k) ! 0" "inode_bytes n ! (24 + 4 * k + 1) = bytes32 (i_zone n ! k) ! 1"
      "inode_bytes n ! (24 + 4 * k + 2) = bytes32 (i_zone n ! k) ! 2" "inode_bytes n ! (24 + 4 * k + 3) = bytes32 (i_zone n ! k) ! 3"
      using Z [of 0] Z [of 1] Z [of 2] Z [of 3] by simp_all
  qed
  have zs: "map (\<lambda>k. le32 (inode_bytes n) (24 + 4 * k)) [0..<10] = i_zone n"
    using assms z by (intro nth_equalityI) (auto simp: inode_ok_def)
  let ?a = "bytes16 (unat (i_mode n))" and ?b = "bytes16 (i_nlinks n)" and ?c = "bytes16 (i_uid n)" and ?d = "bytes16 (i_gid n)"
  let ?e = "bytes32 (i_size n)" and ?f = "bytes32 (i_atime n)" and ?g = "bytes32 (i_mtime n)" and ?h = "bytes32 (i_ctime n)"
  have "le16 (inode_bytes n) 0 = unat (i_mode n)" unfolding inode_bytes_def using le16_at [of "[]" 0 "unat (i_mode n)"] m by simp
  moreover have "le16 (inode_bytes n) 2 = i_nlinks n" unfolding inode_bytes_def using le16_at [of ?a 2 "i_nlinks n"] assms by (simp add: inode_ok_def)
  moreover have "le16 (inode_bytes n) 4 = i_uid n" unfolding inode_bytes_def using le16_at [of "?a @ ?b" 4 "i_uid n"] assms by (simp add: inode_ok_def)
  moreover have "le16 (inode_bytes n) 6 = i_gid n" unfolding inode_bytes_def using le16_at [of "?a @ ?b @ ?c" 6 "i_gid n"] assms by (simp add: inode_ok_def)
  moreover have "le32 (inode_bytes n) 8 = i_size n" unfolding inode_bytes_def using le32_at [of "?a @ ?b @ ?c @ ?d" 8 "i_size n"] assms by (simp add: inode_ok_def)
  moreover have "le32 (inode_bytes n) 12 = i_atime n" unfolding inode_bytes_def using le32_at [of "?a @ ?b @ ?c @ ?d @ ?e" 12 "i_atime n"] assms by (simp add: inode_ok_def)
  moreover have "le32 (inode_bytes n) 16 = i_mtime n" unfolding inode_bytes_def using le32_at [of "?a @ ?b @ ?c @ ?d @ ?e @ ?f" 16 "i_mtime n"] assms by (simp add: inode_ok_def)
  moreover have "le32 (inode_bytes n) 20 = i_ctime n" unfolding inode_bytes_def using le32_at [of "?a @ ?b @ ?c @ ?d @ ?e @ ?f @ ?g" 20 "i_ctime n"] assms by (simp add: inode_ok_def)
  ultimately show ?thesis unfolding inode_at_def add_0 zs by (simp add: numeral_2_eq_2)
qed

lemma inode_at_cong:
  assumes "\<And>i. i < 64 \<Longrightarrow> xs ! (p + i) = ys ! (q + i)"
  shows "inode_at xs p = inode_at ys q"
proof -
  have a: "le16 xs (p + i) = le16 ys (q + i)" if "i + 2 \<le> 64" for i
    by (rule le_cong(2)) (use assms that in \<open>simp add: add.assoc\<close>)
  have b: "le32 xs (p + i) = le32 ys (q + i)" if "i + 4 \<le> 64" for i
    by (rule le_cong(1)) (use assms that in \<open>simp add: add.assoc\<close>)
  have z: "map (\<lambda>k. le32 xs (p + 24 + 4 * k)) [0..<10] = map (\<lambda>k. le32 ys (q + 24 + 4 * k)) [0..<10]"
    using b [of "24 + 4 * k" for k] by (simp add: add.assoc)
  show ?thesis unfolding inode_at_def z using a [of 0] a [of 2] a [of 4] a [of 6] b [of 8] b [of 12] b [of 16] b [of 20] by simp
qed

text \<open>The inode with a number, as the disk holds it.\<close>

definition disk_inode :: "('d \<Rightarrow> block_key \<Rightarrow> block) \<Rightarrow> 'd minix3 \<Rightarrow> nat \<Rightarrow> minix3_inode" where
  "disk_inode C fs ino = (case inode_place ino fs of (b, p) \<Rightarrow> inode_at (disk C fs b) p)"

text \<open>The inode table is on the part of the disk that has sector numbers.\<close>

definition table_ok :: "'d minix3 \<Rightarrow> bool" where
  "table_ok fs \<longleftrightarrow> s_ninodes (sb fs) \<le> 67108864 \<and> inode_table_block fs + 4194304 \<le> block_limit fs"

lemma inode_place_ok:
  assumes "healthy C fs" "table_ok fs" "0 < ino" "ino \<le> s_ninodes (sb fs)" "inode_place ino fs = (b, p)"
  shows "b < block_limit fs" "p + 64 \<le> block_size fs" "\<exists>k. p = 64 * k" "(ino - 1) * 64 = (b - inode_table_block fs) * block_size fs + p"
proof -
  have w: "w32 ((ino - 1) * 64) = (ino - 1) * 64" proof (rule w32_id)
    have "s_ninodes (sb fs) \<le> 67108864" using assms(2) by (simp add: table_ok_def)
    then have "ino - 1 < 67108864" using assms(3,4) by linarith
    then show "(ino - 1) * 64 < 4294967296" by simp
  qed
  have e: "b = inode_table_block fs + (ino - 1) * 64 div block_size fs" "p = (ino - 1) * 64 mod block_size fs"
    using assms(5) unfolding inode_place_def MINIX3_INODE_SIZE_def w by simp_all
  have bs: "block_size fs = 1024 \<or> block_size fs = 4096" using assms(1) by (simp add: healthy_def)
  have "s_ninodes (sb fs) \<le> 67108864" using assms(2) by (simp add: table_ok_def)
  then have "ino - 1 < 67108864" using assms(3,4) by linarith
  then have "(ino - 1) * 64 < 67108864 * 64" by simp
  then have "(ino - 1) * 64 div block_size fs < 4194304" using bs by auto
  then show "b < block_limit fs" using e(1) assms(2) by (simp add: table_ok_def)
  have "\<exists>k. p = 64 * k \<and> k < block_size fs div 64"
  proof -
    have m: "64 * (block_size fs div 64) = block_size fs" using bs by auto
    have "p = 64 * ((ino - 1) mod (block_size fs div 64))" unfolding e(2) mult_mod_right m by (simp only: mult.commute)
    moreover have "(ino - 1) mod (block_size fs div 64) < block_size fs div 64" using bs by auto
    ultimately show ?thesis by blast
  qed
  then show "\<exists>k. p = 64 * k" "p + 64 \<le> block_size fs" using bs by auto
  show "(ino - 1) * 64 = (b - inode_table_block fs) * block_size fs + p" using e by simp
qed

lemma minix3_read_inode_ok:
  assumes "healthy C fs" "0 < ino" "ino \<le> s_ninodes (sb fs)"
  shows "fst (minix3_read_inode ino fs) = Some (disk_inode C fs ino)"
proof -
  obtain b p where bp: "inode_place ino fs = (b, p)" by fastforce
  obtain ok buf fs' where r: "read_block b fs = (ok, buf, fs')" by (metis prod_cases3)
  show ?thesis using read_block_ok [OF assms(1) r] assms(2,3) by (simp add: minix3_read_inode_def disk_inode_def bp r)
qed

text \<open>
  C13: an inode that was written is the inode that is read, with its mode, owner, size, times and zone numbers, and every other
  inode on the disk, those in the same block included, stays as it is.
\<close>

theorem minix3_inode_roundtrip:
  assumes "healthy C fs" "table_ok fs" "inode_ok n" "0 < ino" "ino \<le> s_ninodes (sb fs)" "minix3_write_inode ino n fs = (r, fs')"
    "0 < k" "k \<le> s_ninodes (sb fs)"
  shows "r = 0 \<and> fst (minix3_read_inode k fs') = Some (if k = ino then n else disk_inode C fs k)"
proof -
  obtain b p where bp: "inode_place ino fs = (b, p)" by fastforce
  obtain c q where cq: "inode_place k fs = (c, q)" by fastforce
  note B = inode_place_ok [OF assms(1,2,4,5) bp] and K = inode_place_ok [OF assms(1,2,7,8) cq]
  obtain ok buf fs1 where rd: "read_block b fs = (ok, buf, fs1)" by (metis prod_cases3)
  note R = read_block_ok [OF assms(1) rd]
  have l64: "length (inode_bytes n) = 64" using assms(3) by (simp add: inode_ok_def length_inode_bytes)
  have l: "block_limit fs1 = block_limit fs" "block_size fs1 = block_size fs" by (subst R(5), simp add: block_limit_def)+
  let ?buf = "put_at p (inode_bytes n) buf"
  have lb: "length buf = block_size fs" using R(2) assms(1) by simp
  obtain ok2 fs2 where w: "write_block b ?buf fs1 = (ok2, fs2)" by fastforce
  have lw: "length ?buf = block_size fs1" "b < block_limit fs1" using B(1,2) lb l l64 by simp_all
  note W = write_block_ok [OF R(3) w lw]
  have f: "r = 0" "fs' = fs2" using assms(4-6) R(1) W(1) by (simp_all add: minix3_write_inode_def bp rd w)
  have st: "fs2 = fs\<lparr>blk := blk fs2\<rparr>" by (subst W(3), subst R(5)) simp
  have same: "sb fs2 = sb fs" "inode_place k fs2 = inode_place k fs" by (subst st, simp add: inode_place_def)+
  have nth: "?buf ! i = (if p \<le> i \<and> i < p + 64 then inode_bytes n ! (i - p) else buf ! i)" if "i < block_size fs" for i
    using nth_put_at [of p "inode_bytes n" buf i] B(2) lb l64 that by simp
  have "disk_inode C fs2 k = (if k = ino then n else disk_inode C fs k)"
  proof (cases "k = ino")
    case True
    then have "inode_at ?buf q = inode_at (inode_bytes n) 0" using bp cq nth B(2) by (intro inode_at_cong) auto
    then show ?thesis using True inode_decode [OF assms(3)] bp cq W(4) [of b] B(1) l same(2) by (simp add: disk_inode_def)
  next
    case False
    show ?thesis
    proof (cases "c = b")
      case True
      have "p \<noteq> q" using B(4) K(4) True False assms(4,7) by auto
      then have "q + 64 \<le> p \<or> p + 64 \<le> q" using B(3) K(3) by auto
      then have "inode_at ?buf q = inode_at buf q" using nth K(2) by (intro inode_at_cong) auto
      then show ?thesis using True False cq W(4) [of b] B(1) l R(2) by (simp add: disk_inode_def same)
    next
      case False
      then show ?thesis using \<open>k \<noteq> ino\<close> cq W(4) [of c] K(1) l R(4) by (simp add: disk_inode_def same)
    qed
  qed
  then show ?thesis using minix3_read_inode_ok [OF W(2) assms(7)] assms(8) f by (simp add: same)
qed

theorem minix3_inode_roundtrip_witness:
  "\<exists>fs'. minix3_write_inode 2 one_block_inode ram_fs = (0, fs') \<and> fst (minix3_read_inode 2 fs') = Some one_block_inode"
proof -
  obtain r fs' where w: "minix3_write_inode 2 one_block_inode ram_fs = (r, fs')" by fastforce
  have "inode_ok one_block_inode" "table_ok ram_fs"
    by (simp_all add: inode_ok_def one_block_inode_def new_inode_def table_ok_def ram_fs_def block_limit_def sectors_per_block_def)
  then show ?thesis using minix3_inode_roundtrip [OF ram_healthy _ _ _ _ w, of 2] w by (intro exI [of _ fs']) (simp add: ram_fs_def)
qed

end
