(* ===== verification/Minix3_Dir.thy ===== *)
theory Minix3_Dir
  imports Minix3_Inode
begin

text \<open>
  Directories of \<open>Minix3\<close> as lists of entries: a lookup is a search in the list, an added entry takes the first free place or
  opens a block, a removed one leaves a free place.
\<close>

section \<open>Entries\<close>

definition block_entries :: "('d \<Rightarrow> block_key \<Rightarrow> block) \<Rightarrow> 'd minix3 \<Rightarrow> minix3_inode \<Rightarrow> nat \<Rightarrow> minix3_dirent list" where
  "block_entries C fs n b = (let z = file_zone C fs n (block_slot (pointers fs) b)
     in if z = 0 then [] else map (dirent_at (disk C fs z)) [0..<block_size fs div 64])"

definition dir_entries :: "('d \<Rightarrow> block_key \<Rightarrow> block) \<Rightarrow> 'd minix3 \<Rightarrow> minix3_inode \<Rightarrow> minix3_dirent list" where
  "dir_entries C fs n = concat (map (block_entries C fs n) [0..<dir_blocks n fs])"

text \<open>Directories whose size the code can round up to blocks and whose zones are within the size.\<close>

definition dir_ok :: "('d \<Rightarrow> block_key \<Rightarrow> block) \<Rightarrow> 'd minix3 \<Rightarrow> minix3_inode \<Rightarrow> bool" where
  "dir_ok C fs n \<longleftrightarrow> map_ok C fs n \<and> MINIX3_ISDIR (i_mode n) \<and> i_size n + 2 * block_size fs < 4294967296 \<and>
     dir_blocks n fs \<le> max_blocks (pointers fs) \<and> (\<forall>k < 7. dir_blocks n fs \<le> k \<longrightarrow> i_zone n ! k = 0)"

definition dirent_ok :: "minix3_dirent \<Rightarrow> bool" where
  "dirent_ok e \<longleftrightarrow> de_inode e < 4294967296 \<and> length (de_name e) = 60"

lemma length_dirent_bytes: "dirent_ok e \<Longrightarrow> length (dirent_bytes e) = 64"
  by (simp add: dirent_bytes_def dirent_ok_def)

lemma dirent_at_bytes:
  assumes "\<And>j. j < 64 \<Longrightarrow> buf ! (64 * i + j) = dirent_bytes e ! j" "64 * i + 64 \<le> length buf" "dirent_ok e"
  shows "dirent_at buf i = e"
proof -
  have "le32 buf (64 * i) = le32 (dirent_bytes e) 0" by (rule le_cong(1)) (use assms(1) in simp)
  also have "\<dots> = de_inode e" using le32_at [of "[]" 0 "de_inode e" "de_name e"] assms(3) by (simp add: dirent_bytes_def dirent_ok_def)
  finally have a: "le32 buf (64 * i) = de_inode e" .
  have b: "take 60 (drop (64 * i + 4) buf) = de_name e"
  proof (rule nth_equalityI)
    show "length (take 60 (drop (64 * i + 4) buf)) = length (de_name e)" using assms(2,3) by (simp add: dirent_ok_def)
    fix j assume "j < length (take 60 (drop (64 * i + 4) buf))"
    then have j: "j < 60" by simp
    have "buf ! (64 * i + (4 + j)) = dirent_bytes e ! (4 + j)" using assms(1) [of "4 + j"] j by simp
    also have "dirent_bytes e ! (4 + j) = de_name e ! j" by (simp add: dirent_bytes_def nth_append)
    finally show "take 60 (drop (64 * i + 4) buf) ! j = de_name e ! j" using j assms(2) by (simp add: add.assoc)
  qed
  show ?thesis unfolding dirent_at_def a b by simp
qed

lemma dirents_decode:
  assumes "\<forall>e \<in> set es. dirent_ok e" "i < length es"
  shows "dirent_at (concat (map dirent_bytes es)) i = es ! i"
proof (rule dirent_at_bytes)
  have l: "length (dirent_bytes e) = 64" if "e \<in> set es" for e using length_dirent_bytes assms(1) that by blast
  show "concat (map dirent_bytes es) ! (64 * i + j) = dirent_bytes (es ! i) ! j" if "j < 64" for j
    by (rule concat_const_nth [OF l assms(2) that])
  have "length (concat (map dirent_bytes es)) = 64 * length (map dirent_bytes es)" by (rule concat_const_length) (use l in auto)
  then show "64 * i + 64 \<le> length (concat (map dirent_bytes es))" using assms(2) by simp
  show "dirent_ok (es ! i)" using assms by simp
qed

lemma length_dirents: "\<forall>e \<in> set es. dirent_ok e \<Longrightarrow> length (concat (map dirent_bytes es)) = 64 * length es"
  by (subst concat_const_length [where k = 64]) (auto simp: length_dirent_bytes)

lemma dirent_at_ok: "64 * i + 64 \<le> length buf \<Longrightarrow> dirent_ok (dirent_at buf i)"
  using zone_ptr_bound [of buf "16 * i"] by (simp add: dirent_ok_def dirent_at_def zone_ptr_def)

lemma block_entries_ok:
  assumes "healthy C fs"
  shows "\<forall>e \<in> set (block_entries C fs n b). dirent_ok e"
proof -
  have "dirent_ok (dirent_at (disk C fs z) i)" if "i < block_size fs div 64" for z i
    by (rule dirent_at_ok) (use that length_disk [OF assms, of z] assms in \<open>auto simp: healthy_def\<close>)
  then show ?thesis by (auto simp: block_entries_def Let_def)
qed

section \<open>Searching\<close>

lemma blk_trans:
  assumes "a = b\<lparr>blk := blk a\<rparr>" "b = c\<lparr>blk := blk b\<rparr>"
  shows "a = c\<lparr>blk := blk a\<rparr>"
proof -
  have "b\<lparr>blk := v\<rparr> = c\<lparr>blk := v\<rparr>" for v by (subst assms(2)) simp
  then show ?thesis using assms(1) by metis
qed

lemma first_entry_ok:
  "case first_entry P k es of
     None \<Rightarrow> \<forall>e \<in> set es. \<not> P e
   | Some j \<Rightarrow> k \<le> j \<and> j - k < length es \<and> P (es ! (j - k)) \<and> (\<forall>e \<in> set (take (j - k) es). \<not> P e)"
proof (induction es arbitrary: k)
  case (Cons e es)
  show ?case
  proof (cases "P e")
    case False
    show ?thesis
    proof (cases "first_entry P (Suc k) es")
      case (Some j)
      then have h: "Suc k \<le> j" "j - Suc k < length es" "P (es ! (j - Suc k))" "\<forall>e \<in> set (take (j - Suc k) es). \<not> P e" using Cons.IH [of "Suc k"] by simp_all
      have "j - k = Suc (j - Suc k)" using h(1) by simp
      then show ?thesis using h False Some by simp
    qed (use Cons.IH [of "Suc k"] False in simp)
  qed simp
qed simp

lemma read_dir_block_ok:
  assumes "healthy C fs" "b < max_blocks (pointers fs)" "minix3_read_dir_block n b fs = (r, fs')"
  shows "r = Some (block_entries C fs n b)" "healthy C fs'" "disk C fs' = disk C fs" "fs' = fs\<lparr>blk := blk fs'\<rparr>"
proof -
  obtain z fs1 where bm: "minix3_bmap n b fs = (z, fs1)" by fastforce
  note B = bmap_ok [OF assms(1) bm]
  let ?z = "file_zone C fs n (block_slot (pointers fs) b)"
  have z: "z = Some ?z" using B(1) assms(2) by simp
  obtain ok buf fs2 where rd: "read_block ?z fs1 = (ok, buf, fs2)" by (metis prod_cases3)
  note R = read_block_ok [OF B(2) rd]
  have e: "block_size fs2 = block_size fs" "fs2 = fs\<lparr>blk := blk fs2\<rparr>" by (subst R(5), subst B(4), simp)+
  have "(r, fs') = (Some (block_entries C fs n b), if ?z = 0 then fs1 else fs2)"
    using assms(3) R(1,2) B(3) e(1) by (cases "?z = 0") (simp_all add: minix3_read_dir_block_def bm z rd block_entries_def)
  then show "r = Some (block_entries C fs n b)" "healthy C fs'" "disk C fs' = disk C fs" "fs' = fs\<lparr>blk := blk fs'\<rparr>"
    using B R e(2) by (simp_all split: if_splits)
qed

lemma block_entries_blk: "disk C fs' = disk C fs \<Longrightarrow> fs' = fs\<lparr>blk := st\<rparr> \<Longrightarrow> block_entries C fs' n = block_entries C fs n"
  by (intro ext) (simp add: block_entries_def file_zone_def Let_def)

text \<open>The search over the blocks is a search in the list of the entries.\<close>

lemma find_dirent_ok:
  assumes "healthy C fs" "\<forall>b \<in> set bs. b < max_blocks (pointers fs)" "find_dirent P n bs fs = (r, fs')"
  shows "healthy C fs' \<and> disk C fs' = disk C fs \<and> fs' = fs\<lparr>blk := blk fs'\<rparr> \<and>
    (case r of None \<Rightarrow> False
     | Some None \<Rightarrow> \<forall>e \<in> set (concat (map (block_entries C fs n) bs)). \<not> P e
     | Some (Some (b, es, i)) \<Rightarrow> es = block_entries C fs n b \<and> i < length es \<and> P (es ! i) \<and>
         (\<exists>bs1 bs2. bs = bs1 @ b # bs2 \<and> (\<forall>e \<in> set (concat (map (block_entries C fs n) bs1) @ take i es). \<not> P e)))"
  using assms
proof (induction bs arbitrary: fs)
  case (Cons b bs)
  obtain r1 fs1 where rd: "minix3_read_dir_block n b fs = (r1, fs1)" by fastforce
  note R = read_dir_block_ok [OF Cons.prems(1) _ rd, simplified, OF Cons.prems(2) [rule_format, of b, simplified]]
  show ?case
  proof (cases "first_entry P 0 (block_entries C fs n b)")
    case (Some i)
    then have h: "i < length (block_entries C fs n b)" "P (block_entries C fs n b ! i)" "\<forall>e \<in> set (take i (block_entries C fs n b)). \<not> P e"
      using first_entry_ok [where P = P and k = 0 and es = "block_entries C fs n b"] by simp_all
    have "r = Some (Some (b, block_entries C fs n b, i))" "fs' = fs1" using Cons.prems(3) R(1) Some by (simp_all add: rd)
    then show ?thesis using R(2-4) h by (auto intro: exI [of _ "[]"])
  next
    case None
    then have no: "\<forall>e \<in> set (block_entries C fs n b). \<not> P e" using first_entry_ok [where P = P and k = 0 and es = "block_entries C fs n b"] by simp
    have sz: "block_size fs1 = block_size fs" by (subst R(4)) simp
    have l: "find_dirent P n bs fs1 = (r, fs')" using Cons.prems(3) R(1) None by (simp add: rd)
    have "\<forall>b \<in> set bs. b < max_blocks (pointers fs1)" using Cons.prems(2) sz by simp
    note I = Cons.IH [OF R(2) this l]
    have be: "block_entries C fs1 n = block_entries C fs n" using block_entries_blk [OF R(3,4)] .
    have "fs' = fs1\<lparr>blk := blk fs'\<rparr>" using I by blast
    then have f: "fs' = fs\<lparr>blk := blk fs'\<rparr>" by (rule blk_trans [OF _ R(4)])
    have d: "healthy C fs'" "disk C fs' = disk C fs" using I R(3) by auto
    show ?thesis
    proof (cases r)
      case (Some q)
      show ?thesis
      proof (cases q)
        case None
        then show ?thesis using I Some f d no unfolding be by auto
      next
        case q: (Some t)
        obtain c es i where t: "t = (c, es, i)" by (metis prod_cases3)
        obtain bs1 bs2 where J: "es = block_entries C fs n c" "i < length es" "P (es ! i)" "bs = bs1 @ c # bs2"
          "\<forall>e \<in> set (concat (map (block_entries C fs n) bs1) @ take i es). \<not> P e"
          using I Some q t unfolding be by auto
        have "b # bs = (b # bs1) @ c # bs2" using J(4) by simp
        moreover have "\<forall>e \<in> set (concat (map (block_entries C fs n) (b # bs1)) @ take i es). \<not> P e" using J(5) no by auto
        ultimately show ?thesis using Some q t f d J(1-3) by (simp only: option.case prod.case) blast
      qed
    qed (use I in simp)
  qed
qed auto

lemma find_split:
  "P x \<Longrightarrow> \<forall>y \<in> set xs. \<not> P y \<Longrightarrow> find P (xs @ x # ys) = Some x"
  by (induction xs) auto

lemma dir_blocks_in_range: "dir_blocks n fs \<le> max_blocks (pointers fs) \<Longrightarrow> \<forall>b \<in> set [0..<dir_blocks n fs]. b < max_blocks (pointers fs)"
  by auto

text \<open>The list of all entries around one of them.\<close>

lemma concat_around:
  "i < length (f b) \<Longrightarrow> concat (map f (bs1 @ b # bs2)) = (concat (map f bs1) @ take i (f b)) @ f b ! i # (drop (Suc i) (f b) @ concat (map f bs2))"
  using id_take_nth_drop [of i "f b"] by simp

definition wanted :: "u8 list \<Rightarrow> minix3_dirent \<Rightarrow> bool" where
  "wanted name e \<longleftrightarrow> de_inode e \<noteq> 0 \<and> same_name (de_name e) name"

lemma lookup_ok:
  assumes "healthy C fs" "MINIX3_ISDIR (i_mode n)" "dir_blocks n fs \<le> max_blocks (pointers fs)"
  shows "fst (minix3_lookup n name fs) = map_option de_inode (find (wanted name) (dir_entries C fs n))"
proof -
  obtain r fs' where f: "find_dirent (wanted name) n [0..<dir_blocks n fs] fs = (r, fs')" by fastforce
  note F = find_dirent_ok [OF assms(1) dir_blocks_in_range [OF assms(3)] f]
  have w: "(\<lambda>e. de_inode e \<noteq> 0 \<and> same_name (de_name e) name) = wanted name" by (simp add: wanted_def fun_eq_iff)
  show ?thesis
  proof (cases r)
    case (Some q)
    show ?thesis
    proof (cases q)
      case None
      then have "find (wanted name) (dir_entries C fs n) = None" using F Some by (auto simp: find_None_iff dir_entries_def)
      then show ?thesis using assms(2) None Some f unfolding minix3_lookup_def w by simp
    next
      case q: (Some t)
      obtain b es i where t: "t = (b, es, i)" by (metis prod_cases3)
      obtain bs1 bs2 where J: "es = block_entries C fs n b" "i < length es" "wanted name (es ! i)" "[0..<dir_blocks n fs] = bs1 @ b # bs2"
        "\<forall>e \<in> set (concat (map (block_entries C fs n) bs1) @ take i es). \<not> wanted name e" using F Some q t by auto
      have "find (wanted name) (dir_entries C fs n) = Some (es ! i)"
        unfolding dir_entries_def J(4) concat_around [where f = "block_entries C fs n", OF J(2) [unfolded J(1)], folded J(1)]
        by (rule find_split [OF J(3,5)])
      then show ?thesis using assms(2) f Some q t unfolding minix3_lookup_def w by simp
    qed
  qed (use F in simp)
qed

section \<open>Adding an entry\<close>

definition new_dirent :: "u8 list \<Rightarrow> nat \<Rightarrow> minix3_dirent" where
  "new_dirent name ino = \<lparr>de_inode = ino, de_name = name_field name\<rparr>"

lemma new_dirent_ok: "length name < 60 \<Longrightarrow> ino < 4294967296 \<Longrightarrow> dirent_ok (new_dirent name ino)"
  by (simp add: dirent_ok_def new_dirent_def name_field_def)

text \<open>The blocks of the directory after a change of one of them.\<close>

lemma block_entries_write:
  assumes m: "map_ok C fs n" and z: "z = file_zone C fs n (block_slot (pointers fs) b)" "z \<noteq> 0" and st: "fs' = fs\<lparr>blk := st\<rparr>"
    and zones: "file_zone C fs' n = file_zone C fs n"
    and d: "\<And>c. c < block_limit fs \<Longrightarrow> disk C fs' c = (if c = z then concat (map dirent_bytes es) else disk C fs c)"
    and es: "\<forall>e \<in> set es. dirent_ok e" "length es = block_size fs div 64"
  shows "block_entries C fs' n c = (if c = b then es else block_entries C fs n c)"
proof -
  have sz: "block_size fs' = block_size fs" using st by simp
  have zl: "z < block_limit fs" using map_okD(6) [OF m] z by simp
  show ?thesis
  proof (cases "c = b")
    case True
    have "map (dirent_at (concat (map dirent_bytes es))) [0..<length es] = es"
      by (intro nth_equalityI) (simp_all add: dirents_decode [OF es(1)])
    then show ?thesis using True z d [OF zl] es(2) by (simp add: block_entries_def sz zones)
  next
    case False
    let ?y = "file_zone C fs n (block_slot (pointers fs) c)"
    have "?y \<noteq> z" if "?y \<noteq> 0" using map_okD(4) [OF m _ that, of "block_slot (pointers fs) b"] z(1) block_slot_inj False by metis
    then have "disk C fs' ?y = disk C fs ?y" if "?y \<noteq> 0" using d [OF map_okD(6) [OF m that]] that by simp
    then show ?thesis using False by (simp add: block_entries_def sz zones Let_def)
  qed
qed

lemma dir_blocks_eq:
  assumes "i_size n + 2 * block_size fs < 4294967296"
  shows "dir_blocks n fs = (i_size n + block_size fs - 1) div block_size fs"
  using assms by (simp add: dir_blocks_def)

lemma dir_blocks_size: "dir_blocks (n\<lparr>i_mtime := t\<rparr>) fs = dir_blocks n fs"
  by (simp add: dir_blocks_def)

lemma dir_blocks_within:
  assumes s: "i_size n + 2 * block_size fs < 4294967296" and bs: "0 < block_size fs" and e: "i_size n \<le> e" "e \<le> dir_blocks n fs * block_size fs"
  shows "dir_blocks (n\<lparr>i_size := e\<rparr>) fs = dir_blocks n fs"
proof -
  let ?bs = "block_size fs" and ?q = "dir_blocks n fs"
  have q: "?q = (i_size n + ?bs - 1) div ?bs" using dir_blocks_eq [OF s] .
  then have "?q * ?bs \<le> i_size n + ?bs - 1" by simp
  then have sm: "e + ?bs - 1 < 4294967296" using e(2) s bs by linarith
  have "e + ?bs - 1 < Suc ?q * ?bs" using e(2) bs by simp
  then have "(e + ?bs - 1) div ?bs < Suc ?q" using bs by (simp add: div_less_iff_less_mult)
  moreover have "?q \<le> (e + ?bs - 1) div ?bs" unfolding q by (rule div_le_mono) (use e(1) in simp)
  ultimately show ?thesis using sm by (simp add: dir_blocks_def)
qed

lemma dir_blocks_next:
  assumes "i_size n + 2 * block_size fs < 4294967296" "0 < block_size fs"
  shows "dir_blocks (n\<lparr>i_size := w32 (i_size n + block_size fs)\<rparr>) fs = Suc (dir_blocks n fs)"
proof -
  let ?bs = "block_size fs"
  have a: "i_size n + ?bs + ?bs - 1 < 4294967296" using assms by simp
  have "i_size n + ?bs + ?bs - 1 = (i_size n + ?bs - 1) + ?bs" using assms(2) by simp
  then have "(i_size n + ?bs + ?bs - 1) div ?bs = Suc ((i_size n + ?bs - 1) div ?bs)" using assms(2) by (simp only: div_add_self2 Suc_eq_plus1)
  then show ?thesis using a assms by (simp add: dir_blocks_def)
qed

lemma block_entries_size [simp]:
  "block_entries C fs (n\<lparr>i_size := k\<rparr>) = block_entries C fs n" "block_entries C fs (n\<lparr>i_mtime := k\<rparr>) = block_entries C fs n"
  by (simp_all add: block_entries_def fun_eq_iff)

lemma concat_update:
  assumes "[0..<q] = bs1 @ b # bs2" "\<And>c. g c = (if c = b then es' else f c)"
  shows "concat (map g [0..<q]) = concat (map f bs1) @ es' @ concat (map f bs2)"
proof -
  have "distinct (bs1 @ b # bs2)" using assms(1) by (metis distinct_upt)
  then have m: "map g bs1 = map f bs1" "map g bs2 = map f bs2" using assms(2) by auto
  show ?thesis unfolding assms(1) map_append list.map concat_append concat.simps m assms(2) [of b] by simp
qed

text \<open>
  After an entry was added, the directory has it at the first free place, or in a new block that is free otherwise.
\<close>

lemma add_dirent_ok:
  assumes ok: "dir_ok C fs n" and name: "length name < 60" "ino < 4294967296" and a: "minix3_add_dirent now n name ino fs = (0, n', fs')"
  shows "healthy C fs' \<and> MINIX3_ISDIR (i_mode n') \<and> dir_blocks n' fs' \<le> max_blocks (pointers fs') \<and>
    (\<exists>xs ds ys rest. dir_entries C fs n = xs @ ds @ ys \<and> dir_entries C fs' n' = xs @ new_dirent name ino # rest @ ys \<and>
      (\<forall>d \<in> set (ds @ rest). de_inode d = 0))"
proof -
  have m: "map_ok C fs n" and dir: "MINIX3_ISDIR (i_mode n)" and s: "i_size n + 2 * block_size fs < 4294967296"
    and nb: "dir_blocks n fs \<le> max_blocks (pointers fs)" and beyond: "\<And>k. k < 7 \<Longrightarrow> dir_blocks n fs \<le> k \<Longrightarrow> i_zone n ! k = 0"
    using ok unfolding dir_ok_def by blast+
  note h = map_okD(1) [OF m]
  have bs: "0 < block_size fs" "64 * (block_size fs div 64) = block_size fs" using h by (auto simp: healthy_def)
  let ?free = "\<lambda>e. de_inode e = 0" and ?new = "new_dirent name ino"
  have nl: "\<not> length name \<ge> MINIX3_NAME_LEN" using name by (simp add: MINIX3_NAME_LEN_def)
  have nn: "\<lparr>de_inode = ino, de_name = name_field name\<rparr> = ?new" by (simp add: new_dirent_def)
  obtain r fs1 where f: "find_dirent ?free n [0..<dir_blocks n fs] fs = (r, fs1)" by fastforce
  note F = find_dirent_ok [OF h dir_blocks_in_range [OF nb] f]
  have h1: "healthy C fs1" "disk C fs1 = disk C fs" "fs1 = fs\<lparr>blk := blk fs1\<rparr>" using F by auto
  note M1 = map_ok_blk [OF m h1]
  have sz1: "block_size fs1 = block_size fs" "dir_blocks n fs1 = dir_blocks n fs" by (subst h1(3), simp add: dir_blocks_def)+
  have be1: "block_entries C fs1 n = block_entries C fs n" using block_entries_blk [OF h1(2,3)] .
  show ?thesis
  proof (cases r)
    case (Some q)
    show ?thesis
    proof (cases q)
      case q: (Some t)
      obtain b es i where t: "t = (b, es, i)" by (metis prod_cases3)
      obtain bs1 bs2 where J: "es = block_entries C fs n b" "i < length es" "?free (es ! i)" "[0..<dir_blocks n fs] = bs1 @ b # bs2"
        using F Some q t by auto
      have bq: "b < dir_blocks n fs" using J(4) by (metis atLeastLessThan_iff in_set_conv_decomp set_upt)
      obtain z fs2 where bm: "minix3_bmap n b fs1 = (z, fs2)" by fastforce
      note B = bmap_ok [OF h1(1) bm]
      let ?z = "file_zone C fs n (block_slot (pointers fs) b)"
      have z: "z = Some ?z" "?z \<noteq> 0" using B(1) bq nb J(1,2) sz1 M1(2) by (auto simp: block_entries_def Let_def split: if_splits)
      let ?es = "es[i := ?new]"
      have les: "length es = block_size fs div 64" using J(1) z(2) by (simp add: block_entries_def)
      have eok: "\<forall>e \<in> set ?es. dirent_ok e"
        using block_entries_ok [OF h, of n b] new_dirent_ok [OF name] set_update_subset_insert [of es i ?new] unfolding J(1) by blast
      obtain ok fs3 where w: "write_block ?z (concat (map dirent_bytes ?es)) fs2 = (ok, fs3)" by fastforce
      have sz2: "block_size fs2 = block_size fs" "block_limit fs2 = block_limit fs" "fs2 = fs\<lparr>blk := blk fs2\<rparr>"
      proof -
        show st: "fs2 = fs\<lparr>blk := blk fs2\<rparr>" using blk_trans [OF B(4) h1(3)] .
        show "block_size fs2 = block_size fs" "block_limit fs2 = block_limit fs" by (subst st, simp add: block_limit_def)+
      qed
      have zl: "?z < block_limit fs" using map_okD(6) [OF m z(2)] .
      have wl: "length (concat (map dirent_bytes ?es)) = block_size fs2" "?z < block_limit fs2"
        using length_dirents [OF eok] les bs(2) zl sz2 by simp_all
      note W = write_block_ok [OF B(2) w wl]
      have st: "fs3 = fs\<lparr>blk := blk fs3\<rparr>" using blk_trans [OF W(3) sz2(3)] .
      have d: "disk C fs3 c = (if c = ?z then concat (map dirent_bytes ?es) else disk C fs c)" if "c < block_limit fs" for c
        using W(4) [of c] that sz2(2) B(3) h1(2) by simp
      have D: "file_zone C fs3 n = file_zone C fs n" by (rule data_write(2) [OF m block_slot_data refl z(2) W(2) st]) (simp add: d)
      have be: "block_entries C fs3 n c = (if c = b then ?es else block_entries C fs n c)" for c
        by (rule block_entries_write [OF m refl z(2) st D d eok]) (simp_all add: les)
      let ?e = "b * block_size fs + (i + 1) * 64"
      have il: "(i + 1) * 64 \<le> block_size fs" using J(2) les bs(2) by simp
      have "Suc b * block_size fs \<le> dir_blocks n fs * block_size fs" using bq by (intro mult_le_mono1) simp
      then have e: "?e \<le> dir_blocks n fs * block_size fs" using il by simp
      have "dir_blocks n fs * block_size fs \<le> i_size n + block_size fs - 1" unfolding dir_blocks_eq [OF s] by simp
      then have e32: "?e < 4294967296" using e s by linarith
      have res: "fs' = fs3 \<and> n' = (if ?e > i_size n then n\<lparr>i_size := ?e, i_mtime := now\<rparr> else n)"
      proof -
        have wd: "write_dir_block n b ?es fs1 = (True, fs3)" using W(1) z(1) by (simp add: write_dir_block_def bm w)
        have sz3: "block_size fs3 = block_size fs" by (subst st) simp
        show ?thesis using a dir nl f Some q t wd e32 w32_id [OF e32]
          by (simp add: minix3_add_dirent_def nn MINIX3_DIRENT_SIZE_def sz3 Let_def split: if_splits)
      qed
      have sz3: "block_size fs3 = block_size fs" by (subst st) simp
      have n3: "dir_blocks n' fs3 = dir_blocks n fs" "block_entries C fs3 n' = block_entries C fs3 n" "i_mode n' = i_mode n"
        using res dir_blocks_within [OF s bs(1) _ e] sz3 by (auto simp: dir_blocks_def)
      have old: "dir_entries C fs n = (concat (map (block_entries C fs n) bs1) @ take i es) @ [es ! i] @ (drop (Suc i) es @ concat (map (block_entries C fs n) bs2))"
        unfolding dir_entries_def J(4) using concat_around [of i "block_entries C fs n" b bs1 bs2] J(1,2) by simp
      have new: "dir_entries C fs3 n' = (concat (map (block_entries C fs n) bs1) @ take i es) @ ?new # [] @ (drop (Suc i) es @ concat (map (block_entries C fs n) bs2))"
        unfolding dir_entries_def n3(1,2) concat_update [OF J(4) be] using upd_conv_take_nth_drop [OF J(2), of ?new] by simp
      show ?thesis using W(2) res n3 dir nb sz3 old new J(3)
        by (intro conjI exI [of _ "concat (map (block_entries C fs n) bs1) @ take i es"] exI [of _ "[es ! i]"]
            exI [of _ "drop (Suc i) es @ concat (map (block_entries C fs n) bs2)"] exI [of _ "[]"]) simp_all
    next
      case None
      let ?nb = "dir_blocks n fs" and ?buf = "put_at 0 (dirent_bytes ?new) (replicate (block_size fs) 0)"
      have noF: "find_dirent ?free n [0..<?nb] fs = (Some None, fs1)" using f Some None by simp
      have b7: "?nb < 7" using a dir nl noF sz1 by (auto simp: minix3_add_dirent_def MINIX3_DIRECT_ZONES_def Let_def split: if_splits)
      obtain z0 fs2 where al: "minix3_alloc_zone fs1 = (z0, fs2)" by fastforce
      have "z0 \<noteq> None" using a dir nl noF sz1 b7 al by (cases z0) (auto simp: minix3_add_dirent_def MINIX3_DIRECT_ZONES_def Let_def)
      then obtain z where z: "z0 = Some z" by blast
      note A = alloc_zone_Some [OF al [unfolded z] map_okD(2) [OF M1(1)]]
      have b2: "healthy C fs2" "disk C fs2 = disk C fs" "block_limit fs2 = block_limit fs" "block_size fs2 = block_size fs"
        using h1(1,2) sz1(1) unfolding A(5) by (simp_all add: bitmap_same) (subst h1(3), simp add: block_limit_def)
      obtain ok fs3 where w: "write_block z ?buf fs2 = (ok, fs3)" by fastforce
      have ne: "dirent_ok ?new" using new_dirent_ok [OF name] .
      have lb: "length ?buf = block_size fs" using length_dirent_bytes [OF ne] bs h by (auto simp: healthy_def)
      have lim1: "block_limit fs1 = block_limit fs" by (subst h1(3)) (simp add: block_limit_def)
      have zl: "z < block_limit fs" using A(4) lim1 by simp
      note W = write_block_ok [OF b2(1) w, unfolded b2(3,4), OF lb zl]
      have sz3: "block_size fs3 = block_size fs" by (subst W(3)) (simp add: b2)
      have res: "fs' = fs3" "n' = n\<lparr>i_zone := (i_zone n)[?nb := z], i_size := w32 (i_size n + block_size fs), i_mtime := now\<rparr>"
        using a dir nl noF sz1 b7 al z W(1) w b2(4) sz3
        by (simp_all add: minix3_add_dirent_def MINIX3_DIRECT_ZONES_def Let_def nn)
      let ?n1 = "n\<lparr>i_zone := (i_zone n)[?nb := z]\<rparr>"
      have d: "disk C fs3 c = (if c = z then ?buf else disk C fs c)" if "c < block_limit fs" for c using W(4) [OF that] b2(2) by simp
      have used: "file_zone C fs n s \<noteq> z" if "file_zone C fs n s \<noteq> 0" for s
        using map_okD(5) [OF M1(1), of s] that A(1) unfolding M1(2) by auto
      have keep: "disk C fs3 (file_zone C fs n s) = disk C fs (file_zone C fs n s)" if "file_zone C fs n s \<noteq> 0" for s
        using d [OF map_okD(6) [OF m that]] used [OF that] by simp
      have root: "root ?nb = block_slot (pointers fs) ?nb" using b7 by (simp add: root_def block_slot_def)
      have zs: "i_zone ?n1 = (i_zone n)[?nb := z]" by simp
      have fz: "file_zone C fs3 ?n1 = (file_zone C fs n)(block_slot (pointers fs) ?nb := z)"
        unfolding file_zone_def zs sz3 root [symmetric]
        by (rule slot_zone_root) (use b7 beyond [OF b7 le_refl] map_okD(3) [OF m] keep in \<open>simp_all add: file_zone_def\<close>)
      have be: "block_entries C fs3 n' c = (if c = ?nb then map (dirent_at ?buf) [0..<block_size fs div 64] else block_entries C fs n c)" for c
      proof (cases "c = ?nb")
        case True
        then show ?thesis using A(3) d [OF zl] unfolding res(2) by (simp add: block_entries_def sz3 fz)
      next
        case False
        then have "block_slot (pointers fs) c \<noteq> block_slot (pointers fs) ?nb" using block_slot_inj by blast
        then show ?thesis using False keep unfolding res(2) by (simp add: block_entries_def sz3 fz Let_def)
      qed
      have dn: "dir_blocks n' fs3 = Suc ?nb" using dir_blocks_next [OF s bs(1)] unfolding res(2) by (simp add: dir_blocks_def sz3)
      have first: "dirent_at ?buf 0 = ?new"
        by (rule dirent_at_bytes) (use lb bs h length_dirent_bytes [OF ne] in \<open>auto simp: put_at_def nth_append healthy_def ne\<close>)
      have rest: "de_inode (dirent_at ?buf i) = 0" if "0 < i" "i < block_size fs div 64" for i
      proof -
        have "?buf ! (64 * i + k) = 0" if "k < 4" for k
          using that \<open>0 < i\<close> \<open>i < block_size fs div 64\<close> bs(2) length_dirent_bytes [OF ne] by (simp add: put_at_def nth_append)
        then have "le32 ?buf (64 * i) = le32 (replicate 4 0) 0" by (intro le_cong(1)) simp
        also have "\<dots> = 0" by (simp add: le32_def le16_def)
        finally show ?thesis by (simp add: dirent_at_def)
      qed
      have "0 < block_size fs div 64" using h by (auto simp: healthy_def)
      then have "[0..<block_size fs div 64] = 0 # [1..<block_size fs div 64]" by (simp add: upt_conv_Cons)
      then have mp: "map (dirent_at ?buf) [0..<block_size fs div 64] = ?new # map (dirent_at ?buf) [1..<block_size fs div 64]" using first by simp
      have new: "dir_entries C fs3 n' = dir_entries C fs n @ ?new # map (dirent_at ?buf) [1..<block_size fs div 64] @ []"
      proof -
        have m1: "map (block_entries C fs3 n') [0..<?nb] = map (block_entries C fs n) [0..<?nb]" by (rule map_cong) (simp_all add: be)
        have m2: "block_entries C fs3 n' ?nb = ?new # map (dirent_at ?buf) [1..<block_size fs div 64]" unfolding be using mp by simp
        show ?thesis unfolding dir_entries_def dn by (simp only: upt_Suc le0 if_True map_append m1 m2 list.map concat_append concat.simps append_Nil2)
      qed
      have "?nb < max_blocks (pointers fs)" using b7 by (simp add: max_blocks_def)
      then show ?thesis using W(2) dir dn sz3 new rest unfolding res(1)
        by (intro conjI exI [of _ "dir_entries C fs n"] exI [of _ "[]"] exI [of _ "map (dirent_at ?buf) [1..<block_size fs div 64]"]) (auto simp: res(2))
    qed
  qed (use F in simp)
qed

section \<open>Looking up after adding\<close>

lemma find_skip: "\<forall>d \<in> set ds. \<not> P d \<Longrightarrow> find P (xs @ ds @ ys) = find P (xs @ ys)"
proof (induction xs)
  case Nil
  then show ?case by (induction ds) auto
qed simp

lemma wanted_new:
  assumes "length name < 60" "0 \<notin> set name" "length k < 60" "ino \<noteq> 0"
  shows "wanted k (new_dirent name ino) \<longleftrightarrow> k = name"
proof -
  have "takeWhile (\<lambda>c. c \<noteq> 0) (name @ replicate (60 - length name) 0) = name"
    using assms(1,2) by (subst takeWhile_append2) (auto simp: takeWhile_replicate)
  then show ?thesis using assms by (auto simp: wanted_def new_dirent_def same_name_def name_field_def)
qed

text \<open>
  C12: a name added to a directory is found, and no other name changes. When \<^verbatim>\<open>minix3_add_dirent\<close> has stored a name that was
  not in the directory, in a free place or in a new block, a lookup of the name gives its inode, and a lookup of any other
  name gives what it gave before.
\<close>

theorem minix3_dir_add_lookup:
  assumes "dir_ok C fs n" "length name < 60" "0 \<notin> set name" "0 < ino" "ino < 4294967296" "minix3_add_dirent now n name ino fs = (0, n', fs')"
    "fst (minix3_lookup n name fs) = None"
  shows "fst (minix3_lookup n' name fs') = Some ino \<and>
    (\<forall>k. k \<noteq> name \<longrightarrow> length k < 60 \<longrightarrow> fst (minix3_lookup n' k fs') = fst (minix3_lookup n k fs))"
proof -
  have old: "fst (minix3_lookup n k fs) = map_option de_inode (find (wanted k) (dir_entries C fs n))" for k
    using assms(1) unfolding dir_ok_def by (intro lookup_ok) (auto dest: map_okD(1))
  obtain xs ds ys rest where D: "healthy C fs'" "MINIX3_ISDIR (i_mode n')" "dir_blocks n' fs' \<le> max_blocks (pointers fs')"
    "dir_entries C fs n = xs @ ds @ ys" "dir_entries C fs' n' = xs @ new_dirent name ino # rest @ ys" "\<forall>d \<in> set (ds @ rest). de_inode d = 0"
    using add_dirent_ok [OF assms(1,2,5,6)] by blast
  have new: "fst (minix3_lookup n' k fs') = map_option de_inode (find (wanted k) (dir_entries C fs' n'))" for k
    using lookup_ok [OF D(1-3)] .
  have free: "\<forall>d \<in> set ds. \<not> wanted k d" "\<forall>d \<in> set rest. \<not> wanted k d" for k using D(6) by (simp_all add: wanted_def)
  have f: "find (wanted k) (dir_entries C fs n) = find (wanted k) (xs @ ys)" for k unfolding D(4) by (rule find_skip [OF free(1)])
  have g: "find (wanted k) (dir_entries C fs' n') = (case find (wanted k) xs of Some e \<Rightarrow> Some e
      | None \<Rightarrow> if wanted k (new_dirent name ino) then Some (new_dirent name ino) else find (wanted k) ys)" for k
  proof -
    have "find (wanted k) (rest @ ys) = find (wanted k) ys" using find_skip [where xs = "[]" and P = "wanted k", OF free(2)] by simp
    then show ?thesis unfolding D(5) by (simp add: find_app split: option.split)
  qed
  have "find (wanted name) xs = None" using assms(7) unfolding old f find_app by (auto split: option.splits)
  then have "fst (minix3_lookup n' name fs') = Some ino"
    unfolding new g using wanted_new [OF assms(2,3,2)] assms(4) by (simp add: new_dirent_def)
  moreover have "fst (minix3_lookup n' k fs') = fst (minix3_lookup n k fs)" if "k \<noteq> name" "length k < 60" for k
    unfolding new old f g using wanted_new [OF assms(2,3) that(2)] that(1) assms(4) by (simp add: find_app split: option.split)
  ultimately show ?thesis by blast
qed

definition empty_dir :: minix3_inode where
  "empty_dir = new_inode 0 0x4000"

lemma empty_dir_ok: "dir_ok (\<lambda>h. h) ram_fs empty_dir"
proof -
  have z: "file_zone C fs empty_dir s = 0" for C :: "'d \<Rightarrow> block_key \<Rightarrow> block" and fs s
    by (cases s) (simp_all add: file_zone_def empty_dir_def new_inode_def)
  have "map_ok (\<lambda>h. h) ram_fs empty_dir" unfolding map_ok_def z using ram_healthy ram_layout by (simp add: empty_dir_def new_inode_def)
  then show ?thesis by (simp add: dir_ok_def empty_dir_def new_inode_def MINIX3_ISDIR_def ram_fs_def dir_blocks_def)
qed

theorem minix3_dir_add_lookup_witness:
  "\<exists>n' fs'. minix3_add_dirent 5 empty_dir [97] 2 ram_fs = (0, n', fs') \<and> fst (minix3_lookup n' [97] fs') = Some 2 \<and>
    fst (minix3_lookup n' [98] fs') = None"
proof -
  obtain fs1 where a: "minix3_alloc_zone ram_fs = (Some 8, fs1)" using ram_alloc by blast
  note A = alloc_zone_Some [OF a ram_layout]
  have e: "MINIX3_ISDIR (i_mode empty_dir)" "dir_blocks empty_dir ram_fs = 0" "block_size fs1 = 1024" "block_limit fs1 = block_limit ram_fs"
    by (simp_all add: empty_dir_def new_inode_def MINIX3_ISDIR_def dir_blocks_def ram_fs_def A(5) block_limit_def sectors_per_block_def)
  have h: "healthy (\<lambda>h. h) fs1" using ram_healthy unfolding A(5) by (simp add: bitmap_same)
  let ?buf = "put_at 0 (dirent_bytes (new_dirent [97] 2)) (replicate 1024 0)"
  obtain ok fs2 where w: "write_block 8 ?buf fs1 = (ok, fs2)" by fastforce
  have l: "length ?buf = block_size fs1" "8 < block_limit fs1"
    using e(3,4) A(4) length_dirent_bytes [OF new_dirent_ok, of "[97]" 2] by simp_all
  have ok using write_block_ok(1) [OF h w l] .
  then have "\<exists>n' fs'. minix3_add_dirent 5 empty_dir [97] 2 ram_fs = (0, n', fs')"
    using e(1,2,3) a w by (simp add: minix3_add_dirent_def MINIX3_NAME_LEN_def MINIX3_DIRECT_ZONES_def new_dirent_def [symmetric])
  then obtain n' fs' where r: "minix3_add_dirent 5 empty_dir [97] 2 ram_fs = (0, n', fs')" by blast
  have none: "fst (minix3_lookup empty_dir k ram_fs) = None" for k using e(1,2) by (simp add: minix3_lookup_def)
  show ?thesis using minix3_dir_add_lookup [OF empty_dir_ok _ _ _ _ r none] r none by (intro exI [of _ n'] exI [of _ fs']) simp
qed

end
