(* ===== verification/Minix3_Vfs.thy ===== *)
theory Minix3_Vfs
  imports Minix3_Dir Tmpfs
begin

text \<open>
  The driver functions that the Minix file system gives to the VFS, \<^verbatim>\<open>fs/minix3/minix3.c\<close>. An open file is a record that a
  function takes and returns; paths are lists of bytes without the null. \<open>mem\<close> says whether \<^verbatim>\<open>kalloc\<close> has memory, \<open>now\<close> is the
  clock during a call.
\<close>

section \<open>Data\<close>

record minix3_file =
  mf_inode_num :: nat
  mf_inode :: minix3_inode
  mf_offset :: nat
  mf_dir_pos :: nat
  mf_dirty :: bool

definition MINIX3_ROOT_INO :: nat where "MINIX3_ROOT_INO = 1"
definition MINIX3_S_IFREG :: u32 where "MINIX3_S_IFREG = 0x8000"
definition MINIX3_S_IFDIR :: u32 where "MINIX3_S_IFDIR = 0x4000"
definition MINIX3_S_IFCHR :: u32 where "MINIX3_S_IFCHR = 0x2000"
definition MINIX3_S_IFBLK :: u32 where "MINIX3_S_IFBLK = 0x6000"
definition MINIX3_S_IFIFO :: u32 where "MINIX3_S_IFIFO = 0x1000"
definition MINIX3_S_IFLNK :: u32 where "MINIX3_S_IFLNK = 0xA000"
definition MINIX3_ISCHR :: "u16 \<Rightarrow> bool" where "MINIX3_ISCHR m \<longleftrightarrow> m AND 0xF000 = 0x2000"
definition MINIX3_ISBLK :: "u16 \<Rightarrow> bool" where "MINIX3_ISBLK m \<longleftrightarrow> m AND 0xF000 = 0x6000"
definition MINIX3_ISFIFO :: "u16 \<Rightarrow> bool" where "MINIX3_ISFIFO m \<longleftrightarrow> m AND 0xF000 = 0x1000"
definition O_APPEND :: u32 where "O_APPEND = 0x0200"

abbreviation (input) "byte_slash \<equiv> (47 :: u8)"

definition dot_name :: "u8 list" where "dot_name = [46]"
definition dotdot_name :: "u8 list" where "dotdot_name = [46, 46]"

text \<open>Arithmetic on 16-bit link counts.\<close>

definition w16 :: "nat \<Rightarrow> nat" where
  "w16 n = n mod 65536"

definition add_links :: "nat \<Rightarrow> minix3_inode \<Rightarrow> minix3_inode" where
  "add_links k n = n\<lparr>i_nlinks := w16 (i_nlinks n + k)\<rparr>"

definition drop_link :: "minix3_inode \<Rightarrow> minix3_inode" where
  "drop_link n = n\<lparr>i_nlinks := w16 (i_nlinks n + 65535)\<rparr>"

section \<open>Paths\<close>

definition skip_slash :: "u8 list \<Rightarrow> u8 list" where
  "skip_slash p = (if p \<noteq> [] \<and> hd p = byte_slash then tl p else p)"

text \<open>
  The components that the loops of \<^verbatim>\<open>minix3_vfs_open\<close> and \<^verbatim>\<open>lookup_directory_by_path\<close> come to, each with the test whether the
  string ends with it.
\<close>

function tokens :: "u8 list \<Rightarrow> (u8 list \<times> bool) list" where
  "tokens p =
     (if p = [] then []
      else let t = takeWhile (\<lambda>c. c \<noteq> byte_slash) p; r = dropWhile (\<lambda>c. c \<noteq> byte_slash) p in
        if t = [] then tokens (tl p)
        else (t, r = []) # tokens (tl r))"
  by pat_completeness auto
termination
proof (relation "measure length")
  fix p :: "u8 list" and x xa
  assume "p \<noteq> []" "xa = dropWhile (\<lambda>c. c \<noteq> byte_slash) p"
  then have "length (tl xa) \<le> length xa - 1 \<and> length xa \<le> length p" by (simp add: length_dropWhile_le)
  then show "(tl xa, p) \<in> measure length" using \<open>p \<noteq> []\<close> by (cases xa) auto
qed auto

declare tokens.simps [simp del]

datatype walk_result = Walk_found nat minix3_inode | Walk_missing "u8 list" bool nat minix3_inode | Walk_error

fun walk :: "(u8 list \<times> bool) list \<Rightarrow> nat \<Rightarrow> minix3_inode \<Rightarrow> 'd minix3 \<Rightarrow> walk_result \<times> 'd minix3" where
  "walk [] ino n fs = (Walk_found ino n, fs)"
| "walk ((t, is_last) # ts) ino n fs =
     (case minix3_lookup n t fs of
        (None, fs) \<Rightarrow> (Walk_missing t is_last ino n, fs)
      | (Some k, fs) \<Rightarrow>
          (case minix3_read_inode k fs of
             (None, fs) \<Rightarrow> (Walk_error, fs)
           | (Some m, fs) \<Rightarrow>
               if \<not> is_last \<and> \<not> MINIX3_ISDIR (i_mode m) then (Walk_error, fs)
               else if is_last then (Walk_found k m, fs)
               else walk ts k m fs))"

text \<open>The path of the parent and the name; both are cut to the buffers.\<close>

definition parse_parent_and_name :: "u8 list \<Rightarrow> u8 list \<times> u8 list" where
  "parse_parent_and_name path =
     (let p = skip_slash path in
      if byte_slash \<notin> set p then ([], take 59 p)
      else let name = rev (takeWhile (\<lambda>c. c \<noteq> byte_slash) (rev p)); parent = take (length p - length name - 1) p
        in (take (if length parent \<ge> 255 then 254 else length parent) parent, take 59 name))"

definition lookup_directory_by_path :: "u8 list \<Rightarrow> 'd minix3 \<Rightarrow> (nat \<times> minix3_inode) option \<times> 'd minix3" where
  "lookup_directory_by_path path fs =
     (case minix3_read_inode MINIX3_ROOT_INO fs of
        (None, fs) \<Rightarrow> (None, fs)
      | (Some r0, fs) \<Rightarrow>
          if path = [] \<or> path = [byte_slash] then (Some (MINIX3_ROOT_INO, r0), fs)
          else (case walk (tokens (take 255 (skip_slash path))) MINIX3_ROOT_INO r0 fs of
            (Walk_found ino n, fs) \<Rightarrow> (if MINIX3_ISDIR (i_mode n) then Some (ino, n) else None, fs)
          | (_, fs) \<Rightarrow> (None, fs)))"

section \<open>Open files\<close>

definition new_file :: "nat \<Rightarrow> minix3_inode \<Rightarrow> minix3_file" where
  "new_file ino n = \<lparr>mf_inode_num = ino, mf_inode = n, mf_offset = 0, mf_dir_pos = 0, mf_dirty = False\<rparr>"

text \<open>The creation of a file by \<^verbatim>\<open>open\<close>; errors in writing the parent and the bitmaps are not looked at.\<close>

definition create_file :: "nat \<Rightarrow> u32 \<Rightarrow> u8 list \<Rightarrow> nat \<Rightarrow> minix3_inode \<Rightarrow> 'd minix3 \<Rightarrow> minix3_file option \<times> 'd minix3" where
  "create_file now mode t dir_ino dir fs =
     (let perm = (if mode AND 0x1FF \<noteq> 0 then mode AND 0x1FF else 0x1A4) in
      case minix3_alloc_inode now (ucast (MINIX3_S_IFREG OR perm)) fs of
        (None, fs) \<Rightarrow> (None, fs)
      | (Some ino, fs) \<Rightarrow>
          (case minix3_add_dirent now dir t ino fs of (r, dir, fs) \<Rightarrow>
             if r < 0 then (None, snd (minix3_free_inode ino fs))
             else case minix3_write_inode dir_ino dir fs of (_, fs) \<Rightarrow>
               (case minix3_sync_bitmaps fs of (_, fs) \<Rightarrow>
                 (case minix3_read_inode ino fs of
                    (None, fs) \<Rightarrow> (None, fs)
                  | (Some n, fs) \<Rightarrow> (Some (new_file ino n), fs)))))"

definition minix3_vfs_open :: "nat \<Rightarrow> bool \<Rightarrow> u8 list \<Rightarrow> u32 \<Rightarrow> u32 \<Rightarrow> 'd minix3 \<Rightarrow> minix3_file option \<times> 'd minix3" where
  "minix3_vfs_open now mem path oflags mode fs =
     (if \<not> mem then (None, fs)
      else let filename = skip_slash path in
        case minix3_read_inode MINIX3_ROOT_INO fs of
          (None, fs) \<Rightarrow> (None, fs)
        | (Some r0, fs) \<Rightarrow>
            if filename = [] \<or> filename = dot_name then (Some (new_file MINIX3_ROOT_INO r0), fs)
            else (case walk (tokens (take 255 filename)) MINIX3_ROOT_INO r0 fs of
              (Walk_error, fs) \<Rightarrow> (None, fs)
            | (Walk_missing t is_last ino n, fs) \<Rightarrow>
                if is_last \<and> oflags AND O_CREAT \<noteq> 0 then create_file now mode t ino n fs else (None, fs)
            | (Walk_found ino n, fs) \<Rightarrow>
                let f = new_file ino n in
                case (if oflags AND O_TRUNC \<noteq> 0 \<and> MINIX3_ISREG (i_mode n)
                      then case minix3_truncate_file now n 0 fs of (r, n, fs) \<Rightarrow>
                        (if r < 0 then None else Some (f\<lparr>mf_inode := n, mf_dirty := True\<rparr>), fs)
                      else (Some f, fs)) of
                  (None, fs) \<Rightarrow> (None, fs)
                | (Some f, fs) \<Rightarrow> (Some (if oflags AND O_APPEND \<noteq> 0 then f\<lparr>mf_offset := i_size (mf_inode f)\<rparr> else f), fs)))"

definition minix3_vfs_close :: "minix3_file \<Rightarrow> 'd minix3 \<Rightarrow> int \<times> 'd minix3" where
  "minix3_vfs_close f fs =
     (0, if mf_dirty f then snd (minix3_sync_bitmaps (snd (minix3_write_inode (mf_inode_num f) (mf_inode f) fs))) else fs)"

definition minix3_vfs_read :: "minix3_file \<Rightarrow> nat \<Rightarrow> 'd minix3 \<Rightarrow> int \<times> u8 list \<times> minix3_file \<times> 'd minix3" where
  "minix3_vfs_read f count fs =
     (if \<not> MINIX3_ISREG (i_mode (mf_inode f)) then (-1, [], f, fs)
      else case minix3_read_file (mf_inode f) (mf_offset f) count fs of
        (r, out, fs) \<Rightarrow> (r, out, if r > 0 then f\<lparr>mf_offset := w32 (mf_offset f + nat r)\<rparr> else f, fs))"

definition minix3_vfs_write :: "nat \<Rightarrow> minix3_file \<Rightarrow> u8 list \<Rightarrow> 'd minix3 \<Rightarrow> int \<times> minix3_file \<times> 'd minix3" where
  "minix3_vfs_write now f bs fs =
     (if \<not> MINIX3_ISREG (i_mode (mf_inode f)) then (-1, f, fs)
      else case minix3_write_file now (mf_inode f) (mf_offset f) bs fs of
        (r, n, fs) \<Rightarrow> (r, let f = f\<lparr>mf_inode := n\<rparr> in if r > 0 then f\<lparr>mf_offset := w32 (mf_offset f + nat r), mf_dirty := True\<rparr> else f, fs))"

definition minix3_vfs_seek :: "minix3_file \<Rightarrow> int \<Rightarrow> int \<Rightarrow> (int \<times> nat) \<times> minix3_file" where
  "minix3_vfs_seek f off whence =
     (if whence \<noteq> 0 \<and> whence \<noteq> 1 \<and> whence \<noteq> 2 then ((-1, 0), f)
      else let target = (if whence = 0 then off
                         else if whence = 1 then wrap32 (int (mf_offset f) + off)
                         else wrap32 (int (i_size (mf_inode f)) + off)) in
        if target < 0 then ((-1, 0), f)
        else if MINIX3_ISDIR (i_mode (mf_inode f)) then ((0, nat target), f\<lparr>mf_dir_pos := nat target\<rparr>)
        else ((0, nat target), f\<lparr>mf_offset := nat target\<rparr>))"

definition minix3_vfs_truncate :: "nat \<Rightarrow> minix3_file \<Rightarrow> nat \<Rightarrow> 'd minix3 \<Rightarrow> int \<times> minix3_file \<times> 'd minix3" where
  "minix3_vfs_truncate now f len fs =
     (case minix3_truncate_file now (mf_inode f) len fs of (r, n, fs) \<Rightarrow>
        if r < 0 then (-1, f\<lparr>mf_inode := n\<rparr>, fs)
        else (0, f\<lparr>mf_inode := n, mf_dirty := True, mf_offset := (if mf_offset f > len then len else mf_offset f)\<rparr>, fs))"

section \<open>Attributes\<close>

definition dt_of :: "u16 \<Rightarrow> nat" where
  "dt_of m = (if MINIX3_ISDIR m then 2 else if MINIX3_ISREG m then 1 else if MINIX3_ISCHR m then 3
     else if MINIX3_ISBLK m then 4 else if MINIX3_ISLNK m then 5 else 0)"

text \<open>\<^verbatim>\<open>minix3_fill_stat\<close> leaves owner and group of the structure as they are.\<close>

definition minix3_fill_stat :: "minix3_inode \<Rightarrow> nat \<Rightarrow> file_stat \<Rightarrow> file_stat" where
  "minix3_fill_stat n ino st = st\<lparr>st_size := i_size n, st_inode := ino, st_ctime := i_ctime n, st_mtime := i_mtime n, st_mode := ucast (i_mode n),
     st_type := (if dt_of (i_mode n) = 0 \<and> MINIX3_ISFIFO (i_mode n) then 6 else dt_of (i_mode n))\<rparr>"

definition minix3_vfs_fstat :: "minix3_file \<Rightarrow> file_stat \<Rightarrow> int \<times> file_stat" where
  "minix3_vfs_fstat f st = (0, minix3_fill_stat (mf_inode f) (mf_inode_num f) st)"

definition minix3_vfs_stat :: "nat \<Rightarrow> bool \<Rightarrow> u8 list \<Rightarrow> 'd minix3 \<Rightarrow> file_stat option \<times> 'd minix3" where
  "minix3_vfs_stat now mem path fs =
     (case minix3_vfs_open now mem path 1 0 fs of
        (None, fs) \<Rightarrow> (None, fs)
      | (Some f, fs) \<Rightarrow> let n = mf_inode f in
          (Some \<lparr>st_type = dt_of (i_mode n), st_mode = ucast (i_mode n), st_uid = i_uid n, st_gid = i_gid n, st_size = i_size n,
             st_inode = mf_inode_num f, st_ctime = i_ctime n, st_mtime = i_mtime n\<rparr>, snd (minix3_vfs_close f fs)))"

text \<open>The functions that change the inode of a path: open, change, write, close.\<close>

definition change_path :: "nat \<Rightarrow> bool \<Rightarrow> u8 list \<Rightarrow> (minix3_inode \<Rightarrow> minix3_inode) \<Rightarrow> 'd minix3 \<Rightarrow> int \<times> 'd minix3" where
  "change_path now mem path g fs =
     (case minix3_vfs_open now mem path 1 0 fs of
        (None, fs) \<Rightarrow> (-1, fs)
      | (Some f, fs) \<Rightarrow>
          let f = f\<lparr>mf_inode := g (mf_inode f), mf_dirty := True\<rparr> in
          case minix3_write_inode (mf_inode_num f) (mf_inode f) fs of (r, fs) \<Rightarrow>
            (if r < 0 then -1 else 0, snd (minix3_vfs_close f fs)))"

definition change_file :: "(minix3_inode \<Rightarrow> minix3_inode) \<Rightarrow> minix3_file \<Rightarrow> 'd minix3 \<Rightarrow> int \<times> minix3_file \<times> 'd minix3" where
  "change_file g f fs =
     (let f = f\<lparr>mf_inode := g (mf_inode f), mf_dirty := True\<rparr> in
      case minix3_write_inode (mf_inode_num f) (mf_inode f) fs of (r, fs) \<Rightarrow> (r, f, fs))"

definition set_mode :: "u32 \<Rightarrow> minix3_inode \<Rightarrow> minix3_inode" where
  "set_mode mode n = n\<lparr>i_mode := (i_mode n AND 0xF000) OR ucast (mode AND 0x0FFF)\<rparr>"

definition set_owner :: "int \<Rightarrow> int \<Rightarrow> minix3_inode \<Rightarrow> minix3_inode" where
  "set_owner u g n =
     (let n = (if u \<ge> 0 then n\<lparr>i_uid := w16 (nat u)\<rparr> else n) in if g \<ge> 0 then n\<lparr>i_gid := w16 (nat g)\<rparr> else n)"

definition minix3_vfs_chmod :: "nat \<Rightarrow> bool \<Rightarrow> u8 list \<Rightarrow> u32 \<Rightarrow> 'd minix3 \<Rightarrow> int \<times> 'd minix3" where
  "minix3_vfs_chmod now mem path mode = change_path now mem path (set_mode mode)"

definition minix3_vfs_fchmod :: "minix3_file \<Rightarrow> u32 \<Rightarrow> 'd minix3 \<Rightarrow> int \<times> minix3_file \<times> 'd minix3" where
  "minix3_vfs_fchmod f mode = change_file (set_mode mode) f"

definition minix3_vfs_utime :: "nat \<Rightarrow> bool \<Rightarrow> u8 list \<Rightarrow> nat \<Rightarrow> nat \<Rightarrow> 'd minix3 \<Rightarrow> int \<times> 'd minix3" where
  "minix3_vfs_utime now mem path atime mtime = change_path now mem path (\<lambda>n. n\<lparr>i_atime := atime, i_mtime := mtime\<rparr>)"

definition minix3_vfs_chown :: "nat \<Rightarrow> bool \<Rightarrow> u8 list \<Rightarrow> int \<Rightarrow> int \<Rightarrow> 'd minix3 \<Rightarrow> int \<times> 'd minix3" where
  "minix3_vfs_chown now mem path u g = change_path now mem path (set_owner u g)"

definition minix3_vfs_fchown :: "minix3_file \<Rightarrow> int \<Rightarrow> int \<Rightarrow> 'd minix3 \<Rightarrow> int \<times> minix3_file \<times> 'd minix3" where
  "minix3_vfs_fchown f u g = change_file (set_owner u g) f"

record minix3_statfs =
  f_type :: nat
  f_bsize :: nat
  f_frsize :: nat
  f_blocks :: nat
  f_bfree :: nat
  f_bavail :: nat
  f_files :: nat
  f_ffree :: nat
  f_namelen :: nat
  f_fsid :: u32

definition free_bits :: "(nat \<Rightarrow> u8) \<Rightarrow> nat \<Rightarrow> nat" where
  "free_bits m k = length (filter (\<lambda>i. \<not> map_test m i) [0..<k])"

definition minix3_vfs_statfs :: "'d minix3 \<Rightarrow> minix3_statfs" where
  "minix3_vfs_statfs fs =
     \<lparr>f_type = s_magic (sb fs), f_bsize = block_size fs, f_frsize = block_size fs, f_blocks = s_zones (sb fs),
      f_bfree = free_bits (zone_bitmap fs) (s_zones (sb fs)), f_bavail = free_bits (zone_bitmap fs) (s_zones (sb fs)),
      f_files = s_ninodes (sb fs), f_ffree = free_bits (inode_bitmap fs) (s_ninodes (sb fs)),
      f_namelen = MINIX3_NAME_LEN, f_fsid = push_bit 16 (of_int (minix3.device_id fs)) OR of_int (minix3.partition_id fs)\<rparr>"

section \<open>Reading a directory\<close>

record minix3_entry =
  d_name :: "u8 list"
  d_inode :: nat
  d_type :: nat

text \<open>The name is a string of the block's bytes; it is not cut at the end of the field.\<close>

definition entry_name :: "u8 list \<Rightarrow> nat \<Rightarrow> u8 list" where
  "entry_name buf i = take 255 (takeWhile (\<lambda>c. c \<noteq> 0) (drop (64 * i + 4) buf))"

text \<open>The loop of \<^verbatim>\<open>readdir\<close> over the entries from the position on; the last component is the new position.\<close>

fun readdir_loop :: "minix3_inode \<Rightarrow> nat list \<Rightarrow> nat \<Rightarrow> 'd minix3 \<Rightarrow> (int \<times> minix3_entry option \<times> nat) \<times> 'd minix3" where
  "readdir_loop n [] end_pos fs = ((0, None, end_pos), fs)"
| "readdir_loop n (pos # ps) end_pos fs =
     (case minix3_bmap n (pos div (block_size fs div 64)) fs of
        (None, fs) \<Rightarrow> ((-1, None, pos), fs)
      | (Some z, fs) \<Rightarrow>
          if z = 0 then readdir_loop n ps end_pos fs
          else case read_block z fs of (ok, buf, fs) \<Rightarrow>
            if \<not> ok then ((-1, None, pos), fs)
            else let i = pos mod (block_size fs div 64); ino = de_inode (dirent_at buf i) in
              if ino = 0 then readdir_loop n ps end_pos fs
              else case minix3_read_inode ino fs of (m, fs) \<Rightarrow>
                ((1, Some \<lparr>d_name = entry_name buf i, d_inode = ino, d_type = (case m of Some k \<Rightarrow> dt_of (i_mode k) | None \<Rightarrow> 0)\<rparr>, pos + 1), fs))"

definition minix3_vfs_readdir :: "minix3_file \<Rightarrow> 'd minix3 \<Rightarrow> int \<times> minix3_entry option \<times> minix3_file \<times> 'd minix3" where
  "minix3_vfs_readdir f fs =
     (if \<not> MINIX3_ISDIR (i_mode (mf_inode f)) then (-1, None, f, fs)
      else let total = i_size (mf_inode f) div MINIX3_DIRENT_SIZE in
        case readdir_loop (mf_inode f) [mf_dir_pos f..<total] (max (mf_dir_pos f) total) fs of
          ((r, e, pos), fs) \<Rightarrow> (r, e, f\<lparr>mf_dir_pos := pos\<rparr>, fs))"

section \<open>Removing\<close>

text \<open>The end that the functions share: the parent is written and the bitmaps.\<close>

definition finish_parent :: "nat \<Rightarrow> minix3_inode \<Rightarrow> 'd minix3 \<Rightarrow> int \<times> 'd minix3" where
  "finish_parent parent_ino parent fs =
     (case minix3_write_inode parent_ino parent fs of (r, fs) \<Rightarrow> if r < 0 then (-1, fs) else (0, snd (minix3_sync_bitmaps fs)))"

definition release_link :: "nat \<Rightarrow> nat \<Rightarrow> minix3_inode \<Rightarrow> 'd minix3 \<Rightarrow> bool \<times> 'd minix3" where
  "release_link now ino n fs =
     (if i_nlinks n = 0 then
        case (if MINIX3_ISREG (i_mode n) \<or> MINIX3_ISLNK (i_mode n) then minix3_truncate_file now n 0 fs else (0, n, fs)) of
          (r, _, fs) \<Rightarrow> if r < 0 then (False, fs) else (case minix3_free_inode ino fs of (r, fs) \<Rightarrow> (r \<ge> 0, fs))
      else case minix3_write_inode ino n fs of (r, fs) \<Rightarrow> (r \<ge> 0, fs))"

definition minix3_vfs_unlink :: "nat \<Rightarrow> u8 list \<Rightarrow> 'd minix3 \<Rightarrow> int \<times> 'd minix3" where
  "minix3_vfs_unlink now path fs =
     (case parse_parent_and_name path of (parent_path, name) \<Rightarrow>
      case lookup_directory_by_path parent_path fs of
        (None, fs) \<Rightarrow> (-1, fs)
      | (Some (parent_ino, parent), fs) \<Rightarrow>
      case minix3_lookup parent name fs of
        (None, fs) \<Rightarrow> (-1, fs)
      | (Some ino, fs) \<Rightarrow>
      case minix3_read_inode ino fs of
        (None, fs) \<Rightarrow> (-1, fs)
      | (Some n, fs) \<Rightarrow>
          if MINIX3_ISDIR (i_mode n) then (-1, fs)
          else case release_link now ino (drop_link n) fs of (ok, fs) \<Rightarrow>
            if \<not> ok then (-1, fs)
            else case minix3_remove_dirent now parent name fs of (r, parent, fs) \<Rightarrow>
              if r < 0 then (-1, fs) else finish_parent parent_ino parent fs)"

text \<open>The search for an entry that keeps a directory from being removed; an error in the block map is passed over.\<close>

fun dir_is_empty :: "minix3_inode \<Rightarrow> nat list \<Rightarrow> 'd minix3 \<Rightarrow> bool \<times> 'd minix3" where
  "dir_is_empty n [] fs = (True, fs)"
| "dir_is_empty n (b # bs) fs =
     (case minix3_bmap n b fs of
        (None, fs) \<Rightarrow> dir_is_empty n bs fs
      | (Some z, fs) \<Rightarrow>
          if z = 0 then dir_is_empty n bs fs
          else case read_block z fs of (ok, buf, fs) \<Rightarrow>
            if \<not> ok then (False, fs)
            else if \<exists>e \<in> set (map (dirent_at buf) [0..<block_size fs div 64]).
                de_inode e \<noteq> 0 \<and> takeWhile (\<lambda>c. c \<noteq> 0) (de_name e) \<notin> {dot_name, dotdot_name} then (False, fs)
            else dir_is_empty n bs fs)"

text \<open>The zones of a removed directory, up to the first hole, and its inode.\<close>

definition free_dir :: "nat \<Rightarrow> minix3_inode \<Rightarrow> 'd minix3 \<Rightarrow> 'd minix3" where
  "free_dir ino n fs =
     snd (minix3_free_inode ino
       (fold (\<lambda>z fs. snd (minix3_free_zone z fs)) (takeWhile (\<lambda>z. z \<noteq> 0) (take MINIX3_DIRECT_ZONES (i_zone n))) fs))"

definition minix3_vfs_rmdir :: "nat \<Rightarrow> u8 list \<Rightarrow> 'd minix3 \<Rightarrow> int \<times> 'd minix3" where
  "minix3_vfs_rmdir now path fs =
     (case parse_parent_and_name path of (parent_path, name) \<Rightarrow>
      case lookup_directory_by_path parent_path fs of
        (None, fs) \<Rightarrow> (-1, fs)
      | (Some (parent_ino, parent), fs) \<Rightarrow>
      case minix3_lookup parent name fs of
        (None, fs) \<Rightarrow> (-1, fs)
      | (Some ino, fs) \<Rightarrow>
      case minix3_read_inode ino fs of
        (None, fs) \<Rightarrow> (-1, fs)
      | (Some n, fs) \<Rightarrow>
          if \<not> MINIX3_ISDIR (i_mode n) then (-1, fs)
          else case dir_is_empty n [0..<dir_blocks n fs] fs of (ok, fs) \<Rightarrow>
            if \<not> ok then (-1, fs)
            else case minix3_remove_dirent now parent name (free_dir ino n fs) of (_, parent, fs) \<Rightarrow>
              (0, snd (minix3_sync_bitmaps (snd (minix3_write_inode parent_ino (drop_link parent) fs)))))"

section \<open>Making entries\<close>

definition bad_name :: "u8 list \<Rightarrow> bool" where
  "bad_name name \<longleftrightarrow> name = [] \<or> name = dot_name \<or> name = dotdot_name \<or> byte_slash \<in> set name"

text \<open>The first block of a directory.\<close>

definition dot_block :: "nat \<Rightarrow> nat \<Rightarrow> nat \<Rightarrow> u8 list" where
  "dot_block bsize ino parent_ino =
     put_at 64 (dirent_bytes \<lparr>de_inode = parent_ino, de_name = name_field dotdot_name\<rparr>)
       (put_at 0 (dirent_bytes \<lparr>de_inode = ino, de_name = name_field dot_name\<rparr>) (replicate bsize 0))"

text \<open>The new directory without its entry in the parent: the inode and its zone, or an error after which both are free.\<close>

definition make_dir :: "nat \<Rightarrow> u32 \<Rightarrow> nat \<Rightarrow> 'd minix3 \<Rightarrow> (nat \<times> nat) option \<times> 'd minix3" where
  "make_dir now mode parent_ino fs =
     (case minix3_alloc_inode now (ucast (MINIX3_S_IFDIR OR (mode AND 0x1FF))) fs of
        (None, fs) \<Rightarrow> (None, fs)
      | (Some ino, fs) \<Rightarrow>
      case minix3_read_inode ino fs of
        (None, fs) \<Rightarrow> (None, snd (minix3_free_inode ino fs))
      | (Some n, fs) \<Rightarrow>
      case minix3_alloc_zone fs of
        (None, fs) \<Rightarrow> (None, snd (minix3_free_inode ino fs))
      | (Some z, fs) \<Rightarrow>
          let n = n\<lparr>i_zone := (i_zone n)[0 := z], i_size := block_size fs, i_nlinks := 2\<rparr>;
              undo = (\<lambda>fs. snd (minix3_free_inode ino (snd (minix3_free_zone z fs)))) in
          case write_block z (dot_block (block_size fs) ino parent_ino) fs of (ok, fs) \<Rightarrow>
            if \<not> ok then (None, undo fs)
            else case minix3_write_inode ino n fs of (r, fs) \<Rightarrow> if r < 0 then (None, undo fs) else (Some (ino, z), fs))"

definition minix3_vfs_mkdir :: "nat \<Rightarrow> u8 list \<Rightarrow> u32 \<Rightarrow> 'd minix3 \<Rightarrow> int \<times> 'd minix3" where
  "minix3_vfs_mkdir now path mode fs =
     (case parse_parent_and_name path of (parent_path, name) \<Rightarrow>
      if bad_name name then (-1, fs)
      else case lookup_directory_by_path parent_path fs of
        (None, fs) \<Rightarrow> (-1, fs)
      | (Some (parent_ino, parent), fs) \<Rightarrow>
          if \<not> MINIX3_ISDIR (i_mode parent) then (-1, fs)
          else case minix3_lookup parent name fs of
            (Some _, fs) \<Rightarrow> (-1, fs)
          | (None, fs) \<Rightarrow>
          case make_dir now mode parent_ino fs of
            (None, fs) \<Rightarrow> (-1, fs)
          | (Some (ino, z), fs) \<Rightarrow>
              case minix3_add_dirent now parent name ino fs of (r, parent, fs) \<Rightarrow>
                if r < 0 then (-1, snd (minix3_free_inode ino (snd (minix3_free_zone z fs))))
                else finish_parent parent_ino (add_links 1 parent) fs)"

definition minix3_vfs_link :: "nat \<Rightarrow> bool \<Rightarrow> u8 list \<Rightarrow> u8 list \<Rightarrow> 'd minix3 \<Rightarrow> int \<times> 'd minix3" where
  "minix3_vfs_link now mem old_path new_path fs =
     (case minix3_vfs_open now mem old_path 1 0 fs of
        (None, fs) \<Rightarrow> (-1, fs)
      | (Some f, fs) \<Rightarrow>
          let shut = (\<lambda>f fs. (-1, snd (minix3_vfs_close f fs))) in
          if MINIX3_ISDIR (i_mode (mf_inode f)) then shut f fs
          else case parse_parent_and_name new_path of (parent_path, name) \<Rightarrow>
            if bad_name name then shut f fs
            else case lookup_directory_by_path parent_path fs of
              (None, fs) \<Rightarrow> shut f fs
            | (Some (parent_ino, parent), fs) \<Rightarrow>
            case minix3_lookup parent name fs of
              (Some _, fs) \<Rightarrow> shut f fs
            | (None, fs) \<Rightarrow>
                case minix3_add_dirent now parent name (mf_inode_num f) fs of (r, parent, fs) \<Rightarrow>
                  if r < 0 then shut f fs
                  else let f = f\<lparr>mf_inode := add_links 1 (mf_inode f)\<rparr> in
                    case minix3_write_inode (mf_inode_num f) (mf_inode f) fs of (r, fs) \<Rightarrow>
                      if r < 0 then shut f fs
                      else finish_parent parent_ino parent (snd (minix3_vfs_close f fs)))"

definition minix3_vfs_symlink :: "nat \<Rightarrow> u8 list \<Rightarrow> u8 list \<Rightarrow> 'd minix3 \<Rightarrow> int \<times> 'd minix3" where
  "minix3_vfs_symlink now tgt new_path fs =
     (case parse_parent_and_name new_path of (parent_path, name) \<Rightarrow>
      if bad_name name then (-1, fs)
      else case lookup_directory_by_path parent_path fs of
        (None, fs) \<Rightarrow> (-1, fs)
      | (Some (parent_ino, parent), fs) \<Rightarrow>
      case minix3_lookup parent name fs of
        (Some _, fs) \<Rightarrow> (-1, fs)
      | (None, fs) \<Rightarrow>
          if length tgt > 512 then (-1, fs)
          else case minix3_alloc_inode now (ucast (MINIX3_S_IFLNK OR 0x1FF)) fs of
            (None, fs) \<Rightarrow> (-1, fs)
          | (Some ino, fs) \<Rightarrow>
          case minix3_read_inode ino fs of
            (None, fs) \<Rightarrow> (-1, snd (minix3_free_inode ino fs))
          | (Some n, fs) \<Rightarrow>
              case minix3_write_file now (n\<lparr>i_size := length tgt\<rparr>) 0 tgt fs of (r, n, fs) \<Rightarrow>
                if r \<noteq> int (length tgt) then
                  case minix3_truncate_file now n 0 fs of (_, _, fs) \<Rightarrow> (-1, snd (minix3_free_inode ino fs))
                else case minix3_write_inode ino n fs of (r, fs) \<Rightarrow>
                  if r < 0 then (-1, snd (minix3_free_inode ino fs))
                  else case minix3_add_dirent now parent name ino fs of (r, parent, fs) \<Rightarrow>
                    if r < 0 then
                      case minix3_remove_dirent now parent name fs of (_, _, fs) \<Rightarrow> (-1, snd (minix3_free_inode ino fs))
                    else finish_parent parent_ino parent fs)"

definition minix3_vfs_readlink :: "nat \<Rightarrow> bool \<Rightarrow> u8 list \<Rightarrow> nat \<Rightarrow> 'd minix3 \<Rightarrow> (int \<times> u8 list) \<times> 'd minix3" where
  "minix3_vfs_readlink now mem path bufsize fs =
     (if bufsize = 0 then ((-1, []), fs)
      else case minix3_vfs_open now mem path 1 0 fs of
        (None, fs) \<Rightarrow> ((-1, []), fs)
      | (Some f, fs) \<Rightarrow>
          if \<not> MINIX3_ISLNK (i_mode (mf_inode f)) then ((-1, []), snd (minix3_vfs_close f fs))
          else let len = w32 (if i_size (mf_inode f) \<ge> bufsize then bufsize - 1 else i_size (mf_inode f)) in
            case minix3_read_file (mf_inode f) 0 len fs of (r, out, fs) \<Rightarrow>
              (if r < 0 then (-1, out) else (to_int len, out), snd (minix3_vfs_close f fs)))"

definition minix3_vfs_mknod :: "nat \<Rightarrow> u8 list \<Rightarrow> u32 \<Rightarrow> nat \<Rightarrow> 'd minix3 \<Rightarrow> int \<times> 'd minix3" where
  "minix3_vfs_mknod now path mode dev fs =
     (let type = mode AND 0xF000 in
      if type \<noteq> MINIX3_S_IFCHR \<and> type \<noteq> MINIX3_S_IFBLK \<and> type \<noteq> MINIX3_S_IFIFO then (-1, fs)
      else case parse_parent_and_name path of (parent_path, name) \<Rightarrow>
      if bad_name name then (-1, fs)
      else case lookup_directory_by_path parent_path fs of
        (None, fs) \<Rightarrow> (-1, fs)
      | (Some (parent_ino, parent), fs) \<Rightarrow>
      case minix3_lookup parent name fs of
        (Some _, fs) \<Rightarrow> (-1, fs)
      | (None, fs) \<Rightarrow>
      case minix3_alloc_inode now (ucast (type OR (mode AND 0x1FF))) fs of
        (None, fs) \<Rightarrow> (-1, fs)
      | (Some ino, fs) \<Rightarrow>
      case minix3_read_inode ino fs of
        (None, fs) \<Rightarrow> (-1, snd (minix3_free_inode ino fs))
      | (Some n, fs) \<Rightarrow>
          case minix3_write_inode ino (n\<lparr>i_zone := (i_zone n)[0 := if type = MINIX3_S_IFIFO then 0 else dev]\<rparr>) fs of (r, fs) \<Rightarrow>
            if r < 0 then (-1, snd (minix3_free_inode ino fs))
            else case minix3_add_dirent now parent name ino fs of (r, parent, fs) \<Rightarrow>
              if r < 0 then (-1, snd (minix3_free_inode ino fs)) else finish_parent parent_ino parent fs)"

section \<open>Renaming\<close>

definition update_dotdot :: "nat \<Rightarrow> nat \<Rightarrow> 'd minix3 \<Rightarrow> int \<times> 'd minix3" where
  "update_dotdot ino new_parent_ino fs =
     (case minix3_read_inode ino fs of
        (None, fs) \<Rightarrow> (-1, fs)
      | (Some n, fs) \<Rightarrow>
      case minix3_bmap n 0 fs of
        (None, fs) \<Rightarrow> (-1, fs)
      | (Some z, fs) \<Rightarrow>
          if z = 0 then (-1, fs)
          else case read_block z fs of (ok, buf, fs) \<Rightarrow>
            if \<not> ok then (-1, fs)
            else let e = dirent_at buf 1 in
              if de_inode e \<noteq> 0 \<and> takeWhile (\<lambda>c. c \<noteq> 0) (de_name e) = dotdot_name then
                (case write_block z (put_at 64 (bytes32 new_parent_ino) buf) fs of (ok, fs) \<Rightarrow> (if ok then 0 else -1, fs))
              else (-1, fs))"

text \<open>The target that the new name has already: what it holds is freed, however many links it has.\<close>

definition free_target :: "nat \<Rightarrow> nat \<Rightarrow> minix3_inode \<Rightarrow> 'd minix3 \<Rightarrow> bool \<times> 'd minix3" where
  "free_target now ino n fs =
     (if MINIX3_ISDIR (i_mode n) then
        case dir_is_empty n [0..<dir_blocks n fs] fs of (ok, fs) \<Rightarrow> if \<not> ok then (False, fs) else (True, free_dir ino n fs)
      else case minix3_truncate_file now n 0 fs of (_, _, fs) \<Rightarrow> (True, snd (minix3_free_inode ino fs)))"

definition replace_target :: "nat \<Rightarrow> u8 list \<Rightarrow> minix3_inode \<Rightarrow> 'd minix3 \<Rightarrow> bool \<times> minix3_inode \<times> 'd minix3" where
  "replace_target now name parent fs =
     (case minix3_lookup parent name fs of
        (None, fs) \<Rightarrow> (True, parent, fs)
      | (Some ino, fs) \<Rightarrow>
      case minix3_read_inode ino fs of
        (None, fs) \<Rightarrow> (False, parent, fs)
      | (Some n, fs) \<Rightarrow>
          case free_target now ino n fs of (ok, fs) \<Rightarrow>
            if \<not> ok then (False, parent, fs)
            else case minix3_remove_dirent now parent name fs of (_, parent, fs) \<Rightarrow> (True, parent, fs))"

definition minix3_vfs_rename :: "nat \<Rightarrow> u8 list \<Rightarrow> u8 list \<Rightarrow> 'd minix3 \<Rightarrow> int \<times> 'd minix3" where
  "minix3_vfs_rename now old_path new_path fs =
     (case parse_parent_and_name old_path of (old_parent_path, old_name) \<Rightarrow>
      case parse_parent_and_name new_path of (new_parent_path, new_name) \<Rightarrow>
      case lookup_directory_by_path old_parent_path fs of
        (None, fs) \<Rightarrow> (-1, fs)
      | (Some (old_parent_ino, old_parent), fs) \<Rightarrow>
      case lookup_directory_by_path new_parent_path fs of
        (None, fs) \<Rightarrow> (-1, fs)
      | (Some (new_parent_ino, new_parent), fs) \<Rightarrow>
      case minix3_lookup old_parent old_name fs of
        (None, fs) \<Rightarrow> (-1, fs)
      | (Some ino, fs) \<Rightarrow>
      case minix3_read_inode ino fs of
        (None, fs) \<Rightarrow> (-1, fs)
      | (Some n, fs) \<Rightarrow>
          case replace_target now new_name new_parent fs of (ok, new_parent, fs) \<Rightarrow>
            if \<not> ok then (-1, fs)
            else case minix3_add_dirent now new_parent new_name ino fs of (r, new_parent, fs) \<Rightarrow>
            if r < 0 then (-1, fs)
            else case minix3_remove_dirent now old_parent old_name fs of (r, old_parent, fs) \<Rightarrow>
            if r < 0 then (-1, fs)
            else let moved = MINIX3_ISDIR (i_mode n) \<and> old_parent_ino \<noteq> new_parent_ino;
                fs = (if moved then snd (update_dotdot ino new_parent_ino fs) else fs);
                old_parent = (if moved then drop_link old_parent else old_parent);
                new_parent = (if moved then add_links 1 new_parent else new_parent) in
              case minix3_write_inode old_parent_ino old_parent fs of (r, fs) \<Rightarrow>
                if r < 0 then (-1, fs)
                else case minix3_write_inode new_parent_ino new_parent fs of (r, fs) \<Rightarrow>
                  if r < 0 then (-1, fs)
                  else case minix3_write_inode ino (n\<lparr>i_ctime := now\<rparr>) fs of (_, fs) \<Rightarrow>
                    (0, snd (minix3_sync_bitmaps fs)))"

section \<open>The path of an open file\<close>

text \<open>The name of an inode in the blocks of a directory; an error ends the search in it.\<close>

fun name_in_dir :: "nat \<Rightarrow> minix3_inode \<Rightarrow> nat list \<Rightarrow> 'd minix3 \<Rightarrow> u8 list option \<times> 'd minix3" where
  "name_in_dir ino n [] fs = (None, fs)"
| "name_in_dir ino n (b # bs) fs =
     (case minix3_bmap n b fs of
        (None, fs) \<Rightarrow> (None, fs)
      | (Some z, fs) \<Rightarrow>
          if z = 0 then name_in_dir ino n bs fs
          else case read_block z fs of (ok, buf, fs) \<Rightarrow>
            if \<not> ok then (None, fs)
            else case List.find (\<lambda>e. de_inode e = ino) (map (dirent_at buf) [0..<block_size fs div 64]) of
              Some e \<Rightarrow> (Some (takeWhile (\<lambda>c. c \<noteq> 0) (de_name e)), fs)
            | None \<Rightarrow> name_in_dir ino n bs fs)"

text \<open>The first inode that is a directory with an entry for \<open>ino\<close>.\<close>

fun find_parent :: "nat \<Rightarrow> nat list \<Rightarrow> 'd minix3 \<Rightarrow> (nat \<times> u8 list) option \<times> 'd minix3" where
  "find_parent ino [] fs = (None, fs)"
| "find_parent ino (d # ds) fs =
     (if d = ino then find_parent ino ds fs
      else case minix3_read_inode d fs of
        (None, fs) \<Rightarrow> find_parent ino ds fs
      | (Some n, fs) \<Rightarrow>
          if \<not> MINIX3_ISDIR (i_mode n) then find_parent ino ds fs
          else case name_in_dir ino n [0..<dir_blocks n fs] fs of
            (Some name, fs) \<Rightarrow> (Some (d, name), fs)
          | (None, fs) \<Rightarrow> find_parent ino ds fs)"

text \<open>The climb to the root: every step puts at least two bytes in front of a buffer of 256.\<close>

function climb :: "nat \<Rightarrow> u8 list \<Rightarrow> 'd minix3 \<Rightarrow> u8 list option \<times> 'd minix3" where
  "climb ino path fs =
     (if ino = MINIX3_ROOT_INO then (Some path, fs)
      else case find_parent ino [1..<s_ninodes (sb fs) + 1] fs of
        (None, fs) \<Rightarrow> (None, fs)
      | (Some (parent_ino, name), fs) \<Rightarrow>
          if name = [] \<or> length path + length name + 1 \<ge> 256 then (None, fs)
          else climb parent_ino (byte_slash # name @ path) fs)"
  by pat_completeness auto
termination by (relation "measure (\<lambda>(_, path, _). 256 - length path)") auto

declare climb.simps [simp del]

text \<open>The copy into the caller's buffer takes one byte behind the path, which nothing has written: \<open>junk\<close>.\<close>

definition minix3_vfs_getpath :: "u8 \<Rightarrow> minix3_file \<Rightarrow> nat \<Rightarrow> 'd minix3 \<Rightarrow> u8 list option \<times> 'd minix3" where
  "minix3_vfs_getpath junk f bufsize fs =
     (if mf_inode_num f = MINIX3_ROOT_INO then (if bufsize < 2 then None else Some [byte_slash, 0], fs)
      else case climb (mf_inode_num f) [] fs of
        (None, fs) \<Rightarrow> (None, fs)
      | (Some path, fs) \<Rightarrow>
          if path = [] then (Some [byte_slash, 0], fs)
          else if length path + 1 > bufsize then (None, fs)
          else (Some (path @ [junk]), fs))"

end
