(* ===== verification/Minix3_Path.thy ===== *)
theory Minix3_Path
  imports Minix3_Vfs
begin

text \<open>
  Path resolution of \<open>Minix3_Vfs\<close> against a definition that folds over the names of the path, and the operations that only read.
\<close>

section \<open>States with the same disk\<close>

definition same_disk :: "('d \<Rightarrow> block_key \<Rightarrow> block) \<Rightarrow> 'd minix3 \<Rightarrow> 'd minix3 \<Rightarrow> bool" where
  "same_disk C fs fs' \<longleftrightarrow> healthy C fs' \<and> disk C fs' = disk C fs \<and> fs' = fs\<lparr>blk := blk fs'\<rparr>"

lemma same_disk_refl: "healthy C fs \<Longrightarrow> same_disk C fs fs"
  by (simp add: same_disk_def)

lemma same_disk_trans: "same_disk C a b \<Longrightarrow> same_disk C b c \<Longrightarrow> same_disk C a c"
  unfolding same_disk_def by (metis blk_trans)

lemma same_disk_healthy: "same_disk C fs fs' \<Longrightarrow> healthy C fs'"
  by (simp add: same_disk_def)

lemma same_disk_sizes:
  assumes "same_disk C fs fs'"
  shows "block_size fs' = block_size fs" "sb fs' = sb fs" "dir_blocks n fs' = dir_blocks n fs" "disk_inode C fs' = disk_inode C fs"
    "dir_entries C fs' n = dir_entries C fs n"
proof -
  have d: "disk C fs' = disk C fs" and st: "fs' = fs\<lparr>blk := blk fs'\<rparr>" using assms by (simp_all add: same_disk_def)
  show "block_size fs' = block_size fs" by (subst st) simp
  show "sb fs' = sb fs" by (subst st) simp
  show db: "dir_blocks n fs' = dir_blocks n fs" by (subst st) (simp add: dir_blocks_def)
  have "inode_place k fs' = inode_place k fs" for k by (subst st) (simp add: inode_place_def)
  then show "disk_inode C fs' = disk_inode C fs" by (simp add: disk_inode_def d fun_eq_iff)
  show "dir_entries C fs' n = dir_entries C fs n" unfolding dir_entries_def db block_entries_blk [OF d st] ..
qed

lemma read_block_same:
  assumes "healthy C fs" "read_block b fs = (ok, buf, fs')"
  shows "ok \<and> buf = disk C fs b \<and> same_disk C fs fs'"
  unfolding same_disk_def by (intro conjI read_block_ok [OF assms])

lemma bmap_same:
  assumes "healthy C fs" "minix3_bmap n b fs = (r, fs')"
  shows "same_disk C fs fs'"
  unfolding same_disk_def by (intro conjI bmap_ok(2-4) [OF assms])

lemma read_inode_same:
  assumes "healthy C fs" "minix3_read_inode ino fs = (r, fs')"
  shows "r = (if 0 < ino \<and> ino \<le> s_ninodes (sb fs) then Some (disk_inode C fs ino) else None) \<and> same_disk C fs fs'"
proof -
  obtain b p where bp: "inode_place ino fs = (b, p)" by fastforce
  obtain ok buf fs1 where r: "read_block b fs = (ok, buf, fs1)" by (metis prod_cases3)
  show ?thesis using read_block_same [OF assms(1) r] assms
    by (auto simp: minix3_read_inode_def disk_inode_def bp r same_disk_refl split: if_splits)
qed

lemma find_dirent_same: "healthy C fs \<Longrightarrow> find_dirent P n bs fs = (r, fs') \<Longrightarrow> same_disk C fs fs'"
proof (induction bs arbitrary: fs)
  case (Cons b bs)
  obtain r1 fs1 where rd: "minix3_read_dir_block n b fs = (r1, fs1)" by fastforce
  obtain z fs2 where bm: "minix3_bmap n b fs = (z, fs2)" by fastforce
  note B = bmap_same [OF Cons.prems(1) bm]
  have s: "same_disk C fs fs1"
  proof (cases "\<exists>k. z = Some k \<and> k \<noteq> 0")
    case True
    then obtain k where k: "z = Some k" "k \<noteq> 0" by blast
    obtain ok buf fs3 where r: "read_block k fs2 = (ok, buf, fs3)" by (metis prod_cases3)
    have "same_disk C fs2 fs3" using read_block_same [OF same_disk_healthy [OF B] r] by blast
    moreover have "fs1 = fs3" using rd k by (simp add: minix3_read_dir_block_def bm r split: if_splits)
    ultimately show ?thesis using same_disk_trans [OF B] by simp
  qed (use rd B in \<open>auto simp: minix3_read_dir_block_def bm split: option.splits\<close>)
  have "same_disk C fs1 fs'" if "find_dirent P n bs fs1 = (r, fs')" by (rule Cons.IH [OF same_disk_healthy [OF s] that])
  then show ?case using Cons.prems(2) s same_disk_trans [OF s] by (simp add: rd split: option.splits)
qed (simp add: same_disk_refl)

text \<open>The directories of the disk are not larger than the block map reaches.\<close>

definition dirs_reach :: "('d \<Rightarrow> block_key \<Rightarrow> block) \<Rightarrow> 'd minix3 \<Rightarrow> bool" where
  "dirs_reach C fs \<longleftrightarrow> (\<forall>k. 0 < k \<and> k \<le> s_ninodes (sb fs) \<and> MINIX3_ISDIR (i_mode (disk_inode C fs k)) \<longrightarrow>
     dir_blocks (disk_inode C fs k) fs \<le> max_blocks (pointers fs))"

lemma dirs_reach_same: "same_disk C fs fs' \<Longrightarrow> dirs_reach C fs \<Longrightarrow> dirs_reach C fs'"
  by (simp add: dirs_reach_def same_disk_sizes)

definition dir_find :: "('d \<Rightarrow> block_key \<Rightarrow> block) \<Rightarrow> 'd minix3 \<Rightarrow> minix3_inode \<Rightarrow> u8 list \<Rightarrow> nat option" where
  "dir_find C fs n t = (if MINIX3_ISDIR (i_mode n) then map_option de_inode (find (wanted t) (dir_entries C fs n)) else None)"

lemma lookup_same:
  assumes "healthy C fs" "MINIX3_ISDIR (i_mode n) \<Longrightarrow> dir_blocks n fs \<le> max_blocks (pointers fs)" "minix3_lookup n t fs = (r, fs')"
  shows "r = dir_find C fs n t \<and> same_disk C fs fs'"
proof (cases "MINIX3_ISDIR (i_mode n)")
  case True
  obtain q fs1 where f: "find_dirent (\<lambda>e. de_inode e \<noteq> 0 \<and> same_name (de_name e) t) n [0..<dir_blocks n fs] fs = (q, fs1)" by fastforce
  have "fs' = fs1" using assms(3) True f by (auto simp: minix3_lookup_def split: option.splits)
  then show ?thesis using find_dirent_same [OF assms(1) f] lookup_ok [OF assms(1) True assms(2) [OF True], of t] assms(3) True by (simp add: dir_find_def)
qed (use assms same_disk_refl in \<open>simp add: minix3_lookup_def dir_find_def\<close>)

section \<open>Resolving paths\<close>

text \<open>What a path means: its names between slashes, each looked up in the directory before it.\<close>

fun split_path :: "u8 list \<Rightarrow> u8 list list" where
  "split_path [] = [[]]"
| "split_path (c # cs) = (if c = 47 then [] # split_path cs else (c # hd (split_path cs)) # tl (split_path cs))"

definition path_names :: "u8 list \<Rightarrow> u8 list list" where
  "path_names p = filter (\<lambda>t. t \<noteq> []) (split_path p)"

fun resolve :: "('d \<Rightarrow> block_key \<Rightarrow> block) \<Rightarrow> 'd minix3 \<Rightarrow> u8 list list \<Rightarrow> nat \<times> minix3_inode \<Rightarrow> (nat \<times> minix3_inode) option" where
  "resolve C fs [] x = Some x"
| "resolve C fs (t # ts) (ino, n) =
     (case dir_find C fs n t of
        None \<Rightarrow> None
      | Some k \<Rightarrow> if 0 < k \<and> k \<le> s_ninodes (sb fs) then resolve C fs ts (k, disk_inode C fs k) else None)"

text \<open>A path that ends with a slash names a directory.\<close>

definition path_target :: "('d \<Rightarrow> block_key \<Rightarrow> block) \<Rightarrow> 'd minix3 \<Rightarrow> u8 list \<Rightarrow> (nat \<times> minix3_inode) option" where
  "path_target C fs p =
     (case resolve C fs (path_names p) (MINIX3_ROOT_INO, disk_inode C fs MINIX3_ROOT_INO) of
        None \<Rightarrow> None
      | Some (ino, n) \<Rightarrow> if path_names p \<noteq> [] \<and> last p = 47 \<and> \<not> MINIX3_ISDIR (i_mode n) then None else Some (ino, n))"

lemma split_path_step:
  "split_path p = takeWhile (\<lambda>c. c \<noteq> 47) p # (case dropWhile (\<lambda>c. c \<noteq> 47) p of [] \<Rightarrow> [] | _ # r \<Rightarrow> split_path r)"
  by (induction p) auto

lemma path_names_empty [simp]: "path_names [] = []"
  by (simp add: path_names_def)

text \<open>The components that the code's loop comes to are the names; the flag is set on the last one if no slash follows.\<close>

lemma tokens_names: "map fst (tokens p) = path_names p"
proof (induction p rule: tokens.induct)
  case (1 p)
  let ?t = "takeWhile (\<lambda>c. c \<noteq> 47) p" and ?r = "dropWhile (\<lambda>c. c \<noteq> 47) p"
  show ?case
  proof (cases "p = []")
    case False
    show ?thesis
    proof (cases "?t = []")
      case True
      then obtain q where q: "p = 47 # q" using False by (cases p) (auto split: if_splits)
      then have "path_names p = path_names q" by (simp add: path_names_def)
      then show ?thesis using 1(1) [OF False refl refl True] q by (subst tokens.simps) simp
    next
      case t: False
      have "path_names p = ?t # path_names (tl ?r)"
      proof -
        have "filter (\<lambda>t. t \<noteq> []) (case r of [] \<Rightarrow> [] | _ # q \<Rightarrow> split_path q) = path_names (tl r)" for r
          by (cases r) (simp_all add: path_names_def)
        then show ?thesis using t by (subst path_names_def) (simp add: split_path_step [of p])
      qed
      then show ?thesis using 1(2) False t by (subst tokens.simps) (simp add: Let_def)
    qed
  qed (simp add: tokens.simps)
qed

lemma tokens_flags:
  "tokens p \<noteq> [] \<Longrightarrow> snd (last (tokens p)) = (last p \<noteq> 47) \<and> (\<forall>x \<in> set (butlast (tokens p)). \<not> snd x)"
proof (induction p rule: tokens.induct)
  case (1 p)
  let ?t = "takeWhile (\<lambda>c. c \<noteq> 47) p" and ?r = "dropWhile (\<lambda>c. c \<noteq> 47) p"
  have ne: "p \<noteq> []" using 1(3) by (auto simp: tokens.simps)
  show ?case
  proof (cases "?t = []")
    case True
    then obtain q where q: "p = 47 # q" using ne by (cases p) (auto split: if_splits)
    have e: "tokens p = tokens q" using q by (subst tokens.simps) simp
    then have "q \<noteq> []" using 1(3) by (auto simp: tokens.simps)
    then show ?thesis using 1(1) [OF ne refl refl True] 1(3) e q by simp
  next
    case t: False
    have e: "tokens p = (?t, ?r = []) # tokens (tl ?r)" using ne t by (subst tokens.simps) (simp add: Let_def)
    have pr: "p = ?t @ ?r" by simp
    show ?thesis
    proof (cases ?r)
      case Nil
      have "last p \<in> set ?t" using Nil pr ne by (metis append_Nil2 last_in_set)
      then have "last p \<noteq> 47" using set_takeWhileD by metis
      then show ?thesis using e Nil by (simp add: tokens.simps)
    next
      case (Cons c q)
      then have c: "c = 47" using hd_dropWhile [of "\<lambda>c. c \<noteq> 47" p] by auto
      have lp: "last p = last (47 # q)" using pr Cons c by (metis last_appendR list.discI)
      have IH: "tokens q \<noteq> [] \<Longrightarrow> snd (last (tokens q)) = (last q \<noteq> 47) \<and> (\<forall>x \<in> set (butlast (tokens q)). \<not> snd x)"
        using 1(2) [OF ne refl refl t] Cons by simp
      have z: "last (47 # q) = 47" if "tokens q = []"
      proof -
        have "path_names q = []" using that tokens_names [of q] by simp
        then have "\<forall>c \<in> set q. c = 47"
        proof (induction q)
          case (Cons a q)
          then show ?case by (auto simp: path_names_def split: if_splits)
        qed simp
        then show ?thesis by (cases q rule: rev_cases) auto
      qed
      show ?thesis
      proof (cases "tokens q = []")
        case True
        then show ?thesis using e Cons z lp by simp
      next
        case False
        then have "q \<noteq> []" by (auto simp: tokens.simps)
        then show ?thesis using e Cons IH [OF False] False lp by simp
      qed
    qed
  qed
qed

definition found :: "walk_result \<Rightarrow> (nat \<times> minix3_inode) option" where
  "found w = (case w of Walk_found k m \<Rightarrow> Some (k, m) | _ \<Rightarrow> None)"

definition needs_dir :: "bool \<Rightarrow> (nat \<times> minix3_inode) option \<Rightarrow> (nat \<times> minix3_inode) option" where
  "needs_dir b r = (case r of None \<Rightarrow> None | Some (k, m) \<Rightarrow> if b \<and> \<not> MINIX3_ISDIR (i_mode m) then None else Some (k, m))"

lemma resolve_not_dir: "\<not> MINIX3_ISDIR (i_mode n) \<Longrightarrow> ts \<noteq> [] \<Longrightarrow> resolve C fs ts (ino, n) = None"
  by (cases ts) (simp_all add: dir_find_def)

lemma resolve_same: "same_disk C fs fs' \<Longrightarrow> resolve C fs' ts x = resolve C fs ts x"
proof (induction ts arbitrary: x)
  case (Cons t ts)
  then show ?case by (cases x) (simp add: dir_find_def same_disk_sizes split: option.split)
qed simp

lemma walk_ok:
  assumes "healthy C fs" "dirs_reach C fs" "MINIX3_ISDIR (i_mode n) \<Longrightarrow> dir_blocks n fs \<le> max_blocks (pointers fs)"
    "\<forall>x \<in> set (butlast ts). \<not> snd x" "walk ts ino n fs = (w, fs')"
  shows "found w = needs_dir (ts \<noteq> [] \<and> \<not> snd (last ts)) (resolve C fs (map fst ts) (ino, n)) \<and> same_disk C fs fs'"
  using assms
proof (induction ts arbitrary: ino n fs)
  case Nil
  then show ?case by (auto simp: found_def needs_dir_def same_disk_refl)
next
  case (Cons x ts)
  obtain t l where x: "x = (t, l)" by fastforce
  obtain r1 fs1 where lk: "minix3_lookup n t fs = (r1, fs1)" by fastforce
  have L: "r1 = dir_find C fs n t" "same_disk C fs fs1" using lookup_same [OF Cons.prems(1,3) lk] by blast+
  show ?case
  proof (cases r1)
    case None
    then have d: "dir_find C fs n t = None" using L(1) by simp
    have "w = Walk_missing t l ino n" "fs' = fs1" using Cons.prems(5) None by (simp_all add: x lk)
    then show ?thesis using L(2) d by (simp add: x found_def needs_dir_def)
  next
    case (Some k)
    obtain r2 fs2 where rd: "minix3_read_inode k fs1 = (r2, fs2)" by fastforce
    note R = read_inode_same [OF same_disk_healthy [OF L(2)] rd]
    have s2: "same_disk C fs fs2" using same_disk_trans [OF L(2)] R by blast
    let ?in = "0 < k \<and> k \<le> s_ninodes (sb fs)"
    have d: "dir_find C fs n t = Some k" using L(1) Some by simp
    have r2: "r2 = (if ?in then Some (disk_inode C fs k) else None)" using R same_disk_sizes [OF L(2)] by simp
    show ?thesis
    proof (cases ?in)
      case False
      then have "r2 = None" using r2 by (simp only: if_False)
      then have "w = Walk_error" "fs' = fs2" using Cons.prems(5) Some by (simp_all add: x lk rd)
      then show ?thesis using s2 d False by (auto simp: x found_def needs_dir_def)
    next
      case True
      let ?m = "disk_inode C fs k"
      have res: "resolve C fs (map fst (x # ts)) (ino, n) = resolve C fs (map fst ts) (k, ?m)" using True d x by simp
      show ?thesis
      proof (cases "l \<or> \<not> MINIX3_ISDIR (i_mode ?m)")
        case stop: True
        have w: "w = (if l then Walk_found k ?m else Walk_error)" "fs' = fs2"
          using Cons.prems(5) Some r2 True stop by (auto simp: x lk rd split: if_splits)
        show ?thesis
        proof (cases "ts = []")
          case True
          then show ?thesis using w s2 stop unfolding res by (auto simp: found_def needs_dir_def x)
        next
          case False
          then have "\<not> l" using Cons.prems(4) x by auto
          then show ?thesis using w s2 stop False unfolding res by (simp add: found_def needs_dir_def resolve_not_dir)
        qed
      next
        case go: False
        then have w: "walk ts k ?m fs2 = (w, fs')" using Cons.prems(5) Some r2 True by (simp add: x lk rd)
        have db: "dir_blocks ?m fs2 \<le> max_blocks (pointers fs2)" using Cons.prems(2) go True by (simp add: dirs_reach_def same_disk_sizes [OF s2])
        have bl: "\<forall>x \<in> set (butlast ts). \<not> snd x" using Cons.prems(4) by (auto dest: in_set_butlastD split: if_splits)
        note I = Cons.IH [OF same_disk_healthy [OF s2] dirs_reach_same [OF s2 Cons.prems(2)] db bl w]
        have "needs_dir (ts \<noteq> [] \<and> \<not> snd (last ts)) q = needs_dir (x # ts \<noteq> [] \<and> \<not> snd (last (x # ts))) q"
          if "q = resolve C fs (map fst ts) (k, ?m)" for q
          using that go x by (cases "ts = []") (simp_all add: needs_dir_def)
        then show ?thesis using I same_disk_trans [OF s2] unfolding res resolve_same [OF s2] by simp
      qed
    qed
  qed
qed

lemma names_skip: "path_names (skip_slash p) = path_names p"
  by (cases p) (simp_all add: skip_slash_def path_names_def)

lemma last_skip: "path_names p \<noteq> [] \<Longrightarrow> last (skip_slash p) = last p"
  by (cases p; cases "tl p") (auto simp: skip_slash_def path_names_def)

lemma resolve_path_needs:
  "path_target C fs p = needs_dir (path_names p \<noteq> [] \<and> last p = 47) (resolve C fs (path_names p) (MINIX3_ROOT_INO, disk_inode C fs MINIX3_ROOT_INO))"
  by (simp add: path_target_def needs_dir_def split: option.split)

text \<open>The walk from the root that \<^verbatim>\<open>open\<close> and \<^verbatim>\<open>lookup_directory_by_path\<close> share.\<close>

lemma walk_path:
  assumes "healthy C fs" "dirs_reach C fs" "0 < s_ninodes (sb fs)" "walk (tokens (skip_slash p)) MINIX3_ROOT_INO (disk_inode C fs MINIX3_ROOT_INO) fs = (w, fs')"
  shows "found w = path_target C fs p \<and> same_disk C fs fs'"
proof -
  let ?n = "disk_inode C fs MINIX3_ROOT_INO" and ?ts = "tokens (skip_slash p)"
  have e: "?ts = [] \<longleftrightarrow> path_names p = []" using tokens_names [of "skip_slash p"] unfolding names_skip by (metis map_is_Nil_conv)
  have r: "MINIX3_ISDIR (i_mode ?n) \<Longrightarrow> dir_blocks ?n fs \<le> max_blocks (pointers fs)" using assms(2,3) by (simp add: dirs_reach_def MINIX3_ROOT_INO_def)
  have fl: "\<forall>x \<in> set (butlast ?ts). \<not> snd x" "?ts \<noteq> [] \<Longrightarrow> snd (last ?ts) = (last p \<noteq> 47)"
    using tokens_flags [of "skip_slash p"] last_skip [of p] e by fastforce+
  show ?thesis using walk_ok [OF assms(1,2) r fl(1) assms(4)] fl(2) e
    unfolding resolve_path_needs tokens_names names_skip by (cases "?ts = []") (simp_all add: needs_dir_def split: option.split)
qed

lemma lookup_directory_ok:
  assumes "healthy C fs" "dirs_reach C fs" "0 < s_ninodes (sb fs)" "length p \<le> 255" "lookup_directory_by_path p fs = (r, fs')"
  shows "same_disk C fs fs' \<and> r = (if p = [] \<or> p = [47] then Some (MINIX3_ROOT_INO, disk_inode C fs MINIX3_ROOT_INO) else needs_dir True (path_target C fs p))"
proof -
  obtain r1 fs1 where rd: "minix3_read_inode MINIX3_ROOT_INO fs = (r1, fs1)" by fastforce
  have R: "r1 = Some (disk_inode C fs MINIX3_ROOT_INO)" "same_disk C fs fs1"
    using read_inode_same [OF assms(1) rd] assms(3) by (simp_all add: MINIX3_ROOT_INO_def)
  show ?thesis
  proof (cases "p = [] \<or> p = [47]")
    case False
    have t: "take 255 (skip_slash p) = skip_slash p" using assms(4) by (cases p) (auto simp: skip_slash_def)
    obtain w fs2 where w: "walk (tokens (skip_slash p)) MINIX3_ROOT_INO (disk_inode C fs1 MINIX3_ROOT_INO) fs1 = (w, fs2)" by fastforce
    note W = walk_path [OF same_disk_healthy [OF R(2)] dirs_reach_same [OF R(2) assms(2)] _ w, unfolded same_disk_sizes [OF R(2)], OF assms(3)]
    have rp: "path_target C fs1 p = path_target C fs p" by (simp add: path_target_def resolve_same [OF R(2)] same_disk_sizes [OF R(2)])
    have l: "lookup_directory_by_path p fs = (needs_dir True (found w), fs2)"
      using False w t R by (auto simp: lookup_directory_by_path_def rd found_def needs_dir_def same_disk_sizes split: walk_result.split)
    show ?thesis using l assms(5) W False same_disk_trans [OF R(2)] by (simp add: rp)
  qed (use assms(5) R in \<open>auto simp: lookup_directory_by_path_def rd\<close>)
qed

lemma open_ok:
  assumes "healthy C fs" "dirs_reach C fs" "0 < s_ninodes (sb fs)" "length path \<le> 255" "skip_slash path \<noteq> dot_name"
    "oflags AND O_CREAT = 0" "oflags AND O_TRUNC = 0" "minix3_vfs_open now True path oflags mode fs = (r, fs')"
  shows "map_option (\<lambda>f. (mf_inode_num f, mf_inode f)) r = path_target C fs path" "same_disk C fs fs'" "\<And>f. r = Some f \<Longrightarrow> \<not> mf_dirty f"
proof -
  obtain r1 fs1 where rd: "minix3_read_inode MINIX3_ROOT_INO fs = (r1, fs1)" by fastforce
  have R: "r1 = Some (disk_inode C fs MINIX3_ROOT_INO)" "same_disk C fs fs1"
    using read_inode_same [OF assms(1) rd] assms(3) by (simp_all add: MINIX3_ROOT_INO_def)
  let ?g = "\<lambda>f. (mf_inode_num f, mf_inode f)"
  have "map_option ?g r = path_target C fs path \<and> same_disk C fs fs' \<and> (\<forall>f. r = Some f \<longrightarrow> \<not> mf_dirty f)"
  proof (cases "skip_slash path = []")
    case True
    then have "path_names path = []" by (metis names_skip path_names_empty)
    then show ?thesis using True assms(8) R by (auto simp: minix3_vfs_open_def rd new_file_def path_target_def)
  next
    case False
    have t: "take 255 (skip_slash path) = skip_slash path" using assms(4) by (cases path) (auto simp: skip_slash_def)
    obtain w fs2 where w: "walk (tokens (skip_slash path)) MINIX3_ROOT_INO (disk_inode C fs1 MINIX3_ROOT_INO) fs1 = (w, fs2)" by fastforce
    note W = walk_path [OF same_disk_healthy [OF R(2)] dirs_reach_same [OF R(2) assms(2)] _ w, unfolded same_disk_sizes [OF R(2)], OF assms(3)]
    have rp: "path_target C fs1 path = path_target C fs path" by (simp add: path_target_def resolve_same [OF R(2)] same_disk_sizes [OF R(2)])
    have w1: "walk (tokens (skip_slash path)) MINIX3_ROOT_INO (disk_inode C fs MINIX3_ROOT_INO) fs1 = (w, fs2)"
      using w by (simp add: same_disk_sizes [OF R(2)])
    have "map_option ?g r = found w \<and> fs' = fs2 \<and> (\<forall>f. r = Some f \<longrightarrow> \<not> mf_dirty f)"
      using assms(5-8) False R(1) by (cases w) (auto simp: minix3_vfs_open_def rd t w1 found_def new_file_def Let_def split: if_splits)
    then show ?thesis using W same_disk_trans [OF R(2)] by (simp add: rp)
  qed
  then show "map_option ?g r = path_target C fs path" "same_disk C fs fs'" "\<And>f. r = Some f \<Longrightarrow> \<not> mf_dirty f" by blast+
qed

text \<open>
  Opening an existing file follows the path. Without \<^verbatim>\<open>O_CREAT\<close> and \<^verbatim>\<open>O_TRUNC\<close>, \<^verbatim>\<open>minix3_vfs_open\<close> opens the inode that
  looking up the names of the path one after the other gives, with empty names passed over and a directory demanded before every
  slash, fails exactly when there is none, and changes nothing on the disk and nothing in memory but the block cache.
\<close>

theorem minix3_open_resolves:
  assumes "healthy C fs" "dirs_reach C fs" "0 < s_ninodes (sb fs)" "length path \<le> 255" "skip_slash path \<noteq> dot_name"
    "oflags AND O_CREAT = 0" "oflags AND O_TRUNC = 0" "minix3_vfs_open now True path oflags mode fs = (r, fs')"
  shows "map_option (\<lambda>f. (mf_inode_num f, mf_inode f)) r = path_target C fs path \<and> disk C fs' = disk C fs \<and> fs' = fs\<lparr>blk := blk fs'\<rparr>"
  using open_ok(1,2) [OF assms] unfolding same_disk_def by blast

lemma stat_ok:
  assumes "healthy C fs" "dirs_reach C fs" "0 < s_ninodes (sb fs)" "length path \<le> 255" "skip_slash path \<noteq> dot_name"
    "minix3_vfs_stat now True path fs = (r, fs')"
  shows "same_disk C fs fs' \<and> r = map_option (\<lambda>(ino, n). \<lparr>st_type = dt_of (i_mode n), st_mode = ucast (i_mode n), st_uid = i_uid n, st_gid = i_gid n,
    st_size = i_size n, st_inode = ino, st_ctime = i_ctime n, st_mtime = i_mtime n\<rparr>) (path_target C fs path)"
proof -
  obtain q fs1 where o: "minix3_vfs_open now True path 1 0 fs = (q, fs1)" by fastforce
  have fl: "(1 :: u32) AND O_CREAT = 0" "(1 :: u32) AND O_TRUNC = 0" by (simp_all add: O_CREAT_def O_TRUNC_def)
  note O = open_ok [OF assms(1-5) fl o]
  show ?thesis
  proof (cases q)
    case None
    then show ?thesis using O(1,2) assms(6) by (simp add: minix3_vfs_stat_def o)
  next
    case (Some f)
    then show ?thesis using O(1) [symmetric] O(2,3) assms(6) by (simp add: minix3_vfs_stat_def o minix3_vfs_close_def Let_def)
  qed
qed

section \<open>Operations that only read\<close>

lemma readdir_same: "healthy C fs \<Longrightarrow> readdir_loop n ps e fs = (r, fs') \<Longrightarrow> same_disk C fs fs'"
proof (induction ps arbitrary: fs)
  case (Cons p ps)
  let ?b = "p div (block_size fs div 64)"
  obtain z fs1 where bm: "minix3_bmap n ?b fs = (z, fs1)" by fastforce
  note B = bmap_same [OF Cons.prems(1) bm]
  show ?case
  proof (cases z)
    case (Some k)
    show ?thesis
    proof (cases "k = 0")
      case True
      then have "readdir_loop n ps e fs1 = (r, fs')" using Cons.prems(2) Some by (simp add: bm)
      then show ?thesis using Cons.IH [OF same_disk_healthy [OF B]] same_disk_trans [OF B] by blast
    next
      case False
      obtain ok buf fs2 where rb: "read_block k fs1 = (ok, buf, fs2)" by (metis prod_cases3)
      have R: ok "same_disk C fs fs2" using read_block_same [OF same_disk_healthy [OF B] rb] same_disk_trans [OF B] by blast+
      let ?i = "p mod (block_size fs2 div 64)"
      let ?ino = "de_inode (dirent_at buf ?i)"
      show ?thesis
      proof (cases "?ino = 0")
        case True
        then have "readdir_loop n ps e fs2 = (r, fs')" using Cons.prems(2) Some False R by (simp add: bm rb Let_def)
        then show ?thesis using Cons.IH [OF same_disk_healthy [OF R(2)]] same_disk_trans [OF R(2)] by blast
      next
        case ino: False
        obtain m fs3 where rd: "minix3_read_inode ?ino fs2 = (m, fs3)" by fastforce
        have "fs' = fs3" using Cons.prems(2) Some False R ino by (simp add: bm rb Let_def rd)
        then show ?thesis using read_inode_same [OF same_disk_healthy [OF R(2)] rd] same_disk_trans [OF R(2)] by blast
      qed
    qed
  qed (use Cons.prems B in \<open>simp add: bm\<close>)
qed (simp add: same_disk_refl)

lemma name_in_dir_same: "healthy C fs \<Longrightarrow> name_in_dir ino n bs fs = (r, fs') \<Longrightarrow> same_disk C fs fs'"
proof (induction bs arbitrary: fs)
  case (Cons b bs)
  obtain z fs1 where bm: "minix3_bmap n b fs = (z, fs1)" by fastforce
  note B = bmap_same [OF Cons.prems(1) bm]
  show ?case
  proof (cases "z = None \<or> z = Some 0")
    case True
    then have "name_in_dir ino n bs fs1 = (r, fs') \<or> fs' = fs1" using Cons.prems(2) by (auto simp: bm)
    then show ?thesis using Cons.IH [OF same_disk_healthy [OF B]] same_disk_trans [OF B] B by blast
  next
    case False
    then obtain k where k: "z = Some k" "k \<noteq> 0" by auto
    obtain ok buf fs2 where rb: "read_block k fs1 = (ok, buf, fs2)" by (metis prod_cases3)
    have R: ok "same_disk C fs fs2" using read_block_same [OF same_disk_healthy [OF B] rb] same_disk_trans [OF B] by blast+
    have "name_in_dir ino n bs fs2 = (r, fs') \<or> fs' = fs2" using Cons.prems(2) k R(1) by (simp add: bm rb split: option.splits)
    then show ?thesis using Cons.IH [OF same_disk_healthy [OF R(2)]] same_disk_trans [OF R(2)] R(2) by blast
  qed
qed (simp add: same_disk_refl)

lemma find_parent_same: "healthy C fs \<Longrightarrow> find_parent ino ds fs = (r, fs') \<Longrightarrow> same_disk C fs fs'"
proof (induction ds arbitrary: fs)
  case (Cons d ds)
  obtain m fs1 where rd: "minix3_read_inode d fs = (m, fs1)" by fastforce
  have R: "same_disk C fs fs1" using read_inode_same [OF Cons.prems(1) rd] by blast
  obtain q fs2 where nd: "name_in_dir ino (the m) [0..<dir_blocks (the m) fs1] fs1 = (q, fs2)" by fastforce
  have N: "same_disk C fs fs2" using name_in_dir_same [OF same_disk_healthy [OF R] nd] same_disk_trans [OF R] by blast
  have "find_parent ino ds fs = (r, fs') \<or> find_parent ino ds fs1 = (r, fs') \<or> find_parent ino ds fs2 = (r, fs') \<or> fs' = fs2"
    using Cons.prems(2) nd by (auto simp: rd split: option.splits if_splits)
  then show ?case using Cons.IH [OF Cons.prems(1)] Cons.IH [OF same_disk_healthy [OF R]] Cons.IH [OF same_disk_healthy [OF N]]
      same_disk_trans [OF R] same_disk_trans [OF N] N by blast
qed (simp add: same_disk_refl)

text \<open>The climb reads only, and the path it builds has no null byte and fits the buffer with one byte to spare.\<close>

lemma name_in_dir_zero: "name_in_dir ino n bs fs = (Some name, fs') \<Longrightarrow> 0 \<notin> set name"
  by (induction bs arbitrary: fs) (auto split: option.splits prod.splits if_splits dest: set_takeWhileD)

lemma find_parent_zero: "find_parent ino ds fs = (Some (d, name), fs') \<Longrightarrow> 0 \<notin> set name"
  by (induction ds arbitrary: fs) (auto split: option.splits prod.splits if_splits dest: name_in_dir_zero)

lemma climb_ok:
  "healthy C fs \<Longrightarrow> climb ino path fs = (r, fs') \<Longrightarrow> 0 \<notin> set path \<Longrightarrow> length path < 256 \<Longrightarrow>
    same_disk C fs fs' \<and> (\<forall>p. r = Some p \<longrightarrow> 0 \<notin> set p \<and> length p < 256)"
proof (induction ino path fs rule: climb.induct)
  case (1 ino path fs)
  show ?case
  proof (cases "ino = MINIX3_ROOT_INO")
    case True
    then show ?thesis using 1(2-) by (subst (asm) climb.simps) (auto simp: same_disk_refl)
  next
    case False
    obtain q fs1 where fp: "find_parent ino [1..<s_ninodes (sb fs) + 1] fs = (q, fs1)" by fastforce
    note F = find_parent_same [OF 1(2) fp]
    show ?thesis
    proof (cases q)
      case None
      then show ?thesis using 1(3) False F fp by (subst (asm) climb.simps) simp
    next
      case (Some t)
      obtain d name where t: "t = (d, name)" by fastforce
      have z: "0 \<notin> set name" using fp Some t find_parent_zero by blast
      show ?thesis
      proof (cases "name = [] \<or> length path + length name + 1 \<ge> 256")
        case True
        then show ?thesis using 1(3) False F fp Some t by (subst (asm) climb.simps) simp
      next
        case go: False
        have c: "climb d (47 # name @ path) fs1 = (r, fs')" using 1(3) False fp Some t go by (subst (asm) climb.simps) simp
        show ?thesis using 1(1) [OF False fp [symmetric] _ _ go, unfolded Some t, OF refl refl same_disk_healthy [OF F] c] same_disk_trans [OF F] z 1(4) go by simp
      qed
    qed
  qed
qed

lemma climb_longer: "climb ino path fs = (Some p, fs') \<Longrightarrow> ino \<noteq> MINIX3_ROOT_INO \<Longrightarrow> length path < length p"
proof (induction ino path fs rule: climb.induct)
  case (1 ino path fs)
  obtain q fs1 where fp: "find_parent ino [1..<s_ninodes (sb fs) + 1] fs = (q, fs1)" by fastforce
  obtain d name where q: "q = Some (d, name)" using 1(2,3) fp by (cases q) (auto simp: climb.simps [of ino path fs])
  have go: "\<not> (name = [] \<or> length path + length name + 1 \<ge> 256)" using 1(2,3) fp q by (subst (asm) climb.simps) (auto split: if_splits)
  then have c: "climb d (47 # name @ path) fs1 = (Some p, fs')" using 1(2,3) fp q by (subst (asm) climb.simps) simp
  show ?case
  proof (cases "d = MINIX3_ROOT_INO")
    case True
    then show ?thesis using c by (subst (asm) climb.simps) auto
  next
    case False
    then show ?thesis using 1(1) [OF 1(3) fp [symmetric] _ _ go c] q by fastforce
  qed
qed

text \<open>
  The path that \<^verbatim>\<open>minix3_vfs_getpath\<close> delivers for a file other than the root has no null byte when the byte of the stack
  behind it has none: nothing ends the string in the caller's buffer.
\<close>

theorem minix3_getpath_unterminated:
  assumes "healthy C fs" "mf_inode_num f \<noteq> MINIX3_ROOT_INO" "junk \<noteq> 0" "minix3_vfs_getpath junk f bufsize fs = (Some buf, fs')"
  shows "0 \<notin> set buf \<and> length buf \<le> bufsize"
proof -
  obtain r fs1 where c: "climb (mf_inode_num f) [] fs = (r, fs1)" by fastforce
  note K = climb_ok [OF assms(1) c, simplified]
  obtain path where r: "r = Some path" using assms(2,4) c by (cases r) (auto simp: minix3_vfs_getpath_def)
  have "path \<noteq> []"
  proof
    assume "path = []"
    then have "climb (mf_inode_num f) [] fs = (Some [], fs1)" using c r by simp
    then show False using climb_longer [OF _ assms(2)] by fastforce
  qed
  then show ?thesis using assms(2-4) c r K by (auto simp: minix3_vfs_getpath_def split: if_splits)
qed

section \<open>A disk with a directory\<close>

definition file_inode :: minix3_inode where
  "file_inode = (new_inode 0 0x81A4)\<lparr>i_size := 5\<rparr>"

definition root_dir :: minix3_inode where
  "root_dir = (new_inode 0 0x41ED)\<lparr>i_size := 1024, i_zone := 8 # replicate 9 0\<rparr>"

definition tree_blocks :: "block_key \<Rightarrow> block" where
  "tree_blocks = (\<lambda>(_, _, s). if s = 8 then inode_bytes root_dir @ inode_bytes file_inode @ replicate 384 0
     else if s = 16 then dirent_bytes (new_dirent [97] 2) @ replicate 448 0 else replicate 512 0)"

definition tree_fs :: "(block_key \<Rightarrow> block) minix3" where
  "tree_fs = ram_fs\<lparr>blk := ram_state\<lparr>hw := tree_blocks\<rparr>\<rparr>"

lemma tree_lengths: "length (inode_bytes root_dir) = 64" "length (inode_bytes file_inode) = 64" "length (dirent_bytes (new_dirent [97] 2)) = 64"
  by (simp_all add: length_inode_bytes root_dir_def file_inode_def new_inode_def length_dirent_bytes new_dirent_ok)

lemma tree_healthy: "healthy (\<lambda>h. h) tree_fs"
  by (simp add: healthy_def tree_fs_def ram_fs_def coherent_def cache_inv_def ram_state_def dev_laws_def ram_ops_def find_block_device_def
      MAX_BLOCK_DEVICES_def tree_blocks_def tree_lengths split: prod.split)

lemma tree_disk:
  "disk (\<lambda>h. h) tree_fs 4 = inode_bytes root_dir @ inode_bytes file_inode @ replicate 384 0 @ replicate 512 0"
  "disk (\<lambda>h. h) tree_fs 8 = dirent_bytes (new_dirent [97] 2) @ replicate 448 0 @ replicate 512 0"
  by (simp_all add: disk_def tree_fs_def ram_fs_def ram_state_def sectors_per_block_def first_sector_def tree_blocks_def upt_rec)

lemma tree_inodes: "disk_inode (\<lambda>h. h) tree_fs 1 = root_dir" "disk_inode (\<lambda>h. h) tree_fs 2 = file_inode"
proof -
  have i: "inode_ok root_dir" "inode_ok file_inode" by (simp_all add: inode_ok_def root_dir_def file_inode_def new_inode_def)
  have p: "inode_place 1 tree_fs = (4, 0)" "inode_place 2 tree_fs = (4, 64)"
    by (simp_all add: inode_place_def tree_fs_def ram_fs_def MINIX3_INODE_SIZE_def)
  show "disk_inode (\<lambda>h. h) tree_fs 1 = root_dir" unfolding disk_inode_def p prod.case tree_disk
    by (subst inode_decode [OF i(1), symmetric]) (rule inode_at_cong, simp add: nth_append tree_lengths)
  show "disk_inode (\<lambda>h. h) tree_fs 2 = file_inode" unfolding disk_inode_def p prod.case tree_disk
    by (subst inode_decode [OF i(2), symmetric]) (rule inode_at_cong, simp add: nth_append tree_lengths)
qed

lemma tree_reach: "dirs_reach (\<lambda>h. h) tree_fs"
proof -
  have "\<not> MINIX3_ISDIR (i_mode (disk_inode (\<lambda>h. h) tree_fs k))" if "3 \<le> k" "k \<le> 16" for k
  proof -
    have l: "(k - 1) * 64 < 1024" "128 \<le> (k - 1) * 64" using that by simp_all
    then have p: "inode_place k tree_fs = (4, (k - 1) * 64)" by (simp add: inode_place_def tree_fs_def ram_fs_def MINIX3_INODE_SIZE_def)
    have z: "disk (\<lambda>h. h) tree_fs 4 ! i = 0" if "128 \<le> i" "i < 1024" for i
    proof -
      have "\<not> i - 64 < 64" using that by linarith
      then show ?thesis unfolding tree_disk using that by (simp add: nth_append tree_lengths)
    qed
    have "le16 (disk (\<lambda>h. h) tree_fs 4) ((k - 1) * 64) = 0" using z [of "(k - 1) * 64"] z [of "(k - 1) * 64 + 1"] l that by (simp add: le16_def)
    then show ?thesis by (simp add: disk_inode_def p inode_at_def MINIX3_ISDIR_def)
  qed
  moreover have "dir_blocks root_dir tree_fs \<le> max_blocks (pointers tree_fs)"
    by (simp add: dir_blocks_def root_dir_def new_inode_def tree_fs_def ram_fs_def max_blocks_def)
  moreover have "\<not> MINIX3_ISDIR (i_mode file_inode)" by (simp add: MINIX3_ISDIR_def file_inode_def new_inode_def)
  moreover have "k = 1 \<or> k = 2 \<or> 3 \<le> k" if "0 < k" for k :: nat using that by linarith
  moreover have "s_ninodes (sb tree_fs) = 16" by (simp add: tree_fs_def ram_fs_def)
  ultimately show ?thesis unfolding dirs_reach_def using tree_inodes by metis
qed

lemma tree_lookup: "dir_find (\<lambda>h. h) tree_fs root_dir [97] = Some 2"
proof -
  have d: "dir_blocks root_dir tree_fs = 1" "pointers tree_fs = 256" "block_size tree_fs div 64 = 16"
    by (simp_all add: dir_blocks_def root_dir_def new_inode_def tree_fs_def ram_fs_def)
  have z: "file_zone (\<lambda>h. h) tree_fs root_dir (block_slot 256 0) = 8"
    by (simp add: file_zone_def block_slot_def root_dir_def)
  have e: "dirent_at (disk (\<lambda>h. h) tree_fs 8) 0 = new_dirent [97] 2"
    by (rule dirent_at_bytes) (simp_all add: tree_disk nth_append tree_lengths new_dirent_ok)
  have "dir_entries (\<lambda>h. h) tree_fs root_dir = map (dirent_at (disk (\<lambda>h. h) tree_fs 8)) [0..<16]"
    by (simp add: dir_entries_def d block_entries_def z)
  also have "\<dots> = new_dirent [97] 2 # map (dirent_at (disk (\<lambda>h. h) tree_fs 8)) [1..<16]" using e by (simp add: upt_conv_Cons)
  finally have "find (wanted [97]) (dir_entries (\<lambda>h. h) tree_fs root_dir) = Some (new_dirent [97] 2)"
    using wanted_new [of "[97]" "[97]" 2] by simp
  then show ?thesis by (simp add: dir_find_def MINIX3_ISDIR_def new_dirent_def) (simp add: root_dir_def new_inode_def)
qed

lemma tree_resolve: "path_target (\<lambda>h. h) tree_fs [47, 97] = Some (2, file_inode)"
proof -
  have "path_names [47, 97] = [[97]]" by (simp add: path_names_def)
  moreover have "s_ninodes (sb tree_fs) = 16" by (simp add: tree_fs_def ram_fs_def)
  ultimately show ?thesis using tree_lookup by (simp add: path_target_def MINIX3_ROOT_INO_def tree_inodes tree_inodes(1) [unfolded One_nat_def])
qed

theorem minix3_open_resolves_witness:
  "\<exists>f fs'. minix3_vfs_open 0 True [47, 97] 1 0 tree_fs = (Some f, fs') \<and> mf_inode_num f = 2 \<and> mf_inode f = file_inode"
proof -
  obtain r fs' where o: "minix3_vfs_open 0 True [47, 97] 1 0 tree_fs = (r, fs')" by fastforce
  have h: "0 < s_ninodes (sb tree_fs)" "length [47, 97 :: u8] \<le> 255" "skip_slash [47, 97] \<noteq> dot_name"
    "(1 :: u32) AND O_CREAT = 0" "(1 :: u32) AND O_TRUNC = 0"
    by (simp_all add: tree_fs_def ram_fs_def skip_slash_def dot_name_def O_CREAT_def O_TRUNC_def)
  show ?thesis using minix3_open_resolves [OF tree_healthy tree_reach h o] tree_resolve o by auto
qed

end
