(* ===== verification/Spec2Isabelle.thy ===== *)
theory Spec2Isabelle
  imports Vmalloc Slab Fifo Block_Cache Locks Vfs_Path Exec_Run Tmpfs_Tree Net_Proto Minix3_Path
begin

text \<open>
  Verification of the Scepter kernel, a monolithic Unix-like kernel in C for the i386.

  The program. Physical pages come from a bitmap allocator, small objects from slabs above it, device mappings from
  a page bitmap with a region table. Tasks have a list of open descriptors, an ordered list of memory areas, a two-level
  page table, signal state and links to their parent and children; one function picks the next task to run. Open files
  are shared between tasks with reference counts and carry locks; pipes and FIFOs hang below them; paths are resolved
  against a root, a working directory and a table of mounts. Block devices are read and written through an LRU cache.
  System calls combine all of this; the largest are fork, exit, wait and exec.

  Theories, with their sources, in the order of their dependence.

  \<^item> \<open>Scepter_Prelude\<close>: words, 32-bit counters and lists; nothing of the program.
  \<^item> \<open>Page_Alloc\<close> (\<^verbatim>\<open>mm/buddy.c\<close>): the bitmap as a function, the two counters, the search loop. Shown: first
    fit, exact marking, freeing as the inverse.
  \<^item> \<open>Slab\<close> (\<^verbatim>\<open>mm/slab.c\<close>): slab headers and free chains threaded through the words of the pages, the lists of
    partial and full slabs per size. Shown: a well-formedness invariant of the chains; an allocated object is fresh and
    large enough; freeing releases exactly one object.
  \<^item> \<open>Pipe\<close>, \<open>Fifo\<close> (\<^verbatim>\<open>fs/pipe.c\<close>, \<^verbatim>\<open>fs/fifo.c\<close>): the ring buffer, blocking transfers against
    a list of environments (what the other tasks have done at each wake-up), the registry of named pipes. Shown: a pipe is
    a byte queue; blocking transfers; life time of the buffer; registry and live pipes agree.
  \<^item> \<open>Block_Cache\<close> (\<^verbatim>\<open>driver/block/cache.c\<close>, \<^verbatim>\<open>block.c\<close>): the entries in LRU order; \<^verbatim>\<open>bwrite\<close>, insertion,
    eviction and write-back call each other and form one recursive function with a measure. The disk drivers are
    parameters with the laws of a disk (\<open>dev_laws\<close>). Shown: coherence; reads and writes are those of the disk; flushing.
  \<^item> \<open>Sched\<close> (\<^verbatim>\<open>kernel/sched.c\<close>): tasks, the task list, wait queues, choice and switch. Shown: the choice is by
    priority; at most one task runs, on its own stack and directory; starvation of a third equal task.
  \<^item> \<open>Paging\<close> (\<^verbatim>\<open>arch/i386/paging.c\<close>, \<^verbatim>\<open>uaccess.c\<close>): two-level tables as partial functions, physical
    memory as a function, user copies that may fault. Shown: the range check and its hole; the copy of an address space.
  \<^item> \<open>Signal\<close> (\<^verbatim>\<open>kernel/signal.c\<close>, \<^verbatim>\<open>timer_tick\<close>): dispositions, masks, sending, delivery to a handler
    frame on the user stack, return, timers. Shown: SIGKILL and SIGSTOP stay deliverable; the lowest signal is taken;
    return from a handler; timers fire.
  \<^item> \<open>Vmalloc\<close> (\<^verbatim>\<open>mm/vmalloc.c\<close>): bitmap, region table and the boot directory. Shown: mapping and its inverse.
  \<^item> \<open>Vma\<close> (\<^verbatim>\<open>mm/vma.c\<close>, four calls of \<^verbatim>\<open>kernel/syscall.c\<close>): ordered disjoint areas; brk, mmap,
    mprotect, munmap. Shown: termination of the search for space; first fit, from a hint or not, keeps the areas disjoint
    unless the length wraps.
  \<^item> \<open>Open_File\<close>, \<open>Locks\<close>, \<open>Vfs_Path\<close> (\<^verbatim>\<open>fs/vfs.c\<close>, \<^verbatim>\<open>fs/locks.c\<close>): reference counts of shared
    open files, locks on them, path resolution, mounts and access. Shown: counts are exact under every operation, and the
    numbers stay in order until one reaches the greatest \<^verbatim>\<open>int\<close>; the last close releases; locks exclude, record locks byte
    for byte as long as their ranges do not wrap; below the root, resolution is the root and the lexical normal form.
  \<^item> \<open>Process\<close>, \<open>Fork\<close>, \<open>Exit_Wait\<close>, \<open>Exec\<close> (\<^verbatim>\<open>kernel/process.c\<close>): the operations over all
    of the above together, with a step relation for the process table. Shown: the family tree of the processes; the
    exit status arrives at the parent; a forked child shares files and no memory; the argument block of a new program.
  \<^item> \<open>Elf\<close>, \<open>Elf_Image\<close> (\<^verbatim>\<open>kernel/elf.c\<close>): headers decoded from the bytes of the file, segments, merged regions,
    the page loop, the flat loader. A file is its bytes and the length that each read returns. Shown: the insertion sort is
    the stable sort; the memory that is built is the image the headers describe.
  \<^item> \<open>Exec_Process\<close>, \<open>Exec_Run\<close> (\<^verbatim>\<open>kernel/process.c\<close>, \<^verbatim>\<open>kernel/spawn.c\<close>): the replacement of the program and
    the start of init. Shown: an exec whose file cannot be opened or has a bad header changes nothing but the name and
    the next descriptor number of the caller; one that succeeds installs the image, the arguments and the descriptors that
    are to stay.
  \<^item> \<open>Tmpfs\<close>, \<open>Tmpfs_Data\<close>, \<open>Tmpfs_Tree\<close> (\<^verbatim>\<open>fs/tmpfs.c\<close>): nodes and handles at addresses, one definition per
    driver operation; loops that may not end are partial functions. Shown: a file is an array of bytes up to two
    gigabytes; the nodes stay a tree with exact reference counts until an unmount or a removal of the mount point; a
    removed file lives while it is open.
  \<^item> \<open>Net\<close>, \<open>Net_Queue\<close>, \<open>Net_Proto\<close> (\<^verbatim>\<open>net/\<close>, \<^verbatim>\<open>kernel/syscalls_net.c\<close>): packets linked through their next
    fields, the receive and transmit paths as one mutual recursion whose end rests on replies not being answered for ever.
    Shown: no packet is lost; queues are first in, first out; a ping on the loopback interface comes back; what is wrong
    in the replies.
  \<^item> \<open>Minix3\<close> (\<^verbatim>\<open>fs/minix3/\<close>): super block, bitmaps, inodes, block map, files and directories as functions of the
    mounted file system, whose blocks are read and written through \<open>Block_Cache\<close>. \<open>Minix3_Disk\<close>: blocks of a device that
    does not fail; the interface \<open>block_store\<close>. \<open>Minix3_Map\<close>, \<open>Minix3_Alloc\<close>: the bitmap search; the places of zone
    numbers as a tree, to which every step of an allocation adds one unused zone (\<open>grows\<close>). \<open>Minix3_File\<close>,
    \<open>Minix3_Rw\<close>: a file is the bytes of its zones; reads deliver and writes replace them, in this file only, but a write into
    a hole exposes old bytes of the disk. \<open>Minix3_Inode\<close>, \<open>Minix3_Dir\<close>: inodes and names that were stored are found again.
    \<open>Minix3_Vfs\<close> (\<^verbatim>\<open>minix3.c\<close>): the functions of the driver, one definition each. \<open>Minix3_Path\<close>: opening follows the names of
    the path and changes nothing on the disk.

  Conventions. C integers of 32 bits are words, or naturals reduced by \<open>w32\<close> where the code only counts; sums of signed
  integers that a program can drive out of range (descriptor numbers, nice values, offsets) are reduced by \<open>wrap32\<close>, which
  is what the compiled code does where C leaves the overflow open; reference counts are integers without a bound, since
  \<open>2 ^ 31\<close> descriptors do not fit into the memory of the machine. Errors are negative integers as in the code. A page fault in the kernel is the value \<open>None\<close>. A call that may sleep takes the list
  of what the other tasks do at each wake-up and answers that it is asleep when the list is used up, so no fuel is
  needed; loops of the code are recursive functions with a measure. What an allocation of an object answers is
  a list of booleans where the code checks it.

  Interfaces are locales: an allocator of pages for the slabs, the device for the cache, the maps between descriptors
  and files; each is interpreted on the definitions of the component that provides it.

  Not modelled. Assembly, traps and interrupt entry, the register switch and TLB flushes; hardware drivers
  (disks, network card, keyboard, screen, ACPI, PCI); logging. The disk of \<open>Block_Cache\<close> is an ideal one: its partitions
  are devices of their own, while the partition layer of the code calls the cache again. The ext2 file system, and the device
  and process file systems. In \<open>Open_File\<close> and \<open>Vfs_Path\<close> the drivers appear as events of opening and closing and as a
  parameter for the attributes of a file; the two drivers that are modelled, \<open>Tmpfs\<close> and \<open>Minix3_Vfs\<close>, are developments of
  their own below this boundary. The x86_64 port repeats the i386 one. User space under
  \<^verbatim>\<open>crt\<close> is not part of the kernel. Interrupts are steps between operations, not inside them.
\<close>

end
